(* ===== verification/Prelude.thy ===== *)
theory Prelude
  imports Main "HOL-Library.Monad_Syntax" "HOL-Library.Multiset"
begin

text \<open>
  What every component of the development shares: C memory blocks whose cells may be
  uninitialised, C's signed \<open>long\<close> subtraction, loops over an index range that may fail,
  and the list lemmas about swapping two cells.

  A C operation that trips an \<open>assert\<close>, reads an uninitialised cell or leaves its
  memory block has the value \<^const>\<open>None\<close>; every other result is \<^const>\<open>Some\<close>.
\<close>

named_theorems mem_simps \<open>reading, writing and allocating C memory blocks\<close>

named_theorems abs_simps \<open>the abstract value of a container after an operation\<close>

text \<open>\<open>IntOrP\<close> of \<open>BASICS/clb_defines.h\<close>: an integer or a pointer.\<close>

datatype 'p IntOrP = i_val int | p_val 'p

section \<open>Memory blocks\<close>

type_synonym 'a mem = "'a option list"

text \<open>\<open>SizeMalloc\<close> returns uninitialised cells.\<close>

definition mem_alloc :: "nat \<Rightarrow> 'a mem" where
  "mem_alloc n = replicate n None"

definition mem_get :: "'a mem \<Rightarrow> nat \<Rightarrow> 'a option" where
  "mem_get m i = (if i < length m then m ! i else None)"

definition mem_set :: "'a mem \<Rightarrow> nat \<Rightarrow> 'a \<Rightarrow> 'a mem option" where
  "mem_set m i x = (if i < length m then Some (m[i := Some x]) else None)"

text \<open>\<open>memcpy(dst, src, n)\<close> on whole cells, initialised or not.\<close>

definition mem_copy :: "'a mem \<Rightarrow> 'a mem \<Rightarrow> nat \<Rightarrow> 'a mem" where
  "mem_copy dst src n = take n src @ drop n dst"

lemma length_mem_alloc [simp]: "length (mem_alloc n) = n"
  by (simp add: mem_alloc_def)

lemma mem_get_nth [mem_simps]: "i < length m \<Longrightarrow> mem_get m i = m ! i"
  by (simp add: mem_get_def)

lemma mem_get_Some_length: "mem_get m i = Some x \<Longrightarrow> i < length m"
  by (simp add: mem_get_def split: if_splits)

lemma mem_set_Some [mem_simps]: "i < length m \<Longrightarrow> mem_set m i x = Some (m[i := Some x])"
  by (simp add: mem_set_def)

lemma mem_set_SomeD: "mem_set m i x = Some m' \<Longrightarrow> i < length m \<and> m' = m[i := Some x]"
  by (simp add: mem_set_def split: if_splits)

lemma length_mem_copy [simp]:
  "n \<le> length src \<Longrightarrow> n \<le> length dst \<Longrightarrow> length (mem_copy dst src n) = length dst"
  by (simp add: mem_copy_def)

section \<open>Assertions and loops\<close>

text \<open>\<open>assert(b)\<close> in front of the rest of a function.\<close>

definition c_assert :: "bool \<Rightarrow> unit option" where
  "c_assert b = (if b then Some () else None)"

lemma c_assert_simps [simp]:
  "c_assert True = Some ()"
  "c_assert False = None"
  by (simp_all add: c_assert_def)

lemma c_assert_eq_Some [simp]: "c_assert b = Some u \<longleftrightarrow> b"
  by (simp add: c_assert_def)

text \<open>\<open>for(x in xs) s = f(s, x)\<close>, stopping at the first failure.\<close>

primrec foldM :: "('s \<Rightarrow> 'x \<Rightarrow> 's option) \<Rightarrow> 's \<Rightarrow> 'x list \<Rightarrow> 's option" where
  "foldM f s [] = Some s"
| "foldM f s (x # xs) = Option.bind (f s x) (\<lambda>s'. foldM f s' xs)"

lemma foldM_append: "foldM f s (xs @ ys) = Option.bind (foldM f s xs) (\<lambda>s'. foldM f s' ys)"
  by (induction xs arbitrary: s) (simp_all add: Option.bind_assoc)

lemma foldM_cong [fundef_cong]:
  "xs = ys \<Longrightarrow> s = t \<Longrightarrow> (\<And>x s. x \<in> set ys \<Longrightarrow> f s x = g s x) \<Longrightarrow> foldM f s xs = foldM g t ys"
  by (induction ys arbitrary: xs s t) (auto cong: Option.bind_cong)

lemma foldM_snoc: "foldM f s (xs @ [x]) = Option.bind (foldM f s xs) (\<lambda>s'. f s' x)"
  by (simp add: foldM_append)

lemma foldM_Some:
  "(\<And>s x. x \<in> set xs \<Longrightarrow> f s x = Some (g s x)) \<Longrightarrow> foldM f s xs = Some (foldl g s xs)"
  by (induction xs arbitrary: s) auto

text \<open>
  An invariant of a loop that never fails: \<open>P\<close> relates the state to the part of the range
  that was run.
\<close>

lemma foldM_invariant:
  assumes "P s []"
    and step: "\<And>s ys x. set ys \<union> {x} \<subseteq> set xs \<Longrightarrow> P s ys \<Longrightarrow>
           \<exists>s'. f s x = Some s' \<and> P s' (ys @ [x])"
  shows "\<exists>s'. foldM f s xs = Some s' \<and> P s' xs"
  using step
proof (induction xs rule: rev_induct)
  case Nil
  show ?case using assms(1) by simp
next
  case (snoc x xs)
  have "\<exists>s'. foldM f s xs = Some s' \<and> P s' xs"
    by (rule snoc.IH, rule snoc.prems) auto
  then obtain s' where s': "foldM f s xs = Some s'" "P s' xs" by blast
  have "\<exists>s''. f s' x = Some s'' \<and> P s'' (xs @ [x])"
    by (rule snoc.prems) (simp_all add: s')
  with s' show ?case by (auto simp: foldM_snoc)
qed

text \<open>A loop over a list that may also \<open>break\<close>: the body returns the new state and the flag.\<close>

primrec foldM_brk :: "('x \<Rightarrow> 's \<Rightarrow> ('s \<times> bool) option) \<Rightarrow> 's \<Rightarrow> 'x list \<Rightarrow> 's option" where
  "foldM_brk f s [] = Some s"
| "foldM_brk f s (x # xs) =
     Option.bind (f x s) (\<lambda>(s', brk). if brk then Some s' else foldM_brk f s' xs)"

lemma foldM_brk_total:
  "(\<And>x s. x \<in> set xs \<Longrightarrow> f x s = Some (g x s, False)) \<Longrightarrow> foldM_brk f s xs = Some (fold g xs s)"
  by (induction xs arbitrary: s) auto

text \<open>
  Loops over the arguments of a term whose body calls the function again: a result for each
  element, and the two loops that return early at the first \<open>true\<close> or \<open>false\<close>. The rules
  make them usable in a \<open>partial_function\<close>.
\<close>

primrec map_opt :: "('a \<Rightarrow> 'b option) \<Rightarrow> 'a list \<Rightarrow> 'b list option" where
  "map_opt f [] = Some []"
| "map_opt f (x # xs) = Option.bind (f x) (\<lambda>y. Option.bind (map_opt f xs) (\<lambda>ys. Some (y # ys)))"

primrec any_opt :: "('a \<Rightarrow> bool option) \<Rightarrow> 'a list \<Rightarrow> bool option" where
  "any_opt f [] = Some False"
| "any_opt f (x # xs) = Option.bind (f x) (\<lambda>r. if r then Some True else any_opt f xs)"

primrec all_opt :: "('a \<Rightarrow> bool option) \<Rightarrow> 'a list \<Rightarrow> bool option" where
  "all_opt f [] = Some True"
| "all_opt f (x # xs) = Option.bind (f x) (\<lambda>r. if r then all_opt f xs else Some False)"

abbreviation mono_opt where
  "mono_opt \<equiv> monotone (fun_ord option_ord) option_ord"

lemma map_opt_mono [partial_function_mono]:
  assumes "\<And>x. mono_opt (\<lambda>f. g x f)"
  shows "mono_opt (\<lambda>f. map_opt (\<lambda>x. g x f) xs)"
proof (induction xs)
  case (Cons x xs)
  show ?case using assms Cons by (simp, intro bind_mono option.const_mono)
qed (simp add: option.const_mono)

lemma any_opt_mono [partial_function_mono]:
  assumes "\<And>x. mono_opt (\<lambda>f. g x f)"
  shows "mono_opt (\<lambda>f. any_opt (\<lambda>x. g x f) xs)"
proof (induction xs)
  case (Cons x xs)
  show ?case using assms Cons by (simp, intro bind_mono if_mono option.const_mono)
qed (simp add: option.const_mono)

lemma all_opt_mono [partial_function_mono]:
  assumes "\<And>x. mono_opt (\<lambda>f. g x f)"
  shows "mono_opt (\<lambda>f. all_opt (\<lambda>x. g x f) xs)"
proof (induction xs)
  case (Cons x xs)
  show ?case using assms Cons by (simp, intro bind_mono if_mono option.const_mono)
qed (simp add: option.const_mono)

lemma foldM_brk_mono [partial_function_mono]:
  assumes "\<And>x s. mono_opt (\<lambda>f. g x s f)"
  shows "mono_opt (\<lambda>f. foldM_brk (\<lambda>x s. g x s f) s xs)"
proof (induction xs arbitrary: s)
  case (Cons x xs)
  have "mono_opt (\<lambda>f. case y of (s', brk) \<Rightarrow> if brk then Some s' else foldM_brk (\<lambda>x s. g x s f) s' xs)" for y
    using Cons.IH by (cases y) (simp, intro if_mono option.const_mono)
  then show ?case using assms by (simp, intro bind_mono)
qed (simp add: option.const_mono)

lemma foldM_mono [partial_function_mono]:
  assumes "\<And>s x. mono_opt (\<lambda>f. g s x f)"
  shows "mono_opt (\<lambda>f. foldM (\<lambda>s x. g s x f) s xs)"
proof (induction xs arbitrary: s)
  case (Cons x xs)
  show ?case using assms Cons.IH by (simp, intro bind_mono)
qed (simp add: option.const_mono)

lemma map_opt_Some: "map_opt f xs = Some ys \<longleftrightarrow> list_all2 (\<lambda>x y. f x = Some y) xs ys"
  by (induction xs arbitrary: ys) (auto simp: list_all2_Cons1 bind_eq_Some_conv)

lemma map_opt_total: "(\<And>x. x \<in> set xs \<Longrightarrow> f x = Some (g x)) \<Longrightarrow> map_opt f xs = Some (map g xs)"
  by (induction xs) auto

lemma any_opt_total: "(\<And>x. x \<in> set xs \<Longrightarrow> f x = Some (P x)) \<Longrightarrow> any_opt f xs = Some (\<exists>x\<in>set xs. P x)"
  by (induction xs) auto

lemma any_opt_map: "any_opt f (map g xs) = any_opt (\<lambda>x. f (g x)) xs"
  by (induction xs) (auto cong: if_cong)

lemma all_opt_total: "(\<And>x. x \<in> set xs \<Longrightarrow> f x = Some (P x)) \<Longrightarrow> all_opt f xs = Some (\<forall>x\<in>set xs. P x)"
  by (induction xs) auto

lemma map_opt_cong [fundef_cong]:
  "xs = ys \<Longrightarrow> (\<And>x. x \<in> set ys \<Longrightarrow> f x = g x) \<Longrightarrow> map_opt f xs = map_opt g ys"
  by (induction ys arbitrary: xs) auto

lemma any_opt_cong [fundef_cong]:
  "xs = ys \<Longrightarrow> (\<And>x. x \<in> set ys \<Longrightarrow> f x = g x) \<Longrightarrow> any_opt f xs = any_opt g ys"
  by (induction ys arbitrary: xs) (auto cong: if_cong)

lemma all_opt_cong [fundef_cong]:
  "xs = ys \<Longrightarrow> (\<And>x. x \<in> set ys \<Longrightarrow> f x = g x) \<Longrightarrow> all_opt f xs = all_opt g ys"
  by (induction ys arbitrary: xs) (auto cong: if_cong)

text \<open>\<open>dst[i] = src[j]\<close>, also for a cell that is not initialised.\<close>

definition mem_move :: "'a mem \<Rightarrow> nat \<Rightarrow> 'a mem \<Rightarrow> nat \<Rightarrow> 'a mem option" where
  "mem_move dst i src j =
     (if i < length dst \<and> j < length src then Some (dst[i := src ! j]) else None)"

lemma mem_move_range:
  "a \<le> b \<Longrightarrow> b \<le> length src \<Longrightarrow> b + d \<le> length dst \<Longrightarrow>
   \<exists>dst'. foldM (\<lambda>m i. mem_move m (i + d) src i) dst [a..<b] = Some dst' \<and>
          length dst' = length dst \<and>
          (\<forall>j < length dst. dst' ! j = (if a + d \<le> j \<and> j < b + d then src ! (j - d) else dst ! j))"
proof (induction b)
  case (Suc b)
  show ?case
  proof (cases "a = Suc b")
    case False
    then obtain m where "foldM (\<lambda>m i. mem_move m (i + d) src i) dst [a..<b] = Some m"
      "length m = length dst"
      "\<forall>j < length dst. m ! j = (if a + d \<le> j \<and> j < b + d then src ! (j - d) else dst ! j)"
      using Suc by auto
    then show ?thesis
      using Suc.prems False by (auto simp: foldM_snoc mem_move_def nth_list_update)
  qed auto
qed auto

section \<open>Signed machine subtraction\<close>

text \<open>
  The comparisons \<open>key - tree->key\<close> of the C code are 64-bit signed subtractions. Two's
  complement wrap-around is written out: the result is the representative of \<open>a - b\<close>
  modulo \<open>2^64\<close> in the range of \<open>long\<close>.
\<close>

definition long_wrap :: "int \<Rightarrow> int" where
  "long_wrap x = (x + 2 ^ 63) mod 2 ^ 64 - 2 ^ 63"

definition long_diff :: "int \<Rightarrow> int \<Rightarrow> int" where
  "long_diff a b = long_wrap (a - b)"

lemma long_wrap_id: "- (2 ^ 63) \<le> x \<Longrightarrow> x < 2 ^ 63 \<Longrightarrow> long_wrap x = x"
  by (simp add: long_wrap_def)

lemma long_wrap_range: "- (2 ^ 63) \<le> long_wrap x \<and> long_wrap x < 2 ^ 63"
  by (simp add: long_wrap_def)

lemma strict_sorted_last: "sorted_wrt (<) (xs :: int list) \<Longrightarrow> k \<in> set xs \<Longrightarrow> k \<le> last xs"
proof (induction xs)
  case (Cons x xs)
  show ?case
  proof (cases "xs = []")
    case False
    then have "x \<le> last xs" using Cons.prems(1) last_in_set [of xs] by (simp add: less_imp_le)
    then show ?thesis using Cons False by auto
  qed (use Cons in simp)
qed simp

section \<open>Swapping two cells of a list\<close>

definition list_swap :: "'a list \<Rightarrow> nat \<Rightarrow> nat \<Rightarrow> 'a list" where
  "list_swap xs i j = xs[i := xs ! j, j := xs ! i]"

lemma length_list_swap [simp]: "length (list_swap xs i j) = length xs"
  by (simp add: list_swap_def)

lemma nth_list_swap:
  "i < length xs \<Longrightarrow> j < length xs \<Longrightarrow> k < length xs \<Longrightarrow>
   list_swap xs i j ! k = (if k = i then xs ! j else if k = j then xs ! i else xs ! k)"
  by (auto simp: list_swap_def nth_list_update)

lemma mset_list_swap:
  "i < length xs \<Longrightarrow> j < length xs \<Longrightarrow> mset (list_swap xs i j) = mset xs"
  by (simp add: list_swap_def mset_swap)

lemma set_list_swap:
  "i < length xs \<Longrightarrow> j < length xs \<Longrightarrow> set (list_swap xs i j) = set xs"
  by (metis mset_list_swap set_mset_mset)

lemma distinct_list_swap:
  "i < length xs \<Longrightarrow> j < length xs \<Longrightarrow> distinct (list_swap xs i j) = distinct xs"
  by (metis mset_list_swap mset_eq_imp_distinct_iff)

lemma take_update_snoc:
  "n < length xs \<Longrightarrow> take (Suc n) (xs[n := x]) = take n xs @ [x]"
  by (simp add: take_Suc_conv_app_nth)

section \<open>The comparison macro\<close>

text \<open>\<open>CMP\<close> of \<open>BASICS/clb_defines.h\<close>.\<close>

definition CMP :: "int \<Rightarrow> int \<Rightarrow> int" where
  "CMP x y = (if x > y then 1 else 0) - (if x < y then 1 else 0)"

lemma CMP_simps [simp]:
  "CMP x y < 0 \<longleftrightarrow> x < y"
  "CMP x y > 0 \<longleftrightarrow> y < x"
  "CMP x y = 0 \<longleftrightarrow> x = y"
  by (simp_all add: CMP_def)

end
