(* ===== verification/PStacks.thy ===== *)
theory PStacks
  imports Prelude
begin

text \<open>
  The generic stack of \<open>BASICS/clb_pstacks.h\<close> and \<open>BASICS/clb_pstacks.c\<close>: a growing
  memory block with the index of the first unused cell. A cell holds the C union
  \<open>IntOrP\<close>; the model is polymorphic in what it holds. Stack positions are never negative
  in a call that passes the code's assertions, so \<open>PStackPointer\<close> is \<^typ>\<open>nat\<close>.
  \<open>pstack_list\<close> is the abstract stack, bottom first, and \<open>pstack_ok\<close> the invariant.
\<close>

section \<open>The data structure\<close>

record 'a pstack =
  st_size :: nat
  st_current :: nat
  st_stack :: "'a mem"

definition PSTACK_DEFAULT_SIZE :: nat where
  "PSTACK_DEFAULT_SIZE = 128"

definition PStackVarAlloc :: "nat \<Rightarrow> 'a pstack" where
  "PStackVarAlloc n = \<lparr>st_size = n, st_current = 0, st_stack = mem_alloc n\<rparr>"

definition PStackAlloc :: "'a pstack" where
  "PStackAlloc = \<lparr>st_size = PSTACK_DEFAULT_SIZE, st_current = 0,
                  st_stack = mem_alloc PSTACK_DEFAULT_SIZE\<rparr>"

definition PStackEmpty :: "'a pstack \<Rightarrow> bool" where
  "PStackEmpty s \<longleftrightarrow> st_current s = 0"

definition PStackReset :: "'a pstack \<Rightarrow> 'a pstack" where
  "PStackReset s = s\<lparr>st_current := 0\<rparr>"

definition PStackGetSP :: "'a pstack \<Rightarrow> nat" where
  "PStackGetSP s = st_current s"

definition PStackGrow :: "'a pstack \<Rightarrow> 'a pstack" where
  "PStackGrow s =
     (let old_size = st_size s;
          new_size = old_size * 2;
          tmp = mem_copy (mem_alloc new_size) (st_stack s) old_size
      in s\<lparr>st_size := new_size, st_stack := tmp\<rparr>)"

text \<open>The function \<open>push()\<close> of the header; \<open>PStackPushInt\<close> and \<open>PStackPushP\<close> wrap it.\<close>

definition push :: "'a pstack \<Rightarrow> 'a \<Rightarrow> 'a pstack option" where
  "push s val =
     (let s' = (if st_current s = st_size s then PStackGrow s else s) in
      do { m \<leftarrow> mem_set (st_stack s') (st_current s') val;
           Some (s'\<lparr>st_stack := m, st_current := st_current s' + 1\<rparr>) })"

definition PStackPushInt :: "int pstack \<Rightarrow> int \<Rightarrow> int pstack option" where
  "PStackPushInt s val = push s val"

definition PStackPushP :: "'a pstack \<Rightarrow> 'a \<Rightarrow> 'a pstack option" where
  "PStackPushP s val = push s val"

definition PStackPop :: "'a pstack \<Rightarrow> ('a \<times> 'a pstack) option" where
  "PStackPop s =
     do { c_assert (st_current s \<noteq> 0);
          x \<leftarrow> mem_get (st_stack s) (st_current s - 1);
          Some (x, s\<lparr>st_current := st_current s - 1\<rparr>) }"

text \<open>\<open>PStackPopInt\<close> and \<open>PStackPopP\<close> read one member of the union.\<close>

definition PStackPopInt :: "'p IntOrP pstack \<Rightarrow> (int \<times> 'p IntOrP pstack) option" where
  "PStackPopInt s = do { (x, s) \<leftarrow> PStackPop s; case x of i_val i \<Rightarrow> Some (i, s) | p_val _ \<Rightarrow> None }"

definition PStackPopP :: "'p IntOrP pstack \<Rightarrow> ('p \<times> 'p IntOrP pstack) option" where
  "PStackPopP s = do { (x, s) \<leftarrow> PStackPop s; case x of p_val p \<Rightarrow> Some (p, s) | i_val _ \<Rightarrow> None }"

definition PStackDiscardTop :: "'a pstack \<Rightarrow> 'a pstack option" where
  "PStackDiscardTop s =
     do { c_assert (st_current s \<noteq> 0); Some (s\<lparr>st_current := st_current s - 1\<rparr>) }"

definition PStackTop :: "'a pstack \<Rightarrow> 'a option" where
  "PStackTop s =
     do { c_assert (st_current s \<noteq> 0); mem_get (st_stack s) (st_current s - 1) }"

text \<open>\<open>PStackTopAddr\<close> returns the address of the top cell; callers only read through it.\<close>

definition PStackTopAddr :: "'a pstack \<Rightarrow> 'a option" where
  "PStackTopAddr s =
     do { c_assert (st_current s \<noteq> 0); mem_get (st_stack s) (st_current s - 1) }"

definition PStackBelowTop :: "'a pstack \<Rightarrow> 'a option" where
  "PStackBelowTop s =
     do { c_assert (st_current s \<ge> 2); mem_get (st_stack s) (st_current s - 2) }"

definition PStackElement :: "'a pstack \<Rightarrow> nat \<Rightarrow> 'a option" where
  "PStackElement s pos =
     do { c_assert (pos < st_current s); mem_get (st_stack s) pos }"

text \<open>\<open>*PStackElementRef(stack, pos) = val\<close>, with the assertions of the reference.\<close>

definition PStackElementAssign :: "'a pstack \<Rightarrow> nat \<Rightarrow> 'a \<Rightarrow> 'a pstack option" where
  "PStackElementAssign s pos val =
     do { c_assert (pos < st_current s);
          m \<leftarrow> mem_set (st_stack s) pos val;
          Some (s\<lparr>st_stack := m\<rparr>) }"

definition PStackDiscardElement :: "'a pstack \<Rightarrow> nat \<Rightarrow> 'a pstack option" where
  "PStackDiscardElement s i =
     do { c_assert (i < PStackGetSP s);
          let s' = s\<lparr>st_current := st_current s - 1\<rparr>;
          if st_current s' \<noteq> i
          then do { x \<leftarrow> mem_get (st_stack s') (st_current s');
                    m \<leftarrow> mem_set (st_stack s') i x;
                    Some (s'\<lparr>st_stack := m\<rparr>) }
          else Some s' }"

definition PStackPushStack :: "'a pstack \<Rightarrow> 'a pstack \<Rightarrow> 'a pstack option" where
  "PStackPushStack target source =
     foldM (\<lambda>t i. do { x \<leftarrow> PStackElement source i; push t x }) target [0..<PStackGetSP source]"

definition PStackCopy :: "'a pstack \<Rightarrow> 'a pstack option" where
  "PStackCopy s =
     foldM (\<lambda>h i. do { x \<leftarrow> PStackElement s i; push h x }) PStackAlloc [0..<PStackGetSP s]"

text \<open>The search loops \<open>PStackFindP\<close> and \<open>PStackFindInt\<close>, with their early return.\<close>

primrec pstack_find :: "'a pstack \<Rightarrow> 'a \<Rightarrow> nat list \<Rightarrow> bool option" where
  "pstack_find s x [] = Some False"
| "pstack_find s x (i # is) =
     do { y \<leftarrow> PStackElement s i; if y = x then Some True else pstack_find s x is }"

definition PStackFindP :: "'a pstack \<Rightarrow> 'a \<Rightarrow> bool option" where
  "PStackFindP s x = pstack_find s x [0..<PStackGetSP s]"

definition PStackFindInt :: "int pstack \<Rightarrow> int \<Rightarrow> bool option" where
  "PStackFindInt s num = pstack_find s num [0..<PStackGetSP s]"

section \<open>The abstract stack and the invariant\<close>

definition pstack_list :: "'a pstack \<Rightarrow> 'a list" where
  "pstack_list s = map the (take (st_current s) (st_stack s))"

definition pstack_ok :: "'a pstack \<Rightarrow> bool" where
  "pstack_ok s \<longleftrightarrow> 0 < st_size s \<and> length (st_stack s) = st_size s \<and>
     st_current s \<le> st_size s \<and> (\<forall>i < st_current s. st_stack s ! i \<noteq> None)"

lemma pstack_okD:
  assumes "pstack_ok s"
  shows "0 < st_size s" "length (st_stack s) = st_size s" "st_current s \<le> st_size s"
    "\<And>i. i < st_current s \<Longrightarrow> st_stack s ! i = Some (pstack_list s ! i)"
  using assms by (auto simp: pstack_ok_def pstack_list_def)

lemma length_pstack_list [simp]: "pstack_ok s \<Longrightarrow> length (pstack_list s) = st_current s"
  by (simp add: pstack_ok_def pstack_list_def)

lemma PStackEmpty_iff: "pstack_ok s \<Longrightarrow> PStackEmpty s \<longleftrightarrow> pstack_list s = []"
  by (metis PStackEmpty_def length_0_conv length_pstack_list)

lemma PStackAlloc_ok [simp]: "pstack_ok PStackAlloc"
  by (simp add: pstack_ok_def PStackAlloc_def PSTACK_DEFAULT_SIZE_def)

lemma PStackAlloc_list [simp]: "pstack_list PStackAlloc = []"
  by (simp add: pstack_list_def PStackAlloc_def)

lemma PStackVarAlloc_ok: "0 < n \<Longrightarrow> pstack_ok (PStackVarAlloc n)"
  by (simp add: pstack_ok_def PStackVarAlloc_def)

lemma PStackVarAlloc_list [simp]: "pstack_list (PStackVarAlloc n) = []"
  by (simp add: pstack_list_def PStackVarAlloc_def)

lemma PStackReset_ok: "pstack_ok s \<Longrightarrow> pstack_ok (PStackReset s) \<and> pstack_list (PStackReset s) = []"
  by (simp add: pstack_ok_def PStackReset_def pstack_list_def)

lemma PStackGrow_ok:
  assumes "pstack_ok s"
  shows "pstack_ok (PStackGrow s)" "pstack_list (PStackGrow s) = pstack_list s"
    "st_current (PStackGrow s) = st_current s" "st_size (PStackGrow s) = 2 * st_size s"
  using assms
  by (auto simp: PStackGrow_def Let_def pstack_ok_def pstack_list_def mem_copy_def nth_append
      min_def)

text \<open>The five facts about one stack step that every client rests on.\<close>

lemma push_ok:
  assumes "pstack_ok s"
  shows "\<exists>s'. push s x = Some s' \<and> pstack_ok s' \<and> pstack_list s' = pstack_list s @ [x]"
proof -
  define t where "t = (if st_current s = st_size s then PStackGrow s else s)"
  have t: "pstack_ok t" "pstack_list t = pstack_list s" "st_current t < st_size t"
    using assms PStackGrow_ok [OF assms] pstack_okD [OF assms] by (auto simp: t_def)
  let ?r = "t\<lparr>st_stack := (st_stack t)[st_current t := Some x], st_current := Suc (st_current t)\<rparr>"
  have "push s x = Some ?r"
    using t pstack_okD [OF t(1)] by (simp add: push_def t_def [symmetric] mem_simps)
  moreover have "pstack_ok ?r"
    using t by (auto simp: pstack_ok_def nth_list_update)
  moreover have "pstack_list ?r = pstack_list s @ [x]"
    using t pstack_okD [OF t(1)] by (simp add: t(2) [symmetric] pstack_list_def take_update_snoc)
  ultimately show ?thesis by blast
qed

lemma PStackPop_ok:
  assumes "pstack_ok s" and "pstack_list s = xs @ [x]"
  shows "\<exists>s'. PStackPop s = Some (x, s') \<and> pstack_ok s' \<and> pstack_list s' = xs"
proof -
  have len: "st_current s = Suc (length xs)"
    using assms length_pstack_list [OF assms(1)] by simp
  then have "PStackPop s = Some (x, s\<lparr>st_current := length xs\<rparr>)"
    using pstack_okD [OF assms(1)] assms(2) by (simp add: PStackPop_def mem_simps)
  moreover have "pstack_ok (s\<lparr>st_current := length xs\<rparr>)"
    using assms(1) len by (simp add: pstack_ok_def)
  moreover have "pstack_list (s\<lparr>st_current := length xs\<rparr>) = take (length xs) (pstack_list s)"
    using len by (simp add: pstack_list_def take_map min_def)
  ultimately show ?thesis using assms(2) by simp
qed

lemma PStackElement_ok:
  "pstack_ok s \<Longrightarrow> i < length (pstack_list s) \<Longrightarrow> PStackElement s i = Some (pstack_list s ! i)"
  using pstack_okD [of s] by (simp add: PStackElement_def mem_simps)

lemma PStackElementAssign_ok:
  assumes "pstack_ok s" and "i < length (pstack_list s)"
  shows "\<exists>s'. PStackElementAssign s i x = Some s' \<and> pstack_ok s' \<and>
           pstack_list s' = (pstack_list s)[i := x]"
proof -
  let ?r = "s\<lparr>st_stack := (st_stack s)[i := Some x]\<rparr>"
  have i: "i < st_current s" "i < length (st_stack s)"
    using assms pstack_okD(2,3) [OF assms(1)] by simp_all
  then have "PStackElementAssign s i x = Some ?r"
    by (simp add: PStackElementAssign_def mem_simps)
  moreover have "pstack_ok ?r"
    using assms(1) i by (auto simp: pstack_ok_def nth_list_update)
  moreover have "pstack_list ?r = (pstack_list s)[i := x]"
    using i by (simp add: pstack_list_def take_update_swap map_update)
  ultimately show ?thesis by blast
qed

lemma PStackTop_ok:
  assumes "pstack_ok s" and "pstack_list s = xs @ [x]"
  shows "PStackTop s = Some x"
  using PStackPop_ok [OF assms] by (auto simp: PStackTop_def PStackPop_def split: bind_splits)

lemma PStackTopAddr_eq: "PStackTopAddr s = PStackTop s"
  by (simp add: PStackTopAddr_def PStackTop_def)

lemma PStackBelowTop_ok:
  assumes "pstack_ok s" and "pstack_list s = xs @ [y, x]"
  shows "PStackBelowTop s = Some y"
proof -
  have "st_current s = Suc (Suc (length xs))"
    using assms length_pstack_list [OF assms(1)] by simp
  then show ?thesis
    using pstack_okD(2,3) [OF assms(1)] pstack_okD(4) [OF assms(1), of "length xs"] assms(2)
    by (simp add: PStackBelowTop_def mem_simps nth_append)
qed

lemma PStackDiscardTop_ok:
  "pstack_ok s \<Longrightarrow> pstack_list s = xs @ [x] \<Longrightarrow>
   \<exists>s'. PStackDiscardTop s = Some s' \<and> pstack_ok s' \<and> pstack_list s' = xs"
  using PStackPop_ok [of s xs x]
  by (auto simp: PStackDiscardTop_def PStackPop_def split: bind_splits)

lemma PStack_underflow:
  "pstack_list s = [] \<Longrightarrow> pstack_ok s \<Longrightarrow>
   PStackPop s = None \<and> PStackTop s = None \<and> PStackDiscardTop s = None"
  using length_pstack_list [of s]
  by (simp add: PStackPop_def PStackTop_def PStackDiscardTop_def)

section \<open>The stack interface\<close>

text \<open>
  The contract the traversal loops of the code rest on: push, pop and the emptiness test of
  a stack whose abstract value is a list, bottom first.
\<close>

locale lifo =
  fixes new :: "'s"
    and put :: "'s \<Rightarrow> 'a \<Rightarrow> 's option"
    and take_top :: "'s \<Rightarrow> ('a \<times> 's) option"
    and is_empty :: "'s \<Rightarrow> bool"
    and items :: "'s \<Rightarrow> 'a list"
    and valid :: "'s \<Rightarrow> bool"
  assumes valid_new: "valid new"
    and items_new: "items new = []"
    and put_law: "valid s \<Longrightarrow> \<exists>s'. put s x = Some s' \<and> valid s' \<and> items s' = items s @ [x]"
    and take_law: "valid s \<Longrightarrow> items s = xs @ [x] \<Longrightarrow>
                     \<exists>s'. take_top s = Some (x, s') \<and> valid s' \<and> items s' = xs"
    and empty_law: "valid s \<Longrightarrow> is_empty s \<longleftrightarrow> items s = []"
begin

lemma put_some:
  assumes "valid s" and "put s x = Some t"
  shows "valid t" "items t = items s @ [x]"
  using put_law [OF assms(1), of x] assms(2) by auto

lemma take_some:
  assumes "valid s" and "\<not> is_empty s"
  obtains xs x t where "items s = xs @ [x]" "take_top s = Some (x, t)" "valid t" "items t = xs"
  using take_law [OF assms(1)] empty_law [OF assms(1)] assms(2) that
  by (metis rev_exhaust)

lemma put_all:
  "valid s \<Longrightarrow> \<exists>s'. foldM put s xs = Some s' \<and> valid s' \<and> items s' = items s @ xs"
proof (induction xs arbitrary: s)
  case (Cons x xs)
  obtain t where t: "put s x = Some t" "valid t" "items t = items s @ [x]"
    using put_law [OF Cons.prems] by blast
  show ?case using Cons.IH [OF t(2)] t by auto
qed simp

lemma put_take: "valid s \<Longrightarrow> put s x = Some t \<Longrightarrow> \<exists>u. take_top t = Some (x, u) \<and> items u = items s"
  using put_some [of s x t] take_law [of t "items s" x] by blast

end

interpretation pst: lifo PStackAlloc push PStackPop PStackEmpty pstack_list pstack_ok
  by unfold_locales (simp_all add: push_ok PStackPop_ok PStackEmpty_iff)

end
