(* ===== verification/PQueues.thy ===== *)
theory PQueues
  imports Prelude
begin

text \<open>
  The double-ended queue of \<open>BASICS/clb_pqueue.h\<close> and \<open>BASICS/clb_pqueue.c\<close>: a circular
  buffer that doubles when it is full. \<open>head\<close> is where the next element is put, \<open>tail\<close>
  where the next one comes from. \<open>pqueue_holds q xs\<close> says that the buffer holds the list
  \<open>xs\<close>, first element first; \<open>pqueue_ok\<close> that there is such a list and a free cell.
\<close>

section \<open>The data structure\<close>

record 'a pqueue =
  pq_size :: nat
  pq_head :: nat
  pq_tail :: nat
  pq_queue :: "'a mem"

definition PQUEUE_DEFAULT_SIZE :: nat where
  "PQUEUE_DEFAULT_SIZE = 128"

definition PQueueAlloc :: "'a pqueue" where
  "PQueueAlloc = \<lparr>pq_size = PQUEUE_DEFAULT_SIZE, pq_head = 0, pq_tail = 0,
                  pq_queue = mem_alloc PQUEUE_DEFAULT_SIZE\<rparr>"

definition PQueueEmpty :: "'a pqueue \<Rightarrow> bool" where
  "PQueueEmpty q \<longleftrightarrow> pq_head q = pq_tail q"

definition PQueueReset :: "'a pqueue \<Rightarrow> 'a pqueue" where
  "PQueueReset q = q\<lparr>pq_head := 0, pq_tail := 0\<rparr>"

definition PQueueGrow :: "'a pqueue \<Rightarrow> 'a pqueue option" where
  "PQueueGrow q =
     (let new_size = pq_size q * 2;
          new_mem = mem_alloc new_size in
      do { new_mem \<leftarrow> foldM (\<lambda>m i. mem_move m (i + 0) (pq_queue q) i) new_mem [0..<pq_head q];
           new_mem \<leftarrow> foldM (\<lambda>m i. mem_move m (i + pq_size q) (pq_queue q) i) new_mem
                        [pq_head q..<pq_size q];
           Some (q\<lparr>pq_tail := pq_tail q + pq_size q, pq_queue := new_mem,
                    pq_size := new_size\<rparr>) })"

definition pqueue_store :: "'a pqueue \<Rightarrow> 'a \<Rightarrow> 'a pqueue option" where
  "pqueue_store q val =
     do { m \<leftarrow> mem_set (pq_queue q) (pq_head q) val;
          let q = q\<lparr>pq_queue := m, pq_head := pq_head q + 1\<rparr>;
          let q = (if pq_head q = pq_size q then q\<lparr>pq_head := 0\<rparr> else q);
          if pq_head q = pq_tail q then PQueueGrow q else Some q }"

definition pqueue_bury :: "'a pqueue \<Rightarrow> 'a \<Rightarrow> 'a pqueue option" where
  "pqueue_bury q val =
     (let q = q\<lparr>pq_tail := (if pq_tail q \<noteq> 0 then pq_tail q - 1 else pq_size q - 1)\<rparr> in
      do { m \<leftarrow> mem_set (pq_queue q) (pq_tail q) val;
           let q = q\<lparr>pq_queue := m\<rparr>;
           if pq_head q = pq_tail q then PQueueGrow q else Some q })"

definition PQueueStoreInt :: "'p IntOrP pqueue \<Rightarrow> int \<Rightarrow> 'p IntOrP pqueue option" where
  "PQueueStoreInt q val = pqueue_store q (i_val val)"

definition PQueueStoreP :: "'p IntOrP pqueue \<Rightarrow> 'p \<Rightarrow> 'p IntOrP pqueue option" where
  "PQueueStoreP q val = pqueue_store q (p_val val)"

definition PQueueBuryInt :: "'p IntOrP pqueue \<Rightarrow> int \<Rightarrow> 'p IntOrP pqueue option" where
  "PQueueBuryInt q val = pqueue_bury q (i_val val)"

definition PQueueBuryP :: "'p IntOrP pqueue \<Rightarrow> 'p \<Rightarrow> 'p IntOrP pqueue option" where
  "PQueueBuryP q val = pqueue_bury q (p_val val)"

definition PQueueGetNext :: "'a pqueue \<Rightarrow> ('a \<times> 'a pqueue) option" where
  "PQueueGetNext q =
     do { c_assert (\<not> PQueueEmpty q);
          res \<leftarrow> mem_get (pq_queue q) (pq_tail q);
          let q = q\<lparr>pq_tail := pq_tail q + 1\<rparr>;
          Some (res, if pq_tail q = pq_size q then q\<lparr>pq_tail := 0\<rparr> else q) }"

definition PQueueGetLast :: "'a pqueue \<Rightarrow> ('a \<times> 'a pqueue) option" where
  "PQueueGetLast q =
     do { c_assert (\<not> PQueueEmpty q);
          let q = q\<lparr>pq_head := (if pq_head q \<noteq> 0 then pq_head q - 1 else pq_size q - 1)\<rparr>;
          res \<leftarrow> mem_get (pq_queue q) (pq_head q);
          Some (res, q) }"

text \<open>\<open>PQueueGetNextP\<close> and \<open>PQueueGetLastP\<close> read the pointer of the union.\<close>

definition PQueueGetNextP :: "'p IntOrP pqueue \<Rightarrow> ('p \<times> 'p IntOrP pqueue) option" where
  "PQueueGetNextP q =
     do { (x, q) \<leftarrow> PQueueGetNext q; case x of p_val p \<Rightarrow> Some (p, q) | i_val _ \<Rightarrow> None }"

definition PQueueGetLastP :: "'p IntOrP pqueue \<Rightarrow> ('p \<times> 'p IntOrP pqueue) option" where
  "PQueueGetLastP q =
     do { (x, q) \<leftarrow> PQueueGetLast q; case x of p_val p \<Rightarrow> Some (p, q) | i_val _ \<Rightarrow> None }"

definition PQueueLook :: "'a pqueue \<Rightarrow> 'a option" where
  "PQueueLook q = do { c_assert (\<not> PQueueEmpty q); mem_get (pq_queue q) (pq_tail q) }"

definition PQueueLookLast :: "'a pqueue \<Rightarrow> 'a option" where
  "PQueueLookLast q =
     do { c_assert (\<not> PQueueEmpty q);
          let index = (if pq_head q \<noteq> 0 then pq_head q - 1 else pq_size q - 1);
          mem_get (pq_queue q) index }"

definition PQueueCardinality :: "'a pqueue \<Rightarrow> nat" where
  "PQueueCardinality q =
     (if pq_head q \<ge> pq_tail q then pq_head q - pq_tail q
      else pq_head q + (pq_size q - pq_tail q))"

definition PQueueElement :: "'a pqueue \<Rightarrow> nat \<Rightarrow> 'a option" where
  "PQueueElement q index = mem_get (pq_queue q) index"

text \<open>The two index functions return -1 at the end of the queue.\<close>

definition PQueueTailIndex :: "'a pqueue \<Rightarrow> int" where
  "PQueueTailIndex q = (if PQueueEmpty q then - 1 else int (pq_tail q))"

definition PQueueIncIndex :: "'a pqueue \<Rightarrow> int \<Rightarrow> int" where
  "PQueueIncIndex q index =
     (let index = (index + 1) mod int (pq_size q) in
      if index = int (pq_head q) then - 1 else index)"

section \<open>The abstract queue\<close>

definition pqueue_holds :: "'a pqueue \<Rightarrow> 'a list \<Rightarrow> bool" where
  "pqueue_holds q xs \<longleftrightarrow> length (pq_queue q) = pq_size q \<and> pq_tail q < pq_size q \<and>
     length xs \<le> pq_size q \<and> pq_head q = (pq_tail q + length xs) mod pq_size q \<and>
     (\<forall>i < length xs. pq_queue q ! ((pq_tail q + i) mod pq_size q) = Some (xs ! i))"

definition pqueue_list :: "'a pqueue \<Rightarrow> 'a list" where
  "pqueue_list q = map (\<lambda>i. the (pq_queue q ! ((pq_tail q + i) mod pq_size q)))
                     [0..<PQueueCardinality q]"

definition pqueue_ok :: "'a pqueue \<Rightarrow> bool" where
  "pqueue_ok q \<longleftrightarrow> pqueue_holds q (pqueue_list q) \<and> PQueueCardinality q < pq_size q"

lemma mod_eq: "a < 2 * n \<Longrightarrow> a mod n = (if a < n then a else a - (n::nat))"
  by (auto simp: not_less mod_if)

lemma pqueue_holds_card:
  "pqueue_holds q xs \<Longrightarrow> length xs < pq_size q \<Longrightarrow> PQueueCardinality q = length xs"
  by (auto simp: pqueue_holds_def PQueueCardinality_def mod_eq)

lemma pqueue_holds_list:
  assumes "pqueue_holds q xs" and "length xs < pq_size q"
  shows "pqueue_list q = xs"
proof (rule nth_equalityI)
  show "length (pqueue_list q) = length xs"
    by (simp add: pqueue_list_def pqueue_holds_card [OF assms])
  show "\<And>i. i < length (pqueue_list q) \<Longrightarrow> pqueue_list q ! i = xs ! i"
    using assms(1) by (simp add: pqueue_list_def pqueue_holds_card [OF assms] pqueue_holds_def)
qed

lemma pqueue_ok_iff: "pqueue_ok q \<and> pqueue_list q = xs \<longleftrightarrow> pqueue_holds q xs \<and> length xs < pq_size q"
  using pqueue_holds_list [of q xs] pqueue_holds_card [of q xs]
  by (auto simp: pqueue_ok_def pqueue_list_def)

lemma pqueue_okE:
  assumes "pqueue_ok q"
  obtains "pqueue_holds q (pqueue_list q)" "length (pqueue_list q) < pq_size q"
  using assms pqueue_ok_iff by blast

lemma PQueueAlloc_ok: "pqueue_ok (PQueueAlloc :: 'a pqueue) \<and> pqueue_list (PQueueAlloc :: 'a pqueue) = []"
  by (rule pqueue_ok_iff [THEN iffD2]) (simp add: pqueue_holds_def PQueueAlloc_def PQUEUE_DEFAULT_SIZE_def)

lemma PQueueReset_ok: "pqueue_ok q \<Longrightarrow> pqueue_ok (PQueueReset q) \<and> pqueue_list (PQueueReset q) = []"
  by (auto simp: pqueue_ok_iff pqueue_holds_def PQueueReset_def elim!: pqueue_okE)

lemma PQueueEmpty_iff:
  assumes "pqueue_ok q"
  shows "PQueueEmpty q \<longleftrightarrow> pqueue_list q = []"
  using assms by (cases rule: pqueue_okE)
    (auto simp: PQueueEmpty_def pqueue_holds_def mod_eq split: if_splits)

lemma PQueueGrow_ok:
  assumes "pqueue_holds q xs" and "length xs = pq_size q"
  shows "\<exists>q'. PQueueGrow q = Some q' \<and> pqueue_holds q' xs \<and> pq_size q' = 2 * pq_size q"
proof -
  let ?n = "pq_size q" and ?t = "pq_tail q"
  have q: "length (pq_queue q) = ?n" "?t < ?n" "pq_head q = ?t"
    "\<And>i. i < ?n \<Longrightarrow> pq_queue q ! ((?t + i) mod ?n) = Some (xs ! i)"
    using assms by (auto simp: pqueue_holds_def)
  obtain m1 where m1: "foldM (\<lambda>m i. mem_move m (i + 0) (pq_queue q) i) (mem_alloc (?n * 2)) [0..<?t] = Some m1"
    "length m1 = 2 * ?n" "\<forall>j < 2 * ?n. j < ?t \<longrightarrow> m1 ! j = pq_queue q ! j"
    using mem_move_range [of 0 ?t "pq_queue q" 0 "mem_alloc (?n * 2)"] q by auto
  obtain m2 where m2: "foldM (\<lambda>m i. mem_move m (i + ?n) (pq_queue q) i) m1 [?t..<?n] = Some m2"
    "length m2 = 2 * ?n" "\<forall>j < 2 * ?n. m2 ! j =
       (if ?t + ?n \<le> j \<and> j < 2 * ?n then pq_queue q ! (j - ?n) else m1 ! j)"
    using mem_move_range [of ?t ?n "pq_queue q" ?n m1] q m1(2) by (auto simp: mult_2)
  let ?q = "q\<lparr>pq_tail := ?t + ?n, pq_queue := m2, pq_size := ?n * 2\<rparr>"
  have "PQueueGrow q = Some ?q"
    using m1(1) m2(1) by (simp add: PQueueGrow_def q(3))
  moreover have "\<forall>i < ?n. m2 ! ((?t + ?n + i) mod (?n * 2)) = Some (xs ! i)"
  proof (intro allI impI)
    fix i assume that: "i < ?n"
    show "m2 ! ((?t + ?n + i) mod (?n * 2)) = Some (xs ! i)"
  proof (cases "?t + i < ?n")
    case True
    then have "(?t + ?n + i) mod (?n * 2) = ?t + ?n + i" by simp
    then show ?thesis using m2(3) q(4) [OF that] True by auto
  next
    case False
    then have "(?t + ?n + i) mod (?n * 2) = ?t + i - ?n" "(?t + i) mod ?n = ?t + i - ?n"
      using that q(2) by (simp_all add: mod_if)
    then show ?thesis using m1(3) m2(3) q(2) q(4) [OF that] False that by auto
  qed
  qed
  moreover have "(?t + ?n + ?n) mod (?n * 2) = ?t"
    using q(2) by (simp add: mod_if)
  ultimately show ?thesis
    using q(2,3) assms(2) m2(2) by (simp add: pqueue_holds_def)
qed

lemma pqueue_grow_if_full:
  assumes "pqueue_holds q xs" and "xs \<noteq> []"
  shows "\<exists>q'. (if pq_head q = pq_tail q then PQueueGrow q else Some q) = Some q' \<and>
              pqueue_ok q' \<and> pqueue_list q' = xs"
proof (cases "length xs = pq_size q")
  case True
  moreover have "pq_head q = pq_tail q" using assms True by (simp add: pqueue_holds_def)
  ultimately show ?thesis
    using PQueueGrow_ok [OF assms(1)] assms by (auto simp: pqueue_ok_iff pqueue_holds_def)
next
  case False
  then have "length xs < pq_size q" "pq_head q \<noteq> pq_tail q"
    using assms by (auto simp: pqueue_holds_def mod_eq)
  then show ?thesis using assms(1) by (simp add: pqueue_ok_iff)
qed

lemma pqueue_store_ok:
  assumes "pqueue_ok q"
  shows "\<exists>q'. pqueue_store q x = Some q' \<and> pqueue_ok q' \<and> pqueue_list q' = pqueue_list q @ [x]"
proof -
  let ?xs = "pqueue_list q"
  have q: "pqueue_holds q ?xs" "length ?xs < pq_size q" using assms by (auto elim: pqueue_okE)
  let ?h = "(pq_head q + 1) mod pq_size q"
  let ?q = "q\<lparr>pq_queue := (pq_queue q)[pq_head q := Some x], pq_head := ?h\<rparr>"
  have h: "pq_head q < pq_size q" "pq_head q = (pq_tail q + length ?xs) mod pq_size q"
    using q by (auto simp: pqueue_holds_def)
  have "pqueue_holds ?q (?xs @ [x])"
    unfolding pqueue_holds_def
  proof (intro conjI allI impI)
    show "pq_head ?q = (pq_tail ?q + length (?xs @ [x])) mod pq_size ?q"
      by (simp add: h(2) mod_Suc_eq)
    fix i assume "i < length (?xs @ [x])"
    then show "pq_queue ?q ! ((pq_tail ?q + i) mod pq_size ?q) = Some ((?xs @ [x]) ! i)"
      using q h by (auto simp: pqueue_holds_def nth_list_update nth_append mod_eq split: if_splits)
  qed (use q in \<open>auto simp: pqueue_holds_def\<close>)
  from pqueue_grow_if_full [OF this] have
    "\<exists>q'. (if ?h = pq_tail q then PQueueGrow ?q else Some ?q) = Some q' \<and>
          pqueue_ok q' \<and> pqueue_list q' = ?xs @ [x]" by simp
  moreover have "pqueue_store q x = (if ?h = pq_tail q then PQueueGrow ?q else Some ?q)"
  proof -
    have "length (pq_queue q) = pq_size q" using q(1) by (simp add: pqueue_holds_def)
    moreover have "?h = (if Suc (pq_head q) = pq_size q then 0 else Suc (pq_head q))"
      using h(1) by (simp add: mod_Suc)
    ultimately show ?thesis using h(1) by (simp add: pqueue_store_def mem_set_def Let_def)
  qed
  ultimately show ?thesis by simp
qed

lemma pqueue_bury_ok:
  assumes "pqueue_ok q"
  shows "\<exists>q'. pqueue_bury q x = Some q' \<and> pqueue_ok q' \<and> pqueue_list q' = x # pqueue_list q"
proof -
  let ?xs = "pqueue_list q"
  have q: "pqueue_holds q ?xs" "length ?xs < pq_size q" using assms by (auto elim: pqueue_okE)
  define t where "t = (if pq_tail q \<noteq> 0 then pq_tail q - 1 else pq_size q - 1)"
  let ?q = "q\<lparr>pq_tail := t, pq_queue := (pq_queue q)[t := Some x]\<rparr>"
  have tt: "t < pq_size q" "pq_tail q < pq_size q"
    "pq_head q = (pq_tail q + length ?xs) mod pq_size q"
    using q by (auto simp: pqueue_holds_def t_def)
  have shift: "(t + Suc i) mod pq_size q = (pq_tail q + i) mod pq_size q" for i
    using tt(2) by (cases "pq_tail q = 0") (auto simp: t_def add.commute)
  have ne: "(pq_tail q + i) mod pq_size q \<noteq> t" if "i < length ?xs" for i
    using that q(2) tt(2) by (auto simp: mod_eq t_def)
  have "pqueue_holds ?q (x # ?xs)"
    unfolding pqueue_holds_def
  proof (intro conjI allI impI)
    show "pq_head ?q = (pq_tail ?q + length (x # ?xs)) mod pq_size ?q"
      using shift [of "length ?xs"] tt(3) by simp
    fix i assume "i < length (x # ?xs)"
    then show "pq_queue ?q ! ((pq_tail ?q + i) mod pq_size ?q) = Some ((x # ?xs) ! i)"
      using q(1) tt shift ne [THEN not_sym]
      by (cases i) (auto simp: pqueue_holds_def nth_list_update simp del: add_Suc_right)
  qed (use q tt in \<open>auto simp: pqueue_holds_def\<close>)
  from pqueue_grow_if_full [OF this] have
    "\<exists>q'. (if pq_head q = t then PQueueGrow ?q else Some ?q) = Some q' \<and>
          pqueue_ok q' \<and> pqueue_list q' = x # ?xs" by simp
  moreover have "pqueue_bury q x = (if pq_head q = t then PQueueGrow ?q else Some ?q)"
    using q(1) tt(1) unfolding pqueue_bury_def t_def [symmetric]
    by (simp add: mem_set_def pqueue_holds_def)
  ultimately show ?thesis by simp
qed

lemma PQueueGetNext_ok:
  assumes "pqueue_ok q" and "pqueue_list q = x # xs"
  shows "\<exists>q'. PQueueGetNext q = Some (x, q') \<and> pqueue_ok q' \<and> pqueue_list q' = xs"
proof -
  have q: "pqueue_holds q (x # xs)" "length (x # xs) < pq_size q"
    using assms by (auto elim: pqueue_okE)
  let ?q = "q\<lparr>pq_tail := (pq_tail q + 1) mod pq_size q\<rparr>"
  have t: "pq_tail q < pq_size q" "pq_queue q ! pq_tail q = Some x"
    using q(1) by (auto simp: pqueue_holds_def)
  have "pqueue_holds ?q xs"
    using q by (auto simp: pqueue_holds_def mod_add_left_eq)
  moreover have "PQueueGetNext q = Some (x, ?q)"
    using t q(1) PQueueEmpty_iff [OF assms(1)] assms(2)
    by (simp add: PQueueGetNext_def mem_get_def pqueue_holds_def mod_Suc)
  ultimately show ?thesis using q(2) by (auto simp: pqueue_ok_iff)
qed

lemma pqueue_last_index:
  assumes "pqueue_holds q (xs @ [x])"
  shows "(if pq_head q \<noteq> 0 then pq_head q - 1 else pq_size q - 1) =
           (pq_tail q + length xs) mod pq_size q"
  using assms by (auto simp: pqueue_holds_def mod_Suc split: if_splits)

lemma pqueue_last_cell:
  assumes "pqueue_holds q (xs @ [x])"
  shows "mem_get (pq_queue q) ((pq_tail q + length xs) mod pq_size q) = Some x"
proof -
  have "pq_queue q ! ((pq_tail q + length xs) mod pq_size q) = Some ((xs @ [x]) ! length xs)"
    using assms unfolding pqueue_holds_def by (metis length_append_singleton lessI)
  moreover have "(pq_tail q + length xs) mod pq_size q < length (pq_queue q)"
    using assms by (auto simp: pqueue_holds_def)
  ultimately show ?thesis by (simp add: mem_get_def)
qed

lemma PQueueGetLast_ok:
  assumes "pqueue_ok q" and "pqueue_list q = xs @ [x]"
  shows "\<exists>q'. PQueueGetLast q = Some (x, q') \<and> pqueue_ok q' \<and> pqueue_list q' = xs"
proof -
  have q: "pqueue_holds q (xs @ [x])" "length (xs @ [x]) < pq_size q"
    using assms by (auto elim: pqueue_okE)
  let ?q = "q\<lparr>pq_head := (pq_tail q + length xs) mod pq_size q\<rparr>"
  have "pqueue_holds ?q xs"
    using q by (auto simp: pqueue_holds_def nth_append)
  moreover have "PQueueGetLast q = Some (x, ?q)"
    using PQueueEmpty_iff [OF assms(1)] assms(2)
    unfolding PQueueGetLast_def pqueue_last_index [OF q(1)]
    by (simp add: pqueue_last_cell [OF q(1)])
  ultimately show ?thesis using q(2) by (auto simp: pqueue_ok_iff)
qed

lemma PQueueLook_ok:
  assumes "pqueue_ok q"
  shows "pqueue_list q = x # xs \<Longrightarrow> PQueueLook q = Some x"
    and "pqueue_list q = xs @ [x] \<Longrightarrow> PQueueLookLast q = Some x"
proof -
  show "PQueueLook q = Some x" if "pqueue_list q = x # xs"
    using PQueueGetNext_ok [OF assms that]
    by (auto simp: PQueueLook_def PQueueGetNext_def Let_def split: bind_splits)
  show "PQueueLookLast q = Some x" if "pqueue_list q = xs @ [x]"
    using PQueueGetLast_ok [OF assms that]
    by (auto simp: PQueueLookLast_def PQueueGetLast_def Let_def split: bind_splits)
qed

lemma PQueue_underflow:
  "pqueue_ok q \<Longrightarrow> pqueue_list q = [] \<Longrightarrow>
   PQueueGetNext q = None \<and> PQueueGetLast q = None \<and> PQueueLook q = None \<and> PQueueLookLast q = None"
  by (simp add: PQueueGetNext_def PQueueGetLast_def PQueueLook_def PQueueLookLast_def PQueueEmpty_iff)

text \<open>Iterating with \<open>PQueueTailIndex\<close> and \<open>PQueueIncIndex\<close> meets the elements in order.\<close>

lemma PQueue_index_ok:
  assumes "pqueue_ok q" and "i < length (pqueue_list q)"
  shows "PQueueElement q ((pq_tail q + i) mod pq_size q) = Some (pqueue_list q ! i)"
    and "PQueueIncIndex q (int ((pq_tail q + i) mod pq_size q)) =
           (if Suc i = length (pqueue_list q) then - 1
            else int ((pq_tail q + Suc i) mod pq_size q))"
proof -
  have q: "pqueue_holds q (pqueue_list q)" "length (pqueue_list q) < pq_size q"
    using assms(1) by (auto elim: pqueue_okE)
  show "PQueueElement q ((pq_tail q + i) mod pq_size q) = Some (pqueue_list q ! i)"
    using q(1) assms(2) by (auto simp: PQueueElement_def mem_get_def pqueue_holds_def)
  have idx: "(int ((pq_tail q + i) mod pq_size q) + 1) mod int (pq_size q) =
      int ((pq_tail q + Suc i) mod pq_size q)"
    by (metis add_Suc_right mod_Suc_eq of_nat_Suc of_nat_mod add.commute)
  have "(pq_tail q + Suc i) mod pq_size q = pq_head q \<longleftrightarrow> Suc i = length (pqueue_list q)"
    using q assms(2) by (auto simp: pqueue_holds_def mod_eq split: if_splits)
  then show "PQueueIncIndex q (int ((pq_tail q + i) mod pq_size q)) =
           (if Suc i = length (pqueue_list q) then - 1
            else int ((pq_tail q + Suc i) mod pq_size q))"
    by (simp add: PQueueIncIndex_def idx)
qed

section \<open>The queue interface\<close>

text \<open>
  The contract of a double-ended queue, first element first; the job queue of the
  unification algorithm rests on it.
\<close>

locale deque =
  fixes new :: "'s"
    and put_end :: "'s \<Rightarrow> 'a \<Rightarrow> 's option"
    and put_front :: "'s \<Rightarrow> 'a \<Rightarrow> 's option"
    and take_front :: "'s \<Rightarrow> ('a \<times> 's) option"
    and take_end :: "'s \<Rightarrow> ('a \<times> 's) option"
    and is_empty :: "'s \<Rightarrow> bool"
    and items :: "'s \<Rightarrow> 'a list"
    and valid :: "'s \<Rightarrow> bool"
  assumes new_law: "valid new" "items new = []"
    and end_law: "valid s \<Longrightarrow> \<exists>s'. put_end s x = Some s' \<and> valid s' \<and> items s' = items s @ [x]"
    and front_law: "valid s \<Longrightarrow> \<exists>s'. put_front s x = Some s' \<and> valid s' \<and> items s' = x # items s"
    and take_front_law: "valid s \<Longrightarrow> items s = x # xs \<Longrightarrow>
           \<exists>s'. take_front s = Some (x, s') \<and> valid s' \<and> items s' = xs"
    and take_end_law: "valid s \<Longrightarrow> items s = xs @ [x] \<Longrightarrow>
           \<exists>s'. take_end s = Some (x, s') \<and> valid s' \<and> items s' = xs"
    and empty_law: "valid s \<Longrightarrow> is_empty s \<longleftrightarrow> items s = []"
begin

lemma take_front_some:
  assumes "valid s" and "\<not> is_empty s"
  obtains x xs t where "items s = x # xs" "take_front s = Some (x, t)" "valid t" "items t = xs"
  using take_front_law [OF assms(1)] empty_law [OF assms(1)] assms(2) that
  by (metis neq_Nil_conv)

lemma take_end_some:
  assumes "valid s" and "\<not> is_empty s"
  obtains x xs t where "items s = xs @ [x]" "take_end s = Some (x, t)" "valid t" "items t = xs"
  using take_end_law [OF assms(1)] empty_law [OF assms(1)] assms(2) that
  by (metis rev_exhaust)

lemma put_end_all:
  "valid s \<Longrightarrow> \<exists>s'. foldM put_end s xs = Some s' \<and> valid s' \<and> items s' = items s @ xs"
proof (induction xs arbitrary: s)
  case (Cons x xs)
  obtain t where t: "put_end s x = Some t" "valid t" "items t = items s @ [x]"
    using end_law [OF Cons.prems] by blast
  show ?case using Cons.IH [OF t(2)] t by auto
qed simp

end

interpretation pqd: deque PQueueAlloc pqueue_store pqueue_bury PQueueGetNext PQueueGetLast
  PQueueEmpty pqueue_list pqueue_ok
  by unfold_locales (simp_all add: PQueueAlloc_ok pqueue_store_ok pqueue_bury_ok PQueueGetNext_ok
      PQueueGetLast_ok PQueueEmpty_iff)

section \<open>Properties\<close>

text \<open>Taking \<open>n\<close> elements from the front.\<close>

primrec pq_drain :: "nat \<Rightarrow> 'a pqueue \<Rightarrow> ('a list \<times> 'a pqueue) option" where
  "pq_drain 0 q = Some ([], q)"
| "pq_drain (Suc n) q =
     do { (x, q) \<leftarrow> PQueueGetNext q; (xs, q) \<leftarrow> pq_drain n q; Some (x # xs, q) }"

lemma pq_drain_ok:
  "pqueue_ok q \<Longrightarrow> \<exists>q'. pq_drain (length (pqueue_list q)) q = Some (pqueue_list q, q') \<and>
     pqueue_ok q' \<and> pqueue_list q' = []"
proof (induction "pqueue_list q" arbitrary: q)
  case (Cons x xs)
  obtain q1 where "PQueueGetNext q = Some (x, q1)" "pqueue_ok q1" "pqueue_list q1 = xs"
    using PQueueGetNext_ok [OF Cons(3) Cons(2) [symmetric]] by blast
  then show ?case using Cons(1) [of q1] by (auto simp flip: Cons(2))
qed (simp add: eq_commute [of "[]"])

text \<open>A queue that is filled with any list, growing as often as it has to, gives the
  elements back in the order they were stored, and is empty then: the next request fails.\<close>

theorem pqueue_fifo:
  "\<exists>q q'. foldM pqueue_store PQueueAlloc xs = Some q \<and> PQueueCardinality q = length xs \<and>
     pq_drain (length xs) q = Some (xs, q') \<and> PQueueEmpty q' \<and> PQueueGetNext q' = None"
proof -
  obtain q where q: "foldM pqueue_store PQueueAlloc xs = Some q" "pqueue_ok q" "pqueue_list q = xs"
    using pqd.put_end_all [OF pqd.new_law(1), of xs] by (auto simp: pqd.new_law)
  obtain q' where "pq_drain (length xs) q = Some (xs, q')" "pqueue_ok q'" "pqueue_list q' = []"
    using pq_drain_ok [OF q(2)] q(3) by blast
  moreover have "PQueueCardinality q = length xs"
    using pqueue_okE [OF q(2)] pqueue_holds_card [of q xs] q(3) by metis
  ultimately show ?thesis
    using q(1) PQueueEmpty_iff [of q'] PQueue_underflow [of q'] by blast
qed

text \<open>Storing at the end, burying at the front, and taking from either end act on the abstract
  list as on a deque, on every state that satisfies the invariant, and keep the invariant.\<close>

theorem pqueue_deque_step:
  assumes "pqueue_ok q"
  shows "\<exists>q1 q2. pqueue_store q x = Some q1 \<and> pqueue_ok q1 \<and> pqueue_list q1 = pqueue_list q @ [x] \<and>
           pqueue_bury q x = Some q2 \<and> pqueue_ok q2 \<and> pqueue_list q2 = x # pqueue_list q \<and>
           map_option fst (PQueueGetLast q1) = Some x \<and> map_option fst (PQueueGetNext q2) = Some x \<and>
           PQueueCardinality q = length (pqueue_list q)"
proof -
  obtain q1 where q1: "pqueue_store q x = Some q1" "pqueue_ok q1" "pqueue_list q1 = pqueue_list q @ [x]"
    using pqd.end_law [OF assms] by blast
  obtain q2 where q2: "pqueue_bury q x = Some q2" "pqueue_ok q2" "pqueue_list q2 = x # pqueue_list q"
    using pqd.front_law [OF assms] by blast
  obtain q3 q4 where "PQueueGetLast q1 = Some (x, q3)" "PQueueGetNext q2 = Some (x, q4)"
    using pqd.take_end_law [OF q1(2,3)] pqd.take_front_law [OF q2(2,3)] by blast
  then show ?thesis
    using q1 q2 pqueue_okE [OF assms] pqueue_holds_card [of q "pqueue_list q"] by auto
qed

theorem pqueue_deque_step_witness:
  "\<exists>q1 q2. pqueue_store PQueueAlloc (1::int) = Some q1 \<and> pqueue_list q1 = [1] \<and>
     pqueue_bury PQueueAlloc (1::int) = Some q2 \<and> pqueue_list q2 = [1]"
  using pqueue_deque_step [of "PQueueAlloc :: int pqueue" 1] PQueueAlloc_ok [where 'a = int] by auto

end
