(* ===== verification/MinHeap.thy ===== *)
theory MinHeap
  imports PStacks
begin

text \<open>
  The binary min-heap of \<open>BASICS/clb_min_heap.c\<close>: a stack read as a complete binary tree,
  ordered by the heap's comparison function. A heap may have a setter, which tells its client
  at which index an element now is (-1: not in the heap); what the setter changes is the
  client's state, threaded through every operation.

  \<open>is_heap\<close> is the heap order of the array; \<open>heap_swaps\<close> relates what the loops do to array
  and client state; \<open>index_ok\<close> says that a client's index table is right.
\<close>

section \<open>The data structure\<close>

record ('a, 's) MinHeap =
  mh_arr :: "'a pstack"
  mh_cmp :: "'a \<Rightarrow> 'a \<Rightarrow> int"
  mh_setter :: "('a \<Rightarrow> int \<Rightarrow> 's \<Rightarrow> 's) option"

definition CALL_SETTER :: "('a, 's) MinHeap \<Rightarrow> 'a \<Rightarrow> int \<Rightarrow> 's \<Rightarrow> 's" where
  "CALL_SETTER h el idx s = (case mh_setter h of None \<Rightarrow> s | Some f \<Rightarrow> f el idx s)"

lemma CALL_SETTER_arr [simp]: "CALL_SETTER (h\<lparr>mh_arr := a\<rparr>) = CALL_SETTER h"
  by (simp add: CALL_SETTER_def fun_eq_iff)

lemma CALL_SETTER_cong: "mh_setter h' = mh_setter h \<Longrightarrow> CALL_SETTER h' = CALL_SETTER h"
  by (simp add: CALL_SETTER_def fun_eq_iff)

definition PARENT :: "nat \<Rightarrow> nat" where
  "PARENT idx = (idx - 1) div 2"

definition IS_ROOT :: "nat \<Rightarrow> bool" where
  "IS_ROOT idx \<longleftrightarrow> idx = 0"

definition LEFT :: "nat \<Rightarrow> nat" where
  "LEFT idx = 2 * idx + 1"

definition RIGHT :: "nat \<Rightarrow> nat" where
  "RIGHT idx = LEFT idx + 1"

definition IS_LEAF :: "nat \<Rightarrow> nat \<Rightarrow> bool" where
  "IS_LEAF idx sz \<longleftrightarrow> LEFT idx \<ge> sz"

lemmas heap_index_defs = PARENT_def IS_ROOT_def LEFT_def RIGHT_def IS_LEAF_def

text \<open>\<open>SWAP(*ref1, *ref2)\<close> on two cells of the array.\<close>

definition swap_cells :: "('a, 's) MinHeap \<Rightarrow> nat \<Rightarrow> nat \<Rightarrow> ('a, 's) MinHeap option" where
  "swap_cells h i j =
     do { a \<leftarrow> PStackElement (mh_arr h) i;
          b \<leftarrow> PStackElement (mh_arr h) j;
          arr \<leftarrow> PStackElementAssign (mh_arr h) i b;
          arr \<leftarrow> PStackElementAssign arr j a;
          Some (h\<lparr>mh_arr := arr\<rparr>) }"

function bubble_up :: "('a, 's) MinHeap \<Rightarrow> nat \<Rightarrow> 's \<Rightarrow> (('a, 's) MinHeap \<times> 's) option" where
  "bubble_up h child_idx s =
     (if IS_ROOT child_idx then Some (h, s)
      else let parent_idx = PARENT child_idx in
        do { child \<leftarrow> PStackElement (mh_arr h) child_idx;
             parent \<leftarrow> PStackElement (mh_arr h) parent_idx;
             if mh_cmp h child parent < 0
             then do { let s = CALL_SETTER h child (int parent_idx) s;
                       let s = CALL_SETTER h parent (int child_idx) s;
                       h \<leftarrow> swap_cells h child_idx parent_idx;
                       bubble_up h parent_idx s }
             else Some (h, s) })"
  by pat_completeness auto
termination
  by (relation "measure (\<lambda>(h, idx, s). idx)") (auto simp: heap_index_defs)

declare bubble_up.simps [simp del]

text \<open>The smallest of a cell and its children, as \<open>drop_down()\<close> picks it.\<close>

definition min_child :: "('a, 's) MinHeap \<Rightarrow> nat \<Rightarrow> nat \<Rightarrow> nat option" where
  "min_child h sz curr_idx =
     do { let l = LEFT curr_idx;
          let r = RIGHT curr_idx;
          cl \<leftarrow> PStackElement (mh_arr h) l;
          cm \<leftarrow> PStackElement (mh_arr h) curr_idx;
          let min_c_idx = (if mh_cmp h cl cm < 0 then l else curr_idx);
          if r < sz
          then do { cr \<leftarrow> PStackElement (mh_arr h) r;
                    cm \<leftarrow> PStackElement (mh_arr h) min_c_idx;
                    Some (if mh_cmp h cr cm < 0 then r else min_c_idx) }
          else Some min_c_idx }"

lemma min_child_cases:
  "min_child h sz i = Some m \<Longrightarrow> m = i \<or> m = LEFT i \<or> m = RIGHT i"
  by (auto simp: min_child_def Let_def split: bind_splits if_splits)

function drop_down_loop ::
  "('a, 's) MinHeap \<Rightarrow> nat \<Rightarrow> nat \<Rightarrow> 's \<Rightarrow> (('a, 's) MinHeap \<times> 's) option" where
  "drop_down_loop h sz curr_idx s =
     (if IS_LEAF curr_idx sz then Some (h, s)
      else do { min_c_idx \<leftarrow> min_child h sz curr_idx;
                if min_c_idx \<noteq> curr_idx
                then do { parent \<leftarrow> PStackElement (mh_arr h) curr_idx;
                          child \<leftarrow> PStackElement (mh_arr h) min_c_idx;
                          let s = CALL_SETTER h parent (int min_c_idx) s;
                          let s = CALL_SETTER h child (int curr_idx) s;
                          h \<leftarrow> swap_cells h min_c_idx curr_idx;
                          drop_down_loop h sz min_c_idx s }
                else Some (h, s) })"
  by pat_completeness auto
termination
  by (relation "measure (\<lambda>(h, sz, idx, s). sz - idx)")
    (auto dest!: min_child_cases simp: heap_index_defs)

declare drop_down_loop.simps [simp del]

definition drop_down :: "('a, 's) MinHeap \<Rightarrow> nat \<Rightarrow> 's \<Rightarrow> (('a, 's) MinHeap \<times> 's) option" where
  "drop_down h curr_idx s = drop_down_loop h (PStackGetSP (mh_arr h)) curr_idx s"

definition heap_add :: "('a, 's) MinHeap \<Rightarrow> 'a \<Rightarrow> 's \<Rightarrow> (('a, 's) MinHeap \<times> 's) option" where
  "heap_add h key s =
     do { arr \<leftarrow> push (mh_arr h) key;
          let h = h\<lparr>mh_arr := arr\<rparr>;
          let s = CALL_SETTER h key (int (PStackGetSP arr - 1)) s;
          bubble_up h (PStackGetSP arr - 1) s }"

definition MinHeapAllocWithIndex ::
  "('a \<Rightarrow> 'a \<Rightarrow> int) \<Rightarrow> ('a \<Rightarrow> int \<Rightarrow> 's \<Rightarrow> 's) option \<Rightarrow> ('a, 's) MinHeap" where
  "MinHeapAllocWithIndex cmp setter = \<lparr>mh_arr = PStackAlloc, mh_cmp = cmp, mh_setter = setter\<rparr>"

definition MinHeapSize :: "('a, 's) MinHeap \<Rightarrow> nat" where
  "MinHeapSize h = PStackGetSP (mh_arr h)"

definition MinHeapAddP ::
  "('p IntOrP, 's) MinHeap \<Rightarrow> 'p \<Rightarrow> 's \<Rightarrow> (('p IntOrP, 's) MinHeap \<times> 's) option" where
  "MinHeapAddP h p s = heap_add h (p_val p) s"

definition MinHeapAddInt ::
  "('p IntOrP, 's) MinHeap \<Rightarrow> int \<Rightarrow> 's \<Rightarrow> (('p IntOrP, 's) MinHeap \<times> 's) option" where
  "MinHeapAddInt h i s = heap_add h (i_val i) s"

text \<open>On the empty heap the program ends with a \<open>SysError\<close>.\<close>

definition MinHeapPopMin :: "('a, 's) MinHeap \<Rightarrow> 's \<Rightarrow> ('a \<times> ('a, 's) MinHeap \<times> 's) option" where
  "MinHeapPopMin h s =
     (if MinHeapSize h \<noteq> 0
      then do { ret_val \<leftarrow> PStackElement (mh_arr h) 0;
                (last, arr) \<leftarrow> PStackPop (mh_arr h);
                let h = h\<lparr>mh_arr := arr\<rparr>;
                (h, s) \<leftarrow>
                  (if PStackGetSP arr \<noteq> 0
                   then do { arr \<leftarrow> PStackElementAssign arr 0 last;
                             let h = h\<lparr>mh_arr := arr\<rparr>;
                             drop_down h 0 (CALL_SETTER h last 0 s) }
                   else Some (h, s));
                Some (ret_val, h, CALL_SETTER h ret_val (- 1) s) }
      else None)"

definition MinHeapDecrKey :: "('a, 's) MinHeap \<Rightarrow> nat \<Rightarrow> 's \<Rightarrow> (('a, 's) MinHeap \<times> 's) option" where
  "MinHeapDecrKey h idx s = drop_down h idx s"

definition MinHeapIncrKey :: "('a, 's) MinHeap \<Rightarrow> nat \<Rightarrow> 's \<Rightarrow> (('a, 's) MinHeap \<times> 's) option" where
  "MinHeapIncrKey h idx s = bubble_up h idx s"

definition MinHeapUpdateElement ::
  "('a, 's) MinHeap \<Rightarrow> int \<Rightarrow> 's \<Rightarrow> (('a, 's) MinHeap \<times> 's) option" where
  "MinHeapUpdateElement h idx s =
     (if idx \<ge> 0
      then let idx = nat idx in
        do { up \<leftarrow> (if \<not> IS_ROOT idx
                  then do { el \<leftarrow> PStackElement (mh_arr h) idx;
                            pa \<leftarrow> PStackElement (mh_arr h) (PARENT idx);
                            Some (mh_cmp h el pa < 0) }
                  else Some False);
             if up then bubble_up h idx s else drop_down h idx s }
      else Some (h, s))"

definition MinHeapRemoveElement ::
  "('a, 's) MinHeap \<Rightarrow> int \<Rightarrow> 's \<Rightarrow> (('a, 's) MinHeap \<times> 's) option" where
  "MinHeapRemoveElement h idx s =
     do { c_assert (idx \<ge> 0 \<and> idx < int (PStackGetSP (mh_arr h)));
          el \<leftarrow> PStackElement (mh_arr h) (nat idx);
          let s = CALL_SETTER h el (- 1) s;
          (last, arr) \<leftarrow> PStackPop (mh_arr h);
          let h = h\<lparr>mh_arr := arr\<rparr>;
          if idx \<noteq> int (PStackGetSP arr)
          then do { let s = CALL_SETTER h last idx s;
                    arr \<leftarrow> PStackElementAssign arr (nat idx) last;
                    MinHeapUpdateElement (h\<lparr>mh_arr := arr\<rparr>) idx s }
          else Some (h, s) }"

section \<open>The order of the array\<close>

definition heap_list :: "('a, 's) MinHeap \<Rightarrow> 'a list" where
  "heap_list h = pstack_list (mh_arr h)"

definition heap_wf :: "('a, 's) MinHeap \<Rightarrow> bool" where
  "heap_wf h \<longleftrightarrow> pstack_ok (mh_arr h)"

text \<open>A cell is not smaller than its parent; \<open>heap_but\<close> excludes a set of child cells.\<close>

definition heap_but :: "('a \<Rightarrow> 'a \<Rightarrow> int) \<Rightarrow> nat set \<Rightarrow> 'a list \<Rightarrow> bool" where
  "heap_but cmp X xs \<longleftrightarrow>
     (\<forall>j < length xs. j \<noteq> 0 \<and> j \<notin> X \<longrightarrow> \<not> cmp (xs ! j) (xs ! PARENT j) < 0)"

definition is_heap :: "('a \<Rightarrow> 'a \<Rightarrow> int) \<Rightarrow> 'a list \<Rightarrow> bool" where
  "is_heap cmp xs \<longleftrightarrow> heap_but cmp {} xs"

lemma heap_but_insert:
  "heap_but cmp (insert i X) xs \<Longrightarrow> \<not> cmp (xs ! i) (xs ! PARENT i) < 0 \<Longrightarrow> heap_but cmp X xs"
  by (auto simp: heap_but_def)

text \<open>The children of cell \<open>i\<close> are not smaller than its parent.\<close>

definition grand_ok :: "('a \<Rightarrow> 'a \<Rightarrow> int) \<Rightarrow> nat \<Rightarrow> 'a list \<Rightarrow> bool" where
  "grand_ok cmp i xs \<longleftrightarrow>
     (i \<noteq> 0 \<longrightarrow> (\<forall>j < length xs. j \<noteq> 0 \<and> PARENT j = i \<longrightarrow> \<not> cmp (xs ! j) (xs ! PARENT i) < 0))"

text \<open>
  Every exchange of two cells is announced to the client: first the cell that was at \<open>i\<close>,
  then the one that was at \<open>j\<close>.
\<close>

inductive heap_swaps ::
  "('a, 's) MinHeap \<Rightarrow> 'a list \<Rightarrow> 's \<Rightarrow> 'a list \<Rightarrow> 's \<Rightarrow> bool" for h where
  refl: "heap_swaps h xs s xs s"
| swap: "i < length xs \<Longrightarrow> j < length xs \<Longrightarrow> i \<noteq> j \<Longrightarrow>
         heap_swaps h (list_swap xs i j)
           (CALL_SETTER h (xs ! j) (int i) (CALL_SETTER h (xs ! i) (int j) s)) ys t \<Longrightarrow>
         heap_swaps h xs s ys t"

lemma heap_swaps_mset: "heap_swaps h xs s ys t \<Longrightarrow> mset ys = mset xs"
  by (induction rule: heap_swaps.induct) (simp_all add: mset_list_swap)

lemma heap_swaps_cong:
  "heap_swaps h xs s ys t \<Longrightarrow> mh_setter h' = mh_setter h \<Longrightarrow> heap_swaps h' xs s ys t"
  by (induction rule: heap_swaps.induct) (auto simp: CALL_SETTER_def intro: heap_swaps.intros)

lemma swap_cells_ok:
  assumes "heap_wf h" and "i < length (heap_list h)" and "j < length (heap_list h)" and "i \<noteq> j"
  shows "\<exists>h'. swap_cells h i j = Some h' \<and> heap_wf h' \<and>
           heap_list h' = list_swap (heap_list h) i j \<and>
           mh_cmp h' = mh_cmp h \<and> mh_setter h' = mh_setter h"
proof -
  let ?xs = "pstack_list (mh_arr h)"
  have ok: "pstack_ok (mh_arr h)" "i < length ?xs" "j < length ?xs"
    using assms by (simp_all add: heap_wf_def heap_list_def)
  obtain a1 where a1: "PStackElementAssign (mh_arr h) i (?xs ! j) = Some a1" "pstack_ok a1"
    "pstack_list a1 = ?xs[i := ?xs ! j]"
    using PStackElementAssign_ok [OF ok(1,2)] by blast
  obtain a2 where a2: "PStackElementAssign a1 j (?xs ! i) = Some a2" "pstack_ok a2"
    "pstack_list a2 = ?xs[i := ?xs ! j, j := ?xs ! i]"
    using PStackElementAssign_ok [OF a1(2), of j "?xs ! i"] a1(3) ok(3) by auto
  show ?thesis
    using a1(1) a2 ok by (simp add: swap_cells_def PStackElement_ok heap_wf_def heap_list_def
        list_swap_def)
qed

lemma list_swap_commute: "list_swap xs i j = list_swap xs j i"
  by (cases "i = j") (simp_all add: list_swap_def list_update_swap)

text \<open>The comparison function of a heap: any total preorder.\<close>

locale heap_order =
  fixes cmp :: "'a \<Rightarrow> 'a \<Rightarrow> int"
  assumes cmp_asym: "cmp a b < 0 \<Longrightarrow> \<not> cmp b a < 0"
    and cmp_ntrans: "\<not> cmp b a < 0 \<Longrightarrow> \<not> cmp c b < 0 \<Longrightarrow> \<not> cmp c a < 0"
begin

lemma bubble_swap_heap:
  assumes "i < length xs" "i \<noteq> 0" "heap_but cmp {i} xs" "grand_ok cmp i xs"
    and "cmp (xs ! i) (xs ! PARENT i) < 0"
  defines "ys \<equiv> list_swap xs i (PARENT i)"
  shows "heap_but cmp {PARENT i} ys" "grand_ok cmp (PARENT i) ys"
proof -
  let ?p = "PARENT i"
  have p: "?p < i" "?p < length xs" using assms(1,2) by (auto simp: PARENT_def)
  have h: "\<not> cmp (xs ! j) (xs ! PARENT j) < 0" if "j < length xs" "j \<noteq> 0" "j \<noteq> i" for j
    using assms(3) that by (auto simp: heap_but_def)
  have g: "\<not> cmp (xs ! j) (xs ! ?p) < 0" if "j < length xs" "j \<noteq> 0" "PARENT j = i" for j
    using assms(2,4) that by (auto simp: grand_ok_def)
  have ys: "ys ! k = (if k = i then xs ! ?p else if k = ?p then xs ! i else xs ! k)"
    if "k < length xs" for k
    using that p assms(1) by (simp add: ys_def nth_list_swap)
  have lt: "PARENT j < j" if "j \<noteq> 0" for j using that by (auto simp: PARENT_def)
  have up: "\<not> cmp (ys ! j) (xs ! i) < 0" if "j < length xs" "j \<noteq> 0" "PARENT j = ?p" for j
    using that h [of j] cmp_asym [OF assms(5)] cmp_ntrans [of "xs ! ?p" "xs ! i" "xs ! j"] lt [of j] p
    by (auto simp: ys)
  show "heap_but cmp {?p} ys"
    unfolding heap_but_def
  proof (intro allI impI)
    fix j assume "j < length ys" and j: "j \<noteq> 0 \<and> j \<notin> {?p}"
    then have l: "j < length xs" "PARENT j < length xs" using lt [of j] by (auto simp: ys_def)
    consider "PARENT j = ?p" | "PARENT j = i" | "PARENT j \<noteq> ?p" "PARENT j \<noteq> i" by blast
    then show "\<not> cmp (ys ! j) (ys ! PARENT j) < 0"
    proof cases
      case 1
      then show ?thesis using up [OF l(1)] j ys [of ?p] p by simp
    next
      case 2
      then show ?thesis using g [OF l(1)] j lt [of j] assms(1) by (simp add: ys l(1))
    next
      case 3
      then show ?thesis using h [OF l(1)] j l by (auto simp: ys)
    qed
  qed
  show "grand_ok cmp ?p ys"
    unfolding grand_ok_def
  proof (intro allI impI)
    fix j assume p0: "?p \<noteq> 0" and "j < length ys" and j: "j \<noteq> 0 \<and> PARENT j = ?p"
    then have l: "j < length xs" by (simp add: ys_def)
    have "\<not> cmp (xs ! ?p) (xs ! PARENT ?p) < 0"
      using h [of ?p] p p0 by simp
    moreover have "\<not> cmp (ys ! j) (xs ! ?p) < 0"
      using h [OF l] j lt [of j] cmp_asym [of "xs ! ?p" "xs ! ?p"] by (auto simp: ys l)
    ultimately show "\<not> cmp (ys ! j) (ys ! PARENT ?p) < 0"
      using cmp_ntrans [of "xs ! ?p" "xs ! PARENT ?p" "ys ! j"] lt [OF p0] p assms(1)
      by (simp add: ys)
  qed
qed

lemma bubble_up_heap:
  assumes "heap_wf h" and "mh_cmp h = cmp" and "i < length (heap_list h)"
    and "heap_but cmp {i} (heap_list h)" and "grand_ok cmp i (heap_list h)"
  shows "\<exists>h' s'. bubble_up h i s = Some (h', s') \<and> heap_wf h' \<and> mh_cmp h' = cmp \<and>
           mh_setter h' = mh_setter h \<and> is_heap cmp (heap_list h') \<and>
           heap_swaps h (heap_list h) s (heap_list h') s'"
  using assms
proof (induction i arbitrary: h s rule: less_induct)
  case (less i)
  let ?xs = "heap_list h" and ?p = "PARENT i"
  show ?case
  proof (cases "i = 0")
    case True
    have "bubble_up h i s = Some (h, s)"
      by (simp add: True bubble_up.simps [of h 0] IS_ROOT_def)
    moreover have "is_heap cmp ?xs"
      using less.prems(4) by (simp add: True is_heap_def heap_but_def)
    ultimately show ?thesis
      using less.prems(1,2) by (simp add: heap_swaps.refl)
  next
    case False
    then have p: "?p < i" "?p < length ?xs" using less.prems(3) by (auto simp: PARENT_def)
    have el: "PStackElement (mh_arr h) i = Some (?xs ! i)" "PStackElement (mh_arr h) ?p = Some (?xs ! ?p)"
      using less.prems(1,3) p by (simp_all add: heap_wf_def heap_list_def PStackElement_ok)
    show ?thesis
    proof (cases "cmp (?xs ! i) (?xs ! ?p) < 0")
      case False
      then have "is_heap cmp ?xs"
        using heap_but_insert [of cmp i "{}" ?xs] less.prems(4) by (simp add: is_heap_def)
      moreover have "bubble_up h i s = Some (h, s)"
        using False el less.prems(2) \<open>i \<noteq> 0\<close>
        by (simp add: bubble_up.simps [of h i] IS_ROOT_def)
      ultimately show ?thesis
        using less.prems(1,2) by (simp add: heap_swaps.refl)
    next
      case True
      obtain h1 where h1: "swap_cells h i ?p = Some h1" "heap_wf h1"
        "heap_list h1 = list_swap ?xs i ?p" "mh_cmp h1 = cmp" "mh_setter h1 = mh_setter h"
        using swap_cells_ok [OF less.prems(1,3) p(2)] p(1) less.prems(2) by auto
      let ?s = "CALL_SETTER h (?xs ! ?p) (int i) (CALL_SETTER h (?xs ! i) (int ?p) s)"
      have pre: "heap_but cmp {?p} (heap_list h1)" "grand_ok cmp ?p (heap_list h1)"
        "?p < length (heap_list h1)"
        using bubble_swap_heap [OF less.prems(3) False less.prems(4,5) True] p by (simp_all add: h1(3))
      obtain h2 s2 where h2: "bubble_up h1 ?p ?s = Some (h2, s2)" "heap_wf h2" "mh_cmp h2 = cmp"
        "mh_setter h2 = mh_setter h1" "is_heap cmp (heap_list h2)"
        "heap_swaps h1 (heap_list h1) ?s (heap_list h2) s2"
        using less.IH [OF p(1) h1(2,4) pre(3,1,2), of ?s] by blast
      have "heap_swaps h ?xs s (heap_list h2) s2"
      proof (rule heap_swaps.swap [of i ?xs ?p])
        show "heap_swaps h (list_swap ?xs i ?p) ?s (heap_list h2) s2"
          using heap_swaps_cong [OF h2(6), of h] h1(3,5) by simp
      qed (use less.prems(3) p in simp_all)
      then show ?thesis
        using True el h1 h2 False less.prems(2)
        unfolding bubble_up.simps [of h i s] by (simp add: IS_ROOT_def Let_def)
    qed
  qed
qed

lemma min_child_ok:
  assumes "heap_wf h" and "mh_cmp h = cmp" and "\<not> IS_LEAF i (length (heap_list h))"
  shows "\<exists>m. min_child h (length (heap_list h)) i = Some m \<and>
           (m = i \<or> m = LEFT i \<or> m = RIGHT i) \<and> m < length (heap_list h) \<and>
           (\<forall>j < length (heap_list h). j = i \<or> j = LEFT i \<or> j = RIGHT i \<longrightarrow>
              \<not> cmp (heap_list h ! j) (heap_list h ! m) < 0)"
proof -
  let ?xs = "heap_list h"
  let ?m1 = "if cmp (?xs ! LEFT i) (?xs ! i) < 0 then LEFT i else i"
  let ?m = "if RIGHT i < length ?xs \<and> cmp (?xs ! RIGHT i) (?xs ! ?m1) < 0 then RIGHT i else ?m1"
  have el: "j < length ?xs \<Longrightarrow> PStackElement (mh_arr h) j = Some (?xs ! j)" for j
    using assms(1) by (simp add: heap_wf_def heap_list_def PStackElement_ok)
  have l: "LEFT i < length ?xs" "i < length ?xs" using assms(3) by (simp_all add: heap_index_defs)
  have m1: "\<not> cmp (?xs ! i) (?xs ! ?m1) < 0" "\<not> cmp (?xs ! LEFT i) (?xs ! ?m1) < 0"
    using cmp_asym by auto
  have "min_child h (length ?xs) i = Some ?m"
    using assms(2) l by (simp add: min_child_def Let_def el)
  moreover have "\<not> cmp (?xs ! j) (?xs ! ?m) < 0" if "j = i \<or> j = LEFT i \<or> j = RIGHT i" "j < length ?xs" for j
  proof (cases "RIGHT i < length ?xs \<and> cmp (?xs ! RIGHT i) (?xs ! ?m1) < 0")
    case True
    then have "\<not> cmp (?xs ! ?m1) (?xs ! RIGHT i) < 0" using cmp_asym by blast
    moreover have "\<not> cmp (?xs ! RIGHT i) (?xs ! RIGHT i) < 0" using cmp_asym by blast
    ultimately show ?thesis
      using True that m1 cmp_ntrans [of "?xs ! ?m1" "?xs ! RIGHT i" "?xs ! j"] by auto
  next
    case False
    then show ?thesis using that m1 by auto
  qed
  moreover have "?m = i \<or> ?m = LEFT i \<or> ?m = RIGHT i" "?m < length ?xs" using l by simp_all
  ultimately show ?thesis by blast
qed

lemma drop_swap_heap:
  assumes "i < length xs" and "m = LEFT i \<or> m = RIGHT i" and "m < length xs"
    and "heap_but cmp {j. j \<noteq> 0 \<and> PARENT j = i} xs" and "grand_ok cmp i xs"
    and min: "\<And>j. j < length xs \<Longrightarrow> j = i \<or> j = LEFT i \<or> j = RIGHT i \<Longrightarrow>
                \<not> cmp (xs ! j) (xs ! m) < 0"
  defines "ys \<equiv> list_swap xs m i"
  shows "heap_but cmp {j. j \<noteq> 0 \<and> PARENT j = m} ys" "grand_ok cmp m ys"
proof -
  have m: "PARENT m = i" "i < m" "m \<noteq> 0" using assms(2) by (auto simp: heap_index_defs)
  have child: "j = LEFT i \<or> j = RIGHT i" if "PARENT j = i" "j \<noteq> 0" for j
    using that by (auto simp: heap_index_defs)
  have lt: "PARENT j < j" if "j \<noteq> 0" for j using that by (auto simp: PARENT_def)
  have h: "\<not> cmp (xs ! j) (xs ! PARENT j) < 0" if "j < length xs" "j \<noteq> 0" "PARENT j \<noteq> i" for j
    using assms(4) that by (auto simp: heap_but_def)
  have ys: "ys ! k = (if k = m then xs ! i else if k = i then xs ! m else xs ! k)"
    if "k < length xs" for k
    using that assms(1,3) by (simp add: ys_def nth_list_swap)
  show "heap_but cmp {j. j \<noteq> 0 \<and> PARENT j = m} ys"
    unfolding heap_but_def
  proof (intro allI impI)
    fix j assume "j < length ys" and j: "j \<noteq> 0 \<and> j \<notin> {j. j \<noteq> 0 \<and> PARENT j = m}"
    then have l: "j < length xs" "PARENT j < length xs" "j \<noteq> 0" "PARENT j \<noteq> m"
      using lt [of j] by (auto simp: ys_def)
    consider "j = m" | "j \<noteq> m" "PARENT j = i" | "j = i" | "j \<noteq> m" "j \<noteq> i" "PARENT j \<noteq> i" by blast
    then show "\<not> cmp (ys ! j) (ys ! PARENT j) < 0"
    proof cases
      case 1
      then show ?thesis using min [of i] assms(1,3) m by (simp add: ys)
    next
      case 2
      then show ?thesis using min [OF l(1)] child [of j] l(3) lt [OF l(3)] m assms(1) by (simp add: ys l)
    next
      case 3
      then have "\<not> cmp (xs ! m) (xs ! PARENT i) < 0"
        using assms(3,5) l(3) m by (auto simp: grand_ok_def)
      then show ?thesis using 3 lt [OF l(3)] m l by (simp add: ys)
    next
      case 4
      then show ?thesis using h [OF l(1,3)] l by (simp add: ys)
    qed
  qed
  show "grand_ok cmp m ys"
    unfolding grand_ok_def
  proof (intro allI impI)
    fix j assume "j < length ys" and j: "j \<noteq> 0 \<and> PARENT j = m"
    then have l: "j < length xs" by (simp add: ys_def)
    then have "\<not> cmp (xs ! j) (xs ! m) < 0" using h [OF l] j m by simp
    then show "\<not> cmp (ys ! j) (ys ! PARENT m) < 0"
      using j lt [of j] m l assms(1) by (auto simp: ys)
  qed
qed

lemma drop_down_loop_heap:
  assumes "heap_wf h" and "mh_cmp h = cmp" and "n = length (heap_list h)"
    and "heap_but cmp {j. j \<noteq> 0 \<and> PARENT j = i} (heap_list h)" and "grand_ok cmp i (heap_list h)"
  shows "\<exists>h' s'. drop_down_loop h n i s = Some (h', s') \<and> heap_wf h' \<and> mh_cmp h' = cmp \<and>
           mh_setter h' = mh_setter h \<and> is_heap cmp (heap_list h') \<and>
           heap_swaps h (heap_list h) s (heap_list h') s'"
  using assms
proof (induction "n - i" arbitrary: h i s rule: less_induct)
  case less
  let ?xs = "heap_list h"
  show ?case
  proof (cases "IS_LEAF i n")
    case True
    have "is_heap cmp ?xs"
      unfolding is_heap_def heap_but_def
    proof (intro allI impI)
      fix j assume j: "j < length ?xs" "j \<noteq> 0 \<and> j \<notin> {}"
      then have "PARENT j \<noteq> i" using True less.prems(3) by (auto simp: heap_index_defs)
      then show "\<not> cmp (?xs ! j) (?xs ! PARENT j) < 0"
        using less.prems(4) j by (simp add: heap_but_def)
    qed
    moreover have "drop_down_loop h n i s = Some (h, s)"
      using True by (simp add: drop_down_loop.simps [of h n i])
    ultimately show ?thesis
      using less.prems(1,2) by (simp add: heap_swaps.refl)
  next
    case False
    obtain m where m: "min_child h n i = Some m" "m = i \<or> m = LEFT i \<or> m = RIGHT i" "m < n"
      "\<And>j. j < n \<Longrightarrow> j = i \<or> j = LEFT i \<or> j = RIGHT i \<Longrightarrow> \<not> cmp (?xs ! j) (?xs ! m) < 0"
      using min_child_ok [OF less.prems(1,2)] False unfolding less.prems(3) by blast
    have i: "i < length ?xs" using False less.prems(3) by (simp add: heap_index_defs)
    have el: "PStackElement (mh_arr h) i = Some (?xs ! i)" "PStackElement (mh_arr h) m = Some (?xs ! m)"
      using less.prems(1,3) m(3) i by (simp_all add: heap_wf_def heap_list_def PStackElement_ok)
    show ?thesis
    proof (cases "m = i")
      case True
      have "is_heap cmp ?xs"
        unfolding is_heap_def heap_but_def
      proof (intro allI impI)
        fix j assume j: "j < length ?xs" "j \<noteq> 0 \<and> j \<notin> {}"
        show "\<not> cmp (?xs ! j) (?xs ! PARENT j) < 0"
        proof (cases "PARENT j = i")
          case True
          then have "j = LEFT i \<or> j = RIGHT i" using j by (auto simp: heap_index_defs)
          then show ?thesis using m(4) [of j] j less.prems(3) \<open>m = i\<close> True by auto
        next
          case False
          then show ?thesis using less.prems(4) j by (simp add: heap_but_def)
        qed
      qed
      moreover have "drop_down_loop h n i s = Some (h, s)"
        using True False m(1) by (simp add: drop_down_loop.simps [of h n i])
      ultimately show ?thesis
        using less.prems(1,2) by (simp add: heap_swaps.refl)
    next
      case mi: False
      then have c: "m = LEFT i \<or> m = RIGHT i" using m(2) by blast
      obtain h1 where h1: "swap_cells h m i = Some h1" "heap_wf h1"
        "heap_list h1 = list_swap ?xs m i" "mh_cmp h1 = cmp" "mh_setter h1 = mh_setter h"
        using swap_cells_ok [OF less.prems(1) _ i mi] m(3) less.prems(2,3) by auto
      let ?s = "CALL_SETTER h (?xs ! m) (int i) (CALL_SETTER h (?xs ! i) (int m) s)"
      have "n - m < n - i" using c m(3) by (auto simp: heap_index_defs)
      moreover have "heap_but cmp {j. j \<noteq> 0 \<and> PARENT j = m} (heap_list h1)"
        "grand_ok cmp m (heap_list h1)"
        unfolding h1(3) by (rule drop_swap_heap [OF i c _ less.prems(4,5)]; use m(3,4) less.prems(3) in simp)+
      moreover have "n = length (heap_list h1)" using less.prems(3) h1(3) by simp
      ultimately
      obtain h2 s2 where h2: "drop_down_loop h1 n m ?s = Some (h2, s2)" "heap_wf h2"
        "mh_cmp h2 = cmp" "mh_setter h2 = mh_setter h1" "is_heap cmp (heap_list h2)"
        "heap_swaps h1 (heap_list h1) ?s (heap_list h2) s2"
        using less.hyps [of m h1 ?s] h1(2,4) by blast
      have "heap_swaps h ?xs s (heap_list h2) s2"
      proof (rule heap_swaps.swap [of i ?xs m])
        show "heap_swaps h (list_swap ?xs i m) ?s (heap_list h2) s2"
          using heap_swaps_cong [OF h2(6), of h] h1(3,5) by (simp add: list_swap_commute [of ?xs i m])
      qed (use less.prems(3) m(3) i mi in simp_all)
      then show ?thesis
        using mi False el m(1) h1 h2 less.prems(2)
        unfolding drop_down_loop.simps [of h n i s] by (simp add: Let_def)
    qed
  qed
qed

lemma drop_down_heap:
  assumes "heap_wf h" and "mh_cmp h = cmp"
    and "heap_but cmp {j. j \<noteq> 0 \<and> PARENT j = i} (heap_list h)" and "grand_ok cmp i (heap_list h)"
  shows "\<exists>h' s'. drop_down h i s = Some (h', s') \<and> heap_wf h' \<and> mh_cmp h' = cmp \<and>
           mh_setter h' = mh_setter h \<and> is_heap cmp (heap_list h') \<and>
           heap_swaps h (heap_list h) s (heap_list h') s'"
  using drop_down_loop_heap [OF assms(1,2) _ assms(3,4)] assms(1)
  by (simp add: drop_down_def PStackGetSP_def heap_wf_def heap_list_def)

lemma cmp_irrefl: "\<not> cmp a a < 0"
  using cmp_asym by blast

lemma heap_but_mono: "heap_but cmp X xs \<Longrightarrow> X \<subseteq> Y \<Longrightarrow> heap_but cmp Y xs"
  by (auto simp: heap_but_def)

text \<open>Appending a cell, and changing the cell at \<open>i\<close>.\<close>

lemma heap_append_cell:
  assumes "is_heap cmp xs"
  shows "heap_but cmp {length xs} (xs @ [x])" "grand_ok cmp (length xs) (xs @ [x])"
proof -
  have lt: "PARENT j < j" if "j \<noteq> 0" for j using that by (auto simp: PARENT_def)
  show "heap_but cmp {length xs} (xs @ [x])"
    unfolding heap_but_def
  proof (intro allI impI)
    fix j assume "j < length (xs @ [x])" "j \<noteq> 0 \<and> j \<notin> {length xs}"
    then have "j < length xs" "j \<noteq> 0" "PARENT j < length xs" using lt [of j] by auto
    then show "\<not> cmp ((xs @ [x]) ! j) ((xs @ [x]) ! PARENT j) < 0"
      using assms by (simp add: is_heap_def heap_but_def nth_append)
  qed
  show "grand_ok cmp (length xs) (xs @ [x])"
    unfolding grand_ok_def using lt by (metis length_append_singleton less_SucE not_less_iff_gr_or_eq)
qed

lemma heap_update_cell:
  assumes "is_heap cmp xs" and "i < length xs"
  shows "heap_but cmp (insert i {j. j \<noteq> 0 \<and> PARENT j = i}) (xs[i := x])"
    "grand_ok cmp i (xs[i := x])"
proof -
  have lt: "PARENT j < j" if "j \<noteq> 0" for j using that by (auto simp: PARENT_def)
  have h: "\<not> cmp (xs ! j) (xs ! PARENT j) < 0" if "j < length xs" "j \<noteq> 0" for j
    using assms(1) that by (simp add: is_heap_def heap_but_def)
  show "heap_but cmp (insert i {j. j \<noteq> 0 \<and> PARENT j = i}) (xs[i := x])"
    using h by (auto simp: heap_but_def)
  show "grand_ok cmp i (xs[i := x])"
    unfolding grand_ok_def
  proof (intro impI allI)
    fix j assume i: "i \<noteq> 0" and "j < length (xs[i := x])" and j: "j \<noteq> 0 \<and> PARENT j = i"
    then have "\<not> cmp (xs ! j) (xs ! i) < 0" "\<not> cmp (xs ! i) (xs ! PARENT i) < 0" "j \<noteq> i"
      using h [of j] h [of i] assms(2) lt [of j] by auto
    then show "\<not> cmp (xs[i := x] ! j) (xs[i := x] ! PARENT i) < 0"
      using cmp_ntrans lt [OF i] by simp
  qed
qed

text \<open>Repairing a heap around one cell.\<close>

lemma update_heap:
  assumes "heap_wf h" and "mh_cmp h = cmp" and "i < length (heap_list h)"
    and "heap_but cmp (insert i {j. j \<noteq> 0 \<and> PARENT j = i}) (heap_list h)"
    and "grand_ok cmp i (heap_list h)"
  shows "\<exists>h' s'. MinHeapUpdateElement h (int i) s = Some (h', s') \<and> heap_wf h' \<and> mh_cmp h' = cmp \<and>
           mh_setter h' = mh_setter h \<and> is_heap cmp (heap_list h') \<and>
           heap_swaps h (heap_list h) s (heap_list h') s'"
proof -
  let ?xs = "heap_list h"
  have el: "j < length ?xs \<Longrightarrow> PStackElement (mh_arr h) j = Some (?xs ! j)" for j
    using assms(1) by (simp add: heap_wf_def heap_list_def PStackElement_ok)
  have lt: "PARENT j < j" if "j \<noteq> 0" for j using that by (auto simp: PARENT_def)
  show ?thesis
  proof (cases "i \<noteq> 0 \<and> cmp (?xs ! i) (?xs ! PARENT i) < 0")
    case True
    have "heap_but cmp {i} ?xs"
      unfolding heap_but_def
    proof (intro allI impI)
      fix j assume j: "j < length ?xs" "j \<noteq> 0 \<and> j \<notin> {i}"
      show "\<not> cmp (?xs ! j) (?xs ! PARENT j) < 0"
      proof (cases "PARENT j = i")
        case False
        then show ?thesis using assms(4) j by (simp add: heap_but_def)
      next
        case par: True
        then have "\<not> cmp (?xs ! j) (?xs ! PARENT i) < 0"
          using assms(5) True j by (simp add: grand_ok_def)
        moreover have "\<not> cmp (?xs ! PARENT i) (?xs ! i) < 0" using True cmp_asym by simp
        ultimately show ?thesis
          using cmp_ntrans [of "?xs ! PARENT i" "?xs ! i" "?xs ! j"] par by simp
      qed
    qed
    moreover have "MinHeapUpdateElement h (int i) s = bubble_up h i s"
      using True el [OF assms(3)] el [of "PARENT i"] lt [of i] assms(2,3)
      by (simp add: MinHeapUpdateElement_def IS_ROOT_def)
    ultimately show ?thesis using bubble_up_heap [OF assms(1,2,3) _ assms(5), of s] by simp
  next
    case False
    have "heap_but cmp {j. j \<noteq> 0 \<and> PARENT j = i} ?xs"
      using False assms(4) by (auto simp: heap_but_def)
    moreover have "MinHeapUpdateElement h (int i) s = drop_down h i s"
      using False el [OF assms(3)] el [of "PARENT i"] lt [of i] assms(2,3)
      by (auto simp: MinHeapUpdateElement_def IS_ROOT_def)
    ultimately show ?thesis using drop_down_heap [OF assms(1,2) _ assms(5), of s] by simp
  qed
qed

lemma add_heap:
  assumes "heap_wf h" and "mh_cmp h = cmp" and "is_heap cmp (heap_list h)"
  shows "\<exists>h' s'. heap_add h x s = Some (h', s') \<and> heap_wf h' \<and> mh_cmp h' = cmp \<and>
           mh_setter h' = mh_setter h \<and> is_heap cmp (heap_list h') \<and>
           heap_swaps h (heap_list h @ [x]) (CALL_SETTER h x (int (length (heap_list h))) s)
             (heap_list h') s'"
proof -
  obtain arr where arr: "push (mh_arr h) x = Some arr" "pstack_ok arr"
    "pstack_list arr = pstack_list (mh_arr h) @ [x]"
    using push_ok [of "mh_arr h" x] assms(1) unfolding heap_wf_def by blast
  let ?h = "h\<lparr>mh_arr := arr\<rparr>" and ?i = "length (heap_list h)"
  have h: "heap_wf ?h" "mh_cmp ?h = cmp" "heap_list ?h = heap_list h @ [x]"
    using arr assms(2) by (simp_all add: heap_wf_def heap_list_def)
  have sp: "PStackGetSP arr - 1 = ?i"
    using length_pstack_list [OF arr(2)] arr(3) by (simp add: PStackGetSP_def heap_list_def)
  obtain h' s' where b: "bubble_up ?h ?i (CALL_SETTER h x (int ?i) s) = Some (h', s')" "heap_wf h'"
    "mh_cmp h' = cmp" "mh_setter h' = mh_setter h" "is_heap cmp (heap_list h')"
    "heap_swaps ?h (heap_list h @ [x]) (CALL_SETTER h x (int ?i) s) (heap_list h') s'"
    using bubble_up_heap [OF h(1,2), of ?i "CALL_SETTER h x (int ?i) s"]
      heap_append_cell [OF assms(3), of x] unfolding h(3) by auto
  have "heap_add h x s = Some (h', s')"
    using arr(1) b(1) sp by (simp add: heap_add_def)
  then show ?thesis using b heap_swaps_cong [OF b(6), of h] by simp
qed

lemma pop_heap:
  assumes "heap_wf h" and "mh_cmp h = cmp" and "is_heap cmp (heap_list h)" and "heap_list h \<noteq> []"
  shows "\<exists>h' s' ys t. MinHeapPopMin h s = Some (hd (heap_list h), h', s') \<and> heap_wf h' \<and>
           mh_cmp h' = cmp \<and> mh_setter h' = mh_setter h \<and> is_heap cmp (heap_list h') \<and>
           s' = CALL_SETTER h (hd (heap_list h)) (- 1) t \<and>
           (if tl (heap_list h) = [] then heap_list h' = [] \<and> t = s
            else heap_swaps h (last (heap_list h) # butlast (tl (heap_list h)))
                   (CALL_SETTER h (last (heap_list h)) 0 s) (heap_list h') t)"
proof -
  let ?xs = "heap_list h"
  have ok: "pstack_ok (mh_arr h)" "?xs = pstack_list (mh_arr h)"
    using assms(1) by (simp_all add: heap_wf_def heap_list_def)
  have sz: "MinHeapSize h \<noteq> 0"
    using assms(4) ok by (simp add: MinHeapSize_def PStackGetSP_def flip: length_pstack_list)
  have e0: "PStackElement (mh_arr h) 0 = Some (hd ?xs)"
    using PStackElement_ok [OF ok(1), of 0] assms(4) ok(2) by (simp add: hd_conv_nth)
  obtain arr where arr: "PStackPop (mh_arr h) = Some (last ?xs, arr)" "pstack_ok arr"
    "pstack_list arr = butlast ?xs"
    using PStackPop_ok [OF ok(1), of "butlast ?xs" "last ?xs"] assms(4) ok(2) by auto
  have sp: "PStackGetSP arr = length ?xs - 1"
    using length_pstack_list [OF arr(2)] arr(3) by (simp add: PStackGetSP_def)
  show ?thesis
  proof (cases "tl ?xs = []")
    case True
    then have "length ?xs = 1" using assms(4) by (cases ?xs) auto
    then have "MinHeapPopMin h s = Some (hd ?xs, h\<lparr>mh_arr := arr\<rparr>, CALL_SETTER h (hd ?xs) (- 1) s)"
      using sz e0 arr(1) sp by (simp add: MinHeapPopMin_def)
    moreover have "pstack_list arr = []" using arr(3) \<open>length ?xs = 1\<close> by (cases ?xs) auto
    ultimately show ?thesis
      using arr(2) True assms(2)
      by (simp add: heap_wf_def heap_list_def is_heap_def heap_but_def)
  next
    case False
    then obtain x y ys where xs: "?xs = x # y # ys"
      using assms(4) by (metis list.collapse)
    obtain a2 where a2: "PStackElementAssign arr 0 (last ?xs) = Some a2" "pstack_ok a2"
      "pstack_list a2 = (butlast ?xs)[0 := last ?xs]"
      using PStackElementAssign_ok [OF arr(2), of 0 "last ?xs"] arr(3) xs by auto
    let ?h = "h\<lparr>mh_arr := a2\<rparr>" and ?s = "CALL_SETTER h (last ?xs) 0 s"
    have zs: "(butlast ?xs)[0 := last ?xs] = last ?xs # butlast (tl ?xs)" using xs by simp
    have h: "heap_wf ?h" "mh_cmp ?h = cmp" "heap_list ?h = last ?xs # butlast (tl ?xs)"
      using a2 assms(2) zs by (simp_all add: heap_wf_def heap_list_def)
    have "is_heap cmp (butlast ?xs)"
      using assms(3) by (auto simp: is_heap_def heap_but_def nth_butlast PARENT_def)
    from heap_update_cell [OF this, of 0 "last ?xs"]
    have "heap_but cmp {j. j \<noteq> 0 \<and> PARENT j = 0} (heap_list ?h)" "grand_ok cmp 0 (heap_list ?h)"
      using xs zs h(3) by (auto simp: heap_but_def)
    then obtain h' s' where d: "drop_down ?h 0 ?s = Some (h', s')" "heap_wf h'" "mh_cmp h' = cmp"
      "mh_setter h' = mh_setter ?h" "is_heap cmp (heap_list h')"
      "heap_swaps ?h (heap_list ?h) ?s (heap_list h') s'"
      using drop_down_heap [OF h(1,2), of 0 ?s] by blast
    have "MinHeapPopMin h s = Some (hd ?xs, h', CALL_SETTER h (hd ?xs) (- 1) s')"
      using sz e0 arr(1) sp xs a2(1) d(1) CALL_SETTER_cong [of h' h] d(4)
      by (simp add: MinHeapPopMin_def)
    moreover have "heap_swaps h (last ?xs # butlast (tl ?xs)) ?s (heap_list h') s'"
      using heap_swaps_cong [OF d(6), of h] h(3) by simp
    ultimately show ?thesis using d False by auto
  qed
qed

lemma heap_root_least: "is_heap cmp xs \<Longrightarrow> i < length xs \<Longrightarrow> \<not> cmp (xs ! i) (xs ! 0) < 0"
proof (induction i rule: less_induct)
  case (less i)
  show ?case
  proof (cases "i = 0")
    case True
    then show ?thesis using cmp_irrefl by simp
  next
    case False
    then have "PARENT i < i" by (auto simp: PARENT_def)
    then show ?thesis
      using less.IH [of "PARENT i"] less.prems False cmp_ntrans [of "xs ! PARENT i" "xs ! 0" "xs ! i"]
      by (auto simp: is_heap_def heap_but_def)
  qed
qed

lemma remove_heap:
  assumes "heap_wf h" and "mh_cmp h = cmp" and "is_heap cmp (heap_list h)"
    and "heap_list h = zs @ [x]" and "i \<le> length zs"
  shows "\<exists>h' s'. MinHeapRemoveElement h (int i) s = Some (h', s') \<and> heap_wf h' \<and>
           mh_cmp h' = cmp \<and> mh_setter h' = mh_setter h \<and> is_heap cmp (heap_list h') \<and>
           (if i = length zs then heap_list h' = zs \<and> s' = CALL_SETTER h x (- 1) s
            else heap_swaps h (zs[i := x])
                   (CALL_SETTER h x (int i) (CALL_SETTER h (zs ! i) (- 1) s)) (heap_list h') s')"
proof -
  have ok: "pstack_ok (mh_arr h)" "pstack_list (mh_arr h) = zs @ [x]"
    using assms(1,4) by (simp_all add: heap_wf_def heap_list_def)
  have sp: "PStackGetSP (mh_arr h) = Suc (length zs)"
    using length_pstack_list [OF ok(1)] ok(2) by (simp add: PStackGetSP_def)
  have ei: "PStackElement (mh_arr h) i = Some ((zs @ [x]) ! i)"
    using PStackElement_ok [OF ok(1), of i] ok(2) assms(5) by simp
  obtain arr where arr: "PStackPop (mh_arr h) = Some (x, arr)" "pstack_ok arr" "pstack_list arr = zs"
    using PStackPop_ok [OF ok] by blast
  have sp': "PStackGetSP arr = length zs"
    using length_pstack_list [OF arr(2)] arr(3) by (simp add: PStackGetSP_def)
  have hz: "is_heap cmp zs"
    unfolding is_heap_def heap_but_def
  proof (intro allI impI)
    fix j assume j: "j < length zs" "j \<noteq> 0 \<and> j \<notin> {}"
    then have "PARENT j < length zs" by (auto simp: PARENT_def)
    moreover have "\<not> cmp ((zs @ [x]) ! j) ((zs @ [x]) ! PARENT j) < 0"
      using assms(3) j unfolding is_heap_def heap_but_def assms(4) by simp
    ultimately show "\<not> cmp (zs ! j) (zs ! PARENT j) < 0" using j by (simp add: nth_append)
  qed
  show ?thesis
  proof (cases "i = length zs")
    case True
    then show ?thesis
      using sp sp' ei arr hz assms(2)
      by (simp add: MinHeapRemoveElement_def heap_wf_def heap_list_def)
  next
    case False
    then have i: "i < length zs" using assms(5) by simp
    obtain a2 where a2: "PStackElementAssign arr i x = Some a2" "pstack_ok a2"
      "pstack_list a2 = zs[i := x]"
      using PStackElementAssign_ok [OF arr(2), of i x] arr(3) i by auto
    let ?h = "h\<lparr>mh_arr := a2\<rparr>" and ?s = "CALL_SETTER h x (int i) (CALL_SETTER h (zs ! i) (- 1) s)"
    have h: "heap_wf ?h" "mh_cmp ?h = cmp" "heap_list ?h = zs[i := x]"
      using a2 assms(2) by (simp_all add: heap_wf_def heap_list_def)
    obtain h' s' where u: "MinHeapUpdateElement ?h (int i) ?s = Some (h', s')" "heap_wf h'"
      "mh_cmp h' = cmp" "mh_setter h' = mh_setter ?h" "is_heap cmp (heap_list h')"
      "heap_swaps ?h (heap_list ?h) ?s (heap_list h') s'"
      using update_heap [OF h(1,2), of i ?s] heap_update_cell [OF hz i, of x] i unfolding h(3) by auto
    have "MinHeapRemoveElement h (int i) s = Some (h', s')"
      using sp sp' ei arr(1) a2(1) u(1) i by (simp add: MinHeapRemoveElement_def nth_append)
    then show ?thesis using u False h(3) heap_swaps_cong [OF u(6), of h] by simp
  qed
qed

end

section \<open>The client's index table\<close>

text \<open>
  The setter of the code's clients stores the index in the element. With the table as the
  client state, \<open>index_ok\<close> says that every element of the array has its index.
\<close>

definition set_index :: "'a \<Rightarrow> int \<Rightarrow> ('a \<Rightarrow> int) \<Rightarrow> 'a \<Rightarrow> int" where
  "set_index el idx tbl = tbl(el := idx)"

definition index_ok :: "'a list \<Rightarrow> ('a \<Rightarrow> int) \<Rightarrow> bool" where
  "index_ok xs tbl \<longleftrightarrow> distinct xs \<and> (\<forall>i < length xs. tbl (xs ! i) = int i)"

lemma index_ok_swap:
  assumes "index_ok xs tbl" and "i < length xs" and "j < length xs" and "i \<noteq> j"
  shows "index_ok (list_swap xs i j) (set_index (xs ! j) (int i) (set_index (xs ! i) (int j) tbl))"
  using assms by (auto simp: index_ok_def set_index_def distinct_list_swap nth_list_swap nth_eq_iff_index_eq)

lemma heap_swaps_index:
  "heap_swaps h xs s ys t \<Longrightarrow> mh_setter h = Some set_index \<Longrightarrow> index_ok xs s \<Longrightarrow>
   index_ok ys t \<and> (\<forall>x. x \<notin> set xs \<longrightarrow> t x = s x)"
proof (induction rule: heap_swaps.induct)
  case (swap i xs j s ys t)
  have "index_ok ys t \<and> (\<forall>x. x \<notin> set (list_swap xs i j) \<longrightarrow>
      t x = set_index (xs ! j) (int i) (set_index (xs ! i) (int j) s) x)"
    using swap.IH [OF swap.prems(1)] index_ok_swap [OF swap.prems(2) swap.hyps(1,2,3)] swap.prems(1)
    by (simp add: CALL_SETTER_def)
  then show ?case
    using swap.hyps by (auto simp: set_list_swap set_index_def)
qed simp

section \<open>A client: the task queue of blocked clause elimination\<close>

text \<open>
  \<open>compare_taks()\<close> of \<open>CLAUSES/ccl_bce.c\<close> orders the tasks by the number of candidate
  clauses that are left; a task may have no candidate stack. Clauses and literals are left
  abstract.
\<close>

record ('c, 'l) BCE_task =
  bce_orig_cl :: 'c
  bce_parent :: 'c
  bce_lit :: 'l
  bce_candidates :: "'c pstack option"
  bce_processed_cands :: int

definition make_task :: "'c \<Rightarrow> 'c \<Rightarrow> 'l \<Rightarrow> 'c pstack option \<Rightarrow> ('c, 'l) BCE_task" where
  "make_task orig_cl cl lit cands =
     \<lparr>bce_orig_cl = orig_cl, bce_parent = cl, bce_lit = lit, bce_candidates = cands,
      bce_processed_cands = 0\<rparr>"

definition compare_taks :: "('c, 'l) BCE_task \<Rightarrow> ('c, 'l) BCE_task \<Rightarrow> int" where
  "compare_taks a b =
     (let a_total = (case bce_candidates a of Some c \<Rightarrow> int (PStackGetSP c) | None \<Rightarrow> 0);
          b_total = (case bce_candidates b of Some c \<Rightarrow> int (PStackGetSP c) | None \<Rightarrow> 0)
      in CMP (a_total - bce_processed_cands a) (b_total - bce_processed_cands b))"

interpretation bce_tasks: heap_order compare_taks
  by unfold_locales (simp_all add: compare_taks_def Let_def)

interpretation long_heap: heap_order CMP
  by unfold_locales simp_all

section \<open>Properties\<close>

lemma pop_swaps_mset:
  assumes "heap_order cmp" and "heap_wf h" and "mh_cmp h = cmp" and "is_heap cmp (heap_list h)"
    and "heap_list h \<noteq> []"
  shows "\<exists>h' s'. MinHeapPopMin h s = Some (hd (heap_list h), h', s') \<and> heap_wf h' \<and>
           mh_cmp h' = cmp \<and> mh_setter h' = mh_setter h \<and> is_heap cmp (heap_list h') \<and>
           mset (heap_list h) = add_mset (hd (heap_list h)) (mset (heap_list h'))"
proof -
  obtain h' s' t where p: "MinHeapPopMin h s = Some (hd (heap_list h), h', s')" "heap_wf h'"
    "mh_cmp h' = cmp" "mh_setter h' = mh_setter h" "is_heap cmp (heap_list h')"
    "if tl (heap_list h) = [] then heap_list h' = [] \<and> t = s
     else heap_swaps h (last (heap_list h) # butlast (tl (heap_list h)))
            (CALL_SETTER h (last (heap_list h)) 0 s) (heap_list h') t"
    using heap_order.pop_heap [OF assms, of s] by (elim exE conjE) metis
  obtain x xs where xs: "heap_list h = x # xs" using assms(5) by (cases "heap_list h") auto
  have "mset (heap_list h') = mset xs"
  proof (cases "xs = []")
    case False
    then have "mset (heap_list h') = mset (last xs # butlast xs)"
      using p(6) xs by (auto dest!: heap_swaps_mset)
    also have "\<dots> = mset (butlast xs @ [last xs])" by simp
    finally show ?thesis using False by simp
  qed (use p(6) xs in simp)
  then show ?thesis using p(1-5) xs by auto
qed

text \<open>C36 Popping from a nonempty heap ends without tripping an assertion, returns an element
  such that no other is smaller, removes exactly that element, and leaves a heap.\<close>

theorem MinHeap_pop_least:
  assumes "heap_order cmp" and "heap_wf h" and "mh_cmp h = cmp" and "is_heap cmp (heap_list h)"
    and "heap_list h \<noteq> []"
  shows "\<exists>x h' s'. MinHeapPopMin h s = Some (x, h', s') \<and> heap_wf h' \<and> is_heap cmp (heap_list h') \<and>
           mset (heap_list h) = add_mset x (mset (heap_list h')) \<and>
           (\<forall>y \<in> set (heap_list h). \<not> cmp y x < 0)"
proof -
  have "\<not> cmp y (hd (heap_list h)) < 0" if "y \<in> set (heap_list h)" for y
    using that heap_order.heap_root_least [OF assms(1,4)] assms(5)
    by (metis hd_conv_nth in_set_conv_nth)
  then show ?thesis using pop_swaps_mset [OF assms, of s] by blast
qed

definition heap_of :: "('a \<Rightarrow> 'a \<Rightarrow> int) \<Rightarrow> 'a \<Rightarrow> ('a, unit) MinHeap" where
  "heap_of cmp x = (MinHeapAllocWithIndex cmp None)\<lparr>mh_arr := the (push PStackAlloc x)\<rparr>"

lemma heap_of_ok:
  "heap_wf (heap_of cmp x)" "heap_list (heap_of cmp x) = [x]" "mh_cmp (heap_of cmp x) = cmp"
  using push_ok [of "PStackAlloc :: 'a pstack" x]
  by (auto simp: heap_of_def heap_wf_def heap_list_def MinHeapAllocWithIndex_def)

theorem MinHeap_pop_least_witness:
  "\<exists>x h' s'. MinHeapPopMin (heap_of CMP 4) () = Some (x, h', s') \<and>
     {#4#} = add_mset x (mset (heap_list h'))"
  using MinHeap_pop_least [OF long_heap.heap_order_axioms, of "heap_of CMP 4" "()"] heap_of_ok [of CMP 4]
  by (auto simp: is_heap_def heap_but_def)

text \<open>Popping \<open>n\<close> times.\<close>

primrec heap_pops :: "nat \<Rightarrow> ('a, 's) MinHeap \<Rightarrow> 's \<Rightarrow> 'a list option" where
  "heap_pops 0 h s = Some []"
| "heap_pops (Suc n) h s =
     do { (x, h, s) \<leftarrow> MinHeapPopMin h s; xs \<leftarrow> heap_pops n h s; Some (x # xs) }"

lemma heap_adds:
  assumes "heap_order cmp"
  shows "heap_wf h \<Longrightarrow> mh_cmp h = cmp \<Longrightarrow> is_heap cmp (heap_list h) \<Longrightarrow>
   \<exists>h' s'. foldM (\<lambda>(h, s) x. heap_add h x s) (h, s) xs = Some (h', s') \<and> heap_wf h' \<and>
     mh_cmp h' = cmp \<and> is_heap cmp (heap_list h') \<and> mset (heap_list h') = mset (heap_list h) + mset xs"
proof (induction xs arbitrary: h s)
  case (Cons x xs)
  obtain h1 s1 where h1: "heap_add h x s = Some (h1, s1)" "heap_wf h1" "mh_cmp h1 = cmp"
    "is_heap cmp (heap_list h1)"
    "heap_swaps h (heap_list h @ [x]) (CALL_SETTER h x (int (length (heap_list h))) s) (heap_list h1) s1"
    using heap_order.add_heap [OF assms Cons.prems, of x s] by blast
  have "mset (heap_list h1) = add_mset x (mset (heap_list h))"
    using heap_swaps_mset [OF h1(5)] by simp
  then show ?case using Cons.IH [OF h1(2,3,4), of s1] h1(1) by auto
qed simp

lemma heap_pops_sorted:
  assumes "heap_order cmp"
  shows "heap_wf h \<Longrightarrow> mh_cmp h = cmp \<Longrightarrow> is_heap cmp (heap_list h) \<Longrightarrow>
   \<exists>ys. heap_pops (length (heap_list h)) h s = Some ys \<and> mset ys = mset (heap_list h) \<and>
     sorted_wrt (\<lambda>x y. \<not> cmp y x < 0) ys"
proof (induction "length (heap_list h)" arbitrary: h s)
  case (Suc n)
  then have ne: "heap_list h \<noteq> []" by auto
  obtain h1 s1 where h1: "MinHeapPopMin h s = Some (hd (heap_list h), h1, s1)" "heap_wf h1" "mh_cmp h1 = cmp"
    "is_heap cmp (heap_list h1)" "mset (heap_list h) = add_mset (hd (heap_list h)) (mset (heap_list h1))"
    using pop_swaps_mset [OF assms Suc.prems ne, of s] by blast
  have n: "n = length (heap_list h1)"
    using arg_cong [OF h1(5), of size] Suc.hyps(2) by simp
  obtain ys where ys: "heap_pops n h1 s1 = Some ys" "mset ys = mset (heap_list h1)"
    "sorted_wrt (\<lambda>x y. \<not> cmp y x < 0) ys"
    using Suc.hyps(1) [OF n h1(2,3,4), of s1] n by auto
  have "\<not> cmp y (hd (heap_list h)) < 0" if "y \<in> set ys" for y
  proof -
    have "y \<in> set (heap_list h)" using that ys(2) h1(5) by (metis insertI2 set_mset_add_mset_insert set_mset_mset)
    then show ?thesis
      using heap_order.heap_root_least [OF assms Suc.prems(3)] ne by (metis hd_conv_nth in_set_conv_nth)
  qed
  then show ?case using h1(1,5) ys by (simp flip: Suc.hyps(2))
qed simp

text \<open>C37 Sorting: adding the elements of any list to an empty heap one by one and popping them all
  gives a permutation of the list in which no element is smaller than an earlier one.\<close>

theorem MinHeap_sorts:
  assumes "heap_order cmp"
  shows "\<exists>h s' ys. foldM (\<lambda>(h, s) x. heap_add h x s) (MinHeapAllocWithIndex cmp setter, s) xs = Some (h, s') \<and>
           heap_pops (length xs) h s' = Some ys \<and> mset ys = mset xs \<and>
           sorted_wrt (\<lambda>x y. \<not> cmp y x < 0) ys"
proof -
  let ?h = "MinHeapAllocWithIndex cmp setter"
  have "heap_wf ?h" "mh_cmp ?h = cmp" "heap_list ?h = []"
    by (simp_all add: MinHeapAllocWithIndex_def heap_wf_def heap_list_def)
  then obtain h s' where h: "foldM (\<lambda>(h, s) x. heap_add h x s) (?h, s) xs = Some (h, s')" "heap_wf h"
    "mh_cmp h = cmp" "is_heap cmp (heap_list h)" "mset (heap_list h) = mset xs"
    using heap_adds [OF assms, of ?h s xs] by (auto simp: is_heap_def heap_but_def)
  have "length (heap_list h) = length xs" using h(5) by (metis size_mset)
  then show ?thesis using heap_pops_sorted [OF assms h(2,3,4), of s'] h(1,5) by auto
qed

theorem MinHeap_sorts_witness:
  "\<exists>h s' ys. foldM (\<lambda>(h, s) x. heap_add h x s) (MinHeapAllocWithIndex CMP None, ()) [3, 1, 2] = Some (h, s') \<and>
     heap_pops (length [3, 1, 2 :: int]) h s' = Some ys \<and> mset ys = mset [3, 1, 2] \<and>
     sorted_wrt (\<lambda>x y. \<not> CMP y x < 0) ys"
  by (rule MinHeap_sorts [OF long_heap.heap_order_axioms])

text \<open>C38 Removing the element at an index that is in the heap removes exactly that element and
  leaves a heap; if the setter keeps an index table that is right for the elements, the table is
  right afterwards, the removed element has index -1, and no other entry is touched.\<close>

theorem MinHeap_remove:
  assumes "heap_order cmp" and "heap_wf h" and "mh_cmp h = cmp" and "is_heap cmp (heap_list h)"
    and "mh_setter h = Some set_index" and "index_ok (heap_list h) tbl" and "i < length (heap_list h)"
  shows "\<exists>h' tbl'. MinHeapRemoveElement h (int i) tbl = Some (h', tbl') \<and> heap_wf h' \<and>
           is_heap cmp (heap_list h') \<and>
           mset (heap_list h) = add_mset (heap_list h ! i) (mset (heap_list h')) \<and>
           index_ok (heap_list h') tbl' \<and> tbl' (heap_list h ! i) = - 1 \<and>
           (\<forall>x. x \<notin> set (heap_list h) \<longrightarrow> tbl' x = tbl x)"
proof -
  obtain zs x where zs: "heap_list h = zs @ [x]"
    using assms(7) by (metis length_greater_0_conv less_nat_zero_code not_gr_zero rev_exhaust)
  have i: "i \<le> length zs" using assms(7) zs by simp
  obtain h' tbl' where r: "MinHeapRemoveElement h (int i) tbl = Some (h', tbl')" "heap_wf h'"
    "is_heap cmp (heap_list h')"
    "if i = length zs then heap_list h' = zs \<and> tbl' = CALL_SETTER h x (- 1) tbl
     else heap_swaps h (zs[i := x]) (CALL_SETTER h x (int i) (CALL_SETTER h (zs ! i) (- 1) tbl))
            (heap_list h') tbl'"
    using heap_order.remove_heap [OF assms(1,2,3,4) zs i, of tbl] by blast
  have d: "distinct (zs @ [x])" and t: "\<And>j. j < Suc (length zs) \<Longrightarrow> tbl ((zs @ [x]) ! j) = int j"
    using assms(6) by (simp_all add: index_ok_def zs)
  show ?thesis
  proof (cases "i = length zs")
    case True
    have "index_ok zs (set_index x (- 1) tbl)"
      using d t [OF less_SucI] by (auto simp: index_ok_def set_index_def nth_append)
    then show ?thesis
      using r True assms(5) zs by (auto simp: CALL_SETTER_def set_index_def)
  next
    case False
    then have li: "i < length zs" using i by simp
    let ?t0 = "set_index x (int i) (set_index (zs ! i) (- 1) tbl)"
    have sw: "heap_swaps h (zs[i := x]) ?t0 (heap_list h') tbl'"
      using r(4) False assms(5) by (simp add: CALL_SETTER_def)
    have "index_ok (zs[i := x]) ?t0"
    proof -
      have "?t0 (zs[i := x] ! j) = int j" if "j < length zs" for j
      proof (cases "j = i")
        case False
        then have "zs ! j \<noteq> zs ! i" "zs ! j \<noteq> x" using d that li by (auto simp: nth_eq_iff_index_eq)
        then show ?thesis using t [of j] that False by (simp add: set_index_def nth_append)
      qed (use that in \<open>simp add: set_index_def\<close>)
      moreover have "distinct (zs[i := x])" using d by (auto intro: distinct_list_update)
      ultimately show ?thesis by (simp add: index_ok_def)
    qed
    from heap_swaps_index [OF sw assms(5) this]
    have ix: "index_ok (heap_list h') tbl'" "\<And>y. y \<notin> set (zs[i := x]) \<Longrightarrow> tbl' y = ?t0 y" by auto
    have ms: "mset (zs @ [x]) = add_mset (zs ! i) (mset (heap_list h'))"
      using heap_swaps_mset [OF sw] li by (simp add: mset_update)
    have out: "zs ! i \<notin> set (zs[i := x])"
      using d li by (metis \<open>index_ok (zs[i := x]) ?t0\<close> distinct_append in_set_conv_nth index_ok_def
          length_list_update nth_eq_iff_index_eq nth_list_update_eq nth_list_update_neq nth_mem
          disjoint_iff list.set_intros(1))
    have "zs ! i \<noteq> x" using d li by auto
    then have "tbl' (zs ! i) = - 1" using ix(2) [OF out] by (simp add: set_index_def)
    moreover have "tbl' y = tbl y" if "y \<notin> set (zs @ [x])" for y
    proof -
      have "y \<notin> set (zs[i := x])" using that set_update_subset_insert [of zs i x] by auto
      moreover have "y \<noteq> x" "y \<noteq> zs ! i" using that li by auto
      ultimately show ?thesis using ix(2) by (simp add: set_index_def)
    qed
    ultimately show ?thesis using r(1-3) ix(1) ms zs li by (auto simp: nth_append)
  qed
qed

lemma heap_one_ok:
  "\<exists>h. heap_wf h \<and> heap_list h = [x] \<and> mh_cmp h = cmp \<and> mh_setter h = setter"
  using push_ok [of "PStackAlloc :: 'a pstack" x]
  by (auto simp: heap_wf_def heap_list_def intro: exI [of _ "\<lparr>mh_arr = _, mh_cmp = cmp, mh_setter = setter\<rparr>"])

theorem MinHeap_remove_witness:
  "\<exists>h :: (int, int \<Rightarrow> int) MinHeap. heap_list h = [4] \<and> mh_cmp h = CMP \<and> (\<exists>h' tbl'.
     MinHeapRemoveElement h 0 (\<lambda>_. 0) = Some (h', tbl') \<and> tbl' 4 = - 1)"
proof -
  obtain h :: "(int, int \<Rightarrow> int) MinHeap" where h: "heap_wf h" "heap_list h = [4]" "mh_cmp h = CMP"
    "mh_setter h = Some set_index" using heap_one_ok by metis
  then show ?thesis
    using MinHeap_remove [OF long_heap.heap_order_axioms h(1,3) _ h(4), of "\<lambda>_. 0" 0]
    by (auto simp: is_heap_def heap_but_def index_ok_def)
qed

text \<open>The heap 1, 2 after the second key was lowered to 0.\<close>

definition lowered_heap :: "(int, unit) MinHeap" where
  "lowered_heap = \<lparr>mh_arr = \<lparr>st_size = 2, st_current = 2, st_stack = [Some 1, Some 0]\<rparr>,
                   mh_cmp = CMP, mh_setter = None\<rparr>"

text \<open>\<open>MinHeapDecrKey\<close>, which is called when the key of an element has become smaller, sifts
  the element down, the wrong way: on the heap 1, 2 with the second key lowered to 0 it changes
  nothing, and the result is not a heap. \<open>MinHeapUpdateElement\<close> repairs the same heap.\<close>

theorem MinHeapDecrKey_wrong_way:
  "map_option (\<lambda>(h, s). heap_list h) (MinHeapDecrKey lowered_heap 1 ()) = Some [1, 0] \<and>
   \<not> is_heap CMP [1, 0] \<and>
   map_option (\<lambda>(h, s). heap_list h) (MinHeapUpdateElement lowered_heap 1 ()) = Some [0, 1]"
proof -
  have "MinHeapDecrKey lowered_heap 1 () = Some (lowered_heap, ())"
    by (simp add: MinHeapDecrKey_def drop_down_def lowered_heap_def drop_down_loop.simps PStackGetSP_def
        heap_index_defs)
  moreover have "\<not> is_heap CMP [1, 0]"
    by (auto simp: is_heap_def heap_but_def PARENT_def CMP_def intro!: exI [of _ "Suc 0"])
  moreover have "map_option (\<lambda>(h, s). heap_list h) (MinHeapUpdateElement lowered_heap 1 ()) = Some [0, 1]"
    by (simp add: MinHeapUpdateElement_def lowered_heap_def bubble_up.simps heap_index_defs
        PStackElement_def PStackElementAssign_def mem_simps CMP_def swap_cells_def heap_list_def
        pstack_list_def numeral_2_eq_2)
  ultimately show ?thesis by (simp add: lowered_heap_def heap_list_def pstack_list_def)
qed

end
