(* ===== verification/Comparisons.thy ===== *)
theory Comparisons
  imports Prelude "HOL-Library.Char_ord"
begin

text \<open>
  Comparison results (\<open>BASICS/clb_partial_orderings.h\<close>) and the three-way comparison
  functions that the containers of the code are parametrised with: \<open>key - tree->key\<close> on
  \<open>long\<close> keys, \<open>strcmp\<close> on strings and \<open>PCmp\<close> on addresses. The locale
  \<open>key_order\<close> states what the containers need of such a function on the keys in use.
\<close>

section \<open>Comparison results\<close>

datatype CompareResult =
    to_unknown | to_uncomparable | to_equal | to_greater | to_lesser
  | to_notgteq | to_notleeq

text \<open>\<open>POInverseRelation\<close> asserts that it is not given \<open>to_unknown\<close>.\<close>

fun POInverseRelation :: "CompareResult \<Rightarrow> CompareResult option" where
  "POInverseRelation to_equal = Some to_equal"
| "POInverseRelation to_uncomparable = Some to_uncomparable"
| "POInverseRelation to_greater = Some to_lesser"
| "POInverseRelation to_lesser = Some to_greater"
| "POInverseRelation to_notgteq = Some to_notleeq"
| "POInverseRelation to_notleeq = Some to_notgteq"
| "POInverseRelation to_unknown = None"

definition Q_TO_PART :: "int \<Rightarrow> CompareResult" where
  "Q_TO_PART res = (if res < 0 then to_lesser else if res > 0 then to_greater else to_equal)"

lemma POInverseRelation_involution:
  "POInverseRelation r = Some s \<Longrightarrow> POInverseRelation s = Some r"
  by (cases r) auto

lemma Q_TO_PART_inverse: "POInverseRelation (Q_TO_PART d) = Some (Q_TO_PART (- d))"
  by (auto simp: Q_TO_PART_def)

lemma Q_TO_PART_simps [simp]:
  "Q_TO_PART d = to_equal \<longleftrightarrow> d = 0"
  "Q_TO_PART d = to_greater \<longleftrightarrow> 0 < d"
  "Q_TO_PART d = to_lesser \<longleftrightarrow> d < 0"
  "Q_TO_PART d \<noteq> to_uncomparable" "Q_TO_PART d \<noteq> to_unknown"
  by (auto simp: Q_TO_PART_def)

section \<open>Three-way comparison of keys\<close>

locale key_order =
  fixes cmp :: "'k \<Rightarrow> 'k \<Rightarrow> int"
    and K :: "'k set"
  assumes cmp_eq: "a \<in> K \<Longrightarrow> b \<in> K \<Longrightarrow> cmp a b = 0 \<longleftrightarrow> a = b"
    and cmp_anti: "a \<in> K \<Longrightarrow> b \<in> K \<Longrightarrow> cmp a b < 0 \<longleftrightarrow> 0 < cmp b a"
    and cmp_trans: "a \<in> K \<Longrightarrow> b \<in> K \<Longrightarrow> c \<in> K \<Longrightarrow> cmp a b < 0 \<Longrightarrow> cmp b c < 0 \<Longrightarrow> cmp a c < 0"
begin

lemma cmp_irrefl: "a \<in> K \<Longrightarrow> \<not> cmp a a < 0"
  using cmp_eq [of a a] by simp

lemma cmp_gt: "a \<in> K \<Longrightarrow> b \<in> K \<Longrightarrow> 0 < cmp a b \<longleftrightarrow> cmp b a < 0"
  using cmp_anti by blast

lemma cmp_total: "a \<in> K \<Longrightarrow> b \<in> K \<Longrightarrow> a \<noteq> b \<Longrightarrow> cmp a b < 0 \<or> cmp b a < 0"
  using cmp_eq [of a b] cmp_gt [of a b] by (meson linorder_neqE_linordered_idom)

lemma cmp_asym: "a \<in> K \<Longrightarrow> b \<in> K \<Longrightarrow> cmp a b < 0 \<Longrightarrow> \<not> cmp b a < 0"
  using cmp_anti [of a b] by simp

end

text \<open>
  The subtraction of two \<open>long\<close> keys orders them as long as it cannot overflow, which
  keys of magnitude below \<open>2^62\<close> guarantee.
\<close>

definition small_keys :: "int set" where
  "small_keys = {k. - (2 ^ 62) \<le> k \<and> k < 2 ^ 62}"

lemma long_diff_small:
  "a \<in> small_keys \<Longrightarrow> b \<in> small_keys \<Longrightarrow> long_diff a b = a - b"
  by (auto simp: long_diff_def small_keys_def intro: long_wrap_id)

interpretation long_keys: key_order long_diff small_keys
  by unfold_locales (auto simp: long_diff_small)

text \<open>
  \<open>strcmp\<close> of the C library: the first differing byte decides, bytes are unsigned, the
  terminating \<open>NUL\<close> compares below every other byte.
\<close>

fun strcmp :: "string \<Rightarrow> string \<Rightarrow> int" where
  "strcmp [] [] = 0"
| "strcmp [] (b # bs) = - 1"
| "strcmp (a # as) [] = 1"
| "strcmp (a # as) (b # bs) =
     (if a = b then strcmp as bs else if (of_char a :: int) < of_char b then - 1 else 1)"

lemma strcmp_eq: "strcmp a b = 0 \<longleftrightarrow> a = b"
  by (induction a b rule: strcmp.induct) auto

lemma strcmp_anti: "strcmp a b < 0 \<longleftrightarrow> 0 < strcmp b a"
proof (induction a b rule: strcmp.induct)
  case (4 a as b bs)
  have "a \<noteq> b \<Longrightarrow> (of_char a :: int) < of_char b \<or> (of_char b :: int) < of_char a"
    by (meson linorder_neqE_linordered_idom of_char_eq_iff)
  with 4 show ?case by auto
qed auto

lemma strcmp_trans: "strcmp a b < 0 \<Longrightarrow> strcmp b c < 0 \<Longrightarrow> strcmp a c < 0"
proof (induction a b arbitrary: c rule: strcmp.induct)
  case (2 b bs)
  then show ?case by (cases c) auto
next
  case (4 a as b bs)
  then show ?case by (cases c) (auto split: if_splits)
qed auto

interpretation str_keys: key_order strcmp UNIV
  by unfold_locales (rule strcmp_eq | rule strcmp_anti | erule (1) strcmp_trans)+

text \<open>
  Addresses are compared as integers (\<open>PLesser\<close>, \<open>PGreater\<close>, \<open>PEqual\<close> and
  \<open>PCmpFun\<close> of \<open>BASICS/clb_ptrees.h\<close>); the model writes an address as a \<^typ>\<open>nat\<close>.
\<close>

definition PCmpFun :: "nat \<Rightarrow> nat \<Rightarrow> int" where
  "PCmpFun p q = (if p < q then - 1 else if p > q then 1 else 0)"

lemma PCmpFun_simps [simp]:
  "PCmpFun p q < 0 \<longleftrightarrow> p < q" "0 < PCmpFun p q \<longleftrightarrow> q < p" "PCmpFun p q = 0 \<longleftrightarrow> p = q"
  by (auto simp: PCmpFun_def)

interpretation addr_keys: key_order PCmpFun UNIV
  by unfold_locales auto

end
