(* ===== verification/SplayTrees.thy ===== *)
theory SplayTrees
  imports Comparisons PStacks "HOL-Library.Tree"
begin

text \<open>
  The top-down splay trees of \<open>BASICS/\<close>. The C code has one copy of the algorithm per key
  type (\<open>clb_objtrees.c\<close>, \<open>clb_ptrees.c\<close>, \<open>clb_numtrees.c\<close>, \<open>clb_stringtrees.c\<close>); this
  theory has the common algorithm, over a three-way comparison \<open>cmp\<close> of keys and the key
  \<open>key c\<close> of a cell \<open>c\<close>. The pointers \<open>lson\<close> and \<open>rson\<close> of a cell are the subtrees of a
  \<^const>\<open>Node\<close>, \<open>NULL\<close> is \<^const>\<open>Leaf\<close>; a cell is in one tree only, so a tree value
  determines the pointer structure.

  \<open>tree_ok\<close> is the search-tree invariant, \<open>tree_map\<close> the finite map a tree stands for.
\<close>

section \<open>Splaying\<close>

text \<open>
  The loop of \<open>splay_tree()\<close> moves down from \<open>tree\<close> and hangs what it passes on two
  growing trees: \<open>left->rson\<close> and \<open>right->lson\<close> are the open ends of the left and the
  right one. Their spines are the lists \<open>ls\<close> (a cell with its left son) and \<open>rs\<close> (a cell
  with its right son), the cell with the open end first. The result is the tree at the
  \<open>break\<close> and both spines.
\<close>

fun splay_loop :: "('k \<Rightarrow> 'k \<Rightarrow> int) \<Rightarrow> ('c \<Rightarrow> 'k) \<Rightarrow> 'k \<Rightarrow> 'c tree \<Rightarrow>
    ('c tree \<times> 'c) list \<Rightarrow> ('c \<times> 'c tree) list \<Rightarrow>
    'c tree \<times> ('c tree \<times> 'c) list \<times> ('c \<times> 'c tree) list" where
  "splay_loop cmp key k Leaf ls rs = (Leaf, ls, rs)"
| "splay_loop cmp key k (Node l c r) ls rs =
     (let cmpres = cmp k (key c) in
      if cmpres < 0 then
        (case l of
           Leaf \<Rightarrow> (Node l c r, ls, rs)
         | Node ll lc lr \<Rightarrow>
             if cmp k (key lc) < 0
             then (case ll of
                     Leaf \<Rightarrow> (Node Leaf lc (Node lr c r), ls, rs)
                   | Node _ _ _ \<Rightarrow> splay_loop cmp key k ll ls ((lc, Node lr c r) # rs))
             else splay_loop cmp key k l ls ((c, r) # rs))
      else if cmpres > 0 then
        (case r of
           Leaf \<Rightarrow> (Node l c r, ls, rs)
         | Node rl rc rr \<Rightarrow>
             if cmp k (key rc) > 0
             then (case rr of
                     Leaf \<Rightarrow> (Node (Node l c rl) rc Leaf, ls, rs)
                   | Node _ _ _ \<Rightarrow> splay_loop cmp key k rr ((Node l c rl, rc) # ls) rs)
             else splay_loop cmp key k r ((l, c) # ls) rs)
      else (Node l c r, ls, rs))"

text \<open>\<open>left->rson = tree->lson\<close> and \<open>right->lson = tree->rson\<close>: the spines are closed.\<close>

primrec close_left :: "('c tree \<times> 'c) list \<Rightarrow> 'c tree \<Rightarrow> 'c tree" where
  "close_left [] t = t"
| "close_left (lc # ls) t = close_left ls (Node (fst lc) (snd lc) t)"

primrec close_right :: "('c \<times> 'c tree) list \<Rightarrow> 'c tree \<Rightarrow> 'c tree" where
  "close_right [] t = t"
| "close_right (cr # rs) t = close_right rs (Node t (fst cr) (snd cr))"

definition splay :: "('k \<Rightarrow> 'k \<Rightarrow> int) \<Rightarrow> ('c \<Rightarrow> 'k) \<Rightarrow> 'c tree \<Rightarrow> 'k \<Rightarrow> 'c tree" where
  "splay cmp key tree k =
     (case splay_loop cmp key k tree [] [] of
        (Leaf, ls, rs) \<Rightarrow> Leaf
      | (Node l c r, ls, rs) \<Rightarrow> Node (close_left ls l) c (close_right rs r))"

section \<open>Insertion, search, extraction\<close>

text \<open>
  An operation on \<open>*root\<close> returns its result and the new tree. \<open>tree_insert\<close> returns the
  cell that is already there (and then drops nothing), or \<open>NULL\<close> after inserting \<open>newnode\<close>.
\<close>

definition tree_insert ::
  "('k \<Rightarrow> 'k \<Rightarrow> int) \<Rightarrow> ('c \<Rightarrow> 'k) \<Rightarrow> 'c tree \<Rightarrow> 'c \<Rightarrow> 'c option \<times> 'c tree" where
  "tree_insert cmp key root newnode =
     (if root = Leaf then (None, Node Leaf newnode Leaf)
      else case splay cmp key root (key newnode) of
        Leaf \<Rightarrow> (None, Leaf)
      | Node l c r \<Rightarrow>
          let cmpres = cmp (key newnode) (key c) in
          if cmpres < 0 then (None, Node l newnode (Node Leaf c r))
          else if cmpres > 0 then (None, Node (Node l c Leaf) newnode r)
          else (Some c, Node l c r))"

definition tree_find ::
  "('k \<Rightarrow> 'k \<Rightarrow> int) \<Rightarrow> ('c \<Rightarrow> 'k) \<Rightarrow> 'c tree \<Rightarrow> 'k \<Rightarrow> 'c option \<times> 'c tree" where
  "tree_find cmp key root k =
     (case splay cmp key root k of
        Leaf \<Rightarrow> (None, Leaf)
      | Node l c r \<Rightarrow> (if cmp (key c) k = 0 then Some c else None, Node l c r))"

text \<open>The search that leaves the tree as it is (\<open>PTreeFindBinary\<close>).\<close>

fun tree_find_binary ::
  "('k \<Rightarrow> 'k \<Rightarrow> int) \<Rightarrow> ('c \<Rightarrow> 'k) \<Rightarrow> 'c tree \<Rightarrow> 'k \<Rightarrow> 'c option" where
  "tree_find_binary cmp key Leaf k = None"
| "tree_find_binary cmp key (Node l c r) k =
     (let cmpres = cmp k (key c) in
      if cmpres < 0 then tree_find_binary cmp key l k
      else if cmpres > 0 then tree_find_binary cmp key r k
      else Some c)"

text \<open>
  In the second case of the extraction the left subtree is splayed with the same key, which
  brings its largest cell to the root; then \<open>x->rson = (*root)->rson\<close> overwrites the right
  son of that cell.
\<close>

definition tree_extract ::
  "('k \<Rightarrow> 'k \<Rightarrow> int) \<Rightarrow> ('c \<Rightarrow> 'k) \<Rightarrow> 'c tree \<Rightarrow> 'k \<Rightarrow> 'c option \<times> 'c tree" where
  "tree_extract cmp key root k =
     (case splay cmp key root k of
        Leaf \<Rightarrow> (None, Leaf)
      | Node l c r \<Rightarrow>
          if cmp k (key c) = 0 then
            (Some c,
             case l of
               Leaf \<Rightarrow> r
             | Node _ _ _ \<Rightarrow>
                 (case splay cmp key l k of
                    Leaf \<Rightarrow> Leaf
                  | Node xl xc xr \<Rightarrow> Node xl xc r))
          else (None, Node l c r))"

section \<open>What splaying keeps\<close>

declare splay_loop.simps(2) [simp del]

text \<open>
  The loop has four kinds of move: a rotation to the right or to the left, and passing the
  root on to the right or the left spine. What all moves keep, the loop keeps; and it stops
  only where the key is found or the next son is missing.
\<close>

definition splay_stop :: "('k \<Rightarrow> 'k \<Rightarrow> int) \<Rightarrow> ('c \<Rightarrow> 'k) \<Rightarrow> 'k \<Rightarrow> 'c tree \<Rightarrow> bool" where
  "splay_stop cmp key k t = (case t of Leaf \<Rightarrow> False
     | Node l c r \<Rightarrow> (cmp k (key c) < 0 \<longrightarrow> l = Leaf) \<and> (cmp k (key c) > 0 \<longrightarrow> r = Leaf))"

lemma splay_loop_moves:
  "cmp k (key c) < 0 \<Longrightarrow> cmp k (key lc) < 0 \<Longrightarrow>
   splay_loop cmp key k (Node (Node (Node a b d) lc lr) c r) ls rs =
   splay_loop cmp key k (Node a b d) ls ((lc, Node lr c r) # rs)"
  "cmp k (key c) < 0 \<Longrightarrow> \<not> cmp k (key lc) < 0 \<Longrightarrow>
   splay_loop cmp key k (Node (Node ll lc lr) c r) ls rs =
   splay_loop cmp key k (Node ll lc lr) ls ((c, r) # rs)"
  "0 < cmp k (key c) \<Longrightarrow> 0 < cmp k (key rc) \<Longrightarrow>
   splay_loop cmp key k (Node l c (Node rl rc (Node a b d))) ls rs =
   splay_loop cmp key k (Node a b d) ((Node l c rl, rc) # ls) rs"
  "0 < cmp k (key c) \<Longrightarrow> \<not> 0 < cmp k (key rc) \<Longrightarrow>
   splay_loop cmp key k (Node l c (Node rl rc rr)) ls rs =
   splay_loop cmp key k (Node rl rc rr) ((l, c) # ls) rs"
  by (subst splay_loop.simps(2), simp)+

lemma splay_loop_rule:
  assumes "P t ls rs" and "t \<noteq> Leaf"
    and rotr: "\<And>ll lc lr c r ls rs. cmp k (key c) < 0 \<Longrightarrow> cmp k (key lc) < 0 \<Longrightarrow>
            P (Node (Node ll lc lr) c r) ls rs \<Longrightarrow> P (Node ll lc (Node lr c r)) ls rs"
    and rotl: "\<And>l c rl rc rr ls rs. cmp k (key c) > 0 \<Longrightarrow> cmp k (key rc) > 0 \<Longrightarrow>
            P (Node l c (Node rl rc rr)) ls rs \<Longrightarrow> P (Node (Node l c rl) rc rr) ls rs"
    and linkr: "\<And>l c r ls rs. cmp k (key c) < 0 \<Longrightarrow> l \<noteq> Leaf \<Longrightarrow>
            P (Node l c r) ls rs \<Longrightarrow> P l ls ((c, r) # rs)"
    and linkl: "\<And>l c r ls rs. cmp k (key c) > 0 \<Longrightarrow> r \<noteq> Leaf \<Longrightarrow>
            P (Node l c r) ls rs \<Longrightarrow> P r ((l, c) # ls) rs"
  shows "\<exists>t' ls' rs'. splay_loop cmp key k t ls rs = (t', ls', rs') \<and>
           P t' ls' rs' \<and> splay_stop cmp key k t'"
  using assms(1,2)
proof (induction t arbitrary: ls rs rule: measure_induct_rule [where f = size])
  case (less t)
  obtain l c r where t: "t = Node l c r" using less.prems(2) by (cases t) auto
  note P = less.prems(1) [unfolded t]
  consider (lt) "cmp k (key c) < 0" | (gt) "cmp k (key c) > 0" | (eq) "cmp k (key c) = 0"
    by linarith
  then show ?case
  proof cases
    case eq
    then show ?thesis using P by (simp add: t splay_loop.simps(2) splay_stop_def)
  next
    case lt
    show ?thesis
    proof (cases l)
      case Leaf
      then show ?thesis using P lt by (simp add: t splay_loop.simps(2) splay_stop_def)
    next
      case (Node ll lc lr)
      show ?thesis
      proof (cases "cmp k (key lc) < 0")
        case True
        have rot: "P (Node ll lc (Node lr c r)) ls rs"
          by (rule rotr [OF lt True]) (use P Node in simp)
        show ?thesis
        proof (cases ll)
          case Leaf
          then show ?thesis
            using rot lt True Node by (simp add: t splay_loop.simps(2) splay_stop_def)
        next
          case (Node a b d)
          have "P ll ls ((lc, Node lr c r) # rs)"
            by (rule linkr [OF True _ rot]) (simp add: Node)
          then show ?thesis
            using less.IH [of ll ls "(lc, Node lr c r) # rs"] lt True \<open>l = Node ll lc lr\<close> Node
            by (simp add: t splay_loop_moves)
        qed
      next
        case False
        have "P l ls ((c, r) # rs)"
          by (rule linkr [OF lt _ P]) (simp add: Node)
        then show ?thesis
          using less.IH [of l ls "(c, r) # rs"] lt False Node
            by (simp add: t splay_loop_moves)
      qed
    qed
  next
    case gt
    show ?thesis
    proof (cases r)
      case Leaf
      then show ?thesis using P gt by (simp add: t splay_loop.simps(2) splay_stop_def)
    next
      case (Node rl rc rr)
      show ?thesis
      proof (cases "cmp k (key rc) > 0")
        case True
        have rot: "P (Node (Node l c rl) rc rr) ls rs"
          by (rule rotl [OF gt True]) (use P Node in simp)
        show ?thesis
        proof (cases rr)
          case Leaf
          then show ?thesis
            using rot gt True Node by (simp add: t splay_loop.simps(2) splay_stop_def)
        next
          case (Node a b d)
          have "P rr ((Node l c rl, rc) # ls) rs"
            by (rule linkl [OF True _ rot]) (simp add: Node)
          then show ?thesis
            using less.IH [of rr "(Node l c rl, rc) # ls" rs] gt True \<open>r = Node rl rc rr\<close> Node
            by (simp add: t splay_loop_moves)
        qed
      next
        case False
        have "P r ((l, c) # ls) rs"
          by (rule linkl [OF gt _ P]) (simp add: Node)
        then show ?thesis
          using less.IH [of r "(l, c) # ls" rs] gt False Node
            by (simp add: t splay_loop_moves)
      qed
    qed
  qed
qed

lemma inorder_close_left:
  "inorder (close_left ls t) = concat (rev (map (\<lambda>(l, c). inorder l @ [c]) ls)) @ inorder t"
  by (induction ls arbitrary: t) auto

lemma inorder_close_right:
  "inorder (close_right rs t) = inorder t @ concat (map (\<lambda>(c, r). c # inorder r) rs)"
  by (induction rs arbitrary: t) auto

definition loop_inorder ::
  "'c tree \<Rightarrow> ('c tree \<times> 'c) list \<Rightarrow> ('c \<times> 'c tree) list \<Rightarrow> 'c list" where
  "loop_inorder t ls rs =
     concat (rev (map (\<lambda>(l, c). inorder l @ [c]) ls)) @ inorder t @
     concat (map (\<lambda>(c, r). c # inorder r) rs)"

text \<open>The whole of a splay: the in-order sequence is kept, and what is known of the root.\<close>

lemma splay_Node:
  assumes "t \<noteq> Leaf"
  obtains l c r where "splay cmp key t k = Node l c r" "inorder t = inorder l @ c # inorder r"
  using assms
proof -
  obtain t' ls rs where eq: "splay_loop cmp key k t [] [] = (t', ls, rs)"
    and "loop_inorder t' ls rs = inorder t" and stop: "splay_stop cmp key k t'"
    using splay_loop_rule [where P = "\<lambda>t' ls rs. loop_inorder t' ls rs = inorder t"
        and t = t and ls = "[]" and rs = "[]" and cmp = cmp and key = key and k = k] assms
    by (auto simp: loop_inorder_def)
  moreover obtain l c r where "t' = Node l c r"
    using stop by (cases t') (auto simp: splay_stop_def)
  ultimately show ?thesis
    by (intro that [of "close_left ls l" c "close_right rs r"])
       (simp_all add: splay_def inorder_close_left inorder_close_right loop_inorder_def)
qed

lemma splay_Leaf [simp]: "splay cmp key Leaf k = Leaf"
  by (simp add: splay_def)

lemma inorder_splay: "inorder (splay cmp key t k) = inorder t"
  by (cases "t = Leaf") (auto elim: splay_Node [of t cmp key k])

lemma splay_eq_Leaf [simp]: "splay cmp key t k = Leaf \<longleftrightarrow> t = Leaf"
  by (metis inorder_splay eq_inorder_Nil)

section \<open>Search trees and the map they stand for\<close>

definition tree_ok :: "('k \<Rightarrow> 'k \<Rightarrow> int) \<Rightarrow> ('c \<Rightarrow> 'k) \<Rightarrow> 'k set \<Rightarrow> 'c tree \<Rightarrow> bool" where
  "tree_ok cmp key K t \<longleftrightarrow> key ` set_tree t \<subseteq> K \<and>
     sorted_wrt (\<lambda>x y. cmp (key x) (key y) < 0) (inorder t)"

definition tree_map :: "('c \<Rightarrow> 'k) \<Rightarrow> 'c tree \<Rightarrow> 'k \<Rightarrow> 'c option" where
  "tree_map key t = map_of (map (\<lambda>c. (key c, c)) (inorder t))"

lemma tree_ok_Leaf [simp]: "tree_ok cmp key K Leaf"
  by (simp add: tree_ok_def)

lemma tree_map_Leaf [simp]: "tree_map key Leaf = Map.empty"
  by (simp add: tree_map_def)

lemma set_tree_splay [simp]: "set_tree (splay cmp key t k) = set_tree t"
  by (metis inorder_splay set_inorder)

lemma tree_ok_splay [simp]: "tree_ok cmp key K (splay cmp' key' t k) = tree_ok cmp key K t"
  by (simp add: tree_ok_def inorder_splay)

lemma tree_map_splay [simp]: "tree_map key (splay cmp key' t k) = tree_map key t"
  by (simp add: tree_map_def inorder_splay)

lemma dom_tree_map: "dom (tree_map key t) = key ` set_tree t"
  by (simp add: tree_map_def dom_map_of_conv_image_fst image_image)

lemma tree_map_Node_app:
  "tree_map key (Node l c r) =
     tree_map key r ++ [key c \<mapsto> c] ++ tree_map key l"
  by (simp add: tree_map_def map_of_append)

lemma tree_map_None: "k \<notin> key ` set_tree t \<Longrightarrow> tree_map key t k = None"
  using dom_tree_map [of key t] by blast

context key_order
begin

lemma tree_ok_Node:
  "tree_ok cmp key K (Node l c r) \<longleftrightarrow> key c \<in> K \<and> tree_ok cmp key K l \<and> tree_ok cmp key K r \<and>
     (\<forall>x \<in> set_tree l. cmp (key x) (key c) < 0) \<and>
     (\<forall>x \<in> set_tree r. cmp (key c) (key x) < 0)"
  by (auto simp: tree_ok_def sorted_wrt_append) (metis cmp_trans image_subset_iff)

lemma splay_root:
  assumes ok: "tree_ok cmp key K t" and k: "k \<in> K" and "t \<noteq> Leaf"
  obtains l c r where "splay cmp key t k = Node l c r" "tree_ok cmp key K (Node l c r)"
    "cmp k (key c) < 0 \<Longrightarrow> \<forall>x \<in> set_tree l. cmp (key x) k < 0"
    "0 < cmp k (key c) \<Longrightarrow> \<forall>x \<in> set_tree r. cmp k (key x) < 0"
proof -
  let ?L = "\<lambda>ls. concat (rev (map (\<lambda>(l, c). inorder l @ [c]) ls))"
  let ?R = "\<lambda>rs. concat (map (\<lambda>(c, r). c # inorder r) rs)"
  define P where "P t' ls rs \<longleftrightarrow> ?L ls @ inorder t' @ ?R rs = inorder t \<and>
     (\<forall>x \<in> set (?L ls). cmp (key x) k < 0) \<and> (\<forall>x \<in> set (?R rs). cmp k (key x) < 0)" for t' ls rs
  have sub: "tree_ok cmp key K t'" if "P t' ls rs" for t' ls rs
  proof -
    have eq: "inorder t = ?L ls @ inorder t' @ ?R rs" using that by (simp add: P_def)
    show ?thesis
      using ok unfolding tree_ok_def set_inorder [symmetric] eq
      by (simp add: sorted_wrt_append image_Un)
  qed
  have P0: "P t [] []" by (simp add: P_def)
  have rotr: "P (Node ll lc (Node lr c r)) ls rs" if "P (Node (Node ll lc lr) c r) ls rs"
    for ll lc lr c r ls rs using that by (simp add: P_def)
  have rotl: "P (Node (Node l c rl) rc rr) ls rs" if "P (Node l c (Node rl rc rr)) ls rs"
    for l c rl rc rr ls rs using that by (simp add: P_def)
  have linkr: "P l ls ((c, r) # rs)" if "cmp k (key c) < 0" "P (Node l c r) ls rs"
    for l c r ls rs
    using sub [OF that(2)] that k
    by (auto simp: P_def tree_ok_Node) (metis cmp_trans image_subset_iff tree_ok_def)
  have linkl: "P r ((l, c) # ls) rs" if "0 < cmp k (key c)" "P (Node l c r) ls rs"
    for l c r ls rs
    using sub [OF that(2)] that k cmp_gt [of k "key c"]
    by (auto simp: P_def tree_ok_Node) (metis cmp_trans image_subset_iff tree_ok_def)
  have "\<exists>t' ls' rs'. splay_loop cmp key k t [] [] = (t', ls', rs') \<and> P t' ls' rs' \<and>
      splay_stop cmp key k t'"
    by (rule splay_loop_rule [where P = P, OF P0 assms(3)])
       (erule rotr, erule rotl, erule (1) linkr, erule (1) linkl)
  then obtain t' ls rs where eq: "splay_loop cmp key k t [] [] = (t', ls, rs)"
    and P: "P t' ls rs" and stop: "splay_stop cmp key k t'"
    by blast
  then obtain l c r where t': "t' = Node l c r" by (cases t') (auto simp: splay_stop_def)
  let ?l = "close_left ls l" and ?r = "close_right rs r"
  have s: "splay cmp key t k = Node ?l c ?r" by (simp add: splay_def eq t')
  moreover have "tree_ok cmp key K (Node ?l c ?r)"
    using ok by (metis s tree_ok_splay)
  moreover have "\<forall>x \<in> set_tree ?l. cmp (key x) k < 0" if "cmp k (key c) < 0"
    using P stop that by (simp add: P_def t' splay_stop_def inorder_close_left flip: set_inorder)
  moreover have "\<forall>x \<in> set_tree ?r. cmp k (key x) < 0" if "0 < cmp k (key c)"
    using P stop that by (simp add: P_def t' splay_stop_def inorder_close_right flip: set_inorder)
  ultimately show ?thesis by (rule that)
qed

lemma tree_map_Some_key: "tree_map key t k = Some c \<Longrightarrow> key c = k \<and> c \<in> set_tree t"
  by (auto simp: tree_map_def dest: map_of_SomeD)

lemma tree_map_split:
  assumes "tree_ok cmp key K (Node l c r)" and "k \<in> K"
  shows "cmp k (key c) < 0 \<Longrightarrow> tree_map key (Node l c r) k = tree_map key l k"
    and "0 < cmp k (key c) \<Longrightarrow> tree_map key (Node l c r) k = tree_map key r k"
    and "cmp k (key c) = 0 \<Longrightarrow> tree_map key (Node l c r) k = Some c"
proof -
  have ok: "key c \<in> K" "tree_ok cmp key K l" "tree_ok cmp key K r"
    "\<And>x. x \<in> set_tree l \<Longrightarrow> cmp (key x) (key c) < 0"
    "\<And>x. x \<in> set_tree r \<Longrightarrow> cmp (key c) (key x) < 0"
    using assms(1) by (auto simp: tree_ok_Node)
  have K: "\<And>x. x \<in> set_tree l \<union> set_tree r \<Longrightarrow> key x \<in> K"
    using ok(2,3) by (auto simp: tree_ok_def)
  have nl: "\<not> cmp k (key c) < 0 \<Longrightarrow> tree_map key l k = None"
    using ok(4) K by (intro tree_map_None) auto
  have nr: "\<not> 0 < cmp k (key c) \<Longrightarrow> tree_map key r k = None"
    using ok(1,5) K cmp_gt by (intro tree_map_None) auto
  show "cmp k (key c) < 0 \<Longrightarrow> tree_map key (Node l c r) k = tree_map key l k"
    using nr cmp_irrefl [OF ok(1)]
    by (auto simp: tree_map_Node_app map_add_def split: option.splits)
  show "0 < cmp k (key c) \<Longrightarrow> tree_map key (Node l c r) k = tree_map key r k"
    using nl cmp_irrefl [OF ok(1)] cmp_gt [OF ok(1) ok(1)]
    by (auto simp: tree_map_Node_app map_add_def split: option.splits)
  show "cmp k (key c) = 0 \<Longrightarrow> tree_map key (Node l c r) k = Some c"
    using nl cmp_eq [OF assms(2) ok(1)] by (simp add: tree_map_Node_app map_add_def)
qed

section \<open>The operations implement a finite map\<close>

lemma tree_find_ok:
  assumes "tree_ok cmp key K t" and "k \<in> K"
  shows "\<exists>t'. tree_find cmp key t k = (tree_map key t k, t') \<and> tree_ok cmp key K t' \<and>
           tree_map key t' = tree_map key t \<and> inorder t' = inorder t"
proof (cases "t = Leaf")
  case True
  then show ?thesis by (simp add: tree_find_def)
next
  case False
  obtain l c r where s: "splay cmp key t k = Node l c r" and ok: "tree_ok cmp key K (Node l c r)"
    and lo: "cmp k (key c) < 0 \<Longrightarrow> \<forall>x \<in> set_tree l. cmp (key x) k < 0"
    and hi: "0 < cmp k (key c) \<Longrightarrow> \<forall>x \<in> set_tree r. cmp k (key x) < 0"
    using splay_root [OF assms False] by metis
  have m: "tree_map key t = tree_map key (Node l c r)" by (metis s tree_map_splay)
  have c: "key c \<in> K" and K: "\<And>x. x \<in> set_tree l \<union> set_tree r \<Longrightarrow> key x \<in> K"
    using ok by (auto simp: tree_ok_def)
  have "tree_map key (Node l c r) k = (if cmp (key c) k = 0 then Some c else None)"
  proof -
    consider "cmp k (key c) < 0" | "0 < cmp k (key c)" | "cmp k (key c) = 0" by linarith
    then show ?thesis
    proof cases
      case 1
      then have "tree_map key l k = None"
        using lo K assms(2) cmp_irrefl by (intro tree_map_None) auto
      with 1 show ?thesis
        using tree_map_split(1) [OF ok assms(2)] cmp_anti [OF assms(2) c] by simp
    next
      case 2
      then have "tree_map key r k = None"
        using hi K assms(2) cmp_irrefl by (intro tree_map_None) auto
      with 2 show ?thesis
        using tree_map_split(2) [OF ok assms(2)] cmp_gt [OF assms(2) c] by simp
    next
      case 3
      then show ?thesis
        using tree_map_split(3) [OF ok assms(2)] cmp_eq [OF assms(2) c] cmp_eq [OF c assms(2)]
        by simp
    qed
  qed
  then show ?thesis
    using s ok m inorder_splay [of cmp key t k] by (simp add: tree_find_def)
qed

lemma tree_find_binary_ok:
  "tree_ok cmp key K t \<Longrightarrow> k \<in> K \<Longrightarrow> tree_find_binary cmp key t k = tree_map key t k"
proof (induction t)
  case (Node l c r)
  then have ok: "tree_ok cmp key K l" "tree_ok cmp key K r" by (auto simp: tree_ok_Node)
  have "cmp k (key c) < 0 \<or> 0 < cmp k (key c) \<or> cmp k (key c) = 0" by linarith
  then show ?case
    using Node.IH(1) [OF ok(1) Node.prems(2)] Node.IH(2) [OF ok(2) Node.prems(2)]
      tree_map_split [OF Node.prems] by (auto simp: Let_def)
qed simp

lemma tree_insert_ok:
  assumes "tree_ok cmp key K t" and "key n \<in> K"
  shows "\<exists>t'. tree_insert cmp key t n = (tree_map key t (key n), t') \<and> tree_ok cmp key K t' \<and>
           tree_map key t' = (case tree_map key t (key n) of
             None \<Rightarrow> (tree_map key t)(key n \<mapsto> n) | Some c \<Rightarrow> tree_map key t)"
proof (cases "t = Leaf")
  case True
  then show ?thesis using assms(2) by (simp add: tree_insert_def tree_ok_def tree_map_def)
next
  case False
  let ?k = "key n"
  obtain l c r where s: "splay cmp key t ?k = Node l c r" and ok: "tree_ok cmp key K (Node l c r)"
    and lo: "cmp ?k (key c) < 0 \<Longrightarrow> \<forall>x \<in> set_tree l. cmp (key x) ?k < 0"
    and hi: "0 < cmp ?k (key c) \<Longrightarrow> \<forall>x \<in> set_tree r. cmp ?k (key x) < 0"
    using splay_root [OF assms False] by metis
  have m: "tree_map key t = tree_map key (Node l c r)" by (metis s tree_map_splay)
  have c: "key c \<in> K" and K: "\<And>x. x \<in> set_tree l \<union> set_tree r \<Longrightarrow> key x \<in> K"
    using ok by (auto simp: tree_ok_def)
  consider (lt) "cmp ?k (key c) < 0" | (gt) "0 < cmp ?k (key c)" | (eq) "cmp ?k (key c) = 0"
    by linarith
  then show ?thesis
  proof cases
    case lt
    let ?t = "Node l n (Node Leaf c r)"
    have above: "cmp ?k (key x) < 0" if "x = c \<or> x \<in> set_tree r" for x
      using that lt ok cmp_trans [OF assms(2) c, of "key x"] K by (auto simp: tree_ok_Node)
    have r: "tree_ok cmp key K ?t"
      using ok lo [OF lt] above assms(2) by (auto simp: tree_ok_Node)
    have "?k \<noteq> key x" if "x \<in> set_tree (Node l c r)" for x
      using that above [of x] lo [OF lt] cmp_irrefl [OF assms(2)] by (cases "x \<in> set_tree l") auto
    then have "?k \<notin> key ` set_tree (Node l c r)" by blast
    then have "tree_map key (Node l c r) ?k = None" by (intro tree_map_None) simp
    moreover have "tree_map key ?t = (tree_map key (Node l c r))(?k \<mapsto> n)"
      using \<open>?k \<notin> _\<close> dom_tree_map [of key l]
      by (auto simp: tree_map_Node_app map_add_def fun_eq_iff split: option.splits)
    ultimately show ?thesis using lt r False by (simp add: tree_insert_def s m)
  next
    case gt
    let ?t = "Node (Node l c Leaf) n r"
    have gt': "cmp (key c) ?k < 0" using gt cmp_gt [OF assms(2) c] by simp
    have below: "cmp (key x) ?k < 0" if "x = c \<or> x \<in> set_tree l" for x
      using that gt' ok cmp_trans [OF _ c assms(2), of "key x"] K by (auto simp: tree_ok_Node)
    have r: "tree_ok cmp key K ?t"
      using ok hi [OF gt] below assms(2) by (auto simp: tree_ok_Node)
    have "?k \<noteq> key x" if "x \<in> set_tree (Node l c r)" for x
      using that below [of x] hi [OF gt] cmp_irrefl [OF assms(2)] by (cases "x \<in> set_tree r") auto
    then have "?k \<notin> key ` set_tree (Node l c r)" by blast
    then have "tree_map key (Node l c r) ?k = None" by (intro tree_map_None) simp
    moreover have "tree_map key ?t = (tree_map key (Node l c r))(?k \<mapsto> n)"
      using \<open>?k \<notin> _\<close> dom_tree_map [of key r] dom_tree_map [of key l]
      by (auto simp: tree_map_Node_app map_add_def fun_eq_iff split: option.splits)
    ultimately show ?thesis using gt r False by (simp add: tree_insert_def s m)
  next
    case eq
    then show ?thesis
      using tree_map_split(3) [OF ok assms(2)] ok False by (simp add: tree_insert_def s m)
  qed
qed

lemma tree_extract_ok:
  assumes "tree_ok cmp key K t" and "k \<in> K"
  shows "\<exists>t'. tree_extract cmp key t k = (tree_map key t k, t') \<and> tree_ok cmp key K t' \<and>
           tree_map key t' = (tree_map key t)(k := None)"
proof -
  obtain t' where f: "tree_find cmp key t k = (tree_map key t k, t')"
    using tree_find_ok [OF assms] by blast
  show ?thesis
  proof (cases "splay cmp key t k")
    case Leaf
    then show ?thesis by (simp add: tree_extract_def)
  next
    case (Node l c r)
    have ok: "tree_ok cmp key K (Node l c r)" using assms(1) by (metis Node tree_ok_splay)
    have m: "tree_map key t = tree_map key (Node l c r)" by (metis Node tree_map_splay)
    have c: "key c \<in> K" and okl: "tree_ok cmp key K l"
      using ok by (auto simp: tree_ok_Node)
    show ?thesis
    proof (cases "cmp k (key c) = 0")
      case False
      then have "tree_map key t k = None"
        using f cmp_eq [OF c assms(2)] cmp_eq [OF assms(2) c]
        by (auto simp: tree_find_def Node split: if_splits)
      then show ?thesis using False ok m by (auto simp: tree_extract_def Node)
    next
      case True
      then have k: "key c = k" and hit: "tree_map key t k = Some c"
        using cmp_eq [OF assms(2) c] tree_map_split(3) [OF ok assms(2)] by (simp_all add: m)
      have gone: "tree_map key l k = None" "tree_map key r k = None"
        using ok cmp_irrefl [OF c] by (auto intro!: tree_map_None simp: tree_ok_Node k [symmetric])
      have del: "(tree_map key t)(k := None) = tree_map key r ++ tree_map key l"
        using gone by (auto simp: m tree_map_Node_app k map_add_def fun_eq_iff split: option.splits)
      show ?thesis
      proof (cases l)
        case Leaf
        then show ?thesis
          using True hit ok del by (simp add: tree_extract_def Node tree_ok_Node)
      next
        case (Node a b d)
        then obtain xl xc xr where x: "splay cmp key l k = Node xl xc xr"
          and okx: "tree_ok cmp key K (Node xl xc xr)"
          and hi: "0 < cmp k (key xc) \<Longrightarrow> \<forall>x \<in> set_tree xr. cmp k (key x) < 0"
          using splay_root [OF okl assms(2)] by (metis tree.distinct(1))
        have l: "set_tree l = set_tree (Node xl xc xr)" by (metis x set_tree_splay)
        have below: "\<And>x. x \<in> set_tree l \<Longrightarrow> key x \<in> K \<and> cmp (key x) k < 0"
          using ok okl by (auto simp: tree_ok_Node k) (auto simp: tree_ok_def)
        then have "0 < cmp k (key xc)" using l cmp_gt [OF assms(2)] by simp
        have "xr = Leaf"
        proof (rule ccontr)
          assume "xr \<noteq> Leaf"
          then obtain y where "y \<in> set_tree xr" by (cases xr) auto
          then show False
            using hi [OF \<open>0 < cmp k (key xc)\<close>] below [of y] l cmp_asym [OF assms(2)] by auto
        qed
        have "tree_ok cmp key K (Node xl xc r)"
        proof -
          have "cmp (key xc) (key y) < 0" if "y \<in> set_tree r" for y
            using that below [of xc] l ok cmp_trans [of "key xc" k "key y"] assms(2)
            by (auto simp: tree_ok_Node k) (auto simp: tree_ok_def)
          then show ?thesis using okx ok by (simp add: tree_ok_Node)
        qed
        moreover have "tree_map key (Node xl xc r) = (tree_map key t)(k := None)"
        proof -
          have "tree_map key (Node xl xc r) = tree_map key r ++ tree_map key (Node xl xc Leaf)"
            by (auto simp: tree_map_Node_app map_add_def fun_eq_iff split: option.splits)
          then show ?thesis
            unfolding del using tree_map_splay [of key cmp key l k] by (simp add: x \<open>xr = Leaf\<close>)
        qed
        moreover have "splay cmp key (Node a b d) k = Node xl xc xr" using x Node by simp
        ultimately show ?thesis
          using True hit Node \<open>splay cmp key t k = _\<close> by (simp add: tree_extract_def)
      qed
    qed
  qed
qed

end

section \<open>Traversals with an explicit stack\<close>

text \<open>
  \<open>AVL_TRAVERSE_DEFINITION\<close> of \<open>clb_avlgeneric.h\<close>: the traversal state is a stack of
  nodes, the next one on top. A node is the subtree below it.
\<close>

fun push_lsons :: "'c tree pstack \<Rightarrow> 'c tree \<Rightarrow> 'c tree pstack option" where
  "push_lsons st Leaf = Some st"
| "push_lsons st (Node l c r) = do { st' \<leftarrow> push st (Node l c r); push_lsons st' l }"

definition tree_traverse_init :: "'c tree \<Rightarrow> 'c tree pstack option" where
  "tree_traverse_init root = push_lsons PStackAlloc root"

text \<open>The next node, \<open>None\<close> inside the result at the end; dereferencing \<open>NULL\<close> fails.\<close>

definition tree_traverse_next :: "'c tree pstack \<Rightarrow> ('c option \<times> 'c tree pstack) option" where
  "tree_traverse_next st =
     (if PStackEmpty st then Some (None, st)
      else do { (res, st') \<leftarrow> PStackPop st;
                case res of
                  Leaf \<Rightarrow> None
                | Node l c r \<Rightarrow> do { st'' \<leftarrow> push_lsons st' r; Some (Some c, st'') } })"

text \<open>
  The other loop of the tree modules: depth-first search with a stack that also takes
  \<open>NULL\<close>. \<open>f\<close> is what the loop body does with a cell, its flag says \<open>break\<close>. The body of
  some loops runs after both sons are pushed, of others before; it never touches the stack.
\<close>

partial_function (option) dfs_loop ::
  "('c \<Rightarrow> 's \<Rightarrow> ('s \<times> bool) option) \<Rightarrow> 'c tree pstack \<Rightarrow> 's \<Rightarrow> 's option" where [code]:
  "dfs_loop f stack s =
     (if PStackEmpty stack then Some s
      else do { (t, st) \<leftarrow> PStackPop stack;
                case t of
                  Leaf \<Rightarrow> dfs_loop f st s
                | Node l c r \<Rightarrow>
                    do { (s', brk) \<leftarrow> f c s;
                         if brk then Some s'
                         else do { st1 \<leftarrow> push st l; st2 \<leftarrow> push st1 r;
                                   dfs_loop f st2 s' } } })"

definition tree_dfs ::
  "('c \<Rightarrow> 's \<Rightarrow> ('s \<times> bool) option) \<Rightarrow> 'c tree \<Rightarrow> 's \<Rightarrow> 's option" where
  "tree_dfs f root s = do { stack \<leftarrow> push PStackAlloc root; dfs_loop f stack s }"

text \<open>\<open>NumTreeNodes\<close>, \<open>PTreeNodes\<close>, \<open>PObjTreeNodes\<close>.\<close>

definition tree_nodes :: "'c tree \<Rightarrow> nat option" where
  "tree_nodes root = tree_dfs (\<lambda>_ res. Some (res + 1, False)) root 0"

text \<open>The order in which the search meets the cells: the right son is on top of the stack.\<close>

primrec dfs_order :: "'c tree \<Rightarrow> 'c list" where
  "dfs_order Leaf = []"
| "dfs_order (Node l c r) = c # dfs_order r @ dfs_order l"

lemma set_dfs_order [simp]: "set (dfs_order t) = set_tree t"
  by (induction t) auto

lemma length_dfs_order [simp]: "length (dfs_order t) = size t"
  by (induction t) auto

lemma mset_dfs_order: "mset (dfs_order t) = mset (inorder t)"
  by (induction t) auto

text \<open>What a traversal state still has to visit, in the order of the visits.\<close>

definition trav_items :: "'c tree pstack \<Rightarrow> 'c list" where
  "trav_items st = concat (map (\<lambda>t. case t of Leaf \<Rightarrow> [] | Node l c r \<Rightarrow> c # inorder r)
                            (rev (pstack_list st)))"

definition trav_ok :: "'c tree pstack \<Rightarrow> bool" where
  "trav_ok st \<longleftrightarrow> pstack_ok st \<and> Leaf \<notin> set (pstack_list st)"

lemma push_lsons_ok:
  "trav_ok st \<Longrightarrow> \<exists>st'. push_lsons st t = Some st' \<and> trav_ok st' \<and>
                  trav_items st' = inorder t @ trav_items st"
proof (induction st t rule: push_lsons.induct)
  case (2 st l c r)
  obtain s where s: "push st (Node l c r) = Some s" "pstack_ok s"
    "pstack_list s = pstack_list st @ [Node l c r]"
    using push_ok [of st "Node l c r"] 2(2) by (auto simp: trav_ok_def)
  then have "trav_ok s" "trav_items s = (c # inorder r) @ trav_items st"
    using 2(2) by (auto simp: trav_ok_def trav_items_def)
  with 2(1) [OF s(1) \<open>trav_ok s\<close>] s(1) show ?case by auto
qed simp

lemma tree_traverse_init_ok:
  "\<exists>st. tree_traverse_init t = Some st \<and> trav_ok st \<and> trav_items st = inorder t"
  using push_lsons_ok [of PStackAlloc t]
  by (auto simp: tree_traverse_init_def trav_ok_def trav_items_def)

lemma tree_traverse_next_ok:
  assumes "trav_ok st"
  shows "trav_items st = [] \<Longrightarrow> tree_traverse_next st = Some (None, st)"
    and "trav_items st = c # cs \<Longrightarrow>
           \<exists>st'. tree_traverse_next st = Some (Some c, st') \<and> trav_ok st' \<and> trav_items st' = cs"
proof -
  have E: "PStackEmpty st \<longleftrightarrow> pstack_list st = []"
    using assms by (simp add: trav_ok_def PStackEmpty_iff)
  have step: "\<exists>st'. tree_traverse_next st = Some (Some c', st') \<and> trav_ok st' \<and>
      trav_items st = c' # trav_items st'" if lst: "pstack_list st = ts @ [Node l c' r]" for ts l c' r
  proof -
    obtain s where s: "PStackPop st = Some (Node l c' r, s)" "pstack_ok s" "pstack_list s = ts"
      using PStackPop_ok [of st ts "Node l c' r"] assms lst by (auto simp: trav_ok_def)
    have "trav_ok s" using s assms lst by (auto simp: trav_ok_def)
    then obtain u where "push_lsons s r = Some u" "trav_ok u"
      "trav_items u = inorder r @ trav_items s"
      using push_lsons_ok by blast
    then show ?thesis
      using s E lst by (auto simp: tree_traverse_next_def trav_items_def)
  qed
  have cases: "pstack_list st = [] \<or> (\<exists>ts l c' r. pstack_list st = ts @ [Node l c' r])"
    using assms by (cases "pstack_list st" rule: rev_cases) (auto simp: trav_ok_def, metis tree.exhaust)
  show "trav_items st = [] \<Longrightarrow> tree_traverse_next st = Some (None, st)"
    using cases step E by (auto simp: tree_traverse_next_def)
  show "trav_items st = c # cs \<Longrightarrow>
           \<exists>st'. tree_traverse_next st = Some (Some c, st') \<and> trav_ok st' \<and> trav_items st' = cs"
    using cases step by (auto simp: trav_items_def)
qed

lemma dfs_loop_eq:
  "pstack_ok st \<Longrightarrow>
   dfs_loop f st s = foldM_brk f s (concat (map dfs_order (rev (pstack_list st))))"
proof (induction "sum_list (map (\<lambda>t. 2 * size t + 1) (pstack_list st))" arbitrary: st s
    rule: less_induct)
  case less
  show ?case
  proof (cases "PStackEmpty st")
    case True
    then show ?thesis
      using less.prems by (simp add: dfs_loop.simps PStackEmpty_iff)
  next
    case False
    obtain ts t u where u: "pstack_list st = ts @ [t]" "PStackPop st = Some (t, u)"
      "pstack_ok u" "pstack_list u = ts"
      using pst.take_some [OF less.prems False] by metis
    show ?thesis
    proof (cases t)
      case Leaf
      then show ?thesis
        using less.hyps [of u s] u False by (simp add: dfs_loop.simps [of f st])
    next
      case (Node l c r)
      obtain s1 where s1: "push u l = Some s1" "pstack_ok s1" "pstack_list s1 = ts @ [l]"
        using push_ok [OF u(3), of l] u(4) by auto
      obtain s2 where s2: "push s1 r = Some s2" "pstack_ok s2" "pstack_list s2 = ts @ [l, r]"
        using push_ok [OF s1(2), of r] s1(3) by auto
      show ?thesis
        using less.hyps [of s2] u s1 s2 False Node
        by (auto simp: dfs_loop.simps [of f st] split: Option.bind_splits)
    qed
  qed
qed

lemma tree_dfs_eq: "tree_dfs f t s = foldM_brk f s (dfs_order t)"
proof -
  obtain st where "push PStackAlloc t = Some st" "pstack_ok st" "pstack_list st = [t]"
    using push_ok [of PStackAlloc t] by auto
  then show ?thesis by (simp add: tree_dfs_def dfs_loop_eq)
qed

lemma tree_nodes_ok: "tree_nodes t = Some (size t)"
proof -
  have "fold (\<lambda>_ res. res + 1) xs n = n + length xs" for xs :: "'a list" and n :: nat
    by (induction xs arbitrary: n) auto
  then show ?thesis
    by (simp add: tree_nodes_def tree_dfs_eq foldM_brk_total [where g = "\<lambda>_ res. res + 1"])
qed

end
