(* ===== verification/ObjTrees.thy ===== *)
theory ObjTrees
  imports SplayTrees
begin

text \<open>
  Object trees (\<open>BASICS/clb_objtrees.c\<close>): a cell holds a pointer to an object, ordered by a
  comparison function the caller gives. The key of a cell is the object itself, so an object
  found in the tree may differ from the one searched for. The comparison function is the
  parameter \<open>cmpfun\<close> of every operation, as in the code.
\<close>

type_synonym 'o objtree = "'o tree"

definition obj_splay_tree :: "'o objtree \<Rightarrow> 'o \<Rightarrow> ('o \<Rightarrow> 'o \<Rightarrow> int) \<Rightarrow> 'o objtree" where
  "obj_splay_tree t key cmpfun = splay cmpfun (\<lambda>x. x) t key"

definition PTreeObjInsert ::
  "'o objtree \<Rightarrow> 'o \<Rightarrow> ('o \<Rightarrow> 'o \<Rightarrow> int) \<Rightarrow> 'o option \<times> 'o objtree" where
  "PTreeObjInsert root newnode cmpfun = tree_insert cmpfun (\<lambda>x. x) root newnode"

text \<open>The object that was there already, or \<open>NULL\<close> when \<open>key\<close> was stored.\<close>

definition PTreeObjStore ::
  "'o objtree \<Rightarrow> 'o \<Rightarrow> ('o \<Rightarrow> 'o \<Rightarrow> int) \<Rightarrow> 'o option \<times> 'o objtree" where
  "PTreeObjStore root key cmpfun =
     (case PTreeObjInsert root key cmpfun of
        (Some newnode, root') \<Rightarrow> (Some newnode, root')
      | (None, root') \<Rightarrow> (None, root'))"

definition PTreeObjFind ::
  "'o objtree \<Rightarrow> 'o \<Rightarrow> ('o \<Rightarrow> 'o \<Rightarrow> int) \<Rightarrow> 'o option \<times> 'o objtree" where
  "PTreeObjFind root key cmpfun = tree_find cmpfun (\<lambda>x. x) root key"

definition PTreeObjFindObj ::
  "'o objtree \<Rightarrow> 'o \<Rightarrow> ('o \<Rightarrow> 'o \<Rightarrow> int) \<Rightarrow> 'o option \<times> 'o objtree" where
  "PTreeObjFindObj root key cmpfun =
     (let (node, root') = PTreeObjFind root key cmpfun in
      (case node of Some n \<Rightarrow> Some n | None \<Rightarrow> None, root'))"

definition PTreeObjFindBinary :: "'o objtree \<Rightarrow> 'o \<Rightarrow> ('o \<Rightarrow> 'o \<Rightarrow> int) \<Rightarrow> 'o option" where
  "PTreeObjFindBinary root key cmpfun = tree_find_binary cmpfun (\<lambda>x. x) root key"

definition PTreeObjExtractEntry ::
  "'o objtree \<Rightarrow> 'o \<Rightarrow> ('o \<Rightarrow> 'o \<Rightarrow> int) \<Rightarrow> 'o option \<times> 'o objtree" where
  "PTreeObjExtractEntry root key cmpfun = tree_extract cmpfun (\<lambda>x. x) root key"

definition PTreeObjExtractObject ::
  "'o objtree \<Rightarrow> 'o \<Rightarrow> ('o \<Rightarrow> 'o \<Rightarrow> int) \<Rightarrow> 'o option \<times> 'o objtree" where
  "PTreeObjExtractObject root key cmpfun =
     (let (handle, root') = PTreeObjExtractEntry root key cmpfun in
      (case handle of Some h \<Rightarrow> Some h | None \<Rightarrow> None, root'))"

definition PTreeObjExtractRootObject ::
  "'o objtree \<Rightarrow> ('o \<Rightarrow> 'o \<Rightarrow> int) \<Rightarrow> 'o option \<times> 'o objtree" where
  "PTreeObjExtractRootObject root cmpfun =
     (case root of
        Leaf \<Rightarrow> (None, root)
      | Node l x r \<Rightarrow> PTreeObjExtractObject root x cmpfun)"

text \<open>
  \<open>PTreeObjMerge\<close> moves the cells of \<open>add\<close> into the tree, in the order of a depth-first
  search, and asserts that no object is there already.
\<close>

definition PTreeObjMerge ::
  "'o objtree \<Rightarrow> 'o objtree \<Rightarrow> ('o \<Rightarrow> 'o \<Rightarrow> int) \<Rightarrow> 'o objtree option" where
  "PTreeObjMerge root add cmpfun =
     tree_dfs (\<lambda>x root. let (res, root') = PTreeObjInsert root x cmpfun in
                 do { c_assert (res = None); Some (root', False) })
              add root"

definition PObjTreeNodes :: "'o objtree \<Rightarrow> nat option" where
  "PObjTreeNodes root = tree_nodes root"

lemmas obj_tree_defs = PTreeObjInsert_def PTreeObjStore_def PTreeObjFind_def PTreeObjFindObj_def
  PTreeObjFindBinary_def PTreeObjExtractEntry_def PTreeObjExtractObject_def

section \<open>The set of objects of a tree\<close>

lemma obj_map_iff: "tree_map (\<lambda>x. x) t k = Some x \<longleftrightarrow> x = k \<and> k \<in> set_tree t"
proof
  assume "tree_map (\<lambda>x. x) t k = Some x"
  then show "x = k \<and> k \<in> set_tree t" by (auto simp: tree_map_def dest: map_of_SomeD)
next
  assume a: "x = k \<and> k \<in> set_tree t"
  then have "k \<in> dom (tree_map (\<lambda>x. x) t)" by (simp add: dom_tree_map)
  then obtain y where "tree_map (\<lambda>x. x) t k = Some y" by blast
  with a show "tree_map (\<lambda>x. x) t k = Some x"
    by (auto simp: tree_map_def dest: map_of_SomeD)
qed

lemma obj_map_eq: "tree_map (\<lambda>x. x) t k = (if k \<in> set_tree t then Some k else None)"
  using obj_map_iff [of t k] by (cases "tree_map (\<lambda>x. x) t k") auto

context key_order
begin

lemma obj_insert:
  assumes "tree_ok cmp (\<lambda>x. x) K t" and "n \<in> K"
  shows "\<exists>t'. PTreeObjInsert t n cmp = (if n \<in> set_tree t then Some n else None, t') \<and>
           tree_ok cmp (\<lambda>x. x) K t' \<and> set_tree t' = insert n (set_tree t)"
proof -
  obtain t' where t': "PTreeObjInsert t n cmp = (tree_map (\<lambda>x. x) t n, t')"
    "tree_ok cmp (\<lambda>x. x) K t'"
    "tree_map (\<lambda>x. x) t' = (case tree_map (\<lambda>x. x) t n of
        None \<Rightarrow> (tree_map (\<lambda>x. x) t)(n \<mapsto> n) | Some c \<Rightarrow> tree_map (\<lambda>x. x) t)"
    using tree_insert_ok [OF assms] unfolding PTreeObjInsert_def by blast
  have "dom (tree_map (\<lambda>x. x) t') = insert n (dom (tree_map (\<lambda>x. x) t))"
    by (auto simp: t'(3) split: option.splits)
  then show ?thesis using t'(1,2) by (simp add: dom_tree_map obj_map_eq)
qed

lemma obj_find:
  assumes "tree_ok cmp (\<lambda>x. x) K t" and "k \<in> K"
  shows "\<exists>t'. PTreeObjFind t k cmp = (if k \<in> set_tree t then Some k else None, t') \<and>
           tree_ok cmp (\<lambda>x. x) K t' \<and> set_tree t' = set_tree t"
proof -
  obtain t' where "tree_find cmp (\<lambda>x. x) t k = (tree_map (\<lambda>x. x) t k, t')"
    "tree_ok cmp (\<lambda>x. x) K t'" "inorder t' = inorder t"
    using tree_find_ok [OF assms] by blast
  then show ?thesis by (metis PTreeObjFind_def obj_map_eq set_inorder)
qed

lemma obj_find_binary:
  assumes "tree_ok cmp (\<lambda>x. x) K t" and "k \<in> K"
  shows "PTreeObjFindBinary t k cmp = (if k \<in> set_tree t then Some k else None)"
  using tree_find_binary_ok [OF assms] by (simp add: PTreeObjFindBinary_def obj_map_eq)

lemma obj_extract:
  assumes "tree_ok cmp (\<lambda>x. x) K t" and "k \<in> K"
  shows "\<exists>t'. PTreeObjExtractEntry t k cmp = (if k \<in> set_tree t then Some k else None, t') \<and>
           tree_ok cmp (\<lambda>x. x) K t' \<and> set_tree t' = set_tree t - {k}"
proof -
  obtain t' where t': "PTreeObjExtractEntry t k cmp = (tree_map (\<lambda>x. x) t k, t')"
    "tree_ok cmp (\<lambda>x. x) K t'" "tree_map (\<lambda>x. x) t' = (tree_map (\<lambda>x. x) t)(k := None)"
    using tree_extract_ok [OF assms] unfolding PTreeObjExtractEntry_def by blast
  have "dom (tree_map (\<lambda>x. x) t') = dom (tree_map (\<lambda>x. x) t) - {k}"
    by (auto simp: t'(3))
  then show ?thesis using t'(1,2) by (simp add: dom_tree_map obj_map_eq)
qed

lemma obj_insert_list:
  assumes "tree_ok cmp (\<lambda>x. x) K root" and "distinct xs" and "set xs \<subseteq> K - set_tree root"
  shows "\<exists>t. foldM_brk (\<lambda>x root. let (res, root') = PTreeObjInsert root x cmp in
                 do { c_assert (res = None); Some (root', False) }) root xs = Some t \<and>
           tree_ok cmp (\<lambda>x. x) K t \<and> set_tree t = set_tree root \<union> set xs"
  using assms
proof (induction xs arbitrary: root)
  case (Cons x xs)
  obtain root' where "PTreeObjInsert root x cmp = (None, root')"
    "tree_ok cmp (\<lambda>x. x) K root'" "set_tree root' = insert x (set_tree root)"
    using obj_insert [OF Cons.prems(1), of x] Cons.prems(3) by auto
  then show ?case using Cons.IH [of root'] Cons.prems by auto
qed simp

lemma sorted_distinct: "sorted_wrt (\<lambda>x y. cmp (key x) (key y) < 0) xs \<Longrightarrow> key ` set xs \<subseteq> K \<Longrightarrow> distinct xs"
  by (induction xs) (auto simp: cmp_irrefl)

lemma tree_ok_distinct: "tree_ok cmp key K t \<Longrightarrow> distinct (inorder t)"
  unfolding tree_ok_def by (rule sorted_distinct [where key = key]) auto

lemma obj_merge:
  assumes "tree_ok cmp (\<lambda>x. x) K root" and "tree_ok cmp (\<lambda>x. x) K add"
    and "set_tree root \<inter> set_tree add = {}"
  shows "\<exists>t. PTreeObjMerge root add cmp = Some t \<and> tree_ok cmp (\<lambda>x. x) K t \<and>
           set_tree t = set_tree root \<union> set_tree add"
  using obj_insert_list [OF assms(1), of "dfs_order add"] assms(2,3)
    tree_ok_distinct [OF assms(2)]
  by (auto simp: PTreeObjMerge_def tree_dfs_eq tree_ok_def mset_eq_imp_distinct_iff [OF mset_dfs_order])

end

end
