(* ===== verification/PTrees.thy ===== *)
theory PTrees
  imports ObjTrees
begin

text \<open>
  Pointer sets (\<open>BASICS/clb_ptrees.c\<close>): splay trees whose cells hold nothing but an address.
  Addresses are naturals, \<open>NULL\<close> is 0. \<open>ptree_ok\<close> is the search-tree invariant; a tree
  stands for the set of its keys, and the lemmas show that the operations are the set
  operations they are named after.
\<close>

type_synonym ptree = "nat tree"

definition NULL :: nat where
  "NULL = 0"

definition splay_ptree :: "ptree \<Rightarrow> nat \<Rightarrow> ptree" where
  "splay_ptree tree key = splay PCmpFun (\<lambda>p. p) tree key"

definition PTreeInsert :: "ptree \<Rightarrow> nat \<Rightarrow> nat option \<times> ptree" where
  "PTreeInsert root newnode = tree_insert PCmpFun (\<lambda>p. p) root newnode"

definition PTreeStore :: "ptree \<Rightarrow> nat \<Rightarrow> bool \<times> ptree" where
  "PTreeStore root key =
     (let (newnode, root') = PTreeInsert root key in
      if newnode \<noteq> None then (False, root') else (True, root'))"

definition PTreeFind :: "ptree \<Rightarrow> nat \<Rightarrow> nat option \<times> ptree" where
  "PTreeFind root key = tree_find PCmpFun (\<lambda>p. p) root key"

definition PTreeFindBinary :: "ptree \<Rightarrow> nat \<Rightarrow> nat option" where
  "PTreeFindBinary root key = tree_find_binary PCmpFun (\<lambda>p. p) root key"

definition PTreeExtractEntry :: "ptree \<Rightarrow> nat \<Rightarrow> nat option \<times> ptree" where
  "PTreeExtractEntry root key = tree_extract PCmpFun (\<lambda>p. p) root key"

text \<open>The operations that return a key return \<open>NULL\<close> for "no such key".\<close>

definition PTreeExtractKey :: "ptree \<Rightarrow> nat \<Rightarrow> nat \<times> ptree" where
  "PTreeExtractKey root key =
     (let (handle, root') = PTreeExtractEntry root key in
      (case handle of Some h \<Rightarrow> h | None \<Rightarrow> NULL, root'))"

definition PTreeExtractRootKey :: "ptree \<Rightarrow> nat \<times> ptree" where
  "PTreeExtractRootKey root =
     (case root of Leaf \<Rightarrow> (NULL, root) | Node l key r \<Rightarrow> PTreeExtractKey root key)"

definition PTreeDeleteEntry :: "ptree \<Rightarrow> nat \<Rightarrow> bool \<times> ptree" where
  "PTreeDeleteEntry root key =
     (let (cell, root') = PTreeExtractEntry root key in
      if cell \<noteq> None then (True, root') else (False, root'))"

section \<open>Operations on whole trees\<close>

definition PTreeMerge :: "ptree \<Rightarrow> ptree \<Rightarrow> (ptree \<times> bool) option" where
  "PTreeMerge root add =
     tree_dfs (\<lambda>key (root, res). let (tmp, root') = PTreeInsert root key in
                 Some (if tmp \<noteq> None then (root', res) else (root', True), False))
              add (root, False)"

definition PTreeInsertTree :: "ptree \<Rightarrow> ptree \<Rightarrow> ptree option" where
  "PTreeInsertTree root add =
     tree_dfs (\<lambda>key root. let (_, root') = PTreeStore root key in Some (root', False)) add root"

definition PTreeNodes :: "ptree \<Rightarrow> nat option" where
  "PTreeNodes root = tree_nodes root"

definition PStackToPTree :: "ptree \<Rightarrow> nat pstack \<Rightarrow> (ptree \<times> nat) option" where
  "PStackToPTree root stack =
     foldM (\<lambda>(root, res) i.
              do { key \<leftarrow> PStackElement stack i;
                   let (new, root') = PTreeStore root key;
                   Some (root', if new then res + 1 else res) })
           (root, 0) [0..<PStackGetSP stack]"

definition PTreeToPStack :: "nat pstack \<Rightarrow> ptree \<Rightarrow> (nat pstack \<times> nat) option" where
  "PTreeToPStack target_stack root =
     tree_dfs (\<lambda>key (target, res).
                 do { target' \<leftarrow> push target key; Some ((target', res + 1), False) })
              root (target_stack, 0)"

definition PTreeSharedElement :: "ptree \<Rightarrow> ptree \<Rightarrow> (nat \<times> ptree) option" where
  "PTreeSharedElement tree1 tree2 =
     tree_dfs (\<lambda>key (res, tree1).
                 case PTreeFind tree1 key of
                   (Some tmp, tree1') \<Rightarrow> Some ((tmp, tree1'), True)
                 | (None, tree1') \<Rightarrow> Some ((res, tree1'), False))
              tree2 (NULL, tree1)"

definition PTreeIntersection :: "ptree \<Rightarrow> ptree \<Rightarrow> ptree option" where
  "PTreeIntersection tree1 tree2 =
     tree_dfs (\<lambda>key res.
                 Some (if PTreeFindBinary tree1 key \<noteq> None then snd (PTreeStore res key) else res,
                       False))
              tree2 Leaf"

text \<open>The loop ends when \<open>PTreeExtractRootKey\<close> returns \<open>NULL\<close>; the tree must be empty then.\<close>

partial_function (option) destr_intersection ::
  "ptree \<Rightarrow> ptree \<Rightarrow> ptree \<Rightarrow> nat \<Rightarrow> (ptree \<times> nat) option" where [code]:
  "destr_intersection tree1 tree2 tmp res =
     (let (key, tree1') = PTreeExtractRootKey tree1 in
      if key \<noteq> NULL then
        (if PTreeFindBinary tree2 key \<noteq> None
         then destr_intersection tree1' tree2 (snd (PTreeStore tmp key)) res
         else destr_intersection tree1' tree2 tmp (res + 1))
      else do { c_assert (tree1' = Leaf); Some (tmp, res) })"

definition PTreeDestrIntersection :: "ptree \<Rightarrow> ptree \<Rightarrow> (ptree \<times> nat) option" where
  "PTreeDestrIntersection tree1 tree2 = destr_intersection tree1 tree2 Leaf 0"

definition PTreeCopy :: "ptree \<Rightarrow> ptree option" where
  "PTreeCopy tree =
     tree_dfs (\<lambda>key res. Some (snd (PTreeStore res key), False)) tree Leaf"

definition PTreeTraverseInit :: "ptree \<Rightarrow> ptree pstack option" where
  "PTreeTraverseInit root = tree_traverse_init root"

definition PTreeTraverseNext :: "ptree pstack \<Rightarrow> (nat option \<times> ptree pstack) option" where
  "PTreeTraverseNext state = tree_traverse_next state"

partial_function (option) equiv_loop :: "ptree pstack \<Rightarrow> ptree pstack \<Rightarrow> bool option" where [code]:
  "equiv_loop iter1 iter2 =
     do { (handle1, iter1') \<leftarrow> PTreeTraverseNext iter1;
          (handle2, iter2') \<leftarrow> PTreeTraverseNext iter2;
          case handle1 of
            Some key1 \<Rightarrow>
              (case handle2 of
                 None \<Rightarrow> Some False
               | Some key2 \<Rightarrow> if key1 \<noteq> key2 then Some False else equiv_loop iter1' iter2')
          | None \<Rightarrow> Some (handle2 = None) }"

definition PTreeEquiv :: "ptree \<Rightarrow> ptree \<Rightarrow> bool option" where
  "PTreeEquiv t1 t2 =
     do { iter1 \<leftarrow> PTreeTraverseInit t1; iter2 \<leftarrow> PTreeTraverseInit t2; equiv_loop iter1 iter2 }"

partial_function (option) subset_loop ::
  "ptree pstack \<Rightarrow> ptree \<Rightarrow> (bool \<times> ptree) option" where [code]:
  "subset_loop iter super =
     do { (handle, iter') \<leftarrow> PTreeTraverseNext iter;
          case handle of
            None \<Rightarrow> Some (True, super)
          | Some key \<Rightarrow>
              (case PTreeFind super key of
                 (None, super') \<Rightarrow> Some (False, super')
               | (Some _, super') \<Rightarrow> subset_loop iter' super') }"

definition PTreeIsSubset :: "ptree \<Rightarrow> ptree \<Rightarrow> (bool \<times> ptree) option" where
  "PTreeIsSubset sub super = do { iter \<leftarrow> PTreeTraverseInit sub; subset_loop iter super }"

text \<open>The visitor acts on the state its argument \<open>arg\<close> points to.\<close>

partial_function (option) visit_loop ::
  "('s \<Rightarrow> nat \<Rightarrow> 's) \<Rightarrow> ptree pstack \<Rightarrow> 's \<Rightarrow> 's option" where [code]:
  "visit_loop visitor iter arg =
     do { (handle, iter') \<leftarrow> PTreeTraverseNext iter;
          case handle of
            None \<Rightarrow> Some arg
          | Some key \<Rightarrow> visit_loop visitor iter' (visitor arg key) }"

definition PTreeVisitInOrder :: "ptree \<Rightarrow> ('s \<Rightarrow> nat \<Rightarrow> 's) \<Rightarrow> 's \<Rightarrow> 's option" where
  "PTreeVisitInOrder t visitor arg = do { iter \<leftarrow> PTreeTraverseInit t; visit_loop visitor iter arg }"

section \<open>The operations as set operations\<close>

definition ptree_ok :: "ptree \<Rightarrow> bool" where
  "ptree_ok t \<longleftrightarrow> tree_ok PCmpFun (\<lambda>p. p) UNIV t"

lemma ptree_ok_sorted: "ptree_ok t \<longleftrightarrow> sorted_wrt (<) (inorder t)"
  by (simp add: ptree_ok_def tree_ok_def)

lemma ptree_ok_Leaf [simp]: "ptree_ok Leaf"
  by (simp add: ptree_ok_def)

lemma ptree_ok_distinct: "ptree_ok t \<Longrightarrow> distinct (inorder t)"
  unfolding ptree_ok_def by (rule addr_keys.tree_ok_distinct)

lemma ptree_inorder_eq: "ptree_ok t \<Longrightarrow> inorder t = sorted_list_of_set (set_tree t)"
  by (metis ptree_ok_sorted set_inorder sorted_list_of_set.idem_if_sorted_distinct
      strict_sorted_iff)

lemma ptree_size: "ptree_ok t \<Longrightarrow> size t = card (set_tree t)"
  by (metis length_inorder distinct_card ptree_ok_distinct set_inorder)

lemma PTreeInsert_set:
  assumes "ptree_ok t"
  obtains t' where "PTreeInsert t n = (if n \<in> set_tree t then Some n else None, t')"
    "ptree_ok t'" "set_tree t' = insert n (set_tree t)"
  using addr_keys.obj_insert [of t n] assms
  by (auto simp: ptree_ok_def PTreeInsert_def PTreeObjInsert_def)

lemma PTreeFind_set:
  assumes "ptree_ok t"
  obtains t' where "PTreeFind t k = (if k \<in> set_tree t then Some k else None, t')"
    "ptree_ok t'" "set_tree t' = set_tree t"
  using addr_keys.obj_find [of t k] assms
  by (auto simp: ptree_ok_def PTreeFind_def PTreeObjFind_def)

lemma PTreeFindBinary_set:
  "ptree_ok t \<Longrightarrow> PTreeFindBinary t k = (if k \<in> set_tree t then Some k else None)"
  using addr_keys.obj_find_binary [of t k]
  by (simp add: ptree_ok_def PTreeFindBinary_def PTreeObjFindBinary_def)

lemma PTreeExtractEntry_set:
  assumes "ptree_ok t"
  obtains t' where "PTreeExtractEntry t k = (if k \<in> set_tree t then Some k else None, t')"
    "ptree_ok t'" "set_tree t' = set_tree t - {k}"
  using addr_keys.obj_extract [of t k] assms
  by (auto simp: ptree_ok_def PTreeExtractEntry_def PTreeObjExtractEntry_def)

lemma PTreeStore_set:
  assumes "ptree_ok t"
  obtains t' where "PTreeStore t k = (k \<notin> set_tree t, t')"
    "ptree_ok t'" "set_tree t' = insert k (set_tree t)"
proof -
  obtain t' where "PTreeInsert t k = (if k \<in> set_tree t then Some k else None, t')"
    "ptree_ok t'" "set_tree t' = insert k (set_tree t)"
    using PTreeInsert_set [OF assms] by blast
  then show ?thesis by (intro that [of t']) (auto simp: PTreeStore_def)
qed

lemma PTreeStore_snd:
  "ptree_ok t \<Longrightarrow> ptree_ok (snd (PTreeStore t k)) \<and>
     set_tree (snd (PTreeStore t k)) = insert k (set_tree t)"
  by (metis PTreeStore_set snd_conv)

lemma PTreeExtractRootKey_set:
  assumes "ptree_ok (Node l k r)"
  obtains t' where "PTreeExtractRootKey (Node l k r) = (k, t')" "ptree_ok t'"
    "set_tree t' = set_tree (Node l k r) - {k}" "size t' = size l + size r"
proof -
  obtain t' where t': "PTreeExtractEntry (Node l k r) k = (Some k, t')" "ptree_ok t'"
    "set_tree t' = set_tree (Node l k r) - {k}"
    by (rule PTreeExtractEntry_set [OF assms, of k]) auto
  have "size t' = size (Node l k r) - 1"
    using ptree_size [OF assms] ptree_size [OF t'(2)] t'(3)
      card_Diff_singleton [of k "set_tree (Node l k r)"] by simp
  then show ?thesis
    using t' by (intro that [of t']) (simp_all add: PTreeExtractRootKey_def PTreeExtractKey_def)
qed

lemma ptree_store_list:
  "ptree_ok t \<Longrightarrow> ptree_ok (fold (\<lambda>k t. snd (PTreeStore t k)) ks t) \<and>
     set_tree (fold (\<lambda>k t. snd (PTreeStore t k)) ks t) = set ks \<union> set_tree t"
  by (induction ks arbitrary: t) (simp_all add: PTreeStore_snd)

lemma PTreeMerge_set:
  assumes "ptree_ok root"
  shows "\<exists>t. PTreeMerge root add = Some (t, \<not> set_tree add \<subseteq> set_tree root) \<and> ptree_ok t \<and>
           set_tree t = set_tree root \<union> set_tree add"
proof -
  let ?f = "\<lambda>key (root, res). let (tmp, root') = PTreeInsert root key in
              Some (if tmp \<noteq> None then (root', res) else (root', True), False)"
  have "\<exists>t. foldM_brk ?f (root, b) ks = Some (t, b \<or> \<not> set ks \<subseteq> set_tree root) \<and> ptree_ok t \<and>
          set_tree t = set_tree root \<union> set ks" if "ptree_ok root" for ks root b
    using that
  proof (induction ks arbitrary: root b)
    case (Cons k ks)
    obtain r where r: "PTreeInsert root k = (if k \<in> set_tree root then Some k else None, r)"
      "ptree_ok r" "set_tree r = insert k (set_tree root)"
      using PTreeInsert_set [OF Cons.prems] by blast
    then show ?case
      using Cons.IH [OF r(2), of "b \<or> k \<notin> set_tree root"]
      by (cases "k \<in> set_tree root") (auto simp: insert_absorb)
  qed simp
  from this [OF assms, of False "dfs_order add"] show ?thesis
    by (simp add: PTreeMerge_def tree_dfs_eq)
qed

lemma PTreeInsertTree_set:
  assumes "ptree_ok root"
  shows "\<exists>t. PTreeInsertTree root add = Some t \<and> ptree_ok t \<and>
           set_tree t = set_tree root \<union> set_tree add"
  using ptree_store_list [OF assms, of "dfs_order add"]
  by (simp add: PTreeInsertTree_def tree_dfs_eq Let_def split_beta Un_commute
      foldM_brk_total [where g = "\<lambda>k t. snd (PTreeStore t k)"])

lemma PTreeCopy_set: "\<exists>t'. PTreeCopy t = Some t' \<and> ptree_ok t' \<and> set_tree t' = set_tree t"
  using ptree_store_list [OF ptree_ok_Leaf, of "dfs_order t"]
  by (simp add: PTreeCopy_def tree_dfs_eq foldM_brk_total [where g = "\<lambda>k t. snd (PTreeStore t k)"])

lemma PTreeIntersection_set:
  assumes "ptree_ok tree1"
  shows "\<exists>t. PTreeIntersection tree1 tree2 = Some t \<and> ptree_ok t \<and>
           set_tree t = set_tree tree1 \<inter> set_tree tree2"
proof -
  let ?g = "\<lambda>key res. if PTreeFindBinary tree1 key \<noteq> None then snd (PTreeStore res key) else res"
  have "ptree_ok res \<Longrightarrow> ptree_ok (fold ?g ks res) \<and>
          set_tree (fold ?g ks res) = set_tree tree1 \<inter> set ks \<union> set_tree res" for ks res
  proof (induction ks arbitrary: res)
    case (Cons k ks)
    then show ?case
      by (cases "k \<in> set_tree tree1") (auto simp: PTreeFindBinary_set [OF assms] PTreeStore_snd)
  qed simp
  from this [OF ptree_ok_Leaf, of "dfs_order tree2"] show ?thesis
    by (simp add: PTreeIntersection_def tree_dfs_eq foldM_brk_total [where g = ?g])
qed

lemma PTreeSharedElement_set:
  assumes "ptree_ok tree1" and "NULL \<notin> set_tree tree2"
  shows "\<exists>p t. PTreeSharedElement tree1 tree2 = Some (p, t) \<and> ptree_ok t \<and>
           set_tree t = set_tree tree1 \<and>
           (if set_tree tree1 \<inter> set_tree tree2 = {} then p = NULL
            else p \<in> set_tree tree1 \<inter> set_tree tree2)"
proof -
  let ?f = "\<lambda>key (res, tree1). case PTreeFind tree1 key of
      (Some tmp, tree1') \<Rightarrow> Some ((tmp, tree1'), True)
    | (None, tree1') \<Rightarrow> Some ((res, tree1'), False)"
  have "\<exists>p t. foldM_brk ?f (NULL, t1) ks = Some (p, t) \<and> ptree_ok t \<and> set_tree t = set_tree t1 \<and>
          (if set_tree t1 \<inter> set ks = {} then p = NULL else p \<in> set_tree t1 \<inter> set ks)"
    if "ptree_ok t1" for ks t1
    using that
  proof (induction ks arbitrary: t1)
    case (Cons k ks)
    obtain t where t: "PTreeFind t1 k = (if k \<in> set_tree t1 then Some k else None, t)"
      "ptree_ok t" "set_tree t = set_tree t1"
      using PTreeFind_set [OF Cons.prems] by blast
    show ?case
      using t Cons.IH [OF t(2)] by (cases "k \<in> set_tree t1") (auto split: if_splits)
  qed simp
  from this [OF assms(1), of "dfs_order tree2"] show ?thesis
    unfolding PTreeSharedElement_def tree_dfs_eq set_dfs_order .
qed

lemma destr_intersection_set:
  "ptree_ok tree1 \<Longrightarrow> NULL \<notin> set_tree tree1 \<Longrightarrow> ptree_ok tree2 \<Longrightarrow> ptree_ok tmp \<Longrightarrow>
   \<exists>t. destr_intersection tree1 tree2 tmp res =
         Some (t, res + card (set_tree tree1 - set_tree tree2)) \<and>
       ptree_ok t \<and> set_tree t = set_tree tree1 \<inter> set_tree tree2 \<union> set_tree tmp"
proof (induction tree1 arbitrary: tmp res rule: measure_induct_rule [where f = size])
  case (less tree1)
  show ?case
  proof (cases tree1)
    case Leaf
    then show ?thesis
      using less.prems by (simp add: destr_intersection.simps [of Leaf] PTreeExtractRootKey_def)
  next
    case (Node l k r)
    obtain t' where t': "PTreeExtractRootKey tree1 = (k, t')" "ptree_ok t'"
      "set_tree t' = set_tree tree1 - {k}" "size t' = size l + size r"
      using PTreeExtractRootKey_set [of l k r] less.prems Node by metis
    have k: "k \<noteq> NULL" "k \<in> set_tree tree1" "NULL \<notin> set_tree t'" "size t' < size tree1"
      using less.prems(2) Node t'(3,4) by auto
    show ?thesis
    proof (cases "k \<in> set_tree tree2")
      case True
      have "set_tree tree1 - set_tree tree2 = set_tree t' - set_tree tree2"
        using True t'(3) by auto
      then show ?thesis
        using less.IH [OF k(4) t'(2) k(3) less.prems(3), of "snd (PTreeStore tmp k)" res]
          t' k True less.prems
        by (auto simp: destr_intersection.simps [of tree1] PTreeFindBinary_set PTreeStore_snd)
    next
      case False
      have "card (set_tree tree1 - set_tree tree2) = Suc (card (set_tree t' - set_tree tree2))"
      proof -
        have "set_tree tree1 - set_tree tree2 = insert k (set_tree t' - set_tree tree2)"
          using False t'(3) k(2) by auto
        then show ?thesis using t'(3) by simp
      qed
      then show ?thesis
        using less.IH [OF k(4) t'(2) k(3) less.prems(3,4), of "res + 1"] t' k False less.prems
        by (auto simp: destr_intersection.simps [of tree1] PTreeFindBinary_set)
    qed
  qed
qed

lemma PTreeDestrIntersection_set:
  "ptree_ok tree1 \<Longrightarrow> NULL \<notin> set_tree tree1 \<Longrightarrow> ptree_ok tree2 \<Longrightarrow>
   \<exists>t. PTreeDestrIntersection tree1 tree2 =
         Some (t, card (set_tree tree1 - set_tree tree2)) \<and>
       ptree_ok t \<and> set_tree t = set_tree tree1 \<inter> set_tree tree2"
  using destr_intersection_set [of tree1 tree2 Leaf 0] by (simp add: PTreeDestrIntersection_def)

lemma PTreeToPStack_set:
  assumes "pstack_ok st"
  shows "\<exists>st'. PTreeToPStack st t = Some (st', size t) \<and> pstack_ok st' \<and>
           pstack_list st' = pstack_list st @ dfs_order t"
proof -
  let ?f = "\<lambda>key (target, res). do { target' \<leftarrow> push target key; Some ((target', res + 1), False) }"
  have "\<exists>st'. foldM_brk ?f (st, n) ks = Some (st', n + length ks) \<and> pstack_ok st' \<and>
           pstack_list st' = pstack_list st @ ks" if "pstack_ok st" for ks :: "'b list" and st and n :: nat
    using that
  proof (induction ks arbitrary: st n)
    case (Cons k ks)
    obtain s where s: "push st k = Some s" "pstack_ok s" "pstack_list s = pstack_list st @ [k]"
      using push_ok [OF Cons.prems] by blast
    then show ?case using Cons.IH [OF s(2), of "Suc n"] by auto
  qed simp
  from this [OF assms, of 0 "dfs_order t"] show ?thesis
    by (simp add: PTreeToPStack_def tree_dfs_eq)
qed

lemma PStackToPTree_set:
  assumes "ptree_ok root" and "pstack_ok stack"
  shows "\<exists>t. PStackToPTree root stack =
              Some (t, card (set (pstack_list stack) - set_tree root)) \<and> ptree_ok t \<and>
           set_tree t = set_tree root \<union> set (pstack_list stack)"
proof -
  let ?f = "\<lambda>(root, res) i. do { key \<leftarrow> PStackElement stack i;
              let (new, root') = PTreeStore root key; Some (root', if new then res + 1 else res) }"
  let ?xs = "pstack_list stack"
  have "n \<le> length ?xs \<Longrightarrow> \<exists>t. foldM ?f (root, 0) [0..<n] =
          Some (t, card (set (take n ?xs) - set_tree root)) \<and> ptree_ok t \<and>
          set_tree t = set_tree root \<union> set (take n ?xs)" for n
  proof (induction n)
    case 0
    then show ?case using assms(1) by simp
  next
    case (Suc n)
    then obtain t where t: "foldM ?f (root, 0) [0..<n] =
        Some (t, card (set (take n ?xs) - set_tree root))" "ptree_ok t"
        "set_tree t = set_tree root \<union> set (take n ?xs)" by auto
    obtain t' where t': "PTreeStore t (?xs ! n) = (?xs ! n \<notin> set_tree t, t')" "ptree_ok t'"
      "set_tree t' = insert (?xs ! n) (set_tree t)"
      using PTreeStore_set [OF t(2)] by blast
    have el: "PStackElement stack n = Some (?xs ! n)"
      using Suc.prems assms(2) by (simp add: PStackElement_ok)
    have tk: "set (take (Suc n) ?xs) = insert (?xs ! n) (set (take n ?xs))"
      using Suc.prems by (simp add: take_Suc_conv_app_nth)
    have "card (set (take (Suc n) ?xs) - set_tree root) =
        (if ?xs ! n \<notin> set_tree t then card (set (take n ?xs) - set_tree root) + 1
         else card (set (take n ?xs) - set_tree root))"
      unfolding tk by (auto simp: t(3) insert_Diff_if insert_absorb)
    then show ?case
      using t t' el tk by (auto simp: foldM_snoc)
  qed
  from this [of "length ?xs"] show ?thesis
    using assms(2) by (simp add: PStackToPTree_def PStackGetSP_def)
qed

lemma equiv_loop_eq:
  "trav_ok i1 \<Longrightarrow> trav_ok i2 \<Longrightarrow>
   equiv_loop i1 i2 = Some (trav_items i1 = trav_items i2)"
proof (induction "trav_items i1" arbitrary: i1 i2)
  case Nil
  note N = tree_traverse_next_ok(1) [OF Nil(2) Nil(1) [symmetric]]
  show ?case
  proof (cases "trav_items i2")
    case Nil
    then show ?thesis
      using N tree_traverse_next_ok(1) [OF \<open>trav_ok i2\<close>] \<open>[] = trav_items i1\<close>
      by (simp add: equiv_loop.simps [of i1] PTreeTraverseNext_def)
  next
    case (Cons c cs)
    then show ?thesis
      using N tree_traverse_next_ok(2) [OF \<open>trav_ok i2\<close> Cons] \<open>[] = trav_items i1\<close>
      by (auto simp: equiv_loop.simps [of i1] PTreeTraverseNext_def)
  qed
next
  case (Cons k ks)
  obtain j1 where j1: "tree_traverse_next i1 = Some (Some k, j1)" "trav_ok j1" "trav_items j1 = ks"
    using tree_traverse_next_ok(2) [OF Cons(3) Cons(2) [symmetric]] by blast
  show ?case
  proof (cases "trav_items i2")
    case Nil
    then show ?thesis
      using j1 tree_traverse_next_ok(1) [OF \<open>trav_ok i2\<close>] \<open>k # ks = trav_items i1\<close>
      by (auto simp: equiv_loop.simps [of i1] PTreeTraverseNext_def)
  next
    case (Cons c cs)
    obtain j2 where j2: "tree_traverse_next i2 = Some (Some c, j2)" "trav_ok j2" "trav_items j2 = cs"
      using tree_traverse_next_ok(2) [OF \<open>trav_ok i2\<close> Cons] by blast
    show ?thesis
      using Cons.hyps(1) [of j1 j2] j1 j2 Cons \<open>k # ks = trav_items i1\<close>
      by (auto simp: equiv_loop.simps [of i1] PTreeTraverseNext_def)
  qed
qed

lemma PTreeEquiv_inorder: "PTreeEquiv t1 t2 = Some (inorder t1 = inorder t2)"
proof -
  obtain i1 i2 where "tree_traverse_init t1 = Some i1" "trav_ok i1" "trav_items i1 = inorder t1"
    "tree_traverse_init t2 = Some i2" "trav_ok i2" "trav_items i2 = inorder t2"
    using tree_traverse_init_ok by metis
  then show ?thesis by (simp add: PTreeEquiv_def PTreeTraverseInit_def equiv_loop_eq)
qed

lemma PTreeEquiv_set:
  "ptree_ok t1 \<Longrightarrow> ptree_ok t2 \<Longrightarrow> PTreeEquiv t1 t2 = Some (set_tree t1 = set_tree t2)"
  by (auto simp: PTreeEquiv_inorder ptree_inorder_eq
      dest: sorted_list_of_set_inject [OF _ finite_set_tree finite_set_tree])

lemma subset_loop_eq:
  "trav_ok iter \<Longrightarrow> ptree_ok super \<Longrightarrow>
   \<exists>t. subset_loop iter super = Some (set (trav_items iter) \<subseteq> set_tree super, t) \<and>
       ptree_ok t \<and> set_tree t = set_tree super"
proof (induction "trav_items iter" arbitrary: iter super)
  case Nil
  then show ?case
    using tree_traverse_next_ok(1) [OF Nil(2) Nil(1) [symmetric]]
    by (simp add: subset_loop.simps [of iter] PTreeTraverseNext_def)
next
  case (Cons k ks)
  obtain j where j: "tree_traverse_next iter = Some (Some k, j)" "trav_ok j" "trav_items j = ks"
    using tree_traverse_next_ok(2) [OF Cons(3) Cons(2) [symmetric]] by blast
  obtain t where t: "PTreeFind super k = (if k \<in> set_tree super then Some k else None, t)"
      "ptree_ok t" "set_tree t = set_tree super"
    using PTreeFind_set [OF Cons.prems(2)] by blast
  obtain u where u: "subset_loop j t = Some (set ks \<subseteq> set_tree super, u)" "ptree_ok u"
      "set_tree u = set_tree super"
    using Cons.hyps(1) [of j t] j t by auto
  have "subset_loop iter super = Some (set (k # ks) \<subseteq> set_tree super,
          if k \<in> set_tree super then u else t)"
    using j(1) t(1) u(1) by (simp add: subset_loop.simps [of iter] PTreeTraverseNext_def)
  then show ?case
    using t u Cons.hyps(2) by (metis (full_types))
qed

lemma PTreeIsSubset_set:
  assumes "ptree_ok super"
  shows "\<exists>t. PTreeIsSubset sub super = Some (set_tree sub \<subseteq> set_tree super, t) \<and>
           ptree_ok t \<and> set_tree t = set_tree super"
proof -
  obtain i where i: "tree_traverse_init sub = Some i" "trav_ok i" "trav_items i = inorder sub"
    using tree_traverse_init_ok by blast
  then show ?thesis
    using subset_loop_eq [OF i(2) assms] by (simp add: PTreeIsSubset_def PTreeTraverseInit_def)
qed

lemma visit_loop_eq:
  "trav_ok iter \<Longrightarrow> visit_loop f iter s = Some (foldl f s (trav_items iter))"
proof (induction "trav_items iter" arbitrary: iter s)
  case Nil
  then show ?case
    using tree_traverse_next_ok(1) [OF Nil(2) Nil(1) [symmetric]]
    by (simp add: visit_loop.simps [of f iter] PTreeTraverseNext_def Nil(1) [symmetric])
next
  case (Cons k ks)
  obtain j where j: "tree_traverse_next iter = Some (Some k, j)" "trav_ok j" "trav_items j = ks"
    using tree_traverse_next_ok(2) [OF Cons(3) Cons(2) [symmetric]] by blast
  then show ?case
    using Cons.hyps(1) [of j] Cons.hyps(2) [symmetric]
    by (simp add: visit_loop.simps [of f iter] PTreeTraverseNext_def)
qed

lemma PTreeVisitInOrder_sorted:
  assumes "ptree_ok t"
  shows "PTreeVisitInOrder t f s = Some (foldl f s (sorted_list_of_set (set_tree t)))"
proof -
  obtain i where "tree_traverse_init t = Some i" "trav_ok i" "trav_items i = inorder t"
    using tree_traverse_init_ok by blast
  then show ?thesis
    by (simp add: PTreeVisitInOrder_def PTreeTraverseInit_def visit_loop_eq ptree_inorder_eq [OF assms])
qed

lemma PTreeDeleteEntry_set:
  assumes "ptree_ok t"
  shows "\<exists>t'. PTreeDeleteEntry t k = (k \<in> set_tree t, t') \<and> ptree_ok t' \<and> set_tree t' = set_tree t - {k}"
proof -
  obtain t' where "PTreeExtractEntry t k = (if k \<in> set_tree t then Some k else None, t')"
    "ptree_ok t'" "set_tree t' = set_tree t - {k}" using PTreeExtractEntry_set [OF assms] by blast
  then show ?thesis by (auto simp: PTreeDeleteEntry_def)
qed

section \<open>Properties\<close>

text \<open>A pointer tree is a set: storing, searching (with and without splaying), deleting and
  counting act on the set of keys, keep the search-tree invariant, and report membership.\<close>

theorem PTree_set_operations:
  assumes "ptree_ok t"
  shows "(\<exists>t'. PTreeStore t k = (k \<notin> set_tree t, t') \<and> ptree_ok t' \<and> set_tree t' = insert k (set_tree t)) \<and>
         (\<exists>t'. PTreeFind t k = (if k \<in> set_tree t then Some k else None, t') \<and> ptree_ok t' \<and>
            set_tree t' = set_tree t) \<and>
         PTreeFindBinary t k = (if k \<in> set_tree t then Some k else None) \<and>
         (\<exists>t'. PTreeDeleteEntry t k = (k \<in> set_tree t, t') \<and> ptree_ok t' \<and> set_tree t' = set_tree t - {k}) \<and>
         PTreeNodes t = Some (card (set_tree t))"
proof (intro conjI)
  show "\<exists>t'. PTreeStore t k = (k \<notin> set_tree t, t') \<and> ptree_ok t' \<and> set_tree t' = insert k (set_tree t)"
    using PTreeStore_set [OF assms] by blast
  show "\<exists>t'. PTreeFind t k = (if k \<in> set_tree t then Some k else None, t') \<and> ptree_ok t' \<and>
          set_tree t' = set_tree t"
    using PTreeFind_set [OF assms] by blast
qed (simp_all add: PTreeDeleteEntry_set PTreeFindBinary_set assms PTreeNodes_def tree_nodes_ok ptree_size)

theorem PTree_set_operations_witness:
  "\<exists>t'. PTreeStore (Node Leaf 3 Leaf) 5 = (True, t') \<and> set_tree t' = {3, 5}"
  using PTree_set_operations [of "Node Leaf 3 Leaf" 5] by (auto simp: ptree_ok_sorted)

text \<open>The operations on two pointer trees compute union, intersection, difference count,
  inclusion and equality of the two sets, for trees of any shape.\<close>

theorem PTree_set_algebra:
  assumes "ptree_ok t1" and "ptree_ok t2" and "NULL \<notin> set_tree t1"
  shows "(\<exists>t. PTreeMerge t1 t2 = Some (t, \<not> set_tree t2 \<subseteq> set_tree t1) \<and> ptree_ok t \<and>
           set_tree t = set_tree t1 \<union> set_tree t2) \<and>
         (\<exists>t. PTreeIntersection t1 t2 = Some t \<and> ptree_ok t \<and> set_tree t = set_tree t1 \<inter> set_tree t2) \<and>
         (\<exists>t. PTreeDestrIntersection t1 t2 = Some (t, card (set_tree t1 - set_tree t2)) \<and>
           ptree_ok t \<and> set_tree t = set_tree t1 \<inter> set_tree t2) \<and>
         (\<exists>t. PTreeIsSubset t1 t2 = Some (set_tree t1 \<subseteq> set_tree t2, t) \<and> ptree_ok t \<and>
           set_tree t = set_tree t2) \<and>
         PTreeEquiv t1 t2 = Some (set_tree t1 = set_tree t2)"
  by (intro conjI PTreeMerge_set [OF assms(1)] PTreeIntersection_set [OF assms(1)]
      PTreeDestrIntersection_set [OF assms(1,3,2)] PTreeIsSubset_set [OF assms(2)]
      PTreeEquiv_set [OF assms(1,2)])

theorem PTree_set_algebra_witness:
  "PTreeEquiv (Node Leaf 3 (Node Leaf 5 Leaf)) (Node (Node Leaf 3 Leaf) 5 Leaf) = Some True"
  using PTree_set_algebra [of "Node Leaf 3 (Node Leaf 5 Leaf)" "Node (Node Leaf 3 Leaf) 5 Leaf"]
  by (auto simp: ptree_ok_sorted NULL_def)

end
