(* ===== verification/NumTrees.thy ===== *)
theory NumTrees
  imports SplayTrees
begin

text \<open>
  Search trees with \<open>long\<close> keys (\<open>BASICS/clb_numtrees.c\<close>) and with string keys
  (\<open>BASICS/clb_stringtrees.c\<close>): splay trees whose cells carry two values. Numeric keys are
  compared by subtraction, which is an order only on keys whose differences do not overflow;
  \<open>num_ok\<close> asks that of the keys of a tree.
\<close>

record 'p NumTreeCell =
  nt_key :: int
  nt_val1 :: "'p IntOrP"
  nt_val2 :: "'p IntOrP"

type_synonym 'p numtree = "'p NumTreeCell tree"

definition num_splay_tree :: "'p numtree \<Rightarrow> int \<Rightarrow> 'p numtree" where
  "num_splay_tree tree key = splay long_diff nt_key tree key"

definition NumTreeInsert ::
  "'p numtree \<Rightarrow> 'p NumTreeCell \<Rightarrow> 'p NumTreeCell option \<times> 'p numtree" where
  "NumTreeInsert root newnode = tree_insert long_diff nt_key root newnode"

definition NumTreeStore ::
  "'p numtree \<Rightarrow> int \<Rightarrow> 'p IntOrP \<Rightarrow> 'p IntOrP \<Rightarrow> bool \<times> 'p numtree" where
  "NumTreeStore root key val1 val2 =
     (let handle = \<lparr>nt_key = key, nt_val1 = val1, nt_val2 = val2\<rparr>;
          (newnode, root') = NumTreeInsert root handle in
      if newnode \<noteq> None then (False, root') else (True, root'))"

definition NumTreeFind :: "'p numtree \<Rightarrow> int \<Rightarrow> 'p NumTreeCell option \<times> 'p numtree" where
  "NumTreeFind root key = tree_find long_diff nt_key root key"

definition NumTreeExtractEntry ::
  "'p numtree \<Rightarrow> int \<Rightarrow> 'p NumTreeCell option \<times> 'p numtree" where
  "NumTreeExtractEntry root key = tree_extract long_diff nt_key root key"

definition NumTreeExtractRoot :: "'p numtree \<Rightarrow> 'p NumTreeCell option \<times> 'p numtree" where
  "NumTreeExtractRoot root =
     (case root of Leaf \<Rightarrow> (None, root) | Node l c r \<Rightarrow> NumTreeExtractEntry root (nt_key c))"

definition NumTreeDeleteEntry :: "'p numtree \<Rightarrow> int \<Rightarrow> bool \<times> 'p numtree" where
  "NumTreeDeleteEntry root key =
     (let (cell, root') = NumTreeExtractEntry root key in
      if cell \<noteq> None then (True, root') else (False, root'))"

definition NumTreeNodes :: "'p numtree \<Rightarrow> nat option" where
  "NumTreeNodes root = tree_nodes root"

fun NumTreeMaxNode :: "'p numtree \<Rightarrow> 'p NumTreeCell option" where
  "NumTreeMaxNode Leaf = None"
| "NumTreeMaxNode (Node l c r) = (if r = Leaf then Some c else NumTreeMaxNode r)"

definition NumTreeTraverseInit :: "'p numtree \<Rightarrow> 'p numtree pstack option" where
  "NumTreeTraverseInit root = tree_traverse_init root"

definition NumTreeTraverseNext ::
  "'p numtree pstack \<Rightarrow> ('p NumTreeCell option \<times> 'p numtree pstack) option" where
  "NumTreeTraverseNext state = tree_traverse_next state"

fun limited_traverse_loop ::
  "'p numtree pstack \<Rightarrow> 'p numtree \<Rightarrow> int \<Rightarrow> 'p numtree pstack option" where
  "limited_traverse_loop stack Leaf limit = Some stack"
| "limited_traverse_loop stack (Node l c r) limit =
     (if nt_key c < limit then limited_traverse_loop stack r limit
      else do { stack' \<leftarrow> push stack (Node l c r);
                if nt_key c = limit then Some stack'
                else limited_traverse_loop stack' l limit })"

definition NumTreeLimitedTraverseInit :: "'p numtree \<Rightarrow> int \<Rightarrow> 'p numtree pstack option" where
  "NumTreeLimitedTraverseInit root limit = limited_traverse_loop PStackAlloc root limit"

section \<open>String trees\<close>

record 'p StrTreeCell =
  str_key :: string
  str_val1 :: "'p IntOrP"
  str_val2 :: "'p IntOrP"

type_synonym 'p strtree = "'p StrTreeCell tree"

definition str_splay_tree :: "'p strtree \<Rightarrow> string \<Rightarrow> 'p strtree" where
  "str_splay_tree tree key = splay strcmp str_key tree key"

definition StrTreeInsert ::
  "'p strtree \<Rightarrow> 'p StrTreeCell \<Rightarrow> 'p StrTreeCell option \<times> 'p strtree" where
  "StrTreeInsert root newnode = tree_insert strcmp str_key root newnode"

text \<open>The stored cell, or \<open>NULL\<close> when the key was there already.\<close>

definition StrTreeStore ::
  "'p strtree \<Rightarrow> string \<Rightarrow> 'p IntOrP \<Rightarrow> 'p IntOrP \<Rightarrow> 'p StrTreeCell option \<times> 'p strtree" where
  "StrTreeStore root key val1 val2 =
     (let handle = \<lparr>str_key = key, str_val1 = val1, str_val2 = val2\<rparr>;
          (old, root') = StrTreeInsert root handle in
      if old \<noteq> None then (None, root') else (Some handle, root'))"

definition StrTreeFind :: "'p strtree \<Rightarrow> string \<Rightarrow> 'p StrTreeCell option \<times> 'p strtree" where
  "StrTreeFind root key = tree_find strcmp str_key root key"

definition StrTreeExtractEntry ::
  "'p strtree \<Rightarrow> string \<Rightarrow> 'p StrTreeCell option \<times> 'p strtree" where
  "StrTreeExtractEntry root key = tree_extract strcmp str_key root key"

definition StrTreeDeleteEntry :: "'p strtree \<Rightarrow> string \<Rightarrow> bool \<times> 'p strtree" where
  "StrTreeDeleteEntry root key =
     (let (cell, root') = StrTreeExtractEntry root key in
      if cell \<noteq> None then (True, root') else (False, root'))"

section \<open>The operations as map operations\<close>

definition num_ok :: "'p numtree \<Rightarrow> bool" where
  "num_ok t \<longleftrightarrow> tree_ok long_diff nt_key small_keys t"

definition num_map :: "'p numtree \<Rightarrow> int \<Rightarrow> 'p NumTreeCell option" where
  "num_map t = tree_map nt_key t"

lemma num_ok_Leaf [simp]: "num_ok Leaf"
  by (simp add: num_ok_def)

lemma num_map_Leaf [simp]: "num_map Leaf = Map.empty"
  by (simp add: num_map_def)

lemma num_map_key: "num_map t k = Some c \<Longrightarrow> nt_key c = k"
  unfolding num_map_def tree_map_def by (auto dest!: map_of_SomeD)

lemma dom_num_map: "dom (num_map t) = nt_key ` set_tree t"
  by (simp add: num_map_def dom_tree_map)

lemma num_ok_sorted:
  "num_ok t \<longleftrightarrow> nt_key ` set_tree t \<subseteq> small_keys \<and> sorted_wrt (<) (map nt_key (inorder t))"
proof -
  have "nt_key ` set xs \<subseteq> small_keys \<Longrightarrow>
      sorted_wrt (\<lambda>x y. long_diff (nt_key x) (nt_key y) < 0) xs =
      sorted_wrt (<) (map nt_key xs)" for xs :: "'b NumTreeCell list"
    by (induction xs) (simp_all add: image_subset_iff long_diff_small)
  from this [of "inorder t"] show ?thesis by (auto simp: num_ok_def tree_ok_def)
qed

lemma num_ok_Node:
  "num_ok (Node l c r) \<longleftrightarrow> nt_key c \<in> small_keys \<and> num_ok l \<and> num_ok r \<and>
     (\<forall>x \<in> set_tree l. nt_key x < nt_key c) \<and> (\<forall>x \<in> set_tree r. nt_key c < nt_key x)"
  by (auto simp: num_ok_sorted sorted_wrt_append ball_Un image_subset_iff) (meson less_trans)

lemma NumTreeInsert_map:
  assumes "num_ok t" and "nt_key n \<in> small_keys"
  obtains t' where "NumTreeInsert t n = (num_map t (nt_key n), t')" "num_ok t'"
    "num_map t' = (case num_map t (nt_key n) of
        None \<Rightarrow> (num_map t)(nt_key n \<mapsto> n) | Some c \<Rightarrow> num_map t)"
  using long_keys.tree_insert_ok [of nt_key t n] assms that
  unfolding num_ok_def num_map_def NumTreeInsert_def by blast

lemma NumTreeStore_map:
  assumes "num_ok t" and "k \<in> small_keys"
  obtains t' where "NumTreeStore t k v1 v2 = (num_map t k = None, t')" "num_ok t'"
    "num_map t' = (if num_map t k = None
        then (num_map t)(k \<mapsto> \<lparr>nt_key = k, nt_val1 = v1, nt_val2 = v2\<rparr>) else num_map t)"
proof -
  let ?n = "\<lparr>nt_key = k, nt_val1 = v1, nt_val2 = v2\<rparr>"
  obtain t' where "NumTreeInsert t ?n = (num_map t k, t')" "num_ok t'"
    "num_map t' = (case num_map t k of None \<Rightarrow> (num_map t)(k \<mapsto> ?n) | Some c \<Rightarrow> num_map t)"
    using NumTreeInsert_map [OF assms(1), of ?n] assms(2)
    by (metis NumTreeCell.select_convs(1))
  then show ?thesis
    by (intro that [of t']) (auto simp: NumTreeStore_def split: option.splits)
qed

lemma NumTreeFind_map:
  assumes "num_ok t" and "k \<in> small_keys"
  obtains t' where "NumTreeFind t k = (num_map t k, t')" "num_ok t'" "num_map t' = num_map t"
    "set_tree t' = set_tree t"
  using long_keys.tree_find_ok [of nt_key t k] assms
  by (auto simp: num_ok_def num_map_def NumTreeFind_def) (metis set_inorder)

lemma NumTreeExtractEntry_map:
  assumes "num_ok t" and "k \<in> small_keys"
  obtains t' where "NumTreeExtractEntry t k = (num_map t k, t')" "num_ok t'"
    "num_map t' = (num_map t)(k := None)"
  using long_keys.tree_extract_ok [of nt_key t k] assms
  by (auto simp: num_ok_def num_map_def NumTreeExtractEntry_def)

lemma NumTreeDeleteEntry_map:
  assumes "num_ok t" and "k \<in> small_keys"
  obtains t' where "NumTreeDeleteEntry t k = (num_map t k \<noteq> None, t')" "num_ok t'"
    "num_map t' = (num_map t)(k := None)"
proof -
  obtain t' where "NumTreeExtractEntry t k = (num_map t k, t')" "num_ok t'"
    "num_map t' = (num_map t)(k := None)"
    using NumTreeExtractEntry_map [OF assms] by blast
  then show ?thesis by (intro that [of t']) (auto simp: NumTreeDeleteEntry_def)
qed

lemma NumTreeMaxNode_last:
  "NumTreeMaxNode t = (if t = Leaf then None else Some (last (inorder t)))"
  by (induction t) auto

lemma limited_traverse_ok:
  "trav_ok st \<Longrightarrow> num_ok t \<Longrightarrow>
   \<exists>st'. limited_traverse_loop st t limit = Some st' \<and> trav_ok st' \<and>
     trav_items st' = filter (\<lambda>c. limit \<le> nt_key c) (inorder t) @ trav_items st"
proof (induction st t limit rule: limited_traverse_loop.induct)
  case (2 st l c r limit)
  have ok: "num_ok l" "num_ok r" "\<And>x. x \<in> set_tree l \<Longrightarrow> nt_key x < nt_key c"
    "\<And>x. x \<in> set_tree r \<Longrightarrow> nt_key c < nt_key x"
    using 2(4) by (auto simp: num_ok_Node)
  obtain s where s: "push st (Node l c r) = Some s" "pstack_ok s"
    "pstack_list s = pstack_list st @ [Node l c r]"
    using push_ok [of st "Node l c r"] 2(3) by (auto simp: trav_ok_def)
  then have s': "trav_ok s" "trav_items s = (c # inorder r) @ trav_items st"
    using 2(3) by (auto simp: trav_ok_def trav_items_def)
  consider "nt_key c < limit" | "nt_key c = limit" | "limit < nt_key c" by linarith
  then show ?case
  proof cases
    case 1
    then have "filter (\<lambda>c. limit \<le> nt_key c) (inorder l) = []"
      using ok(3) by (force simp: filter_empty_conv)
    then show ?thesis using 2(1) [OF 1 2(3) ok(2)] 1 by simp
  next
    case 2
    then have "filter (\<lambda>c. limit \<le> nt_key c) (inorder l) = []"
      "filter (\<lambda>c. limit \<le> nt_key c) (inorder r) = inorder r"
      using ok(3,4) by (force simp: filter_empty_conv filter_id_conv)+
    then show ?thesis using 2 s(1) s' by simp
  next
    case 3
    then have r: "filter (\<lambda>c. limit \<le> nt_key c) (inorder r) = inorder r"
      using ok(4) by (force simp: filter_id_conv)
    show ?thesis using 2(2) [OF _ s(1) _ s'(1) ok(1)] 3 s(1) s'(2) r by auto
  qed
qed simp

lemma NumTreeLimitedTraverseInit_ok:
  "num_ok t \<Longrightarrow> \<exists>st. NumTreeLimitedTraverseInit t limit = Some st \<and> trav_ok st \<and>
     trav_items st = filter (\<lambda>c. limit \<le> nt_key c) (inorder t)"
  using limited_traverse_ok [of PStackAlloc t limit]
  by (simp add: NumTreeLimitedTraverseInit_def trav_ok_def trav_items_def)

definition str_ok :: "'p strtree \<Rightarrow> bool" where
  "str_ok t \<longleftrightarrow> tree_ok strcmp str_key UNIV t"

definition str_map :: "'p strtree \<Rightarrow> string \<Rightarrow> 'p StrTreeCell option" where
  "str_map t = tree_map str_key t"

lemma StrTreeStore_map:
  assumes "str_ok t"
  shows "\<exists>t'. StrTreeStore t k v1 v2 =
           (if str_map t k = None then Some \<lparr>str_key = k, str_val1 = v1, str_val2 = v2\<rparr> else None, t') \<and>
         str_ok t' \<and>
         str_map t' = (if str_map t k = None
           then (str_map t)(k \<mapsto> \<lparr>str_key = k, str_val1 = v1, str_val2 = v2\<rparr>) else str_map t)"
  using str_keys.tree_insert_ok [of str_key t "\<lparr>str_key = k, str_val1 = v1, str_val2 = v2\<rparr>"] assms
  by (auto simp: str_ok_def str_map_def StrTreeInsert_def StrTreeStore_def)

lemma StrTreeFind_map:
  assumes "str_ok t"
  shows "\<exists>t'. StrTreeFind t k = (str_map t k, t') \<and> str_ok t' \<and> str_map t' = str_map t"
  using str_keys.tree_find_ok [of str_key t k] assms
  by (auto simp: str_ok_def str_map_def StrTreeFind_def)

lemma StrTreeDeleteEntry_map:
  assumes "str_ok t"
  shows "\<exists>t'. StrTreeDeleteEntry t k = (str_map t k \<noteq> None, t') \<and> str_ok t' \<and>
           str_map t' = (str_map t)(k := None)"
  using str_keys.tree_extract_ok [of str_key t k] assms
  by (auto simp: str_ok_def str_map_def StrTreeExtractEntry_def StrTreeDeleteEntry_def)

section \<open>Properties\<close>

text \<open>A numeric tree is a finite map: storing adds a pair only if the key is new, searching
  returns the cell of the key, deleting removes it, and each keeps the search-tree invariant, as
  long as keys are far enough from the ends of the \<open>long\<close> range for their difference not to wrap.\<close>

theorem NumTree_map_operations:
  assumes "num_ok t" and "k \<in> small_keys"
  shows "(\<exists>t'. NumTreeStore t k v1 v2 = (num_map t k = None, t') \<and> num_ok t' \<and>
           num_map t' = (if num_map t k = None
             then (num_map t)(k \<mapsto> \<lparr>nt_key = k, nt_val1 = v1, nt_val2 = v2\<rparr>) else num_map t)) \<and>
         (\<exists>t'. NumTreeFind t k = (num_map t k, t') \<and> num_ok t' \<and> num_map t' = num_map t) \<and>
         (\<exists>t'. NumTreeDeleteEntry t k = (num_map t k \<noteq> None, t') \<and> num_ok t' \<and>
           num_map t' = (num_map t)(k := None))"
proof (intro conjI)
  show "\<exists>t'. NumTreeStore t k v1 v2 = (num_map t k = None, t') \<and> num_ok t' \<and>
          num_map t' = (if num_map t k = None
             then (num_map t)(k \<mapsto> \<lparr>nt_key = k, nt_val1 = v1, nt_val2 = v2\<rparr>) else num_map t)"
    by (rule NumTreeStore_map [OF assms, of v1 v2]) blast
  show "\<exists>t'. NumTreeFind t k = (num_map t k, t') \<and> num_ok t' \<and> num_map t' = num_map t"
    by (rule NumTreeFind_map [OF assms]) blast
  show "\<exists>t'. NumTreeDeleteEntry t k = (num_map t k \<noteq> None, t') \<and> num_ok t' \<and>
          num_map t' = (num_map t)(k := None)"
    by (rule NumTreeDeleteEntry_map [OF assms]) blast
qed

theorem NumTree_map_operations_witness:
  "\<exists>t'. NumTreeStore (Leaf :: nat numtree) 7 (i_val 1) (i_val 2) = (True, t') \<and>
     num_map t' 7 = Some \<lparr>nt_key = 7, nt_val1 = i_val 1, nt_val2 = i_val 2\<rparr>"
  using NumTree_map_operations [of "Leaf :: nat numtree" 7 "i_val 1" "i_val 2"]
  by (auto simp: small_keys_def)

text \<open>String trees are finite maps over all strings.\<close>

theorem StrTree_map_operations:
  assumes "str_ok t"
  shows "(\<exists>t'. StrTreeStore t k v1 v2 =
           (if str_map t k = None then Some \<lparr>str_key = k, str_val1 = v1, str_val2 = v2\<rparr> else None, t') \<and>
         str_ok t' \<and>
         str_map t' = (if str_map t k = None
           then (str_map t)(k \<mapsto> \<lparr>str_key = k, str_val1 = v1, str_val2 = v2\<rparr>) else str_map t)) \<and>
         (\<exists>t'. StrTreeFind t k = (str_map t k, t') \<and> str_ok t' \<and> str_map t' = str_map t) \<and>
         (\<exists>t'. StrTreeDeleteEntry t k = (str_map t k \<noteq> None, t') \<and> str_ok t' \<and>
           str_map t' = (str_map t)(k := None))"
  by (intro conjI StrTreeStore_map [OF assms] StrTreeFind_map [OF assms] StrTreeDeleteEntry_map [OF assms])

theorem StrTree_map_operations_witness:
  "\<exists>t'. StrTreeFind (Node Leaf \<lparr>str_key = ''a'', str_val1 = i_val 1, str_val2 = i_val 2\<rparr> Leaf :: nat strtree)
     ''a'' = (Some \<lparr>str_key = ''a'', str_val1 = i_val 1, str_val2 = i_val 2\<rparr>, t')"
  using StrTree_map_operations
    [of "Node Leaf \<lparr>str_key = ''a'', str_val1 = i_val 1, str_val2 = i_val 2\<rparr> Leaf :: nat strtree" "''a''"]
  by (auto simp: str_ok_def tree_ok_def str_map_def tree_map_def)

end
