(* ===== verification/PDRangeArrs.thy ===== *)
theory PDRangeArrs
  imports Prelude
begin

text \<open>
  Dynamic arrays over an index range (\<open>BASICS/clb_pdrangearrays.c\<close> and \<open>.h\<close>): the array
  covers the indices from \<open>offset\<close> on, and every access to another index enlarges it, up or
  down. New cells are 0 or \<open>NULL\<close>. \<open>pd_at\<close> is the value at an index of the unbounded
  array that a dynamic array stands for; growing never changes it. Indices and sizes are \<open>long\<close> in
  the code and unbounded here: they agree as long as the indices the array covers, with those it
  grows to, are fewer than \<open>2^63\<close>. An array with more cells cannot be allocated, and allocation is
  taken never to fail; an access at an index so far away that the size itself overflows (such as
  \<open>LONG_MIN\<close> in an array that covers 0) is outside the model.
\<close>

section \<open>The data structure\<close>

text \<open>A pointer that may be \<open>NULL\<close> is an option.\<close>

type_synonym 'v ptr = "'v option"

record 'v PDRangeArr =
  pd_integer :: bool
  pd_offset :: int
  pd_size :: int
  pd_grow :: int
  pd_array :: "'v ptr IntOrP mem"

text \<open>Reading the other member of the union is not defined.\<close>

fun as_ptr :: "'v ptr IntOrP \<Rightarrow> 'v ptr option" where
  "as_ptr (p_val p) = Some p"
| "as_ptr (i_val i) = None"

fun as_int :: "'v ptr IntOrP \<Rightarrow> int option" where
  "as_int (p_val p) = None"
| "as_int (i_val i) = Some i"

text \<open>The loop of \<open>range_arr_size\<close> for arrays that grow by doubling.\<close>

partial_function (option) range_arr_double :: "int \<Rightarrow> int \<Rightarrow> int option" where [code]:
  "range_arr_double minsize sz =
     (if sz \<le> minsize then range_arr_double minsize (sz * 2) else Some sz)"

definition range_arr_size :: "int \<Rightarrow> int \<Rightarrow> int \<Rightarrow> int option" where
  "range_arr_size minsize sz grow =
     (if grow \<noteq> 0 then Some ((minsize div grow + 1) * grow)
      else range_arr_double minsize sz)"

definition pd_null :: "'v PDRangeArr \<Rightarrow> 'v ptr IntOrP" where
  "pd_null a = (if pd_integer a then i_val 0 else p_val None)"

definition mem_fill :: "'a mem \<Rightarrow> nat \<Rightarrow> nat \<Rightarrow> 'a \<Rightarrow> 'a mem option" where
  "mem_fill m a b x = foldM (\<lambda>m i. mem_set m i x) m [a..<b]"

definition range_arr_expand_down :: "'v PDRangeArr \<Rightarrow> int \<Rightarrow> 'v PDRangeArr option" where
  "range_arr_expand_down a idx =
     do { c_assert (idx < pd_offset a + pd_size a);
          let old_size = pd_size a;
          let old_offset = pd_offset a;
          let tmp = pd_array a;
          new_size \<leftarrow> range_arr_size (old_offset - idx + old_size) old_size (pd_grow a);
          let new_offset = old_offset - (new_size - old_size);
          let m = mem_alloc (nat new_size);
          m \<leftarrow> mem_fill m 0 (nat (old_offset - new_offset)) (pd_null a);
          m \<leftarrow> foldM (\<lambda>m i. mem_move m (i + nat (old_offset - new_offset)) tmp i) m [0..<nat old_size];
          Some (a\<lparr>pd_size := new_size, pd_offset := new_offset, pd_array := m\<rparr>) }"

definition range_arr_expand_up :: "'v PDRangeArr \<Rightarrow> int \<Rightarrow> 'v PDRangeArr option" where
  "range_arr_expand_up a idx =
     do { c_assert (idx \<ge> pd_offset a + pd_size a);
          let old_size = pd_size a;
          let old_offset = pd_offset a;
          let tmp = pd_array a;
          new_size \<leftarrow> range_arr_size (idx - old_offset + 1) old_size (pd_grow a);
          let m = mem_alloc (nat new_size);
          m \<leftarrow> foldM (\<lambda>m i. mem_move m (i + 0) tmp i) m [0..<nat old_size];
          m \<leftarrow> mem_fill m (nat old_size) (nat new_size) (pd_null a);
          Some (a\<lparr>pd_size := new_size, pd_array := m\<rparr>) }"

definition range_arr_alloc :: "bool \<Rightarrow> 'v ptr IntOrP \<Rightarrow> int \<Rightarrow> int \<Rightarrow> 'v PDRangeArr option" where
  "range_arr_alloc integer null idx grow =
     do { c_assert (grow \<ge> 0);
          let sz = (if grow \<noteq> 0 then grow else 1);
          m \<leftarrow> mem_fill (mem_alloc (nat sz)) 0 (nat sz) null;
          Some \<lparr>pd_integer = integer, pd_offset = idx, pd_size = sz, pd_grow = grow,
                pd_array = m\<rparr> }"

definition PDRangeArrAlloc :: "int \<Rightarrow> int \<Rightarrow> 'v PDRangeArr option" where
  "PDRangeArrAlloc idx grow = range_arr_alloc False (p_val None) idx grow"

definition PDIntRangeArrAlloc :: "int \<Rightarrow> int \<Rightarrow> 'v PDRangeArr option" where
  "PDIntRangeArrAlloc idx grow = range_arr_alloc True (i_val 0) idx grow"

definition PDRangeArrLowKey :: "'v PDRangeArr \<Rightarrow> int" where
  "PDRangeArrLowKey a = pd_offset a"

definition PDRangeArrLimitKey :: "'v PDRangeArr \<Rightarrow> int" where
  "PDRangeArrLimitKey a = pd_offset a + pd_size a"

definition PDRangeArrIndexIsCovered :: "'v PDRangeArr \<Rightarrow> int \<Rightarrow> bool" where
  "PDRangeArrIndexIsCovered a idx \<longleftrightarrow> idx \<ge> PDRangeArrLowKey a \<and> idx < PDRangeArrLimitKey a"

definition PDRangeArrEnlarge :: "'v PDRangeArr \<Rightarrow> int \<Rightarrow> 'v PDRangeArr option" where
  "PDRangeArrEnlarge a idx =
     do { a \<leftarrow> (if idx < pd_offset a then range_arr_expand_down a idx
               else range_arr_expand_up a idx);
          c_assert (idx \<ge> pd_offset a);
          c_assert (idx < pd_offset a + pd_size a);
          Some a }"

text \<open>A reference into the array is the position of its cell.\<close>

definition PDRangeArrElementRef :: "'v PDRangeArr \<Rightarrow> int \<Rightarrow> ('v PDRangeArr \<times> nat) option" where
  "PDRangeArrElementRef a idx =
     do { a \<leftarrow> (if \<not> PDRangeArrIndexIsCovered a idx then PDRangeArrEnlarge a idx else Some a);
          c_assert (PDRangeArrIndexIsCovered a idx);
          c_assert (idx \<ge> pd_offset a);
          c_assert (idx - pd_offset a < pd_size a);
          Some (a, nat (idx - pd_offset a)) }"

definition PDRangeArrElement :: "'v PDRangeArr \<Rightarrow> int \<Rightarrow> ('v PDRangeArr \<times> 'v ptr IntOrP) option" where
  "PDRangeArrElement a idx =
     do { (a, ref) \<leftarrow> PDRangeArrElementRef a idx; x \<leftarrow> mem_get (pd_array a) ref; Some (a, x) }"

definition PDRangeArrElementP :: "'v PDRangeArr \<Rightarrow> int \<Rightarrow> ('v PDRangeArr \<times> 'v ptr) option" where
  "PDRangeArrElementP a idx =
     do { (a, x) \<leftarrow> PDRangeArrElement a idx; p \<leftarrow> as_ptr x; Some (a, p) }"

definition PDRangeArrAssign :: "'v PDRangeArr \<Rightarrow> int \<Rightarrow> 'v ptr IntOrP \<Rightarrow> 'v PDRangeArr option" where
  "PDRangeArrAssign a idx value =
     do { (a, ref) \<leftarrow> PDRangeArrElementRef a idx;
          m \<leftarrow> mem_set (pd_array a) ref value;
          Some (a\<lparr>pd_array := m\<rparr>) }"

definition PDRangeArrAssignP :: "'v PDRangeArr \<Rightarrow> int \<Rightarrow> 'v ptr \<Rightarrow> 'v PDRangeArr option" where
  "PDRangeArrAssignP a idx value = PDRangeArrAssign a idx (p_val value)"

definition PDRangeArrAssignInt :: "'v PDRangeArr \<Rightarrow> int \<Rightarrow> int \<Rightarrow> 'v PDRangeArr option" where
  "PDRangeArrAssignInt a idx value = PDRangeArrAssign a idx (i_val value)"

definition PDRangeArrCopy :: "'v PDRangeArr \<Rightarrow> 'v PDRangeArr" where
  "PDRangeArrCopy a =
     a\<lparr>pd_array := mem_copy (mem_alloc (nat (pd_size a))) (pd_array a) (nat (pd_size a))\<rparr>"

definition PDRangeArrElementDeleteP :: "'v PDRangeArr \<Rightarrow> int \<Rightarrow> 'v PDRangeArr option" where
  "PDRangeArrElementDeleteP a idx =
     (if PDRangeArrIndexIsCovered a idx then PDRangeArrAssignP a idx None else Some a)"

definition PDRangeArrElementDeleteInt :: "'v PDRangeArr \<Rightarrow> int \<Rightarrow> 'v PDRangeArr option" where
  "PDRangeArrElementDeleteInt a idx =
     (if PDRangeArrIndexIsCovered a idx then PDRangeArrAssignInt a idx 0 else Some a)"

definition PDRangeArrMembers :: "'v PDRangeArr \<Rightarrow> ('v PDRangeArr \<times> nat) option" where
  "PDRangeArrMembers a =
     foldM (\<lambda>(a, res) i. do { (a, p) \<leftarrow> PDRangeArrElementP a i;
                             Some (a, if p \<noteq> None then res + 1 else res) })
       (a, 0) [PDRangeArrLowKey a..PDRangeArrLimitKey a - 1]"

definition PDRangeArrElementIncInt :: "'v PDRangeArr \<Rightarrow> int \<Rightarrow> int \<Rightarrow> ('v PDRangeArr \<times> int) option" where
  "PDRangeArrElementIncInt a idx value =
     do { (a, ref) \<leftarrow> PDRangeArrElementRef a idx;
          x \<leftarrow> mem_get (pd_array a) ref;
          i \<leftarrow> as_int x;
          m \<leftarrow> mem_set (pd_array a) ref (i_val (i + value));
          Some (a\<lparr>pd_array := m\<rparr>, i + value) }"

section \<open>The unbounded array\<close>

definition pd_at :: "'v PDRangeArr \<Rightarrow> int \<Rightarrow> 'v ptr IntOrP" where
  "pd_at a k = (if PDRangeArrIndexIsCovered a k then the (pd_array a ! nat (k - pd_offset a))
                else pd_null a)"

definition pd_ok :: "'v PDRangeArr \<Rightarrow> bool" where
  "pd_ok a \<longleftrightarrow> 0 < pd_size a \<and> 0 \<le> pd_grow a \<and> length (pd_array a) = nat (pd_size a) \<and>
     (\<forall>i < nat (pd_size a). pd_array a ! i \<noteq> None)"

lemmas pd_key_defs = PDRangeArrIndexIsCovered_def PDRangeArrLowKey_def PDRangeArrLimitKey_def

lemma pd_ok_cell:
  "pd_ok a \<Longrightarrow> PDRangeArrIndexIsCovered a k \<Longrightarrow>
   nat (k - pd_offset a) < length (pd_array a) \<and>
   pd_array a ! nat (k - pd_offset a) = Some (pd_at a k)"
  by (auto simp: pd_ok_def pd_at_def pd_key_defs)

lemma range_arr_double_ok:
  "0 < sz \<Longrightarrow> \<exists>n. range_arr_double minsize sz = Some n \<and> minsize < n \<and> sz \<le> n"
proof (induction "nat (minsize + 1 - sz)" arbitrary: sz rule: less_induct)
  case less
  show ?case
  proof (cases "sz \<le> minsize")
    case True
    then show ?thesis
      using less.hyps [of "sz * 2"] less.prems by (auto simp: range_arr_double.simps [of minsize sz])
  next
    case False
    then show ?thesis by (simp add: range_arr_double.simps [of minsize sz])
  qed
qed

lemma range_arr_size_ok:
  assumes "0 < sz" and "0 \<le> grow" and "sz \<le> minsize"
  shows "\<exists>n. range_arr_size minsize sz grow = Some n \<and> minsize < n"
proof (cases "grow = 0")
  case True
  then show ?thesis using range_arr_double_ok [OF assms(1), of minsize] by (auto simp: range_arr_size_def)
next
  case False
  then have "minsize < (minsize div grow + 1) * grow"
    using assms(2) minus_mod_eq_div_mult [of minsize grow] pos_mod_bound [of grow minsize]
    unfolding distrib_right by linarith
  then show ?thesis using False by (simp add: range_arr_size_def)
qed

lemma mem_fill_ok:
  "a \<le> b \<Longrightarrow> b \<le> length m \<Longrightarrow>
   \<exists>m'. mem_fill m a b x = Some m' \<and> length m' = length m \<and>
        (\<forall>j < length m. m' ! j = (if a \<le> j \<and> j < b then Some x else m ! j))"
proof (induction b)
  case (Suc b)
  show ?case
  proof (cases "a = Suc b")
    case False
    then obtain m' where "mem_fill m a b x = Some m'" "length m' = length m"
      "\<forall>j < length m. m' ! j = (if a \<le> j \<and> j < b then Some x else m ! j)"
      using Suc by auto
    then show ?thesis
      using Suc.prems False by (auto simp: mem_fill_def foldM_snoc mem_set_def nth_list_update)
  qed (auto simp: mem_fill_def)
qed (simp add: mem_fill_def)

lemma range_arr_expand_down_ok:
  assumes "pd_ok a" and "idx < pd_offset a"
  shows "\<exists>a'. range_arr_expand_down a idx = Some a' \<and> pd_ok a' \<and> PDRangeArrIndexIsCovered a' idx \<and>
           pd_at a' = pd_at a \<and> pd_integer a' = pd_integer a"
proof -
  let ?o = "pd_offset a" and ?s = "pd_size a"
  have s: "0 < ?s" "length (pd_array a) = nat ?s" using assms(1) by (auto simp: pd_ok_def)
  obtain n where n: "range_arr_size (?o - idx + ?s) ?s (pd_grow a) = Some n" "?o - idx + ?s < n"
    using range_arr_size_ok [of ?s "pd_grow a" "?o - idx + ?s"] assms by (auto simp: pd_ok_def)
  let ?d = "nat (n - ?s)"
  have d: "?d + nat ?s = nat n" "?s < n" using n(2) s assms(2) by (auto simp: nat_add_distrib [symmetric])
  obtain m1 where m1: "mem_fill (mem_alloc (nat n)) 0 ?d (pd_null a) = Some m1"
    "length m1 = nat n" "\<forall>j < nat n. j < ?d \<longrightarrow> m1 ! j = Some (pd_null a)"
    using mem_fill_ok [of 0 ?d "mem_alloc (nat n)" "pd_null a"] d by auto
  obtain m2 where m2: "foldM (\<lambda>m i. mem_move m (i + ?d) (pd_array a) i) m1 [0..<nat ?s] = Some m2"
    "length m2 = nat n" "\<forall>j < nat n. m2 ! j =
       (if ?d \<le> j \<and> j < nat ?s + ?d then pd_array a ! (j - ?d) else m1 ! j)"
    using mem_move_range [of 0 "nat ?s" "pd_array a" ?d m1] d s m1(2) by auto
  let ?a = "a\<lparr>pd_size := n, pd_offset := ?o - (n - ?s), pd_array := m2\<rparr>"
  have cell: "m2 ! j = Some (if j < ?d then pd_null a else the (pd_array a ! (j - ?d)))" if "j < nat n" for j
    using that m1(3) m2(3) d assms(1) by (auto simp: pd_ok_def)
  have "range_arr_expand_down a idx = Some ?a"
    using n(1) m1(1) m2(1) assms(2) s(1) by (simp add: range_arr_expand_down_def)
  moreover have "pd_ok ?a"
    using assms(1) m2(2) cell d(2) s(1) by (auto simp: pd_ok_def)
  moreover have "pd_at ?a k = pd_at a k" for k
  proof (cases "?o - (n - ?s) \<le> k \<and> k < ?o + ?s")
    case True
    then have j: "nat (k - (?o - (n - ?s))) < nat n" by auto
    show ?thesis
    proof (cases "k < ?o")
      case True
      then have "nat (k - (?o - (n - ?s))) < ?d" using d(2) by simp
      then show ?thesis using cell [OF j] True \<open>?o - (n - ?s) \<le> k \<and> k < ?o + ?s\<close>
        by (simp add: pd_at_def pd_key_defs)
    next
      case False
      then have "nat (k - (?o - (n - ?s))) - ?d = nat (k - ?o)" "\<not> nat (k - (?o - (n - ?s))) < ?d"
        using d(2) by simp_all
      then show ?thesis using cell [OF j] False \<open>?o - (n - ?s) \<le> k \<and> k < ?o + ?s\<close>
        by (simp add: pd_at_def pd_key_defs)
    qed
  next
    case False
    then show ?thesis using d(2) by (auto simp: pd_at_def pd_key_defs pd_null_def)
  qed
  ultimately show ?thesis
    using n(2) assms(2) s(1) by (auto simp: pd_key_defs)
qed

lemma range_arr_expand_up_ok:
  assumes "pd_ok a" and "pd_offset a + pd_size a \<le> idx"
  shows "\<exists>a'. range_arr_expand_up a idx = Some a' \<and> pd_ok a' \<and> PDRangeArrIndexIsCovered a' idx \<and>
           pd_at a' = pd_at a \<and> pd_integer a' = pd_integer a"
proof -
  let ?o = "pd_offset a" and ?s = "pd_size a"
  have s: "0 < ?s" "length (pd_array a) = nat ?s" using assms(1) by (auto simp: pd_ok_def)
  obtain n where n: "range_arr_size (idx - ?o + 1) ?s (pd_grow a) = Some n" "idx - ?o + 1 < n"
    using range_arr_size_ok [of ?s "pd_grow a" "idx - ?o + 1"] assms by (auto simp: pd_ok_def)
  have d: "?s < n" using n(2) assms(2) by simp
  obtain m1 where m1: "foldM (\<lambda>m i. mem_move m (i + 0) (pd_array a) i) (mem_alloc (nat n)) [0..<nat ?s] = Some m1"
    "length m1 = nat n" "\<forall>j < nat n. j < nat ?s \<longrightarrow> m1 ! j = pd_array a ! j"
  proof -
    have "nat ?s \<le> nat n" using d by simp
    then show ?thesis
      using mem_move_range [of 0 "nat ?s" "pd_array a" 0 "mem_alloc (nat n)"] s(2) that
      by (auto simp del: add_0_right)
  qed
  obtain m2 where m2: "mem_fill m1 (nat ?s) (nat n) (pd_null a) = Some m2" "length m2 = nat n"
    "\<forall>j < nat n. m2 ! j = (if nat ?s \<le> j then Some (pd_null a) else m1 ! j)"
  proof -
    have "nat ?s \<le> nat n" using d by simp
    then show ?thesis
      using mem_fill_ok [of "nat ?s" "nat n" m1 "pd_null a"] m1(2) that by auto
  qed
  let ?a = "a\<lparr>pd_size := n, pd_array := m2\<rparr>"
  have cell: "m2 ! j = Some (if j < nat ?s then the (pd_array a ! j) else pd_null a)" if "j < nat n" for j
    using that m1(3) m2(3) d assms(1) by (auto simp: pd_ok_def)
  have "range_arr_expand_up a idx = Some ?a"
    using n(1) m1(1) m2(1) assms(2) by (simp add: range_arr_expand_up_def)
  moreover have "pd_ok ?a"
    using assms(1) m2(2) cell d s(1) by (auto simp: pd_ok_def)
  moreover have "pd_at ?a k = pd_at a k" for k
  proof (cases "?o \<le> k \<and> k < ?o + n")
    case True
    then show ?thesis using cell [of "nat (k - ?o)"] d
      by (auto simp: pd_at_def pd_key_defs pd_null_def)
  next
    case False
    then show ?thesis using d by (auto simp: pd_at_def pd_key_defs pd_null_def)
  qed
  ultimately show ?thesis
    using n(2) assms(2) s(1) by (auto simp: pd_key_defs)
qed

lemma PDRangeArrElementRef_ok:
  assumes "pd_ok a"
  shows "\<exists>a'. PDRangeArrElementRef a idx = Some (a', nat (idx - pd_offset a')) \<and> pd_ok a' \<and>
           PDRangeArrIndexIsCovered a' idx \<and> pd_at a' = pd_at a \<and> pd_integer a' = pd_integer a"
proof (cases "PDRangeArrIndexIsCovered a idx")
  case True
  then show ?thesis using assms by (simp add: PDRangeArrElementRef_def pd_key_defs)
next
  case False
  obtain a' where a': "(if idx < pd_offset a then range_arr_expand_down a idx
      else range_arr_expand_up a idx) = Some a'" "pd_ok a'"
    "PDRangeArrIndexIsCovered a' idx" "pd_at a' = pd_at a" "pd_integer a' = pd_integer a"
  proof (cases "idx < pd_offset a")
    case True
    then show ?thesis using range_arr_expand_down_ok [OF assms True] that by auto
  next
    case False
    then show ?thesis
      using range_arr_expand_up_ok [OF assms, of idx] \<open>\<not> PDRangeArrIndexIsCovered a idx\<close> that
      by (auto simp: pd_key_defs)
  qed
  then have "PDRangeArrEnlarge a idx = Some a'"
    by (simp add: PDRangeArrEnlarge_def pd_key_defs)
  then show ?thesis using False a' by (simp add: PDRangeArrElementRef_def) (simp add: pd_key_defs)
qed

lemma PDRangeArrElementP_ok:
  assumes "pd_ok a" and "pd_at a idx = p_val p"
  shows "\<exists>a'. PDRangeArrElementP a idx = Some (a', p) \<and> pd_ok a' \<and> pd_at a' = pd_at a \<and>
           pd_integer a' = pd_integer a"
  using PDRangeArrElementRef_ok [OF assms(1), of idx] assms(2) pd_ok_cell
  by (fastforce simp: PDRangeArrElementP_def PDRangeArrElement_def mem_get_def)

lemma pd_cell_set:
  assumes "pd_ok a" and "PDRangeArrIndexIsCovered a idx"
  shows "mem_set (pd_array a) (nat (idx - pd_offset a)) x =
           Some ((pd_array a)[nat (idx - pd_offset a) := Some x])"
    and "pd_ok (a\<lparr>pd_array := (pd_array a)[nat (idx - pd_offset a) := Some x]\<rparr>)"
    and "pd_at (a\<lparr>pd_array := (pd_array a)[nat (idx - pd_offset a) := Some x]\<rparr>) = (pd_at a)(idx := x)"
proof -
  have i: "nat (idx - pd_offset a) < length (pd_array a)" using pd_ok_cell [OF assms] by simp
  then show "mem_set (pd_array a) (nat (idx - pd_offset a)) x =
           Some ((pd_array a)[nat (idx - pd_offset a) := Some x])" by (simp add: mem_set_def)
  show "pd_ok (a\<lparr>pd_array := (pd_array a)[nat (idx - pd_offset a) := Some x]\<rparr>)"
    using assms(1) i by (auto simp: pd_ok_def nth_list_update)
  show "pd_at (a\<lparr>pd_array := (pd_array a)[nat (idx - pd_offset a) := Some x]\<rparr>) = (pd_at a)(idx := x)"
    using assms i by (auto simp: pd_at_def pd_key_defs pd_null_def nth_list_update fun_eq_iff nat_eq_iff2)
qed

lemma PDRangeArrAssign_ok:
  assumes "pd_ok a"
  shows "\<exists>a'. PDRangeArrAssign a idx x = Some a' \<and> pd_ok a' \<and> pd_at a' = (pd_at a)(idx := x) \<and>
           pd_integer a' = pd_integer a \<and> PDRangeArrIndexIsCovered a' idx"
proof -
  obtain b where b: "PDRangeArrElementRef a idx = Some (b, nat (idx - pd_offset b))" "pd_ok b"
    "PDRangeArrIndexIsCovered b idx" "pd_at b = pd_at a" "pd_integer b = pd_integer a"
    using PDRangeArrElementRef_ok [OF assms] by blast
  then show ?thesis using pd_cell_set [OF b(2,3), of x]
    by (auto simp: PDRangeArrAssign_def pd_key_defs)
qed

lemma range_arr_alloc_ok:
  assumes "0 \<le> grow"
  shows "\<exists>a :: 'v PDRangeArr. range_arr_alloc b (if b then i_val 0 else p_val None) idx grow = Some a \<and> pd_ok a \<and>
           pd_at a = (\<lambda>k. if b then i_val 0 else p_val None) \<and> pd_integer a = b \<and> pd_offset a = idx"
proof -
  let ?sz = "if grow \<noteq> 0 then grow else 1" and ?n = "(if b then i_val 0 else p_val None) :: 'v ptr IntOrP"
  obtain m where m: "mem_fill (mem_alloc (nat ?sz)) 0 (nat ?sz) ?n = Some m" "length m = nat ?sz"
    "\<forall>j < nat ?sz. m ! j = Some ?n"
    using mem_fill_ok [of 0 "nat ?sz" "mem_alloc (nat ?sz)" ?n] by auto
  let ?a = "\<lparr>pd_integer = b, pd_offset = idx, pd_size = ?sz, pd_grow = grow, pd_array = m\<rparr>"
  have "range_arr_alloc b ?n idx grow = Some ?a"
    using m(1) assms by (simp add: range_arr_alloc_def Let_def)
  moreover have "pd_ok ?a" using m(2,3) assms by (simp add: pd_ok_def)
  moreover have "pd_at ?a = (\<lambda>k. ?n)"
  proof
    fix k show "pd_at ?a k = ?n"
  proof (cases "PDRangeArrIndexIsCovered ?a k")
    case True
    then have "nat (k - idx) < nat ?sz" by (simp add: pd_key_defs split: if_splits)
    then show ?thesis using m(3) True by (simp add: pd_at_def)
  next
    case False
    then show ?thesis by (simp add: pd_at_def pd_null_def)
  qed
  qed
  moreover have "pd_integer ?a = b" "pd_offset ?a = idx" by simp_all
  ultimately show ?thesis by blast
qed

lemma PDRangeArrAlloc_ok:
  assumes "0 \<le> grow"
  shows "\<exists>a. PDRangeArrAlloc idx grow = Some a \<and> pd_ok a \<and> pd_at a = (\<lambda>k. p_val None) \<and>
           \<not> pd_integer a \<and> pd_offset a = idx"
  using range_arr_alloc_ok [OF assms, of False idx] by (auto simp: PDRangeArrAlloc_def)

end
