(* ===== verification/IntMap.thy ===== *)
theory IntMap
  imports NumTrees PDRangeArrs
begin

text \<open>
  Maps from integers to pointers (\<open>BASICS/clb_intmap.c\<close> and \<open>.h\<close>). A map is empty, holds a
  single pair, is a dynamic array or a splay tree, and changes its representation with the
  density of its keys. The type tag and the union of the C structure are one datatype. A key
  that is associated with \<open>NULL\<close> is the same as a key that is not associated at all.

  \<open>im_map\<close> is the map a structure stands for, \<open>im_ok\<close> its invariant; the lemmas show that
  no change of representation changes the map, that \<open>IntMapGetRef\<close> ends, and that the
  iterator meets the pairs of a key range in ascending order.
\<close>

section \<open>The data structure\<close>

datatype 'v IntMapVal =
    IMEmpty | IMSingle "'v ptr" | IMArray "'v PDRangeArr" | IMTree "'v ptr numtree"

record 'v IntMap =
  im_values :: "'v IntMapVal"
  im_entry_no :: int
  im_min_key :: int
  im_max_key :: int

definition MAX_TREE_DENSITY :: int where
  "MAX_TREE_DENSITY = 8"

definition MIN_TREE_DENSITY :: int where
  "MIN_TREE_DENSITY = 4"

definition IM_ARRAY_SIZE :: int where
  "IM_ARRAY_SIZE = MAX_TREE_DENSITY"

definition switch_to_array :: "int \<Rightarrow> int \<Rightarrow> int \<Rightarrow> int \<Rightarrow> bool" where
  "switch_to_array old_min old_max new_key entries =
     (let max_key = max old_max new_key; min_key = min old_min new_key in
      entries * MIN_TREE_DENSITY > long_diff max_key min_key)"

definition switch_to_tree :: "int \<Rightarrow> int \<Rightarrow> int \<Rightarrow> int \<Rightarrow> bool" where
  "switch_to_tree old_min old_max new_key entries =
     (let max_key = max old_max new_key; min_key = min old_min new_key in
      entries * MAX_TREE_DENSITY < long_diff max_key min_key)"

text \<open>
  The new cell is the root of the tree when the function returns. Its second value is never
  set and never read; the model puts \<open>NULL\<close> there.
\<close>

definition add_new_tree_node :: "'v IntMap \<Rightarrow> int \<Rightarrow> 'v ptr \<Rightarrow> 'v IntMap option" where
  "add_new_tree_node imap key val =
     (case im_values imap of
        IMTree t \<Rightarrow>
          (let handle = \<lparr>nt_key = key, nt_val1 = p_val val, nt_val2 = p_val None\<rparr>;
               (check, t) = NumTreeInsert t handle in
           do { c_assert (check = None);
                Some (imap\<lparr>im_values := IMTree t, im_entry_no := im_entry_no imap + 1\<rparr>) })
      | _ \<Rightarrow> None)"

definition array_to_tree :: "'v IntMap \<Rightarrow> 'v IntMap option" where
  "array_to_tree imap =
     (case im_values imap of
        IMArray tmp_arr \<Rightarrow>
          do { (_, tree, entry_no, max_key, min_key) \<leftarrow>
                 foldM (\<lambda>(arr, tree, entry_no, max_key, min_key) i.
                          do { (arr, p) \<leftarrow> PDRangeArrElementP arr i;
                               if p \<noteq> None
                               then let (_, tree) = NumTreeStore tree i (p_val p) (p_val p)
                                    in Some (arr, tree, entry_no + 1, i, min min_key i)
                               else Some (arr, tree, entry_no, max_key, min_key) })
                   (tmp_arr, Leaf, 0, im_min_key imap, im_max_key imap)
                   [PDRangeArrLowKey tmp_arr..im_max_key imap];
               Some (imap\<lparr>im_values := IMTree tree, im_entry_no := entry_no,
                         im_max_key := max_key, im_min_key := min min_key max_key\<rparr>) }
      | _ \<Rightarrow> None)"

partial_function (option) tree_to_array_loop ::
  "'v ptr numtree pstack \<Rightarrow> 'v PDRangeArr \<Rightarrow> int \<Rightarrow> int \<Rightarrow> int \<Rightarrow>
   ('v PDRangeArr \<times> int \<times> int \<times> int) option" where [code]:
  "tree_to_array_loop iter arr entry_no max_key min_key =
     do { (handle, iter) \<leftarrow> NumTreeTraverseNext iter;
          case handle of
            None \<Rightarrow> Some (arr, entry_no, max_key, min_key)
          | Some c \<Rightarrow>
              do { p \<leftarrow> as_ptr (nt_val1 c);
                   if p \<noteq> None
                   then do { arr \<leftarrow> PDRangeArrAssignP arr (nt_key c) p;
                             tree_to_array_loop iter arr (entry_no + 1) (nt_key c)
                               (min min_key (nt_key c)) }
                   else tree_to_array_loop iter arr entry_no max_key min_key } }"

definition tree_to_array :: "'v IntMap \<Rightarrow> 'v IntMap option" where
  "tree_to_array imap =
     (case im_values imap of
        IMTree t \<Rightarrow>
          do { tmp_arr \<leftarrow> PDRangeArrAlloc (im_min_key imap) IM_ARRAY_SIZE;
               iter \<leftarrow> NumTreeTraverseInit t;
               (tmp_arr, entry_no, max_key, min_key) \<leftarrow>
                 tree_to_array_loop iter tmp_arr 0 (im_min_key imap) (im_max_key imap);
               Some (imap\<lparr>im_values := IMArray tmp_arr, im_entry_no := entry_no,
                         im_max_key := max_key, im_min_key := min min_key max_key\<rparr>) }
      | _ \<Rightarrow> None)"

section \<open>The operations\<close>

text \<open>Only the type of a new map is set; the other fields are what was in the memory.\<close>

definition IntMapAlloc :: "'v IntMap \<Rightarrow> 'v IntMap" where
  "IntMapAlloc memory = memory\<lparr>im_values := IMEmpty\<rparr>"

text \<open>Searching splays the tree and may enlarge the array, so the map is returned as well.\<close>

definition IntMapGetVal :: "'v IntMap option \<Rightarrow> int \<Rightarrow> ('v ptr \<times> 'v IntMap option) option" where
  "IntMapGetVal map_p key =
     (case map_p of
        None \<Rightarrow> Some (None, None)
      | Some imap \<Rightarrow>
         (case im_values imap of
            IMEmpty \<Rightarrow> Some (None, Some imap)
          | IMSingle v \<Rightarrow> Some (if im_max_key imap = key then v else None, Some imap)
          | IMArray arr \<Rightarrow>
              if key \<le> im_max_key imap
              then do { (arr, p) \<leftarrow> PDRangeArrElementP arr key;
                        Some (p, Some (imap\<lparr>im_values := IMArray arr\<rparr>)) }
              else Some (None, Some imap)
          | IMTree t \<Rightarrow>
              if key \<le> im_max_key imap
              then let (entry, t) = NumTreeFind t key in
                   do { res \<leftarrow> (case entry of None \<Rightarrow> Some None | Some c \<Rightarrow> as_ptr (nt_val1 c));
                        Some (res, Some (imap\<lparr>im_values := IMTree t\<rparr>)) }
              else Some (None, Some imap)))"

text \<open>
  A reference into a map: the value of a single pair, a cell of the array, or the first value
  of the tree's root. Reading and writing through a reference is what the callers do with it.
\<close>

datatype im_ref = RefValue | RefCell nat | RefRoot

fun im_read :: "'v IntMap \<Rightarrow> im_ref \<Rightarrow> 'v ptr option" where
  "im_read imap ref =
     (case (im_values imap, ref) of
        (IMSingle v, RefValue) \<Rightarrow> Some v
      | (IMArray arr, RefCell i) \<Rightarrow> Option.bind (mem_get (pd_array arr) i) as_ptr
      | (IMTree (Node l c r), RefRoot) \<Rightarrow> as_ptr (nt_val1 c)
      | _ \<Rightarrow> None)"

fun im_write :: "'v IntMap \<Rightarrow> im_ref \<Rightarrow> 'v ptr \<Rightarrow> 'v IntMap option" where
  "im_write imap ref v =
     (case (im_values imap, ref) of
        (IMSingle _, RefValue) \<Rightarrow> Some (imap\<lparr>im_values := IMSingle v\<rparr>)
      | (IMArray arr, RefCell i) \<Rightarrow>
          do { m \<leftarrow> mem_set (pd_array arr) i (p_val v);
               Some (imap\<lparr>im_values := IMArray (arr\<lparr>pd_array := m\<rparr>)\<rparr>) }
      | (IMTree (Node l c r), RefRoot) \<Rightarrow>
          Some (imap\<lparr>im_values := IMTree (Node l (c\<lparr>nt_val1 := p_val v\<rparr>) r)\<rparr>)
      | _ \<Rightarrow> None)"

partial_function (option) IntMapGetRef :: "'v IntMap \<Rightarrow> int \<Rightarrow> ('v IntMap \<times> im_ref) option" where [code]:
  "IntMapGetRef imap key =
     (case im_values imap of
        IMEmpty \<Rightarrow>
          Some (imap\<lparr>im_values := IMSingle None, im_max_key := key, im_min_key := key,
                    im_entry_no := 1\<rparr>, RefValue)
      | IMSingle val \<Rightarrow>
          do { (imap, ref) \<leftarrow>
                 (if key = im_max_key imap then Some (imap, RefValue)
                  else if switch_to_array key (im_min_key imap) (im_max_key imap) 2
                  then do { arr \<leftarrow> PDRangeArrAlloc (min key (im_max_key imap)) IM_ARRAY_SIZE;
                            arr \<leftarrow> PDRangeArrAssignP arr (im_max_key imap) val;
                            arr \<leftarrow> PDRangeArrAssignP arr key None;
                            (arr, i) \<leftarrow> PDRangeArrElementRef arr key;
                            Some (imap\<lparr>im_values := IMArray arr, im_entry_no := 2\<rparr>, RefCell i) }
                  else let (_, t) = NumTreeStore Leaf (im_max_key imap) (p_val val) (p_val val) in
                       do { imap \<leftarrow> add_new_tree_node (imap\<lparr>im_values := IMTree t\<rparr>) key None;
                            Some (imap\<lparr>im_entry_no := 2\<rparr>, RefRoot) });
               Some (imap\<lparr>im_min_key := min (im_min_key imap) key,
                         im_max_key := max key (im_max_key imap)\<rparr>, ref) }
      | IMArray arr \<Rightarrow>
          do { (imap, ref) \<leftarrow>
                 (if (key > im_max_key imap \<or> key < im_min_key imap) \<and>
                     switch_to_tree (im_min_key imap) (im_max_key imap) key (im_entry_no imap + 1)
                  then do { imap \<leftarrow> array_to_tree imap; IntMapGetRef imap key }
                  else do { (arr, i) \<leftarrow> PDRangeArrElementRef arr key;
                            x \<leftarrow> mem_get (pd_array arr) i;
                            p \<leftarrow> as_ptr x;
                            let imap = imap\<lparr>im_values := IMArray arr\<rparr>;
                            Some (if p = None then imap\<lparr>im_entry_no := im_entry_no imap + 1\<rparr> else imap,
                                  RefCell i) });
               Some (imap\<lparr>im_min_key := min (im_min_key imap) key,
                         im_max_key := max (im_max_key imap) key\<rparr>, ref) }
      | IMTree t \<Rightarrow>
          (case NumTreeFind t key of
             (Some _, t) \<Rightarrow> Some (imap\<lparr>im_values := IMTree t\<rparr>, RefRoot)
           | (None, t) \<Rightarrow>
               let imap = imap\<lparr>im_values := IMTree t\<rparr> in
               if switch_to_array (im_min_key imap) (im_max_key imap) key (im_entry_no imap + 1)
               then do { imap \<leftarrow> tree_to_array imap; IntMapGetRef imap key }
               else do { imap \<leftarrow> add_new_tree_node imap key None;
                         Some (imap\<lparr>im_max_key := max (im_max_key imap) key,
                                   im_min_key := min (im_min_key imap) key\<rparr>, RefRoot) }))"

definition IntMapAssign :: "'v IntMap \<Rightarrow> int \<Rightarrow> 'v ptr \<Rightarrow> 'v IntMap option" where
  "IntMapAssign imap key val =
     do { (imap, ref) \<leftarrow> IntMapGetRef imap key; im_write imap ref val }"

definition IntMapDelKey :: "'v IntMap \<Rightarrow> int \<Rightarrow> ('v ptr \<times> 'v IntMap) option" where
  "IntMapDelKey imap key =
     (case im_values imap of
        IMEmpty \<Rightarrow> Some (None, imap)
      | IMSingle v \<Rightarrow>
          if key = im_max_key imap
          then Some (v, imap\<lparr>im_values := IMEmpty, im_entry_no := 0\<rparr>)
          else Some (None, imap)
      | IMArray arr \<Rightarrow>
          if key > im_max_key imap then Some (None, imap)
          else do { (arr, res) \<leftarrow> PDRangeArrElementP arr key;
                    let imap = imap\<lparr>im_values := IMArray arr\<rparr>;
                    if res \<noteq> None
                    then do { arr \<leftarrow> PDRangeArrAssignP arr key None;
                              let imap = imap\<lparr>im_values := IMArray arr,
                                            im_entry_no := im_entry_no imap - 1\<rparr>;
                              imap \<leftarrow> (if switch_to_tree (im_min_key imap) (im_max_key imap)
                                           (im_max_key imap) (im_entry_no imap)
                                     then array_to_tree imap else Some imap);
                              Some (res, imap) }
                    else Some (res, imap) }
      | IMTree t \<Rightarrow>
          (case NumTreeExtractEntry t key of
             (None, t) \<Rightarrow> Some (None, imap\<lparr>im_values := IMTree t\<rparr>)
           | (Some handle, t) \<Rightarrow>
               do { let imap = imap\<lparr>im_values := IMTree t, im_entry_no := im_entry_no imap - 1\<rparr>;
                    res \<leftarrow> as_ptr (nt_val1 handle);
                    imap \<leftarrow>
                      (if nt_key handle = im_max_key imap
                       then let imap = imap\<lparr>im_max_key :=
                                  (case NumTreeMaxNode t of Some c \<Rightarrow> nt_key c
                                   | None \<Rightarrow> im_min_key imap)\<rparr> in
                            if switch_to_array (im_min_key imap) (im_max_key imap)
                                 (im_max_key imap) (im_entry_no imap)
                            then tree_to_array imap else Some imap
                       else Some imap);
                    Some (res, imap) }))"

section \<open>Iteration\<close>

datatype 'v im_admin =
    NoAdmin | Seen bool | Current int | TreeIter "'v ptr numtree pstack"

record 'v IntMapIter =
  it_lower_key :: int
  it_upper_key :: int
  it_admin :: "'v im_admin"

text \<open>The iterator of a map that is not \<open>NULL\<close>; it does not own the map.\<close>

definition IntMapIterAlloc :: "'v IntMap \<Rightarrow> int \<Rightarrow> int \<Rightarrow> 'v IntMapIter option" where
  "IntMapIterAlloc imap lower_key upper_key =
     do { admin \<leftarrow>
            (case im_values imap of
               IMEmpty \<Rightarrow> Some NoAdmin
             | IMSingle v \<Rightarrow>
                 Some (Seen (\<not> (im_max_key imap \<ge> lower_key \<and> im_max_key imap \<le> upper_key)))
             | IMArray arr \<Rightarrow> Some (Current lower_key)
             | IMTree t \<Rightarrow> do { st \<leftarrow> NumTreeLimitedTraverseInit t lower_key; Some (TreeIter st) });
          Some \<lparr>it_lower_key = max lower_key (im_min_key imap),
                it_upper_key = min upper_key (im_max_key imap), it_admin = admin\<rparr> }"

text \<open>The array loop returns the array, the index at the \<open>break\<close> and what was found there.\<close>

function iter_array_loop ::
  "'v PDRangeArr \<Rightarrow> int \<Rightarrow> int \<Rightarrow> ('v PDRangeArr \<times> int \<times> (int \<times> 'v) option) option" where
  "iter_array_loop arr i upper_key =
     (if i \<le> upper_key
      then do { (arr, res) \<leftarrow> PDRangeArrElementP arr i;
                case res of Some v \<Rightarrow> Some (arr, i, Some (i, v))
                | None \<Rightarrow> iter_array_loop arr (i + 1) upper_key }
      else Some (arr, i, None))"
  by pat_completeness auto
termination
  by (relation "measure (\<lambda>(arr, i, upper_key). nat (upper_key + 1 - i))") auto

declare iter_array_loop.simps [simp del]

partial_function (option) iter_tree_loop ::
  "'v ptr numtree pstack \<Rightarrow> int \<Rightarrow> ((int \<times> 'v) option \<times> 'v ptr numtree pstack) option" where [code]:
  "iter_tree_loop st upper_key =
     do { (handle, st) \<leftarrow> NumTreeTraverseNext st;
          case handle of
            None \<Rightarrow> Some (None, st)
          | Some c \<Rightarrow>
              if nt_key c > upper_key then Some (None, st)
              else do { p \<leftarrow> as_ptr (nt_val1 c);
                        case p of Some v \<Rightarrow> Some (Some (nt_key c, v), st)
                        | None \<Rightarrow> iter_tree_loop st upper_key } }"

text \<open>The next pair, or \<open>NULL\<close>; iterating over an array may enlarge it.\<close>

definition IntMapIterNext ::
  "'v IntMap \<Rightarrow> 'v IntMapIter \<Rightarrow> ((int \<times> 'v) option \<times> 'v IntMap \<times> 'v IntMapIter) option" where
  "IntMapIterNext imap iter =
     (case (im_values imap, it_admin iter) of
        (IMEmpty, _) \<Rightarrow> Some (None, imap, iter)
      | (IMSingle v, Seen seen) \<Rightarrow>
          if \<not> seen
          then Some (case v of Some x \<Rightarrow> Some (im_max_key imap, x) | None \<Rightarrow> None,
                     imap, iter\<lparr>it_admin := Seen True\<rparr>)
          else Some (None, imap, iter)
      | (IMArray arr, Current current) \<Rightarrow>
          do { (arr, i, res) \<leftarrow> iter_array_loop arr current (it_upper_key iter);
               Some (res, imap\<lparr>im_values := IMArray arr\<rparr>, iter\<lparr>it_admin := Current (i + 1)\<rparr>) }
      | (IMTree t, TreeIter st) \<Rightarrow>
          do { (res, st) \<leftarrow> iter_tree_loop st (it_upper_key iter);
               Some (res, imap, iter\<lparr>it_admin := TreeIter st\<rparr>) }
      | _ \<Rightarrow> None)"

text \<open>
  The loop of \<open>IntMapDebugPrint\<close> and of every other client: all pairs until \<open>NULL\<close>.
\<close>

partial_function (option) im_iter_loop ::
  "'v IntMap \<Rightarrow> 'v IntMapIter \<Rightarrow> (int \<times> 'v) list \<Rightarrow> ((int \<times> 'v) list \<times> 'v IntMap) option" where [code]:
  "im_iter_loop imap iter out =
     do { (res, imap, iter) \<leftarrow> IntMapIterNext imap iter;
          case res of None \<Rightarrow> Some (out, imap)
          | Some p \<Rightarrow> im_iter_loop imap iter (out @ [p]) }"

definition im_iterate :: "'v IntMap \<Rightarrow> int \<Rightarrow> int \<Rightarrow> ((int \<times> 'v) list \<times> 'v IntMap) option" where
  "im_iterate imap lower_key upper_key =
     do { iter \<leftarrow> IntMapIterAlloc imap lower_key upper_key; im_iter_loop imap iter [] }"

section \<open>The abstract map and the invariant\<close>

fun ptr_of :: "'v ptr IntOrP \<Rightarrow> 'v ptr" where
  "ptr_of (p_val p) = p"
| "ptr_of (i_val i) = None"

definition is_p :: "'v ptr IntOrP \<Rightarrow> bool" where
  "is_p x \<longleftrightarrow> (\<exists>p. x = p_val p)"

lemma as_ptr_is_p [simp]: "is_p x \<Longrightarrow> as_ptr x = Some (ptr_of x)"
  by (auto simp: is_p_def)

lemma is_p_val [simp]: "is_p (p_val p)"
  by (simp add: is_p_def)

definition arr_map :: "'v PDRangeArr \<Rightarrow> int \<Rightarrow> 'v option" where
  "arr_map a k = ptr_of (pd_at a k)"

definition arr_ok :: "'v PDRangeArr \<Rightarrow> bool" where
  "arr_ok a \<longleftrightarrow> pd_ok a \<and> (\<forall>k. is_p (pd_at a k))"

definition tree_pmap :: "'v ptr numtree \<Rightarrow> int \<Rightarrow> 'v option" where
  "tree_pmap t k = (case num_map t k of None \<Rightarrow> None | Some c \<Rightarrow> ptr_of (nt_val1 c))"

definition ptree_vals :: "'v ptr numtree \<Rightarrow> bool" where
  "ptree_vals t \<longleftrightarrow> (\<forall>c \<in> set_tree t. is_p (nt_val1 c))"

definition im_map :: "'v IntMap \<Rightarrow> int \<Rightarrow> 'v option" where
  "im_map m = (case im_values m of
       IMEmpty \<Rightarrow> Map.empty
     | IMSingle v \<Rightarrow> (\<lambda>k. if k = im_max_key m then v else None)
     | IMArray a \<Rightarrow> arr_map a
     | IMTree t \<Rightarrow> tree_pmap t)"

text \<open>The key bounds of the structure: ordered, and far from overflow.\<close>

definition im_range :: "'v IntMap \<Rightarrow> bool" where
  "im_range m \<longleftrightarrow> im_min_key m \<le> im_max_key m \<and> im_min_key m \<in> small_keys \<and> im_max_key m \<in> small_keys"

definition im_ok :: "'v IntMap \<Rightarrow> bool" where
  "im_ok m \<longleftrightarrow> (case im_values m of
       IMEmpty \<Rightarrow> True
     | IMSingle v \<Rightarrow> im_range m \<and> im_min_key m = im_max_key m
     | IMArray a \<Rightarrow> im_range m \<and> arr_ok a \<and> dom (arr_map a) \<subseteq> {im_min_key m..im_max_key m}
     | IMTree t \<Rightarrow> im_range m \<and> num_ok t \<and> ptree_vals t \<and>
                    dom (num_map t) \<subseteq> {im_min_key m..im_max_key m})"

lemma small_keys_between: "a \<in> small_keys \<Longrightarrow> b \<in> small_keys \<Longrightarrow> a \<le> k \<Longrightarrow> k \<le> b \<Longrightarrow> k \<in> small_keys"
  by (simp add: small_keys_def)

lemma arr_elementP:
  assumes "arr_ok a"
  obtains a' where "PDRangeArrElementP a k = Some (a', arr_map a k)" "arr_ok a'" "arr_map a' = arr_map a"
proof -
  have "pd_at a k = p_val (arr_map a k)"
    using assms by (auto simp: arr_ok_def arr_map_def is_p_def) (metis ptr_of.simps(1))
  then show ?thesis
    using PDRangeArrElementP_ok [of a k "arr_map a k"] assms that
    by (auto simp: arr_ok_def arr_map_def fun_eq_iff)
qed

lemma arr_assignP:
  assumes "arr_ok a"
  obtains a' where "PDRangeArrAssignP a k p = Some a'" "arr_ok a'" "arr_map a' = (arr_map a)(k := p)"
    "PDRangeArrIndexIsCovered a' k"
  using PDRangeArrAssign_ok [of a k "p_val p"] assms that
  by (fastforce simp: PDRangeArrAssignP_def arr_ok_def arr_map_def fun_eq_iff)

lemma arr_alloc:
  obtains a where "PDRangeArrAlloc k IM_ARRAY_SIZE = Some a" "arr_ok a" "arr_map a = Map.empty"
  using PDRangeArrAlloc_ok [of IM_ARRAY_SIZE k] that
  by (fastforce simp: IM_ARRAY_SIZE_def MAX_TREE_DENSITY_def arr_ok_def arr_map_def fun_eq_iff)

text \<open>A reference to the cell of \<open>k\<close>: reading and writing through it.\<close>

lemma arr_ref:
  assumes "arr_ok a"
  obtains a' i where "PDRangeArrElementRef a k = Some (a', i)" "arr_ok a'" "arr_map a' = arr_map a"
    "mem_get (pd_array a') i = Some (p_val (arr_map a k))"
    "\<And>v. mem_set (pd_array a') i (p_val v) = Some ((pd_array a')[i := Some (p_val v)]) \<and>
         arr_ok (a'\<lparr>pd_array := (pd_array a')[i := Some (p_val v)]\<rparr>) \<and>
         arr_map (a'\<lparr>pd_array := (pd_array a')[i := Some (p_val v)]\<rparr>) = (arr_map a)(k := v)"
proof -
  obtain a' where a': "PDRangeArrElementRef a k = Some (a', nat (k - pd_offset a'))" "pd_ok a'"
    "PDRangeArrIndexIsCovered a' k" "pd_at a' = pd_at a"
    using PDRangeArrElementRef_ok [of a k] assms by (auto simp: arr_ok_def)
  have p: "pd_at a' k = p_val (arr_map a k)"
    using assms by (auto simp: a'(4) arr_ok_def arr_map_def is_p_def) (metis ptr_of.simps(1))
  show ?thesis
  proof (rule that [OF a'(1)])
    show "arr_ok a'" "arr_map a' = arr_map a"
      using a' assms by (auto simp: arr_ok_def arr_map_def)
    show "mem_get (pd_array a') (nat (k - pd_offset a')) = Some (p_val (arr_map a k))"
      using pd_ok_cell [OF a'(2,3)] p by (simp add: mem_get_def)
    show "mem_set (pd_array a') (nat (k - pd_offset a')) (p_val v) =
            Some ((pd_array a')[nat (k - pd_offset a') := Some (p_val v)]) \<and>
          arr_ok (a'\<lparr>pd_array := (pd_array a')[nat (k - pd_offset a') := Some (p_val v)]\<rparr>) \<and>
          arr_map (a'\<lparr>pd_array := (pd_array a')[nat (k - pd_offset a') := Some (p_val v)]\<rparr>) =
            (arr_map a)(k := v)" for v
      using pd_cell_set [OF a'(2,3), of "p_val v"] assms a'(4)
      by (auto simp: arr_ok_def arr_map_def fun_eq_iff)
  qed
qed

lemma tree_pmap_dom: "dom (tree_pmap t) \<subseteq> dom (num_map t)"
  by (auto simp: tree_pmap_def split: option.splits)

lemma ptree_vals_map: "ptree_vals t \<Longrightarrow> num_map t k = Some c \<Longrightarrow> is_p (nt_val1 c)"
  unfolding ptree_vals_def num_map_def tree_map_def by (auto dest!: map_of_SomeD)

lemma ptree_vals_num_map:
  "ptree_vals t \<longleftrightarrow> (\<forall>k c. num_map t k = Some c \<longrightarrow> is_p (nt_val1 c))" if "num_ok t"
proof
  assume "ptree_vals t"
  then show "\<forall>k c. num_map t k = Some c \<longrightarrow> is_p (nt_val1 c)" using ptree_vals_map by blast
next
  assume a: "\<forall>k c. num_map t k = Some c \<longrightarrow> is_p (nt_val1 c)"
  show "ptree_vals t"
    unfolding ptree_vals_def
  proof
    fix c assume "c \<in> set_tree t"
    moreover have "distinct (map nt_key (inorder t))"
      using that by (metis num_ok_sorted strict_sorted_iff)
    ultimately have "num_map t (nt_key c) = Some c"
      by (simp add: num_map_def tree_map_def map_of_eq_Some_iff comp_def)
    then show "is_p (nt_val1 c)" using a by blast
  qed
qed

text \<open>The cell a search or an insertion ends with is the root.\<close>

lemma NumTreeFind_root:
  "NumTreeFind t k = (Some c, t') \<Longrightarrow> \<exists>l r. t' = Node l c r"
  unfolding NumTreeFind_def tree_find_def
  by (cases "splay long_diff nt_key t k") (auto split: if_splits dest: sym)

lemma NumTreeInsert_root:
  assumes "NumTreeInsert t n = (None, t')"
  shows "\<exists>l r. t' = Node l n r"
proof (cases "t = Leaf")
  case True
  then show ?thesis using assms by (auto simp: NumTreeInsert_def tree_insert_def)
next
  case False
  then obtain l c r where "splay long_diff nt_key t (nt_key n) = Node l c r"
    using splay_Node by metis
  then show ?thesis
    using assms False by (auto simp: NumTreeInsert_def tree_insert_def Let_def split: if_splits)
qed

text \<open>Writing the first value of the root changes one entry of the map.\<close>

lemma num_tree_write_root:
  fixes c :: "'v ptr NumTreeCell" and v :: "'v ptr"
  assumes "num_ok (Node l c r)" and "ptree_vals (Node l c r)"
  defines "t' \<equiv> Node l (c\<lparr>nt_val1 := p_val v\<rparr>) r"
  shows "num_ok t'" "ptree_vals t'" "dom (num_map t') = dom (num_map (Node l c r))"
    "tree_pmap t' = (tree_pmap (Node l c r))(nt_key c := v)"
proof -
  show "num_ok t'" using assms(1) by (simp add: t'_def num_ok_Node)
  show "ptree_vals t'" using assms(2) by (auto simp: t'_def ptree_vals_def)
  show "dom (num_map t') = dom (num_map (Node l c r))"
    by (simp add: t'_def dom_num_map)
  have l: "nt_key c \<notin> nt_key ` set_tree l" using assms(1) by (force simp: num_ok_Node)
  then have "tree_map nt_key l (nt_key c) = None" by (rule tree_map_None)
  then have "num_map t' = (num_map (Node l c r))(nt_key c \<mapsto> c\<lparr>nt_val1 := p_val v\<rparr>)"
    by (auto simp: t'_def num_map_def tree_map_Node_app map_add_def fun_eq_iff split: option.splits)
  then show "tree_pmap t' = (tree_pmap (Node l c r))(nt_key c := v)"
    by (auto simp: tree_pmap_def fun_eq_iff)
qed

section \<open>Changing the representation\<close>

text \<open>The bounds that a conversion computes from the keys in use.\<close>

definition key_lo :: "int set \<Rightarrow> int \<Rightarrow> int" where
  "key_lo S d = (if S = {} then d else Min S)"

definition key_hi :: "int set \<Rightarrow> int \<Rightarrow> int" where
  "key_hi S d = (if S = {} then d else Max S)"

lemma key_bounds:
  assumes "S \<subseteq> {a..b}" and "a \<le> (b::int)"
  shows "key_lo S a \<le> key_hi S a" "a \<le> key_lo S a" "key_hi S a \<le> b" "S \<subseteq> {key_lo S a..key_hi S a}"
    "key_lo S (key_lo S a) = key_lo S a" "key_hi S (key_lo S a) = key_hi S a"
proof -
  have f: "finite S" using assms(1) by (rule finite_subset) simp
  show "key_lo S a \<le> key_hi S a" "a \<le> key_lo S a" "key_hi S a \<le> b" "S \<subseteq> {key_lo S a..key_hi S a}"
    "key_lo S (key_lo S a) = key_lo S a" "key_hi S (key_lo S a) = key_hi S a"
    using assms f by (auto simp: key_lo_def key_hi_def Min_le_iff dest: Min_in Max_in)
qed

lemma min_Min_bounds:
  assumes "S \<subseteq> {a..b}" and "a \<le> (b::int)"
  shows "min (Min (insert b S)) (key_hi S a) = key_lo S a"
proof (cases "S = {}")
  case True
  then show ?thesis using assms(2) by (simp add: key_lo_def key_hi_def)
next
  case False
  have f: "finite S" using assms(1) by (rule finite_subset) simp
  then have "Min S \<le> b" "Min S \<le> Max S" using assms(1) False by (auto dest: Min_in)
  then have "Min (insert b S) = Min S"
    unfolding Min_insert [OF f False] min_def by (metis order_antisym)
  then show ?thesis using \<open>Min S \<le> Max S\<close> False by (simp add: key_lo_def key_hi_def)
qed

definition conv_state :: "'v IntMap \<Rightarrow> 'v IntMap \<Rightarrow> bool" where
  "conv_state m m' \<longleftrightarrow> im_ok m' \<and> im_map m' = im_map m \<and>
     im_entry_no m' = int (card (dom (im_map m))) \<and>
     im_min_key m' = key_lo (dom (im_map m)) (im_min_key m) \<and>
     im_max_key m' = key_hi (dom (im_map m)) (im_min_key m)"

lemma num_store_pmap:
  assumes "num_ok t" and "ptree_vals t" and "k \<in> small_keys" and "num_map t k = None"
  obtains b t' where "NumTreeStore t k (p_val (Some v)) (p_val (Some v)) = (b, t')" "num_ok t'"
    "ptree_vals t'" "dom (num_map t') = insert k (dom (num_map t))"
    "tree_pmap t' = (tree_pmap t)(k \<mapsto> v)"
proof -
  obtain t' where t': "NumTreeStore t k (p_val (Some v)) (p_val (Some v)) = (True, t')" "num_ok t'"
    "num_map t' = (num_map t)(k \<mapsto> \<lparr>nt_key = k, nt_val1 = p_val (Some v), nt_val2 = p_val (Some v)\<rparr>)"
    using NumTreeStore_map [OF assms(1,3), of "p_val (Some v)" "p_val (Some v)"] assms(4) by auto
  have "ptree_vals t'"
    using assms(1,2) t'(2,3) by (auto simp: ptree_vals_num_map)
  then show ?thesis
    using that [OF t'(1,2)] t'(3) by (auto simp: tree_pmap_def fun_eq_iff)
qed

lemma array_to_tree_loop_ok:
  fixes a :: "'v PDRangeArr"
  assumes "arr_ok a" and "dom (arr_map a) \<subseteq> {lo..hi}" and "lo \<in> small_keys" and "hi \<in> small_keys"
  shows "\<exists>a' t e mx mn.
     foldM (\<lambda>(arr, tree, entry_no, max_key, min_key) i.
              do { (arr, p) \<leftarrow> PDRangeArrElementP arr i;
                   if p \<noteq> None
                   then let (_, tree) = NumTreeStore tree i (p_val p) (p_val p)
                        in Some (arr, tree, entry_no + 1, i, min min_key i)
                   else Some (arr, tree, entry_no, max_key, min_key) })
       (a, Leaf, 0, lo, hi) [b..b + int n - 1] = Some (a', t, e, mx, mn) \<and>
     arr_ok a' \<and> arr_map a' = arr_map a \<and> num_ok t \<and> ptree_vals t \<and>
     dom (num_map t) = dom (arr_map a) \<inter> {b..<b + int n} \<and>
     tree_pmap t = arr_map a |` {b..<b + int n} \<and>
     e = int (card (dom (arr_map a) \<inter> {b..<b + int n})) \<and>
     mx = key_hi (dom (arr_map a) \<inter> {b..<b + int n}) lo \<and>
     mn = Min (insert hi (dom (arr_map a) \<inter> {b..<b + int n}))"
    (is "\<exists>a' t e mx mn. foldM ?f ?s0 _ = _ \<and> _")
proof (induction n)
  case 0
  then show ?case
    using assms(1) by (simp add: key_hi_def tree_pmap_def ptree_vals_def fun_eq_iff)
next
  case (Suc n)
  let ?D = "\<lambda>n. dom (arr_map a) \<inter> {b..<b + int n}" and ?i = "b + int n"
  obtain a1 t e mx mn where IH: "foldM ?f ?s0 [b..b + int n - 1] = Some (a1, t, e, mx, mn)"
    "arr_ok a1" "arr_map a1 = arr_map a" "num_ok t" "ptree_vals t" "dom (num_map t) = ?D n"
    "tree_pmap t = arr_map a |` {b..<b + int n}" "e = int (card (?D n))"
    "mx = key_hi (?D n) lo" "mn = Min (insert hi (?D n))"
    using Suc by blast
  have split: "[b..b + int (Suc n) - 1] = [b..b + int n - 1] @ [?i]"
    using upto_rec2 [of b "b + int n"] by simp
  have ivl: "{b..<b + int (Suc n)} = insert ?i {b..<b + int n}" by auto
  obtain a2 where a2: "PDRangeArrElementP a1 ?i = Some (a2, arr_map a ?i)" "arr_ok a2"
    "arr_map a2 = arr_map a"
    using arr_elementP [OF IH(2)] IH(3) by metis
  show ?case
  proof (cases "arr_map a ?i")
    case None
    then have D: "?D (Suc n) = ?D n" unfolding ivl by auto
    have "arr_map a |` {b..<b + int (Suc n)} = arr_map a |` {b..<b + int n}"
      using None unfolding ivl by (auto simp: restrict_map_def fun_eq_iff)
    then show ?thesis
      using IH a2 None unfolding split foldM_append D by simp
  next
    case (Some v)
    have i: "?i \<in> small_keys" "?i \<le> hi"
    proof -
      have "?i \<in> dom (arr_map a)" using Some by blast
      then have "lo \<le> ?i \<and> ?i \<le> hi" using assms(2) by auto
      then show "?i \<in> small_keys" "?i \<le> hi"
        using small_keys_between [OF assms(3,4)] by blast+
    qed
    have D: "?D (Suc n) = insert ?i (?D n)" using Some unfolding ivl by auto
    have new: "?i \<notin> ?D n" and fin: "finite (?D n)" by auto
    obtain ok t' where t': "NumTreeStore t ?i (p_val (Some v)) (p_val (Some v)) = (ok, t')" "num_ok t'"
      "ptree_vals t'" "dom (num_map t') = insert ?i (dom (num_map t))"
      "tree_pmap t' = (tree_pmap t)(?i \<mapsto> v)"
      using num_store_pmap [OF IH(4,5) i(1)] IH(6) new by (metis domIff)
    have "tree_pmap t' = arr_map a |` {b..<b + int (Suc n)}"
      using Some unfolding t'(5) IH(7) ivl by (auto simp: restrict_map_def fun_eq_iff)
    moreover have "key_hi (?D (Suc n)) lo = ?i"
      unfolding D using fin by (auto simp: key_hi_def intro!: Max_eqI)
    moreover have "min mn ?i = Min (insert hi (?D (Suc n)))"
      unfolding D IH(10) using fin by (simp add: insert_commute [of hi] min.commute)
    ultimately show ?thesis
      using IH(1,6,8) a2 t' Some new fin unfolding split foldM_append D by simp
  qed
qed

lemma array_to_tree_ok:
  assumes "im_ok m" and "im_values m = IMArray a"
  obtains m' t where "array_to_tree m = Some m'" "im_values m' = IMTree t" "conv_state m m'"
    "dom (num_map t) = dom (im_map m)"
proof -
  let ?lo = "im_min_key m" and ?hi = "im_max_key m" and ?b = "PDRangeArrLowKey a" and ?S = "dom (arr_map a)"
  have ok: "im_range m" "arr_ok a" "?S \<subseteq> {?lo..?hi}" using assms by (auto simp: im_ok_def)
  have low: "?S \<subseteq> {?b..}"
    using ok(2) by (auto simp: arr_map_def pd_at_def pd_key_defs pd_null_def split: if_splits)
  define n where "n = nat (?hi + 1 - ?b)"
  have ks: "[?b..?hi] = [?b..?b + int n - 1]"
    by (cases "?b \<le> ?hi") (simp_all add: n_def)
  have S: "?S \<inter> {?b..<?b + int n} = ?S"
  proof -
    have "k \<in> {?b..<?b + int n}" if "k \<in> ?S" for k
    proof -
      have "?b \<le> k" using that low by blast
      moreover have "k \<le> ?hi" using subsetD [OF ok(3) that] by simp
      ultimately show ?thesis by (simp add: n_def)
    qed
    then show ?thesis by blast
  qed
  have r: "arr_map a |` {?b..<?b + int n} = arr_map a"
  proof -
    have "k \<in> ?S \<Longrightarrow> k \<in> {?b..<?b + int n}" for k using S by blast
    then show ?thesis by (auto simp: restrict_map_def fun_eq_iff) (metis domIff)+
  qed
  obtain a' t where l: "foldM (\<lambda>(arr, tree, entry_no, max_key, min_key) i.
              do { (arr, p) \<leftarrow> PDRangeArrElementP arr i;
                   if p \<noteq> None
                   then let (_, tree) = NumTreeStore tree i (p_val p) (p_val p)
                        in Some (arr, tree, entry_no + 1, i, min min_key i)
                   else Some (arr, tree, entry_no, max_key, min_key) })
       (a, Leaf, 0, ?lo, ?hi) [?b..?hi] =
     Some (a', t, int (card ?S), key_hi ?S ?lo, Min (insert ?hi ?S))"
    "num_ok t" "ptree_vals t" "dom (num_map t) = ?S" "tree_pmap t = arr_map a"
    using array_to_tree_loop_ok [OF ok(2,3), of ?b n] ok(1) unfolding S r ks im_range_def by blast
  let ?m = "m\<lparr>im_values := IMTree t, im_entry_no := int (card ?S), im_max_key := key_hi ?S ?lo,
              im_min_key := min (Min (insert ?hi ?S)) (key_hi ?S ?lo)\<rparr>"
  have b: "min (Min (insert ?hi ?S)) (key_hi ?S ?lo) = key_lo ?S ?lo"
    using min_Min_bounds [OF ok(3)] ok(1) by (simp add: im_range_def)
  have "array_to_tree m = Some ?m"
    using l(1) by (simp add: array_to_tree_def assms(2))
  moreover have "conv_state m ?m"
  proof -
    note kb = key_bounds [OF ok(3)]
    have "im_range ?m"
      using ok(1) kb b by (auto simp: im_range_def intro: small_keys_between)
    then show ?thesis
      using l b kb(4) ok(1) by (simp add: conv_state_def im_ok_def im_map_def assms(2) im_range_def)
  qed
  ultimately show ?thesis using that [of ?m t] l(4) by (simp add: im_map_def assms(2))
qed

text \<open>The pairs of a list of cells: a cell whose value is \<open>NULL\<close> has none.\<close>

definition cell_pairs :: "'v ptr NumTreeCell list \<Rightarrow> (int \<times> 'v) list" where
  "cell_pairs cs = map (\<lambda>c. (nt_key c, the (ptr_of (nt_val1 c))))
                     (filter (\<lambda>c. ptr_of (nt_val1 c) \<noteq> None) cs)"

lemma cell_pairs_simps [simp]:
  "cell_pairs [] = []"
  "cell_pairs (c # cs) = (case ptr_of (nt_val1 c) of None \<Rightarrow> cell_pairs cs
     | Some v \<Rightarrow> (nt_key c, v) # cell_pairs cs)"
  by (auto simp: cell_pairs_def)

lemma cell_pairs_keys: "fst ` set (cell_pairs cs) \<subseteq> nt_key ` set cs"
  by (auto simp: cell_pairs_def)

lemma cell_pairs_sorted:
  "sorted_wrt (<) (map nt_key cs) \<Longrightarrow> sorted_wrt (<) (map fst (cell_pairs cs))"
proof (induction cs)
  case (Cons c cs)
  then show ?case using cell_pairs_keys [of cs] by (fastforce split: option.splits)
qed simp

lemma cell_pairs_map:
  "distinct (map nt_key cs) \<Longrightarrow>
   (case map_of (map (\<lambda>c. (nt_key c, c)) cs) k of None \<Rightarrow> None | Some c \<Rightarrow> ptr_of (nt_val1 c)) =
   map_of (cell_pairs cs) k"
proof (induction cs)
  case (Cons c cs)
  have "nt_key c \<notin> fst ` set (cell_pairs cs)"
    using Cons.prems cell_pairs_keys [of cs] by auto
  then have "map_of (cell_pairs cs) (nt_key c) = None" by (simp add: map_of_eq_None_iff)
  then show ?case using Cons by (auto split: option.splits)
qed simp

lemma tree_pmap_pairs:
  assumes "num_ok t"
  shows "tree_pmap t = map_of (cell_pairs (inorder t))"
proof
  have "distinct (map nt_key (inorder t))"
    using assms by (metis num_ok_sorted strict_sorted_iff)
  then show "tree_pmap t k = map_of (cell_pairs (inorder t)) k" for k
    using cell_pairs_map [of "inorder t" k] by (simp add: tree_pmap_def num_map_def tree_map_def)
qed

lemma tree_to_array_loop_ok:
  "trav_ok iter \<Longrightarrow> trav_items iter = cs \<Longrightarrow> arr_ok a \<Longrightarrow> \<forall>c \<in> set cs. is_p (nt_val1 c) \<Longrightarrow>
   sorted_wrt (<) (map nt_key cs) \<Longrightarrow>
   \<exists>a'. tree_to_array_loop iter a e mx mn =
          Some (a', e + int (length (cell_pairs cs)),
                if cell_pairs cs = [] then mx else fst (last (cell_pairs cs)),
                Min (insert mn (fst ` set (cell_pairs cs)))) \<and>
        arr_ok a' \<and> arr_map a' = arr_map a ++ map_of (cell_pairs cs)"
proof (induction cs arbitrary: iter a e mx mn)
  case Nil
  then show ?case
    using tree_traverse_next_ok(1) [OF Nil(1,2)]
    by (simp add: tree_to_array_loop.simps [of iter] NumTreeTraverseNext_def)
next
  case (Cons c cs)
  obtain j where j: "NumTreeTraverseNext iter = Some (Some c, j)" "trav_ok j" "trav_items j = cs"
    using tree_traverse_next_ok(2) [OF Cons.prems(1,2)] by (auto simp: NumTreeTraverseNext_def)
  have p: "as_ptr (nt_val1 c) = Some (ptr_of (nt_val1 c))" using Cons.prems(4) by simp
  have cs: "\<forall>c \<in> set cs. is_p (nt_val1 c)" "sorted_wrt (<) (map nt_key cs)"
    using Cons.prems(4,5) by auto
  show ?case
  proof (cases "ptr_of (nt_val1 c)")
    case None
    then have "tree_to_array_loop iter a e mx mn = tree_to_array_loop j a e mx mn"
      "cell_pairs (c # cs) = cell_pairs cs"
      using j(1) p by (simp_all add: tree_to_array_loop.simps [of iter])
    then show ?thesis
      using Cons.IH [OF j(2,3) Cons.prems(3) cs, of e mx mn] by metis
  next
    case (Some v)
    obtain a1 where a1: "PDRangeArrAssignP a (nt_key c) (Some v) = Some a1" "arr_ok a1"
      "arr_map a1 = (arr_map a)(nt_key c := Some v)"
      using arr_assignP [OF Cons.prems(3)] by metis
    obtain a' where a': "tree_to_array_loop j a1 (e + 1) (nt_key c) (min mn (nt_key c)) =
          Some (a', e + 1 + int (length (cell_pairs cs)),
                if cell_pairs cs = [] then nt_key c else fst (last (cell_pairs cs)),
                Min (insert (min mn (nt_key c)) (fst ` set (cell_pairs cs))))"
        "arr_ok a'" "arr_map a' = arr_map a1 ++ map_of (cell_pairs cs)"
      using Cons.IH [OF j(2,3) a1(2) cs, of "e + 1" "nt_key c" "min mn (nt_key c)"] by blast
    have "Min (insert (min mn (nt_key c)) S) = Min (insert mn (insert (nt_key c) S))"
      if "finite S" for S
      using that by (cases "S = {}") (simp_all add: min.assoc)
    moreover have am: "arr_map a' = arr_map a ++ (map_of (cell_pairs cs))(nt_key c \<mapsto> v)"
    proof -
      have "nt_key c \<notin> fst ` set (cell_pairs cs)"
        using Cons.prems(5) cell_pairs_keys [of cs] by fastforce
      then have "map_of (cell_pairs cs) (nt_key c) = None" by (simp add: map_of_eq_None_iff)
      then show ?thesis
        unfolding a'(3) a1(3) by (auto simp: map_add_def fun_eq_iff split: option.splits)
    qed
    moreover have cp: "cell_pairs (c # cs) = (nt_key c, v) # cell_pairs cs" using Some by simp
    moreover have "tree_to_array_loop iter a e mx mn =
        tree_to_array_loop j a1 (e + 1) (nt_key c) (min mn (nt_key c))"
      using Some j(1) p a1(1) by (simp add: tree_to_array_loop.simps [of iter])
    ultimately have "tree_to_array_loop iter a e mx mn =
          Some (a', e + int (length (cell_pairs (c # cs))),
                if cell_pairs (c # cs) = [] then mx else fst (last (cell_pairs (c # cs))),
                Min (insert mn (fst ` set (cell_pairs (c # cs)))))"
      using a'(1) unfolding cp by simp
    moreover have "arr_map a' = arr_map a ++ map_of (cell_pairs (c # cs))"
      using am unfolding cp by (auto simp: map_add_def fun_eq_iff)
    ultimately show ?thesis using a'(2) by blast
  qed
qed

lemma tree_to_array_ok:
  fixes m :: "'v IntMap"
  assumes "im_ok m" and "im_values m = IMTree t"
  obtains m' a where "tree_to_array m = Some m'" "im_values m' = IMArray a" "conv_state m m'"
proof -
  let ?lo = "im_min_key m" and ?hi = "im_max_key m" and ?S = "dom (tree_pmap t)"
  let ?P = "cell_pairs (inorder t)"
  have ok: "im_range m" "num_ok t" "ptree_vals t" "?S \<subseteq> {?lo..?hi}"
    using assms tree_pmap_dom [of t] by (auto simp: im_ok_def)
  have srt: "sorted_wrt (<) (map nt_key (inorder t))" using ok(2) by (simp add: num_ok_sorted)
  obtain a0 :: "'v PDRangeArr" where a0: "PDRangeArrAlloc ?lo IM_ARRAY_SIZE = Some a0" "arr_ok a0" "arr_map a0 = Map.empty"
    using arr_alloc by blast
  obtain it where it: "NumTreeTraverseInit t = Some it" "trav_ok it" "trav_items it = inorder t"
    using tree_traverse_init_ok by (metis NumTreeTraverseInit_def)
  have "\<forall>c \<in> set (inorder t). is_p (nt_val1 c)" using ok(3) by (simp add: ptree_vals_def)
  then obtain a' where a': "tree_to_array_loop it a0 0 ?lo ?hi =
      Some (a', int (length ?P), if ?P = [] then ?lo else fst (last ?P), Min (insert ?hi (fst ` set ?P)))"
    "arr_ok a'" "arr_map a' = map_of ?P"
    using tree_to_array_loop_ok [OF it(2,3) a0(2) _ srt, of 0 ?lo ?hi] a0(3) by auto
  have psrt: "sorted_wrt (<) (map fst ?P)" by (rule cell_pairs_sorted [OF srt])
  have S: "fst ` set ?P = ?S" using tree_pmap_pairs [OF ok(2)] by (simp add: dom_map_of_conv_image_fst)
  have len: "length ?P = card ?S"
    using psrt by (metis S distinct_card length_map set_map strict_sorted_iff)
  have mx: "(if ?P = [] then ?lo else fst (last ?P)) = key_hi ?S ?lo"
  proof (cases "?P = []")
    case True
    then show ?thesis using S by (auto simp: key_hi_def)
  next
    case False
    then have "\<forall>k \<in> set (map fst ?P). k \<le> last (map fst ?P)"
      using psrt strict_sorted_last by blast
    then have "Max ?S = fst (last ?P)"
      using False unfolding S [symmetric] by (intro Max_eqI) (auto simp: last_map)
    then show ?thesis using False S by (auto simp: key_hi_def)
  qed
  let ?m = "m\<lparr>im_values := IMArray a', im_entry_no := int (card ?S), im_max_key := key_hi ?S ?lo,
              im_min_key := min (Min (insert ?hi ?S)) (key_hi ?S ?lo)\<rparr>"
  have b: "min (Min (insert ?hi ?S)) (key_hi ?S ?lo) = key_lo ?S ?lo"
    using min_Min_bounds [OF ok(4)] ok(1) by (simp add: im_range_def)
  have "tree_to_array m = Some ?m"
    using a0(1) it(1) a'(1) by (simp add: tree_to_array_def assms(2) mx len S)
  moreover have "conv_state m ?m"
  proof -
    note kb = key_bounds [OF ok(4)]
    have "im_range ?m"
      using ok(1) kb b by (auto simp: im_range_def intro: small_keys_between)
    then show ?thesis
      using a'(2,3) b kb(4) ok(1) tree_pmap_pairs [OF ok(2)]
      by (simp add: conv_state_def im_ok_def im_map_def assms(2) im_range_def)
  qed
  ultimately show ?thesis using that [of ?m a'] by simp
qed

section \<open>Lookup\<close>

lemma num_find_pmap:
  assumes "num_ok t" and "ptree_vals t" and "k \<in> small_keys"
  obtains t' where "NumTreeFind t k = (num_map t k, t')" "num_ok t'" "ptree_vals t'"
    "num_map t' = num_map t" "tree_pmap t' = tree_pmap t"
proof -
  obtain t' where t': "NumTreeFind t k = (num_map t k, t')" "num_ok t'" "num_map t' = num_map t"
    using NumTreeFind_map [OF assms(1,3)] by blast
  then show ?thesis
    using that [OF t'(1,2)] assms(1,2) by (auto simp: ptree_vals_num_map tree_pmap_def fun_eq_iff)
qed

lemma IntMapGetVal_ok:
  assumes "im_ok m" and "k \<in> small_keys"
  shows "\<exists>m'. IntMapGetVal (Some m) k = Some (im_map m k, Some m') \<and> im_ok m' \<and> im_map m' = im_map m"
proof (cases "im_values m")
  case IMEmpty
  then show ?thesis using assms by (simp add: IntMapGetVal_def im_map_def)
next
  case (IMSingle v)
  then show ?thesis using assms by (auto simp: IntMapGetVal_def im_map_def)
next
  case (IMArray a)
  then have ok: "arr_ok a" "im_range m" "dom (arr_map a) \<subseteq> {im_min_key m..im_max_key m}"
    using assms(1) by (auto simp: im_ok_def)
  show ?thesis
  proof (cases "k \<le> im_max_key m")
    case True
    obtain a' where "PDRangeArrElementP a k = Some (a', arr_map a k)" "arr_ok a'" "arr_map a' = arr_map a"
      using arr_elementP [OF ok(1)] by metis
    then show ?thesis
      using True IMArray ok by (simp add: IntMapGetVal_def im_map_def im_ok_def im_range_def)
  next
    case False
    then have "k \<notin> dom (arr_map a)" using ok(3) by auto
    then have "arr_map a k = None" by blast
    then show ?thesis using False IMArray assms(1) by (simp add: IntMapGetVal_def im_map_def)
  qed
next
  case (IMTree t)
  then have ok: "num_ok t" "ptree_vals t" "im_range m" "dom (num_map t) \<subseteq> {im_min_key m..im_max_key m}"
    using assms(1) by (auto simp: im_ok_def)
  show ?thesis
  proof (cases "k \<le> im_max_key m")
    case True
    obtain t' where t': "NumTreeFind t k = (num_map t k, t')" "num_ok t'" "ptree_vals t'"
      "num_map t' = num_map t" "tree_pmap t' = tree_pmap t"
      using num_find_pmap [OF ok(1,2) assms(2)] by blast
    have "(case num_map t k of None \<Rightarrow> Some None | Some c \<Rightarrow> as_ptr (nt_val1 c)) = Some (tree_pmap t k)"
      using ptree_vals_map [OF ok(2)] by (auto simp: tree_pmap_def split: option.splits)
    then show ?thesis
      using True IMTree ok t' by (simp add: IntMapGetVal_def im_map_def im_ok_def im_range_def)
  next
    case False
    then have "k \<notin> dom (num_map t)" using ok(4) by auto
    then have "tree_pmap t k = None" using tree_pmap_dom [of t] by (metis domIff in_mono)
    then show ?thesis using False IMTree assms(1) by (simp add: IntMapGetVal_def im_map_def)
  qed
qed

section \<open>References\<close>

text \<open>What \<open>IntMapGetRef\<close> promises.\<close>

definition ref_post :: "'v IntMap \<Rightarrow> int \<Rightarrow> 'v IntMap \<Rightarrow> im_ref \<Rightarrow> bool" where
  "ref_post m k m' r \<longleftrightarrow> im_ok m' \<and> im_map m' = im_map m \<and> im_read m' r = Some (im_map m k) \<and>
     im_min_key m' \<le> k \<and> k \<le> im_max_key m' \<and>
     (\<forall>v. \<exists>m''. im_write m' r v = Some m'' \<and> im_ok m'' \<and> im_map m'' = (im_map m)(k := v))"

lemma array_ref_post:
  assumes "arr_ok a" and "arr_map a = im_map m" and "im_values m' = IMArray a'"
    and "PDRangeArrElementRef a k = Some (a', i)"
    and "im_range m'" and "dom (im_map m) \<subseteq> {im_min_key m'..im_max_key m'}"
    and "im_min_key m' \<le> k" "k \<le> im_max_key m'"
  shows "ref_post m k m' (RefCell i)" "mem_get (pd_array a') i = Some (p_val (im_map m k))"
proof -
  obtain r: "arr_ok a'" "arr_map a' = arr_map a"
    "mem_get (pd_array a') i = Some (p_val (arr_map a k))"
    "\<And>v. mem_set (pd_array a') i (p_val v) = Some ((pd_array a')[i := Some (p_val v)]) \<and>
         arr_ok (a'\<lparr>pd_array := (pd_array a')[i := Some (p_val v)]\<rparr>) \<and>
         arr_map (a'\<lparr>pd_array := (pd_array a')[i := Some (p_val v)]\<rparr>) = (arr_map a)(k := v)"
    by (rule arr_ref [OF assms(1), of k]) (use assms(4) in auto)
  show "mem_get (pd_array a') i = Some (p_val (im_map m k))" using r(3) assms(2) by simp
  have "dom ((im_map m)(k := v)) \<subseteq> {im_min_key m'..im_max_key m'}" for v
    using assms(6,7,8) by auto
  then show "ref_post m k m' (RefCell i)"
    using r assms by (simp add: ref_post_def im_ok_def im_map_def im_range_def)
qed

lemma tree_ref_post:
  assumes "num_ok (Node l c r)" and "ptree_vals (Node l c r)" and "tree_pmap (Node l c r) = im_map m"
    and "im_values m' = IMTree (Node l c r)" and "nt_key c = k" and "im_range m'"
    and "dom (num_map (Node l c r)) \<subseteq> {im_min_key m'..im_max_key m'}"
  shows "ref_post m k m' RefRoot"
proof -
  have k: "k \<in> dom (num_map (Node l c r))" using assms(5) by (auto simp: dom_num_map)
  have "ptr_of (nt_val1 c) = im_map m k"
  proof -
    have "nt_key c \<notin> nt_key ` set_tree l" using assms(1) by (force simp: num_ok_Node)
    then have "tree_map nt_key l k = None" using tree_map_None assms(5) by metis
    then have "num_map (Node l c r) k = Some c"
      using assms(5) by (simp add: num_map_def tree_map_Node_app map_add_def)
    then show ?thesis by (simp add: tree_pmap_def flip: assms(3))
  qed
  moreover have "is_p (nt_val1 c)" using assms(2) by (simp add: ptree_vals_def)
  moreover note w = num_tree_write_root [OF assms(1,2)]
  ultimately show ?thesis
    using assms k by (auto simp: ref_post_def im_ok_def im_map_def im_range_def w)
qed

lemma tree_add_ref_post:
  assumes "num_ok t" and "ptree_vals t" and "tree_pmap t = im_map m" and "im_values m' = IMTree t"
    and "num_map t k = None" and "k \<in> small_keys" and "im_range m'"
    and "dom (num_map t) \<subseteq> {im_min_key m'..im_max_key m'}"
  obtains m2 t2 where "add_new_tree_node m' k None = Some m2"
    "m2 = m'\<lparr>im_values := IMTree t2, im_entry_no := im_entry_no m' + 1\<rparr>"
    "\<And>m3. im_values m3 = IMTree t2 \<Longrightarrow> im_min_key m3 = min (im_min_key m') k \<Longrightarrow>
        im_max_key m3 = max (im_max_key m') k \<Longrightarrow> ref_post m k m3 RefRoot"
proof -
  let ?n = "\<lparr>nt_key = k, nt_val1 = p_val None, nt_val2 = p_val None\<rparr>"
  obtain t2 where t2: "NumTreeInsert t ?n = (None, t2)" "num_ok t2" "num_map t2 = (num_map t)(k \<mapsto> ?n)"
    using NumTreeInsert_map [OF assms(1), of ?n] assms(5,6) by auto
  obtain l r where node: "t2 = Node l ?n r" using NumTreeInsert_root [OF t2(1)] by blast
  have v: "ptree_vals t2"
    using assms(1,2) t2(2,3) by (auto simp: ptree_vals_num_map)
  have "tree_pmap t2 = tree_pmap t"
    using assms(5) by (auto simp: tree_pmap_def t2(3) fun_eq_iff)
  then have p: "tree_pmap t2 = im_map m" using assms(3) by simp
  let ?m2 = "m'\<lparr>im_values := IMTree t2, im_entry_no := im_entry_no m' + 1\<rparr>"
  show ?thesis
  proof (rule that [of ?m2 t2])
    show "add_new_tree_node m' k None = Some ?m2"
      using t2(1) assms(4) by (simp add: add_new_tree_node_def)
    show "ref_post m k m3 RefRoot" if m3: "im_values m3 = IMTree t2"
      "im_min_key m3 = min (im_min_key m') k" "im_max_key m3 = max (im_max_key m') k" for m3
    proof (rule tree_ref_post)
      show "dom (num_map (Node l ?n r)) \<subseteq> {im_min_key m3..im_max_key m3}"
      proof -
        have "{im_min_key m'..im_max_key m'} \<subseteq> {im_min_key m3..im_max_key m3}"
          and k: "k \<in> {im_min_key m3..im_max_key m3}" using m3 by auto
        then have "dom (num_map t) \<subseteq> {im_min_key m3..im_max_key m3}"
          using subset_trans [OF assms(8)] by blast
        then show ?thesis using k unfolding node [symmetric] t2(3) by simp
      qed
    qed (use t2(2) v p node m3 assms(6,7) in \<open>auto simp: im_range_def min_def max_def\<close>)
  qed simp
qed

text \<open>The two cases in which no conversion is needed.\<close>

lemma getref_array_direct:
  assumes "im_ok m" and "im_values m = IMArray a" and "k \<in> small_keys"
    and "\<not> ((k > im_max_key m \<or> k < im_min_key m) \<and>
             switch_to_tree (im_min_key m) (im_max_key m) k (im_entry_no m + 1))"
  shows "\<exists>m' r. IntMapGetRef m k = Some (m', r) \<and> ref_post m k m' r"
proof -
  have ok: "arr_ok a" "im_range m" "dom (im_map m) \<subseteq> {im_min_key m..im_max_key m}" "arr_map a = im_map m"
    using assms(1,2) by (auto simp: im_ok_def im_map_def)
  obtain a' i where ref: "PDRangeArrElementRef a k = Some (a', i)"
    using arr_ref [OF ok(1)] by metis
  define e where "e = (if im_map m k = None then im_entry_no m + 1 else im_entry_no m)"
  let ?m = "m\<lparr>im_values := IMArray a', im_entry_no := e, im_min_key := min (im_min_key m) k,
              im_max_key := max (im_max_key m) k\<rparr>"
  have rng: "im_range ?m" using ok(2) assms(3) by (simp add: im_range_def min_def max_def)
  have dom: "dom (im_map m) \<subseteq> {im_min_key ?m..im_max_key ?m}"
  proof -
    have "{im_min_key m..im_max_key m} \<subseteq> {im_min_key ?m..im_max_key ?m}" by auto
    then show ?thesis using ok(3) by blast
  qed
  note P = array_ref_post [OF ok(1,4) _ ref rng dom]
  have "ref_post m k ?m (RefCell i)" "mem_get (pd_array a') i = Some (p_val (im_map m k))"
    by (rule P; simp)+
  moreover from this(2) have "IntMapGetRef m k = Some (?m, RefCell i)"
    unfolding IntMapGetRef.simps [of m k] assms(2) IntMapVal.case if_not_P [OF assms(4)]
    using ref by (simp add: e_def Let_def)
  ultimately show ?thesis by blast
qed

lemma getref_tree_direct:
  assumes "im_ok m" and "im_values m = IMTree t" and "k \<in> small_keys"
    and "num_map t k \<noteq> None \<or>
         \<not> switch_to_array (im_min_key m) (im_max_key m) k (im_entry_no m + 1)"
  shows "\<exists>m' r. IntMapGetRef m k = Some (m', r) \<and> ref_post m k m' r"
proof -
  have ok: "num_ok t" "ptree_vals t" "im_range m" "dom (num_map t) \<subseteq> {im_min_key m..im_max_key m}"
    "tree_pmap t = im_map m"
    using assms(1,2) by (auto simp: im_ok_def im_map_def)
  obtain t' where t': "NumTreeFind t k = (num_map t k, t')" "num_ok t'" "ptree_vals t'"
    "num_map t' = num_map t" "tree_pmap t' = tree_pmap t"
    using num_find_pmap [OF ok(1,2) assms(3)] by blast
  show ?thesis
  proof (cases "num_map t k")
    case (Some c)
    obtain l r where node: "t' = Node l c r" using NumTreeFind_root t'(1) Some by metis
    have "nt_key c = k" using Some by (rule num_map_key)
    have "ref_post m k (m\<lparr>im_values := IMTree t'\<rparr>) RefRoot"
    proof (rule tree_ref_post)
      show "dom (num_map (Node l c r)) \<subseteq> {im_min_key (m\<lparr>im_values := IMTree t'\<rparr>)..
              im_max_key (m\<lparr>im_values := IMTree t'\<rparr>)}"
        using ok(4) t'(4) node by simp
    qed (use t' ok node \<open>nt_key c = k\<close> in \<open>simp_all add: im_range_def\<close>)
    moreover have "IntMapGetRef m k = Some (m\<lparr>im_values := IMTree t'\<rparr>, RefRoot)"
      unfolding IntMapGetRef.simps [of m k] using assms(2) t'(1) Some by simp
    ultimately show ?thesis by blast
  next
    case None
    let ?m = "m\<lparr>im_values := IMTree t'\<rparr>"
    obtain m2 t2 where m2: "add_new_tree_node ?m k None = Some m2"
      "m2 = ?m\<lparr>im_values := IMTree t2, im_entry_no := im_entry_no ?m + 1\<rparr>"
      "\<And>m3. im_values m3 = IMTree t2 \<Longrightarrow> im_min_key m3 = min (im_min_key ?m) k \<Longrightarrow>
        im_max_key m3 = max (im_max_key ?m) k \<Longrightarrow> ref_post m k m3 RefRoot"
    proof (rule tree_add_ref_post [of t' m ?m k])
      show "dom (num_map t') \<subseteq> {im_min_key ?m..im_max_key ?m}" using t'(4) ok(4) by simp
      show "im_range ?m" using ok(3) by (simp add: im_range_def)
    qed (use t' ok None assms(3) in simp_all)
    let ?m3 = "m2\<lparr>im_max_key := max (im_max_key m2) k, im_min_key := min (im_min_key m2) k\<rparr>"
    have "IntMapGetRef m k = Some (?m3, RefRoot)"
      unfolding IntMapGetRef.simps [of m k] using assms(2,4) t'(1) None m2(1) by simp
    moreover have "ref_post m k ?m3 RefRoot"
      by (rule m2(3)) (simp_all add: m2(2))
    ultimately show ?thesis by blast
  qed
qed

text \<open>
  A conversion decided by one density bound cannot be undone by the other: the recursive call
  of \<open>IntMapGetRef\<close> ends after at most two conversions.
\<close>

lemma density_gap:
  assumes "0 \<le> e"
  shows "\<not> (switch_to_tree lo hi k (e + 1) \<and> switch_to_array lo hi k (e + 1))"
  using assms
  by (auto simp: switch_to_tree_def switch_to_array_def MAX_TREE_DENSITY_def MIN_TREE_DENSITY_def Let_def)

lemma conv_ref_post: "conv_state m m1 \<Longrightarrow> ref_post m1 k m' r \<Longrightarrow> ref_post m k m' r"
  by (simp add: conv_state_def ref_post_def)

lemma ref_post_bounds:
  "ref_post m k m' r \<Longrightarrow> m'\<lparr>im_min_key := min (im_min_key m') k, im_max_key := max (im_max_key m') k\<rparr> = m'"
  by (simp add: ref_post_def)

lemma getref_array_step:
  assumes "im_values m = IMArray a" and "k > im_max_key m \<or> k < im_min_key m"
    and "switch_to_tree (im_min_key m) (im_max_key m) k (im_entry_no m + 1)"
    and "array_to_tree m = Some m1" and "conv_state m m1"
    and "\<exists>m' r. IntMapGetRef m1 k = Some (m', r) \<and> ref_post m1 k m' r"
  shows "\<exists>m' r. IntMapGetRef m k = Some (m', r) \<and> ref_post m k m' r"
proof -
  obtain m' r where r: "IntMapGetRef m1 k = Some (m', r)" "ref_post m1 k m' r" using assms(6) by blast
  have "IntMapGetRef m k = Some (m', r)"
    unfolding IntMapGetRef.simps [of m k] using assms(1,2,3,4) r(1) ref_post_bounds [OF r(2)] by simp
  then show ?thesis using conv_ref_post [OF assms(5) r(2)] by blast
qed

lemma getref_tree_step:
  assumes "im_values m = IMTree t" and "NumTreeFind t k = (None, t')"
    and "switch_to_array (im_min_key m) (im_max_key m) k (im_entry_no m + 1)"
    and "tree_to_array (m\<lparr>im_values := IMTree t'\<rparr>) = Some m1"
    and "conv_state (m\<lparr>im_values := IMTree t'\<rparr>) m1" and "im_map (m\<lparr>im_values := IMTree t'\<rparr>) = im_map m"
    and "\<exists>m' r. IntMapGetRef m1 k = Some (m', r) \<and> ref_post m1 k m' r"
  shows "\<exists>m' r. IntMapGetRef m k = Some (m', r) \<and> ref_post m k m' r"
proof -
  obtain m' r where r: "IntMapGetRef m1 k = Some (m', r)" "ref_post m1 k m' r" using assms(7) by blast
  have "IntMapGetRef m k = Some (m', r)"
    unfolding IntMapGetRef.simps [of m k] using assms(1-4) r(1) by simp
  moreover have "ref_post m k m' r"
    using r(2) assms(5,6) by (simp add: conv_state_def ref_post_def)
  ultimately show ?thesis by blast
qed

lemma conv_twice:
  assumes "conv_state m m1" and "conv_state m1 m2" and "im_range m"
    and "dom (im_map m) \<subseteq> {im_min_key m..im_max_key m}"
  shows "im_min_key m2 = im_min_key m1" "im_max_key m2 = im_max_key m1"
    "im_entry_no m2 = im_entry_no m1" "0 \<le> im_entry_no m1"
  using assms key_bounds(5,6) [OF assms(4)] by (auto simp: conv_state_def im_range_def)

lemma im_ok_array_range:
  "im_ok m \<Longrightarrow> im_values m = IMArray a \<Longrightarrow>
   im_range m \<and> dom (im_map m) \<subseteq> {im_min_key m..im_max_key m}"
  by (simp add: im_ok_def im_map_def)

lemma im_ok_tree_range:
  "im_ok m \<Longrightarrow> im_values m = IMTree t \<Longrightarrow>
   im_range m \<and> dom (im_map m) \<subseteq> {im_min_key m..im_max_key m}"
  using tree_pmap_dom [of t] by (auto simp: im_ok_def im_map_def)

lemma conv_stateD: "conv_state m m1 \<Longrightarrow> im_ok m1 \<and> im_map m1 = im_map m \<and> 0 \<le> im_entry_no m1"
  by (simp add: conv_state_def)

text \<open>A tree that comes from an array; it converts back at most once.\<close>

lemma getref_conv_tree:
  assumes "im_ok m" and "im_range m" and "dom (im_map m) \<subseteq> {im_min_key m..im_max_key m}"
    and "conv_state m m1" and "im_values m1 = IMTree t" and "k \<in> small_keys"
  shows "\<exists>m' r. IntMapGetRef m1 k = Some (m', r) \<and> ref_post m1 k m' r"
proof (cases "num_map t k \<noteq> None \<or>
         \<not> switch_to_array (im_min_key m1) (im_max_key m1) k (im_entry_no m1 + 1)")
  case True
  then show ?thesis
    using getref_tree_direct [OF _ assms(5,6)] conv_stateD [OF assms(4)] by blast
next
  case False
  have ok1: "im_ok m1" "0 \<le> im_entry_no m1" using conv_stateD [OF assms(4)] by auto
  have t: "num_ok t" "ptree_vals t" using ok1(1) assms(5) by (auto simp: im_ok_def)
  obtain t' where t': "NumTreeFind t k = (None, t')" "num_ok t'" "ptree_vals t'"
    "num_map t' = num_map t" "tree_pmap t' = tree_pmap t"
    using num_find_pmap [OF t assms(6)] False by metis
  let ?m1 = "m1\<lparr>im_values := IMTree t'\<rparr>"
  have m1: "im_ok ?m1" "im_map ?m1 = im_map m1"
    using ok1(1) t' assms(5) by (auto simp: im_ok_def im_map_def im_range_def)
  have c1: "conv_state m ?m1" using assms(4) m1 by (simp add: conv_state_def)
  obtain m2 a where m2: "tree_to_array ?m1 = Some m2" "im_values m2 = IMArray a" "conv_state ?m1 m2"
    using tree_to_array_ok [OF m1(1), of t'] by auto
  note b = conv_twice [OF c1 m2(3) assms(2,3)]
  have "\<not> switch_to_tree (im_min_key m2) (im_max_key m2) k (im_entry_no m2 + 1)"
    using density_gap [of "im_entry_no m1"] False ok1(2) b by auto
  then have "\<exists>m' r. IntMapGetRef m2 k = Some (m', r) \<and> ref_post m2 k m' r"
    using getref_array_direct [OF _ m2(2) assms(6)] conv_stateD [OF m2(3)] by blast
  then show ?thesis
    using getref_tree_step [OF assms(5) t'(1) _ m2(1,3) m1(2)] False by blast
qed

lemma getref_conv_array:
  assumes "im_ok m" and "im_range m" and "dom (im_map m) \<subseteq> {im_min_key m..im_max_key m}"
    and "conv_state m m1" and "im_values m1 = IMArray a" and "k \<in> small_keys"
  shows "\<exists>m' r. IntMapGetRef m1 k = Some (m', r) \<and> ref_post m1 k m' r"
proof (cases "(k > im_max_key m1 \<or> k < im_min_key m1) \<and>
         switch_to_tree (im_min_key m1) (im_max_key m1) k (im_entry_no m1 + 1)")
  case False
  then show ?thesis
    using getref_array_direct [OF _ assms(5,6)] conv_stateD [OF assms(4)] by blast
next
  case True
  have ok1: "im_ok m1" "0 \<le> im_entry_no m1" using conv_stateD [OF assms(4)] by auto
  obtain m2 t where m2: "array_to_tree m1 = Some m2" "im_values m2 = IMTree t" "conv_state m1 m2"
    using array_to_tree_ok [OF ok1(1) assms(5)] by metis
  note b = conv_twice [OF assms(4) m2(3) assms(2,3)]
  have "\<not> switch_to_array (im_min_key m2) (im_max_key m2) k (im_entry_no m2 + 1)"
    using density_gap [of "im_entry_no m1"] True ok1(2) b by auto
  then have "\<exists>m' r. IntMapGetRef m2 k = Some (m', r) \<and> ref_post m2 k m' r"
    using getref_tree_direct [OF _ m2(2) assms(6)] conv_stateD [OF m2(3)] by blast
  then show ?thesis
    using getref_array_step [OF assms(5) _ _ m2(1,3)] True by blast
qed

lemma getref_single:
  fixes m :: "'v IntMap"
  assumes "im_ok m" and "im_values m = IMSingle v" and "k \<in> small_keys"
  shows "\<exists>m' r. IntMapGetRef m k = Some (m', r) \<and> ref_post m k m' r"
proof -
  let ?j = "im_max_key m"
  have ok: "im_range m" "im_min_key m = ?j" "im_map m = (\<lambda>k. if k = ?j then v else None)"
    using assms(1,2) by (auto simp: im_ok_def im_map_def)
  have j: "?j \<in> small_keys" using ok(1) by (simp add: im_range_def)
  let ?mm = "\<lambda>m'. m'\<lparr>im_min_key := min (im_min_key m') k, im_max_key := max k (im_max_key m')\<rparr>"
  show ?thesis
  proof (cases "k = ?j")
    case True
    have "IntMapGetRef m k = Some (?mm m, RefValue)"
      unfolding IntMapGetRef.simps [of m k] using assms(2) True by simp
    moreover have "ref_post m k (?mm m) RefValue"
      using True assms(1,2) ok by (auto simp: ref_post_def im_ok_def im_map_def im_range_def fun_eq_iff)
    ultimately show ?thesis by blast
  next
    case False
    have dom: "dom (im_map m) \<subseteq> {min ?j k..max k ?j}" using ok(3) by (auto split: if_splits)
    show ?thesis
    proof (cases "switch_to_array k (im_min_key m) ?j 2")
      case True
      obtain a0 :: "'v PDRangeArr" where a0: "PDRangeArrAlloc (min k ?j) IM_ARRAY_SIZE = Some a0"
        "arr_ok a0" "arr_map a0 = Map.empty" using arr_alloc by blast
      obtain a1 where a1: "PDRangeArrAssignP a0 ?j v = Some a1" "arr_ok a1"
        "arr_map a1 = Map.empty(?j := v)" using arr_assignP [OF a0(2)] a0(3) by metis
      obtain a2 where a2: "PDRangeArrAssignP a1 k None = Some a2" "arr_ok a2"
        "arr_map a2 = (Map.empty(?j := v))(k := None)" using arr_assignP [OF a1(2)] a1(3) by metis
      note a = a0(1) a1(1) a2
      obtain a' i where r: "PDRangeArrElementRef a2 k = Some (a', i)" using arr_ref [OF a(4)] by metis
      let ?m = "?mm (m\<lparr>im_values := IMArray a', im_entry_no := 2\<rparr>)"
      have "IntMapGetRef m k = Some (?m, RefCell i)"
        unfolding IntMapGetRef.simps [of m k] using assms(2) False True a(1-3) r by simp
      moreover have "ref_post m k ?m (RefCell i)"
      proof (rule array_ref_post(1) [OF a(4) _ _ r])
        show "arr_map a2 = im_map m" using False by (auto simp: a(5) ok(3) fun_eq_iff)
        show "dom (im_map m) \<subseteq> {im_min_key ?m..im_max_key ?m}" using dom ok(2) by simp
        show "im_range ?m" using j assms(3) ok(2) by (simp add: im_range_def min_def max_def)
      qed simp_all
      ultimately show ?thesis by blast
    next
      case no: False
      let ?c = "\<lparr>nt_key = ?j, nt_val1 = p_val v, nt_val2 = p_val v\<rparr>"
      let ?t = "Node Leaf ?c Leaf" and ?m1 = "m\<lparr>im_values := IMTree (Node Leaf ?c Leaf)\<rparr>"
      have st: "NumTreeStore Leaf ?j (p_val v) (p_val v) = (True, ?t)"
        by (simp add: NumTreeStore_def NumTreeInsert_def tree_insert_def)
      have nm: "num_map ?t = [?j \<mapsto> ?c]" by (simp add: num_map_def tree_map_def)
      obtain m2 t2 where m2: "add_new_tree_node ?m1 k None = Some m2"
        "m2 = ?m1\<lparr>im_values := IMTree t2, im_entry_no := im_entry_no ?m1 + 1\<rparr>"
        "\<And>m3. im_values m3 = IMTree t2 \<Longrightarrow> im_min_key m3 = min (im_min_key ?m1) k \<Longrightarrow>
          im_max_key m3 = max (im_max_key ?m1) k \<Longrightarrow> ref_post m k m3 RefRoot"
      proof (rule tree_add_ref_post [of ?t m ?m1 k])
        show "num_ok ?t" using j by (simp add: num_ok_Node)
        show "ptree_vals ?t" by (simp add: ptree_vals_def)
        show "tree_pmap ?t = im_map m" by (auto simp: tree_pmap_def nm ok(3) fun_eq_iff)
        show "num_map ?t k = None" using False by (simp add: nm)
        show "im_range ?m1" using ok(1) by (simp add: im_range_def)
        show "dom (num_map ?t) \<subseteq> {im_min_key ?m1..im_max_key ?m1}" using ok(2) by (simp add: nm)
      qed (use assms(3) in simp_all)
      let ?m = "?mm (m2\<lparr>im_entry_no := 2\<rparr>)"
      have "IntMapGetRef m k = Some (?m, RefRoot)"
        unfolding IntMapGetRef.simps [of m k] using assms(2) False no st m2(1) by simp
      moreover have "ref_post m k ?m RefRoot"
        by (rule m2(3)) (simp_all add: m2(2) max.commute)
      ultimately show ?thesis by blast
    qed
  qed
qed

lemma IntMapGetRef_ok:
  assumes "im_ok m" and "k \<in> small_keys"
  shows "\<exists>m' r. IntMapGetRef m k = Some (m', r) \<and> ref_post m k m' r"
proof (cases "im_values m")
  case IMEmpty
  then show ?thesis
    using assms(2) unfolding IntMapGetRef.simps [of m k]
    by (simp add: ref_post_def im_ok_def im_map_def im_range_def fun_eq_iff)
next
  case (IMSingle v)
  then show ?thesis using getref_single assms by blast
next
  case (IMArray a)
  note r = im_ok_array_range [OF assms(1) IMArray]
  show ?thesis
  proof (cases "(k > im_max_key m \<or> k < im_min_key m) \<and>
      switch_to_tree (im_min_key m) (im_max_key m) k (im_entry_no m + 1)")
    case True
    obtain m1 t where m1: "array_to_tree m = Some m1" "im_values m1 = IMTree t" "conv_state m m1"
      using array_to_tree_ok [OF assms(1) IMArray] by metis
    show ?thesis
      using getref_array_step [OF IMArray _ _ m1(1,3) getref_conv_tree [OF assms(1) _ _ m1(3,2) assms(2)]]
        r True by blast
  next
    case False
    then show ?thesis by (rule getref_array_direct [OF assms(1) IMArray assms(2)])
  qed
next
  case (IMTree t)
  note r = im_ok_tree_range [OF assms(1) IMTree]
  have t: "num_ok t" "ptree_vals t" using assms(1) IMTree by (auto simp: im_ok_def)
  show ?thesis
  proof (cases "num_map t k \<noteq> None \<or>
      \<not> switch_to_array (im_min_key m) (im_max_key m) k (im_entry_no m + 1)")
    case True
    then show ?thesis by (rule getref_tree_direct [OF assms(1) IMTree assms(2)])
  next
    case False
    obtain t' where t': "NumTreeFind t k = (None, t')" "num_ok t'" "ptree_vals t'"
      "num_map t' = num_map t" "tree_pmap t' = tree_pmap t"
      using num_find_pmap [OF t assms(2)] False by metis
    let ?m = "m\<lparr>im_values := IMTree t'\<rparr>"
    have m: "im_ok ?m" "im_map ?m = im_map m"
      using assms(1) t' IMTree by (auto simp: im_ok_def im_map_def im_range_def)
    have rng: "im_range ?m" "dom (im_map ?m) \<subseteq> {im_min_key ?m..im_max_key ?m}"
      using r m(2) by (auto simp: im_range_def)
    obtain m1 a where m1: "tree_to_array ?m = Some m1" "im_values m1 = IMArray a" "conv_state ?m m1"
      using tree_to_array_ok [OF m(1), of t'] by auto
    show ?thesis
      using getref_tree_step [OF IMTree t'(1) _ m1(1,3) m(2)
          getref_conv_array [OF m(1) rng m1(3,2) assms(2)]] False by blast
  qed
qed

lemma IntMapAssign_ok:
  assumes "im_ok m" and "k \<in> small_keys"
  shows "\<exists>m'. IntMapAssign m k v = Some m' \<and> im_ok m' \<and> im_map m' = (im_map m)(k := v)"
proof -
  obtain m1 r where "IntMapGetRef m k = Some (m1, r)" "ref_post m k m1 r"
    using IntMapGetRef_ok [OF assms] by blast
  then show ?thesis by (auto simp: IntMapAssign_def ref_post_def)
qed

section \<open>Deletion\<close>

lemma num_max_node:
  assumes "num_ok t" and "t \<noteq> Leaf"
  obtains c where "NumTreeMaxNode t = Some c" "nt_key c \<in> dom (num_map t)"
    "\<forall>k \<in> dom (num_map t). k \<le> nt_key c"
proof -
  let ?c = "last (inorder t)"
  have ne: "inorder t \<noteq> []" using assms(2) by (cases t) auto
  have "\<forall>k \<in> set (map nt_key (inorder t)). k \<le> last (map nt_key (inorder t))"
    using assms(1) strict_sorted_last by (auto simp: num_ok_sorted)
  moreover have "?c \<in> set_tree t" using ne by (metis last_in_set set_inorder)
  ultimately show ?thesis
    using that [of ?c] assms(2) ne by (simp add: NumTreeMaxNode_last dom_num_map last_map)
qed

lemma IntMapDelKey_ok:
  assumes "im_ok m" and "k \<in> small_keys"
  shows "\<exists>m'. IntMapDelKey m k = Some (im_map m k, m') \<and> im_ok m' \<and> im_map m' = (im_map m)(k := None)"
proof (cases "im_values m")
  case IMEmpty
  then show ?thesis using assms by (simp add: IntMapDelKey_def im_map_def fun_eq_iff)
next
  case (IMSingle v)
  then show ?thesis
    using assms by (auto simp: IntMapDelKey_def im_map_def im_ok_def fun_eq_iff)
next
  case (IMArray a)
  then have ok: "arr_ok a" "im_range m" "dom (arr_map a) \<subseteq> {im_min_key m..im_max_key m}"
    "im_map m = arr_map a"
    using assms(1) by (auto simp: im_ok_def im_map_def)
  show ?thesis
  proof (cases "k > im_max_key m")
    case True
    then have "k \<notin> dom (arr_map a)" using ok(3) by auto
    then show ?thesis
      using True IMArray assms(1) ok(4) by (auto simp: IntMapDelKey_def fun_eq_iff)
  next
    case False
    obtain a1 where a1: "PDRangeArrElementP a k = Some (a1, arr_map a k)" "arr_ok a1" "arr_map a1 = arr_map a"
      using arr_elementP [OF ok(1)] by metis
    show ?thesis
    proof (cases "arr_map a k")
      case None
      let ?m = "m\<lparr>im_values := IMArray a1\<rparr>"
      have "IntMapDelKey m k = Some (None, ?m)"
        using False IMArray a1(1) None by (simp add: IntMapDelKey_def Let_def)
      moreover have "im_ok ?m" "im_map ?m = (im_map m)(k := None)"
        using ok a1 None by (auto simp: im_ok_def im_map_def im_range_def fun_eq_iff)
      ultimately show ?thesis using None ok(4) by simp
    next
      case (Some v)
      obtain a2 where a2: "PDRangeArrAssignP a1 k None = Some a2" "arr_ok a2"
        "arr_map a2 = (arr_map a)(k := None)"
        using arr_assignP [OF a1(2)] a1(3) by metis
      let ?m = "m\<lparr>im_values := IMArray a2, im_entry_no := im_entry_no m - 1\<rparr>"
      have m: "im_ok ?m" "im_map ?m = (im_map m)(k := None)"
        using ok a2 by (auto simp: im_ok_def im_map_def im_range_def)
      have vals: "im_values ?m = IMArray a2" by simp
      obtain m1 t where "array_to_tree ?m = Some m1" "im_values m1 = IMTree t" "conv_state ?m m1"
        using array_to_tree_ok [OF m(1) vals] by metis
      then have m1: "array_to_tree ?m = Some m1" "im_ok m1" "im_map m1 = im_map ?m"
        using conv_stateD by blast+
      show ?thesis
      proof (cases "switch_to_tree (im_min_key m) (im_max_key m) (im_max_key m) (im_entry_no m - 1)")
        case True
        then have "IntMapDelKey m k = Some (im_map m k, m1)"
          using False IMArray a1(1) a2(1) m1(1) Some ok(4) by (simp add: IntMapDelKey_def Let_def)
        then show ?thesis using m1 m(2) by simp
      next
        case no: False
        then have "IntMapDelKey m k = Some (im_map m k, ?m)"
          using False IMArray a1(1) a2(1) Some ok(4) by (simp add: IntMapDelKey_def Let_def)
        then show ?thesis using m by simp
      qed
    qed
  qed
next
  case (IMTree t)
  then have ok: "num_ok t" "ptree_vals t" "im_range m" "dom (num_map t) \<subseteq> {im_min_key m..im_max_key m}"
    "im_map m = tree_pmap t"
    using assms(1) by (auto simp: im_ok_def im_map_def)
  obtain t1 where t1: "NumTreeExtractEntry t k = (num_map t k, t1)" "num_ok t1"
    "num_map t1 = (num_map t)(k := None)"
    using NumTreeExtractEntry_map [OF ok(1) assms(2)] by blast
  have v1: "ptree_vals t1" using ok(1,2) t1(2,3) by (auto simp: ptree_vals_num_map)
  have p1: "tree_pmap t1 = (im_map m)(k := None)"
    using ok(5) by (auto simp: tree_pmap_def t1(3) fun_eq_iff)
  have d1: "dom (num_map t1) \<subseteq> {im_min_key m..im_max_key m}" using ok(4) by (auto simp: t1(3))
  show ?thesis
  proof (cases "num_map t k")
    case None
    then have k: "im_map m k = None" by (simp add: ok(5) tree_pmap_def)
    let ?m = "m\<lparr>im_values := IMTree t1\<rparr>"
    have "IntMapDelKey m k = Some (None, ?m)"
      using IMTree t1(1) None by (simp add: IntMapDelKey_def)
    moreover have "im_ok ?m" "im_map ?m = (im_map m)(k := None)"
      using ok(3) t1(2) v1 p1 d1 by (auto simp: im_ok_def im_map_def im_range_def)
    ultimately show ?thesis using k by simp
  next
    case (Some c)
    have c: "nt_key c = k" using Some by (rule num_map_key)
    have val: "as_ptr (nt_val1 c) = Some (im_map m k)"
      using ptree_vals_map [OF ok(2) Some] Some by (simp add: ok(5) tree_pmap_def)
    have in_d: "k \<in> {im_min_key m..im_max_key m}" using ok(4) Some by blast
    define hi where "hi = (case NumTreeMaxNode t1 of Some c \<Rightarrow> nt_key c | None \<Rightarrow> im_min_key m)"
    have hi: "im_min_key m \<le> hi" "hi \<le> im_max_key m" "\<forall>j \<in> dom (num_map t1). j \<le> hi"
    proof -
      have "im_min_key m \<le> hi \<and> hi \<le> im_max_key m \<and> (\<forall>j \<in> dom (num_map t1). j \<le> hi)"
      proof (cases "t1 = Leaf")
        case True
        then show ?thesis using ok(3) by (simp add: hi_def im_range_def)
      next
        case False
        obtain c1 where "NumTreeMaxNode t1 = Some c1" "nt_key c1 \<in> dom (num_map t1)"
          "\<forall>j \<in> dom (num_map t1). j \<le> nt_key c1"
          using num_max_node [OF t1(2) False] by blast
        then show ?thesis using d1 by (auto simp: hi_def)
      qed
      then show "im_min_key m \<le> hi" "hi \<le> im_max_key m" "\<forall>j \<in> dom (num_map t1). j \<le> hi" by blast+
    qed
    let ?md = "m\<lparr>im_values := IMTree t1, im_entry_no := im_entry_no m - 1\<rparr>"
    let ?m = "?md\<lparr>im_max_key := hi\<rparr>"
    have hic: "(case NumTreeMaxNode t1 of Some c \<Rightarrow> nt_key c | None \<Rightarrow> im_min_key ?md) = hi"
      by (cases "NumTreeMaxNode t1") (simp_all add: hi_def)
    have m0: "im_ok ?md" "im_map ?md = (im_map m)(k := None)"
      using ok(3) t1(2) v1 p1 d1 by (auto simp: im_ok_def im_map_def im_range_def)
    have m: "im_ok ?m" "im_map ?m = (im_map m)(k := None)"
    proof -
      have "hi \<in> small_keys"
        using small_keys_between [of "im_min_key m" "im_max_key m" hi] hi(1,2) ok(3)
        by (simp add: im_range_def)
      moreover have "dom (num_map t1) \<subseteq> {im_min_key m..hi}"
      proof
        fix x assume x: "x \<in> dom (num_map t1)"
        show "x \<in> {im_min_key m..hi}" using subsetD [OF d1 x] bspec [OF hi(3) x] by simp
      qed
      ultimately show "im_ok ?m" using ok(3) t1(2) v1 hi by (simp add: im_ok_def im_range_def)
      show "im_map ?m = (im_map m)(k := None)" using p1 by (simp add: im_map_def)
    qed
    obtain m1 a1 where m1: "tree_to_array ?m = Some m1" "conv_state ?m m1"
      using tree_to_array_ok [OF m(1), of t1] by auto
    show ?thesis
    proof (cases "k = im_max_key m")
      case False
      then have "IntMapDelKey m k = Some (im_map m k, ?md)"
        using IMTree t1(1) Some c val by (simp add: IntMapDelKey_def)
      then show ?thesis using m0 by simp
    next
      case True
      show ?thesis
      proof (cases "switch_to_array (im_min_key m) hi hi (im_entry_no m - 1)")
        case True
        have "IntMapDelKey m k = Some (im_map m k, m1)"
          using IMTree t1(1) Some c val True \<open>k = im_max_key m\<close> m1(1)
          by (simp add: IntMapDelKey_def Let_def hic)
        then show ?thesis using conv_stateD [OF m1(2)] m(2) by simp
      next
        case False
        have "IntMapDelKey m k = Some (im_map m k, ?m)"
          using IMTree t1(1) Some c val False \<open>k = im_max_key m\<close>
          by (simp add: IntMapDelKey_def Let_def hic)
        then show ?thesis using m by simp
      qed
    qed
  qed
qed

section \<open>Iteration in key order\<close>

definition pairs_on :: "(int \<Rightarrow> 'v option) \<Rightarrow> int list \<Rightarrow> (int \<times> 'v) list" where
  "pairs_on f ks = map (\<lambda>k. (k, the (f k))) (filter (\<lambda>k. f k \<noteq> None) ks)"

lemma pairs_on_simps [simp]:
  "pairs_on f [] = []"
  "pairs_on f (k # ks) = (case f k of None \<Rightarrow> pairs_on f ks | Some v \<Rightarrow> (k, v) # pairs_on f ks)"
  by (auto simp: pairs_on_def)

definition iter_items :: "'v IntMap \<Rightarrow> 'v IntMapIter \<Rightarrow> (int \<times> 'v) list" where
  "iter_items m it = (case (im_values m, it_admin it) of
       (IMSingle (Some v), Seen False) \<Rightarrow> [(im_max_key m, v)]
     | (IMArray a, Current c) \<Rightarrow> pairs_on (arr_map a) [c..it_upper_key it]
     | (IMTree t, TreeIter st) \<Rightarrow>
         cell_pairs (filter (\<lambda>c. nt_key c \<le> it_upper_key it) (trav_items st))
     | _ \<Rightarrow> [])"

definition iter_ok :: "'v IntMap \<Rightarrow> 'v IntMapIter \<Rightarrow> bool" where
  "iter_ok m it = (case (im_values m, it_admin it) of
       (IMEmpty, _) \<Rightarrow> True
     | (IMSingle v, Seen b) \<Rightarrow> True
     | (IMArray a, Current c) \<Rightarrow> arr_ok a
     | (IMTree t, TreeIter st) \<Rightarrow> trav_ok st \<and> sorted_wrt (<) (map nt_key (trav_items st)) \<and>
         (\<forall>c \<in> set (trav_items st). is_p (nt_val1 c))
     | _ \<Rightarrow> False)"

lemma iter_array_loop_ok:
  assumes "arr_ok a"
  shows "\<exists>a' i'. iter_array_loop a i u =
           Some (a', i', case pairs_on (arr_map a) [i..u] of [] \<Rightarrow> None | p # ps \<Rightarrow> Some p) \<and>
         arr_ok a' \<and> arr_map a' = arr_map a \<and>
         pairs_on (arr_map a) [i' + 1..u] = tl (pairs_on (arr_map a) [i..u])"
  using assms
proof (induction "nat (u + 1 - i)" arbitrary: a i rule: less_induct)
  case less
  show ?case
  proof (cases "i \<le> u")
    case False
    then show ?thesis using less.prems by (simp add: iter_array_loop.simps [of a i])
  next
    case True
    obtain a1 where a1: "PDRangeArrElementP a i = Some (a1, arr_map a i)" "arr_ok a1" "arr_map a1 = arr_map a"
      using arr_elementP [OF less.prems] by metis
    have ks: "[i..u] = i # [i + 1..u]" using True by (rule upto_rec1)
    show ?thesis
    proof (cases "arr_map a i")
      case None
      then show ?thesis
        using less.hyps [of "i + 1" a1] a1 True by (simp add: iter_array_loop.simps [of a i] ks)
    next
      case (Some v)
      then show ?thesis using a1 True by (simp add: iter_array_loop.simps [of a i] ks)
    qed
  qed
qed

lemma iter_tree_loop_ok:
  "trav_ok st \<Longrightarrow> trav_items st = cs \<Longrightarrow> sorted_wrt (<) (map nt_key cs) \<Longrightarrow>
   \<forall>c \<in> set cs. is_p (nt_val1 c) \<Longrightarrow>
   \<exists>st'. iter_tree_loop st u =
           Some (case cell_pairs (filter (\<lambda>c. nt_key c \<le> u) cs) of [] \<Rightarrow> None | p # ps \<Rightarrow> Some p, st') \<and>
         trav_ok st' \<and> sorted_wrt (<) (map nt_key (trav_items st')) \<and>
         (\<forall>c \<in> set (trav_items st'). is_p (nt_val1 c)) \<and>
         cell_pairs (filter (\<lambda>c. nt_key c \<le> u) (trav_items st')) =
           tl (cell_pairs (filter (\<lambda>c. nt_key c \<le> u) cs))"
proof (induction cs arbitrary: st)
  case Nil
  then show ?case
    using tree_traverse_next_ok(1) [OF Nil(1,2)]
    by (simp add: iter_tree_loop.simps [of st] NumTreeTraverseNext_def)
next
  case (Cons c cs)
  obtain j where j: "NumTreeTraverseNext st = Some (Some c, j)" "trav_ok j" "trav_items j = cs"
    using tree_traverse_next_ok(2) [OF Cons.prems(1,2)] by (auto simp: NumTreeTraverseNext_def)
  have cs: "sorted_wrt (<) (map nt_key cs)" "\<forall>c \<in> set cs. is_p (nt_val1 c)" "is_p (nt_val1 c)"
    using Cons.prems(3,4) by auto
  show ?case
  proof (cases "nt_key c > u")
    case True
    then have "filter (\<lambda>c. nt_key c \<le> u) cs = []"
      using Cons.prems(3) by (force simp: filter_empty_conv)
    then show ?thesis using True j cs by (simp add: iter_tree_loop.simps [of st])
  next
    case False
    show ?thesis
    proof (cases "ptr_of (nt_val1 c)")
      case None
      then have "iter_tree_loop st u = iter_tree_loop j u"
        "cell_pairs (filter (\<lambda>c. nt_key c \<le> u) (c # cs)) = cell_pairs (filter (\<lambda>c. nt_key c \<le> u) cs)"
        using False j(1) cs(3) by (simp_all add: iter_tree_loop.simps [of st])
      then show ?thesis using Cons.IH [OF j(2,3) cs(1,2)] by metis
    next
      case (Some v)
      then show ?thesis using False j cs by (simp add: iter_tree_loop.simps [of st])
    qed
  qed
qed

lemma IntMapIterNext_ok:
  assumes "iter_ok m it"
  shows "\<exists>m' it'. IntMapIterNext m it =
           Some (case iter_items m it of [] \<Rightarrow> None | p # ps \<Rightarrow> Some p, m', it') \<and>
         iter_ok m' it' \<and> iter_items m' it' = tl (iter_items m it) \<and> im_map m' = im_map m"
proof (cases "im_values m")
  case IMEmpty
  then show ?thesis by (simp add: IntMapIterNext_def iter_ok_def iter_items_def)
next
  case (IMSingle v)
  then obtain b where b: "it_admin it = Seen b"
    using assms by (auto simp: iter_ok_def split: im_admin.splits)
  show ?thesis
    using IMSingle b by (cases b; cases v) (auto simp: IntMapIterNext_def iter_ok_def iter_items_def)
next
  case (IMArray a)
  then obtain c where c: "it_admin it = Current c" "arr_ok a"
    using assms by (auto simp: iter_ok_def split: im_admin.splits)
  obtain a' i' where l: "iter_array_loop a c (it_upper_key it) =
      Some (a', i', case pairs_on (arr_map a) [c..it_upper_key it] of [] \<Rightarrow> None | p # ps \<Rightarrow> Some p)"
    "arr_ok a'" "arr_map a' = arr_map a"
    "pairs_on (arr_map a) [i' + 1..it_upper_key it] = tl (pairs_on (arr_map a) [c..it_upper_key it])"
    using iter_array_loop_ok [OF c(2)] by blast
  show ?thesis
    using IMArray c l by (simp add: IntMapIterNext_def iter_ok_def iter_items_def im_map_def)
next
  case (IMTree t)
  then obtain st where st: "it_admin it = TreeIter st" "trav_ok st"
    "sorted_wrt (<) (map nt_key (trav_items st))" "\<forall>c \<in> set (trav_items st). is_p (nt_val1 c)"
    using assms by (auto simp: iter_ok_def split: im_admin.splits)
  show ?thesis
    using IMTree st(1) iter_tree_loop_ok [OF st(2) refl st(3,4), of "it_upper_key it"]
    by (auto simp: IntMapIterNext_def iter_ok_def iter_items_def im_map_def)
qed

lemma im_iter_loop_ok:
  "iter_ok m it \<Longrightarrow> \<exists>m'. im_iter_loop m it out = Some (out @ iter_items m it, m') \<and> im_map m' = im_map m"
proof (induction "iter_items m it" arbitrary: m it out)
  case Nil
  then show ?case
    using IntMapIterNext_ok [OF Nil(2)] by (auto simp: im_iter_loop.simps [of m it])
next
  case (Cons p ps)
  obtain m' it' where n: "IntMapIterNext m it = Some (Some p, m', it')" "iter_ok m' it'"
    "iter_items m' it' = ps" "im_map m' = im_map m"
    using IntMapIterNext_ok [OF Cons(3)] by (auto simp flip: Cons(2))
  then show ?case
    using Cons(1) [of m' it' "out @ [p]"] Cons(2) [symmetric]
    by (auto simp: im_iter_loop.simps [of m it])
qed

lemma IntMapIterAlloc_ok:
  assumes "im_ok m"
  shows "\<exists>it. IntMapIterAlloc m lo hi = Some it \<and> iter_ok m it \<and>
           sorted_wrt (<) (map fst (iter_items m it)) \<and>
           set (iter_items m it) = {(k, v). im_map m k = Some v \<and> lo \<le> k \<and> k \<le> hi}"
proof (cases "im_values m")
  case IMEmpty
  then show ?thesis by (simp add: IntMapIterAlloc_def iter_ok_def iter_items_def im_map_def)
next
  case (IMSingle v)
  then show ?thesis
    by (cases v) (auto simp: IntMapIterAlloc_def iter_ok_def iter_items_def im_map_def split: if_splits bool.splits)
next
  case (IMArray a)
  then have ok: "arr_ok a" "dom (arr_map a) \<subseteq> {im_min_key m..im_max_key m}"
    using assms by (auto simp: im_ok_def)
  let ?P = "pairs_on (arr_map a) [lo..min hi (im_max_key m)]"
  have "set ?P = {(k, v). arr_map a k = Some v \<and> lo \<le> k \<and> k \<le> hi}"
  proof -
    have "arr_map a k = Some v \<Longrightarrow> k \<le> im_max_key m" for k v using subsetD [OF ok(2), of k] by auto
    then show ?thesis by (auto simp: pairs_on_def)
  qed
  moreover have "sorted_wrt (<) (map fst ?P)"
  proof -
    have "map fst ?P = filter (\<lambda>k. arr_map a k \<noteq> None) [lo..min hi (im_max_key m)]"
      by (simp add: pairs_on_def comp_def)
    then show ?thesis by (simp add: sorted_wrt_filter)
  qed
  ultimately show ?thesis
    using IMArray ok(1) by (simp add: IntMapIterAlloc_def iter_ok_def iter_items_def im_map_def)
next
  case (IMTree t)
  then have ok: "num_ok t" "ptree_vals t" "dom (num_map t) \<subseteq> {im_min_key m..im_max_key m}"
    using assms by (auto simp: im_ok_def)
  obtain st where st: "NumTreeLimitedTraverseInit t lo = Some st" "trav_ok st"
    "trav_items st = filter (\<lambda>c. lo \<le> nt_key c) (inorder t)"
    using NumTreeLimitedTraverseInit_ok [OF ok(1)] by blast
  have srt: "sorted_wrt (<) (map nt_key (inorder t))" using ok(1) by (simp add: num_ok_sorted)
  have srt': "sorted_wrt (<) (map nt_key (filter P (inorder t)))" for P
    using srt by (simp add: sorted_wrt_map sorted_wrt_filter)
  let ?Q = "\<lambda>c. nt_key c \<le> min hi (im_max_key m) \<and> lo \<le> nt_key c"
  let ?P = "cell_pairs (filter ?Q (inorder t))"
  have "set ?P = {(k, v). tree_pmap t k = Some v \<and> lo \<le> k \<and> k \<le> hi}"
  proof -
    have "distinct (map fst (cell_pairs (inorder t)))"
      using cell_pairs_sorted [OF srt] strict_sorted_iff by blast
    then have "tree_pmap t k = Some v \<longleftrightarrow> (k, v) \<in> set (cell_pairs (inorder t))" for k v
      by (simp add: tree_pmap_pairs [OF ok(1)])
    moreover have "c \<in> set_tree t \<Longrightarrow> nt_key c \<le> im_max_key m" for c
      using ok(3) by (auto simp: dom_num_map)
    ultimately show ?thesis by (auto simp: cell_pairs_def image_iff)
  qed
  moreover have "sorted_wrt (<) (map fst ?P)" by (rule cell_pairs_sorted [OF srt'])
  moreover have "\<forall>c \<in> set (trav_items st). is_p (nt_val1 c)"
    using ok(2) by (simp add: st(3) ptree_vals_def)
  ultimately show ?thesis
    using IMTree st srt' [of "\<lambda>c. lo \<le> nt_key c"]
    by (simp add: IntMapIterAlloc_def iter_ok_def iter_items_def im_map_def conj_commute)
qed

lemma im_iterate_ok:
  assumes "im_ok m"
  shows "\<exists>ps m'. im_iterate m lo hi = Some (ps, m') \<and> im_map m' = im_map m \<and>
           sorted_wrt (<) (map fst ps) \<and>
           set ps = {(k, v). im_map m k = Some v \<and> lo \<le> k \<and> k \<le> hi}"
proof -
  obtain it where it: "IntMapIterAlloc m lo hi = Some it" "iter_ok m it"
    "sorted_wrt (<) (map fst (iter_items m it))"
    "set (iter_items m it) = {(k, v). im_map m k = Some v \<and> lo \<le> k \<and> k \<le> hi}"
    using IntMapIterAlloc_ok [OF assms] by blast
  then show ?thesis using im_iter_loop_ok [OF it(2), of "[]"] by (auto simp: im_iterate_def)
qed

section \<open>Properties\<close>

text \<open>C33 Assigning through \<open>IntMapGetRef\<close> ends (at most two changes of representation), never
  trips an assertion, keeps the invariant and updates exactly one entry of the map; and looking
  up any key afterwards returns what the updated map says, whatever representation was chosen.\<close>

theorem IntMap_assign_get:
  assumes "im_ok m" and "k \<in> small_keys" and "j \<in> small_keys"
  shows "\<exists>m1 m2. IntMapAssign m k v = Some m1 \<and> im_ok m1 \<and> im_map m1 = (im_map m)(k := v) \<and>
           IntMapGetVal (Some m1) j = Some (if j = k then v else im_map m j, Some m2) \<and>
           im_ok m2 \<and> im_map m2 = im_map m1"
proof -
  obtain m1 where m1: "IntMapAssign m k v = Some m1" "im_ok m1" "im_map m1 = (im_map m)(k := v)"
    using IntMapAssign_ok [OF assms(1,2)] by blast
  then show ?thesis using IntMapGetVal_ok [OF m1(2) assms(3)] by auto
qed

theorem IntMap_assign_get_witness:
  "\<exists>m1 m2. IntMapAssign (IntMapAlloc undefined) 1000 (Some (5 :: nat)) = Some m1 \<and>
     IntMapGetVal (Some m1) 1000 = Some (Some 5, Some m2)"
  using IntMap_assign_get [of "IntMapAlloc undefined :: nat IntMap" 1000 1000 "Some 5"]
  by (auto simp: im_ok_def IntMapAlloc_def small_keys_def)

text \<open>C34 Deleting a key returns its value (\<open>NULL\<close> if it had none) and removes exactly that entry,
  also where the deletion makes the map change its representation.\<close>

theorem IntMap_delete:
  assumes "im_ok m" and "k \<in> small_keys"
  shows "\<exists>m'. IntMapDelKey m k = Some (im_map m k, m') \<and> im_ok m' \<and> im_map m' = (im_map m)(k := None)"
  by (rule IntMapDelKey_ok [OF assms])

theorem IntMap_delete_witness:
  "\<exists>m'. IntMapDelKey \<lparr>im_values = IMSingle (Some (5 :: nat)), im_entry_no = 1, im_min_key = 3, im_max_key = 3\<rparr> 3
     = Some (Some 5, m') \<and> im_map m' = Map.empty"
  using IntMap_delete [of "\<lparr>im_values = IMSingle (Some (5 :: nat)), im_entry_no = 1, im_min_key = 3, im_max_key = 3\<rparr>" 3]
  by (auto simp: im_ok_def im_map_def im_range_def small_keys_def fun_eq_iff)

text \<open>Iterating over a key range meets exactly the pairs of the map whose key is in the range,
  in ascending order, and does not change the map. The lower end of the range has to be a key whose
  distance from the other keys is a \<open>long\<close>, between \<open>-2^62\<close> and \<open>2^62\<close>, as for the keys themselves; the
  upper end is any \<open>long\<close>. The bound matters for a map that is an array: iterating enlarges the array
  down to the lower end, and from \<open>LONG_MIN\<close>, as \<open>IntMapDebugPrint\<close> does it, the code computes a size
  that overflows.\<close>

theorem IntMap_iterate_sorted:
  assumes "im_ok m" and "lo \<in> small_keys" and "hi \<in> {- (2 ^ 63)..<2 ^ 63}"
  shows "\<exists>ps m'. im_iterate m lo hi = Some (ps, m') \<and> im_map m' = im_map m \<and>
           sorted_wrt (<) (map fst ps) \<and>
           set ps = {(k, v). im_map m k = Some v \<and> lo \<le> k \<and> k \<le> hi}"
  by (rule im_iterate_ok [OF assms(1)])

theorem IntMap_iterate_sorted_witness:
  "\<exists>ps m'. im_iterate \<lparr>im_values = IMSingle (Some (5 :: nat)), im_entry_no = 1, im_min_key = 3, im_max_key = 3\<rparr> 0 9
     = Some (ps, m') \<and> set ps = {(3, 5)}"
proof -
  let ?m = "\<lparr>im_values = IMSingle (Some (5 :: nat)), im_entry_no = 1, im_min_key = 3, im_max_key = 3\<rparr>"
  have "im_ok ?m" by (simp add: im_ok_def im_range_def small_keys_def)
  moreover have "0 \<in> small_keys" "(9 :: int) \<in> {- (2 ^ 63)..<2 ^ 63}" by (simp_all add: small_keys_def)
  moreover have "{(k, v). im_map ?m k = Some v \<and> 0 \<le> k \<and> k \<le> 9} = {(3, 5)}"
    by (auto simp: im_map_def split: if_splits)
  ultimately show ?thesis using IntMap_iterate_sorted [of ?m 0 9] by auto
qed

end
