(* ===== verification/Terms.thy ===== *)
theory Terms
  imports Prelude
begin

text \<open>
  Terms and variable bindings (\<open>TERMS/cte_termtypes.h\<close>, \<open>TERMS/cte_termfunc.c\<close>), first-order
  build. A term cell has its symbol \<open>f_code\<close> (negative for a variable), the property
  \<open>TPPredPos\<close>, a type (0 is \<open>NULL\<close>) and its arguments. Terms are perfectly shared in the
  code, so that two cells are the same cell iff they have the same structure: pointer equality
  is equality of the model's terms. The field \<open>binding\<close> of the cells is the function
  \<open>bindings\<close>, which is passed explicitly.

  \<open>full b t u\<close> says that following all bindings in \<open>t\<close> ends and gives \<open>u\<close>; it is the
  specification of \<open>TermCopyKeepVars(t, DEREF_ALWAYS)\<close>, and \<open>sigma b\<close> is the substitution
  that bindings stand for.
\<close>

section \<open>Term cells\<close>

datatype Term_p =
  TermCell (f_code: int) (t_predpos: bool) (t_type: nat) (t_args: "Term_p list")

type_synonym bindings = "Term_p \<Rightarrow> Term_p option"

definition DEFAULT_VWEIGHT :: int where "DEFAULT_VWEIGHT = 1"

definition DEFAULT_FWEIGHT :: int where "DEFAULT_FWEIGHT = 2"

definition DEREF_NEVER :: nat where "DEREF_NEVER = 0"

definition DEREF_ONCE :: nat where "DEREF_ONCE = 1"

definition DEREF_ALWAYS :: nat where "DEREF_ALWAYS = 2"

lemmas deref_defs = DEREF_NEVER_def DEREF_ONCE_def DEREF_ALWAYS_def

definition TermIsFreeVar :: "Term_p \<Rightarrow> bool" where
  "TermIsFreeVar t \<longleftrightarrow> f_code t < 0"

definition arity :: "Term_p \<Rightarrow> nat" where
  "arity t = length (t_args t)"

definition TermIsConst :: "Term_p \<Rightarrow> bool" where
  "TermIsConst t \<longleftrightarrow> \<not> TermIsFreeVar t \<and> arity t = 0"

definition TermTopCopy :: "Term_p \<Rightarrow> Term_p" where
  "TermTopCopy source = TermCell (f_code source) (t_predpos source) (t_type source) (t_args source)"

section \<open>Following bindings\<close>

text \<open>The loops of \<open>TermDerefAlways\<close> and \<open>TermDeref\<close>.\<close>

partial_function (option) deref_always :: "bindings \<Rightarrow> Term_p \<Rightarrow> Term_p option" where [code]:
  "deref_always b t = (case b t of None \<Rightarrow> Some t | Some t' \<Rightarrow> deref_always b t')"

primrec deref_count :: "bindings \<Rightarrow> nat \<Rightarrow> Term_p \<Rightarrow> Term_p \<times> nat" where
  "deref_count b 0 t = (t, 0)"
| "deref_count b (Suc d) t = (case b t of None \<Rightarrow> (t, Suc d) | Some t' \<Rightarrow> deref_count b d t')"

definition TermDerefAlways :: "bindings \<Rightarrow> Term_p \<Rightarrow> Term_p option" where
  "TermDerefAlways b t = do { c_assert (TermIsFreeVar t \<or> b t = None); deref_always b t }"

definition TermDeref :: "bindings \<Rightarrow> Term_p \<Rightarrow> nat \<Rightarrow> (Term_p \<times> nat) option" where
  "TermDeref b t deref =
     do { c_assert (TermIsFreeVar t \<or> b t = None);
          if deref = DEREF_ALWAYS
          then do { t \<leftarrow> deref_always b t; Some (t, deref) }
          else Some (deref_count b deref t) }"

partial_function (option) TermCopyKeepVars :: "bindings \<Rightarrow> Term_p \<Rightarrow> nat \<Rightarrow> Term_p option" where [code]:
  "TermCopyKeepVars b source deref =
     do { (source, deref) \<leftarrow> TermDeref b source deref;
          if TermIsFreeVar source then Some source
          else do { let handle = TermTopCopy source;
                    as \<leftarrow> map_opt (\<lambda>a. TermCopyKeepVars b a deref) (t_args handle);
                    Some (TermCell (f_code handle) (t_predpos handle) (t_type handle) as) } }"

section \<open>Weights\<close>

fun TermWeightCompute :: "Term_p \<Rightarrow> int \<Rightarrow> int \<Rightarrow> int" where
  "TermWeightCompute (TermCell f p ty as) vweight fweight =
     (if f < 0 then vweight
      else fweight + sum_list (map (\<lambda>a. TermWeightCompute a vweight fweight) as))"

definition TermDefaultWeight :: "Term_p \<Rightarrow> int" where
  "TermDefaultWeight t = TermWeightCompute t DEFAULT_VWEIGHT DEFAULT_FWEIGHT"

text \<open>
  For a shared term the code reads the cached field \<open>weight\<close>, which an assertion says is the
  same.
\<close>

definition TermStandardWeight :: "Term_p \<Rightarrow> int" where
  "TermStandardWeight t = TermDefaultWeight t"

section \<open>Structural equality\<close>

definition t_arg :: "Term_p \<Rightarrow> nat \<Rightarrow> Term_p option" where
  "t_arg t i = (if i < arity t then Some (t_args t ! i) else None)"

partial_function (option) TermStructEqualNoDeref :: "Term_p \<Rightarrow> Term_p \<Rightarrow> bool option" where [code]:
  "TermStructEqualNoDeref t1 t2 =
     (if t1 = t2 then Some True
      else if f_code t1 \<noteq> f_code t2 then Some False
      else do { c_assert (t_type t1 = t_type t2);
                c_assert (arity t1 = arity t2);
                all_opt (\<lambda>i. do { a \<leftarrow> t_arg t1 i; a' \<leftarrow> t_arg t2 i; TermStructEqualNoDeref a a' })
                  [0..<arity t1] })"

partial_function (option) TermStructEqualDeref ::
  "bindings \<Rightarrow> Term_p \<Rightarrow> Term_p \<Rightarrow> nat \<Rightarrow> nat \<Rightarrow> bool option" where [code]:
  "TermStructEqualDeref b t1 t2 deref_1 deref_2 =
     do { (t1, deref_1) \<leftarrow> TermDeref b t1 deref_1;
          (t2, deref_2) \<leftarrow> TermDeref b t2 deref_2;
          if t_type t1 \<noteq> t_type t2 then Some False
          else if deref_1 = DEREF_NEVER \<and> deref_2 = DEREF_NEVER then Some (t1 = t2)
          else if t1 = t2 \<and> deref_1 = deref_2 then Some True
          else if f_code t1 \<noteq> f_code t2 then Some False
          else do { c_assert (arity t1 = arity t2);
                    all_opt (\<lambda>i. do { a \<leftarrow> t_arg t1 i; a' \<leftarrow> t_arg t2 i;
                                     TermStructEqualDeref b a a' deref_1 deref_2 })
                      [0..<arity t1] } }"

definition TermStructEqual :: "bindings \<Rightarrow> Term_p \<Rightarrow> Term_p \<Rightarrow> bool option" where
  "TermStructEqual b t1 t2 = TermStructEqualDeref b t1 t2 DEREF_ALWAYS DEREF_ALWAYS"

section \<open>Subterms and the occur check\<close>

partial_function (option) TermIsSubterm :: "bindings \<Rightarrow> Term_p \<Rightarrow> Term_p \<Rightarrow> nat \<Rightarrow> bool option" where [code]:
  "TermIsSubterm b super test deref =
     do { (super, deref) \<leftarrow> TermDeref b super deref;
          if super = test then Some True
          else any_opt (\<lambda>a. TermIsSubterm b a test deref) (t_args super) }"

partial_function (option) TermIsSubtermDeref ::
  "bindings \<Rightarrow> Term_p \<Rightarrow> Term_p \<Rightarrow> nat \<Rightarrow> nat \<Rightarrow> bool option" where [code]:
  "TermIsSubtermDeref b super test deref_super deref_test =
     do { (super, deref_super) \<leftarrow> TermDeref b super deref_super;
          eq \<leftarrow> TermStructEqualDeref b super test deref_super deref_test;
          if eq then Some True
          else any_opt (\<lambda>a. TermIsSubtermDeref b a test deref_super deref_test) (t_args super) }"

section \<open>Well-formed terms and substitutions\<close>

text \<open>
  The signature gives every function symbol its arity, its result type, whether it is a
  predicate, and its property bits; in the first-order build all cells of a symbol agree on
  the first three. \<open>sg_distinct\<close> is the set of property bits of distinct objects and
  \<open>sg_f_count\<close> the largest symbol in use. Types are numbered by their \<open>type_uid\<close>.
\<close>

record Sig =
  sg_arity :: "int \<Rightarrow> nat"
  sg_type :: "int \<Rightarrow> nat"
  sg_pred :: "int \<Rightarrow> bool"
  sg_props :: "int \<Rightarrow> int"
  sg_distinct :: int
  sg_f_count :: int

fun wf_term :: "Sig \<Rightarrow> Term_p \<Rightarrow> bool" where
  "wf_term sg (TermCell f p ty as) \<longleftrightarrow> ty \<noteq> 0 \<and>
     (if f < 0 then as = [] \<and> \<not> p
      else length as = sg_arity sg f \<and> ty = sg_type sg f \<and> p = sg_pred sg f \<and>
           (\<forall>a \<in> set as. wf_term sg a))"

fun term_vars :: "Term_p \<Rightarrow> Term_p set" where
  "term_vars (TermCell f p ty as) =
     (if f < 0 then {TermCell f p ty as} else \<Union>a \<in> set as. term_vars a)"

fun inst :: "(Term_p \<Rightarrow> Term_p) \<Rightarrow> Term_p \<Rightarrow> Term_p" where
  "inst \<theta> (TermCell f p ty as) =
     (if f < 0 then \<theta> (TermCell f p ty as) else TermCell f p ty (map (inst \<theta>) as))"

text \<open>The multiset of the variable occurrences of a term.\<close>

fun var_mset :: "Term_p \<Rightarrow> Term_p multiset" where
  "var_mset (TermCell f p ty as) =
     (if f < 0 then {#TermCell f p ty as#} else sum_list (map var_mset as))"

definition binds_ok :: "Sig \<Rightarrow> bindings \<Rightarrow> bool" where
  "binds_ok sg b \<longleftrightarrow> (\<forall>v t. b v = Some t \<longrightarrow>
     TermIsFreeVar v \<and> wf_term sg v \<and> wf_term sg t \<and> t_type t = t_type v)"

inductive full :: "bindings \<Rightarrow> Term_p \<Rightarrow> Term_p \<Rightarrow> bool" for b where
  full_unbound: "TermIsFreeVar v \<Longrightarrow> b v = None \<Longrightarrow> full b v v"
| full_bound: "TermIsFreeVar v \<Longrightarrow> b v = Some t \<Longrightarrow> full b t u \<Longrightarrow> full b v u"
| full_fun: "\<not> f < 0 \<Longrightarrow> list_all2 (full b) as us \<Longrightarrow> full b (TermCell f p ty as) (TermCell f p ty us)"

definition subst_wf :: "Sig \<Rightarrow> bindings \<Rightarrow> bool" where
  "subst_wf sg b \<longleftrightarrow> binds_ok sg b \<and> (\<forall>t. wf_term sg t \<longrightarrow> (\<exists>u. full b t u))"

definition sigma :: "bindings \<Rightarrow> Term_p \<Rightarrow> Term_p" where
  "sigma b t = the (TermCopyKeepVars b t DEREF_ALWAYS)"

lemma TermIsFreeVar_simp [simp]: "TermIsFreeVar (TermCell f p ty as) \<longleftrightarrow> f < 0"
  by (simp add: TermIsFreeVar_def)

lemma arity_simp [simp]: "arity (TermCell f p ty as) = length as"
  by (simp add: arity_def)

lemma binds_okD:
  assumes "binds_ok sg b" and "b v = Some t"
  shows "TermIsFreeVar v" "wf_term sg v" "wf_term sg t" "t_type t = t_type v"
  using assms by (auto simp: binds_ok_def)

lemma binds_ok_fun: "binds_ok sg b \<Longrightarrow> \<not> TermIsFreeVar t \<Longrightarrow> b t = None"
  using binds_okD(1) by (cases "b t") blast+

lemma wf_term_var_vars: "TermIsFreeVar t \<Longrightarrow> term_vars t = {t}"
  by (cases t) simp

lemma inst_var [simp]: "TermIsFreeVar t \<Longrightarrow> inst \<theta> t = \<theta> t"
  by (cases t) simp

lemma inst_id: "(\<And>v. v \<in> term_vars t \<Longrightarrow> \<theta> v = v) \<Longrightarrow> inst \<theta> t = t"
proof (induction t)
  case (TermCell f p ty as)
  have "inst \<theta> a = a" if "a \<in> set as" "\<not> f < 0" for a
    using TermCell that by (metis UN_I term_vars.simps)
  then show ?case using TermCell.prems by (auto intro!: map_idI)
qed

lemma inst_cong: "(\<And>v. v \<in> term_vars t \<Longrightarrow> \<theta> v = \<eta> v) \<Longrightarrow> inst \<theta> t = inst \<eta> t"
proof (induction t)
  case (TermCell f p ty as)
  have "inst \<theta> a = inst \<eta> a" if "a \<in> set as" "\<not> f < 0" for a
    using TermCell that by (metis UN_I term_vars.simps)
  then show ?case using TermCell.prems by auto
qed

lemma inst_comp: "inst \<theta> (inst \<eta> t) = inst (\<lambda>v. inst \<theta> (\<eta> v)) t"
  by (induction t) auto

lemma term_vars_inst: "term_vars (inst \<theta> t) = (\<Union>v \<in> term_vars t. term_vars (\<theta> v))"
  by (induction t) auto

lemma term_vars_free: "v \<in> term_vars t \<Longrightarrow> TermIsFreeVar v"
  by (induction t) (auto split: if_splits)

lemma term_vars_wf: "wf_term sg t \<Longrightarrow> v \<in> term_vars t \<Longrightarrow> wf_term sg v"
  by (induction t) (auto split: if_splits)

lemma sum_list_mset_mem: "x \<in># sum_list ms \<longleftrightarrow> (\<exists>m \<in> set ms. x \<in># m)"
  by (induction ms) auto

lemma set_var_mset [simp]: "set_mset (var_mset t) = term_vars t"
  by (induction t) (auto simp: sum_list_mset_mem)

lemma finite_term_vars [simp]: "finite (term_vars t)"
  by (induction t) auto

section \<open>Full dereferencing\<close>

inductive_cases full_varE: "full b (TermCell f p ty as) u"

lemma full_funE:
  assumes "full b (TermCell f p ty as) u" and "\<not> f < 0"
  obtains us where "u = TermCell f p ty us" "list_all2 (full b) as us"
  using assms by (auto elim: full_varE)

lemma full_unboundE: "full b v u \<Longrightarrow> TermIsFreeVar v \<Longrightarrow> b v = None \<Longrightarrow> u = v"
  by (erule full.cases) (auto simp: TermIsFreeVar_def)

lemma full_boundE: "full b v u \<Longrightarrow> b v = Some t \<Longrightarrow> TermIsFreeVar v \<Longrightarrow> full b t u"
  by (erule full.cases) (auto simp: TermIsFreeVar_def)

lemma full_deref:
  assumes "full b t u" and "binds_ok sg b"
  shows "\<exists>t'. deref_always b t = Some t' \<and> full b t' u \<and> b t' = None \<and>
           (TermIsFreeVar t \<or> t' = t) \<and> (wf_term sg t \<longrightarrow> wf_term sg t') \<and>
           (wf_term sg t \<longrightarrow> t_type t' = t_type t)"
  using assms
proof (induction rule: full.induct)
  case (full_unbound v)
  then show ?case by (subst deref_always.simps) (auto intro: full.intros)
next
  case (full_bound v t u)
  then obtain t' where "deref_always b t = Some t'" "full b t' u" "b t' = None"
    "wf_term sg t \<longrightarrow> wf_term sg t'" "wf_term sg t \<longrightarrow> t_type t' = t_type t" by blast
  then show ?case
    using full_bound binds_okD [OF full_bound.prems full_bound.hyps(2)]
    by (subst deref_always.simps) auto
next
  case (full_fun f as us p ty)
  then have "list_all2 (full b) as us" by (auto elim: list_all2_mono)
  moreover have "b (TermCell f p ty as) = None"
    using full_fun by (intro binds_ok_fun) auto
  ultimately show ?case
    using full_fun.hyps by (subst deref_always.simps) (auto intro: full.intros)
qed

lemma full_det: "full b t u \<Longrightarrow> full b t u' \<Longrightarrow> u = u'"
proof (induction arbitrary: u' rule: full.induct)
  case (full_unbound v)
  then show ?case using full_unboundE by blast
next
  case (full_bound v t u)
  then show ?case using full_boundE by blast
next
  case (full_fun f as us p ty)
  then obtain us' where u': "u' = TermCell f p ty us'" "list_all2 (full b) as us'"
    by (blast elim: full_funE)
  have "us = us'"
    using full_fun.IH u'(2)
    by (auto simp: list_all2_conv_all_nth intro!: nth_equalityI)
  then show ?case using u' by simp
qed

lemma full_unbound_vars: "full b t u \<Longrightarrow> v \<in> term_vars u \<Longrightarrow> b v = None"
proof (induction rule: full.induct)
  case (full_unbound w)
  then show ?case by (simp add: wf_term_var_vars)
next
  case (full_fun f as us p ty)
  then obtain u where "u \<in> set us" "v \<in> term_vars u" by (auto split: if_splits)
  then show ?case using full_fun.IH by (auto simp: in_set_conv_nth list_all2_conv_all_nth)
qed

lemma full_refl: "(\<And>v. v \<in> term_vars t \<Longrightarrow> b v = None) \<Longrightarrow> full b t t"
proof (induction t)
  case (TermCell f p ty as)
  show ?case
  proof (cases "f < 0")
    case True
    then show ?thesis using TermCell.prems by (intro full.full_unbound) auto
  next
    case False
    then have "full b a a" if "a \<in> set as" for a using TermCell that by auto
    then show ?thesis using False by (intro full.full_fun) (auto simp: list_all2_same)
  qed
qed

lemma full_wf:
  "full b t u \<Longrightarrow> binds_ok sg b \<Longrightarrow> wf_term sg t \<Longrightarrow> wf_term sg u \<and> t_type u = t_type t"
proof (induction rule: full.induct)
  case (full_bound v t u)
  then show ?case using binds_okD [OF full_bound.prems(1)] by metis
next
  case (full_fun f as us p ty)
  have "length as = length us" using full_fun.IH by (rule list_all2_lengthD)
  moreover have "wf_term sg u" if u: "u \<in> set us" for u
  proof -
    obtain i where i: "i < length us" "u = us ! i" using u by (auto simp: in_set_conv_nth)
    then have "as ! i \<in> set as" using \<open>length as = length us\<close> by simp
    then have "wf_term sg (as ! i)" using full_fun.prems full_fun.hyps by simp
    then show ?thesis using full_fun.IH full_fun.prems(1) i by (simp add: list_all2_conv_all_nth)
  qed
  ultimately show ?case using full_fun.prems full_fun.hyps by simp
qed simp

text \<open>\<open>TermCopyKeepVars\<close> with \<open>DEREF_ALWAYS\<close> computes full dereferencing.\<close>

lemma TermCopyKeepVars_full:
  assumes "full b t u" and "binds_ok sg b"
  shows "TermCopyKeepVars b t DEREF_ALWAYS = Some u"
  using assms
proof (induction rule: full.induct)
  case (full_unbound v)
  then show ?case
    by (subst TermCopyKeepVars.simps) (simp add: TermDeref_def deref_always.simps)
next
  case (full_bound v t u)
  then have "TermIsFreeVar t \<or> b t = None" using binds_okD(1) by (cases "b t") blast+
  then have "TermDeref b v DEREF_ALWAYS = TermDeref b t DEREF_ALWAYS"
    using full_bound by (simp add: TermDeref_def deref_always.simps [of b v])
  then show ?case
    using full_bound
    by (subst TermCopyKeepVars.simps) (simp add: TermCopyKeepVars.simps [of b t])
next
  case (full_fun f as us p ty)
  have "b (TermCell f p ty as) = None" using full_fun by (intro binds_ok_fun) auto
  moreover have "map_opt (\<lambda>a. TermCopyKeepVars b a DEREF_ALWAYS) as = Some us"
    using full_fun by (auto simp: map_opt_Some elim!: list_all2_mono)
  ultimately show ?case
    using full_fun.hyps
    by (subst TermCopyKeepVars.simps) (simp add: TermDeref_def deref_always.simps TermTopCopy_def)
qed

section \<open>The substitution bindings stand for\<close>

lemma sigma_full: "subst_wf sg b \<Longrightarrow> wf_term sg t \<Longrightarrow> full b t (sigma b t)"
  unfolding subst_wf_def sigma_def using TermCopyKeepVars_full by force

lemma sigma_eq: "full b t u \<Longrightarrow> binds_ok sg b \<Longrightarrow> sigma b t = u"
  by (simp add: sigma_def TermCopyKeepVars_full)

lemma sigma_unbound: "binds_ok sg b \<Longrightarrow> TermIsFreeVar v \<Longrightarrow> b v = None \<Longrightarrow> sigma b v = v"
  by (rule sigma_eq [OF full.full_unbound])

lemma sigma_bound:
  assumes "subst_wf sg b" and "b v = Some t"
  shows "sigma b v = sigma b t"
proof -
  have ok: "binds_ok sg b" using assms by (simp add: subst_wf_def)
  have "full b t (sigma b t)" using sigma_full assms binds_okD(3) [OF ok] by blast
  then show ?thesis
    using sigma_eq [OF full.full_bound ok] assms(2) binds_okD(1) [OF ok] by blast
qed

lemma sigma_fun:
  assumes "subst_wf sg b" and "wf_term sg (TermCell f p ty as)" and "\<not> f < 0"
  shows "sigma b (TermCell f p ty as) = TermCell f p ty (map (sigma b) as)"
proof -
  have "list_all2 (full b) as (map (sigma b) as)"
    using assms by (auto simp: list_all2_conv_all_nth intro!: sigma_full)
  then show ?thesis
    using sigma_eq [OF full.full_fun] assms by (auto simp: subst_wf_def)
qed

lemma sigma_inst: "subst_wf sg b \<Longrightarrow> wf_term sg t \<Longrightarrow> sigma b t = inst (sigma b) t"
proof (induction t)
  case (TermCell f p ty as)
  then show ?case by (cases "f < 0") (auto simp: sigma_fun)
qed

lemma sigma_wf:
  assumes "subst_wf sg b" and "wf_term sg t"
  shows "wf_term sg (sigma b t)" "t_type (sigma b t) = t_type t"
    "\<And>v. v \<in> term_vars (sigma b t) \<Longrightarrow> b v = None"
  using full_wf [OF sigma_full [OF assms] _ assms(2)] full_unbound_vars [OF sigma_full [OF assms]] assms(1)
  by (auto simp: subst_wf_def)

lemma sigma_deref:
  assumes "subst_wf sg b" and "wf_term sg t"
  shows "\<exists>t'. TermDerefAlways b t = Some t' \<and> wf_term sg t' \<and> b t' = None \<and> sigma b t' = sigma b t \<and>
           t_type t' = t_type t \<and> (TermIsFreeVar t \<or> t' = t)"
proof -
  have ok: "binds_ok sg b" using assms by (simp add: subst_wf_def)
  obtain t' where "deref_always b t = Some t'" "full b t' (sigma b t)" "b t' = None"
    "TermIsFreeVar t \<or> t' = t" "wf_term sg t'" "t_type t' = t_type t"
    using full_deref [OF sigma_full [OF assms] ok] assms(2) by blast
  moreover have "TermIsFreeVar t \<or> b t = None" using binds_ok_fun [OF ok, of t] by (cases "TermIsFreeVar t") simp_all
  ultimately have "TermDerefAlways b t = Some t'" "sigma b t' = sigma b t"
    by (simp_all add: TermDerefAlways_def sigma_eq [OF _ ok])
  then show ?thesis using \<open>TermIsFreeVar t \<or> t' = t\<close> \<open>wf_term sg t'\<close> \<open>t_type t' = t_type t\<close> \<open>b t' = None\<close>
    by blast
qed

text \<open>Adding a binding composes the substitution with it.\<close>

lemma full_upd_fresh:
  "full b t u \<Longrightarrow> v \<notin> term_vars u \<Longrightarrow> b v = None \<Longrightarrow> full (b(v \<mapsto> s)) t u"
proof (induction rule: full.induct)
  case (full_unbound w)
  then have "w \<noteq> v" by (auto simp: wf_term_var_vars)
  then show ?case using full_unbound by (intro full.full_unbound) auto
next
  case (full_bound w t u)
  then have "w \<noteq> v" by auto
  then show ?case using full_bound by (intro full.full_bound [of w _ t]) auto
next
  case (full_fun f as us p ty)
  then have "list_all2 (full (b(v \<mapsto> s))) as us"
    by (auto simp: list_all2_conv_all_nth simp del: fun_upd_apply)
  then show ?case using full_fun by (intro full.full_fun)
qed

lemma full_upd:
  assumes "full b t u" and "b v = None" and "TermIsFreeVar v" and "full b s s'" and "v \<notin> term_vars s'"
  shows "full (b(v \<mapsto> s)) t (inst (\<lambda>w. if w = v then s' else w) u)"
  using assms(1)
proof (induction rule: full.induct)
  case (full_unbound w)
  have "full (b(v \<mapsto> s)) v s'"
    by (rule full.full_bound [OF assms(3) _ full_upd_fresh [OF assms(4,5,2)]]) simp
  then show ?case
    using full_unbound by (cases "w = v") (auto intro!: full.full_unbound simp del: fun_upd_apply, simp)
next
  case (full_bound w t u)
  then have "w \<noteq> v" using assms(2) by auto
  then show ?case using full_bound by (intro full.full_bound [of w _ t]) auto
next
  case (full_fun f as us p ty)
  then have "list_all2 (full (b(v \<mapsto> s))) as (map (inst (\<lambda>w. if w = v then s' else w)) us)"
    by (auto simp: list_all2_conv_all_nth simp del: fun_upd_apply)
  then show ?case using full_fun by (auto intro!: full.full_fun simp del: fun_upd_apply)
qed

lemma subst_wf_upd:
  assumes "subst_wf sg b" and "b v = None" and "TermIsFreeVar v" and "wf_term sg v" and "wf_term sg s"
    and "t_type s = t_type v" and "v \<notin> term_vars (sigma b s)"
  shows "subst_wf sg (b(v \<mapsto> s))"
    and "wf_term sg t \<Longrightarrow> sigma (b(v \<mapsto> s)) t = inst (\<lambda>w. if w = v then sigma b s else w) (sigma b t)"
proof -
  have ok: "binds_ok sg (b(v \<mapsto> s))"
    using assms by (auto simp: subst_wf_def binds_ok_def)
  have full': "full (b(v \<mapsto> s)) t (inst (\<lambda>w. if w = v then sigma b s else w) (sigma b t))"
    if "wf_term sg t" for t
    using full_upd [OF sigma_full [OF assms(1) that] assms(2,3) sigma_full [OF assms(1,5)] assms(7)] .
  show "subst_wf sg (b(v \<mapsto> s))" using ok full' by (auto simp: subst_wf_def)
  show "wf_term sg t \<Longrightarrow> sigma (b(v \<mapsto> s)) t = inst (\<lambda>w. if w = v then sigma b s else w) (sigma b t)"
    using sigma_eq [OF full' ok] by blast
qed

text \<open>A larger set of bindings absorbs a smaller one.\<close>

lemma sigma_absorb:
  assumes "full b0 t u" and "subst_wf sg b0" and "subst_wf sg b" and "b0 \<subseteq>\<^sub>m b" and "wf_term sg t"
  shows "inst (sigma b) u = sigma b t"
  using assms
proof (induction rule: full.induct)
  case (full_unbound v)
  then show ?case by simp
next
  case (full_bound v t u)
  have "b v = Some t" using full_bound.prems full_bound.hyps by (metis domI map_le_def)
  moreover have "wf_term sg t" using full_bound.prems(1) full_bound.hyps(2)
    by (auto simp: subst_wf_def binds_ok_def)
  ultimately show ?case using full_bound sigma_bound by metis
next
  case (full_fun f as us p ty)
  have "map (inst (sigma b)) us = map (sigma b) as"
    using full_fun by (auto simp: list_all2_conv_all_nth intro!: nth_equalityI)
  then show ?case using full_fun sigma_fun by auto
qed

lemma subst_wf_empty: "subst_wf sg (\<lambda>_. None)"
  by (auto simp: subst_wf_def binds_ok_def intro: full_refl)

section \<open>A sample signature\<close>

text \<open>
  Constants, a unary and a binary symbol, \<open>$true\<close> (1), \<open>$false\<close> (2) and a unary predicate (24) of
  another type, and variables, for concrete instances.
\<close>

definition sample_sig :: Sig where
  "sample_sig = \<lparr>sg_arity = (\<lambda>f. if f = 20 then 2 else if f = 22 \<or> f = 24 then 1 else 0),
                 sg_type = (\<lambda>f. if f = 1 \<or> f = 2 \<or> f = 24 then 2 else 1), sg_pred = (\<lambda>f. f = 24), sg_props = (\<lambda>f. 0),
                 sg_distinct = 0, sg_f_count = 22\<rparr>"

definition sample_var :: "int \<Rightarrow> Term_p" where
  "sample_var i = TermCell (- i) False 1 []"

definition sample_const :: "int \<Rightarrow> Term_p" where
  "sample_const c = TermCell c False 1 []"

definition sample_f :: "Term_p \<Rightarrow> Term_p \<Rightarrow> Term_p" where
  "sample_f x y = TermCell 20 False 1 [x, y]"

definition sample_g :: "Term_p \<Rightarrow> Term_p" where
  "sample_g x = TermCell 22 False 1 [x]"

lemmas sample_defs = sample_sig_def sample_var_def sample_const_def sample_f_def sample_g_def

end
