(* ===== verification/PDArrays.thy ===== *)
theory PDArrays
  imports Prelude
begin

text \<open>
  Dynamic arrays (\<open>BASICS/clb_pdarrays.h\<close>, \<open>BASICS/clb_pdarrays.c\<close>): an access behind the end
  enlarges the array, and new cells hold 0 or \<open>NULL\<close>. The model is polymorphic in what a cell
  holds, integers or addresses, with 0 for \<open>NULL\<close>; indices are \<open>long\<close>. \<open>pda_val a i\<close> is the
  value of cell \<open>i\<close> of the unbounded array that \<open>a\<close> stands for.
\<close>

section \<open>The data structure\<close>

record 'a PDArray =
  pda_integer :: bool
  pda_size :: nat
  pda_grow :: nat
  pda_array :: "'a mem"

definition GROW_EXPONENTIAL :: nat where "GROW_EXPONENTIAL = 0"

definition pda_alloc :: "bool \<Rightarrow> int \<Rightarrow> int \<Rightarrow> ('a::zero) PDArray option" where
  "pda_alloc integer init_size grow =
     do { c_assert (init_size > 0);
          c_assert (grow \<ge> 0);
          let handle = \<lparr>pda_integer = integer, pda_size = nat init_size, pda_grow = nat grow,
                        pda_array = mem_alloc (nat init_size)\<rparr>;
          m \<leftarrow> foldM (\<lambda>m i. mem_set m i 0) (pda_array handle) [0..<pda_size handle];
          Some (handle\<lparr>pda_array := m\<rparr>) }"

definition PDArrayAlloc :: "int \<Rightarrow> int \<Rightarrow> ('a::zero) PDArray option" where
  "PDArrayAlloc init_size grow = pda_alloc False init_size grow"

definition PDIntArrayAlloc :: "int \<Rightarrow> int \<Rightarrow> int PDArray option" where
  "PDIntArrayAlloc init_size grow = pda_alloc True init_size grow"

text \<open>The loop that doubles the size; it would not end on an array of size 0.\<close>

partial_function (option) pda_double :: "nat \<Rightarrow> int \<Rightarrow> nat option" where [code]:
  "pda_double sz idx = (if int sz \<le> idx then pda_double (sz * 2) idx else Some sz)"

definition PDArrayEnlarge :: "('a::zero) PDArray \<Rightarrow> int \<Rightarrow> 'a PDArray option" where
  "PDArrayEnlarge a idx =
     do { let old_size = pda_size a;
          let tmp = pda_array a;
          new_size \<leftarrow> (if pda_grow a \<noteq> 0 then Some ((nat idx div pda_grow a + 1) * pda_grow a)
                       else pda_double (pda_size a) idx);
          c_assert (old_size \<le> new_size);
          let m = mem_copy (mem_alloc new_size) tmp old_size;
          m \<leftarrow> foldM (\<lambda>m i. mem_set m i 0) m [old_size..<new_size];
          Some (a\<lparr>pda_size := new_size, pda_array := m\<rparr>) }"

text \<open>A reference into the array is the position of its cell.\<close>

definition PDArrayElementRef :: "('a::zero) PDArray \<Rightarrow> int \<Rightarrow> ('a PDArray \<times> nat) option" where
  "PDArrayElementRef a idx =
     do { c_assert (idx \<ge> 0);
          a \<leftarrow> (if idx \<ge> int (pda_size a) then PDArrayEnlarge a idx else Some a);
          Some (a, nat idx) }"

definition PDArrayElement :: "('a::zero) PDArray \<Rightarrow> int \<Rightarrow> ('a PDArray \<times> 'a) option" where
  "PDArrayElement a idx =
     do { (a, ref) \<leftarrow> PDArrayElementRef a idx; x \<leftarrow> mem_get (pda_array a) ref; Some (a, x) }"

definition PDArrayAssign :: "('a::zero) PDArray \<Rightarrow> int \<Rightarrow> 'a \<Rightarrow> 'a PDArray option" where
  "PDArrayAssign a idx value =
     do { (a, ref) \<leftarrow> PDArrayElementRef a idx;
          m \<leftarrow> mem_set (pda_array a) ref value;
          Some (a\<lparr>pda_array := m\<rparr>) }"

definition PDArrayElementInt :: "int PDArray \<Rightarrow> int \<Rightarrow> (int PDArray \<times> int) option" where
  "PDArrayElementInt a idx = PDArrayElement a idx"

definition PDArrayAssignInt :: "int PDArray \<Rightarrow> int \<Rightarrow> int \<Rightarrow> int PDArray option" where
  "PDArrayAssignInt a idx value = PDArrayAssign a idx value"

definition PDArrayElementP :: "('a::zero) PDArray \<Rightarrow> int \<Rightarrow> ('a PDArray \<times> 'a) option" where
  "PDArrayElementP a idx = PDArrayElement a idx"

definition PDArrayAssignP :: "('a::zero) PDArray \<Rightarrow> int \<Rightarrow> 'a \<Rightarrow> 'a PDArray option" where
  "PDArrayAssignP a idx value = PDArrayAssign a idx value"

text \<open>The copy is allocated as an array of pointers, whatever the original is.\<close>

definition PDArrayCopy :: "('a::zero) PDArray \<Rightarrow> 'a PDArray option" where
  "PDArrayCopy a =
     do { handle \<leftarrow> PDArrayAlloc (int (pda_size a)) (int (pda_grow a));
          m \<leftarrow> foldM (\<lambda>m i. mem_move m i (pda_array a) i) (pda_array handle) [0..<pda_size a];
          Some (handle\<lparr>pda_array := m\<rparr>) }"

definition PDArrayElementDeleteP :: "('a::zero) PDArray \<Rightarrow> int \<Rightarrow> 'a PDArray option" where
  "PDArrayElementDeleteP a idx =
     (if idx < int (pda_size a) then PDArrayAssignP a idx 0 else Some a)"

definition PDArrayElementDeleteInt :: "int PDArray \<Rightarrow> int \<Rightarrow> int PDArray option" where
  "PDArrayElementDeleteInt a idx =
     (if idx < int (pda_size a) then PDArrayAssignInt a idx 0 else Some a)"

definition PDArrayMembers :: "('a::zero) PDArray \<Rightarrow> (nat \<times> 'a PDArray) option" where
  "PDArrayMembers a =
     foldM (\<lambda>(res, a) i. do { (a, p) \<leftarrow> PDArrayElementP a (int i);
                              Some (if p \<noteq> 0 then res + 1 else res, a) })
       (0, a) [0..<pda_size a]"

primrec first_unused :: "('a::zero) PDArray \<Rightarrow> nat \<Rightarrow> nat option" where
  "first_unused a 0 = Some 0"
| "first_unused a (Suc i) =
     do { (a, p) \<leftarrow> PDArrayElementP a (int i); if p \<noteq> 0 then Some (Suc i) else first_unused a i }"

definition PDArrayFirstUnused :: "('a::zero) PDArray \<Rightarrow> nat option" where
  "PDArrayFirstUnused a = first_unused a (pda_size a)"

definition PDArrayStore :: "('a::zero) PDArray \<Rightarrow> 'a \<Rightarrow> (nat \<times> 'a PDArray) option" where
  "PDArrayStore a value =
     do { idx \<leftarrow> PDArrayFirstUnused a; a \<leftarrow> PDArrayAssign a (int idx) value; Some (idx, a) }"

definition PDArrayStoreP :: "('a::zero) PDArray \<Rightarrow> 'a \<Rightarrow> (nat \<times> 'a PDArray) option" where
  "PDArrayStoreP a value = PDArrayStore a value"

definition PDArrayStoreInt :: "int PDArray \<Rightarrow> int \<Rightarrow> (nat \<times> int PDArray) option" where
  "PDArrayStoreInt a value = PDArrayStore a value"

text \<open>Reading the second array may enlarge it too.\<close>

definition PDArrayAdd :: "int PDArray \<Rightarrow> int PDArray \<Rightarrow> nat \<Rightarrow> (int PDArray \<times> int PDArray) option" where
  "PDArrayAdd collect data limit =
     foldM (\<lambda>(collect, data) i.
              do { (collect, old) \<leftarrow> PDArrayElementInt collect (int i);
                   (data, new) \<leftarrow> PDArrayElementInt data (int i);
                   collect \<leftarrow> PDArrayAssignInt collect (int i) (old + new);
                   Some (collect, data) })
       (collect, data) [0..<limit]"

definition PDArrayElementIncInt :: "int PDArray \<Rightarrow> int \<Rightarrow> int \<Rightarrow> (int PDArray \<times> int) option" where
  "PDArrayElementIncInt a idx value =
     do { (a, ref) \<leftarrow> PDArrayElementRef a idx;
          x \<leftarrow> mem_get (pda_array a) ref;
          m \<leftarrow> mem_set (pda_array a) ref (x + value);
          Some (a\<lparr>pda_array := m\<rparr>, x + value) }"

section \<open>The abstract array and the invariant\<close>

definition pda_ok :: "'a PDArray \<Rightarrow> bool" where
  "pda_ok a \<longleftrightarrow> 0 < pda_size a \<and> length (pda_array a) = pda_size a \<and> (\<forall>i < pda_size a. pda_array a ! i \<noteq> None)"

definition pda_val :: "('a::zero) PDArray \<Rightarrow> nat \<Rightarrow> 'a" where
  "pda_val a i = (if i < pda_size a then the (pda_array a ! i) else 0)"

lemma pda_okD:
  assumes "pda_ok a"
  shows "0 < pda_size a" "length (pda_array a) = pda_size a"
    "i < pda_size a \<Longrightarrow> pda_array a ! i = Some (pda_val a i)"
  using assms by (auto simp: pda_ok_def pda_val_def)

lemma mem_set_range:
  "a \<le> b \<Longrightarrow> b \<le> length m \<Longrightarrow>
   \<exists>m'. foldM (\<lambda>m i. mem_set m i x) m [a..<b] = Some m' \<and> length m' = length m \<and>
        (\<forall>j < length m. m' ! j = (if a \<le> j \<and> j < b then Some x else m ! j))"
proof (induction b)
  case (Suc b)
  show ?case
  proof (cases "a = Suc b")
    case False
    then obtain m' where "foldM (\<lambda>m i. mem_set m i x) m [a..<b] = Some m'" "length m' = length m"
      "\<forall>j < length m. m' ! j = (if a \<le> j \<and> j < b then Some x else m ! j)"
      using Suc by auto
    then show ?thesis
      using Suc.prems False by (auto simp: foldM_snoc mem_simps nth_list_update)
  qed auto
qed auto

lemma pda_alloc_ok:
  assumes "0 < n" and "0 \<le> g"
  shows "\<exists>a. pda_alloc integer n g = Some a \<and> pda_ok a \<and> (\<forall>i. pda_val a i = 0) \<and>
           pda_integer a = integer \<and> pda_size a = nat n"
proof -
  obtain m where "foldM (\<lambda>m i. mem_set m i (0::'a)) (mem_alloc (nat n)) [0..<nat n] = Some m"
    "length m = nat n" "\<forall>j < nat n. m ! j = Some 0"
    using mem_set_range [of 0 "nat n" "mem_alloc (nat n)" 0] by auto
  then show ?thesis using assms by (auto simp: pda_alloc_def pda_ok_def pda_val_def Let_def)
qed

lemma pda_double_ok: "0 < sz \<Longrightarrow> \<exists>n. pda_double sz idx = Some n \<and> idx < int n \<and> sz \<le> n"
proof (induction "nat (idx + 1) - sz" arbitrary: sz rule: less_induct)
  case less
  show ?case
  proof (cases "int sz \<le> idx")
    case True
    have "nat (idx + 1) - sz * 2 < nat (idx + 1) - sz" using True less.prems by linarith
    then show ?thesis
      using less.hyps [of "sz * 2"] less.prems True
      by (subst pda_double.simps) fastforce
  qed (subst pda_double.simps, simp)
qed

lemma PDArrayEnlarge_ok:
  assumes "pda_ok a" and "int (pda_size a) \<le> idx"
  shows "\<exists>a'. PDArrayEnlarge a idx = Some a' \<and> pda_ok a' \<and> idx < int (pda_size a') \<and>
           (\<forall>i. pda_val a' i = pda_val a i)"
proof -
  have "\<exists>n. (if pda_grow a \<noteq> 0 then Some ((nat idx div pda_grow a + 1) * pda_grow a)
              else pda_double (pda_size a) idx) = Some n \<and> idx < int n"
  proof (cases "pda_grow a = 0")
    case True
    then show ?thesis using pda_double_ok [of "pda_size a" idx] pda_okD(1) [OF assms(1)] by auto
  next
    case False
    have "nat idx < (nat idx div pda_grow a + 1) * pda_grow a"
      using False dividend_less_div_times [of "pda_grow a" "nat idx"] by simp
    then have "idx < int ((nat idx div pda_grow a + 1) * pda_grow a)"
      using assms(2) by linarith
    then show ?thesis using False by auto
  qed
  then obtain n where n: "(if pda_grow a \<noteq> 0 then Some ((nat idx div pda_grow a + 1) * pda_grow a)
              else pda_double (pda_size a) idx) = Some n" "idx < int n" by blast
  then have le: "pda_size a \<le> n" using assms(2) by linarith
  define m0 where "m0 = mem_copy (mem_alloc n) (pda_array a) (pda_size a)"
  have m0: "length m0 = n" "\<And>i. i < pda_size a \<Longrightarrow> m0 ! i = pda_array a ! i"
    using le pda_okD(2) [OF assms(1)] by (simp_all add: m0_def mem_copy_def nth_append)
  obtain m where m: "foldM (\<lambda>m i. mem_set m i 0) m0 [pda_size a..<n] = Some m" "length m = n"
    "\<forall>j < n. m ! j = (if pda_size a \<le> j \<and> j < n then Some 0 else m0 ! j)"
    using mem_set_range [of "pda_size a" n m0 0] le m0(1) by auto
  have "PDArrayEnlarge a idx = Some (a\<lparr>pda_size := n, pda_array := m\<rparr>)"
    using n(1) le m(1) by (simp add: PDArrayEnlarge_def Let_def m0_def)
  moreover have "pda_ok (a\<lparr>pda_size := n, pda_array := m\<rparr>)"
    using assms(1) m le m0 by (auto simp: pda_ok_def)
  moreover have "pda_val (a\<lparr>pda_size := n, pda_array := m\<rparr>) i = pda_val a i" for i
    using m(3) le m0 by (auto simp: pda_val_def)
  ultimately show ?thesis using n(2) by auto
qed

lemma PDArrayElementRef_ok:
  assumes "pda_ok a" and "0 \<le> idx"
  shows "\<exists>a'. PDArrayElementRef a idx = Some (a', nat idx) \<and> pda_ok a' \<and> nat idx < pda_size a' \<and>
           (\<forall>i. pda_val a' i = pda_val a i)"
  using PDArrayEnlarge_ok [OF assms(1), of idx] assms
  by (cases "int (pda_size a) \<le> idx") (auto simp: PDArrayElementRef_def)

lemma PDArrayElementRef_negative: "idx < 0 \<Longrightarrow> PDArrayElementRef a idx = None"
  by (simp add: PDArrayElementRef_def)

lemma PDArrayElement_ok:
  assumes "pda_ok a" and "0 \<le> idx"
  shows "\<exists>a'. PDArrayElement a idx = Some (a', pda_val a (nat idx)) \<and> pda_ok a' \<and>
           (\<forall>i. pda_val a' i = pda_val a i)"
proof -
  obtain a' where "PDArrayElementRef a idx = Some (a', nat idx)" "pda_ok a'" "nat idx < pda_size a'"
    "\<forall>i. pda_val a' i = pda_val a i" using PDArrayElementRef_ok [OF assms] by blast
  then show ?thesis using pda_okD [of a'] by (simp add: PDArrayElement_def mem_simps)
qed

lemma pda_update:
  assumes "pda_ok a" and "i < pda_size a"
  shows "pda_ok (a\<lparr>pda_array := (pda_array a)[i := Some x]\<rparr>)"
    "pda_val (a\<lparr>pda_array := (pda_array a)[i := Some x]\<rparr>) j = (if j = i then x else pda_val a j)"
  using assms by (auto simp: pda_ok_def pda_val_def nth_list_update)

lemma PDArrayAssign_ok:
  assumes "pda_ok a" and "0 \<le> idx"
  shows "\<exists>a'. PDArrayAssign a idx x = Some a' \<and> pda_ok a' \<and>
           (\<forall>i. pda_val a' i = (if i = nat idx then x else pda_val a i))"
proof -
  obtain a' where "PDArrayElementRef a idx = Some (a', nat idx)" "pda_ok a'" "nat idx < pda_size a'"
    "\<forall>i. pda_val a' i = pda_val a i" using PDArrayElementRef_ok [OF assms] by blast
  then show ?thesis
    using pda_okD [of a'] pda_update [of a' "nat idx" x] by (simp add: PDArrayAssign_def mem_simps)
qed

lemma PDArrayElementIncInt_ok:
  assumes "pda_ok a" and "0 \<le> idx"
  shows "\<exists>a'. PDArrayElementIncInt a idx x = Some (a', pda_val a (nat idx) + x) \<and> pda_ok a' \<and>
           (\<forall>i. pda_val a' i = pda_val a i + (if i = nat idx then x else 0))"
proof -
  obtain a' where "PDArrayElementRef a idx = Some (a', nat idx)" "pda_ok a'" "nat idx < pda_size a'"
    "\<forall>i. pda_val a' i = pda_val a i" using PDArrayElementRef_ok [OF assms] by blast
  then show ?thesis
    using pda_okD [of a'] pda_update [of a' "nat idx"]
    by (simp add: PDArrayElementIncInt_def mem_simps)
qed

section \<open>The interface of an unbounded array\<close>

text \<open>What the clients rely on: reading changes nothing but the room, writing one value.\<close>

locale dyn_array =
  fixes get :: "'s \<Rightarrow> int \<Rightarrow> ('s \<times> 'v) option"
    and put :: "'s \<Rightarrow> int \<Rightarrow> 'v \<Rightarrow> 's option"
    and vals :: "'s \<Rightarrow> nat \<Rightarrow> 'v"
    and valid :: "'s \<Rightarrow> bool"
  assumes get_law: "valid a \<Longrightarrow> 0 \<le> i \<Longrightarrow>
      \<exists>a'. get a i = Some (a', vals a (nat i)) \<and> valid a' \<and> (\<forall>j. vals a' j = vals a j)"
    and put_law: "valid a \<Longrightarrow> 0 \<le> i \<Longrightarrow>
      \<exists>a'. put a i x = Some a' \<and> valid a' \<and> (\<forall>j. vals a' j = (if j = nat i then x else vals a j))"
begin

lemma get_put:
  assumes "valid a" and "0 \<le> i"
  obtains a' where "put a i x = Some a'" "valid a'" "\<exists>a''. get a' i = Some (a'', x)"
    "\<And>j. 0 \<le> j \<Longrightarrow> j \<noteq> i \<Longrightarrow> \<exists>a''. get a' j = Some (a'', vals a (nat j))"
proof -
  obtain a' where a': "put a i x = Some a'" "valid a'" "\<forall>j. vals a' j = (if j = nat i then x else vals a j)"
    using put_law [OF assms] by blast
  have "\<exists>a''. get a' j = Some (a'', if j = i then x else vals a (nat j))" if "0 \<le> j" for j
    using get_law [OF a'(2) that] a'(3) that assms(2) by (auto simp: eq_nat_nat_iff)
  note get' = this
  show thesis
  proof (rule that [OF a'(1,2)])
    show "\<exists>a''. get a' i = Some (a'', x)" using get' [OF assms(2)] by simp
    show "\<exists>a''. get a' j = Some (a'', vals a (nat j))" if "0 \<le> j" "j \<noteq> i" for j
      using get' [OF that(1)] that(2) by simp
  qed
qed

lemma combine_range:
  assumes "valid a" and "valid b"
  shows "\<exists>a' b'. foldM (\<lambda>(a, b) i. do { (a, x) \<leftarrow> get a (int i); (b, y) \<leftarrow> get b (int i);
                                         a \<leftarrow> put a (int i) (f x y); Some (a, b) }) (a, b) [0..<n] = Some (a', b') \<and>
           valid a' \<and> valid b' \<and> (\<forall>i. vals b' i = vals b i) \<and>
           (\<forall>i. vals a' i = (if i < n then f (vals a i) (vals b i) else vals a i))"
proof (induction n)
  case 0
  show ?case using assms by simp
next
  case (Suc n)
  then obtain a1 b1 where 1: "foldM (\<lambda>(a, b) i. do { (a, x) \<leftarrow> get a (int i); (b, y) \<leftarrow> get b (int i);
                                         a \<leftarrow> put a (int i) (f x y); Some (a, b) }) (a, b) [0..<n] = Some (a1, b1)"
    "valid a1" "valid b1" "\<forall>i. vals b1 i = vals b i"
    "\<forall>i. vals a1 i = (if i < n then f (vals a i) (vals b i) else vals a i)" by blast
  obtain a2 where 2: "get a1 (int n) = Some (a2, vals a n)" "valid a2" "\<forall>i. vals a2 i = vals a1 i"
    using get_law [OF 1(2), of "int n"] 1(5) by auto
  obtain b2 where 3: "get b1 (int n) = Some (b2, vals b n)" "valid b2" "\<forall>i. vals b2 i = vals b1 i"
    using get_law [OF 1(3), of "int n"] 1(4) by auto
  obtain a3 where 4: "put a2 (int n) (f (vals a n) (vals b n)) = Some a3" "valid a3"
    "\<forall>i. vals a3 i = (if i = n then f (vals a n) (vals b n) else vals a2 i)"
    using put_law [OF 2(2), of "int n"] by fastforce
  show ?case using 1 2 3 4 by (auto simp: foldM_snoc)
qed

end

interpretation pda: dyn_array PDArrayElement PDArrayAssign pda_val pda_ok
  by unfold_locales (simp_all add: PDArrayElement_ok PDArrayAssign_ok)

section \<open>The other operations\<close>

lemma PDArrayElement_covered:
  assumes "pda_ok a" and "i < pda_size a"
  shows "PDArrayElementP a (int i) = Some (a, pda_val a i)"
  using assms pda_okD [OF assms(1)]
  by (simp add: PDArrayElementP_def PDArrayElement_def PDArrayElementRef_def mem_simps)

lemma first_unused_ok:
  "pda_ok a \<Longrightarrow> n \<le> pda_size a \<Longrightarrow>
   \<exists>k \<le> n. first_unused a n = Some k \<and> (\<forall>i. k \<le> i \<and> i < n \<longrightarrow> pda_val a i = 0) \<and>
     (0 < k \<longrightarrow> pda_val a (k - 1) \<noteq> 0)"
proof (induction n)
  case (Suc n)
  then obtain k where k: "k \<le> n" "first_unused a n = Some k"
    "\<forall>i. k \<le> i \<and> i < n \<longrightarrow> pda_val a i = 0" "0 < k \<longrightarrow> pda_val a (k - 1) \<noteq> 0" by auto
  show ?case
  proof (cases "pda_val a n = 0")
    case True
    then show ?thesis
      using k Suc.prems PDArrayElement_covered [of a n]
      by (intro exI [of _ k]) (auto simp: less_Suc_eq)
  next
    case False
    then show ?thesis
      using Suc.prems PDArrayElement_covered [of a n] by (intro exI [of _ "Suc n"]) auto
  qed
qed simp

lemma PDArrayFirstUnused_ok:
  assumes "pda_ok a"
  shows "\<exists>k. PDArrayFirstUnused a = Some k \<and> (\<forall>i \<ge> k. pda_val a i = 0) \<and>
           (0 < k \<longrightarrow> pda_val a (k - 1) \<noteq> 0)"
proof -
  have "pda_val a i = 0" if "\<not> i < pda_size a" for i using that by (simp add: pda_val_def)
  then show ?thesis
    using first_unused_ok [OF assms order_refl] unfolding PDArrayFirstUnused_def by (metis linorder_not_less)
qed

lemma PDArrayMembers_ok:
  assumes "pda_ok a"
  shows "PDArrayMembers a = Some (card {i. pda_val a i \<noteq> 0}, a)"
proof -
  have "foldM (\<lambda>(res, a) i. do { (a, p) \<leftarrow> PDArrayElementP a (int i);
                              Some (if p \<noteq> 0 then res + 1 else res, a) })
       (0, a) [0..<n] = Some (card {i. i < n \<and> pda_val a i \<noteq> 0}, a)" if "n \<le> pda_size a" for n
    using that
  proof (induction n)
    case (Suc n)
    have "{i. i < Suc n \<and> pda_val a i \<noteq> 0} =
        (if pda_val a n \<noteq> 0 then insert n {i. i < n \<and> pda_val a i \<noteq> 0} else {i. i < n \<and> pda_val a i \<noteq> 0})"
      by (auto simp: less_Suc_eq)
    then show ?case
      using Suc PDArrayElement_covered [OF assms, of n] by (simp add: foldM_snoc)
  qed simp
  moreover have "{i. i < pda_size a \<and> pda_val a i \<noteq> 0} = {i. pda_val a i \<noteq> 0}"
    by (auto simp: pda_val_def)
  ultimately show ?thesis by (simp add: PDArrayMembers_def)
qed

lemma PDArrayCopy_ok:
  assumes "pda_ok a"
  shows "\<exists>a'. PDArrayCopy a = Some a' \<and> pda_ok a' \<and> (\<forall>i. pda_val a' i = pda_val a i) \<and> \<not> pda_integer a'"
proof -
  have pos: "0 < int (pda_size a)" "0 \<le> int (pda_grow a)" using pda_okD(1) [OF assms] by simp_all
  obtain h where h: "PDArrayAlloc (int (pda_size a)) (int (pda_grow a)) = Some (h :: 'a PDArray)" "pda_ok h"
    "\<not> pda_integer h" "pda_size h = pda_size a"
    using pda_alloc_ok [OF pos, of False] by (auto simp: PDArrayAlloc_def)
  obtain m where m: "foldM (\<lambda>m i. mem_move m i (pda_array a) i) (pda_array h) [0..<pda_size a] = Some m"
    "length m = length (pda_array h)"
    "\<forall>j < length (pda_array h). m ! j = (if j < pda_size a then pda_array a ! j else pda_array h ! j)"
    using mem_move_range [of 0 "pda_size a" "pda_array a" 0 "pda_array h"] pda_okD(2) [OF assms]
      pda_okD(2) [OF h(2)] h(4) by auto
  have "pda_ok (h\<lparr>pda_array := m\<rparr>)" "\<And>i. pda_val (h\<lparr>pda_array := m\<rparr>) i = pda_val a i"
    using m(2,3) h assms pda_okD(2) [OF h(2)] by (auto simp: pda_ok_def pda_val_def)
  then show ?thesis using h m(1) by (auto simp: PDArrayCopy_def)
qed

lemma PDArrayElementDelete_ok:
  assumes "pda_ok a" and "0 \<le> idx"
  shows "\<exists>a'. PDArrayElementDeleteP a idx = Some a' \<and> pda_ok a' \<and>
           (\<forall>i. pda_val a' i = (if i = nat idx then 0 else pda_val a i))"
proof (cases "idx < int (pda_size a)")
  case True
  then show ?thesis
    using PDArrayAssign_ok [OF assms, of 0] by (simp add: PDArrayElementDeleteP_def PDArrayAssignP_def)
next
  case False
  then have "pda_val a (nat idx) = 0" using assms(2) by (simp add: pda_val_def nat_less_iff)
  then show ?thesis using assms(1) False by (auto simp: PDArrayElementDeleteP_def)
qed

section \<open>Properties\<close>

text \<open>\<open>PDArrayStore\<close> puts the value right behind the last used cell and returns its index,
  enlarging the array when it is full: all cells from that index on were unused, and no other
  cell changes.\<close>

theorem PDArrayStore_appends:
  assumes "pda_ok a"
  shows "\<exists>k a'. PDArrayStore a x = Some (k, a') \<and> pda_ok a' \<and>
           (\<forall>i \<ge> k. pda_val a i = 0) \<and> (0 < k \<longrightarrow> pda_val a (k - 1) \<noteq> 0) \<and>
           pda_val a' = (pda_val a)(k := x)"
proof -
  obtain k where k: "PDArrayFirstUnused a = Some k" "\<forall>i \<ge> k. pda_val a i = 0"
    "0 < k \<longrightarrow> pda_val a (k - 1) \<noteq> 0" using PDArrayFirstUnused_ok [OF assms] by (elim exE conjE)
  obtain a' where a': "PDArrayAssign a (int k) x = Some a'" "pda_ok a'"
    "\<forall>i. pda_val a' i = (if i = k then x else pda_val a i)"
    using PDArrayAssign_ok [OF assms, of "int k" x, simplified] by (elim exE conjE)
  then have "pda_val a' = (pda_val a)(k := x)" by (intro ext) simp
  moreover have "PDArrayStore a x = Some (k, a')" using k(1) a'(1) by (simp add: PDArrayStore_def)
  ultimately show ?thesis using k(2,3) a'(2) by (intro exI [of _ k] exI [of _ a'] conjI)
qed

theorem PDArrayStore_appends_witness:
  "\<exists>k a'. PDArrayStore \<lparr>pda_integer = True, pda_size = 1, pda_grow = 0, pda_array = [Some 5]\<rparr> (7::int) = Some (k, a') \<and>
           pda_ok a'"
proof -
  have "pda_ok \<lparr>pda_integer = True, pda_size = 1, pda_grow = 0, pda_array = [Some (5::int)]\<rparr>"
    by (simp add: pda_ok_def)
  from PDArrayStore_appends [OF this, of 7] show ?thesis by (elim exE conjE) (intro exI conjI)
qed

text \<open>\<open>PDArrayAdd\<close> adds the first \<open>limit\<close> entries of the second array to the first one, also
  where one of them is not long enough, and leaves the value of the second as it was.\<close>

theorem PDArrayAdd_pointwise:
  assumes "pda_ok a" and "pda_ok b"
  shows "\<exists>a' b'. PDArrayAdd a b n = Some (a', b') \<and> pda_ok a' \<and> pda_ok b' \<and>
           (\<forall>i. pda_val b' i = pda_val b i) \<and>
           (\<forall>i. pda_val a' i = pda_val a i + (if i < n then pda_val b i else 0))"
  using pda.combine_range [OF assms, of "(+)" n]
  by (fastforce simp: PDArrayAdd_def PDArrayElementInt_def PDArrayAssignInt_def)

theorem PDArrayAdd_pointwise_witness:
  "\<exists>a' b'. PDArrayAdd \<lparr>pda_integer = True, pda_size = 1, pda_grow = 0, pda_array = [Some 5]\<rparr>
                     \<lparr>pda_integer = True, pda_size = 2, pda_grow = 0, pda_array = [Some 1, Some 2]\<rparr> 2 = Some (a', b') \<and>
           pda_ok a'"
proof -
  have "pda_ok \<lparr>pda_integer = True, pda_size = 1, pda_grow = 0, pda_array = [Some (5::int)]\<rparr>"
    "pda_ok \<lparr>pda_integer = True, pda_size = 2, pda_grow = 0, pda_array = [Some (1::int), Some 2]\<rparr>"
    by (simp_all add: pda_ok_def less_2_cases_iff)
  from PDArrayAdd_pointwise [OF this, of 2] show ?thesis by (elim exE conjE) (intro exI conjI)
qed

end
