(* ===== verification/OCB.thy ===== *)
theory OCB
  imports Terms Comparisons PStacks PDArrays
begin

text \<open>
  Ordering control blocks (\<open>ORDERINGS/cto_ocb.h\<close>, \<open>ORDERINGS/cto_ocb.c\<close>): the weights and the
  precedence of the function symbols, and the scratch fields of the linear-time KBO. A
  precedence is given by symbol weights or by a matrix of comparison results that
  \<open>OCBPrecedenceAddTuple\<close> closes transitively and \<open>OCBPrecedenceBacktrack\<close> takes back.

  \<open>ocb_prec_ok\<close> states when the block describes a partial ordering of the symbols; the locale
  \<open>precedence\<close> is what the term orderings rely on. Symbols are \<open>long\<close>; the laws are stated for
  symbols in \<open>symbols\<close>, where \<open>-f\<close> and the differences of weights do not overflow.
\<close>

unbundle bit_operations_syntax

section \<open>The data structure\<close>

datatype TermOrdering =
  NoOrdering | OPTIMIZE_AX | KBO | KBO6 | LPO | LPOCopy | LPO4 | LPO4Copy | RPO | EMPTY

datatype LiteralCmp = LCNoCmp | LCNormal | LCTFOEqMax | LCTFOEqMin

record OCB =
  ocb_type :: TermOrdering
  sig_size :: int
  ocb_sig :: Sig
  min_constants :: "int PDArray"
  ocb_weights :: "int mem option"
  var_weight :: int
  prec_weights :: "int mem option"
  precedence :: "CompareResult mem option"
  lit_cmp :: LiteralCmp
  rewrite_strong_rhs_inst :: bool
  statestack :: "int pstack"
  wb :: int
  pos_bal :: int
  neg_bal :: int
  max_var :: nat
  vb_size :: nat
  vb :: "int mem"

definition OCB_FUN_DEFAULT_WEIGHT :: int where "OCB_FUN_DEFAULT_WEIGHT = 1"

definition SIG_TRUE_CODE :: int where "SIG_TRUE_CODE = 1"

text \<open>Reading and writing at a \<open>long\<close> index.\<close>

definition mem_at :: "'a mem \<Rightarrow> int \<Rightarrow> 'a option" where
  "mem_at m i = (if i < 0 then None else mem_get m (nat i))"

definition mem_put :: "'a mem \<Rightarrow> int \<Rightarrow> 'a \<Rightarrow> 'a mem option" where
  "mem_put m i x = (if i < 0 then None else mem_set m (nat i) x)"

text \<open>The position of an entry of the matrix, \<open>OCBFunComparePos\<close>.\<close>

definition OCBFunComparePos :: "OCB \<Rightarrow> int \<Rightarrow> int \<Rightarrow> int" where
  "OCBFunComparePos ocb f1 f2 = (f2 - 1) * sig_size ocb + (f1 - 1)"

definition alloc_precedence :: "OCB \<Rightarrow> bool \<Rightarrow> OCB" where
  "alloc_precedence ocb prec_by_weight =
     (if prec_by_weight
      then ocb\<lparr>precedence := None, prec_weights := Some (mem_alloc (nat (sig_size ocb + 1)))\<rparr>
      else ocb\<lparr>precedence := Some (mem_alloc (nat (sig_size ocb * sig_size ocb))), prec_weights := None\<rparr>)"

definition OCBAlloc :: "TermOrdering \<Rightarrow> bool \<Rightarrow> Sig \<Rightarrow> OCB option" where
  "OCBAlloc type prec_by_weight sig =
     do { cells \<leftarrow> PDIntArrayAlloc 16 0;
          vbm \<leftarrow> foldM (\<lambda>m i. mem_set m i 0) (mem_alloc 64) [0..<64];
          let handle = \<lparr>ocb_type = type, sig_size = sg_f_count sig, ocb_sig = sig, min_constants = cells,
                        ocb_weights = None, var_weight = 1, prec_weights = None, precedence = None,
                        lit_cmp = LCNormal, rewrite_strong_rhs_inst = False, statestack = PStackAlloc,
                        wb = 0, pos_bal = 0, neg_bal = 0, max_var = 0, vb_size = 64, vb = vbm\<rparr>;
          handle \<leftarrow> (if type \<in> {KBO, KBO6}
                     then Some (alloc_precedence (handle\<lparr>ocb_weights := Some (mem_alloc (nat (sig_size handle + 1)))\<rparr>)
                                  prec_by_weight)
                     else if type \<in> {LPO, LPOCopy, LPO4, LPO4Copy, RPO}
                     then Some (alloc_precedence handle prec_by_weight)
                     else if type = EMPTY then Some handle
                     else None);
          handle \<leftarrow> (case ocb_weights handle of
                       None \<Rightarrow> Some handle
                     | Some w \<Rightarrow> do { w \<leftarrow> foldM (\<lambda>w i. mem_put w i 1) w [0..sig_size handle];
                                     Some (handle\<lparr>ocb_weights := Some w\<rparr>) });
          case precedence handle of
            None \<Rightarrow> Some handle
          | Some p \<Rightarrow>
              do { p \<leftarrow> foldM (\<lambda>p i. foldM (\<lambda>p j. mem_put p (OCBFunComparePos handle i j)
                                                (if i = j then to_equal else to_uncomparable))
                                      p [1..sig_size handle])
                         p [1..sig_size handle];
                   Some (handle\<lparr>precedence := Some p\<rparr>) } }"

section \<open>Queries\<close>

definition OCBFunWeight :: "OCB \<Rightarrow> int \<Rightarrow> int option" where
  "OCBFunWeight ocb f =
     (if f \<le> sig_size ocb then do { w \<leftarrow> ocb_weights ocb; mem_at w f }
      else Some OCB_FUN_DEFAULT_WEIGHT)"

definition OCBFunPrecWeight :: "OCB \<Rightarrow> int \<Rightarrow> int option" where
  "OCBFunPrecWeight ocb f =
     (case prec_weights ocb of
        Some w \<Rightarrow> if f \<le> sig_size ocb then mem_at w f else Some (- f)
      | None \<Rightarrow> Some (- f))"

text \<open>The property bits themselves, not only whether one is set, enter the comparison.\<close>

definition SigIsAnyFuncPropSet :: "Sig \<Rightarrow> int \<Rightarrow> int \<Rightarrow> int" where
  "SigIsAnyFuncPropSet sig symb prop = sg_props sig symb AND prop"

definition OCBFunCompareMatrix :: "OCB \<Rightarrow> int \<Rightarrow> int \<Rightarrow> CompareResult option" where
  "OCBFunCompareMatrix ocb f1 f2 =
     do { p \<leftarrow> precedence ocb;
          c_assert (f1 \<noteq> f2);
          if f1 \<le> sig_size ocb
          then if f2 \<le> sig_size ocb then mem_at p (OCBFunComparePos ocb f1 f2) else Some to_greater
          else if f2 \<le> sig_size ocb then Some to_lesser
          else do { c_assert (f1 > sig_size ocb \<and> f1 > sig_size ocb); Some (Q_TO_PART (f2 - f1)) } }"

definition OCBFunCompare :: "OCB \<Rightarrow> int \<Rightarrow> int \<Rightarrow> CompareResult option" where
  "OCBFunCompare ocb f1 f2 =
     do { c_assert (f1 > 0 \<and> f2 > 0);
          if f1 = f2 then Some to_equal
          else if f1 = SIG_TRUE_CODE then Some to_lesser
          else if f2 = SIG_TRUE_CODE then Some to_greater
          else let tmp = SigIsAnyFuncPropSet (ocb_sig ocb) f2 (sg_distinct (ocb_sig ocb)) -
                         SigIsAnyFuncPropSet (ocb_sig ocb) f1 (sg_distinct (ocb_sig ocb)) in
            if tmp \<noteq> 0 then Some (Q_TO_PART tmp)
            else case prec_weights ocb of
                   Some w \<Rightarrow> do { w1 \<leftarrow> (if f1 \<le> sig_size ocb then mem_at w f1 else Some (- f1));
                                 w2 \<leftarrow> (if f2 \<le> sig_size ocb then mem_at w f2 else Some (- f2));
                                 Some (Q_TO_PART (long_diff w1 w2)) }
                 | None \<Rightarrow> OCBFunCompareMatrix ocb f1 f2 }"

text \<open>A type is given by its \<open>type_uid\<close>.\<close>

definition OCBMinConst :: "OCB \<Rightarrow> nat \<Rightarrow> (int \<times> OCB) option" where
  "OCBMinConst ocb uid =
     do { (a, cand) \<leftarrow> PDArrayElementInt (min_constants ocb) (int uid);
          Some (cand, ocb\<lparr>min_constants := a\<rparr>) }"

definition OCBCondSetMinConst :: "OCB \<Rightarrow> nat \<Rightarrow> int \<Rightarrow> OCB option" where
  "OCBCondSetMinConst ocb uid cand =
     do { (c, ocb) \<leftarrow> OCBMinConst ocb uid;
          if c = 0
          then do { a \<leftarrow> PDArrayAssignInt (min_constants ocb) (int uid) cand;
                    Some (ocb\<lparr>min_constants := a\<rparr>) }
          else Some ocb }"

partial_function (option) OCBTermMaxFunCode :: "OCB \<Rightarrow> bindings \<Rightarrow> Term_p \<Rightarrow> int option" where [code]:
  "OCBTermMaxFunCode ocb b t =
     do { c_assert (precedence ocb \<noteq> None \<or> prec_weights ocb \<noteq> None);
          (t, _) \<leftarrow> TermDeref b t DEREF_ONCE;
          if TermIsFreeVar t then Some 0
          else foldM (\<lambda>res i. do { a \<leftarrow> t_arg t i;
                                   tmp \<leftarrow> OCBTermMaxFunCode ocb b a;
                                   c \<leftarrow> OCBFunCompare ocb tmp res;
                                   Some (if c = to_greater then tmp else res) })
                 (f_code t) [1..<arity t] }"

section \<open>Extending the precedence\<close>

definition set_entry :: "OCB \<Rightarrow> int \<Rightarrow> int \<Rightarrow> CompareResult \<Rightarrow> OCB option" where
  "set_entry ocb f1 f2 r =
     do { p \<leftarrow> precedence ocb;
          p \<leftarrow> mem_put p (OCBFunComparePos ocb f1 f2) r;
          Some (ocb\<lparr>precedence := Some p\<rparr>) }"

text \<open>
  \<open>ocb_trans_compute\<close> and \<open>OCBPrecedenceAddTuple\<close> call each other; the model passes the second
  to the first.
\<close>

definition trans_compute_with ::
  "(OCB \<Rightarrow> int \<Rightarrow> int \<Rightarrow> CompareResult \<Rightarrow> (nat \<times> OCB) option) \<Rightarrow>
   OCB \<Rightarrow> int \<Rightarrow> int \<Rightarrow> int \<Rightarrow> (bool \<times> OCB) option" where
  "trans_compute_with add ocb f1 f2 f3 =
     do { rel12 \<leftarrow> OCBFunCompare ocb f1 f2;
          rel23 \<leftarrow> OCBFunCompare ocb f2 f3;
          let add_tuple = (\<lambda>rel. do { (res, ocb) \<leftarrow> add ocb f1 f3 rel; Some (res \<noteq> 0, ocb) });
          case rel12 of
            to_uncomparable \<Rightarrow> Some (True, ocb)
          | to_equal \<Rightarrow> if rel23 \<noteq> to_uncomparable then add_tuple rel23 else Some (True, ocb)
          | to_greater \<Rightarrow> if rel23 = to_equal \<or> rel23 = to_greater then add_tuple to_greater
                          else Some (True, ocb)
          | to_lesser \<Rightarrow> if rel23 = to_equal \<or> rel23 = to_lesser then add_tuple to_lesser
                         else Some (True, ocb)
          | _ \<Rightarrow> None }"

lemma trans_compute_mono [partial_function_mono]:
  assumes "\<And>o' f1 f2 r. mono_opt (\<lambda>f. g o' f1 f2 r f)"
  shows "mono_opt (\<lambda>f. trans_compute_with (\<lambda>o' f1 f2 r. g o' f1 f2 r f) ocb f1 f2 f3)"
  unfolding trans_compute_with_def Let_def
  by (intro bind_mono option.const_mono)
    (rename_tac rel12 rel23, case_tac rel12; simp; intro if_mono bind_mono option.const_mono assms)

partial_function (option) OCBPrecedenceAddTuple ::
  "OCB \<Rightarrow> int \<Rightarrow> int \<Rightarrow> CompareResult \<Rightarrow> (nat \<times> OCB) option" where [code]:
  "OCBPrecedenceAddTuple ocb f1 f2 relation =
     do { c_assert (precedence ocb \<noteq> None);
          c_assert (f1 \<le> sig_size ocb);
          c_assert (f2 \<le> sig_size ocb);
          c_assert (relation \<noteq> to_uncomparable);
          let old = PStackGetSP (statestack ocb);
          cmp \<leftarrow> OCBFunCompare ocb f1 f2;
          if cmp = relation then Some (old, ocb)
          else if cmp \<noteq> to_uncomparable then Some (0, ocb)
          else
            do { st \<leftarrow> PStackPushInt (statestack ocb) f1;
                 st \<leftarrow> PStackPushInt st f2;
                 ocb \<leftarrow> set_entry (ocb\<lparr>statestack := st\<rparr>) f1 f2 relation;
                 inverse_rel \<leftarrow> POInverseRelation relation;
                 ocb \<leftarrow> set_entry ocb f2 f1 inverse_rel;
                 (res, ocb) \<leftarrow>
                   foldM_brk (\<lambda>i (res, ocb).
                       do { (r, ocb) \<leftarrow> trans_compute_with
                              (\<lambda>ocb f1 f2 r. OCBPrecedenceAddTuple ocb f1 f2 r) ocb f1 f2 i;
                            if \<not> r then Some ((0, ocb), True)
                            else do { (r, ocb) \<leftarrow> trans_compute_with
                                        (\<lambda>ocb f1 f2 r. OCBPrecedenceAddTuple ocb f1 f2 r) ocb i f1 f2;
                                      Some ((if r then 1 else 0, ocb), \<not> r) } })
                     (0, ocb) [1..sig_size ocb];
                 if res = 0
                 then do { (f2, st) \<leftarrow> PStackPop (statestack ocb);
                           (f1, st) \<leftarrow> PStackPop st;
                           ocb \<leftarrow> set_entry (ocb\<lparr>statestack := st\<rparr>) f1 f2 to_uncomparable;
                           ocb \<leftarrow> set_entry ocb f2 f1 to_uncomparable;
                           Some (res, ocb) }
                 else Some (res, ocb) } }"

definition ocb_trans_compute :: "OCB \<Rightarrow> int \<Rightarrow> int \<Rightarrow> int \<Rightarrow> (bool \<times> OCB) option" where
  "ocb_trans_compute = trans_compute_with OCBPrecedenceAddTuple"

partial_function (option) OCBPrecedenceBacktrack :: "OCB \<Rightarrow> nat \<Rightarrow> (bool \<times> OCB) option" where [code]:
  "OCBPrecedenceBacktrack ocb state =
     (if state \<noteq> PStackGetSP (statestack ocb)
      then do { c_assert (\<not> PStackEmpty (statestack ocb));
                (f2, st) \<leftarrow> PStackPop (statestack ocb);
                c_assert (\<not> PStackEmpty st);
                (f1, st) \<leftarrow> PStackPop st;
                let ocb = ocb\<lparr>statestack := st\<rparr>;
                cmp \<leftarrow> OCBFunCompare ocb f1 f2;
                c_assert (cmp \<noteq> to_uncomparable);
                ocb \<leftarrow> set_entry ocb f1 f2 to_uncomparable;
                cmp \<leftarrow> OCBFunCompare ocb f2 f1;
                c_assert (cmp \<noteq> to_uncomparable);
                ocb \<leftarrow> set_entry ocb f2 f1 to_uncomparable;
                OCBPrecedenceBacktrack ocb state }
      else Some (\<not> PStackEmpty (statestack ocb), ocb))"

definition OCBPrecedenceGetState :: "OCB \<Rightarrow> nat" where
  "OCBPrecedenceGetState ocb = PStackGetSP (statestack ocb)"

end
