(* ===== verification/Precedences.thy ===== *)
theory Precedences
  imports OCB
begin

text \<open>
  What the precedence of an ordering control block guarantees: extending the matrix by
  \<open>OCBPrecedenceAddTuple\<close> ends and can be taken back exactly, and under \<open>ocb_prec_ok\<close> the
  comparison \<open>OCBFunCompare\<close> is a partial ordering of the symbols, for both representations.
\<close>

section \<open>The precedence matrix\<close>

definition prec_at :: "OCB \<Rightarrow> int \<Rightarrow> int \<Rightarrow> CompareResult" where
  "prec_at ocb i j =
     (case precedence ocb of None \<Rightarrow> to_unknown | Some p \<Rightarrow> the (p ! nat (OCBFunComparePos ocb i j)))"

definition covered :: "OCB \<Rightarrow> int set" where
  "covered ocb = {1..sig_size ocb}"

definition mat_mem :: "OCB \<Rightarrow> bool" where
  "mat_mem ocb \<longleftrightarrow> prec_weights ocb = None \<and>
     (\<exists>p. precedence ocb = Some p \<and> int (length p) = sig_size ocb * sig_size ocb \<and>
          (\<forall>i < length p. p ! i \<noteq> None))"

definition proper_results :: "CompareResult set" where
  "proper_results = {to_uncomparable, to_equal, to_greater, to_lesser}"

definition mat_sym :: "OCB \<Rightarrow> bool" where
  "mat_sym ocb \<longleftrightarrow> (\<forall>i \<in> covered ocb. \<forall>j \<in> covered ocb. prec_at ocb i j \<in> proper_results \<and>
     POInverseRelation (prec_at ocb i j) = Some (prec_at ocb j i))"

definition mat_ok :: "OCB \<Rightarrow> bool" where
  "mat_ok ocb \<longleftrightarrow> mat_mem ocb \<and> mat_sym ocb \<and> pstack_ok (statestack ocb)"

lemma pos_bounds:
  assumes "i \<in> covered ocb" and "j \<in> covered ocb"
  shows "0 \<le> OCBFunComparePos ocb i j" "OCBFunComparePos ocb i j < sig_size ocb * sig_size ocb"
proof -
  have ij: "1 \<le> i" "i \<le> sig_size ocb" "1 \<le> j" "j \<le> sig_size ocb" using assms by (simp_all add: covered_def)
  show "0 \<le> OCBFunComparePos ocb i j" using ij by (simp add: OCBFunComparePos_def)
  have "(j - 1) * sig_size ocb + (i - 1) < (j - 1) * sig_size ocb + sig_size ocb" using ij by simp
  also have "\<dots> = j * sig_size ocb" by (simp add: algebra_simps)
  also have "\<dots> \<le> sig_size ocb * sig_size ocb" using ij by (intro mult_right_mono) simp_all
  finally show "OCBFunComparePos ocb i j < sig_size ocb * sig_size ocb"
    by (simp add: OCBFunComparePos_def)
qed

lemma pos_inject:
  assumes "i \<in> covered ocb" and "j \<in> covered ocb" and "i' \<in> covered ocb" and "j' \<in> covered ocb"
  shows "OCBFunComparePos ocb i j = OCBFunComparePos ocb i' j' \<longleftrightarrow> i = i' \<and> j = j'"
proof -
  let ?n = "sig_size ocb"
  have "(OCBFunComparePos ocb a b) mod ?n = a - 1 \<and> (OCBFunComparePos ocb a b) div ?n = b - 1"
    if "a \<in> covered ocb" for a b
    using that by (simp add: OCBFunComparePos_def covered_def)
  from this [OF assms(1), of j] this [OF assms(3), of j'] show ?thesis by auto
qed

lemma mem_at_prec:
  assumes "mat_mem ocb" and "i \<in> covered ocb" and "j \<in> covered ocb" and "precedence ocb = Some p"
  shows "mem_at p (OCBFunComparePos ocb i j) = Some (prec_at ocb i j)"
  using assms pos_bounds [OF assms(2,3)]
  by (auto simp: mat_mem_def mem_at_def prec_at_def mem_get_def nat_less_iff)

text \<open>Everything but the matrix and the stack of changes.\<close>

definition ocb_frame :: "OCB \<Rightarrow> OCB" where
  "ocb_frame ocb = ocb\<lparr>precedence := None, statestack := PStackAlloc\<rparr>"

lemma ocb_frameD:
  assumes "ocb_frame o1 = ocb_frame o2"
  shows "sig_size o1 = sig_size o2" "ocb_sig o1 = ocb_sig o2" "prec_weights o1 = prec_weights o2"
    "covered o1 = covered o2" "OCBFunComparePos o1 i j = OCBFunComparePos o2 i j"
  using arg_cong [OF assms, of sig_size] arg_cong [OF assms, of ocb_sig] arg_cong [OF assms, of prec_weights]
  by (simp_all add: ocb_frame_def covered_def OCBFunComparePos_def)

lemma ocb_frame_simps [simp]:
  "ocb_frame (ocb\<lparr>precedence := p\<rparr>) = ocb_frame ocb"
  "ocb_frame (ocb\<lparr>statestack := st\<rparr>) = ocb_frame ocb"
  by (simp_all add: ocb_frame_def)

lemma set_entry_ok:
  assumes "mat_mem ocb" and "i \<in> covered ocb" and "j \<in> covered ocb"
  shows "\<exists>ocb'. set_entry ocb i j r = Some ocb' \<and> mat_mem ocb' \<and> ocb_frame ocb' = ocb_frame ocb \<and>
           statestack ocb' = statestack ocb \<and>
           (\<forall>a \<in> covered ocb. \<forall>b \<in> covered ocb. prec_at ocb' a b = (if a = i \<and> b = j then r else prec_at ocb a b))"
proof -
  obtain p where p: "precedence ocb = Some p" "int (length p) = sig_size ocb * sig_size ocb"
    "\<forall>i < length p. p ! i \<noteq> None" using assms(1) by (auto simp: mat_mem_def)
  let ?k = "nat (OCBFunComparePos ocb i j)"
  let ?o = "ocb\<lparr>precedence := Some (p[?k := Some r])\<rparr>"
  have k: "?k < length p" using pos_bounds [OF assms(2,3)] p(2) by (simp add: nat_less_iff)
  have "set_entry ocb i j r = Some ?o"
    using p(1) k pos_bounds(1) [OF assms(2,3)] by (simp add: set_entry_def mem_put_def mem_simps)
  moreover have "mat_mem ?o"
    using assms(1) p k by (auto simp: mat_mem_def nth_list_update)
  moreover have "prec_at ?o a b = (if a = i \<and> b = j then r else prec_at ocb a b)"
    if "a \<in> covered ocb" "b \<in> covered ocb" for a b
  proof -
    have "OCBFunComparePos ?o a b = OCBFunComparePos ocb a b" by (simp add: OCBFunComparePos_def)
    moreover have "nat (OCBFunComparePos ocb a b) = ?k \<longleftrightarrow> a = i \<and> b = j"
      using pos_inject [OF that assms(2,3)] pos_bounds(1) [OF that] pos_bounds(1) [OF assms(2,3)]
      by (simp add: eq_nat_nat_iff)
    ultimately show ?thesis using k p(1) by (auto simp: prec_at_def nth_list_update)
  qed
  ultimately show ?thesis by auto
qed

section \<open>Comparisons and the matrix\<close>

text \<open>The pairs of symbols whose comparison reads the matrix.\<close>

definition reads_matrix :: "OCB \<Rightarrow> int \<Rightarrow> int \<Rightarrow> bool" where
  "reads_matrix ocb f1 f2 \<longleftrightarrow> f1 \<noteq> f2 \<and> f1 \<noteq> SIG_TRUE_CODE \<and> f2 \<noteq> SIG_TRUE_CODE \<and>
     SigIsAnyFuncPropSet (ocb_sig ocb) f1 (sg_distinct (ocb_sig ocb)) =
     SigIsAnyFuncPropSet (ocb_sig ocb) f2 (sg_distinct (ocb_sig ocb))"

lemma reads_matrix_sym: "reads_matrix ocb f1 f2 \<longleftrightarrow> reads_matrix ocb f2 f1"
  by (auto simp: reads_matrix_def)

lemma reads_matrix_frame: "ocb_frame o1 = ocb_frame o2 \<Longrightarrow> reads_matrix o1 = reads_matrix o2"
  by (drule ocb_frameD(2)) (simp add: reads_matrix_def fun_eq_iff)

lemma OCBFunCompare_matrix:
  assumes "mat_mem ocb" and "f1 \<in> covered ocb" and "f2 \<in> covered ocb"
  shows "\<exists>r. OCBFunCompare ocb f1 f2 = Some r \<and> (reads_matrix ocb f1 f2 \<longrightarrow> r = prec_at ocb f1 f2) \<and>
           (\<not> reads_matrix ocb f1 f2 \<longrightarrow> r \<in> {to_equal, to_greater, to_lesser})"
proof -
  obtain p where p: "precedence ocb = Some p" "prec_weights ocb = None"
    using assms(1) by (auto simp: mat_mem_def)
  have cov: "0 < f1" "f1 \<le> sig_size ocb" "0 < f2" "f2 \<le> sig_size ocb"
    using assms(2,3) by (simp_all add: covered_def)
  show ?thesis
  proof (cases "reads_matrix ocb f1 f2")
    case True
    then have "OCBFunCompare ocb f1 f2 = OCBFunCompareMatrix ocb f1 f2"
      using cov p(2) by (simp add: OCBFunCompare_def reads_matrix_def Let_def)
    then show ?thesis
      using True cov p(1) mem_at_prec [OF assms p(1)]
      by (simp add: OCBFunCompareMatrix_def reads_matrix_def)
  next
    case False
    then consider "f1 = f2" | "f1 \<noteq> f2" "f1 = SIG_TRUE_CODE" | "f1 \<noteq> f2" "f2 = SIG_TRUE_CODE" "f1 \<noteq> SIG_TRUE_CODE"
      | "f1 \<noteq> f2" "f1 \<noteq> SIG_TRUE_CODE" "f2 \<noteq> SIG_TRUE_CODE"
        "SigIsAnyFuncPropSet (ocb_sig ocb) f1 (sg_distinct (ocb_sig ocb)) \<noteq>
         SigIsAnyFuncPropSet (ocb_sig ocb) f2 (sg_distinct (ocb_sig ocb))"
      unfolding reads_matrix_def by blast
    then show ?thesis
    proof cases
      case 1
      then show ?thesis using False cov by (simp add: OCBFunCompare_def)
    next
      case 2
      then show ?thesis using False cov by (simp add: OCBFunCompare_def)
    next
      case 3
      then show ?thesis using False cov by (simp add: OCBFunCompare_def)
    next
      case 4
      then have "OCBFunCompare ocb f1 f2 =
          Some (Q_TO_PART (SigIsAnyFuncPropSet (ocb_sig ocb) f2 (sg_distinct (ocb_sig ocb)) -
                           SigIsAnyFuncPropSet (ocb_sig ocb) f1 (sg_distinct (ocb_sig ocb))))"
        using cov by (simp add: OCBFunCompare_def)
      then show ?thesis using False by (auto simp: Q_TO_PART_def)
    qed
  qed
qed

lemma OCBFunCompare_uncomparable:
  assumes "mat_mem ocb" and "f1 \<in> covered ocb" and "f2 \<in> covered ocb"
    and "OCBFunCompare ocb f1 f2 = Some to_uncomparable"
  shows "reads_matrix ocb f1 f2" "prec_at ocb f1 f2 = to_uncomparable"
  using OCBFunCompare_matrix [OF assms(1-3)] assms(4) by auto

section \<open>Steps of an extension\<close>

text \<open>The same matrix and the same stack, up to unused memory.\<close>

definition ocb_sim :: "OCB \<Rightarrow> OCB \<Rightarrow> bool" where
  "ocb_sim o1 o2 \<longleftrightarrow> ocb_frame o2 = ocb_frame o1 \<and> mat_mem o2 \<and>
     (\<forall>a \<in> covered o1. \<forall>b \<in> covered o1. prec_at o2 a b = prec_at o1 a b) \<and>
     pstack_ok (statestack o2) \<and> pstack_list (statestack o2) = pstack_list (statestack o1)"

definition matrix_upd :: "OCB \<Rightarrow> OCB \<Rightarrow> int \<Rightarrow> int \<Rightarrow> CompareResult \<Rightarrow> CompareResult \<Rightarrow> bool" where
  "matrix_upd o1 o2 f1 f2 r r2 \<longleftrightarrow> (\<forall>a \<in> covered o1. \<forall>b \<in> covered o1. prec_at o2 a b =
     (if a = f1 \<and> b = f2 then r else if a = f2 \<and> b = f1 then r2 else prec_at o1 a b))"

definition added :: "OCB \<Rightarrow> OCB \<Rightarrow> int \<Rightarrow> int \<Rightarrow> CompareResult \<Rightarrow> CompareResult \<Rightarrow> bool" where
  "added o1 o2 f1 f2 r r2 \<longleftrightarrow> f1 \<in> covered o1 \<and> f2 \<in> covered o1 \<and> reads_matrix o1 f1 f2 \<and>
     prec_at o1 f1 f2 = to_uncomparable \<and> r \<in> proper_results - {to_uncomparable} \<and>
     POInverseRelation r = Some r2 \<and> ocb_frame o2 = ocb_frame o1 \<and> mat_mem o2 \<and> pstack_ok (statestack o2) \<and>
     pstack_list (statestack o2) = pstack_list (statestack o1) @ [f1, f2] \<and> matrix_upd o1 o2 f1 f2 r r2"

definition add_step :: "OCB \<Rightarrow> OCB \<Rightarrow> bool" where
  "add_step o1 o2 \<longleftrightarrow> (\<exists>f1 f2 r r2. added o1 o2 f1 f2 r r2)"

lemma addedD:
  assumes "added o1 o2 f1 f2 r r2"
  shows "f1 \<in> covered o1" "f2 \<in> covered o1" "f1 \<noteq> f2" "reads_matrix o1 f1 f2" "prec_at o1 f1 f2 = to_uncomparable"
    "r \<in> proper_results" "r \<noteq> to_uncomparable" "r2 \<in> proper_results" "r2 \<noteq> to_uncomparable"
    "POInverseRelation r = Some r2" "POInverseRelation r2 = Some r"
    "ocb_frame o2 = ocb_frame o1" "mat_mem o2" "pstack_ok (statestack o2)"
    "pstack_list (statestack o2) = pstack_list (statestack o1) @ [f1, f2]" "matrix_upd o1 o2 f1 f2 r r2"
    "covered o2 = covered o1"
proof -
  show all: "f1 \<in> covered o1" "f2 \<in> covered o1" "reads_matrix o1 f1 f2" "prec_at o1 f1 f2 = to_uncomparable"
    "r \<in> proper_results" "r \<noteq> to_uncomparable"
    "POInverseRelation r = Some r2" "ocb_frame o2 = ocb_frame o1" "mat_mem o2" "pstack_ok (statestack o2)"
    "pstack_list (statestack o2) = pstack_list (statestack o1) @ [f1, f2]" "matrix_upd o1 o2 f1 f2 r r2"
    using assms unfolding added_def by (blast, blast, blast, blast, blast, blast, blast, blast, blast, blast, blast, blast)
  show "f1 \<noteq> f2" using all(3) by (simp add: reads_matrix_def)
  show "r2 \<in> proper_results" "r2 \<noteq> to_uncomparable" using all(5-7) by (auto simp: proper_results_def)
  show "POInverseRelation r2 = Some r" using all(7) by (rule POInverseRelation_involution)
  show "covered o2 = covered o1" using all(8) by (rule ocb_frameD(4))
qed

inductive ocb_ext :: "OCB \<Rightarrow> OCB \<Rightarrow> bool" for o1 where
  ext_sim: "ocb_sim o1 o2 \<Longrightarrow> ocb_ext o1 o2"
| ext_step: "ocb_ext o1 o2 \<Longrightarrow> add_step o2 o3 \<Longrightarrow> ocb_ext o1 o3"

lemma ocb_sim_refl: "mat_ok o1 \<Longrightarrow> ocb_sim o1 o1"
  by (simp add: ocb_sim_def mat_ok_def)

lemma ocb_sim_trans: "ocb_sim o1 o2 \<Longrightarrow> ocb_sim o2 o3 \<Longrightarrow> ocb_sim o1 o3"
  unfolding ocb_sim_def using ocb_frameD(4) [of o2 o1] by simp

lemma ocb_sim_sym: "mat_ok o1 \<Longrightarrow> ocb_sim o1 o2 \<Longrightarrow> ocb_sim o2 o1"
  unfolding ocb_sim_def mat_ok_def using ocb_frameD(4) [of o2 o1] by simp

lemma ocb_sim_ok: "mat_ok o1 \<Longrightarrow> ocb_sim o1 o2 \<Longrightarrow> mat_ok o2"
  unfolding ocb_sim_def mat_ok_def mat_sym_def using ocb_frameD(4) [of o2 o1] by simp

lemma ocb_simD:
  assumes "ocb_sim o1 o2"
  shows "ocb_frame o2 = ocb_frame o1" "mat_mem o2" "pstack_ok (statestack o2)"
    "pstack_list (statestack o2) = pstack_list (statestack o1)" "covered o2 = covered o1"
    "a \<in> covered o1 \<Longrightarrow> b \<in> covered o1 \<Longrightarrow> prec_at o2 a b = prec_at o1 a b"
  using assms ocb_frameD(4) [of o2 o1] unfolding ocb_sim_def by blast+

lemma add_step_sim: "add_step o1 o2 \<Longrightarrow> ocb_sim o2 o3 \<Longrightarrow> add_step o1 o3"
  unfolding add_step_def
proof (elim exE)
  fix f1 f2 r r2
  assume s: "ocb_sim o2 o3" and a: "added o1 o2 f1 f2 r r2"
  have "matrix_upd o1 o3 f1 f2 r r2"
    using addedD(16,17) [OF a] ocb_simD(6) [OF s] by (simp add: matrix_upd_def)
  then have "added o1 o3 f1 f2 r r2"
    using a ocb_simD [OF s] addedD(12,15) [OF a] by (simp add: added_def)
  then show "\<exists>f1 f2 r r2. added o1 o3 f1 f2 r r2" by blast
qed

lemma sim_add_step: "ocb_sim o1 o2 \<Longrightarrow> add_step o2 o3 \<Longrightarrow> add_step o1 o3"
  unfolding add_step_def
proof (elim exE)
  fix f1 f2 r r2
  assume s: "ocb_sim o1 o2" and a: "added o2 o3 f1 f2 r r2"
  note cov = ocb_simD(5) [OF s] and frame = ocb_simD(1) [OF s]
  have "matrix_upd o1 o3 f1 f2 r r2"
    using addedD(16) [OF a] ocb_simD(6) [OF s] cov by (simp add: matrix_upd_def)
  then have "added o1 o3 f1 f2 r r2"
    using a addedD [OF a] cov frame ocb_simD(4,6) [OF s] reads_matrix_frame [OF frame]
    unfolding added_def by simp
  then show "\<exists>f1 f2 r r2. added o1 o3 f1 f2 r r2" by blast
qed

lemma ext_sim_trans: "ocb_ext o1 o2 \<Longrightarrow> ocb_sim o2 o3 \<Longrightarrow> ocb_ext o1 o3"
  by (induction rule: ocb_ext.cases) (auto intro: ocb_ext.intros ocb_sim_trans add_step_sim)

lemma ext_trans: "ocb_ext o2 o3 \<Longrightarrow> ocb_ext o1 o2 \<Longrightarrow> ocb_ext o1 o3"
  by (induction rule: ocb_ext.induct) (auto intro: ocb_ext.intros ext_sim_trans)

lemma ext_refl: "mat_ok o1 \<Longrightarrow> ocb_ext o1 o1"
  by (simp add: ext_sim ocb_sim_refl)

lemma add_step_ok:
  assumes "add_step o1 o2" and "mat_ok o1"
  shows "mat_ok o2"
proof -
  from assms(1) obtain f1 f2 r r2 where a: "added o1 o2 f1 f2 r r2" by (auto simp: add_step_def)
  note f = addedD [OF a]
  have upd: "prec_at o2 i j = (if i = f1 \<and> j = f2 then r else if i = f2 \<and> j = f1 then r2 else prec_at o1 i j)"
    if "i \<in> covered o1" "j \<in> covered o1" for i j
    using f(16) that by (simp add: matrix_upd_def)
  have "mat_sym o2"
    unfolding mat_sym_def f(17)
  proof (intro ballI)
    fix i j
    assume ij: "i \<in> covered o1" "j \<in> covered o1"
    have "prec_at o1 i j \<in> proper_results" "POInverseRelation (prec_at o1 i j) = Some (prec_at o1 j i)"
      using assms(2) ij by (auto simp: mat_ok_def mat_sym_def)
    then show "prec_at o2 i j \<in> proper_results \<and> POInverseRelation (prec_at o2 i j) = Some (prec_at o2 j i)"
      using f(3,6,8,10,11) ij by (auto simp: upd)
  qed
  then show ?thesis using f(13,14) by (simp add: mat_ok_def)
qed

lemma ext_ok: "ocb_ext o1 o2 \<Longrightarrow> mat_ok o1 \<Longrightarrow> mat_ok o2 \<and> ocb_frame o2 = ocb_frame o1"
proof (induction rule: ocb_ext.induct)
  case (ext_sim o2)
  then show ?case using ocb_sim_ok by (auto simp: ocb_sim_def)
next
  case (ext_step o2 o3)
  then show ?case using add_step_ok addedD(12) unfolding add_step_def by metis
qed

text \<open>Every step removes incomparable entries.\<close>

definition open_entries :: "OCB \<Rightarrow> nat" where
  "open_entries ocb = card {(i, j). i \<in> covered ocb \<and> j \<in> covered ocb \<and> prec_at ocb i j = to_uncomparable}"

lemma finite_open:
  "finite {(i, j). i \<in> covered ocb \<and> j \<in> covered ocb \<and> prec_at ocb i j = to_uncomparable}"
  by (rule finite_subset [of _ "covered ocb \<times> covered ocb"]) (auto simp: covered_def)

lemma open_entries_sim: "ocb_sim o1 o2 \<Longrightarrow> open_entries o2 = open_entries o1"
  unfolding open_entries_def ocb_sim_def
  using ocb_frameD(4) [of o2 o1] by (intro arg_cong [where f = card]) auto

lemma open_entries_step:
  assumes "add_step o1 o2"
  shows "open_entries o2 < open_entries o1"
proof -
  from assms obtain f1 f2 r r2 where a: "added o1 o2 f1 f2 r r2" by (auto simp: add_step_def)
  note f = addedD [OF a]
  have upd: "prec_at o2 i j = (if i = f1 \<and> j = f2 then r else if i = f2 \<and> j = f1 then r2 else prec_at o1 i j)"
    if "i \<in> covered o1" "j \<in> covered o1" for i j
    using f(16) that by (simp add: matrix_upd_def)
  have "{(i, j). i \<in> covered o2 \<and> j \<in> covered o2 \<and> prec_at o2 i j = to_uncomparable} \<subseteq>
      {(i, j). i \<in> covered o1 \<and> j \<in> covered o1 \<and> prec_at o1 i j = to_uncomparable} - {(f1, f2)}"
  proof (intro subsetI, clarify)
    fix i j
    assume ij: "i \<in> covered o2" "j \<in> covered o2" "prec_at o2 i j = to_uncomparable"
    then have c: "i \<in> covered o1" "j \<in> covered o1" by (simp_all only: f(17))
    have "\<not> (i = f1 \<and> j = f2)" "prec_at o1 i j = to_uncomparable"
      using upd [OF c] ij(3) f(7,9) by (simp_all split: if_splits)
    then show "(i, j) \<in> {(i, j). i \<in> covered o1 \<and> j \<in> covered o1 \<and> prec_at o1 i j = to_uncomparable} - {(f1, f2)}"
      using c by simp
  qed
  then have "{(i, j). i \<in> covered o2 \<and> j \<in> covered o2 \<and> prec_at o2 i j = to_uncomparable} \<subset>
      {(i, j). i \<in> covered o1 \<and> j \<in> covered o1 \<and> prec_at o1 i j = to_uncomparable}"
    using f(1,2,5) by blast
  then show ?thesis unfolding open_entries_def by (rule psubset_card_mono [OF finite_open])
qed

lemma open_entries_ext: "ocb_ext o1 o2 \<Longrightarrow> open_entries o2 \<le> open_entries o1"
  by (induction rule: ocb_ext.induct)
    (auto simp: open_entries_sim dest: open_entries_step)

lemma ext_stack: "ocb_ext o1 o2 \<Longrightarrow> length (pstack_list (statestack o1)) \<le> length (pstack_list (statestack o2))"
proof (induction rule: ocb_ext.induct)
  case (ext_sim o2)
  then show ?case using ocb_simD(4) [OF ext_sim] by (simp only:)
next
  case (ext_step o2 o3)
  then obtain f1 f2 r r2 where "added o2 o3 f1 f2 r r2" by (auto simp: add_step_def)
  from addedD(15) [OF this] have "length (pstack_list (statestack o3)) = length (pstack_list (statestack o2)) + 2"
    by (simp only: length_append list.size)
  then show ?case using ext_step.IH by linarith
qed

section \<open>Adding and taking back\<close>

text \<open>Writing both entries of a pair, as the code does, and popping the pair of the last step.\<close>

lemma set_pair_ok:
  assumes "mat_mem ocb" and "f1 \<in> covered ocb" and "f2 \<in> covered ocb" and "f1 \<noteq> f2"
  shows "\<exists>o1 o2. set_entry ocb f1 f2 r = Some o1 \<and> set_entry o1 f2 f1 r2 = Some o2 \<and> mat_mem o1 \<and>
           mat_mem o2 \<and> ocb_frame o1 = ocb_frame ocb \<and> ocb_frame o2 = ocb_frame ocb \<and>
           statestack o2 = statestack ocb \<and> matrix_upd ocb o2 f1 f2 r r2 \<and>
           prec_at o1 f2 f1 = prec_at ocb f2 f1"
proof -
  obtain o1 where o1: "set_entry ocb f1 f2 r = Some o1" "mat_mem o1" "ocb_frame o1 = ocb_frame ocb"
    "statestack o1 = statestack ocb"
    "\<forall>a \<in> covered ocb. \<forall>b \<in> covered ocb. prec_at o1 a b = (if a = f1 \<and> b = f2 then r else prec_at ocb a b)"
    using set_entry_ok [OF assms(1-3)] by blast
  have cov: "covered o1 = covered ocb" using ocb_frameD(4) [OF o1(3)] .
  obtain o2 where o2: "set_entry o1 f2 f1 r2 = Some o2" "mat_mem o2" "ocb_frame o2 = ocb_frame o1"
    "statestack o2 = statestack o1"
    "\<forall>a \<in> covered o1. \<forall>b \<in> covered o1. prec_at o2 a b = (if a = f2 \<and> b = f1 then r2 else prec_at o1 a b)"
    using set_entry_ok [OF o1(2), of f2 f1] assms(2,3) cov by blast
  have "matrix_upd ocb o2 f1 f2 r r2"
    using o1(5) o2(5) assms(2-4) cov by (simp add: matrix_upd_def)
  moreover have "prec_at o1 f2 f1 = prec_at ocb f2 f1" using o1(5) assms(2-4) by simp
  ultimately show ?thesis using o1 o2 by (intro exI [of _ o1] exI [of _ o2]) simp
qed

lemma matrix_undo:
  assumes "mat_sym o1" and "added o1 o2 f1 f2 r r2" and "matrix_upd o2 o3 f1 f2 to_uncomparable to_uncomparable"
    and "a \<in> covered o1" and "b \<in> covered o1"
  shows "prec_at o3 a b = prec_at o1 a b"
proof -
  note f = addedD [OF assms(2)]
  have "POInverseRelation (prec_at o1 f1 f2) = Some (prec_at o1 f2 f1)"
    using assms(1) f(1,2) by (simp add: mat_sym_def)
  then have "prec_at o1 f2 f1 = to_uncomparable" using f(5) by simp
  moreover have "prec_at o3 a b = (if a = f1 \<and> b = f2 then to_uncomparable else if a = f2 \<and> b = f1 then to_uncomparable else prec_at o2 a b)"
    "prec_at o2 a b = (if a = f1 \<and> b = f2 then r else if a = f2 \<and> b = f1 then r2 else prec_at o1 a b)"
    using assms(3-5) f(16,17) by (simp_all add: matrix_upd_def)
  ultimately show ?thesis using f(5) by auto
qed

lemma pop_pair:
  assumes "pstack_ok st" and "pstack_list st = xs @ [f1, f2]"
  shows "\<exists>s1 s2. PStackPop st = Some (f2, s1) \<and> PStackPop s1 = Some (f1, s2) \<and> pstack_ok s2 \<and>
           pstack_list s2 = xs \<and> \<not> PStackEmpty st \<and> \<not> PStackEmpty s1"
proof -
  obtain s1 where s1: "PStackPop st = Some (f2, s1)" "pstack_ok s1" "pstack_list s1 = xs @ [f1]"
    using PStackPop_ok [OF assms(1), of "xs @ [f1]" f2] assms(2) by auto
  obtain s2 where "PStackPop s1 = Some (f1, s2)" "pstack_ok s2" "pstack_list s2 = xs"
    using PStackPop_ok [OF s1(2,3)] by auto
  moreover have "\<not> PStackEmpty st" "\<not> PStackEmpty s1"
    using assms s1 by (auto simp: PStackEmpty_iff)
  ultimately show ?thesis using s1 by auto
qed

lemma undo_step:
  assumes "mat_ok o1" and "added o1 o2 f1 f2 r r2"
  shows "\<exists>s1 s2 o3 o4. PStackPop (statestack o2) = Some (f2, s1) \<and> PStackPop s1 = Some (f1, s2) \<and>
           \<not> PStackEmpty (statestack o2) \<and> \<not> PStackEmpty s1 \<and>
           OCBFunCompare (o2\<lparr>statestack := s2\<rparr>) f1 f2 = Some r \<and>
           set_entry (o2\<lparr>statestack := s2\<rparr>) f1 f2 to_uncomparable = Some o3 \<and>
           OCBFunCompare o3 f2 f1 = Some r2 \<and>
           set_entry o3 f2 f1 to_uncomparable = Some o4 \<and> ocb_sim o1 o4"
proof -
  note f = addedD [OF assms(2)]
  obtain s1 s2 where s: "PStackPop (statestack o2) = Some (f2, s1)" "PStackPop s1 = Some (f1, s2)"
    "pstack_ok s2" "pstack_list s2 = pstack_list (statestack o1)" "\<not> PStackEmpty (statestack o2)" "\<not> PStackEmpty s1"
    using pop_pair [OF f(14,15)] by blast
  let ?o = "o2\<lparr>statestack := s2\<rparr>"
  have at: "prec_at ?o a b = prec_at o2 a b" for a b by (simp add: prec_at_def OCBFunComparePos_def split: option.split)
  have mem: "mat_mem ?o" using f(13) by (simp add: mat_mem_def)
  have frame: "ocb_frame ?o = ocb_frame o1" using f(12) by simp
  have cov: "covered ?o = covered o1" using ocb_frameD(4) [OF frame] .
  have fc: "f1 \<in> covered ?o" "f2 \<in> covered ?o" using f(1,2) cov by simp_all
  obtain o3 o4 where o34: "set_entry ?o f1 f2 to_uncomparable = Some o3" "set_entry o3 f2 f1 to_uncomparable = Some o4"
    "mat_mem o3" "mat_mem o4" "ocb_frame o3 = ocb_frame ?o" "ocb_frame o4 = ocb_frame ?o" "statestack o4 = statestack ?o"
    "matrix_upd ?o o4 f1 f2 to_uncomparable to_uncomparable" "prec_at o3 f2 f1 = prec_at ?o f2 f1"
    using set_pair_ok [OF mem fc f(3)] by blast
  have "prec_at o2 f1 f2 = r" "prec_at o2 f2 f1 = r2"
    using f(1-3,16) by (simp_all add: matrix_upd_def)
  moreover have "reads_matrix ?o f1 f2" "reads_matrix o3 f2 f1"
    using f(4) reads_matrix_frame [OF frame] reads_matrix_frame [OF o34(5)] reads_matrix_sym by auto
  ultimately have cmp: "OCBFunCompare ?o f1 f2 = Some r" "OCBFunCompare o3 f2 f1 = Some r2"
    using OCBFunCompare_matrix [OF mem fc] OCBFunCompare_matrix [OF o34(3), of f2 f1] fc
      ocb_frameD(4) [OF o34(5)] o34(9) at by auto
  have upd: "matrix_upd o2 o4 f1 f2 to_uncomparable to_uncomparable"
    using o34(8) at by (simp add: matrix_upd_def covered_def)
  have "prec_at o4 a b = prec_at o1 a b" if "a \<in> covered o1" "b \<in> covered o1" for a b
    using matrix_undo [OF _ assms(2) upd that] assms(1) by (simp add: mat_ok_def)
  then have "ocb_sim o1 o4"
    using o34 s(3,4) frame by (simp add: ocb_sim_def)
  then show ?thesis using s cmp o34(1,2) by blast
qed

lemma ext_last:
  assumes "ocb_ext o2 o3" and "add_step o1 o2" and "mat_ok o1"
  shows "\<exists>o'. ocb_ext o1 o' \<and> add_step o' o3"
  using assms(1)
proof cases
  case ext_sim
  then show ?thesis using add_step_sim [OF assms(2)] ext_refl [OF assms(3)] by blast
next
  case (ext_step o')
  have "ocb_ext o1 o2" using ocb_ext.ext_step [OF ext_refl [OF assms(3)] assms(2)] .
  then show ?thesis using ext_step ext_trans by blast
qed

lemma trans_compute_ok:
  assumes "mat_ok ocb" and "f1 \<in> covered ocb" and "f2 \<in> covered ocb" and "f3 \<in> covered ocb"
    and add: "\<And>r. r \<in> {to_equal, to_greater, to_lesser} \<Longrightarrow> \<exists>n ocb'. add ocb f1 f3 r = Some (n, ocb') \<and> ocb_ext ocb ocb'"
  shows "\<exists>b ocb'. trans_compute_with add ocb f1 f2 f3 = Some (b, ocb') \<and> ocb_ext ocb ocb'"
proof -
  have mem: "mat_mem ocb" using assms(1) by (simp add: mat_ok_def)
  have proper: "\<exists>r. OCBFunCompare ocb f g = Some r \<and> r \<in> proper_results"
    if "f \<in> covered ocb" "g \<in> covered ocb" for f g
    using OCBFunCompare_matrix [OF mem that] assms(1) that
    by (auto simp: mat_ok_def mat_sym_def proper_results_def)
  obtain r12 where r12: "OCBFunCompare ocb f1 f2 = Some r12" "r12 \<in> proper_results" using proper assms(2,3) by blast
  obtain r23 where r23: "OCBFunCompare ocb f2 f3 = Some r23" "r23 \<in> proper_results" using proper assms(3,4) by blast
  have same: "\<exists>b ocb'. Some (True, ocb) = Some (b, ocb') \<and> ocb_ext ocb ocb'" using ext_refl [OF assms(1)] by blast
  have more: "\<exists>b ocb'. do { (res, ocb) \<leftarrow> add ocb f1 f3 r; Some (res \<noteq> 0, ocb) } = Some (b, ocb') \<and> ocb_ext ocb ocb'"
    if r: "r \<in> {to_equal, to_greater, to_lesser}" for r
  proof -
    obtain n ocb' where "add ocb f1 f3 r = Some (n, ocb')" "ocb_ext ocb ocb'" using add [OF r] by blast
    then show ?thesis by simp
  qed
  from r12(2) r23(2) show ?thesis
    unfolding trans_compute_with_def r12(1) r23(1) bind.bind_lunit Let_def proper_results_def
    using same more [of to_equal] more [of to_greater] more [of to_lesser]
    by (elim insertE emptyE; simp)
qed

lemma foldM_brk_ext:
  assumes "\<And>i s. i \<in> set is \<Longrightarrow> P (snd s) \<Longrightarrow> \<exists>s' b. f i s = Some (s', b) \<and> P (snd s')" and "P (snd s)"
  shows "\<exists>s'. foldM_brk f s is = Some s' \<and> P (snd s')"
  using assms
proof (induction "is" arbitrary: s)
  case (Cons i "is")
  obtain s' b where s': "f i s = Some (s', b)" "P (snd s')" using Cons.prems by fastforce
  show ?case
  proof (cases b)
    case False
    obtain s'' where "foldM_brk f s' is = Some s''" "P (snd s'')"
      using Cons.IH [OF _ s'(2)] Cons.prems(1) by fastforce
    then show ?thesis using s' False by simp
  qed (use s' in auto)
qed simp

text \<open>Adding a tuple always ends, whatever relation is asked for, and only does steps.\<close>

lemma AddTuple_ext:
  assumes "mat_ok ocb" and "f1 \<in> covered ocb" and "f2 \<in> covered ocb" and "rel \<in> {to_equal, to_greater, to_lesser}"
  shows "\<exists>res ocb'. OCBPrecedenceAddTuple ocb f1 f2 rel = Some (res, ocb') \<and> ocb_ext ocb ocb'"
  using assms
proof (induction "open_entries ocb" arbitrary: ocb f1 f2 rel rule: less_induct)
  case less
  have mem: "mat_mem ocb" "pstack_ok (statestack ocb)" using less.prems(1) by (simp_all add: mat_ok_def)
  obtain p where p: "precedence ocb = Some p" using mem(1) by (auto simp: mat_mem_def)
  have le: "f1 \<le> sig_size ocb" "f2 \<le> sig_size ocb" using less.prems(2,3) by (simp_all add: covered_def)
  obtain cmp where cmp: "OCBFunCompare ocb f1 f2 = Some cmp"
    using OCBFunCompare_matrix [OF mem(1) less.prems(2,3)] by blast
  have rel: "rel \<noteq> to_uncomparable" using less.prems(4) by auto
  show ?case
  proof (cases "cmp = to_uncomparable")
    case False
    then show ?thesis
      using p le rel cmp ext_refl [OF less.prems(1)] by (subst OCBPrecedenceAddTuple.simps) auto
  next
    case True
    have rd: "reads_matrix ocb f1 f2" "prec_at ocb f1 f2 = to_uncomparable"
      using OCBFunCompare_uncomparable [OF mem(1) less.prems(2,3)] cmp True by blast+
    then have neq: "f1 \<noteq> f2" by (simp add: reads_matrix_def)
    obtain rel2 where rel2: "POInverseRelation rel = Some rel2" using less.prems(4) by auto
    obtain s1 where s1: "push (statestack ocb) f1 = Some s1" "pstack_ok s1" "pstack_list s1 = pstack_list (statestack ocb) @ [f1]"
      using push_ok [OF mem(2)] by blast
    obtain s2 where s2: "push s1 f2 = Some s2" "pstack_ok s2" "pstack_list s2 = pstack_list (statestack ocb) @ [f1, f2]"
      using push_ok [OF s1(2)] s1(3) by fastforce
    let ?o = "ocb\<lparr>statestack := s2\<rparr>"
    have o: "mat_mem ?o" "covered ?o = covered ocb" "prec_at ?o = prec_at ocb"
      using mem(1) by (simp_all add: mat_mem_def covered_def prec_at_def OCBFunComparePos_def fun_eq_iff split: option.split)
    obtain o3 o4 where o34: "set_entry ?o f1 f2 rel = Some o3" "set_entry o3 f2 f1 rel2 = Some o4"
      "mat_mem o4" "ocb_frame o4 = ocb_frame ?o" "statestack o4 = s2" "matrix_upd ?o o4 f1 f2 rel rel2"
      using set_pair_ok [OF o(1), of f1 f2 rel rel2] less.prems(2,3) neq o(2) by auto
    have "added ocb o4 f1 f2 rel rel2"
      unfolding added_def using less.prems(2-4) rd rel rel2 o34 s2 o
      by (auto simp: matrix_upd_def proper_results_def)
    then have step: "add_step ocb o4" by (auto simp: add_step_def)
    have o4: "mat_ok o4" using add_step_ok [OF step less.prems(1)] .
    define P where "P o5 \<longleftrightarrow> ocb_ext o4 o5" for o5
    have P: "mat_ok o5" "covered o5 = covered ocb" "open_entries o5 < open_entries ocb" if "P o5" for o5
      using ext_ok [of o4 o5] that o4 o34(4) ocb_frameD(4) [of o5 ocb] open_entries_ext [of o4 o5] open_entries_step [OF step]
      by (auto simp: P_def)
    have trans: "\<exists>b o6. trans_compute_with (\<lambda>ocb f1 f2 r. OCBPrecedenceAddTuple ocb f1 f2 r) o5 g1 g2 g3 = Some (b, o6) \<and> P o6"
      if o5: "P o5" and g: "g1 \<in> covered ocb" "g2 \<in> covered ocb" "g3 \<in> covered ocb" for o5 g1 g2 g3
    proof -
      have "\<exists>n o6. OCBPrecedenceAddTuple o5 g1 g3 r = Some (n, o6) \<and> ocb_ext o5 o6"
        if "r \<in> {to_equal, to_greater, to_lesser}" for r
        using less.hyps [OF P(3) [OF o5] P(1) [OF o5] _ _ that] g P(2) [OF o5] by simp
      then obtain b o6 where "trans_compute_with OCBPrecedenceAddTuple o5 g1 g2 g3 = Some (b, o6)" "ocb_ext o5 o6"
        using trans_compute_ok [OF P(1) [OF o5], of g1 g2 g3 OCBPrecedenceAddTuple] g P(2) [OF o5] by auto
      then show ?thesis using o5 ext_trans by (auto simp: P_def)
    qed
    let ?body = "\<lambda>i (res :: nat, ocb).
         do { (r, ocb) \<leftarrow> trans_compute_with (\<lambda>ocb f1 f2 r. OCBPrecedenceAddTuple ocb f1 f2 r) ocb f1 f2 i;
              if \<not> r then Some ((0, ocb), True)
              else do { (r, ocb) \<leftarrow> trans_compute_with (\<lambda>ocb f1 f2 r. OCBPrecedenceAddTuple ocb f1 f2 r) ocb i f1 f2;
                        Some ((if r then 1 else 0, ocb), \<not> r) } }"
    have body: "\<exists>s' b. ?body i s = Some (s', b) \<and> P (snd s')" if i: "i \<in> set [1..sig_size o4]" and s: "P (snd s)" for i s
    proof -
      have ic: "i \<in> covered ocb" using i ocb_frameD(1) [OF o34(4)] by (simp add: covered_def)
      obtain r o5 where r: "trans_compute_with (\<lambda>ocb f1 f2 r. OCBPrecedenceAddTuple ocb f1 f2 r) (snd s) f1 f2 i = Some (r, o5)" "P o5"
        using trans [OF s less.prems(2,3) ic] by blast
      obtain r' o6 where r': "trans_compute_with (\<lambda>ocb f1 f2 r. OCBPrecedenceAddTuple ocb f1 f2 r) o5 i f1 f2 = Some (r', o6)" "P o6"
        using trans [OF r(2) ic less.prems(2,3)] by blast
      show ?thesis using r r' by (cases s; cases r) auto
    qed
    have "P o4" using ext_refl [OF o4] by (simp add: P_def)
    then obtain s' where s': "foldM_brk ?body (0, o4) [1..sig_size o4] = Some s'" "P (snd s')"
      using foldM_brk_ext [of "[1..sig_size o4]" P ?body "(0, o4)", OF body] by auto
    obtain res o5 where ro: "s' = (res, o5)" by (cases s')
    have unfold: "OCBPrecedenceAddTuple ocb f1 f2 rel =
        (if res = 0
         then do { (f2, st) \<leftarrow> PStackPop (statestack o5);
                   (f1, st) \<leftarrow> PStackPop st;
                   ocb \<leftarrow> set_entry (o5\<lparr>statestack := st\<rparr>) f1 f2 to_uncomparable;
                   ocb \<leftarrow> set_entry ocb f2 f1 to_uncomparable;
                   Some (res, ocb) }
         else Some (res, o5))"
      using p le rel cmp True rel [symmetric] s1(1) s2(1) o34(1,2) rel2 s'(1) ro
      by (subst OCBPrecedenceAddTuple.simps) (simp add: PStackPushInt_def Let_def)
    obtain o' where o': "ocb_ext ocb o'" "add_step o' o5"
      using ext_last [OF _ step less.prems(1), of o5] s'(2) ro by (auto simp: P_def)
    show ?thesis
    proof (cases "res = 0")
      case False
      then show ?thesis using unfold ocb_ext.ext_step [OF o'] by simp
    next
      case True
      obtain g1 g2 r r2 where a: "added o' o5 g1 g2 r r2" using o'(2) by (auto simp: add_step_def)
      have ok: "mat_ok o'" using ext_ok [OF o'(1) less.prems(1)] by blast
      obtain s1 s2 o6 o7 where u: "PStackPop (statestack o5) = Some (g2, s1)" "PStackPop s1 = Some (g1, s2)"
        "set_entry (o5\<lparr>statestack := s2\<rparr>) g1 g2 to_uncomparable = Some o6"
        "set_entry o6 g2 g1 to_uncomparable = Some o7" "ocb_sim o' o7"
        using undo_step [OF ok a] by blast
      then show ?thesis using unfold True ext_sim_trans [OF o'(1) u(5)] by simp
    qed
  qed
qed

lemma Backtrack_ext:
  assumes "ocb_ext ocb o1" and "mat_ok ocb"
  shows "\<forall>o2. ocb_sim o1 o2 \<longrightarrow> (\<exists>b o3. OCBPrecedenceBacktrack o2 (PStackGetSP (statestack ocb)) = Some (b, o3) \<and> ocb_sim ocb o3)"
  using assms
proof (induction rule: ocb_ext.induct)
  case (ext_sim o1)
  show ?case
  proof (intro allI impI)
    fix o2
    assume "ocb_sim o1 o2"
    then have sim: "ocb_sim ocb o2" using ext_sim(1) ocb_sim_trans by blast
    have "PStackGetSP (statestack o2) = PStackGetSP (statestack ocb)"
      using ocb_simD(3,4) [OF sim] ext_sim(2) unfolding mat_ok_def PStackGetSP_def by (metis length_pstack_list)
    then show "\<exists>b o3. OCBPrecedenceBacktrack o2 (PStackGetSP (statestack ocb)) = Some (b, o3) \<and> ocb_sim ocb o3"
      using sim by (subst OCBPrecedenceBacktrack.simps) simp
  qed
next
  case (ext_step o1 o2)
  show ?case
  proof (intro allI impI)
    fix o3
    assume "ocb_sim o2 o3"
    then have "add_step o1 o3" using add_step_sim ext_step.hyps(2) by blast
    then obtain f1 f2 r r2 where a: "added o1 o3 f1 f2 r r2" by (auto simp: add_step_def)
    have ok: "mat_ok o1" using ext_ok [OF ext_step.hyps(1) ext_step.prems] by blast
    obtain s1 s2 o4 o5 where u: "PStackPop (statestack o3) = Some (f2, s1)" "PStackPop s1 = Some (f1, s2)"
      "\<not> PStackEmpty (statestack o3)" "\<not> PStackEmpty s1"
      "OCBFunCompare (o3\<lparr>statestack := s2\<rparr>) f1 f2 = Some r"
      "set_entry (o3\<lparr>statestack := s2\<rparr>) f1 f2 to_uncomparable = Some o4"
      "OCBFunCompare o4 f2 f1 = Some r2"
      "set_entry o4 f2 f1 to_uncomparable = Some o5" "ocb_sim o1 o5"
      using undo_step [OF ok a] by blast
    have "length (pstack_list (statestack ocb)) < length (pstack_list (statestack o3))"
      using ext_stack [OF ext_step.hyps(1)] arg_cong [OF addedD(15) [OF a], of length]
      by (simp only: length_append list.size)
    then have "PStackGetSP (statestack ocb) \<noteq> PStackGetSP (statestack o3)"
      using addedD(14) [OF a] ext_step.prems by (simp add: PStackGetSP_def mat_ok_def)
    then have "OCBPrecedenceBacktrack o3 (PStackGetSP (statestack ocb)) = OCBPrecedenceBacktrack o5 (PStackGetSP (statestack ocb))"
      using u addedD(7,9) [OF a] by (subst OCBPrecedenceBacktrack.simps) simp
    then show "\<exists>b o4. OCBPrecedenceBacktrack o3 (PStackGetSP (statestack ocb)) = Some (b, o4) \<and> ocb_sim ocb o4"
      using ext_step.IH [OF ext_step.prems] u(9) by simp
  qed
qed

lemma sim_compare:
  assumes "ocb_sim o1 o2" and "mat_mem o1" and "f \<in> covered o1" and "g \<in> covered o1"
  shows "OCBFunCompare o2 f g = OCBFunCompare o1 f g"
proof -
  note frame = ocb_simD(1) [OF assms(1)] and mem2 = ocb_simD(2) [OF assms(1)] and cov = ocb_simD(5) [OF assms(1)]
  have rd: "reads_matrix o2 f g \<longleftrightarrow> reads_matrix o1 f g" using reads_matrix_frame [OF frame] by simp
  show ?thesis
  proof (cases "reads_matrix o1 f g")
    case True
    then show ?thesis
      using OCBFunCompare_matrix [OF assms(2-4)] OCBFunCompare_matrix [OF mem2, of f g] rd cov assms(3,4)
        ocb_simD(6) [OF assms(1,3,4)] by auto
  next
    case False
    have "ocb_sig o2 = ocb_sig o1" "prec_weights o2 = prec_weights o1" using ocb_frameD [OF frame] by simp_all
    then show ?thesis
      using False unfolding OCBFunCompare_def reads_matrix_def by (auto simp: Let_def)
  qed
qed

section \<open>Partial orderings of the symbols\<close>

text \<open>Symbol codes and weights whose differences do not overflow.\<close>

definition symbols :: "int set" where
  "symbols = {f. 0 < f \<and> f \<le> 2 ^ 62}"

definition prec_weights_ok :: "OCB \<Rightarrow> bool" where
  "prec_weights_ok ocb \<longleftrightarrow> (\<exists>w. prec_weights ocb = Some w \<and> int (length w) = sig_size ocb + 1 \<and>
     (\<forall>f \<in> {2..sig_size ocb}. \<exists>x. w ! nat f = Some x \<and> 0 \<le> x \<and> x < 2 ^ 62) \<and>
     (\<forall>f \<in> {2..sig_size ocb}. \<forall>g \<in> {2..sig_size ocb}. w ! nat f = w ! nat g \<longrightarrow> f = g))"

definition prec_matrix_ok :: "OCB \<Rightarrow> bool" where
  "prec_matrix_ok ocb \<longleftrightarrow> mat_mem ocb \<and> mat_sym ocb \<and>
     (\<forall>f \<in> covered ocb. \<forall>g \<in> covered ocb. prec_at ocb f g = to_equal \<longleftrightarrow> f = g) \<and>
     (\<forall>f \<in> covered ocb. \<forall>g \<in> covered ocb. \<forall>h \<in> covered ocb.
        prec_at ocb f g = to_greater \<longrightarrow> prec_at ocb g h = to_greater \<longrightarrow> prec_at ocb f h = to_greater)"

definition ocb_prec_ok :: "OCB \<Rightarrow> bool" where
  "ocb_prec_ok ocb \<longleftrightarrow> prec_weights_ok ocb \<or> prec_matrix_ok ocb"

locale symbol_order =
  fixes cmp :: "'o \<Rightarrow> int \<Rightarrow> int \<Rightarrow> CompareResult option"
    and valid :: "'o \<Rightarrow> bool"
  assumes cmp_some: "valid oc \<Longrightarrow> f \<in> symbols \<Longrightarrow> g \<in> symbols \<Longrightarrow>
      \<exists>r \<in> proper_results. cmp oc f g = Some r \<and> (r = to_equal \<longleftrightarrow> f = g)"
    and cmp_inverse: "valid oc \<Longrightarrow> f \<in> symbols \<Longrightarrow> g \<in> symbols \<Longrightarrow> cmp oc f g = Some r \<Longrightarrow>
      cmp oc g f = POInverseRelation r"
    and cmp_trans: "valid oc \<Longrightarrow> f \<in> symbols \<Longrightarrow> g \<in> symbols \<Longrightarrow> h \<in> symbols \<Longrightarrow>
      cmp oc f g = Some to_greater \<Longrightarrow> cmp oc g h = Some to_greater \<Longrightarrow> cmp oc f h = Some to_greater"
begin

lemma cmp_refl: "valid oc \<Longrightarrow> f \<in> symbols \<Longrightarrow> cmp oc f f = Some to_equal"
  using cmp_some [of oc f f] by auto

lemma cmp_lesser:
  assumes "valid oc" and "f \<in> symbols" and "g \<in> symbols"
  shows "cmp oc f g = Some to_lesser \<longleftrightarrow> cmp oc g f = Some to_greater"
  using cmp_inverse [OF assms, of to_lesser] cmp_inverse [OF assms(1,3,2), of to_greater] by auto

lemma cmp_asym:
  assumes "valid oc" and "f \<in> symbols" and "g \<in> symbols" and "cmp oc f g = Some to_greater"
  shows "cmp oc g f \<noteq> Some to_greater"
  using cmp_lesser [OF assms(1,3,2)] assms(4) by simp

end

text \<open>The comparison of two symbols other than \<open>$true\<close> by layer first, then by the precedence.\<close>

definition layer :: "OCB \<Rightarrow> int \<Rightarrow> int" where
  "layer ocb f = SigIsAnyFuncPropSet (ocb_sig ocb) f (sg_distinct (ocb_sig ocb))"

definition base_cmp :: "OCB \<Rightarrow> int \<Rightarrow> int \<Rightarrow> CompareResult option" where
  "base_cmp ocb f1 f2 =
     (case prec_weights ocb of
        Some w \<Rightarrow> do { w1 \<leftarrow> (if f1 \<le> sig_size ocb then mem_at w f1 else Some (- f1));
                      w2 \<leftarrow> (if f2 \<le> sig_size ocb then mem_at w f2 else Some (- f2));
                      Some (Q_TO_PART (long_diff w1 w2)) }
      | None \<Rightarrow> OCBFunCompareMatrix ocb f1 f2)"

lemma OCBFunCompare_eq:
  assumes "f \<in> symbols" and "g \<in> symbols"
  shows "OCBFunCompare ocb f g =
    (if f = g then Some to_equal else if f = 1 then Some to_lesser else if g = 1 then Some to_greater
     else if layer ocb f < layer ocb g then Some to_greater
     else if layer ocb g < layer ocb f then Some to_lesser
     else base_cmp ocb f g)"
  using assms
  by (simp add: OCBFunCompare_def symbols_def SIG_TRUE_CODE_def Let_def layer_def base_cmp_def Q_TO_PART_def)

definition base_laws :: "OCB \<Rightarrow> bool" where
  "base_laws ocb \<longleftrightarrow>
     (\<forall>f \<in> symbols - {1}. \<forall>g \<in> symbols - {1}. f \<noteq> g \<longrightarrow>
        (\<exists>r \<in> proper_results - {to_equal}. base_cmp ocb f g = Some r \<and> base_cmp ocb g f = POInverseRelation r)) \<and>
     (\<forall>f \<in> symbols - {1}. \<forall>g \<in> symbols - {1}. \<forall>h \<in> symbols - {1}. f \<noteq> g \<longrightarrow> g \<noteq> h \<longrightarrow>
        base_cmp ocb f g = Some to_greater \<longrightarrow> base_cmp ocb g h = Some to_greater \<longrightarrow>
        f \<noteq> h \<and> base_cmp ocb f h = Some to_greater)"

lemma base_weights:
  assumes "prec_weights_ok ocb"
  obtains v where "\<And>f g. f \<in> symbols - {1} \<Longrightarrow> g \<in> symbols - {1} \<Longrightarrow> base_cmp ocb f g = Some (Q_TO_PART (v f - v g))"
    and "inj_on v (symbols - {1})"
proof -
  obtain w where w: "prec_weights ocb = Some w" "int (length w) = sig_size ocb + 1"
    "\<forall>f \<in> {2..sig_size ocb}. \<exists>x. w ! nat f = Some x \<and> 0 \<le> x \<and> x < 2 ^ 62"
    "\<forall>f \<in> {2..sig_size ocb}. \<forall>g \<in> {2..sig_size ocb}. w ! nat f = w ! nat g \<longrightarrow> f = g"
    using assms by (auto simp: prec_weights_ok_def)
  define v where "v f = (if f \<le> sig_size ocb then the (w ! nat f) else - f)" for f
  have at: "(if f \<le> sig_size ocb then mem_at w f else Some (- f)) = Some (v f) \<and> v f \<in> small_keys"
    if "f \<in> symbols - {1}" for f
  proof (cases "f \<le> sig_size ocb")
    case True
    then have "f \<in> {2..sig_size ocb}" using that by (auto simp: symbols_def)
    then obtain x where "w ! nat f = Some x" "0 \<le> x" "x < 2 ^ 62" using w(3) by blast
    then show ?thesis
      using True that w(2) by (simp add: v_def mem_at_def mem_get_def symbols_def small_keys_def nat_less_iff)
  qed (use that in \<open>simp add: v_def symbols_def small_keys_def\<close>)
  have "base_cmp ocb f g = Some (Q_TO_PART (v f - v g))" if "f \<in> symbols - {1}" "g \<in> symbols - {1}" for f g
    using at [OF that(1)] at [OF that(2)] by (simp add: base_cmp_def w(1) long_diff_small)
  moreover have "inj_on v (symbols - {1})"
  proof (rule inj_onI)
    fix f g
    assume fg: "f \<in> symbols - {1}" "g \<in> symbols - {1}" "v f = v g"
    have pos: "0 \<le> v k \<longleftrightarrow> k \<le> sig_size ocb" "k \<le> sig_size ocb \<Longrightarrow> w ! nat k = Some (v k)"
      if k: "k \<in> symbols - {1}" for k
    proof -
      have "\<exists>x. w ! nat k = Some x \<and> 0 \<le> x" if "k \<le> sig_size ocb"
      proof -
        have "k \<in> {2..sig_size ocb}" using k that by (auto simp: symbols_def)
        then show ?thesis using w(3) by blast
      qed
      then show "0 \<le> v k \<longleftrightarrow> k \<le> sig_size ocb" "k \<le> sig_size ocb \<Longrightarrow> w ! nat k = Some (v k)"
        using k by (auto simp: v_def symbols_def)
    qed
    show "f = g"
    proof (cases "f \<le> sig_size ocb")
      case True
      then have "g \<le> sig_size ocb" using pos(1) fg by metis
      then show ?thesis using True w(4) pos(2) fg by (auto simp: symbols_def)
    next
      case False
      then have "\<not> g \<le> sig_size ocb" using pos(1) fg by metis
      then show ?thesis using False fg(3) by (simp add: v_def)
    qed
  qed
  ultimately show thesis by (rule that)
qed

lemma base_laws_weights:
  assumes "prec_weights_ok ocb"
  shows "base_laws ocb"
proof -
  obtain v where v: "\<And>f g. f \<in> symbols - {1} \<Longrightarrow> g \<in> symbols - {1} \<Longrightarrow> base_cmp ocb f g = Some (Q_TO_PART (v f - v g))"
    "inj_on v (symbols - {1})" using base_weights [OF assms] by blast
  show ?thesis
    unfolding base_laws_def
  proof (intro conjI ballI impI)
    fix f g
    assume fg: "f \<in> symbols - {1}" "g \<in> symbols - {1}" "f \<noteq> g"
    have "v f \<noteq> v g" using inj_onD [OF v(2) _ fg(1,2)] fg(3) by blast
    then show "\<exists>r \<in> proper_results - {to_equal}. base_cmp ocb f g = Some r \<and> base_cmp ocb g f = POInverseRelation r"
      using v(1) fg by (auto simp: proper_results_def Q_TO_PART_def)
  next
    fix f g h
    assume fgh: "f \<in> symbols - {1}" "g \<in> symbols - {1}" "h \<in> symbols - {1}"
      "base_cmp ocb f g = Some to_greater" "base_cmp ocb g h = Some to_greater"
    then have "v h < v g" "v g < v f" using v(1) by simp_all
    then show "f \<noteq> h" "base_cmp ocb f h = Some to_greater" using v(1) fgh by auto
  qed
qed

lemma base_laws_matrix:
  assumes "prec_matrix_ok ocb"
  shows "base_laws ocb"
proof -
  have mem: "mat_mem ocb" and sym: "mat_sym ocb"
    and eq: "f \<in> covered ocb \<Longrightarrow> g \<in> covered ocb \<Longrightarrow> prec_at ocb f g = to_equal \<longleftrightarrow> f = g"
    and trans: "f \<in> covered ocb \<Longrightarrow> g \<in> covered ocb \<Longrightarrow> h \<in> covered ocb \<Longrightarrow>
      prec_at ocb f g = to_greater \<Longrightarrow> prec_at ocb g h = to_greater \<Longrightarrow> prec_at ocb f h = to_greater" for f g h
    using assms unfolding prec_matrix_ok_def by blast+
  obtain p where p: "precedence ocb = Some p" "prec_weights ocb = None" using mem by (auto simp: mat_mem_def)
  have base: "base_cmp ocb f g = Some (if f \<in> covered ocb then (if g \<in> covered ocb then prec_at ocb f g else to_greater)
                  else if g \<in> covered ocb then to_lesser else Q_TO_PART (g - f))"
    if "f \<in> symbols - {1}" "g \<in> symbols - {1}" "f \<noteq> g" for f g
    using that mem_at_prec [OF mem _ _ p(1), of f g] p
    by (auto simp: base_cmp_def OCBFunCompareMatrix_def covered_def symbols_def)
  have cov: "prec_at ocb f g \<in> proper_results - {to_equal} \<and> POInverseRelation (prec_at ocb f g) = Some (prec_at ocb g f)"
    if "f \<in> covered ocb" "g \<in> covered ocb" "f \<noteq> g" for f g
    using sym that eq by (simp add: mat_sym_def)
  show ?thesis
    unfolding base_laws_def
  proof (intro conjI ballI impI)
    fix f g
    assume fg: "f \<in> symbols - {1}" "g \<in> symbols - {1}" "f \<noteq> g"
    show "\<exists>r \<in> proper_results - {to_equal}. base_cmp ocb f g = Some r \<and> base_cmp ocb g f = POInverseRelation r"
    proof (cases "f \<in> covered ocb \<and> g \<in> covered ocb")
      case True
      then show ?thesis using base [OF fg] base [OF fg(2,1)] fg(3) cov [of f g] by auto
    next
      case False
      then show ?thesis
        using base [OF fg] base [OF fg(2,1)] fg(3) by (auto simp: proper_results_def Q_TO_PART_def)
    qed
  next
    fix f g h
    assume fgh: "f \<in> symbols - {1}" "g \<in> symbols - {1}" "h \<in> symbols - {1}" "f \<noteq> g" "g \<noteq> h"
      "base_cmp ocb f g = Some to_greater" "base_cmp ocb g h = Some to_greater"
    show neq: "f \<noteq> h"
    proof
      assume "f = h"
      then show False
        using fgh base [of f g] base [of g f] cov [of f g]
        by (auto simp: Q_TO_PART_def split: if_splits)
    qed
    show "base_cmp ocb f h = Some to_greater"
      using fgh neq base [of f g] base [of g h] base [of f h] trans [of f g h]
      by (auto simp: Q_TO_PART_def split: if_splits)
  qed
qed

lemma ocb_base_laws: "ocb_prec_ok ocb \<Longrightarrow> base_laws ocb"
  using base_laws_weights base_laws_matrix by (auto simp: ocb_prec_ok_def)

lemma OCBFunCompare_greater:
  assumes "f \<in> symbols" and "g \<in> symbols"
  shows "OCBFunCompare ocb f g = Some to_greater \<longleftrightarrow> f \<noteq> g \<and> f \<noteq> 1 \<and>
    (g = 1 \<or> layer ocb f < layer ocb g \<or> layer ocb f = layer ocb g \<and> base_cmp ocb f g = Some to_greater)"
  by (auto simp: OCBFunCompare_eq [OF assms])

lemma OCBFunCompare_laws:
  assumes "ocb_prec_ok ocb" and "f \<in> symbols" and "g \<in> symbols"
  shows "\<exists>r \<in> proper_results. OCBFunCompare ocb f g = Some r \<and> (r = to_equal \<longleftrightarrow> f = g) \<and>
           OCBFunCompare ocb g f = POInverseRelation r"
proof -
  have "\<exists>r \<in> proper_results - {to_equal}. base_cmp ocb f g = Some r \<and> base_cmp ocb g f = POInverseRelation r"
    if "f \<noteq> 1" "g \<noteq> 1" "f \<noteq> g"
    using ocb_base_laws [OF assms(1)] assms(2,3) that unfolding base_laws_def by blast
  then show ?thesis
    unfolding OCBFunCompare_eq [OF assms(2,3)] OCBFunCompare_eq [OF assms(3,2)]
    by (auto simp: proper_results_def)
qed

lemma OCBFunCompare_trans:
  assumes "ocb_prec_ok ocb" and "f \<in> symbols" and "g \<in> symbols" and "h \<in> symbols"
    and "OCBFunCompare ocb f g = Some to_greater" and "OCBFunCompare ocb g h = Some to_greater"
  shows "OCBFunCompare ocb f h = Some to_greater"
proof -
  have fg: "f \<noteq> g" "f \<noteq> 1" "g \<noteq> 1" "layer ocb f < layer ocb g \<or> layer ocb f = layer ocb g \<and> base_cmp ocb f g = Some to_greater"
    and gh: "g \<noteq> h" "h = 1 \<or> layer ocb g < layer ocb h \<or> layer ocb g = layer ocb h \<and> base_cmp ocb g h = Some to_greater"
    using assms(5,6) OCBFunCompare_greater assms(2-4) by blast+
  show ?thesis
  proof (cases "h = 1 \<or> layer ocb f < layer ocb h")
    case True
    then show ?thesis using fg OCBFunCompare_greater [OF assms(2,4)] by auto
  next
    case False
    then have "base_cmp ocb f g = Some to_greater" "base_cmp ocb g h = Some to_greater" "layer ocb f = layer ocb h"
      using fg gh by auto
    then have "f \<noteq> h" "base_cmp ocb f h = Some to_greater"
      using ocb_base_laws [OF assms(1)] assms(2-4) fg(1-3) gh(1) False unfolding base_laws_def by blast+
    then show ?thesis using \<open>layer ocb f = layer ocb h\<close> fg(2) OCBFunCompare_greater [OF assms(2,4)] by auto
  qed
qed

interpretation ocb_prec: symbol_order OCBFunCompare ocb_prec_ok
proof unfold_locales
  fix oc f g r
  assume ok: "ocb_prec_ok oc" "f \<in> symbols" "g \<in> symbols"
  show "\<exists>r \<in> proper_results. OCBFunCompare oc f g = Some r \<and> (r = to_equal \<longleftrightarrow> f = g)"
    using OCBFunCompare_laws [OF ok] by blast
  show "OCBFunCompare oc g f = POInverseRelation r" if "OCBFunCompare oc f g = Some r"
    using OCBFunCompare_laws [OF ok] that by auto
qed (rule OCBFunCompare_trans)

section \<open>A fresh block\<close>

lemma put_all_ok:
  assumes "\<And>x. x \<in> set xs \<Longrightarrow> 0 \<le> pos x \<and> pos x < int (length m)" and "inj_on pos (set xs)" and "distinct xs"
  shows "\<exists>m'. foldM (\<lambda>m x. mem_put m (pos x) (val x)) m xs = Some m' \<and> length m' = length m \<and>
           (\<forall>x \<in> set xs. m' ! nat (pos x) = Some (val x)) \<and>
           (\<forall>i. (\<forall>x \<in> set xs. nat (pos x) \<noteq> i) \<longrightarrow> m' ! i = m ! i)"
  using assms
proof (induction xs rule: rev_induct)
  case (snoc x xs)
  obtain m' where m': "foldM (\<lambda>m x. mem_put m (pos x) (val x)) m xs = Some m'" "length m' = length m"
    "\<forall>x \<in> set xs. m' ! nat (pos x) = Some (val x)" "\<forall>i. (\<forall>x \<in> set xs. nat (pos x) \<noteq> i) \<longrightarrow> m' ! i = m ! i"
    using snoc by (auto simp: inj_on_def)
  have "nat (pos y) \<noteq> nat (pos x)" "nat (pos x) \<noteq> nat (pos y)" if "y \<in> set xs" for y
  proof -
    have "pos y \<noteq> pos x" using snoc.prems(2,3) that by (auto simp: inj_on_def)
    then show "nat (pos y) \<noteq> nat (pos x)" "nat (pos x) \<noteq> nat (pos y)"
      using snoc.prems(1) [of x] snoc.prems(1) [of y] that by auto
  qed
  moreover have "nat (pos x) < length m" "0 \<le> pos x" using snoc.prems(1) [of x] by (auto simp: nat_less_iff)
  ultimately show ?case
    using m' by (auto simp: foldM_snoc mem_put_def mem_simps nth_list_update)
qed simp

lemma foldM_product:
  "foldM (\<lambda>s i. foldM (\<lambda>s j. g s i j) s ys) s xs = foldM (\<lambda>s x. g s (fst x) (snd x)) s (List.product xs ys)"
proof (induction xs arbitrary: s)
  case (Cons x xs)
  have "foldM (\<lambda>s j. g s x j) s ys = foldM (\<lambda>s x. g s (fst x) (snd x)) s (map (Pair x) ys)" for s
    by (induction ys arbitrary: s) simp_all
  then show ?case by (simp add: Cons foldM_append)
qed simp

definition ordering_types :: "TermOrdering set" where
  "ordering_types = {KBO, KBO6, LPO, LPOCopy, LPO4, LPO4Copy, RPO}"

text \<open>A new block with a matrix: only equal symbols are comparable, all weights are 1.\<close>

lemma OCBAlloc_matrix:
  assumes "ty \<in> ordering_types" and "0 \<le> sg_f_count sig"
  shows "\<exists>ocb. OCBAlloc ty False sig = Some ocb \<and> mat_ok ocb \<and> prec_matrix_ok ocb \<and>
           sig_size ocb = sg_f_count sig \<and> ocb_sig ocb = sig \<and> ocb_type ocb = ty \<and> var_weight ocb = 1 \<and>
           pstack_list (statestack ocb) = [] \<and>
           (\<forall>i \<in> covered ocb. \<forall>j \<in> covered ocb. prec_at ocb i j = (if i = j then to_equal else to_uncomparable)) \<and>
           (ty \<in> {KBO, KBO6} \<longrightarrow> (\<forall>f \<in> {0..sig_size ocb}. OCBFunWeight ocb f = Some 1)) \<and>
           vb_size ocb = 64 \<and> vb ocb = replicate 64 (Some 0) \<and> max_var ocb = 0 \<and> wb ocb = 0 \<and>
           pos_bal ocb = 0 \<and> neg_bal ocb = 0"
proof -
  let ?n = "sg_f_count sig"
  obtain cells where cells: "PDIntArrayAlloc 16 0 = Some cells"
    using pda_alloc_ok [of 16 0 True] by (auto simp: PDIntArrayAlloc_def)
  obtain vbm where vbm: "foldM (\<lambda>m i. mem_set m i 0) (mem_alloc 64) [0..<64] = Some vbm" "length vbm = 64"
    "\<forall>j < 64. vbm ! j = Some (0::int)"
    using mem_set_range [of 0 64 "mem_alloc 64" 0] by auto
  have vbm_eq: "vbm = replicate 64 (Some 0)" using vbm(2,3) by (intro nth_equalityI) auto
  define h where "h w p = \<lparr>ocb_type = ty, sig_size = ?n, ocb_sig = sig, min_constants = cells,
                        ocb_weights = w, var_weight = 1, prec_weights = None, precedence = Some p,
                        lit_cmp = LCNormal, rewrite_strong_rhs_inst = False, statestack = PStackAlloc,
                        wb = 0, pos_bal = 0, neg_bal = 0, max_var = 0, vb_size = 64, vb = vbm\<rparr>" for w p
  have cov: "covered (h w p) = {1..?n}" "OCBFunComparePos (h w p) = OCBFunComparePos (h None [])"
    "sig_size (h w p) = ?n" for w p
    by (simp_all add: h_def covered_def OCBFunComparePos_def fun_eq_iff)
  let ?pos = "\<lambda>x. OCBFunComparePos (h None []) (fst x) (snd x)"
  let ?p0 = "mem_alloc (nat (?n * ?n)) :: CompareResult mem"
  let ?xs = "List.product [1..?n] [1..?n]"
  have len: "int (length ?p0) = ?n * ?n" by simp
  obtain p where p: "foldM (\<lambda>p x. mem_put p (?pos x) (if fst x = snd x then to_equal else to_uncomparable)) ?p0 ?xs = Some p"
    "length p = length ?p0" "\<forall>x \<in> set ?xs. p ! nat (?pos x) = Some (if fst x = snd x then to_equal else to_uncomparable)"
    using put_all_ok [of ?xs ?pos ?p0 "\<lambda>x. if fst x = snd x then to_equal else to_uncomparable"]
      pos_bounds [of _ "h None []"] pos_inject [of _ "h None []"] cov len
    by (auto simp: inj_on_def distinct_product)
  let ?w0 = "mem_alloc (nat (?n + 1)) :: int mem"
  obtain w where w: "foldM (\<lambda>w i. mem_put w i 1) ?w0 [0..?n] = Some w" "length w = length ?w0"
    "\<forall>i \<in> set [0..?n]. w ! nat i = Some 1"
    using put_all_ok [of "[0..?n]" id ?w0 "\<lambda>_. 1"] assms(2) by auto
  define wo where "wo = (if ty \<in> {KBO, KBO6} then Some w else None)"
  let ?h = "h wo p"
  have "foldM (\<lambda>p i. foldM (\<lambda>p j. mem_put p (OCBFunComparePos (h None []) i j)
                       (if i = j then to_equal else to_uncomparable)) p [1..?n]) ?p0 [1..?n] = Some p"
    using p(1) by (simp add: foldM_product)
  then have alloc: "OCBAlloc ty False sig = Some ?h"
    using cells vbm(1) w(1) assms(1)
    by (auto simp: OCBAlloc_def alloc_precedence_def Let_def wo_def h_def OCBFunComparePos_def ordering_types_def)
  have at: "prec_at ?h i j = (if i = j then to_equal else to_uncomparable)"
    if "i \<in> covered ?h" "j \<in> covered ?h" for i j
  proof -
    have "p ! nat (?pos (i, j)) = Some (if i = j then to_equal else to_uncomparable)"
      using bspec [OF p(3), of "(i, j)"] that cov by simp
    moreover have "precedence ?h = Some p" by (simp add: h_def)
    ultimately show ?thesis using cov(2) [of wo p] by (cases "i = j") (simp_all add: prec_at_def)
  qed
  have all: "p ! k \<noteq> None" if "k < length p" for k
  proof -
    have n: "0 < ?n" using that p(2) assms(2) by (cases "?n = 0") auto
    let ?i = "int k mod ?n + 1" and ?j = "int k div ?n + 1"
    have "int k < ?n * ?n" using that p(2) len by simp
    then have "int k div ?n < ?n" using n by (metis div_mult_mod_eq linorder_not_less mult_right_mono add_increasing2 less_imp_le pos_mod_sign)
    moreover have "0 \<le> int k div ?n" using n by (simp add: pos_imp_zdiv_nonneg_iff)
    moreover have "int k mod ?n + 1 \<le> ?n" "0 \<le> int k mod ?n"
      using pos_mod_bound [OF n, of "int k"] pos_mod_sign [OF n, of "int k"] by linarith+
    ultimately have "(?i, ?j) \<in> set ?xs" by simp
    moreover have "nat (?pos (?i, ?j)) = k" by (simp add: OCBFunComparePos_def h_def)
    ultimately show ?thesis using bspec [OF p(3)] by fastforce
  qed
  have mem: "mat_mem ?h"
    using all p(2) len by (simp add: mat_mem_def) (simp add: h_def)
  have sym: "mat_sym ?h" unfolding mat_sym_def using at by (simp add: proper_results_def)
  have "OCBFunWeight ?h f = Some 1" if "ty \<in> {KBO, KBO6}" "f \<in> {0..?n}" for f
    using w(2,3) that by (simp add: OCBFunWeight_def h_def wo_def mem_at_def mem_get_def)
  moreover have "prec_matrix_ok ?h" unfolding prec_matrix_ok_def using mem sym at by auto
  moreover have "mat_ok ?h" using mem sym by (simp add: mat_ok_def) (simp add: h_def)
  ultimately show ?thesis
    using alloc at cov(3) vbm_eq
    by (intro exI [of _ ?h]) (simp add: h_def)
qed

section \<open>Properties\<close>

text \<open>C27 Extending a precedence matrix by a relation always ends, trips no assertion and keeps the
  matrix inverse-symmetric, also if the relation contradicts the matrix, and backtracking to
  the state before the call always succeeds and restores every comparison of symbols.\<close>

theorem Precedence_add_backtrack:
  assumes "mat_ok ocb" and "f1 \<in> covered ocb" and "f2 \<in> covered ocb" and "rel \<in> {to_equal, to_greater, to_lesser}"
  shows "\<exists>res ocb' b ocb''. OCBPrecedenceAddTuple ocb f1 f2 rel = Some (res, ocb') \<and> mat_ok ocb' \<and>
           OCBPrecedenceBacktrack ocb' (OCBPrecedenceGetState ocb) = Some (b, ocb'') \<and>
           OCBPrecedenceGetState ocb'' = OCBPrecedenceGetState ocb \<and>
           (\<forall>f \<in> covered ocb. \<forall>g \<in> covered ocb. OCBFunCompare ocb'' f g = OCBFunCompare ocb f g)"
proof -
  obtain res o1 where o1: "OCBPrecedenceAddTuple ocb f1 f2 rel = Some (res, o1)" "ocb_ext ocb o1"
    using AddTuple_ext [OF assms] by blast
  have ok: "mat_ok o1" using ext_ok [OF o1(2) assms(1)] by blast
  obtain b o2 where o2: "OCBPrecedenceBacktrack o1 (PStackGetSP (statestack ocb)) = Some (b, o2)" "ocb_sim ocb o2"
    using Backtrack_ext [OF o1(2) assms(1)] ocb_sim_refl [OF ok] by blast
  have "OCBPrecedenceGetState o2 = OCBPrecedenceGetState ocb"
    using ocb_simD(3,4) [OF o2(2)] assms(1) unfolding mat_ok_def OCBPrecedenceGetState_def PStackGetSP_def
    by (metis length_pstack_list)
  moreover have "OCBFunCompare o2 f g = OCBFunCompare ocb f g" if "f \<in> covered ocb" "g \<in> covered ocb" for f g
    using sim_compare [OF o2(2) _ that] assms(1) by (simp add: mat_ok_def)
  ultimately show ?thesis using o1(1) o2(1) ok unfolding OCBPrecedenceGetState_def by blast
qed

theorem Precedence_add_backtrack_witness:
  "\<exists>ocb res ocb' b ocb''. OCBAlloc LPO False sample_sig = Some ocb \<and>
     OCBPrecedenceAddTuple ocb 20 22 to_greater = Some (res, ocb') \<and>
     OCBPrecedenceBacktrack ocb' (OCBPrecedenceGetState ocb) = Some (b, ocb'')"
proof -
  obtain ocb where ocb: "OCBAlloc LPO False sample_sig = Some ocb" "mat_ok ocb" "sig_size ocb = 22"
    using OCBAlloc_matrix [of LPO sample_sig] by (auto simp: ordering_types_def sample_sig_def)
  then show ?thesis
    using Precedence_add_backtrack [OF ocb(2), of 20 22 to_greater] by (auto simp: covered_def)
qed

end
