(* ===== verification/TermEquality.thy ===== *)
theory TermEquality
  imports Terms
begin

text \<open>
  The equality and subterm tests of \<open>TERMS/cte_termfunc.c\<close> decide what they should: equality
  of the terms that \<open>TermCopyKeepVars\<close> builds with the same number of dereferencing steps.
\<close>

section \<open>Dereferencing and copying\<close>

lemma deref_always_wf:
  assumes "deref_always b t = Some t'" and "binds_ok sg b" and "wf_term sg t"
  shows "wf_term sg t' \<and> b t' = None"
proof -
  have "binds_ok sg b \<longrightarrow> wf_term sg t \<longrightarrow> wf_term sg t' \<and> b t' = None"
  proof (rule deref_always.raw_induct [of "\<lambda>b t t'. binds_ok sg b \<longrightarrow> wf_term sg t \<longrightarrow> wf_term sg t' \<and> b t' = None",
        OF _ assms(1)])
    fix rec and b :: bindings and t t'
    assume "\<And>b t t'. rec b t = Some t' \<Longrightarrow> binds_ok sg b \<longrightarrow> wf_term sg t \<longrightarrow> wf_term sg t' \<and> b t' = None"
      and "(case b t of None \<Rightarrow> Some t | Some s \<Rightarrow> rec b s) = Some t'"
    then show "binds_ok sg b \<longrightarrow> wf_term sg t \<longrightarrow> wf_term sg t' \<and> b t' = None"
      by (cases "b t") (auto dest: binds_okD(3))
  qed
  then show ?thesis using assms(2,3) by blast
qed

lemma deref_count_wf:
  "deref_count b d t = (t', d') \<Longrightarrow> binds_ok sg b \<Longrightarrow> wf_term sg t \<Longrightarrow> wf_term sg t'"
  by (induction d arbitrary: t) (auto split: option.splits dest: binds_okD(3))

lemma TermDeref_wf:
  "TermDeref b t d = Some (t', d') \<Longrightarrow> binds_ok sg b \<Longrightarrow> wf_term sg t \<Longrightarrow> wf_term sg t'"
  by (auto simp: TermDeref_def bind_eq_Some_conv split: if_splits
      dest: deref_always_wf deref_count_wf)

lemma binds_ok_assert: "binds_ok sg b \<Longrightarrow> TermIsFreeVar t \<or> b t = None"
  using binds_ok_fun [of sg b t] by (cases "TermIsFreeVar t") simp_all

lemma TermDeref_0 [simp]: "binds_ok sg b \<Longrightarrow> TermDeref b t 0 = Some (t, 0)"
  by (simp add: TermDeref_def deref_defs binds_ok_assert)

lemma TermCopyKeepVars_0: "binds_ok sg b \<Longrightarrow> TermCopyKeepVars b t 0 = Some t"
proof (induction t)
  case (TermCell f p ty as)
  have "map_opt (\<lambda>a. TermCopyKeepVars b a 0) as = Some (map id as)"
    by (rule map_opt_total) (simp add: TermCell)
  then show ?case
    using TermCell.prems by (subst TermCopyKeepVars.simps) (simp add: TermTopCopy_def)
qed

lemma TermCopyKeepVars_cases:
  assumes "TermCopyKeepVars b t d = Some u"
  obtains t' d' where "TermDeref b t d = Some (t', d')" "TermIsFreeVar t'" "u = t'"
  | t' d' us where "TermDeref b t d = Some (t', d')" "\<not> TermIsFreeVar t'"
      "u = TermCell (f_code t') (t_predpos t') (t_type t') us"
      "list_all2 (\<lambda>a u. TermCopyKeepVars b a d' = Some u) (t_args t') us"
proof -
  from assms obtain t' d' where d: "TermDeref b t d = Some (t', d')"
    and u: "(if TermIsFreeVar t' then Some t'
             else do { as \<leftarrow> map_opt (\<lambda>a. TermCopyKeepVars b a d') (t_args t');
                       Some (TermCell (f_code t') (t_predpos t') (t_type t') as) }) = Some u"
    by (subst (asm) TermCopyKeepVars.simps [of b t d]) (auto simp: bind_eq_Some_conv TermTopCopy_def Let_def cong: if_cong)
  show thesis
  proof (cases "TermIsFreeVar t'")
    case True
    then show thesis using that(1) d u by simp
  next
    case False
    then show thesis using that(2) d u by (auto simp: bind_eq_Some_conv map_opt_Some)
  qed
qed

lemma TermCopyKeepVars_head:
  assumes "TermCopyKeepVars b t d = Some u" and "binds_ok sg b" and "wf_term sg t"
  obtains t' d' us where "TermDeref b t d = Some (t', d')" "wf_term sg t'"
    "u = TermCell (f_code t') (t_predpos t') (t_type t') us"
    "list_all2 (\<lambda>a u. TermCopyKeepVars b a d' = Some u) (t_args t') us"
  using assms(1)
proof (cases rule: TermCopyKeepVars_cases)
  case (1 t' d')
  have wf: "wf_term sg t'" using TermDeref_wf [OF 1(1) assms(2,3)] .
  then have "t_args t' = []" using 1(2) by (cases t') simp
  then show ?thesis using 1 that [OF 1(1) wf, of "[]"] by (cases t') simp
next
  case (2 t' d' us)
  then show ?thesis using that TermDeref_wf [OF 2(1) assms(2,3)] by blast
qed

section \<open>Structural equality\<close>

lemma all_opt_nth:
  assumes "\<And>i. i < n \<Longrightarrow> f i = Some (P i)"
  shows "all_opt f [0..<n] = Some (\<forall>i<n. P i)"
  using all_opt_total [of "[0..<n]" f P] assms by (simp add: Ball_def)

lemma TermStructEqualDeref_ok:
  assumes "TermCopyKeepVars b t1 d1 = Some u1" and "TermCopyKeepVars b t2 d2 = Some u2"
    and "binds_ok sg b" and "wf_term sg t1" and "wf_term sg t2"
  shows "TermStructEqualDeref b t1 t2 d1 d2 = Some (u1 = u2)"
  using assms
proof (induction u1 arbitrary: t1 t2 d1 d2 u2)
  case (TermCell f p ty us1)
  obtain t1' e1 us where h1: "TermDeref b t1 d1 = Some (t1', e1)" "wf_term sg t1'"
    "TermCell f p ty us1 = TermCell (f_code t1') (t_predpos t1') (t_type t1') us"
    "list_all2 (\<lambda>a u. TermCopyKeepVars b a e1 = Some u) (t_args t1') us"
    using TermCopyKeepVars_head [OF TermCell.prems(1,3,4)] by blast
  have eq1: "f = f_code t1'" "p = t_predpos t1'" "ty = t_type t1'" "us = us1" using h1(3) by simp_all
  obtain t2' e2 us2 where h2: "TermDeref b t2 d2 = Some (t2', e2)" "wf_term sg t2'"
    "u2 = TermCell (f_code t2') (t_predpos t2') (t_type t2') us2"
    "list_all2 (\<lambda>a u. TermCopyKeepVars b a e2 = Some u) (t_args t2') us2"
    using TermCopyKeepVars_head [OF TermCell.prems(2,3,5)] by blast
  have unfold: "TermStructEqualDeref b t1 t2 d1 d2 =
      (if t_type t1' \<noteq> t_type t2' then Some False
       else if e1 = DEREF_NEVER \<and> e2 = DEREF_NEVER then Some (t1' = t2')
       else if t1' = t2' \<and> e1 = e2 then Some True
       else if f_code t1' \<noteq> f_code t2' then Some False
       else do { c_assert (arity t1' = arity t2');
                 all_opt (\<lambda>i. do { a \<leftarrow> t_arg t1' i; a' \<leftarrow> t_arg t2' i; TermStructEqualDeref b a a' e1 e2 })
                   [0..<arity t1'] })"
    by (subst TermStructEqualDeref.simps) (simp add: h1(1) h2(1))
  consider (type) "t_type t1' \<noteq> t_type t2'"
    | (never) "t_type t1' = t_type t2'" "e1 = 0" "e2 = 0"
    | (same) "t_type t1' = t_type t2'" "\<not> (e1 = 0 \<and> e2 = 0)" "t1' = t2'" "e1 = e2"
    | (fcode) "t_type t1' = t_type t2'" "\<not> (e1 = 0 \<and> e2 = 0)" "\<not> (t1' = t2' \<and> e1 = e2)" "f_code t1' \<noteq> f_code t2'"
    | (args) "t_type t1' = t_type t2'" "\<not> (e1 = 0 \<and> e2 = 0)" "\<not> (t1' = t2' \<and> e1 = e2)" "f_code t1' = f_code t2'"
    by blast
  then show ?case
  proof cases
    case type
    then show ?thesis by (simp add: unfold h2(3) eq1)
  next
    case never
    have "us = t_args t1'" "us2 = t_args t2'"
      using h1(4) h2(4) TermCopyKeepVars_0 [OF TermCell.prems(3)] never
      by (simp_all add: list_all2_conv_all_nth list_eq_iff_nth_eq)
    then have "TermCell f p ty us1 = t1'" "u2 = t2'" using h1(3) h2(3) by simp_all
    then show ?thesis using never by (simp add: unfold deref_defs)
  next
    case same
    have "us = us2"
      using h1(4) h2(4) same by (auto simp: list_all2_conv_all_nth list_eq_iff_nth_eq)
    then have "TermCell f p ty us1 = u2" using h1(3) h2(3) same by simp
    then show ?thesis using same by (simp add: unfold deref_defs)
  next
    case fcode
    then have "TermCell f p ty us1 \<noteq> u2" using eq1 h2(3) by simp
    then show ?thesis using fcode by (auto simp: unfold deref_defs)
  next
    case args
    have ar: "arity t1' = arity t2'" and pp: "t_predpos t1' = t_predpos t2'"
      using h1(2) h2(2) args(4) by (cases t1'; cases t2'; auto split: if_splits)+
    have len: "length us1 = arity t1'" "length us2 = arity t1'"
      using h1(4) h2(4) ar eq1(4) by (auto simp: arity_def dest: list_all2_lengthD)
    have "do { a \<leftarrow> t_arg t1' i; a' \<leftarrow> t_arg t2' i; TermStructEqualDeref b a a' e1 e2 } =
        Some (us1 ! i = us2 ! i)" if i: "i < arity t1'" for i
    proof -
      have "TermCopyKeepVars b (t_args t1' ! i) e1 = Some (us1 ! i)"
        "TermCopyKeepVars b (t_args t2' ! i) e2 = Some (us2 ! i)"
        using h1(4) h2(4) i ar eq1(4) by (simp_all add: list_all2_conv_all_nth arity_def)
      moreover have "wf_term sg (t_args t1' ! i)" "wf_term sg (t_args t2' ! i)"
        using h1(2) h2(2) i ar by (cases t1'; cases t2'; auto split: if_splits)+
      ultimately have "TermStructEqualDeref b (t_args t1' ! i) (t_args t2' ! i) e1 e2 = Some (us1 ! i = us2 ! i)"
        using TermCell.IH [of "us1 ! i"] TermCell.prems(3) len i by simp
      then show ?thesis using i ar by (simp add: t_arg_def)
    qed
    then have "TermStructEqualDeref b t1 t2 d1 d2 = Some (\<forall>i < arity t1'. us1 ! i = us2 ! i)"
      unfolding unfold if_not_P [OF args(2) [folded deref_defs]] if_not_P [OF args(3)]
      using args(1,4) ar by (simp add: all_opt_nth)
    moreover have "TermCell f p ty us1 = u2 \<longleftrightarrow> (\<forall>i < arity t1'. us1 ! i = us2 ! i)"
      using len args pp by (simp add: h2(3) eq1 list_eq_iff_nth_eq)
    ultimately show ?thesis by simp
  qed
qed

lemma TermStructEqual_sigma:
  assumes "subst_wf sg b" and "wf_term sg t1" and "wf_term sg t2"
  shows "TermStructEqual b t1 t2 = Some (sigma b t1 = sigma b t2)"
proof -
  have ok: "binds_ok sg b" using assms(1) by (simp add: subst_wf_def)
  show ?thesis
    unfolding TermStructEqual_def
    using TermStructEqualDeref_ok [OF TermCopyKeepVars_full [OF sigma_full [OF assms(1,2)] ok]
        TermCopyKeepVars_full [OF sigma_full [OF assms(1,3)] ok] ok assms(2,3)] .
qed

text \<open>Without bindings, structural equality of shared terms is equality of the cells.\<close>

lemma wf_same_f_code:
  assumes "wf_term sg (TermCell f p ty as)" and "wf_term sg (TermCell f p' ty' as')"
    and "f < 0 \<Longrightarrow> ty = ty'"
  shows "p = p'" "ty = ty'" "length as = length as'"
  using assms by (auto split: if_splits)

lemma TermStructEqualNoDeref_ok:
  "wf_term sg t1 \<Longrightarrow> wf_term sg t2 \<Longrightarrow> (\<And>v. v \<in> term_vars t1 \<union> term_vars t2 \<Longrightarrow> t_type v = \<tau> (f_code v)) \<Longrightarrow>
   TermStructEqualNoDeref t1 t2 = Some (t1 = t2)"
proof (induction t1 arbitrary: t2)
  case (TermCell f p ty as)
  obtain f' p' ty' as' where t2: "t2 = TermCell f' p' ty' as'" by (cases t2)
  show ?case
  proof (cases "TermCell f p ty as = t2 \<or> f \<noteq> f'")
    case True
    then show ?thesis using t2 by (subst TermStructEqualNoDeref.simps) auto
  next
    case False
    have "ty = ty'" if "f < 0"
    proof -
      have "TermCell f p ty as \<in> term_vars (TermCell f p ty as)" "t2 \<in> term_vars t2"
        using that False by (simp_all add: t2)
      then have "t_type (TermCell f p ty as) = \<tau> f" "t_type t2 = \<tau> f'"
        using TermCell.prems(3) by (metis UnI1 UnI2 Term_p.sel(1) t2)+
      then show ?thesis using False by (simp add: t2)
    qed
    then have eq: "p = p'" "ty = ty'" "length as = length as'"
      using wf_same_f_code [of sg f p ty as p' ty' as'] TermCell.prems(1,2) False t2 by blast+
    have "TermStructEqualNoDeref (as ! i) (as' ! i) = Some (as ! i = as' ! i)" if i: "i < length as" for i
    proof (rule TermCell.IH)
      show in1: "as ! i \<in> set as" using i by simp
      have in2: "as' ! i \<in> set as'" using i eq by simp
      have nv: "\<not> f < 0" using TermCell.prems(1) i by (cases "f < 0") simp_all
      show "wf_term sg (as ! i)" "wf_term sg (as' ! i)"
        using TermCell.prems(1,2) nv in1 in2 False by (simp_all add: t2)
      show "t_type v = \<tau> (f_code v)" if "v \<in> term_vars (as ! i) \<union> term_vars (as' ! i)" for v
      proof (rule TermCell.prems(3))
        have "\<not> f' < 0" using nv False by simp
        then have "term_vars (as ! i) \<subseteq> term_vars (TermCell f p ty as)" "term_vars (as' ! i) \<subseteq> term_vars t2"
          using nv in1 in2 unfolding t2 by (simp_all, blast+)
        then show "v \<in> term_vars (TermCell f p ty as) \<union> term_vars t2" using that by blast
      qed
    qed
    note IH = this
    have "all_opt (\<lambda>i. do { a \<leftarrow> t_arg (TermCell f p ty as) i; a' \<leftarrow> t_arg t2 i; TermStructEqualNoDeref a a' })
        [0..<length as] = Some (\<forall>i<length as. as ! i = as' ! i)"
    proof (rule all_opt_nth)
      fix i
      assume i: "i < length as"
      then have "t_arg (TermCell f p ty as) i = Some (as ! i)" "t_arg t2 i = Some (as' ! i)"
        using eq(3) by (simp_all add: t_arg_def t2)
      then show "do { a \<leftarrow> t_arg (TermCell f p ty as) i; a' \<leftarrow> t_arg t2 i; TermStructEqualNoDeref a a' } =
          Some (as ! i = as' ! i)"
        using IH [OF i] by simp
    qed
    then have "TermStructEqualNoDeref (TermCell f p ty as) t2 = Some (\<forall>i<length as. as ! i = as' ! i)"
      using False eq by (subst TermStructEqualNoDeref.simps) (simp add: t2)
    moreover have "TermCell f p ty as = t2 \<longleftrightarrow> (\<forall>i<length as. as ! i = as' ! i)"
      using False eq by (auto simp: t2 intro: nth_equalityI)
    ultimately show ?thesis by simp
  qed
qed

section \<open>Properties\<close>

text \<open>C39 \<open>TermStructEqualDeref\<close> decides whether the two terms that result from dereferencing
  each side with its own number of steps are equal, without building them: whenever the copies
  exist, it ends, trips no assertion, and answers whether they are the same term.\<close>

theorem TermStructEqualDeref_correct:
  assumes "TermCopyKeepVars b t1 d1 = Some u1" and "TermCopyKeepVars b t2 d2 = Some u2"
    and "binds_ok sg b" and "wf_term sg t1" and "wf_term sg t2"
  shows "TermStructEqualDeref b t1 t2 d1 d2 = Some (u1 = u2)"
  using assms by (rule TermStructEqualDeref_ok)

theorem TermStructEqualDeref_correct_witness:
  "TermStructEqualDeref [sample_var 1 \<mapsto> sample_const 21] (sample_g (sample_var 1)) (sample_g (sample_const 21))
     DEREF_ONCE DEREF_NEVER = Some True"
proof -
  let ?b = "[sample_var 1 \<mapsto> sample_const 21]"
  have copies: "TermCopyKeepVars ?b (sample_g (sample_var 1)) DEREF_ONCE = Some (sample_g (sample_const 21))"
    "TermCopyKeepVars ?b (sample_g (sample_const 21)) DEREF_NEVER = Some (sample_g (sample_const 21))"
    by code_simp+
  have "binds_ok sample_sig ?b" "wf_term sample_sig (sample_g (sample_var 1))"
    "wf_term sample_sig (sample_g (sample_const 21))"
    by (simp_all add: binds_ok_def sample_defs)
  from TermStructEqualDeref_correct [OF copies this] show ?thesis by simp
qed

end
