(* ===== verification/VarHash.thy ===== *)
theory VarHash
  imports TermEquality PStacks
begin

text \<open>
  Variable hashes (\<open>TERMS/cte_varhash.h\<close>, \<open>TERMS/cte_varhash.c\<close>): a small hash table with a
  chained list per bucket that counts variable occurrences. A list cell is a pair of its key
  and its value; \<open>hash_val h x\<close> is the value of \<open>x\<close>, 0 if there is no entry.
\<close>

unbundle bit_operations_syntax

section \<open>The operations\<close>

type_synonym VarHashEntry = "Term_p \<times> int"

type_synonym VarHash = "VarHashEntry list list"

definition VAR_HASH_SIZE :: int where "VAR_HASH_SIZE = 16"

definition VAR_HASH_MASK :: int where "VAR_HASH_MASK = VAR_HASH_SIZE - 1"

definition VarHashEntryAlloc :: "Term_p \<Rightarrow> int \<Rightarrow> VarHashEntry" where
  "VarHashEntryAlloc var val = (var, val)"

definition VarHashAlloc :: VarHash where
  "VarHashAlloc = replicate (nat VAR_HASH_SIZE) []"

definition VarHashFunction :: "Term_p \<Rightarrow> nat option" where
  "VarHashFunction var =
     do { c_assert (f_code var < 0); Some (nat ((- f_code var) AND VAR_HASH_MASK)) }"

fun VarHashListFind :: "VarHashEntry list \<Rightarrow> Term_p \<Rightarrow> VarHashEntry option" where
  "VarHashListFind [] var = None"
| "VarHashListFind (e # es) var = (if fst e = var then Some e else VarHashListFind es var)"

definition VarHashFind :: "VarHash \<Rightarrow> Term_p \<Rightarrow> VarHashEntry option option" where
  "VarHashFind hash var = do { i \<leftarrow> VarHashFunction var; Some (VarHashListFind (hash ! i) var) }"

text \<open>\<open>entry->val += value\<close> on the first entry of the list with that key.\<close>

fun entry_add :: "VarHashEntry list \<Rightarrow> Term_p \<Rightarrow> int \<Rightarrow> VarHashEntry list" where
  "entry_add [] var val = []"
| "entry_add (e # es) var val =
     (if fst e = var then (fst e, snd e + val) # es else e # entry_add es var val)"

definition VarHashAddValue :: "VarHash \<Rightarrow> Term_p \<Rightarrow> int \<Rightarrow> (int \<times> VarHash) option" where
  "VarHashAddValue hash var val =
     do { index \<leftarrow> VarHashFunction var;
          case VarHashListFind (hash ! index) var of
            Some entry \<Rightarrow> Some (snd entry + val, hash[index := entry_add (hash ! index) var val])
          | None \<Rightarrow> Some (val, hash[index := VarHashEntryAlloc var val # hash ! index]) }"

text \<open>The loop of \<open>VarHashAddVarDistrib\<close>: the stack holds a term and, above it, its \<open>deref\<close>.\<close>

partial_function (option) var_distrib_loop ::
  "bindings \<Rightarrow> Term_p IntOrP pstack \<Rightarrow> int \<Rightarrow> VarHash \<Rightarrow> VarHash option" where [code]:
  "var_distrib_loop b stack add hash =
     (if PStackEmpty stack then Some hash
      else do { (deref, stack) \<leftarrow> PStackPopInt stack;
                (t, stack) \<leftarrow> PStackPopP stack;
                (t, deref) \<leftarrow> TermDeref b t (nat deref);
                if TermIsFreeVar t
                then do { (_, hash) \<leftarrow> VarHashAddValue hash t add;
                          var_distrib_loop b stack add hash }
                else do { stack \<leftarrow> foldM (\<lambda>stack i. do { a \<leftarrow> t_arg t i;
                                                      stack \<leftarrow> push stack (p_val a);
                                                      push stack (i_val (int deref)) })
                                       stack [0..<arity t];
                          var_distrib_loop b stack add hash } })"

definition VarHashAddVarDistrib ::
  "bindings \<Rightarrow> VarHash \<Rightarrow> Term_p \<Rightarrow> nat \<Rightarrow> int \<Rightarrow> VarHash option" where
  "VarHashAddVarDistrib b hash t deref add =
     do { stack \<leftarrow> push PStackAlloc (p_val t);
          stack \<leftarrow> push stack (i_val (int deref));
          var_distrib_loop b stack add hash }"

section \<open>The abstract map\<close>

definition hash_index :: "Term_p \<Rightarrow> nat" where
  "hash_index x = nat (- f_code x mod 16)"

definition hash_ok :: "VarHash \<Rightarrow> bool" where
  "hash_ok h \<longleftrightarrow> length h = 16 \<and>
     (\<forall>i < 16. distinct (map fst (h ! i)) \<and> (\<forall>e \<in> set (h ! i). TermIsFreeVar (fst e) \<and> hash_index (fst e) = i))"

definition hash_val :: "VarHash \<Rightarrow> Term_p \<Rightarrow> int" where
  "hash_val h x = (case map_of (h ! hash_index x) x of None \<Rightarrow> 0 | Some v \<Rightarrow> v)"

lemma hash_index_less [simp]: "hash_index x < 16"
  by (simp add: hash_index_def nat_less_iff)

lemma VarHashFunction_eq: "TermIsFreeVar x \<Longrightarrow> VarHashFunction x = Some (hash_index x)"
proof -
  have "(- f_code x) AND VAR_HASH_MASK = - f_code x mod 16"
    using take_bit_eq_mask [of 4 "- f_code x"]
    by (simp add: VAR_HASH_MASK_def VAR_HASH_SIZE_def take_bit_eq_mod mask_eq_exp_minus_1)
  then show "TermIsFreeVar x \<Longrightarrow> VarHashFunction x = Some (hash_index x)"
    by (simp add: VarHashFunction_def TermIsFreeVar_def hash_index_def)
qed

lemma VarHashListFind_map_of: "VarHashListFind es x = map_option (\<lambda>v. (x, v)) (map_of es x)"
  by (induction es) auto

lemma entry_add_keys: "map fst (entry_add es x v) = map fst es"
  by (induction es) auto

lemma map_of_entry_add:
  "map_of (entry_add es x v) y = (if y = x then map_option (\<lambda>w. w + v) (map_of es x) else map_of es y)"
  by (induction es) auto

lemma VarHashAlloc_ok [simp]: "hash_ok VarHashAlloc" "hash_val VarHashAlloc x = 0"
  by (simp_all add: hash_ok_def hash_val_def VarHashAlloc_def VAR_HASH_SIZE_def)

lemma hash_okD:
  assumes "hash_ok h" and "i < 16"
  shows "distinct (map fst (h ! i))"
    "\<forall>e \<in> set (h ! i). TermIsFreeVar (fst e) \<and> hash_index (fst e) = i"
  using assms unfolding hash_ok_def by (elim conjE allE [of _ i], simp)+

lemma VarHashAddValue_ok:
  assumes "hash_ok h" and "TermIsFreeVar x"
  shows "\<exists>h'. VarHashAddValue h x v = Some (hash_val h x + v, h') \<and> hash_ok h' \<and>
           (\<forall>y. hash_val h' y = hash_val h y + (if y = x then v else 0))"
proof -
  let ?i = "hash_index x"
  have len: "length h = 16" and dist: "distinct (map fst (h ! ?i))"
    and keys: "\<forall>e \<in> set (h ! ?i). TermIsFreeVar (fst e) \<and> hash_index (fst e) = ?i"
    using hash_okD [OF assms(1) hash_index_less] assms(1) by (simp_all add: hash_ok_def)
  obtain es where h': "VarHashAddValue h x v = Some (hash_val h x + v, h[?i := es])"
    "distinct (map fst es)" "\<forall>e \<in> set es. TermIsFreeVar (fst e) \<and> hash_index (fst e) = ?i"
    "\<And>y. (case map_of es y of None \<Rightarrow> 0 | Some v \<Rightarrow> v) =
        (case map_of (h ! ?i) y of None \<Rightarrow> 0 | Some v \<Rightarrow> v) + (if y = x then v else 0)"
  proof (cases "map_of (h ! ?i) x")
    case None
    then have "x \<notin> fst ` set (h ! ?i)" by (simp add: map_of_eq_None_iff)
    then show thesis
      using that [of "(x, v) # h ! ?i"] dist keys None assms(2)
      by (simp add: VarHashAddValue_def VarHashFunction_eq VarHashListFind_map_of VarHashEntryAlloc_def hash_val_def)
  next
    case (Some w)
    have "fst ` set (entry_add (h ! ?i) x v) = fst ` set (h ! ?i)"
      using entry_add_keys [of "h ! ?i" x v] by (metis set_map)
    then have keys': "TermIsFreeVar (fst e) \<and> hash_index (fst e) = ?i"
      if "e \<in> set (entry_add (h ! ?i) x v)" for e
      using that keys by (metis (no_types, lifting) imageE imageI)
    show thesis
      by (rule that [of "entry_add (h ! ?i) x v"])
        (use Some dist keys' assms(2) in \<open>auto simp: VarHashAddValue_def VarHashFunction_eq
           VarHashListFind_map_of hash_val_def entry_add_keys map_of_entry_add\<close>)
  qed
  have "hash_ok (h[?i := es])"
    using assms(1) h'(2,3) len by (auto simp: hash_ok_def nth_list_update)
  moreover have "hash_val (h[?i := es]) y = hash_val h y + (if y = x then v else 0)" for y
    using h'(4) len by (cases "hash_index y = ?i") (auto simp: hash_val_def nth_list_update)
  ultimately show ?thesis using h'(1) by blast
qed

text \<open>The entries of the table are exactly the variables with their values.\<close>

lemma hash_entries:
  assumes "hash_ok h"
  shows "(\<exists>i < 16. \<exists>e \<in> set (h ! i). P (snd e)) \<longleftrightarrow>
         (\<exists>x v. map_of (h ! hash_index x) x = Some v \<and> P v)"
proof
  assume "\<exists>i < 16. \<exists>e \<in> set (h ! i). P (snd e)"
  then obtain i x v where e: "i < 16" "(x, v) \<in> set (h ! i)" "P v" by (metis prod.collapse)
  then have "hash_index x = i" "map_of (h ! i) x = Some v"
    using hash_okD [OF assms e(1)] by (force, simp)
  then show "\<exists>x v. map_of (h ! hash_index x) x = Some v \<and> P v" using e(3) by blast
next
  assume "\<exists>x v. map_of (h ! hash_index x) x = Some v \<and> P v"
  then show "\<exists>i < 16. \<exists>e \<in> set (h ! i). P (snd e)"
    by (metis hash_index_less map_of_SomeD snd_conv)
qed

lemma hash_nonzero:
  assumes "hash_ok h" and "\<not> P 0"
  shows "(\<exists>i < 16. \<exists>e \<in> set (h ! i). P (snd e)) \<longleftrightarrow> (\<exists>x. P (hash_val h x))"
  unfolding hash_entries [OF assms(1)] using assms(2)
  by (auto simp: hash_val_def split: option.splits)

section \<open>Counting the variables of a term\<close>

definition stack_pairs :: "(Term_p \<times> nat) list \<Rightarrow> Term_p IntOrP list" where
  "stack_pairs ps = concat (map (\<lambda>(t, d). [p_val t, i_val (int d)]) ps)"

lemma stack_pairs_snoc: "stack_pairs (ps @ [(t, d)]) = (stack_pairs ps @ [p_val t]) @ [i_val (int d)]"
  by (simp add: stack_pairs_def)

lemma stack_pairs_pop:
  assumes "pstack_ok st" and "pstack_list st = stack_pairs (ps @ [(t, d)])"
  shows "\<exists>st' st''. PStackPopInt st = Some (int d, st') \<and> PStackPopP st' = Some (t, st'') \<and>
           pstack_ok st'' \<and> pstack_list st'' = stack_pairs ps"
proof -
  obtain st' where 1: "PStackPop st = Some (i_val (int d), st')" "pstack_ok st'"
    "pstack_list st' = stack_pairs ps @ [p_val t]"
    using PStackPop_ok [OF assms [unfolded stack_pairs_snoc]] by blast
  obtain st'' where "PStackPop st' = Some (p_val t, st'')" "pstack_ok st''" "pstack_list st'' = stack_pairs ps"
    using PStackPop_ok [OF 1(2,3)] by blast
  with 1 show ?thesis by (simp add: PStackPopInt_def PStackPopP_def)
qed

lemma stack_pairs_push_args:
  assumes "pstack_ok st" and "pstack_list st = stack_pairs ps"
  shows "\<exists>st'. foldM (\<lambda>stack i. do { a \<leftarrow> t_arg t i; stack \<leftarrow> push stack (p_val a); push stack (i_val (int d)) })
                  st [0..<arity t] = Some st' \<and>
           pstack_ok st' \<and> pstack_list st' = stack_pairs (ps @ map (\<lambda>a. (a, d)) (t_args t))"
proof -
  let ?f = "\<lambda>stack i. do { a \<leftarrow> t_arg t i; stack \<leftarrow> push stack (p_val a); push stack (i_val (int d)) }"
  have "\<exists>st'. foldM ?f st [0..<n] = Some st' \<and>
          pstack_ok st' \<and> pstack_list st' = stack_pairs (ps @ map (\<lambda>a. (a, d)) (take n (t_args t)))"
    if "n \<le> arity t" for n
    using that
  proof (induction n)
    case (Suc n)
    then obtain s1 where s1: "foldM ?f st [0..<n] = Some s1" "pstack_ok s1"
      "pstack_list s1 = stack_pairs (ps @ map (\<lambda>a. (a, d)) (take n (t_args t)))" by auto
    obtain s2 where s2: "push s1 (p_val (t_args t ! n)) = Some s2" "pstack_ok s2"
      "pstack_list s2 = pstack_list s1 @ [p_val (t_args t ! n)]" using push_ok [OF s1(2)] by blast
    obtain s3 where s3: "push s2 (i_val (int d)) = Some s3" "pstack_ok s3"
      "pstack_list s3 = pstack_list s2 @ [i_val (int d)]" using push_ok [OF s2(2)] by blast
    have "take (Suc n) (t_args t) = take n (t_args t) @ [t_args t ! n]"
      using Suc.prems by (simp add: take_Suc_conv_app_nth arity_def)
    then show ?case
      using s1 s2 s3 Suc.prems by (simp add: foldM_snoc t_arg_def stack_pairs_def)
  qed (simp add: assms)
  from this [of "arity t"] show ?thesis by (simp add: arity_def)
qed

lemma var_mset_free: "TermIsFreeVar t \<Longrightarrow> var_mset t = {#t#}"
  by (cases t) simp

lemma var_distrib_loop_ok:
  assumes "pstack_ok st" and "pstack_list st = stack_pairs ps" and "hash_ok h"
    and "list_all2 (\<lambda>(t, d) u. TermCopyKeepVars b t d = Some u) ps us"
  shows "\<exists>h'. var_distrib_loop b st add h = Some h' \<and> hash_ok h' \<and>
           (\<forall>x. hash_val h' x = hash_val h x + add * int (count (sum_list (map var_mset us)) x))"
  using assms
proof (induction "sum_list (map size us)" arbitrary: ps us st h rule: less_induct)
  case less
  show ?case
  proof (cases ps rule: rev_cases)
    case Nil
    then have "PStackEmpty st" using less.prems by (simp add: PStackEmpty_iff stack_pairs_def)
    then show ?thesis
      using less.prems Nil by (subst var_distrib_loop.simps) simp
  next
    case (snoc ps' td)
    obtain t d where td: "td = (t, d)" by (cases td)
    obtain us' u where us: "us = us' @ [u]" and u: "TermCopyKeepVars b t d = Some u"
      and ps': "list_all2 (\<lambda>(t, d) u. TermCopyKeepVars b t d = Some u) ps' us'"
      using less.prems(4) by (auto simp: snoc td list_all2_append1 list_all2_Cons1)
    obtain s1 s2 where s: "PStackPopInt st = Some (int d, s1)" "PStackPopP s1 = Some (t, s2)"
      "pstack_ok s2" "pstack_list s2 = stack_pairs ps'"
      using stack_pairs_pop [of st ps' t d] less.prems snoc td by blast
    have "\<not> PStackEmpty st" using less.prems snoc td by (simp add: PStackEmpty_iff stack_pairs_snoc)
    then have unfold: "var_distrib_loop b st add h =
       do { (t, deref) \<leftarrow> TermDeref b t d;
            if TermIsFreeVar t
            then do { (_, hash) \<leftarrow> VarHashAddValue h t add; var_distrib_loop b s2 add hash }
            else do { stack \<leftarrow> foldM (\<lambda>stack i. do { a \<leftarrow> t_arg t i; stack \<leftarrow> push stack (p_val a);
                                                       push stack (i_val (int deref)) }) s2 [0..<arity t];
                      var_distrib_loop b stack add h } }"
      using s by (subst var_distrib_loop.simps) simp
    from u show ?thesis
    proof (cases rule: TermCopyKeepVars_cases)
      case (1 t' d')
      obtain h1 where h1: "VarHashAddValue h t' add = Some (hash_val h t' + add, h1)" "hash_ok h1"
        "\<forall>y. hash_val h1 y = hash_val h y + (if y = t' then add else 0)"
        using VarHashAddValue_ok [OF less.prems(3) 1(2)] by blast
      have "sum_list (map size us') < sum_list (map size us)" using us by (cases u) simp
      from less.hyps [OF this s(3,4) h1(2) ps'] obtain h' where
        "var_distrib_loop b s2 add h1 = Some h'" "hash_ok h'"
        "\<forall>x. hash_val h' x = hash_val h1 x + add * int (count (sum_list (map var_mset us')) x)" by blast
      then show ?thesis using h1 1 us by (simp add: unfold var_mset_free algebra_simps)
    next
      case (2 t' d' vs)
      obtain s3 where s3: "foldM (\<lambda>stack i. do { a \<leftarrow> t_arg t' i; stack \<leftarrow> push stack (p_val a);
                                push stack (i_val (int d')) }) s2 [0..<arity t'] = Some s3"
        "pstack_ok s3" "pstack_list s3 = stack_pairs (ps' @ map (\<lambda>a. (a, d')) (t_args t'))"
        using stack_pairs_push_args [OF s(3,4)] by blast
      have "sum_list (map size (us' @ vs)) < sum_list (map size us)"
        using us 2(3) by (simp add: size_list_conv_sum_list)
      moreover have "list_all2 (\<lambda>(t, d) u. TermCopyKeepVars b t d = Some u) (ps' @ map (\<lambda>a. (a, d')) (t_args t')) (us' @ vs)"
        using ps' 2(4) by (simp add: list_all2_appendI list_all2_map1)
      ultimately obtain h' where
        "var_distrib_loop b s3 add h = Some h'" "hash_ok h'"
        "\<forall>x. hash_val h' x = hash_val h x + add * int (count (sum_list (map var_mset (us' @ vs))) x)"
        using less.hyps [OF _ s3(2,3) less.prems(3)] by blast
      moreover have "\<not> f_code t' < 0" using 2(2) by (simp add: TermIsFreeVar_def)
      ultimately show ?thesis using 2 s3(1) us by (simp add: unfold)
    qed
  qed
qed

lemma VarHashAddVarDistrib_ok:
  assumes "hash_ok h" and "TermCopyKeepVars b t d = Some u"
  shows "\<exists>h'. VarHashAddVarDistrib b h t d add = Some h' \<and> hash_ok h' \<and>
           (\<forall>x. hash_val h' x = hash_val h x + add * int (count (var_mset u) x))"
proof -
  obtain s1 where s1: "push (PStackAlloc :: Term_p IntOrP pstack) (p_val t) = Some s1" "pstack_ok s1"
    "pstack_list s1 = [p_val t]" using push_ok [OF PStackAlloc_ok] by fastforce
  obtain s2 where s2: "push s1 (i_val (int d)) = Some s2" "pstack_ok s2"
    "pstack_list s2 = [p_val t, i_val (int d)]" using push_ok [OF s1(2)] s1(3) by fastforce
  show ?thesis
    using var_distrib_loop_ok [OF s2(2), of "[(t, d)]" h b "[u]" add] s1 s2 assms
    by (simp add: VarHashAddVarDistrib_def stack_pairs_def)
qed

end
