(* ===== verification/KBO_Correct.thy ===== *)
theory KBO_Correct
  imports KnuthBendix
begin

text \<open>
  \<open>KBOCompare\<close> and \<open>KBOGreater\<close> compute the textbook Knuth-Bendix ordering of the terms that
  dereferencing both sides gives. The lemmas first reduce every function of \<open>cto_kbo.c\<close> to
  a function of these two terms.
\<close>

section \<open>Dereferencing twice\<close>

lemma deref_count_unbound: "b t = None \<Longrightarrow> deref_count b d t = (t, d)"
  by (cases d) simp_all

lemma deref_count_idem: "deref_count b d t = (t', d') \<Longrightarrow> deref_count b d' t' = (t', d')"
  by (induction d arbitrary: t) (auto split: option.splits simp: deref_count_unbound)

lemma TermDeref_idem:
  assumes "TermDeref b t d = Some (t', d')" and "binds_ok sg b" and "wf_term sg t"
  shows "TermDeref b t' d' = Some (t', d')"
proof (cases "d = DEREF_ALWAYS")
  case True
  then have d: "d' = DEREF_ALWAYS" "deref_always b t = Some t'"
    using assms(1) by (auto simp: TermDeref_def bind_eq_Some_conv)
  then have "b t' = None" using deref_always_wf assms(2,3) by blast
  then show ?thesis using d by (simp add: TermDeref_def deref_always.simps)
next
  case False
  then have c: "deref_count b d t = (t', d')" using assms(1) by (simp add: TermDeref_def bind_eq_Some_conv)
  have "d' \<le> d" using c by (induction d arbitrary: t) (auto split: option.splits intro: le_SucI)
  have "d' \<noteq> DEREF_ALWAYS \<or> b t' = None"
    using c by (induction d arbitrary: t) (auto split: option.splits simp: deref_defs)
  then show ?thesis
    using deref_count_idem [OF c] binds_ok_assert [OF assms(2), of t']
    by (cases "d' = DEREF_ALWAYS") (auto simp: TermDeref_def deref_always.simps)
qed

text \<open>The terms under comparison: \<open>u\<close> is what dereferencing \<open>t\<close> gives.\<close>

definition copies :: "OCB \<Rightarrow> bindings \<Rightarrow> Term_p \<Rightarrow> nat \<Rightarrow> Term_p \<Rightarrow> bool" where
  "copies ocb b t d u \<longleftrightarrow> binds_ok (ocb_sig ocb) b \<and> wf_term (ocb_sig ocb) t \<and>
     TermCopyKeepVars b t d = Some u \<and> term_syms u \<subseteq> symbols"

text \<open>What is known of the cell \<open>t\<close> that dereferencing stops at.\<close>

definition head_ok :: "OCB \<Rightarrow> bindings \<Rightarrow> Term_p \<Rightarrow> nat \<Rightarrow> Term_p \<Rightarrow> bool" where
  "head_ok ocb b t d u \<longleftrightarrow> TermDeref b t d = Some (t, d) \<and> wf_term (ocb_sig ocb) t \<and> copies ocb b t d u \<and>
     f_code u = f_code t \<and> t_predpos u = t_predpos t \<and> t_type u = t_type t \<and> arity u = arity t \<and>
     (TermIsFreeVar t \<longrightarrow> u = t) \<and>
     (\<forall>i < arity u. \<exists>a. t_arg t i = Some a \<and> copies ocb b a d (t_args u ! i))"

lemma head_okD:
  assumes "head_ok ocb b t d u"
  shows "TermDeref b t d = Some (t, d)" "wf_term (ocb_sig ocb) t" "copies ocb b t d u"
    "f_code t = f_code u" "t_predpos t = t_predpos u" "t_type t = t_type u" "arity t = arity u"
    "TermIsFreeVar u \<Longrightarrow> t = u" "TermIsFreeVar t \<longleftrightarrow> TermIsFreeVar u"
  using assms by (simp_all add: head_ok_def TermIsFreeVar_def)

lemma head_ok_arg:
  assumes "head_ok ocb b t d u" and "i < arity u"
  obtains a where "t_arg t i = Some a" "copies ocb b a d (t_args u ! i)"
  using assms by (auto simp: head_ok_def)

lemma copies_head:
  assumes "copies ocb b t d u"
  obtains t' d' where "TermDeref b t d = Some (t', d')" "head_ok ocb b t' d' u"
proof -
  have c: "binds_ok (ocb_sig ocb) b" "wf_term (ocb_sig ocb) t" "TermCopyKeepVars b t d = Some u" "term_syms u \<subseteq> symbols"
    using assms by (simp_all add: copies_def)
  obtain t' d' us where h: "TermDeref b t d = Some (t', d')" "wf_term (ocb_sig ocb) t'"
    "u = TermCell (f_code t') (t_predpos t') (t_type t') us"
    "list_all2 (\<lambda>a u. TermCopyKeepVars b a d' = Some u) (t_args t') us"
    using TermCopyKeepVars_head [OF c(3,1,2)] by blast
  have idem: "TermDeref b t' d' = Some (t', d')" using TermDeref_idem [OF h(1) c(1,2)] .
  have "TermCopyKeepVars b t' d' = TermCopyKeepVars b t d"
    by (subst TermCopyKeepVars.simps, subst TermCopyKeepVars.simps [of b t d]) (simp add: h(1) idem)
  then have copy: "copies ocb b t' d' u" using c h(2) by (simp add: copies_def)
  have len: "length us = length (t_args t')" using list_all2_lengthD [OF h(4)] by simp
  have nv: "t_args t' = []" if "TermIsFreeVar t'" using h(2) that by (cases t') simp
  have args: "\<exists>a. t_arg t' i = Some a \<and> copies ocb b a d' (us ! i)" if i: "i < length us" for i
  proof -
    have mem: "t_args t' ! i \<in> set (t_args t')" "us ! i \<in> set us" using i len by simp_all
    have "\<not> f_code t' < 0" using nv mem(1) by (auto simp: TermIsFreeVar_def)
    then have "wf_term (ocb_sig ocb) (t_args t' ! i)" "term_syms (us ! i) \<subseteq> symbols"
      using h(2) mem c(4) h(3) by (cases t', simp, auto)
    then show ?thesis
      using i len h(4) c(1) by (simp add: t_arg_def copies_def list_all2_conv_all_nth arity_def)
  qed
  have "TermIsFreeVar t' \<longrightarrow> u = t'" using nv len h(3) by (cases t') auto
  then have "head_ok ocb b t' d' u"
    unfolding head_ok_def using idem h(2) copy args len by (simp add: h(3) arity_def)
  then show thesis using that h(1) by blast
qed

lemma copies_wf: "copies ocb b t d u \<Longrightarrow> wf_term (ocb_sig ocb) u"
proof (induction u arbitrary: t d)
  case (TermCell f p ty us)
  obtain t' d' where h: "head_ok ocb b t' d' (TermCell f p ty us)"
    using copies_head [OF TermCell.prems] by blast
  have "wf_term (ocb_sig ocb) u" if u: "u \<in> set us" for u
  proof -
    obtain i where i: "i < length us" "us ! i = u" using u by (auto simp: in_set_conv_nth)
    then obtain a where "copies ocb b a d' u" using head_ok_arg [OF h, of i] by auto
    then show ?thesis using TermCell.IH [OF u] by blast
  qed
  then show ?case using head_okD(2,4-7) [OF h] by (cases t') auto
qed

lemma copies_nonvar:
  assumes "copies ocb b t d u" and "\<not> TermIsFreeVar u"
  shows "f_code u \<in> symbols"
  using assms by (cases u) (simp add: copies_def TermIsFreeVar_def)

section \<open>Weights, subterms and variables\<close>

lemma kbo_weight_cell: "\<not> TermIsFreeVar u \<Longrightarrow>
    kbo_weight P u = kp_weight P (f_code u) + sum_list (map (kbo_weight P) (t_args u))"
  by (cases u) (simp add: TermIsFreeVar_def)

lemma foldM_sum:
  assumes "\<And>i. i < n \<Longrightarrow> f i = Some (g i)"
  shows "foldM (\<lambda>w i. do { x \<leftarrow> f i; Some (w + x) }) (w::int) [0..<n] = Some (w + sum_list (map g [0..<n]))"
  using assms by (induction n) (simp_all add: foldM_snoc)

lemma gettermweight_ok:
  assumes "kbo_ocb ocb" and "copies ocb b t d u"
  shows "gettermweight ocb b t d = Some (kbo_weight (ocb_par ocb) u)"
  using assms(2)
proof (induction u arbitrary: t d)
  case (TermCell f p ty us)
  let ?u = "TermCell f p ty us" and ?w = "kbo_weight (ocb_par ocb)"
  obtain t' d' where t': "TermDeref b t d = Some (t', d')" and h: "head_ok ocb b t' d' ?u"
    using copies_head [OF TermCell.prems] by blast
  have hd: "f_code t' = f" "arity t' = length us" "TermIsFreeVar t' \<longleftrightarrow> f < 0" using head_okD(4,7,9) [OF h] by simp_all
  have unfold: "gettermweight ocb b t d =
      do { weight \<leftarrow> getweight ocb f;
           if \<not> f < 0
           then foldM (\<lambda>weight i. do { w \<leftarrow> do { a \<leftarrow> t_arg t' i; gettermweight ocb b a d' };
                                       Some (weight + w) }) weight [0..<length us]
           else Some weight }"
    using t' hd by (subst gettermweight.simps) (simp cong: if_cong)
  show ?case
  proof (cases "f < 0")
    case True
    then show ?thesis by (simp add: unfold getweight_def ocb_par_def)
  next
    case False
    have sym: "f \<in> symbols" using copies_nonvar [OF TermCell.prems] False by simp
    then obtain w where w: "OCBFunWeight ocb f = Some w" using assms(1) by (auto simp: kbo_ocb_def)
    have "do { a \<leftarrow> t_arg t' i; gettermweight ocb b a d' } = Some (?w (us ! i))" if i: "i < length us" for i
    proof -
      obtain a where "t_arg t' i = Some a" "copies ocb b a d' (us ! i)" using head_ok_arg [OF h, of i] i by auto
      then show ?thesis using TermCell.IH [of "us ! i"] i by simp
    qed
    then have "foldM (\<lambda>weight i. do { w \<leftarrow> do { a \<leftarrow> t_arg t' i; gettermweight ocb b a d' };
                                       Some (weight + w) }) w [0..<length us] =
        Some (w + sum_list (map (\<lambda>i. ?w (us ! i)) [0..<length us]))"
      by (rule foldM_sum)
    moreover have "map (\<lambda>i. ?w (us ! i)) [0..<length us] = map ?w us"
      by (intro nth_equalityI) simp_all
    ultimately show ?thesis
      using False w sym unfolding unfold by (simp add: getweight_def symbols_def ocb_par_def)
  qed
qed

lemma TermIsSubterm_var:
  assumes "copies ocb b t d u" and "TermIsFreeVar x"
  shows "TermIsSubterm b t x d = Some (x \<in> term_vars u)"
  using assms(1)
proof (induction u arbitrary: t d)
  case (TermCell f p ty us)
  let ?u = "TermCell f p ty us"
  obtain t' d' where t': "TermDeref b t d = Some (t', d')" and h: "head_ok ocb b t' d' ?u"
    using copies_head [OF TermCell.prems] by blast
  have hd: "arity t' = length us" "TermIsFreeVar t' \<longleftrightarrow> f < 0" using head_okD(7,9) [OF h] by simp_all
  have args: "TermIsSubterm b (t_args t' ! i) x d' = Some (x \<in> term_vars (us ! i))" if i: "i < length us" for i
  proof -
    obtain a where "t_arg t' i = Some a" "copies ocb b a d' (us ! i)" using head_ok_arg [OF h, of i] i by auto
    then show ?thesis using TermCell.IH [of "us ! i"] i hd(1) by (simp add: t_arg_def)
  qed
  have any: "any_opt (\<lambda>a. TermIsSubterm b a x d') (t_args t') = Some (\<exists>i < length us. x \<in> term_vars (us ! i))"
  proof -
    have "any_opt (\<lambda>a. TermIsSubterm b a x d') (t_args t') =
        any_opt (\<lambda>i. TermIsSubterm b (t_args t' ! i) x d') [0..<length us]"
      using any_opt_map [of "\<lambda>a. TermIsSubterm b a x d'" "\<lambda>i. t_args t' ! i" "[0..<length us]"]
        map_nth [of "t_args t'"] hd(1) by (simp add: arity_def)
    also have "\<dots> = Some (\<exists>i \<in> set [0..<length us]. x \<in> term_vars (us ! i))"
      by (rule any_opt_total) (simp add: args)
    finally show ?thesis by (simp add: Bex_def)
  qed
  have unfold: "TermIsSubterm b t x d = (if t' = x then Some True else Some (\<exists>i < length us. x \<in> term_vars (us ! i)))"
    using t' any by (subst TermIsSubterm.simps) simp
  show ?case
  proof (cases "f < 0")
    case True
    then have "us = []" "t' = ?u" using copies_wf [OF TermCell.prems] head_okD(8) [OF h] by simp_all
    then show ?thesis using True by (auto simp: unfold)
  next
    case False
    then have "t' \<noteq> x" using hd(2) assms(2) by auto
    then show ?thesis using False unfolding unfold by (auto simp: set_conv_nth)
  qed
qed

lemma foldM_brk_any:
  assumes "\<And>i. i \<in> set is \<Longrightarrow> Q i \<Longrightarrow> P i"
  shows "foldM_brk (\<lambda>i r. let r = P i in Some (r, r)) False is = Some (\<exists>i \<in> set is. P i)"
  by (induction "is") (auto simp: Let_def)

lemma bucket_negative_iff: "bucket_negative es \<longleftrightarrow> (\<exists>e \<in> set es. snd e < 0)"
  by (induction es) auto

lemma bucket_signs_eq:
  "bucket_signs es st = (fst st \<or> (\<exists>e \<in> set es. snd e > 0), snd st \<or> (\<exists>e \<in> set es. snd e < 0))"
  by (induction es arbitrary: st) (auto simp: bucket_signs_def split: prod.splits)

lemma foldM_brk_signs:
  "foldM_brk (\<lambda>i st. let st = bucket_signs (h i) st in Some (st, fst st \<and> snd st)) st is =
   Some (fst st \<or> (\<exists>i \<in> set is. \<exists>e \<in> set (h i). snd e > 0), snd st \<or> (\<exists>i \<in> set is. \<exists>e \<in> set (h i). snd e < 0))
   \<or> (\<exists>st'. foldM_brk (\<lambda>i st. let st = bucket_signs (h i) st in Some (st, fst st \<and> snd st)) st is = Some st' \<and>
        fst st' \<and> snd st' \<and> (fst st \<or> (\<exists>i \<in> set is. \<exists>e \<in> set (h i). snd e > 0)) \<and>
        (snd st \<or> (\<exists>i \<in> set is. \<exists>e \<in> set (h i). snd e < 0)))"
proof (induction "is" arbitrary: st)
  case (Cons i "is")
  let ?st = "bucket_signs (h i) st"
  show ?case
  proof (cases "fst ?st \<and> snd ?st")
    case True
    then show ?thesis by (auto simp: Let_def bucket_signs_eq)
  next
    case False
    then show ?thesis using Cons.IH [of ?st] by (auto simp: Let_def bucket_signs_eq)
  qed
qed simp

lemma both_signs: "r = Some (p, q) \<or> (\<exists>st. r = Some st \<and> fst st \<and> snd st \<and> p \<and> q) \<Longrightarrow> r = Some (p, q)"
  by auto

lemma var_hash_ok:
  assumes "copies ocb b s ds us" and "copies ocb b t dt ut"
  shows "\<exists>h1 h. VarHashAddVarDistrib b VarHashAlloc s ds 1 = Some h1 \<and> VarHashAddVarDistrib b h1 t dt (- 1) = Some h \<and>
           hash_ok h \<and> (\<forall>x. hash_val h x = int (count (var_mset us) x) - int (count (var_mset ut) x))"
proof -
  have c: "TermCopyKeepVars b s ds = Some us" "TermCopyKeepVars b t dt = Some ut"
    using assms by (simp_all add: copies_def)
  obtain h1 where h1: "VarHashAddVarDistrib b VarHashAlloc s ds 1 = Some h1" "hash_ok h1"
    "\<forall>x. hash_val h1 x = int (count (var_mset us) x)"
    using VarHashAddVarDistrib_ok [OF VarHashAlloc_ok(1) c(1), of 1] by auto
  show ?thesis using VarHashAddVarDistrib_ok [OF h1(2) c(2), of "- 1"] h1 by auto
qed

lemma KBOVarGreater_ok:
  assumes "copies ocb b s ds us" and "copies ocb b t dt ut"
  shows "KBOVarGreater b s t ds dt = Some (var_mset ut \<subseteq># var_mset us)"
proof -
  obtain h1 h where h: "VarHashAddVarDistrib b VarHashAlloc s ds 1 = Some h1" "VarHashAddVarDistrib b h1 t dt (- 1) = Some h"
    "hash_ok h" "\<forall>x. hash_val h x = int (count (var_mset us) x) - int (count (var_mset ut) x)"
    using var_hash_ok [OF assms] by blast
  have "(\<exists>i \<in> set [0..<16]. bucket_negative (h ! i)) \<longleftrightarrow> (\<exists>x. hash_val h x < 0)"
    using hash_nonzero [OF h(3), of "\<lambda>v. v < 0"] by (auto simp: bucket_negative_iff)
  also have "\<dots> \<longleftrightarrow> \<not> var_mset ut \<subseteq># var_mset us"
    using h(4) by (auto simp: subseteq_mset_def not_le)
  finally have neg: "(\<exists>i \<in> set [0..<16]. bucket_negative (h ! i)) \<longleftrightarrow> \<not> var_mset ut \<subseteq># var_mset us" .
  have "foldM_brk (\<lambda>i r. let r = bucket_negative (h ! i) in Some (r, r)) False [0..<16] =
      Some (\<exists>i \<in> set [0..<16]. bucket_negative (h ! i))"
    by (rule foldM_brk_any) 
  then show ?thesis unfolding neg using h(1,2) by (simp add: KBOVarGreater_def VAR_HASH_SIZE_def)
qed

lemma KBOVarCompare_ok:
  assumes "copies ocb b s ds us" and "copies ocb b t dt ut"
  shows "KBOVarCompare b s t ds dt = Some
    (if var_mset us = var_mset ut then to_equal
     else if var_mset ut \<subseteq># var_mset us then to_greater
     else if var_mset us \<subseteq># var_mset ut then to_lesser else to_uncomparable)"
proof -
  obtain h1 h where h: "VarHashAddVarDistrib b VarHashAlloc s ds 1 = Some h1" "VarHashAddVarDistrib b h1 t dt (- 1) = Some h"
    "hash_ok h" "\<forall>x. hash_val h x = int (count (var_mset us) x) - int (count (var_mset ut) x)"
    using var_hash_ok [OF assms] by blast
  let ?pos = "\<exists>i \<in> set [0..<16]. \<exists>e \<in> set (h ! i). snd e > 0" and ?neg = "\<exists>i \<in> set [0..<16]. \<exists>e \<in> set (h ! i). snd e < 0"
  have "?pos \<longleftrightarrow> (\<exists>x. hash_val h x > 0)" using hash_nonzero [OF h(3), of "\<lambda>v. v > 0"] by auto
  then have pos: "?pos \<longleftrightarrow> \<not> var_mset us \<subseteq># var_mset ut" using h(4) by (auto simp: subseteq_mset_def not_le)
  have "?neg \<longleftrightarrow> (\<exists>x. hash_val h x < 0)" using hash_nonzero [OF h(3), of "\<lambda>v. v < 0"] by auto
  then have neg: "?neg \<longleftrightarrow> \<not> var_mset ut \<subseteq># var_mset us" using h(4) by (auto simp: subseteq_mset_def not_le)
  let ?f = "foldM_brk (\<lambda>i st. let st = bucket_signs (h ! i) st in Some (st, fst st \<and> snd st)) (False, False) [0..<16]"
  have "?f = Some (?pos, ?neg) \<or> (\<exists>st. ?f = Some st \<and> fst st \<and> snd st \<and> ?pos \<and> ?neg)"
    using foldM_brk_signs [of "\<lambda>i. h ! i" "(False, False)" "[0..<16]"] by (simp only: fst_conv snd_conv simp_thms)
  then have "?f = Some (?pos, ?neg)" by (rule both_signs)
  then have "KBOVarCompare b s t ds dt = Some (if ?pos \<and> ?neg then to_uncomparable else if ?pos then to_greater
      else if ?neg then to_lesser else to_equal)"
    using h(1,2) unfolding KBOVarCompare_def by (simp add: VAR_HASH_SIZE_def del: Bex_def set_upt)
  then show ?thesis unfolding pos neg by (auto simp: subset_mset.antisym)
qed

section \<open>The textbook ordering\<close>

lemma ocb_par_prec:
  assumes "kbo_ocb ocb" and "f \<in> symbols" and "g \<in> symbols"
  shows "OCBFunCompare ocb f g = Some (kp_prec (ocb_par ocb) f g)"
    "kp_prec (ocb_par ocb) f g \<in> proper_results" "kp_prec (ocb_par ocb) f g = to_equal \<longleftrightarrow> f = g"
    "kp_prec (ocb_par ocb) f g = to_lesser \<longleftrightarrow> kp_prec (ocb_par ocb) g f = to_greater"
proof -
  have ok: "ocb_prec_ok ocb" using assms(1) by (simp add: kbo_ocb_def)
  obtain r where r: "r \<in> proper_results" "OCBFunCompare ocb f g = Some r" "r = to_equal \<longleftrightarrow> f = g"
    using ocb_prec.cmp_some [OF ok assms(2,3)] by blast
  then show "OCBFunCompare ocb f g = Some (kp_prec (ocb_par ocb) f g)"
    "kp_prec (ocb_par ocb) f g \<in> proper_results" "kp_prec (ocb_par ocb) f g = to_equal \<longleftrightarrow> f = g"
    by (simp_all add: ocb_par_def)
  have "OCBFunCompare ocb g f = POInverseRelation r" using ocb_prec.cmp_inverse [OF ok assms(2,3) r(2)] .
  moreover have "POInverseRelation r \<noteq> None" using r(1) by (auto simp: proper_results_def)
  ultimately show "kp_prec (ocb_par ocb) f g = to_lesser \<longleftrightarrow> kp_prec (ocb_par ocb) g f = to_greater"
    using r(1,2) by (auto simp: ocb_par_def proper_results_def)
qed

lemma kbo_gt_cases:
  assumes "\<not> TermIsFreeVar s" and "\<not> TermIsFreeVar t"
  shows "kbo_gt P s t \<longleftrightarrow> var_mset t \<subseteq># var_mset s \<and>
    (kbo_weight P t < kbo_weight P s \<or> kbo_weight P t = kbo_weight P s \<and>
      (kp_prec P (f_code s) (f_code t) = to_greater \<or> f_code s = f_code t \<and> kbo_lex P (t_args s) (t_args t)))"
  using assms by (cases s; cases t) simp

lemma kbo_gt_var: "TermIsFreeVar t \<Longrightarrow> kbo_gt P s t \<longleftrightarrow> \<not> TermIsFreeVar s \<and> t \<in> term_vars s"
  "TermIsFreeVar s \<Longrightarrow> \<not> kbo_gt P s t"
  by (cases s; cases t; simp)+

lemma term_syms_args: "a \<in> set (t_args t) \<Longrightarrow> \<not> TermIsFreeVar t \<Longrightarrow> term_syms t \<subseteq> S \<Longrightarrow> term_syms a \<subseteq> S"
  by (cases t) auto

lemma term_syms_head: "\<not> TermIsFreeVar t \<Longrightarrow> term_syms t \<subseteq> S \<Longrightarrow> f_code t \<in> S"
  by (cases t) auto

definition strict_prec :: "kbo_par \<Rightarrow> int set \<Rightarrow> bool" where
  "strict_prec P S \<longleftrightarrow> (\<forall>f \<in> S. \<forall>g \<in> S. kp_prec P f g = to_greater \<longrightarrow> kp_prec P g f \<noteq> to_greater \<and> f \<noteq> g)"

lemma strict_precD:
  "strict_prec P S \<Longrightarrow> f \<in> S \<Longrightarrow> g \<in> S \<Longrightarrow> kp_prec P f g = to_greater \<Longrightarrow> kp_prec P g f \<noteq> to_greater \<and> f \<noteq> g"
  by (simp add: strict_prec_def)

lemma kbo_asym_lemma:
  shows "kbo_gt P s t \<Longrightarrow> strict_prec P S \<Longrightarrow> term_syms s \<subseteq> S \<Longrightarrow> term_syms t \<subseteq> S \<Longrightarrow> \<not> kbo_gt P t s"
    and "kbo_lex P ss ts \<Longrightarrow> strict_prec P S \<Longrightarrow> (\<Union>a \<in> set ss. term_syms a) \<subseteq> S \<Longrightarrow>
      (\<Union>a \<in> set ts. term_syms a) \<subseteq> S \<Longrightarrow> \<not> kbo_lex P ts ss"
proof (induction P s t and P ss ts rule: kbo_gt_kbo_lex.induct)
  case (1 P f p ty ss g q ty' ts)
  show ?case
  proof (cases "f < 0 \<or> g < 0")
    case False
    then have "f \<in> S" "g \<in> S" using "1.prems"(3,4) by auto
    then have "kp_prec P f g = to_greater \<Longrightarrow> kp_prec P g f \<noteq> to_greater \<and> f \<noteq> g"
      "kp_prec P g f = to_greater \<Longrightarrow> f \<noteq> g"
      using strict_precD [OF "1.prems"(2)] by blast+
    then show ?thesis using 1 False by auto
  qed (use 1 in auto)
qed (auto split: if_splits)

lemma kbo_gt_irrefl: "\<not> kbo_gt P s s" if "\<And>f. f \<in> term_syms s \<Longrightarrow> kp_prec P f f \<noteq> to_greater"
  using that
proof (induction s)
  case (TermCell f p ty ss)
  have "\<not> kbo_lex P xs xs" for xs by (induction xs) auto
  then show ?case using TermCell.prems by auto
qed

lemma ocb_strict_prec:
  assumes "kbo_ocb ocb"
  shows "strict_prec (ocb_par ocb) symbols"
  unfolding strict_prec_def
proof (intro ballI impI)
  fix f g
  assume "f \<in> symbols" "g \<in> symbols" "kp_prec (ocb_par ocb) f g = to_greater"
  then show "kp_prec (ocb_par ocb) g f \<noteq> to_greater \<and> f \<noteq> g"
    using ocb_par_prec(4) [OF assms, of f g] ocb_par_prec(4) [OF assms, of g f] ocb_par_prec(3) [OF assms, of f g] by auto
qed

lemma kbo_asym:
  assumes "kbo_ocb ocb" and "term_syms s \<subseteq> symbols" and "term_syms t \<subseteq> symbols" and "kbo_gt (ocb_par ocb) s t"
  shows "\<not> kbo_gt (ocb_par ocb) t s"
  by (rule kbo_asym_lemma(1) [OF assms(4) ocb_strict_prec [OF assms(1)] assms(2,3)])

lemma kbo_lex_first:
  "k < length xs \<Longrightarrow> k < length ys \<Longrightarrow> (\<forall>i < k. xs ! i = ys ! i) \<Longrightarrow> xs ! k \<noteq> ys ! k \<Longrightarrow>
   kbo_lex P xs ys = kbo_gt P (xs ! k) (ys ! k)"
proof (induction k arbitrary: xs ys)
  case 0
  then show ?case by (cases xs; cases ys) auto
next
  case (Suc k)
  obtain x xs' y ys' where xy: "xs = x # xs'" "ys = y # ys'" using Suc.prems by (cases xs; cases ys) auto
  have "x = y" using Suc.prems(3) xy by (metis nth_Cons_0 zero_less_Suc)
  moreover have "\<forall>i < k. xs' ! i = ys' ! i" using Suc.prems(3) xy by (metis Suc_less_eq nth_Cons_Suc)
  ultimately show ?case using Suc.IH [of xs' ys'] Suc.prems xy by simp
qed

lemma first_difference:
  "length xs = length ys \<Longrightarrow> xs \<noteq> ys \<Longrightarrow> \<exists>k < length xs. (\<forall>i < k. xs ! i = ys ! i) \<and> xs ! k \<noteq> ys ! k"
proof -
  assume "length xs = length ys" "xs \<noteq> ys"
  then have ex: "\<exists>k. k < length xs \<and> xs ! k \<noteq> ys ! k" by (auto simp: list_eq_iff_nth_eq)
  define k where "k = (LEAST k. k < length xs \<and> xs ! k \<noteq> ys ! k)"
  have k: "k < length xs" "xs ! k \<noteq> ys ! k" using LeastI_ex [OF ex] by (simp_all add: k_def)
  then show ?thesis using not_less_Least by (metis (mono_tags, lifting) k_def order.strict_trans)
qed

text \<open>A loop that stops at the first index with another result.\<close>

lemma foldM_brk_first:
  assumes "k < n" and "\<And>i. i < k \<Longrightarrow> f i s = Some (s, False)" and "f k s = Some (r, True)"
  shows "foldM_brk f s [0..<n] = Some r"
proof -
  have "foldM_brk f s (is @ js) = foldM_brk f s js" if "\<And>i. i \<in> set is \<Longrightarrow> f i s = Some (s, False)" for "is" js
    using that by (induction "is") auto
  from this [of "[0..<k]" "[k..<n]"] have "foldM_brk f s [0..<n] = foldM_brk f s [k..<n]"
    using assms(1,2) upt_add_eq_append [of 0 k "n - k"] by simp
  then show ?thesis using assms(1,3) by (simp add: upt_conv_Cons)
qed

lemma foldM_brk_none:
  "(\<And>i. i < n \<Longrightarrow> f i s = Some (s, False)) \<Longrightarrow> foldM_brk f s [0..<n] = Some s"
  using foldM_brk_total [of "[0..<n]" f "\<lambda>_ s. s"]
proof -
  assume a: "\<And>i. i < n \<Longrightarrow> f i s = Some (s, False)"
  have "foldM_brk f s is = Some s" if "\<forall>i \<in> set is. i < n" for "is"
    using that a by (induction "is") auto
  then show ?thesis by simp
qed

section \<open>The comparison functions\<close>

lemma deref_count_le: "snd (deref_count b d t) \<le> d"
  by (induction d arbitrary: t) (auto split: option.splits intro: le_SucI)

lemma head_unbound:
  assumes "head_ok ocb b t d u"
  shows "b t = None \<or> d = DEREF_NEVER"
proof (cases "b t")
  case (Some x)
  have d: "TermDeref b t d = Some (t, d)" and ok: "binds_ok (ocb_sig ocb) b" "wf_term (ocb_sig ocb) t"
    using head_okD(1,2,3) [OF assms] by (simp_all add: copies_def)
  have "d \<noteq> DEREF_ALWAYS"
    using d deref_always_wf [OF _ ok] Some by (auto simp: TermDeref_def bind_eq_Some_conv)
  then have c: "deref_count b d t = (t, d)" using d by (simp add: TermDeref_def bind_eq_Some_conv)
  have "d = 0"
  proof (cases d)
    case (Suc e)
    then show ?thesis using c Some deref_count_le [of b e x] by simp
  qed
  then show ?thesis by (simp add: deref_defs)
qed simp

lemma var_greater_ok:
  assumes "copies ocb b s ds us" and "copies ocb b t dt ut"
  shows "var_greater b s t ds dt = Some (if var_mset ut \<subseteq># var_mset us then to_greater else to_uncomparable)"
    "var_cmp_greater b s t ds dt = Some (if var_mset ut \<subseteq># var_mset us then to_greater else to_uncomparable)"
    "var_cmp_lesser b s t ds dt = Some (if var_mset us \<subseteq># var_mset ut then to_lesser else to_uncomparable)"
  using KBOVarGreater_ok [OF assms] KBOVarCompare_ok [OF assms]
  by (auto simp: var_greater_def var_cmp_greater_def var_cmp_lesser_def intro: subset_mset.antisym)

lemma same_head:
  assumes "wf_term sg u" and "wf_term sg v" and "\<not> TermIsFreeVar u" and "f_code u = f_code v"
  shows "t_predpos u = t_predpos v" "t_type u = t_type v" "arity u = arity v"
    "u = v \<longleftrightarrow> t_args u = t_args v"
  using assms by (cases u; cases v; auto simp: arity_def)+

text \<open>The common form of the two functions when both heads are function symbols.\<close>

lemma kbo_cmp_fun:
  assumes "kbo_ocb ocb" and "\<not> TermIsFreeVar us" and "\<not> TermIsFreeVar ut"
    and "term_syms us \<subseteq> symbols" and "term_syms ut \<subseteq> symbols"
    and "wf_term (ocb_sig ocb) us" and "wf_term (ocb_sig ocb) ut"
  defines "P \<equiv> ocb_par ocb"
  defines "gt \<equiv> if var_mset ut \<subseteq># var_mset us then to_greater else to_uncomparable"
    and "lt \<equiv> if var_mset us \<subseteq># var_mset ut then to_lesser else to_uncomparable"
  shows "kbo_weight P us > kbo_weight P ut \<Longrightarrow> kbo_cmp P us ut = gt"
    and "kbo_weight P us < kbo_weight P ut \<Longrightarrow> kbo_cmp P us ut = lt"
    and "kbo_weight P us = kbo_weight P ut \<Longrightarrow> kp_prec P (f_code us) (f_code ut) = to_greater \<Longrightarrow> kbo_cmp P us ut = gt"
    and "kbo_weight P us = kbo_weight P ut \<Longrightarrow> kp_prec P (f_code us) (f_code ut) = to_lesser \<Longrightarrow> kbo_cmp P us ut = lt"
    and "kbo_weight P us = kbo_weight P ut \<Longrightarrow> kp_prec P (f_code us) (f_code ut) = to_uncomparable \<Longrightarrow>
      kbo_cmp P us ut = to_uncomparable"
    and "kbo_weight P us = kbo_weight P ut \<Longrightarrow> f_code us = f_code ut \<Longrightarrow> k < arity us \<Longrightarrow>
      (\<forall>i < k. t_args us ! i = t_args ut ! i) \<Longrightarrow> t_args us ! k \<noteq> t_args ut ! k \<Longrightarrow>
      kbo_cmp P us ut = (case kbo_cmp P (t_args us ! k) (t_args ut ! k) of
        to_greater \<Rightarrow> gt | to_lesser \<Rightarrow> lt | _ \<Rightarrow> to_uncomparable)"
proof -
  have sym: "f_code us \<in> symbols" "f_code ut \<in> symbols"
    using term_syms_head assms(2-5) by blast+
  note prec = ocb_par_prec [OF assms(1) sym, folded P_def] ocb_par_prec [OF assms(1) sym(2,1), folded P_def]
  note gt_iff = kbo_gt_cases [OF assms(2,3)] kbo_gt_cases [OF assms(3,2)]
  show "kbo_weight P us > kbo_weight P ut \<Longrightarrow> kbo_cmp P us ut = gt"
    by (auto simp: kbo_cmp_def gt_iff gt_def)
  show "kbo_weight P us < kbo_weight P ut \<Longrightarrow> kbo_cmp P us ut = lt"
    by (auto simp: kbo_cmp_def gt_iff lt_def)
  show "kbo_weight P us = kbo_weight P ut \<Longrightarrow> kp_prec P (f_code us) (f_code ut) = to_greater \<Longrightarrow> kbo_cmp P us ut = gt"
    using prec by (auto simp: kbo_cmp_def gt_iff gt_def)
  show "kbo_weight P us = kbo_weight P ut \<Longrightarrow> kp_prec P (f_code us) (f_code ut) = to_lesser \<Longrightarrow> kbo_cmp P us ut = lt"
    using prec by (auto simp: kbo_cmp_def gt_iff lt_def)
  show "kbo_weight P us = kbo_weight P ut \<Longrightarrow> kp_prec P (f_code us) (f_code ut) = to_uncomparable \<Longrightarrow>
      kbo_cmp P us ut = to_uncomparable"
    using prec by (auto simp: kbo_cmp_def gt_iff)
  show "kbo_cmp P us ut = (case kbo_cmp P (t_args us ! k) (t_args ut ! k) of
        to_greater \<Rightarrow> gt | to_lesser \<Rightarrow> lt | _ \<Rightarrow> to_uncomparable)"
    if h: "kbo_weight P us = kbo_weight P ut" "f_code us = f_code ut" "k < arity us"
      "\<forall>i < k. t_args us ! i = t_args ut ! i" "t_args us ! k \<noteq> t_args ut ! k"
  proof -
    have len: "length (t_args us) = arity us" "length (t_args ut) = arity us"
      using same_head(3) [OF assms(6,7,2) h(2)] by (simp_all add: arity_def)
    have eq: "kp_prec P (f_code us) (f_code ut) = to_equal" "kp_prec P (f_code ut) (f_code us) = to_equal"
      using prec(3) prec(7) h(2) by simp_all
    have lex: "kbo_lex P (t_args us) (t_args ut) = kbo_gt P (t_args us ! k) (t_args ut ! k)"
      "kbo_lex P (t_args ut) (t_args us) = kbo_gt P (t_args ut ! k) (t_args us ! k)"
      using kbo_lex_first [of k "t_args us" "t_args ut"] kbo_lex_first [of k "t_args ut" "t_args us"] h len by simp_all
    have "term_syms (t_args us ! k) \<subseteq> symbols" "term_syms (t_args ut ! k) \<subseteq> symbols"
      using term_syms_args [OF _ assms(2,4)] term_syms_args [OF _ assms(3,5)] h(3) len by simp_all
    then have "\<not> (kbo_gt P (t_args us ! k) (t_args ut ! k) \<and> kbo_gt P (t_args ut ! k) (t_args us ! k))"
      using kbo_asym [OF assms(1)] by (auto simp: P_def)
    moreover have "us \<noteq> ut" using h(5) by auto
    ultimately show ?thesis
      using h(1,2,5) eq lex by (auto simp: kbo_cmp_def gt_iff gt_def lt_def)
  qed
qed

lemma copies_syms: "copies ocb b t d u \<Longrightarrow> term_syms u \<subseteq> symbols"
  by (simp add: copies_def)

lemma kbocomparevars_ok:
  assumes "head_ok ocb b s ds us" and "head_ok ocb b t dt ut" and "TermIsFreeVar us \<or> TermIsFreeVar ut"
  shows "kbocomparevars b s t ds dt = Some (kbo_cmp P us ut)"
proof -
  note hs = head_okD [OF assms(1)] and ht = head_okD [OF assms(2)]
  have un: "b t = None \<or> dt = DEREF_NEVER" "b s = None \<or> ds = DEREF_NEVER"
    using head_unbound assms(1,2) by blast+
  show ?thesis
  proof (cases "TermIsFreeVar ut")
    case True
    then have t: "t = ut" using ht(8) by simp
    have eq: "s = t \<longleftrightarrow> us = ut"
      using hs(8,9) True t by (cases "TermIsFreeVar us") auto
    have "TermIsSubterm b s t ds = Some (t \<in> term_vars us)"
      using TermIsSubterm_var [OF hs(3)] True t by simp
    then show ?thesis
      using un True t eq kbo_gt_var(1) [OF True, of P us] kbo_gt_var(2) [OF True, of P us]
        wf_term_var_vars [of us] by (auto simp: kbocomparevars_def kbo_cmp_def)
  next
    case False
    then have v: "TermIsFreeVar us" "s = us" "\<not> TermIsFreeVar t" using assms(3) hs(8) ht(9) by simp_all
    have "TermIsSubterm b t s dt = Some (s \<in> term_vars ut)"
      using TermIsSubterm_var [OF ht(3)] v by simp
    then show ?thesis
      using un v False kbo_gt_var(1) [OF v(1), of P ut] kbo_gt_var(2) [OF v(1), of P ut]
      by (auto simp: kbocomparevars_def kbo_cmp_def)
  qed
qed

lemma KBOCompare_ok:
  assumes "kbo_ocb ocb" and "copies ocb b s ds us" and "copies ocb b t dt ut"
  shows "KBOCompare ocb b s t ds dt = Some (kbo_cmp (ocb_par ocb) us ut)"
  using assms(2,3)
proof (induction us arbitrary: s t ds dt ut)
  case (TermCell f p ty ss)
  let ?us = "TermCell f p ty ss" and ?P = "ocb_par ocb"
  obtain s' ds' where s': "TermDeref b s ds = Some (s', ds')" and hs: "head_ok ocb b s' ds' ?us"
    using copies_head [OF TermCell.prems(1)] by blast
  obtain t' dt' where t': "TermDeref b t dt = Some (t', dt')" and ht: "head_ok ocb b t' dt' ut"
    using copies_head [OF TermCell.prems(2)] by blast
  note s = head_okD [OF hs] and t = head_okD [OF ht]
  show ?case
  proof (cases "TermIsFreeVar ?us \<or> TermIsFreeVar ut")
    case True
    then show ?thesis
      using s' t' kbocomparevars_ok [OF hs ht True] s(9) t(9) by (subst KBOCompare.simps) simp
  next
    case False
    then have nv: "\<not> TermIsFreeVar ?us" "\<not> TermIsFreeVar ut" by blast+
    have wf: "wf_term (ocb_sig ocb) ?us" "wf_term (ocb_sig ocb) ut" using copies_wf s(3) t(3) by blast+
    have syms: "term_syms ?us \<subseteq> symbols" "term_syms ut \<subseteq> symbols" using copies_syms s(3) t(3) by blast+
    note spec = kbo_cmp_fun [OF assms(1) nv syms wf]
    note vars = var_greater_ok [OF s(3) t(3)]
    note wt = gettermweight_ok [OF assms(1) s(3)] gettermweight_ok [OF assms(1) t(3)]
    have sym: "f_code ?us \<in> symbols" "f_code ut \<in> symbols"
      using copies_nonvar [OF s(3) nv(1)] copies_nonvar [OF t(3) nv(2)] .
    note prec = ocb_par_prec [OF assms(1) sym]
    let ?body = "\<lambda>i res.
        if arity t' \<le> i
        then do { r \<leftarrow> var_cmp_greater b s' t' ds' dt'; Some (r, True) }
        else if arity s' \<le> i
        then do { r \<leftarrow> var_cmp_lesser b s' t' ds' dt'; Some (r, True) }
        else do { a \<leftarrow> t_arg s' i; a' \<leftarrow> t_arg t' i;
                  r \<leftarrow> KBOCompare ocb b a a' ds' dt';
                  if r = to_greater
                  then do { r \<leftarrow> var_cmp_greater b s' t' ds' dt'; Some (r, True) }
                  else if r = to_lesser
                  then do { r \<leftarrow> var_cmp_lesser b s' t' ds' dt'; Some (r, True) }
                  else if r = to_uncomparable then Some (to_uncomparable, True)
                  else Some (res, False) }"
    have unfold: "KBOCompare ocb b s t ds dt =
        (if kbo_weight ?P ?us > kbo_weight ?P ut then var_cmp_greater b s' t' ds' dt'
         else if kbo_weight ?P ?us < kbo_weight ?P ut then var_cmp_lesser b s' t' ds' dt'
         else case kp_prec ?P (f_code ?us) (f_code ut) of
                to_uncomparable \<Rightarrow> Some to_uncomparable
              | to_greater \<Rightarrow> var_cmp_greater b s' t' ds' dt'
              | to_lesser \<Rightarrow> var_cmp_lesser b s' t' ds' dt'
              | to_equal \<Rightarrow> foldM_brk ?body to_equal [0..<max (arity s') (arity t')]
              | _ \<Rightarrow> None)"
      using s' t' s(9) t(9) nv wt prec(1) s(4) t(4) by (subst KBOCompare.simps) simp
    have body: "?body i res = (case kbo_cmp ?P (ss ! i) (t_args ut ! i) of
          to_greater \<Rightarrow> Some (if var_mset ut \<subseteq># var_mset ?us then to_greater else to_uncomparable, True)
        | to_lesser \<Rightarrow> Some (if var_mset ?us \<subseteq># var_mset ut then to_lesser else to_uncomparable, True)
        | to_uncomparable \<Rightarrow> Some (to_uncomparable, True)
        | _ \<Rightarrow> Some (res, False))"
      if i: "i < length ss" "i < arity ut" for i res
    proof -
      obtain a where a: "t_arg s' i = Some a" "copies ocb b a ds' (ss ! i)" using head_ok_arg [OF hs, of i] i by auto
      obtain a' where a': "t_arg t' i = Some a'" "copies ocb b a' dt' (t_args ut ! i)" using head_ok_arg [OF ht i(2)] by auto
      have "KBOCompare ocb b a a' ds' dt' = Some (kbo_cmp ?P (ss ! i) (t_args ut ! i))"
        using TermCell.IH [OF _ a(2) a'(2)] i by simp
      then show ?thesis using i a(1) a'(1) s(7) t(7) vars
        by (simp add: kbo_cmp_def)
    qed
    show ?thesis
    proof (cases "kbo_weight ?P ?us = kbo_weight ?P ut")
      case False
      then show ?thesis using spec(1,2) vars unfolding unfold by (auto simp: neq_iff)
    next
      case w: True
      show ?thesis
      proof (cases "f_code ut = f")
        case False
        then have "kp_prec ?P (f_code ?us) (f_code ut) \<in> {to_uncomparable, to_greater, to_lesser}"
          using prec(2,3) by (auto simp: proper_results_def)
        then show ?thesis using spec(3-5) [OF w] vars w unfolding unfold by auto
      next
        case fc: True
        have eq: "kp_prec ?P (f_code ?us) (f_code ut) = to_equal" using prec(3) fc by simp
        have ar: "arity s' = length ss" "arity t' = length ss" "arity ut = length ss"
          using same_head(3) [OF wf nv(1)] fc s(7) t(7) by simp_all
        have loop: "KBOCompare ocb b s t ds dt = foldM_brk ?body to_equal [0..<length ss]"
          unfolding unfold using w eq ar by simp
        show ?thesis
        proof (cases "ss = t_args ut")
          case True
          have "foldM_brk ?body to_equal [0..<length ss] = Some to_equal"
            by (rule foldM_brk_none, subst body) (use ar True in \<open>simp_all add: kbo_cmp_def\<close>)
          moreover have "?us = ut" using same_head(4) [OF wf nv(1)] fc True by simp
          ultimately show ?thesis using loop by (simp add: kbo_cmp_def)
        next
          case False
          then obtain k where k: "k < length ss" "\<forall>i < k. ss ! i = t_args ut ! i" "ss ! k \<noteq> t_args ut ! k"
            using first_difference [of ss "t_args ut"] ar(3) by (auto simp: arity_def)
          have cmpk: "kbo_cmp ?P (ss ! k) (t_args ut ! k) \<in> {to_greater, to_lesser, to_uncomparable}"
            using k(3) by (simp add: kbo_cmp_def)
          have "foldM_brk ?body to_equal [0..<length ss] = Some (kbo_cmp ?P ?us ut)"
          proof (rule foldM_brk_first [OF k(1)])
            show "?body i to_equal = Some (to_equal, False)" if "i < k" for i
              using k(1,2) that ar by (subst body) (simp_all add: kbo_cmp_def)
            show "?body k to_equal = Some (kbo_cmp ?P ?us ut, True)"
              using k cmpk ar w fc by (subst body) (simp_all add: spec(6) [of k], auto)
          qed
          then show ?thesis using loop by simp
        qed
      qed
    qed
  qed
qed

text \<open>The one-sided comparison has no result \<open>to_lesser\<close>.\<close>

definition not_lesser :: "CompareResult \<Rightarrow> CompareResult" where
  "not_lesser r = (if r = to_lesser then to_uncomparable else r)"

lemma kbogtrnew_ok:
  assumes "kbo_ocb ocb" and "copies ocb b s ds us" and "copies ocb b t dt ut"
  shows "kbogtrnew ocb b s t ds dt = Some (not_lesser (kbo_cmp (ocb_par ocb) us ut))"
  using assms(2,3)
proof (induction us arbitrary: s t ds dt ut)
  case (TermCell f p ty ss)
  let ?us = "TermCell f p ty ss" and ?P = "ocb_par ocb"
  obtain s' ds' where s': "TermDeref b s ds = Some (s', ds')" and hs: "head_ok ocb b s' ds' ?us"
    using copies_head [OF TermCell.prems(1)] by blast
  obtain t' dt' where t': "TermDeref b t dt = Some (t', dt')" and ht: "head_ok ocb b t' dt' ut"
    using copies_head [OF TermCell.prems(2)] by blast
  note s = head_okD [OF hs] and t = head_okD [OF ht]
  consider (svar) "TermIsFreeVar ?us" | (tvar) "\<not> TermIsFreeVar ?us" "TermIsFreeVar ut"
    | (nv) "\<not> TermIsFreeVar ?us" "\<not> TermIsFreeVar ut" by blast
  then show ?case
  proof cases
    case svar
    then have "s' = ?us" using s(8) by blast
    then have "s' = t' \<longleftrightarrow> ?us = ut" using t(8,9) svar by (cases "TermIsFreeVar ut") auto
    then show ?thesis
      using s' t' s(9) svar kbo_gt_var(2) [OF svar]
      by (subst kbogtrnew.simps) (auto simp: kbo_cmp_def not_lesser_def)
  next
    case tvar
    have "TermIsSubterm b s' t' ds' = Some (ut \<in> term_vars ?us)"
      using TermIsSubterm_var [OF s(3) tvar(2)] t(8) [OF tvar(2)] by simp
    then show ?thesis
      using s' t' s(9) t(9) tvar kbo_gt_var [OF tvar(2)]
      by (subst kbogtrnew.simps) (auto simp: kbo_cmp_def not_lesser_def)
  next
    case nv
    have wf: "wf_term (ocb_sig ocb) ?us" "wf_term (ocb_sig ocb) ut" using copies_wf s(3) t(3) by blast+
    have syms: "term_syms ?us \<subseteq> symbols" "term_syms ut \<subseteq> symbols" using copies_syms s(3) t(3) by blast+
    note spec = kbo_cmp_fun [OF assms(1) nv syms wf]
    note vars = var_greater_ok [OF s(3) t(3)]
    note wt = gettermweight_ok [OF assms(1) s(3)] gettermweight_ok [OF assms(1) t(3)]
    have sym: "f_code ?us \<in> symbols" "f_code ut \<in> symbols"
      using copies_nonvar [OF s(3) nv(1)] copies_nonvar [OF t(3) nv(2)] .
    note prec = ocb_par_prec [OF assms(1) sym]
    let ?body = "\<lambda>i res.
        if arity t' \<le> i
        then do { r \<leftarrow> var_greater b s' t' ds' dt'; Some (r, True) }
        else if arity s' \<le> i then Some (to_uncomparable, True)
        else do { a \<leftarrow> t_arg s' i; a' \<leftarrow> t_arg t' i;
                  r \<leftarrow> kbogtrnew ocb b a a' ds' dt';
                  case r of
                    to_greater \<Rightarrow> do { r \<leftarrow> var_greater b s' t' ds' dt'; Some (r, True) }
                  | to_uncomparable \<Rightarrow> Some (to_uncomparable, True)
                  | to_equal \<Rightarrow> Some (res, False)
                  | _ \<Rightarrow> None }"
    have unfold: "kbogtrnew ocb b s t ds dt =
        (if kbo_weight ?P ?us > kbo_weight ?P ut then var_greater b s' t' ds' dt'
         else if kbo_weight ?P ?us < kbo_weight ?P ut then Some to_uncomparable
         else case kp_prec ?P (f_code ?us) (f_code ut) of
                to_greater \<Rightarrow> var_greater b s' t' ds' dt'
              | to_equal \<Rightarrow> foldM_brk ?body to_equal [0..<max (arity s') (arity t')]
              | to_uncomparable \<Rightarrow> Some to_uncomparable
              | to_lesser \<Rightarrow> Some to_uncomparable
              | _ \<Rightarrow> None)"
      using s' t' s(9) t(9) nv wt prec(1) s(4) t(4) by (subst kbogtrnew.simps) simp
    have body: "?body i res = (case kbo_cmp ?P (ss ! i) (t_args ut ! i) of
          to_greater \<Rightarrow> Some (if var_mset ut \<subseteq># var_mset ?us then to_greater else to_uncomparable, True)
        | to_equal \<Rightarrow> Some (res, False)
        | _ \<Rightarrow> Some (to_uncomparable, True))"
      if i: "i < length ss" "i < arity ut" for i res
    proof -
      obtain a where a: "t_arg s' i = Some a" "copies ocb b a ds' (ss ! i)" using head_ok_arg [OF hs, of i] i by auto
      obtain a' where a': "t_arg t' i = Some a'" "copies ocb b a' dt' (t_args ut ! i)" using head_ok_arg [OF ht i(2)] by auto
      have "kbogtrnew ocb b a a' ds' dt' = Some (not_lesser (kbo_cmp ?P (ss ! i) (t_args ut ! i)))"
        using TermCell.IH [OF _ a(2) a'(2)] i by simp
      then show ?thesis using i a(1) a'(1) s(7) t(7) vars
        by (simp add: kbo_cmp_def not_lesser_def)
    qed
    show ?thesis
    proof (cases "kbo_weight ?P ?us = kbo_weight ?P ut")
      case False
      then show ?thesis using spec(1,2) vars unfolding unfold by (auto simp: neq_iff not_lesser_def split: if_splits)
    next
      case w: True
      show ?thesis
      proof (cases "f_code ut = f")
        case False
        then have "kp_prec ?P (f_code ?us) (f_code ut) \<in> {to_uncomparable, to_greater, to_lesser}"
          using prec(2,3) by (auto simp: proper_results_def)
        then show ?thesis using spec(3-5) [OF w] vars w unfolding unfold by (auto simp: not_lesser_def split: if_splits)
      next
        case fc: True
        have eq: "kp_prec ?P (f_code ?us) (f_code ut) = to_equal" using prec(3) fc by simp
        have ar: "arity s' = length ss" "arity t' = length ss" "arity ut = length ss"
          using same_head(3) [OF wf nv(1)] fc s(7) t(7) by simp_all
        have loop: "kbogtrnew ocb b s t ds dt = foldM_brk ?body to_equal [0..<length ss]"
          unfolding unfold using w eq ar by simp
        show ?thesis
        proof (cases "ss = t_args ut")
          case True
          have "foldM_brk ?body to_equal [0..<length ss] = Some to_equal"
            by (rule foldM_brk_none, subst body) (use ar True in \<open>simp_all add: kbo_cmp_def\<close>)
          moreover have "?us = ut" using same_head(4) [OF wf nv(1)] fc True by simp
          ultimately show ?thesis using loop by (simp add: kbo_cmp_def not_lesser_def)
        next
          case False
          then obtain k where k: "k < length ss" "\<forall>i < k. ss ! i = t_args ut ! i" "ss ! k \<noteq> t_args ut ! k"
            using first_difference [of ss "t_args ut"] ar(3) by (auto simp: arity_def)
          have cmpk: "kbo_cmp ?P (ss ! k) (t_args ut ! k) \<in> {to_greater, to_lesser, to_uncomparable}"
            using k(3) by (simp add: kbo_cmp_def)
          have "foldM_brk ?body to_equal [0..<length ss] = Some (not_lesser (kbo_cmp ?P ?us ut))"
          proof (rule foldM_brk_first [OF k(1)])
            show "?body i to_equal = Some (to_equal, False)" if "i < k" for i
              using k(1,2) that ar by (subst body) (simp_all add: kbo_cmp_def)
            show "?body k to_equal = Some (not_lesser (kbo_cmp ?P ?us ut), True)"
              using k cmpk ar w fc by (subst body) (simp_all add: spec(6) [of k], auto simp: not_lesser_def)
          qed
          then show ?thesis using loop by simp
        qed
      qed
    qed
  qed
qed

section \<open>Instances\<close>

lemma copies_never:
  assumes "binds_ok (ocb_sig ocb) b" and "kbo_term ocb t"
  shows "copies ocb b t DEREF_NEVER t"
  using assms TermCopyKeepVars_0 [OF assms(1)] by (simp add: copies_def kbo_term_def deref_defs)

lemma copies_always:
  assumes "subst_wf (ocb_sig ocb) b" and "kbo_term ocb t" and "term_syms (sigma b t) \<subseteq> symbols"
  shows "copies ocb b t DEREF_ALWAYS (sigma b t)"
proof -
  have ok: "binds_ok (ocb_sig ocb) b" and wf: "wf_term (ocb_sig ocb) t"
    using assms(1,2) by (simp_all add: subst_wf_def kbo_term_def)
  show ?thesis
    using TermCopyKeepVars_full [OF sigma_full [OF assms(1) wf] ok] ok wf assms(3) by (simp add: copies_def)
qed

lemma binds_ok_empty: "binds_ok sg (\<lambda>_. None)"
  by (simp add: binds_ok_def)

lemma OCBAlloc_kbo:
  assumes "ty \<in> {KBO, KBO6}" and "0 \<le> sg_f_count sig"
  shows "\<exists>ocb. OCBAlloc ty False sig = Some ocb \<and> kbo_ocb ocb \<and> ocb_sig ocb = sig \<and> var_weight ocb = 1 \<and>
           (\<forall>f \<in> symbols. OCBFunWeight ocb f = Some 1)"
proof -
  obtain ocb where ocb: "OCBAlloc ty False sig = Some ocb" "prec_matrix_ok ocb" "ocb_sig ocb = sig" "var_weight ocb = 1"
    "\<forall>f \<in> {0..sig_size ocb}. OCBFunWeight ocb f = Some 1"
    using OCBAlloc_matrix [of ty sig] assms by (auto simp: ordering_types_def)
  have "OCBFunWeight ocb f = Some 1" if "f \<in> symbols" for f
  proof (cases "f \<le> sig_size ocb")
    case True
    then show ?thesis using ocb(5) that by (simp add: symbols_def)
  qed (simp add: OCBFunWeight_def OCB_FUN_DEFAULT_WEIGHT_def)
  then show ?thesis using ocb by (auto simp: kbo_ocb_def ocb_prec_ok_def)
qed

lemma sample_kbo_term:
  assumes "ocb_sig ocb = sample_sig"
  shows "kbo_term ocb (sample_f (sample_var 1) (sample_const 21))" "kbo_term ocb (sample_var 1)"
    "kbo_term ocb (sample_g (sample_var 1))" "kbo_term ocb (sample_const 21)"
  using assms by (simp_all add: kbo_term_def sample_defs symbols_def)

section \<open>Properties\<close>

text \<open>C15 \<open>KBOCompare\<close> returns the textbook Knuth-Bendix comparison of the two terms that
  dereferencing each side with its own number of steps gives: it ends, trips no assertion, and
  returns \<open>to_equal\<close> for equal terms, \<open>to_greater\<close> or \<open>to_lesser\<close> when the ordering
  says so, and \<open>to_uncomparable\<close> otherwise.\<close>

theorem KBOCompare_textbook:
  assumes "kbo_ocb ocb" and "copies ocb b s ds us" and "copies ocb b t dt ut"
  shows "KBOCompare ocb b s t ds dt = Some (kbo_cmp (ocb_par ocb) us ut)"
  using assms by (rule KBOCompare_ok)

theorem KBOCompare_textbook_witness:
  "\<exists>ocb. OCBAlloc KBO False sample_sig = Some ocb \<and>
     KBOCompare ocb (\<lambda>_. None) (sample_f (sample_var 1) (sample_const 21)) (sample_var 1) DEREF_NEVER DEREF_NEVER = Some to_greater"
proof -
  obtain ocb where ocb: "OCBAlloc KBO False sample_sig = Some ocb" "kbo_ocb ocb" "ocb_sig ocb = sample_sig"
    using OCBAlloc_kbo [of KBO sample_sig] by (auto simp: sample_sig_def)
  note c = copies_never [OF binds_ok_empty sample_kbo_term(1) [OF ocb(3)]]
    copies_never [OF binds_ok_empty sample_kbo_term(2) [OF ocb(3)]]
  have "kbo_cmp (ocb_par ocb) (sample_f (sample_var 1) (sample_const 21)) (sample_var 1) = to_greater"
    by (simp add: kbo_cmp_def sample_defs)
  then show ?thesis using KBOCompare_textbook [OF ocb(2) c] ocb(1) by auto
qed

text \<open>C16 \<open>KBOGreater\<close>, which has its own traversal, agrees with \<open>KBOCompare\<close>: it answers true
  exactly if \<open>KBOCompare\<close> returns \<open>to_greater\<close>, and exactly if \<open>KBOCompare\<close> with the
  arguments swapped returns \<open>to_lesser\<close>.\<close>

theorem KBOGreater_KBOCompare:
  assumes "kbo_ocb ocb" and "copies ocb b s ds us" and "copies ocb b t dt ut"
  shows "\<exists>r r'. KBOCompare ocb b s t ds dt = Some r \<and> KBOCompare ocb b t s dt ds = Some r' \<and>
           KBOGreater ocb b s t ds dt = Some (r = to_greater) \<and> (r = to_greater \<longleftrightarrow> r' = to_lesser) \<and>
           POInverseRelation r = Some r'"
proof -
  have "KBOGreater ocb b s t ds dt = Some (kbo_cmp (ocb_par ocb) us ut = to_greater)"
    using kbogtrnew_ok [OF assms] by (simp add: KBOGreater_def not_lesser_def)
  moreover have "\<not> (kbo_gt (ocb_par ocb) us ut \<and> kbo_gt (ocb_par ocb) ut us)"
    using kbo_asym [OF assms(1)] copies_syms assms(2,3) by blast
  ultimately show ?thesis
    using KBOCompare_ok [OF assms] KBOCompare_ok [OF assms(1,3,2)] by (auto simp: kbo_cmp_def)
qed

theorem KBOGreater_KBOCompare_witness:
  "\<exists>ocb r. OCBAlloc KBO False sample_sig = Some ocb \<and>
     KBOGreater ocb (\<lambda>_. None) (sample_f (sample_var 1) (sample_const 21)) (sample_var 1) DEREF_NEVER DEREF_NEVER = Some r"
proof -
  obtain ocb where ocb: "OCBAlloc KBO False sample_sig = Some ocb" "kbo_ocb ocb" "ocb_sig ocb = sample_sig"
    using OCBAlloc_kbo [of KBO sample_sig] by (auto simp: sample_sig_def)
  note c = copies_never [OF binds_ok_empty sample_kbo_term(1) [OF ocb(3)]]
    copies_never [OF binds_ok_empty sample_kbo_term(2) [OF ocb(3)]]
  show ?thesis using KBOGreater_KBOCompare [OF ocb(2) c] ocb(1) by blast
qed

end
