(* ===== verification/KBO_Order.thy ===== *)
theory KBO_Order
  imports KBO_Correct
begin

text \<open>
  The Knuth-Bendix ordering is a reduction ordering: for admissible weights, what \<open>KBOGreater\<close>
  decides is irreflexive, transitive, stable under substitutions and contexts, has the subterm
  property, is total on ground terms if the precedence is total, and is well-founded. The
  locale \<open>kbo_order\<close> holds the laws of precedence and weights that this rests on.
\<close>

section \<open>The laws\<close>

locale kbo_order =
  fixes par :: "'o \<Rightarrow> kbo_par"
    and sig :: "'o \<Rightarrow> Sig"
    and valid :: "'o \<Rightarrow> bool"
  assumes prec_irrefl: "valid oc \<Longrightarrow> f \<in> symbols \<Longrightarrow> kp_prec (par oc) f f \<noteq> to_greater"
    and prec_trans: "valid oc \<Longrightarrow> f \<in> symbols \<Longrightarrow> g \<in> symbols \<Longrightarrow> h \<in> symbols \<Longrightarrow>
      kp_prec (par oc) f g = to_greater \<Longrightarrow> kp_prec (par oc) g h = to_greater \<Longrightarrow> kp_prec (par oc) f h = to_greater"
    and var_pos: "valid oc \<Longrightarrow> 0 < kp_var (par oc)"
    and weight_nonneg: "valid oc \<Longrightarrow> f \<in> symbols \<Longrightarrow> 0 \<le> kp_weight (par oc) f"
    and weight_const: "valid oc \<Longrightarrow> f \<in> symbols \<Longrightarrow> sg_arity (sig oc) f = 0 \<Longrightarrow> kp_var (par oc) \<le> kp_weight (par oc) f"
    and weight_unary: "valid oc \<Longrightarrow> f \<in> symbols \<Longrightarrow> g \<in> symbols \<Longrightarrow> sg_arity (sig oc) f = 1 \<Longrightarrow>
      kp_weight (par oc) f = 0 \<Longrightarrow> g \<noteq> f \<Longrightarrow> kp_prec (par oc) f g = to_greater"
begin

definition okt :: "'o \<Rightarrow> Term_p \<Rightarrow> bool" where
  "okt oc t \<longleftrightarrow> wf_term (sig oc) t \<and> term_syms t \<subseteq> symbols"

lemma okt_arg: "okt oc t \<Longrightarrow> a \<in> set (t_args t) \<Longrightarrow> okt oc a"
  by (cases t) (auto simp: okt_def split: if_splits)

lemma okt_fun: "okt oc t \<Longrightarrow> \<not> TermIsFreeVar t \<Longrightarrow> f_code t \<in> symbols \<and> arity t = sg_arity (sig oc) (f_code t)"
  by (cases t) (auto simp: okt_def)

lemma weight_ge_var: "valid oc \<Longrightarrow> okt oc t \<Longrightarrow> kp_var (par oc) \<le> kbo_weight (par oc) t"
proof (induction t)
  case (TermCell f p ty as)
  show ?case
  proof (cases "f < 0")
    case False
    have f: "f \<in> symbols" "length as = sg_arity (sig oc) f" using okt_fun [OF TermCell.prems(2)] False by simp_all
    have le: "kp_var (par oc) \<le> kbo_weight (par oc) a" if "a \<in> set as" for a
      using TermCell.IH [OF that TermCell.prems(1)] okt_arg [OF TermCell.prems(2)] that by simp
    show ?thesis
    proof (cases as)
      case Nil
      then show ?thesis using weight_const [OF TermCell.prems(1) f(1)] f(2) False by simp
    next
      case (Cons a as')
      have "0 \<le> sum_list (map (kbo_weight (par oc)) as')"
        using le var_pos [OF TermCell.prems(1)] Cons by (intro sum_list_nonneg) fastforce
      then show ?thesis using le [of a] weight_nonneg [OF TermCell.prems(1) f(1)] Cons False by simp
    qed
  qed simp
qed

lemma gt_weight: "valid oc \<Longrightarrow> okt oc s \<Longrightarrow> okt oc t \<Longrightarrow> kbo_gt (par oc) s t \<Longrightarrow> kbo_weight (par oc) t \<le> kbo_weight (par oc) s"
proof (cases "TermIsFreeVar t")
  case True
  assume "valid oc" "okt oc s"
  then show ?thesis using weight_ge_var [of oc s] True by (cases t) simp
next
  case False
  assume "kbo_gt (par oc) s t"
  then show ?thesis using False kbo_gt_var(2) [of s "par oc" t] kbo_gt_cases [of s t "par oc"]
    by (cases "TermIsFreeVar s") auto
qed

lemma gt_vars: "kbo_gt P s t \<Longrightarrow> var_mset t \<subseteq># var_mset s"
proof (cases "TermIsFreeVar t")
  case True
  assume "kbo_gt P s t"
  then show ?thesis using kbo_gt_var(1) [OF True] True var_mset_free [OF True]
    by (simp add: mset_subset_eq_single)
next
  case False
  assume "kbo_gt P s t"
  then show ?thesis using False kbo_gt_var(2) [of s P t] kbo_gt_cases [of s t P] by auto
qed

lemma gt_irrefl: "valid oc \<Longrightarrow> okt oc s \<Longrightarrow> \<not> kbo_gt (par oc) s s"
  by (rule kbo_gt_irrefl) (auto simp: okt_def dest: prec_irrefl)

lemma gt_trans_lemma:
  assumes "valid oc"
  shows "\<And>s t u. size s + size t + size u < n \<Longrightarrow> okt oc s \<Longrightarrow> okt oc t \<Longrightarrow> okt oc u \<Longrightarrow>
      kbo_gt (par oc) s t \<Longrightarrow> kbo_gt (par oc) t u \<Longrightarrow> kbo_gt (par oc) s u"
proof (induction n)
  case (Suc n)
  let ?P = "par oc"
  have lex: "kbo_lex ?P xs zs"
    if "kbo_lex ?P xs ys" "kbo_lex ?P ys zs" "\<forall>x \<in> set xs \<union> set ys \<union> set zs. okt oc x"
      "sum_list (map size xs) + sum_list (map size ys) + sum_list (map size zs) < n" for xs ys zs
    using that
  proof (induction xs arbitrary: ys zs)
    case (Cons x xs)
    show ?case
    proof (cases ys)
      case Nil
      then show ?thesis using Cons.prems(2) by simp
    next
      case ys: (Cons y ys')
      show ?thesis
      proof (cases zs)
        case zs: (Cons z zs')
        consider "x = y" "y = z" | "x = y" "y \<noteq> z" | "x \<noteq> y" "y = z" | "x \<noteq> y" "y \<noteq> z" by blast
        then show ?thesis
        proof cases
          case 1
          then show ?thesis using Cons.IH [of ys' zs'] Cons.prems ys zs by simp
        next
          case 2
          then show ?thesis using Cons.prems(2) ys zs by simp
        next
          case 3
          then show ?thesis using Cons.prems(1) ys zs by simp
        next
          case 4
          then have gt: "kbo_gt ?P x y" "kbo_gt ?P y z" using Cons.prems(1,2) ys zs by simp_all
          then have "kbo_gt ?P x z" using Suc.IH [of x y z] Cons.prems(3,4) ys zs by simp
          moreover have "x \<noteq> z" using \<open>kbo_gt ?P x z\<close> gt_irrefl [OF assms, of z] Cons.prems(3) zs by auto
          ultimately show ?thesis using zs by simp
        qed
      qed simp
    qed
  qed simp
  have s: "\<not> TermIsFreeVar s" and t: "\<not> TermIsFreeVar t" using Suc.prems(5,6) kbo_gt_var(2) by blast+
  show ?case
  proof (cases "TermIsFreeVar u")
    case True
    then have "u \<in> term_vars t" using Suc.prems(6) kbo_gt_var(1) by blast
    then have "u \<in> term_vars s" using gt_vars [OF Suc.prems(5)] by (metis mset_subset_eqD set_var_mset)
    then show ?thesis using kbo_gt_var(1) [OF True] s by simp
  next
    case u: False
    note c = kbo_gt_cases [OF s t, of ?P] kbo_gt_cases [OF t u, of ?P] kbo_gt_cases [OF s u, of ?P]
    have vars: "var_mset u \<subseteq># var_mset s" using gt_vars [OF Suc.prems(5)] gt_vars [OF Suc.prems(6)] by (rule subset_mset.order_trans [rotated])
    have sy: "f_code s \<in> symbols" "f_code t \<in> symbols" "f_code u \<in> symbols"
      using okt_fun Suc.prems(2-4) s t u by blast+
    have args: "kbo_lex ?P (t_args s) (t_args u)" if "kbo_lex ?P (t_args s) (t_args t)" "kbo_lex ?P (t_args t) (t_args u)"
    proof (rule lex [OF that])
      show "\<forall>x \<in> set (t_args s) \<union> set (t_args t) \<union> set (t_args u). okt oc x" using okt_arg Suc.prems(2-4) by blast
      have "sum_list (map size (t_args x)) < size x" for x :: Term_p by (cases x) (simp add: size_list_conv_sum_list)
      from this [of s] this [of t] this [of u]
      show "sum_list (map size (t_args s)) + sum_list (map size (t_args t)) + sum_list (map size (t_args u)) < n"
        using Suc.prems(1) by linarith
    qed
    show ?thesis
      using Suc.prems(5,6) c vars args prec_trans [OF assms sy] by auto
  qed
qed simp

lemma gt_trans:
  "valid oc \<Longrightarrow> okt oc s \<Longrightarrow> okt oc t \<Longrightarrow> okt oc u \<Longrightarrow> kbo_gt (par oc) s t \<Longrightarrow> kbo_gt (par oc) t u \<Longrightarrow>
   kbo_gt (par oc) s u"
  using gt_trans_lemma lessI by blast

section \<open>Subterms, contexts and substitutions\<close>

lemma var_mset_arg: "a \<in> set (t_args t) \<Longrightarrow> \<not> TermIsFreeVar t \<Longrightarrow> var_mset a \<subseteq># var_mset t"
proof -
  have "a \<in> set as \<Longrightarrow> var_mset a \<subseteq># sum_list (map var_mset as)" for as
    by (induction as) (auto intro: subset_mset.order_trans)
  then show "a \<in> set (t_args t) \<Longrightarrow> \<not> TermIsFreeVar t \<Longrightarrow> var_mset a \<subseteq># var_mset t" by (cases t) simp
qed

lemma sum_weight_arg:
  assumes "valid oc" and "\<forall>a \<in> set as. okt oc a" and "a \<in> set as"
  shows "kbo_weight (par oc) a \<le> sum_list (map (kbo_weight (par oc)) as) \<and>
    (kbo_weight (par oc) a = sum_list (map (kbo_weight (par oc)) as) \<longrightarrow> as = [a])"
proof -
  obtain xs ys where as: "as = xs @ a # ys" using assms(3) by (auto dest: split_list)
  have pos: "0 \<le> sum_list (map (kbo_weight (par oc)) zs) \<and> (zs \<noteq> [] \<longrightarrow> 0 < sum_list (map (kbo_weight (par oc)) zs))"
    if "\<forall>a \<in> set zs. okt oc a" for zs
    using that
  proof (induction zs)
    case (Cons z zs)
    then show ?case using weight_ge_var [OF assms(1), of z] var_pos [OF assms(1)] by auto
  qed simp
  show ?thesis using pos [of xs] pos [of ys] assms(2) as by auto
qed

lemma gt_arg: "valid oc \<Longrightarrow> okt oc t \<Longrightarrow> a \<in> set (t_args t) \<Longrightarrow> kbo_gt (par oc) t a"
proof (induction "size a" arbitrary: t a rule: less_induct)
  case less
  let ?P = "par oc"
  have t: "\<not> TermIsFreeVar t" using less.prems(2,3) by (cases t) (auto simp: okt_def)
  have a: "okt oc a" using okt_arg less.prems(2,3) .
  have vars: "var_mset a \<subseteq># var_mset t" using var_mset_arg less.prems(3) t .
  show ?case
  proof (cases "TermIsFreeVar a")
    case True
    then have "a \<in> term_vars t" using vars var_mset_free [OF True] by (metis mset_subset_eqD set_mset_add_mset_insert insertI1 set_var_mset)
    then show ?thesis using kbo_gt_var(1) [OF True] t by simp
  next
    case nv: False
    have sy: "f_code t \<in> symbols" "f_code a \<in> symbols" "length (t_args t) = sg_arity (sig oc) (f_code t)"
      using okt_fun [OF less.prems(2) t] okt_fun [OF a nv] by (simp_all add: arity_def)
    have "\<forall>a \<in> set (t_args t). okt oc a" using okt_arg less.prems(2) by blast
    note w = sum_weight_arg [OF less.prems(1) this less.prems(3)]
    have wt: "kbo_weight ?P t = kp_weight ?P (f_code t) + sum_list (map (kbo_weight ?P) (t_args t))"
      using kbo_weight_cell [OF t] .
    show ?thesis
    proof (cases "kbo_weight ?P a < kbo_weight ?P t")
      case True
      then show ?thesis using kbo_gt_cases [OF t nv, of ?P] vars by simp
    next
      case False
      then have "kp_weight ?P (f_code t) = 0" "kbo_weight ?P a = kbo_weight ?P t"
        "kbo_weight ?P a = sum_list (map (kbo_weight ?P) (t_args t))"
        using w wt weight_nonneg [OF less.prems(1) sy(1)] by linarith+
      then have eq: "kp_weight ?P (f_code t) = 0" "t_args t = [a]" "kbo_weight ?P a = kbo_weight ?P t"
        using w by simp_all
      show ?thesis
      proof (cases "f_code a = f_code t")
        case True
        have "arity a = 1" using okt_fun [OF a nv] okt_fun [OF less.prems(2) t] True eq(2) by (simp add: arity_def)
        then obtain a' where a': "t_args a = [a']" by (auto simp: arity_def length_Suc_conv)
        have "size a' < size a" using a' by (cases a) simp
        then have "kbo_gt ?P a a'" using less.hyps [of a' a] a a' less.prems(1) by simp
        moreover have "a \<noteq> a'" using \<open>size a' < size a\<close> by auto
        ultimately show ?thesis using kbo_gt_cases [OF t nv, of ?P] vars eq(2,3) True a' by simp
      next
        case False
        have "kp_prec ?P (f_code t) (f_code a) = to_greater"
          using weight_unary [OF less.prems(1) sy(1,2) _ eq(1) False] sy(3) eq(2) by simp
        then show ?thesis using kbo_gt_cases [OF t nv, of ?P] vars eq(3) by simp
      qed
    qed
  qed
qed

lemma okt_inst:
  "okt oc t \<Longrightarrow> (\<And>v. v \<in> term_vars t \<Longrightarrow> okt oc (\<theta> v)) \<Longrightarrow> okt oc (inst \<theta> t)"
proof (induction t)
  case (TermCell f p ty as)
  show ?case
  proof (cases "f < 0")
    case False
    have a: "okt oc (inst \<theta> a)" if "a \<in> set as" for a
      using TermCell.IH [OF that] okt_arg [OF TermCell.prems(1)] TermCell.prems(2) that False by auto
    show ?thesis using TermCell.prems(1) False a by (auto simp: okt_def)
  qed (use TermCell.prems in simp)
qed

lemma gt_inst_var:
  assumes "valid oc"
  shows "okt oc s \<Longrightarrow> (\<And>v. v \<in> term_vars s \<Longrightarrow> okt oc (\<theta> v)) \<Longrightarrow> \<not> TermIsFreeVar s \<Longrightarrow> x \<in> term_vars s \<Longrightarrow>
    kbo_gt (par oc) (inst \<theta> s) (\<theta> x)"
proof (induction s)
  case (TermCell f p ty as)
  then obtain a where a: "a \<in> set as" "x \<in> term_vars a" by (auto split: if_splits)
  have nv: "\<not> f < 0" using TermCell.prems(3) by simp
  have oka: "okt oc a" using okt_arg [OF TermCell.prems(1)] a by simp
  have okv: "okt oc (\<theta> v)" if "v \<in> term_vars a" for v using TermCell.prems(2) a(1) nv that by auto
  have okf: "okt oc (inst \<theta> (TermCell f p ty as))" using okt_inst TermCell.prems(1,2) by blast
  have arg: "kbo_gt (par oc) (inst \<theta> (TermCell f p ty as)) (inst \<theta> a)"
    using gt_arg [OF assms okf] nv a(1) by simp
  show ?case
  proof (cases "TermIsFreeVar a")
    case True
    then show ?thesis using arg a(2) by (simp add: wf_term_var_vars)
  next
    case False
    have "kbo_gt (par oc) (inst \<theta> a) (\<theta> x)" using TermCell.IH [OF a(1) oka okv False a(2)] .
    then show ?thesis using gt_trans [OF assms okf okt_inst [OF oka okv] okv [OF a(2)] arg] by simp
  qed
qed

lemma kbo_weight_inst:
  "kbo_weight P (inst \<theta> t) = kbo_weight P t + sum_mset (image_mset (\<lambda>x. kbo_weight P (\<theta> x) - kp_var P) (var_mset t))"
proof (induction t)
  case (TermCell f p ty as)
  have "(\<And>a. a \<in> set xs \<Longrightarrow> a \<in> set as) \<Longrightarrow> sum_list (map (kbo_weight P) (map (inst \<theta>) xs)) = sum_list (map (kbo_weight P) xs) +
      sum_mset (image_mset (\<lambda>x. kbo_weight P (\<theta> x) - kp_var P) (sum_list (map var_mset xs)))" for xs
    by (induction xs) (simp_all add: TermCell)
  from this [of as] show ?case by simp
qed

lemma var_mset_inst: "var_mset (inst \<theta> t) = sum_mset (image_mset (\<lambda>x. var_mset (\<theta> x)) (var_mset t))"
proof (induction t)
  case (TermCell f p ty as)
  have "(\<And>a. a \<in> set xs \<Longrightarrow> a \<in> set as) \<Longrightarrow> sum_list (map var_mset (map (inst \<theta>) xs)) =
      sum_mset (image_mset (\<lambda>x. var_mset (\<theta> x)) (sum_list (map var_mset xs)))" for xs
    by (induction xs) (simp_all add: TermCell)
  from this [of as] show ?case by simp
qed

lemma inst_vars_mono: "var_mset t \<subseteq># var_mset s \<Longrightarrow> var_mset (inst \<theta> t) \<subseteq># var_mset (inst \<theta> s)"
  unfolding var_mset_inst by (metis image_mset_union mset_subset_eq_add_left subset_mset.le_iff_add sum_mset.union)

lemma inst_weight_mono:
  assumes "valid oc" and "var_mset t \<subseteq># var_mset s" and "\<And>v. v \<in> term_vars s \<Longrightarrow> okt oc (\<theta> v)"
  shows "kbo_weight (par oc) s - kbo_weight (par oc) t \<le> kbo_weight (par oc) (inst \<theta> s) - kbo_weight (par oc) (inst \<theta> t)"
proof -
  obtain M where M: "var_mset s = var_mset t + M" using assms(2) by (auto simp: subset_mset.le_iff_add)
  have "0 \<le> kbo_weight (par oc) (\<theta> v) - kp_var (par oc)" if "v \<in># M" for v
  proof -
    have "v \<in># var_mset s" using M that by simp
    then have "okt oc (\<theta> v)" using assms(3) by simp
    then show ?thesis using weight_ge_var [OF assms(1)] by simp
  qed
  then have "0 \<le> sum_mset (image_mset (\<lambda>x. kbo_weight (par oc) (\<theta> x) - kp_var (par oc)) M)"
    by (induction M) auto
  then show ?thesis by (simp add: kbo_weight_inst M)
qed

lemma gt_inst_lemma:
  assumes "valid oc"
  shows "\<And>s t. size s + size t < n \<Longrightarrow> okt oc s \<Longrightarrow> okt oc t \<Longrightarrow> (\<And>v. v \<in> term_vars s \<Longrightarrow> okt oc (\<theta> v)) \<Longrightarrow>
    kbo_gt (par oc) s t \<Longrightarrow> kbo_gt (par oc) (inst \<theta> s) (inst \<theta> t)"
proof (induction n)
  case (Suc n)
  let ?P = "par oc"
  have lex: "kbo_lex ?P (map (inst \<theta>) xs) (map (inst \<theta>) ys)"
    if "kbo_lex ?P xs ys" "\<forall>x \<in> set xs \<union> set ys. okt oc x" "\<forall>x \<in> set xs. \<forall>v \<in> term_vars x. okt oc (\<theta> v)"
      "sum_list (map size xs) + sum_list (map size ys) < n" for xs ys
    using that
  proof (induction xs arbitrary: ys)
    case (Cons x xs)
    show ?case
    proof (cases ys)
      case ys: (Cons y ys')
      show ?thesis
      proof (cases "x = y")
        case True
        then show ?thesis using Cons ys by simp
      next
        case False
        then have gt: "kbo_gt ?P (inst \<theta> x) (inst \<theta> y)"
          using Suc.IH [of x y] Cons.prems ys by auto
        have "okt oc (inst \<theta> x)" using okt_inst [of oc x \<theta>] Cons.prems(2,3) by simp
        then have "inst \<theta> x \<noteq> inst \<theta> y" using gt gt_irrefl [OF assms] by metis
        then show ?thesis using gt ys by simp
      qed
    qed simp
  qed simp
  have s: "\<not> TermIsFreeVar s" using Suc.prems(5) kbo_gt_var(2) by blast
  show ?case
  proof (cases "TermIsFreeVar t")
    case True
    have "t \<in> term_vars s" using Suc.prems(5) kbo_gt_var(1) [OF True] by simp
    from gt_inst_var [of oc s \<theta>, OF assms Suc.prems(2) _ s this] Suc.prems(4) True
    show ?thesis by simp
  next
    case t: False
    have inst_cell: "\<not> TermIsFreeVar (inst \<theta> u) \<and> f_code (inst \<theta> u) = f_code u \<and> t_args (inst \<theta> u) = map (inst \<theta>) (t_args u)"
      if "\<not> TermIsFreeVar u" for u using that by (cases u) simp
    note c = kbo_gt_cases [OF s t, of ?P]
    note vars = gt_vars [OF Suc.prems(5)]
    have w: "kbo_weight ?P s - kbo_weight ?P t \<le> kbo_weight ?P (inst \<theta> s) - kbo_weight ?P (inst \<theta> t)"
      using inst_weight_mono [OF assms vars Suc.prems(4)] .
    have args: "kbo_lex ?P (map (inst \<theta>) (t_args s)) (map (inst \<theta>) (t_args t))" if "kbo_lex ?P (t_args s) (t_args t)"
    proof (rule lex [OF that])
      show "\<forall>x \<in> set (t_args s) \<union> set (t_args t). okt oc x" using okt_arg Suc.prems(2,3) by blast
      show "\<forall>x \<in> set (t_args s). \<forall>v \<in> term_vars x. okt oc (\<theta> v)"
        using Suc.prems(4) s by (cases s) auto
      have "sum_list (map size (t_args x)) < size x" for x :: Term_p by (cases x) (simp add: size_list_conv_sum_list)
      from this [of s] this [of t]
      show "sum_list (map size (t_args s)) + sum_list (map size (t_args t)) < n" using Suc.prems(1) by linarith
    qed
    have "kbo_weight ?P (inst \<theta> t) < kbo_weight ?P (inst \<theta> s) \<or> kbo_weight ?P (inst \<theta> t) = kbo_weight ?P (inst \<theta> s) \<and>
        kbo_weight ?P t = kbo_weight ?P s"
      using w gt_weight [OF assms Suc.prems(2,3,5)] by linarith
    then show ?thesis
      using Suc.prems(5) c args inst_vars_mono [OF vars, of \<theta>] inst_cell [OF s] inst_cell [OF t]
        kbo_gt_cases [of "inst \<theta> s" "inst \<theta> t" ?P] by auto
  qed
qed simp

lemma gt_inst:
  "valid oc \<Longrightarrow> okt oc s \<Longrightarrow> okt oc t \<Longrightarrow> (\<And>v. v \<in> term_vars s \<Longrightarrow> okt oc (\<theta> v)) \<Longrightarrow>
   kbo_gt (par oc) s t \<Longrightarrow> kbo_gt (par oc) (inst \<theta> s) (inst \<theta> t)"
  using gt_inst_lemma lessI by blast

lemma gt_context:
  assumes "valid oc" and "okt oc (TermCell f p ty (xs @ s # ys))" and "okt oc (TermCell f p ty (xs @ t # ys))"
    and "\<not> f < 0" and "kbo_gt (par oc) s t"
  shows "kbo_gt (par oc) (TermCell f p ty (xs @ s # ys)) (TermCell f p ty (xs @ t # ys))"
proof -
  have ok: "okt oc s" "okt oc t" using okt_arg assms(2,3) by fastforce+
  have "s \<noteq> t" using gt_irrefl [OF assms(1) ok(1)] assms(5) by auto
  then have "kbo_lex (par oc) (xs @ s # ys) (xs @ t # ys)" using assms(5) by (induction xs) auto
  moreover have "kbo_weight (par oc) t \<le> kbo_weight (par oc) s" using gt_weight [OF assms(1) ok assms(5)] .
  moreover have "var_mset t \<subseteq># var_mset s" using gt_vars [OF assms(5)] .
  ultimately show ?thesis using assms(4) by auto
qed

lemma gt_total_lemma:
  assumes "valid oc" and "\<And>f g. f \<in> symbols \<Longrightarrow> g \<in> symbols \<Longrightarrow> f \<noteq> g \<Longrightarrow>
      kp_prec (par oc) f g = to_greater \<or> kp_prec (par oc) g f = to_greater"
  shows "okt oc s \<Longrightarrow> okt oc t \<Longrightarrow> term_vars s = {} \<Longrightarrow> term_vars t = {} \<Longrightarrow>
    s = t \<or> kbo_gt (par oc) s t \<or> kbo_gt (par oc) t s"
proof (induction s arbitrary: t)
  case (TermCell f p ty ss)
  let ?P = "par oc" and ?s = "TermCell f p ty ss"
  obtain g q ty' ts where t: "t = TermCell g q ty' ts" by (cases t)
  have nv: "\<not> f < 0" "\<not> g < 0" using TermCell.prems(3,4) t by (auto split: if_splits)
  have sy: "f \<in> symbols" "g \<in> symbols" using TermCell.prems(1,2) nv t by (auto simp: okt_def)
  have ground: "var_mset ?s = {#}" "var_mset t = {#}"
    using TermCell.prems(3,4) by (metis set_mset_eq_empty_iff set_var_mset)+
  have lex: "xs = ys \<or> kbo_lex ?P xs ys \<or> kbo_lex ?P ys xs"
    if "set xs \<subseteq> set ss" "\<forall>y \<in> set ys. okt oc y \<and> term_vars y = {}" for xs ys
    using that
  proof (induction xs arbitrary: ys)
    case Nil
    then show ?case by (cases ys) auto
  next
    case (Cons x xs)
    show ?case
    proof (cases ys)
      case ys: (Cons y ys')
      have "okt oc x" "term_vars x = {}"
        using Cons.prems(1) okt_arg [OF TermCell.prems(1)] TermCell.prems(3) nv by auto
      then have "x = y \<or> kbo_gt ?P x y \<or> kbo_gt ?P y x"
        using TermCell.IH [of x y] Cons.prems ys by auto
      then show ?thesis using Cons.IH [of ys'] Cons.prems ys by auto
    qed simp
  qed
  have sub: "\<forall>y \<in> set ts. okt oc y \<and> term_vars y = {}"
    using okt_arg [OF TermCell.prems(2)] TermCell.prems(4) nv t by auto
  show ?case
  proof (cases "f = g")
    case True
    then have "p = q" "ty = ty'" using TermCell.prems(1,2) nv t by (auto simp: okt_def)
    then show ?thesis
      using lex [OF subset_refl sub] True ground t nv by (auto simp: neq_iff simp del: var_mset.simps)
  next
    case False
    then show ?thesis using assms(2) [OF sy] ground t nv by (auto simp: neq_iff simp del: var_mset.simps)
  qed
qed

section \<open>Well-foundedness\<close>

definition gt_rel :: "'o \<Rightarrow> (Term_p \<times> Term_p) set" where
  "gt_rel oc = {(t, s). okt oc s \<and> okt oc t \<and> kbo_gt (par oc) s t}"

lemma finite_symbols: "finite symbols"
  by (rule finite_subset [of _ "{0..2 ^ 62}"]) (auto simp: symbols_def)

lemma wf_prec:
  assumes "valid oc"
  shows "wf {(g, f). f \<in> symbols \<and> g \<in> symbols \<and> kp_prec (par oc) f g = to_greater}"
proof (rule finite_acyclic_wf)
  let ?R = "{(g, f). f \<in> symbols \<and> g \<in> symbols \<and> kp_prec (par oc) f g = to_greater}"
  show "finite ?R" by (rule finite_subset [of _ "symbols \<times> symbols"]) (auto simp: finite_symbols)
  have "trans ?R" using prec_trans [OF assms] by (auto simp: trans_def)
  moreover have "(f, f) \<notin> ?R" for f using prec_irrefl [OF assms] by auto
  ultimately show "acyclic ?R" by (simp add: acyclic_def)
qed

text \<open>The lexicographic comparison of the arguments stays inside the accessible terms.\<close>

definition acc_rel :: "'o \<Rightarrow> (Term_p \<times> Term_p) set" where
  "acc_rel oc = {(t, s). (t, s) \<in> gt_rel oc \<and> s \<in> Wellfounded.acc (gt_rel oc)}"

lemma wf_acc_rel: "wf (acc_rel oc)"
proof (rule wfUNIVI)
  fix P x
  assume step: "\<forall>x. (\<forall>y. (y, x) \<in> acc_rel oc \<longrightarrow> P y) \<longrightarrow> P x"
  have "P x" if "x \<in> Wellfounded.acc (gt_rel oc)" for x
    using that
  proof (induction rule: acc.induct)
    case (accI x)
    then show ?case using step by (auto simp: acc_rel_def)
  qed
  then show "P x" using step by (cases "x \<in> Wellfounded.acc (gt_rel oc)") (auto simp: acc_rel_def)
qed

lemma lex_acc:
  assumes "kbo_lex (par oc) ss ts" and "length ss = length ts" and "\<forall>s \<in> set ss. okt oc s \<and> s \<in> Wellfounded.acc (gt_rel oc)"
    and "\<forall>t \<in> set ts. okt oc t"
  shows "(ts, ss) \<in> lex (acc_rel oc)"
  using assms
proof (induction ss arbitrary: ts)
  case (Cons s ss)
  then obtain t ts' where ts: "ts = t # ts'" by (cases ts) auto
  then show ?case using Cons by (auto simp: acc_rel_def gt_rel_def split: if_splits)
qed simp

text \<open>The measure of a function term: its weight, its head and its arguments.\<close>

definition fun_rel :: "'o \<Rightarrow> ((nat \<times> int \<times> Term_p list) \<times> (nat \<times> int \<times> Term_p list)) set" where
  "fun_rel oc = less_than <*lex*>
     ({(g, f). f \<in> symbols \<and> g \<in> symbols \<and> kp_prec (par oc) f g = to_greater} <*lex*> lex (acc_rel oc))"

lemma wf_fun_rel: "valid oc \<Longrightarrow> wf (fun_rel oc)"
  unfolding fun_rel_def by (intro wf_lex_prod wf_less_than wf_prec wf_lex wf_acc_rel)

definition rank :: "'o \<Rightarrow> Term_p \<Rightarrow> nat \<times> int \<times> Term_p list" where
  "rank oc t = (nat (kbo_weight (par oc) t), f_code t, t_args t)"

lemma gt_rank:
  assumes "valid oc" and "okt oc s" and "okt oc t" and "kbo_gt (par oc) s t" and "\<not> TermIsFreeVar t"
    and "\<forall>a \<in> set (t_args s). a \<in> Wellfounded.acc (gt_rel oc)"
  shows "(rank oc t, rank oc s) \<in> fun_rel oc"
proof -
  have s: "\<not> TermIsFreeVar s" using kbo_gt_var(2) assms(4) by blast
  note c = kbo_gt_cases [OF s assms(5), of "par oc"]
  have sy: "f_code s \<in> symbols" "f_code t \<in> symbols" using okt_fun assms(2,3,5) s by blast+
  have "0 \<le> kbo_weight (par oc) t" using weight_ge_var [OF assms(1,3)] var_pos [OF assms(1)] by simp
  moreover have "length (t_args s) = length (t_args t)" if "f_code s = f_code t"
    using okt_fun [OF assms(2) s] okt_fun [OF assms(3,5)] that by (simp add: arity_def)
  moreover have "\<forall>a \<in> set (t_args s). okt oc a" "\<forall>a \<in> set (t_args t). okt oc a"
    using okt_arg assms(2,3) by blast+
  ultimately show ?thesis
    using assms(4,6) c sy lex_acc [of oc "t_args s" "t_args t"] by (auto simp: rank_def fun_rel_def)
qed

lemma acc_var: "TermIsFreeVar t \<Longrightarrow> t \<in> Wellfounded.acc (gt_rel oc)"
  by (rule accI) (auto simp: gt_rel_def kbo_gt_var(2))

lemma acc_fun:
  assumes "valid oc"
  shows "okt oc s \<Longrightarrow> \<forall>a \<in> set (t_args s). a \<in> Wellfounded.acc (gt_rel oc) \<Longrightarrow> s \<in> Wellfounded.acc (gt_rel oc)"
proof (induction "rank oc s" arbitrary: s rule: wf_induct_rule [OF wf_fun_rel [OF assms]])
  case 1
  have below: "t \<in> Wellfounded.acc (gt_rel oc)" if "okt oc t" "kbo_gt (par oc) s t" for t
    using that
  proof (induction t)
    case (TermCell g q ty ts)
    let ?t = "TermCell g q ty ts"
    show ?case
    proof (cases "g < 0")
      case False
      have "a \<in> Wellfounded.acc (gt_rel oc)" if a: "a \<in> set ts" for a
      proof -
        have "okt oc a" "kbo_gt (par oc) ?t a" using okt_arg [OF TermCell.prems(1)] gt_arg [OF assms TermCell.prems(1)] a by simp_all
        then show ?thesis
          using TermCell.IH [OF a] gt_trans [OF assms 1(2) TermCell.prems(1) _ TermCell.prems(2)] by blast
      qed
      moreover have "(rank oc ?t, rank oc s) \<in> fun_rel oc"
        using gt_rank [OF assms 1(2) TermCell.prems _ 1(3)] False by simp
      ultimately show ?thesis using 1(1) TermCell.prems(1) by simp
    qed (simp add: acc_var)
  qed
  show ?case by (rule accI) (use below in \<open>auto simp: gt_rel_def\<close>)
qed

lemma wf_gt:
  assumes "valid oc"
  shows "wf (gt_rel oc)"
proof -
  have "okt oc t \<Longrightarrow> t \<in> Wellfounded.acc (gt_rel oc)" for t
  proof (induction t)
    case (TermCell f p ty as)
    then show ?case using acc_fun [OF assms TermCell.prems] okt_arg [OF TermCell.prems] by simp
  qed
  moreover have "t \<in> Wellfounded.acc (gt_rel oc)" if "\<not> okt oc t" for t
    by (rule accI) (use that in \<open>simp add: gt_rel_def\<close>)
  ultimately show ?thesis by (intro acc_wfI) blast
qed

end

section \<open>Admissible control blocks\<close>

definition kbo_admissible :: "OCB \<Rightarrow> bool" where
  "kbo_admissible ocb \<longleftrightarrow> kbo_ocb ocb \<and> 0 < var_weight ocb \<and>
     (\<forall>f \<in> symbols. \<forall>w. OCBFunWeight ocb f = Some w \<longrightarrow> 0 \<le> w \<and>
        (sg_arity (ocb_sig ocb) f = 0 \<longrightarrow> var_weight ocb \<le> w) \<and>
        (sg_arity (ocb_sig ocb) f = 1 \<longrightarrow> w = 0 \<longrightarrow>
           (\<forall>g \<in> symbols. g \<noteq> f \<longrightarrow> OCBFunCompare ocb f g = Some to_greater)))"

lemma kbo_admissible_ocb: "kbo_admissible ocb \<Longrightarrow> kbo_ocb ocb"
  by (simp add: kbo_admissible_def)

lemma admissible_weight:
  assumes "kbo_admissible ocb" and "f \<in> symbols"
  shows "OCBFunWeight ocb f = Some (kp_weight (ocb_par ocb) f)"
  using assms by (auto simp: kbo_admissible_def kbo_ocb_def ocb_par_def)

interpretation kbo: kbo_order ocb_par ocb_sig kbo_admissible
proof unfold_locales
  fix oc f g h
  assume ok: "kbo_admissible oc"
  note ocb = kbo_admissible_ocb [OF ok]
  show "0 < kp_var (ocb_par oc)" using ok by (simp add: kbo_admissible_def ocb_par_def)
  assume f: "f \<in> symbols"
  show "kp_prec (ocb_par oc) f f \<noteq> to_greater" using ocb_par_prec(3) [OF ocb f f] by auto
  note wf = admissible_weight [OF ok f]
  show "0 \<le> kp_weight (ocb_par oc) f" using ok f wf by (simp add: kbo_admissible_def)
  show "kp_var (ocb_par oc) \<le> kp_weight (ocb_par oc) f" if "sg_arity (ocb_sig oc) f = 0"
    using ok f wf that by (simp add: kbo_admissible_def) (simp add: ocb_par_def)
  assume g: "g \<in> symbols"
  show "kp_prec (ocb_par oc) f g = to_greater"
    if "sg_arity (ocb_sig oc) f = 1" "kp_weight (ocb_par oc) f = 0" "g \<noteq> f"
  proof -
    have "OCBFunCompare oc f g = Some to_greater" using ok f g wf that by (simp add: kbo_admissible_def)
    then show ?thesis using ocb_par_prec(1) [OF ocb f g] by simp
  qed
  assume h: "h \<in> symbols" and gt: "kp_prec (ocb_par oc) f g = to_greater" "kp_prec (ocb_par oc) g h = to_greater"
  have "ocb_prec_ok oc" using ocb by (simp add: kbo_ocb_def)
  from ocb_prec.cmp_trans [OF this f g h] show "kp_prec (ocb_par oc) f h = to_greater"
    using ocb_par_prec(1) [OF ocb f g] ocb_par_prec(1) [OF ocb g h] ocb_par_prec(1) [OF ocb f h] gt by simp
qed

lemma kbo_okt: "kbo.okt ocb t \<longleftrightarrow> kbo_term ocb t"
  by (simp add: kbo.okt_def kbo_term_def)

lemma copies_okt: "copies ocb b t d u \<Longrightarrow> kbo.okt ocb u"
  using copies_wf copies_syms by (simp add: kbo.okt_def)

lemma KBOGreater_gt:
  assumes "kbo_ocb ocb" and "copies ocb b s ds us" and "copies ocb b t dt ut"
  shows "KBOGreater ocb b s t ds dt = Some (kbo_gt (ocb_par ocb) us ut)"
proof -
  have "kbo_cmp (ocb_par ocb) us ut = to_greater \<longleftrightarrow> kbo_gt (ocb_par ocb) us ut"
    using kbo_asym [OF assms(1), of us us] copies_syms [OF assms(2)] by (auto simp: kbo_cmp_def)
  then show ?thesis using kbogtrnew_ok [OF assms] by (auto simp: KBOGreater_def not_lesser_def)
qed

lemma KBOCompare_greater:
  assumes "kbo_ocb ocb" and "copies ocb b s ds us" and "copies ocb b t dt ut"
  shows "KBOCompare ocb b s t ds dt = Some to_greater \<longleftrightarrow> kbo_gt (ocb_par ocb) us ut"
  using KBOCompare_ok [OF assms] kbo_asym [OF assms(1), of us us] copies_syms [OF assms(2)]
  by (auto simp: kbo_cmp_def)

text \<open>The symbols of all terms that the bindings can put in.\<close>

definition bound_syms_ok :: "bindings \<Rightarrow> bool" where
  "bound_syms_ok b \<longleftrightarrow> (\<forall>v t. b v = Some t \<longrightarrow> term_syms t \<subseteq> symbols)"

lemma full_syms: "full b t u \<Longrightarrow> bound_syms_ok b \<Longrightarrow> term_syms t \<subseteq> symbols \<Longrightarrow> term_syms u \<subseteq> symbols"
proof (induction rule: full.induct)
  case (full_bound v t u)
  then show ?case by (auto simp: bound_syms_ok_def)
next
  case (full_fun f as us p ty)
  have "term_syms u \<subseteq> symbols" if u: "u \<in> set us" for u
  proof -
    obtain i where i: "i < length us" "u = us ! i" using u by (auto simp: in_set_conv_nth)
    then have mem: "i < length as" "as ! i \<in> set as" using list_all2_lengthD [OF full_fun.IH] by simp_all
    have "(\<Union>a \<in> set as. term_syms a) \<subseteq> symbols" using full_fun.prems(2) full_fun.hyps by simp
    then have "term_syms (as ! i) \<subseteq> symbols" using mem(2) by blast
    then show ?thesis using list_all2_nthD [OF full_fun.IH mem(1)] i full_fun.prems(1) by simp
  qed
  then show ?case using full_fun.prems full_fun.hyps by auto
qed simp

lemma OCBAlloc_admissible:
  assumes "ty \<in> {KBO, KBO6}" and "0 \<le> sg_f_count sig"
  shows "\<exists>ocb. OCBAlloc ty False sig = Some ocb \<and> kbo_admissible ocb \<and> ocb_sig ocb = sig"
  using OCBAlloc_kbo [OF assms] by (auto simp: kbo_admissible_def)

section \<open>A block with a total precedence\<close>

definition sample_ocb :: OCB where
  "sample_ocb = \<lparr>ocb_type = KBO6, sig_size = 22, ocb_sig = sample_sig,
     min_constants = \<lparr>pda_integer = True, pda_size = 1, pda_grow = 0, pda_array = [Some 0]\<rparr>,
     ocb_weights = Some (replicate 23 (Some 1)), var_weight = 1,
     prec_weights = Some (map (\<lambda>i. Some (int i)) [0..<23]), precedence = None,
     lit_cmp = LCNormal, rewrite_strong_rhs_inst = False, statestack = PStackAlloc,
     wb = 0, pos_bal = 0, neg_bal = 0, max_var = 0, vb_size = 64, vb = replicate 64 (Some 0)\<rparr>"

lemma sample_ocb_sig [simp]: "ocb_sig sample_ocb = sample_sig"
  by (simp add: sample_ocb_def)

lemma sample_ocb_weights: "f \<in> symbols \<Longrightarrow> OCBFunWeight sample_ocb f = Some 1"
  by (simp add: OCBFunWeight_def sample_ocb_def mem_at_def mem_get_def symbols_def OCB_FUN_DEFAULT_WEIGHT_def nat_less_iff)

lemma sample_ocb_prec: "prec_weights_ok sample_ocb"
proof -
  have "map (\<lambda>i. Some (int i)) [0..<23] ! nat f = Some f" if "f \<in> {2..22}" for f
    using that by (subst nth_map) (simp_all add: nat_less_iff)
  then show ?thesis
    unfolding prec_weights_ok_def by (intro exI [of _ "map (\<lambda>i. Some (int i)) [0..<23]"]) (simp add: sample_ocb_def)
qed

lemma sample_ocb_admissible: "kbo_admissible sample_ocb"
  using sample_ocb_weights sample_ocb_prec
  by (simp add: kbo_admissible_def kbo_ocb_def ocb_prec_ok_def) (simp add: sample_ocb_def)

text \<open>A precedence given by weights is total.\<close>

definition prec_total :: "OCB \<Rightarrow> bool" where
  "prec_total ocb \<longleftrightarrow> (\<forall>f \<in> symbols. \<forall>g \<in> symbols. OCBFunCompare ocb f g \<noteq> Some to_uncomparable)"

lemma prec_weights_total:
  assumes "prec_weights_ok ocb"
  shows "prec_total ocb"
proof -
  obtain v where v: "\<And>f g. f \<in> symbols - {1} \<Longrightarrow> g \<in> symbols - {1} \<Longrightarrow> base_cmp ocb f g = Some (Q_TO_PART (v f - v g))"
    using base_weights [OF assms] by blast
  show ?thesis
    unfolding prec_total_def using v by (auto simp: OCBFunCompare_eq)
qed

section \<open>Properties\<close>

text \<open>With admissible weights the ordering \<open>KBOGreater\<close> decides is well-founded: there is no
  infinite chain of terms each greater than the next, so rewriting with equations oriented by it
  ends. In particular no term is greater than itself.\<close>

theorem KBOGreater_wellfounded:
  assumes "kbo_admissible ocb" and "binds_ok (ocb_sig ocb) b"
  shows "wf {(t, s). kbo_term ocb s \<and> kbo_term ocb t \<and>
           KBOGreater ocb b s t DEREF_NEVER DEREF_NEVER = Some True}"
proof (rule wf_subset [OF kbo.wf_gt [OF assms(1)]])
  show "{(t, s). kbo_term ocb s \<and> kbo_term ocb t \<and> KBOGreater ocb b s t DEREF_NEVER DEREF_NEVER = Some True}
      \<subseteq> kbo.gt_rel ocb"
    using KBOGreater_gt [OF kbo_admissible_ocb [OF assms(1)] copies_never [OF assms(2)] copies_never [OF assms(2)]]
    by (auto simp: kbo.gt_rel_def kbo_okt)
qed

theorem KBOGreater_wellfounded_witness:
  "\<exists>ocb. OCBAlloc KBO False sample_sig = Some ocb \<and>
     wf {(t, s). kbo_term ocb s \<and> kbo_term ocb t \<and> KBOGreater ocb (\<lambda>_. None) s t DEREF_NEVER DEREF_NEVER = Some True}"
proof -
  obtain ocb where "OCBAlloc KBO False sample_sig = Some ocb" "kbo_admissible ocb"
    using OCBAlloc_admissible [of KBO sample_sig] by (auto simp: sample_sig_def)
  then show ?thesis using KBOGreater_wellfounded [OF _ binds_ok_empty] by blast
qed

text \<open>\<open>KBOCompare\<close> is transitive, also between terms under bindings, whatever the number of
  dereferencing steps of each of them.\<close>

theorem KBOCompare_transitive:
  assumes "kbo_admissible ocb" and "copies ocb b s ds us" and "copies ocb b t dt ut" and "copies ocb b r dr ur"
    and "KBOCompare ocb b s t ds dt = Some to_greater" and "KBOCompare ocb b t r dt dr = Some to_greater"
  shows "KBOCompare ocb b s r ds dr = Some to_greater"
  using assms(5,6) kbo.gt_trans [OF assms(1) assms(2-4) [THEN copies_okt]]
    KBOCompare_greater [OF kbo_admissible_ocb [OF assms(1)]] assms(2-4) by blast

theorem KBOCompare_transitive_witness:
  "\<exists>ocb. OCBAlloc KBO False sample_sig = Some ocb \<and>
     KBOCompare ocb (\<lambda>_. None) (sample_f (sample_g (sample_var 1)) (sample_const 21)) (sample_var 1) DEREF_NEVER DEREF_NEVER = Some to_greater"
proof -
  obtain ocb where ocb: "OCBAlloc KBO False sample_sig = Some ocb" "kbo_admissible ocb" "ocb_sig ocb = sample_sig"
    using OCBAlloc_admissible [of KBO sample_sig] by (auto simp: sample_sig_def)
  have "kbo_term ocb (sample_f (sample_g (sample_var 1)) (sample_const 21))"
    "kbo_term ocb (sample_g (sample_var 1))" "kbo_term ocb (sample_var 1)"
    using ocb(3) by (simp_all add: kbo_term_def sample_defs symbols_def)
  note c = this [THEN copies_never [OF binds_ok_empty]]
  note gt = KBOCompare_greater [OF kbo_admissible_ocb [OF ocb(2)]]
  have "kbo_gt (ocb_par ocb) (sample_g (sample_var 1)) (sample_var 1)" by (simp add: sample_defs)
  moreover have "kbo_gt (ocb_par ocb) (sample_f (sample_g (sample_var 1)) (sample_const 21)) (sample_g (sample_var 1))"
    using kbo.gt_arg [OF ocb(2) copies_okt [OF c(1)], of "sample_g (sample_var 1)"] by (simp add: sample_defs)
  ultimately show ?thesis
    using KBOCompare_transitive [OF ocb(2) c] gt [OF c(1,2)] gt [OF c(2,3)] ocb(1) by blast
qed

text \<open>C25 \<open>KBOGreater\<close> is stable under substitutions: if it holds between two terms as they stand,
  it holds under every well-formed set of bindings, with all bindings followed.\<close>

theorem KBOGreater_stable:
  assumes "kbo_admissible ocb" and "subst_wf (ocb_sig ocb) b" and "bound_syms_ok b"
    and "kbo_term ocb s" and "kbo_term ocb t"
    and "KBOGreater ocb b s t DEREF_NEVER DEREF_NEVER = Some True"
  shows "KBOGreater ocb b s t DEREF_ALWAYS DEREF_ALWAYS = Some True"
proof -
  note ocb = kbo_admissible_ocb [OF assms(1)]
  have ok: "binds_ok (ocb_sig ocb) b" using assms(2) by (simp add: subst_wf_def)
  have syms: "term_syms (sigma b u) \<subseteq> symbols" if "wf_term (ocb_sig ocb) u" "term_syms u \<subseteq> symbols" for u
    using full_syms [OF sigma_full [OF assms(2) that(1)] assms(3) that(2)] .
  have wf: "wf_term (ocb_sig ocb) s" "wf_term (ocb_sig ocb) t" "term_syms s \<subseteq> symbols" "term_syms t \<subseteq> symbols"
    using assms(4,5) by (simp_all add: kbo_term_def)
  have gt: "kbo_gt (ocb_par ocb) s t"
    using assms(6) KBOGreater_gt [OF ocb copies_never [OF ok assms(4)] copies_never [OF ok assms(5)]] by simp
  have vars: "kbo.okt ocb (sigma b v)" if "v \<in> term_vars s" for v
  proof -
    have v: "wf_term (ocb_sig ocb) v" "term_syms v \<subseteq> symbols"
      using term_vars_wf [OF wf(1) that] term_vars_free [OF that] by (simp, cases v, simp)
    then show ?thesis using sigma_wf(1) [OF assms(2) v(1)] syms [OF v] by (simp add: kbo.okt_def)
  qed
  have "kbo_gt (ocb_par ocb) (sigma b s) (sigma b t)"
    using kbo.gt_inst [OF assms(1) _ _ vars gt] assms(4,5) sigma_inst [OF assms(2)] wf(1,2) by (simp add: kbo_okt)
  then show ?thesis
    using KBOGreater_gt [OF ocb copies_always [OF assms(2,4) syms [OF wf(1,3)]] copies_always [OF assms(2,5) syms [OF wf(2,4)]]]
    by simp
qed

theorem KBOGreater_stable_witness:
  "\<exists>ocb. OCBAlloc KBO False sample_sig = Some ocb \<and>
     KBOGreater ocb [sample_var 1 \<mapsto> sample_const 21] (sample_g (sample_var 1)) (sample_var 1) DEREF_ALWAYS DEREF_ALWAYS = Some True"
proof -
  let ?b = "[sample_var 1 \<mapsto> sample_const 21]"
  obtain ocb where ocb: "OCBAlloc KBO False sample_sig = Some ocb" "kbo_admissible ocb" "ocb_sig ocb = sample_sig"
    using OCBAlloc_admissible [of KBO sample_sig] by (auto simp: sample_sig_def)
  have "sigma (\<lambda>_. None) (sample_const 21) = sample_const 21"
    by (rule sigma_eq [OF full_refl binds_ok_empty]) simp
  then have wf: "subst_wf (ocb_sig ocb) ?b"
    using subst_wf_upd(1) [OF subst_wf_empty [of sample_sig], of "sample_var 1" "sample_const 21"] ocb(3)
    by (simp add: sample_defs)
  have syms: "bound_syms_ok ?b" by (simp add: bound_syms_ok_def sample_defs symbols_def)
  have ok: "binds_ok (ocb_sig ocb) ?b" using wf by (simp add: subst_wf_def)
  have "kbo_gt (ocb_par ocb) (sample_g (sample_var 1)) (sample_var 1)" by (simp add: sample_defs)
  then have "KBOGreater ocb ?b (sample_g (sample_var 1)) (sample_var 1) DEREF_NEVER DEREF_NEVER = Some True"
    using KBOGreater_gt [OF kbo_admissible_ocb [OF ocb(2)] copies_never [OF ok] copies_never [OF ok]]
      sample_kbo_term [OF ocb(3)] by simp
  then show ?thesis
    using KBOGreater_stable [OF ocb(2) wf syms sample_kbo_term(3) [OF ocb(3)] sample_kbo_term(2) [OF ocb(3)]] ocb(1)
    by blast
qed

text \<open>\<open>KBOGreater\<close> is closed under contexts and contains the subterm relation: replacing an
  argument by a smaller term makes a term smaller, and a term is greater than its arguments.\<close>

theorem KBOGreater_contexts:
  assumes "kbo_admissible ocb" and "binds_ok (ocb_sig ocb) b" and "\<not> f < 0"
    and "kbo_term ocb (TermCell f p ty (xs @ s # ys))" and "kbo_term ocb (TermCell f p ty (xs @ t # ys))"
    and "KBOGreater ocb b s t DEREF_NEVER DEREF_NEVER = Some True"
  shows "KBOGreater ocb b (TermCell f p ty (xs @ s # ys)) (TermCell f p ty (xs @ t # ys)) DEREF_NEVER DEREF_NEVER = Some True \<and>
         KBOGreater ocb b (TermCell f p ty (xs @ s # ys)) s DEREF_NEVER DEREF_NEVER = Some True"
proof -
  note ocb = kbo_admissible_ocb [OF assms(1)]
  have args: "kbo_term ocb s" "kbo_term ocb t"
    using kbo.okt_arg [of ocb "TermCell f p ty (xs @ s # ys)" s] kbo.okt_arg [of ocb "TermCell f p ty (xs @ t # ys)" t]
      assms(4,5) by (simp_all add: kbo_okt)
  note gt = KBOGreater_gt [OF ocb copies_never [OF assms(2)] copies_never [OF assms(2)]]
  have "kbo_gt (ocb_par ocb) s t" using gt [OF args] assms(6) by simp
  then have "kbo_gt (ocb_par ocb) (TermCell f p ty (xs @ s # ys)) (TermCell f p ty (xs @ t # ys))"
    using kbo.gt_context [OF assms(1)] assms(3-5) by (simp add: kbo_okt)
  moreover have "kbo_gt (ocb_par ocb) (TermCell f p ty (xs @ s # ys)) s"
    using kbo.gt_arg [OF assms(1)] assms(4) by (simp add: kbo_okt)
  ultimately show ?thesis using gt [OF assms(4,5)] gt [OF assms(4) args(1)] by simp
qed

theorem KBOGreater_contexts_witness:
  "\<exists>ocb. OCBAlloc KBO False sample_sig = Some ocb \<and>
     KBOGreater ocb (\<lambda>_. None) (sample_g (sample_g (sample_var 1))) (sample_g (sample_var 1)) DEREF_NEVER DEREF_NEVER = Some True"
proof -
  obtain ocb where ocb: "OCBAlloc KBO False sample_sig = Some ocb" "kbo_admissible ocb" "ocb_sig ocb = sample_sig"
    using OCBAlloc_admissible [of KBO sample_sig] by (auto simp: sample_sig_def)
  have "kbo_gt (ocb_par ocb) (sample_g (sample_var 1)) (sample_var 1)" by (simp add: sample_defs)
  then have gt: "KBOGreater ocb (\<lambda>_. None) (sample_g (sample_var 1)) (sample_var 1) DEREF_NEVER DEREF_NEVER = Some True"
    using KBOGreater_gt [OF kbo_admissible_ocb [OF ocb(2)] copies_never [OF binds_ok_empty] copies_never [OF binds_ok_empty]]
      sample_kbo_term [OF ocb(3)] by simp
  have "kbo_term ocb (sample_g (sample_g (sample_var 1)))" "kbo_term ocb (sample_g (sample_var 1))"
    using ocb(3) by (simp_all add: kbo_term_def sample_defs symbols_def)
  then show ?thesis
    using KBOGreater_contexts [OF ocb(2) binds_ok_empty, of 22 False 1 "[]" "sample_g (sample_var 1)" "[]" "sample_var 1"]
      gt ocb(1) by (auto simp: sample_g_def)
qed

text \<open>C26 On ground terms \<open>KBOCompare\<close> never answers \<open>to_uncomparable\<close> if no two symbols are
  incomparable in the precedence.\<close>

theorem KBOCompare_ground_total:
  assumes "kbo_admissible ocb" and "copies ocb b s ds us" and "copies ocb b t dt ut"
    and "term_vars us = {}" and "term_vars ut = {}"
    and "prec_total ocb"
  shows "\<exists>r. KBOCompare ocb b s t ds dt = Some r \<and> r \<in> {to_equal, to_greater, to_lesser}"
proof -
  note ocb = kbo_admissible_ocb [OF assms(1)]
  have "kp_prec (ocb_par ocb) f g = to_greater \<or> kp_prec (ocb_par ocb) g f = to_greater"
    if "f \<in> symbols" "g \<in> symbols" "f \<noteq> g" for f g
    using ocb_par_prec [OF ocb that(1,2)] assms(6) that by (auto simp: proper_results_def prec_total_def)
  from kbo.gt_total_lemma [OF assms(1) this copies_okt [OF assms(2)] copies_okt [OF assms(3)] assms(4,5)]
  show ?thesis using KBOCompare_ok [OF ocb assms(2,3)] by (auto simp: kbo_cmp_def)
qed

theorem KBOCompare_ground_total_witness:
  "\<exists>r. KBOCompare sample_ocb (\<lambda>_. None) (sample_g (sample_const 21)) (sample_const 19) DEREF_NEVER DEREF_NEVER = Some r \<and>
     r \<noteq> to_uncomparable"
proof -
  have "kbo_term sample_ocb (sample_g (sample_const 21))" "kbo_term sample_ocb (sample_const 19)"
    by (simp_all add: kbo_term_def sample_defs symbols_def)
  note c = this [THEN copies_never [OF binds_ok_empty]]
  have "term_vars (sample_g (sample_const 21)) = {}" "term_vars (sample_const 19) = {}" by (simp_all add: sample_defs)
  from KBOCompare_ground_total [OF sample_ocb_admissible c this prec_weights_total [OF sample_ocb_prec]]
  show ?thesis by auto
qed

end
