(* ===== verification/LPO_Order.thy ===== *)
theory LPO_Order
  imports KBO_Order
begin

text \<open>
  The textbook lexicographic path ordering \<open>lpo_gt\<close> over a precedence, the specification of
  \<open>ORDERINGS/cto_lpo.c\<close>, and its theory: it is a strict ordering with the subterm property,
  stable under substitutions and contexts, total on ground terms for a total precedence, and
  well-founded. The locale \<open>lpo_order\<close> holds the two laws of the precedence all this rests on.
\<close>

section \<open>The textbook ordering\<close>

fun lpo_gt :: "(int \<Rightarrow> int \<Rightarrow> bool) \<Rightarrow> Term_p \<Rightarrow> Term_p \<Rightarrow> bool"
  and lpo_lex :: "(int \<Rightarrow> int \<Rightarrow> bool) \<Rightarrow> Term_p list \<Rightarrow> Term_p list \<Rightarrow> bool" where
  "lpo_gt pr (TermCell f p ty ss) (TermCell g q ty' ts) =
     (if f < 0 then False
      else if g < 0 then TermCell g q ty' ts \<in> term_vars (TermCell f p ty ss)
      else (\<exists>a \<in> set ss. a = TermCell g q ty' ts \<or> lpo_gt pr a (TermCell g q ty' ts)) \<or>
           (pr f g \<or> f = g \<and> lpo_lex pr ss ts) \<and> (\<forall>c \<in> set ts. lpo_gt pr (TermCell f p ty ss) c))"
| "lpo_lex pr [] ts = False"
| "lpo_lex pr (s # ss) [] = True"
| "lpo_lex pr (s # ss) (t # ts) = (lpo_gt pr s t \<or> s = t \<and> lpo_lex pr ss ts)"

declare lpo_gt.simps [simp del]

lemma lpo_gt_var:
  "TermIsFreeVar s \<Longrightarrow> \<not> lpo_gt pr s t"
  "TermIsFreeVar t \<Longrightarrow> lpo_gt pr s t \<longleftrightarrow> \<not> TermIsFreeVar s \<and> t \<in> term_vars s"
  by (cases s; cases t; simp add: lpo_gt.simps)+

lemma lpo_gt_fun:
  assumes "\<not> TermIsFreeVar s" and "\<not> TermIsFreeVar t"
  shows "lpo_gt pr s t \<longleftrightarrow> (\<exists>a \<in> set (t_args s). a = t \<or> lpo_gt pr a t) \<or>
    (pr (f_code s) (f_code t) \<or> f_code s = f_code t \<and> lpo_lex pr (t_args s) (t_args t)) \<and>
    (\<forall>c \<in> set (t_args t). lpo_gt pr s c)"
  using assms by (cases s; cases t) (simp add: lpo_gt.simps)

lemma lpo_gt_nonvar: "lpo_gt pr s t \<Longrightarrow> \<not> TermIsFreeVar s"
  using lpo_gt_var(1) by blast

text \<open>The three ways a function term is greater than another one.\<close>

lemma lpo_alpha: "\<not> TermIsFreeVar s \<Longrightarrow> \<not> TermIsFreeVar t \<Longrightarrow> a \<in> set (t_args s) \<Longrightarrow> a = t \<or> lpo_gt pr a t \<Longrightarrow> lpo_gt pr s t"
  using lpo_gt_fun by blast

lemma lpo_arg:
  assumes "\<not> TermIsFreeVar s" and "a \<in> set (t_args s)"
  shows "lpo_gt pr s a"
proof (cases "TermIsFreeVar a")
  case True
  then have "a \<in> term_vars s" using assms wf_term_var_vars [OF True] by (cases s) auto
  then show ?thesis using lpo_gt_var(2) [OF True] assms(1) by blast
qed (use assms lpo_alpha in blast)

lemma size_arg: "a \<in> set (t_args s) \<Longrightarrow> size a < size s"
  by (cases s) (auto dest: size_list_estimation' [where f = size, OF _ order.refl])

lemma lpo_gt_vars: "lpo_gt pr s t \<Longrightarrow> term_vars t \<subseteq> term_vars s"
proof (induction "size s + size t" arbitrary: s t rule: less_induct)
  case less
  have s: "\<not> TermIsFreeVar s" using lpo_gt_nonvar [OF less.prems] .
  have arg: "term_vars a \<subseteq> term_vars s" if "a \<in> set (t_args s)" for a using s that by (cases s) auto
  show ?case
  proof (cases "TermIsFreeVar t")
    case True
    then show ?thesis using less.prems lpo_gt_var(2) [OF True] wf_term_var_vars [OF True] by simp
  next
    case t: False
    consider (alpha) a where "a \<in> set (t_args s)" "a = t \<or> lpo_gt pr a t" | (beta) "\<forall>c \<in> set (t_args t). lpo_gt pr s c"
      using lpo_gt_fun [OF s t] less.prems by blast
    then show ?thesis
    proof cases
      case alpha
      then have "term_vars t \<subseteq> term_vars a" using less.hyps [of a t] size_arg [OF alpha(1)] by auto
      then show ?thesis using arg [OF alpha(1)] by blast
    next
      case beta
      have "term_vars c \<subseteq> term_vars s" if "c \<in> set (t_args t)" for c
        using less.hyps [of s c] beta that size_arg [OF that] by auto
      then show ?thesis using t by (cases t) auto
    qed
  qed
qed

section \<open>The laws\<close>

locale lpo_order =
  fixes gtp :: "'o \<Rightarrow> int \<Rightarrow> int \<Rightarrow> bool"
    and sgn :: "'o \<Rightarrow> Sig"
    and valid :: "'o \<Rightarrow> bool"
  assumes prec_irrefl: "valid oc \<Longrightarrow> f \<in> symbols \<Longrightarrow> \<not> gtp oc f f"
    and prec_trans: "valid oc \<Longrightarrow> f \<in> symbols \<Longrightarrow> g \<in> symbols \<Longrightarrow> h \<in> symbols \<Longrightarrow>
      gtp oc f g \<Longrightarrow> gtp oc g h \<Longrightarrow> gtp oc f h"
begin

definition okl :: "'o \<Rightarrow> Term_p \<Rightarrow> bool" where
  "okl oc t \<longleftrightarrow> wf_term (sgn oc) t \<and> term_syms t \<subseteq> symbols"

lemma okl_arg: "okl oc t \<Longrightarrow> a \<in> set (t_args t) \<Longrightarrow> okl oc a"
  by (cases t) (auto simp: okl_def split: if_splits)

lemma okl_fun: "okl oc t \<Longrightarrow> \<not> TermIsFreeVar t \<Longrightarrow> f_code t \<in> symbols \<and> length (t_args t) = sg_arity (sgn oc) (f_code t)"
  by (cases t) (auto simp: okl_def)

lemma lex_trans_step:
  assumes "\<And>x y z. x \<in> set ss \<Longrightarrow> y \<in> set ts \<Longrightarrow> z \<in> set us \<Longrightarrow> lpo_gt P x y \<Longrightarrow> lpo_gt P y z \<Longrightarrow> lpo_gt P x z"
    and "length ss = length ts" and "length ts = length us" and "lpo_lex P ss ts" and "lpo_lex P ts us"
  shows "lpo_lex P ss us"
  using assms
proof (induction ss arbitrary: ts us)
  case (Cons s ss)
  obtain t ts' u us' where tu: "ts = t # ts'" "us = u # us'" using Cons.prems(2,3) by (cases ts; cases us) auto
  have "lpo_lex P ss us'" if "lpo_lex P ss ts'" "lpo_lex P ts' us'"
    by (rule Cons.IH [of ts' us']) (use Cons.prems tu that in auto)
  moreover have "lpo_gt P s u" if "lpo_gt P s t" "lpo_gt P t u" using Cons.prems(1) [of s t u] tu that by simp
  ultimately show ?case using Cons.prems(4,5) tu by auto
qed simp

lemma lpo_trans_lemma:
  assumes "valid oc"
  shows "size s + size t + size u < n \<Longrightarrow> okl oc s \<Longrightarrow> okl oc t \<Longrightarrow> okl oc u \<Longrightarrow>
    lpo_gt (gtp oc) s t \<Longrightarrow> lpo_gt (gtp oc) t u \<Longrightarrow> lpo_gt (gtp oc) s u"
proof (induction n arbitrary: s t u)
  case (Suc n)
  let ?P = "gtp oc"
  have st: "\<not> TermIsFreeVar s" "\<not> TermIsFreeVar t" using lpo_gt_nonvar Suc.prems(5,6) by blast+
  show ?case
  proof (cases "TermIsFreeVar u")
    case True
    then show ?thesis using lpo_gt_var(2) [OF True] Suc.prems(5,6) lpo_gt_vars st by blast
  next
    case u: False
    note fs = lpo_gt_fun [OF st, of ?P] lpo_gt_fun [OF st(2) u, of ?P]
    consider (a1) a where "a \<in> set (t_args s)" "a = t \<or> lpo_gt ?P a t"
      | (a2) c where "\<forall>c \<in> set (t_args t). lpo_gt ?P s c" "c \<in> set (t_args t)" "c = u \<or> lpo_gt ?P c u"
      | (bb) "?P (f_code s) (f_code t) \<or> f_code s = f_code t \<and> lpo_lex ?P (t_args s) (t_args t)"
          "?P (f_code t) (f_code u) \<or> f_code t = f_code u \<and> lpo_lex ?P (t_args t) (t_args u)" "\<forall>c \<in> set (t_args u). lpo_gt ?P t c"
      using fs Suc.prems(5,6) by blast
    then show ?thesis
    proof cases
      case a1
      have "lpo_gt ?P a u"
        using Suc.IH [of a t u] Suc.prems size_arg [OF a1(1)] okl_arg [OF Suc.prems(2) a1(1)] a1(2) by auto
      then show ?thesis using lpo_alpha [OF st(1) u a1(1)] by blast
    next
      case a2
      have "lpo_gt ?P s c" using a2(1,2) by blast
      then show ?thesis
        using Suc.IH [of s c u] Suc.prems size_arg [OF a2(2)] okl_arg [OF Suc.prems(3) a2(2)] a2(3) by auto
    next
      case bb
      have all: "\<forall>d \<in> set (t_args u). lpo_gt ?P s d"
      proof
        fix d assume d: "d \<in> set (t_args u)"
        show "lpo_gt ?P s d"
          by (rule Suc.IH [of s t d]) (use Suc.prems size_arg [OF d] okl_arg [OF Suc.prems(4) d] bb(3) d in auto)
      qed
      have ok: "f_code s \<in> symbols" "f_code t \<in> symbols" "f_code u \<in> symbols"
        "length (t_args s) = sg_arity (sgn oc) (f_code s)" "length (t_args t) = sg_arity (sgn oc) (f_code t)"
        "length (t_args u) = sg_arity (sgn oc) (f_code u)"
        using okl_fun Suc.prems(2-4) st u by blast+
      have "lpo_lex ?P (t_args s) (t_args u)"
        if "f_code s = f_code t" "f_code t = f_code u" "lpo_lex ?P (t_args s) (t_args t)" "lpo_lex ?P (t_args t) (t_args u)"
      proof (rule lex_trans_step [OF _ _ _ that(3,4)])
        fix x y z
        assume m: "x \<in> set (t_args s)" "y \<in> set (t_args t)" "z \<in> set (t_args u)" and g: "lpo_gt ?P x y" "lpo_gt ?P y z"
        show "lpo_gt ?P x z"
          by (rule Suc.IH [OF _ _ _ _ g])
            (use Suc.prems(1) size_arg [OF m(1)] size_arg [OF m(2)] size_arg [OF m(3)] okl_arg Suc.prems(2-4) m in auto)
      qed (use ok that in simp_all)
      moreover have "?P (f_code s) (f_code u)" if "?P (f_code s) (f_code t)" "?P (f_code t) (f_code u)"
        using prec_trans [OF assms ok(1-3) that] .
      ultimately show ?thesis using lpo_gt_fun [OF st(1) u, of ?P] all bb(1,2) by auto
    qed
  qed
qed simp

lemma lpo_trans:
  assumes "valid oc" and "okl oc s" and "okl oc t" and "okl oc u" and "lpo_gt (gtp oc) s t" and "lpo_gt (gtp oc) t u"
  shows "lpo_gt (gtp oc) s u"
  using lpo_trans_lemma [OF assms(1) lessI assms(2-6)] .

lemma lex_irrefl: "(\<And>x. x \<in> set xs \<Longrightarrow> \<not> lpo_gt P x x) \<Longrightarrow> \<not> lpo_lex P xs xs"
  by (induction xs) auto

lemma lpo_irrefl: "valid oc \<Longrightarrow> okl oc s \<Longrightarrow> \<not> lpo_gt (gtp oc) s s"
proof (induction s)
  case (TermCell f p ty ss)
  let ?s = "TermCell f p ty ss" and ?P = "gtp oc"
  show ?case
  proof (cases "f < 0")
    case False
    then have nv: "\<not> TermIsFreeVar ?s" by simp
    have irr: "\<not> lpo_gt ?P a a" if "a \<in> set ss" for a using TermCell.IH [OF that TermCell.prems(1)] okl_arg [OF TermCell.prems(2)] that by simp
    have "\<not> lpo_gt ?P a ?s" if a: "a \<in> set ss" for a
    proof
      assume "lpo_gt ?P a ?s"
      then have "lpo_gt ?P a a"
        using lpo_trans [OF TermCell.prems(1) _ TermCell.prems(2)] okl_arg [OF TermCell.prems(2)] lpo_arg [OF nv] a by auto
      then show False using irr [OF a] by blast
    qed
    moreover have "a \<noteq> ?s" if "a \<in> set ss" for a using size_arg [of a ?s] that by auto
    moreover have "\<not> ?P f f" using prec_irrefl [OF TermCell.prems(1)] okl_fun [OF TermCell.prems(2) nv] by simp
    moreover have "\<not> lpo_lex ?P ss ss" using lex_irrefl irr by blast
    ultimately show ?thesis using lpo_gt_fun [OF nv nv, of ?P] by auto
  qed (simp add: lpo_gt_var)
qed

lemma lpo_asym:
  assumes "valid oc" and "okl oc s" and "okl oc t" and "lpo_gt (gtp oc) s t"
  shows "\<not> lpo_gt (gtp oc) t s"
  using lpo_trans [OF assms(1-3,2,4)] lpo_irrefl [OF assms(1,2)] by blast

section \<open>Substitutions and contexts\<close>

definition okl_subst :: "'o \<Rightarrow> (Term_p \<Rightarrow> Term_p) \<Rightarrow> Term_p \<Rightarrow> bool" where
  "okl_subst oc \<theta> t \<longleftrightarrow> okl oc t \<and> (\<forall>v \<in> term_vars t. okl oc (\<theta> v))"

lemma okl_subst_arg:
  assumes "okl_subst oc \<theta> t" and "a \<in> set (t_args t)"
  shows "okl_subst oc \<theta> a"
proof -
  have "okl oc t" using assms(1) by (simp add: okl_subst_def)
  moreover have "\<not> TermIsFreeVar t" using \<open>okl oc t\<close> assms(2) by (cases t) (auto simp: okl_def)
  then have "term_vars a \<subseteq> term_vars t" using assms(2) by (cases t) auto
  ultimately show ?thesis using assms okl_arg by (auto simp: okl_subst_def)
qed

lemma okl_inst: "okl_subst oc \<theta> t \<Longrightarrow> okl oc (inst \<theta> t)"
proof (induction t)
  case (TermCell f p ty as)
  show ?case
  proof (cases "f < 0")
    case True
    then show ?thesis using TermCell.prems by (simp add: okl_subst_def)
  next
    case False
    have "okl oc (inst \<theta> a)" if "a \<in> set as" for a using TermCell.IH [OF that] okl_subst_arg [OF TermCell.prems] that by simp
    moreover have "okl oc (TermCell f p ty as)" using TermCell.prems by (simp add: okl_subst_def)
    ultimately show ?thesis using False by (auto simp: okl_def)
  qed
qed

lemma inst_head: "\<not> TermIsFreeVar t \<Longrightarrow> \<not> TermIsFreeVar (inst \<theta> t) \<and> f_code (inst \<theta> t) = f_code t \<and>
   t_args (inst \<theta> t) = map (inst \<theta>) (t_args t)"
  by (cases t) auto

lemma lpo_inst_var:
  assumes "valid oc"
  shows "okl_subst oc \<theta> s \<Longrightarrow> \<not> TermIsFreeVar s \<Longrightarrow> x \<in> term_vars s \<Longrightarrow> lpo_gt (gtp oc) (inst \<theta> s) (\<theta> x)"
proof (induction s)
  case (TermCell f p ty as)
  let ?s = "TermCell f p ty as"
  obtain a where a: "a \<in> set as" "x \<in> term_vars a" using TermCell.prems(2,3) by auto
  note ok = okl_subst_arg [OF TermCell.prems(1), of a]
  have arg: "lpo_gt (gtp oc) (inst \<theta> ?s) (inst \<theta> a)"
    using lpo_arg [of "inst \<theta> ?s" "inst \<theta> a"] inst_head [OF TermCell.prems(2), of \<theta>] a(1) by auto
  show ?case
  proof (cases "TermIsFreeVar a")
    case True
    then show ?thesis using arg a(2) wf_term_var_vars [OF True] by simp
  next
    case False
    have "lpo_gt (gtp oc) (inst \<theta> a) (\<theta> x)" using TermCell.IH [OF a(1) _ False a(2)] ok a(1) by simp
    moreover have "okl oc (\<theta> x)" using TermCell.prems(1,3) by (simp add: okl_subst_def)
    ultimately show ?thesis using lpo_trans [OF assms okl_inst [OF TermCell.prems(1)] okl_inst _ arg] ok a(1) by simp
  qed
qed

lemma lex_inst:
  assumes "\<And>x y. x \<in> set ss \<Longrightarrow> y \<in> set ts \<Longrightarrow> lpo_gt P x y \<Longrightarrow> lpo_gt P (inst \<theta> x) (inst \<theta> y)" and "lpo_lex P ss ts"
  shows "lpo_lex P (map (inst \<theta>) ss) (map (inst \<theta>) ts)"
  using assms
proof (induction ss arbitrary: ts)
  case (Cons s ss)
  show ?case
  proof (cases ts)
    case ts: (Cons t ts')
    have "lpo_lex P (map (inst \<theta>) ss) (map (inst \<theta>) ts')" if "lpo_lex P ss ts'"
      by (rule Cons.IH [OF _ that]) (use Cons.prems(1) ts in auto)
    then show ?thesis using Cons.prems ts by auto
  qed simp
qed simp

lemma lpo_inst:
  assumes "valid oc"
  shows "okl_subst oc \<theta> s \<Longrightarrow> okl_subst oc \<theta> t \<Longrightarrow> lpo_gt (gtp oc) s t \<Longrightarrow> lpo_gt (gtp oc) (inst \<theta> s) (inst \<theta> t)"
proof (induction "size s + size t" arbitrary: s t rule: less_induct)
  case less
  let ?P = "gtp oc"
  have s: "\<not> TermIsFreeVar s" using lpo_gt_nonvar [OF less.prems(3)] .
  note hs = inst_head [OF s, of \<theta>]
  show ?case
  proof (cases "TermIsFreeVar t")
    case True
    then show ?thesis using lpo_inst_var [OF assms less.prems(1) s] less.prems(3) lpo_gt_var(2) [OF True] by simp
  next
    case t: False
    note ht = inst_head [OF t, of \<theta>]
    note goal = lpo_gt_fun [of "inst \<theta> s" "inst \<theta> t" ?P]
    consider (alpha) a where "a \<in> set (t_args s)" "a = t \<or> lpo_gt ?P a t"
      | (beta) "?P (f_code s) (f_code t) \<or> f_code s = f_code t \<and> lpo_lex ?P (t_args s) (t_args t)" "\<forall>c \<in> set (t_args t). lpo_gt ?P s c"
      using lpo_gt_fun [OF s t] less.prems(3) by blast
    then show ?thesis
    proof cases
      case alpha
      have "inst \<theta> a = inst \<theta> t \<or> lpo_gt ?P (inst \<theta> a) (inst \<theta> t)"
        using less.hyps [of a t] alpha(2) size_arg [OF alpha(1)] okl_subst_arg [OF less.prems(1) alpha(1)] less.prems(2) by auto
      then show ?thesis using lpo_alpha [of "inst \<theta> s" "inst \<theta> t" "inst \<theta> a"] hs ht alpha(1) by simp
    next
      case beta
      have "\<forall>c \<in> set (t_args t). lpo_gt ?P (inst \<theta> s) (inst \<theta> c)"
        using less.hyps [of s] beta(2) size_arg okl_subst_arg [OF less.prems(2)] less.prems(1) by auto
      moreover have "lpo_lex ?P (map (inst \<theta>) (t_args s)) (map (inst \<theta>) (t_args t))" if "lpo_lex ?P (t_args s) (t_args t)"
      proof (rule lex_inst [OF _ that])
        fix x y
        assume m: "x \<in> set (t_args s)" "y \<in> set (t_args t)" and g: "lpo_gt ?P x y"
        show "lpo_gt ?P (inst \<theta> x) (inst \<theta> y)"
          by (rule less.hyps [OF _ _ _ g])
            (use size_arg [OF m(1)] size_arg [OF m(2)] okl_subst_arg [OF less.prems(1) m(1)] okl_subst_arg [OF less.prems(2) m(2)] in auto)
      qed
      ultimately show ?thesis using goal hs ht beta(1) by auto
    qed
  qed
qed

lemma lpo_context:
  assumes "valid oc" and "okl oc (TermCell f p ty (xs @ s # ys))" and "okl oc (TermCell f p ty (xs @ t # ys))"
    and "\<not> f < 0" and "lpo_gt (gtp oc) s t"
  shows "lpo_gt (gtp oc) (TermCell f p ty (xs @ s # ys)) (TermCell f p ty (xs @ t # ys))"
proof -
  let ?s = "TermCell f p ty (xs @ s # ys)" and ?t = "TermCell f p ty (xs @ t # ys)"
  have nv: "\<not> TermIsFreeVar ?s" "\<not> TermIsFreeVar ?t" using assms(4) by simp_all
  have arg: "lpo_gt (gtp oc) ?s a" if "a \<in> set (xs @ s # ys)" for a using lpo_arg [OF nv(1)] that by simp
  have "lpo_gt (gtp oc) ?s t"
    using lpo_trans [OF assms(1,2) okl_arg [OF assms(2)] okl_arg [OF assms(3)] arg assms(5)] by simp
  then have "\<forall>c \<in> set (t_args ?t). lpo_gt (gtp oc) ?s c" using arg by auto
  moreover have "lpo_lex (gtp oc) (xs @ s # ys) (xs @ t # ys)" using assms(5) by (induction xs) auto
  ultimately show ?thesis using lpo_gt_fun [OF nv, of "gtp oc"] by simp
qed

section \<open>Totality\<close>

lemma lex_total:
  assumes "length xs = length ys" and "\<And>x y. x \<in> set xs \<Longrightarrow> y \<in> set ys \<Longrightarrow> x = y \<or> lpo_gt P x y \<or> lpo_gt P y x"
  shows "xs = ys \<or> lpo_lex P xs ys \<or> lpo_lex P ys xs"
  using assms
proof (induction xs ys rule: list_induct2)
  case (Cons x xs y ys)
  have "xs = ys \<or> lpo_lex P xs ys \<or> lpo_lex P ys xs" by (rule Cons.IH) (use Cons.prems in auto)
  moreover have "x = y \<or> lpo_gt P x y \<or> lpo_gt P y x" using Cons.prems by simp
  ultimately show ?case by auto
qed simp

lemma lpo_total_lemma:
  assumes "valid oc" and "\<And>f g. f \<in> symbols \<Longrightarrow> g \<in> symbols \<Longrightarrow> f \<noteq> g \<Longrightarrow> gtp oc f g \<or> gtp oc g f"
  shows "okl oc s \<Longrightarrow> okl oc t \<Longrightarrow> term_vars s = {} \<Longrightarrow> term_vars t = {} \<Longrightarrow>
    s = t \<or> lpo_gt (gtp oc) s t \<or> lpo_gt (gtp oc) t s"
proof (induction "size s + size t" arbitrary: s t rule: less_induct)
  case less
  let ?P = "gtp oc"
  have nv: "\<not> TermIsFreeVar s" "\<not> TermIsFreeVar t" using less.prems(3,4) wf_term_var_vars by blast+
  have ground: "term_vars a = {}" if "a \<in> set (t_args x)" "\<not> TermIsFreeVar x" "term_vars x = {}" for a x
    using that by (cases x) auto
  have sub1: "a = t \<or> lpo_gt ?P a t \<or> lpo_gt ?P t a" if a: "a \<in> set (t_args s)" for a
    by (rule less.hyps) (use size_arg [OF a] okl_arg [OF less.prems(1) a] ground [OF a nv(1)] less.prems in auto)
  have sub2: "c = s \<or> lpo_gt ?P c s \<or> lpo_gt ?P s c" if c: "c \<in> set (t_args t)" for c
    by (rule less.hyps) (use size_arg [OF c] okl_arg [OF less.prems(2) c] ground [OF c nv(2)] less.prems in auto)
  show ?case
  proof (cases "(\<exists>a \<in> set (t_args s). a = t \<or> lpo_gt ?P a t) \<or> (\<exists>c \<in> set (t_args t). c = s \<or> lpo_gt ?P c s)")
    case True
    then show ?thesis using lpo_alpha nv by blast
  next
    case False
    then have all: "\<forall>c \<in> set (t_args t). lpo_gt ?P s c" "\<forall>a \<in> set (t_args s). lpo_gt ?P t a" using sub1 sub2 by blast+
    have okf: "f_code s \<in> symbols" "f_code t \<in> symbols" "length (t_args s) = sg_arity (sgn oc) (f_code s)"
      "length (t_args t) = sg_arity (sgn oc) (f_code t)" using okl_fun less.prems(1,2) nv by blast+
    show ?thesis
    proof (cases "f_code s = f_code t")
      case True
      have "t_args s = t_args t \<or> lpo_lex ?P (t_args s) (t_args t) \<or> lpo_lex ?P (t_args t) (t_args s)"
      proof (rule lex_total)
        show "length (t_args s) = length (t_args t)" using okf(3,4) True by simp
        fix x y
        assume m: "x \<in> set (t_args s)" "y \<in> set (t_args t)"
        show "x = y \<or> lpo_gt ?P x y \<or> lpo_gt ?P y x"
          by (rule less.hyps)
            (use size_arg [OF m(1)] size_arg [OF m(2)] okl_arg [OF less.prems(1) m(1)] okl_arg [OF less.prems(2) m(2)]
              ground [OF m(1) nv(1)] ground [OF m(2) nv(2)] less.prems in auto)
      qed
      moreover have "s = t" if "t_args s = t_args t"
        using that less.prems(1,2) True nv by (cases s; cases t) (auto simp: okl_def)
      ultimately show ?thesis using lpo_gt_fun [OF nv, of ?P] lpo_gt_fun [OF nv(2,1), of ?P] all True by auto
    next
      case False
      then show ?thesis using assms(2) [OF okf(1,2)] lpo_gt_fun [OF nv, of ?P] lpo_gt_fun [OF nv(2,1), of ?P] all by blast
    qed
  qed
qed

section \<open>Well-foundedness\<close>

definition lpo_rel :: "'o \<Rightarrow> (Term_p \<times> Term_p) set" where
  "lpo_rel oc = {(t, s). okl oc s \<and> okl oc t \<and> lpo_gt (gtp oc) s t}"

definition prec_rel :: "'o \<Rightarrow> (int \<times> int) set" where
  "prec_rel oc = {(g, f). f \<in> symbols \<and> g \<in> symbols \<and> gtp oc f g}"

lemma wf_prec_rel:
  assumes "valid oc"
  shows "wf (prec_rel oc)"
proof (rule finite_acyclic_wf)
  show "finite (prec_rel oc)"
    by (rule finite_subset [of _ "symbols \<times> symbols"]) (auto simp: prec_rel_def kbo.finite_symbols)
  have "trans (prec_rel oc)" using prec_trans [OF assms] by (auto simp: trans_def prec_rel_def)
  moreover have "(f, f) \<notin> prec_rel oc" for f using prec_irrefl [OF assms] by (auto simp: prec_rel_def)
  ultimately show "acyclic (prec_rel oc)" by (simp add: acyclic_def)
qed

text \<open>The head and the arguments of a function term with accessible arguments.\<close>

definition lpo_acc :: "'o \<Rightarrow> (Term_p \<times> Term_p) set" where
  "lpo_acc oc = {(t, s). (t, s) \<in> lpo_rel oc \<and> s \<in> Wellfounded.acc (lpo_rel oc)}"

lemma wf_lpo_acc: "wf (lpo_acc oc)"
proof (rule wfUNIVI)
  fix P x
  assume step: "\<forall>x. (\<forall>y. (y, x) \<in> lpo_acc oc \<longrightarrow> P y) \<longrightarrow> P x"
  have "P x" if "x \<in> Wellfounded.acc (lpo_rel oc)" for x
    using that by (induction rule: acc.induct) (use step in \<open>auto simp: lpo_acc_def\<close>)
  then show "P x" using step by (cases "x \<in> Wellfounded.acc (lpo_rel oc)") (auto simp: lpo_acc_def)
qed

definition lpo_rank :: "'o \<Rightarrow> ((int \<times> Term_p list) \<times> (int \<times> Term_p list)) set" where
  "lpo_rank oc = prec_rel oc <*lex*> lex (lpo_acc oc)"

lemma wf_lpo_rank: "valid oc \<Longrightarrow> wf (lpo_rank oc)"
  unfolding lpo_rank_def by (intro wf_lex_prod wf_prec_rel wf_lex wf_lpo_acc)

lemma lpo_lex_acc:
  assumes "lpo_lex (gtp oc) ss ts" and "length ss = length ts" and "\<forall>s \<in> set ss. okl oc s \<and> s \<in> Wellfounded.acc (lpo_rel oc)"
    and "\<forall>t \<in> set ts. okl oc t"
  shows "(ts, ss) \<in> lex (lpo_acc oc)"
  using assms
proof (induction ss arbitrary: ts)
  case (Cons s ss)
  then obtain t ts' where ts: "ts = t # ts'" by (cases ts) auto
  then show ?case using Cons by (auto simp: lpo_acc_def lpo_rel_def)
qed simp

lemma lpo_acc_var: "TermIsFreeVar t \<Longrightarrow> t \<in> Wellfounded.acc (lpo_rel oc)"
  by (rule accI) (auto simp: lpo_rel_def lpo_gt_var)

lemma lpo_acc_fun:
  assumes "valid oc"
  shows "okl oc s \<Longrightarrow> \<forall>a \<in> set (t_args s). a \<in> Wellfounded.acc (lpo_rel oc) \<Longrightarrow> s \<in> Wellfounded.acc (lpo_rel oc)"
proof (induction "(f_code s, t_args s)" arbitrary: s rule: wf_induct_rule [OF wf_lpo_rank [OF assms]])
  case 1
  have below: "t \<in> Wellfounded.acc (lpo_rel oc)" if "okl oc t" "lpo_gt (gtp oc) s t" for t
    using that
  proof (induction t)
    case (TermCell g q ty ts)
    let ?t = "TermCell g q ty ts"
    have s: "\<not> TermIsFreeVar s" using lpo_gt_nonvar [OF TermCell.prems(2)] .
    show ?case
    proof (cases "TermIsFreeVar ?t")
      case t: False
      consider (alpha) a where "a \<in> set (t_args s)" "a = ?t \<or> lpo_gt (gtp oc) a ?t"
        | (beta) "gtp oc (f_code s) g \<or> f_code s = g \<and> lpo_lex (gtp oc) (t_args s) ts" "\<forall>c \<in> set ts. lpo_gt (gtp oc) s c"
        using lpo_gt_fun [OF s t] TermCell.prems(2) by auto
      then show ?thesis
      proof cases
        case alpha
        have acc: "a \<in> Wellfounded.acc (lpo_rel oc)" using 1(3) alpha(1) by blast
        show ?thesis
        proof (cases "a = ?t")
          case False
          then have "(?t, a) \<in> lpo_rel oc" using alpha okl_arg [OF 1(2)] TermCell.prems(1) by (simp add: lpo_rel_def)
          then show ?thesis using acc_downward [OF acc] by blast
        qed (use acc in simp)
      next
        case beta
        have okt: "\<forall>c \<in> set ts. okl oc c" "\<forall>a \<in> set (t_args s). okl oc a" using okl_arg [OF TermCell.prems(1)] okl_arg [OF 1(2)] by auto
        have args: "\<forall>c \<in> set (t_args ?t). c \<in> Wellfounded.acc (lpo_rel oc)" using TermCell.IH okt(1) beta(2) by simp
        have len: "length (t_args s) = length ts" if "f_code s = g"
          using okl_fun [OF 1(2) s] okl_fun [OF TermCell.prems(1) t] that by auto
        have "f_code s \<in> symbols" "g \<in> symbols" using okl_fun [OF 1(2) s] okl_fun [OF TermCell.prems(1) t] by auto
        then have "((f_code ?t, t_args ?t), (f_code s, t_args s)) \<in> lpo_rank oc"
          using beta(1) len lpo_lex_acc [of oc "t_args s" ts] okt 1(3) by (auto simp: lpo_rank_def prec_rel_def)
        then show ?thesis using 1(1) TermCell.prems(1) args by blast
      qed
    qed (rule lpo_acc_var)
  qed
  show ?case by (rule accI) (use below in \<open>auto simp: lpo_rel_def\<close>)
qed

lemma wf_lpo:
  assumes "valid oc"
  shows "wf (lpo_rel oc)"
proof -
  have "okl oc t \<Longrightarrow> t \<in> Wellfounded.acc (lpo_rel oc)" for t
  proof (induction t)
    case (TermCell f p ty as)
    then show ?case using lpo_acc_fun [OF assms TermCell.prems] okl_arg [OF TermCell.prems] by simp
  qed
  moreover have "t \<in> Wellfounded.acc (lpo_rel oc)" if "\<not> okl oc t" for t
    by (rule accI) (use that in \<open>simp add: lpo_rel_def\<close>)
  ultimately show ?thesis by (intro acc_wfI) blast
qed

end

end
