(* ===== verification/LPO.thy ===== *)
theory LPO
  imports LPO_Order
begin

text \<open>
  The lexicographic path orderings of \<open>ORDERINGS/cto_lpo.c\<close>, first-order build: \<open>LPO\<close>, the
  polynomial \<open>LPO4\<close>, and the variants of both on copies of the terms. The recursion counter
  \<open>static long recursion_depth\<close> of \<open>lpo_greater\<close> and of \<open>lpo4_greater\<close> is incremented at
  entry and decremented at exit, so its value is passed down here, and the global variable
  \<open>LPORecursionDepthLimit\<close> is the parameter \<open>lim\<close>.

  In the first-order build \<open>TermIsLambda\<close>, \<open>TermIsPhonyApp\<close>, \<open>TermIsDBVar\<close> and
  \<open>TermHasLambdaSubterm\<close> are false, so that \<open>LambdaEtaReduceDB\<close> and \<open>WHNF_step\<close> return their
  argument, \<open>WHNF_deref\<close> is \<open>TermDerefAlways\<close>, \<open>adjust_ho_deref\<close> does nothing and
  \<open>classify_head\<close> is constant.
\<close>

definition LPORecursionDepthLimit :: int where "LPORecursionDepthLimit = 1000"

section \<open>LPO\<close>

text \<open>The functions that call each other take the recursive call as a parameter.\<close>

type_synonym term_cmp = "Term_p \<Rightarrow> Term_p \<Rightarrow> nat \<Rightarrow> nat \<Rightarrow> CompareResult option"

definition lpo_term_dominates_args :: "term_cmp \<Rightarrow> Term_p \<Rightarrow> Term_p \<Rightarrow> nat \<Rightarrow> nat \<Rightarrow> bool option" where
  "lpo_term_dominates_args cmp s t deref_s deref_t =
     all_opt (\<lambda>i. do { a \<leftarrow> t_arg t i;
                       r \<leftarrow> cmp s a deref_s deref_t;
                       Some (r = to_greater) }) [0..<arity t]"

definition lpo_subterm_dominates_term :: "term_cmp \<Rightarrow> Term_p \<Rightarrow> Term_p \<Rightarrow> nat \<Rightarrow> nat \<Rightarrow> bool option" where
  "lpo_subterm_dominates_term cmp s t deref_s deref_t =
     any_opt (\<lambda>i. do { a \<leftarrow> t_arg s i;
                       res \<leftarrow> cmp a t deref_s deref_t;
                       Some (res = to_greater \<or> res = to_equal) }) [0..<arity s]"

definition lpo_lex_greater :: "term_cmp \<Rightarrow> Term_p \<Rightarrow> Term_p \<Rightarrow> nat \<Rightarrow> nat \<Rightarrow> CompareResult option" where
  "lpo_lex_greater cmp s t deref_s deref_t =
     do { res \<leftarrow> foldM_brk (\<lambda>i res. do { a \<leftarrow> t_arg s i; a' \<leftarrow> t_arg t i;
                                        res \<leftarrow> cmp a a' deref_s deref_t;
                                        Some (res, res \<noteq> to_equal) })
                   to_equal [0..<min (arity s) (arity t)];
          Some (if res = to_equal
                then if arity s > arity t then to_greater
                     else if arity s < arity t then to_notgteq else res
                else res) }"

lemma lpo_helpers_mono [partial_function_mono]:
  assumes "\<And>s t ds dt. mono_opt (\<lambda>f. g s t ds dt f)"
  shows "mono_opt (\<lambda>f. lpo_term_dominates_args (\<lambda>s t ds dt. g s t ds dt f) s t ds dt)"
    "mono_opt (\<lambda>f. lpo_subterm_dominates_term (\<lambda>s t ds dt. g s t ds dt f) s t ds dt)"
    "mono_opt (\<lambda>f. lpo_lex_greater (\<lambda>s t ds dt. g s t ds dt f) s t ds dt)"
  unfolding lpo_term_dominates_args_def lpo_subterm_dominates_term_def lpo_lex_greater_def
  by (intro bind_mono option.const_mono all_opt_mono any_opt_mono foldM_brk_mono assms)+

partial_function (option) lpo_greater ::
  "int \<Rightarrow> int \<Rightarrow> OCB \<Rightarrow> bindings \<Rightarrow> Term_p \<Rightarrow> Term_p \<Rightarrow> nat \<Rightarrow> nat \<Rightarrow> CompareResult option" where [code]:
  "lpo_greater lim recursion_depth ocb b s t deref_s deref_t =
     do { (s, deref_s) \<leftarrow> TermDeref b s deref_s;
          (t, deref_t) \<leftarrow> TermDeref b t deref_t;
          if recursion_depth > lim then Some to_uncomparable
          else if TermIsFreeVar s
          then Some (if s = t then to_equal
                     else if TermIsFreeVar t then to_uncomparable else to_notgteq)
          else if TermIsFreeVar t
          then do { sub \<leftarrow> TermIsSubterm b s t deref_s;
                    Some (if sub then to_greater else to_uncomparable) }
          else
            do { c \<leftarrow> OCBFunCompare ocb (f_code s) (f_code t);
                 case c of
                   to_greater \<Rightarrow>
                     do { dom \<leftarrow> lpo_term_dominates_args
                                   (\<lambda>s t ds dt. lpo_greater lim (recursion_depth + 1) ocb b s t ds dt) s t deref_s deref_t;
                          Some (if dom then to_greater else to_notgteq) }
                 | to_equal \<Rightarrow>
                     do { res2 \<leftarrow> lpo_lex_greater
                                    (\<lambda>s t ds dt. lpo_greater lim (recursion_depth + 1) ocb b s t ds dt) s t deref_s deref_t;
                          res \<leftarrow> (case res2 of
                                    to_greater \<Rightarrow>
                                      do { dom \<leftarrow> lpo_term_dominates_args
                                             (\<lambda>s t ds dt. lpo_greater lim (recursion_depth + 1) ocb b s t ds dt) s t deref_s deref_t;
                                           Some (if dom then to_greater else to_notgteq) }
                                  | to_equal \<Rightarrow> Some to_equal
                                  | _ \<Rightarrow> Some to_notgteq);
                          if res = to_notgteq \<and> arity s \<ge> 2
                          then do { dom \<leftarrow> lpo_subterm_dominates_term
                                             (\<lambda>s t ds dt. lpo_greater lim (recursion_depth + 1) ocb b s t ds dt) s t deref_s deref_t;
                                    Some (if dom then to_greater else res) }
                          else Some res }
                 | to_lesser \<Rightarrow>
                     do { dom \<leftarrow> lpo_subterm_dominates_term
                                   (\<lambda>s t ds dt. lpo_greater lim (recursion_depth + 1) ocb b s t ds dt) s t deref_s deref_t;
                          Some (if dom then to_greater else to_notgteq) }
                 | to_uncomparable \<Rightarrow>
                     do { dom \<leftarrow> lpo_subterm_dominates_term
                                   (\<lambda>s t ds dt. lpo_greater lim (recursion_depth + 1) ocb b s t ds dt) s t deref_s deref_t;
                          Some (if dom then to_greater else to_notgteq) }
                 | _ \<Rightarrow> None } }"

definition LPOGreater :: "int \<Rightarrow> OCB \<Rightarrow> bindings \<Rightarrow> Term_p \<Rightarrow> Term_p \<Rightarrow> nat \<Rightarrow> nat \<Rightarrow> bool option" where
  "LPOGreater lim ocb b s t deref_s deref_t =
     do { r \<leftarrow> lpo_greater lim 0 ocb b s t deref_s deref_t; Some (r = to_greater) }"

definition LPOCompare :: "int \<Rightarrow> OCB \<Rightarrow> bindings \<Rightarrow> Term_p \<Rightarrow> Term_p \<Rightarrow> nat \<Rightarrow> nat \<Rightarrow> CompareResult option" where
  "LPOCompare lim ocb b s t deref_s deref_t =
     do { res \<leftarrow> lpo_greater lim 0 ocb b s t deref_s deref_t;
          if res \<in> {to_greater, to_lesser, to_equal, to_uncomparable} then Some res
          else if res = to_notgteq
          then do { res \<leftarrow> lpo_greater lim 0 ocb b t s deref_t deref_s;
                    case res of
                      to_greater \<Rightarrow> Some to_lesser
                    | to_uncomparable \<Rightarrow> Some to_uncomparable
                    | to_notgteq \<Rightarrow> Some to_uncomparable
                    | _ \<Rightarrow> None }
          else None }"

section \<open>LPO4 on terms in context\<close>

type_synonym term_gt = "Term_p \<Rightarrow> Term_p \<Rightarrow> nat \<Rightarrow> nat \<Rightarrow> bool option"

definition lpo4_alpha :: "term_gt \<Rightarrow> bindings \<Rightarrow> Term_p \<Rightarrow> nat \<Rightarrow> Term_p \<Rightarrow> nat \<Rightarrow> nat \<Rightarrow> bool option" where
  "lpo4_alpha gt b s pos t deref_s deref_t =
     any_opt (\<lambda>pos. do { a \<leftarrow> t_arg s pos;
                         eq \<leftarrow> TermStructEqualDeref b a t deref_s deref_t;
                         if eq then Some True else gt a t deref_s deref_t }) [pos..<arity s]"

definition lpo4_majo :: "term_gt \<Rightarrow> Term_p \<Rightarrow> Term_p \<Rightarrow> nat \<Rightarrow> nat \<Rightarrow> nat \<Rightarrow> bool option" where
  "lpo4_majo gt s t pos deref_s deref_t =
     all_opt (\<lambda>pos. do { a \<leftarrow> t_arg t pos; gt s a deref_s deref_t }) [pos..<arity t]"

definition lpo4_lex_ma :: "term_gt \<Rightarrow> bindings \<Rightarrow> Term_p \<Rightarrow> Term_p \<Rightarrow> nat \<Rightarrow> nat \<Rightarrow> nat \<Rightarrow> bool option" where
  "lpo4_lex_ma gt b s t pos deref_s deref_t =
     do { c_assert (f_code s = f_code t);
          foldM_brk (\<lambda>pos res.
              if pos \<ge> arity t then Some (True, True)
              else do { a \<leftarrow> t_arg s pos; a' \<leftarrow> t_arg t pos;
                        eq \<leftarrow> TermStructEqualDeref b a a' deref_s deref_t;
                        if eq then Some (res, False)
                        else do { g \<leftarrow> gt a a' deref_s deref_t;
                                  r \<leftarrow> (if g then lpo4_majo gt s t (pos + 1) deref_s deref_t
                                        else lpo4_alpha gt b s (pos + 1) t deref_s deref_t);
                                  Some (r, True) } })
            False [pos..<arity s] }"

lemma lpo4_helpers_mono [partial_function_mono]:
  assumes "\<And>s t ds dt. mono_opt (\<lambda>f. g s t ds dt f)"
  shows "mono_opt (\<lambda>f. lpo4_alpha (\<lambda>s t ds dt. g s t ds dt f) b s pos t ds dt)"
    "mono_opt (\<lambda>f. lpo4_majo (\<lambda>s t ds dt. g s t ds dt f) s t pos ds dt)"
    "mono_opt (\<lambda>f. lpo4_lex_ma (\<lambda>s t ds dt. g s t ds dt f) b s t pos ds dt)"
  unfolding lpo4_alpha_def lpo4_majo_def lpo4_lex_ma_def
  by (intro bind_mono if_mono option.const_mono all_opt_mono any_opt_mono foldM_brk_mono assms)+

text \<open>How \<open>lpo4_greater\<close> dereferences its arguments.\<close>

definition lpo4_deref :: "bindings \<Rightarrow> Term_p \<Rightarrow> nat \<Rightarrow> (Term_p \<times> nat) option" where
  "lpo4_deref b t deref =
     (if deref = DEREF_NEVER then Some (t, deref)
      else if deref = DEREF_ALWAYS then do { t \<leftarrow> TermDerefAlways b t; Some (t, deref) }
      else TermDeref b t deref)"

partial_function (option) lpo4_greater ::
  "int \<Rightarrow> int \<Rightarrow> OCB \<Rightarrow> bindings \<Rightarrow> Term_p \<Rightarrow> Term_p \<Rightarrow> nat \<Rightarrow> nat \<Rightarrow> bool option" where [code]:
  "lpo4_greater lim recursion_depth ocb b s t deref_s deref_t =
     (if recursion_depth > lim then Some False
      else do { (s, deref_s) \<leftarrow> lpo4_deref b s deref_s;
                (t, deref_t) \<leftarrow> lpo4_deref b t deref_t;
                if TermIsFreeVar s then Some False
                else if TermIsFreeVar t then TermIsSubterm b s t deref_s
                else
                  do { c_assert (f_code s > 0);
                       c_assert (f_code t > 0);
                       f_code_res \<leftarrow> OCBFunCompare ocb (f_code s) (f_code t);
                       if f_code_res = to_greater
                       then lpo4_majo (\<lambda>s t ds dt. lpo4_greater lim (recursion_depth + 1) ocb b s t ds dt) s t 0 deref_s deref_t
                       else if f_code_res = to_equal
                       then lpo4_lex_ma (\<lambda>s t ds dt. lpo4_greater lim (recursion_depth + 1) ocb b s t ds dt) b s t 0 deref_s deref_t
                       else lpo4_alpha (\<lambda>s t ds dt. lpo4_greater lim (recursion_depth + 1) ocb b s t ds dt) b s 0 t deref_s deref_t } })"

definition LPO4Greater :: "int \<Rightarrow> OCB \<Rightarrow> bindings \<Rightarrow> Term_p \<Rightarrow> Term_p \<Rightarrow> nat \<Rightarrow> nat \<Rightarrow> bool option" where
  "LPO4Greater lim ocb b s t deref_s deref_t = lpo4_greater lim 0 ocb b s t deref_s deref_t"

definition LPO4Compare :: "int \<Rightarrow> OCB \<Rightarrow> bindings \<Rightarrow> Term_p \<Rightarrow> Term_p \<Rightarrow> nat \<Rightarrow> nat \<Rightarrow> CompareResult option" where
  "LPO4Compare lim ocb b s t deref_s deref_t =
     do { eq \<leftarrow> TermStructEqualDeref b s t deref_s deref_t;
          if eq then Some to_equal
          else do { g \<leftarrow> lpo4_greater lim 0 ocb b s t deref_s deref_t;
                    if g then Some to_greater
                    else do { l \<leftarrow> lpo4_greater lim 0 ocb b t s deref_t deref_s;
                              Some (if l then to_lesser else to_uncomparable) } } }"

section \<open>LPO4 on copies\<close>

text \<open>
  These functions recurse over the position; the recursion of \<open>lpo4_copy_alpha\<close> and
  \<open>lpo4_copy_majo\<close> is the loop of \<open>any_opt\<close> and \<open>all_opt\<close>. There is no depth limit. Nothing is
  dereferenced, so the bindings are not an argument.
\<close>

definition lpo4_copy_alpha :: "(Term_p \<Rightarrow> Term_p \<Rightarrow> bool option) \<Rightarrow> Term_p \<Rightarrow> nat \<Rightarrow> Term_p \<Rightarrow> bool option" where
  "lpo4_copy_alpha gt s pos t =
     any_opt (\<lambda>pos. do { a \<leftarrow> t_arg s pos;
                         eq \<leftarrow> TermStructEqualNoDeref a t;
                         if eq then Some True else gt a t }) [pos..<arity s]"

definition lpo4_copy_majo :: "(Term_p \<Rightarrow> Term_p \<Rightarrow> bool option) \<Rightarrow> Term_p \<Rightarrow> Term_p \<Rightarrow> nat \<Rightarrow> bool option" where
  "lpo4_copy_majo gt s t pos = all_opt (\<lambda>pos. do { a \<leftarrow> t_arg t pos; gt s a }) [pos..<arity t]"

definition lpo4_copy_lex_ma :: "(Term_p \<Rightarrow> Term_p \<Rightarrow> bool option) \<Rightarrow> Term_p \<Rightarrow> Term_p \<Rightarrow> nat \<Rightarrow> bool option" where
  "lpo4_copy_lex_ma gt s t pos =
     do { c_assert (f_code s = f_code t);
          foldM_brk (\<lambda>pos res.
              do { a \<leftarrow> t_arg s pos; a' \<leftarrow> t_arg t pos;
                   eq \<leftarrow> TermStructEqualNoDeref a a';
                   if eq then Some (res, False)
                   else do { g \<leftarrow> gt a a';
                             r \<leftarrow> (if g then lpo4_copy_majo gt s t (pos + 1)
                                   else lpo4_copy_alpha gt s (pos + 1) t);
                             Some (r, True) } })
            False [pos..<arity s] }"

lemma lpo4_copy_helpers_mono [partial_function_mono]:
  assumes "\<And>s t. mono_opt (\<lambda>f. g s t f)"
  shows "mono_opt (\<lambda>f. lpo4_copy_alpha (\<lambda>s t. g s t f) s pos t)"
    "mono_opt (\<lambda>f. lpo4_copy_majo (\<lambda>s t. g s t f) s t pos)"
    "mono_opt (\<lambda>f. lpo4_copy_lex_ma (\<lambda>s t. g s t f) s t pos)"
  unfolding lpo4_copy_alpha_def lpo4_copy_majo_def lpo4_copy_lex_ma_def
  by (intro bind_mono if_mono option.const_mono all_opt_mono any_opt_mono foldM_brk_mono assms)+

text \<open>\<open>TBTermIsSubterm\<close> is \<open>TermIsSubterm\<close> with \<open>DEREF_NEVER\<close>.\<close>

partial_function (option) lpo4_copy_greater :: "OCB \<Rightarrow> bindings \<Rightarrow> Term_p \<Rightarrow> Term_p \<Rightarrow> bool option" where [code]:
  "lpo4_copy_greater ocb b s t =
     (if TermIsFreeVar s then Some False
      else if TermIsFreeVar t then TermIsSubterm b s t DEREF_NEVER
      else
        do { f_code_res \<leftarrow> OCBFunCompare ocb (f_code s) (f_code t);
             if f_code_res = to_greater then lpo4_copy_majo (\<lambda>s t. lpo4_copy_greater ocb b s t) s t 0
             else if f_code_res = to_equal then lpo4_copy_lex_ma (\<lambda>s t. lpo4_copy_greater ocb b s t) s t 0
             else lpo4_copy_alpha (\<lambda>s t. lpo4_copy_greater ocb b s t) s 0 t })"

text \<open>
  The copies are freed at the end, which the model does not see; each function asserts that the
  result is that of the LPO without copies.
\<close>

definition lpo_copy :: "bindings \<Rightarrow> Term_p \<Rightarrow> nat \<Rightarrow> Term_p option" where
  "lpo_copy b t deref = (if deref = DEREF_NEVER then Some t else TermCopyKeepVars b t deref)"

definition LPO4GreaterCopy :: "int \<Rightarrow> OCB \<Rightarrow> bindings \<Rightarrow> Term_p \<Rightarrow> Term_p \<Rightarrow> nat \<Rightarrow> nat \<Rightarrow> bool option" where
  "LPO4GreaterCopy lim ocb b s t deref_s deref_t =
     do { s1 \<leftarrow> lpo_copy b s deref_s;
          t1 \<leftarrow> lpo_copy b t deref_t;
          res \<leftarrow> lpo4_copy_greater ocb b s1 t1;
          r \<leftarrow> LPOGreater lim ocb b s t deref_s deref_t;
          c_assert (res = r);
          Some res }"

definition LPO4CompareCopy :: "int \<Rightarrow> OCB \<Rightarrow> bindings \<Rightarrow> Term_p \<Rightarrow> Term_p \<Rightarrow> nat \<Rightarrow> nat \<Rightarrow> CompareResult option" where
  "LPO4CompareCopy lim ocb b s t deref_s deref_t =
     do { s1 \<leftarrow> lpo_copy b s deref_s;
          t1 \<leftarrow> lpo_copy b t deref_t;
          eq \<leftarrow> TermStructEqualNoDeref s1 t1;
          res \<leftarrow> (if eq then Some to_equal
                  else do { g \<leftarrow> lpo4_copy_greater ocb b s1 t1;
                            if g then Some to_greater
                            else do { l \<leftarrow> lpo4_copy_greater ocb b t1 s1;
                                      Some (if l then to_lesser else to_uncomparable) } });
          r \<leftarrow> LPOCompare lim ocb b s t deref_s deref_t;
          c_assert (res = r);
          Some res }"

definition LPOGreaterCopy :: "int \<Rightarrow> OCB \<Rightarrow> bindings \<Rightarrow> Term_p \<Rightarrow> Term_p \<Rightarrow> nat \<Rightarrow> nat \<Rightarrow> bool option" where
  "LPOGreaterCopy lim ocb b s t deref_s deref_t =
     do { s1 \<leftarrow> lpo_copy b s deref_s;
          t1 \<leftarrow> lpo_copy b t deref_t;
          res \<leftarrow> LPOGreater lim ocb b s1 t1 DEREF_NEVER DEREF_NEVER;
          r \<leftarrow> LPOGreater lim ocb b s t deref_s deref_t;
          c_assert (res = r);
          Some res }"

definition LPOCompareCopy :: "int \<Rightarrow> OCB \<Rightarrow> bindings \<Rightarrow> Term_p \<Rightarrow> Term_p \<Rightarrow> nat \<Rightarrow> nat \<Rightarrow> CompareResult option" where
  "LPOCompareCopy lim ocb b s t deref_s deref_t =
     do { s1 \<leftarrow> lpo_copy b s deref_s;
          t1 \<leftarrow> lpo_copy b t deref_t;
          res \<leftarrow> LPOCompare lim ocb b s1 t1 DEREF_NEVER DEREF_NEVER;
          r \<leftarrow> LPOCompare lim ocb b s t deref_s deref_t;
          c_assert (res = r);
          Some res }"

end
