(* ===== verification/LPO_Eval.thy ===== *)
theory LPO_Eval
  imports LPO
begin

text \<open>
  The two LPO recursions as functions of the dereferenced terms. The recursion limit of the
  code is fuel: \<open>lpo_eval\<close> and \<open>lpo4_eval\<close> recurse over the number of calls that may still be
  nested. Whatever the fuel, a positive answer is right; with more fuel than the sum of the
  heights of the two terms the answers are exactly those of the textbook ordering.
\<close>

section \<open>The precedence of a control block\<close>

abbreviation ocb_gt :: "OCB \<Rightarrow> int \<Rightarrow> int \<Rightarrow> bool" where
  "ocb_gt ocb f g \<equiv> OCBFunCompare ocb f g = Some to_greater"

interpretation lpo: lpo_order ocb_gt ocb_sig ocb_prec_ok
proof unfold_locales
  fix oc f g h
  assume ok: "ocb_prec_ok oc" and f: "f \<in> symbols"
  show "\<not> ocb_gt oc f f" using ocb_prec.cmp_some [OF ok f f] by auto
  show "ocb_gt oc f h" if "g \<in> symbols" "h \<in> symbols" "ocb_gt oc f g" "ocb_gt oc g h"
    using ocb_prec.cmp_trans [OF ok f that] .
qed

lemma lpo_okl: "lpo.okl ocb t \<longleftrightarrow> kbo_term ocb t"
  by (simp add: lpo.okl_def kbo_term_def)

lemma copies_kbo_term: "copies ocb b t d u \<Longrightarrow> kbo_term ocb u"
  using copies_okt kbo_okt by blast

lemma head_cmp:
  assumes "ocb_prec_ok ocb" and "kbo_term ocb s" and "kbo_term ocb t" and "\<not> TermIsFreeVar s" and "\<not> TermIsFreeVar t"
  obtains r where "OCBFunCompare ocb (f_code s) (f_code t) = Some r" "r \<in> proper_results" "r = to_equal \<longleftrightarrow> f_code s = f_code t"
proof -
  have "f_code s \<in> symbols" "f_code t \<in> symbols" using lpo.okl_fun assms(2-5) lpo_okl by blast+
  then show thesis using ocb_prec.cmp_some [OF assms(1)] that by blast
qed

text \<open>The height of a term bounds the nesting of calls.\<close>

fun t_height :: "Term_p \<Rightarrow> nat" where
  "t_height (TermCell f p ty as) = foldr (\<lambda>a n. max (Suc (t_height a)) n) as 0"

lemma t_height_arg: "a \<in> set (t_args t) \<Longrightarrow> t_height a < t_height t"
proof -
  have "a \<in> set as \<Longrightarrow> t_height a < foldr (\<lambda>a n. max (Suc (t_height a)) n) as 0" for as
    by (induction as) auto
  then show "a \<in> set (t_args t) \<Longrightarrow> t_height a < t_height t" by (cases t) simp
qed

text \<open>A greater term is greater than the arguments of the smaller one.\<close>

lemma lpo_dominates:
  assumes "ocb_prec_ok ocb" and "kbo_term ocb s" and "kbo_term ocb t" and "lpo_gt (ocb_gt ocb) s t \<or> s = t"
    and "\<not> TermIsFreeVar t" and "c \<in> set (t_args t)"
  shows "lpo_gt (ocb_gt ocb) s c"
proof -
  have "lpo_gt (ocb_gt ocb) t c" using lpo_arg assms(5,6) .
  moreover have "kbo_term ocb c" using lpo.okl_arg assms(3,6) lpo_okl by blast
  ultimately show ?thesis using lpo.lpo_trans [OF assms(1), of s t c] assms(2-4) lpo_okl by blast
qed

lemma lpo_irrefl': "ocb_prec_ok ocb \<Longrightarrow> kbo_term ocb s \<Longrightarrow> \<not> lpo_gt (ocb_gt ocb) s s"
  using lpo.lpo_irrefl lpo_okl by blast

section \<open>LPO\<close>

fun lex_val :: "(Term_p \<Rightarrow> Term_p \<Rightarrow> CompareResult) \<Rightarrow> Term_p list \<Rightarrow> Term_p list \<Rightarrow> CompareResult" where
  "lex_val v (s # ss) (t # ts) = (if v s t = to_equal then lex_val v ss ts else v s t)"
| "lex_val v _ _ = to_equal"

definition lpo_step :: "OCB \<Rightarrow> (Term_p \<Rightarrow> Term_p \<Rightarrow> CompareResult) \<Rightarrow> Term_p \<Rightarrow> Term_p \<Rightarrow> CompareResult" where
  "lpo_step ocb v s t =
     (let majo = (\<forall>c \<in> set (t_args t). v s c = to_greater);
          alpha = (\<exists>a \<in> set (t_args s). v a t = to_greater \<or> v a t = to_equal) in
      if TermIsFreeVar s
      then if s = t then to_equal else if TermIsFreeVar t then to_uncomparable else to_notgteq
      else if TermIsFreeVar t then if t \<in> term_vars s then to_greater else to_uncomparable
      else if ocb_gt ocb (f_code s) (f_code t) then if majo then to_greater else to_notgteq
      else if f_code s = f_code t
      then let r = lex_val v (t_args s) (t_args t) in
           if r = to_equal then to_equal
           else if r = to_greater \<and> majo then to_greater
           else if arity s \<ge> 2 \<and> alpha then to_greater
           else to_notgteq
      else if alpha then to_greater else to_notgteq)"

primrec lpo_eval :: "OCB \<Rightarrow> nat \<Rightarrow> Term_p \<Rightarrow> Term_p \<Rightarrow> CompareResult" where
  "lpo_eval ocb 0 s t = to_uncomparable"
| "lpo_eval ocb (Suc n) s t = lpo_step ocb (lpo_eval ocb n) s t"

lemma lex_val_equal:
  "length ss = length ts \<Longrightarrow> (\<And>s t. s \<in> set ss \<Longrightarrow> t \<in> set ts \<Longrightarrow> v s t = to_equal \<Longrightarrow> s = t) \<Longrightarrow>
   lex_val v ss ts = to_equal \<Longrightarrow> ss = ts"
  by (induction ss ts rule: list_induct2) (auto split: if_splits)

lemma lex_val_greater:
  "length ss = length ts \<Longrightarrow> (\<And>s t. s \<in> set ss \<Longrightarrow> t \<in> set ts \<Longrightarrow> v s t = to_equal \<Longrightarrow> s = t) \<Longrightarrow>
   (\<And>s t. s \<in> set ss \<Longrightarrow> t \<in> set ts \<Longrightarrow> v s t = to_greater \<Longrightarrow> lpo_gt P s t) \<Longrightarrow>
   lex_val v ss ts = to_greater \<Longrightarrow> lpo_lex P ss ts"
  by (induction ss ts rule: list_induct2) (auto split: if_splits)

lemma lex_val_complete:
  "length ss = length ts \<Longrightarrow> (\<And>s t. s \<in> set ss \<Longrightarrow> t \<in> set ts \<Longrightarrow> s = t \<Longrightarrow> v s t = to_equal) \<Longrightarrow>
   (\<And>s t. s \<in> set ss \<Longrightarrow> t \<in> set ts \<Longrightarrow> lpo_gt P s t \<Longrightarrow> v s t = to_greater) \<Longrightarrow>
   lpo_lex P ss ts \<Longrightarrow> lex_val v ss ts = to_greater"
  by (induction ss ts rule: list_induct2) auto

lemma lex_val_refl: "(\<And>s. s \<in> set ss \<Longrightarrow> v s s = to_equal) \<Longrightarrow> lex_val v ss ss = to_equal"
  by (induction ss) auto

text \<open>The pairs a call compares again.\<close>

definition lpo_pairs :: "Term_p \<Rightarrow> Term_p \<Rightarrow> (Term_p \<times> Term_p) set" where
  "lpo_pairs s t = {s} \<times> set (t_args t) \<union> set (t_args s) \<times> insert t (set (t_args t))"

lemma lpo_pairs_ok: "(a, c) \<in> lpo_pairs s t \<Longrightarrow> kbo_term ocb s \<Longrightarrow> kbo_term ocb t \<Longrightarrow> kbo_term ocb a \<and> kbo_term ocb c"
  using lpo.okl_arg lpo_okl by (auto simp: lpo_pairs_def)

lemma lpo_pairs_height: "(a, c) \<in> lpo_pairs s t \<Longrightarrow> t_height a + t_height c < t_height s + t_height t"
  by (auto simp: lpo_pairs_def dest!: t_height_arg)

lemma lpo_pairs_size: "(a, c) \<in> lpo_pairs s t \<Longrightarrow> size a + size c < size s + size t"
  by (auto simp: lpo_pairs_def dest!: size_arg)

lemma same_args:
  assumes "kbo_term ocb s" and "kbo_term ocb t" and "\<not> TermIsFreeVar s" and "f_code s = f_code t"
  shows "length (t_args s) = length (t_args t)" "s = t \<longleftrightarrow> t_args s = t_args t"
  using same_head(3,4) [of "ocb_sig ocb" s t] assms by (simp_all add: kbo_term_def arity_def)

lemma lpo_step_sound:
  assumes "ocb_prec_ok ocb" and "kbo_term ocb s" and "kbo_term ocb t"
    and v: "\<And>a c. (a, c) \<in> lpo_pairs s t \<Longrightarrow> v a c = to_greater \<Longrightarrow> lpo_gt (ocb_gt ocb) a c"
      "\<And>a c. (a, c) \<in> lpo_pairs s t \<Longrightarrow> v a c = to_equal \<Longrightarrow> a = c"
  shows "lpo_step ocb v s t = to_greater \<Longrightarrow> lpo_gt (ocb_gt ocb) s t" and "lpo_step ocb v s t = to_equal \<Longrightarrow> s = t"
proof -
  have alpha: "lpo_gt (ocb_gt ocb) s t"
    if "\<not> TermIsFreeVar s" "\<not> TermIsFreeVar t" "a \<in> set (t_args s)" "v a t = to_greater \<or> v a t = to_equal" for a
    using lpo_alpha [OF that(1-3)] v [of a t] that(3,4) by (auto simp: lpo_pairs_def)
  have majo: "\<forall>c \<in> set (t_args t). lpo_gt (ocb_gt ocb) s c" if "\<forall>c \<in> set (t_args t). v s c = to_greater"
    using v(1) that by (auto simp: lpo_pairs_def)
  show "lpo_gt (ocb_gt ocb) s t" if g: "lpo_step ocb v s t = to_greater"
  proof (cases "TermIsFreeVar s \<or> TermIsFreeVar t")
    case True
    then show ?thesis using g lpo_gt_var(2) [of t] by (auto simp: lpo_step_def Let_def split: if_splits)
  next
    case False
    then have nv: "\<not> TermIsFreeVar s" "\<not> TermIsFreeVar t" by auto
    have lex: "lpo_lex (ocb_gt ocb) (t_args s) (t_args t)"
      if "f_code s = f_code t" "lex_val v (t_args s) (t_args t) = to_greater"
      using lex_val_greater [OF same_args(1) [OF assms(2,3) nv(1) that(1)] _ _ that(2)] v by (auto simp: lpo_pairs_def)
    show ?thesis
      using g nv alpha majo lex lpo_gt_fun [OF nv, of "ocb_gt ocb"] by (auto simp: lpo_step_def Let_def split: if_splits)
  qed
  show "s = t" if g: "lpo_step ocb v s t = to_equal"
  proof (cases "TermIsFreeVar s \<or> TermIsFreeVar t")
    case True
    then show ?thesis using g by (auto simp: lpo_step_def Let_def split: if_splits)
  next
    case False
    then have nv: "\<not> TermIsFreeVar s" by auto
    have f: "f_code s = f_code t" and l: "lex_val v (t_args s) (t_args t) = to_equal"
      using g False by (auto simp: lpo_step_def Let_def split: if_splits)
    have "t_args s = t_args t"
      by (rule lex_val_equal [OF same_args(1) [OF assms(2,3) nv f] _ l]) (use v(2) in \<open>auto simp: lpo_pairs_def\<close>)
    then show ?thesis using same_args(2) [OF assms(2,3) nv f] by blast
  qed
qed

lemma lpo_step_complete:
  assumes "ocb_prec_ok ocb" and "kbo_term ocb s" and "kbo_term ocb t"
    and v: "\<And>a c. (a, c) \<in> lpo_pairs s t \<Longrightarrow> lpo_gt (ocb_gt ocb) a c \<Longrightarrow> v a c = to_greater"
      "\<And>a. a \<in> set (t_args s) \<Longrightarrow> a = t \<or> a \<in> set (t_args t) \<Longrightarrow> v a a = to_equal"
      "\<And>a c. (a, c) \<in> lpo_pairs s t \<Longrightarrow> v a c = to_greater \<Longrightarrow> lpo_gt (ocb_gt ocb) a c"
      "\<And>a c. (a, c) \<in> lpo_pairs s t \<Longrightarrow> v a c = to_equal \<Longrightarrow> a = c"
  shows "lpo_gt (ocb_gt ocb) s t \<Longrightarrow> lpo_step ocb v s t = to_greater" and "s = t \<Longrightarrow> lpo_step ocb v s t = to_equal"
proof -
  show "lpo_step ocb v s t = to_equal" if st: "s = t"
  proof (cases "TermIsFreeVar s")
    case True
    then show ?thesis using st by (simp add: lpo_step_def Let_def)
  next
    case False
    obtain r where "OCBFunCompare ocb (f_code s) (f_code t) = Some r" "r = to_equal"
      using head_cmp [OF assms(1-3) False] False st by auto
    moreover have "lex_val v (t_args s) (t_args t) = to_equal"
      unfolding st by (rule lex_val_refl) (use v(2) st in auto)
    ultimately show ?thesis using False st by (simp add: lpo_step_def Let_def)
  qed
  show "lpo_step ocb v s t = to_greater" if g: "lpo_gt (ocb_gt ocb) s t"
  proof (cases "TermIsFreeVar t")
    case True
    then show ?thesis using g lpo_gt_var(2) [OF True] by (simp add: lpo_step_def Let_def)
  next
    case t: False
    have s: "\<not> TermIsFreeVar s" using lpo_gt_nonvar [OF g] .
    have majo: "\<forall>c \<in> set (t_args t). v s c = to_greater"
      using lpo_dominates [OF assms(1-3) _ t] g v(1) by (auto simp: lpo_pairs_def)
    have alpha: "\<exists>a \<in> set (t_args s). v a t = to_greater \<or> v a t = to_equal"
      if "\<exists>a \<in> set (t_args s). a = t \<or> lpo_gt (ocb_gt ocb) a t"
      using that v(1,2) by (auto simp: lpo_pairs_def)
    show ?thesis
    proof (cases "ocb_gt ocb (f_code s) (f_code t)")
      case True
      then show ?thesis using s t majo by (simp add: lpo_step_def Let_def)
    next
      case ngt: False
      show ?thesis
      proof (cases "f_code s = f_code t")
        case False
        then have "\<exists>a \<in> set (t_args s). a = t \<or> lpo_gt (ocb_gt ocb) a t"
          using g lpo_gt_fun [OF s t] ngt by blast
        then show ?thesis using alpha s t ngt False by (simp add: lpo_step_def Let_def)
      next
        case f: True
        note len = same_args [OF assms(2,3) s f]
        have ne: "lex_val v (t_args s) (t_args t) \<noteq> to_equal"
        proof
          assume l: "lex_val v (t_args s) (t_args t) = to_equal"
          have "t_args s = t_args t"
            by (rule lex_val_equal [OF len(1) _ l]) (use v(4) in \<open>auto simp: lpo_pairs_def\<close>)
          then show False using len(2) g lpo_irrefl' [OF assms(1,2)] by blast
        qed
        show ?thesis
        proof (cases "lpo_lex (ocb_gt ocb) (t_args s) (t_args t)")
          case True
          have "lex_val v (t_args s) (t_args t) = to_greater"
            by (rule lex_val_complete [OF len(1) _ _ True]) (use v(1,2) in \<open>auto simp: lpo_pairs_def\<close>)
          then show ?thesis using s t ngt f majo by (simp add: lpo_step_def Let_def)
        next
          case nlex: False
          then obtain a where a: "a \<in> set (t_args s)" "a = t \<or> lpo_gt (ocb_gt ocb) a t"
            using g lpo_gt_fun [OF s t] ngt by blast
          have "2 \<le> arity s"
          proof (rule ccontr)
            assume "\<not> 2 \<le> arity s"
            then have one: "t_args s = [a]" using a(1)
              by (cases "t_args s"; cases "tl (t_args s)") (auto simp: arity_def)
            then obtain c where c: "t_args t = [c]" using len(1) by (cases "t_args t") auto
            have "kbo_term ocb a" using lpo.okl_arg assms(2) a(1) lpo_okl by blast
            then have "lpo_gt (ocb_gt ocb) a c" using lpo_dominates [OF assms(1) _ assms(3) _ t] a(2) c by auto
            then show False using nlex one c by simp
          qed
          then show ?thesis using s t ngt f ne majo alpha a by (auto simp: lpo_step_def Let_def)
        qed
      qed
    qed
  qed
qed

lemma lpo_eval_sound:
  assumes "ocb_prec_ok ocb"
  shows "kbo_term ocb s \<Longrightarrow> kbo_term ocb t \<Longrightarrow>
    (lpo_eval ocb n s t = to_greater \<longrightarrow> lpo_gt (ocb_gt ocb) s t) \<and> (lpo_eval ocb n s t = to_equal \<longrightarrow> s = t)"
proof (induction n arbitrary: s t)
  case (Suc n)
  have "(lpo_eval ocb n a c = to_greater \<longrightarrow> lpo_gt (ocb_gt ocb) a c) \<and> (lpo_eval ocb n a c = to_equal \<longrightarrow> a = c)"
    if "(a, c) \<in> lpo_pairs s t" for a c using Suc.IH lpo_pairs_ok [OF that Suc.prems] by blast
  then show ?case using lpo_step_sound [OF assms Suc.prems, of "lpo_eval ocb n"] by auto
qed simp

lemma lpo_eval_complete:
  assumes "ocb_prec_ok ocb"
  shows "kbo_term ocb s \<Longrightarrow> kbo_term ocb t \<Longrightarrow> t_height s + t_height t < n \<Longrightarrow>
    (lpo_gt (ocb_gt ocb) s t \<longrightarrow> lpo_eval ocb n s t = to_greater) \<and> (s = t \<longrightarrow> lpo_eval ocb n s t = to_equal)"
proof (induction n arbitrary: s t)
  case (Suc n)
  let ?v = "lpo_eval ocb n"
  have v: "(lpo_gt (ocb_gt ocb) a c \<longrightarrow> ?v a c = to_greater) \<and> (a = c \<longrightarrow> ?v a c = to_equal)"
    if "(a, c) \<in> lpo_pairs s t" for a c
    using Suc.IH [of a c] lpo_pairs_ok [OF that Suc.prems(1,2)] lpo_pairs_height [OF that] Suc.prems(3) by linarith
  have snd: "(?v a c = to_greater \<longrightarrow> lpo_gt (ocb_gt ocb) a c) \<and> (?v a c = to_equal \<longrightarrow> a = c)"
    if "(a, c) \<in> lpo_pairs s t" for a c
    using lpo_eval_sound [OF assms] lpo_pairs_ok [OF that Suc.prems(1,2)] by blast
  have refl: "?v a a = to_equal" if "a \<in> set (t_args s)" "a = t \<or> a \<in> set (t_args t)" for a
    using v [of a a] that by (auto simp: lpo_pairs_def)
  have v1: "\<And>a c. (a, c) \<in> lpo_pairs s t \<Longrightarrow> lpo_gt (ocb_gt ocb) a c \<Longrightarrow> ?v a c = to_greater"
    and s1: "\<And>a c. (a, c) \<in> lpo_pairs s t \<Longrightarrow> ?v a c = to_greater \<Longrightarrow> lpo_gt (ocb_gt ocb) a c"
    and s2: "\<And>a c. (a, c) \<in> lpo_pairs s t \<Longrightarrow> ?v a c = to_equal \<Longrightarrow> a = c" using v snd by blast+
  note step = lpo_step_complete [of ocb s t ?v, OF assms Suc.prems(1,2) v1 refl s1 s2]
  show ?case unfolding lpo_eval.simps using step by blast
qed simp

lemma lpo_eval_uncomparable:
  "lpo_eval ocb (Suc n) s t = to_uncomparable \<Longrightarrow> TermIsFreeVar t"
  by (auto simp: lpo_step_def Let_def split: if_splits)

lemma lpo_eval_values: "lpo_eval ocb n s t \<in> {to_greater, to_equal, to_uncomparable, to_notgteq}"
  by (cases n) (auto simp: lpo_step_def Let_def)

section \<open>LPO4\<close>

fun lex4 :: "(Term_p \<Rightarrow> Term_p \<Rightarrow> bool) \<Rightarrow> Term_p \<Rightarrow> Term_p \<Rightarrow> Term_p list \<Rightarrow> Term_p list \<Rightarrow> bool" where
  "lex4 v s t (a # as) (c # cs) =
     (if a = c then lex4 v s t as cs
      else if v a c then \<forall>c' \<in> set cs. v s c'
      else \<exists>a' \<in> set as. a' = t \<or> v a' t)"
| "lex4 v s t _ _ = False"

definition lpo4_step :: "OCB \<Rightarrow> (Term_p \<Rightarrow> Term_p \<Rightarrow> bool) \<Rightarrow> Term_p \<Rightarrow> Term_p \<Rightarrow> bool" where
  "lpo4_step ocb v s t =
     (if TermIsFreeVar s then False
      else if TermIsFreeVar t then t \<in> term_vars s
      else if ocb_gt ocb (f_code s) (f_code t) then \<forall>c \<in> set (t_args t). v s c
      else if f_code s = f_code t then lex4 v s t (t_args s) (t_args t)
      else \<exists>a \<in> set (t_args s). a = t \<or> v a t)"

primrec lpo4_eval :: "OCB \<Rightarrow> nat \<Rightarrow> Term_p \<Rightarrow> Term_p \<Rightarrow> bool" where
  "lpo4_eval ocb 0 s t = False"
| "lpo4_eval ocb (Suc n) s t = lpo4_step ocb (lpo4_eval ocb n) s t"

lemma lex4_sound:
  assumes ok: "ocb_prec_ok ocb" and st: "kbo_term ocb s" "kbo_term ocb t" "\<not> TermIsFreeVar s" "\<not> TermIsFreeVar t" "f_code s = f_code t"
    and v: "\<And>a c. (a, c) \<in> lpo_pairs s t \<Longrightarrow> v a c \<Longrightarrow> lpo_gt (ocb_gt ocb) a c"
  shows "t_args s = pre @ as \<Longrightarrow> t_args t = pre @ cs \<Longrightarrow> lex4 v s t as cs \<Longrightarrow> lpo_gt (ocb_gt ocb) s t"
proof (induction as cs arbitrary: pre rule: list_induct2' [case_names nil left right cons])
  case (cons a as c cs)
  let ?P = "ocb_gt ocb"
  show ?case
  proof (cases "a = c")
    case True
    then show ?thesis using cons.IH [of "pre @ [a]"] cons.prems by simp
  next
    case ne: False
    show ?thesis
    proof (cases "v a c")
      case True
      have mem: "a \<in> set (t_args s)" "c \<in> set (t_args t)" using cons.prems by simp_all
      have ac: "lpo_gt ?P a c" using v True mem by (simp add: lpo_pairs_def)
      have all: "lpo_gt ?P s d" if d: "d \<in> set (t_args t)" for d
      proof -
        consider "d \<in> set pre" | "d = c" | "d \<in> set cs" using d cons.prems(2) by auto
        then show ?thesis
        proof cases
          case 1
          then show ?thesis using lpo_arg [OF st(3)] cons.prems(1) by simp
        next
          case 2
          have k: "kbo_term ocb a" "kbo_term ocb c" using lpo.okl_arg st(1,2) mem lpo_okl by blast+
          show ?thesis using lpo.lpo_trans [OF ok, of s a c] k st(1) lpo_arg [OF st(3) mem(1)] ac 2 lpo_okl by blast
        next
          case 3
          then have "v s d" using cons.prems(3) ne True by simp
          then show ?thesis using v [of s d] d by (simp add: lpo_pairs_def)
        qed
      qed
      have "lpo_lex ?P (pre @ a # as) (pre @ c # cs)" using ac by (induction pre) auto
      then show ?thesis using lpo_gt_fun [OF st(3,4), of ?P] all st(5) cons.prems(1,2) by simp
    next
      case False
      then obtain a' where a': "a' \<in> set as" "a' = t \<or> v a' t" using cons.prems(3) ne by auto
      then have "a' \<in> set (t_args s)" using cons.prems(1) by simp
      then show ?thesis using lpo_alpha [OF st(3,4)] v [of a' t] a'(2) by (auto simp: lpo_pairs_def)
    qed
  qed
qed simp_all

lemma lex4_complete:
  assumes ok: "ocb_prec_ok ocb" and st: "kbo_term ocb s" "kbo_term ocb t" "\<not> TermIsFreeVar s" "\<not> TermIsFreeVar t" "f_code s = f_code t"
    and v: "\<And>a c. (a, c) \<in> lpo_pairs s t \<Longrightarrow> v a c \<longleftrightarrow> lpo_gt (ocb_gt ocb) a c"
    and gt: "lpo_gt (ocb_gt ocb) s t"
  shows "t_args s = pre @ as \<Longrightarrow> t_args t = pre @ cs \<Longrightarrow> lex4 v s t as cs"
proof (induction as cs arbitrary: pre rule: list_induct2' [case_names nil left right cons])
  case (cons a as c cs)
  let ?P = "ocb_gt ocb"
  have mem: "a \<in> set (t_args s)" "c \<in> set (t_args t)" using cons.prems by simp_all
  have k: "kbo_term ocb a" "kbo_term ocb c" using lpo.okl_arg st(1,2) mem lpo_okl by blast+
  show ?case
  proof (cases "a = c")
    case True
    then show ?thesis using cons.IH [of "pre @ [a]"] cons.prems by simp
  next
    case ne: False
    have vac: "v a c \<longleftrightarrow> lpo_gt ?P a c" using v mem by (simp add: lpo_pairs_def)
    show ?thesis
    proof (cases "v a c")
      case True
      have "v s d" if "d \<in> set cs" for d
      proof -
        have d: "d \<in> set (t_args t)" using that cons.prems(2) by simp
        then have "lpo_gt ?P s d" using lpo_dominates [OF ok st(1,2) _ st(4) d] gt by blast
        then show ?thesis using v [of s d] d by (simp add: lpo_pairs_def)
      qed
      then show ?thesis using ne True by simp
    next
      case False
      have "\<not> lpo_lex ?P (pre @ a # as) (pre @ c # cs)"
      proof -
        have "\<not> lpo_gt ?P x x" if "x \<in> set pre" for x
          using lpo_irrefl' [OF ok] lpo.okl_arg [of ocb s x] st(1) lpo_okl cons.prems(1) that by simp
        moreover have "\<not> lpo_lex ?P (a # as) (c # cs)" using ne False vac by simp
        ultimately show ?thesis by (induction pre) auto
      qed
      then obtain a' where a': "a' \<in> set (t_args s)" "a' = t \<or> lpo_gt ?P a' t"
        using gt lpo_gt_fun [OF st(3,4), of ?P] st(5) cons.prems(1,2) lpo.prec_irrefl [OF ok]
          lpo.okl_fun [of ocb s] st(1,3) lpo_okl by auto
      have ka': "kbo_term ocb a'" using lpo.okl_arg st(1) a'(1) lpo_okl by blast
      have dom: "lpo_gt ?P a' d" if "d \<in> set (t_args t)" for d
        using lpo_dominates [OF ok ka' st(2) _ st(4) that] a'(2) by blast
      have "a' \<notin> set pre" using dom [of a'] lpo_irrefl' [OF ok ka'] cons.prems(2) by auto
      moreover have "a' \<noteq> a" using dom [OF mem(2)] False vac by auto
      ultimately have "a' \<in> set as" using a'(1) cons.prems(1) by auto
      moreover have "a' = t \<or> v a' t" using v [of a' t] a' by (auto simp: lpo_pairs_def)
      ultimately show ?thesis using ne False by auto
    qed
  qed
next
  case nil
  have "length (t_args s) = length (t_args t)" using same_args(1) [OF st(1-3,5)] .
  then have "t_args s = t_args t" using nil by simp
  then show ?case using same_args(2) [OF st(1-3,5)] gt lpo_irrefl' [OF ok st(1)] by blast
next
  case (left a as)
  have "length (t_args s) = length (t_args t)" using same_args(1) [OF st(1-3,5)] .
  then have "t_args s = t_args t" using left by simp
  then show ?case using same_args(2) [OF st(1-3,5)] gt lpo_irrefl' [OF ok st(1)] by blast
next
  case (right c cs)
  have "length (t_args s) = length (t_args t)" using same_args(1) [OF st(1-3,5)] .
  then have "t_args s = t_args t" using right by simp
  then show ?case using same_args(2) [OF st(1-3,5)] gt lpo_irrefl' [OF ok st(1)] by blast
qed

lemma lpo4_step_sound:
  assumes "ocb_prec_ok ocb" and "kbo_term ocb s" and "kbo_term ocb t"
    and v: "\<And>a c. (a, c) \<in> lpo_pairs s t \<Longrightarrow> v a c \<Longrightarrow> lpo_gt (ocb_gt ocb) a c"
    and g: "lpo4_step ocb v s t"
  shows "lpo_gt (ocb_gt ocb) s t"
proof (cases "TermIsFreeVar s \<or> TermIsFreeVar t")
  case True
  then show ?thesis using g lpo_gt_var(2) [of t] by (auto simp: lpo4_step_def split: if_splits)
next
  case False
  then have nv: "\<not> TermIsFreeVar s" "\<not> TermIsFreeVar t" by auto
  have alpha: "lpo_gt (ocb_gt ocb) s t" if "a \<in> set (t_args s)" "a = t \<or> v a t" for a
    using lpo_alpha [OF nv that(1)] v [of a t] that by (auto simp: lpo_pairs_def)
  have majo: "\<forall>c \<in> set (t_args t). lpo_gt (ocb_gt ocb) s c" if "\<forall>c \<in> set (t_args t). v s c"
    using v that by (auto simp: lpo_pairs_def)
  have lex: "lpo_gt (ocb_gt ocb) s t" if "f_code s = f_code t" "lex4 v s t (t_args s) (t_args t)"
    using lex4_sound [OF assms(1-3) nv that(1) v, where pre = "[]"] that(2) by simp
  show ?thesis
    using g nv alpha majo lex lpo_gt_fun [OF nv, of "ocb_gt ocb"] by (auto simp: lpo4_step_def split: if_splits)
qed

lemma lpo4_step_complete:
  assumes "ocb_prec_ok ocb" and "kbo_term ocb s" and "kbo_term ocb t"
    and v: "\<And>a c. (a, c) \<in> lpo_pairs s t \<Longrightarrow> v a c \<longleftrightarrow> lpo_gt (ocb_gt ocb) a c"
    and g: "lpo_gt (ocb_gt ocb) s t"
  shows "lpo4_step ocb v s t"
proof (cases "TermIsFreeVar t")
  case True
  then show ?thesis using g lpo_gt_var(2) [OF True] by (simp add: lpo4_step_def)
next
  case t: False
  have s: "\<not> TermIsFreeVar s" using lpo_gt_nonvar [OF g] .
  have majo: "\<forall>c \<in> set (t_args t). v s c"
    using lpo_dominates [OF assms(1-3) _ t] g v by (auto simp: lpo_pairs_def)
  have lex: "lex4 v s t (t_args s) (t_args t)" if "f_code s = f_code t"
    using lex4_complete [OF assms(1-3) s t that v g, where pre = "[]"] by simp
  have alpha: "\<exists>a \<in> set (t_args s). a = t \<or> v a t"
    if ng: "\<not> ocb_gt ocb (f_code s) (f_code t)" "f_code s \<noteq> f_code t"
  proof -
    obtain a where "a \<in> set (t_args s)" "a = t \<or> lpo_gt (ocb_gt ocb) a t" using iffD1 [OF lpo_gt_fun [OF s t] g] ng by auto
    then show ?thesis using v [of a t] by (auto simp: lpo_pairs_def)
  qed
  show ?thesis using s t majo lex alpha by (simp add: lpo4_step_def)
qed

lemma lpo4_eval_sound:
  assumes "ocb_prec_ok ocb"
  shows "kbo_term ocb s \<Longrightarrow> kbo_term ocb t \<Longrightarrow> lpo4_eval ocb n s t \<Longrightarrow> lpo_gt (ocb_gt ocb) s t"
proof (induction n arbitrary: s t)
  case (Suc n)
  have "lpo_gt (ocb_gt ocb) a c" if "(a, c) \<in> lpo_pairs s t" "lpo4_eval ocb n a c" for a c
    using Suc.IH lpo_pairs_ok [OF that(1) Suc.prems(1,2)] that(2) by blast
  then show ?case using lpo4_step_sound [OF assms Suc.prems(1,2), of "lpo4_eval ocb n"] Suc.prems(3) by simp
qed simp

lemma lpo4_eval_complete:
  assumes "ocb_prec_ok ocb"
  shows "kbo_term ocb s \<Longrightarrow> kbo_term ocb t \<Longrightarrow> t_height s + t_height t < n \<Longrightarrow>
    lpo4_eval ocb n s t \<longleftrightarrow> lpo_gt (ocb_gt ocb) s t"
proof (induction n arbitrary: s t)
  case (Suc n)
  have v: "lpo4_eval ocb n a c \<longleftrightarrow> lpo_gt (ocb_gt ocb) a c" if "(a, c) \<in> lpo_pairs s t" for a c
  proof -
    have "t_height a + t_height c < n" using lpo_pairs_height [OF that] Suc.prems(3) by linarith
    then show ?thesis using Suc.IH lpo_pairs_ok [OF that Suc.prems(1,2)] by blast
  qed
  then have "lpo_gt (ocb_gt ocb) s t \<Longrightarrow> lpo4_step ocb (lpo4_eval ocb n) s t"
    using lpo4_step_complete [OF assms Suc.prems(1,2), of "lpo4_eval ocb n"] by blast
  then show ?case using lpo4_eval_sound [OF assms Suc.prems(1,2), of "Suc n"] by auto
qed simp

lemma lpo4_step_exact:
  assumes "ocb_prec_ok ocb" and "kbo_term ocb s" and "kbo_term ocb t"
  shows "lpo4_step ocb (lpo_gt (ocb_gt ocb)) s t \<longleftrightarrow> lpo_gt (ocb_gt ocb) s t"
  using lpo4_step_sound [OF assms] lpo4_step_complete [OF assms] by blast

end
