(* ===== verification/PLocalStacks.thy ===== *)
theory PLocalStacks
  imports PStacks
begin

text \<open>
  The stacks in local variables of \<open>BASICS/clb_plocalstacks.h\<close> and \<open>clb_plocalstacks.c\<close>,
  which the term traversals use. Unlike \<open>PStackPushP\<close>, \<open>PLocalStackPush\<close> does not grow the
  block: the caller reserves space with \<open>PLocalStackEnsureSpace\<close> first, and a push without
  space is a write out of bounds, \<^const>\<open>None\<close> here. \<open>pl_ok\<close> is the invariant, \<open>pl_list\<close>
  the abstract stack, bottom first, and \<open>pl_room s n\<close> says that \<open>n\<close> pushes stay in bounds.
\<close>

section \<open>The macros\<close>

record 'a plocalstack =
  pl_size :: nat
  pl_data :: "'a mem"
  pl_current :: nat

definition PLOCALSTACK_DEFAULT_SIZE :: nat where
  "PLOCALSTACK_DEFAULT_SIZE = 64"

definition PLocalStackInitWithSize :: "nat \<Rightarrow> 'a plocalstack" where
  "PLocalStackInitWithSize num = \<lparr>pl_size = num, pl_data = mem_alloc num, pl_current = 0\<rparr>"

definition PLocalStackInit :: "'a plocalstack" where
  "PLocalStackInit = PLocalStackInitWithSize PLOCALSTACK_DEFAULT_SIZE"

text \<open>The loop of \<open>PLocalStackGrow()\<close> doubles the size until there is room.\<close>

partial_function (option) pl_double :: "nat \<Rightarrow> nat \<Rightarrow> nat option" where [code]:
  "pl_double limit sz = (if sz \<le> limit then pl_double limit (sz * 2) else Some sz)"

definition PLocalStackGrow :: "'a mem \<Rightarrow> nat \<Rightarrow> nat \<Rightarrow> ('a mem \<times> nat) option" where
  "PLocalStackGrow data sz space =
     do { let old_size = sz;
          sz \<leftarrow> pl_double (old_size + space) sz;
          let tmp = mem_copy (mem_alloc sz) data old_size;
          Some (tmp, sz) }"

definition PLocalStackEnsureSpace :: "'a plocalstack \<Rightarrow> nat \<Rightarrow> 'a plocalstack option" where
  "PLocalStackEnsureSpace s space =
     (if pl_current s + space \<ge> pl_size s
      then do { (data, sz) \<leftarrow> PLocalStackGrow (pl_data s) (pl_size s) space;
                Some (s\<lparr>pl_size := sz, pl_data := data\<rparr>) }
      else Some s)"

definition PLocalStackEmpty :: "'a plocalstack \<Rightarrow> bool" where
  "PLocalStackEmpty s \<longleftrightarrow> pl_current s = 0"

definition PLocalStackPop :: "'a plocalstack \<Rightarrow> ('a \<times> 'a plocalstack) option" where
  "PLocalStackPop s =
     do { c_assert (pl_current s \<noteq> 0);
          x \<leftarrow> mem_get (pl_data s) (pl_current s - 1);
          Some (x, s\<lparr>pl_current := pl_current s - 1\<rparr>) }"

definition PLocalStackPush :: "'a plocalstack \<Rightarrow> 'a \<Rightarrow> 'a plocalstack option" where
  "PLocalStackPush s val =
     do { data \<leftarrow> mem_set (pl_data s) (pl_current s) val;
          Some (s\<lparr>pl_data := data, pl_current := pl_current s + 1\<rparr>) }"

text \<open>
  \<open>PLocalStackPushTermArgsReversed\<close> and \<open>PLocalStackPushTermArgs\<close>, over the list of the
  arguments: the first pushes the last argument first.
\<close>

definition PLocalStackPushTermArgsReversed :: "'a plocalstack \<Rightarrow> 'a list \<Rightarrow> 'a plocalstack option" where
  "PLocalStackPushTermArgsReversed s arg_list =
     do { s \<leftarrow> PLocalStackEnsureSpace s (length arg_list);
          foldM PLocalStackPush s (rev arg_list) }"

definition PLocalStackPushTermArgs :: "'a plocalstack \<Rightarrow> 'a list \<Rightarrow> 'a plocalstack option" where
  "PLocalStackPushTermArgs s arg_list =
     do { s \<leftarrow> PLocalStackEnsureSpace s (length arg_list);
          foldM PLocalStackPush s arg_list }"

text \<open>
  The tagged stacks, in the variant without \<open>TAGGED_POINTERS\<close> (which no build file defines): a
  value and its tag are two cells, and \<open>IntOrP\<close> tells which member a cell holds.
\<close>

definition PLocalTaggedStackPush :: "'a IntOrP plocalstack \<Rightarrow> 'a \<Rightarrow> nat \<Rightarrow> 'a IntOrP plocalstack option" where
  "PLocalTaggedStackPush s val tag =
     do { s \<leftarrow> PLocalStackPush s (p_val val);
          PLocalStackPush s (i_val (int tag)) }"

definition PLocalTaggedStackPop :: "'a IntOrP plocalstack \<Rightarrow> ('a \<times> nat \<times> 'a IntOrP plocalstack) option" where
  "PLocalTaggedStackPop s =
     do { (tag, s) \<leftarrow> PLocalStackPop s;
          (val, s) \<leftarrow> PLocalStackPop s;
          case (val, tag) of (p_val v, i_val k) \<Rightarrow> Some (v, nat k, s) | _ \<Rightarrow> None }"

definition PLocalTaggedStackEnsureSpace :: "'a IntOrP plocalstack \<Rightarrow> nat \<Rightarrow> 'a IntOrP plocalstack option" where
  "PLocalTaggedStackEnsureSpace s space = PLocalStackEnsureSpace s (2 * space)"

definition PLocalTaggedStackPushTermArgs ::
  "'a IntOrP plocalstack \<Rightarrow> 'a list \<Rightarrow> nat \<Rightarrow> 'a IntOrP plocalstack option" where
  "PLocalTaggedStackPushTermArgs s arg_list tag =
     do { s \<leftarrow> PLocalTaggedStackEnsureSpace s (length arg_list);
          foldM (\<lambda>s a. PLocalTaggedStackPush s a tag) s arg_list }"

definition PLocalTaggedStackPushTermArgsReversed ::
  "'a IntOrP plocalstack \<Rightarrow> 'a list \<Rightarrow> nat \<Rightarrow> 'a IntOrP plocalstack option" where
  "PLocalTaggedStackPushTermArgsReversed s arg_list tag =
     do { s \<leftarrow> PLocalTaggedStackEnsureSpace s (length arg_list);
          foldM (\<lambda>s a. PLocalTaggedStackPush s a tag) s (rev arg_list) }"

section \<open>The abstract stack\<close>

definition pl_list :: "'a plocalstack \<Rightarrow> 'a list" where
  "pl_list s = map the (take (pl_current s) (pl_data s))"

definition pl_ok :: "'a plocalstack \<Rightarrow> bool" where
  "pl_ok s \<longleftrightarrow> 0 < pl_size s \<and> length (pl_data s) = pl_size s \<and> pl_current s \<le> pl_size s \<and>
     (\<forall>i < pl_current s. pl_data s ! i \<noteq> None)"

definition pl_room :: "'a plocalstack \<Rightarrow> nat \<Rightarrow> bool" where
  "pl_room s n \<longleftrightarrow> pl_current s + n \<le> pl_size s"

lemma length_pl_list [simp]: "pl_ok s \<Longrightarrow> length (pl_list s) = pl_current s"
  by (simp add: pl_ok_def pl_list_def)

lemma PLocalStackInit_ok [simp]: "pl_ok PLocalStackInit" "pl_list PLocalStackInit = []"
  "n \<le> 64 \<Longrightarrow> pl_room PLocalStackInit n"
  by (simp_all add: pl_ok_def pl_list_def pl_room_def PLocalStackInit_def PLocalStackInitWithSize_def
      PLOCALSTACK_DEFAULT_SIZE_def)

lemma PLocalStackEmpty_iff: "pl_ok s \<Longrightarrow> PLocalStackEmpty s \<longleftrightarrow> pl_list s = []"
  by (metis PLocalStackEmpty_def length_0_conv length_pl_list)

lemma pl_double_ok:
  "0 < sz \<Longrightarrow> \<exists>sz'. pl_double limit sz = Some sz' \<and> limit < sz' \<and> sz \<le> sz'"
proof (induction "Suc limit - sz" arbitrary: sz rule: less_induct)
  case less
  show ?case
  proof (cases "sz \<le> limit")
    case True
    then have "Suc limit - sz * 2 < Suc limit - sz" using less.prems by simp
    then obtain r where "pl_double limit (sz * 2) = Some r" "limit < r" "sz * 2 \<le> r"
      using less.hyps [of "sz * 2"] less.prems by auto
    then show ?thesis using True by (subst pl_double.simps) auto
  qed (simp add: pl_double.simps)
qed

lemma PLocalStackEnsureSpace_ok:
  assumes "pl_ok s"
  shows "\<exists>s'. PLocalStackEnsureSpace s n = Some s' \<and> pl_ok s' \<and> pl_list s' = pl_list s \<and> pl_room s' n"
proof (cases "pl_current s + n \<ge> pl_size s")
  case True
  obtain r where r: "pl_double (pl_size s + n) (pl_size s) = Some r" "pl_size s + n < r"
    using pl_double_ok [of "pl_size s" "pl_size s + n"] assms by (auto simp: pl_ok_def)
  let ?s = "s\<lparr>pl_size := r, pl_data := mem_copy (mem_alloc r) (pl_data s) (pl_size s)\<rparr>"
  have "PLocalStackEnsureSpace s n = Some ?s"
    using True r by (simp add: PLocalStackEnsureSpace_def PLocalStackGrow_def)
  moreover have "pl_ok ?s" "pl_list ?s = pl_list s" "pl_room ?s n"
    using assms r by (auto simp: pl_ok_def pl_list_def pl_room_def mem_copy_def nth_append min_def)
  ultimately show ?thesis by blast
qed (use assms in \<open>simp add: PLocalStackEnsureSpace_def pl_room_def\<close>)

lemma PLocalStackPush_ok:
  assumes "pl_ok s" and "pl_room s (Suc n)"
  shows "\<exists>s'. PLocalStackPush s x = Some s' \<and> pl_ok s' \<and> pl_list s' = pl_list s @ [x] \<and> pl_room s' n"
  using assms
  by (auto simp: PLocalStackPush_def pl_ok_def pl_room_def pl_list_def mem_simps nth_list_update
      take_update_snoc)

lemma PLocalStackPush_all:
  "pl_ok s \<Longrightarrow> pl_room s (length xs + n) \<Longrightarrow>
   \<exists>s'. foldM PLocalStackPush s xs = Some s' \<and> pl_ok s' \<and> pl_list s' = pl_list s @ xs \<and> pl_room s' n"
proof (induction xs arbitrary: s)
  case (Cons x xs)
  obtain t where t: "PLocalStackPush s x = Some t" "pl_ok t" "pl_list t = pl_list s @ [x]"
    "pl_room t (length xs + n)"
    using PLocalStackPush_ok [of s "length xs + n" x] Cons.prems by auto
  show ?case using Cons.IH [OF t(2,4)] t by auto
qed simp

lemma PLocalStackPop_ok:
  assumes "pl_ok s" and "pl_list s = xs @ [x]"
  shows "\<exists>s'. PLocalStackPop s = Some (x, s') \<and> pl_ok s' \<and> pl_list s' = xs \<and>
           (\<forall>n. pl_room s n \<longrightarrow> pl_room s' (Suc n))"
proof -
  have len: "pl_current s = Suc (length xs)"
    using assms length_pl_list [OF assms(1)] by simp
  have at: "pl_data s ! length xs = Some x"
    using assms len
    by (auto simp: pl_ok_def pl_list_def take_Suc_conv_app_nth)
  let ?r = "s\<lparr>pl_current := length xs\<rparr>"
  have "PLocalStackPop s = Some (x, ?r)"
    using assms(1) len at by (simp add: PLocalStackPop_def pl_ok_def mem_simps)
  moreover have "pl_ok ?r"
    using assms(1) len by (simp add: pl_ok_def)
  moreover have "pl_list ?r = take (length xs) (pl_list s)"
    using len by (simp add: pl_list_def take_map min_def)
  moreover have "\<forall>n. pl_room s n \<longrightarrow> pl_room ?r (Suc n)"
    using len by (simp add: pl_room_def)
  ultimately show ?thesis using assms(2) by auto
qed

lemma PLocalStackPop_some:
  assumes "pl_ok s" and "\<not> PLocalStackEmpty s"
  obtains xs x s' where "pl_list s = xs @ [x]" "PLocalStackPop s = Some (x, s')" "pl_ok s'"
    "pl_list s' = xs" "\<And>n. pl_room s n \<Longrightarrow> pl_room s' (Suc n)"
  using PLocalStackPop_ok [OF assms(1)] PLocalStackEmpty_iff [OF assms(1)] assms(2)
  by (metis rev_exhaust)

lemma PLocalStackPushTermArgsReversed_ok:
  assumes "pl_ok s"
  shows "\<exists>s'. PLocalStackPushTermArgsReversed s xs = Some s' \<and> pl_ok s' \<and> pl_list s' = pl_list s @ rev xs"
proof -
  obtain t where t: "PLocalStackEnsureSpace s (length xs) = Some t" "pl_ok t" "pl_list t = pl_list s"
    "pl_room t (length xs)" using PLocalStackEnsureSpace_ok [OF assms] by blast
  show ?thesis
    using PLocalStackPush_all [OF t(2), of "rev xs" 0] t
    by (auto simp: PLocalStackPushTermArgsReversed_def)
qed

lemma PLocalStackPushTermArgs_ok:
  assumes "pl_ok s"
  shows "\<exists>s'. PLocalStackPushTermArgs s xs = Some s' \<and> pl_ok s' \<and> pl_list s' = pl_list s @ xs"
proof -
  obtain t where t: "PLocalStackEnsureSpace s (length xs) = Some t" "pl_ok t" "pl_list t = pl_list s"
    "pl_room t (length xs)" using PLocalStackEnsureSpace_ok [OF assms] by blast
  show ?thesis
    using PLocalStackPush_all [OF t(2), of xs 0] t
    by (auto simp: PLocalStackPushTermArgs_def)
qed

section \<open>Tagged stacks\<close>

text \<open>The abstract value is the list of pairs, bottom first.\<close>

definition tg_cells :: "('a \<times> nat) list \<Rightarrow> 'a IntOrP list" where
  "tg_cells es = concat (map (\<lambda>(v, k). [p_val v, i_val (int k)]) es)"

definition tg_rep :: "'a IntOrP plocalstack \<Rightarrow> ('a \<times> nat) list \<Rightarrow> bool" where
  "tg_rep s es \<longleftrightarrow> pl_ok s \<and> pl_list s = tg_cells es"

lemma tg_cells_simps [simp]: "tg_cells [] = []" "tg_cells (es @ [(v, k)]) = tg_cells es @ [p_val v, i_val (int k)]"
  by (simp_all add: tg_cells_def)

lemma tg_cells_empty [simp]: "tg_cells es = [] \<longleftrightarrow> es = []"
  by (cases es) (auto simp: tg_cells_def)

lemma tg_init [simp]: "tg_rep PLocalStackInit []"
  by (simp add: tg_rep_def)

lemma tg_empty_iff: "tg_rep s es \<Longrightarrow> PLocalStackEmpty s \<longleftrightarrow> es = []"
  by (simp add: tg_rep_def PLocalStackEmpty_iff)

lemma PLocalTaggedStackPush_ok:
  assumes "tg_rep s es" and "pl_room s (Suc (Suc n))"
  shows "\<exists>s'. PLocalTaggedStackPush s v k = Some s' \<and> tg_rep s' (es @ [(v, k)]) \<and> pl_room s' n"
proof -
  obtain s1 where "PLocalStackPush s (p_val v) = Some s1" "pl_ok s1" "pl_list s1 = pl_list s @ [p_val v]" "pl_room s1 (Suc n)"
    using PLocalStackPush_ok [of s "Suc n" "p_val v"] assms by (auto simp: tg_rep_def)
  then show ?thesis
    using PLocalStackPush_ok [of s1 n "i_val (int k)"] assms(1) by (auto simp: tg_rep_def PLocalTaggedStackPush_def)
qed

lemma PLocalTaggedStackPop_ok:
  assumes "tg_rep s (es @ [(v, k)])"
  shows "\<exists>s'. PLocalTaggedStackPop s = Some (v, k, s') \<and> tg_rep s' es"
proof -
  have s: "pl_ok s" "pl_list s = (tg_cells es @ [p_val v]) @ [i_val (int k)]" using assms by (simp_all add: tg_rep_def)
  then obtain s1 where s1: "PLocalStackPop s = Some (i_val (int k), s1)" "pl_ok s1" "pl_list s1 = tg_cells es @ [p_val v]"
    using PLocalStackPop_some [of s] PLocalStackEmpty_iff [of s] by (metis append1_eq_conv snoc_eq_iff_butlast)
  then obtain s2 where "PLocalStackPop s1 = Some (p_val v, s2)" "pl_ok s2" "pl_list s2 = tg_cells es"
    using PLocalStackPop_some [of s1] PLocalStackEmpty_iff [of s1] by (metis append1_eq_conv snoc_eq_iff_butlast)
  then show ?thesis using s1(1) by (auto simp: PLocalTaggedStackPop_def tg_rep_def)
qed

lemma PLocalTaggedStackPush_all:
  "tg_rep s es \<Longrightarrow> pl_room s (2 * length xs) \<Longrightarrow>
   \<exists>s'. foldM (\<lambda>s a. PLocalTaggedStackPush s a k) s xs = Some s' \<and> tg_rep s' (es @ map (\<lambda>a. (a, k)) xs)"
proof (induction xs arbitrary: s es)
  case (Cons x xs)
  obtain s1 where "PLocalTaggedStackPush s x k = Some s1" "tg_rep s1 (es @ [(x, k)])" "pl_room s1 (2 * length xs)"
    using PLocalTaggedStackPush_ok [OF Cons.prems(1), of "2 * length xs" x k] Cons.prems(2) by auto
  then show ?case using Cons.IH [of s1 "es @ [(x, k)]"] by auto
qed auto

lemma PLocalTaggedStackPushTermArgs_ok:
  assumes "tg_rep s es"
  shows "\<exists>s'. PLocalTaggedStackPushTermArgs s xs k = Some s' \<and> tg_rep s' (es @ map (\<lambda>a. (a, k)) xs)"
proof -
  obtain s1 where "PLocalStackEnsureSpace s (2 * length xs) = Some s1" "pl_ok s1" "pl_list s1 = pl_list s"
    "pl_room s1 (2 * length xs)" using PLocalStackEnsureSpace_ok [of s "2 * length xs"] assms by (auto simp: tg_rep_def)
  then show ?thesis using PLocalTaggedStackPush_all [of s1 es xs k] assms
    by (auto simp: tg_rep_def PLocalTaggedStackPushTermArgs_def PLocalTaggedStackEnsureSpace_def)
qed

end
