(* ===== verification/KBOLin.thy ===== *)
theory KBOLin
  imports KBO_Order PLocalStacks
begin

text \<open>
  The linear-time Knuth-Bendix ordering of \<open>ORDERINGS/cto_kbolin.c\<close> (\<open>KBO6\<close>), first-order
  build. Weights and variable balances are kept in scratch fields of the ordering control block:
  \<open>wb\<close> is the weight of the left minus the weight of the right occurrences met so far,
  \<open>vb\<close> the same difference for each variable (by \<open>-f_code\<close>), \<open>pos_bal\<close> and \<open>neg_bal\<close> the
  numbers of variables with a positive and a negative difference, and \<open>max_var\<close> the largest
  index met.

  This theory holds the code. In the first-order build \<open>DEREF_LIMIT\<close> is 0 and
  \<open>CONVERT_DEREF(i, l, d)\<close> is \<open>d\<close>; \<open>ho_vb\<close> stays \<open>NULL\<close>. The code has two implementations,
  \<open>kbolincmp\<close> and \<open>kbo6cmp\<close>, and an assertion that both return the same result. The counters are
  unbounded here (\<open>int\<close> and \<open>long\<close> sums are assumed not to overflow).
\<close>

section \<open>Balances\<close>

partial_function (option) vb_double :: "nat \<Rightarrow> nat \<Rightarrow> nat option" where [code]:
  "vb_double index sz = (if sz \<le> index then vb_double index (sz * 2) else Some sz)"

definition resize_vb :: "OCB \<Rightarrow> nat \<Rightarrow> OCB option" where
  "resize_vb ocb index =
     do { let old_size = vb_size ocb;
          let tmp = vb ocb;
          sz \<leftarrow> vb_double index (vb_size ocb);
          let m = mem_copy (mem_alloc sz) tmp old_size;
          m \<leftarrow> foldM (\<lambda>m i. mem_set m i 0) m [old_size..<sz];
          Some (ocb\<lparr>vb_size := sz, vb := m\<rparr>) }"

text \<open>Only called for variables, where \<open>-var->f_code\<close> is positive and the conversion is exact.\<close>

definition var_index :: "Term_p \<Rightarrow> nat" where
  "var_index var = nat (- f_code var)"

definition inc_vb :: "OCB \<Rightarrow> Term_p \<Rightarrow> OCB option" where
  "inc_vb ocb var =
     (let index = var_index var in
      if index > max_var ocb
      then do { ocb \<leftarrow> (if index \<ge> vb_size ocb then resize_vb ocb index else Some ocb);
                let ocb = ocb\<lparr>max_var := index\<rparr>;
                m \<leftarrow> mem_set (vb ocb) index 1;
                Some (ocb\<lparr>vb := m, pos_bal := pos_bal ocb + 1, wb := wb ocb + var_weight ocb\<rparr>) }
      else do { tmpbal \<leftarrow> mem_get (vb ocb) index;
                m \<leftarrow> mem_set (vb ocb) index (tmpbal + 1);
                Some (ocb\<lparr>vb := m, pos_bal := pos_bal ocb + (if tmpbal = 0 then 1 else 0),
                          neg_bal := neg_bal ocb - (if tmpbal = - 1 then 1 else 0),
                          wb := wb ocb + var_weight ocb\<rparr>) })"

definition dec_vb :: "OCB \<Rightarrow> Term_p \<Rightarrow> OCB option" where
  "dec_vb ocb var =
     (let index = var_index var in
      if index > max_var ocb
      then do { ocb \<leftarrow> (if index \<ge> vb_size ocb then resize_vb ocb index else Some ocb);
                let ocb = ocb\<lparr>max_var := index\<rparr>;
                m \<leftarrow> mem_set (vb ocb) index (- 1);
                Some (ocb\<lparr>vb := m, neg_bal := neg_bal ocb + 1, wb := wb ocb - var_weight ocb\<rparr>) }
      else do { tmpbal \<leftarrow> mem_get (vb ocb) index;
                m \<leftarrow> mem_set (vb ocb) index (tmpbal - 1);
                Some (ocb\<lparr>vb := m, neg_bal := neg_bal ocb + (if tmpbal = 0 then 1 else 0),
                          pos_bal := pos_bal ocb - (if tmpbal = 1 then 1 else 0),
                          wb := wb ocb - var_weight ocb\<rparr>) })"

definition local_vb_update :: "OCB \<Rightarrow> Term_p \<Rightarrow> bool \<Rightarrow> OCB option" where
  "local_vb_update ocb t lhs =
     (if lhs
      then if TermIsFreeVar t then inc_vb ocb t
           else do { w \<leftarrow> OCBFunWeight ocb (f_code t); Some (ocb\<lparr>wb := wb ocb + w\<rparr>) }
      else if TermIsFreeVar t then dec_vb ocb t
           else do { w \<leftarrow> OCBFunWeight ocb (f_code t); Some (ocb\<lparr>wb := wb ocb - w\<rparr>) })"

definition kbo6reset :: "OCB \<Rightarrow> OCB option" where
  "kbo6reset ocb =
     do { m \<leftarrow> foldM (\<lambda>m i. mem_set m i 0) (vb ocb) [0..<max_var ocb + 1];
          Some (ocb\<lparr>vb := m, wb := 0, pos_bal := 0, neg_bal := 0, max_var := 0\<rparr>) }"

text \<open>\<open>ocb->neg_bal?to_uncomparable:to_greater\<close> and \<open>ocb->pos_bal?to_uncomparable:to_lesser\<close>.\<close>

definition g_or_n :: "OCB \<Rightarrow> CompareResult" where
  "g_or_n ocb = (if neg_bal ocb \<noteq> 0 then to_uncomparable else to_greater)"

definition l_or_n :: "OCB \<Rightarrow> CompareResult" where
  "l_or_n ocb = (if pos_bal ocb \<noteq> 0 then to_uncomparable else to_lesser)"

section \<open>The recursive version\<close>

partial_function (option) mfyvwbc ::
  "OCB \<Rightarrow> bindings \<Rightarrow> Term_p \<Rightarrow> nat \<Rightarrow> Term_p \<Rightarrow> bool \<Rightarrow> (bool \<times> OCB) option" where [code]:
  "mfyvwbc ocb b t deref_t var lhs =
     do { (t, deref_t) \<leftarrow> TermDeref b t deref_t;
          ocb \<leftarrow> local_vb_update ocb t lhs;
          if f_code var = f_code t then Some (True, ocb)
          else foldM (\<lambda>(res, ocb) i. do { a \<leftarrow> t_arg t i;
                                          (r, ocb) \<leftarrow> mfyvwbc ocb b a deref_t var lhs;
                                          Some (res \<or> r, ocb) })
                 (False, ocb) [0..<arity t] }"

partial_function (option) mfyvwb ::
  "OCB \<Rightarrow> bindings \<Rightarrow> Term_p \<Rightarrow> nat \<Rightarrow> bool \<Rightarrow> OCB option" where [code]:
  "mfyvwb ocb b t deref_t lhs =
     do { (t, deref_t) \<leftarrow> TermDeref b t deref_t;
          ocb \<leftarrow> local_vb_update ocb t lhs;
          foldM (\<lambda>ocb i. do { a \<leftarrow> t_arg t i; mfyvwb ocb b a deref_t lhs }) ocb [0..<arity t] }"

text \<open>\<open>kbo6cmplex\<close> and \<open>kbo6cmp\<close> call each other; the model passes the second to the first.\<close>

definition kbo6cmplex_with ::
  "(OCB \<Rightarrow> Term_p \<Rightarrow> Term_p \<Rightarrow> nat \<Rightarrow> nat \<Rightarrow> (CompareResult \<times> OCB) option) \<Rightarrow>
   OCB \<Rightarrow> bindings \<Rightarrow> Term_p \<Rightarrow> Term_p \<Rightarrow> nat \<Rightarrow> nat \<Rightarrow> (CompareResult \<times> OCB) option" where
  "kbo6cmplex_with cmp ocb b s t deref_s deref_t =
     do { c_assert (arity s = arity t);
          c_assert (f_code s = f_code t);
          foldM (\<lambda>(res, ocb) i.
                   do { a \<leftarrow> t_arg s i; a' \<leftarrow> t_arg t i;
                        if res = to_equal then cmp ocb a a' deref_s deref_t
                        else do { ocb \<leftarrow> mfyvwb ocb b a deref_s True;
                                  ocb \<leftarrow> mfyvwb ocb b a' deref_t False;
                                  Some (res, ocb) } })
            (to_equal, ocb) [0..<min (arity s) (arity t)] }"

lemma kbo6cmplex_mono [partial_function_mono]:
  assumes "\<And>o' s t ds dt. mono_opt (\<lambda>f. g o' s t ds dt f)"
  shows "mono_opt (\<lambda>f. kbo6cmplex_with (\<lambda>o' s t ds dt. g o' s t ds dt f) ocb b s t ds dt)"
proof -
  have body: "mono_opt (\<lambda>f. (case st of (res, ocb) \<Rightarrow> \<lambda>i.
      do { a \<leftarrow> t_arg s i; a' \<leftarrow> t_arg t i;
           if res = to_equal then g ocb a a' ds dt f
           else do { ocb \<leftarrow> mfyvwb ocb b a ds True; ocb \<leftarrow> mfyvwb ocb b a' dt False; Some (res, ocb) } }) i)" for st i
    by (cases st) (simp, intro bind_mono if_mono option.const_mono assms)
  show ?thesis unfolding kbo6cmplex_with_def
    by (intro bind_mono option.const_mono foldM_mono body)
qed

text \<open>The \<open>while\<close> loop of \<open>kbo6cmp\<close>, the Pacman lemma.\<close>

partial_function (option) pacman ::
  "bindings \<Rightarrow> Term_p \<Rightarrow> Term_p \<Rightarrow> nat \<Rightarrow> nat \<Rightarrow> (Term_p \<times> Term_p \<times> nat \<times> nat) option" where [code]:
  "pacman b s t deref_s deref_t =
     (if arity s = 1 \<and> f_code s = f_code t
      then do { s \<leftarrow> t_arg s 0;
                t \<leftarrow> t_arg t 0;
                (s, deref_s) \<leftarrow> TermDeref b s deref_s;
                (t, deref_t) \<leftarrow> TermDeref b t deref_t;
                pacman b s t deref_s deref_t }
      else Some (s, t, deref_s, deref_t))"

partial_function (option) kbo6cmp ::
  "OCB \<Rightarrow> bindings \<Rightarrow> Term_p \<Rightarrow> Term_p \<Rightarrow> nat \<Rightarrow> nat \<Rightarrow> (CompareResult \<times> OCB) option" where [code]:
  "kbo6cmp ocb b s t deref_s deref_t =
     do { (s, deref_s) \<leftarrow> TermDeref b s deref_s;
          (t, deref_t) \<leftarrow> TermDeref b t deref_t;
          (s, t, deref_s, deref_t) \<leftarrow> pacman b s t deref_s deref_t;
          if TermIsFreeVar s
          then if TermIsFreeVar t
               then do { ocb \<leftarrow> inc_vb ocb s;
                         ocb \<leftarrow> dec_vb ocb t;
                         Some (if s = t then to_equal else to_uncomparable, ocb) }
               else do { (ctn, ocb) \<leftarrow> mfyvwbc ocb b t deref_t s False;
                         ocb \<leftarrow> inc_vb ocb s;
                         Some (if ctn then to_lesser else to_uncomparable, ocb) }
          else if TermIsFreeVar t
          then do { (ctn, ocb) \<leftarrow> mfyvwbc ocb b s deref_s t True;
                    ocb \<leftarrow> dec_vb ocb t;
                    Some (if ctn then to_greater else to_uncomparable, ocb) }
          else
            do { (lex, ocb) \<leftarrow>
                   (if f_code s = f_code t
                    then kbo6cmplex_with (\<lambda>ocb s t ds dt. kbo6cmp ocb b s t ds dt) ocb b s t deref_s deref_t
                    else do { ocb \<leftarrow> mfyvwb ocb b s deref_s True;
                              ocb \<leftarrow> mfyvwb ocb b t deref_t False;
                              Some (to_uncomparable, ocb) });
                 if wb ocb > 0 then Some (g_or_n ocb, ocb)
                 else if wb ocb < 0 then Some (l_or_n ocb, ocb)
                 else do { tmp \<leftarrow> OCBFunCompare ocb (f_code s) (f_code t);
                           Some (if tmp = to_greater then g_or_n ocb
                                 else if tmp = to_lesser then l_or_n ocb
                                 else if f_code s \<noteq> f_code t then to_uncomparable
                                 else if lex = to_equal then to_equal
                                 else if lex = to_greater then g_or_n ocb
                                 else if lex = to_lesser then l_or_n ocb
                                 else to_uncomparable, ocb) } } }"

definition kbo6cmplex ::
  "OCB \<Rightarrow> bindings \<Rightarrow> Term_p \<Rightarrow> Term_p \<Rightarrow> nat \<Rightarrow> nat \<Rightarrow> (CompareResult \<times> OCB) option" where
  "kbo6cmplex ocb b = kbo6cmplex_with (\<lambda>ocb s t ds dt. kbo6cmp ocb b s t ds dt) ocb b"

section \<open>The version with explicit stacks\<close>

text \<open>
  The loops of \<open>mfyvwblhs\<close> and \<open>mfyvwbrhs\<close> are the same but for the update at a cell, which is
  the parameter \<open>visit\<close>.
\<close>

partial_function (option) mfyvw_loop ::
  "(OCB \<Rightarrow> Term_p \<Rightarrow> OCB option) \<Rightarrow> Term_p \<Rightarrow> int \<Rightarrow> bindings \<Rightarrow> OCB \<Rightarrow> Term_p IntOrP plocalstack \<Rightarrow> OCB option"
  where [code]:
  "mfyvw_loop visit orig_term orig_limit b ocb stack =
     (if PLocalStackEmpty stack then Some ocb
      else do { (term, deref_t, stack) \<leftarrow> PLocalTaggedStackPop stack;
                (term, deref_t) \<leftarrow> (if term = orig_term \<and> orig_limit \<noteq> 0 then Some (term, deref_t)
                                    else TermDeref b term deref_t);
                ocb \<leftarrow> visit ocb term;
                stack \<leftarrow> (if TermIsFreeVar term then Some stack
                          else PLocalTaggedStackPushTermArgs stack (t_args term) deref_t);
                mfyvw_loop visit orig_term orig_limit b ocb stack })"

definition mfyvwblhs :: "OCB \<Rightarrow> bindings \<Rightarrow> Term_p \<Rightarrow> nat \<Rightarrow> int \<Rightarrow> OCB option" where
  "mfyvwblhs ocb b term deref_t orig_limit =
     do { stack \<leftarrow> PLocalTaggedStackPush PLocalStackInit term deref_t;
          mfyvw_loop (\<lambda>ocb term. if TermIsFreeVar term then inc_vb ocb term
                                 else do { w \<leftarrow> OCBFunWeight ocb (f_code term); Some (ocb\<lparr>wb := wb ocb + w\<rparr>) })
            term orig_limit b ocb stack }"

definition mfyvwbrhs :: "OCB \<Rightarrow> bindings \<Rightarrow> Term_p \<Rightarrow> nat \<Rightarrow> int \<Rightarrow> OCB option" where
  "mfyvwbrhs ocb b term deref_t orig_limit =
     do { stack \<leftarrow> PLocalTaggedStackPush PLocalStackInit term deref_t;
          mfyvw_loop (\<lambda>ocb term. if TermIsFreeVar term then dec_vb ocb term
                                 else do { w \<leftarrow> OCBFunWeight ocb (f_code term); Some (ocb\<lparr>wb := wb ocb - w\<rparr>) })
            term orig_limit b ocb stack }"

text \<open>
  The results from the balances once a difference \<open>res\<close> is known. In the loop of \<open>kbolincmp\<close>
  the inner loop runs to the end of the arguments, so that the outer one stops: a \<open>break\<close>.
\<close>

definition lin_result :: "OCB \<Rightarrow> CompareResult \<Rightarrow> CompareResult" where
  "lin_result ocb res =
     (if wb ocb > 0 then g_or_n ocb
      else if wb ocb < 0 then l_or_n ocb
      else if res = to_greater then g_or_n ocb
      else if res = to_lesser then l_or_n ocb
      else res)"

partial_function (option) kbolincmp ::
  "OCB \<Rightarrow> bindings \<Rightarrow> Term_p \<Rightarrow> Term_p \<Rightarrow> nat \<Rightarrow> nat \<Rightarrow> (CompareResult \<times> OCB) option" where [code]:
  "kbolincmp ocb b s t deref_s deref_t =
     do { (s, deref_s) \<leftarrow> TermDeref b s deref_s;
          (t, deref_t) \<leftarrow> TermDeref b t deref_t;
          if f_code s = f_code t
          then foldM_brk (\<lambda>i (res, ocb).
                   do { a \<leftarrow> t_arg s i; a' \<leftarrow> t_arg t i;
                        (res, ocb) \<leftarrow> kbolincmp ocb b a a' deref_s deref_t;
                        if res \<noteq> to_equal
                        then let i = i + 1 in
                          if i < arity s
                          then do { ocb \<leftarrow> foldM (\<lambda>ocb i. do { a \<leftarrow> t_arg s i; a' \<leftarrow> t_arg t i;
                                                             ocb \<leftarrow> mfyvwblhs ocb b a deref_s 0;
                                                             mfyvwbrhs ocb b a' deref_t 0 })
                                             ocb [i..<arity s];
                                    Some ((lin_result ocb res, ocb), True) }
                          else Some ((res, ocb), True)
                        else Some ((res, ocb), False) })
                 (to_equal, ocb) [0..<arity s]
          else if TermIsFreeVar s
          then if TermIsFreeVar t
               then do { ocb \<leftarrow> inc_vb ocb s;
                         ocb \<leftarrow> dec_vb ocb t;
                         Some (to_uncomparable, ocb) }
               else do { ocb \<leftarrow> inc_vb ocb s;
                         ocb \<leftarrow> mfyvwbrhs ocb b t deref_t 0;
                         Some (l_or_n ocb, ocb) }
          else if TermIsFreeVar t
          then do { ocb \<leftarrow> dec_vb ocb t;
                    ocb \<leftarrow> mfyvwblhs ocb b s deref_s 0;
                    Some (g_or_n ocb, ocb) }
          else do { ocb \<leftarrow> mfyvwblhs ocb b s deref_s 0;
                    ocb \<leftarrow> mfyvwbrhs ocb b t deref_t 0;
                    if wb ocb > 0 then Some (g_or_n ocb, ocb)
                    else if wb ocb < 0 then Some (l_or_n ocb, ocb)
                    else do { tmp \<leftarrow> OCBFunCompare ocb (f_code s) (f_code t);
                              Some (if tmp = to_greater then g_or_n ocb
                                    else if tmp = to_lesser then l_or_n ocb
                                    else to_equal, ocb) } } }"

section \<open>The exported functions\<close>

text \<open>With assertions on, the other implementation runs after a reset, and its results must agree.\<close>

definition KBO6Compare ::
  "OCB \<Rightarrow> bindings \<Rightarrow> Term_p \<Rightarrow> Term_p \<Rightarrow> nat \<Rightarrow> nat \<Rightarrow> (CompareResult \<times> OCB) option" where
  "KBO6Compare ocb b s t deref_s deref_t =
     do { ocb \<leftarrow> kbo6reset ocb;
          (res, ocb) \<leftarrow> kbolincmp ocb b s t deref_s deref_t;
          ocb \<leftarrow> kbo6reset ocb;
          (res', ocb) \<leftarrow> kbo6cmp ocb b s t deref_s deref_t;
          c_assert (res = res');
          Some (res, ocb) }"

definition KBO6Greater :: "OCB \<Rightarrow> bindings \<Rightarrow> Term_p \<Rightarrow> Term_p \<Rightarrow> nat \<Rightarrow> nat \<Rightarrow> (bool \<times> OCB) option" where
  "KBO6Greater ocb b s t deref_s deref_t =
     do { ocb \<leftarrow> kbo6reset ocb;
          (res, ocb) \<leftarrow> kbolincmp ocb b s t deref_s deref_t;
          ocb \<leftarrow> kbo6reset ocb;
          (res', ocb) \<leftarrow> kbo6cmp ocb b s t deref_s deref_t;
          c_assert (res = res');
          Some (res = to_greater, ocb) }"

end
