(* ===== verification/KBOLin_Balance.thy ===== *)
theory KBOLin_Balance
  imports KBOLin
begin

text \<open>
  The balances of the linear-time KBO. \<open>bal_rep o0 \<beta> w ocb\<close> says that the scratch fields of
  \<open>ocb\<close> represent the balances \<open>\<beta>\<close> and the weight difference \<open>w\<close>, and that all other
  fields are those of \<open>o0\<close>. Every function that walks over a term adds the term's
  occurrences, with a sign, to the represented balances.
\<close>

section \<open>The represented balances\<close>

definition kbo_base :: "OCB \<Rightarrow> OCB" where
  "kbo_base ocb = ocb\<lparr>wb := 0, pos_bal := 0, neg_bal := 0, max_var := 0, vb_size := 0, vb := []\<rparr>"

definition bal_rep :: "OCB \<Rightarrow> (nat \<Rightarrow> int) \<Rightarrow> int \<Rightarrow> OCB \<Rightarrow> bool" where
  "bal_rep o0 \<beta> w ocb \<longleftrightarrow> kbo_base ocb = kbo_base o0 \<and> wb ocb = w \<and>
     max_var ocb < vb_size ocb \<and> length (vb ocb) = vb_size ocb \<and>
     (\<forall>i < vb_size ocb. vb ocb ! i = Some (\<beta> i)) \<and> (\<forall>i > max_var ocb. \<beta> i = 0) \<and>
     pos_bal ocb = int (card {i. \<beta> i > 0}) \<and> neg_bal ocb = int (card {i. \<beta> i < 0})"

lemma OCBFunCompare_base: "OCBFunCompare (kbo_base ocb) f g = OCBFunCompare ocb f g"
  by (simp add: OCBFunCompare_def OCBFunCompareMatrix_def OCBFunComparePos_def kbo_base_def cong: if_cong option.case_cong)

lemma OCBFunWeight_base: "OCBFunWeight (kbo_base ocb) f = OCBFunWeight ocb f"
  by (simp add: OCBFunWeight_def kbo_base_def)

lemma bal_rep_frame:
  assumes "bal_rep o0 \<beta> w ocb"
  shows "OCBFunCompare ocb f g = OCBFunCompare o0 f g" "OCBFunWeight ocb f = OCBFunWeight o0 f"
    "var_weight ocb = var_weight o0" "wb ocb = w" "kbo_base ocb = kbo_base o0"
proof -
  have b: "kbo_base ocb = kbo_base o0" using assms by (simp add: bal_rep_def)
  show "OCBFunCompare ocb f g = OCBFunCompare o0 f g" using OCBFunCompare_base b by metis
  show "OCBFunWeight ocb f = OCBFunWeight o0 f" using OCBFunWeight_base b by metis
  have "var_weight (kbo_base x) = var_weight x" for x by (simp add: kbo_base_def)
  then show "var_weight ocb = var_weight o0" using b by metis
  show "wb ocb = w" "kbo_base ocb = kbo_base o0" using assms by (simp_all add: bal_rep_def)
qed

lemma bal_rep_finite:
  assumes "bal_rep o0 \<beta> w ocb" and "\<not> P 0"
  shows "finite {i. P (\<beta> i)}"
proof -
  have "{i. P (\<beta> i)} \<subseteq> {..max_var ocb}" using assms by (auto simp: bal_rep_def not_le) (metis not_le)
  then show ?thesis using finite_subset by blast
qed

lemma bal_rep_neg_bal: "bal_rep o0 \<beta> w ocb \<Longrightarrow> neg_bal ocb = 0 \<longleftrightarrow> (\<forall>i. 0 \<le> \<beta> i)"
  using bal_rep_finite [of o0 \<beta> w ocb "\<lambda>x. x < 0"] by (auto simp: bal_rep_def not_less)

lemma bal_rep_pos_bal: "bal_rep o0 \<beta> w ocb \<Longrightarrow> pos_bal ocb = 0 \<longleftrightarrow> (\<forall>i. \<beta> i \<le> 0)"
  using bal_rep_finite [of o0 \<beta> w ocb "\<lambda>x. x > 0"] by (auto simp: bal_rep_def not_less)

lemma card_upd:
  assumes "finite {i. P (\<beta> i)}"
  shows "int (card {i. P ((\<beta>(k := x)) i)}) =
    int (card {i. P (\<beta> i)}) + (if P x then 1 else 0) - (if P (\<beta> k) then 1 else 0)"
proof -
  have eq: "{i. P ((\<beta>(k := x)) i)} = (if P x then insert k ({i. P (\<beta> i)} - {k}) else {i. P (\<beta> i)} - {k})"
    by auto
  have "int (card ({i. P (\<beta> i)} - {k})) = int (card {i. P (\<beta> i)}) - (if P (\<beta> k) then 1 else 0)"
  proof (cases "P (\<beta> k)")
    case True
    then have "card {i. P (\<beta> i)} = Suc (card ({i. P (\<beta> i)} - {k}))"
      using assms by (intro card.remove) simp_all
    then show ?thesis using True by simp
  qed simp
  moreover have "int (card (insert k ({i. P (\<beta> i)} - {k}))) = int (card ({i. P (\<beta> i)} - {k})) + 1"
    using assms by (subst card_insert_disjoint) simp_all
  ultimately show ?thesis unfolding eq by (cases "P x") simp_all
qed

lemma vb_double_ok:
  "0 < sz \<Longrightarrow> \<exists>sz'. vb_double index sz = Some sz' \<and> index < sz' \<and> sz \<le> sz'"
proof (induction "Suc index - sz" arbitrary: sz rule: less_induct)
  case less
  show ?case
  proof (cases "sz \<le> index")
    case True
    then have "Suc index - sz * 2 < Suc index - sz" using less.prems by simp
    then obtain r where "vb_double index (sz * 2) = Some r" "index < r" "sz * 2 \<le> r"
      using less.hyps [of "sz * 2"] less.prems by auto
    then show ?thesis using True by (subst vb_double.simps) auto
  qed (simp add: vb_double.simps)
qed

lemma mem_zero_range:
  "b \<le> length m \<Longrightarrow> \<exists>m'. foldM (\<lambda>m i. mem_set m i 0) m [a..<b] = Some m' \<and> length m' = length m \<and>
     (\<forall>j < length m. m' ! j = (if a \<le> j \<and> j < b then Some (0::int) else m ! j))"
proof (induction b)
  case (Suc b)
  then obtain m' where m': "foldM (\<lambda>m i. mem_set m i 0) m [a..<b] = Some m'" "length m' = length m"
    "\<forall>j < length m. m' ! j = (if a \<le> j \<and> j < b then Some 0 else m ! j)" by auto
  show ?case
  proof (cases "a \<le> b")
    case True
    then show ?thesis using m' Suc.prems by (auto simp: foldM_snoc mem_set_def nth_list_update)
  qed auto
qed auto

lemma resize_vb_ok:
  assumes "bal_rep o0 \<beta> w ocb"
  shows "\<exists>ocb'. resize_vb ocb index = Some ocb' \<and> bal_rep o0 \<beta> w ocb' \<and> index < vb_size ocb' \<and> max_var ocb' = max_var ocb"
proof -
  have pos: "0 < vb_size ocb" and len: "length (vb ocb) = vb_size ocb" using assms by (auto simp: bal_rep_def)
  obtain sz where sz: "vb_double index (vb_size ocb) = Some sz" "index < sz" "vb_size ocb \<le> sz"
    using vb_double_ok [OF pos] by blast
  let ?m = "mem_copy (mem_alloc sz) (vb ocb) (vb_size ocb)"
  have len': "length ?m = sz" using len sz(3) by simp
  obtain m where m: "foldM (\<lambda>m i. mem_set m i 0) ?m [vb_size ocb..<sz] = Some m" "length m = sz"
    "\<forall>j < sz. m ! j = (if vb_size ocb \<le> j \<and> j < sz then Some 0 else ?m ! j)"
    using mem_zero_range [of sz ?m "vb_size ocb"] len' by auto
  have zero: "\<beta> i = 0" if "vb_size ocb \<le> i" for i using assms that by (auto simp: bal_rep_def)
  have "m ! i = Some (\<beta> i)" if "i < sz" for i
    using m(3) that zero [of i] assms len by (auto simp: mem_copy_def nth_append bal_rep_def)
  then have "bal_rep o0 \<beta> w (ocb\<lparr>vb_size := sz, vb := m\<rparr>)"
    using assms m(2) sz(3) by (auto simp: bal_rep_def kbo_base_def)
  then show ?thesis using sz m(1) by (auto simp: resize_vb_def Let_def)
qed

section \<open>One occurrence\<close>

lemma bal_rep_upd:
  assumes "bal_rep o0 \<beta> w ocb" and "k \<le> max_var ocb"
    and "p' = pos_bal ocb + (if x > 0 then 1 else 0) - (if \<beta> k > 0 then 1 else 0)"
    and "n' = neg_bal ocb + (if x < 0 then 1 else 0) - (if \<beta> k < 0 then 1 else 0)"
  shows "bal_rep o0 (\<beta>(k := x)) w' (ocb\<lparr>vb := (vb ocb)[k := Some x], pos_bal := p', neg_bal := n', wb := w'\<rparr>)"
proof -
  have fin: "finite {i. \<beta> i > 0}" "finite {i. \<beta> i < 0}"
    using bal_rep_finite [OF assms(1), of "\<lambda>x. x > 0"] bal_rep_finite [OF assms(1), of "\<lambda>x. x < 0"] by auto
  have p: "p' = int (card {i. 0 < (\<beta>(k := x)) i})"
    using card_upd [of "\<lambda>x. 0 < x" \<beta> k x, OF fin(1)] assms(1,3) by (simp only: bal_rep_def)
  have n: "n' = int (card {i. (\<beta>(k := x)) i < 0})"
    using card_upd [of "\<lambda>x. x < 0" \<beta> k x, OF fin(2)] assms(1,4) by (simp only: bal_rep_def)
  have "kbo_base ocb = kbo_base o0" "max_var ocb < vb_size ocb" "length (vb ocb) = vb_size ocb"
    "\<And>i. i < vb_size ocb \<Longrightarrow> vb ocb ! i = Some (\<beta> i)" "\<And>i. max_var ocb < i \<Longrightarrow> \<beta> i = 0"
    using assms(1) by (simp_all add: bal_rep_def)
  then show ?thesis
    unfolding bal_rep_def p n using assms(2)
    by (simp add: kbo_base_def nth_list_update del: fun_upd_apply) (simp add: nth_list_update)
qed

lemma bal_rep_max:
  "bal_rep o0 \<beta> w ocb \<Longrightarrow> max_var ocb \<le> k \<Longrightarrow> k < vb_size ocb \<Longrightarrow> bal_rep o0 \<beta> w (ocb\<lparr>max_var := k\<rparr>)"
  by (simp add: bal_rep_def kbo_base_def)

lemma vb_fresh:
  assumes "bal_rep o0 \<beta> w ocb" and "max_var ocb < k"
  obtains o1 where "(if k \<ge> vb_size ocb then resize_vb ocb k else Some ocb) = Some o1"
    "bal_rep o0 \<beta> w (o1\<lparr>max_var := k\<rparr>)" "\<beta> k = 0" "k < length (vb o1)"
proof (cases "k \<ge> vb_size ocb")
  case True
  obtain o1 where "resize_vb ocb k = Some o1" "bal_rep o0 \<beta> w o1" "k < vb_size o1" "max_var o1 = max_var ocb"
    using resize_vb_ok [OF assms(1)] by blast
  then show thesis using that [of o1] True bal_rep_max [of o0 \<beta> w o1 k] assms by (auto simp: bal_rep_def)
next
  case False
  then show thesis using that [of ocb] bal_rep_max [of o0 \<beta> w ocb k] assms by (auto simp: bal_rep_def)
qed

lemma inc_vb_ok:
  assumes "bal_rep o0 \<beta> w ocb"
  shows "\<exists>ocb'. inc_vb ocb v = Some ocb' \<and>
    bal_rep o0 (\<beta>(var_index v := \<beta> (var_index v) + 1)) (w + var_weight o0) ocb'"
proof (cases "var_index v > max_var ocb")
  case True
  let ?k = "var_index v"
  obtain o1 where o1: "(if ?k \<ge> vb_size ocb then resize_vb ocb ?k else Some ocb) = Some o1"
    "bal_rep o0 \<beta> w (o1\<lparr>max_var := ?k\<rparr>)" "\<beta> ?k = 0" "?k < length (vb o1)"
    using vb_fresh [OF assms True] .
  have "inc_vb ocb v = Some (o1\<lparr>max_var := ?k, vb := (vb o1)[?k := Some (1)], pos_bal := pos_bal o1 + 1, wb := wb o1 + var_weight o1\<rparr>)"
    using True o1(1,4) by (simp add: inc_vb_def Let_def mem_set_def)
  moreover have "bal_rep o0 (\<beta>(?k := 1)) (w + var_weight o0)
      (o1\<lparr>max_var := ?k, vb := (vb o1)[?k := Some (1)], pos_bal := pos_bal o1 + 1, wb := wb o1 + var_weight o1\<rparr>)"
    using bal_rep_upd [OF o1(2), of ?k _ "1" _ "w + var_weight o0"] bal_rep_frame(3,4) [OF o1(2)] o1(3) by simp
  ultimately show ?thesis using o1(3) by simp
next
  case False
  let ?k = "var_index v"
  let ?o = "ocb\<lparr>vb := (vb ocb)[?k := Some (\<beta> ?k + 1)], pos_bal := pos_bal ocb + (if \<beta> ?k = 0 then 1 else 0), neg_bal := neg_bal ocb - (if \<beta> ?k = - 1 then 1 else 0), wb := w + var_weight o0\<rparr>"
  have v: "?k < length (vb ocb)" "vb ocb ! ?k = Some (\<beta> ?k)" using assms False by (auto simp: bal_rep_def)
  have "inc_vb ocb v = Some ?o"
    using False v bal_rep_frame(3,4) [OF assms] by (simp add: inc_vb_def Let_def mem_set_def mem_get_def)
  moreover have "bal_rep o0 (\<beta>(?k := \<beta> ?k + 1)) (w + var_weight o0) ?o"
    by (rule bal_rep_upd [OF assms]) (use False in auto)
  ultimately show ?thesis by blast
qed

lemma dec_vb_ok:
  assumes "bal_rep o0 \<beta> w ocb"
  shows "\<exists>ocb'. dec_vb ocb v = Some ocb' \<and>
    bal_rep o0 (\<beta>(var_index v := \<beta> (var_index v) - 1)) (w - var_weight o0) ocb'"
proof (cases "var_index v > max_var ocb")
  case True
  let ?k = "var_index v"
  obtain o1 where o1: "(if ?k \<ge> vb_size ocb then resize_vb ocb ?k else Some ocb) = Some o1"
    "bal_rep o0 \<beta> w (o1\<lparr>max_var := ?k\<rparr>)" "\<beta> ?k = 0" "?k < length (vb o1)"
    using vb_fresh [OF assms True] .
  have "dec_vb ocb v = Some (o1\<lparr>max_var := ?k, vb := (vb o1)[?k := Some (- 1)], neg_bal := neg_bal o1 + 1, wb := wb o1 - var_weight o1\<rparr>)"
    using True o1(1,4) by (simp add: dec_vb_def Let_def mem_set_def)
  moreover have "bal_rep o0 (\<beta>(?k := - 1)) (w - var_weight o0)
      (o1\<lparr>max_var := ?k, vb := (vb o1)[?k := Some (- 1)], neg_bal := neg_bal o1 + 1, wb := wb o1 - var_weight o1\<rparr>)"
    using bal_rep_upd [OF o1(2), of ?k _ "- 1" _ "w - var_weight o0"] bal_rep_frame(3,4) [OF o1(2)] o1(3) by simp
  ultimately show ?thesis using o1(3) by simp
next
  case False
  let ?k = "var_index v"
  let ?o = "ocb\<lparr>vb := (vb ocb)[?k := Some (\<beta> ?k - 1)], pos_bal := pos_bal ocb - (if \<beta> ?k = 1 then 1 else 0), neg_bal := neg_bal ocb + (if \<beta> ?k = 0 then 1 else 0), wb := w - var_weight o0\<rparr>"
  have v: "?k < length (vb ocb)" "vb ocb ! ?k = Some (\<beta> ?k)" using assms False by (auto simp: bal_rep_def)
  have "dec_vb ocb v = Some ?o"
    using False v bal_rep_frame(3,4) [OF assms] by (simp add: dec_vb_def Let_def mem_set_def mem_get_def)
  moreover have "bal_rep o0 (\<beta>(?k := \<beta> ?k - 1)) (w - var_weight o0) ?o"
    by (rule bal_rep_upd [OF assms]) (use False in auto)
  ultimately show ?thesis by blast
qed

lemma bal_rep_weight:
  "bal_rep o0 \<beta> w ocb \<Longrightarrow> bal_rep o0 \<beta> w' (ocb\<lparr>wb := w'\<rparr>)"
  by (simp add: bal_rep_def kbo_base_def)

text \<open>What a reset needs: the entries above \<open>max_var\<close> are 0.\<close>

definition vb_ok :: "OCB \<Rightarrow> bool" where
  "vb_ok ocb \<longleftrightarrow> max_var ocb < vb_size ocb \<and> length (vb ocb) = vb_size ocb \<and>
     (\<forall>i. max_var ocb < i \<longrightarrow> i < vb_size ocb \<longrightarrow> vb ocb ! i = Some 0)"

lemma bal_rep_vb_ok: "bal_rep o0 \<beta> w ocb \<Longrightarrow> vb_ok ocb"
  by (simp add: bal_rep_def vb_ok_def)

lemma kbo6reset_ok:
  assumes "vb_ok ocb" and "kbo_base ocb = kbo_base o0"
  shows "\<exists>ocb'. kbo6reset ocb = Some ocb' \<and> bal_rep o0 (\<lambda>_. 0) 0 ocb'"
proof -
  have v: "max_var ocb < vb_size ocb" "length (vb ocb) = vb_size ocb"
    "\<And>i. max_var ocb < i \<Longrightarrow> i < vb_size ocb \<Longrightarrow> vb ocb ! i = Some 0" using assms(1) by (simp_all add: vb_ok_def)
  obtain m where m: "foldM (\<lambda>m i. mem_set m i 0) (vb ocb) [0..<max_var ocb + 1] = Some m" "length m = vb_size ocb"
    "\<And>j. j < vb_size ocb \<Longrightarrow> m ! j = (if 0 \<le> j \<and> j < max_var ocb + 1 then Some 0 else vb ocb ! j)"
    using mem_zero_range [of "max_var ocb + 1" "vb ocb" 0] v(1,2) by auto
  have "m ! j = Some 0" if "j < vb_size ocb" for j using m(3) [OF that] v(3) [of j] that by auto
  then have "bal_rep o0 (\<lambda>_. 0) 0 (ocb\<lparr>vb := m, wb := 0, pos_bal := 0, neg_bal := 0, max_var := 0\<rparr>)"
    using m(2) v(1) assms(2) by (simp add: bal_rep_def kbo_base_def)
  then show ?thesis unfolding kbo6reset_def using m(1) by simp
qed

end
