(* ===== verification/KBOLin_Walk.thy ===== *)
theory KBOLin_Walk
  imports KBOLin_Balance
begin

text \<open>
  The walks over a term: \<open>mfyvwb\<close> and \<open>mfyvwbc\<close> by recursion, \<open>mfyvwblhs\<close> and \<open>mfyvwbrhs\<close> with
  a local stack. Each adds the occurrences of the dereferenced term to the balances, with
  the sign of its side.
\<close>

section \<open>Occurrences\<close>

definition occ :: "Term_p \<Rightarrow> nat \<Rightarrow> int" where
  "occ u i = int (count (image_mset var_index (var_mset u)) i)"

lemma occ_var: "TermIsFreeVar u \<Longrightarrow> occ u i = (if i = var_index u then 1 else 0)"
  by (cases u) (simp add: occ_def)

lemma occ_args: "\<not> TermIsFreeVar u \<Longrightarrow> occ u i = (\<Sum>a \<leftarrow> t_args u. occ a i)"
proof -
  have "int (count (image_mset var_index (sum_list (map var_mset as))) i) = (\<Sum>a \<leftarrow> as. occ a i)" for as
    by (induction as) (simp_all add: occ_def)
  then show "\<not> TermIsFreeVar u \<Longrightarrow> occ u i = (\<Sum>a \<leftarrow> t_args u. occ a i)" by (cases u) (simp add: occ_def)
qed

lemma sum_list_args: "(\<Sum>a \<leftarrow> as. g a) = (\<Sum>i \<leftarrow> [0..<length as]. g (as ! i))"
proof -
  have "map g as = map (\<lambda>i. g (as ! i)) [0..<length as]" by (intro nth_equalityI) simp_all
  then show ?thesis by simp
qed

definition sgn_of :: "bool \<Rightarrow> int" where
  "sgn_of lhs = (if lhs then 1 else - 1)"

lemma sgn_of_simps [simp]: "sgn_of True = 1" "sgn_of False = - 1"
  by (simp_all add: sgn_of_def)

text \<open>The contribution of the head of a term.\<close>

definition head_weight :: "OCB \<Rightarrow> Term_p \<Rightarrow> int" where
  "head_weight ocb t = (if TermIsFreeVar t then kp_var (ocb_par ocb) else kp_weight (ocb_par ocb) (f_code t))"

definition head_occ :: "Term_p \<Rightarrow> nat \<Rightarrow> int" where
  "head_occ t i = (if TermIsFreeVar t \<and> i = var_index t then 1 else 0)"

lemma kbo_weight_head: "wf_term sg u \<Longrightarrow>
   kbo_weight (ocb_par ocb) u = head_weight ocb u + (\<Sum>a \<leftarrow> t_args u. kbo_weight (ocb_par ocb) a)"
  by (cases u) (auto simp: head_weight_def)

lemma occ_head: "wf_term sg u \<Longrightarrow> occ u i = head_occ u i + (\<Sum>a \<leftarrow> t_args u. occ a i)"
  by (cases "TermIsFreeVar u") (cases u, auto simp: head_occ_def occ_var occ_args)

lemma local_vb_update_ok:
  assumes "kbo_ocb o0" and "bal_rep o0 \<beta> w ocb" and "TermIsFreeVar t \<or> f_code t \<in> symbols"
  shows "\<exists>ocb'. local_vb_update ocb t lhs = Some ocb' \<and>
    bal_rep o0 (\<lambda>i. \<beta> i + sgn_of lhs * head_occ t i) (w + sgn_of lhs * head_weight o0 t) ocb'"
proof (cases "TermIsFreeVar t")
  case True
  have "(\<lambda>i. \<beta> i + head_occ t i) = \<beta>(var_index t := \<beta> (var_index t) + 1)"
    "(\<lambda>i. \<beta> i + - 1 * head_occ t i) = \<beta>(var_index t := \<beta> (var_index t) - 1)"
    using True by (auto simp: head_occ_def)
  then show ?thesis
    using inc_vb_ok [OF assms(2), of t] dec_vb_ok [OF assms(2), of t] True
    by (cases lhs) (simp_all add: local_vb_update_def head_weight_def ocb_par_def)
next
  case False
  then have "f_code t \<in> symbols" using assms(3) by simp
  then have "OCBFunWeight ocb (f_code t) = Some (kp_weight (ocb_par o0) (f_code t))"
    using assms(1) bal_rep_frame(2) [OF assms(2)] by (auto simp: kbo_ocb_def ocb_par_def)
  then show ?thesis
    using False bal_rep_weight [OF assms(2)] bal_rep_frame(4) [OF assms(2)]
    by (cases lhs) (simp_all add: local_vb_update_def head_weight_def head_occ_def)
qed

section \<open>Loops over the arguments\<close>

lemma bal_loop:
  assumes "\<And>ocb \<beta> w i. i \<in> set is \<Longrightarrow> bal_rep o0 \<beta> w ocb \<Longrightarrow>
      \<exists>ocb'. step ocb i = Some ocb' \<and> bal_rep o0 (\<lambda>j. \<beta> j + c i j) (w + e i) ocb'"
  shows "bal_rep o0 \<beta> w ocb \<Longrightarrow> \<exists>ocb'. foldM step ocb is = Some ocb' \<and>
      bal_rep o0 (\<lambda>j. \<beta> j + (\<Sum>i \<leftarrow> is. c i j)) (w + (\<Sum>i \<leftarrow> is. e i)) ocb'"
  using assms
proof (induction "is" arbitrary: ocb \<beta> w)
  case (Cons i "is")
  obtain o1 where o1: "step ocb i = Some o1" "bal_rep o0 (\<lambda>j. \<beta> j + c i j) (w + e i) o1"
    using Cons.prems(2) [OF _ Cons.prems(1), of i] by auto
  show ?case using Cons.IH [OF o1(2)] Cons.prems(2) o1(1) by (simp add: add.assoc)
qed simp

text \<open>The same for a loop that also collects a boolean.\<close>

lemma bal_loop_or:
  assumes "\<And>ocb \<beta> w i. i \<in> set is \<Longrightarrow> bal_rep o0 \<beta> w ocb \<Longrightarrow>
      \<exists>ocb'. step ocb i = Some (Q i, ocb') \<and> bal_rep o0 (\<lambda>j. \<beta> j + c i j) (w + e i) ocb'"
  shows "bal_rep o0 \<beta> w ocb \<Longrightarrow>
      \<exists>ocb'. foldM (\<lambda>(res, ocb) i. do { (r, ocb) \<leftarrow> step ocb i; Some (res \<or> r, ocb) }) (res, ocb) is =
        Some (res \<or> (\<exists>i \<in> set is. Q i), ocb') \<and>
      bal_rep o0 (\<lambda>j. \<beta> j + (\<Sum>i \<leftarrow> is. c i j)) (w + (\<Sum>i \<leftarrow> is. e i)) ocb'"
  using assms
proof (induction "is" arbitrary: ocb \<beta> w res)
  case (Cons i "is")
  obtain o1 where o1: "step ocb i = Some (Q i, o1)" "bal_rep o0 (\<lambda>j. \<beta> j + c i j) (w + e i) o1"
    using Cons.prems(2) [OF _ Cons.prems(1), of i] by auto
  show ?case using Cons.IH [OF o1(2), of "res \<or> Q i"] Cons.prems(2) o1(1) by (simp add: add.assoc disj_assoc)
qed simp

section \<open>Walking by recursion\<close>

lemma copies_head_sym:
  assumes "head_ok o0 b t d u"
  shows "TermIsFreeVar t \<or> f_code t \<in> symbols" "head_occ t = head_occ u" "head_weight o0 t = head_weight o0 u"
proof -
  note h = head_okD [OF assms]
  show "TermIsFreeVar t \<or> f_code t \<in> symbols" using copies_nonvar [OF h(3)] h(4,9) by auto
  show "head_weight o0 t = head_weight o0 u" using h(4,9) by (simp add: head_weight_def)
  show "head_occ t = head_occ u" using h(4,9) by (intro ext) (simp add: head_occ_def var_index_def)
qed

text \<open>What a walk does to the represented balances.\<close>

definition walked :: "OCB \<Rightarrow> bool \<Rightarrow> Term_p \<Rightarrow> (nat \<Rightarrow> int) \<Rightarrow> int \<Rightarrow> OCB \<Rightarrow> bool" where
  "walked o0 lhs u \<beta> w ocb \<longleftrightarrow>
     bal_rep o0 (\<lambda>i. \<beta> i + sgn_of lhs * occ u i) (w + sgn_of lhs * kbo_weight (ocb_par o0) u) ocb"

lemma walked_args:
  assumes "wf_term sg u" and "us = t_args u"
    and "bal_rep o0 (\<lambda>j. (\<beta> j + sgn_of lhs * head_occ u j) + (\<Sum>i \<leftarrow> [0..<length us]. sgn_of lhs * occ (us ! i) j))
      ((w + sgn_of lhs * head_weight o0 u) + (\<Sum>i \<leftarrow> [0..<length us]. sgn_of lhs * kbo_weight (ocb_par o0) (us ! i))) ocb"
  shows "walked o0 lhs u \<beta> w ocb"
proof -
  have c: "(\<Sum>i \<leftarrow> [0..<length us]. sgn_of lhs * g (us ! i)) = sgn_of lhs * (\<Sum>a \<leftarrow> us. g a)" for g :: "Term_p \<Rightarrow> int"
    by (subst sum_list_args [of g us]) (simp only: sum_list_const_mult)
  have "sgn_of lhs * occ u j = sgn_of lhs * head_occ u j + sgn_of lhs * (\<Sum>a \<leftarrow> us. occ a j)" for j
    by (simp add: occ_head [OF assms(1)] assms(2) distrib_left)
  moreover have "sgn_of lhs * kbo_weight (ocb_par o0) u =
      sgn_of lhs * head_weight o0 u + sgn_of lhs * (\<Sum>a \<leftarrow> us. kbo_weight (ocb_par o0) a)"
    by (simp add: kbo_weight_head [OF assms(1)] assms(2) distrib_left)
  ultimately show ?thesis using assms(3) unfolding walked_def c c [of "\<lambda>a. occ a _"] by (simp add: add.assoc)
qed

lemma mfyvwb_ok:
  assumes "kbo_ocb o0"
  shows "copies o0 b t d u \<Longrightarrow> bal_rep o0 \<beta> w ocb \<Longrightarrow> \<exists>ocb'. mfyvwb ocb b t d lhs = Some ocb' \<and> walked o0 lhs u \<beta> w ocb'"
proof (induction u arbitrary: t d \<beta> w ocb)
  case (TermCell f p ty us)
  let ?u = "TermCell f p ty us" and ?s = "sgn_of lhs"
  obtain t' d' where t': "TermDeref b t d = Some (t', d')" and h: "head_ok o0 b t' d' ?u"
    using copies_head [OF TermCell.prems(1)] by blast
  note hs = copies_head_sym [OF h]
  obtain o1 where o1: "local_vb_update ocb t' lhs = Some o1"
    "bal_rep o0 (\<lambda>i. \<beta> i + ?s * head_occ ?u i) (w + ?s * head_weight o0 ?u) o1"
    using local_vb_update_ok [OF assms TermCell.prems(2) hs(1), of lhs] hs(2,3) by auto
  let ?step = "\<lambda>ocb i. do { a \<leftarrow> t_arg t' i; mfyvwb ocb b a d' lhs }"
  have "\<exists>o'. ?step ocb i = Some o' \<and> bal_rep o0 (\<lambda>j. \<beta> j + ?s * occ (us ! i) j) (w + ?s * kbo_weight (ocb_par o0) (us ! i)) o'"
    if i: "i \<in> set [0..<length us]" and r: "bal_rep o0 \<beta> w ocb" for i ocb \<beta> w
  proof -
    obtain a where "t_arg t' i = Some a" "copies o0 b a d' (us ! i)" using head_ok_arg [OF h, of i] i by auto
    then show ?thesis using TermCell.IH [OF _ _ r, of "us ! i"] i by (simp add: walked_def)
  qed
  from bal_loop [of "[0..<length us]" o0 ?step, OF this o1(2)]
  obtain o2 where o2: "foldM ?step o1 [0..<length us] = Some o2"
    "bal_rep o0 (\<lambda>j. (\<beta> j + ?s * head_occ ?u j) + (\<Sum>i \<leftarrow> [0..<length us]. ?s * occ (us ! i) j))
      ((w + ?s * head_weight o0 ?u) + (\<Sum>i \<leftarrow> [0..<length us]. ?s * kbo_weight (ocb_par o0) (us ! i))) o2" by blast
  have "mfyvwb ocb b t d lhs = Some o2"
    using t' o1(1) o2(1) head_okD(7) [OF h] by (subst mfyvwb.simps) simp
  then show ?case using walked_args [OF copies_wf [OF TermCell.prems(1)] _ o2(2)] by simp
qed

lemma mfyvwbc_ok:
  assumes "kbo_ocb o0" and "f_code x < 0"
  shows "copies o0 b t d u \<Longrightarrow> bal_rep o0 \<beta> w ocb \<Longrightarrow>
    \<exists>ocb'. mfyvwbc ocb b t d x lhs = Some (f_code x \<in> f_code ` term_vars u, ocb') \<and> walked o0 lhs u \<beta> w ocb'"
proof (induction u arbitrary: t d \<beta> w ocb)
  case (TermCell f p ty us)
  let ?u = "TermCell f p ty us" and ?s = "sgn_of lhs"
  obtain t' d' where t': "TermDeref b t d = Some (t', d')" and h: "head_ok o0 b t' d' ?u"
    using copies_head [OF TermCell.prems(1)] by blast
  note hs = copies_head_sym [OF h] and hd = head_okD [OF h]
  have wf: "wf_term (ocb_sig o0) ?u" using copies_wf [OF TermCell.prems(1)] .
  obtain o1 where o1: "local_vb_update ocb t' lhs = Some o1"
    "bal_rep o0 (\<lambda>i. \<beta> i + ?s * head_occ ?u i) (w + ?s * head_weight o0 ?u) o1"
    using local_vb_update_ok [OF assms(1) TermCell.prems(2) hs(1), of lhs] hs(2,3) by auto
  show ?case
  proof (cases "f_code x = f")
    case True
    then have "us = []" using wf assms(2) by simp
    then have "walked o0 lhs ?u \<beta> w o1" using walked_args [OF wf, of us o0 \<beta> lhs w o1] o1(2) by simp
    moreover have "mfyvwbc ocb b t d x lhs = Some (True, o1)"
      using t' o1(1) hd(4) True by (subst mfyvwbc.simps) simp
    ultimately show ?thesis using True assms(2) by auto
  next
    case False
    let ?step = "\<lambda>ocb i. do { a \<leftarrow> t_arg t' i; mfyvwbc ocb b a d' x lhs }" and ?Q = "\<lambda>i. f_code x \<in> f_code ` term_vars (us ! i)"
    have "\<exists>o'. ?step ocb i = Some (?Q i, o') \<and>
        bal_rep o0 (\<lambda>j. \<beta> j + ?s * occ (us ! i) j) (w + ?s * kbo_weight (ocb_par o0) (us ! i)) o'"
      if i: "i \<in> set [0..<length us]" and r: "bal_rep o0 \<beta> w ocb" for i ocb \<beta> w
    proof -
      obtain a where "t_arg t' i = Some a" "copies o0 b a d' (us ! i)" using head_ok_arg [OF h, of i] i by auto
      then show ?thesis using TermCell.IH [OF _ _ r, of "us ! i"] i by (simp add: walked_def)
    qed
    from bal_loop_or [of "[0..<length us]" o0 ?step ?Q, OF this o1(2)]
    obtain o2 where o2: "foldM (\<lambda>(res, ocb) i. do { (r, ocb) \<leftarrow> ?step ocb i; Some (res \<or> r, ocb) }) (False, o1) [0..<length us] =
        Some (False \<or> (\<exists>i \<in> set [0..<length us]. ?Q i), o2)"
      "bal_rep o0 (\<lambda>j. (\<beta> j + ?s * head_occ ?u j) + (\<Sum>i \<leftarrow> [0..<length us]. ?s * occ (us ! i) j))
        ((w + ?s * head_weight o0 ?u) + (\<Sum>i \<leftarrow> [0..<length us]. ?s * kbo_weight (ocb_par o0) (us ! i))) o2" by blast
    have "mfyvwbc ocb b t d x lhs =
        foldM (\<lambda>(res, ocb) i. do { (r, ocb) \<leftarrow> ?step ocb i; Some (res \<or> r, ocb) }) (False, o1) [0..<length us]"
      using t' o1(1) hd(4,7) False by (subst mfyvwbc.simps) simp
    moreover have "(\<exists>i \<in> set [0..<length us]. ?Q i) \<longleftrightarrow> f_code x \<in> f_code ` term_vars ?u"
    proof (cases "f < 0")
      case True
      then show ?thesis using wf False by simp
    next
      case nv: False
      have "(\<exists>i \<in> set [0..<length us]. ?Q i) \<longleftrightarrow> (\<exists>a \<in> set us. f_code x \<in> f_code ` term_vars a)"
        by (auto simp: set_conv_nth)
      also have "\<dots> \<longleftrightarrow> f_code x \<in> f_code ` term_vars ?u" using nv by auto
      finally show ?thesis .
    qed
    ultimately show ?thesis using walked_args [OF wf _ o2(2)] o2(1) by simp
  qed
qed

section \<open>Walking with a stack\<close>

text \<open>
  A loop with a term on top of the stack goes on with the term replaced by its contribution.
  \<open>visit_ok\<close> is what the update at a cell must do.
\<close>

definition visit_ok :: "OCB \<Rightarrow> bool \<Rightarrow> (OCB \<Rightarrow> Term_p \<Rightarrow> OCB option) \<Rightarrow> bool" where
  "visit_ok o0 lhs visit \<longleftrightarrow> (\<forall>\<beta> w ocb t. bal_rep o0 \<beta> w ocb \<longrightarrow> TermIsFreeVar t \<or> f_code t \<in> symbols \<longrightarrow>
     (\<exists>ocb'. visit ocb t = Some ocb' \<and>
        bal_rep o0 (\<lambda>i. \<beta> i + sgn_of lhs * head_occ t i) (w + sgn_of lhs * head_weight o0 t) ocb'))"

lemma visit_okD:
  "visit_ok o0 lhs visit \<Longrightarrow> bal_rep o0 \<beta> w ocb \<Longrightarrow> TermIsFreeVar t \<or> f_code t \<in> symbols \<Longrightarrow>
   \<exists>ocb'. visit ocb t = Some ocb' \<and> bal_rep o0 (\<lambda>i. \<beta> i + sgn_of lhs * head_occ t i) (w + sgn_of lhs * head_weight o0 t) ocb'"
  unfolding visit_ok_def by blast

lemma local_vb_update_visit: "kbo_ocb o0 \<Longrightarrow> visit_ok o0 lhs (\<lambda>ocb t. local_vb_update ocb t lhs)"
  by (simp add: visit_ok_def local_vb_update_ok)

text \<open>One round of the loop replaces the top entry by those of its arguments.\<close>

lemma mfyvw_loop_step:
  assumes "visit_ok o0 lhs visit" and "tg_rep stack (es @ [(t, d)])" and "copies o0 b t d u" and "bal_rep o0 \<beta> w ocb"
  shows "\<exists>t' d' ocb' stack'. mfyvw_loop visit ot 0 b ocb stack = mfyvw_loop visit ot 0 b ocb' stack' \<and>
    head_ok o0 b t' d' u \<and> tg_rep stack' (es @ map (\<lambda>a. (a, d')) (t_args t')) \<and>
    bal_rep o0 (\<lambda>i. \<beta> i + sgn_of lhs * head_occ u i) (w + sgn_of lhs * head_weight o0 u) ocb'"
proof -
  obtain s1 where s1: "PLocalTaggedStackPop stack = Some (t, d, s1)" "tg_rep s1 es"
    using PLocalTaggedStackPop_ok [OF assms(2)] by blast
  obtain t' d' where t': "TermDeref b t d = Some (t', d')" and h: "head_ok o0 b t' d' u"
    using copies_head [OF assms(3)] by blast
  note hs = copies_head_sym [OF h]
  obtain o1 where o1: "visit ocb t' = Some o1"
    "bal_rep o0 (\<lambda>i. \<beta> i + sgn_of lhs * head_occ u i) (w + sgn_of lhs * head_weight o0 u) o1"
    using visit_okD [OF assms(1,4) hs(1)] hs(2,3) by auto
  obtain s2 where s2: "PLocalTaggedStackPushTermArgs s1 (t_args t') d' = Some s2" "tg_rep s2 (es @ map (\<lambda>a. (a, d')) (t_args t'))"
    using PLocalTaggedStackPushTermArgs_ok [OF s1(2)] by blast
  have noargs: "t_args t' = []" if "TermIsFreeVar t'" using head_okD(2) [OF h] that by (cases t') simp
  have "mfyvw_loop visit ot 0 b ocb stack = mfyvw_loop visit ot 0 b o1 (if TermIsFreeVar t' then s1 else s2)"
    using tg_empty_iff [OF assms(2)] s1(1) t' o1(1) s2(1) by (subst mfyvw_loop.simps) simp
  moreover have "tg_rep (if TermIsFreeVar t' then s1 else s2) (es @ map (\<lambda>a. (a, d')) (t_args t'))"
    using s1(2) s2(2) noargs by simp
  ultimately show ?thesis using h o1(2) by blast
qed

lemma mfyvw_loop_top:
  assumes "visit_ok o0 lhs visit"
  shows "tg_rep stack (es @ [(t, d)]) \<Longrightarrow> copies o0 b t d u \<Longrightarrow> bal_rep o0 \<beta> w ocb \<Longrightarrow>
    \<exists>ocb' stack'. mfyvw_loop visit ot 0 b ocb stack = mfyvw_loop visit ot 0 b ocb' stack' \<and> tg_rep stack' es \<and>
      walked o0 lhs u \<beta> w ocb'"
proof (induction u arbitrary: t d es stack \<beta> w ocb)
  case (TermCell f p ty us)
  let ?u = "TermCell f p ty us" and ?s = "sgn_of lhs"
  obtain t' d' o1 s1 where st: "mfyvw_loop visit ot 0 b ocb stack = mfyvw_loop visit ot 0 b o1 s1"
    "head_ok o0 b t' d' ?u" "tg_rep s1 (es @ map (\<lambda>a. (a, d')) (t_args t'))"
    "bal_rep o0 (\<lambda>i. \<beta> i + ?s * head_occ ?u i) (w + ?s * head_weight o0 ?u) o1"
    using mfyvw_loop_step [OF assms TermCell.prems] by blast
  have args: "copies o0 b (t_args t' ! i) d' (us ! i)" if "i < length us" for i
    using head_ok_arg [OF st(2), of i] that head_okD(7) [OF st(2)] by (auto simp: t_arg_def)
  have len: "length (t_args t') = length us" using head_okD(7) [OF st(2)] by (simp add: arity_def)
  have pops: "\<exists>o' s'. mfyvw_loop visit ot 0 b ocb stk = mfyvw_loop visit ot 0 b o' s' \<and> tg_rep s' es \<and>
      bal_rep o0 (\<lambda>j. \<beta> j + (\<Sum>i \<leftarrow> [0..<n]. ?s * occ (us ! i) j)) (w + (\<Sum>i \<leftarrow> [0..<n]. ?s * kbo_weight (ocb_par o0) (us ! i))) o'"
    if "n \<le> length us" "tg_rep stk (es @ map (\<lambda>a. (a, d')) (take n (t_args t')))" "bal_rep o0 \<beta> w ocb" for n stk \<beta> w ocb
    using that
  proof (induction n arbitrary: stk \<beta> w ocb)
    case (Suc n)
    have n: "n < length us" using Suc.prems(1) by simp
    have "tg_rep stk ((es @ map (\<lambda>a. (a, d')) (take n (t_args t'))) @ [(t_args t' ! n, d')])"
      using Suc.prems(2) n len by (simp add: take_Suc_conv_app_nth)
    from TermCell.IH [OF _ this args [OF n] Suc.prems(3)] n
    obtain o2 s2 where s2: "mfyvw_loop visit ot 0 b ocb stk = mfyvw_loop visit ot 0 b o2 s2"
      "tg_rep s2 (es @ map (\<lambda>a. (a, d')) (take n (t_args t')))" "walked o0 lhs (us ! n) \<beta> w o2" by auto
    from Suc.IH [OF _ s2(2) s2(3) [unfolded walked_def]] n s2(1)
    show ?case by (simp add: algebra_simps)
  qed auto
  have "tg_rep s1 (es @ map (\<lambda>a. (a, d')) (take (length us) (t_args t')))" using st(3) len by simp
  from pops [OF order.refl this st(4)]
  obtain o2 s2 where o2: "mfyvw_loop visit ot 0 b o1 s1 = mfyvw_loop visit ot 0 b o2 s2" "tg_rep s2 es"
    "bal_rep o0 (\<lambda>j. (\<beta> j + ?s * head_occ ?u j) + (\<Sum>i \<leftarrow> [0..<length us]. ?s * occ (us ! i) j))
      ((w + ?s * head_weight o0 ?u) + (\<Sum>i \<leftarrow> [0..<length us]. ?s * kbo_weight (ocb_par o0) (us ! i))) o2" by auto
  have "walked o0 lhs ?u \<beta> w o2" using walked_args [OF copies_wf [OF TermCell.prems(2)] _ o2(3)] by simp
  then show ?case using st(1) o2(1,2) by metis
qed

lemma mfyvw_loop_ok:
  assumes "visit_ok o0 lhs visit" and "copies o0 b t d u" and "bal_rep o0 \<beta> w ocb"
  shows "\<exists>stack ocb'. PLocalTaggedStackPush PLocalStackInit t d = Some stack \<and>
    mfyvw_loop visit ot 0 b ocb stack = Some ocb' \<and> walked o0 lhs u \<beta> w ocb'"
proof -
  obtain stack where stack: "PLocalTaggedStackPush PLocalStackInit t d = Some stack" "tg_rep stack ([] @ [(t, d)])"
    using PLocalTaggedStackPush_ok [of PLocalStackInit "[]" 0 t d] by auto
  obtain ocb' stack' where r: "mfyvw_loop visit ot 0 b ocb stack = mfyvw_loop visit ot 0 b ocb' stack'" "tg_rep stack' []"
    "walked o0 lhs u \<beta> w ocb'" using mfyvw_loop_top [OF assms(1) stack(2) assms(2,3)] by blast
  have "mfyvw_loop visit ot 0 b ocb' stack' = Some ocb'"
    using tg_empty_iff [OF r(2)] by (subst mfyvw_loop.simps) simp
  then show ?thesis using stack(1) r by auto
qed

lemma mfyvwblhs_ok:
  assumes "kbo_ocb o0" and "copies o0 b t d u" and "bal_rep o0 \<beta> w ocb"
  shows "\<exists>ocb'. mfyvwblhs ocb b t d 0 = Some ocb' \<and> walked o0 True u \<beta> w ocb'"
  using mfyvw_loop_ok [OF local_vb_update_visit [OF assms(1), of True] assms(2,3), of t]
  by (auto simp: mfyvwblhs_def local_vb_update_def)

lemma mfyvwbrhs_ok:
  assumes "kbo_ocb o0" and "copies o0 b t d u" and "bal_rep o0 \<beta> w ocb"
  shows "\<exists>ocb'. mfyvwbrhs ocb b t d 0 = Some ocb' \<and> walked o0 False u \<beta> w ocb'"
  using mfyvw_loop_ok [OF local_vb_update_visit [OF assms(1), of False] assms(2,3), of t]
  by (auto simp: mfyvwbrhs_def local_vb_update_def)

end
