(* ===== verification/KBOLin_Correct.thy ===== *)
theory KBOLin_Correct
  imports KBOLin_Walk
begin

text \<open>
  Both implementations of \<open>KBO6\<close> compute the textbook ordering, \<open>kbo6cmp\<close> for every
  ordering control block of a KBO and \<open>kbolincmp\<close> for admissible weights and a precedence that
  decides the symbols of the two terms. \<open>vars_by_code\<close> is what the variable bank guarantees: no two
  variables with the same \<open>f_code\<close>.
\<close>

section \<open>Reading the balances\<close>

definition vars_by_code :: "Term_p \<Rightarrow> Term_p \<Rightarrow> bool" where
  "vars_by_code s t \<longleftrightarrow> inj_on f_code (term_vars s \<union> term_vars t)"

lemma inj_var_index:
  assumes "inj_on f_code V" and "\<And>v. v \<in> V \<Longrightarrow> TermIsFreeVar v"
  shows "inj_on var_index V"
  using assms by (auto simp: inj_on_def var_index_def TermIsFreeVar_def) (smt (verit) eq_nat_nat_iff)

lemma count_image_inj:
  "inj_on f V \<Longrightarrow> set_mset M \<subseteq> V \<Longrightarrow> x \<in> V \<Longrightarrow> count (image_mset f M) (f x) = count M x"
  by (induction M) (auto simp: inj_on_def)

lemma occ_vars:
  assumes "vars_by_code s t"
  shows "(\<forall>i. occ t i \<le> occ s i) \<longleftrightarrow> var_mset t \<subseteq># var_mset s"
    and "v \<in> term_vars s \<union> term_vars t \<Longrightarrow> occ t (var_index v) = int (count (var_mset t) v)"
proof -
  let ?V = "term_vars s \<union> term_vars t"
  have inj: "inj_on var_index ?V"
    using inj_var_index [of ?V] assms term_vars_free by (auto simp: vars_by_code_def)
  have c: "occ t (var_index v) = int (count (var_mset t) v)" "occ s (var_index v) = int (count (var_mset s) v)"
    if "v \<in> ?V" for v
    using count_image_inj [OF inj, of "var_mset t" v] count_image_inj [OF inj, of "var_mset s" v] that by (auto simp: occ_def)
  show "v \<in> ?V \<Longrightarrow> occ t (var_index v) = int (count (var_mset t) v)" using c(1) .
  show "(\<forall>i. occ t i \<le> occ s i) \<longleftrightarrow> var_mset t \<subseteq># var_mset s"
  proof
    assume le: "\<forall>i. occ t i \<le> occ s i"
    show "var_mset t \<subseteq># var_mset s"
    proof (rule mset_subset_eqI)
      fix v
      show "count (var_mset t) v \<le> count (var_mset s) v"
      proof (cases "v \<in> ?V")
        case True
        then show ?thesis using c [OF True] le by (metis of_nat_le_iff)
      next
        case False
        then show ?thesis by (metis UnI2 count_eq_zero_iff le0 set_var_mset)
      qed
    qed
  next
    assume "var_mset t \<subseteq># var_mset s"
    then have "image_mset var_index (var_mset t) \<subseteq># image_mset var_index (var_mset s)" by (rule image_mset_subseteq_mono)
    then show "\<forall>i. occ t i \<le> occ s i" by (simp add: occ_def subseteq_mset_def)
  qed
qed

lemma vars_by_code_sym: "vars_by_code s t \<Longrightarrow> vars_by_code t s"
  by (simp add: vars_by_code_def Un_commute)

lemma vars_by_code_eq:
  "vars_by_code s t \<Longrightarrow> x \<in> term_vars s \<Longrightarrow> y \<in> term_vars t \<Longrightarrow> f_code x = f_code y \<Longrightarrow> x = y"
  by (auto simp: vars_by_code_def inj_on_def)

lemma term_vars_arg: "a \<in> set (t_args s) \<Longrightarrow> \<not> TermIsFreeVar s \<Longrightarrow> term_vars a \<subseteq> term_vars s"
  by (cases s) auto

lemma vars_by_code_arg:
  assumes "vars_by_code s t" and "a \<in> set (t_args s)" and "a' \<in> set (t_args t)" and "\<not> TermIsFreeVar s" and "\<not> TermIsFreeVar t"
  shows "vars_by_code a a'"
  using assms term_vars_arg [OF assms(2,4)] term_vars_arg [OF assms(3,5)]
  unfolding vars_by_code_def by (meson Un_mono inj_on_subset)

text \<open>A comparison is finished when the balances are those of the two terms.\<close>

definition compared :: "OCB \<Rightarrow> Term_p \<Rightarrow> Term_p \<Rightarrow> OCB \<Rightarrow> bool" where
  "compared o0 us ut ocb \<longleftrightarrow> bal_rep o0 (\<lambda>i. occ us i - occ ut i)
     (kbo_weight (ocb_par o0) us - kbo_weight (ocb_par o0) ut) ocb"

lemma compared_or_n:
  assumes "compared o0 us ut ocb" and "vars_by_code us ut"
  shows "g_or_n ocb = (if var_mset ut \<subseteq># var_mset us then to_greater else to_uncomparable)"
    "l_or_n ocb = (if var_mset us \<subseteq># var_mset ut then to_lesser else to_uncomparable)"
    "wb ocb = kbo_weight (ocb_par o0) us - kbo_weight (ocb_par o0) ut"
proof -
  note r = assms(1) [unfolded compared_def]
  show "g_or_n ocb = (if var_mset ut \<subseteq># var_mset us then to_greater else to_uncomparable)"
    using bal_rep_neg_bal [OF r] occ_vars(1) [OF assms(2)] by (simp add: g_or_n_def)
  show "l_or_n ocb = (if var_mset us \<subseteq># var_mset ut then to_lesser else to_uncomparable)"
    using bal_rep_pos_bal [OF r] occ_vars(1) [OF vars_by_code_sym [OF assms(2)]] by (simp add: l_or_n_def)
  show "wb ocb = kbo_weight (ocb_par o0) us - kbo_weight (ocb_par o0) ut" using bal_rep_frame(4) [OF r] .
qed

lemma compared_walked:
  assumes "bal_rep o0 (\<lambda>_. 0) 0 ocb"
  shows "walked o0 True us (\<lambda>_. 0) 0 o1 \<Longrightarrow> walked o0 False ut (\<lambda>i. occ us i) (kbo_weight (ocb_par o0) us) o2 \<Longrightarrow> compared o0 us ut o2"
    "walked o0 False ut (\<lambda>_. 0) 0 o1 \<Longrightarrow> walked o0 True us (\<lambda>i. - occ ut i) (- kbo_weight (ocb_par o0) ut) o2 \<Longrightarrow> compared o0 us ut o2"
  by (simp_all add: walked_def compared_def)

text \<open>One variable on one side, a term on the other.\<close>

lemma walked_var:
  assumes "TermIsFreeVar v"
  shows "inc_vb ocb v = Some o' \<Longrightarrow> bal_rep o0 \<beta> w ocb \<Longrightarrow> walked o0 True v \<beta> w o'"
    "dec_vb ocb v = Some o' \<Longrightarrow> bal_rep o0 \<beta> w ocb \<Longrightarrow> walked o0 False v \<beta> w o'"
proof -
  have w: "kbo_weight (ocb_par o0) v = var_weight o0" using assms by (cases v) (simp add: ocb_par_def)
  have "(\<lambda>i. \<beta> i + occ v i) = \<beta>(var_index v := \<beta> (var_index v) + 1)"
    "(\<lambda>i. \<beta> i - occ v i) = \<beta>(var_index v := \<beta> (var_index v) - 1)"
    by (auto simp: occ_var [OF assms])
  then show "inc_vb ocb v = Some o' \<Longrightarrow> bal_rep o0 \<beta> w ocb \<Longrightarrow> walked o0 True v \<beta> w o'"
    "dec_vb ocb v = Some o' \<Longrightarrow> bal_rep o0 \<beta> w ocb \<Longrightarrow> walked o0 False v \<beta> w o'"
    using inc_vb_ok [of o0 \<beta> w ocb v] dec_vb_ok [of o0 \<beta> w ocb v] by (auto simp: walked_def w)
qed

lemma inc_vb_walked:
  assumes "TermIsFreeVar v" and "bal_rep o0 \<beta> w ocb"
  obtains o' where "inc_vb ocb v = Some o'" "walked o0 True v \<beta> w o'"
  using inc_vb_ok [OF assms(2), of v] walked_var(1) [OF assms(1) _ assms(2)] by blast

lemma dec_vb_walked:
  assumes "TermIsFreeVar v" and "bal_rep o0 \<beta> w ocb"
  obtains o' where "dec_vb ocb v = Some o'" "walked o0 False v \<beta> w o'"
  using dec_vb_ok [OF assms(2), of v] walked_var(2) [OF assms(1) _ assms(2)] by blast

lemma walkedD:
  "walked o0 True u \<beta> w ocb \<Longrightarrow> bal_rep o0 (\<lambda>i. \<beta> i + occ u i) (w + kbo_weight (ocb_par o0) u) ocb"
  "walked o0 False u \<beta> w ocb \<Longrightarrow> bal_rep o0 (\<lambda>i. \<beta> i - occ u i) (w - kbo_weight (ocb_par o0) u) ocb"
  by (simp_all add: walked_def)

text \<open>The results when one of the terms is a variable.\<close>

lemma kbo_cmp_var:
  assumes "TermIsFreeVar v" and "\<not> TermIsFreeVar t"
  shows "kbo_cmp P v t = (if v \<in> term_vars t then to_lesser else to_uncomparable)"
    "kbo_cmp P t v = (if v \<in> term_vars t then to_greater else to_uncomparable)"
  using kbo_gt_var(1) [OF assms(1), of P t] kbo_gt_var(2) [OF assms(1), of P t] assms by (auto simp: kbo_cmp_def)

lemma kbo_cmp_vars: "TermIsFreeVar v \<Longrightarrow> TermIsFreeVar x \<Longrightarrow> kbo_cmp P v x = (if v = x then to_equal else to_uncomparable)"
  using kbo_gt_var(2) [of v P x] kbo_gt_var(2) [of x P v] by (simp add: kbo_cmp_def)

lemma var_code_mem:
  assumes "vars_by_code v t" and "TermIsFreeVar v"
  shows "f_code v \<in> f_code ` term_vars t \<longleftrightarrow> v \<in> term_vars t"
  using vars_by_code_eq [OF assms(1), of v] wf_term_var_vars [OF assms(2)] by auto

lemma var_mset_var_sub: "TermIsFreeVar v \<Longrightarrow> var_mset v \<subseteq># var_mset t \<longleftrightarrow> v \<in> term_vars t"
  by (cases v) (simp add: mset_subset_eq_single)

section \<open>Arguments with a first difference\<close>

lemma sum_upt_split:
  fixes g :: "nat \<Rightarrow> int"
  assumes "k < n" and "\<And>i. i < k \<Longrightarrow> g i = 0"
  shows "(\<Sum>i \<leftarrow> [0..<n]. g i) = g k + (\<Sum>i \<leftarrow> [Suc k..<n]. g i)"
proof -
  have "[0..<n] = [0..<k] @ k # [Suc k..<n]" using assms(1) upt_add_eq_append [of 0 k "n - k"] by (simp add: upt_conv_Cons)
  moreover have "(\<Sum>i \<leftarrow> [0..<k]. g i) = 0" using assms(2) by (induction k) simp_all
  ultimately show ?thesis by simp
qed

lemma sum_args_diff:
  fixes g :: "Term_p \<Rightarrow> int"
  assumes "length ss = length ts" and "k < length ss" and "\<forall>i < k. ss ! i = ts ! i"
  shows "(\<Sum>a \<leftarrow> ss. g a) - (\<Sum>a \<leftarrow> ts. g a) =
    (g (ss ! k) - g (ts ! k)) + (\<Sum>i \<leftarrow> [Suc k..<length ss]. g (ss ! i) - g (ts ! i))"
proof -
  have "(\<Sum>a \<leftarrow> ss. g a) - (\<Sum>a \<leftarrow> ts. g a) = (\<Sum>i \<leftarrow> [0..<length ss]. g (ss ! i) - g (ts ! i))"
    unfolding sum_list_args [of g ss] sum_list_args [of g ts] assms(1) by (simp only: sum_list_subtractf)
  also have "\<dots> = (g (ss ! k) - g (ts ! k)) + (\<Sum>i \<leftarrow> [Suc k..<length ss]. g (ss ! i) - g (ts ! i))"
    by (rule sum_upt_split) (use assms in simp_all)
  finally show ?thesis .
qed

text \<open>Two terms with the same head: what both traversals need about their arguments.\<close>

definition same_top :: "OCB \<Rightarrow> Term_p \<Rightarrow> Term_p \<Rightarrow> bool" where
  "same_top o0 us ut \<longleftrightarrow> kbo_term o0 us \<and> kbo_term o0 ut \<and> \<not> TermIsFreeVar us \<and> f_code us = f_code ut"

lemma same_topD:
  assumes "same_top o0 us ut"
  shows "\<not> TermIsFreeVar us" "\<not> TermIsFreeVar ut" "f_code us = f_code ut" "length (t_args us) = length (t_args ut)"
    "us = ut \<longleftrightarrow> t_args us = t_args ut" "kbo_term o0 us" "kbo_term o0 ut"
proof -
  have d: "wf_term (ocb_sig o0) us" "wf_term (ocb_sig o0) ut" "\<not> TermIsFreeVar us" "f_code us = f_code ut"
    using assms by (simp_all add: same_top_def kbo_term_def)
  show "\<not> TermIsFreeVar us" "f_code us = f_code ut" "kbo_term o0 us" "kbo_term o0 ut" using assms by (simp_all add: same_top_def)
  show "\<not> TermIsFreeVar ut" using d(3,4) by (simp add: TermIsFreeVar_def)
  show "length (t_args us) = length (t_args ut)" "us = ut \<longleftrightarrow> t_args us = t_args ut" using same_head(3,4) [OF d] by (simp_all add: arity_def)
qed

lemma same_top_diff:
  assumes "same_top o0 us ut" and "k < length (t_args us)" and "\<forall>i < k. t_args us ! i = t_args ut ! i"
  shows "occ us j - occ ut j = (occ (t_args us ! k) j - occ (t_args ut ! k) j) +
      (\<Sum>i \<leftarrow> [Suc k..<length (t_args us)]. occ (t_args us ! i) j - occ (t_args ut ! i) j)"
    and "kbo_weight (ocb_par o0) us - kbo_weight (ocb_par o0) ut =
      (kbo_weight (ocb_par o0) (t_args us ! k) - kbo_weight (ocb_par o0) (t_args ut ! k)) +
      (\<Sum>i \<leftarrow> [Suc k..<length (t_args us)]. kbo_weight (ocb_par o0) (t_args us ! i) - kbo_weight (ocb_par o0) (t_args ut ! i))"
proof -
  note d = same_topD [OF assms(1)]
  note s = sum_args_diff [OF d(4) assms(2,3)]
  show "occ us j - occ ut j = (occ (t_args us ! k) j - occ (t_args ut ! k) j) +
      (\<Sum>i \<leftarrow> [Suc k..<length (t_args us)]. occ (t_args us ! i) j - occ (t_args ut ! i) j)"
    unfolding occ_args [OF d(1)] occ_args [OF d(2)] using s [of "\<lambda>a. occ a j"] .
  show "kbo_weight (ocb_par o0) us - kbo_weight (ocb_par o0) ut =
      (kbo_weight (ocb_par o0) (t_args us ! k) - kbo_weight (ocb_par o0) (t_args ut ! k)) +
      (\<Sum>i \<leftarrow> [Suc k..<length (t_args us)]. kbo_weight (ocb_par o0) (t_args us ! i) - kbo_weight (ocb_par o0) (t_args ut ! i))"
    unfolding kbo_weight_cell [OF d(1)] kbo_weight_cell [OF d(2)] d(3) using s [of "kbo_weight (ocb_par o0)"] by simp
qed

lemma same_top_compared:
  assumes "same_top o0 us ut" and "k < length (t_args us)" and "\<forall>i < k. t_args us ! i = t_args ut ! i"
    and "bal_rep o0 (\<lambda>j. (occ (t_args us ! k) j - occ (t_args ut ! k) j) +
        (\<Sum>i \<leftarrow> [Suc k..<length (t_args us)]. occ (t_args us ! i) j - occ (t_args ut ! i) j))
      ((kbo_weight (ocb_par o0) (t_args us ! k) - kbo_weight (ocb_par o0) (t_args ut ! k)) +
        (\<Sum>i \<leftarrow> [Suc k..<length (t_args us)]. kbo_weight (ocb_par o0) (t_args us ! i) - kbo_weight (ocb_par o0) (t_args ut ! i))) ocb"
  shows "compared o0 us ut ocb"
  using assms(4) same_top_diff [OF assms(1-3)] by (simp add: compared_def)

text \<open>If only one argument differs, comparing it is enough.\<close>

lemma gt_heavier:
  assumes "kbo_admissible o0" and "kbo_term o0 a" and "kbo_term o0 c"
    and "var_mset c \<subseteq># var_mset a" and "kbo_weight (ocb_par o0) c < kbo_weight (ocb_par o0) a"
  shows "kbo_gt (ocb_par o0) a c"
proof -
  have w: "kp_var (ocb_par o0) \<le> kbo_weight (ocb_par o0) c"
    using kbo.weight_ge_var [OF assms(1)] assms(3) kbo_okt by blast
  have nv: "\<not> TermIsFreeVar a" using assms(5) w by (cases a) auto
  show ?thesis
  proof (cases "TermIsFreeVar c")
    case True
    then show ?thesis using kbo_gt_var(1) [OF True] nv assms(4) var_mset_var_sub by blast
  next
    case False
    then show ?thesis using kbo_gt_cases [OF nv False] assms(4,5) by simp
  qed
qed

lemma gt_iff_heavier:
  assumes "kbo_admissible o0" and "kbo_term o0 a" and "kbo_term o0 c"
  shows "kbo_gt (ocb_par o0) a c \<longleftrightarrow> var_mset c \<subseteq># var_mset a \<and>
    (kbo_weight (ocb_par o0) c < kbo_weight (ocb_par o0) a \<or>
     kbo_weight (ocb_par o0) c = kbo_weight (ocb_par o0) a \<and> kbo_gt (ocb_par o0) a c)"
proof -
  have "kbo.okt o0 a" "kbo.okt o0 c" using assms(2,3) by (simp_all add: kbo_okt)
  note w = kbo.gt_weight [OF assms(1) this]
  show ?thesis using gt_heavier [OF assms] w kbo.gt_vars [of "ocb_par o0" a c] by linarith
qed

lemma kbo_term_arg: "kbo_term o0 t \<Longrightarrow> a \<in> set (t_args t) \<Longrightarrow> kbo_term o0 a"
  using kbo.okt_arg kbo_okt by blast

lemma sub_mset_diff:
  fixes A B C D :: "'a multiset"
  assumes "\<And>x. int (count A x) - int (count B x) = int (count C x) - int (count D x)"
  shows "B \<subseteq># A \<longleftrightarrow> D \<subseteq># C"
proof -
  have "count B x \<le> count A x \<longleftrightarrow> count D x \<le> count C x" for x using assms [of x] by linarith
  then show ?thesis by (simp add: subseteq_mset_def)
qed

lemma gt_one_diff:
  assumes "kbo_admissible o0" and "same_top o0 us ut" and "Suc k = length (t_args us)"
    and "\<forall>i < k. t_args us ! i = t_args ut ! i" and "t_args us ! k \<noteq> t_args ut ! k"
  shows "kbo_gt (ocb_par o0) us ut \<longleftrightarrow> kbo_gt (ocb_par o0) (t_args us ! k) (t_args ut ! k)"
proof -
  let ?W = "kbo_weight (ocb_par o0)" and ?a = "t_args us ! k" and ?c = "t_args ut ! k"
  note d = same_topD [OF assms(2)]
  have mem: "?a \<in> set (t_args us)" "?c \<in> set (t_args ut)" using assms(3) d(4) by simp_all
  have kt: "kbo_term o0 ?a" "kbo_term o0 ?c" using kbo_term_arg d(6,7) mem by blast+
  have k: "k < length (t_args us)" using assms(3) by simp
  have w: "?W us - ?W ut = ?W ?a - ?W ?c" using same_top_diff(2) [OF assms(2) k assms(4)] assms(3) by simp
  have cnt: "int (count (var_mset u) x) = (\<Sum>a \<leftarrow> t_args u. int (count (var_mset a) x))" if "\<not> TermIsFreeVar u" for u x
  proof -
    have "int (count (sum_list (map var_mset as)) x) = (\<Sum>a \<leftarrow> as. int (count (var_mset a) x))" for as
      by (induction as) simp_all
    then show ?thesis using that by (cases u) simp
  qed
  have v: "var_mset ut \<subseteq># var_mset us \<longleftrightarrow> var_mset ?c \<subseteq># var_mset ?a"
  proof (rule sub_mset_diff)
    fix x
    show "int (count (var_mset us) x) - int (count (var_mset ut) x) = int (count (var_mset ?a) x) - int (count (var_mset ?c) x)"
      using sum_args_diff [OF d(4) k assms(4), of "\<lambda>a. int (count (var_mset a) x)"] assms(3) cnt [OF d(1), of x] cnt [OF d(2), of x] by simp
  qed
  have "\<not> kp_prec (ocb_par o0) (f_code us) (f_code ut) = to_greater"
    using ocb_par_prec(3) [OF kbo_admissible_ocb [OF assms(1)], of "f_code us" "f_code ut"] d(3) kbo.okt_fun [of o0 us] d(1,6) kbo_okt by auto
  moreover have "kbo_lex (ocb_par o0) (t_args us) (t_args ut) = kbo_gt (ocb_par o0) ?a ?c"
    using kbo_lex_first [of k "t_args us" "t_args ut"] assms(3-5) d(4) by simp
  moreover have "?W ut < ?W us \<longleftrightarrow> ?W ?c < ?W ?a" "?W ut = ?W us \<longleftrightarrow> ?W ?c = ?W ?a" using w by linarith+
  ultimately have "kbo_gt (ocb_par o0) us ut \<longleftrightarrow> var_mset ?c \<subseteq># var_mset ?a \<and>
      (?W ?c < ?W ?a \<or> ?W ?c = ?W ?a \<and> kbo_gt (ocb_par o0) ?a ?c)"
    using kbo_gt_cases [OF d(1,2), of "ocb_par o0"] v d(3) by simp
  also have "\<dots> \<longleftrightarrow> kbo_gt (ocb_par o0) ?a ?c" by (rule gt_iff_heavier [OF assms(1) kt, symmetric])
  finally show ?thesis .
qed

lemma same_top_sym: "same_top o0 us ut \<Longrightarrow> same_top o0 ut us"
  unfolding same_top_def by (metis TermIsFreeVar_def)

lemma cmp_one_diff:
  assumes "kbo_admissible o0" and "same_top o0 us ut" and "Suc k = length (t_args us)"
    and "\<forall>i < k. t_args us ! i = t_args ut ! i"
  shows "kbo_cmp (ocb_par o0) us ut = kbo_cmp (ocb_par o0) (t_args us ! k) (t_args ut ! k)"
proof (cases "t_args us ! k = t_args ut ! k")
  case True
  have "t_args us ! i = t_args ut ! i" if "i < length (t_args us)" for i
    using that assms(3,4) True by (cases "i = k") auto
  then have "t_args us = t_args ut" by (intro nth_equalityI) (simp_all add: same_topD(4) [OF assms(2)])
  then have "us = ut" using same_topD(5) [OF assms(2)] by blast
  then show ?thesis using True by (simp add: kbo_cmp_def)
next
  case False
  note d = same_topD [OF assms(2)]
  have "kbo_gt (ocb_par o0) ut us \<longleftrightarrow> kbo_gt (ocb_par o0) (t_args ut ! k) (t_args us ! k)"
    by (rule gt_one_diff [OF assms(1) same_top_sym [OF assms(2)]]) (use assms(3,4) d(4) False in auto)
  moreover have "us \<noteq> ut" using False by auto
  ultimately show ?thesis using gt_one_diff [OF assms False] False by (simp add: kbo_cmp_def)
qed

lemma kbo_cmp_same_top:
  assumes "kbo_ocb o0" and "same_top o0 us ut" and "k < length (t_args us)" and "\<forall>i < k. t_args us ! i = t_args ut ! i"
    and "t_args us ! k \<noteq> t_args ut ! k" and "compared o0 us ut ocb" and "vars_by_code us ut"
  shows "lin_result ocb (kbo_cmp (ocb_par o0) (t_args us ! k) (t_args ut ! k)) = kbo_cmp (ocb_par o0) us ut"
proof -
  note d = same_topD [OF assms(2)]
  have t: "term_syms us \<subseteq> symbols" "term_syms ut \<subseteq> symbols" "wf_term (ocb_sig o0) us" "wf_term (ocb_sig o0) ut"
    using d(6,7) by (simp_all add: kbo_term_def)
  note spec = kbo_cmp_fun [OF assms(1) d(1,2) t]
  have "kbo_cmp (ocb_par o0) (t_args us ! k) (t_args ut ! k) \<in> {to_greater, to_lesser, to_uncomparable}"
    using assms(5) by (simp add: kbo_cmp_def)
  then show ?thesis
    using spec(1,2) spec(6) [of k] assms(3-5) d(3) compared_or_n [OF assms(6,7)]
    by (auto simp: lin_result_def arity_def)
qed

section \<open>The recursive version\<close>

lemma foldM_split:
  assumes "\<And>s i. i < k \<Longrightarrow> I s \<Longrightarrow> \<exists>s'. f s i = Some s' \<and> I s'" and "I s" and "k \<le> n"
  shows "\<exists>s'. I s' \<and> foldM f s [0..<n] = foldM f s' [k..<n]"
proof -
  have "\<exists>s'. foldM f s [0..<m] = Some s' \<and> I s'" if "m \<le> k" for m
    using that by (induction m) (use assms(1,2) in \<open>auto simp: foldM_snoc\<close>)
  then obtain s' where "foldM f s [0..<k] = Some s'" "I s'" by blast
  moreover have "[0..<n] = [0..<k] @ [k..<n]" using assms(3) upt_add_eq_append [of 0 k "n - k"] by simp
  ultimately show ?thesis by (auto simp: foldM_append)
qed

lemma foldM_brk_split:
  assumes "\<And>s i. i < k \<Longrightarrow> I s \<Longrightarrow> \<exists>s'. f i s = Some (s', False) \<and> I s'" and "I s" and "k \<le> n"
  shows "\<exists>s'. I s' \<and> foldM_brk f s [0..<n] = foldM_brk f s' [k..<n]"
proof -
  have "\<exists>s'. I s' \<and> foldM_brk f s ([i..<k] @ js) = foldM_brk f s' js" if "i \<le> k" "I s" for i s js
    using that
  proof (induction "k - i" arbitrary: i s)
    case (Suc m)
    have "i < k" using Suc.hyps(2) by simp
    then obtain s1 where "f i s = Some (s1, False)" "I s1" using assms(1) [of i s] Suc.prems(2) by blast
    then show ?case using Suc.hyps(1) [of "Suc i" s1] Suc.hyps(2) \<open>i < k\<close> by (simp add: upt_conv_Cons)
  qed auto
  from this [of 0 s "[k..<n]"] assms(2,3) show ?thesis using upt_add_eq_append [of 0 k "n - k"] by simp
qed

lemma compared_refl: "bal_rep o0 (\<lambda>_. 0) 0 ocb \<longleftrightarrow> compared o0 u u ocb"
  by (simp add: compared_def)

text \<open>The arguments after the first difference.\<close>

lemma rest_loop:
  assumes "same_top o0 us ut" and "k < length (t_args us)" and "\<forall>i < k. t_args us ! i = t_args ut ! i"
    and "compared o0 (t_args us ! k) (t_args ut ! k) ocb"
    and "\<And>ocb \<beta> w i. i < length (t_args us) \<Longrightarrow> bal_rep o0 \<beta> w ocb \<Longrightarrow>
      \<exists>o1 o2. walked o0 True (t_args us ! i) \<beta> w o1 \<and> step ocb i = Some o2 \<and>
        walked o0 False (t_args ut ! i) (\<lambda>j. \<beta> j + occ (t_args us ! i) j) (w + kbo_weight (ocb_par o0) (t_args us ! i)) o2"
  shows "\<exists>ocb'. foldM step ocb [Suc k..<length (t_args us)] = Some ocb' \<and> compared o0 us ut ocb'"
proof -
  have "\<exists>o'. step ocb i = Some o' \<and> bal_rep o0 (\<lambda>j. \<beta> j + (occ (t_args us ! i) j - occ (t_args ut ! i) j))
      (w + (kbo_weight (ocb_par o0) (t_args us ! i) - kbo_weight (ocb_par o0) (t_args ut ! i))) o'"
    if "i \<in> set [Suc k..<length (t_args us)]" "bal_rep o0 \<beta> w ocb" for ocb \<beta> w i
    using assms(5) [of i \<beta> w ocb] that by (auto simp: walked_def algebra_simps)
  from bal_loop [of "[Suc k..<length (t_args us)]" o0 step, OF this assms(4) [unfolded compared_def]]
  show ?thesis using same_top_compared [OF assms(1-3)] by (auto simp: add.assoc)
qed

text \<open>The Pacman lemma.\<close>

lemma same_top_head:
  assumes "head_ok o0 b s ds us" and "head_ok o0 b t dt ut" and "f_code us = f_code ut" and "\<not> TermIsFreeVar us"
  shows "same_top o0 us ut"
  using assms copies_okt [OF head_okD(3) [OF assms(1)]] copies_okt [OF head_okD(3) [OF assms(2)]]
  by (simp add: same_top_def kbo_okt)

lemma one_arg_nonvar: "wf_term sg u \<Longrightarrow> arity u = 1 \<Longrightarrow> \<not> TermIsFreeVar u"
  by (cases u) auto

lemma pacman_ok:
  assumes "kbo_admissible o0"
  shows "head_ok o0 b s ds us \<Longrightarrow> head_ok o0 b t dt ut \<Longrightarrow> vars_by_code us ut \<Longrightarrow>
    \<exists>s' t' ds' dt' us' ut'. pacman b s t ds dt = Some (s', t', ds', dt') \<and>
      head_ok o0 b s' ds' us' \<and> head_ok o0 b t' dt' ut' \<and> vars_by_code us' ut' \<and>
      kbo_cmp (ocb_par o0) us ut = kbo_cmp (ocb_par o0) us' ut' \<and>
      (\<forall>ocb. compared o0 us' ut' ocb \<longrightarrow> compared o0 us ut ocb) \<and> size us' \<le> size us"
proof (induction us arbitrary: s t ds dt ut)
  case (TermCell f p ty ss)
  let ?us = "TermCell f p ty ss"
  note hs = head_okD [OF TermCell.prems(1)] and ht = head_okD [OF TermCell.prems(2)]
  show ?case
  proof (cases "arity ?us = 1 \<and> f = f_code ut")
    case False
    then have "pacman b s t ds dt = Some (s, t, ds, dt)"
      using hs(4,7) ht(4) by (subst pacman.simps) auto
    then show ?thesis using TermCell.prems by blast
  next
    case True
    then obtain x where ss: "ss = [x]" by (auto simp: length_Suc_conv)
    have nv: "\<not> TermIsFreeVar ?us" using one_arg_nonvar [OF copies_wf [OF hs(3)]] True by simp
    have st: "same_top o0 ?us ut" using same_top_head [OF TermCell.prems(1,2) _ nv] True by simp
    note d = same_topD [OF st]
    obtain y where y: "t_args ut = [y]" using d(4) ss by (cases "t_args ut") auto
    obtain a where a: "t_arg s 0 = Some a" "copies o0 b a ds x" using head_ok_arg [OF TermCell.prems(1), of 0] ss by auto
    obtain c where c: "t_arg t 0 = Some c" "copies o0 b c dt y" using head_ok_arg [OF TermCell.prems(2), of 0] y by (auto simp: arity_def)
    obtain a' da where a': "TermDeref b a ds = Some (a', da)" "head_ok o0 b a' da x" using copies_head [OF a(2)] by blast
    obtain c' dc where c': "TermDeref b c dt = Some (c', dc)" "head_ok o0 b c' dc y" using copies_head [OF c(2)] by blast
    have "vars_by_code x y" using vars_by_code_arg [OF TermCell.prems(3), of x y] d(1,2) ss y by simp
    from TermCell.IH [OF _ a'(2) c'(2) this] ss
    obtain s' t' ds' dt' us' ut' where r: "pacman b a' c' da dc = Some (s', t', ds', dt')"
      "head_ok o0 b s' ds' us'" "head_ok o0 b t' dt' ut'" "vars_by_code us' ut'"
      "kbo_cmp (ocb_par o0) x y = kbo_cmp (ocb_par o0) us' ut'"
      "\<And>ocb. compared o0 us' ut' ocb \<Longrightarrow> compared o0 x y ocb" "size us' \<le> size x" by auto
    have "pacman b s t ds dt = Some (s', t', ds', dt')"
      using True hs(4,7) ht(4) a(1) c(1) a'(1) c'(1) r(1) by (subst pacman.simps) simp
    moreover have "kbo_cmp (ocb_par o0) ?us ut = kbo_cmp (ocb_par o0) us' ut'"
      using cmp_one_diff [OF assms st, of 0] ss y r(5) by simp
    moreover have "compared o0 ?us ut ocb" if "compared o0 us' ut' ocb" for ocb
      using same_top_compared [OF st, of 0] r(6) [OF that] ss y by (simp add: compared_def)
    moreover have "size us' \<le> size ?us" using r(7) ss by simp
    ultimately show ?thesis using r(2-4) by blast
  qed
qed

lemma kbo_cmp_equal_iff: "kbo_cmp P s t = to_equal \<longleftrightarrow> s = t"
  by (simp add: kbo_cmp_def)

text \<open>The comparison of the arguments: \<open>cmp\<close> is the comparison the loop calls.\<close>

lemma kbo6cmplex_ok:
  assumes "kbo_ocb o0" and "head_ok o0 b s ds us" and "head_ok o0 b t dt ut" and "same_top o0 us ut" and "vars_by_code us ut"
    and cmp: "\<And>a a' u u' ocb. u \<in> set (t_args us) \<Longrightarrow> copies o0 b a ds u \<Longrightarrow> copies o0 b a' dt u' \<Longrightarrow> vars_by_code u u' \<Longrightarrow>
      bal_rep o0 (\<lambda>_. 0) 0 ocb \<Longrightarrow>
      \<exists>ocb'. cmp ocb a a' ds dt = Some (kbo_cmp (ocb_par o0) u u', ocb') \<and> compared o0 u u' ocb'"
    and "bal_rep o0 (\<lambda>_. 0) 0 ocb"
  shows "\<exists>r ocb'. kbo6cmplex_with cmp ocb b s t ds dt = Some (r, ocb') \<and> compared o0 us ut ocb' \<and>
    (us = ut \<and> r = to_equal \<or> (\<exists>k < length (t_args us). (\<forall>i < k. t_args us ! i = t_args ut ! i) \<and>
        t_args us ! k \<noteq> t_args ut ! k \<and> r = kbo_cmp (ocb_par o0) (t_args us ! k) (t_args ut ! k)))"
proof -
  note d = same_topD [OF assms(4)] and hs = head_okD [OF assms(2)] and ht = head_okD [OF assms(3)]
  let ?n = "length (t_args us)" and ?P = "ocb_par o0"
  let ?f = "\<lambda>(res, ocb) i. do { a \<leftarrow> t_arg s i; a' \<leftarrow> t_arg t i;
      if res = to_equal then cmp ocb a a' ds dt
      else do { ocb \<leftarrow> mfyvwb ocb b a ds True; ocb \<leftarrow> mfyvwb ocb b a' dt False; Some (res, ocb) } }"
  let ?I = "\<lambda>(res, ocb). res = to_equal \<and> bal_rep o0 (\<lambda>_. 0) 0 ocb"
  have run: "kbo6cmplex_with cmp ocb b s t ds dt = foldM ?f (to_equal, ocb) [0..<?n]"
    using hs(4,7) ht(4,7) d(3,4) by (simp add: kbo6cmplex_with_def arity_def)
  have arg: "\<exists>a a'. t_arg s i = Some a \<and> t_arg t i = Some a' \<and> copies o0 b a ds (t_args us ! i) \<and> copies o0 b a' dt (t_args ut ! i) \<and>
      vars_by_code (t_args us ! i) (t_args ut ! i)" if i: "i < ?n" for i
  proof -
    have i': "i < arity us" "i < arity ut" using i d(4) by (simp_all add: arity_def)
    obtain a where "t_arg s i = Some a" "copies o0 b a ds (t_args us ! i)" using head_ok_arg [OF assms(2) i'(1)] .
    moreover obtain a' where "t_arg t i = Some a'" "copies o0 b a' dt (t_args ut ! i)" using head_ok_arg [OF assms(3) i'(2)] .
    moreover have "vars_by_code (t_args us ! i) (t_args ut ! i)"
      using vars_by_code_arg [OF assms(5), of "t_args us ! i" "t_args ut ! i"] d(1,2,4) i by simp
    ultimately show ?thesis by blast
  qed
  have eq: "\<exists>o'. ?f (to_equal, ocb) i = Some (kbo_cmp ?P (t_args us ! i) (t_args ut ! i), o') \<and>
      compared o0 (t_args us ! i) (t_args ut ! i) o'" if i: "i < ?n" and r: "bal_rep o0 (\<lambda>_. 0) 0 ocb" for i ocb
  proof -
    obtain a a' where aa: "t_arg s i = Some a" "t_arg t i = Some a'" "copies o0 b a ds (t_args us ! i)"
      "copies o0 b a' dt (t_args ut ! i)" "vars_by_code (t_args us ! i) (t_args ut ! i)" using arg [OF i] by blast
    show ?thesis using cmp [OF _ aa(3-5) r] aa(1,2) i by auto
  qed
  have same: "\<exists>st'. ?f st i = Some st' \<and> ?I st'" if "i < ?n" "t_args us ! i = t_args ut ! i" "?I st" for st i
  proof -
    obtain ocb where st: "st = (to_equal, ocb)" "bal_rep o0 (\<lambda>_. 0) 0 ocb" using \<open>?I st\<close> by (cases st) auto
    from eq [OF that(1) st(2)] show ?thesis
      unfolding st(1) using that(2) compared_refl by (auto simp: kbo_cmp_def)
  qed
  show ?thesis
  proof (cases "t_args us = t_args ut")
    case True
    have "\<exists>st'. ?I st' \<and> foldM ?f (to_equal, ocb) [0..<?n] = foldM ?f st' [?n..<?n]"
    proof (rule foldM_split [where I = ?I])
      show "\<exists>st'. ?f st i = Some st' \<and> ?I st'" if "i < ?n" "?I st" for st i using same [OF that(1) _ that(2)] True by simp
    qed (simp_all add: assms(7))
    then obtain o' where "foldM ?f (to_equal, ocb) [0..<?n] = Some (to_equal, o')" "bal_rep o0 (\<lambda>_. 0) 0 o'" by auto
    moreover have "us = ut" using True d(5) by blast
    ultimately show ?thesis using run compared_refl by auto
  next
    case False
    then obtain k where k: "k < ?n" "\<forall>i < k. t_args us ! i = t_args ut ! i" "t_args us ! k \<noteq> t_args ut ! k"
      using first_difference [OF d(4)] by blast
    have "\<exists>st'. ?I st' \<and> foldM ?f (to_equal, ocb) [0..<?n] = foldM ?f st' [k..<?n]"
    proof (rule foldM_split [where I = ?I])
      show "\<exists>st'. ?f st i = Some st' \<and> ?I st'" if "i < k" "?I st" for st i using same [of i, OF _ _ that(2)] k(1,2) that(1) by simp
    qed (use k(1) assms(7) in simp_all)
    then obtain o1 where o1: "bal_rep o0 (\<lambda>_. 0) 0 o1" "foldM ?f (to_equal, ocb) [0..<?n] = foldM ?f (to_equal, o1) [k..<?n]" by auto
    let ?r = "kbo_cmp ?P (t_args us ! k) (t_args ut ! k)"
    obtain o2 where o2: "?f (to_equal, o1) k = Some (?r, o2)" "compared o0 (t_args us ! k) (t_args ut ! k) o2"
      using eq [OF k(1) o1(1)] by (elim exE conjE) (rule that)
    let ?step = "\<lambda>ocb i. do { a \<leftarrow> t_arg s i; a' \<leftarrow> t_arg t i; ocb \<leftarrow> mfyvwb ocb b a ds True; mfyvwb ocb b a' dt False }"
    have "\<exists>o3. foldM ?step o2 [Suc k..<?n] = Some o3 \<and> compared o0 us ut o3"
    proof (rule rest_loop [OF assms(4) k(1,2) o2(2)])
      fix ocb \<beta> w i
      assume i: "i < ?n" and r: "bal_rep o0 \<beta> w ocb"
      obtain a a' where aa: "t_arg s i = Some a" "t_arg t i = Some a'" "copies o0 b a ds (t_args us ! i)"
        "copies o0 b a' dt (t_args ut ! i)" using arg [OF i] by blast
      obtain o4 where o4: "mfyvwb ocb b a ds True = Some o4" "walked o0 True (t_args us ! i) \<beta> w o4"
        using mfyvwb_ok [OF assms(1) aa(3) r] by blast
      show "\<exists>o1 o2. walked o0 True (t_args us ! i) \<beta> w o1 \<and> ?step ocb i = Some o2 \<and>
          walked o0 False (t_args ut ! i) (\<lambda>j. \<beta> j + occ (t_args us ! i) j) (w + kbo_weight ?P (t_args us ! i)) o2"
        using mfyvwb_ok [OF assms(1) aa(4) walkedD(1) [OF o4(2)], of False] o4 aa(1,2) by auto
    qed
    then obtain o3 where o3: "foldM ?step o2 [Suc k..<?n] = Some o3" "compared o0 us ut o3" by blast
    have ne: "?r \<noteq> to_equal" using k(3) by (simp add: kbo_cmp_equal_iff)
    have "foldM ?f (?r, ocb) is = map_option (Pair ?r) (foldM ?step ocb is)" for "is" ocb
      by (induction "is" arbitrary: ocb) (simp_all add: ne map_conv_bind_option Option.bind_assoc)
    then have "foldM ?f (to_equal, o1) [k..<?n] = Some (?r, o3)"
      using o2(1) o3(1) k(1) by (simp add: upt_conv_Cons)
    then show ?thesis using run o1(2) o3(2) k by auto
  qed
qed

text \<open>The outcome of a comparison from a clean state.\<close>

definition lin_done :: "OCB \<Rightarrow> Term_p \<Rightarrow> Term_p \<Rightarrow> (CompareResult \<times> OCB) option \<Rightarrow> bool" where
  "lin_done o0 us ut r \<longleftrightarrow> (\<exists>ocb'. r = Some (kbo_cmp (ocb_par o0) us ut, ocb') \<and> compared o0 us ut ocb')"

lemma lin_doneI: "r = Some (x, ocb') \<Longrightarrow> x = kbo_cmp (ocb_par o0) us ut \<Longrightarrow> compared o0 us ut ocb' \<Longrightarrow> lin_done o0 us ut r"
  by (simp add: lin_done_def)

lemma heads_vars:
  assumes "head_ok o0 b s ds us" and "head_ok o0 b t dt ut"
  shows "TermIsFreeVar s \<longleftrightarrow> TermIsFreeVar us" "TermIsFreeVar t \<longleftrightarrow> TermIsFreeVar ut" "f_code s = f_code us" "f_code t = f_code ut"
    "TermIsFreeVar us \<Longrightarrow> s = us" "TermIsFreeVar ut \<Longrightarrow> t = ut" "copies o0 b s ds us" "copies o0 b t dt ut"
  using head_okD [OF assms(1)] head_okD [OF assms(2)] by auto

lemma different_heads:
  assumes "kbo_ocb o0" and "kbo_term o0 us" and "kbo_term o0 ut" and "\<not> TermIsFreeVar us" and "\<not> TermIsFreeVar ut"
    and "f_code us \<noteq> f_code ut" and "compared o0 us ut ocb" and "vars_by_code us ut"
  shows "OCBFunCompare ocb (f_code us) (f_code ut) = Some (kp_prec (ocb_par o0) (f_code us) (f_code ut))"
    "kp_prec (ocb_par o0) (f_code us) (f_code ut) \<in> {to_greater, to_lesser, to_uncomparable}"
    "kbo_cmp (ocb_par o0) us ut = (if wb ocb > 0 then g_or_n ocb else if wb ocb < 0 then l_or_n ocb
       else if kp_prec (ocb_par o0) (f_code us) (f_code ut) = to_greater then g_or_n ocb
       else if kp_prec (ocb_par o0) (f_code us) (f_code ut) = to_lesser then l_or_n ocb
       else to_uncomparable)"
proof -
  have t: "term_syms us \<subseteq> symbols" "term_syms ut \<subseteq> symbols" "wf_term (ocb_sig o0) us" "wf_term (ocb_sig o0) ut"
    using assms(2,3) by (simp_all add: kbo_term_def)
  have sym: "f_code us \<in> symbols" "f_code ut \<in> symbols" using term_syms_head [OF assms(4) t(1)] term_syms_head [OF assms(5) t(2)] .
  note prec = ocb_par_prec [OF assms(1) sym]
  show "OCBFunCompare ocb (f_code us) (f_code ut) = Some (kp_prec (ocb_par o0) (f_code us) (f_code ut))"
    using prec(1) bal_rep_frame(1) [OF assms(7) [unfolded compared_def]] by simp
  show p: "kp_prec (ocb_par o0) (f_code us) (f_code ut) \<in> {to_greater, to_lesser, to_uncomparable}"
    using prec(2,3) assms(6) by (auto simp: proper_results_def)
  note spec = kbo_cmp_fun [OF assms(1,4,5) t] and c = compared_or_n [OF assms(7,8)]
  show "kbo_cmp (ocb_par o0) us ut = (if wb ocb > 0 then g_or_n ocb else if wb ocb < 0 then l_or_n ocb
       else if kp_prec (ocb_par o0) (f_code us) (f_code ut) = to_greater then g_or_n ocb
       else if kp_prec (ocb_par o0) (f_code us) (f_code ut) = to_lesser then l_or_n ocb
       else to_uncomparable)"
  proof (cases "wb ocb = 0")
    case True
    then have "kbo_weight (ocb_par o0) us = kbo_weight (ocb_par o0) ut" using c(3) by simp
    then show ?thesis using spec(3-5) p c True by auto
  next
    case False
    then show ?thesis using spec(1,2) c by auto
  qed
qed

lemma kbo6cmp_ok:
  assumes "kbo_admissible o0"
  shows "copies o0 b s ds us \<Longrightarrow> copies o0 b t dt ut \<Longrightarrow> vars_by_code us ut \<Longrightarrow> bal_rep o0 (\<lambda>_. 0) 0 ocb \<Longrightarrow>
    lin_done o0 us ut (kbo6cmp ocb b s t ds dt)"
proof (induction "size us" arbitrary: us s t ds dt ut ocb rule: less_induct)
  case less
  let ?P = "ocb_par o0"
  note ocb0 = kbo_admissible_ocb [OF assms]
  obtain s1 ds1 where s1: "TermDeref b s ds = Some (s1, ds1)" "head_ok o0 b s1 ds1 us" using copies_head [OF less.prems(1)] .
  obtain t1 dt1 where t1: "TermDeref b t dt = Some (t1, dt1)" "head_ok o0 b t1 dt1 ut" using copies_head [OF less.prems(2)] .
  obtain s' t' ds' dt' us' ut' where p: "pacman b s1 t1 ds1 dt1 = Some (s', t', ds', dt')"
    "head_ok o0 b s' ds' us'" "head_ok o0 b t' dt' ut'" "vars_by_code us' ut'"
    "kbo_cmp ?P us ut = kbo_cmp ?P us' ut'" "\<And>o'. compared o0 us' ut' o' \<Longrightarrow> compared o0 us ut o'" "size us' \<le> size us"
    using pacman_ok [OF assms s1(2) t1(2) less.prems(3)] by (elim exE conjE) (rule that, auto)
  note h = heads_vars [OF p(2,3)]
  have kt: "kbo_term o0 us'" "kbo_term o0 ut'" using copies_okt [OF h(7)] copies_okt [OF h(8)] by (simp_all add: kbo_okt)
  have "lin_done o0 us' ut' (kbo6cmp ocb b s t ds dt)"
  proof (cases "TermIsFreeVar us'")
    case vs: True
    show ?thesis
    proof (cases "TermIsFreeVar ut'")
      case vt: True
      obtain o1 where o1: "inc_vb ocb us' = Some o1" "walked o0 True us' (\<lambda>_. 0) 0 o1" using inc_vb_walked [OF vs less.prems(4)] .
      obtain o2 where o2: "dec_vb o1 ut' = Some o2" "walked o0 False ut' (\<lambda>i. 0 + occ us' i) (0 + kbo_weight ?P us') o2"
        using dec_vb_walked [OF vt walkedD(1) [OF o1(2)]] .
      have "kbo6cmp ocb b s t ds dt = Some (if us' = ut' then to_equal else to_uncomparable, o2)"
        using s1(1) t1(1) p(1) h vs vt o1(1) o2(1) by (subst kbo6cmp.simps) simp
      then show ?thesis
        by (rule lin_doneI) (use kbo_cmp_vars [OF vs vt] o1(2) o2(2) in \<open>simp_all add: compared_def walked_def\<close>)
    next
      case vt: False
      obtain o1 where o1: "mfyvwbc ocb b t' dt' us' False = Some (f_code us' \<in> f_code ` term_vars ut', o1)"
        "walked o0 False ut' (\<lambda>_. 0) 0 o1"
        using mfyvwbc_ok [OF ocb0 _ h(8) less.prems(4), of us' False] vs by (auto simp: TermIsFreeVar_def)
      obtain o2 where o2: "inc_vb o1 us' = Some o2" "walked o0 True us' (\<lambda>i. 0 - occ ut' i) (0 - kbo_weight ?P ut') o2"
        using inc_vb_walked [OF vs walkedD(2) [OF o1(2)]] .
      have "kbo6cmp ocb b s t ds dt = Some (if us' \<in> term_vars ut' then to_lesser else to_uncomparable, o2)"
        using s1(1) t1(1) p(1) h vs vt o1(1) o2(1) var_code_mem [OF p(4) vs] by (subst kbo6cmp.simps) simp
      then show ?thesis
        by (rule lin_doneI) (use kbo_cmp_var(1) [OF vs vt] o2(2) in \<open>simp_all add: compared_def walked_def\<close>)
    qed
  next
    case vs: False
    show ?thesis
    proof (cases "TermIsFreeVar ut'")
      case vt: True
      obtain o1 where o1: "mfyvwbc ocb b s' ds' ut' True = Some (f_code ut' \<in> f_code ` term_vars us', o1)"
        "walked o0 True us' (\<lambda>_. 0) 0 o1"
        using mfyvwbc_ok [OF ocb0 _ h(7) less.prems(4), of ut' True] vt by (auto simp: TermIsFreeVar_def)
      obtain o2 where o2: "dec_vb o1 ut' = Some o2" "walked o0 False ut' (\<lambda>i. 0 + occ us' i) (0 + kbo_weight ?P us') o2"
        using dec_vb_walked [OF vt walkedD(1) [OF o1(2)]] .
      have "kbo6cmp ocb b s t ds dt = Some (if ut' \<in> term_vars us' then to_greater else to_uncomparable, o2)"
        using s1(1) t1(1) p(1) h vs vt o1(1) o2(1) var_code_mem [OF vars_by_code_sym [OF p(4)] vt] by (subst kbo6cmp.simps) simp
      then show ?thesis
        by (rule lin_doneI) (use kbo_cmp_var(2) [OF vt vs] o2(2) in \<open>simp_all add: compared_def walked_def\<close>)
    next
      case vt: False
      let ?fin = "\<lambda>(lex, ocb). if wb ocb > 0 then Some (g_or_n ocb, ocb)
                 else if wb ocb < 0 then Some (l_or_n ocb, ocb)
                 else do { tmp \<leftarrow> OCBFunCompare ocb (f_code us') (f_code ut');
                           Some (if tmp = to_greater then g_or_n ocb
                                 else if tmp = to_lesser then l_or_n ocb
                                 else if f_code us' \<noteq> f_code ut' then to_uncomparable
                                 else if lex = to_equal then to_equal
                                 else if lex = to_greater then g_or_n ocb
                                 else if lex = to_lesser then l_or_n ocb
                                 else to_uncomparable, ocb) }"
      show ?thesis
      proof (cases "f_code us' = f_code ut'")
        case False
        obtain o1 where o1: "mfyvwb ocb b s' ds' True = Some o1" "walked o0 True us' (\<lambda>_. 0) 0 o1"
          using mfyvwb_ok [OF ocb0 h(7) less.prems(4)] by blast
        obtain o2 where o2: "mfyvwb o1 b t' dt' False = Some o2" "walked o0 False ut' (\<lambda>i. 0 + occ us' i) (0 + kbo_weight ?P us') o2"
          using mfyvwb_ok [OF ocb0 h(8) walkedD(1) [OF o1(2)]] by blast
        have c: "compared o0 us' ut' o2" using o2(2) by (simp add: compared_def walked_def)
        note dh = different_heads [OF ocb0 kt vs vt False c p(4)]
        have "kbo6cmp ocb b s t ds dt = ?fin (to_uncomparable, o2)"
          using s1(1) t1(1) p(1) h vs vt False o1(1) o2(1) by (subst kbo6cmp.simps) simp
        also have "\<dots> = Some (kbo_cmp ?P us' ut', o2)" using dh False by simp
        finally show ?thesis by (rule lin_doneI) (use c in simp_all)
      next
        case True
        have st: "same_top o0 us' ut'" using same_top_head [OF p(2,3) True vs] .
        have cmp: "\<exists>o'. kbo6cmp ocb b a a' ds' dt' = Some (kbo_cmp ?P u u', o') \<and> compared o0 u u' o'"
          if "u \<in> set (t_args us')" "copies o0 b a ds' u" "copies o0 b a' dt' u'" "vars_by_code u u'" "bal_rep o0 (\<lambda>_. 0) 0 ocb" for a a' u u' ocb
        proof -
          have "size u < size us'" using that(1) by (cases us') (auto dest: size_list_estimation' [where f = size, OF _ order.refl])
          then show ?thesis using less.hyps [OF _ that(2-5)] p(7) by (simp add: lin_done_def)
        qed
        from kbo6cmplex_ok [of o0 b s' ds' us' t' dt' ut' "\<lambda>ocb s t ds dt. kbo6cmp ocb b s t ds dt", OF ocb0 p(2,3) st p(4) cmp less.prems(4)]
        obtain r o2 where lex: "kbo6cmplex_with (\<lambda>ocb s t ds dt. kbo6cmp ocb b s t ds dt) ocb b s' t' ds' dt' = Some (r, o2)"
          "compared o0 us' ut' o2" "us' = ut' \<and> r = to_equal \<or> (\<exists>k < length (t_args us'). (\<forall>i < k. t_args us' ! i = t_args ut' ! i) \<and>
             t_args us' ! k \<noteq> t_args ut' ! k \<and> r = kbo_cmp ?P (t_args us' ! k) (t_args ut' ! k))" by auto
        have "f_code ut' \<in> symbols" using term_syms_head [OF vt] kt(2) by (simp add: kbo_term_def)
        then have "OCBFunCompare o2 (f_code us') (f_code ut') = Some to_equal"
          using ocb_par_prec(1,3) [OF ocb0, of "f_code us'" "f_code ut'"] True bal_rep_frame(1) [OF lex(2) [unfolded compared_def]] by simp
        then have fin: "kbo6cmp ocb b s t ds dt = Some (if r = to_equal \<and> wb o2 = 0 then to_equal
            else if r \<in> {to_greater, to_lesser} then lin_result o2 r else lin_result o2 to_uncomparable, o2)"
          using s1(1) t1(1) p(1) h vs vt True lex(1) by (subst kbo6cmp.simps) (simp add: lin_result_def)
        show ?thesis
        proof (cases "us' = ut'")
          case True
          then have "r = to_equal" "wb o2 = 0" using lex(3) compared_or_n(3) [OF lex(2) p(4)] by auto
          with fin show ?thesis by (intro lin_doneI) (use True lex(2) in \<open>simp_all add: kbo_cmp_def\<close>)
        next
          case False
          then obtain k where k: "k < length (t_args us')" "\<forall>i < k. t_args us' ! i = t_args ut' ! i"
            "t_args us' ! k \<noteq> t_args ut' ! k" "r = kbo_cmp ?P (t_args us' ! k) (t_args ut' ! k)" using lex(3) by blast
          have "r \<in> {to_greater, to_lesser, to_uncomparable}" using k(3,4) by (simp add: kbo_cmp_def)
          moreover have "lin_result o2 r = kbo_cmp ?P us' ut'"
            using kbo_cmp_same_top [OF ocb0 st k(1-3) lex(2) p(4)] k(4) by simp
          ultimately show ?thesis using fin by (intro lin_doneI) (use lex(2) in auto)
        qed
      qed
    qed
  qed
  then show ?case using p(5,6) by (auto simp: lin_done_def)
qed

section \<open>The version with stacks\<close>

definition comparable_syms :: "OCB \<Rightarrow> Term_p \<Rightarrow> Term_p \<Rightarrow> bool" where
  "comparable_syms ocb s t \<longleftrightarrow> (\<forall>f \<in> term_syms s. \<forall>g \<in> term_syms t. OCBFunCompare ocb f g \<noteq> Some to_uncomparable)"

lemma comparable_syms_arg:
  assumes "comparable_syms ocb s t" and "a \<in> set (t_args s)" and "a' \<in> set (t_args t)" and "\<not> TermIsFreeVar s" and "\<not> TermIsFreeVar t"
  shows "comparable_syms ocb a a'"
  using assms term_syms_args [OF assms(2,4) order.refl] term_syms_args [OF assms(3,5) order.refl]
  unfolding comparable_syms_def by blast

text \<open>The loop over the arguments, \<open>cmp\<close> being the comparison it calls.\<close>

definition lin_loop ::
  "(OCB \<Rightarrow> Term_p \<Rightarrow> Term_p \<Rightarrow> (CompareResult \<times> OCB) option) \<Rightarrow>
   bindings \<Rightarrow> Term_p \<Rightarrow> Term_p \<Rightarrow> nat \<Rightarrow> nat \<Rightarrow> nat \<Rightarrow> CompareResult \<times> OCB \<Rightarrow> ((CompareResult \<times> OCB) \<times> bool) option" where
  "lin_loop cmp b s t ds dt i = (\<lambda>(res, ocb).
     do { a \<leftarrow> t_arg s i; a' \<leftarrow> t_arg t i;
          (res, ocb) \<leftarrow> cmp ocb a a';
          if res \<noteq> to_equal
          then let i = i + 1 in
            if i < arity s
            then do { ocb \<leftarrow> foldM (\<lambda>ocb i. do { a \<leftarrow> t_arg s i; a' \<leftarrow> t_arg t i;
                                               ocb \<leftarrow> mfyvwblhs ocb b a ds 0;
                                               mfyvwbrhs ocb b a' dt 0 })
                               ocb [i..<arity s];
                      Some ((lin_result ocb res, ocb), True) }
            else Some ((res, ocb), True)
          else Some ((res, ocb), False) })"

lemma kbolincmp_args:
  assumes "TermDeref b s0 ds0 = Some (s, ds)" and "TermDeref b t0 dt0 = Some (t, dt)" and "f_code s = f_code t"
  shows "kbolincmp ocb b s0 t0 ds0 dt0 =
    foldM_brk (lin_loop (\<lambda>ocb a a'. kbolincmp ocb b a a' ds dt) b s t ds dt) (to_equal, ocb) [0..<arity s]"
proof -
  have "lin_loop (\<lambda>ocb a a'. kbolincmp ocb b a a' ds dt) b s t ds dt = (\<lambda>i (res, ocb).
                   do { a \<leftarrow> t_arg s i; a' \<leftarrow> t_arg t i;
                        (res, ocb) \<leftarrow> kbolincmp ocb b a a' ds dt;
                        if res \<noteq> to_equal
                        then let i = i + 1 in
                          if i < arity s
                          then do { ocb \<leftarrow> foldM (\<lambda>ocb i. do { a \<leftarrow> t_arg s i; a' \<leftarrow> t_arg t i;
                                                             ocb \<leftarrow> mfyvwblhs ocb b a ds 0;
                                                             mfyvwbrhs ocb b a' dt 0 })
                                             ocb [i..<arity s];
                                    Some ((lin_result ocb res, ocb), True) }
                          else Some ((res, ocb), True)
                        else Some ((res, ocb), False) })"
    by (intro ext) (simp only: lin_loop_def)
  then show ?thesis using assms by (subst kbolincmp.simps) simp
qed

lemma lin_loop_ok:
  assumes adm: "kbo_admissible o0" and heads: "head_ok o0 b s ds us" "head_ok o0 b t dt ut"
    and st: "same_top o0 us ut" and vbc: "vars_by_code us ut"
    and cmp: "\<And>a a' i ocb. i < length (t_args us) \<Longrightarrow> copies o0 b a ds (t_args us ! i) \<Longrightarrow> copies o0 b a' dt (t_args ut ! i) \<Longrightarrow>
      bal_rep o0 (\<lambda>_. 0) 0 ocb \<Longrightarrow> lin_done o0 (t_args us ! i) (t_args ut ! i) (cmp ocb a a')"
    and clean: "bal_rep o0 (\<lambda>_. 0) 0 ocb"
  shows "lin_done o0 us ut (foldM_brk (lin_loop cmp b s t ds dt) (to_equal, ocb) [0..<arity s])"
proof -
  note d = same_topD [OF st] and hs = head_okD [OF heads(1)] and ht = head_okD [OF heads(2)] and ocb0 = kbo_admissible_ocb [OF adm]
  let ?n = "length (t_args us)" and ?P = "ocb_par o0" and ?f = "lin_loop cmp b s t ds dt"
  let ?I = "\<lambda>(res, ocb). res = to_equal \<and> bal_rep o0 (\<lambda>_. 0) 0 ocb"
  have n: "arity s = ?n" using hs(7) by (simp add: arity_def)
  have arg: "\<exists>a a'. t_arg s i = Some a \<and> t_arg t i = Some a' \<and> copies o0 b a ds (t_args us ! i) \<and> copies o0 b a' dt (t_args ut ! i)"
    if i: "i < ?n" for i
  proof -
    have i': "i < arity us" "i < arity ut" using i d(4) by (simp_all add: arity_def)
    obtain a where "t_arg s i = Some a" "copies o0 b a ds (t_args us ! i)" using head_ok_arg [OF heads(1) i'(1)] .
    moreover obtain a' where "t_arg t i = Some a'" "copies o0 b a' dt (t_args ut ! i)" using head_ok_arg [OF heads(2) i'(2)] .
    ultimately show ?thesis by blast
  qed
  have call: "\<exists>a a' o'. t_arg s i = Some a \<and> t_arg t i = Some a' \<and> cmp ocb a a' = Some (kbo_cmp ?P (t_args us ! i) (t_args ut ! i), o') \<and>
      compared o0 (t_args us ! i) (t_args ut ! i) o'" if i: "i < ?n" and r: "bal_rep o0 (\<lambda>_. 0) 0 ocb" for i ocb
    using arg [OF i] cmp [OF i _ _ r] by (auto simp: lin_done_def)
  have same: "\<exists>st'. ?f i st = Some (st', False) \<and> ?I st'" if "i < ?n" "t_args us ! i = t_args ut ! i" "?I st" for st i
  proof -
    obtain ocb where st: "st = (to_equal, ocb)" "bal_rep o0 (\<lambda>_. 0) 0 ocb" using \<open>?I st\<close> by (cases st) auto
    from call [OF that(1) st(2)] show ?thesis
      unfolding st(1) using that(2) compared_refl by (auto simp: kbo_cmp_def lin_loop_def)
  qed
  show ?thesis
  proof (cases "t_args us = t_args ut")
    case True
    have "\<exists>st'. ?I st' \<and> foldM_brk ?f (to_equal, ocb) [0..<?n] = foldM_brk ?f st' [?n..<?n]"
    proof (rule foldM_brk_split [where I = ?I])
      show "\<exists>st'. ?f i st = Some (st', False) \<and> ?I st'" if "i < ?n" "?I st" for st i using same [OF that(1) _ that(2)] True by simp
    qed (simp_all add: clean)
    then obtain o' where "foldM_brk ?f (to_equal, ocb) [0..<?n] = Some (to_equal, o')" "bal_rep o0 (\<lambda>_. 0) 0 o'" by auto
    moreover have "us = ut" using True d(5) by blast
    ultimately show ?thesis using n compared_refl by (auto simp: lin_done_def kbo_cmp_def)
  next
    case False
    then obtain k where k: "k < ?n" "\<forall>i < k. t_args us ! i = t_args ut ! i" "t_args us ! k \<noteq> t_args ut ! k"
      using first_difference [OF d(4)] by blast
    let ?r = "kbo_cmp ?P (t_args us ! k) (t_args ut ! k)"
    have "\<exists>st'. ?I st' \<and> foldM_brk ?f (to_equal, ocb) [0..<?n] = foldM_brk ?f st' [k..<?n]"
    proof (rule foldM_brk_split [where I = ?I])
      show "\<exists>st'. ?f i st = Some (st', False) \<and> ?I st'" if "i < k" "?I st" for st i using same [of i, OF _ _ that(2)] k(1,2) that(1) by simp
    qed (use k(1) clean in simp_all)
    then obtain o1 where o1: "bal_rep o0 (\<lambda>_. 0) 0 o1"
      "foldM_brk ?f (to_equal, ocb) [0..<?n] = foldM_brk ?f (to_equal, o1) [k..<?n]" by auto
    obtain a a' o2 where o2: "t_arg s k = Some a" "t_arg t k = Some a'" "cmp o1 a a' = Some (?r, o2)"
      "compared o0 (t_args us ! k) (t_args ut ! k) o2" using call [OF k(1) o1(1)] by (elim exE conjE) (rule that)
    have ne: "?r \<noteq> to_equal" using k(3) by (simp add: kbo_cmp_equal_iff)
    let ?step = "\<lambda>ocb i. do { a \<leftarrow> t_arg s i; a' \<leftarrow> t_arg t i; ocb \<leftarrow> mfyvwblhs ocb b a ds 0; mfyvwbrhs ocb b a' dt 0 }"
    have "\<exists>o3. foldM ?step o2 [Suc k..<?n] = Some o3 \<and> compared o0 us ut o3"
    proof (rule rest_loop [OF st k(1,2) o2(4)])
      fix ocb \<beta> w i
      assume i: "i < ?n" and r: "bal_rep o0 \<beta> w ocb"
      obtain a a' where aa: "t_arg s i = Some a" "t_arg t i = Some a'" "copies o0 b a ds (t_args us ! i)"
        "copies o0 b a' dt (t_args ut ! i)" using arg [OF i] by blast
      obtain o4 where o4: "mfyvwblhs ocb b a ds 0 = Some o4" "walked o0 True (t_args us ! i) \<beta> w o4"
        using mfyvwblhs_ok [OF ocb0 aa(3) r] by blast
      show "\<exists>o1 o2. walked o0 True (t_args us ! i) \<beta> w o1 \<and> ?step ocb i = Some o2 \<and>
          walked o0 False (t_args ut ! i) (\<lambda>j. \<beta> j + occ (t_args us ! i) j) (w + kbo_weight ?P (t_args us ! i)) o2"
        using mfyvwbrhs_ok [OF ocb0 aa(4) walkedD(1) [OF o4(2)]] o4 aa(1,2) by auto
    qed
    then obtain o3 where o3: "foldM ?step o2 [Suc k..<?n] = Some o3" "compared o0 us ut o3" by blast
    show ?thesis
    proof (cases "Suc k < ?n")
      case True
      have "?f k (to_equal, o1) = Some ((lin_result o3 ?r, o3), True)"
        using o2(1-3) o3(1) ne True n by (simp add: lin_loop_def)
      then have "foldM_brk ?f (to_equal, ocb) [0..<?n] = Some (lin_result o3 ?r, o3)"
        using o1(2) k(1) by (simp add: upt_conv_Cons)
      then show ?thesis unfolding n using kbo_cmp_same_top [OF ocb0 st k o3(2) vbc] o3(2) by (intro lin_doneI)
    next
      case last: False
      then have sk: "Suc k = ?n" using k(1) by simp
      have "?f k (to_equal, o1) = Some ((?r, o2), True)" using o2(1-3) ne last n by (simp add: lin_loop_def)
      then have "foldM_brk ?f (to_equal, ocb) [0..<?n] = Some (?r, o2)"
        using o1(2) k(1) by (simp add: upt_conv_Cons)
      moreover have "compared o0 us ut o2" using o3 sk by simp
      ultimately show ?thesis unfolding n using cmp_one_diff [OF adm st sk k(2)] by (intro lin_doneI) simp_all
    qed
  qed
qed

lemma kbolincmp_ok:
  assumes "kbo_admissible o0"
  shows "copies o0 b s ds us \<Longrightarrow> copies o0 b t dt ut \<Longrightarrow> vars_by_code us ut \<Longrightarrow> comparable_syms o0 us ut \<Longrightarrow>
    bal_rep o0 (\<lambda>_. 0) 0 ocb \<Longrightarrow> lin_done o0 us ut (kbolincmp ocb b s t ds dt)"
proof (induction us arbitrary: s t ds dt ut ocb)
  case (TermCell f p ty ss)
  let ?us = "TermCell f p ty ss" and ?P = "ocb_par o0"
  note ocb0 = kbo_admissible_ocb [OF assms] and clean = TermCell.prems(5) and vbc = TermCell.prems(3)
  obtain s' ds' where s': "TermDeref b s ds = Some (s', ds')" "head_ok o0 b s' ds' ?us" using copies_head [OF TermCell.prems(1)] .
  obtain t' dt' where t': "TermDeref b t dt = Some (t', dt')" "head_ok o0 b t' dt' ut" using copies_head [OF TermCell.prems(2)] .
  note h = heads_vars [OF s'(2) t'(2)]
  have kt: "kbo_term o0 ?us" "kbo_term o0 ut" using copies_okt [OF h(7)] copies_okt [OF h(8)] by (simp_all add: kbo_okt)
  consider (same) "f = f_code ut" | (vv) "f \<noteq> f_code ut" "f < 0" "TermIsFreeVar ut" | (vt) "f < 0" "\<not> TermIsFreeVar ut"
    | (tv) "\<not> f < 0" "TermIsFreeVar ut" | (tt) "f \<noteq> f_code ut" "\<not> f < 0" "\<not> TermIsFreeVar ut" by blast
  then show ?case
  proof cases
    case same
    note run = kbolincmp_args [OF s'(1) t'(1), of ocb]
    show ?thesis
    proof (cases "f < 0")
      case True
      then have "ss = []" using kt(1) by (simp add: kbo_term_def)
      moreover have "TermIsFreeVar ut" using True same by (simp add: TermIsFreeVar_def)
      moreover have "?us = ut" using vars_by_code_eq [OF vbc, of ?us ut] True same \<open>TermIsFreeVar ut\<close> wf_term_var_vars by simp
      moreover have "arity s' = 0" using head_okD(7) [OF s'(2)] \<open>ss = []\<close> by simp
      ultimately show ?thesis
        using run h(3,4) same clean compared_refl by (auto simp: lin_done_def kbo_cmp_def)
    next
      case False
      have st: "same_top o0 ?us ut" using same_top_head [OF s'(2) t'(2)] same False by simp
      note d = same_topD [OF st]
      have "lin_done o0 ?us ut (foldM_brk (lin_loop (\<lambda>ocb a a'. kbolincmp ocb b a a' ds' dt') b s' t' ds' dt') (to_equal, ocb) [0..<arity s'])"
      proof (rule lin_loop_ok [OF assms s'(2) t'(2) st vbc _ clean])
        fix a a' i ocb
        assume i: "i < length (t_args ?us)" and c: "copies o0 b a ds' (t_args ?us ! i)" "copies o0 b a' dt' (t_args ut ! i)"
          and r: "bal_rep o0 (\<lambda>_. 0) 0 ocb"
        have mem: "t_args ?us ! i \<in> set (t_args ?us)" "t_args ut ! i \<in> set (t_args ut)" using i d(4) by simp_all
        show "lin_done o0 (t_args ?us ! i) (t_args ut ! i) (kbolincmp ocb b a a' ds' dt')"
          using TermCell.IH [OF _ c vars_by_code_arg [OF vbc mem d(1,2)] comparable_syms_arg [OF TermCell.prems(4) mem d(1,2)] r] mem(1) by simp
      qed
      then show ?thesis using run h(3,4) same by simp
    qed
  next
    case vv
    then have fv: "TermIsFreeVar ?us" "?us \<noteq> ut" by auto
    obtain o1 where o1: "inc_vb ocb ?us = Some o1" "walked o0 True ?us (\<lambda>_. 0) 0 o1" using inc_vb_walked [OF fv(1) clean] .
    obtain o2 where o2: "dec_vb o1 ut = Some o2" "walked o0 False ut (\<lambda>i. 0 + occ ?us i) (0 + kbo_weight ?P ?us) o2"
      using dec_vb_walked [OF vv(3) walkedD(1) [OF o1(2)]] .
    have "kbolincmp ocb b s t ds dt = Some (to_uncomparable, o2)"
      using s'(1) t'(1) h vv fv(1) o1(1) o2(1) by (subst kbolincmp.simps) simp
    then show ?thesis
      by (rule lin_doneI) (use kbo_cmp_vars [OF fv(1) vv(3)] fv(2) o2(2) in \<open>simp_all add: compared_def walked_def\<close>)
  next
    case vt
    then have fv: "TermIsFreeVar ?us" by simp
    have ne: "f \<noteq> f_code ut" using vt by (auto simp: TermIsFreeVar_def)
    obtain o1 where o1: "inc_vb ocb ?us = Some o1" "walked o0 True ?us (\<lambda>_. 0) 0 o1" using inc_vb_walked [OF fv clean] .
    obtain o2 where o2: "mfyvwbrhs o1 b t' dt' 0 = Some o2" "walked o0 False ut (\<lambda>i. 0 + occ ?us i) (0 + kbo_weight ?P ?us) o2"
      using mfyvwbrhs_ok [OF ocb0 h(8) walkedD(1) [OF o1(2)]] by blast
    have c: "compared o0 ?us ut o2" using o2(2) by (simp add: compared_def walked_def)
    have "kbolincmp ocb b s t ds dt = Some (l_or_n o2, o2)"
      using s'(1) t'(1) h vt ne fv o1(1) o2(1) by (subst kbolincmp.simps) simp
    then show ?thesis
      by (rule lin_doneI) (use kbo_cmp_var(1) [OF fv vt(2)] compared_or_n(2) [OF c vbc] var_mset_var_sub [OF fv] c in simp_all)
  next
    case tv
    then have nv: "\<not> TermIsFreeVar ?us" by simp
    have ne: "f \<noteq> f_code ut" using tv by (auto simp: TermIsFreeVar_def)
    obtain o1 where o1: "dec_vb ocb ut = Some o1" "walked o0 False ut (\<lambda>_. 0) 0 o1" using dec_vb_walked [OF tv(2) clean] .
    obtain o2 where o2: "mfyvwblhs o1 b s' ds' 0 = Some o2" "walked o0 True ?us (\<lambda>i. 0 - occ ut i) (0 - kbo_weight ?P ut) o2"
      using mfyvwblhs_ok [OF ocb0 h(7) walkedD(2) [OF o1(2)]] by blast
    have c: "compared o0 ?us ut o2" using o2(2) by (simp add: compared_def walked_def)
    have "kbolincmp ocb b s t ds dt = Some (g_or_n o2, o2)"
      using s'(1) t'(1) h tv ne nv o1(1) o2(1) by (subst kbolincmp.simps) simp
    then show ?thesis
      by (rule lin_doneI) (use kbo_cmp_var(2) [OF tv(2) nv] compared_or_n(1) [OF c vbc] var_mset_var_sub [OF tv(2)] c in
          \<open>simp_all del: var_mset.simps term_vars.simps\<close>)
  next
    case tt
    then have nv: "\<not> TermIsFreeVar ?us" by simp
    obtain o1 where o1: "mfyvwblhs ocb b s' ds' 0 = Some o1" "walked o0 True ?us (\<lambda>_. 0) 0 o1"
      using mfyvwblhs_ok [OF ocb0 h(7) clean] by blast
    obtain o2 where o2: "mfyvwbrhs o1 b t' dt' 0 = Some o2" "walked o0 False ut (\<lambda>i. 0 + occ ?us i) (0 + kbo_weight ?P ?us) o2"
      using mfyvwbrhs_ok [OF ocb0 h(8) walkedD(1) [OF o1(2)]] by blast
    have c: "compared o0 ?us ut o2" using o2(2) by (simp add: compared_def walked_def)
    have fne: "f_code ?us \<noteq> f_code ut" using tt(1) by simp
    note dh = different_heads [OF ocb0 kt nv tt(3) fne c vbc]
    have "f_code ?us \<in> term_syms ?us" "f_code ut \<in> term_syms ut" using tt(2,3) by (simp, cases ut, simp)
    then have "kp_prec ?P (f_code ?us) (f_code ut) \<noteq> to_uncomparable"
      using TermCell.prems(4) dh(1) bal_rep_frame(1) [OF c [unfolded compared_def]] unfolding comparable_syms_def by fastforce
    moreover have "kbolincmp ocb b s t ds dt =
        (if wb o2 > 0 then Some (g_or_n o2, o2) else if wb o2 < 0 then Some (l_or_n o2, o2)
         else Some (if kp_prec ?P (f_code ?us) (f_code ut) = to_greater then g_or_n o2
                    else if kp_prec ?P (f_code ?us) (f_code ut) = to_lesser then l_or_n o2 else to_equal, o2))"
      using s'(1) t'(1) h tt nv o1(1) o2(1) dh(1) by (subst kbolincmp.simps) simp
    ultimately have "kbolincmp ocb b s t ds dt = Some (kbo_cmp ?P ?us ut, o2)" using dh(2,3) by auto
    then show ?thesis by (rule lin_doneI) (use c in simp_all)
  qed
qed

end
