(* ===== verification/LPO_Correct.thy ===== *)
theory LPO_Correct
  imports LPO_Eval KBOLin_Correct
begin

text \<open>
  The functions of \<open>ORDERINGS/cto_lpo.c\<close> compute \<open>lpo_eval\<close> and \<open>lpo4_eval\<close> on the
  dereferenced terms, with the recursion limit as fuel; the versions on copies compute the
  textbook ordering itself.
\<close>

section \<open>The helper functions\<close>

text \<open>A recursive call that computes \<open>v\<close> on the dereferenced terms.\<close>

definition computes :: "OCB \<Rightarrow> bindings \<Rightarrow> (Term_p \<Rightarrow> Term_p \<Rightarrow> nat \<Rightarrow> nat \<Rightarrow> 'r option) \<Rightarrow> (Term_p \<Rightarrow> Term_p \<Rightarrow> 'r) \<Rightarrow> bool" where
  "computes ocb b cmp v \<longleftrightarrow> (\<forall>s t ds dt us ut. copies ocb b s ds us \<longrightarrow> copies ocb b t dt ut \<longrightarrow>
     cmp s t ds dt = Some (v us ut))"

lemma computesD:
  "computes ocb b cmp v \<Longrightarrow> copies ocb b s ds us \<Longrightarrow> copies ocb b t dt ut \<Longrightarrow> cmp s t ds dt = Some (v us ut)"
  by (simp add: computes_def)

lemma head_ok_nth:
  assumes "head_ok ocb b t d u" and "i < length (t_args u)"
  obtains a where "t_arg t i = Some a" "copies ocb b a d (t_args u ! i)"
  using head_ok_arg [OF assms(1), of i] assms(2) by (auto simp: arity_def)

lemma head_arity: "head_ok ocb b t d u \<Longrightarrow> arity t = length (t_args u)"
  using head_okD(7) by (simp add: arity_def)

lemma nth_drop_ex: "(\<exists>i \<in> set [k..<length xs]. P (xs ! i)) \<longleftrightarrow> (\<exists>x \<in> set (drop k xs). P x)"
proof -
  have "(\<exists>x \<in> set (drop k xs). P x) \<longleftrightarrow> (\<exists>j < length xs - k. P (xs ! (k + j)))" by (auto simp: set_conv_nth)
  also have "\<dots> \<longleftrightarrow> (\<exists>i \<in> {k..<length xs}. P (xs ! i))"
    by (metis (no_types, opaque_lifting) add.commute atLeastLessThan_iff le_add1 le_add_diff_inverse less_diff_conv)
  finally show ?thesis by simp
qed

lemma nth_drop_all: "(\<forall>i \<in> set [k..<length xs]. P (xs ! i)) \<longleftrightarrow> (\<forall>x \<in> set (drop k xs). P x)"
  using nth_drop_ex [of k xs "\<lambda>x. \<not> P x"] by blast

lemma lpo_dominates_args_ok:
  assumes "computes ocb b cmp v" and "head_ok ocb b s ds us" and "head_ok ocb b t dt ut"
  shows "lpo_term_dominates_args cmp s t ds dt = Some (\<forall>c \<in> set (t_args ut). v us c = to_greater)"
proof -
  have "do { a \<leftarrow> t_arg t i; r \<leftarrow> cmp s a ds dt; Some (r = to_greater) } = Some (v us (t_args ut ! i) = to_greater)"
    if i: "i < length (t_args ut)" for i
  proof -
    obtain a where "t_arg t i = Some a" "copies ocb b a dt (t_args ut ! i)" using head_ok_nth [OF assms(3) i] .
    then show ?thesis using computesD [OF assms(1) head_okD(3) [OF assms(2)]] by simp
  qed
  then show ?thesis
    using all_opt_nth head_arity [OF assms(3)] nth_drop_all [of 0 "t_args ut" "\<lambda>c. v us c = to_greater"]
    by (simp add: lpo_term_dominates_args_def Ball_def)
qed

lemma lpo_subterm_dominates_ok:
  assumes "computes ocb b cmp v" and "head_ok ocb b s ds us" and "head_ok ocb b t dt ut"
  shows "lpo_subterm_dominates_term cmp s t ds dt =
    Some (\<exists>a \<in> set (t_args us). v a ut = to_greater \<or> v a ut = to_equal)"
proof -
  have "do { a \<leftarrow> t_arg s i; r \<leftarrow> cmp a t ds dt; Some (r = to_greater \<or> r = to_equal) } =
      Some (v (t_args us ! i) ut = to_greater \<or> v (t_args us ! i) ut = to_equal)"
    if i: "i \<in> set [0..<arity s]" for i
  proof -
    have i: "i < length (t_args us)" using that head_arity [OF assms(2)] by simp
    obtain a where "t_arg s i = Some a" "copies ocb b a ds (t_args us ! i)" using head_ok_nth [OF assms(2) i] .
    then show ?thesis using computesD [OF assms(1) _ head_okD(3) [OF assms(3)]] by simp
  qed
  then show ?thesis
    using any_opt_total [of "[0..<arity s]"] head_arity [OF assms(2)]
      nth_drop_ex [of 0 "t_args us" "\<lambda>a. v a ut = to_greater \<or> v a ut = to_equal"]
    by (simp add: lpo_subterm_dominates_term_def)
qed

lemma lex_val_fold:
  assumes "length ss = n" and "length ts = n"
    and "\<And>i. i < n \<Longrightarrow> f i to_equal = Some (v (ss ! i) (ts ! i), v (ss ! i) (ts ! i) \<noteq> to_equal)"
  shows "k \<le> n \<Longrightarrow> foldM_brk f to_equal [k..<n] = Some (lex_val v (drop k ss) (drop k ts))"
proof (induction k rule: inc_induct)
  case base
  then show ?case using assms(1,2) by simp
next
  case (step k)
  have "drop k ss = ss ! k # drop (Suc k) ss" "drop k ts = ts ! k # drop (Suc k) ts"
    using step.hyps assms(1,2) by (simp_all add: Cons_nth_drop_Suc)
  then show ?case using assms(3) [of k] step by (auto simp: upt_conv_Cons)
qed

lemma lpo_lex_greater_ok:
  assumes "computes ocb b cmp v" and "head_ok ocb b s ds us" and "head_ok ocb b t dt ut"
    and "length (t_args us) = length (t_args ut)"
  shows "lpo_lex_greater cmp s t ds dt = Some (lex_val v (t_args us) (t_args ut))"
proof -
  let ?n = "length (t_args us)"
  let ?f = "\<lambda>i res. do { a \<leftarrow> t_arg s i; a' \<leftarrow> t_arg t i; res \<leftarrow> cmp a a' ds dt; Some (res, res \<noteq> to_equal) }"
  have "?f i to_equal =
      Some (v (t_args us ! i) (t_args ut ! i), v (t_args us ! i) (t_args ut ! i) \<noteq> to_equal)"
    if i: "i < ?n" for i
  proof -
    obtain a where a: "t_arg s i = Some a" "copies ocb b a ds (t_args us ! i)" using head_ok_nth [OF assms(2) i] .
    obtain c where c: "t_arg t i = Some c" "copies ocb b c dt (t_args ut ! i)"
      using head_ok_nth [OF assms(3)] i assms(4) by auto
    show ?thesis using a(1) c(1) computesD [OF assms(1) a(2) c(2)] by simp
  qed
  from lex_val_fold [of "t_args us" ?n "t_args ut" ?f v 0, OF refl assms(4) [symmetric] this]
  show ?thesis using head_arity assms(2-4) by (simp add: lpo_lex_greater_def)
qed

section \<open>LPO\<close>

lemma fuel_step: "rd \<le> lim \<Longrightarrow> nat (lim - rd + 1) = Suc (nat (lim - (rd + 1) + 1))"
  by (simp add: nat_eq_iff)

lemma lpo_greater_computes:
  assumes ok: "ocb_prec_ok ocb"
  shows "nat (lim - rd + 1) = n \<Longrightarrow> computes ocb b (lpo_greater lim rd ocb b) (lpo_eval ocb n)"
proof (induction n arbitrary: rd)
  case 0
  then have "rd > lim" by simp
  then have "lpo_greater lim rd ocb b s t ds dt = Some to_uncomparable"
    if "copies ocb b s ds us" "copies ocb b t dt ut" for s t ds dt us ut
    using that by (elim copies_head) (subst lpo_greater.simps, simp)
  then show ?case by (auto simp: computes_def)
next
  case (Suc n)
  then have le: "\<not> rd > lim" by simp
  have IH: "computes ocb b (lpo_greater lim (rd + 1) ocb b) (lpo_eval ocb n)"
    using Suc.IH [of "rd + 1"] Suc.prems fuel_step [of rd lim] le by simp
  have "lpo_greater lim rd ocb b s t ds dt = Some (lpo_eval ocb (Suc n) us ut)"
    if cs: "copies ocb b s ds us" and ct: "copies ocb b t dt ut" for s t ds dt us ut
  proof -
    obtain s' ds' where s': "TermDeref b s ds = Some (s', ds')" and hs: "head_ok ocb b s' ds' us"
      using copies_head [OF cs] by blast
    obtain t' dt' where t': "TermDeref b t dt = Some (t', dt')" and ht: "head_ok ocb b t' dt' ut"
      using copies_head [OF ct] by blast
    note s = head_okD [OF hs] and t = head_okD [OF ht]
    note unfold = lpo_greater.simps [of lim rd ocb b s t ds dt, unfolded s' t', simplified]
    consider (svar) "TermIsFreeVar us" | (tvar) "\<not> TermIsFreeVar us" "TermIsFreeVar ut"
      | (nv) "\<not> TermIsFreeVar us" "\<not> TermIsFreeVar ut" by blast
    then show ?thesis
    proof cases
      case svar
      then have "s' = t' \<longleftrightarrow> us = ut" using s(8) t(8,9) by (cases "TermIsFreeVar ut") auto
      then show ?thesis using svar s(9) t(9) le unfold by (simp add: lpo_step_def Let_def)
    next
      case tvar
      have "TermIsSubterm b s' t' ds' = Some (ut \<in> term_vars us)"
        using TermIsSubterm_var [OF s(3) tvar(2)] t(8) [OF tvar(2)] by simp
      then show ?thesis using tvar s(9) t(9) le unfold by (simp add: lpo_step_def Let_def)
    next
      case nv
      have k: "kbo_term ocb us" "kbo_term ocb ut" using copies_kbo_term cs ct by blast+
      obtain r where r: "OCBFunCompare ocb (f_code us) (f_code ut) = Some r" "r \<in> proper_results"
        "r = to_equal \<longleftrightarrow> f_code us = f_code ut" using head_cmp [OF ok k nv] .
      note dom = lpo_dominates_args_ok [OF IH hs ht] and alpha = lpo_subterm_dominates_ok [OF IH hs ht]
      have ar: "arity s' = arity us" using s(7) .
      show ?thesis
      proof (cases "f_code us = f_code ut")
        case True
        note lex = lpo_lex_greater_ok [OF IH hs ht same_args(1) [OF k nv(1) True]]
        have fc: "OCBFunCompare ocb (f_code s') (f_code t') = Some to_equal" "\<not> ocb_gt ocb (f_code us) (f_code ut)"
          using r True s(4) t(4) by simp_all
        show ?thesis
          unfolding unfold using le nv s(9) t(9) fc True lex dom alpha ar
            lpo_eval_values [of ocb]
          by (cases "lex_val (lpo_eval ocb n) (t_args us) (t_args ut)") (simp_all add: lpo_step_def Let_def)
      next
        case False
        then show ?thesis
          using unfold le nv s(4,9) t(4,9) r dom alpha by (cases r) (simp_all add: lpo_step_def Let_def proper_results_def)
      qed
    qed
  qed
  then show ?case by (simp add: computes_def)
qed

lemma lpo_greater_ok:
  "ocb_prec_ok ocb \<Longrightarrow> copies ocb b s ds us \<Longrightarrow> copies ocb b t dt ut \<Longrightarrow>
   lpo_greater lim 0 ocb b s t ds dt = Some (lpo_eval ocb (nat (lim + 1)) us ut)"
  using computesD [OF lpo_greater_computes [where rd = 0, OF _ refl]] by simp

section \<open>LPO4\<close>

lemma lpo4_deref_ok: "binds_ok (ocb_sig ocb) b \<Longrightarrow> lpo4_deref b t d = TermDeref b t d"
  using TermDeref_0 [of "ocb_sig ocb" b t] binds_ok_assert [of "ocb_sig ocb" b t]
  by (auto simp: lpo4_deref_def TermDerefAlways_def TermDeref_def DEREF_NEVER_def)

lemma struct_eq_ok:
  assumes "copies ocb b s ds us" and "copies ocb b t dt ut"
  shows "TermStructEqualDeref b s t ds dt = Some (us = ut)"
  using TermStructEqualDeref_ok assms by (auto simp: copies_def)

lemma lpo4_majo_ok:
  assumes "computes ocb b gt v" and "head_ok ocb b s ds us" and "head_ok ocb b t dt ut"
  shows "lpo4_majo gt s t pos ds dt = Some (\<forall>c \<in> set (drop pos (t_args ut)). v us c)"
proof -
  have "do { a \<leftarrow> t_arg t i; gt s a ds dt } = Some (v us (t_args ut ! i))" if i: "i \<in> set [pos..<arity t]" for i
  proof -
    have i: "i < length (t_args ut)" using that head_arity [OF assms(3)] by simp
    obtain a where "t_arg t i = Some a" "copies ocb b a dt (t_args ut ! i)" using head_ok_nth [OF assms(3) i] .
    then show ?thesis using computesD [OF assms(1) head_okD(3) [OF assms(2)]] by simp
  qed
  then show ?thesis
    using all_opt_total [of "[pos..<arity t]"] head_arity [OF assms(3)] nth_drop_all [of pos "t_args ut" "v us"]
    by (simp add: lpo4_majo_def)
qed

lemma lpo4_alpha_ok:
  assumes "computes ocb b gt v" and "head_ok ocb b s ds us" and "head_ok ocb b t dt ut"
  shows "lpo4_alpha gt b s pos t ds dt = Some (\<exists>a \<in> set (drop pos (t_args us)). a = ut \<or> v a ut)"
proof -
  have "do { a \<leftarrow> t_arg s i; eq \<leftarrow> TermStructEqualDeref b a t ds dt; if eq then Some True else gt a t ds dt } =
      Some (t_args us ! i = ut \<or> v (t_args us ! i) ut)" if i: "i \<in> set [pos..<arity s]" for i
  proof -
    have i: "i < length (t_args us)" using that head_arity [OF assms(2)] by simp
    obtain a where "t_arg s i = Some a" "copies ocb b a ds (t_args us ! i)" using head_ok_nth [OF assms(2) i] .
    then show ?thesis
      using computesD [OF assms(1) _ head_okD(3) [OF assms(3)]] struct_eq_ok [OF _ head_okD(3) [OF assms(3)]] by simp
  qed
  then show ?thesis
    using any_opt_total [of "[pos..<arity s]"] head_arity [OF assms(2)]
      nth_drop_ex [of pos "t_args us" "\<lambda>a. a = ut \<or> v a ut"]
    by (simp add: lpo4_alpha_def)
qed

lemma lex4_fold:
  assumes "length (t_args s) = n" and "length (t_args t) = n"
    and "\<And>i. i < n \<Longrightarrow> f i False =
      (if t_args s ! i = t_args t ! i then Some (False, False)
       else Some (if v (t_args s ! i) (t_args t ! i) then \<forall>c \<in> set (drop (i + 1) (t_args t)). v s c
                  else \<exists>a \<in> set (drop (i + 1) (t_args s)). a = t \<or> v a t, True))"
  shows "k \<le> n \<Longrightarrow> foldM_brk f False [k..<n] = Some (lex4 v s t (drop k (t_args s)) (drop k (t_args t)))"
proof (induction k rule: inc_induct)
  case base
  then show ?case using assms(1,2) by simp
next
  case (step k)
  have "drop k (t_args s) = t_args s ! k # drop (Suc k) (t_args s)" "drop k (t_args t) = t_args t ! k # drop (Suc k) (t_args t)"
    using step.hyps assms(1,2) by (simp_all add: Cons_nth_drop_Suc)
  then show ?case using assms(3) [of k] step by (simp add: upt_conv_Cons)
qed

lemma lpo4_lex_ma_ok:
  assumes "computes ocb b gt v" and "head_ok ocb b s ds us" and "head_ok ocb b t dt ut"
    and "length (t_args us) = length (t_args ut)" and "f_code us = f_code ut"
  shows "lpo4_lex_ma gt b s t 0 ds dt = Some (lex4 v us ut (t_args us) (t_args ut))"
proof -
  let ?n = "length (t_args us)"
  let ?f = "\<lambda>pos res.
              if pos \<ge> arity t then Some (True, True)
              else do { a \<leftarrow> t_arg s pos; a' \<leftarrow> t_arg t pos;
                        eq \<leftarrow> TermStructEqualDeref b a a' ds dt;
                        if eq then Some (res, False)
                        else do { g \<leftarrow> gt a a' ds dt;
                                  r \<leftarrow> (if g then lpo4_majo gt s t (pos + 1) ds dt
                                        else lpo4_alpha gt b s (pos + 1) t ds dt);
                                  Some (r, True) } }"
  have "?f i False = (if t_args us ! i = t_args ut ! i then Some (False, False)
       else Some (if v (t_args us ! i) (t_args ut ! i) then \<forall>c \<in> set (drop (i + 1) (t_args ut)). v us c
                  else \<exists>a \<in> set (drop (i + 1) (t_args us)). a = ut \<or> v a ut, True))" if i: "i < ?n" for i
  proof -
    obtain a where a: "t_arg s i = Some a" "copies ocb b a ds (t_args us ! i)" using head_ok_nth [OF assms(2) i] .
    obtain c where c: "t_arg t i = Some c" "copies ocb b c dt (t_args ut ! i)"
      using head_ok_nth [OF assms(3)] i assms(4) by auto
    show ?thesis
      using a(1) c(1) computesD [OF assms(1) a(2) c(2)] struct_eq_ok [OF a(2) c(2)] i head_arity [OF assms(3)] assms(4)
        lpo4_majo_ok [OF assms(1-3)] lpo4_alpha_ok [OF assms(1-3)] by simp
  qed
  from lex4_fold [of us ?n ut ?f v 0, OF refl assms(4) [symmetric] this]
  show ?thesis
    using head_arity [OF assms(2)] head_okD(4) [OF assms(2)] head_okD(4) [OF assms(3)] assms(5)
    by (simp add: lpo4_lex_ma_def)
qed

lemma lpo4_greater_computes:
  assumes ok: "ocb_prec_ok ocb"
  shows "nat (lim - rd + 1) = n \<Longrightarrow> computes ocb b (lpo4_greater lim rd ocb b) (lpo4_eval ocb n)"
proof (induction n arbitrary: rd)
  case 0
  then have "rd > lim" by simp
  then show ?case by (simp add: computes_def lpo4_greater.simps)
next
  case (Suc n)
  then have le: "\<not> rd > lim" by simp
  have IH: "computes ocb b (lpo4_greater lim (rd + 1) ocb b) (lpo4_eval ocb n)"
    using Suc.IH [of "rd + 1"] Suc.prems fuel_step [of rd lim] le by simp
  have "lpo4_greater lim rd ocb b s t ds dt = Some (lpo4_eval ocb (Suc n) us ut)"
    if cs: "copies ocb b s ds us" and ct: "copies ocb b t dt ut" for s t ds dt us ut
  proof -
    obtain s' ds' where s': "TermDeref b s ds = Some (s', ds')" and hs: "head_ok ocb b s' ds' us"
      using copies_head [OF cs] by blast
    obtain t' dt' where t': "TermDeref b t dt = Some (t', dt')" and ht: "head_ok ocb b t' dt' ut"
      using copies_head [OF ct] by blast
    note s = head_okD [OF hs] and t = head_okD [OF ht]
    have bo: "binds_ok (ocb_sig ocb) b" using cs by (simp add: copies_def)
    note unfold = lpo4_greater.simps [of lim rd ocb b s t ds dt, unfolded lpo4_deref_ok [OF bo] s' t', simplified]
    consider (svar) "TermIsFreeVar us" | (tvar) "\<not> TermIsFreeVar us" "TermIsFreeVar ut"
      | (nv) "\<not> TermIsFreeVar us" "\<not> TermIsFreeVar ut" by blast
    then show ?thesis
    proof cases
      case svar
      then show ?thesis using s(9) le unfold by (simp add: lpo4_step_def)
    next
      case tvar
      have "TermIsSubterm b s' t' ds' = Some (ut \<in> term_vars us)"
        using TermIsSubterm_var [OF s(3) tvar(2)] t(8) [OF tvar(2)] by simp
      then show ?thesis using tvar s(9) t(9) le unfold by (simp add: lpo4_step_def)
    next
      case nv
      have k: "kbo_term ocb us" "kbo_term ocb ut" using copies_kbo_term cs ct by blast+
      have pos: "f_code us > 0" "f_code ut > 0"
        using copies_nonvar [OF s(3) nv(1)] copies_nonvar [OF t(3) nv(2)] by (simp_all add: symbols_def)
      obtain r where r: "OCBFunCompare ocb (f_code us) (f_code ut) = Some r"
        "r = to_equal \<longleftrightarrow> f_code us = f_code ut" using head_cmp [OF ok k nv] by blast
      note majo = lpo4_majo_ok [OF IH hs ht, of 0] and alpha = lpo4_alpha_ok [OF IH hs ht, of 0]
        and lex = lpo4_lex_ma_ok [OF IH hs ht same_args(1) [OF k nv(1)]]
      show ?thesis
        using unfold le nv s(4,9) t(4,9) pos r majo alpha lex by (auto simp: lpo4_step_def)
    qed
  qed
  then show ?case by (simp add: computes_def)
qed

lemma lpo4_greater_ok:
  "ocb_prec_ok ocb \<Longrightarrow> copies ocb b s ds us \<Longrightarrow> copies ocb b t dt ut \<Longrightarrow>
   lpo4_greater lim 0 ocb b s t ds dt = Some (lpo4_eval ocb (nat (lim + 1)) us ut)"
  using computesD [OF lpo4_greater_computes [where rd = 0, OF _ refl]] by simp

section \<open>LPO4 on copies\<close>

lemma no_deref_eq:
  assumes "kbo_term ocb s" and "kbo_term ocb t" and "vars_by_code s t"
  shows "TermStructEqualNoDeref s t = Some (s = t)"
proof (rule TermStructEqualNoDeref_ok)
  show "wf_term (ocb_sig ocb) s" "wf_term (ocb_sig ocb) t" using assms(1,2) by (simp_all add: kbo_term_def)
  show "t_type v = (\<lambda>c. t_type (the_inv_into (term_vars s \<union> term_vars t) f_code c)) (f_code v)"
    if "v \<in> term_vars s \<union> term_vars t" for v
    using assms(3) that the_inv_into_f_f [of f_code "term_vars s \<union> term_vars t" v] by (simp add: vars_by_code_def)
qed

lemma arg_vars: "a \<in> set (t_args s) \<Longrightarrow> \<not> TermIsFreeVar s \<Longrightarrow> term_vars a \<subseteq> term_vars s"
  by (cases s) auto

lemma lpo_pairs_vars:
  assumes "(a, c) \<in> lpo_pairs s t" and "\<not> TermIsFreeVar s" and "\<not> TermIsFreeVar t" and "vars_by_code s t"
  shows "vars_by_code a c"
proof -
  have "term_vars a \<union> term_vars c \<subseteq> term_vars s \<union> term_vars t"
    using assms(1) arg_vars [OF _ assms(2)] arg_vars [OF _ assms(3)] unfolding lpo_pairs_def by blast
  then show ?thesis using assms(4) inj_on_subset unfolding vars_by_code_def by blast
qed

lemma t_arg_nth: "i < length (t_args t) \<Longrightarrow> t_arg t i = Some (t_args t ! i)"
  by (simp add: t_arg_def arity_def)

lemma lpo4_copy_majo_ok:
  assumes "\<And>c. c \<in> set (t_args t) \<Longrightarrow> gt s c = Some (v s c)"
  shows "lpo4_copy_majo gt s t pos = Some (\<forall>c \<in> set (drop pos (t_args t)). v s c)"
  using all_opt_total [of "[pos..<arity t]" "\<lambda>i. do { a \<leftarrow> t_arg t i; gt s a }" "\<lambda>i. v s (t_args t ! i)"] assms
    nth_drop_all [of pos "t_args t" "v s"] by (simp add: lpo4_copy_majo_def arity_def t_arg_nth)

lemma lpo4_copy_alpha_ok:
  assumes "\<And>a. a \<in> set (t_args s) \<Longrightarrow> gt a t = Some (v a t)"
    and "\<And>a. a \<in> set (t_args s) \<Longrightarrow> TermStructEqualNoDeref a t = Some (a = t)"
  shows "lpo4_copy_alpha gt s pos t = Some (\<exists>a \<in> set (drop pos (t_args s)). a = t \<or> v a t)"
proof -
  have "do { a \<leftarrow> t_arg s i; eq \<leftarrow> TermStructEqualNoDeref a t; if eq then Some True else gt a t } =
      Some (t_args s ! i = t \<or> v (t_args s ! i) t)" if "i \<in> set [pos..<arity s]" for i
    using that assms by (simp add: arity_def t_arg_nth)
  then show ?thesis
    using any_opt_total [of "[pos..<arity s]"] nth_drop_ex [of pos "t_args s" "\<lambda>a. a = t \<or> v a t"]
    by (simp add: lpo4_copy_alpha_def arity_def)
qed

lemma lpo4_copy_lex_ma_ok:
  assumes gt: "\<And>a c. (a, c) \<in> lpo_pairs s t \<Longrightarrow> gt a c = Some (v a c)"
    and eq: "\<And>a c. (a, c) \<in> lpo_pairs s t \<Longrightarrow> TermStructEqualNoDeref a c = Some (a = c)"
    and "length (t_args s) = length (t_args t)" and "f_code s = f_code t"
  shows "lpo4_copy_lex_ma gt s t 0 = Some (lex4 v s t (t_args s) (t_args t))"
proof -
  let ?n = "length (t_args s)"
  let ?f = "\<lambda>pos res.
              do { a \<leftarrow> t_arg s pos; a' \<leftarrow> t_arg t pos;
                   eq \<leftarrow> TermStructEqualNoDeref a a';
                   if eq then Some (res, False)
                   else do { g \<leftarrow> gt a a';
                             r \<leftarrow> (if g then lpo4_copy_majo gt s t (pos + 1)
                                   else lpo4_copy_alpha gt s (pos + 1) t);
                             Some (r, True) } }"
  have majo: "lpo4_copy_majo gt s t pos = Some (\<forall>c \<in> set (drop pos (t_args t)). v s c)" for pos
    by (rule lpo4_copy_majo_ok) (simp add: gt lpo_pairs_def)
  have alpha: "lpo4_copy_alpha gt s pos t = Some (\<exists>a \<in> set (drop pos (t_args s)). a = t \<or> v a t)" for pos
    by (rule lpo4_copy_alpha_ok) (simp_all add: gt eq lpo_pairs_def)
  have "?f i False = (if t_args s ! i = t_args t ! i then Some (False, False)
       else Some (if v (t_args s ! i) (t_args t ! i) then \<forall>c \<in> set (drop (i + 1) (t_args t)). v s c
                  else \<exists>a \<in> set (drop (i + 1) (t_args s)). a = t \<or> v a t, True))" if i: "i < ?n" for i
    using i assms(3) gt [of "t_args s ! i" "t_args t ! i"] eq [of "t_args s ! i" "t_args t ! i"] majo alpha
    by (simp add: t_arg_nth lpo_pairs_def)
  from lex4_fold [of s ?n t ?f v 0, OF refl assms(3) [symmetric] this]
  show ?thesis using assms(4) by (simp add: lpo4_copy_lex_ma_def arity_def)
qed

lemma lpo4_copy_greater_ok:
  assumes ok: "ocb_prec_ok ocb" and b: "binds_ok (ocb_sig ocb) b"
  shows "kbo_term ocb s \<Longrightarrow> kbo_term ocb t \<Longrightarrow> vars_by_code s t \<Longrightarrow>
    lpo4_copy_greater ocb b s t = Some (lpo_gt (ocb_gt ocb) s t)"
proof (induction "size s + size t" arbitrary: s t rule: less_induct)
  case less
  note unfold = lpo4_copy_greater.simps [of ocb b s t] lpo4_step_exact [OF ok less.prems(1,2), symmetric]
  consider (svar) "TermIsFreeVar s" | (tvar) "\<not> TermIsFreeVar s" "TermIsFreeVar t"
    | (nv) "\<not> TermIsFreeVar s" "\<not> TermIsFreeVar t" by blast
  then show ?case
  proof cases
    case tvar
    then show ?thesis
      using unfold TermIsSubterm_var [OF copies_never [OF b less.prems(1)] tvar(2)] by (simp add: lpo4_step_def)
  next
    case nv
    let ?gt = "lpo4_copy_greater ocb b" and ?v = "lpo_gt (ocb_gt ocb)"
    have gt: "?gt a c = Some (?v a c)" if "(a, c) \<in> lpo_pairs s t" for a c
      using less.hyps [OF lpo_pairs_size [OF that]] lpo_pairs_ok [OF that less.prems(1,2)]
        lpo_pairs_vars [OF that nv less.prems(3)] by blast
    have eq: "TermStructEqualNoDeref a c = Some (a = c)" if "(a, c) \<in> lpo_pairs s t" for a c
      using no_deref_eq lpo_pairs_ok [OF that less.prems(1,2)] lpo_pairs_vars [OF that nv less.prems(3)] by blast
    have majo: "lpo4_copy_majo ?gt s t 0 = Some (\<forall>c \<in> set (t_args t). ?v s c)"
      using lpo4_copy_majo_ok [of t ?gt s ?v 0] gt by (simp add: lpo_pairs_def)
    have alpha: "lpo4_copy_alpha ?gt s 0 t = Some (\<exists>a \<in> set (t_args s). a = t \<or> ?v a t)"
      using lpo4_copy_alpha_ok [of s ?gt t ?v 0] gt eq by (simp add: lpo_pairs_def)
    have lex: "lpo4_copy_lex_ma ?gt s t 0 = Some (lex4 ?v s t (t_args s) (t_args t))" if "f_code s = f_code t"
      using lpo4_copy_lex_ma_ok [OF gt eq same_args(1) [OF less.prems(1,2) nv(1) that] that] .
    obtain r where r: "OCBFunCompare ocb (f_code s) (f_code t) = Some r" "r = to_equal \<longleftrightarrow> f_code s = f_code t"
      using head_cmp [OF ok less.prems(1,2) nv] by blast
    show ?thesis unfolding unfold using nv r majo alpha lex by (auto simp: lpo4_step_def)
  qed (simp add: unfold lpo4_step_def)
qed

lemma lpo_copy_ok: "copies ocb b t d u \<Longrightarrow> lpo_copy b t d = Some u"
  using TermCopyKeepVars_0 [of "ocb_sig ocb" b t] by (auto simp: lpo_copy_def copies_def DEREF_NEVER_def)

lemma copies_copy: "copies ocb b t d u \<Longrightarrow> copies ocb b u DEREF_NEVER u"
  using copies_never [OF _ copies_kbo_term, of ocb b b t d u] unfolding copies_def by blast

section \<open>The exported functions\<close>

definition lpo_cmp :: "OCB \<Rightarrow> Term_p \<Rightarrow> Term_p \<Rightarrow> CompareResult" where
  "lpo_cmp ocb s t = (if s = t then to_equal else if lpo_gt (ocb_gt ocb) s t then to_greater
                      else if lpo_gt (ocb_gt ocb) t s then to_lesser else to_uncomparable)"

text \<open>A result is right if it claims nothing false.\<close>

definition lpo_right :: "OCB \<Rightarrow> Term_p \<Rightarrow> Term_p \<Rightarrow> CompareResult \<Rightarrow> bool" where
  "lpo_right ocb s t r \<longleftrightarrow> r = to_uncomparable \<or> r = lpo_cmp ocb s t"

lemma lpo_cmp_greater:
  assumes "ocb_prec_ok ocb" and "kbo_term ocb s" and "kbo_term ocb t"
  shows "lpo_cmp ocb s t = to_greater \<longleftrightarrow> lpo_gt (ocb_gt ocb) s t"
    "lpo_cmp ocb s t = to_lesser \<longleftrightarrow> lpo_gt (ocb_gt ocb) t s"
    "lpo_cmp ocb s t = to_equal \<longleftrightarrow> s = t"
  using lpo_irrefl' [OF assms(1)] assms(2,3) lpo.lpo_asym [OF assms(1), of s t] lpo_okl
  by (auto simp: lpo_cmp_def)


lemma LPOGreater_ok:
  assumes "ocb_prec_ok ocb" and "copies ocb b s ds us" and "copies ocb b t dt ut"
  shows "LPOGreater lim ocb b s t ds dt = Some (lpo_eval ocb (nat (lim + 1)) us ut = to_greater)"
  using lpo_greater_ok [OF assms] by (simp add: LPOGreater_def)

lemma lpo_eval_limit:
  assumes "ocb_prec_ok ocb" and "kbo_term ocb s" and "kbo_term ocb t" and "int (t_height s + t_height t) \<le> lim"
  shows "lpo_eval ocb (nat (lim + 1)) s t = to_greater \<longleftrightarrow> lpo_gt (ocb_gt ocb) s t"
    "lpo_eval ocb (nat (lim + 1)) s t = to_equal \<longleftrightarrow> s = t"
    "lpo4_eval ocb (nat (lim + 1)) s t \<longleftrightarrow> lpo_gt (ocb_gt ocb) s t"
proof -
  have "t_height s + t_height t < nat (lim + 1)" using assms(4) by linarith
  then show "lpo_eval ocb (nat (lim + 1)) s t = to_greater \<longleftrightarrow> lpo_gt (ocb_gt ocb) s t"
    "lpo_eval ocb (nat (lim + 1)) s t = to_equal \<longleftrightarrow> s = t"
    "lpo4_eval ocb (nat (lim + 1)) s t \<longleftrightarrow> lpo_gt (ocb_gt ocb) s t"
    using lpo_eval_complete [OF assms(1-3)] lpo_eval_sound [OF assms(1-3)] lpo4_eval_complete [OF assms(1-3)] by blast+
qed

lemma LPOCompare_eval:
  assumes "ocb_prec_ok ocb" and "copies ocb b s ds us" and "copies ocb b t dt ut"
  shows "LPOCompare lim ocb b s t ds dt =
    Some (let r = lpo_eval ocb (nat (lim + 1)) us ut in
          if r = to_notgteq
          then if lpo_eval ocb (nat (lim + 1)) ut us = to_greater then to_lesser else to_uncomparable
          else r)"
proof -
  let ?v = "lpo_eval ocb (nat (lim + 1))"
  have "?v us ut = to_notgteq \<Longrightarrow> ?v ut us \<noteq> to_equal"
    using lpo_eval_sound [OF assms(1) copies_kbo_term [OF assms(3)] copies_kbo_term [OF assms(2)], of "nat (lim + 1)"] by force
  then show ?thesis
    using lpo_greater_ok [OF assms] lpo_greater_ok [OF assms(1,3,2)]
      lpo_eval_values [of ocb "nat (lim + 1)" us ut] lpo_eval_values [of ocb "nat (lim + 1)" ut us]
    by (auto simp: LPOCompare_def Let_def)
qed

lemma LPO4Compare_eval:
  assumes "ocb_prec_ok ocb" and "copies ocb b s ds us" and "copies ocb b t dt ut"
  shows "LPO4Compare lim ocb b s t ds dt =
    Some (if us = ut then to_equal else if lpo4_eval ocb (nat (lim + 1)) us ut then to_greater
          else if lpo4_eval ocb (nat (lim + 1)) ut us then to_lesser else to_uncomparable)"
  using struct_eq_ok [OF assms(2,3)] lpo4_greater_ok [OF assms] lpo4_greater_ok [OF assms(1,3,2)]
  by (simp add: LPO4Compare_def)

lemma LPOCompare_right:
  assumes "ocb_prec_ok ocb" and "copies ocb b s ds us" and "copies ocb b t dt ut"
  shows "\<exists>r. LPOCompare lim ocb b s t ds dt = Some r \<and> lpo_right ocb us ut r"
proof -
  have k: "kbo_term ocb us" "kbo_term ocb ut" using copies_kbo_term assms(2,3) by blast+
  show ?thesis
    using LPOCompare_eval [OF assms, of lim] lpo_eval_sound [OF assms(1) k, of "nat (lim + 1)"]
      lpo_eval_sound [OF assms(1) k(2,1), of "nat (lim + 1)"] lpo_eval_values [of ocb "nat (lim + 1)" us ut]
      lpo_cmp_greater [OF assms(1) k] by (auto simp: lpo_right_def Let_def split: if_splits)
qed

lemma LPO4Compare_right:
  assumes "ocb_prec_ok ocb" and "copies ocb b s ds us" and "copies ocb b t dt ut"
  shows "\<exists>r. LPO4Compare lim ocb b s t ds dt = Some r \<and> lpo_right ocb us ut r"
proof -
  have k: "kbo_term ocb us" "kbo_term ocb ut" using copies_kbo_term assms(2,3) by blast+
  show ?thesis
    using LPO4Compare_eval [OF assms, of lim] lpo4_eval_sound [OF assms(1) k, of "nat (lim + 1)"]
      lpo4_eval_sound [OF assms(1) k(2,1), of "nat (lim + 1)"]
      lpo_cmp_greater [OF assms(1) k] by (auto simp: lpo_right_def)
qed

lemma LPOCompare_exact:
  assumes "ocb_prec_ok ocb" and "copies ocb b s ds us" and "copies ocb b t dt ut"
    and "int (t_height us + t_height ut) \<le> lim"
  shows "LPOCompare lim ocb b s t ds dt = Some (lpo_cmp ocb us ut)"
    "LPO4Compare lim ocb b s t ds dt = Some (lpo_cmp ocb us ut)"
proof -
  have k: "kbo_term ocb us" "kbo_term ocb ut" using copies_kbo_term assms(2,3) by blast+
  note e = lpo_eval_limit [OF assms(1) k assms(4)] lpo_eval_limit [OF assms(1) k(2,1), of lim]
  show "LPO4Compare lim ocb b s t ds dt = Some (lpo_cmp ocb us ut)"
    using LPO4Compare_eval [OF assms(1-3), of lim] e(3,6) assms(4) by (simp add: lpo_cmp_def add.commute)
  let ?r = "lpo_eval ocb (nat (lim + 1)) us ut"
  have unc: "?r = to_uncomparable \<Longrightarrow> \<not> lpo_gt (ocb_gt ocb) ut us"
  proof -
    assume "?r = to_uncomparable"
    moreover have "nat (lim + 1) = Suc (nat lim)" using assms(4) by linarith
    ultimately have "TermIsFreeVar ut" using lpo_eval_uncomparable [of ocb "nat lim" us ut] by simp
    then show "\<not> lpo_gt (ocb_gt ocb) ut us" by (rule lpo_gt_var(1))
  qed
  show "LPOCompare lim ocb b s t ds dt = Some (lpo_cmp ocb us ut)"
    using LPOCompare_eval [OF assms(1-3), of lim] e assms(4) unc lpo_eval_values [of ocb "nat (lim + 1)" us ut]
    by (auto simp: lpo_cmp_def Let_def add.commute)
qed

lemma lpo_greater_exact:
  assumes "ocb_prec_ok ocb" and "copies ocb b s ds us" and "copies ocb b t dt ut"
    and "int (t_height us + t_height ut) \<le> lim"
  shows "LPOGreater lim ocb b s t ds dt = Some (lpo_gt (ocb_gt ocb) us ut)"
    "LPO4Greater lim ocb b s t ds dt = Some (lpo_gt (ocb_gt ocb) us ut)"
  using LPOGreater_ok [OF assms(1-3), of lim] lpo4_greater_ok [OF assms(1-3), of lim]
    lpo_eval_limit [OF assms(1) copies_kbo_term [OF assms(2)] copies_kbo_term [OF assms(3)] assms(4)]
  by (simp_all add: LPO4Greater_def)

lemma lpo_copies_exact:
  assumes "ocb_prec_ok ocb" and "copies ocb b s ds us" and "copies ocb b t dt ut"
    and "int (t_height us + t_height ut) \<le> lim"
  shows "LPOGreaterCopy lim ocb b s t ds dt = Some (lpo_gt (ocb_gt ocb) us ut)"
    "LPOCompareCopy lim ocb b s t ds dt = Some (lpo_cmp ocb us ut)"
  using lpo_copy_ok [OF assms(2)] lpo_copy_ok [OF assms(3)] lpo_greater_exact(1) [OF assms]
    LPOCompare_exact(1) [OF assms] lpo_greater_exact(1) [OF assms(1) copies_copy [OF assms(2)] copies_copy [OF assms(3)] assms(4)]
    LPOCompare_exact(1) [OF assms(1) copies_copy [OF assms(2)] copies_copy [OF assms(3)] assms(4)]
  by (simp_all add: LPOGreaterCopy_def LPOCompareCopy_def)

lemma lpo4_copies_exact:
  assumes "ocb_prec_ok ocb" and "copies ocb b s ds us" and "copies ocb b t dt ut"
    and "int (t_height us + t_height ut) \<le> lim" and "vars_by_code us ut"
  shows "LPO4GreaterCopy lim ocb b s t ds dt = Some (lpo_gt (ocb_gt ocb) us ut)"
    "LPO4CompareCopy lim ocb b s t ds dt = Some (lpo_cmp ocb us ut)"
proof -
  have k: "kbo_term ocb us" "kbo_term ocb ut" "binds_ok (ocb_sig ocb) b"
    using copies_kbo_term assms(2,3) by (auto simp: copies_def)
  note cp = lpo4_copy_greater_ok [OF assms(1) k(3,1,2) assms(5)]
    lpo4_copy_greater_ok [OF assms(1) k(3,2,1) vars_by_code_sym [OF assms(5)]] no_deref_eq [OF k(1,2) assms(5)]
  show "LPO4GreaterCopy lim ocb b s t ds dt = Some (lpo_gt (ocb_gt ocb) us ut)"
    using lpo_copy_ok [OF assms(2)] lpo_copy_ok [OF assms(3)] cp lpo_greater_exact(1) [OF assms(1-4)]
    by (simp add: LPO4GreaterCopy_def)
  show "LPO4CompareCopy lim ocb b s t ds dt = Some (lpo_cmp ocb us ut)"
    using lpo_copy_ok [OF assms(2)] lpo_copy_ok [OF assms(3)] cp LPOCompare_exact(1) [OF assms(1-4)]
    by (simp add: LPO4CompareCopy_def lpo_cmp_def)
qed

end
