(* ===== verification/LPO_Laws.thy ===== *)
theory LPO_Laws
  imports LPO_Correct
begin

text \<open>
  What the exported functions of \<open>ORDERINGS/cto_lpo.c\<close> return: the textbook ordering when the
  recursion limit is not reached, a safe answer whatever the limit, and a failing assertion in
  the versions on copies when it is reached.
\<close>

section \<open>Terms that exceed the limit\<close>

fun tower :: "int \<Rightarrow> bool \<Rightarrow> nat \<Rightarrow> nat \<Rightarrow> Term_p \<Rightarrow> Term_p" where
  "tower g p ty 0 t = t"
| "tower g p ty (Suc n) t = TermCell g p ty [tower g p ty n t]"

lemma tower_props:
  assumes "0 < g"
  shows "term_vars (tower g p ty n t) = term_vars t" "n > 0 \<Longrightarrow> tower g p ty n t \<noteq> t"
proof -
  show "term_vars (tower g p ty n t) = term_vars t" using assms by (induction n) simp_all
  have "size (tower g p ty n t) \<ge> size t + n" by (induction n) simp_all
  then show "n > 0 \<Longrightarrow> tower g p ty n t \<noteq> t" by auto
qed

lemma tower_kbo_term:
  assumes "kbo_term ocb (TermCell g p ty [t])" and "0 < g"
  shows "kbo_term ocb (tower g p ty n t)"
proof (induction n)
  case 0
  then show ?case using lpo.okl_arg [of ocb "TermCell g p ty [t]" t] assms by (simp add: lpo_okl)
qed (use assms in \<open>simp add: kbo_term_def\<close>)

lemma tower_greater:
  assumes "0 < g" and "\<not> TermIsFreeVar t"
  shows "n > 0 \<Longrightarrow> lpo_gt P (tower g p ty n t) t"
proof (induction n)
  case (Suc n)
  then show ?case
    using lpo_alpha [of "tower g p ty (Suc n) t" t "tower g p ty n t" P] assms by (cases n) simp_all
qed simp

lemma tower_limit:
  assumes "ocb_prec_ok ocb" and "kbo_term ocb (TermCell g p ty [t])" and "0 < g" and "\<not> TermIsFreeVar t"
    and "ocb_gt ocb (f_code t) g"
  shows "n > m \<Longrightarrow> lpo_eval ocb m (tower g p ty n t) t \<noteq> to_greater"
proof (induction m arbitrary: n)
  case (Suc m)
  then obtain n' where n: "n = Suc n'" "n' > m" by (cases n) auto
  note k = tower_kbo_term [OF assms(2,3)]
  have t: "kbo_term ocb t" using k [of 0] by simp
  have sym: "g \<in> symbols" "f_code t \<in> symbols"
    using assms(2,3) lpo.okl_fun [of ocb t] t assms(4) lpo_okl by (auto simp: kbo_term_def)
  have ng: "\<not> ocb_gt ocb g (f_code t)" "g \<noteq> f_code t"
    using lpo.prec_trans [OF assms(1) sym(1,2,1)] lpo.prec_irrefl [OF assms(1)] sym assms(5) by auto
  have "lpo_eval ocb m (tower g p ty n' t) t \<noteq> to_equal"
    using lpo_eval_sound [OF assms(1) k t] tower_props(2) [OF assms(3), of n'] n(2) by fastforce
  then show ?case
    using Suc.IH [OF n(2)] n(1) ng assms(3,4) by (simp add: lpo_step_def Let_def)
qed simp

declare tower.simps [simp del]

definition rev_ocb :: OCB where
  "rev_ocb = sample_ocb \<lparr>ocb_type := LPO4Copy, prec_weights := Some (map (\<lambda>i. Some (22 - int i)) [0..<23])\<rparr>"

lemma rev_ocb_prec: "ocb_prec_ok rev_ocb"
proof -
  have nth: "map (\<lambda>i. Some (22 - int i)) [0..<23] ! nat f = Some (22 - f)" if "f \<in> {2..22}" for f
    using that by (subst nth_map) (simp_all add: nat_less_iff)
  have "prec_weights_ok rev_ocb"
    unfolding prec_weights_ok_def
    by (intro exI [of _ "map (\<lambda>i. Some (22 - int i)) [0..<23]"]) (simp add: rev_ocb_def sample_ocb_def nth)
  then show ?thesis by (simp add: ocb_prec_ok_def)
qed

lemma rev_ocb_sig [simp]: "ocb_sig rev_ocb = sample_sig"
  by (simp add: rev_ocb_def)

lemma sample_heights: "t_height (sample_f x y) = max (Suc (t_height x)) (Suc (t_height y))"
  "t_height (sample_var i) = 0" "t_height (sample_const c) = 0" "t_height (sample_g x) = Suc (t_height x)"
  by (simp_all add: sample_defs)

section \<open>Properties\<close>

text \<open>C22 The four implementations of the lexicographic path ordering - LPO, the polynomial LPO4
  and the two variants that copy the dereferenced terms - all compute the textbook ordering on
  terms whose heights add up to at most the recursion limit: they end, trip no assertion
  and return the same result.\<close>

theorem LPO_variants_agree:
  assumes "ocb_prec_ok ocb" and "copies ocb b s ds us" and "copies ocb b t dt ut"
    and "vars_by_code us ut" and "int (t_height us + t_height ut) \<le> lim"
  shows "LPOCompare lim ocb b s t ds dt = Some (lpo_cmp ocb us ut) \<and>
    LPO4Compare lim ocb b s t ds dt = Some (lpo_cmp ocb us ut) \<and>
    LPOCompareCopy lim ocb b s t ds dt = Some (lpo_cmp ocb us ut) \<and>
    LPO4CompareCopy lim ocb b s t ds dt = Some (lpo_cmp ocb us ut) \<and>
    LPOGreater lim ocb b s t ds dt = Some (lpo_gt (ocb_gt ocb) us ut) \<and>
    LPO4Greater lim ocb b s t ds dt = Some (lpo_gt (ocb_gt ocb) us ut) \<and>
    LPOGreaterCopy lim ocb b s t ds dt = Some (lpo_gt (ocb_gt ocb) us ut) \<and>
    LPO4GreaterCopy lim ocb b s t ds dt = Some (lpo_gt (ocb_gt ocb) us ut)"
  using LPOCompare_exact [OF assms(1-3,5)] lpo_greater_exact [OF assms(1-3,5)]
    lpo_copies_exact [OF assms(1-3,5)] lpo4_copies_exact [OF assms(1-3,5,4)] by simp

theorem LPO_variants_agree_witness:
  "LPO4CompareCopy LPORecursionDepthLimit sample_ocb (\<lambda>_. None) (sample_f (sample_var 1) (sample_const 21)) (sample_const 21)
     DEREF_NEVER DEREF_NEVER = Some to_greater"
proof -
  let ?s = "sample_f (sample_var 1) (sample_const 21)" and ?t = "sample_const 21"
  note k = sample_kbo_term [OF sample_ocb_sig]
  note c = copies_never [OF binds_ok_empty k(1)] copies_never [OF binds_ok_empty k(4)]
  have ok: "ocb_prec_ok sample_ocb" using sample_ocb_prec by (simp add: ocb_prec_ok_def)
  have v: "vars_by_code ?s ?t" by (simp add: vars_by_code_def sample_defs)
  have h: "int (t_height ?s + t_height ?t) \<le> LPORecursionDepthLimit"
    by (simp add: sample_heights LPORecursionDepthLimit_def)
  have "lpo_gt (ocb_gt sample_ocb) ?s ?t" by (rule lpo_arg) (simp_all add: sample_defs)
  then have "lpo_cmp sample_ocb ?s ?t = to_greater" using lpo_cmp_greater(1) [OF ok k(1,4)] by simp
  then show ?thesis using LPO_variants_agree [OF ok c v h] by simp
qed

text \<open>C23 The recursion limit is safe: whatever its value, \<open>LPOCompare\<close> and \<open>LPO4Compare\<close> end
  without a failing assertion and return either \<open>to_uncomparable\<close> or the result of the textbook
  ordering, and a positive answer of \<open>LPOGreater\<close> or \<open>LPO4Greater\<close> is right.\<close>

theorem LPO_any_limit:
  assumes "ocb_prec_ok ocb" and "copies ocb b s ds us" and "copies ocb b t dt ut"
  shows "\<exists>r r4 g g4. LPOCompare lim ocb b s t ds dt = Some r \<and> LPO4Compare lim ocb b s t ds dt = Some r4 \<and>
    LPOGreater lim ocb b s t ds dt = Some g \<and> LPO4Greater lim ocb b s t ds dt = Some g4 \<and>
    r \<in> {to_uncomparable, lpo_cmp ocb us ut} \<and> r4 \<in> {to_uncomparable, lpo_cmp ocb us ut} \<and>
    (g \<or> g4 \<longrightarrow> lpo_gt (ocb_gt ocb) us ut)"
proof -
  obtain r r4 where r: "LPOCompare lim ocb b s t ds dt = Some r" "lpo_right ocb us ut r"
    "LPO4Compare lim ocb b s t ds dt = Some r4" "lpo_right ocb us ut r4"
    using LPOCompare_right [OF assms] LPO4Compare_right [OF assms] by blast
  have k: "kbo_term ocb us" "kbo_term ocb ut" using copies_kbo_term assms(2,3) by blast+
  show ?thesis
    using r LPOGreater_ok [OF assms, of lim] lpo4_greater_ok [OF assms, of lim]
      lpo_eval_sound [OF assms(1) k, of "nat (lim + 1)"] lpo4_eval_sound [OF assms(1) k, of "nat (lim + 1)"]
    by (auto simp: lpo_right_def LPO4Greater_def)
qed

theorem LPO_any_limit_witness:
  "\<exists>r. LPOCompare 0 sample_ocb (\<lambda>_. None) (sample_f (sample_var 1) (sample_const 21)) (sample_const 21)
     DEREF_NEVER DEREF_NEVER = Some r"
proof -
  note k = sample_kbo_term [OF sample_ocb_sig]
  have ok: "ocb_prec_ok sample_ocb" using sample_ocb_prec by (simp add: ocb_prec_ok_def)
  show ?thesis
    using LPO_any_limit [OF ok copies_never [OF binds_ok_empty k(1)] copies_never [OF binds_ok_empty k(4)], of 0] by blast
qed

text \<open>C24 A defect. The copying \<open>LPO4GreaterCopy\<close> asserts that its result is that of \<open>LPOGreater\<close>,
  but only the latter is subject to the recursion limit: for every limit there are terms, a unary
  symbol applied often enough to a term with a greater head, on which \<open>LPOGreater\<close> gives up with
  false and the assertion fails.\<close>

theorem LPO4GreaterCopy_limit:
  assumes "ocb_prec_ok ocb" and "kbo_term ocb (TermCell g p ty [t])" and "0 < g"
    and "\<not> TermIsFreeVar t" and "vars_by_code t t" and "ocb_gt ocb (f_code t) g"
  shows "LPOGreater lim ocb (\<lambda>_. None) (tower g p ty (nat lim + 2) t) t DEREF_NEVER DEREF_NEVER = Some False \<and>
    lpo4_copy_greater ocb (\<lambda>_. None) (tower g p ty (nat lim + 2) t) t = Some True \<and>
    LPO4GreaterCopy lim ocb (\<lambda>_. None) (tower g p ty (nat lim + 2) t) t DEREF_NEVER DEREF_NEVER = None"
proof -
  let ?s = "tower g p ty (nat lim + 2) t"
  have k: "kbo_term ocb ?s" "kbo_term ocb t"
    using tower_kbo_term [OF assms(2,3)] tower_kbo_term [OF assms(2,3), of 0] by (blast, simp add: tower.simps)
  have v: "vars_by_code ?s t" using assms(5) tower_props(1) [OF assms(3)] by (simp add: vars_by_code_def)
  have "nat lim + 2 > nat (lim + 1)" by linarith
  from tower_limit [OF assms(1-4,6) this]
  have g: "LPOGreater lim ocb (\<lambda>_. None) ?s t DEREF_NEVER DEREF_NEVER = Some False"
    using LPOGreater_ok [OF assms(1) copies_never [OF binds_ok_empty k(1)] copies_never [OF binds_ok_empty k(2)]] by simp
  have c: "lpo4_copy_greater ocb (\<lambda>_. None) ?s t = Some True"
    using lpo4_copy_greater_ok [OF assms(1) binds_ok_empty k v] tower_greater [OF assms(3,4), of "nat lim + 2"] by simp
  show ?thesis using g c by (simp add: LPO4GreaterCopy_def lpo_copy_def)
qed

theorem LPO4GreaterCopy_limit_witness:
  "\<exists>s t. LPO4GreaterCopy LPORecursionDepthLimit rev_ocb (\<lambda>_. None) s t DEREF_NEVER DEREF_NEVER = None"
proof -
  have k: "kbo_term rev_ocb (TermCell 22 False 1 [sample_const 21])"
    by (simp add: kbo_term_def sample_defs symbols_def)
  have gt: "ocb_gt rev_ocb (f_code (sample_const 21)) 22" unfolding rev_ocb_def sample_ocb_def sample_defs by code_simp
  have "\<not> TermIsFreeVar (sample_const 21)" "vars_by_code (sample_const 21) (sample_const 21)"
    by (simp_all add: sample_defs vars_by_code_def)
  from LPO4GreaterCopy_limit [OF rev_ocb_prec k _ this gt] show ?thesis by auto
qed

end
