(* ===== verification/KBO6_Laws.thy ===== *)
theory KBO6_Laws
  imports KBOLin_Correct
begin

text \<open>
  The exported functions of \<open>cto_kbolin.c\<close>: \<open>KBO6Compare\<close> and \<open>KBO6Greater\<close> agree with \<open>KBOCompare\<close>
  and \<open>KBOGreater\<close>, whatever comparisons ran on the same ordering control block before; and
  what happens when the precedence does not decide two symbols.
\<close>

lemma KBO6_run:
  assumes "kbo_admissible o0" and "vb_ok ocb" and "kbo_base ocb = kbo_base o0"
    and "copies o0 b s ds us" and "copies o0 b t dt ut" and "vars_by_code us ut" and "comparable_syms o0 us ut"
  shows "\<exists>ocb'. KBO6Compare ocb b s t ds dt = Some (kbo_cmp (ocb_par o0) us ut, ocb') \<and>
    KBO6Greater ocb b s t ds dt = Some (kbo_cmp (ocb_par o0) us ut = to_greater, ocb') \<and>
    vb_ok ocb' \<and> kbo_base ocb' = kbo_base o0"
proof -
  obtain o1 where o1: "kbo6reset ocb = Some o1" "bal_rep o0 (\<lambda>_. 0) 0 o1" using kbo6reset_ok [OF assms(2,3)] by blast
  obtain o2 where o2: "kbolincmp o1 b s t ds dt = Some (kbo_cmp (ocb_par o0) us ut, o2)" "compared o0 us ut o2"
    using kbolincmp_ok [OF assms(1,4-7) o1(2)] by (auto simp: lin_done_def)
  note r2 = o2(2) [unfolded compared_def]
  obtain o3 where o3: "kbo6reset o2 = Some o3" "bal_rep o0 (\<lambda>_. 0) 0 o3"
    using kbo6reset_ok [OF bal_rep_vb_ok [OF r2] bal_rep_frame(5) [OF r2]] by blast
  obtain o4 where o4: "kbo6cmp o3 b s t ds dt = Some (kbo_cmp (ocb_par o0) us ut, o4)" "compared o0 us ut o4"
    using kbo6cmp_ok [OF assms(1,4-6) o3(2)] by (auto simp: lin_done_def)
  note r4 = o4(2) [unfolded compared_def]
  show ?thesis
    using o1(1) o2(1) o3(1) o4(1) bal_rep_vb_ok [OF r4] bal_rep_frame(5) [OF r4]
    by (simp add: KBO6Compare_def KBO6Greater_def)
qed

lemma sample_vb_ok: "vb_ok sample_ocb"
  by (simp add: vb_ok_def sample_ocb_def)

lemma sample_comparable: "term_syms s \<subseteq> symbols \<Longrightarrow> term_syms t \<subseteq> symbols \<Longrightarrow> comparable_syms sample_ocb s t"
  using prec_weights_total [OF sample_ocb_prec] by (auto simp: comparable_syms_def prec_total_def)

text \<open>C17 The linear-time \<open>KBO6Compare\<close>, which keeps weight and variable balances in the control
  block and tests the variable condition at the end, returns the same result as \<open>KBOCompare\<close>, for
  admissible weights and for terms none of whose symbols are incomparable in the precedence
  (\<open>comparable_syms\<close>). Under this condition its assertion that the two traversals \<open>kbolincmp\<close> and
  \<open>kbo6cmp\<close> agree does not fail; without it, it can (\<open>KBO6Compare_partial_precedence\<close> below).
  \<open>KBO6Greater\<close> answers whether the result is \<open>to_greater\<close>; the scratch fields are left fit for the
  next comparison, all other fields unchanged.\<close>

theorem KBO6Compare_KBOCompare:
  assumes "kbo_admissible ocb" and "vb_ok ocb" and "copies ocb b s ds us" and "copies ocb b t dt ut"
    and "vars_by_code us ut" and "comparable_syms ocb us ut"
  shows "\<exists>r ocb'. KBO6Compare ocb b s t ds dt = Some (r, ocb') \<and> KBOCompare ocb b s t ds dt = Some r \<and>
    KBO6Greater ocb b s t ds dt = Some (r = to_greater, ocb') \<and> vb_ok ocb' \<and> kbo_base ocb' = kbo_base ocb"
  using KBO6_run [OF assms(1,2) refl assms(3-6)] KBOCompare_ok [OF kbo_admissible_ocb [OF assms(1)] assms(3,4)] by auto

theorem KBO6Compare_KBOCompare_witness:
  "\<exists>ocb'. KBO6Compare sample_ocb (\<lambda>_. None) (sample_f (sample_var 1) (sample_const 21)) (sample_var 1) DEREF_NEVER DEREF_NEVER =
     Some (to_greater, ocb')"
proof -
  note c = copies_never [OF binds_ok_empty sample_kbo_term(1) [OF sample_ocb_sig]]
    copies_never [OF binds_ok_empty sample_kbo_term(2) [OF sample_ocb_sig]]
  have v: "vars_by_code (sample_f (sample_var 1) (sample_const 21)) (sample_var 1)"
    by (simp add: vars_by_code_def sample_defs)
  have "comparable_syms sample_ocb (sample_f (sample_var 1) (sample_const 21)) (sample_var 1)"
    using sample_comparable copies_syms [OF c(1)] copies_syms [OF c(2)] by blast
  from KBO6Compare_KBOCompare [OF sample_ocb_admissible sample_vb_ok c v this]
  obtain r ocb' where r: "KBO6Compare sample_ocb (\<lambda>_. None) (sample_f (sample_var 1) (sample_const 21)) (sample_var 1)
      DEREF_NEVER DEREF_NEVER = Some (r, ocb')"
    "KBOCompare sample_ocb (\<lambda>_. None) (sample_f (sample_var 1) (sample_const 21)) (sample_var 1) DEREF_NEVER DEREF_NEVER = Some r"
    by blast
  have "kbo_cmp (ocb_par sample_ocb) (sample_f (sample_var 1) (sample_const 21)) (sample_var 1) = to_greater"
    by (simp add: kbo_cmp_def sample_defs)
  then show ?thesis using r KBOCompare_ok [OF kbo_admissible_ocb [OF sample_ocb_admissible] c] by auto
qed



text \<open>C19 A defect. If the precedence, given by a matrix, leaves the two head symbols incomparable and the
  terms have the same weight, \<open>kbolincmp\<close> returns the initial value \<open>to_equal\<close> of its result for
  different terms, where \<open>KBOCompare\<close> returns \<open>to_uncomparable\<close>. With assertions on, the
  comparison with \<open>kbo6cmp\<close> fails and \<open>KBO6Compare\<close> aborts.\<close>

theorem KBO6Compare_partial_precedence:
  assumes "kbo_admissible ocb" and "vb_ok ocb" and "copies ocb b s ds us" and "copies ocb b t dt ut" and "vars_by_code us ut"
    and "\<not> TermIsFreeVar us" and "\<not> TermIsFreeVar ut"
    and "OCBFunCompare ocb (f_code us) (f_code ut) = Some to_uncomparable"
    and "kbo_weight (ocb_par ocb) us = kbo_weight (ocb_par ocb) ut"
  shows "\<exists>o1 o2. kbo6reset ocb = Some o1 \<and> kbolincmp o1 b s t ds dt = Some (to_equal, o2) \<and> us \<noteq> ut \<and>
    KBOCompare ocb b s t ds dt = Some to_uncomparable \<and> KBO6Compare ocb b s t ds dt = None"
proof -
  let ?P = "ocb_par ocb"
  note ocb0 = kbo_admissible_ocb [OF assms(1)]
  have kt: "kbo_term ocb us" "kbo_term ocb ut" using copies_okt assms(3,4) kbo_okt by blast+
  have sym: "f_code us \<in> symbols" "f_code ut \<in> symbols"
    using term_syms_head [OF assms(6)] term_syms_head [OF assms(7)] kt by (simp_all add: kbo_term_def)
  have fne: "f_code us \<noteq> f_code ut" using ocb_par_prec(1,3) [OF ocb0 sym] assms(8) by auto
  obtain o1 where o1: "kbo6reset ocb = Some o1" "bal_rep ocb (\<lambda>_. 0) 0 o1" using kbo6reset_ok [OF assms(2) refl] by blast
  obtain s' ds' where s': "TermDeref b s ds = Some (s', ds')" "head_ok ocb b s' ds' us" using copies_head [OF assms(3)] .
  obtain t' dt' where t': "TermDeref b t dt = Some (t', dt')" "head_ok ocb b t' dt' ut" using copies_head [OF assms(4)] .
  note h = heads_vars [OF s'(2) t'(2)]
  obtain o2 where o2: "mfyvwblhs o1 b s' ds' 0 = Some o2" "walked ocb True us (\<lambda>_. 0) 0 o2"
    using mfyvwblhs_ok [OF ocb0 h(7) o1(2)] by blast
  obtain o3 where o3: "mfyvwbrhs o2 b t' dt' 0 = Some o3" "walked ocb False ut (\<lambda>i. 0 + occ us i) (0 + kbo_weight ?P us) o3"
    using mfyvwbrhs_ok [OF ocb0 h(8) walkedD(1) [OF o2(2)]] by blast
  have c: "compared ocb us ut o3" using o3(2) by (simp add: compared_def walked_def)
  note dh = different_heads [OF ocb0 kt assms(6,7) fne c assms(5)]
  have unc: "kp_prec ?P (f_code us) (f_code ut) = to_uncomparable"
    using dh(1) assms(8) bal_rep_frame(1) [OF c [unfolded compared_def]] by simp
  have wb0: "wb o3 = 0" using compared_or_n(3) [OF c assms(5)] assms(9) by simp
  have lin: "kbolincmp o1 b s t ds dt = Some (to_equal, o3)"
    using s'(1) t'(1) h assms(6,7) fne o2(1) o3(1) dh(1) unc wb0 by (subst kbolincmp.simps) simp
  have cmp: "kbo_cmp ?P us ut = to_uncomparable" using dh(3) unc wb0 by simp
  note r3 = c [unfolded compared_def]
  obtain o4 where o4: "kbo6reset o3 = Some o4" "bal_rep ocb (\<lambda>_. 0) 0 o4"
    using kbo6reset_ok [OF bal_rep_vb_ok [OF r3] bal_rep_frame(5) [OF r3]] by blast
  obtain o5 where o5: "kbo6cmp o4 b s t ds dt = Some (to_uncomparable, o5)"
    using kbo6cmp_ok [OF assms(1,3-5) o4(2)] cmp by (auto simp: lin_done_def)
  show ?thesis
    using o1(1) lin o4(1) o5 fne cmp KBOCompare_ok [OF ocb0 assms(3,4)] by (auto simp: KBO6Compare_def)
qed

theorem KBO6Compare_partial_precedence_witness:
  "\<exists>ocb. OCBAlloc KBO6 False sample_sig = Some ocb \<and>
     KBO6Compare ocb (\<lambda>_. None) (sample_const 19) (sample_const 21) DEREF_NEVER DEREF_NEVER = None"
proof -
  obtain ocb where ocb: "OCBAlloc KBO6 False sample_sig = Some ocb" "mat_ok ocb" "sig_size ocb = 22" "ocb_sig ocb = sample_sig"
    "\<forall>i \<in> covered ocb. \<forall>j \<in> covered ocb. prec_at ocb i j = (if i = j then to_equal else to_uncomparable)"
    "vb_size ocb = 64" "vb ocb = replicate 64 (Some 0)" "max_var ocb = 0"
    "\<forall>f \<in> {0..sig_size ocb}. OCBFunWeight ocb f = Some 1"
    using OCBAlloc_matrix [of KBO6 sample_sig] by (auto simp: ordering_types_def sample_sig_def)
  have adm: "kbo_admissible ocb" using OCBAlloc_admissible [of KBO6 sample_sig] ocb(1) by (auto simp: sample_sig_def)
  have vb: "vb_ok ocb" using ocb(6-8) by (simp add: vb_ok_def)
  have kt: "kbo_term ocb (sample_const 19)" "kbo_term ocb (sample_const 21)"
    using ocb(4) by (simp_all add: kbo_term_def sample_defs symbols_def)
  note c = copies_never [OF binds_ok_empty kt(1)] copies_never [OF binds_ok_empty kt(2)]
  have "base_cmp ocb 19 21 = Some to_uncomparable"
  proof -
    have cov: "19 \<in> covered ocb" "21 \<in> covered ocb" using ocb(3) by (simp_all add: covered_def)
    obtain p where p: "precedence ocb = Some p" using ocb(2) by (auto simp: mat_ok_def mat_mem_def)
    have "mat_mem ocb" using ocb(2) by (simp add: mat_ok_def)
    then have "mem_at p (OCBFunComparePos ocb 19 21) = Some (prec_at ocb 19 21)" using mem_at_prec [OF _ cov p] by simp
    moreover have "prec_at ocb 19 21 = to_uncomparable" using ocb(5) cov by simp
    ultimately show ?thesis using p ocb(3) \<open>mat_mem ocb\<close> by (simp add: base_cmp_def OCBFunCompareMatrix_def mat_mem_def)
  qed
  then have prec: "OCBFunCompare ocb 19 21 = Some to_uncomparable"
    using ocb(4) by (simp add: OCBFunCompare_eq symbols_def layer_def sample_sig_def SigIsAnyFuncPropSet_def)
  have w: "kbo_weight (ocb_par ocb) (sample_const 19) = kbo_weight (ocb_par ocb) (sample_const 21)"
    using ocb(3,9) by (simp add: sample_defs ocb_par_def)
  have v: "vars_by_code (sample_const 19) (sample_const 21)" by (simp add: vars_by_code_def sample_defs)
  have nv: "\<not> TermIsFreeVar (sample_const 19)" "\<not> TermIsFreeVar (sample_const 21)" by (simp_all add: sample_defs)
  have hd: "OCBFunCompare ocb (f_code (sample_const 19)) (f_code (sample_const 21)) = Some to_uncomparable"
    using prec by (simp add: sample_defs)
  from KBO6Compare_partial_precedence [OF adm vb c v nv hd w] show ?thesis using ocb(1) by blast
qed

end
