(* ===== verification/TOrderings.thy ===== *)
theory TOrderings
  imports LPO_Laws KBO6_Laws
begin

text \<open>
  \<open>ORDERINGS/cto_orderings.c\<close>: the interface to the term orderings. \<open>TOGreater\<close> and
  \<open>TOCompare\<close> call the functions for the type of the ordering control block. \<open>LPORecursionDepthLimit\<close>
  is the parameter \<open>lim\<close>; the control block is part of the result since \<open>KBO6\<close> writes to it.

  The locale \<open>reduction_order\<close> is what the prover needs of such an ordering: it is
  well-founded, stable under substitutions and closed under contexts. Its conclusion is that
  rewriting with oriented equations ends; both Knuth-Bendix and path orderings are instances.
\<close>

section \<open>The code\<close>

definition TOGreater ::
  "int \<Rightarrow> OCB \<Rightarrow> bindings \<Rightarrow> Term_p \<Rightarrow> Term_p \<Rightarrow> nat \<Rightarrow> nat \<Rightarrow> (bool \<times> OCB) option" where
  "TOGreater lim ocb b s t deref_s deref_t =
     (case ocb_type ocb of
        LPO \<Rightarrow> do { res \<leftarrow> LPOGreater lim ocb b s t deref_s deref_t; Some (res, ocb) }
      | LPOCopy \<Rightarrow> do { res \<leftarrow> LPOGreaterCopy lim ocb b s t deref_s deref_t; Some (res, ocb) }
      | LPO4 \<Rightarrow> do { res \<leftarrow> LPO4Greater lim ocb b s t deref_s deref_t; Some (res, ocb) }
      | LPO4Copy \<Rightarrow> do { res \<leftarrow> LPO4GreaterCopy lim ocb b s t deref_s deref_t; Some (res, ocb) }
      | RPO \<Rightarrow> None
      | KBO \<Rightarrow> do { res \<leftarrow> KBOGreater ocb b s t deref_s deref_t; Some (res, ocb) }
      | KBO6 \<Rightarrow> KBO6Greater ocb b s t deref_s deref_t
      | _ \<Rightarrow> None)"

definition TOCompare ::
  "int \<Rightarrow> OCB \<Rightarrow> bindings \<Rightarrow> Term_p \<Rightarrow> Term_p \<Rightarrow> nat \<Rightarrow> nat \<Rightarrow> (CompareResult \<times> OCB) option" where
  "TOCompare lim ocb b s t deref_s deref_t =
     (case ocb_type ocb of
        LPO \<Rightarrow> do { res \<leftarrow> LPOCompare lim ocb b s t deref_s deref_t; Some (res, ocb) }
      | LPOCopy \<Rightarrow> do { res \<leftarrow> LPOCompareCopy lim ocb b s t deref_s deref_t; Some (res, ocb) }
      | LPO4 \<Rightarrow> do { res \<leftarrow> LPO4Compare lim ocb b s t deref_s deref_t; Some (res, ocb) }
      | LPO4Copy \<Rightarrow> do { res \<leftarrow> LPO4CompareCopy lim ocb b s t deref_s deref_t; Some (res, ocb) }
      | RPO \<Rightarrow> None
      | KBO \<Rightarrow> do { res \<leftarrow> KBOCompare ocb b s t deref_s deref_t; Some (res, ocb) }
      | KBO6 \<Rightarrow> KBO6Compare ocb b s t deref_s deref_t
      | EMPTY \<Rightarrow> Some (to_uncomparable, ocb)
      | _ \<Rightarrow> None)"

section \<open>Rewriting\<close>

text \<open>One step of rewriting with rules whose instances are terms of the signature.\<close>

inductive rw_step :: "OCB \<Rightarrow> (Term_p \<times> Term_p) set \<Rightarrow> Term_p \<Rightarrow> Term_p \<Rightarrow> bool" for ocb R where
  rw_root: "(l, r) \<in> R \<Longrightarrow> (\<And>v. v \<in> term_vars l \<union> term_vars r \<Longrightarrow> kbo_term ocb (\<theta> v)) \<Longrightarrow>
    rw_step ocb R (inst \<theta> l) (inst \<theta> r)"
| rw_arg: "rw_step ocb R s t \<Longrightarrow> \<not> f < 0 \<Longrightarrow>
    rw_step ocb R (TermCell f p ty (xs @ s # ys)) (TermCell f p ty (xs @ t # ys))"

lemma kbo_term_inst: "kbo_term ocb t \<Longrightarrow> (\<And>v. v \<in> term_vars t \<Longrightarrow> kbo_term ocb (\<theta> v)) \<Longrightarrow> kbo_term ocb (inst \<theta> t)"
  using lpo.okl_inst [of ocb \<theta> t] by (simp add: lpo.okl_subst_def lpo_okl)

lemma kbo_term_replace:
  "kbo_term ocb (TermCell f p ty (xs @ s # ys)) \<Longrightarrow> \<not> f < 0 \<Longrightarrow> kbo_term ocb t \<Longrightarrow>
   kbo_term ocb (TermCell f p ty (xs @ t # ys))"
  by (simp add: kbo_term_def)

locale reduction_order =
  fixes gt :: "OCB \<Rightarrow> Term_p \<Rightarrow> Term_p \<Rightarrow> bool"
    and valid :: "OCB \<Rightarrow> bool"
  assumes wellfounded: "valid oc \<Longrightarrow> wf {(t, s). kbo_term oc s \<and> kbo_term oc t \<and> gt oc s t}"
    and stable: "valid oc \<Longrightarrow> kbo_term oc s \<Longrightarrow> kbo_term oc t \<Longrightarrow>
      (\<And>v. v \<in> term_vars s \<union> term_vars t \<Longrightarrow> kbo_term oc (\<theta> v)) \<Longrightarrow> gt oc s t \<Longrightarrow> gt oc (inst \<theta> s) (inst \<theta> t)"
    and closed: "valid oc \<Longrightarrow> kbo_term oc (TermCell f p ty (xs @ s # ys)) \<Longrightarrow>
      kbo_term oc (TermCell f p ty (xs @ t # ys)) \<Longrightarrow> \<not> f < 0 \<Longrightarrow> gt oc s t \<Longrightarrow>
      gt oc (TermCell f p ty (xs @ s # ys)) (TermCell f p ty (xs @ t # ys))"
begin

lemma step_decreases:
  assumes "valid oc" and "\<And>l r. (l, r) \<in> R \<Longrightarrow> kbo_term oc l \<and> kbo_term oc r \<and> gt oc l r"
  shows "rw_step oc R s t \<Longrightarrow> kbo_term oc s \<Longrightarrow> kbo_term oc t \<and> gt oc s t"
proof (induction rule: rw_step.induct)
  case (rw_root l r \<theta>)
  then show ?case using assms(2) [of l r] kbo_term_inst stable [OF assms(1)] by blast
next
  case (rw_arg s t f p ty xs ys)
  have "kbo_term oc s" using lpo.okl_arg [of oc "TermCell f p ty (xs @ s # ys)" s] rw_arg.prems by (simp add: lpo_okl)
  then show ?case
    using rw_arg.IH kbo_term_replace [OF rw_arg.prems rw_arg.hyps(2)] closed [OF assms(1) rw_arg.prems _ rw_arg.hyps(2)] by blast
qed

lemma rewriting_ends:
  assumes "valid oc" and "\<And>l r. (l, r) \<in> R \<Longrightarrow> kbo_term oc l \<and> kbo_term oc r \<and> gt oc l r"
  shows "wf {(t, s). kbo_term oc s \<and> rw_step oc R s t}"
  by (rule wf_subset [OF wellfounded [OF assms(1)]]) (use step_decreases [OF assms] in blast)

end

interpretation kbo_red: reduction_order "\<lambda>ocb. kbo_gt (ocb_par ocb)" kbo_admissible
proof unfold_locales
  fix oc
  assume ok: "kbo_admissible oc"
  show "wf {(t, s). kbo_term oc s \<and> kbo_term oc t \<and> kbo_gt (ocb_par oc) s t}"
    using kbo.wf_gt [OF ok] by (simp add: kbo.gt_rel_def kbo_okt)
  show "kbo_gt (ocb_par oc) (inst \<theta> s) (inst \<theta> t)"
    if "kbo_term oc s" "kbo_term oc t" "\<And>v. v \<in> term_vars s \<union> term_vars t \<Longrightarrow> kbo_term oc (\<theta> v)"
      "kbo_gt (ocb_par oc) s t" for s t \<theta>
    using kbo.gt_inst [OF ok, of s t \<theta>] that by (simp add: kbo_okt)
  show "kbo_gt (ocb_par oc) (TermCell f p ty (xs @ s # ys)) (TermCell f p ty (xs @ t # ys))"
    if "kbo_term oc (TermCell f p ty (xs @ s # ys))" "kbo_term oc (TermCell f p ty (xs @ t # ys))"
      "\<not> f < 0" "kbo_gt (ocb_par oc) s t" for f p ty xs s ys t
    using kbo.gt_context [OF ok] that by (simp add: kbo_okt)
qed

interpretation lpo_red: reduction_order "\<lambda>ocb. lpo_gt (ocb_gt ocb)" ocb_prec_ok
proof unfold_locales
  fix oc
  assume ok: "ocb_prec_ok oc"
  show "wf {(t, s). kbo_term oc s \<and> kbo_term oc t \<and> lpo_gt (ocb_gt oc) s t}"
    using lpo.wf_lpo [OF ok] by (simp add: lpo.lpo_rel_def lpo_okl)
  show "lpo_gt (ocb_gt oc) (inst \<theta> s) (inst \<theta> t)"
    if "kbo_term oc s" "kbo_term oc t" "\<And>v. v \<in> term_vars s \<union> term_vars t \<Longrightarrow> kbo_term oc (\<theta> v)"
      "lpo_gt (ocb_gt oc) s t" for s t \<theta>
    using lpo.lpo_inst [OF ok, of \<theta> s t] that by (simp add: lpo_okl lpo.okl_subst_def)
  show "lpo_gt (ocb_gt oc) (TermCell f p ty (xs @ s # ys)) (TermCell f p ty (xs @ t # ys))"
    if "kbo_term oc (TermCell f p ty (xs @ s # ys))" "kbo_term oc (TermCell f p ty (xs @ t # ys))"
      "\<not> f < 0" "lpo_gt (ocb_gt oc) s t" for f p ty xs s ys t
    using lpo.lpo_context [OF ok] that by (simp add: lpo_okl)
qed

section \<open>The interface functions\<close>

definition lpo_types :: "TermOrdering set" where
  "lpo_types = {LPO, LPOCopy, LPO4, LPO4Copy}"

text \<open>Control blocks that give a reduction ordering. The linear-time KBO needs a precedence that
  decides all symbols.\<close>

definition to_valid :: "OCB \<Rightarrow> bool" where
  "to_valid ocb \<longleftrightarrow> ocb_type ocb \<in> lpo_types \<and> ocb_prec_ok ocb \<or>
     ocb_type ocb = KBO \<and> kbo_admissible ocb \<or>
     ocb_type ocb = KBO6 \<and> kbo_admissible ocb \<and> prec_total ocb \<and> vb_ok ocb"

text \<open>The ordering a block stands for.\<close>

definition to_gt :: "OCB \<Rightarrow> Term_p \<Rightarrow> Term_p \<Rightarrow> bool" where
  "to_gt ocb s t \<longleftrightarrow> (if ocb_type ocb \<in> lpo_types then lpo_gt (ocb_gt ocb) s t else kbo_gt (ocb_par ocb) s t)"

lemma to_gt_stable:
  assumes "to_valid o0" and "kbo_term o0 s" and "kbo_term o0 t"
    and "\<And>v. v \<in> term_vars s \<union> term_vars t \<Longrightarrow> kbo_term o0 (\<theta> v)" and "to_gt o0 s t"
  shows "to_gt o0 (inst \<theta> s) (inst \<theta> t)"
proof (cases "ocb_type o0 \<in> lpo_types")
  case True
  then have "ocb_prec_ok o0" using assms(1) by (auto simp: to_valid_def lpo_types_def)
  from lpo_red.stable [OF this assms(2-4)] True assms(5) show ?thesis by (simp add: to_gt_def)
next
  case False
  then have "kbo_admissible o0" using assms(1) by (auto simp: to_valid_def)
  from kbo_red.stable [OF this assms(2-4)] False assms(5) show ?thesis by (simp add: to_gt_def)
qed

text \<open>The states that comparisons lead to: only the scratch fields of \<open>KBO6\<close> differ.\<close>

definition to_state :: "OCB \<Rightarrow> OCB \<Rightarrow> bool" where
  "to_state o0 ocb \<longleftrightarrow> ocb = o0 \<or> ocb_type o0 = KBO6 \<and> kbo_base ocb = kbo_base o0 \<and> vb_ok ocb"

lemma base_type: "kbo_base ocb = kbo_base o0 \<Longrightarrow> ocb_type ocb = ocb_type o0"
proof -
  assume "kbo_base ocb = kbo_base o0"
  then have "ocb_type (kbo_base ocb) = ocb_type (kbo_base o0)" by simp
  then show ?thesis by (simp add: kbo_base_def)
qed

lemma total_comparable:
  "prec_total ocb \<Longrightarrow> copies ocb b s ds us \<Longrightarrow> copies ocb b t dt ut \<Longrightarrow> comparable_syms ocb us ut"
  using copies_syms unfolding comparable_syms_def prec_total_def by blast

lemma TOGreater_kbo6:
  assumes "ocb_type o0 = KBO6" and "to_valid o0" and "to_state o0 ocb"
    and "copies o0 b s ds us" and "copies o0 b t dt ut" and "vars_by_code us ut"
  shows "\<exists>ocb'. TOGreater lim ocb b s t ds dt = Some (kbo_gt (ocb_par o0) us ut, ocb') \<and>
    TOCompare lim ocb b s t ds dt = Some (kbo_cmp (ocb_par o0) us ut, ocb') \<and> to_state o0 ocb'"
proof -
  have v: "kbo_admissible o0" "prec_total o0" "vb_ok o0" using assms(1,2) by (simp_all add: to_valid_def lpo_types_def)
  have st: "vb_ok ocb" "kbo_base ocb = kbo_base o0" using assms(3) v(3) by (auto simp: to_state_def)
  have ty: "ocb_type ocb = KBO6" using base_type [OF st(2)] assms(1) by simp
  have "kbo_cmp (ocb_par o0) us ut = to_greater \<longleftrightarrow> kbo_gt (ocb_par o0) us ut"
    using KBOCompare_greater [OF kbo_admissible_ocb [OF v(1)] assms(4,5)]
      KBOCompare_ok [OF kbo_admissible_ocb [OF v(1)] assms(4,5)] by simp
  then show ?thesis
    using KBO6_run [OF v(1) st assms(4-6) total_comparable [OF v(2) assms(4,5)]] ty assms(1)
    by (auto simp: TOGreater_def TOCompare_def to_state_def)
qed

lemma TOGreater_sound:
  assumes "to_valid o0" and "to_state o0 ocb" and "copies o0 b s ds us" and "copies o0 b t dt ut"
    and "vars_by_code us ut" and "TOGreater lim ocb b s t ds dt = Some (True, ocb')"
  shows "to_gt o0 us ut \<and> to_state o0 ocb'"
proof (cases "ocb_type o0 = KBO6")
  case True
  then show ?thesis using TOGreater_kbo6 [OF True assms(1-5), of lim] assms(6) by (simp add: to_gt_def lpo_types_def)
next
  case False
  then have o: "ocb = o0" using assms(2) by (simp add: to_state_def)
  have k: "kbo_term o0 us" "kbo_term o0 ut" using copies_kbo_term assms(3,4) by blast+
  show ?thesis
  proof (cases "ocb_type o0 = KBO")
    case True
    then have "kbo_admissible o0" using assms(1) by (simp add: to_valid_def lpo_types_def)
    then show ?thesis
      using KBOGreater_gt [OF kbo_admissible_ocb assms(3,4)] assms(6) [unfolded o] True
      by (auto simp: TOGreater_def to_gt_def to_state_def lpo_types_def)
  next
    case False
    then have ty: "ocb_type o0 \<in> lpo_types" and ok: "ocb_prec_ok o0" using assms(1) \<open>ocb_type o0 \<noteq> KBO6\<close> by (simp_all add: to_valid_def)
    have res: "LPOGreater lim o0 b s t ds dt = Some True \<or> LPO4Greater lim o0 b s t ds dt = Some True" "ocb' = o0"
      using assms(6) ty unfolding o
      by (auto simp: TOGreater_def lpo_types_def LPOGreaterCopy_def LPO4GreaterCopy_def bind_eq_Some_conv c_assert_def split: if_splits)
    have "lpo_gt (ocb_gt o0) us ut"
      using res(1) LPOGreater_ok [OF ok assms(3,4), of lim] lpo4_greater_ok [OF ok assms(3,4), of lim]
        lpo_eval_sound [OF ok k, of "nat (lim + 1)"] lpo4_eval_sound [OF ok k, of "nat (lim + 1)"]
      by (auto simp: LPO4Greater_def)
    then show ?thesis using ty res(2) by (simp add: to_gt_def to_state_def)
  qed
qed

definition within_limit :: "int \<Rightarrow> OCB \<Rightarrow> Term_p \<Rightarrow> Term_p \<Rightarrow> bool" where
  "within_limit lim ocb s t \<longleftrightarrow> (ocb_type ocb \<in> lpo_types \<longrightarrow> int (t_height s + t_height t) \<le> lim)"

lemma TO_ok:
  assumes "to_valid o0" and "to_state o0 ocb" and "copies o0 b s ds us" and "copies o0 b t dt ut"
    and "vars_by_code us ut" and "within_limit lim o0 us ut"
  shows "\<exists>r ocb'. TOCompare lim ocb b s t ds dt = Some (r, ocb') \<and>
    TOGreater lim ocb b s t ds dt = Some (r = to_greater, ocb') \<and> to_state o0 ocb' \<and>
    r = (if us = ut then to_equal else if to_gt o0 us ut then to_greater
         else if to_gt o0 ut us then to_lesser else to_uncomparable)"
proof (cases "ocb_type o0 \<in> lpo_types")
  case True
  then have o: "ocb = o0" and ok: "ocb_prec_ok o0"
    using assms(1,2) by (auto simp: to_state_def to_valid_def lpo_types_def)
  have lim: "int (t_height us + t_height ut) \<le> lim" using assms(6) True by (simp add: within_limit_def)
  have k: "kbo_term o0 us" "kbo_term o0 ut" using copies_kbo_term assms(3,4) by blast+
  have "TOCompare lim o0 b s t ds dt = Some (lpo_cmp o0 us ut, o0)"
    "TOGreater lim o0 b s t ds dt = Some (lpo_gt (ocb_gt o0) us ut, o0)"
    using LPOCompare_exact [OF ok assms(3,4) lim] lpo_greater_exact [OF ok assms(3,4) lim]
      lpo_copies_exact [OF ok assms(3,4) lim] lpo4_copies_exact [OF ok assms(3,4) lim assms(5)] True
    by (auto simp: TOCompare_def TOGreater_def lpo_types_def)
  then show ?thesis
    using lpo_cmp_greater [OF ok k] True by (simp add: o to_state_def to_gt_def) (simp add: lpo_cmp_def)
next
  case False
  then have adm: "kbo_admissible o0" using assms(1) by (auto simp: to_valid_def)
  have cmp: "kbo_cmp (ocb_par o0) us ut = to_greater \<longleftrightarrow> kbo_gt (ocb_par o0) us ut"
    using KBOCompare_greater [OF kbo_admissible_ocb [OF adm] assms(3,4)]
      KBOCompare_ok [OF kbo_admissible_ocb [OF adm] assms(3,4)] by simp
  have "\<exists>ocb'. TOCompare lim ocb b s t ds dt = Some (kbo_cmp (ocb_par o0) us ut, ocb') \<and>
      TOGreater lim ocb b s t ds dt = Some (kbo_gt (ocb_par o0) us ut, ocb') \<and> to_state o0 ocb'"
  proof (cases "ocb_type o0 = KBO6")
    case True
    then show ?thesis using TOGreater_kbo6 [OF True assms(1-5), of lim] by blast
  next
    case k6: False
    then have "ocb_type o0 = KBO" "ocb = o0" using False assms(1,2) by (auto simp: to_valid_def to_state_def)
    then show ?thesis
      using KBOGreater_gt [OF kbo_admissible_ocb [OF adm] assms(3,4)] KBOCompare_ok [OF kbo_admissible_ocb [OF adm] assms(3,4)]
      by (simp add: TOCompare_def TOGreater_def to_state_def)
  qed
  then show ?thesis using False cmp by (auto simp: to_gt_def kbo_cmp_def)
qed

lemma sample_to_valid: "to_valid sample_ocb"
  using sample_ocb_admissible prec_weights_total [OF sample_ocb_prec] sample_vb_ok
  by (simp add: to_valid_def) (simp add: sample_ocb_def)

lemma kbo6_not_lpo: "ocb_type sample_ocb \<notin> lpo_types"
  by (simp add: sample_ocb_def lpo_types_def)

section \<open>Properties\<close>

text \<open>C21 The interface functions: for every control block that is \<open>to_valid\<close> (one of the four LPO types
  with a precedence that is a partial ordering, KBO with admissible weights, or KBO6 with admissible
  weights and a total precedence; not RPO and EMPTY), and, for the LPO types, terms whose heights together
  are within the recursion limit, \<open>TOCompare\<close> and
  \<open>TOGreater\<close> return without a failing assertion, from whatever state earlier comparisons left;
  \<open>TOCompare\<close> says exactly which of equal, greater, lesser and incomparable the two terms
  are, \<open>TOGreater\<close> whether the answer is greater, and both leave the same state.\<close>

theorem TOCompare_TOGreater:
  assumes "to_valid o0" and "to_state o0 ocb" and "copies o0 b s ds us" and "copies o0 b t dt ut"
    and "vars_by_code us ut" and "within_limit lim o0 us ut"
  shows "\<exists>r ocb'. TOCompare lim ocb b s t ds dt = Some (r, ocb') \<and>
    TOGreater lim ocb b s t ds dt = Some (r = to_greater, ocb') \<and> to_state o0 ocb' \<and>
    r = (if us = ut then to_equal else if to_gt o0 us ut then to_greater
         else if to_gt o0 ut us then to_lesser else to_uncomparable)"
  using assms by (rule TO_ok)

theorem TOCompare_TOGreater_witness:
  "\<exists>r ocb'. TOCompare 0 sample_ocb (\<lambda>_. None) (sample_g (sample_var 1)) (sample_var 1) DEREF_NEVER DEREF_NEVER = Some (r, ocb')"
proof -
  note k = sample_kbo_term [OF sample_ocb_sig]
  have "to_state sample_ocb sample_ocb" "vars_by_code (sample_g (sample_var 1)) (sample_var 1)"
    by (simp_all add: to_state_def vars_by_code_def sample_defs)
  moreover have "within_limit 0 sample_ocb (sample_g (sample_var 1)) (sample_var 1)"
    using kbo6_not_lpo by (simp add: within_limit_def)
  ultimately show ?thesis
    using TOCompare_TOGreater [OF sample_to_valid _ copies_never [OF binds_ok_empty k(3)] copies_never [OF binds_ok_empty k(2)]]
    by blast
qed

text \<open>C20 Rewriting ends: with rules \<open>(l, r)\<close> that \<open>TOGreater\<close> has oriented, each in some state that
  earlier comparisons left and with any recursion limit, there is no infinite sequence of rewrite
  steps, whichever of the implemented orderings is used.\<close>

theorem TOGreater_rewriting_ends:
  assumes "to_valid o0" and "subst_wf (ocb_sig o0) b"
    and "\<And>l r. (l, r) \<in> R \<Longrightarrow> kbo_term o0 l \<and> kbo_term o0 r \<and> vars_by_code l r \<and>
      (\<exists>lim ocb ocb'. to_state o0 ocb \<and> TOGreater lim ocb b l r DEREF_NEVER DEREF_NEVER = Some (True, ocb'))"
  shows "wf {(t, s). kbo_term o0 s \<and> rw_step o0 R s t}"
proof -
  have ok: "binds_ok (ocb_sig o0) b" using assms(2) by (simp add: subst_wf_def)
  have R: "kbo_term o0 l \<and> kbo_term o0 r \<and> to_gt o0 l r" if "(l, r) \<in> R" for l r
    using assms(3) [OF that] TOGreater_sound [OF assms(1) _ copies_never [OF ok] copies_never [OF ok]] by blast
  show ?thesis
  proof (cases "ocb_type o0 \<in> lpo_types")
    case True
    then have "ocb_prec_ok o0" using assms(1) by (auto simp: to_valid_def lpo_types_def)
    then show ?thesis by (rule lpo_red.rewriting_ends) (use R True in \<open>simp add: to_gt_def\<close>)
  next
    case False
    then have "kbo_admissible o0" using assms(1) by (auto simp: to_valid_def)
    then show ?thesis by (rule kbo_red.rewriting_ends) (use R False in \<open>simp add: to_gt_def\<close>)
  qed
qed

theorem TOGreater_rewriting_ends_witness:
  "wf {(t, s). kbo_term sample_ocb s \<and> rw_step sample_ocb {(sample_g (sample_var 1), sample_var 1)} s t}"
proof (rule TOGreater_rewriting_ends [OF sample_to_valid, of "\<lambda>_. None"])
  show "subst_wf (ocb_sig sample_ocb) (\<lambda>_. None)" by (rule subst_wf_empty)
  fix l r
  assume "(l, r) \<in> {(sample_g (sample_var 1), sample_var 1)}"
  then have lr: "l = sample_g (sample_var 1)" "r = sample_var 1" by simp_all
  note k = sample_kbo_term(3,2) [OF sample_ocb_sig]
  have v: "vars_by_code (sample_g (sample_var 1)) (sample_var 1)" by (simp add: vars_by_code_def sample_defs)
  have st: "to_state sample_ocb sample_ocb" by (simp add: to_state_def)
  have "within_limit 0 sample_ocb (sample_g (sample_var 1)) (sample_var 1)" using kbo6_not_lpo by (simp add: within_limit_def)
  from TO_ok [OF sample_to_valid st k [THEN copies_never [OF binds_ok_empty]] v this]
  have "\<exists>ocb'. TOGreater 0 sample_ocb (\<lambda>_. None) (sample_g (sample_var 1)) (sample_var 1) DEREF_NEVER DEREF_NEVER = Some (True, ocb')"
    using kbo6_not_lpo by (auto simp: to_gt_def) (simp_all add: sample_defs)
  then show "kbo_term sample_ocb l \<and> kbo_term sample_ocb r \<and> vars_by_code l r \<and>
      (\<exists>lim ocb ocb'. to_state sample_ocb ocb \<and> TOGreater lim ocb (\<lambda>_. None) l r DEREF_NEVER DEREF_NEVER = Some (True, ocb'))"
    using k v st unfolding lr by blast
qed

end
