(* ===== verification/Substs.thy ===== *)
theory Substs
  imports Terms PStacks
begin

text \<open>
  Substitutions (\<open>TERMS/cte_subst.h\<close>, \<open>TERMS/cte_subst.c\<close>): the stack of the variables that
  were bound, in the order of their binding, so that bindings can be undone back to a stack
  position. The operations take the stack and the bindings and return both. \<open>trail b0 tr b s\<close>
  says that the pair \<open>(b, s)\<close> was reached from the bindings \<open>b0\<close> and the stack \<open>tr\<close> by adding
  bindings.
\<close>

section \<open>The operations\<close>

definition SubstAlloc :: "Term_p pstack" where
  "SubstAlloc = PStackAlloc"

definition SubstIsEmpty :: "Term_p pstack \<Rightarrow> bool" where
  "SubstIsEmpty subst = PStackEmpty subst"

definition SubstAddBinding ::
  "Term_p pstack \<Rightarrow> bindings \<Rightarrow> Term_p \<Rightarrow> Term_p \<Rightarrow> (nat \<times> Term_p pstack \<times> bindings) option" where
  "SubstAddBinding subst b var bnd =
     do { let ret = PStackGetSP subst;
          c_assert (TermIsFreeVar var);
          c_assert (b var = None);
          c_assert (t_type var \<noteq> 0);
          c_assert (t_type bnd \<noteq> 0);
          c_assert (t_type var = t_type bnd);
          subst \<leftarrow> PStackPushP subst var;
          Some (ret, subst, b(var \<mapsto> bnd)) }"

definition SubstBacktrackSingle ::
  "Term_p pstack \<Rightarrow> bindings \<Rightarrow> (bool \<times> Term_p pstack \<times> bindings) option" where
  "SubstBacktrackSingle subst b =
     (if PStackEmpty subst then Some (False, subst, b)
      else do { (handle, subst) \<leftarrow> PStackPop subst;
                c_assert (TermIsFreeVar handle);
                Some (True, subst, b(handle := None)) })"

partial_function (option) backtrack_loop ::
  "nat \<Rightarrow> Term_p pstack \<Rightarrow> bindings \<Rightarrow> nat \<Rightarrow> (nat \<times> Term_p pstack \<times> bindings) option" where [code]:
  "backtrack_loop pos subst b ret =
     (if PStackGetSP subst > pos
      then do { (_, subst, b) \<leftarrow> SubstBacktrackSingle subst b;
                backtrack_loop pos subst b (ret + 1) }
      else Some (ret, subst, b))"

definition SubstBacktrackToPos ::
  "Term_p pstack \<Rightarrow> bindings \<Rightarrow> nat \<Rightarrow> (nat \<times> Term_p pstack \<times> bindings) option" where
  "SubstBacktrackToPos subst b pos = backtrack_loop pos subst b 0"

partial_function (option) backtrack_all ::
  "Term_p pstack \<Rightarrow> bindings \<Rightarrow> nat \<Rightarrow> (nat \<times> Term_p pstack \<times> bindings) option" where [code]:
  "backtrack_all subst b ret =
     do { (r, subst, b) \<leftarrow> SubstBacktrackSingle subst b;
          if r then backtrack_all subst b (ret + 1) else Some (ret, subst, b) }"

definition SubstBacktrack ::
  "Term_p pstack \<Rightarrow> bindings \<Rightarrow> (nat \<times> Term_p pstack \<times> bindings) option" where
  "SubstBacktrack subst b = backtrack_all subst b 0"

text \<open>
  \<open>SubstIsRenaming\<close>: the property \<open>TPOpFlag\<close> of the cells is the set \<open>opflag\<close>. The first loop
  checks and clears the flags, the second finds a cell that is met twice; both may return.
\<close>

primrec renaming_clear ::
  "Term_p pstack \<Rightarrow> bindings \<Rightarrow> nat list \<Rightarrow> Term_p set \<Rightarrow> (bool \<times> Term_p set) option" where
  "renaming_clear subst b [] opflag = Some (True, opflag)"
| "renaming_clear subst b (i # is) opflag =
     do { var \<leftarrow> PStackElement subst i;
          c_assert (TermIsFreeVar var);
          c_assert (b var \<noteq> None);
          (ins, _) \<leftarrow> TermDeref b var DEREF_ONCE;
          if \<not> TermIsFreeVar ins then Some (False, opflag)
          else renaming_clear subst b is (opflag - {ins}) }"

primrec renaming_check ::
  "Term_p pstack \<Rightarrow> bindings \<Rightarrow> nat list \<Rightarrow> Term_p set \<Rightarrow> (bool \<times> Term_p set) option" where
  "renaming_check subst b [] opflag = Some (True, opflag)"
| "renaming_check subst b (i # is) opflag =
     do { var \<leftarrow> PStackElement subst i;
          (ins, _) \<leftarrow> TermDeref b var DEREF_ONCE;
          if ins \<in> opflag then Some (False, opflag)
          else renaming_check subst b is (insert ins opflag) }"

definition SubstIsRenaming ::
  "Term_p pstack \<Rightarrow> bindings \<Rightarrow> Term_p set \<Rightarrow> (bool \<times> Term_p set) option" where
  "SubstIsRenaming subst b opflag =
     do { let sz = PStackGetSP subst;
          (ok, opflag) \<leftarrow> renaming_clear subst b [0..<sz] opflag;
          if \<not> ok then Some (False, opflag) else renaming_check subst b [0..<sz] opflag }"

fun SubstCompleteInstance ::
  "Term_p pstack \<Rightarrow> bindings \<Rightarrow> Term_p \<Rightarrow> Term_p \<Rightarrow> (Term_p pstack \<times> bindings) option" where
  "SubstCompleteInstance subst b (TermCell f p ty as) default_binding =
     (if TermIsFreeVar (TermCell f p ty as)
      then if b (TermCell f p ty as) = None
           then do { (_, subst, b) \<leftarrow> SubstAddBinding subst b (TermCell f p ty as) default_binding;
                     Some (subst, b) }
           else Some (subst, b)
      else foldM (\<lambda>st a. SubstCompleteInstance (fst st) (snd st) a default_binding) (subst, b) as)"

section \<open>The trail\<close>

definition trail :: "bindings \<Rightarrow> Term_p list \<Rightarrow> bindings \<Rightarrow> Term_p pstack \<Rightarrow> bool" where
  "trail b0 tr b s \<longleftrightarrow> pstack_ok s \<and>
     (\<exists>new. pstack_list s = tr @ new \<and> (\<forall>v \<in> set new. TermIsFreeVar v \<and> b0 v = None) \<and>
            (\<forall>v. v \<notin> set new \<longrightarrow> b v = b0 v))"

lemma trail_refl: "pstack_ok s \<Longrightarrow> trail b (pstack_list s) b s"
  by (auto simp: trail_def)

lemma trail_ok: "trail b0 tr b s \<Longrightarrow> pstack_ok s"
  by (simp add: trail_def)

lemma trail_le: "trail b0 tr b s \<Longrightarrow> b0 \<subseteq>\<^sub>m b"
  unfolding trail_def map_le_def by (metis domIff)

lemma trail_None: "trail b0 tr b s \<Longrightarrow> b v = None \<Longrightarrow> b0 v = None"
  by (auto simp: trail_def)

lemma trail_trans:
  assumes "trail b0 tr b1 s1" and "trail b1 (pstack_list s1) b s"
  shows "trail b0 tr b s"
proof -
  obtain n1 where n1: "pstack_list s1 = tr @ n1" "\<forall>v \<in> set n1. TermIsFreeVar v \<and> b0 v = None"
    "\<forall>v. v \<notin> set n1 \<longrightarrow> b1 v = b0 v" using assms(1) by (auto simp: trail_def)
  obtain n2 where n2: "pstack_list s = pstack_list s1 @ n2" "\<forall>v \<in> set n2. TermIsFreeVar v \<and> b1 v = None"
    "\<forall>v. v \<notin> set n2 \<longrightarrow> b v = b1 v" "pstack_ok s" using assms(2) by (auto simp: trail_def)
  have "b0 v = None" if "v \<in> set n2" for v
    using n1 n2 that by metis
  then show ?thesis
    unfolding trail_def using n1 n2 by (intro conjI exI [of _ "n1 @ n2"]) auto
qed

lemma SubstAddBinding_ok:
  assumes "pstack_ok s" and "TermIsFreeVar v" and "b v = None" and "wf_term sg v"
    and "t_type t = t_type v"
  shows "\<exists>s'. SubstAddBinding s b v t = Some (length (pstack_list s), s', b(v \<mapsto> t)) \<and>
           trail b (pstack_list s) (b(v \<mapsto> t)) s' \<and> pstack_list s' = pstack_list s @ [v]"
proof -
  obtain s' where s': "push s v = Some s'" "pstack_ok s'" "pstack_list s' = pstack_list s @ [v]"
    using push_ok [OF assms(1)] by blast
  have "t_type v \<noteq> 0" using assms(4) by (cases v) simp
  then show ?thesis
    using s' assms by (auto simp: SubstAddBinding_def PStackPushP_def PStackGetSP_def trail_def)
qed

lemma trail_add:
  assumes "trail b0 tr b s" and "TermIsFreeVar v" and "b v = None" and "wf_term sg v"
    and "t_type t = t_type v"
  shows "\<exists>n s'. SubstAddBinding s b v t = Some (n, s', b(v \<mapsto> t)) \<and> trail b0 tr (b(v \<mapsto> t)) s' \<and>
           pstack_list s' = pstack_list s @ [v]"
  using SubstAddBinding_ok [of s v b sg t] trail_ok [OF assms(1)] assms(2-5) trail_trans [OF assms(1)]
  by blast

lemma SubstBacktrackSingle_ok:
  assumes "pstack_ok s" and "pstack_list s = xs @ [v]" and "TermIsFreeVar v"
  shows "\<exists>s'. SubstBacktrackSingle s b = Some (True, s', b(v := None)) \<and> pstack_ok s' \<and> pstack_list s' = xs"
  using PStackPop_ok [OF assms(1,2)] assms by (auto simp: SubstBacktrackSingle_def PStackEmpty_iff)

lemma backtrack_loop_ok:
  assumes "pstack_ok s" and "pstack_list s = tr @ new" and "\<forall>v \<in> set new. TermIsFreeVar v"
  shows "\<exists>s'. backtrack_loop (length tr) s b n =
             Some (n + length new, s', \<lambda>v. if v \<in> set new then None else b v) \<and>
           pstack_ok s' \<and> pstack_list s' = tr"
  using assms
proof (induction new arbitrary: s b n rule: rev_induct)
  case Nil
  then have "PStackGetSP s = length tr"
    using length_pstack_list [OF Nil(1)] by (simp add: PStackGetSP_def)
  then show ?case using Nil by (subst backtrack_loop.simps) auto
next
  case (snoc v new)
  have "pstack_list s = (tr @ new) @ [v]" using snoc.prems by simp
  then obtain s1 where s1: "SubstBacktrackSingle s b = Some (True, s1, b(v := None))" "pstack_ok s1"
    "pstack_list s1 = tr @ new"
    using SubstBacktrackSingle_ok [OF snoc.prems(1)] snoc.prems(3) by fastforce
  have "PStackGetSP s > length tr"
    using length_pstack_list [OF snoc.prems(1)] snoc.prems(2) by (simp add: PStackGetSP_def)
  moreover have "(\<lambda>w. if w \<in> set new then None else (b(v := None)) w) =
      (\<lambda>w. if w \<in> set (new @ [v]) then None else b w)" by auto
  ultimately show ?case
    using s1 snoc.IH [OF s1(2,3), of "b(v := None)" "Suc n"] snoc.prems(3)
    by (subst backtrack_loop.simps) (simp del: fun_upd_apply)
qed

lemma trail_backtrack:
  assumes "trail b0 tr b s"
  shows "\<exists>n s'. SubstBacktrackToPos s b (length tr) = Some (n, s', b0) \<and> pstack_ok s' \<and> pstack_list s' = tr"
proof -
  obtain new where new: "pstack_list s = tr @ new" "\<forall>v \<in> set new. TermIsFreeVar v \<and> b0 v = None"
    "\<forall>v. v \<notin> set new \<longrightarrow> b v = b0 v" "pstack_ok s" using assms by (auto simp: trail_def)
  have "(\<lambda>v. if v \<in> set new then None else b v) = b0" using new(2,3) by fastforce
  then show ?thesis
    using backtrack_loop_ok [OF new(4,1), of b 0] new(2) by (auto simp: SubstBacktrackToPos_def)
qed

lemma backtrack_all_ok:
  assumes "pstack_ok s" and "\<forall>v \<in> set (pstack_list s). TermIsFreeVar v"
  shows "\<exists>s'. backtrack_all s b n = Some (n + length (pstack_list s), s',
             \<lambda>v. if v \<in> set (pstack_list s) then None else b v) \<and> pstack_ok s' \<and> pstack_list s' = []"
  using assms
proof (induction "pstack_list s" arbitrary: s b n rule: rev_induct)
  case Nil
  then have "PStackEmpty s" by (simp add: PStackEmpty_iff)
  then show ?case using Nil by (subst backtrack_all.simps) (simp add: SubstBacktrackSingle_def)
next
  case (snoc v xs)
  then obtain s1 where s1: "SubstBacktrackSingle s b = Some (True, s1, b(v := None))" "pstack_ok s1"
    "xs = pstack_list s1"
    using SubstBacktrackSingle_ok [OF snoc.prems(1) snoc.hyps(2) [symmetric]] by (metis in_set_conv_decomp)
  have "(\<lambda>w. if w \<in> set xs then None else (b(v := None)) w) =
      (\<lambda>w. if w \<in> set (pstack_list s) then None else b w)"
    unfolding snoc.hyps(2) [symmetric] by auto
  moreover have "\<forall>v \<in> set (pstack_list s1). TermIsFreeVar v" "length (pstack_list s) = Suc (length xs)"
    using snoc.prems(2) unfolding snoc.hyps(2) [symmetric] s1(3) by auto
  ultimately show ?case
    using s1 snoc.hyps(1) [OF s1(3,2), of "b(v := None)" "Suc n"]
    by (subst backtrack_all.simps) (simp del: fun_upd_apply)
qed

section \<open>Renamings and completion\<close>

lemma TermDeref_once: "b v = Some u \<Longrightarrow> TermIsFreeVar v \<Longrightarrow> TermDeref b v DEREF_ONCE = Some (u, 0)"
  by (simp add: TermDeref_def deref_defs)

lemma renaming_clear_ok:
  assumes "pstack_ok s" and "\<forall>v \<in> set (pstack_list s). TermIsFreeVar v \<and> b v \<noteq> None"
    and "set is \<subseteq> {..<length (pstack_list s)}"
  shows "\<exists>fl'. renaming_clear s b is fl =
           Some (\<forall>i \<in> set is. TermIsFreeVar (the (b (pstack_list s ! i))), fl') \<and>
         ((\<forall>i \<in> set is. TermIsFreeVar (the (b (pstack_list s ! i)))) \<longrightarrow>
            fl' = fl - (\<lambda>i. the (b (pstack_list s ! i))) ` set is)"
  using assms(3)
proof (induction "is" arbitrary: fl)
  case (Cons i "is")
  let ?v = "pstack_list s ! i"
  have i: "i < length (pstack_list s)" using Cons.prems by simp
  then have "?v \<in> set (pstack_list s)" by simp
  then obtain u where u: "b ?v = Some u" "TermIsFreeVar ?v" using assms(2) by blast
  have "PStackElement s i = Some ?v" by (rule PStackElement_ok [OF assms(1) i])
  then show ?case
    using u TermDeref_once [of b ?v u] Cons.IH [of "fl - {u}"] Cons.prems by auto
qed simp

lemma renaming_check_ok:
  assumes "pstack_ok s" and "\<forall>v \<in> set (pstack_list s). TermIsFreeVar v \<and> b v \<noteq> None"
    and "set is \<subseteq> {..<length (pstack_list s)}"
  shows "\<exists>fl'. renaming_check s b is fl =
           Some (distinct (map (\<lambda>i. the (b (pstack_list s ! i))) is) \<and>
                 (\<lambda>i. the (b (pstack_list s ! i))) ` set is \<inter> fl = {}, fl')"
  using assms(3)
proof (induction "is" arbitrary: fl)
  case (Cons i "is")
  let ?v = "pstack_list s ! i"
  have i: "i < length (pstack_list s)" using Cons.prems by simp
  then have "?v \<in> set (pstack_list s)" by simp
  then obtain u where u: "b ?v = Some u" "TermIsFreeVar ?v" using assms(2) by blast
  have el: "PStackElement s i = Some ?v" by (rule PStackElement_ok [OF assms(1) i])
  obtain fl' where "renaming_check s b is (insert u fl) =
      Some (distinct (map (\<lambda>i. the (b (pstack_list s ! i))) is) \<and>
            (\<lambda>i. the (b (pstack_list s ! i))) ` set is \<inter> insert u fl = {}, fl')"
    using Cons.IH [of "insert u fl"] Cons.prems by auto
  then show ?case
    using u el TermDeref_once [of b ?v u] by auto
qed simp

lemma SubstIsRenaming_ok:
  assumes "pstack_ok s" and "\<forall>v \<in> set (pstack_list s). TermIsFreeVar v \<and> b v \<noteq> None"
  shows "map_option fst (SubstIsRenaming s b fl) =
     Some (distinct (map (\<lambda>v. the (b v)) (pstack_list s)) \<and> (\<forall>v \<in> set (pstack_list s). TermIsFreeVar (the (b v))))"
proof -
  let ?xs = "pstack_list s" and ?im = "\<lambda>i. the (b (pstack_list s ! i))"
  have sp: "PStackGetSP s = length ?xs" using assms(1) by (simp add: PStackGetSP_def)
  have all: "(\<forall>i \<in> {0..<length ?xs}. TermIsFreeVar (?im i)) \<longleftrightarrow> (\<forall>v \<in> set ?xs. TermIsFreeVar (the (b v)))"
    by (auto simp: all_set_conv_all_nth)
  have range: "set [0..<length ?xs] \<subseteq> {..<length ?xs}" by auto
  have maps: "map ?im [0..<length ?xs] = map (\<lambda>v. the (b v)) ?xs"
    by (intro nth_equalityI) simp_all
  obtain fl1 where c: "renaming_clear s b [0..<length ?xs] fl = Some (\<forall>v \<in> set ?xs. TermIsFreeVar (the (b v)), fl1)"
    "(\<forall>v \<in> set ?xs. TermIsFreeVar (the (b v))) \<longrightarrow> fl1 = fl - ?im ` {0..<length ?xs}"
    using renaming_clear_ok [OF assms range, of fl] unfolding set_upt all by blast
  obtain fl2 where d: "renaming_check s b [0..<length ?xs] fl1 =
      Some (distinct (map (\<lambda>v. the (b v)) ?xs) \<and> ?im ` {0..<length ?xs} \<inter> fl1 = {}, fl2)"
    using renaming_check_ok [OF assms range, of fl1] unfolding set_upt maps by blast
  show ?thesis using c d by (auto simp: SubstIsRenaming_def sp)
qed

lemma SubstCompleteInstance_ok:
  assumes "trail b0 tr b s" and "wf_term sg t" and "\<forall>v \<in> term_vars t. b v = None \<longrightarrow> t_type d = t_type v"
  shows "\<exists>s' b'. SubstCompleteInstance s b t d = Some (s', b') \<and> trail b0 tr b' s' \<and>
           b' = (\<lambda>v. if v \<in> term_vars t \<and> b v = None then Some d else b v)"
  using assms
proof (induction t arbitrary: s b)
  case (TermCell f p ty as)
  let ?t = "TermCell f p ty as"
  show ?case
  proof (cases "f < 0")
    case True
    then have v: "TermIsFreeVar ?t" "term_vars ?t = {?t}" by simp_all
    show ?thesis
    proof (cases "b ?t")
      case None
      have "t_type d = t_type ?t" using TermCell.prems(3) v(2) None by simp
      then obtain n s' where "SubstAddBinding s b ?t d = Some (n, s', b(?t \<mapsto> d))" "trail b0 tr (b(?t \<mapsto> d)) s'"
        using trail_add [OF TermCell.prems(1) v(1) None TermCell.prems(2), of d] by blast
      moreover have "b(?t \<mapsto> d) = (\<lambda>v. if v \<in> term_vars ?t \<and> b v = None then Some d else b v)"
        unfolding v(2) using None by auto
      ultimately show ?thesis using True None by simp
    next
      case (Some u)
      then have "b = (\<lambda>v. if v \<in> term_vars ?t \<and> b v = None then Some d else b v)"
        unfolding v(2) by (auto simp: fun_eq_iff)
      then show ?thesis using True Some TermCell.prems(1) by simp
    qed
  next
    case False
    let ?bind = "\<lambda>ys v. if v \<in> (\<Union>y \<in> set ys. term_vars y) \<and> b v = None then Some d else b v"
    have "\<exists>st. foldM (\<lambda>st a. SubstCompleteInstance (fst st) (snd st) a d) (s, b) as = Some st \<and>
        (trail b0 tr (snd st) (fst st) \<and> snd st = ?bind as)"
    proof (rule foldM_invariant)
      show "trail b0 tr (snd (s, b)) (fst (s, b)) \<and> snd (s, b) = ?bind []"
        using TermCell.prems(1) by simp
    next
      fix st ys a
      assume a: "set ys \<union> {a} \<subseteq> set as" and st: "trail b0 tr (snd st) (fst st) \<and> snd st = ?bind ys"
      have "wf_term sg a" "\<forall>v \<in> term_vars a. snd st v = None \<longrightarrow> t_type d = t_type v"
        using a TermCell.prems(2,3) False st by (auto split: if_splits)
      then obtain s' b' where "SubstCompleteInstance (fst st) (snd st) a d = Some (s', b')" "trail b0 tr b' s'"
        "b' = (\<lambda>v. if v \<in> term_vars a \<and> snd st v = None then Some d else snd st v)"
        using TermCell.IH [of a "snd st" "fst st"] a st by auto
      moreover have "(\<lambda>v. if v \<in> term_vars a \<and> snd st v = None then Some d else snd st v) = ?bind (ys @ [a])"
        using st by (auto simp: fun_eq_iff)
      ultimately show "\<exists>st'. SubstCompleteInstance (fst st) (snd st) a d = Some st' \<and>
          (trail b0 tr (snd st') (fst st') \<and> snd st' = ?bind (ys @ [a]))" by auto
    qed
    then show ?thesis using False by auto
  qed
qed

section \<open>Properties\<close>

text \<open>Backtracking: after any sequence of bindings, \<open>SubstBacktrackToPos\<close> with an earlier stack
  pointer restores exactly the bindings and the stack of that moment.\<close>

theorem Subst_backtrack_restores:
  assumes "pstack_ok s" and "\<forall>(v, t) \<in> set vts. TermIsFreeVar v \<and> wf_term sg v \<and> b v = None \<and> t_type t = t_type v"
    and "distinct (map fst vts)"
  shows "\<exists>s1 b1 s2. foldM (\<lambda>(s, b) (v, t). map_option snd (SubstAddBinding s b v t)) (s, b) vts = Some (s1, b1) \<and>
           b1 = b ++ map_of (rev vts) \<and> pstack_list s1 = pstack_list s @ map fst vts \<and>
           SubstBacktrackToPos s1 b1 (PStackGetSP s) = Some (length vts, s2, b) \<and> pstack_list s2 = pstack_list s"
proof -
  let ?step = "\<lambda>(s, b) (v, t). map_option snd (SubstAddBinding s b v t)"
  have "\<exists>s1 b1. foldM ?step (s, b) vts = Some (s1, b1) \<and> trail b (pstack_list s) b1 s1 \<and>
      b1 = b ++ map_of (rev vts) \<and> pstack_list s1 = pstack_list s @ map fst vts"
    using assms(2,3)
  proof (induction vts rule: rev_induct)
    case Nil
    then show ?case using trail_refl [OF assms(1)] by simp
  next
    case (snoc vt vts)
    obtain v t where vt: "vt = (v, t)" by (cases vt)
    obtain s1 b1 where s1: "foldM ?step (s, b) vts = Some (s1, b1)" "trail b (pstack_list s) b1 s1"
      "b1 = b ++ map_of (rev vts)" "pstack_list s1 = pstack_list s @ map fst vts"
      using snoc by auto
    have v: "TermIsFreeVar v" "wf_term sg v" "b v = None" "t_type t = t_type v" "v \<notin> fst ` set vts"
      using snoc.prems vt by auto
    then have "b1 v = None" using s1(3) by (auto simp: map_add_None map_of_eq_None_iff)
    then obtain n s2 where "SubstAddBinding s1 b1 v t = Some (n, s2, b1(v \<mapsto> t))"
      "trail b (pstack_list s) (b1(v \<mapsto> t)) s2" "pstack_list s2 = pstack_list s1 @ [v]"
      using trail_add [OF s1(2) v(1) _ v(2,4)] by blast
    then show ?case using s1 vt by (simp add: foldM_snoc del: fun_upd_apply)
  qed
  then obtain s1 b1 where s1: "foldM ?step (s, b) vts = Some (s1, b1)" "trail b (pstack_list s) b1 s1"
    "b1 = b ++ map_of (rev vts)" "pstack_list s1 = pstack_list s @ map fst vts" by blast
  have free: "\<forall>v \<in> set (map fst vts). TermIsFreeVar v" using assms(2) by auto
  obtain s2 where s2: "backtrack_loop (length (pstack_list s)) s1 b1 0 =
      Some (0 + length (map fst vts), s2, \<lambda>v. if v \<in> set (map fst vts) then None else b1 v)"
    "pstack_list s2 = pstack_list s"
    using backtrack_loop_ok [OF trail_ok [OF s1(2)] s1(4) free, of b1 0] by blast
  obtain n s3 where "SubstBacktrackToPos s1 b1 (length (pstack_list s)) = Some (n, s3, b)"
    using trail_backtrack [OF s1(2)] by blast
  moreover have "PStackGetSP s = length (pstack_list s)" using assms(1) by (simp add: PStackGetSP_def)
  ultimately show ?thesis using s1 s2 by (auto simp: SubstBacktrackToPos_def)
qed

theorem Subst_backtrack_restores_witness:
  "\<exists>s1 b1 s2. SubstBacktrackToPos s1 b1 0 = Some (2, s2, \<lambda>_. None) \<and> b1 (sample_var 1) = Some (sample_const 21) \<and>
     pstack_list s1 = [sample_var 1, sample_var 2] \<and> pstack_list s2 = []"
proof -
  let ?vts = "[(sample_var 1, sample_const 21), (sample_var 2, sample_const 23)]"
  have "\<forall>(v, t) \<in> set ?vts. TermIsFreeVar v \<and> wf_term sample_sig v \<and> (\<lambda>_. None :: Term_p option) v = None \<and>
      t_type t = t_type v" "distinct (map fst ?vts)"
    by (simp_all add: sample_defs)
  from Subst_backtrack_restores [OF PStackAlloc_ok this] obtain s1 b1 s2 where
    "b1 = Map.empty ++ map_of (rev ?vts)" "pstack_list s1 = [sample_var 1, sample_var 2]"
    "SubstBacktrackToPos s1 b1 (PStackGetSP (PStackAlloc :: Term_p pstack)) = Some (2, s2, \<lambda>_. None)"
    "pstack_list s2 = []" by auto
  moreover have "PStackGetSP (PStackAlloc :: Term_p pstack) = 0" by (simp add: PStackGetSP_def PStackAlloc_def)
  moreover have "(Map.empty ++ map_of (rev ?vts)) (sample_var 1) = Some (sample_const 21)"
    by (simp add: sample_defs)
  ultimately show ?thesis by metis
qed

text \<open>\<open>SubstIsRenaming\<close> answers whether every bound variable is bound to a variable and no
  two are bound to the same one, whatever the flags of the cells were before.\<close>

theorem SubstIsRenaming_correct:
  assumes "pstack_ok s" and "\<forall>v \<in> set (pstack_list s). TermIsFreeVar v \<and> b v \<noteq> None"
  shows "map_option fst (SubstIsRenaming s b opflag) =
     Some (distinct (map (\<lambda>v. the (b v)) (pstack_list s)) \<and> (\<forall>v \<in> set (pstack_list s). TermIsFreeVar (the (b v))))"
  using assms by (rule SubstIsRenaming_ok)

theorem SubstIsRenaming_correct_witness:
  "\<exists>s b. pstack_list s = [sample_var 1, sample_var 2] \<and>
     b = [sample_var 1 \<mapsto> sample_var 3, sample_var 2 \<mapsto> sample_var 3] \<and>
     map_option fst (SubstIsRenaming s b {sample_var 3}) = Some False"
proof -
  obtain s where s: "pstack_ok s" "pstack_list s = [sample_var 1, sample_var 2]"
    using pst.put_all [OF pst.valid_new, of "[sample_var 1, sample_var 2]"] by (auto simp: pst.items_new)
  let ?b = "[sample_var 1 \<mapsto> sample_var 3, sample_var 2 \<mapsto> sample_var 3]"
  have "map_option fst (SubstIsRenaming s ?b {sample_var 3}) = Some False"
    using SubstIsRenaming_correct [OF s(1), of ?b "{sample_var 3}"] s(2) by (simp add: sample_defs)
  then show ?thesis using s(2) by blast
qed

text \<open>Completing an instance binds every unbound variable of the term to the default term, and
  no other variable, however often a variable occurs.\<close>

theorem SubstCompleteInstance_correct:
  assumes "pstack_ok s" and "wf_term sg t" and "\<forall>v \<in> term_vars t. b v = None \<longrightarrow> t_type d = t_type v"
  shows "\<exists>s' b'. SubstCompleteInstance s b t d = Some (s', b') \<and>
           b' = (\<lambda>v. if v \<in> term_vars t \<and> b v = None then Some d else b v) \<and>
           (\<exists>n s''. SubstBacktrackToPos s' b' (PStackGetSP s) = Some (n, s'', b))"
proof -
  obtain s' b' where r: "SubstCompleteInstance s b t d = Some (s', b')" "trail b (pstack_list s) b' s'"
    "b' = (\<lambda>v. if v \<in> term_vars t \<and> b v = None then Some d else b v)"
    using SubstCompleteInstance_ok [OF trail_refl [OF assms(1)] assms(2,3)] by blast
  have "PStackGetSP s = length (pstack_list s)" using assms(1) by (simp add: PStackGetSP_def)
  then show ?thesis using r trail_backtrack [OF r(2)] by auto
qed

theorem SubstCompleteInstance_correct_witness:
  "\<exists>s' b'. SubstCompleteInstance PStackAlloc (\<lambda>_. None) (sample_f (sample_var 1) (sample_var 1)) (sample_const 21) =
     Some (s', b') \<and> b' (sample_var 1) = Some (sample_const 21)"
  using SubstCompleteInstance_correct [OF PStackAlloc_ok, of sample_sig
      "sample_f (sample_var 1) (sample_var 1)" "\<lambda>_. None" "sample_const 21"]
  by (auto simp: sample_defs)

end
