(* ===== verification/Unification.thy ===== *)
theory Unification
  imports Substs TermEquality PQueues
begin

text \<open>
  The occur check and the unification of two terms (\<open>TERMS/cte_match_mgu_1-1.c\<close>, first-order
  build). \<open>SubstComputeMgu\<close> keeps the pairs still to be unified in a double-ended queue:
  pairs with a variable are buried at the front, so that bindings are delayed.

  The loop invariant \<open>mgu_inv\<close> compares the state with all solutions of the original problem
  at once: a typed substitution solves the problem iff it agrees with the bindings and solves
  the pairs in the queue.
\<close>

section \<open>The code\<close>

partial_function (option) OccurCheck :: "bindings \<Rightarrow> Term_p \<Rightarrow> Term_p \<Rightarrow> bool option" where [code]:
  "OccurCheck b t var =
     do { t \<leftarrow> TermDerefAlways b t;
          if t = var then Some True
          else any_opt (\<lambda>a. OccurCheck b a var) (t_args t) }"

text \<open>The loop over the arguments: the last pair is queued first.\<close>

definition mgu_push ::
  "Term_p IntOrP pqueue \<Rightarrow> Term_p \<Rightarrow> Term_p \<Rightarrow> Term_p IntOrP pqueue option" where
  "mgu_push jobs t1 t2 =
     foldM (\<lambda>jobs i.
       do { a1 \<leftarrow> t_arg t1 i;
            a2 \<leftarrow> t_arg t2 i;
            if TermIsFreeVar a1 \<or> TermIsFreeVar a2
            then do { jobs \<leftarrow> PQueueBuryP jobs a2; PQueueBuryP jobs a1 }
            else do { jobs \<leftarrow> PQueueStoreP jobs a1; PQueueStoreP jobs a2 } })
       jobs (rev [0..<arity t1])"

partial_function (option) mgu_loop ::
  "Term_p IntOrP pqueue \<Rightarrow> Term_p pstack \<Rightarrow> bindings \<Rightarrow> (bool \<times> Term_p pstack \<times> bindings) option" where [code]:
  "mgu_loop jobs subst b =
     (if PQueueEmpty jobs then Some (True, subst, b)
      else do { (t2, jobs) \<leftarrow> PQueueGetLastP jobs;
                t2 \<leftarrow> TermDerefAlways b t2;
                (t1, jobs) \<leftarrow> PQueueGetLastP jobs;
                t1 \<leftarrow> TermDerefAlways b t1;
                let (t1, t2) = (if TermIsFreeVar t2 then (t2, t1) else (t1, t2));
                if TermIsFreeVar t1
                then if t1 \<noteq> t2
                     then do { c_assert (t_type t1 \<noteq> 0);
                               c_assert (t_type t2 \<noteq> 0);
                               clash \<leftarrow> (if t_type t1 \<noteq> t_type t2 then Some True
                                        else OccurCheck b t2 t1);
                               if clash then Some (False, subst, b)
                               else do { (_, subst, b) \<leftarrow> SubstAddBinding subst b t1 t2;
                                         mgu_loop jobs subst b } }
                     else mgu_loop jobs subst b
                else if f_code t1 \<noteq> f_code t2 then Some (False, subst, b)
                else do { c_assert (t_type t1 \<noteq> 0);
                          c_assert (t_type t2 \<noteq> 0);
                          c_assert (t_type t1 = t_type t2);
                          jobs \<leftarrow> mgu_push jobs t1 t2;
                          mgu_loop jobs subst b } })"

definition SubstComputeMgu ::
  "Term_p \<Rightarrow> Term_p \<Rightarrow> Term_p pstack \<Rightarrow> bindings \<Rightarrow> (bool \<times> Term_p pstack \<times> bindings) option" where
  "SubstComputeMgu t1 t2 subst b =
     (if t_predpos t1 \<and> TermIsFreeVar t2 \<or> t_predpos t2 \<and> TermIsFreeVar t1
      then Some (False, subst, b)
      else do { let backtrack = PStackGetSP subst;
                jobs \<leftarrow> PQueueStoreP PQueueAlloc t1;
                jobs \<leftarrow> PQueueStoreP jobs t2;
                (res, subst, b) \<leftarrow> mgu_loop jobs subst b;
                if \<not> res
                then do { (_, subst, b) \<leftarrow> SubstBacktrackToPos subst b backtrack;
                          Some (res, subst, b) }
                else Some (res, subst, b) })"

section \<open>The occur check\<close>

lemma OccurCheck_full:
  assumes "full b t u" and "binds_ok sg b" and "wf_term sg t" and "TermIsFreeVar v" and "b v = None"
  shows "OccurCheck b t v = Some (v \<in> term_vars u)"
  using assms
proof (induction rule: full.induct)
  case (full_unbound w)
  then have "t_args w = []" by (cases w) simp
  then show ?case
    using full_unbound
    by (subst OccurCheck.simps) (auto simp: TermDerefAlways_def deref_always.simps wf_term_var_vars)
next
  case (full_bound w t u)
  then have "TermIsFreeVar t \<or> b t = None" using binds_okD(1) by (cases "b t") blast+
  then have "TermDerefAlways b w = TermDerefAlways b t"
    using full_bound by (simp add: TermDerefAlways_def deref_always.simps [of b w])
  then have "OccurCheck b w v = OccurCheck b t v"
    by (subst OccurCheck.simps) (simp add: OccurCheck.simps [of b t])
  then show ?case using full_bound binds_okD(3) by metis
next
  case (full_fun f as us p ty)
  let ?t = "TermCell f p ty as"
  have bt: "b ?t = None" using full_fun by (intro binds_ok_fun) auto
  have len: "length as = length us" using full_fun.IH by (rule list_all2_lengthD)
  have "OccurCheck b (as ! i) v = Some (v \<in> term_vars (us ! i))" if "i < length us" for i
    using full_fun that len by (auto simp: list_all2_conv_all_nth)
  then have "any_opt (\<lambda>a. OccurCheck b a v) as = Some (\<exists>u \<in> set us. v \<in> term_vars u)"
    using len
  proof (induction as arbitrary: us)
    case (Cons a as)
    then obtain u us' where us: "us = u # us'" by (cases us) auto
    have "OccurCheck b a v = Some (v \<in> term_vars u)" using Cons.prems(1) [of 0] us by simp
    moreover have "any_opt (\<lambda>a. OccurCheck b a v) as = Some (\<exists>u \<in> set us'. v \<in> term_vars u)"
      using Cons.IH [of us'] Cons.prems(1) [of "Suc _"] Cons.prems(2) us by auto
    ultimately show ?case using us by auto
  qed simp
  moreover have "?t \<noteq> v" using full_fun by auto
  ultimately show ?case
    using bt full_fun.hyps by (subst OccurCheck.simps) (simp add: TermDerefAlways_def deref_always.simps)
qed

lemma OccurCheck_sigma:
  assumes "subst_wf sg b" and "wf_term sg t" and "TermIsFreeVar v" and "b v = None"
  shows "OccurCheck b t v = Some (v \<in> term_vars (sigma b t))"
  using OccurCheck_full [OF sigma_full [OF assms(1,2)] _ assms(2-4)] assms(1) by (auto simp: subst_wf_def)

section \<open>Typed substitutions\<close>

definition subst_typed :: "Sig \<Rightarrow> (Term_p \<Rightarrow> Term_p) \<Rightarrow> bool" where
  "subst_typed sg \<theta> \<longleftrightarrow>
     (\<forall>v. TermIsFreeVar v \<and> wf_term sg v \<longrightarrow> wf_term sg (\<theta> v) \<and> t_type (\<theta> v) = t_type v)"

lemma inst_typed:
  "subst_typed sg \<theta> \<Longrightarrow> wf_term sg t \<Longrightarrow> wf_term sg (inst \<theta> t) \<and> t_type (inst \<theta> t) = t_type t"
proof (induction t)
  case (TermCell f p ty as)
  show ?case
  proof (cases "f < 0")
    case True
    then have "TermIsFreeVar (TermCell f p ty as)" by simp
    then show ?thesis using TermCell.prems True unfolding subst_typed_def by simp
  qed (use TermCell in auto)
qed

lemma sigma_typed: "subst_wf sg b \<Longrightarrow> subst_typed sg (sigma b)"
  using sigma_wf by (auto simp: subst_typed_def)

lemma size_inst_occurs:
  "v \<in> term_vars s \<Longrightarrow> size (inst \<theta> v) \<le> size (inst \<theta> s) \<and>
     (\<not> TermIsFreeVar s \<longrightarrow> size (inst \<theta> v) < size (inst \<theta> s))"
proof (induction s)
  case (TermCell f p ty as)
  show ?case
  proof (cases "f < 0")
    case False
    then obtain a where a: "a \<in> set as" "v \<in> term_vars a" using TermCell.prems by auto
    have "size (inst \<theta> v) \<le> size (inst \<theta> a)" using TermCell.IH [OF a] by blast
    also have "\<dots> < Suc (size_list size (map (inst \<theta>) as))"
      using a(1) by (intro le_imp_less_Suc size_list_estimation') auto
    finally show ?thesis using False by simp
  qed (use TermCell.prems in simp)
qed

lemma f_code_inst: "\<not> TermIsFreeVar t \<Longrightarrow> f_code (inst \<theta> t) = f_code t"
  by (cases t) simp

lemma sigma_nonvar:
  assumes "subst_wf sg b" and "wf_term sg t" and "\<not> TermIsFreeVar t"
  shows "sigma b t = TermCell (f_code t) (t_predpos t) (t_type t) (map (sigma b) (t_args t))"
  using sigma_fun [OF assms(1)] assms(2,3) by (cases t) auto

section \<open>The queue of pairs\<close>

definition pair_items :: "(Term_p \<times> Term_p) list \<Rightarrow> Term_p IntOrP list" where
  "pair_items ps = concat (map (\<lambda>(x, y). [p_val x, p_val y]) ps)"

definition jobs_are :: "Term_p IntOrP pqueue \<Rightarrow> (Term_p \<times> Term_p) list \<Rightarrow> bool" where
  "jobs_are jobs ps \<longleftrightarrow> pqueue_ok jobs \<and> pqueue_list jobs = pair_items ps"

lemma pair_items_simps [simp]:
  "pair_items [] = []"
  "pair_items (qs @ [(x, y)]) = pair_items qs @ [p_val x, p_val y]"
  "pair_items ((x, y) # qs) = p_val x # p_val y # pair_items qs"
  by (simp_all add: pair_items_def)

lemma jobs_are_empty: "jobs_are jobs ps \<Longrightarrow> PQueueEmpty jobs \<longleftrightarrow> ps = []"
  by (cases ps) (auto simp: jobs_are_def pqd.empty_law)

lemma jobs_are_take:
  assumes "jobs_are jobs (qs @ [(x, y)])"
  shows "\<exists>j1 j2. PQueueGetLastP jobs = Some (y, j1) \<and> PQueueGetLastP j1 = Some (x, j2) \<and> jobs_are j2 qs"
proof -
  have ok: "pqueue_ok jobs" "pqueue_list jobs = (pair_items qs @ [p_val x]) @ [p_val y]"
    using assms by (simp_all add: jobs_are_def)
  obtain j1 where j1: "PQueueGetLast jobs = Some (p_val y, j1)" "pqueue_ok j1"
    "pqueue_list j1 = pair_items qs @ [p_val x]" using pqd.take_end_law [OF ok] by blast
  obtain j2 where j2: "PQueueGetLast j1 = Some (p_val x, j2)" "pqueue_ok j2"
    "pqueue_list j2 = pair_items qs" using pqd.take_end_law [OF j1(2,3)] by blast
  show ?thesis using j1 j2 by (simp add: PQueueGetLastP_def jobs_are_def)
qed

lemma jobs_are_store:
  assumes "jobs_are jobs ps"
  shows "\<exists>j1 j2. PQueueStoreP jobs x = Some j1 \<and> PQueueStoreP j1 y = Some j2 \<and> jobs_are j2 (ps @ [(x, y)])"
proof -
  obtain j1 where j1: "pqueue_store jobs (p_val x) = Some j1" "pqueue_ok j1"
    "pqueue_list j1 = pair_items ps @ [p_val x]"
    using pqd.end_law [of jobs "p_val x"] assms by (auto simp: jobs_are_def)
  obtain j2 where j2: "pqueue_store j1 (p_val y) = Some j2" "pqueue_ok j2"
    "pqueue_list j2 = pqueue_list j1 @ [p_val y]"
    using pqd.end_law [OF j1(2)] by blast
  show ?thesis using j1 j2 by (simp add: PQueueStoreP_def jobs_are_def)
qed

lemma jobs_are_bury:
  assumes "jobs_are jobs ps"
  shows "\<exists>j1 j2. PQueueBuryP jobs y = Some j1 \<and> PQueueBuryP j1 x = Some j2 \<and> jobs_are j2 ((x, y) # ps)"
proof -
  obtain j1 where j1: "pqueue_bury jobs (p_val y) = Some j1" "pqueue_ok j1"
    "pqueue_list j1 = p_val y # pair_items ps"
    using pqd.front_law [of jobs "p_val y"] assms by (auto simp: jobs_are_def)
  obtain j2 where j2: "pqueue_bury j1 (p_val x) = Some j2" "pqueue_ok j2"
    "pqueue_list j2 = p_val x # pqueue_list j1"
    using pqd.front_law [OF j1(2)] by blast
  show ?thesis using j1 j2 by (simp add: PQueueBuryP_def jobs_are_def)
qed

lemma mgu_push_ok:
  assumes "jobs_are jobs qs" and "arity t1 = arity t2"
  shows "\<exists>jobs' ps. mgu_push jobs t1 t2 = Some jobs' \<and> jobs_are jobs' ps \<and>
           mset ps = mset qs + mset (zip (t_args t1) (t_args t2))"
proof -
  let ?xs = "t_args t1" and ?ys = "t_args t2"
  let ?P = "\<lambda>j is. \<exists>ps. jobs_are j ps \<and> mset ps = mset qs + mset (map (\<lambda>i. (?xs ! i, ?ys ! i)) is)"
  have "\<exists>j. mgu_push jobs t1 t2 = Some j \<and> ?P j (rev [0..<arity t1])"
    unfolding mgu_push_def
  proof (rule foldM_invariant)
    show "?P jobs []" using assms(1) by auto
  next
    fix j ns i
    assume i: "set ns \<union> {i} \<subseteq> set (rev [0..<arity t1])" and "?P j ns"
    then obtain ps where ps: "jobs_are j ps"
      "mset ps = mset qs + mset (map (\<lambda>i. (?xs ! i, ?ys ! i)) ns)" by blast
    have args: "t_arg t1 i = Some (?xs ! i)" "t_arg t2 i = Some (?ys ! i)"
      using i assms(2) by (auto simp: t_arg_def)
    obtain j1 j2 where b: "PQueueBuryP j (?ys ! i) = Some j1" "PQueueBuryP j1 (?xs ! i) = Some j2"
      "jobs_are j2 ((?xs ! i, ?ys ! i) # ps)" using jobs_are_bury [OF ps(1)] by blast
    obtain k1 k2 where s: "PQueueStoreP j (?xs ! i) = Some k1" "PQueueStoreP k1 (?ys ! i) = Some k2"
      "jobs_are k2 (ps @ [(?xs ! i, ?ys ! i)])" using jobs_are_store [OF ps(1)] by blast
    show "\<exists>s'. (do { a1 \<leftarrow> t_arg t1 i; a2 \<leftarrow> t_arg t2 i;
             if TermIsFreeVar a1 \<or> TermIsFreeVar a2
             then do { jobs \<leftarrow> PQueueBuryP j a2; PQueueBuryP jobs a1 }
             else do { jobs \<leftarrow> PQueueStoreP j a1; PQueueStoreP jobs a2 } }) = Some s' \<and> ?P s' (ns @ [i])"
    proof (cases "TermIsFreeVar (?xs ! i) \<or> TermIsFreeVar (?ys ! i)")
      case True
      have "?P j2 (ns @ [i])" using b(3) ps(2) by (intro exI [of _ "(?xs ! i, ?ys ! i) # ps"]) simp
      then show ?thesis using args b True by auto
    next
      case False
      have "?P k2 (ns @ [i])" using s(3) ps(2) by (intro exI [of _ "ps @ [(?xs ! i, ?ys ! i)]"]) simp
      then show ?thesis using args s False by auto
    qed
  qed
  moreover have "map (\<lambda>i. (?xs ! i, ?ys ! i)) [0..<arity t1] = zip ?xs ?ys"
    using assms(2) by (intro nth_equalityI) (auto simp: arity_def)
  then have "mset (map (\<lambda>i. (?xs ! i, ?ys ! i)) (rev [0..<arity t1])) = mset (zip ?xs ?ys)"
    by (metis mset_rev rev_map)
  ultimately show ?thesis by auto
qed

section \<open>The invariant of the loop\<close>

definition solves :: "bindings \<Rightarrow> (Term_p \<Rightarrow> Term_p) \<Rightarrow> (Term_p \<times> Term_p) set \<Rightarrow> bool" where
  "solves b \<theta> E \<longleftrightarrow> (\<forall>(x, y) \<in> E. inst \<theta> (sigma b x) = inst \<theta> (sigma b y))"

definition agrees :: "Sig \<Rightarrow> bindings \<Rightarrow> bindings \<Rightarrow> (Term_p \<Rightarrow> Term_p) \<Rightarrow> bool" where
  "agrees sg b0 b \<theta> \<longleftrightarrow> (\<forall>x. wf_term sg x \<longrightarrow> inst \<theta> (sigma b x) = inst \<theta> (sigma b0 x))"

definition mgu_inv ::
  "Sig \<Rightarrow> bindings \<Rightarrow> (Term_p \<times> Term_p) set \<Rightarrow> bindings \<Rightarrow> (Term_p \<times> Term_p) set \<Rightarrow> bool" where
  "mgu_inv sg b0 E0 b E \<longleftrightarrow> subst_wf sg b0 \<and> subst_wf sg b \<and> b0 \<subseteq>\<^sub>m b \<and>
     (\<forall>(x, y) \<in> E. wf_term sg x \<and> wf_term sg y) \<and>
     (\<forall>\<theta>. subst_typed sg \<theta> \<longrightarrow> (solves b0 \<theta> E0 \<longleftrightarrow> agrees sg b0 b \<theta> \<and> solves b \<theta> E))"

lemma mgu_inv_init:
  "subst_wf sg b \<Longrightarrow> wf_term sg t1 \<Longrightarrow> wf_term sg t2 \<Longrightarrow> mgu_inv sg b {(t1, t2)} b {(t1, t2)}"
  by (simp add: mgu_inv_def agrees_def)

lemma mgu_inv_cong:
  assumes "mgu_inv sg b0 E0 b E" and "\<forall>(x, y) \<in> E'. wf_term sg x \<and> wf_term sg y"
    and "\<And>\<theta>. subst_typed sg \<theta> \<Longrightarrow> solves b \<theta> E' \<longleftrightarrow> solves b \<theta> E"
  shows "mgu_inv sg b0 E0 b E'"
  using assms unfolding mgu_inv_def by blast

text \<open>Dereferencing a pair and swapping it keep the invariant.\<close>

lemma solves_insert: "solves b \<theta> (insert (x, y) E) \<longleftrightarrow> inst \<theta> (sigma b x) = inst \<theta> (sigma b y) \<and> solves b \<theta> E"
  by (simp add: solves_def)

lemma mgu_inv_replace:
  assumes "mgu_inv sg b0 E0 b (insert (x, y) E)" and "wf_term sg x'" and "wf_term sg y'"
    and "sigma b x' = sigma b x \<and> sigma b y' = sigma b y \<or> sigma b x' = sigma b y \<and> sigma b y' = sigma b x"
  shows "mgu_inv sg b0 E0 b (insert (x', y') E)"
proof (rule mgu_inv_cong [OF assms(1)])
  show "\<forall>(x, y) \<in> insert (x', y') E. wf_term sg x \<and> wf_term sg y"
    using assms by (auto simp: mgu_inv_def)
qed (use assms(4) in \<open>auto simp: solves_insert\<close>)

lemma mgu_inv_drop:
  "mgu_inv sg b0 E0 b (insert (x, x) E) \<Longrightarrow> mgu_inv sg b0 E0 b E"
  by (rule mgu_inv_cong [of sg b0 E0 b "insert (x, x) E"]) (auto simp: mgu_inv_def solves_insert)

lemma mgu_inv_unsolvable:
  assumes "mgu_inv sg b0 E0 b (insert (x, y) E)" and "subst_typed sg \<theta>"
    and "inst \<theta> (sigma b x) \<noteq> inst \<theta> (sigma b y)"
  shows "\<not> solves b0 \<theta> E0"
  using assms by (auto simp: mgu_inv_def solves_insert)

lemma map_eq_map_zip:
  "length xs = length ys \<Longrightarrow> map f xs = map g ys \<longleftrightarrow> (\<forall>(x, y) \<in> set (zip xs ys). f x = g y)"
  by (induction xs ys rule: list_induct2) auto

lemma mgu_inv_args:
  assumes "mgu_inv sg b0 E0 b (insert (t1, t2) E)" and "\<not> TermIsFreeVar t1" and "f_code t1 = f_code t2"
    and "E' = set (zip (t_args t1) (t_args t2)) \<union> E"
  shows "mgu_inv sg b0 E0 b E'" and "arity t1 = arity t2" and "t_type t1 = t_type t2"
proof -
  obtain f p ty as where t1: "t1 = TermCell f p ty as" by (cases t1)
  obtain p' ty' as' where t2: "t2 = TermCell f p' ty' as'" using assms(3) t1 by (cases t2) simp
  have wf: "wf_term sg t1" "wf_term sg t2" and b: "subst_wf sg b" and f: "\<not> f < 0"
    using assms t1 by (auto simp: mgu_inv_def)
  have eq: "p' = p" "ty' = ty" "length as = length as'" using wf f by (auto simp: t1 t2)
  then show "arity t1 = arity t2" "t_type t1 = t_type t2" by (simp_all add: t1 t2)
  have iff: "inst \<theta> (sigma b t1) = inst \<theta> (sigma b t2) \<longleftrightarrow> solves b \<theta> (set (zip as as'))" for \<theta>
    using sigma_fun [OF b, of f p ty as] sigma_fun [OF b, of f p ty as'] wf f eq
      map_eq_map_zip [OF eq(3), of "\<lambda>a. inst \<theta> (sigma b a)" "\<lambda>a. inst \<theta> (sigma b a)"]
    by (simp add: t1 t2 solves_def comp_def)
  show "mgu_inv sg b0 E0 b E'"
  proof (rule mgu_inv_cong [OF assms(1)])
    show "\<forall>(x, y) \<in> E'. wf_term sg x \<and> wf_term sg y"
      using assms(1,4) wf f by (auto simp: mgu_inv_def t1 t2 dest: set_zip_leftD set_zip_rightD)
    show "solves b \<theta> E' \<longleftrightarrow> solves b \<theta> (insert (t1, t2) E)" for \<theta>
      unfolding solves_insert iff by (auto simp: solves_def assms(4) t1 t2)
  qed
qed

lemma mgu_inv_bind:
  assumes inv: "mgu_inv sg b0 E0 b (insert (v, t) E)" and v: "TermIsFreeVar v" "b v = None"
    and ty: "t_type v = t_type t" and occ: "v \<notin> term_vars (sigma b t)"
  shows "mgu_inv sg b0 E0 (b(v \<mapsto> t)) E"
proof -
  let ?b = "b(v \<mapsto> t)"
  have wf: "subst_wf sg b" "wf_term sg v" "wf_term sg t" "b0 \<subseteq>\<^sub>m b" "subst_wf sg b0"
    and E: "\<forall>(x, y) \<in> E. wf_term sg x \<and> wf_term sg y"
    using inv by (auto simp: mgu_inv_def)
  have upd: "subst_wf sg ?b"
    "\<And>x. wf_term sg x \<Longrightarrow> sigma ?b x = inst (\<lambda>w. if w = v then sigma b t else w) (sigma b x)"
    using subst_wf_upd [OF wf(1) v(2,1) wf(2,3) ty [symmetric] occ] by blast+
  have sv: "sigma b v = v" using wf(1) v by (meson sigma_unbound subst_wf_def)
  have b0v: "b0 v = None" using wf(4) v(2) by (metis domIff map_le_def)
  then have s0v: "sigma b0 v = v" using wf(5) v by (meson sigma_unbound subst_wf_def)
  have same: "inst \<theta> (sigma ?b x) = inst \<theta> (sigma b x)"
    if "\<theta> v = inst \<theta> (sigma b t)" "wf_term sg x" for \<theta> x
    using that unfolding upd(2) [OF that(2)] inst_comp by (intro inst_cong) (auto dest: term_vars_free)
  have svb: "sigma ?b v = sigma b t" using upd(2) [OF wf(2)] sv v by simp
  have "agrees sg b0 ?b \<theta> \<and> solves ?b \<theta> E \<longleftrightarrow> agrees sg b0 b \<theta> \<and> solves b \<theta> (insert (v, t) E)" for \<theta>
  proof (cases "\<theta> v = inst \<theta> (sigma b t)")
    case True
    have "solves ?b \<theta> E \<longleftrightarrow> solves b \<theta> E"
      unfolding solves_def using E same [OF True] by (auto split: prod.splits; metis)
    then show ?thesis
      using same [OF True] True sv v by (auto simp: agrees_def solves_insert)
  next
    case False
    then have "\<not> agrees sg b0 ?b \<theta>"
      using svb s0v wf(2) v by (auto simp: agrees_def)
    then show ?thesis using False sv v by (auto simp: solves_insert)
  qed
  then show ?thesis
    using inv upd(1) E wf b0v unfolding mgu_inv_def
    by (auto simp: map_le_def dom_def)
qed

section \<open>The loop terminates\<close>

text \<open>
  Binding a variable removes it from the instantiated pairs; any other step keeps their
  variables and makes them smaller.
\<close>

definition mgu_vars :: "bindings \<Rightarrow> (Term_p \<times> Term_p) set \<Rightarrow> Term_p set" where
  "mgu_vars b E = (\<Union>(x, y) \<in> E. term_vars (sigma b x) \<union> term_vars (sigma b y))"

definition mgu_size :: "bindings \<Rightarrow> (Term_p \<times> Term_p) list \<Rightarrow> nat" where
  "mgu_size b ps = sum_list (map (\<lambda>(x, y). size (sigma b x) + size (sigma b y)) ps)"

definition mgu_rank :: "bindings \<Rightarrow> (Term_p \<times> Term_p) list \<Rightarrow> nat \<times> nat" where
  "mgu_rank b ps = (card (mgu_vars b (set ps)), mgu_size b ps)"

lemma finite_mgu_vars [simp]: "finite E \<Longrightarrow> finite (mgu_vars b E)"
  by (auto simp: mgu_vars_def)

lemma mgu_size_mset: "mset ps = mset qs \<Longrightarrow> mgu_size b ps = mgu_size b qs"
  by (simp add: mgu_size_def flip: sum_mset_sum_list)

lemma mgu_rank_less:
  assumes "mgu_vars b' (set qs) \<subseteq> mgu_vars b (set ps)"
    and "mgu_vars b' (set qs) \<noteq> mgu_vars b (set ps) \<or> mgu_size b' qs < mgu_size b ps"
  shows "(mgu_rank b' qs, mgu_rank b ps) \<in> less_than <*lex*> less_than"
proof (cases "mgu_vars b' (set qs) = mgu_vars b (set ps)")
  case False
  then have "card (mgu_vars b' (set qs)) < card (mgu_vars b (set ps))"
    using assms(1) by (intro psubset_card_mono) auto
  then show ?thesis by (simp add: mgu_rank_def)
qed (use assms(2) in \<open>simp add: mgu_rank_def\<close>)

lemma mgu_rank_drop:
  "0 < size (sigma b x) \<Longrightarrow> (mgu_rank b qs, mgu_rank b (qs @ [(x, y)])) \<in> less_than <*lex*> less_than"
  by (rule mgu_rank_less) (auto simp: mgu_vars_def mgu_size_def)

lemma mgu_rank_bind:
  assumes inv: "mgu_inv sg b0 E0 b (insert (v, t) (set qs))" and v: "TermIsFreeVar v" "b v = None"
    and ty: "t_type v = t_type t" and occ: "v \<notin> term_vars (sigma b t)"
    and xy: "mgu_vars b (insert (v, t) (set qs)) = mgu_vars b (set ps)"
  shows "(mgu_rank (b(v \<mapsto> t)) qs, mgu_rank b ps) \<in> less_than <*lex*> less_than"
proof (rule mgu_rank_less)
  have wf: "subst_wf sg b" "wf_term sg v" "wf_term sg t" "\<forall>(x, y) \<in> set qs. wf_term sg x \<and> wf_term sg y"
    using inv by (auto simp: mgu_inv_def)
  have vars: "term_vars (sigma (b(v \<mapsto> t)) x) \<subseteq> term_vars (sigma b x) \<union> term_vars (sigma b t) - {v}"
    if "wf_term sg x" for x
  proof -
    have "term_vars (if w = v then sigma b t else w) \<subseteq> insert w (term_vars (sigma b t)) - {v}"
      if "w \<in> term_vars (sigma b x)" for w
      using occ wf_term_var_vars [OF term_vars_free [OF that]] by auto
    then show ?thesis
      unfolding subst_wf_upd(2) [OF wf(1) v(2,1) wf(2,3) ty [symmetric] occ that] term_vars_inst
      by blast
  qed
  have "sigma b v = v" using wf(1) v by (meson sigma_unbound subst_wf_def)
  then have in_v: "v \<in> mgu_vars b (set ps)" and in_t: "term_vars (sigma b t) \<subseteq> mgu_vars b (set ps)"
    unfolding xy [symmetric] using v by (auto simp: mgu_vars_def wf_term_var_vars)
  have in_qs: "term_vars (sigma b x) \<union> term_vars (sigma b y) \<subseteq> mgu_vars b (set ps)"
    if "(x, y) \<in> set qs" for x y
    unfolding xy [symmetric] using that by (auto simp: mgu_vars_def)
  have sub: "mgu_vars (b(v \<mapsto> t)) (set qs) \<subseteq> mgu_vars b (set ps) - {v}"
  proof
    fix w
    assume "w \<in> mgu_vars (b(v \<mapsto> t)) (set qs)"
    then obtain x y where xy: "(x, y) \<in> set qs"
      "w \<in> term_vars (sigma (b(v \<mapsto> t)) x) \<union> term_vars (sigma (b(v \<mapsto> t)) y)"
      by (auto simp: mgu_vars_def)
    then have "wf_term sg x" "wf_term sg y" using wf(4) by auto
    then show "w \<in> mgu_vars b (set ps) - {v}"
      using vars [of x] vars [of y] xy(2) in_qs [OF xy(1)] in_t by blast
  qed
  then show "mgu_vars (b(v \<mapsto> t)) (set qs) \<subseteq> mgu_vars b (set ps)" by blast
  show "mgu_vars (b(v \<mapsto> t)) (set qs) \<noteq> mgu_vars b (set ps) \<or> mgu_size (b(v \<mapsto> t)) qs < mgu_size b ps"
    using sub in_v by blast
qed

lemma size_args:
  assumes "subst_wf sg b" and "wf_term sg t" and "\<not> TermIsFreeVar t"
  shows "size (sigma b t) > sum_list (map (\<lambda>a. size (sigma b a)) (t_args t))"
    and "term_vars (sigma b t) = (\<Union>a \<in> set (t_args t). term_vars (sigma b a))"
proof -
  have eq: "sigma b t = TermCell (f_code t) (t_predpos t) (t_type t) (map (sigma b) (t_args t))"
    using sigma_nonvar [OF assms] .
  show "size (sigma b t) > sum_list (map (\<lambda>a. size (sigma b a)) (t_args t))"
    unfolding eq by (simp add: size_list_conv_sum_list comp_def)
  show "term_vars (sigma b t) = (\<Union>a \<in> set (t_args t). term_vars (sigma b a))"
    unfolding eq using assms(3) by (simp add: TermIsFreeVar_def)
qed

lemma sum_list_zip:
  "length xs = length ys \<Longrightarrow>
   sum_list (map (\<lambda>(x, y). f x + f y :: nat) (zip xs ys)) = sum_list (map f xs) + sum_list (map f ys)"
  by (induction xs ys rule: list_induct2) simp_all

lemma mgu_rank_args:
  assumes inv: "mgu_inv sg b0 E0 b (insert (t1, t2) (set qs))" and nv: "\<not> TermIsFreeVar t1" "\<not> TermIsFreeVar t2"
    and ar: "arity t1 = arity t2" and ps': "mset ps' = mset qs + mset (zip (t_args t1) (t_args t2))"
    and xy: "sigma b x = sigma b t1 \<and> sigma b y = sigma b t2"
  shows "(mgu_rank b ps', mgu_rank b (qs @ [(x, y)])) \<in> less_than <*lex*> less_than"
proof (rule mgu_rank_less)
  have b: "subst_wf sg b" and wf: "wf_term sg t1" "wf_term sg t2" using inv by (auto simp: mgu_inv_def)
  have "set ps' = set qs \<union> set (zip (t_args t1) (t_args t2))"
    using arg_cong [OF ps', of set_mset] by simp
  then show "mgu_vars b (set ps') \<subseteq> mgu_vars b (set (qs @ [(x, y)]))"
    using xy size_args(2) [OF b wf(1) nv(1)] size_args(2) [OF b wf(2) nv(2)]
    by (auto simp: mgu_vars_def dest: set_zip_leftD set_zip_rightD)
  have "sum_list (map (\<lambda>(x, y). size (sigma b x) + size (sigma b y)) (zip (t_args t1) (t_args t2))) =
      sum_list (map (\<lambda>a. size (sigma b a)) (t_args t1)) + sum_list (map (\<lambda>a. size (sigma b a)) (t_args t2))"
    using ar by (simp add: sum_list_zip arity_def)
  moreover have "mgu_size b ps' = mgu_size b qs + mgu_size b (zip (t_args t1) (t_args t2))"
    using mgu_size_mset [of ps' "qs @ zip (t_args t1) (t_args t2)"] ps' by (simp add: mgu_size_def)
  ultimately have "mgu_size b ps' < mgu_size b (qs @ [(x, y)])"
    using size_args(1) [OF b wf(1) nv(1)] size_args(1) [OF b wf(2) nv(2)] xy by (simp add: mgu_size_def)
  then show "mgu_vars b (set ps') \<noteq> mgu_vars b (set (qs @ [(x, y)])) \<or>
      mgu_size b ps' < mgu_size b (qs @ [(x, y)])" by blast
qed

section \<open>The loop is correct\<close>

text \<open>What the loop promises: it ends, and its result is right for the original problem.\<close>

definition mgu_post ::
  "Sig \<Rightarrow> bindings \<Rightarrow> Term_p list \<Rightarrow> (Term_p \<times> Term_p) set \<Rightarrow> (bool \<times> Term_p pstack \<times> bindings) option \<Rightarrow> bool" where
  "mgu_post sg b0 tr E0 r \<longleftrightarrow> (\<exists>res s b. r = Some (res, s, b) \<and> trail b0 tr b s \<and>
     (res \<longrightarrow> mgu_inv sg b0 E0 b {}) \<and> (\<not> res \<longrightarrow> (\<forall>\<theta>. subst_typed sg \<theta> \<longrightarrow> \<not> solves b0 \<theta> E0)))"

lemma mgu_post_fail:
  assumes "mgu_inv sg b0 E0 b (insert (x, y) E)" and "trail b0 tr b s"
    and "\<And>\<theta>. subst_typed sg \<theta> \<Longrightarrow> inst \<theta> (sigma b x) \<noteq> inst \<theta> (sigma b y)"
  shows "mgu_post sg b0 tr E0 (Some (False, s, b))"
  using mgu_inv_unsolvable [OF assms(1)] assms(2,3) by (auto simp: mgu_post_def)

lemma mgu_clash_type:
  assumes "subst_wf sg b" and "wf_term sg x" and "wf_term sg y" and "t_type x \<noteq> t_type y"
    and "subst_typed sg \<theta>"
  shows "inst \<theta> (sigma b x) \<noteq> inst \<theta> (sigma b y)"
  using inst_typed [OF assms(5) sigma_wf(1)] sigma_wf(2) assms(1-4) by metis

lemma mgu_clash_occurs:
  assumes "subst_wf sg b" and "wf_term sg t" and "TermIsFreeVar v" and "b v = None" and "b t = None"
    and "v \<noteq> t" and "v \<in> term_vars (sigma b t)"
  shows "inst \<theta> (sigma b v) \<noteq> inst \<theta> (sigma b t)"
proof -
  have ok: "binds_ok sg b" using assms(1) by (simp add: subst_wf_def)
  have nv: "\<not> TermIsFreeVar t"
    using sigma_unbound [OF ok _ assms(5)] assms(6,7) by (auto simp: wf_term_var_vars)
  then have "\<not> TermIsFreeVar (sigma b t)"
    unfolding sigma_nonvar [OF assms(1,2) nv] by (simp add: TermIsFreeVar_def)
  then have "size (inst \<theta> v) < size (inst \<theta> (sigma b t))"
    using size_inst_occurs [OF assms(7)] by blast
  then show ?thesis using sigma_unbound [OF ok assms(3,4)] by auto
qed

lemma mgu_clash_fcode:
  assumes "subst_wf sg b" and "wf_term sg x" and "wf_term sg y" and "\<not> TermIsFreeVar x"
    and "\<not> TermIsFreeVar y" and "f_code x \<noteq> f_code y"
  shows "inst \<theta> (sigma b x) \<noteq> inst \<theta> (sigma b y)"
  using assms by (simp add: sigma_nonvar TermIsFreeVar_def)

lemma mgu_loop_ok:
  assumes "mgu_inv sg b0 E0 b (set ps)" and "jobs_are jobs ps" and "trail b0 tr b s"
  shows "mgu_post sg b0 tr E0 (mgu_loop jobs s b)"
  using assms
proof (induction "mgu_rank b ps" arbitrary: b ps jobs s rule: wf_induct_rule [OF wf_lex_prod [OF wf_less_than wf_less_than]])
  case (1 b ps jobs s)
  show ?case
  proof (cases ps rule: rev_cases)
    case Nil
    then show ?thesis
      using "1.prems" jobs_are_empty [OF "1.prems"(2)]
      by (subst mgu_loop.simps) (auto simp: mgu_post_def)
  next
    case (snoc qs xy)
    obtain x y where xy: "xy = (x, y)" by (cases xy)
    have inv: "mgu_inv sg b0 E0 b (insert (x, y) (set qs))"
      using "1.prems"(1) snoc xy by simp
    have b: "subst_wf sg b" and wf: "wf_term sg x" "wf_term sg y" using inv by (auto simp: mgu_inv_def)
    obtain j1 j2 where take: "PQueueGetLastP jobs = Some (y, j1)" "PQueueGetLastP j1 = Some (x, j2)"
      "jobs_are j2 qs" using jobs_are_take "1.prems"(2) snoc xy by blast
    obtain x' where x': "TermDerefAlways b x = Some x'" "wf_term sg x'" "b x' = None"
      "sigma b x' = sigma b x" using sigma_deref [OF b wf(1)] by blast
    obtain y' where y': "TermDerefAlways b y = Some y'" "wf_term sg y'" "b y' = None"
      "sigma b y' = sigma b y" using sigma_deref [OF b wf(2)] by blast
    define t1 where "t1 = (if TermIsFreeVar y' then y' else x')"
    define t2 where "t2 = (if TermIsFreeVar y' then x' else y')"
    have t: "wf_term sg t1" "wf_term sg t2" "b t1 = None" "b t2 = None"
      "TermIsFreeVar t2 \<Longrightarrow> TermIsFreeVar t1" "t_type t1 \<noteq> 0" "t_type t2 \<noteq> 0"
      using x' y' by (cases x'; cases y'; auto simp: t1_def t2_def)+
    have inv': "mgu_inv sg b0 E0 b (insert (t1, t2) (set qs))"
      by (rule mgu_inv_replace [OF inv]) (auto simp: t1_def t2_def x' y')
    have vars: "mgu_vars b (insert (t1, t2) (set qs)) = mgu_vars b (set ps)"
      using x'(4) y'(4) by (auto simp: snoc xy mgu_vars_def t1_def t2_def)
    have loop: "mgu_loop jobs s b =
        (if TermIsFreeVar t1
         then if t1 \<noteq> t2
              then do { clash \<leftarrow> (if t_type t1 \<noteq> t_type t2 then Some True else OccurCheck b t2 t1);
                        if clash then Some (False, s, b)
                        else do { (_, s, b) \<leftarrow> SubstAddBinding s b t1 t2; mgu_loop j2 s b } }
              else mgu_loop j2 s b
         else if f_code t1 \<noteq> f_code t2 then Some (False, s, b)
         else do { c_assert (t_type t1 = t_type t2);
                   jobs \<leftarrow> mgu_push j2 t1 t2; mgu_loop jobs s b })"
      using jobs_are_empty [OF "1.prems"(2)] snoc take x'(1) y'(1) t(6,7)
      by (subst mgu_loop.simps, cases "TermIsFreeVar y'") (simp_all add: t1_def t2_def cong: if_cong)
    show ?thesis
    proof (cases "TermIsFreeVar t1")
      case var: True
      show ?thesis
      proof (cases "t1 = t2")
        case True
        have "mgu_inv sg b0 E0 b (set qs)" using inv' True mgu_inv_drop by blast
        moreover have "(mgu_rank b qs, mgu_rank b ps) \<in> less_than <*lex*> less_than"
          unfolding snoc xy by (rule mgu_rank_drop) (cases "sigma b x", simp)
        ultimately show ?thesis
          using "1.hyps" take(3) "1.prems"(3) var True unfolding loop by auto
      next
        case neq: False
        have occ: "OccurCheck b t2 t1 = Some (t1 \<in> term_vars (sigma b t2))"
          by (rule OccurCheck_sigma [OF b t(2) var t(3)])
        show ?thesis
        proof (cases "t_type t1 = t_type t2 \<and> t1 \<notin> term_vars (sigma b t2)")
          case True
          obtain n s' where add: "SubstAddBinding s b t1 t2 = Some (n, s', b(t1 \<mapsto> t2))"
            "trail b0 tr (b(t1 \<mapsto> t2)) s'"
            using trail_add [OF "1.prems"(3) var t(3,1)] True by metis
          have "mgu_inv sg b0 E0 (b(t1 \<mapsto> t2)) (set qs)"
            using mgu_inv_bind [OF inv' var t(3)] True by blast
          moreover have "(mgu_rank (b(t1 \<mapsto> t2)) qs, mgu_rank b ps) \<in> less_than <*lex*> less_than"
            using mgu_rank_bind [OF inv' var t(3)] True vars by blast
          ultimately have "mgu_post sg b0 tr E0 (mgu_loop j2 s' (b(t1 \<mapsto> t2)))"
            using "1.hyps" take(3) add(2) by blast
          then show ?thesis using var neq True occ add(1) by (simp add: loop)
        next
          case False
          have "inst \<theta> (sigma b t1) \<noteq> inst \<theta> (sigma b t2)" if "subst_typed sg \<theta>" for \<theta>
            using False mgu_clash_type [OF b t(1,2) _ that] mgu_clash_occurs [OF b t(2) var t(3,4) neq]
            by blast
          then have "mgu_post sg b0 tr E0 (Some (False, s, b))"
            by (rule mgu_post_fail [OF inv' "1.prems"(3)])
          then show ?thesis using var neq False occ by (auto simp: loop)
        qed
      qed
    next
      case nv1: False
      then have nv2: "\<not> TermIsFreeVar t2" using t(5) by blast
      show ?thesis
      proof (cases "f_code t1 = f_code t2")
        case True
        have ar: "arity t1 = arity t2" "t_type t1 = t_type t2"
          using mgu_inv_args(2,3) [OF inv' nv1 True refl] by blast+
        obtain j ps' where push: "mgu_push j2 t1 t2 = Some j" "jobs_are j ps'"
          "mset ps' = mset qs + mset (zip (t_args t1) (t_args t2))"
          using mgu_push_ok [OF take(3) ar(1)] by blast
        have "set ps' = set (zip (t_args t1) (t_args t2)) \<union> set qs"
          using arg_cong [OF push(3), of set_mset] by auto
        then have "mgu_inv sg b0 E0 b (set ps')"
          by (rule mgu_inv_args(1) [OF inv' nv1 True])
        moreover have "t1 = x'" "t2 = y'" using nv1 nv2 by (auto simp: t1_def t2_def split: if_splits)
        then have "(mgu_rank b ps', mgu_rank b ps) \<in> less_than <*lex*> less_than"
          unfolding snoc xy using mgu_rank_args [OF inv' nv1 nv2 ar(1) push(3)] x'(4) y'(4) by simp
        ultimately have "mgu_post sg b0 tr E0 (mgu_loop j s b)"
          using "1.hyps" push(2) "1.prems"(3) by blast
        then show ?thesis using nv1 True ar push(1) by (simp add: loop)
      next
        case False
        have "mgu_post sg b0 tr E0 (Some (False, s, b))"
          by (rule mgu_post_fail [OF inv' "1.prems"(3) mgu_clash_fcode [OF b t(1,2) nv1 nv2 False]])
        then show ?thesis using nv1 False by (simp add: loop)
      qed
    qed
  qed
qed

lemma SubstComputeMgu_post:
  assumes "subst_wf sg b" and "pstack_ok s" and "wf_term sg t1" and "wf_term sg t2"
    and "\<not> (t_predpos t1 \<and> TermIsFreeVar t2 \<or> t_predpos t2 \<and> TermIsFreeVar t1)"
  shows "\<exists>res s' b'. SubstComputeMgu t1 t2 s b = Some (res, s', b') \<and>
     (if res then mgu_inv sg b {(t1, t2)} b' {} \<and> trail b (pstack_list s) b' s'
      else b' = b \<and> pstack_ok s' \<and> pstack_list s' = pstack_list s \<and>
           (\<forall>\<theta>. subst_typed sg \<theta> \<longrightarrow> \<not> solves b \<theta> {(t1, t2)}))"
proof -
  have "jobs_are PQueueAlloc []" by (simp add: jobs_are_def pqd.new_law)
  then obtain j1 j2 where j: "PQueueStoreP PQueueAlloc t1 = Some j1" "PQueueStoreP j1 t2 = Some j2"
    "jobs_are j2 [(t1, t2)]" using jobs_are_store [of PQueueAlloc "[]" t1 t2] by auto
  have "mgu_post sg b (pstack_list s) {(t1, t2)} (mgu_loop j2 s b)"
    using mgu_loop_ok [of sg b "{(t1, t2)}" b "[(t1, t2)]" j2 "pstack_list s" s]
      mgu_inv_init [OF assms(1,3,4)] j(3) trail_refl [OF assms(2)] by simp
  then obtain res s' b' where r: "mgu_loop j2 s b = Some (res, s', b')" "trail b (pstack_list s) b' s'"
    "res \<longrightarrow> mgu_inv sg b {(t1, t2)} b' {}"
    "\<not> res \<longrightarrow> (\<forall>\<theta>. subst_typed sg \<theta> \<longrightarrow> \<not> solves b \<theta> {(t1, t2)})"
    by (auto simp: mgu_post_def)
  have sp: "PStackGetSP s = length (pstack_list s)"
    using assms(2) by (simp add: PStackGetSP_def)
  show ?thesis
  proof (cases res)
    case True
    then show ?thesis using r j assms(5) by (auto simp: SubstComputeMgu_def sp)
  next
    case False
    obtain n s'' where "SubstBacktrackToPos s' b' (length (pstack_list s)) = Some (n, s'', b)"
      "pstack_ok s''" "pstack_list s'' = pstack_list s" using trail_backtrack [OF r(2)] by blast
    then show ?thesis using r j assms(5) False by (auto simp: SubstComputeMgu_def sp)
  qed
qed

lemma mgu_inv_solved:
  assumes "mgu_inv sg b0 {(t1, t2)} b {}" and "wf_term sg t1" and "wf_term sg t2"
  shows "inst (sigma b) (sigma b0 t1) = inst (sigma b) (sigma b0 t2)"
    and "sigma b t1 = sigma b t2" and "subst_typed sg (sigma b)"
proof -
  have b: "subst_wf sg b0" "subst_wf sg b" "b0 \<subseteq>\<^sub>m b" using assms(1) by (auto simp: mgu_inv_def)
  have absorb: "inst (sigma b) (sigma b0 t) = sigma b t" if "wf_term sg t" for t
    by (rule sigma_absorb [OF sigma_full [OF b(1) that] b(1,2,3) that])
  have idem: "inst (sigma b) (sigma b t) = sigma b t" if "wf_term sg t" for t
    by (rule sigma_absorb [OF sigma_full [OF b(2) that] b(2,2) map_le_refl that])
  have "agrees sg b0 b (sigma b)" using absorb idem by (simp add: agrees_def)
  then show sol: "inst (sigma b) (sigma b0 t1) = inst (sigma b) (sigma b0 t2)"
    using assms(1) sigma_typed [OF b(2)] unfolding mgu_inv_def by (auto simp: solves_def)
  show "sigma b t1 = sigma b t2" using sol absorb assms(2,3) by simp
  show "subst_typed sg (sigma b)" by (rule sigma_typed [OF b(2)])
qed

lemma mgu_inv_solution:
  assumes "mgu_inv sg b0 {(t1, t2)} b {}" and "wf_term sg t1" and "wf_term sg t2"
  shows "\<exists>\<theta>. subst_typed sg \<theta> \<and> inst \<theta> (sigma b0 t1) = inst \<theta> (sigma b0 t2)"
  using mgu_inv_solved(1,3) [OF assms] by blast

section \<open>Properties\<close>

text \<open>C3 Unification decides unifiability: it always ends without tripping an assertion, and it answers
  \<open>true\<close> exactly if some substitution that respects the types makes the two (instantiated) terms
  equal, and neither of the two is a variable while the other one is an atom in predicate position.
  The code refuses the latter pair at once, also where a substitution exists that respects the types; the
  types of a clause set without variables for truth values exclude it.\<close>

theorem SubstComputeMgu_decides:
  assumes "subst_wf sg b" and "pstack_ok s" and "wf_term sg t1" and "wf_term sg t2"
  shows "\<exists>res s' b'. SubstComputeMgu t1 t2 s b = Some (res, s', b') \<and>
           res = (\<not> (t_predpos t1 \<and> TermIsFreeVar t2 \<or> t_predpos t2 \<and> TermIsFreeVar t1) \<and>
             (\<exists>\<theta>. subst_typed sg \<theta> \<and> inst \<theta> (sigma b t1) = inst \<theta> (sigma b t2)))"
proof (cases "t_predpos t1 \<and> TermIsFreeVar t2 \<or> t_predpos t2 \<and> TermIsFreeVar t1")
  case True
  then show ?thesis by (intro exI [of _ False]) (simp add: SubstComputeMgu_def)
next
  case ok: False
  obtain res s' b' where r: "SubstComputeMgu t1 t2 s b = Some (res, s', b')"
    "if res then mgu_inv sg b {(t1, t2)} b' {} \<and> trail b (pstack_list s) b' s'
      else b' = b \<and> pstack_ok s' \<and> pstack_list s' = pstack_list s \<and>
           (\<forall>\<theta>. subst_typed sg \<theta> \<longrightarrow> \<not> solves b \<theta> {(t1, t2)})"
    using SubstComputeMgu_post [OF assms ok] by blast
  have "\<exists>\<theta>. subst_typed sg \<theta> \<and> inst \<theta> (sigma b t1) = inst \<theta> (sigma b t2)" if res
    using mgu_inv_solution [of sg b t1 t2 b'] r(2) that assms(3,4) by auto
  then show ?thesis using r ok by (cases res) (auto simp: solves_def)
qed

theorem SubstComputeMgu_decides_witness:
  "\<exists>s' b'. SubstComputeMgu (sample_f (sample_var 1) (sample_const 21)) (sample_f (sample_const 21) (sample_var 2))
     PStackAlloc (\<lambda>_. None) = Some (True, s', b')"
proof -
  let ?t1 = "sample_f (sample_var 1) (sample_const 21)" and ?t2 = "sample_f (sample_const 21) (sample_var 2)"
  let ?\<theta> = "\<lambda>v. if t_type v = 1 then sample_const 21 else v"
  have "subst_typed sample_sig ?\<theta>" by (simp add: subst_typed_def sample_defs)
  moreover have "sigma (\<lambda>_. None) ?t1 = ?t1" "sigma (\<lambda>_. None) ?t2 = ?t2" by code_simp+
  then have "inst ?\<theta> (sigma (\<lambda>_. None) ?t1) = inst ?\<theta> (sigma (\<lambda>_. None) ?t2)" by (simp add: sample_defs)
  ultimately show ?thesis
    using SubstComputeMgu_decides [OF subst_wf_empty [of sample_sig] PStackAlloc_ok, of ?t1 ?t2]
    by (auto simp: sample_defs)
qed

text \<open>C4 A successful unification yields a most general unifier: afterwards the two terms are
  structurally equal, the bindings extend the old ones, respect the types and contain no cycle,
  and every solution of the original problem is an instance of them.\<close>

theorem SubstComputeMgu_mgu:
  assumes "subst_wf sg b" and "pstack_ok s" and "wf_term sg t1" and "wf_term sg t2"
    and "SubstComputeMgu t1 t2 s b = Some (True, s', b')"
  shows "TermStructEqual b' t1 t2 = Some True \<and> subst_wf sg b' \<and> b \<subseteq>\<^sub>m b' \<and>
         (\<forall>\<theta>. subst_typed sg \<theta> \<and> inst \<theta> (sigma b t1) = inst \<theta> (sigma b t2) \<longrightarrow>
              (\<forall>x. wf_term sg x \<longrightarrow> inst \<theta> (sigma b' x) = inst \<theta> (sigma b x)))"
proof -
  have "\<not> (t_predpos t1 \<and> TermIsFreeVar t2 \<or> t_predpos t2 \<and> TermIsFreeVar t1)"
    using assms(5) by (auto simp: SubstComputeMgu_def)
  then have inv: "mgu_inv sg b {(t1, t2)} b' {}"
    using SubstComputeMgu_post [OF assms(1-4)] assms(5) by auto
  then have wf: "subst_wf sg b'" "b \<subseteq>\<^sub>m b'" by (simp_all add: mgu_inv_def)
  have "TermStructEqual b' t1 t2 = Some True"
    using TermStructEqual_sigma [OF wf(1) assms(3,4)] mgu_inv_solved(2) [OF inv assms(3,4)] by simp
  moreover have "agrees sg b b' \<theta>"
    if "subst_typed sg \<theta>" "inst \<theta> (sigma b t1) = inst \<theta> (sigma b t2)" for \<theta>
    using inv that by (auto simp: mgu_inv_def solves_def)
  ultimately show ?thesis using wf by (auto simp: agrees_def)
qed

theorem SubstComputeMgu_mgu_witness:
  "\<exists>s' b'. SubstComputeMgu (sample_g (sample_var 1)) (sample_g (sample_var 2)) PStackAlloc (\<lambda>_. None) =
       Some (True, s', b') \<and> TermStructEqual b' (sample_g (sample_var 1)) (sample_g (sample_var 2)) = Some True"
proof -
  let ?t1 = "sample_g (sample_var 1)" and ?t2 = "sample_g (sample_var 2)"
  let ?r = "SubstComputeMgu ?t1 ?t2 PStackAlloc (\<lambda>_. None)"
  have "map_option fst ?r = Some True" by code_simp
  then obtain s' b' where r: "?r = Some (True, s', b')" by (cases ?r) auto
  have "wf_term sample_sig ?t1" "wf_term sample_sig ?t2" by (simp_all add: sample_defs)
  then show ?thesis
    using SubstComputeMgu_mgu [OF subst_wf_empty PStackAlloc_ok _ _ r] r by blast
qed

text \<open>C5 Unification can be undone: if it fails, bindings and substitution stack are what they
  were before the call; if it succeeds, \<open>SubstBacktrackToPos\<close> with the old stack pointer
  restores them.\<close>

theorem SubstComputeMgu_restores:
  assumes "subst_wf sg b" and "pstack_ok s" and "wf_term sg t1" and "wf_term sg t2"
    and "SubstComputeMgu t1 t2 s b = Some (res, s', b')"
  shows "\<exists>n s''. SubstBacktrackToPos s' b' (PStackGetSP s) = Some (n, s'', b) \<and>
           pstack_ok s'' \<and> pstack_list s'' = pstack_list s \<and> (\<not> res \<longrightarrow> b' = b \<and> n = 0)"
proof -
  have sp: "PStackGetSP s = length (pstack_list s)" using assms(2) by (simp add: PStackGetSP_def)
  have same: "\<exists>n s''. SubstBacktrackToPos s1 b (length (pstack_list s)) = Some (n, s'', b) \<and>
      pstack_ok s'' \<and> pstack_list s'' = pstack_list s \<and> n = 0"
    if "pstack_ok s1" "pstack_list s1 = pstack_list s" for s1
    using backtrack_loop_ok [OF that(1), of "pstack_list s" "[]" b 0] that
    by (auto simp: SubstBacktrackToPos_def)
  show ?thesis
  proof (cases "t_predpos t1 \<and> TermIsFreeVar t2 \<or> t_predpos t2 \<and> TermIsFreeVar t1")
    case True
    then have "res = False" "s' = s" "b' = b" using assms(5) by (auto simp: SubstComputeMgu_def)
    then show ?thesis using same [OF assms(2) refl] sp by auto
  next
    case False
    have post: "if res then mgu_inv sg b {(t1, t2)} b' {} \<and> trail b (pstack_list s) b' s'
      else b' = b \<and> pstack_ok s' \<and> pstack_list s' = pstack_list s \<and>
           (\<forall>\<theta>. subst_typed sg \<theta> \<longrightarrow> \<not> solves b \<theta> {(t1, t2)})"
      using SubstComputeMgu_post [OF assms(1-4) False] assms(5) by auto
    show ?thesis
    proof (cases res)
      case True
      then show ?thesis using trail_backtrack post sp by fastforce
    next
      case False
      then show ?thesis using same [of s'] post sp by auto
    qed
  qed
qed

theorem SubstComputeMgu_restores_witness:
  "\<exists>s' b' n s''. SubstComputeMgu (sample_var 1) (sample_const 21) PStackAlloc (\<lambda>_. None) = Some (True, s', b') \<and>
     SubstBacktrackToPos s' b' 0 = Some (n, s'', \<lambda>_. None)"
proof -
  let ?r = "SubstComputeMgu (sample_var 1) (sample_const 21) PStackAlloc (\<lambda>_. None)"
  have "map_option fst ?r = Some True" by code_simp
  then obtain s' b' where r: "?r = Some (True, s', b')" by (cases ?r) auto
  have "wf_term sample_sig (sample_var 1)" "wf_term sample_sig (sample_const 21)"
    by (simp_all add: sample_defs)
  moreover have "PStackGetSP (PStackAlloc :: Term_p pstack) = 0" by (simp add: PStackGetSP_def PStackAlloc_def)
  ultimately show ?thesis
    using SubstComputeMgu_restores [of sample_sig, OF subst_wf_empty PStackAlloc_ok _ _ r] r by auto
qed

text \<open>The occur check follows all bindings: it answers whether the unbound variable occurs in
  the fully instantiated term.\<close>

theorem OccurCheck_correct:
  assumes "subst_wf sg b" and "wf_term sg t" and "TermIsFreeVar v" and "b v = None"
  shows "OccurCheck b t v = Some (v \<in> term_vars (sigma b t))"
  using assms by (rule OccurCheck_sigma)

theorem OccurCheck_correct_witness:
  "OccurCheck (\<lambda>_. None) (sample_g (sample_var 1)) (sample_var 1) = Some True"
proof -
  have "sigma (\<lambda>_. None) (sample_g (sample_var 1)) = sample_g (sample_var 1)" by code_simp
  then show ?thesis
    using OccurCheck_correct [OF subst_wf_empty, of sample_sig "sample_g (sample_var 1)" "sample_var 1"]
    by (simp add: sample_defs)
qed

end
