(* ===== verification/Matching.thy ===== *)
theory Matching
  imports Unification PLocalStacks
begin

text \<open>
  Matching one term onto another (\<open>SubstComputeMatch\<close> of \<open>TERMS/cte_match_mgu_1-1.c\<close>,
  first-order build). Bindings are compared, not followed: the variables of the matcher are
  bound to subterms of the other term. The running weight of the partly instantiated matcher
  cuts the search short; \<open>match_inv\<close> shows that the cut never loses a match.
\<close>

section \<open>The code\<close>

definition match_push ::
  "Term_p plocalstack \<Rightarrow> Term_p \<Rightarrow> Term_p \<Rightarrow> Term_p plocalstack option" where
  "match_push jobs matcher to_match =
     foldM (\<lambda>jobs i.
       do { a1 \<leftarrow> t_arg matcher i;
            jobs \<leftarrow> PLocalStackPush jobs a1;
            a2 \<leftarrow> t_arg to_match i;
            PLocalStackPush jobs a2 })
       jobs (rev [0..<arity matcher])"

partial_function (option) match_loop ::
  "Term_p plocalstack \<Rightarrow> int \<Rightarrow> int \<Rightarrow> Term_p pstack \<Rightarrow> bindings \<Rightarrow>
   (bool \<times> Term_p pstack \<times> bindings) option" where [code]:
  "match_loop jobs matcher_weight to_match_weight subst b =
     (if PLocalStackEmpty jobs then Some (True, subst, b)
      else do { (to_match, jobs) \<leftarrow> PLocalStackPop jobs;
                (matcher, jobs) \<leftarrow> PLocalStackPop jobs;
                if TermIsFreeVar matcher
                then do { c_assert (t_type matcher \<noteq> 0);
                          c_assert (t_type to_match \<noteq> 0);
                          if t_type matcher \<noteq> t_type to_match then Some (False, subst, b)
                          else do {
                            (clash, subst, b) \<leftarrow>
                              (case b matcher of
                                 Some t \<Rightarrow> Some (t \<noteq> to_match, subst, b)
                               | None \<Rightarrow> do { (_, subst, b) \<leftarrow> SubstAddBinding subst b matcher to_match;
                                             Some (False, subst, b) });
                            let matcher_weight = matcher_weight + TermStandardWeight to_match - DEFAULT_VWEIGHT;
                            if clash \<or> matcher_weight > to_match_weight then Some (False, subst, b)
                            else match_loop jobs matcher_weight to_match_weight subst b } }
                else if f_code matcher \<noteq> f_code to_match then Some (False, subst, b)
                else do { jobs \<leftarrow> PLocalStackEnsureSpace jobs (2 * arity matcher);
                          jobs \<leftarrow> match_push jobs matcher to_match;
                          match_loop jobs matcher_weight to_match_weight subst b } })"

definition SubstComputeMatch ::
  "Term_p \<Rightarrow> Term_p \<Rightarrow> Term_p pstack \<Rightarrow> bindings \<Rightarrow> (bool \<times> Term_p pstack \<times> bindings) option" where
  "SubstComputeMatch matcher to_match subst b =
     (let matcher_weight = TermStandardWeight matcher;
          to_match_weight = TermStandardWeight to_match in
      if matcher_weight > to_match_weight \<or> t_predpos to_match \<and> TermIsFreeVar matcher
      then Some (False, subst, b)
      else do { let backtrack = PStackGetSP subst;
                jobs \<leftarrow> PLocalStackPush PLocalStackInit matcher;
                jobs \<leftarrow> PLocalStackPush jobs to_match;
                (res, subst, b) \<leftarrow> match_loop jobs matcher_weight to_match_weight subst b;
                if \<not> res
                then do { (_, subst, b) \<leftarrow> SubstBacktrackToPos subst b backtrack;
                          Some (res, subst, b) }
                else Some (res, subst, b) })"

section \<open>Weights\<close>

lemma TermStandardWeight_cell:
  "TermStandardWeight (TermCell f p ty as) =
     (if f < 0 then 1 else 2 + sum_list (map TermStandardWeight as))"
  by (simp add: TermStandardWeight_def [abs_def] TermDefaultWeight_def [abs_def]
      DEFAULT_VWEIGHT_def DEFAULT_FWEIGHT_def)

lemma weight_pos: "1 \<le> TermStandardWeight t"
proof (induction t)
  case (TermCell f p ty as)
  have "0 \<le> sum_list (map TermStandardWeight as)"
    using TermCell by (intro sum_list_nonneg) force
  then show ?case by (simp add: TermStandardWeight_cell)
qed

lemma weight_inst: "TermStandardWeight t \<le> TermStandardWeight (inst \<theta> t)"
proof (induction t)
  case (TermCell f p ty as)
  have "sum_list (map TermStandardWeight as) \<le> sum_list (map (\<lambda>a. TermStandardWeight (inst \<theta> a)) as)"
    using TermCell by (intro sum_list_mono) auto
  then show ?case using weight_pos by (simp add: TermStandardWeight_cell comp_def)
qed

section \<open>The invariant\<close>

definition extends :: "(Term_p \<Rightarrow> Term_p) \<Rightarrow> bindings \<Rightarrow> bool" where
  "extends \<theta> b \<longleftrightarrow> (\<forall>v s. b v = Some s \<longrightarrow> \<theta> v = s)"

definition bind_once :: "bindings \<Rightarrow> Term_p \<Rightarrow> Term_p" where
  "bind_once b v = (case b v of None \<Rightarrow> v | Some s \<Rightarrow> s)"

definition job_weights :: "(Term_p \<times> Term_p) list \<Rightarrow> int" where
  "job_weights ps = sum_list (map (\<lambda>(m, t). TermStandardWeight m - TermStandardWeight t) ps)"

definition match_inv ::
  "Sig \<Rightarrow> ((Term_p \<Rightarrow> Term_p) \<Rightarrow> bool) \<Rightarrow> bindings \<Rightarrow> (Term_p \<times> Term_p) list \<Rightarrow> int \<Rightarrow> int \<Rightarrow> bool" where
  "match_inv sg sol b ps mw tw \<longleftrightarrow> binds_ok sg b \<and>
     (\<forall>(m, t) \<in> set ps. wf_term sg m \<and> wf_term sg t) \<and> mw - tw = job_weights ps \<and>
     (\<forall>\<theta>. subst_typed sg \<theta> \<longrightarrow>
        (sol \<theta> \<longleftrightarrow> extends \<theta> b \<and> (\<forall>(m, t) \<in> set ps. inst \<theta> m = t)))"

lemma bind_once_typed: "binds_ok sg b \<Longrightarrow> subst_typed sg (bind_once b)"
  by (auto simp: subst_typed_def bind_once_def split: option.splits dest: binds_okD)

lemma extends_bind_once: "extends (bind_once b) b"
  by (simp add: extends_def bind_once_def)

lemma extends_upd: "b v = None \<Longrightarrow> extends \<theta> (b(v \<mapsto> s)) \<longleftrightarrow> extends \<theta> b \<and> \<theta> v = s"
  by (auto simp: extends_def)

definition match_jobs :: "Term_p plocalstack \<Rightarrow> (Term_p \<times> Term_p) list \<Rightarrow> bool" where
  "match_jobs jobs ps \<longleftrightarrow> pl_ok jobs \<and> pl_list jobs = concat (map (\<lambda>(m, t). [m, t]) ps)"

lemma match_jobs_empty: "match_jobs jobs ps \<Longrightarrow> PLocalStackEmpty jobs \<longleftrightarrow> ps = []"
  by (cases ps) (auto simp: match_jobs_def PLocalStackEmpty_iff)

lemma match_jobs_pop:
  assumes "match_jobs jobs (qs @ [(m, t)])"
  shows "\<exists>j1 j2. PLocalStackPop jobs = Some (t, j1) \<and> PLocalStackPop j1 = Some (m, j2) \<and> match_jobs j2 qs"
proof -
  let ?xs = "concat (map (\<lambda>(m, t). [m, t]) qs)"
  have j: "pl_ok jobs" "pl_list jobs = (?xs @ [m]) @ [t]" using assms by (simp_all add: match_jobs_def)
  obtain j1 where j1: "PLocalStackPop jobs = Some (t, j1)" "pl_ok j1" "pl_list j1 = ?xs @ [m]"
    using PLocalStackPop_ok [OF j] by blast
  obtain j2 where "PLocalStackPop j1 = Some (m, j2)" "pl_ok j2" "pl_list j2 = ?xs"
    using PLocalStackPop_ok [OF j1(2,3)] by blast
  then show ?thesis using j1 by (auto simp: match_jobs_def)
qed

lemma match_push_ok:
  assumes "match_jobs jobs qs" and "pl_room jobs (2 * arity m)" and "arity m = arity t"
  shows "\<exists>j. match_push jobs m t = Some j \<and> match_jobs j (qs @ rev (zip (t_args m) (t_args t)))"
proof -
  let ?arg = "\<lambda>i. (t_args m ! i, t_args t ! i)"
  let ?P = "\<lambda>j is. match_jobs j (qs @ map ?arg is) \<and> pl_room j (2 * (arity m - length is))"
  let ?loop = "foldM (\<lambda>jobs i. do { a1 \<leftarrow> t_arg m i; jobs \<leftarrow> PLocalStackPush jobs a1;
      a2 \<leftarrow> t_arg t i; PLocalStackPush jobs a2 }) jobs"
  have "k \<le> arity m \<Longrightarrow> \<exists>j. ?loop (take k (rev [0..<arity m])) = Some j \<and> ?P j (take k (rev [0..<arity m]))" for k
  proof (induction k)
    case 0
    then show ?case using assms by simp
  next
    case (Suc k)
    then obtain j where j: "?loop (take k (rev [0..<arity m])) = Some j"
      "match_jobs j (qs @ map ?arg (take k (rev [0..<arity m])))" "pl_room j (2 * (arity m - k))"
      by auto
    let ?i = "rev [0..<arity m] ! k"
    have i: "?i < arity m" using Suc.prems by (simp add: rev_nth)
    have next_i: "take (Suc k) (rev [0..<arity m]) = take k (rev [0..<arity m]) @ [?i]"
      using Suc.prems by (simp add: take_Suc_conv_app_nth)
    have "2 * (arity m - k) = Suc (Suc (2 * (arity m - Suc k)))" using Suc.prems by simp
    then obtain j1 where j1: "PLocalStackPush j (t_args m ! ?i) = Some j1" "pl_ok j1"
      "pl_list j1 = pl_list j @ [t_args m ! ?i]" "pl_room j1 (Suc (2 * (arity m - Suc k)))"
      using PLocalStackPush_ok [of j "Suc (2 * (arity m - Suc k))"] j by (auto simp: match_jobs_def)
    obtain j2 where j2: "PLocalStackPush j1 (t_args t ! ?i) = Some j2" "pl_ok j2"
      "pl_list j2 = pl_list j1 @ [t_args t ! ?i]" "pl_room j2 (2 * (arity m - Suc k))"
      using PLocalStackPush_ok [OF j1(2,4)] by blast
    have "t_arg m ?i = Some (t_args m ! ?i)" "t_arg t ?i = Some (t_args t ! ?i)"
      using i assms(3) by (simp_all add: t_arg_def)
    then have "?loop (take (Suc k) (rev [0..<arity m])) = Some j2"
      unfolding next_i foldM_snoc using j(1) j1(1) j2(1) by simp
    moreover have "match_jobs j2 (qs @ map ?arg (take (Suc k) (rev [0..<arity m])))"
      unfolding next_i using j(2) j1(3) j2(2,3) by (simp add: match_jobs_def)
    ultimately show ?case using j2(4) Suc.prems by simp
  qed
  note steps = this [of "arity m", OF order_refl]
  have "take (arity m) (rev [0..<arity m]) = rev [0..<arity m]" by simp
  with steps have "\<exists>j. ?loop (rev [0..<arity m]) = Some j \<and> match_jobs j (qs @ map ?arg (rev [0..<arity m]))"
    by (simp only:) blast
  then obtain j where j: "match_push jobs m t = Some j"
    "match_jobs j (qs @ map ?arg (rev [0..<arity m]))"
    unfolding match_push_def by blast
  have "map ?arg [0..<arity m] = zip (t_args m) (t_args t)"
    using assms(3) by (intro nth_equalityI) (auto simp: arity_def)
  then have "map ?arg (rev [0..<arity m]) = rev (zip (t_args m) (t_args t))" by (metis rev_map)
  then show ?thesis using j by auto
qed

section \<open>The loop is correct\<close>

lemma job_weights_append [simp]: "job_weights (ps @ qs) = job_weights ps + job_weights qs"
  by (simp add: job_weights_def)

lemma job_weights_rev [simp]: "job_weights (rev ps) = job_weights ps"
  unfolding job_weights_def by (metis rev_map sum_list_rev)

lemma job_weights_single [simp]: "job_weights [(m, t)] = TermStandardWeight m - TermStandardWeight t"
  by (simp add: job_weights_def)

lemma job_weights_zip:
  "length xs = length ys \<Longrightarrow> job_weights (zip xs ys) =
     sum_list (map TermStandardWeight xs) - sum_list (map TermStandardWeight ys)"
  by (induction xs ys rule: list_induct2) (simp_all add: job_weights_def)

lemma job_weights_solved:
  assumes "\<forall>(m, t) \<in> set ps. inst \<theta> m = t"
  shows "job_weights ps \<le> 0"
proof -
  have "TermStandardWeight m - TermStandardWeight t \<le> 0" if "(m, t) \<in> set ps" for m t
    using assms that weight_inst [of m \<theta>] by fastforce
  then show ?thesis unfolding job_weights_def by (intro sum_list_nonpos) auto
qed

text \<open>The promise of the loop, as for unification.\<close>

definition match_post ::
  "Sig \<Rightarrow> ((Term_p \<Rightarrow> Term_p) \<Rightarrow> bool) \<Rightarrow> bindings \<Rightarrow> Term_p list \<Rightarrow>
   (bool \<times> Term_p pstack \<times> bindings) option \<Rightarrow> bool" where
  "match_post sg sol b0 tr r \<longleftrightarrow> (\<exists>res s b. r = Some (res, s, b) \<and> trail b0 tr b s \<and>
     (res \<longrightarrow> binds_ok sg b \<and> (\<forall>\<theta>. subst_typed sg \<theta> \<longrightarrow> (sol \<theta> \<longleftrightarrow> extends \<theta> b))) \<and>
     (\<not> res \<longrightarrow> (\<forall>\<theta>. subst_typed sg \<theta> \<longrightarrow> \<not> sol \<theta>)))"

lemma match_post_fail:
  assumes "match_inv sg sol b ps mw tw" and "trail b0 tr b s"
    and "\<And>\<theta>. subst_typed sg \<theta> \<Longrightarrow> extends \<theta> b \<Longrightarrow> \<exists>(m, t) \<in> set ps. inst \<theta> m \<noteq> t"
  shows "match_post sg sol b0 tr (Some (False, s, b))"
proof -
  have "\<not> sol \<theta>" if "subst_typed sg \<theta>" for \<theta>
    using assms(1,3) that by (force simp: match_inv_def)
  then show ?thesis using assms(2) by (auto simp: match_post_def)
qed

text \<open>One step on a variable: the pair is removed, the binding is there afterwards.\<close>

lemma match_inv_var:
  assumes "match_inv sg sol b (qs @ [(v, t)]) mw tw" and "TermIsFreeVar v" and "t_type v = t_type t"
    and "b v = None \<or> b v = Some t"
  shows "match_inv sg sol (b(v \<mapsto> t)) qs (mw + TermStandardWeight t - DEFAULT_VWEIGHT) tw"
proof -
  have wf: "wf_term sg v" "wf_term sg t" and ok: "binds_ok sg b"
    using assms(1) by (auto simp: match_inv_def)
  have w: "TermStandardWeight v = 1" using assms(2) by (cases v) (simp add: TermStandardWeight_cell)
  have ok': "binds_ok sg (b(v \<mapsto> t))"
    unfolding binds_ok_def
  proof (intro allI impI)
    fix w s
    assume "(b(v \<mapsto> t)) w = Some s"
    then show "TermIsFreeVar w \<and> wf_term sg w \<and> wf_term sg s \<and> t_type s = t_type w"
      using binds_okD [OF ok, of w s] wf assms(2,3) by (cases "w = v") simp_all
  qed
  have ext: "extends \<theta> (b(v \<mapsto> t)) \<longleftrightarrow> extends \<theta> b \<and> \<theta> v = t" for \<theta>
  proof (cases "b v")
    case None
    then show ?thesis by (rule extends_upd)
  next
    case (Some t')
    then have "b(v \<mapsto> t) = b" "t' = t" using assms(4) by auto
    then show ?thesis using Some by (auto simp: extends_def)
  qed
  have sols: "(\<forall>(m, t) \<in> set (qs @ [(v, t)]). inst \<theta> m = t) \<longleftrightarrow>
      \<theta> v = t \<and> (\<forall>(m, t) \<in> set qs. inst \<theta> m = t)" for \<theta>
    using assms(2) by auto
  show ?thesis
    using assms(1) w ok' unfolding match_inv_def ext sols
    by (simp add: DEFAULT_VWEIGHT_def)
qed

lemma match_inv_args:
  assumes inv: "match_inv sg sol b (qs @ [(m, t)]) mw tw" and nv: "\<not> TermIsFreeVar m"
    and eq: "f_code m = f_code t"
  shows "match_inv sg sol b (qs @ rev (zip (t_args m) (t_args t))) mw tw" and "arity m = arity t"
proof -
  obtain f p ty as where m: "m = TermCell f p ty as" by (cases m)
  obtain p' ty' as' where t: "t = TermCell f p' ty' as'" using eq m by (cases t) simp
  have f: "\<not> f < 0" using nv m by simp
  have wf: "wf_term sg m" "wf_term sg t" using inv by (auto simp: match_inv_def)
  have same: "p' = p" "ty' = ty" and len: "length as = length as'" using wf f by (auto simp: m t)
  show "arity m = arity t" using len by (simp add: m t)
  have iff: "inst \<theta> m = t \<longleftrightarrow> (\<forall>(x, y) \<in> set (zip as as'). inst \<theta> x = y)" for \<theta>
    using f same map_eq_map_zip [OF len, of "inst \<theta>" "\<lambda>y. y"] by (simp add: m t)
  have "\<forall>(x, y) \<in> set (zip as as'). wf_term sg x \<and> wf_term sg y"
    using wf f by (auto simp: m t dest: set_zip_leftD set_zip_rightD)
  moreover have "job_weights (zip as as') = TermStandardWeight m - TermStandardWeight t"
    using f len by (simp add: m t TermStandardWeight_cell job_weights_zip)
  moreover have "(\<forall>(m, t) \<in> set (qs @ [(m, t)]). inst \<theta> m = t) \<longleftrightarrow>
      (\<forall>(m, t) \<in> set qs \<union> set (zip as as'). inst \<theta> m = t)" for \<theta>
    using iff [of \<theta>] by (simp only: set_append list.set ball_Un ball_simps prod.case) auto
  ultimately show "match_inv sg sol b (qs @ rev (zip (t_args m) (t_args t))) mw tw"
    using inv unfolding match_inv_def
    by (simp only: m t Term_p.sel set_append set_rev job_weights_append job_weights_rev job_weights_single
        ball_Un) simp
qed

lemma match_loop_ok:
  assumes "match_inv sg sol b ps mw tw" and "match_jobs jobs ps" and "trail b0 tr b s"
  shows "match_post sg sol b0 tr (match_loop jobs mw tw s b)"
  using assms
proof (induction "sum_list (map (size \<circ> fst) ps)" arbitrary: b ps mw jobs s rule: less_induct)
  case (less ps b mw jobs s)
  show ?case
  proof (cases ps rule: rev_cases)
    case Nil
    then have "PLocalStackEmpty jobs" using match_jobs_empty [OF less.prems(2)] by simp
    then show ?thesis
      using less.prems Nil by (subst match_loop.simps) (auto simp: match_post_def match_inv_def)
  next
    case (snoc qs mt)
    obtain m t where mt: "mt = (m, t)" by (cases mt)
    have inv: "match_inv sg sol b (qs @ [(m, t)]) mw tw" using less.prems(1) snoc mt by simp
    have wf: "wf_term sg m" "wf_term sg t" and ok: "binds_ok sg b" using inv by (auto simp: match_inv_def)
    then have types: "t_type m \<noteq> 0" "t_type t \<noteq> 0" by (cases m; cases t; simp)+
    obtain j1 j2 where pop: "PLocalStackPop jobs = Some (t, j1)" "PLocalStackPop j1 = Some (m, j2)"
      "match_jobs j2 qs" using match_jobs_pop less.prems(2) snoc mt by blast
    have ne: "\<not> PLocalStackEmpty jobs" using match_jobs_empty [OF less.prems(2)] snoc by simp
    have fail: "match_post sg sol b0 tr (Some (False, s, b))"
      if "\<And>\<theta>. subst_typed sg \<theta> \<Longrightarrow> extends \<theta> b \<Longrightarrow> inst \<theta> m \<noteq> t"
      by (rule match_post_fail [OF inv less.prems(3)]) (use that in auto)
    show ?thesis
    proof (cases "TermIsFreeVar m")
      case var: True
      let ?w = "mw + TermStandardWeight t - DEFAULT_VWEIGHT"
      have smaller: "sum_list (map (size \<circ> fst) qs) < sum_list (map (size \<circ> fst) ps)"
        by (cases m) (simp add: snoc mt)
      have loop: "match_loop jobs mw tw s b =
          (if t_type m \<noteq> t_type t then Some (False, s, b)
           else do { (clash, s, b) \<leftarrow> (case b m of
                         Some t' \<Rightarrow> Some (t' \<noteq> t, s, b)
                       | None \<Rightarrow> do { (_, s, b) \<leftarrow> SubstAddBinding s b m t; Some (False, s, b) });
                     if clash \<or> ?w > tw then Some (False, s, b) else match_loop j2 ?w tw s b })"
        using ne pop types var by (subst match_loop.simps) (simp add: Let_def cong: if_cong)
      show ?thesis
      proof (cases "t_type m = t_type t \<and> (b m = None \<or> b m = Some t)")
        case True
        have inv': "match_inv sg sol (b(m \<mapsto> t)) qs ?w tw"
          using match_inv_var [OF inv var] True by blast
        obtain s' where s': "(case b m of
              Some t' \<Rightarrow> Some (t' \<noteq> t, s, b)
            | None \<Rightarrow> do { (_, s, b) \<leftarrow> SubstAddBinding s b m t; Some (False, s, b) }) =
            Some (False, s', b(m \<mapsto> t))" "trail b0 tr (b(m \<mapsto> t)) s'"
        proof (cases "b m")
          case None
          obtain n s' where "SubstAddBinding s b m t = Some (n, s', b(m \<mapsto> t))" "trail b0 tr (b(m \<mapsto> t)) s'"
            using trail_add [OF less.prems(3) var None wf(1)] True by metis
          then show thesis using that None by simp
        next
          case (Some t')
          then have "b(m \<mapsto> t) = b" using True by auto
          then show thesis using that [of s] less.prems(3) Some True by simp
        qed
        have loop': "match_loop jobs mw tw s b =
            (if ?w > tw then Some (False, s', b(m \<mapsto> t)) else match_loop j2 ?w tw s' (b(m \<mapsto> t)))"
          unfolding loop s'(1) using True by simp
        show ?thesis
        proof (cases "?w > tw")
          case True
          have "match_post sg sol b0 tr (Some (False, s', b(m \<mapsto> t)))"
          proof (rule match_post_fail [OF inv' s'(2)], rule ccontr)
            fix \<theta>
            assume "\<not> (\<exists>(m, t) \<in> set qs. inst \<theta> m \<noteq> t)"
            then have "job_weights qs \<le> 0" by (intro job_weights_solved [of qs \<theta>]) auto
            then show False using True inv' by (simp add: match_inv_def)
          qed
          then show ?thesis using True by (simp add: loop')
        next
          case False
          then show ?thesis using less.hyps [OF smaller inv' pop(3) s'(2)] by (simp add: loop')
        qed
      next
        case False
        have "match_post sg sol b0 tr (Some (False, s, b))"
        proof (rule fail)
          fix \<theta>
          assume \<theta>: "subst_typed sg \<theta>" "extends \<theta> b"
          show "inst \<theta> m \<noteq> t"
          proof
            assume "inst \<theta> m = t"
            then have "t_type t = t_type m" "\<theta> m = t" using inst_typed [OF \<theta>(1) wf(1)] var by auto
            then show False using False \<theta>(2) by (cases "b m") (auto simp: extends_def)
          qed
        qed
        then show ?thesis using False by (cases "b m") (auto simp: loop)
      qed
    next
      case nv: False
      show ?thesis
      proof (cases "f_code m = f_code t")
        case True
        note args = match_inv_args [OF inv nv True]
        obtain j3 where j3: "PLocalStackEnsureSpace j2 (2 * arity m) = Some j3" "pl_ok j3"
          "pl_list j3 = pl_list j2" "pl_room j3 (2 * arity m)"
          using PLocalStackEnsureSpace_ok pop(3) by (metis match_jobs_def)
        obtain j4 where j4: "match_push j3 m t = Some j4"
          "match_jobs j4 (qs @ rev (zip (t_args m) (t_args t)))"
          using match_push_ok [OF _ j3(4) args(2), of qs] j3(2,3) pop(3) by (auto simp: match_jobs_def)
        have "map (size \<circ> fst) (rev (zip (t_args m) (t_args t))) = rev (map size (t_args m))"
          using args(2) by (simp add: arity_def rev_map [symmetric] map_map [symmetric] del: map_map)
        moreover have "sum_list (map size (t_args m)) < size m"
          by (cases m) (simp add: size_list_conv_sum_list)
        ultimately have "sum_list (map (size \<circ> fst) (qs @ rev (zip (t_args m) (t_args t)))) <
            sum_list (map (size \<circ> fst) ps)"
          by (simp add: snoc mt sum_list_rev)
        then have "match_post sg sol b0 tr (match_loop j4 mw tw s b)"
          using less.hyps args(1) j4(2) less.prems(3) by blast
        then show ?thesis using ne pop nv True j3(1) j4(1) by (subst match_loop.simps) simp
      next
        case False
        have "match_post sg sol b0 tr (Some (False, s, b))"
          by (rule fail) (use nv False f_code_inst in fastforce)
        then show ?thesis using ne pop nv False by (subst match_loop.simps) simp
      qed
    qed
  qed
qed

lemma SubstComputeMatch_post:
  assumes "binds_ok sg b" and "pstack_ok s" and "wf_term sg m" and "wf_term sg t"
    and "\<not> (t_predpos t \<and> TermIsFreeVar m)"
  shows "\<exists>res s' b'. SubstComputeMatch m t s b = Some (res, s', b') \<and>
     (if res then binds_ok sg b' \<and> trail b (pstack_list s) b' s' \<and>
          (\<forall>\<theta>. subst_typed sg \<theta> \<longrightarrow> (extends \<theta> b \<and> inst \<theta> m = t \<longleftrightarrow> extends \<theta> b'))
      else b' = b \<and> pstack_ok s' \<and> pstack_list s' = pstack_list s \<and>
          (\<forall>\<theta>. subst_typed sg \<theta> \<longrightarrow> \<not> (extends \<theta> b \<and> inst \<theta> m = t)))"
proof -
  define mw where "mw = TermStandardWeight m"
  define tw where "tw = TermStandardWeight t"
  have heavy: "inst \<theta> m \<noteq> t" if "mw > tw" for \<theta>
    using weight_inst [of m \<theta>] that by (auto simp: mw_def tw_def)
  obtain j1 j2 where j: "PLocalStackPush PLocalStackInit m = Some j1" "PLocalStackPush j1 t = Some j2"
    "match_jobs j2 [(m, t)]"
  proof -
    obtain j1 where j1: "PLocalStackPush PLocalStackInit m = Some j1" "pl_ok j1" "pl_list j1 = [m]"
      "pl_room j1 1" using PLocalStackPush_ok [of PLocalStackInit 1 m] by auto
    obtain j2 where "PLocalStackPush j1 t = Some j2" "pl_ok j2" "pl_list j2 = [m, t]"
      using PLocalStackPush_ok [of j1 0 t] j1 by auto
    then show thesis using that j1 by (auto simp: match_jobs_def)
  qed
  have inv: "match_inv sg (\<lambda>\<theta>. extends \<theta> b \<and> inst \<theta> m = t) b [(m, t)] mw tw"
    using assms by (simp add: match_inv_def mw_def tw_def)
  have "match_post sg (\<lambda>\<theta>. extends \<theta> b \<and> inst \<theta> m = t) b (pstack_list s) (match_loop j2 mw tw s b)"
    by (rule match_loop_ok [OF inv j(3) trail_refl [OF assms(2)]])
  then obtain res s' b' where r: "match_loop j2 mw tw s b = Some (res, s', b')" "trail b (pstack_list s) b' s'"
    "res \<longrightarrow> binds_ok sg b' \<and> (\<forall>\<theta>. subst_typed sg \<theta> \<longrightarrow> (extends \<theta> b \<and> inst \<theta> m = t \<longleftrightarrow> extends \<theta> b'))"
    "\<not> res \<longrightarrow> (\<forall>\<theta>. subst_typed sg \<theta> \<longrightarrow> \<not> (extends \<theta> b \<and> inst \<theta> m = t))"
    unfolding match_post_def by blast
  have sp: "PStackGetSP s = length (pstack_list s)"
    using assms(2) by (simp add: PStackGetSP_def)
  have guard: "(t_predpos t \<and> TermIsFreeVar m) = False" using assms(5) by simp
  have run: "SubstComputeMatch m t s b =
      (if mw > tw then Some (False, s, b)
       else do { (res, s1, b1) \<leftarrow> match_loop j2 mw tw s b;
                 if \<not> res
                 then do { (_, s1, b1) \<leftarrow> SubstBacktrackToPos s1 b1 (length (pstack_list s));
                           Some (res, s1, b1) }
                 else Some (res, s1, b1) })"
    unfolding mw_def tw_def SubstComputeMatch_def Let_def guard sp by (simp add: j(1,2))
  show ?thesis
  proof (cases "mw > tw")
    case True
    then show ?thesis using heavy assms(2) by (auto simp: run)
  next
    case False
    then show ?thesis
    proof (cases res)
      case True
      then show ?thesis using r False by (auto simp: run)
    next
      case no: False
      obtain n s'' where "SubstBacktrackToPos s' b' (length (pstack_list s)) = Some (n, s'', b)"
        "pstack_ok s''" "pstack_list s'' = pstack_list s" using trail_backtrack [OF r(2)] by blast
      then show ?thesis using r False no by (auto simp: run)
    qed
  qed
qed

section \<open>Properties\<close>

text \<open>C6 Matching decides: it ends without tripping an assertion and answers \<open>true\<close> exactly if some
  type-respecting substitution that agrees with the bindings maps the matcher to the other term, and
  the matcher is not a variable that would be bound to an atom in predicate position, which the code
  refuses at once. The weight test never rejects a pair that matches.\<close>

theorem SubstComputeMatch_decides:
  assumes "binds_ok sg b" and "pstack_ok s" and "wf_term sg m" and "wf_term sg t"
  shows "\<exists>res s' b'. SubstComputeMatch m t s b = Some (res, s', b') \<and>
           res = (\<not> (t_predpos t \<and> TermIsFreeVar m) \<and> (\<exists>\<theta>. subst_typed sg \<theta> \<and> extends \<theta> b \<and> inst \<theta> m = t))"
proof (cases "t_predpos t \<and> TermIsFreeVar m")
  case True
  then show ?thesis by (intro exI [of _ False]) (simp add: SubstComputeMatch_def Let_def)
next
  case ok: False
  obtain res s' b' where r: "SubstComputeMatch m t s b = Some (res, s', b')"
    "if res then binds_ok sg b' \<and> trail b (pstack_list s) b' s' \<and>
          (\<forall>\<theta>. subst_typed sg \<theta> \<longrightarrow> (extends \<theta> b \<and> inst \<theta> m = t \<longleftrightarrow> extends \<theta> b'))
      else b' = b \<and> pstack_ok s' \<and> pstack_list s' = pstack_list s \<and>
          (\<forall>\<theta>. subst_typed sg \<theta> \<longrightarrow> \<not> (extends \<theta> b \<and> inst \<theta> m = t))"
    using SubstComputeMatch_post [OF assms ok] by blast
  then show ?thesis
    using ok bind_once_typed [of sg b'] extends_bind_once [of b'] by (cases res) auto
qed

theorem SubstComputeMatch_decides_witness:
  "\<exists>s' b'. SubstComputeMatch (sample_f (sample_var 1) (sample_var 1)) (sample_f (sample_const 21) (sample_var 2))
     PStackAlloc (\<lambda>_. None) = Some (False, s', b')"
proof -
  have "\<not> (\<exists>\<theta>. subst_typed sample_sig \<theta> \<and> extends \<theta> (\<lambda>_. None) \<and>
      inst \<theta> (sample_f (sample_var 1) (sample_var 1)) = sample_f (sample_const 21) (sample_var 2))"
    by (auto simp: sample_defs)
  then show ?thesis
    using SubstComputeMatch_decides [of sample_sig "\<lambda>_. None" PStackAlloc
        "sample_f (sample_var 1) (sample_var 1)" "sample_f (sample_const 21) (sample_var 2)"]
    by (auto simp: binds_ok_def sample_defs)
qed

text \<open>C7 A successful match binds exactly what has to be bound: applying the new bindings once to
  the matcher gives the other term, the old bindings are kept, and every substitution that
  matches (and agrees with the old bindings) agrees with the new ones. Undoing the bindings
  down to the old stack pointer restores the bindings and the stack.\<close>

theorem SubstComputeMatch_least:
  assumes "binds_ok sg b" and "pstack_ok s" and "wf_term sg m" and "wf_term sg t"
    and "SubstComputeMatch m t s b = Some (True, s', b')"
  shows "inst (bind_once b') m = t \<and> b \<subseteq>\<^sub>m b' \<and>
         (\<forall>\<theta>. subst_typed sg \<theta> \<and> extends \<theta> b \<and> inst \<theta> m = t \<longrightarrow> extends \<theta> b') \<and>
         (\<exists>n s''. SubstBacktrackToPos s' b' (PStackGetSP s) = Some (n, s'', b) \<and>
            pstack_list s'' = pstack_list s)"
proof -
  have "\<not> (t_predpos t \<and> TermIsFreeVar m)" using assms(5) by (auto simp: SubstComputeMatch_def Let_def)
  then have post: "binds_ok sg b'" "trail b (pstack_list s) b' s'"
    "\<forall>\<theta>. subst_typed sg \<theta> \<longrightarrow> (extends \<theta> b \<and> inst \<theta> m = t \<longleftrightarrow> extends \<theta> b')"
    using SubstComputeMatch_post [OF assms(1-4)] assms(5) by auto
  have "PStackGetSP s = length (pstack_list s)" using assms(2) by (simp add: PStackGetSP_def)
  then show ?thesis
    using post trail_le [OF post(2)] trail_backtrack [OF post(2)] bind_once_typed [OF post(1)]
      extends_bind_once [of b'] by auto
qed

theorem SubstComputeMatch_least_witness:
  "\<exists>s' b'. SubstComputeMatch (sample_f (sample_var 1) (sample_var 1)) (sample_f (sample_const 21) (sample_const 21))
     PStackAlloc (\<lambda>_. None) = Some (True, s', b') \<and>
     inst (bind_once b') (sample_f (sample_var 1) (sample_var 1)) = sample_f (sample_const 21) (sample_const 21)"
proof -
  let ?m = "sample_f (sample_var 1) (sample_var 1)" and ?t = "sample_f (sample_const 21) (sample_const 21)"
  let ?r = "SubstComputeMatch ?m ?t PStackAlloc (\<lambda>_. None)"
  have "map_option fst ?r = Some True" by code_simp
  then obtain s' b' where r: "?r = Some (True, s', b')" by (cases ?r) auto
  have "wf_term sample_sig ?m" "wf_term sample_sig ?t" "binds_ok sample_sig (\<lambda>_. None)"
    by (simp_all add: sample_defs binds_ok_def)
  then show ?thesis using SubstComputeMatch_least [OF _ PStackAlloc_ok _ _ r] r by blast
qed

end
