(* ===== verification/Equations.thy ===== *)
theory Equations
  imports TOrderings Unification Matching
begin

text \<open>
  Equations and literals, \<open>CLAUSES/ccl_eqn.h\<close> and \<open>CLAUSES/ccl_eqn.c\<close>: the literal cell with its
  property bits, the swaps, the orientation, literal subsumption and unification, and the literal
  ordering. Terms are shared, so pointer equality is equality of the terms. A linked list of
  literals is a list; an unused \<open>next\<close> pointer is not a field. \<open>problemType\<close> is \<open>PROBLEM_FO\<close> and
  \<open>SubstMatchComplete\<close>, \<open>SubstMguComplete\<close> are the macros of the first-order build.
\<close>

unbundle bit_operations_syntax

section \<open>Literal cells\<close>

definition EPIsPositive :: int where "EPIsPositive = 1"

definition EPIsMaximal :: int where "EPIsMaximal = 2"
definition EPIsStrictlyMaximal :: int where "EPIsStrictlyMaximal = 4"

definition EPIsEquLiteral :: int where "EPIsEquLiteral = 8"

definition EPIsOriented :: int where "EPIsOriented = 16"

definition EPMaxIsUpToDate :: int where "EPMaxIsUpToDate = 32"

definition EPIsSelected :: int where "EPIsSelected = 1024"

definition EPPseudoLit :: int where "EPPseudoLit = 8192"

definition EPIsSplitLit :: int where "EPIsSplitLit = 65636"

lemmas EP_defs = EPIsPositive_def EPIsMaximal_def EPIsStrictlyMaximal_def EPIsEquLiteral_def EPIsOriented_def
  EPMaxIsUpToDate_def EPIsSelected_def EPPseudoLit_def EPIsSplitLit_def

text \<open>
  Of the term bank a literal uses the terms \<open>$true\<close> and \<open>$false\<close>, the signature and the bank of the
  variables, \<open>vars\<close>.
\<close>

record TB =
  true_term :: Term_p
  false_term :: Term_p
  tb_sig :: Sig
  tb_vars :: nat

record Eqn =
  eqn_properties :: int
  eqn_pos :: int
  lterm :: Term_p
  rterm :: Term_p
  eqn_bank :: TB

definition EqnSetProp :: "Eqn \<Rightarrow> int \<Rightarrow> Eqn" where
  "EqnSetProp eqn prop = eqn\<lparr>eqn_properties := eqn_properties eqn OR prop\<rparr>"

definition EqnDelProp :: "Eqn \<Rightarrow> int \<Rightarrow> Eqn" where
  "EqnDelProp eqn prop = eqn\<lparr>eqn_properties := eqn_properties eqn AND NOT prop\<rparr>"

definition EqnFlipProp :: "Eqn \<Rightarrow> int \<Rightarrow> Eqn" where
  "EqnFlipProp eqn prop = eqn\<lparr>eqn_properties := eqn_properties eqn XOR prop\<rparr>"

definition EqnQueryProp :: "Eqn \<Rightarrow> int \<Rightarrow> bool" where
  "EqnQueryProp eqn prop \<longleftrightarrow> eqn_properties eqn AND prop = prop"

definition PropsAreEquiv :: "Eqn \<Rightarrow> Eqn \<Rightarrow> int \<Rightarrow> bool" where
  "PropsAreEquiv obj1 obj2 props \<longleftrightarrow> eqn_properties obj1 AND props = eqn_properties obj2 AND props"

definition EqnIsOriented :: "Eqn \<Rightarrow> bool" where
  "EqnIsOriented eq = EqnQueryProp eq EPIsOriented"

definition EqnIsPositive :: "Eqn \<Rightarrow> bool" where
  "EqnIsPositive eq = EqnQueryProp eq EPIsPositive"

definition EqnIsNegative :: "Eqn \<Rightarrow> bool" where
  "EqnIsNegative eq = (\<not> EqnQueryProp eq EPIsPositive)"

definition EqnIsEquLit :: "Eqn \<Rightarrow> bool option" where
  "EqnIsEquLit eq =
     do { c_assert (EqnQueryProp eq EPIsEquLiteral \<or> rterm eq = true_term (eqn_bank eq));
          c_assert (\<not> EqnQueryProp eq EPIsEquLiteral \<or> rterm eq \<noteq> true_term (eqn_bank eq));
          Some (EqnQueryProp eq EPIsEquLiteral) }"

definition EqnIsSelected :: "Eqn \<Rightarrow> bool" where
  "EqnIsSelected eq = EqnQueryProp eq EPIsSelected"

definition EqnIsMaximal :: "Eqn \<Rightarrow> bool" where
  "EqnIsMaximal eq = EqnQueryProp eq EPIsMaximal"

definition EqnIsStrictlyMaximal :: "Eqn \<Rightarrow> bool" where
  "EqnIsStrictlyMaximal eq = EqnQueryProp eq EPIsStrictlyMaximal"

definition EqnIsTrivial :: "Eqn \<Rightarrow> bool" where
  "EqnIsTrivial eq \<longleftrightarrow> lterm eq = rterm eq"

definition EqnIsPropTrue :: "Eqn \<Rightarrow> bool" where
  "EqnIsPropTrue eq \<longleftrightarrow> lterm eq = rterm eq \<and> EqnIsPositive eq"

definition EqnIsPropFalse :: "Eqn \<Rightarrow> bool" where
  "EqnIsPropFalse eq \<longleftrightarrow> lterm eq = rterm eq \<and> EqnIsNegative eq"

definition EqnStandardWeight :: "Eqn \<Rightarrow> int" where
  "EqnStandardWeight eqn = TermStandardWeight (lterm eqn) + TermStandardWeight (rterm eqn)"

definition EqnStandardDiff :: "Eqn \<Rightarrow> int" where
  "EqnStandardDiff eqn =
     max (TermStandardWeight (lterm eqn)) (TermStandardWeight (rterm eqn)) -
     min (TermStandardWeight (lterm eqn)) (TermStandardWeight (rterm eqn))"

definition EqnSwapSidesSimple :: "Eqn \<Rightarrow> Eqn" where
  "EqnSwapSidesSimple eq = eq\<lparr>lterm := rterm eq, rterm := lterm eq\<rparr>"

definition EqnSwapSides :: "Eqn \<Rightarrow> Eqn" where
  "EqnSwapSides eq = EqnSwapSidesSimple (EqnDelProp (EqnDelProp eq EPIsOriented) EPMaxIsUpToDate)"

section \<open>Comparison for subsumption\<close>

definition EqnSubsumeQOrderCompare :: "Eqn \<Rightarrow> Eqn \<Rightarrow> int option" where
  "EqnSubsumeQOrderCompare l1 l2 =
     (let res = (of_bool (EqnIsPositive l1) - of_bool (EqnIsPositive l2) :: int) in
      if res \<noteq> 0 then Some res
      else do { e1 \<leftarrow> EqnIsEquLit l1;
                e2 \<leftarrow> EqnIsEquLit l2;
                let res = (of_bool e1 - of_bool e2 :: int);
                if res \<noteq> 0 then Some res
                else if \<not> e1 then Some (CMP (f_code (lterm l1)) (f_code (lterm l2)))
                else Some res })"

definition EqnSubsumeInverseCompareRef :: "Eqn \<Rightarrow> Eqn \<Rightarrow> int option" where
  "EqnSubsumeInverseCompareRef l1 l2 =
     do { res \<leftarrow> EqnSubsumeQOrderCompare l2 l1;
          Some (if res = 0 then CMP (EqnStandardWeight l2) (EqnStandardWeight l1) else res) }"

definition EqnSubsumeInverseRefinedCompareRef :: "Eqn \<Rightarrow> Eqn \<Rightarrow> int option" where
  "EqnSubsumeInverseRefinedCompareRef l1 l2 =
     do { res \<leftarrow> EqnSubsumeInverseCompareRef l1 l2;
          Some (if res = 0 then eqn_pos l1 - eqn_pos l2 else res) }"

definition EqnSubsumeCompare :: "Eqn \<Rightarrow> Eqn \<Rightarrow> int option" where
  "EqnSubsumeCompare l1 l2 = EqnSubsumeInverseCompareRef l2 l1"

section \<open>Equality, subsumption and unification of literals\<close>

definition EqnEqualDirected :: "Eqn \<Rightarrow> Eqn \<Rightarrow> bool" where
  "EqnEqualDirected eq1 eq2 \<longleftrightarrow> lterm eq1 = lterm eq2 \<and> rterm eq1 = rterm eq2"

definition EqnEqualDirectedDeref :: "bindings \<Rightarrow> Eqn \<Rightarrow> Eqn \<Rightarrow> nat \<Rightarrow> nat \<Rightarrow> bool option" where
  "EqnEqualDirectedDeref b eq1 eq2 d1 d2 =
     (if d1 = DEREF_NEVER \<and> d2 = DEREF_NEVER then Some (EqnEqualDirected eq1 eq2)
      else do { l \<leftarrow> TermStructEqualDeref b (lterm eq1) (lterm eq2) d1 d2;
                if l then TermStructEqualDeref b (rterm eq1) (rterm eq2) d1 d2 else Some False })"

definition EqnEqualDeref :: "bindings \<Rightarrow> Eqn \<Rightarrow> Eqn \<Rightarrow> nat \<Rightarrow> nat \<Rightarrow> bool option" where
  "EqnEqualDeref b eq1 eq2 d1 d2 =
     do { res \<leftarrow> EqnEqualDirectedDeref b eq1 eq2 d1 d2;
          if res \<or> EqnIsOriented eq1 \<and> EqnIsOriented eq2 then Some res
          else EqnEqualDirectedDeref b eq1 (EqnSwapSidesSimple eq2) d1 d2 }"

text \<open>Two matches, the second only if the first succeeds.\<close>

definition match_both ::
  "Term_p \<Rightarrow> Term_p \<Rightarrow> Term_p \<Rightarrow> Term_p \<Rightarrow> Term_p pstack \<Rightarrow> bindings \<Rightarrow> (bool \<times> Term_p pstack \<times> bindings) option" where
  "match_both l l' r r' subst b =
     do { (res, subst, b) \<leftarrow> SubstComputeMatch l l' subst b;
          if res then SubstComputeMatch r r' subst b else Some (False, subst, b) }"

definition EqnSubsumeDirected ::
  "Eqn \<Rightarrow> Eqn \<Rightarrow> Term_p pstack \<Rightarrow> bindings \<Rightarrow> (bool \<times> Term_p pstack \<times> bindings) option" where
  "EqnSubsumeDirected subsumer subsumed subst b =
     do { let backtrack = PStackGetSP subst;
          (res, subst, b) \<leftarrow> match_both (lterm subsumer) (lterm subsumed) (rterm subsumer) (rterm subsumed) subst b;
          if \<not> res
          then do { (_, subst, b) \<leftarrow> SubstBacktrackToPos subst b backtrack; Some (res, subst, b) }
          else Some (res, subst, b) }"

definition EqnSubsume ::
  "Eqn \<Rightarrow> Eqn \<Rightarrow> Term_p pstack \<Rightarrow> bindings \<Rightarrow> (bool \<times> Term_p pstack \<times> bindings) option" where
  "EqnSubsume subsumer subsumed subst b =
     (if EqnIsOriented subsumer \<and> \<not> EqnIsOriented subsumed then Some (False, subst, b)
      else do { (res, subst, b) \<leftarrow> EqnSubsumeDirected subsumer subsumed subst b;
                if res \<or> EqnIsOriented subsumer then Some (res, subst, b)
                else EqnSubsumeDirected (EqnSwapSidesSimple subsumer) subsumed subst b })"

text \<open>\<open>SubstDelete\<close> undoes all bindings.\<close>

definition EqnSubsumeP :: "Eqn \<Rightarrow> Eqn \<Rightarrow> bindings \<Rightarrow> (bool \<times> bindings) option" where
  "EqnSubsumeP subsumer subsumed b =
     do { (res, subst, b) \<leftarrow> EqnSubsume subsumer subsumed SubstAlloc b;
          (_, _, b) \<leftarrow> SubstBacktrack subst b;
          Some (res, b) }"

definition LiteralSubsumeP :: "Eqn \<Rightarrow> Eqn \<Rightarrow> bindings \<Rightarrow> (bool \<times> bindings) option" where
  "LiteralSubsumeP subsumer subsumed b =
     (if PropsAreEquiv subsumer subsumed EPIsPositive then EqnSubsumeP subsumer subsumed b else Some (False, b))"

text \<open>\<open>EqnUnifyDirected\<close> and \<open>LiteralUnifyOneWay\<close> have the same core.\<close>

definition unify_both ::
  "Eqn \<Rightarrow> Eqn \<Rightarrow> Term_p pstack \<Rightarrow> bindings \<Rightarrow> (bool \<times> Term_p pstack \<times> bindings) option" where
  "unify_both eq1 eq2 subst b =
     do { let backtrack = PStackGetSP subst;
          (res, subst, b) \<leftarrow> SubstComputeMgu (lterm eq1) (lterm eq2) subst b;
          (res, subst, b) \<leftarrow> (if res then SubstComputeMgu (rterm eq1) (rterm eq2) subst b else Some (res, subst, b));
          if \<not> res
          then do { (_, subst, b) \<leftarrow> SubstBacktrackToPos subst b backtrack; Some (res, subst, b) }
          else Some (res, subst, b) }"

definition EqnUnifyDirected ::
  "Eqn \<Rightarrow> Eqn \<Rightarrow> Term_p pstack \<Rightarrow> bindings \<Rightarrow> (bool \<times> Term_p pstack \<times> bindings) option" where
  "EqnUnifyDirected eq1 eq2 subst b =
     do { c_assert (eqn_bank eq1 = eqn_bank eq2); unify_both eq1 eq2 subst b }"

definition EqnUnify ::
  "Eqn \<Rightarrow> Eqn \<Rightarrow> Term_p pstack \<Rightarrow> bindings \<Rightarrow> (bool \<times> Term_p pstack \<times> bindings) option" where
  "EqnUnify eq1 eq2 subst b =
     do { (res, subst, b) \<leftarrow> EqnUnifyDirected eq1 eq2 subst b;
          if res \<or> EqnIsOriented eq1 \<and> EqnIsOriented eq2 then Some (res, subst, b)
          else EqnUnifyDirected (EqnSwapSidesSimple eq1) eq2 subst b }"

definition EqnUnifyP :: "Eqn \<Rightarrow> Eqn \<Rightarrow> bindings \<Rightarrow> (bool \<times> bindings) option" where
  "EqnUnifyP eq1 eq2 b =
     do { (res, subst, b) \<leftarrow> EqnUnify eq1 eq2 SubstAlloc b;
          (_, _, b) \<leftarrow> SubstBacktrack subst b;
          Some (res, b) }"

definition LiteralUnifyOneWay ::
  "Eqn \<Rightarrow> Eqn \<Rightarrow> Term_p pstack \<Rightarrow> bindings \<Rightarrow> bool \<Rightarrow> (bool \<times> Eqn \<times> Term_p pstack \<times> bindings) option" where
  "LiteralUnifyOneWay eq1 eq2 subst b swapped =
     (if EqnIsPositive eq1 \<noteq> EqnIsPositive eq2 then Some (False, eq2, subst, b)
      else do { let eq2 = (if swapped then EqnSwapSides eq2 else eq2);
                (res, subst, b) \<leftarrow> unify_both eq1 eq2 subst b;
                Some (res, if swapped then EqnSwapSides eq2 else eq2, subst, b) })"

section \<open>Orientation and the literal ordering\<close>

definition EqnOrient :: "int \<Rightarrow> OCB \<Rightarrow> bindings \<Rightarrow> Eqn \<Rightarrow> (bool \<times> Eqn \<times> OCB) option" where
  "EqnOrient lim ocb b eq =
     (if EqnQueryProp eq EPMaxIsUpToDate then Some (False, eq, ocb)
      else do { (relation, ocb) \<leftarrow>
                  (if lterm eq = rterm eq then Some (to_equal, ocb)
                   else if lterm eq = true_term (eqn_bank eq) then Some (to_lesser, ocb)
                   else if rterm eq = true_term (eqn_bank eq) then Some (to_greater, ocb)
                   else TOCompare lim ocb b (lterm eq) (rterm eq) DEREF_ALWAYS DEREF_ALWAYS);
                (eq, res) \<leftarrow>
                  (case relation of
                     to_uncomparable \<Rightarrow> Some (EqnDelProp eq EPIsOriented, False)
                   | to_equal \<Rightarrow> Some (EqnDelProp eq EPIsOriented, False)
                   | to_greater \<Rightarrow> Some (EqnSetProp eq EPIsOriented, False)
                   | to_lesser \<Rightarrow> Some (EqnSetProp (EqnSwapSides eq) EPIsOriented, True)
                   | _ \<Rightarrow> None);
                Some (res, EqnSetProp eq EPMaxIsUpToDate, ocb) })"

definition compare_pos_eqns :: "int \<Rightarrow> OCB \<Rightarrow> bindings \<Rightarrow> Eqn \<Rightarrow> Eqn \<Rightarrow> (CompareResult \<times> OCB) option" where
  "compare_pos_eqns lim ocb b eq1 eq2 =
     do { c_assert (PropsAreEquiv eq1 eq2 EPIsPositive);
          (l1l2, ocb) \<leftarrow> TOCompare lim ocb b (lterm eq1) (lterm eq2) DEREF_ALWAYS DEREF_ALWAYS;
          (r1r2, ocb) \<leftarrow> TOCompare lim ocb b (rterm eq1) (rterm eq2) DEREF_ALWAYS DEREF_ALWAYS;
          if l1l2 = to_equal \<and> r1r2 = to_equal then Some (to_equal, ocb)
          else if (l1l2 = to_greater \<or> l1l2 = to_equal) \<and> (r1r2 = to_greater \<or> r1r2 = to_equal)
          then Some (to_greater, ocb)
          else if (l1l2 = to_lesser \<or> l1l2 = to_equal) \<and> (r1r2 = to_lesser \<or> r1r2 = to_equal)
          then Some (to_lesser, ocb)
          else do {
            (l1r2, ocb) \<leftarrow> TOCompare lim ocb b (lterm eq1) (rterm eq2) DEREF_ALWAYS DEREF_ALWAYS;
            if l1l2 = to_greater \<and> l1r2 = to_greater then Some (to_greater, ocb)
            else if l1r2 = to_lesser \<and> r1r2 = to_lesser then Some (to_lesser, ocb)
            else do {
              (r1l2, ocb) \<leftarrow> TOCompare lim ocb b (rterm eq1) (lterm eq2) DEREF_ALWAYS DEREF_ALWAYS;
              if l1r2 = to_equal \<and> r1l2 = to_equal then Some (to_equal, ocb)
              else if (r1l2 = to_greater \<or> r1l2 = to_equal) \<and> (l1r2 = to_greater \<or> l1r2 = to_equal)
              then Some (to_greater, ocb)
              else if r1l2 = to_greater \<and> r1r2 = to_greater then Some (to_greater, ocb)
              else if l1l2 = to_lesser \<and> r1l2 = to_lesser then Some (to_lesser, ocb)
              else if (r1l2 = to_lesser \<or> r1l2 = to_equal) \<and> (l1r2 = to_lesser \<or> l1r2 = to_equal)
              then Some (to_lesser, ocb)
              else Some (to_uncomparable, ocb) } } }"

definition compare_poseqn_negeqn :: "int \<Rightarrow> OCB \<Rightarrow> bindings \<Rightarrow> Eqn \<Rightarrow> Eqn \<Rightarrow> (CompareResult \<times> OCB) option" where
  "compare_poseqn_negeqn lim ocb b eq1 eq2 =
     do { c_assert (EqnIsPositive eq1);
          c_assert (\<not> EqnIsPositive eq2);
          (l1l2, ocb) \<leftarrow> TOCompare lim ocb b (lterm eq1) (lterm eq2) DEREF_ALWAYS DEREF_ALWAYS;
          if EqnIsOriented eq1
          then if l1l2 = to_lesser \<or> l1l2 = to_equal then Some (to_lesser, ocb)
               else do {
                 (l1r2, ocb) \<leftarrow> TOCompare lim ocb b (lterm eq1) (rterm eq2) DEREF_ALWAYS DEREF_ALWAYS;
                 if l1r2 = to_lesser \<or> l1r2 = to_equal then Some (to_lesser, ocb)
                 else if l1l2 = to_greater \<and> l1r2 = to_greater then Some (to_greater, ocb)
                 else Some (to_uncomparable, ocb) }
          else do {
            (l1r2, ocb) \<leftarrow> TOCompare lim ocb b (lterm eq1) (rterm eq2) DEREF_ALWAYS DEREF_ALWAYS;
            if l1l2 = to_greater \<and> l1r2 = to_greater then Some (to_greater, ocb)
            else do {
              (r1l2, ocb) \<leftarrow> TOCompare lim ocb b (rterm eq1) (lterm eq2) DEREF_ALWAYS DEREF_ALWAYS;
              (r1r2, ocb) \<leftarrow> TOCompare lim ocb b (rterm eq1) (rterm eq2) DEREF_ALWAYS DEREF_ALWAYS;
              if r1l2 = to_greater \<and> r1r2 = to_greater then Some (to_greater, ocb)
              else if (l1l2 = to_lesser \<or> l1l2 = to_equal \<or> l1r2 = to_lesser \<or> l1r2 = to_equal) \<and>
                      (r1l2 = to_lesser \<or> r1l2 = to_equal \<or> r1r2 = to_lesser \<or> r1r2 = to_equal)
              then Some (to_lesser, ocb)
              else Some (to_uncomparable, ocb) } } }"

definition EqnCompare :: "int \<Rightarrow> OCB \<Rightarrow> bindings \<Rightarrow> Eqn \<Rightarrow> Eqn \<Rightarrow> (CompareResult \<times> OCB) option" where
  "EqnCompare lim ocb b eq1 eq2 = compare_pos_eqns lim ocb b eq1 eq2"

definition EqnGreater :: "int \<Rightarrow> OCB \<Rightarrow> bindings \<Rightarrow> Eqn \<Rightarrow> Eqn \<Rightarrow> (bool \<times> OCB) option" where
  "EqnGreater lim ocb b eq1 eq2 =
     do { (res, ocb) \<leftarrow> EqnCompare lim ocb b eq1 eq2; Some (res = to_greater, ocb) }"

definition tfo_literal_compare :: "OCB \<Rightarrow> Eqn \<Rightarrow> Eqn \<Rightarrow> CompareResult option" where
  "tfo_literal_compare ocb eq1 eq2 =
     (if lit_cmp ocb = LCTFOEqMax
      then do { e1 \<leftarrow> EqnIsEquLit eq1; e2 \<leftarrow> EqnIsEquLit eq2;
                if e1 \<and> \<not> e2 then Some to_greater
                else if \<not> e1 \<and> e2 then Some to_lesser
                else if \<not> e1 \<and> \<not> TermIsFreeVar (lterm eq1) \<and> \<not> TermIsFreeVar (lterm eq2)
                then OCBFunCompare ocb (f_code (lterm eq1)) (f_code (lterm eq2))
                else Some to_unknown }
      else if lit_cmp ocb = LCTFOEqMin
      then do { e1 \<leftarrow> EqnIsEquLit eq1; e2 \<leftarrow> EqnIsEquLit eq2;
                if e1 \<and> \<not> e2 then Some to_lesser
                else if \<not> e1 \<and> e2 then Some to_greater
                else if \<not> e1 \<and> \<not> TermIsFreeVar (lterm eq1) \<and> \<not> TermIsFreeVar (lterm eq2)
                then OCBFunCompare ocb (f_code (lterm eq1)) (f_code (lterm eq2))
                else Some to_unknown }
      else Some to_unknown)"

definition LiteralCompare :: "int \<Rightarrow> OCB \<Rightarrow> bindings \<Rightarrow> Eqn \<Rightarrow> Eqn \<Rightarrow> (CompareResult \<times> OCB) option" where
  "LiteralCompare lim ocb b eq1 eq2 =
     (if EqnQueryProp eq1 EPPseudoLit \<and> \<not> EqnQueryProp eq2 EPPseudoLit then Some (to_lesser, ocb)
      else if EqnQueryProp eq2 EPPseudoLit \<and> \<not> EqnQueryProp eq1 EPPseudoLit then Some (to_greater, ocb)
      else if \<not> EqnIsSelected eq1 \<and> EqnIsSelected eq2 then Some (to_lesser, ocb)
      else if EqnIsSelected eq1 \<and> \<not> EqnIsSelected eq2 then Some (to_greater, ocb)
      else if EqnIsSelected eq1 \<and> EqnIsSelected eq2 \<and> \<not> PropsAreEquiv eq1 eq2 EPIsPositive
      then Some (to_uncomparable, ocb)
      else if lit_cmp ocb = LCNoCmp then Some (to_uncomparable, ocb)
      else do { res \<leftarrow> tfo_literal_compare ocb eq1 eq2;
                if res = to_greater \<or> res = to_lesser then Some (res, ocb)
                else if PropsAreEquiv eq1 eq2 EPIsPositive then compare_pos_eqns lim ocb b eq1 eq2
                else if EqnIsPositive eq1 then compare_poseqn_negeqn lim ocb b eq1 eq2
                else do { (r, ocb) \<leftarrow> compare_poseqn_negeqn lim ocb b eq2 eq1;
                          r \<leftarrow> POInverseRelation r;
                          Some (r, ocb) } })"

definition LiteralGreater :: "int \<Rightarrow> OCB \<Rightarrow> bindings \<Rightarrow> Eqn \<Rightarrow> Eqn \<Rightarrow> (bool \<times> OCB) option" where
  "LiteralGreater lim ocb b eq1 eq2 =
     do { (res, ocb) \<leftarrow> LiteralCompare lim ocb b eq1 eq2; Some (res = to_greater, ocb) }"

end
