(* ===== verification/LiteralOrder.thy ===== *)
theory LiteralOrder
  imports Equations
begin

text \<open>
  The literal ordering of the superposition calculus: a positive literal \<open>s = t\<close> is the multiset
  \<open>{{s}, {t}}\<close>, a negative one \<open>{{s, t}}\<close>, compared by the twofold multiset extension of the
  term ordering. \<open>LiteralCompare\<close> decides it on the instantiated literals, by at most four
  comparisons of terms.
\<close>

section \<open>Multisets of one and two elements\<close>

locale strict_rel =
  fixes rel :: "'o \<Rightarrow> ('a \<times> 'a) set"
    and valid :: "'o \<Rightarrow> bool"
  assumes rel_trans: "valid oc \<Longrightarrow> trans (rel oc)"
    and rel_irrefl: "valid oc \<Longrightarrow> irrefl (rel oc)"
begin

lemma ms_cancel: "valid oc \<Longrightarrow> (add_mset z X, add_mset z Y) \<in> mult (rel oc) \<longleftrightarrow> (X, Y) \<in> mult (rel oc)"
  by (rule mult_cancel_add_mset [OF rel_trans]) (use rel_irrefl in \<open>simp_all add: irrefl_on_def\<close>)

lemma ms_code: "valid oc \<Longrightarrow> (N, M) \<in> mult (rel oc) \<longleftrightarrow> multp_code (\<lambda>x y. (x, y) \<in> rel oc) N M"
  by (rule multp_code_iff_mult [symmetric, OF _ rel_trans]) (use rel_irrefl in \<open>auto simp: irrefl_on_def\<close>)

lemma not_self: "valid oc \<Longrightarrow> (x, x) \<notin> rel oc"
  using rel_irrefl by (auto simp: irrefl_def)

lemma ms_single: "valid oc \<Longrightarrow> ({#y#}, {#x#}) \<in> mult (rel oc) \<longleftrightarrow> (y, x) \<in> rel oc"
  using not_self by (cases "x = y") (auto simp: ms_code multp_code_def Let_def)

lemma ms_pair_single:
  assumes "valid oc"
  shows "({#y#}, {#a, b#}) \<in> mult (rel oc) \<longleftrightarrow> y = a \<or> y = b \<or> (y, a) \<in> rel oc \<or> (y, b) \<in> rel oc"
proof -
  have eq: "y = a \<or> y = b \<Longrightarrow> ({#y#}, {#a, b#}) \<in> mult (rel oc)"
    using ms_cancel [OF assms, of a "{#}" "{#b#}"] ms_cancel [OF assms, of b "{#}" "{#a#}"]
    by (auto simp: add_mset_commute ms_code [OF assms] multp_code_def Let_def)
  have "y \<noteq> a \<Longrightarrow> y \<noteq> b \<Longrightarrow> ({#y#}, {#a, b#}) \<in> mult (rel oc) \<longleftrightarrow> (y, a) \<in> rel oc \<or> (y, b) \<in> rel oc"
    by (auto simp: ms_code [OF assms] multp_code_def Let_def)
  then show ?thesis using eq by blast
qed

lemma ms_single_pair:
  assumes "valid oc"
  shows "({#c, d#}, {#a#}) \<in> mult (rel oc) \<longleftrightarrow> (c, a) \<in> rel oc \<and> (d, a) \<in> rel oc"
proof -
  have "\<not> ({#c, d#}, {#a#}) \<in> mult (rel oc)" if "c = a \<or> d = a"
    using that ms_cancel [OF assms, of a "{#d#}" "{#}"] ms_cancel [OF assms, of a "{#c#}" "{#}"]
    by (auto simp: add_mset_commute ms_code [OF assms] multp_code_def Let_def)
  moreover have "c \<noteq> a \<Longrightarrow> d \<noteq> a \<Longrightarrow>
      ({#c, d#}, {#a#}) \<in> mult (rel oc) \<longleftrightarrow> (c, a) \<in> rel oc \<and> (d, a) \<in> rel oc"
    by (auto simp: ms_code [OF assms] multp_code_def Let_def)
  ultimately show ?thesis using not_self [OF assms] by blast
qed

text \<open>The condition on two-element multisets that the code tests.\<close>

definition pair_gt :: "'o \<Rightarrow> 'a \<Rightarrow> 'a \<Rightarrow> 'a \<Rightarrow> 'a \<Rightarrow> bool" where
  "pair_gt oc a b c d \<longleftrightarrow> (c, a) \<in> rel oc \<and> (d, a) \<in> rel oc \<or> (c, b) \<in> rel oc \<and> (d, b) \<in> rel oc \<or>
     (c, a) \<in> rel oc \<and> (d, b) \<in> (rel oc)\<^sup>= \<or> (c, a) \<in> (rel oc)\<^sup>= \<and> (d, b) \<in> rel oc \<or>
     (c, b) \<in> rel oc \<and> (d, a) \<in> (rel oc)\<^sup>= \<or> (c, b) \<in> (rel oc)\<^sup>= \<and> (d, a) \<in> rel oc"

lemma ms_pair:
  assumes "valid oc"
  shows "({#c, d#}, {#a, b#}) \<in> mult (rel oc) \<longleftrightarrow> pair_gt oc a b c d"
proof -
  note cancel = ms_cancel [OF assms] and single = ms_single [OF assms] and self = not_self [OF assms]
  have tr: "(x, y) \<in> rel oc \<Longrightarrow> (y, z) \<in> rel oc \<Longrightarrow> (x, z) \<in> rel oc" for x y z
    using rel_trans [OF assms] by (rule transD)
  consider "a = c" | "a = d" | "b = c" | "b = d" | "a \<noteq> c" "a \<noteq> d" "b \<noteq> c" "b \<noteq> d" by blast
  then show ?thesis
  proof cases
    case 1
    then have "({#c, d#}, {#a, b#}) \<in> mult (rel oc) \<longleftrightarrow> (d, b) \<in> rel oc"
      using cancel [of c "{#d#}" "{#b#}"] single by simp
    then show ?thesis using 1 self tr unfolding pair_gt_def by blast
  next
    case 2
    then have "({#c, d#}, {#a, b#}) \<in> mult (rel oc) \<longleftrightarrow> (c, b) \<in> rel oc"
      using cancel [of d "{#c#}" "{#b#}"] single by (simp add: add_mset_commute)
    then show ?thesis using 2 self tr unfolding pair_gt_def by blast
  next
    case 3
    then have "({#c, d#}, {#a, b#}) \<in> mult (rel oc) \<longleftrightarrow> (d, a) \<in> rel oc"
      using cancel [of c "{#d#}" "{#a#}"] single by (simp add: add_mset_commute)
    then show ?thesis using 3 self tr unfolding pair_gt_def by blast
  next
    case 4
    then have "({#c, d#}, {#a, b#}) \<in> mult (rel oc) \<longleftrightarrow> (c, a) \<in> rel oc"
      using cancel [of d "{#c#}" "{#a#}"] single by (simp add: add_mset_commute)
    then show ?thesis using 4 self tr unfolding pair_gt_def by blast
  next
    case 5
    then have "({#c, d#}, {#a, b#}) \<in> mult (rel oc) \<longleftrightarrow>
        ((c, a) \<in> rel oc \<or> (c, b) \<in> rel oc) \<and> ((d, a) \<in> rel oc \<or> (d, b) \<in> rel oc)"
      by (auto simp: ms_code [OF assms] multp_code_def Let_def)
    then show ?thesis using 5 unfolding pair_gt_def by blast
  qed
qed

lemma ms_asym: "valid oc \<Longrightarrow> (M, N) \<in> mult (rel oc) \<Longrightarrow> (N, M) \<notin> mult (rel oc)"
  using irrefl_mult [OF rel_trans rel_irrefl] transD [OF trans_mult [OF rel_trans], of oc M N M]
  by (auto simp: irrefl_def)

end

section \<open>The ordering of literals\<close>

definition term_rel :: "OCB \<Rightarrow> (Term_p \<times> Term_p) set" where
  "term_rel ocb = {(t, s). kbo_term ocb s \<and> kbo_term ocb t \<and> to_gt ocb s t}"

definition lit_mset :: "bool \<Rightarrow> Term_p \<Rightarrow> Term_p \<Rightarrow> Term_p multiset multiset" where
  "lit_mset positive s t = (if positive then {#{#s#}, {#t#}#} else {#{#s, t#}#})"

definition lit_gt :: "OCB \<Rightarrow> Term_p multiset multiset \<Rightarrow> Term_p multiset multiset \<Rightarrow> bool" where
  "lit_gt ocb M N \<longleftrightarrow> (N, M) \<in> mult (mult (term_rel ocb))"

lemma to_prec_ok: "to_valid ocb \<Longrightarrow> ocb_prec_ok ocb"
  by (auto simp: to_valid_def kbo_admissible_def kbo_ocb_def)

lemma wf_term_rel:
  assumes "to_valid ocb"
  shows "wf (term_rel ocb)"
proof (cases "ocb_type ocb \<in> lpo_types")
  case True
  then show ?thesis
    using lpo_red.wellfounded [OF to_prec_ok [OF assms]] by (simp add: term_rel_def to_gt_def)
next
  case False
  then have "kbo_admissible ocb" using assms by (auto simp: to_valid_def)
  then show ?thesis using kbo_red.wellfounded False by (simp add: term_rel_def to_gt_def)
qed

lemma to_gt_trans:
  assumes "to_valid ocb" and "kbo_term ocb s" and "kbo_term ocb t" and "kbo_term ocb u"
    and "to_gt ocb s t" and "to_gt ocb t u"
  shows "to_gt ocb s u"
proof (cases "ocb_type ocb \<in> lpo_types")
  case True
  then show ?thesis
    using lpo.lpo_trans [OF to_prec_ok [OF assms(1)], of s t u] assms(2-6) by (simp add: to_gt_def lpo_okl)
next
  case False
  then have "kbo_admissible ocb" using assms(1) by (auto simp: to_valid_def)
  then show ?thesis using kbo.gt_trans [of ocb s t u] assms(2-6) False by (simp add: to_gt_def kbo_okt)
qed

interpretation term_ord: strict_rel term_rel to_valid
proof unfold_locales
  fix oc
  assume v: "to_valid oc"
  show "trans (term_rel oc)"
    using to_gt_trans [OF v] unfolding trans_def term_rel_def by blast
  show "irrefl (term_rel oc)"
    using wf_not_refl [OF wf_term_rel [OF v]] by (simp add: irrefl_def)
qed

interpretation mset_ord: strict_rel "\<lambda>ocb. mult (term_rel ocb)" to_valid
  using term_ord.rel_trans term_ord.rel_irrefl trans_mult irrefl_mult by unfold_locales blast+

lemma wf_lit_gt: "to_valid ocb \<Longrightarrow> wf {(N, M). lit_gt ocb M N}"
  using wf_mult [OF wf_mult [OF wf_term_rel]] by (simp add: lit_gt_def)

text \<open>The ordering on two literals, for the three combinations of signs.\<close>

lemma lit_gt_same:
  assumes "to_valid ocb"
  shows "lit_gt ocb (lit_mset p a b) (lit_mset p c d) \<longleftrightarrow> term_ord.pair_gt ocb a b c d"
proof (cases p)
  case True
  have "mset_ord.pair_gt ocb {#a#} {#b#} {#c#} {#d#} \<longleftrightarrow> term_ord.pair_gt ocb a b c d"
    by (simp add: mset_ord.pair_gt_def term_ord.pair_gt_def term_ord.ms_single [OF assms])
  then show ?thesis using True mset_ord.ms_pair [OF assms] by (simp add: lit_gt_def lit_mset_def)
next
  case False
  then show ?thesis
    using mset_ord.ms_single [OF assms] term_ord.ms_pair [OF assms] by (simp add: lit_gt_def lit_mset_def)
qed

lemma lit_gt_pos_neg:
  assumes "to_valid ocb"
  shows "lit_gt ocb (lit_mset True a b) (lit_mset False c d) \<longleftrightarrow>
      (c, a) \<in> term_rel ocb \<and> (d, a) \<in> term_rel ocb \<or> (c, b) \<in> term_rel ocb \<and> (d, b) \<in> term_rel ocb"
    and "lit_gt ocb (lit_mset False c d) (lit_mset True a b) \<longleftrightarrow>
      (a, c) \<in> (term_rel ocb)\<^sup>= \<and> (b, c) \<in> (term_rel ocb)\<^sup>= \<or> (a, c) \<in> (term_rel ocb)\<^sup>= \<and> (b, d) \<in> (term_rel ocb)\<^sup>= \<or>
      (a, d) \<in> (term_rel ocb)\<^sup>= \<and> (b, c) \<in> (term_rel ocb)\<^sup>= \<or> (a, d) \<in> (term_rel ocb)\<^sup>= \<and> (b, d) \<in> (term_rel ocb)\<^sup>="
  using mset_ord.ms_pair_single [OF assms] mset_ord.ms_single_pair [OF assms]
    term_ord.ms_pair_single [OF assms] term_ord.ms_single_pair [OF assms]
  by (auto simp: lit_gt_def lit_mset_def)

definition lit_cmp_of :: "OCB \<Rightarrow> Term_p multiset multiset \<Rightarrow> Term_p multiset multiset \<Rightarrow> CompareResult" where
  "lit_cmp_of ocb M N = (if M = N then to_equal else if lit_gt ocb M N then to_greater
                        else if lit_gt ocb N M then to_lesser else to_uncomparable)"

lemma lit_cmp_ofI:
  assumes "to_valid ocb"
    and "r = to_greater \<Longrightarrow> lit_gt ocb M N" and "r = to_lesser \<Longrightarrow> lit_gt ocb N M" and "r = to_equal \<Longrightarrow> M = N"
    and "r = to_uncomparable \<Longrightarrow> M \<noteq> N \<and> \<not> lit_gt ocb M N \<and> \<not> lit_gt ocb N M"
    and "r \<in> {to_greater, to_lesser, to_equal, to_uncomparable}"
  shows "r = lit_cmp_of ocb M N"
  using assms(2-6) mset_ord.ms_asym [OF assms(1)] by (auto simp: lit_cmp_of_def lit_gt_def)

section \<open>The code\<close>

definition to_cmp :: "OCB \<Rightarrow> Term_p \<Rightarrow> Term_p \<Rightarrow> CompareResult" where
  "to_cmp ocb s t = (if s = t then to_equal else if to_gt ocb s t then to_greater
                     else if to_gt ocb t s then to_lesser else to_uncomparable)"

lemma to_cmp_iff:
  assumes "to_valid ocb" and "kbo_term ocb s" and "kbo_term ocb t"
  shows "to_cmp ocb s t = to_equal \<longleftrightarrow> s = t"
    and "to_cmp ocb s t = to_greater \<longleftrightarrow> (t, s) \<in> term_rel ocb"
    and "to_cmp ocb s t = to_lesser \<longleftrightarrow> (s, t) \<in> term_rel ocb"
  using term_ord.not_self [OF assms(1), of s] to_gt_trans [OF assms(1), of s t s] assms(2,3)
  by (auto simp: to_cmp_def term_rel_def)

text \<open>The instances of the sides of two literals, all of which the ordering can compare.\<close>

definition lit_pair :: "int \<Rightarrow> OCB \<Rightarrow> bindings \<Rightarrow> Eqn \<Rightarrow> Eqn \<Rightarrow> Term_p \<Rightarrow> Term_p \<Rightarrow> Term_p \<Rightarrow> Term_p \<Rightarrow> bool" where
  "lit_pair lim ocb b e1 e2 s1 t1 s2 t2 \<longleftrightarrow>
     copies ocb b (lterm e1) DEREF_ALWAYS s1 \<and> copies ocb b (rterm e1) DEREF_ALWAYS t1 \<and>
     copies ocb b (lterm e2) DEREF_ALWAYS s2 \<and> copies ocb b (rterm e2) DEREF_ALWAYS t2 \<and>
     (\<forall>x \<in> {s1, t1}. \<forall>y \<in> {s2, t2}. vars_by_code x y \<and> within_limit lim ocb x y)"

lemma lit_pair_sym: "lit_pair lim ocb b e1 e2 s1 t1 s2 t2 \<Longrightarrow> lit_pair lim ocb b e2 e1 s2 t2 s1 t1"
  using vars_by_code_sym by (auto simp: lit_pair_def within_limit_def add.commute)

lemma lit_pair_kbo_term: "lit_pair lim ocb b e1 e2 s1 t1 s2 t2 \<Longrightarrow>
    kbo_term ocb s1 \<and> kbo_term ocb t1 \<and> kbo_term ocb s2 \<and> kbo_term ocb t2"
  using copies_kbo_term unfolding lit_pair_def by blast

lemma TOCompare_run:
  assumes "to_valid o0" and "copies o0 b s DEREF_ALWAYS us" and "copies o0 b t DEREF_ALWAYS ut"
    and "vars_by_code us ut" and "within_limit lim o0 us ut"
  shows "\<forall>ocb. to_state o0 ocb \<longrightarrow> (\<exists>ocb'. to_state o0 ocb' \<and>
    TOCompare lim ocb b s t DEREF_ALWAYS DEREF_ALWAYS = Some (to_cmp o0 us ut, ocb'))"
  using TO_ok [OF assms(1) _ assms(2-5)] unfolding to_cmp_def by blast

lemma lit_pair_runs:
  assumes "to_valid o0" and "lit_pair lim o0 b e1 e2 s1 t1 s2 t2"
  defines "runs \<equiv> \<lambda>s t u v. \<forall>ocb. to_state o0 ocb \<longrightarrow> (\<exists>ocb'. to_state o0 ocb' \<and>
    TOCompare lim ocb b s t DEREF_ALWAYS DEREF_ALWAYS = Some (to_cmp o0 u v, ocb'))"
  shows "runs (lterm e1) (lterm e2) s1 s2" "runs (rterm e1) (rterm e2) t1 t2"
    "runs (lterm e1) (rterm e2) s1 t2" "runs (rterm e1) (lterm e2) t1 s2"
  unfolding runs_def using TOCompare_run [OF assms(1)] assms(2) by (auto simp: lit_pair_def)

text \<open>The results as functions of the four comparisons.\<close>

definition pos_result :: "CompareResult \<Rightarrow> CompareResult \<Rightarrow> CompareResult \<Rightarrow> CompareResult \<Rightarrow> CompareResult" where
  "pos_result l1l2 r1r2 l1r2 r1l2 =
     (if l1l2 = to_equal \<and> r1r2 = to_equal then to_equal
      else if l1l2 \<in> {to_greater, to_equal} \<and> r1r2 \<in> {to_greater, to_equal} then to_greater
      else if l1l2 \<in> {to_lesser, to_equal} \<and> r1r2 \<in> {to_lesser, to_equal} then to_lesser
      else if l1l2 = to_greater \<and> l1r2 = to_greater then to_greater
      else if l1r2 = to_lesser \<and> r1r2 = to_lesser then to_lesser
      else if l1r2 = to_equal \<and> r1l2 = to_equal then to_equal
      else if r1l2 \<in> {to_greater, to_equal} \<and> l1r2 \<in> {to_greater, to_equal} then to_greater
      else if r1l2 = to_greater \<and> r1r2 = to_greater then to_greater
      else if l1l2 = to_lesser \<and> r1l2 = to_lesser then to_lesser
      else if r1l2 \<in> {to_lesser, to_equal} \<and> l1r2 \<in> {to_lesser, to_equal} then to_lesser
      else to_uncomparable)"

definition neg_result :: "bool \<Rightarrow> CompareResult \<Rightarrow> CompareResult \<Rightarrow> CompareResult \<Rightarrow> CompareResult \<Rightarrow> CompareResult" where
  "neg_result oriented l1l2 r1r2 l1r2 r1l2 =
     (if oriented
      then if l1l2 \<in> {to_lesser, to_equal} \<or> l1r2 \<in> {to_lesser, to_equal} then to_lesser
           else if l1l2 = to_greater \<and> l1r2 = to_greater then to_greater else to_uncomparable
      else if l1l2 = to_greater \<and> l1r2 = to_greater \<or> r1l2 = to_greater \<and> r1r2 = to_greater then to_greater
      else if (l1l2 \<in> {to_lesser, to_equal} \<or> l1r2 \<in> {to_lesser, to_equal}) \<and>
              (r1l2 \<in> {to_lesser, to_equal} \<or> r1r2 \<in> {to_lesser, to_equal}) then to_lesser
      else to_uncomparable)"

lemma compare_pos_eqns_run:
  assumes "to_valid o0" and "to_state o0 ocb" and "lit_pair lim o0 b e1 e2 s1 t1 s2 t2"
    and "PropsAreEquiv e1 e2 EPIsPositive"
  shows "\<exists>ocb'. to_state o0 ocb' \<and> compare_pos_eqns lim ocb b e1 e2 =
    Some (pos_result (to_cmp o0 s1 s2) (to_cmp o0 t1 t2) (to_cmp o0 s1 t2) (to_cmp o0 t1 s2), ocb')"
proof -
  note run = lit_pair_runs [OF assms(1,3)]
  obtain o1 where o1: "to_state o0 o1"
    "TOCompare lim ocb b (lterm e1) (lterm e2) DEREF_ALWAYS DEREF_ALWAYS = Some (to_cmp o0 s1 s2, o1)"
    using run(1) assms(2) by blast
  obtain o2 where o2: "to_state o0 o2"
    "TOCompare lim o1 b (rterm e1) (rterm e2) DEREF_ALWAYS DEREF_ALWAYS = Some (to_cmp o0 t1 t2, o2)"
    using run(2) o1(1) by blast
  obtain o3 where o3: "to_state o0 o3"
    "TOCompare lim o2 b (lterm e1) (rterm e2) DEREF_ALWAYS DEREF_ALWAYS = Some (to_cmp o0 s1 t2, o3)"
    using run(3) o2(1) by blast
  obtain o4 where o4: "to_state o0 o4"
    "TOCompare lim o3 b (rterm e1) (lterm e2) DEREF_ALWAYS DEREF_ALWAYS = Some (to_cmp o0 t1 s2, o4)"
    using run(4) o3(1) by blast
  show ?thesis
    using o1(1) o2(1) o3(1) o4(1)
    by (simp add: compare_pos_eqns_def assms(4) o1(2) o2(2) o3(2) o4(2) pos_result_def)
qed

lemma compare_poseqn_negeqn_run:
  assumes "to_valid o0" and "to_state o0 ocb" and "lit_pair lim o0 b e1 e2 s1 t1 s2 t2"
    and "EqnIsPositive e1" and "\<not> EqnIsPositive e2"
  shows "\<exists>ocb'. to_state o0 ocb' \<and> compare_poseqn_negeqn lim ocb b e1 e2 =
    Some (neg_result (EqnIsOriented e1) (to_cmp o0 s1 s2) (to_cmp o0 t1 t2) (to_cmp o0 s1 t2) (to_cmp o0 t1 s2), ocb')"
proof -
  note run = lit_pair_runs [OF assms(1,3)]
  obtain o1 where o1: "to_state o0 o1"
    "TOCompare lim ocb b (lterm e1) (lterm e2) DEREF_ALWAYS DEREF_ALWAYS = Some (to_cmp o0 s1 s2, o1)"
    using run(1) assms(2) by blast
  obtain o2 where o2: "to_state o0 o2"
    "TOCompare lim o1 b (lterm e1) (rterm e2) DEREF_ALWAYS DEREF_ALWAYS = Some (to_cmp o0 s1 t2, o2)"
    using run(3) o1(1) by blast
  obtain o3 where o3: "to_state o0 o3"
    "TOCompare lim o2 b (rterm e1) (lterm e2) DEREF_ALWAYS DEREF_ALWAYS = Some (to_cmp o0 t1 s2, o3)"
    using run(4) o2(1) by blast
  obtain o4 where o4: "to_state o0 o4"
    "TOCompare lim o3 b (rterm e1) (rterm e2) DEREF_ALWAYS DEREF_ALWAYS = Some (to_cmp o0 t1 t2, o4)"
    using run(2) o3(1) by blast
  show ?thesis
    using o1(1) o2(1) o3(1) o4(1)
    by (simp add: compare_poseqn_negeqn_def assms(4,5) o1(2) o2(2) o3(2) o4(2) neg_result_def)
qed

lemma pos_result_uncomparable:
  assumes "pos_result x y z w = to_uncomparable"
  shows "\<not> (x = to_equal \<and> y = to_equal) \<and> \<not> (z = to_equal \<and> w = to_equal)"
    "r = to_greater \<or> r = to_lesser \<Longrightarrow>
     \<not> (x = r \<and> y = r) \<and> \<not> (x = r \<and> y = to_equal) \<and> \<not> (x = to_equal \<and> y = r) \<and>
     \<not> (z = r \<and> w = r) \<and> \<not> (z = r \<and> w = to_equal) \<and> \<not> (z = to_equal \<and> w = r)"
    "\<not> (x = to_greater \<and> z = to_greater) \<and> \<not> (w = to_greater \<and> y = to_greater)"
    "\<not> (x = to_lesser \<and> w = to_lesser) \<and> \<not> (z = to_lesser \<and> y = to_lesser)"
proof -
  show "\<not> (x = to_equal \<and> y = to_equal) \<and> \<not> (z = to_equal \<and> w = to_equal)"
    using assms by (simp add: pos_result_def split: if_splits)
  show "\<not> (x = r \<and> y = r) \<and> \<not> (x = r \<and> y = to_equal) \<and> \<not> (x = to_equal \<and> y = r) \<and>
     \<not> (z = r \<and> w = r) \<and> \<not> (z = r \<and> w = to_equal) \<and> \<not> (z = to_equal \<and> w = r)"
    if "r = to_greater \<or> r = to_lesser"
    using assms that by (elim disjE) (simp_all add: pos_result_def split: if_splits, blast+)
  show "\<not> (x = to_greater \<and> z = to_greater) \<and> \<not> (w = to_greater \<and> y = to_greater)"
    using assms by (simp add: pos_result_def split: if_splits)
  show "\<not> (x = to_lesser \<and> w = to_lesser) \<and> \<not> (z = to_lesser \<and> y = to_lesser)"
    using assms by (simp add: pos_result_def split: if_splits)
qed

lemma pos_result_strict:
  "pos_result x y z w = to_greater \<Longrightarrow>
    (x = to_greater \<or> x = to_equal) \<and> (y = to_greater \<or> y = to_equal) \<and> (x = to_greater \<or> y = to_greater) \<or>
    (w = to_greater \<or> w = to_equal) \<and> (z = to_greater \<or> z = to_equal) \<and> (w = to_greater \<or> z = to_greater) \<or>
    x = to_greater \<and> z = to_greater \<or> w = to_greater \<and> y = to_greater"
  "pos_result x y z w = to_lesser \<Longrightarrow>
    (x = to_lesser \<or> x = to_equal) \<and> (y = to_lesser \<or> y = to_equal) \<and> (x = to_lesser \<or> y = to_lesser) \<or>
    (w = to_lesser \<or> w = to_equal) \<and> (z = to_lesser \<or> z = to_equal) \<and> (w = to_lesser \<or> z = to_lesser) \<or>
    x = to_lesser \<and> w = to_lesser \<or> z = to_lesser \<and> y = to_lesser"
  "pos_result x y z w = to_equal \<Longrightarrow> x = to_equal \<and> y = to_equal \<or> z = to_equal \<and> w = to_equal"
  unfolding pos_result_def by (simp_all split: if_splits, blast+)

lemma pos_result_ok:
  assumes "to_valid ocb" and "kbo_term ocb a" and "kbo_term ocb b" and "kbo_term ocb c" and "kbo_term ocb d"
  shows "pos_result (to_cmp ocb a c) (to_cmp ocb b d) (to_cmp ocb a d) (to_cmp ocb b c) =
    lit_cmp_of ocb (lit_mset p a b) (lit_mset p c d)"
proof (rule lit_cmp_ofI [OF assms(1)], unfold lit_gt_same [OF assms(1)])
  let ?r = "pos_result (to_cmp ocb a c) (to_cmp ocb b d) (to_cmp ocb a d) (to_cmp ocb b c)"
  note iff = to_cmp_iff [OF assms(1,2,4)] to_cmp_iff [OF assms(1,3,5)] to_cmp_iff [OF assms(1,2,5)] to_cmp_iff [OF assms(1,3,4)]
  have eq: "lit_mset p a b = lit_mset p c d \<longleftrightarrow> a = c \<and> b = d \<or> a = d \<and> b = c"
    by (auto simp: lit_mset_def add_eq_conv_ex)
  note strict = pos_result_strict [of "to_cmp ocb a c" "to_cmp ocb b d" "to_cmp ocb a d" "to_cmp ocb b c", unfolded iff]
  show "?r = to_greater \<Longrightarrow> term_ord.pair_gt ocb a b c d"
    using strict(1) unfolding term_ord.pair_gt_def by blast
  show "?r = to_lesser \<Longrightarrow> term_ord.pair_gt ocb c d a b"
    using strict(2) unfolding term_ord.pair_gt_def by blast
  show "?r = to_equal \<Longrightarrow> lit_mset p a b = lit_mset p c d"
    using strict(3) unfolding eq by blast
  show "lit_mset p a b \<noteq> lit_mset p c d \<and> \<not> term_ord.pair_gt ocb a b c d \<and> \<not> term_ord.pair_gt ocb c d a b"
    if u: "?r = to_uncomparable"
  proof (intro conjI)
    note un = pos_result_uncomparable [OF u]
    have g: "to_greater = to_greater \<or> to_greater = to_lesser" and l: "to_lesser = to_greater \<or> to_lesser = to_lesser" by simp_all
    show "lit_mset p a b \<noteq> lit_mset p c d" using un(1) unfolding eq iff by blast
    show "\<not> term_ord.pair_gt ocb a b c d"
      using un(2) [OF g] un(3) unfolding term_ord.pair_gt_def iff by blast
    show "\<not> term_ord.pair_gt ocb c d a b"
      using un(2) [OF l] un(4) unfolding term_ord.pair_gt_def iff by blast
  qed
  show "?r \<in> {to_greater, to_lesser, to_equal, to_uncomparable}" by (simp add: pos_result_def)
qed

lemma neg_result_ok:
  assumes "to_valid ocb" and "kbo_term ocb a" and "kbo_term ocb b" and "kbo_term ocb c" and "kbo_term ocb d"
    and "oriented \<Longrightarrow> to_gt ocb a b"
  shows "neg_result oriented (to_cmp ocb a c) (to_cmp ocb b d) (to_cmp ocb a d) (to_cmp ocb b c) =
    lit_cmp_of ocb (lit_mset True a b) (lit_mset False c d)"
proof (rule lit_cmp_ofI [OF assms(1)], unfold lit_gt_pos_neg [OF assms(1)])
  let ?r = "neg_result oriented (to_cmp ocb a c) (to_cmp ocb b d) (to_cmp ocb a d) (to_cmp ocb b c)"
  note iff = to_cmp_iff [OF assms(1,2,4)] to_cmp_iff [OF assms(1,3,5)] to_cmp_iff [OF assms(1,2,5)] to_cmp_iff [OF assms(1,3,4)]
  have tr: "(x, y) \<in> term_rel ocb \<Longrightarrow> (y, z) \<in> term_rel ocb \<Longrightarrow> (x, z) \<in> term_rel ocb" for x y z
    using term_ord.rel_trans [OF assms(1)] by (rule transD)
  have ba: "oriented \<Longrightarrow> (b, a) \<in> term_rel ocb" using assms(2,3,6) by (simp add: term_rel_def)
  have neq: "lit_mset True a b \<noteq> lit_mset False c d" by (auto simp: lit_mset_def add_eq_conv_ex)
  show "?r = to_greater \<Longrightarrow> (c, a) \<in> term_rel ocb \<and> (d, a) \<in> term_rel ocb \<or> (c, b) \<in> term_rel ocb \<and> (d, b) \<in> term_rel ocb"
    by (auto simp: neg_result_def iff split: if_splits)
  show "?r = to_lesser \<Longrightarrow>
      (a, c) \<in> (term_rel ocb)\<^sup>= \<and> (b, c) \<in> (term_rel ocb)\<^sup>= \<or> (a, c) \<in> (term_rel ocb)\<^sup>= \<and> (b, d) \<in> (term_rel ocb)\<^sup>= \<or>
      (a, d) \<in> (term_rel ocb)\<^sup>= \<and> (b, c) \<in> (term_rel ocb)\<^sup>= \<or> (a, d) \<in> (term_rel ocb)\<^sup>= \<and> (b, d) \<in> (term_rel ocb)\<^sup>="
    using ba tr by (cases oriented) (auto simp: neg_result_def iff split: if_splits)
  show "?r = to_equal \<Longrightarrow> lit_mset True a b = lit_mset False c d"
    by (auto simp: neg_result_def split: if_splits)
  show "?r = to_uncomparable \<Longrightarrow> lit_mset True a b \<noteq> lit_mset False c d \<and>
      \<not> ((c, a) \<in> term_rel ocb \<and> (d, a) \<in> term_rel ocb \<or> (c, b) \<in> term_rel ocb \<and> (d, b) \<in> term_rel ocb) \<and>
      \<not> ((a, c) \<in> (term_rel ocb)\<^sup>= \<and> (b, c) \<in> (term_rel ocb)\<^sup>= \<or> (a, c) \<in> (term_rel ocb)\<^sup>= \<and> (b, d) \<in> (term_rel ocb)\<^sup>= \<or>
      (a, d) \<in> (term_rel ocb)\<^sup>= \<and> (b, c) \<in> (term_rel ocb)\<^sup>= \<or> (a, d) \<in> (term_rel ocb)\<^sup>= \<and> (b, d) \<in> (term_rel ocb)\<^sup>=)"
    using neq ba tr by (cases oriented) (auto simp: neg_result_def iff split: if_splits)
  show "?r \<in> {to_greater, to_lesser, to_equal, to_uncomparable}" by (simp add: neg_result_def)
qed

lemma state_lit_cmp: "to_state o0 ocb \<Longrightarrow> lit_cmp ocb = lit_cmp o0"
proof -
  have "lit_cmp ocb = lit_cmp o0" if "kbo_base ocb = kbo_base o0"
    using arg_cong [OF that, of lit_cmp] by (simp add: kbo_base_def)
  then show "to_state o0 ocb \<Longrightarrow> lit_cmp ocb = lit_cmp o0" by (auto simp: to_state_def)
qed

lemma PropsAreEquiv_sign: "PropsAreEquiv e1 e2 EPIsPositive \<longleftrightarrow> EqnIsPositive e1 = EqnIsPositive e2"
  by (auto simp: PropsAreEquiv_def EqnIsPositive_def EqnQueryProp_def EPIsPositive_def and_one_eq)

lemma lit_cmp_of_inverse:
  assumes "to_valid ocb"
  shows "POInverseRelation (lit_cmp_of ocb M N) = Some (lit_cmp_of ocb N M)"
  using mset_ord.ms_asym [OF assms, of M N] by (auto simp: lit_cmp_of_def lit_gt_def)

section \<open>Orientation\<close>

lemma and_single_bit: "x AND 2 ^ n = 0 \<or> x AND 2 ^ n = (2 ^ n :: int)"
proof (cases "bit x n")
  case True
  then have "x AND 2 ^ n = 2 ^ n" by (intro bit_eqI) (auto simp: bit_simps)
  then show ?thesis ..
next
  case False
  then have "x AND 2 ^ n = 0" by (intro bit_eqI) (auto simp: bit_simps)
  then show ?thesis ..
qed

lemma query_mono: "EqnQueryProp e p \<Longrightarrow> p AND q = q \<Longrightarrow> EqnQueryProp e q"
  unfolding EqnQueryProp_def by (metis and.assoc)

lemma query_set: "EqnQueryProp (EqnSetProp e p) p"
  by (simp add: EqnQueryProp_def EqnSetProp_def bit_eq_iff bit_simps) blast

lemma query_set_other: "p AND q = 0 \<Longrightarrow> EqnQueryProp (EqnSetProp e p) q \<longleftrightarrow> EqnQueryProp e q"
  by (simp add: EqnQueryProp_def EqnSetProp_def bit.conj_disj_distrib2)

lemma query_del: "p \<noteq> 0 \<Longrightarrow> \<not> EqnQueryProp (EqnDelProp e p) p"
proof -
  have 0: "(eqn_properties e AND NOT p) AND p = 0" by (auto simp: bit_eq_iff bit_simps)
  show "p \<noteq> 0 \<Longrightarrow> \<not> EqnQueryProp (EqnDelProp e p) p"
    by (simp add: EqnQueryProp_def EqnDelProp_def) (metis 0)
qed

lemma query_del_other: "p AND q = 0 \<Longrightarrow> EqnQueryProp (EqnDelProp e p) q \<longleftrightarrow> EqnQueryProp e q"
proof -
  assume "p AND q = 0"
  then have "NOT p AND q = q" by (simp add: bit_eq_iff bit_simps) blast
  then show ?thesis by (simp add: EqnQueryProp_def EqnDelProp_def and.assoc)
qed

lemma query_swap [simp]: "EqnQueryProp (EqnSwapSidesSimple e) p = EqnQueryProp e p"
  by (simp add: EqnQueryProp_def EqnSwapSidesSimple_def)

lemma prop_sides [simp]:
  "lterm (EqnSetProp e p) = lterm e" "rterm (EqnSetProp e p) = rterm e"
  "lterm (EqnDelProp e p) = lterm e" "rterm (EqnDelProp e p) = rterm e"
  "lterm (EqnSwapSidesSimple e) = rterm e" "rterm (EqnSwapSidesSimple e) = lterm e"
  "lterm (EqnSwapSides e) = rterm e" "rterm (EqnSwapSides e) = lterm e"
  by (simp_all add: EqnSetProp_def EqnDelProp_def EqnSwapSidesSimple_def EqnSwapSides_def)

lemma EP_disjoint:
  "EPMaxIsUpToDate AND EPIsOriented = 0" "EPMaxIsUpToDate AND EPIsPositive = 0" "EPIsOriented AND EPIsPositive = 0"
  "EPIsOriented \<noteq> 0" "EPIsSplitLit AND EPMaxIsUpToDate = EPMaxIsUpToDate"
  "EPIsSplitLit AND EPIsStrictlyMaximal = EPIsStrictlyMaximal" "EPIsStrictlyMaximal \<noteq> 0"
  by (simp_all add: EP_defs)

lemma orient_flags:
  "EqnQueryProp (EqnSetProp e EPMaxIsUpToDate) EPMaxIsUpToDate"
  "EqnIsOriented (EqnSetProp e EPMaxIsUpToDate) = EqnIsOriented e"
  "EqnIsPositive (EqnSetProp e EPMaxIsUpToDate) = EqnIsPositive e"
  "EqnIsOriented (EqnSetProp e EPIsOriented)" "\<not> EqnIsOriented (EqnDelProp e EPIsOriented)"
  "EqnIsPositive (EqnSetProp e EPIsOriented) = EqnIsPositive e"
  "EqnIsPositive (EqnDelProp e EPIsOriented) = EqnIsPositive e"
  "EqnIsPositive (EqnSwapSides e) = EqnIsPositive e"
  by (simp_all add: EqnIsOriented_def EqnIsPositive_def EqnSwapSides_def query_set query_set_other query_del
      query_del_other EP_disjoint)

text \<open>The configurations of the comparison, where the term ordering does not decide.\<close>

definition tfo_order :: "OCB \<Rightarrow> Eqn \<Rightarrow> Eqn \<Rightarrow> CompareResult option" where
  "tfo_order o0 e1 e2 =
     (let q1 = EqnQueryProp e1 EPIsEquLiteral; q2 = EqnQueryProp e2 EPIsEquLiteral;
          r = (if q1 \<noteq> q2 then if q1 = (lit_cmp o0 = LCTFOEqMax) then to_greater else to_lesser
               else if q1 \<or> TermIsFreeVar (lterm e1) \<or> TermIsFreeVar (lterm e2) then to_unknown
               else the (OCBFunCompare o0 (f_code (lterm e1)) (f_code (lterm e2)))) in
      if lit_cmp o0 \<in> {LCTFOEqMax, LCTFOEqMin} \<and> r \<in> {to_greater, to_lesser} then Some r else None)"

definition literal_order :: "OCB \<Rightarrow> Eqn \<Rightarrow> Eqn \<Rightarrow> Term_p \<Rightarrow> Term_p \<Rightarrow> Term_p \<Rightarrow> Term_p \<Rightarrow> CompareResult" where
  "literal_order o0 e1 e2 s1 t1 s2 t2 =
     (let rank = (\<lambda>e. if EqnQueryProp e EPPseudoLit then 0 else 1 :: nat) in
      if rank e1 < rank e2 then to_lesser else if rank e2 < rank e1 then to_greater
      else if EqnIsSelected e1 \<noteq> EqnIsSelected e2 then if EqnIsSelected e1 then to_greater else to_lesser
      else if EqnIsSelected e1 \<and> EqnIsPositive e1 \<noteq> EqnIsPositive e2 \<or> lit_cmp o0 = LCNoCmp then to_uncomparable
      else case tfo_order o0 e1 e2 of Some r \<Rightarrow> r
        | None \<Rightarrow> lit_cmp_of o0 (lit_mset (EqnIsPositive e1) s1 t1) (lit_mset (EqnIsPositive e2) s2 t2))"

lemma copies_symbol:
  assumes "copies ocb b t DEREF_ALWAYS u" and "\<not> TermIsFreeVar t"
  shows "f_code t \<in> symbols"
proof -
  obtain t' d' where h: "TermDeref b t DEREF_ALWAYS = Some (t', d')" "head_ok ocb b t' d' u"
    using copies_head [OF assms(1)] by blast
  have "b t = None" using assms by (cases "b t") (auto simp: copies_def binds_ok_def)
  moreover from this have "deref_always b t = Some t" by (simp add: deref_always.simps [of b t])
  ultimately have "t' = t" using h(1) assms(2) by (auto simp: TermDeref_def)
  then have "f_code u = f_code t" "\<not> TermIsFreeVar u" using head_okD(4,9) [OF h(2)] assms(2) by simp_all
  then show ?thesis using assms(1) term_syms_head [of u symbols] by (simp add: copies_def)
qed

lemma state_compare: "to_state o0 ocb \<Longrightarrow> OCBFunCompare ocb = OCBFunCompare o0"
proof -
  have pos: "OCBFunComparePos (kbo_base ocb) = OCBFunComparePos ocb" for ocb
    by (simp add: fun_eq_iff OCBFunComparePos_def kbo_base_def)
  have f: "sig_size (kbo_base ocb) = sig_size ocb" "precedence (kbo_base ocb) = precedence ocb" "ocb_sig (kbo_base ocb) = ocb_sig ocb"
    "prec_weights (kbo_base ocb) = prec_weights ocb" for ocb by (simp_all add: kbo_base_def)
  have mat: "OCBFunCompareMatrix (kbo_base ocb) = OCBFunCompareMatrix ocb" for ocb
    by (simp only: fun_eq_iff OCBFunCompareMatrix_def pos f) simp
  have "OCBFunCompare (kbo_base ocb) = OCBFunCompare ocb" for ocb
    by (simp only: fun_eq_iff OCBFunCompare_def mat f) simp
  then show "to_state o0 ocb \<Longrightarrow> OCBFunCompare ocb = OCBFunCompare o0" unfolding to_state_def by metis
qed

lemma tfo_literal_compare_run:
  assumes "to_valid o0" and "to_state o0 ocb" and "lit_pair lim o0 b e1 e2 s1 t1 s2 t2"
    and "lit_cmp o0 \<in> {LCTFOEqMax, LCTFOEqMin} \<longrightarrow> EqnIsEquLit e1 \<noteq> None \<and> EqnIsEquLit e2 \<noteq> None"
  shows "\<exists>r. tfo_literal_compare ocb e1 e2 = Some r \<and>
    tfo_order o0 e1 e2 = (if r = to_greater \<or> r = to_lesser then Some r else None)"
proof -
  note lc = state_lit_cmp [OF assms(2)] and sc = state_compare [OF assms(2)]
  have cmp: "OCBFunCompare o0 (f_code (lterm e1)) (f_code (lterm e2)) \<noteq> None"
    if "\<not> TermIsFreeVar (lterm e1)" "\<not> TermIsFreeVar (lterm e2)"
  proof -
    have "f_code (lterm e1) \<in> symbols" "f_code (lterm e2) \<in> symbols"
      using copies_symbol that assms(3) unfolding lit_pair_def by blast+
    then show ?thesis using ocb_prec.cmp_some [OF to_prec_ok [OF assms(1)]] by fastforce
  qed
  have equ: "EqnIsEquLit e = Some (EqnQueryProp e EPIsEquLiteral)" if "EqnIsEquLit e \<noteq> None" for e
    using that by (auto simp: EqnIsEquLit_def bind_eq_None_conv)
  show ?thesis
  proof (cases "lit_cmp o0 \<in> {LCTFOEqMax, LCTFOEqMin}")
    case False
    then show ?thesis using lc by (auto simp: tfo_literal_compare_def tfo_order_def)
  next
    case True
    then have q: "EqnIsEquLit e1 = Some (EqnQueryProp e1 EPIsEquLiteral)" "EqnIsEquLit e2 = Some (EqnQueryProp e2 EPIsEquLiteral)"
      using assms(4) equ by auto
    have mx: "lit_cmp o0 = LCTFOEqMin \<longleftrightarrow> lit_cmp o0 \<noteq> LCTFOEqMax" using True by auto
    let ?q1 = "EqnQueryProp e1 EPIsEquLiteral" and ?q2 = "EqnQueryProp e2 EPIsEquLiteral"
    define r where "r = (if ?q1 \<noteq> ?q2 then if ?q1 = (lit_cmp o0 = LCTFOEqMax) then to_greater else to_lesser
       else if ?q1 \<or> TermIsFreeVar (lterm e1) \<or> TermIsFreeVar (lterm e2) then to_unknown
       else the (OCBFunCompare o0 (f_code (lterm e1)) (f_code (lterm e2))))"
    have "tfo_literal_compare ocb e1 e2 = Some r"
      unfolding tfo_literal_compare_def lc sc q r_def bind.bind_lunit mx
      using cmp by (cases ?q1; cases ?q2; cases "lit_cmp o0 = LCTFOEqMax"; simp)
    moreover have "tfo_order o0 e1 e2 = (if r = to_greater \<or> r = to_lesser then Some r else None)"
      unfolding tfo_order_def Let_def r_def [symmetric] using True by simp
    ultimately show ?thesis by blast
  qed
qed

lemma LiteralCompare_terms:
  assumes "to_valid o0" and "to_state o0 ocb" and "lit_pair lim o0 b e1 e2 s1 t1 s2 t2"
    and "EqnIsOriented e1 \<Longrightarrow> to_gt o0 s1 t1" and "EqnIsOriented e2 \<Longrightarrow> to_gt o0 s2 t2"
  shows "\<exists>ocb'. to_state o0 ocb' \<and>
    (if PropsAreEquiv e1 e2 EPIsPositive then compare_pos_eqns lim ocb b e1 e2
     else if EqnIsPositive e1 then compare_poseqn_negeqn lim ocb b e1 e2
     else do { (r, ocb) \<leftarrow> compare_poseqn_negeqn lim ocb b e2 e1; r \<leftarrow> POInverseRelation r; Some (r, ocb) }) =
      Some (lit_cmp_of o0 (lit_mset (EqnIsPositive e1) s1 t1) (lit_mset (EqnIsPositive e2) s2 t2), ocb')"
proof -
  have k: "kbo_term o0 s1" "kbo_term o0 t1" "kbo_term o0 s2" "kbo_term o0 t2"
    using lit_pair_kbo_term [OF assms(3)] by blast+
  consider (same) "EqnIsPositive e1 = EqnIsPositive e2" | (pn) "EqnIsPositive e1" "\<not> EqnIsPositive e2"
    | (np) "\<not> EqnIsPositive e1" "EqnIsPositive e2" by blast
  then show ?thesis
  proof cases
    case same
    then show ?thesis
      using compare_pos_eqns_run [OF assms(1-3)] pos_result_ok [OF assms(1) k] by (simp add: PropsAreEquiv_sign)
  next
    case pn
    then show ?thesis
      using compare_poseqn_negeqn_run [OF assms(1-3) pn] neg_result_ok [OF assms(1) k, of "EqnIsOriented e1"] assms(4)
      by (simp add: PropsAreEquiv_sign)
  next
    case np
    then show ?thesis
      using compare_poseqn_negeqn_run [OF assms(1,2) lit_pair_sym [OF assms(3)] np(2,1)]
        neg_result_ok [OF assms(1) k(3,4,1,2), of "EqnIsOriented e2"] lit_cmp_of_inverse [OF assms(1)] assms(5)
      by (auto simp: PropsAreEquiv_sign)
  qed
qed

lemma LiteralCompare_all:
  assumes "to_valid o0" and "to_state o0 ocb" and "lit_pair lim o0 b e1 e2 s1 t1 s2 t2"
    and "lit_cmp o0 \<in> {LCTFOEqMax, LCTFOEqMin} \<longrightarrow> EqnIsEquLit e1 \<noteq> None \<and> EqnIsEquLit e2 \<noteq> None"
    and "EqnIsOriented e1 \<Longrightarrow> to_gt o0 s1 t1" and "EqnIsOriented e2 \<Longrightarrow> to_gt o0 s2 t2"
  shows "\<exists>ocb'. to_state o0 ocb' \<and> LiteralCompare lim ocb b e1 e2 = Some (literal_order o0 e1 e2 s1 t1 s2 t2, ocb')"
proof -
  obtain r where r: "tfo_literal_compare ocb e1 e2 = Some r"
    "tfo_order o0 e1 e2 = (if r = to_greater \<or> r = to_lesser then Some r else None)"
    using tfo_literal_compare_run [OF assms(1-4)] by blast
  obtain o1 where o1: "to_state o0 o1" "(if PropsAreEquiv e1 e2 EPIsPositive then compare_pos_eqns lim ocb b e1 e2
     else if EqnIsPositive e1 then compare_poseqn_negeqn lim ocb b e1 e2
     else do { (r, ocb) \<leftarrow> compare_poseqn_negeqn lim ocb b e2 e1; r \<leftarrow> POInverseRelation r; Some (r, ocb) }) =
      Some (lit_cmp_of o0 (lit_mset (EqnIsPositive e1) s1 t1) (lit_mset (EqnIsPositive e2) s2 t2), o1)"
    using LiteralCompare_terms [OF assms(1-3,5,6)] by blast
  have lc: "lit_cmp ocb = lit_cmp o0" using state_lit_cmp [OF assms(2)] .
  show ?thesis
    unfolding LiteralCompare_def o1(2) r(1) bind.bind_lunit lc
    using r(2) o1(1) assms(2) by (auto simp: literal_order_def PropsAreEquiv_sign Let_def)
qed

lemma LiteralCompare_run:
  assumes "to_valid o0" and "to_state o0 ocb" and "lit_cmp o0 = LCNormal"
    and "lit_pair lim o0 b e1 e2 s1 t1 s2 t2"
    and "EqnQueryProp e1 EPPseudoLit = EqnQueryProp e2 EPPseudoLit"
    and "EqnIsSelected e1 = EqnIsSelected e2" and "EqnIsSelected e1 \<Longrightarrow> EqnIsPositive e1 = EqnIsPositive e2"
    and "EqnIsOriented e1 \<Longrightarrow> to_gt o0 s1 t1" and "EqnIsOriented e2 \<Longrightarrow> to_gt o0 s2 t2"
  shows "\<exists>ocb'. to_state o0 ocb' \<and> LiteralCompare lim ocb b e1 e2 =
      Some (lit_cmp_of o0 (lit_mset (EqnIsPositive e1) s1 t1) (lit_mset (EqnIsPositive e2) s2 t2), ocb')"
  using LiteralCompare_all [OF assms(1,2,4) _ assms(8,9)] assms(3,5-7)
  by (auto simp: literal_order_def tfo_order_def)

lemma EqnOrient_run:
  assumes "to_valid o0" and "to_state o0 ocb" and "\<not> EqnQueryProp e EPMaxIsUpToDate"
    and "copies o0 b (lterm e) DEREF_ALWAYS s" and "copies o0 b (rterm e) DEREF_ALWAYS t"
    and "vars_by_code s t" and "within_limit lim o0 s t"
    and "lterm e \<noteq> true_term (eqn_bank e)" and "rterm e \<noteq> true_term (eqn_bank e)"
  shows "\<exists>res e' ocb'. EqnOrient lim ocb b e = Some (res, e', ocb') \<and> to_state o0 ocb' \<and> res = to_gt o0 t s \<and>
    EqnQueryProp e' EPMaxIsUpToDate \<and> EqnIsPositive e' = EqnIsPositive e \<and>
    (lterm e', rterm e') = (if res then (rterm e, lterm e) else (lterm e, rterm e)) \<and>
    EqnIsOriented e' = (if res then to_gt o0 t s else to_gt o0 s t) \<and>
    \<not> (if res then to_gt o0 s t else to_gt o0 t s)"
proof -
  have k: "kbo_term o0 s" "kbo_term o0 t" using copies_kbo_term assms(4,5) by blast+
  note iff = to_cmp_iff [OF assms(1) k]
  have gt: "to_cmp o0 s t = to_greater \<longleftrightarrow> to_gt o0 s t" "to_cmp o0 s t = to_lesser \<longleftrightarrow> to_gt o0 t s"
    using iff k by (simp_all add: term_rel_def)
  have neq: "s = t \<Longrightarrow> \<not> to_gt o0 s t"
    using term_ord.not_self [OF assms(1), of s] k(1) by (auto simp: term_rel_def)
  show ?thesis
  proof (cases "lterm e = rterm e")
    case True
    then have "s = t" using assms(4,5) by (simp add: copies_def)
    then show ?thesis
      using True assms(2,3) neq
      by (simp add: EqnOrient_def orient_flags) (rule exI [of _ False], simp)
  next
    case False
    obtain ocb' where o: "to_state o0 ocb'"
      "TOCompare lim ocb b (lterm e) (rterm e) DEREF_ALWAYS DEREF_ALWAYS = Some (to_cmp o0 s t, ocb')"
      using TOCompare_run [OF assms(1,4-7)] assms(2) by blast
    show ?thesis
      using False assms(3,8,9) o gt
      by (cases "to_cmp o0 s t")
        (auto simp: EqnOrient_def orient_flags to_cmp_def [of o0 s t] split: if_splits)
  qed
qed

text \<open>
  The order of the sides that orients a literal: \<open>$true\<close>, which makes an atom a literal, comes last,
  whatever the term ordering says. A literal whose orientation is up to date is left alone.
\<close>

definition side_gt :: "OCB \<Rightarrow> bindings \<Rightarrow> Term_p \<Rightarrow> Term_p \<Rightarrow> Term_p \<Rightarrow> bool" where
  "side_gt o0 b tt l r \<longleftrightarrow> l \<noteq> r \<and> (r = tt \<or> l \<noteq> tt \<and> to_gt o0 (sigma b l) (sigma b r))"

definition to_swap :: "OCB \<Rightarrow> bindings \<Rightarrow> Eqn \<Rightarrow> bool" where
  "to_swap o0 b e \<longleftrightarrow> \<not> EqnQueryProp e EPMaxIsUpToDate \<and> side_gt o0 b (true_term (eqn_bank e)) (rterm e) (lterm e)"

definition orient_result :: "OCB \<Rightarrow> bindings \<Rightarrow> Eqn \<Rightarrow> Eqn \<Rightarrow> bool" where
  "orient_result o0 b e e' \<longleftrightarrow>
     (if EqnQueryProp e EPMaxIsUpToDate then e' = e
      else EqnQueryProp e' EPMaxIsUpToDate \<and> EqnIsPositive e' = EqnIsPositive e \<and>
        {#lterm e', rterm e'#} = {#lterm e, rterm e#} \<and>
        EqnIsOriented e' = side_gt o0 b (true_term (eqn_bank e)) (lterm e') (rterm e') \<and>
        \<not> side_gt o0 b (true_term (eqn_bank e)) (rterm e') (lterm e'))"

lemma EqnOrient_all:
  assumes "to_valid o0" and "to_state o0 ocb"
    and "EqnQueryProp e EPMaxIsUpToDate \<or> lterm e = rterm e \<or> lterm e = true_term (eqn_bank e) \<or> rterm e = true_term (eqn_bank e) \<or>
      lit_pair lim o0 b e e (sigma b (lterm e)) (sigma b (rterm e)) (sigma b (lterm e)) (sigma b (rterm e))"
  shows "\<exists>e' ocb'. EqnOrient lim ocb b e = Some (to_swap o0 b e, e', ocb') \<and> to_state o0 ocb' \<and> orient_result o0 b e e'"
proof -
  consider (up) "EqnQueryProp e EPMaxIsUpToDate"
    | (trivial) "\<not> EqnQueryProp e EPMaxIsUpToDate" "lterm e = rterm e \<or> lterm e = true_term (eqn_bank e) \<or> rterm e = true_term (eqn_bank e)"
    | (terms) "\<not> EqnQueryProp e EPMaxIsUpToDate" "lterm e \<noteq> rterm e" "lterm e \<noteq> true_term (eqn_bank e)"
        "rterm e \<noteq> true_term (eqn_bank e)"
    by blast
  then show ?thesis
  proof cases
    case up
    then show ?thesis using assms(2) by (simp add: EqnOrient_def to_swap_def orient_result_def)
  next
    case trivial
    then show ?thesis using assms(2)
      by (auto simp: EqnOrient_def to_swap_def orient_result_def side_gt_def orient_flags add_mset_commute)
  next
    case terms
    then have pair: "lit_pair lim o0 b e e (sigma b (lterm e)) (sigma b (rterm e)) (sigma b (lterm e)) (sigma b (rterm e))"
      using assms(3) by blast
    obtain res e' ocb' where r: "EqnOrient lim ocb b e = Some (res, e', ocb')" "to_state o0 ocb'"
      "res = to_gt o0 (sigma b (rterm e)) (sigma b (lterm e))" "EqnQueryProp e' EPMaxIsUpToDate" "EqnIsPositive e' = EqnIsPositive e"
      "(lterm e', rterm e') = (if res then (rterm e, lterm e) else (lterm e, rterm e))"
      "EqnIsOriented e' = (if res then to_gt o0 (sigma b (rterm e)) (sigma b (lterm e)) else to_gt o0 (sigma b (lterm e)) (sigma b (rterm e)))"
      "\<not> (if res then to_gt o0 (sigma b (lterm e)) (sigma b (rterm e)) else to_gt o0 (sigma b (rterm e)) (sigma b (lterm e)))"
      using EqnOrient_run [OF assms(1,2) terms(1) _ _ _ _ terms(3,4), of b "sigma b (lterm e)" "sigma b (rterm e)" lim] pair
      unfolding lit_pair_def by blast
    have "res = to_swap o0 b e" using r(3) terms by (auto simp: to_swap_def side_gt_def)
    moreover have "orient_result o0 b e e'"
      using r(4-8) terms by (auto simp: orient_result_def side_gt_def add_mset_commute split: if_splits)
    ultimately show ?thesis using r(1,2) by auto
  qed
qed

lemma sample_copies_always: "kbo_term sample_ocb t \<Longrightarrow> copies sample_ocb (\<lambda>_. None) t DEREF_ALWAYS t"
proof -
  assume t: "kbo_term sample_ocb t"
  have "sigma (\<lambda>_. None) t = t"
    using sigma_eq [OF full_refl binds_ok_empty] t by (simp add: kbo_term_def)
  then show ?thesis using copies_always [of sample_ocb "\<lambda>_. None" t] subst_wf_empty t by (simp add: kbo_term_def)
qed

definition sample_true :: Term_p where
  "sample_true = TermCell 1 False 2 []"

definition sample_p :: "Term_p \<Rightarrow> Term_p" where
  "sample_p x = TermCell 24 True 2 [x]"

definition sample_tb :: TB where
  "sample_tb = TB.make sample_true (TermCell 2 False 2 []) sample_sig 0"

definition sample_lit :: "int \<Rightarrow> Term_p \<Rightarrow> Term_p \<Rightarrow> Eqn" where
  "sample_lit props s t = Eqn.make props 0 s t sample_tb"

lemmas sample_lit_defs = sample_lit_def sample_tb_def sample_true_def sample_p_def Eqn.defs TB.defs

lemma sample_lit_sides [simp]:
  "lterm (sample_lit p s t) = s" "rterm (sample_lit p s t) = t" "eqn_properties (sample_lit p s t) = p"
  by (simp_all add: sample_lit_defs)

section \<open>Properties\<close>

text \<open>C10 \<open>LiteralCompare\<close> decides the literal ordering that the control block asks for, in all its
  configurations: pseudo-literals are smallest; selected literals are greater than others, and two of
  them with different signs incomparable; under \<open>LCTFOEqMax\<close> and \<open>LCTFOEqMin\<close> equations come before or
  after the other literals, which are compared by their predicate symbols; and what this leaves open is the
  comparison of the instantiated literals in the twofold multiset extension of the term ordering, which
  is well-founded, for equations, inequations and the mixed case. No assertion fails, and the scratch
  state of the ordering stays fit. Conditions: an implemented and admissible ordering, literals that
  are marked as oriented only if they are, the flag of equations in order where it is read, and
  a recursion limit of the path orderings that the terms do not reach.\<close>

theorem LiteralCompare_order:
  assumes "to_valid o0" and "to_state o0 ocb" and "lit_pair lim o0 b e1 e2 s1 t1 s2 t2"
    and "lit_cmp o0 \<in> {LCTFOEqMax, LCTFOEqMin} \<longrightarrow> EqnIsEquLit e1 \<noteq> None \<and> EqnIsEquLit e2 \<noteq> None"
    and "EqnIsOriented e1 \<Longrightarrow> to_gt o0 s1 t1" and "EqnIsOriented e2 \<Longrightarrow> to_gt o0 s2 t2"
  shows "(\<exists>ocb'. to_state o0 ocb' \<and> LiteralCompare lim ocb b e1 e2 = Some (literal_order o0 e1 e2 s1 t1 s2 t2, ocb')) \<and>
    wf {(N, M). lit_gt o0 M N}"
  using LiteralCompare_all [OF assms] wf_lit_gt [OF assms(1)] by blast

theorem LiteralCompare_order_witness:
  "\<exists>r ocb'. LiteralCompare 0 sample_ocb (\<lambda>_. None) (sample_lit EPIsPositive (sample_g (sample_var 1)) (sample_var 1))
     (sample_lit 0 (sample_const 21) (sample_const 21)) = Some (r, ocb')"
proof -
  note k = sample_kbo_term [OF sample_ocb_sig]
  have st: "to_state sample_ocb sample_ocb" by (simp add: to_state_def)
  have lc: "lit_cmp sample_ocb = LCNormal" by (simp add: sample_ocb_def)
  have pair: "lit_pair 0 sample_ocb (\<lambda>_. None) (sample_lit EPIsPositive (sample_g (sample_var 1)) (sample_var 1))
     (sample_lit 0 (sample_const 21) (sample_const 21)) (sample_g (sample_var 1)) (sample_var 1) (sample_const 21) (sample_const 21)"
    using k [THEN sample_copies_always] kbo6_not_lpo
    by (simp add: lit_pair_def within_limit_def vars_by_code_def sample_defs)
  have q: "\<not> EqnQueryProp (sample_lit p s t) EPPseudoLit" "\<not> EqnIsSelected (sample_lit p s t)"
    "\<not> EqnIsOriented (sample_lit p s t)" if "p \<in> {0, EPIsPositive}" for p s t
    using that by (auto simp: EqnQueryProp_def EqnIsSelected_def EqnIsOriented_def EP_defs)
  show ?thesis
    using LiteralCompare_order [OF sample_to_valid st pair] q lc by auto
qed

text \<open>A defect. The flag \<open>EPIsSplitLit\<close> is 65636, not the power of two 65536: it includes the bits
  of \<open>EPMaxIsUpToDate\<close> and \<open>EPIsStrictlyMaximal\<close>. A literal marked with it therefore counts as
  strictly maximal and as oriented up to date, so that \<open>EqnOrient\<close> never orients it, and it is no longer
  recognised as a split literal once it is marked as not strictly maximal.\<close>

theorem EPIsSplitLit_overlaps:
  "EqnQueryProp (EqnSetProp e EPIsSplitLit) EPMaxIsUpToDate \<and>
   EqnQueryProp (EqnSetProp e EPIsSplitLit) EPIsStrictlyMaximal \<and>
   EqnOrient lim ocb b (EqnSetProp e EPIsSplitLit) = Some (False, EqnSetProp e EPIsSplitLit, ocb) \<and>
   EqnIsOriented (EqnSetProp e EPIsSplitLit) = EqnIsOriented e \<and>
   \<not> EqnQueryProp (EqnDelProp (EqnSetProp e EPIsSplitLit) EPIsStrictlyMaximal) EPIsSplitLit"
proof -
  have up: "EqnQueryProp (EqnSetProp e EPIsSplitLit) EPMaxIsUpToDate"
    using query_mono [OF query_set EP_disjoint(5)] .
  have "EPIsSplitLit AND EPIsOriented = 0" by (simp add: EP_defs)
  then show ?thesis
    using up query_mono [OF query_set EP_disjoint(6)] query_mono [OF _ EP_disjoint(6)]
      query_del [OF EP_disjoint(7)] by (auto simp: EqnOrient_def EqnIsOriented_def query_set_other)
qed

end
