(* ===== verification/EqnLists.thy ===== *)
theory EqnLists
  imports LiteralOrder
begin

text \<open>
  Lists of literals (\<open>CLAUSES/ccl_eqnlist.c\<close>): flags of all literals, orientation, and the marking
  of the maximal literals. The literal cells are a store \<open>st\<close>, the address of a cell is its index,
  and a linked list is the list of the addresses met along the \<open>next\<close> fields.
\<close>

section \<open>The code\<close>

definition eqn_at :: "Eqn list \<Rightarrow> nat \<Rightarrow> Eqn option" where
  "eqn_at st a = (if a < length st then Some (st ! a) else None)"

definition eqn_upd :: "Eqn list \<Rightarrow> nat \<Rightarrow> (Eqn \<Rightarrow> Eqn) \<Rightarrow> Eqn list option" where
  "eqn_upd st a f = (if a < length st then Some (st[a := f (st ! a)]) else None)"

primrec EqnListSetProp :: "Eqn list \<Rightarrow> nat list \<Rightarrow> int \<Rightarrow> (int \<times> Eqn list) option" where
  "EqnListSetProp st [] prop = Some (0, st)"
| "EqnListSetProp st (a # list) prop =
     do { st \<leftarrow> eqn_upd st a (\<lambda>e. EqnSetProp e prop);
          (res, st) \<leftarrow> EqnListSetProp st list prop;
          Some (res + 1, st) }"

primrec EqnListDelProp :: "Eqn list \<Rightarrow> nat list \<Rightarrow> int \<Rightarrow> (int \<times> Eqn list) option" where
  "EqnListDelProp st [] prop = Some (0, st)"
| "EqnListDelProp st (a # list) prop =
     do { st \<leftarrow> eqn_upd st a (\<lambda>e. EqnDelProp e prop);
          (res, st) \<leftarrow> EqnListDelProp st list prop;
          Some (res + 1, st) }"

primrec EqnListFlipProp :: "Eqn list \<Rightarrow> nat list \<Rightarrow> int \<Rightarrow> (int \<times> Eqn list) option" where
  "EqnListFlipProp st [] prop = Some (0, st)"
| "EqnListFlipProp st (a # list) prop =
     do { st \<leftarrow> eqn_upd st a (\<lambda>e. EqnFlipProp e prop);
          (res, st) \<leftarrow> EqnListFlipProp st list prop;
          Some (res + 1, st) }"

definition EqnListNegateEqns :: "Eqn list \<Rightarrow> nat list \<Rightarrow> Eqn list option" where
  "EqnListNegateEqns st list = map_option snd (EqnListFlipProp st list EPIsPositive)"

definition EqnListQueryPropNumber :: "Eqn list \<Rightarrow> int \<Rightarrow> int" where
  "EqnListQueryPropNumber list prop = int (length [e \<leftarrow> list. EqnQueryProp e prop])"

definition EqnListToStack :: "nat list \<Rightarrow> nat pstack option" where
  "EqnListToStack list = foldM PStackPushP PStackAlloc list"

partial_function (option) from_stack_loop :: "nat pstack \<Rightarrow> nat list \<Rightarrow> nat list option" where [code]:
  "from_stack_loop stack res =
     (if PStackEmpty stack then Some res
      else do { (handle, stack) \<leftarrow> PStackPop stack; from_stack_loop stack (handle # res) })"

definition EqnListFromStack :: "nat pstack \<Rightarrow> nat list option" where
  "EqnListFromStack stack = from_stack_loop stack []"

primrec EqnListOrient :: "int \<Rightarrow> OCB \<Rightarrow> bindings \<Rightarrow> Eqn list \<Rightarrow> nat list \<Rightarrow> (int \<times> Eqn list \<times> OCB) option" where
  "EqnListOrient lim ocb b st [] = Some (0, st, ocb)"
| "EqnListOrient lim ocb b st (a # list) =
     do { handle \<leftarrow> eqn_at st a;
          (swapped, handle, ocb) \<leftarrow> EqnOrient lim ocb b handle;
          st \<leftarrow> eqn_upd st a (\<lambda>_. handle);
          (res, st, ocb) \<leftarrow> EqnListOrient lim ocb b st list;
          Some (if swapped then res + 1 else res, st, ocb) }"

text \<open>
  The inner loop of \<open>EqnListMaximalLiterals\<close>: the candidate against the rest of the list. It
  returns whether the candidate survives and the rest of the list.
\<close>

primrec max_stepper ::
  "int \<Rightarrow> bindings \<Rightarrow> nat \<Rightarrow> nat list \<Rightarrow> Eqn list \<Rightarrow> OCB \<Rightarrow> (bool \<times> nat list \<times> Eqn list \<times> OCB) option" where
  "max_stepper lim b cand [] st ocb = Some (True, [], st, ocb)"
| "max_stepper lim b cand (a # list) st ocb =
     do { e1 \<leftarrow> eqn_at st cand;
          e2 \<leftarrow> eqn_at st a;
          (cmp, ocb) \<leftarrow> LiteralCompare lim ocb b e1 e2;
          if cmp = to_greater
          then do { st \<leftarrow> eqn_upd st a (\<lambda>e. EqnDelProp e EPIsStrictlyMaximal);
                    max_stepper lim b cand list st ocb }
          else if cmp = to_lesser
          then do { st \<leftarrow> eqn_upd st cand (\<lambda>e. EqnDelProp e EPIsStrictlyMaximal);
                    Some (False, a # list, st, ocb) }
          else do { st \<leftarrow> (if cmp = to_equal
                          then do { st \<leftarrow> eqn_upd st a (\<lambda>e. EqnDelProp e EPIsStrictlyMaximal);
                                    eqn_upd st cand (\<lambda>e. EqnDelProp e EPIsStrictlyMaximal) }
                          else Some st);
                    (alive, list, st, ocb) \<leftarrow> max_stepper lim b cand list st ocb;
                    Some (alive, a # list, st, ocb) } }"

partial_function (option) max_loop ::
  "int \<Rightarrow> bindings \<Rightarrow> nat list \<Rightarrow> nat list \<Rightarrow> Eqn list \<Rightarrow> OCB \<Rightarrow> (nat list \<times> Eqn list \<times> OCB) option" where [code]:
  "max_loop lim b list maxlits st ocb =
     (case list of
        [] \<Rightarrow> Some (maxlits, st, ocb)
      | cand # list \<Rightarrow>
          do { (alive, list, st, ocb) \<leftarrow> max_stepper lim b cand list st ocb;
               max_loop lim b list (if alive then cand # maxlits else maxlits) st ocb })"

definition EqnListMaximalLiterals ::
  "int \<Rightarrow> OCB \<Rightarrow> bindings \<Rightarrow> Eqn list \<Rightarrow> nat list \<Rightarrow> (int \<times> nat list \<times> Eqn list \<times> OCB) option" where
  "EqnListMaximalLiterals lim ocb b st list =
     do { archive \<leftarrow> EqnListToStack list;
          (_, st) \<leftarrow> EqnListSetProp st list EPIsStrictlyMaximal;
          (_, st) \<leftarrow> EqnListDelProp st list EPIsMaximal;
          (maxlits, st, ocb) \<leftarrow> max_loop lim b list [] st ocb;
          (res, st) \<leftarrow> EqnListSetProp st maxlits EPIsMaximal;
          list \<leftarrow> EqnListFromStack archive;
          Some (res, list, st, ocb) }"

text \<open>Whether a literal is maximal among the literals marked so.\<close>

primrec EqnListEqnIsMaximal ::
  "int \<Rightarrow> OCB \<Rightarrow> bindings \<Rightarrow> Eqn list \<Rightarrow> nat list \<Rightarrow> nat \<Rightarrow> (bool \<times> OCB) option" where
  "EqnListEqnIsMaximal lim ocb b st [] eqn = Some (True, ocb)"
| "EqnListEqnIsMaximal lim ocb b st (a # list) eqn =
     do { handle \<leftarrow> eqn_at st a;
          if a \<noteq> eqn \<and> EqnIsMaximal handle
          then do { e \<leftarrow> eqn_at st eqn;
                    (cmp, ocb) \<leftarrow> LiteralCompare lim ocb b handle e;
                    if cmp = to_greater then Some (False, ocb)
                    else EqnListEqnIsMaximal lim ocb b st list eqn }
          else EqnListEqnIsMaximal lim ocb b st list eqn }"

primrec EqnListEqnIsStrictlyMaximal ::
  "int \<Rightarrow> OCB \<Rightarrow> bindings \<Rightarrow> Eqn list \<Rightarrow> nat list \<Rightarrow> nat \<Rightarrow> (bool \<times> OCB) option" where
  "EqnListEqnIsStrictlyMaximal lim ocb b st [] eqn = Some (True, ocb)"
| "EqnListEqnIsStrictlyMaximal lim ocb b st (a # list) eqn =
     do { handle \<leftarrow> eqn_at st a;
          if a \<noteq> eqn \<and> EqnIsMaximal handle
          then do { e \<leftarrow> eqn_at st eqn;
                    (cmp, ocb) \<leftarrow> LiteralCompare lim ocb b handle e;
                    if cmp = to_equal \<or> cmp = to_greater then Some (False, ocb)
                    else EqnListEqnIsStrictlyMaximal lim ocb b st list eqn }
          else EqnListEqnIsStrictlyMaximal lim ocb b st list eqn }"

section \<open>The store\<close>

text \<open>The literal at an address, up to the two flags that the maximality computation changes.\<close>

definition lit_core :: "Eqn \<Rightarrow> Term_p \<times> Term_p \<times> bool \<times> bool \<times> bool \<times> bool" where
  "lit_core e = (lterm e, rterm e, EqnIsPositive e, EqnIsOriented e, EqnIsSelected e, EqnQueryProp e EPPseudoLit)"

definition same_store :: "Eqn list \<Rightarrow> Eqn list \<Rightarrow> bool" where
  "same_store st st' \<longleftrightarrow> map lit_core st' = map lit_core st"

lemma same_store_length: "same_store st st' \<Longrightarrow> length st' = length st"
  unfolding same_store_def by (metis length_map)

lemma same_store_refl [simp]: "same_store st st"
  by (simp add: same_store_def)

lemma same_store_trans: "same_store st st1 \<Longrightarrow> same_store st1 st2 \<Longrightarrow> same_store st st2"
  by (simp add: same_store_def)

lemma same_store_nth: "same_store st st' \<Longrightarrow> a < length st \<Longrightarrow> lit_core (st' ! a) = lit_core (st ! a)"
  unfolding same_store_def by (metis nth_map length_map)

lemma max_flags_disjoint:
  "EPIsMaximal AND EPIsPositive = 0" "EPIsMaximal AND EPIsOriented = 0" "EPIsMaximal AND EPIsSelected = 0"
  "EPIsMaximal AND EPPseudoLit = 0" "EPIsMaximal AND EPIsStrictlyMaximal = 0" "EPIsStrictlyMaximal AND EPIsMaximal = 0"
  "EPIsStrictlyMaximal AND EPIsPositive = 0" "EPIsStrictlyMaximal AND EPIsOriented = 0"
  "EPIsStrictlyMaximal AND EPIsSelected = 0" "EPIsStrictlyMaximal AND EPPseudoLit = 0" "EPIsMaximal \<noteq> 0"
  by (simp_all add: EP_defs)

lemmas query_simps = query_set query_set_other query_del query_del_other max_flags_disjoint EP_disjoint

lemma lit_core_set [simp]:
  "p \<in> {EPIsMaximal, EPIsStrictlyMaximal} \<Longrightarrow> lit_core (EqnSetProp e p) = lit_core e"
  "p \<in> {EPIsMaximal, EPIsStrictlyMaximal} \<Longrightarrow> lit_core (EqnDelProp e p) = lit_core e"
  by (auto simp: lit_core_def EqnIsPositive_def EqnIsOriented_def EqnIsSelected_def query_simps)

lemma same_store_upd:
  assumes "same_store st st'" and "lit_core e = lit_core (st' ! a)"
  shows "same_store st (st'[a := e])"
proof -
  have "map lit_core (st'[a := e]) = map lit_core (st'[a := st' ! a])"
    using assms(2) by (simp only: map_update)
  then show ?thesis using assms(1) by (simp add: same_store_def)
qed

text \<open>The addresses of a store that carry a flag.\<close>

definition flagged :: "Eqn list \<Rightarrow> int \<Rightarrow> nat set" where
  "flagged st p = {a. a < length st \<and> EqnQueryProp (st ! a) p}"

lemma flagged_set: "a < length st \<Longrightarrow> flagged (st[a := EqnSetProp (st ! a) p]) p = insert a (flagged st p)"
  by (auto simp: flagged_def nth_list_update query_set)

lemma flagged_del: "a < length st \<Longrightarrow> p \<noteq> 0 \<Longrightarrow> flagged (st[a := EqnDelProp (st ! a) p]) p = flagged st p - {a}"
  by (auto simp: flagged_def nth_list_update query_del split: if_splits)

lemma flagged_other:
  "a < length st \<Longrightarrow> p AND q = 0 \<Longrightarrow> flagged (st[a := EqnSetProp (st ! a) p]) q = flagged st q"
  "a < length st \<Longrightarrow> p AND q = 0 \<Longrightarrow> flagged (st[a := EqnDelProp (st ! a) p]) q = flagged st q"
  by (auto simp: flagged_def nth_list_update query_set_other query_del_other)

lemma EqnListSetProp_ok:
  assumes "set list \<subseteq> {..<length st}"
  shows "\<exists>st'. EqnListSetProp st list p = Some (int (length list), st') \<and> length st' = length st \<and>
    flagged st' p = flagged st p \<union> set list \<and> (\<forall>q. p AND q = 0 \<longrightarrow> flagged st' q = flagged st q) \<and>
    (p \<in> {EPIsMaximal, EPIsStrictlyMaximal} \<longrightarrow> same_store st st')"
  using assms
proof (induction list arbitrary: st)
  case (Cons a list)
  let ?st = "st[a := EqnSetProp (st ! a) p]"
  have a: "a < length st" "set list \<subseteq> {..<length ?st}" using Cons.prems by auto
  obtain st' where st': "EqnListSetProp ?st list p = Some (int (length list), st')" "length st' = length ?st"
    "flagged st' p = flagged ?st p \<union> set list" "\<forall>q. p AND q = 0 \<longrightarrow> flagged st' q = flagged ?st q"
    "p \<in> {EPIsMaximal, EPIsStrictlyMaximal} \<longrightarrow> same_store ?st st'"
    using Cons.IH [OF a(2)] by blast
  have "p \<in> {EPIsMaximal, EPIsStrictlyMaximal} \<longrightarrow> same_store st st'"
    using same_store_trans [OF same_store_upd [OF same_store_refl]] st'(5) lit_core_set(1) by blast
  then show ?case using st' a(1) by (auto simp: eqn_upd_def flagged_set flagged_other)
qed simp

lemma EqnListDelProp_ok:
  assumes "set list \<subseteq> {..<length st}" and "p \<noteq> 0"
  shows "\<exists>st'. EqnListDelProp st list p = Some (int (length list), st') \<and> length st' = length st \<and>
    flagged st' p = flagged st p - set list \<and> (\<forall>q. p AND q = 0 \<longrightarrow> flagged st' q = flagged st q) \<and>
    (p \<in> {EPIsMaximal, EPIsStrictlyMaximal} \<longrightarrow> same_store st st')"
  using assms
proof (induction list arbitrary: st)
  case (Cons a list)
  let ?st = "st[a := EqnDelProp (st ! a) p]"
  have a: "a < length st" "set list \<subseteq> {..<length ?st}" using Cons.prems by auto
  obtain st' where st': "EqnListDelProp ?st list p = Some (int (length list), st')" "length st' = length ?st"
    "flagged st' p = flagged ?st p - set list" "\<forall>q. p AND q = 0 \<longrightarrow> flagged st' q = flagged ?st q"
    "p \<in> {EPIsMaximal, EPIsStrictlyMaximal} \<longrightarrow> same_store ?st st'"
    using Cons.IH [OF a(2) assms(2)] by blast
  have "p \<in> {EPIsMaximal, EPIsStrictlyMaximal} \<longrightarrow> same_store st st'"
    using same_store_trans [OF same_store_upd [OF same_store_refl]] st'(5) lit_core_set(2) by blast
  then show ?case using st' a(1) assms(2) by (auto simp: eqn_upd_def flagged_del flagged_other)
qed simp

lemma EqnListToStack_ok: "\<exists>stack. EqnListToStack list = Some stack \<and> pstack_ok stack \<and> pstack_list stack = list"
proof -
  have "\<exists>s. foldM PStackPushP PStackAlloc list = Some s \<and> (pstack_ok s \<and> pstack_list s = list)"
    by (rule foldM_invariant [where P = "\<lambda>s xs. pstack_ok s \<and> pstack_list s = xs"])
      (use push_ok in \<open>auto simp: PStackPushP_def\<close>)
  then show ?thesis by (simp add: EqnListToStack_def)
qed

lemma from_stack_loop_ok:
  "pstack_ok stack \<Longrightarrow> from_stack_loop stack res = Some (pstack_list stack @ res)"
proof (induction "pstack_list stack" arbitrary: stack res rule: rev_induct)
  case Nil
  then show ?case by (subst from_stack_loop.simps) (simp add: PStackEmpty_iff)
next
  case (snoc x xs)
  obtain s' where s': "PStackPop stack = Some (x, s')" "pstack_ok s'" "pstack_list s' = xs"
    using PStackPop_ok [OF snoc.prems snoc.hyps(2) [symmetric]] by blast
  have "\<not> PStackEmpty stack" using snoc.prems snoc.hyps(2) [symmetric] by (simp add: PStackEmpty_iff)
  then show ?case
    using s' snoc.hyps(1) [OF s'(3) [symmetric] s'(2)] snoc.hyps(2) [symmetric]
    by (subst from_stack_loop.simps) simp
qed

section \<open>Maximal literals\<close>

definition lit_val :: "bindings \<Rightarrow> Eqn \<Rightarrow> Term_p multiset multiset" where
  "lit_val b e = lit_mset (EqnIsPositive e) (sigma b (lterm e)) (sigma b (rterm e))"

text \<open>Literals that are compared by the calculus' ordering alone, with their flags up to date.\<close>

definition lits_ok :: "int \<Rightarrow> OCB \<Rightarrow> bindings \<Rightarrow> Eqn list \<Rightarrow> nat set \<Rightarrow> bool" where
  "lits_ok lim ocb b st L \<longleftrightarrow> L \<subseteq> {..<length st} \<and>
     (\<forall>a \<in> L. \<not> EqnIsSelected (st ! a) \<and> \<not> EqnQueryProp (st ! a) EPPseudoLit \<and>
        (EqnIsOriented (st ! a) \<longrightarrow> to_gt ocb (sigma b (lterm (st ! a))) (sigma b (rterm (st ! a))))) \<and>
     (\<forall>a \<in> L. \<forall>c \<in> L. lit_pair lim ocb b (st ! a) (st ! c) (sigma b (lterm (st ! a))) (sigma b (rterm (st ! a)))
        (sigma b (lterm (st ! c))) (sigma b (rterm (st ! c))))"

lemma lit_val_core: "lit_core e = lit_core e' \<Longrightarrow> lit_val b e = lit_val b e'"
  by (simp add: lit_core_def lit_val_def)

lemma lits_ok_same:
  assumes "lits_ok lim ocb b st L" and "same_store st st'"
  shows "lits_ok lim ocb b st' L" and "a \<in> L \<Longrightarrow> lit_val b (st' ! a) = lit_val b (st ! a)"
proof -
  have "lit_core (st' ! a) = lit_core (st ! a)" if "a \<in> L" for a
    using same_store_nth [OF assms(2), of a] assms(1) that by (auto simp: lits_ok_def)
  then show "lits_ok lim ocb b st' L" and "a \<in> L \<Longrightarrow> lit_val b (st' ! a) = lit_val b (st ! a)"
    using assms same_store_length [OF assms(2)] lit_val_core by (simp_all add: lits_ok_def lit_core_def lit_pair_def)
qed

lemma LiteralCompare_at:
  assumes "to_valid o0" and "to_state o0 ocb" and "lit_cmp o0 = LCNormal" and "lits_ok lim o0 b st0 L"
    and "same_store st0 st" and "a \<in> L" and "c \<in> L"
  shows "\<exists>ocb'. to_state o0 ocb' \<and> LiteralCompare lim ocb b (st ! a) (st ! c) =
      Some (lit_cmp_of o0 (lit_val b (st0 ! a)) (lit_val b (st0 ! c)), ocb')"
proof -
  note ok = lits_ok_same [OF assms(4,5)]
  have pair: "lit_pair lim o0 b (st ! a) (st ! c) (sigma b (lterm (st ! a))) (sigma b (rterm (st ! a)))
        (sigma b (lterm (st ! c))) (sigma b (rterm (st ! c)))"
    using ok(1) assms(6,7) unfolding lits_ok_def by blast
  show ?thesis
    using LiteralCompare_run [OF assms(1-3) pair] ok(1) ok(2) [of a] ok(2) [of c] assms(6,7)
    by (simp add: lits_ok_def lit_val_def)
qed

lemma lit_gt_trans: "to_valid ocb \<Longrightarrow> lit_gt ocb M N \<Longrightarrow> lit_gt ocb N K \<Longrightarrow> lit_gt ocb M K"
  using transD [OF trans_mult [OF mset_ord.rel_trans]] by (auto simp: lit_gt_def)

lemma lit_cmp_of_cases:
  assumes "to_valid ocb"
  shows "lit_cmp_of ocb M N = to_greater \<longleftrightarrow> lit_gt ocb M N" "lit_cmp_of ocb M N = to_lesser \<longleftrightarrow> lit_gt ocb N M"
    "lit_cmp_of ocb M N = to_equal \<longleftrightarrow> M = N"
  using mset_ord.ms_asym [OF assms, of M N] mset_ord.ms_asym [OF assms, of N M]
  by (auto simp: lit_cmp_of_def lit_gt_def)

text \<open>What the inner loop establishes; \<open>F\<close> and \<open>F'\<close> are the literals marked strictly maximal.\<close>

definition stepper_post ::
  "OCB \<Rightarrow> (nat \<Rightarrow> Term_p multiset multiset) \<Rightarrow> nat \<Rightarrow> nat list \<Rightarrow> nat set \<Rightarrow> bool \<Rightarrow> nat list \<Rightarrow> nat set \<Rightarrow> bool" where
  "stepper_post ocb M c js F alive js' F' \<longleftrightarrow>
     set js' \<subseteq> set js \<and> distinct js' \<and> F' \<subseteq> F \<and> F - F' \<subseteq> insert c (set js) \<and>
     (\<forall>k \<in> set js - set js'. lit_gt ocb (M c) (M k) \<and> k \<notin> F') \<and>
     (alive \<longrightarrow> (\<forall>j \<in> set js'. \<not> lit_gt ocb (M c) (M j) \<and> \<not> lit_gt ocb (M j) (M c) \<and>
        (M j = M c \<longrightarrow> j \<notin> F' \<and> c \<notin> F'))) \<and>
     (\<not> alive \<longrightarrow> c \<notin> F' \<and> (\<exists>j \<in> set js'. lit_gt ocb (M j) (M c))) \<and>
     (\<forall>a \<in> F - F'. a \<in> set js' \<or> a = c \<and> alive \<longrightarrow> (\<exists>j \<in> insert c (set js). j \<noteq> a \<and> M j = M a))"

lemma max_stepper_ok:
  assumes "to_valid o0" and "lit_cmp o0 = LCNormal" and "lits_ok lim o0 b st0 L"
    and "to_state o0 ocb" and "same_store st0 st" and "set (c # js) \<subseteq> L" and "distinct (c # js)"
  shows "\<exists>alive js' st' ocb'. max_stepper lim b c js st ocb = Some (alive, js', st', ocb') \<and> to_state o0 ocb' \<and>
    same_store st0 st' \<and> flagged st' EPIsMaximal = flagged st EPIsMaximal \<and>
    stepper_post o0 (\<lambda>a. lit_val b (st0 ! a)) c js (flagged st EPIsStrictlyMaximal) alive js'
      (flagged st' EPIsStrictlyMaximal)"
  using assms(4-7)
proof (induction js arbitrary: st ocb)
  case Nil
  have "stepper_post o0 (\<lambda>a. lit_val b (st0 ! a)) c [] F True [] F" for F by (simp add: stepper_post_def)
  then show ?case using Nil by auto
next
  case (Cons j js)
  let ?M = "\<lambda>a. lit_val b (st0 ! a)" and ?S = EPIsStrictlyMaximal
  let ?del = "\<lambda>st a. st[a := EqnDelProp (st ! a) EPIsStrictlyMaximal]"
  have mem: "c \<in> L" "j \<in> L" "set (c # js) \<subseteq> L" "distinct (c # js)" "c \<noteq> j" "j \<notin> set js"
    using Cons.prems(3,4) by auto
  then have len: "c < length st" "j < length st"
    using assms(3) same_store_length [OF Cons.prems(2)] by (auto simp: lits_ok_def)
  have del: "same_store st0 (?del st a)" "flagged (?del st a) EPIsMaximal = flagged st EPIsMaximal"
    "flagged (?del st a) ?S = flagged st ?S - {a}"
    if "same_store st0 st" "a < length st" for st a
    using that same_store_upd [OF that(1)] by (simp_all add: flagged_other flagged_del query_simps)
  obtain o1 where o1: "to_state o0 o1"
    "LiteralCompare lim ocb b (st ! c) (st ! j) = Some (lit_cmp_of o0 (?M c) (?M j), o1)"
    using LiteralCompare_at [OF assms(1) Cons.prems(1) assms(2,3) Cons.prems(2) mem(1,2)] by blast
  note cmp = lit_cmp_of_cases [OF assms(1), of "?M c" "?M j"]
  show ?case
  proof (cases "lit_cmp_of o0 (?M c) (?M j)")
    case to_greater
    obtain alive js' st' o2 where r: "max_stepper lim b c js (?del st j) o1 = Some (alive, js', st', o2)"
      "to_state o0 o2" "same_store st0 st'" "flagged st' EPIsMaximal = flagged st EPIsMaximal"
      "stepper_post o0 ?M c js (flagged st ?S - {j}) alive js' (flagged st' ?S)"
      using Cons.IH [OF o1(1) del(1) mem(3,4)] del(2,3) Cons.prems(2) len by metis
    have "stepper_post o0 ?M c (j # js) (flagged st ?S) alive js' (flagged st' ?S)"
      using r(5) to_greater cmp(1) mem(5,6) unfolding stepper_post_def by auto
    then show ?thesis using r o1 to_greater len by (auto simp: eqn_at_def eqn_upd_def)
  next
    case to_lesser
    have "stepper_post o0 ?M c (j # js) (flagged st ?S) False (j # js) (flagged st ?S - {c})"
      using to_lesser cmp(2) mem unfolding stepper_post_def by auto
    then show ?thesis
      using o1 to_lesser len del [OF Cons.prems(2) len(1)] by (auto simp: eqn_at_def eqn_upd_def)
  next
    case to_equal
    let ?st = "?del (?del st j) c"
    have st: "same_store st0 ?st" "flagged ?st EPIsMaximal = flagged st EPIsMaximal"
      "flagged ?st ?S = flagged st ?S - {j} - {c}"
      using del [OF Cons.prems(2) len(2)] del [OF del(1) [OF Cons.prems(2) len(2)], of c] len(1) by simp_all
    obtain alive js' st' o2 where r: "max_stepper lim b c js ?st o1 = Some (alive, js', st', o2)"
      "to_state o0 o2" "same_store st0 st'" "flagged st' EPIsMaximal = flagged st EPIsMaximal"
      "stepper_post o0 ?M c js (flagged st ?S - {j} - {c}) alive js' (flagged st' ?S)"
      using Cons.IH [OF o1(1) st(1) mem(3,4)] st(2,3) by metis
    have "?M c = ?M j" "\<not> lit_gt o0 (?M c) (?M j)" using to_equal cmp by simp_all
    then have "stepper_post o0 ?M c (j # js) (flagged st ?S) alive (j # js') (flagged st' ?S)"
      using r(5) mem(5,6) unfolding stepper_post_def by (auto 0 3)
    then show ?thesis using r o1 to_equal len by (auto simp: eqn_at_def eqn_upd_def)
  next
    case to_uncomparable
    obtain alive js' st' o2 where r: "max_stepper lim b c js st o1 = Some (alive, js', st', o2)"
      "to_state o0 o2" "same_store st0 st'" "flagged st' EPIsMaximal = flagged st EPIsMaximal"
      "stepper_post o0 ?M c js (flagged st ?S) alive js' (flagged st' ?S)"
      using Cons.IH [OF o1(1) Cons.prems(2) mem(3,4)] by blast
    have "?M c \<noteq> ?M j" "\<not> lit_gt o0 (?M c) (?M j)" "\<not> lit_gt o0 (?M j) (?M c)"
      using to_uncomparable cmp by auto
    then have "stepper_post o0 ?M c (j # js) (flagged st ?S) alive (j # js') (flagged st' ?S)"
      using r(5) mem(5,6) unfolding stepper_post_def by (auto 0 3)
    then show ?thesis using r o1 to_uncomparable len by (auto simp: eqn_at_def)
  qed (simp_all add: lit_cmp_of_def split: if_splits)
qed

text \<open>The invariant of the outer loop: \<open>R\<close> is the rest of the list, \<open>X\<close> the survivors so far.\<close>

definition max_inv ::
  "OCB \<Rightarrow> (nat \<Rightarrow> Term_p multiset multiset) \<Rightarrow> nat set \<Rightarrow> nat list \<Rightarrow> nat list \<Rightarrow> nat set \<Rightarrow> bool" where
  "max_inv ocb M L R X F \<longleftrightarrow> distinct (R @ X) \<and> set (R @ X) \<subseteq> L \<and>
     (\<forall>k \<in> L - set (R @ X). k \<notin> F \<and> (\<exists>j \<in> set (R @ X). lit_gt ocb (M j) (M k))) \<and>
     (\<forall>x \<in> set X. \<forall>j \<in> set (R @ X). \<not> lit_gt ocb (M j) (M x) \<and> \<not> lit_gt ocb (M x) (M j) \<and>
        (j \<noteq> x \<and> M j = M x \<longrightarrow> j \<notin> F \<and> x \<notin> F)) \<and>
     (\<forall>a \<in> set (R @ X) - F. \<exists>j \<in> L. j \<noteq> a \<and> M j = M a)"

lemma max_inv_step:
  assumes v: "to_valid ocb" and inv: "max_inv ocb M L (c # R) X F" and post: "stepper_post ocb M c R F alive R' F'"
  shows "max_inv ocb M L R' (if alive then c # X else X) F'"
proof -
  let ?X = "if alive then c # X else X"
  have tr: "lit_gt ocb (M i) (M j) \<Longrightarrow> lit_gt ocb (M j) (M k) \<Longrightarrow> lit_gt ocb (M i) (M k)" for i j k
    using lit_gt_trans [OF v] by blast
  have irr: "\<not> lit_gt ocb (M i) (M i)" for i
    using mset_ord.ms_asym [OF v, of "M i" "M i"] by (auto simp: lit_gt_def)
  have sub: "set R' \<subseteq> set R" "distinct R'" "F' \<subseteq> F" and diff: "F - F' \<subseteq> insert c (set R)"
    and killed: "\<And>k. k \<in> set R \<Longrightarrow> k \<notin> set R' \<Longrightarrow> lit_gt ocb (M c) (M k) \<and> k \<notin> F'"
    and live: "\<And>j. alive \<Longrightarrow> j \<in> set R' \<Longrightarrow> \<not> lit_gt ocb (M c) (M j) \<and> \<not> lit_gt ocb (M j) (M c) \<and>
        (M j = M c \<longrightarrow> j \<notin> F' \<and> c \<notin> F')"
    and dead: "\<not> alive \<Longrightarrow> c \<notin> F' \<and> (\<exists>j \<in> set R'. lit_gt ocb (M j) (M c))"
    and twin: "\<And>a. a \<in> F - F' \<Longrightarrow> a \<in> set R' \<or> a = c \<and> alive \<Longrightarrow> \<exists>j \<in> insert c (set R). j \<noteq> a \<and> M j = M a"
    using post unfolding stepper_post_def by blast+
  have dist: "distinct (c # R @ X)" and L: "set (c # R @ X) \<subseteq> L"
    and dom: "\<And>k. k \<in> L \<Longrightarrow> k \<notin> set (c # R @ X) \<Longrightarrow> k \<notin> F \<and> (\<exists>j \<in> set (c # R @ X). lit_gt ocb (M j) (M k))"
    and pairs: "\<And>x j. x \<in> set X \<Longrightarrow> j \<in> set (c # R @ X) \<Longrightarrow> \<not> lit_gt ocb (M j) (M x) \<and> \<not> lit_gt ocb (M x) (M j) \<and>
        (j \<noteq> x \<and> M j = M x \<longrightarrow> j \<notin> F \<and> x \<notin> F)"
    and twins: "\<And>a. a \<in> set (c # R @ X) \<Longrightarrow> a \<notin> F \<Longrightarrow> \<exists>j \<in> L. j \<noteq> a \<and> M j = M a"
    using inv unfolding max_inv_def by auto
  have c: "\<exists>j \<in> set (R' @ ?X). lit_gt ocb (M j) (M k)" if "lit_gt ocb (M c) (M k)" for k
  proof (cases alive)
    case False
    then obtain j where "j \<in> set R'" "lit_gt ocb (M j) (M c)" using dead by blast
    then show ?thesis using tr that by auto
  qed (use that in auto)
  have "k \<notin> F' \<and> (\<exists>j \<in> set (R' @ ?X). lit_gt ocb (M j) (M k))" if k: "k \<in> L" "k \<notin> set (R' @ ?X)" for k
  proof -
    consider (old) "k \<notin> set (c # R @ X)" | (killed) "k \<in> set R" "k \<notin> set R'" | (cand) "k = c" "\<not> alive"
      using k(2) by (auto split: if_splits)
    then show ?thesis
    proof cases
      case old
      then obtain j where j: "j \<in> set (c # R @ X)" "lit_gt ocb (M j) (M k)" and "k \<notin> F'" using dom k(1) sub(3) by blast
      have "lit_gt ocb (M c) (M k) \<or> j \<in> set (R' @ ?X)"
        using j killed [of j] tr by (cases "j = c") auto
      then show ?thesis using c j(2) \<open>k \<notin> F'\<close> by blast
    next
      case killed
      then show ?thesis using \<open>\<And>k. k \<in> set R \<Longrightarrow> k \<notin> set R' \<Longrightarrow> lit_gt ocb (M c) (M k) \<and> k \<notin> F'\<close> c by blast
    next
      case cand
      then show ?thesis using dead by auto
    qed
  qed
  moreover have "\<not> lit_gt ocb (M j) (M x) \<and> \<not> lit_gt ocb (M x) (M j) \<and> (j \<noteq> x \<and> M j = M x \<longrightarrow> j \<notin> F' \<and> x \<notin> F')"
    if x: "x \<in> set ?X" and j: "j \<in> set (R' @ ?X)" for x j
  proof -
    have j': "j \<in> set (c # R @ X)" using j sub(1) by (auto split: if_splits)
    consider (old) "x \<in> set X" | (new) "x = c" "alive" "x \<notin> set X" using x dist by (auto split: if_splits)
    then show ?thesis
    proof cases
      case old
      then show ?thesis using pairs [OF old j'] sub(3) by blast
    next
      case new
      consider "j = c" | "j \<in> set X" | "j \<in> set R'" using j by (auto split: if_splits)
      then show ?thesis
      proof cases
        case 1
        then show ?thesis using new irr by simp
      next
        case 2
        then show ?thesis using pairs [OF 2, of c] new sub(3) by auto
      next
        case 3
        then show ?thesis using live [OF new(2) 3] new by auto
      qed
    qed
  qed
  moreover have "\<exists>j \<in> L. j \<noteq> a \<and> M j = M a" if a: "a \<in> set (R' @ ?X)" "a \<notin> F'" for a
  proof (cases "a \<in> F")
    case True
    then have "a \<in> insert c (set R)" using a(2) diff by blast
    then have "a \<in> set R' \<or> a = c \<and> alive" using a(1) dist by (auto split: if_splits)
    then show ?thesis using twin [of a] True a(2) L by auto
  next
    case False
    then show ?thesis using twins [of a] a(1) sub(1) by (auto split: if_splits)
  qed
  moreover have "distinct (R' @ ?X)" "set (R' @ ?X) \<subseteq> L" using dist sub L by auto
  ultimately show ?thesis unfolding max_inv_def by blast
qed

lemma max_loop_ok:
  assumes "to_valid o0" and "lit_cmp o0 = LCNormal" and "lits_ok lim o0 b st0 L"
    and "to_state o0 ocb" and "same_store st0 st"
    and "max_inv o0 (\<lambda>a. lit_val b (st0 ! a)) L R X (flagged st EPIsStrictlyMaximal)"
  shows "\<exists>X' st' ocb'. max_loop lim b R X st ocb = Some (X', st', ocb') \<and> to_state o0 ocb' \<and> same_store st0 st' \<and>
    flagged st' EPIsMaximal = flagged st EPIsMaximal \<and>
    max_inv o0 (\<lambda>a. lit_val b (st0 ! a)) L [] X' (flagged st' EPIsStrictlyMaximal)"
  using assms(4-6)
proof (induction "length R" arbitrary: R X st ocb rule: less_induct)
  case less
  let ?M = "\<lambda>a. lit_val b (st0 ! a)" and ?S = EPIsStrictlyMaximal
  show ?case
  proof (cases R)
    case Nil
    then show ?thesis using less.prems by (subst max_loop.simps) simp
  next
    case (Cons c js)
    have "set (c # js) \<subseteq> L" "distinct (c # js)" using less.prems(3) Cons by (auto simp: max_inv_def)
    then obtain alive js' st1 o1 where r: "max_stepper lim b c js st ocb = Some (alive, js', st1, o1)"
      "to_state o0 o1" "same_store st0 st1" "flagged st1 EPIsMaximal = flagged st EPIsMaximal"
      "stepper_post o0 ?M c js (flagged st ?S) alive js' (flagged st1 ?S)"
      using max_stepper_ok [OF assms(1-3) less.prems(1,2)] by blast
    have "set js' \<subseteq> set js" "distinct js'" "distinct js"
      using r(5) less.prems(3) Cons by (auto simp: stepper_post_def max_inv_def)
    then have "length js' \<le> length js" by (metis card_mono distinct_card finite_set)
    then have "length js' < length R" using Cons by simp
    note IH = less.hyps [OF this r(2,3) max_inv_step [OF assms(1) less.prems(3) [unfolded Cons] r(5)]]
    show ?thesis using IH r(1,4) by (subst max_loop.simps) (simp add: Cons)
  qed
qed

lemma max_inv_final:
  assumes "to_valid ocb" and inv: "max_inv ocb M L [] X F" and a: "a \<in> L"
  shows "a \<in> set X \<longleftrightarrow> (\<forall>j \<in> L. \<not> lit_gt ocb (M j) (M a))"
    and "a \<in> F \<longleftrightarrow> (\<forall>j \<in> L. j \<noteq> a \<longrightarrow> \<not> lit_gt ocb (M j) (M a) \<and> M j \<noteq> M a)"
proof -
  have tr: "lit_gt ocb (M i) (M j) \<Longrightarrow> lit_gt ocb (M j) (M k) \<Longrightarrow> lit_gt ocb (M i) (M k)" for i j k
    using lit_gt_trans [OF assms(1)] by blast
  have irr: "\<not> lit_gt ocb (M i) (M i)" for i
    using mset_ord.ms_asym [OF assms(1), of "M i" "M i"] by (auto simp: lit_gt_def)
  have X: "set X \<subseteq> L" and dom: "\<And>k. k \<in> L \<Longrightarrow> k \<notin> set X \<Longrightarrow> k \<notin> F \<and> (\<exists>j \<in> set X. lit_gt ocb (M j) (M k))"
    and pairs: "\<And>x j. x \<in> set X \<Longrightarrow> j \<in> set X \<Longrightarrow> \<not> lit_gt ocb (M j) (M x) \<and> (j \<noteq> x \<and> M j = M x \<longrightarrow> j \<notin> F \<and> x \<notin> F)"
    and twins: "\<And>a. a \<in> set X \<Longrightarrow> a \<notin> F \<Longrightarrow> \<exists>j \<in> L. j \<noteq> a \<and> M j = M a"
    using inv unfolding max_inv_def by auto
  have not_dom: "\<not> lit_gt ocb (M j) (M x)" if "x \<in> set X" "j \<in> L" for x j
    using that dom [OF that(2)] pairs [OF that(1)] tr by blast
  show max: "a \<in> set X \<longleftrightarrow> (\<forall>j \<in> L. \<not> lit_gt ocb (M j) (M a))"
    using not_dom dom [OF a] X by blast
  show "a \<in> F \<longleftrightarrow> (\<forall>j \<in> L. j \<noteq> a \<longrightarrow> \<not> lit_gt ocb (M j) (M a) \<and> M j \<noteq> M a)"
  proof
    assume "a \<in> F"
    then have aX: "a \<in> set X" using dom [OF a] by blast
    have "M j \<noteq> M a" if "j \<in> L" "j \<noteq> a" for j
      using pairs [OF aX, of j] dom [OF that(1)] not_dom [OF aX] X that \<open>a \<in> F\<close> by (metis subsetD)
    then show "\<forall>j \<in> L. j \<noteq> a \<longrightarrow> \<not> lit_gt ocb (M j) (M a) \<and> M j \<noteq> M a" using not_dom [OF aX] by blast
  next
    assume r: "\<forall>j \<in> L. j \<noteq> a \<longrightarrow> \<not> lit_gt ocb (M j) (M a) \<and> M j \<noteq> M a"
    then have "a \<in> set X" using max irr [of a] by metis
    then show "a \<in> F" using twins r by blast
  qed
qed

section \<open>Orientation of a list\<close>

lemma EqnListOrient_ok:
  assumes "to_valid o0" and "to_state o0 ocb" and "distinct list" and "set list \<subseteq> {..<length st}"
    and "\<And>a. a \<in> set list \<Longrightarrow> EqnQueryProp (st ! a) EPMaxIsUpToDate \<or> lterm (st ! a) = rterm (st ! a) \<or>
      lterm (st ! a) = true_term (eqn_bank (st ! a)) \<or> rterm (st ! a) = true_term (eqn_bank (st ! a)) \<or>
      lit_pair lim o0 b (st ! a) (st ! a) (sigma b (lterm (st ! a))) (sigma b (rterm (st ! a)))
        (sigma b (lterm (st ! a))) (sigma b (rterm (st ! a)))"
  shows "\<exists>st' ocb'. EqnListOrient lim ocb b st list =
      Some (int (card {a \<in> set list. to_swap o0 b (st ! a)}), st', ocb') \<and>
    to_state o0 ocb' \<and> length st' = length st \<and> (\<forall>a. a \<notin> set list \<longrightarrow> st' ! a = st ! a) \<and>
    (\<forall>a \<in> set list. orient_result o0 b (st ! a) (st' ! a))"
  using assms(2-5)
proof (induction list arbitrary: st ocb)
  case Nil
  then show ?case by simp
next
  case (Cons a list)
  have a: "a < length st" using Cons.prems(3) by simp
  obtain e' o1 where r: "EqnOrient lim ocb b (st ! a) = Some (to_swap o0 b (st ! a), e', o1)" "to_state o0 o1"
    "orient_result o0 b (st ! a) e'"
    using EqnOrient_all [OF assms(1) Cons.prems(1) Cons.prems(4) [of a]] by auto
  let ?st = "st[a := e']"
  have same: "?st ! c = st ! c" if "c \<in> set list" for c using Cons.prems(2) that by (cases "a = c") auto
  have IH: "\<exists>st' ocb'. EqnListOrient lim o1 b ?st list = Some (int (card {a \<in> set list. to_swap o0 b (?st ! a)}), st', ocb') \<and>
    to_state o0 ocb' \<and> length st' = length ?st \<and> (\<forall>a. a \<notin> set list \<longrightarrow> st' ! a = ?st ! a) \<and>
    (\<forall>a \<in> set list. orient_result o0 b (?st ! a) (st' ! a))"
    by (rule Cons.IH [OF r(2)]) (use Cons.prems same in auto)
  have swaps: "{c \<in> set list. to_swap o0 b (?st ! c)} = {c \<in> set list. to_swap o0 b (st ! c)}" using same by auto
  obtain st' o2 where st': "EqnListOrient lim o1 b ?st list = Some (int (card {a \<in> set list. to_swap o0 b (st ! a)}), st', o2)"
    "to_state o0 o2" "length st' = length st" "\<forall>c. c \<notin> set list \<longrightarrow> st' ! c = ?st ! c"
    "\<forall>a \<in> set list. orient_result o0 b (?st ! a) (st' ! a)"
    using IH unfolding swaps by auto
  have sa: "st' ! a = e'" using st'(4) Cons.prems(2) a by simp
  have count: "card {c \<in> set (a # list). to_swap o0 b (st ! c)} =
      (if to_swap o0 b (st ! a) then 1 else 0) + card {c \<in> set list. to_swap o0 b (st ! c)}"
  proof -
    have "{c \<in> set (a # list). to_swap o0 b (st ! c)} =
        (if to_swap o0 b (st ! a) then {a} else {}) \<union> {c \<in> set list. to_swap o0 b (st ! c)}" by auto
    then show ?thesis using Cons.prems(2) by (simp add: card_insert_if)
  qed
  have "\<forall>c. c \<notin> set (a # list) \<longrightarrow> st' ! c = st ! c" using st'(4) by simp
  moreover have "\<forall>c \<in> set (a # list). orient_result o0 b (st ! c) (st' ! c)"
    using st'(5) same r(3) sa by simp
  moreover have "EqnListOrient lim ocb b st (a # list) =
      Some (int (card {c \<in> set (a # list). to_swap o0 b (st ! c)}), st', o2)"
    using a r(1) st'(1) by (simp add: eqn_at_def eqn_upd_def count del: set_simps)
  ultimately show ?case using st'(2,3) by blast
qed

section \<open>Testing one literal\<close>

lemma EqnListEqnIsMaximal_ok:
  assumes "to_valid o0" and "lit_cmp o0 = LCNormal" and "lits_ok lim o0 b st0 L" and "same_store st0 st"
    and "set list \<subseteq> L" and "eqn \<in> L" and "to_state o0 ocb"
  shows "(\<exists>ocb'. to_state o0 ocb' \<and> EqnListEqnIsMaximal lim ocb b st list eqn =
      Some (\<forall>a \<in> set list. a \<noteq> eqn \<and> EqnIsMaximal (st ! a) \<longrightarrow>
        \<not> lit_gt o0 (lit_val b (st0 ! a)) (lit_val b (st0 ! eqn)), ocb')) \<and>
    (\<exists>ocb'. to_state o0 ocb' \<and> EqnListEqnIsStrictlyMaximal lim ocb b st list eqn =
      Some (\<forall>a \<in> set list. a \<noteq> eqn \<and> EqnIsMaximal (st ! a) \<longrightarrow>
        \<not> lit_gt o0 (lit_val b (st0 ! a)) (lit_val b (st0 ! eqn)) \<and> lit_val b (st0 ! a) \<noteq> lit_val b (st0 ! eqn), ocb'))"
  using assms(5,7)
proof (induction list arbitrary: ocb)
  case (Cons a list)
  have len: "a < length st" "eqn < length st" and aL: "a \<in> L"
    using assms(3,6) Cons.prems same_store_length [OF assms(4)] by (auto simp: lits_ok_def)
  obtain o1 where o1: "to_state o0 o1"
    "LiteralCompare lim ocb b (st ! a) (st ! eqn) = Some (lit_cmp_of o0 (lit_val b (st0 ! a)) (lit_val b (st0 ! eqn)), o1)"
    using LiteralCompare_at [OF assms(1) Cons.prems(2) assms(2-4) aL assms(6)] by blast
  note cmp = lit_cmp_of_cases [OF assms(1), of "lit_val b (st0 ! a)" "lit_val b (st0 ! eqn)"]
  have list: "set list \<subseteq> L" using Cons.prems by simp
  show ?case
    using Cons.IH [OF list Cons.prems(2)] Cons.IH [OF list o1(1)] o1 len cmp
    by (cases "a \<noteq> eqn \<and> EqnIsMaximal (st ! a)") (auto simp: eqn_at_def)
qed auto

section \<open>Properties\<close>

text \<open>C11 \<open>EqnListOrient\<close> establishes the invariant the calculus relies on, for every literal of a list
  whose orientation is not up to date: afterwards it is, each literal has its sign and its sides,
  exchanged or not, it is marked oriented exactly if its left side is greater than the right one, and
  the right side is never greater. Between terms, greater means that the instance is greater in the term
  ordering; the atom of a literal without equality is greater than \<open>$true\<close>, on whichever side that was.
  Literals that are up to date are not touched. The returned number is that of the exchanges. The
  ordering has to be one of those implemented, and the terms that are compared by it must not reach
  the recursion limit of the path orderings.\<close>

theorem EqnListOrient_correct:
  assumes "to_valid o0" and "to_state o0 ocb" and "distinct list" and "set list \<subseteq> {..<length st}"
    and "\<And>a. a \<in> set list \<Longrightarrow> EqnQueryProp (st ! a) EPMaxIsUpToDate \<or> lterm (st ! a) = rterm (st ! a) \<or>
      lterm (st ! a) = true_term (eqn_bank (st ! a)) \<or> rterm (st ! a) = true_term (eqn_bank (st ! a)) \<or>
      lit_pair lim o0 b (st ! a) (st ! a) (sigma b (lterm (st ! a))) (sigma b (rterm (st ! a)))
        (sigma b (lterm (st ! a))) (sigma b (rterm (st ! a)))"
  shows "\<exists>st' ocb'. EqnListOrient lim ocb b st list =
      Some (int (card {a \<in> set list. to_swap o0 b (st ! a)}), st', ocb') \<and>
    to_state o0 ocb' \<and> (\<forall>a. a \<notin> set list \<longrightarrow> st' ! a = st ! a) \<and>
    (\<forall>a \<in> set list. orient_result o0 b (st ! a) (st' ! a))"
  using EqnListOrient_ok [OF assms] by blast

text \<open>C9 \<open>EqnListMaximalLiterals\<close> marks exactly the maximal and the strictly maximal literals of a
  clause in the literal ordering of the calculus, although it drops a literal as soon as a greater
  one is found and never compares it again; it returns their number and the list in its old
  order, and changes nothing but the two flags. Afterwards \<open>EqnListEqnIsMaximal\<close> and
  \<open>EqnListEqnIsStrictlyMaximal\<close>, which compare with the marked literals only, agree with the flags.
  This is about control blocks that compare literals by the term ordering alone (\<open>LCNormal\<close>, not
  \<open>LCNoCmp\<close> or the two \<open>LCTFOEq\<close> modes), about clauses without selected literals and pseudo-literals
  in which only literals that are oriented are marked so, and about terms that do not reach
  the recursion limit of the path orderings.\<close>

theorem EqnListMaximalLiterals_correct:
  assumes "to_valid o0" and "to_state o0 ocb" and "lit_cmp o0 = LCNormal"
    and "distinct list" and "lits_ok lim o0 b st (set list)"
  defines "maximal \<equiv> \<lambda>a. \<forall>j \<in> set list. \<not> lit_gt o0 (lit_val b (st ! j)) (lit_val b (st ! a))"
    and "strict \<equiv> \<lambda>a. \<forall>j \<in> set list. j \<noteq> a \<longrightarrow>
      \<not> lit_gt o0 (lit_val b (st ! j)) (lit_val b (st ! a)) \<and> lit_val b (st ! j) \<noteq> lit_val b (st ! a)"
  shows "\<exists>st' ocb'. EqnListMaximalLiterals lim ocb b st list =
      Some (int (card {a \<in> set list. maximal a}), list, st', ocb') \<and> same_store st st' \<and>
    (\<forall>a \<in> set list. EqnIsMaximal (st' ! a) = maximal a \<and> EqnIsStrictlyMaximal (st' ! a) = strict a \<and>
      (\<exists>o1. EqnListEqnIsMaximal lim ocb' b st' list a = Some (maximal a, o1)) \<and>
      (\<exists>o2. EqnListEqnIsStrictlyMaximal lim ocb' b st' list a = Some (strict a, o2)))"
proof -
  let ?L = "set list" and ?S = EPIsStrictlyMaximal and ?M = EPIsMaximal and ?V = "\<lambda>a. lit_val b (st ! a)"
  have L: "?L \<subseteq> {..<length st}" using assms(5) by (simp add: lits_ok_def)
  obtain stack where stack: "EqnListToStack list = Some stack" "EqnListFromStack stack = Some list"
    using EqnListToStack_ok [of list] from_stack_loop_ok [of _ "[]"] by (fastforce simp: EqnListFromStack_def)
  obtain st1 where st1: "EqnListSetProp st list ?S = Some (int (length list), st1)" "length st1 = length st"
    "flagged st1 ?S = flagged st ?S \<union> ?L" "same_store st st1"
    using EqnListSetProp_ok [OF L, of ?S] by blast
  obtain st2 where st2: "EqnListDelProp st1 list ?M = Some (int (length list), st2)"
    "flagged st2 ?M = flagged st1 ?M - ?L" "flagged st2 ?S = flagged st1 ?S" "same_store st1 st2"
    using EqnListDelProp_ok [of list st1 ?M] L st1(2) by (auto simp: query_simps)
  have same: "same_store st st2" using same_store_trans [OF st1(4) st2(4)] .
  have inv: "max_inv o0 ?V ?L list [] (flagged st2 ?S)"
    using assms(4) st1(3) st2(3) by (auto simp: max_inv_def)
  obtain X st3 o3 where st3: "max_loop lim b list [] st2 ocb = Some (X, st3, o3)" "to_state o0 o3" "same_store st st3"
    "flagged st3 ?M = flagged st2 ?M" "max_inv o0 ?V ?L [] X (flagged st3 ?S)"
    using max_loop_ok [OF assms(1,3,5,2) same inv] by blast
  have X: "set X \<subseteq> ?L" "distinct X" using st3(5) by (auto simp: max_inv_def)
  have "set X \<subseteq> {..<length st3}" using X(1) L same_store_length [OF st3(3)] by auto
  then obtain st4 where st4: "EqnListSetProp st3 X ?M = Some (int (length X), st4)"
    "flagged st4 ?M = flagged st3 ?M \<union> set X" "flagged st4 ?S = flagged st3 ?S" "same_store st3 st4"
    using EqnListSetProp_ok [of X st3 ?M] by (auto simp: query_simps)
  have same4: "same_store st st4" using same_store_trans [OF st3(3) st4(4)] .
  note final = max_inv_final [OF assms(1) st3(5)]
  have flags: "EqnIsMaximal (st4 ! a) = maximal a" "EqnIsStrictlyMaximal (st4 ! a) = strict a" if "a \<in> ?L" for a
  proof -
    have "a < length st4" using that L same_store_length [OF same4] by auto
    then have "EqnIsMaximal (st4 ! a) \<longleftrightarrow> a \<in> flagged st4 ?M" "EqnIsStrictlyMaximal (st4 ! a) \<longleftrightarrow> a \<in> flagged st4 ?S"
      by (simp_all add: flagged_def EqnIsMaximal_def EqnIsStrictlyMaximal_def)
    then show "EqnIsMaximal (st4 ! a) = maximal a" "EqnIsStrictlyMaximal (st4 ! a) = strict a"
      using final [OF that] st4(2,3) st3(4) st2(2) that by (auto simp: maximal_def strict_def)
  qed
  have "set X = {a \<in> ?L. maximal a}" using final(1) X(1) by (auto simp: maximal_def)
  then have num: "int (length X) = int (card {a \<in> ?L. maximal a})" using distinct_card [OF X(2)] by simp
  have tests: "\<exists>o1. EqnListEqnIsMaximal lim o3 b st4 list a = Some (maximal a, o1)"
    "\<exists>o2. EqnListEqnIsStrictlyMaximal lim o3 b st4 list a = Some (strict a, o2)" if a: "a \<in> ?L" for a
  proof -
    have dom: "\<exists>x \<in> ?L. maximal x \<and> (x = j \<or> lit_gt o0 (?V x) (?V j))" if "j \<in> ?L" for j
      using st3(5) that \<open>set X = {a \<in> ?L. maximal a}\<close> by (auto simp: max_inv_def)
    note tr = lit_gt_trans [OF assms(1)]
    have irr: "\<not> lit_gt o0 (?V a) (?V a)"
      using mset_ord.ms_asym [OF assms(1), of "?V a" "?V a"] by (auto simp: lit_gt_def)
    have "(\<forall>j \<in> ?L. j \<noteq> a \<and> EqnIsMaximal (st4 ! j) \<longrightarrow> \<not> lit_gt o0 (?V j) (?V a)) = maximal a"
      (is "?lhs = _")
    proof
      assume l: ?lhs
      have "\<not> lit_gt o0 (?V j) (?V a)" if "j \<in> ?L" for j
        using dom [OF that] l flags(1) irr tr by metis
      then show "maximal a" by (simp add: maximal_def)
    qed (simp add: maximal_def)
    then show "\<exists>o1. EqnListEqnIsMaximal lim o3 b st4 list a = Some (maximal a, o1)"
      using EqnListEqnIsMaximal_ok [OF assms(1,3,5) same4 _ a st3(2), of list] by auto
    have "(\<forall>j \<in> ?L. j \<noteq> a \<and> EqnIsMaximal (st4 ! j) \<longrightarrow> \<not> lit_gt o0 (?V j) (?V a) \<and> ?V j \<noteq> ?V a) = strict a"
      (is "?lhs = _")
    proof
      assume l: ?lhs
      have "\<not> lit_gt o0 (?V j) (?V a) \<and> ?V j \<noteq> ?V a" if j: "j \<in> ?L" "j \<noteq> a" for j
      proof -
        obtain x where x: "x \<in> ?L" "maximal x" "x = j \<or> lit_gt o0 (?V x) (?V j)" using dom [OF j(1)] by blast
        have test: "x \<noteq> a \<Longrightarrow> \<not> lit_gt o0 (?V x) (?V a) \<and> ?V x \<noteq> ?V a" using l flags(1) x(1,2) by blast
        show ?thesis
        proof (cases "x = j")
          case False
          then have gt: "lit_gt o0 (?V x) (?V j)" using x(3) by blast
          have "x \<noteq> a" if "lit_gt o0 (?V j) (?V a) \<or> ?V j = ?V a"
            using that gt irr tr by auto
          then show ?thesis using test gt tr by auto
        qed (use test j(2) in simp)
      qed
      then show "strict a" by (simp add: strict_def)
    qed (simp add: strict_def)
    then show "\<exists>o2. EqnListEqnIsStrictlyMaximal lim o3 b st4 list a = Some (strict a, o2)"
      using EqnListEqnIsMaximal_ok [OF assms(1,3,5) same4 _ a st3(2), of list] by auto
  qed
  have "EqnListMaximalLiterals lim ocb b st list = Some (int (card {a \<in> ?L. maximal a}), list, st4, o3)"
    using stack st1(1) st2(1) st3(1) st4(1) num by (simp add: EqnListMaximalLiterals_def)
  then show ?thesis using same4 flags tests by blast
qed

text \<open>A clause of two literals over the sample signature.\<close>

definition sample_store :: "Eqn list" where
  "sample_store = [sample_lit EPIsPositive (sample_g (sample_var 1)) (sample_var 1),
                   sample_lit 0 (sample_const 21) (sample_const 21)]"

lemma length_sample_store [simp]: "length sample_store = 2"
  by (simp add: sample_store_def)

lemma sample_store_ok:
  "sigma (\<lambda>_. None) (lterm (sample_store ! a)) = lterm (sample_store ! a)"
  "sigma (\<lambda>_. None) (rterm (sample_store ! a)) = rterm (sample_store ! a)"
  "lit_pair 0 sample_ocb (\<lambda>_. None) (sample_store ! a) (sample_store ! c) (lterm (sample_store ! a))
     (rterm (sample_store ! a)) (lterm (sample_store ! c)) (rterm (sample_store ! c))"
  if "a \<in> {0, 1}" and "c \<in> {0, 1}"
proof -
  note k = sample_kbo_term [OF sample_ocb_sig]
  have id: "sigma (\<lambda>_. None) t = t" if "kbo_term sample_ocb t" for t
    using sigma_eq [OF full_refl binds_ok_empty] that by (simp add: kbo_term_def)
  show "sigma (\<lambda>_. None) (lterm (sample_store ! a)) = lterm (sample_store ! a)"
    "sigma (\<lambda>_. None) (rterm (sample_store ! a)) = rterm (sample_store ! a)"
    using \<open>a \<in> {0, 1}\<close> k [THEN id] by (auto simp: sample_store_def)
  show "lit_pair 0 sample_ocb (\<lambda>_. None) (sample_store ! a) (sample_store ! c) (lterm (sample_store ! a))
     (rterm (sample_store ! a)) (lterm (sample_store ! c)) (rterm (sample_store ! c))"
    using that k [THEN sample_copies_always] kbo6_not_lpo
    by (auto simp: sample_store_def lit_pair_def within_limit_def vars_by_code_def sample_defs)
qed

lemma sample_store_flags:
  "a \<in> {0, 1} \<Longrightarrow> \<not> EqnQueryProp (sample_store ! a) EPMaxIsUpToDate \<and> \<not> EqnQueryProp (sample_store ! a) EPPseudoLit \<and>
     \<not> EqnIsSelected (sample_store ! a) \<and> \<not> EqnIsOriented (sample_store ! a) \<and>
     lterm (sample_store ! a) \<noteq> true_term (eqn_bank (sample_store ! a)) \<and>
     rterm (sample_store ! a) \<noteq> true_term (eqn_bank (sample_store ! a))"
  by (auto simp: sample_store_def sample_lit_defs EqnQueryProp_def EqnIsSelected_def EqnIsOriented_def EP_defs sample_defs)

lemma sample_store_pair:
  "a \<in> {0, 1} \<Longrightarrow> c \<in> {0, 1} \<Longrightarrow> lit_pair 0 sample_ocb (\<lambda>_. None) (sample_store ! a) (sample_store ! c)
     (sigma (\<lambda>_. None) (lterm (sample_store ! a))) (sigma (\<lambda>_. None) (rterm (sample_store ! a)))
     (sigma (\<lambda>_. None) (lterm (sample_store ! c))) (sigma (\<lambda>_. None) (rterm (sample_store ! c)))"
  using sample_store_ok [of a c] sample_store_ok(1,2) [of c a] by simp

lemma sample_store_set: "set [1, 0 :: nat] = {0, 1}" "distinct [1, 0 :: nat]" "{0, 1} \<subseteq> {..<length sample_store}"
  by auto

text \<open>With an atom that is not up to date, \<open>$true\<close> on its left.\<close>

definition sample_orient_store :: "Eqn list" where
  "sample_orient_store = sample_store @ [sample_lit EPIsPositive sample_true (sample_p (sample_var 1))]"

lemma orient_true_right:
  assumes "{#x, y#} = {#tt, a#}" and "b = side_gt ocb bs tt x y" and "\<not> side_gt ocb bs tt y x" and "a \<noteq> tt"
  shows "b \<and> y = tt"
proof -
  have "x = tt \<and> y = a \<or> x = a \<and> y = tt" using assms(1) by (auto simp: add_eq_conv_ex)
  then show ?thesis
  proof
    assume "x = tt \<and> y = a"
    then show ?thesis using assms(3,4) by (simp add: side_gt_def)
  next
    assume "x = a \<and> y = tt"
    then show ?thesis using assms(2,4) by (simp add: side_gt_def)
  qed
qed

theorem EqnListOrient_correct_witness:
  "\<exists>n st' ocb'. EqnListOrient 0 sample_ocb (\<lambda>_. None) sample_orient_store [2, 1, 0] = Some (n, st', ocb') \<and>
     EqnIsOriented (st' ! 2) \<and> rterm (st' ! 2) = sample_true"
proof -
  let ?st = sample_orient_store
  have st: "to_state sample_ocb sample_ocb" by (simp add: to_state_def)
  have nth: "?st ! a = sample_store ! a" if "a \<in> {0, 1}" for a using that by (auto simp: sample_orient_store_def nth_append)
  have two: "?st ! 2 = sample_lit EPIsPositive sample_true (sample_p (sample_var 1))"
    by (simp add: sample_orient_store_def nth_append)
  have bank: "true_term (eqn_bank (?st ! 2)) = sample_true" by (simp add: two sample_lit_defs)
  have set: "set [2, 1, 0 :: nat] \<subseteq> {..<length ?st}" by (auto simp: sample_orient_store_def)
  have ok: "EqnQueryProp (?st ! a) EPMaxIsUpToDate \<or> lterm (?st ! a) = rterm (?st ! a) \<or>
      lterm (?st ! a) = true_term (eqn_bank (?st ! a)) \<or> rterm (?st ! a) = true_term (eqn_bank (?st ! a)) \<or>
      lit_pair 0 sample_ocb (\<lambda>_. None) (?st ! a) (?st ! a) (sigma (\<lambda>_. None) (lterm (?st ! a))) (sigma (\<lambda>_. None) (rterm (?st ! a)))
        (sigma (\<lambda>_. None) (lterm (?st ! a))) (sigma (\<lambda>_. None) (rterm (?st ! a)))" if a: "a \<in> set [2, 1, 0]" for a
  proof (cases "a = 2")
    case True
    have "lterm (?st ! 2) = true_term (eqn_bank (?st ! 2))" unfolding bank by (simp add: two)
    then show ?thesis using True by simp
  next
    case False
    then have "a \<in> {0, 1}" using a by auto
    then show ?thesis using sample_store_pair [of a a] nth by simp
  qed
  obtain st' ocb' where r: "EqnListOrient 0 sample_ocb (\<lambda>_. None) ?st [2, 1, 0] =
      Some (int (card {a \<in> set [2, 1, 0]. to_swap sample_ocb (\<lambda>_. None) (?st ! a)}), st', ocb')"
    "\<forall>a \<in> set [2, 1, 0]. orient_result sample_ocb (\<lambda>_. None) (?st ! a) (st' ! a)"
    using EqnListOrient_correct [OF sample_to_valid st _ set ok] by auto
  have "\<not> EqnQueryProp (?st ! 2) EPMaxIsUpToDate" by (simp add: two EqnQueryProp_def EP_defs)
  then have "{#lterm (st' ! 2), rterm (st' ! 2)#} = {#sample_true, sample_p (sample_var 1)#}"
    "EqnIsOriented (st' ! 2) = side_gt sample_ocb (\<lambda>_. None) sample_true (lterm (st' ! 2)) (rterm (st' ! 2))"
    "\<not> side_gt sample_ocb (\<lambda>_. None) sample_true (rterm (st' ! 2)) (lterm (st' ! 2))"
    using r(2) bank by (simp_all add: orient_result_def two)
  moreover have "sample_p (sample_var 1) \<noteq> sample_true" by (simp add: sample_p_def sample_true_def)
  ultimately have "EqnIsOriented (st' ! 2) \<and> rterm (st' ! 2) = sample_true"
    by (rule orient_true_right)
  then show ?thesis using r(1) by blast
qed

theorem EqnListMaximalLiterals_correct_witness:
  "\<exists>n st' ocb'. EqnListMaximalLiterals 0 sample_ocb (\<lambda>_. None) sample_store [1, 0] = Some (n, [1, 0], st', ocb')"
proof -
  have st: "to_state sample_ocb sample_ocb" and lc: "lit_cmp sample_ocb = LCNormal"
    by (simp_all add: to_state_def) (simp add: sample_ocb_def)
  have "lits_ok 0 sample_ocb (\<lambda>_. None) sample_store (set [1, 0])"
    unfolding sample_store_set(1) lits_ok_def using sample_store_pair sample_store_flags sample_store_set(3) by blast
  from EqnListMaximalLiterals_correct [OF sample_to_valid st lc sample_store_set(2) this] show ?thesis by blast
qed

end
