(* ===== verification/Clauses.thy ===== *)
theory Clauses
  imports EqnLists "HOL-Library.Product_Lexorder"
begin

text \<open>
  Clauses (\<open>CLAUSES/ccl_clauses.h\<close>, \<open>CLAUSES/ccl_clauses.c\<close>): a list of literals with the numbers of
  positive and negative ones and the standard weight, which are kept beside it. Subsumption needs
  the literals sorted; \<open>sub_key\<close> is the key by which the comparison function sorts them.
\<close>

section \<open>The code\<close>

record Clause =
  ident :: int
  literals :: "Eqn list"
  neg_lit_no :: int
  pos_lit_no :: int
  cl_properties :: int
  cl_weight :: int
  proof_depth :: int
  proof_size :: int

definition CPIgnoreProps :: int where "CPIgnoreProps = 0"

definition EmptyClauseAlloc :: "int \<Rightarrow> Clause" where
  "EmptyClauseAlloc idn = \<lparr>ident = idn, literals = [], neg_lit_no = 0, pos_lit_no = 0,
     cl_properties = CPIgnoreProps, cl_weight = 0, proof_depth = 0, proof_size = 0\<rparr>"

primrec clause_alloc_loop :: "Eqn list \<Rightarrow> Clause \<Rightarrow> Eqn list \<Rightarrow> Eqn list \<Rightarrow> Clause" where
  "clause_alloc_loop [] handle pos_lits neg_lits = handle\<lparr>literals := pos_lits @ neg_lits\<rparr>"
| "clause_alloc_loop (e # lits) handle pos_lits neg_lits =
     (if EqnIsPositive e
      then clause_alloc_loop lits (handle\<lparr>pos_lit_no := pos_lit_no handle + 1\<rparr>) (pos_lits @ [e]) neg_lits
      else clause_alloc_loop lits (handle\<lparr>neg_lit_no := neg_lit_no handle + 1\<rparr>) pos_lits (neg_lits @ [e]))"

text \<open>The global counter of clauses is passed and returned.\<close>

definition ClauseAlloc :: "int \<Rightarrow> Eqn list \<Rightarrow> Clause \<times> int" where
  "ClauseAlloc counter lits = (clause_alloc_loop lits (EmptyClauseAlloc (counter + 1)) [] [], counter + 1)"

primrec lit_count_loop :: "Eqn list \<Rightarrow> Clause \<Rightarrow> Clause" where
  "lit_count_loop [] clause = clause"
| "lit_count_loop (e # lits) clause =
     lit_count_loop lits (if EqnIsPositive e then clause\<lparr>pos_lit_no := pos_lit_no clause + 1\<rparr>
                          else clause\<lparr>neg_lit_no := neg_lit_no clause + 1\<rparr>)"

definition ClauseRecomputeLitCounts :: "Clause \<Rightarrow> Clause" where
  "ClauseRecomputeLitCounts clause =
     lit_count_loop (literals clause) (clause\<lparr>pos_lit_no := 0, neg_lit_no := 0\<rparr>)"

definition ClauseLiteralNumber :: "Clause \<Rightarrow> int" where
  "ClauseLiteralNumber clause = pos_lit_no clause + neg_lit_no clause"

definition ClauseStandardWeight :: "Clause \<Rightarrow> int" where
  "ClauseStandardWeight clause = foldl (\<lambda>res e. res + EqnStandardWeight e) 0 (literals clause)"

fun sorted_loop :: "(Eqn \<Rightarrow> Eqn \<Rightarrow> int option) \<Rightarrow> Eqn list \<Rightarrow> bool option" where
  "sorted_loop cmp_fun (e1 # e2 # lits) =
     do { r \<leftarrow> cmp_fun e1 e2; if r > 0 then Some False else sorted_loop cmp_fun (e2 # lits) }"
| "sorted_loop cmp_fun [e] = Some True"
| "sorted_loop cmp_fun [] = None"

definition ClauseIsSorted :: "Clause \<Rightarrow> (Eqn \<Rightarrow> Eqn \<Rightarrow> int option) \<Rightarrow> bool option" where
  "ClauseIsSorted clause cmp_fun =
     (if ClauseLiteralNumber clause > 1 then sorted_loop cmp_fun (literals clause) else Some True)"

definition ClauseIsSubsumeOrdered :: "Clause \<Rightarrow> bool option" where
  "ClauseIsSubsumeOrdered clause = ClauseIsSorted clause EqnSubsumeInverseCompareRef"

text \<open>
  \<open>qsort\<close> of the C library with a comparison that may fail: of the sorted permutations the one
  that keeps the order of elements comparing equal. With the comparison that
  \<open>ClauseSubsumeOrderSortLits\<close> uses, no two literals compare equal.
\<close>

primrec qsort_insert :: "('a \<Rightarrow> 'a \<Rightarrow> int option) \<Rightarrow> 'a \<Rightarrow> 'a list \<Rightarrow> 'a list option" where
  "qsort_insert cmp_fun x [] = Some [x]"
| "qsort_insert cmp_fun x (y # ys) =
     do { r \<leftarrow> cmp_fun x y;
          if r \<le> 0 then Some (x # y # ys)
          else do { zs \<leftarrow> qsort_insert cmp_fun x ys; Some (y # zs) } }"

primrec qsort :: "('a \<Rightarrow> 'a \<Rightarrow> int option) \<Rightarrow> 'a list \<Rightarrow> 'a list option" where
  "qsort cmp_fun [] = Some []"
| "qsort cmp_fun (x # xs) = do { ys \<leftarrow> qsort cmp_fun xs; qsort_insert cmp_fun x ys }"

text \<open>The loop that fills the array: the index is asserted; a cell left uninitialised would be read.\<close>

definition sort_array :: "Eqn list \<Rightarrow> int \<Rightarrow> Eqn list option" where
  "sort_array lits lit_no =
     do { c_assert (int (length lits) = lit_no);
          Some (map (\<lambda>i. (lits ! i)\<lparr>eqn_pos := int i\<rparr>) [0..<length lits]) }"

definition ClauseSortLiterals :: "Clause \<Rightarrow> (Eqn \<Rightarrow> Eqn \<Rightarrow> int option) \<Rightarrow> Clause option" where
  "ClauseSortLiterals clause cmp_fun =
     (let lit_no = ClauseLiteralNumber clause in
      if lit_no > 1
      then do { arr \<leftarrow> sort_array (literals clause) lit_no;
                arr \<leftarrow> qsort cmp_fun arr;
                Some (clause\<lparr>literals := arr\<rparr>) }
      else Some clause)"

definition ClauseSubsumeOrderSortLits :: "Clause \<Rightarrow> Clause option" where
  "ClauseSubsumeOrderSortLits clause = ClauseSortLiterals clause EqnSubsumeInverseRefinedCompareRef"

section \<open>The sort key\<close>

text \<open>\<open>EqnIsEquLit\<close> asserts that the flag says whether the right side is \<open>$true\<close>.\<close>

definition equ_ok :: "Eqn \<Rightarrow> bool" where
  "equ_ok e \<longleftrightarrow> (EqnQueryProp e EPIsEquLiteral \<longleftrightarrow> rterm e \<noteq> true_term (eqn_bank e))"

definition q_key :: "Eqn \<Rightarrow> int \<times> int \<times> int" where
  "q_key e = (of_bool (EqnIsPositive e), of_bool (EqnQueryProp e EPIsEquLiteral),
     if EqnQueryProp e EPIsEquLiteral then 0 else f_code (lterm e))"

definition sub_key :: "Eqn \<Rightarrow> (int \<times> int \<times> int) \<times> int" where
  "sub_key e = (q_key e, EqnStandardWeight e)"

lemma EqnIsEquLit_ok: "equ_ok e \<Longrightarrow> EqnIsEquLit e = Some (EqnQueryProp e EPIsEquLiteral)"
  by (auto simp: equ_ok_def EqnIsEquLit_def)

lemma EqnSubsumeQOrderCompare_ok:
  assumes "equ_ok e1" and "equ_ok e2"
  shows "\<exists>r. EqnSubsumeQOrderCompare e1 e2 = Some r \<and> (r < 0 \<longleftrightarrow> q_key e1 < q_key e2) \<and> (r > 0 \<longleftrightarrow> q_key e2 < q_key e1)"
  by (cases "EqnIsPositive e1"; cases "EqnIsPositive e2"; cases "EqnQueryProp e1 EPIsEquLiteral";
      cases "EqnQueryProp e2 EPIsEquLiteral")
    (simp_all add: EqnSubsumeQOrderCompare_def EqnIsEquLit_ok [OF assms(1)] EqnIsEquLit_ok [OF assms(2)] q_key_def
      less_prod_def')

lemma EqnSubsumeInverseCompareRef_ok:
  assumes "equ_ok e1" and "equ_ok e2"
  shows "\<exists>r. EqnSubsumeInverseCompareRef e1 e2 = Some r \<and> (r > 0 \<longleftrightarrow> sub_key e1 < sub_key e2) \<and>
    (r < 0 \<longleftrightarrow> sub_key e2 < sub_key e1)"
proof -
  obtain r where r: "EqnSubsumeQOrderCompare e2 e1 = Some r" "r < 0 \<longleftrightarrow> q_key e2 < q_key e1" "r > 0 \<longleftrightarrow> q_key e1 < q_key e2"
    using EqnSubsumeQOrderCompare_ok [OF assms(2,1)] by blast
  show ?thesis
  proof (cases "r = 0")
    case True
    then have "q_key e1 = q_key e2" using r(2,3) by (meson less_irrefl linorder_less_linear)
    then show ?thesis using r True by (simp add: EqnSubsumeInverseCompareRef_def sub_key_def less_prod_def')
  next
    case False
    then have "q_key e1 \<noteq> q_key e2" using r(2,3) by (metis less_irrefl linorder_neqE)
    then show ?thesis using r False by (auto simp: EqnSubsumeInverseCompareRef_def sub_key_def less_prod_def')
  qed
qed

lemma sorted_loop_ok:
  assumes "\<forall>e \<in> set lits. equ_ok e" and "lits \<noteq> []"
  shows "sorted_loop EqnSubsumeInverseCompareRef lits = Some (sorted_wrt (\<lambda>e1 e2. sub_key e2 \<le> sub_key e1) lits)"
  using assms
proof (induction EqnSubsumeInverseCompareRef lits rule: sorted_loop.induct)
  case (1 e1 e2 lits)
  obtain r where r: "EqnSubsumeInverseCompareRef e1 e2 = Some r" "r > 0 \<longleftrightarrow> sub_key e1 < sub_key e2"
    using EqnSubsumeInverseCompareRef_ok [of e1 e2] 1(2) by auto
  have "sorted_wrt (\<lambda>e1 e2. sub_key e2 \<le> sub_key e1) (e1 # e2 # lits) \<longleftrightarrow>
      sub_key e2 \<le> sub_key e1 \<and> sorted_wrt (\<lambda>e1 e2. sub_key e2 \<le> sub_key e1) (e2 # lits)"
    by (subst sorted_wrt2) (auto simp: transp_def)
  then show ?case using r 1 by auto
qed simp_all

section \<open>Sorting\<close>

lemma qsort_insert_ok:
  assumes "\<And>x y. {x, y} \<subseteq> A \<Longrightarrow> \<exists>r. cmp_fun x y = Some r \<and> (r \<le> 0 \<longleftrightarrow> le x y)"
    and "\<And>x y. {x, y} \<subseteq> A \<Longrightarrow> le x y \<or> le y x"
    and "\<And>x y z. {x, y, z} \<subseteq> A \<Longrightarrow> le x y \<Longrightarrow> le y z \<Longrightarrow> le x z"
    and "set (x # xs) \<subseteq> A" and "sorted_wrt le xs"
  shows "\<exists>ys. qsort_insert cmp_fun x xs = Some ys \<and> mset ys = add_mset x (mset xs) \<and> sorted_wrt le ys"
  using assms(4,5)
proof (induction xs)
  case (Cons y xs)
  obtain r where r: "cmp_fun x y = Some r" "r \<le> 0 \<longleftrightarrow> le x y" using assms(1) [of x y] Cons.prems by auto
  show ?case
  proof (cases "le x y")
    case True
    have "le x z" if "z \<in> set xs" for z
    proof -
      have "le y z" using Cons.prems(2) that by simp
      then show ?thesis using assms(3) [of x y z] Cons.prems(1) True that by auto
    qed
    then show ?thesis using True r Cons.prems(2) by auto
  next
    case False
    obtain zs where zs: "qsort_insert cmp_fun x xs = Some zs" "mset zs = add_mset x (mset xs)" "sorted_wrt le zs"
      using Cons by auto
    have "le y x" using assms(2) [of x y] False Cons.prems(1) by auto
    moreover have "set zs = insert x (set xs)" using arg_cong [OF zs(2), of set_mset] by simp
    ultimately show ?thesis using r zs False Cons.prems(2) by auto
  qed
qed simp

lemma qsort_ok:
  assumes "\<And>x y. {x, y} \<subseteq> A \<Longrightarrow> \<exists>r. cmp_fun x y = Some r \<and> (r \<le> 0 \<longleftrightarrow> le x y)"
    and "\<And>x y. {x, y} \<subseteq> A \<Longrightarrow> le x y \<or> le y x"
    and "\<And>x y z. {x, y, z} \<subseteq> A \<Longrightarrow> le x y \<Longrightarrow> le y z \<Longrightarrow> le x z"
    and "set xs \<subseteq> A"
  shows "\<exists>ys. qsort cmp_fun xs = Some ys \<and> mset ys = mset xs \<and> sorted_wrt le ys"
  using assms(4)
proof (induction xs)
  case (Cons x xs)
  then obtain ys where ys: "qsort cmp_fun xs = Some ys" "mset ys = mset xs" "sorted_wrt le ys" by auto
  have "set (x # ys) \<subseteq> A" using Cons.prems arg_cong [OF ys(2), of set_mset] by simp
  have "\<exists>zs. qsort_insert cmp_fun x ys = Some zs \<and> mset zs = add_mset x (mset ys) \<and> sorted_wrt le zs"
    by (rule qsort_insert_ok [of A]) (fact assms(1-3) \<open>set (x # ys) \<subseteq> A\<close> ys(3))+
  then show ?case using ys(1,2) by auto
qed simp

definition refined_le :: "Eqn \<Rightarrow> Eqn \<Rightarrow> bool" where
  "refined_le e1 e2 \<longleftrightarrow> sub_key e2 < sub_key e1 \<or> sub_key e1 = sub_key e2 \<and> eqn_pos e1 \<le> eqn_pos e2"

lemma refined_le_imp: "refined_le e1 e2 \<Longrightarrow> sub_key e2 \<le> sub_key e1"
  by (auto simp: refined_le_def)

lemma EqnSubsumeInverseRefinedCompareRef_ok:
  assumes "equ_ok e1" and "equ_ok e2"
  shows "\<exists>r. EqnSubsumeInverseRefinedCompareRef e1 e2 = Some r \<and> (r \<le> 0 \<longleftrightarrow> refined_le e1 e2)"
proof -
  obtain r where r: "EqnSubsumeInverseCompareRef e1 e2 = Some r" "r > 0 \<longleftrightarrow> sub_key e1 < sub_key e2"
    "r < 0 \<longleftrightarrow> sub_key e2 < sub_key e1"
    using EqnSubsumeInverseCompareRef_ok [OF assms] by blast
  show ?thesis
  proof (cases "r = 0")
    case True
    then have "sub_key e1 = sub_key e2" using r(2,3) by (meson less_irrefl linorder_less_linear)
    then show ?thesis using r True by (simp add: EqnSubsumeInverseRefinedCompareRef_def refined_le_def)
  next
    case False
    then have "sub_key e1 \<noteq> sub_key e2" using r(2,3) by (metis less_irrefl linorder_neqE)
    then show ?thesis
      using r False by (auto simp: EqnSubsumeInverseRefinedCompareRef_def refined_le_def)
  qed
qed

text \<open>A literal without the position the sort writes.\<close>

definition no_pos :: "Eqn \<Rightarrow> Eqn" where
  "no_pos e = e\<lparr>eqn_pos := 0\<rparr>"

lemma no_pos_sel [simp]:
  "lterm (no_pos e) = lterm e" "rterm (no_pos e) = rterm e" "eqn_properties (no_pos e) = eqn_properties e"
  "eqn_bank (no_pos e) = eqn_bank e"
  by (simp_all add: no_pos_def)

lemma sub_key_no_pos: "sub_key (no_pos e) = sub_key e" and equ_ok_no_pos: "equ_ok (no_pos e) = equ_ok e"
  by (simp_all add: sub_key_def q_key_def equ_ok_def EqnStandardWeight_def EqnIsPositive_def EqnQueryProp_def)

lemma sort_array_no_pos:
  "map no_pos (map (\<lambda>i. (xs ! i)\<lparr>eqn_pos := int i\<rparr>) [0..<length xs]) = map no_pos xs"
  by (intro nth_equalityI) (simp_all add: no_pos_def)

text \<open>The cached numbers and the weight of a clause are right.\<close>

definition clause_counts_ok :: "Clause \<Rightarrow> bool" where
  "clause_counts_ok c \<longleftrightarrow> pos_lit_no c = int (length [e \<leftarrow> literals c. EqnIsPositive e]) \<and>
     neg_lit_no c = int (length [e \<leftarrow> literals c. \<not> EqnIsPositive e])"

lemma clause_counts_length: "clause_counts_ok c \<Longrightarrow> ClauseLiteralNumber c = int (length (literals c))"
  using sum_length_filter_compl [of EqnIsPositive "literals c"]
  by (simp add: clause_counts_ok_def ClauseLiteralNumber_def)

lemma ClauseIsSubsumeOrdered_ok:
  assumes "clause_counts_ok c" and "\<forall>e \<in> set (literals c). equ_ok e"
  shows "ClauseIsSubsumeOrdered c = Some (sorted_wrt (\<lambda>e1 e2. sub_key e2 \<le> sub_key e1) (literals c))"
proof (cases "length (literals c) \<le> 1")
  case True
  then have "sorted_wrt (\<lambda>e1 e2. sub_key e2 \<le> sub_key e1) (literals c)"
    by (cases "literals c") auto
  then show ?thesis
    using True clause_counts_length [OF assms(1)] by (simp add: ClauseIsSubsumeOrdered_def ClauseIsSorted_def)
next
  case False
  then have "literals c \<noteq> []" by auto
  then show ?thesis
    using False clause_counts_length [OF assms(1)] sorted_loop_ok [OF assms(2)]
    by (simp add: ClauseIsSubsumeOrdered_def ClauseIsSorted_def)
qed

lemma ClauseSubsumeOrderSortLits_ok:
  assumes "clause_counts_ok c" and "\<forall>e \<in> set (literals c). equ_ok e"
  shows "\<exists>lits. ClauseSubsumeOrderSortLits c = Some (c\<lparr>literals := lits\<rparr>) \<and>
    mset (map no_pos lits) = mset (map no_pos (literals c)) \<and>
    sorted_wrt (\<lambda>e1 e2. sub_key e2 \<le> sub_key e1) lits"
proof (cases "length (literals c) \<le> 1")
  case True
  then have "sorted_wrt (\<lambda>e1 e2. sub_key e2 \<le> sub_key e1) (literals c)" by (cases "literals c") auto
  moreover have "ClauseSubsumeOrderSortLits c = Some (c\<lparr>literals := literals c\<rparr>)"
    using True clause_counts_length [OF assms(1)] by (simp add: ClauseSubsumeOrderSortLits_def ClauseSortLiterals_def)
  ultimately show ?thesis by blast
next
  case False
  let ?arr = "map (\<lambda>i. (literals c ! i)\<lparr>eqn_pos := int i\<rparr>) [0..<length (literals c)]"
  have equ: "\<forall>e \<in> set ?arr. equ_ok e"
  proof
    fix e
    assume "e \<in> set ?arr"
    then obtain i where i: "i < length (literals c)" "e = (literals c ! i)\<lparr>eqn_pos := int i\<rparr>" by auto
    then have "equ_ok (literals c ! i)" using assms(2) by simp
    then show "equ_ok e" by (simp add: i(2) equ_ok_def EqnQueryProp_def)
  qed
  have "\<exists>ys. qsort EqnSubsumeInverseRefinedCompareRef ?arr = Some ys \<and> mset ys = mset ?arr \<and> sorted_wrt refined_le ys"
    by (rule qsort_ok [of "set ?arr"])
      (use EqnSubsumeInverseRefinedCompareRef_ok equ in \<open>auto simp: refined_le_def\<close>)
  then obtain ys where ys: "qsort EqnSubsumeInverseRefinedCompareRef ?arr = Some ys" "mset ys = mset ?arr"
    "sorted_wrt refined_le ys" by blast
  have "mset (map no_pos ys) = mset (map no_pos (literals c))"
    using ys(2) sort_array_no_pos [of "literals c"] by (metis mset_map)
  moreover have "sorted_wrt (\<lambda>e1 e2. sub_key e2 \<le> sub_key e1) ys"
    by (rule sorted_wrt_mono_rel [OF _ ys(3)]) (rule refined_le_imp)
  moreover have "ClauseSubsumeOrderSortLits c = Some (c\<lparr>literals := ys\<rparr>)"
    using False clause_counts_length [OF assms(1)] ys(1)
    by (simp add: ClauseSubsumeOrderSortLits_def ClauseSortLiterals_def sort_array_def)
  ultimately show ?thesis by blast
qed

section \<open>Counts and weight\<close>

lemma clause_alloc_loop_ok:
  "clause_alloc_loop lits c ps ns =
     c\<lparr>literals := ps @ [e \<leftarrow> lits. EqnIsPositive e] @ ns @ [e \<leftarrow> lits. \<not> EqnIsPositive e],
       pos_lit_no := pos_lit_no c + int (length [e \<leftarrow> lits. EqnIsPositive e]),
       neg_lit_no := neg_lit_no c + int (length [e \<leftarrow> lits. \<not> EqnIsPositive e])\<rparr>"
  by (induction lits arbitrary: c ps ns) simp_all

lemma lit_count_loop_ok:
  "lit_count_loop lits c =
     c\<lparr>pos_lit_no := pos_lit_no c + int (length [e \<leftarrow> lits. EqnIsPositive e]),
       neg_lit_no := neg_lit_no c + int (length [e \<leftarrow> lits. \<not> EqnIsPositive e])\<rparr>"
  by (induction lits arbitrary: c) simp_all

lemma ClauseAlloc_counts: "clause_counts_ok (fst (ClauseAlloc counter lits))"
  "mset (literals (fst (ClauseAlloc counter lits))) = mset lits"
  by (simp_all add: ClauseAlloc_def clause_alloc_loop_ok EmptyClauseAlloc_def clause_counts_ok_def)

lemma ClauseRecomputeLitCounts_ok:
  "clause_counts_ok (ClauseRecomputeLitCounts c)" "literals (ClauseRecomputeLitCounts c) = literals c"
  by (simp_all add: ClauseRecomputeLitCounts_def lit_count_loop_ok clause_counts_ok_def)

lemma ClauseStandardWeight_sum: "ClauseStandardWeight c = sum_list (map EqnStandardWeight (literals c))"
proof -
  have "foldl (\<lambda>res e. res + EqnStandardWeight e) k es = k + sum_list (map EqnStandardWeight es)" for k es
    by (induction es arbitrary: k) simp_all
  then show ?thesis by (simp add: ClauseStandardWeight_def)
qed

text \<open>Sample literals \<open>p(t)\<close> and \<open>~p(t)\<close>, and clauses with right counts.\<close>

definition sample_atom :: "bool \<Rightarrow> Term_p \<Rightarrow> Eqn" where
  "sample_atom pos t = sample_lit (EPIsOriented + (if pos then EPIsPositive else 0)) (sample_p t) sample_true"

definition sample_clause :: "Eqn list \<Rightarrow> Clause" where
  "sample_clause lits =
     (let c = ClauseRecomputeLitCounts ((EmptyClauseAlloc 1)\<lparr>literals := lits\<rparr>) in c\<lparr>cl_weight := ClauseStandardWeight c\<rparr>)"

lemma sample_clause_sel [simp]: "literals (sample_clause lits) = lits"
  by (simp add: sample_clause_def Let_def ClauseRecomputeLitCounts_def lit_count_loop_ok)

lemma sample_clause_counts: "clause_counts_ok (sample_clause lits)"
  "cl_weight (sample_clause lits) = ClauseStandardWeight (sample_clause lits)"
  by (simp_all add: sample_clause_def Let_def ClauseRecomputeLitCounts_def lit_count_loop_ok clause_counts_ok_def
      ClauseStandardWeight_def)

section \<open>Properties\<close>

text \<open>C14 \<open>ClauseSubsumeOrderSortLits\<close> establishes the order of the literals that subsumption asserts
  (\<open>ClauseIsSubsumeOrdered\<close>) and only permutes the literals, so that the cached numbers and the weight
  stay right; the assertion on the array index never fails.\<close>

theorem ClauseSubsumeOrderSortLits_correct:
  assumes "clause_counts_ok c" and "\<forall>e \<in> set (literals c). equ_ok e"
  shows "\<exists>c'. ClauseSubsumeOrderSortLits c = Some c' \<and> ClauseIsSubsumeOrdered c' = Some True \<and>
     mset (map no_pos (literals c')) = mset (map no_pos (literals c)) \<and>
     clause_counts_ok c' \<and> ClauseStandardWeight c' = ClauseStandardWeight c \<and> cl_weight c' = cl_weight c"
proof -
  obtain lits where s: "ClauseSubsumeOrderSortLits c = Some (c\<lparr>literals := lits\<rparr>)"
    "mset (map no_pos lits) = mset (map no_pos (literals c))" "sorted_wrt (\<lambda>e1 e2. sub_key e2 \<le> sub_key e1) lits"
    using ClauseSubsumeOrderSortLits_ok [OF assms] by blast
  let ?c = "c\<lparr>literals := lits\<rparr>"
  have props: "EqnIsPositive (no_pos e) = EqnIsPositive e" "EqnStandardWeight (no_pos e) = EqnStandardWeight e" for e
    by (simp_all add: EqnIsPositive_def EqnQueryProp_def EqnStandardWeight_def)
  have filters: "length [e \<leftarrow> es. P e] = size (filter_mset P (mset (map no_pos es)))"
    if "\<And>e. P (no_pos e) = P e" for P :: "Eqn \<Rightarrow> bool" and es
    using that by (induction es) simp_all
  have weights: "sum_list (map EqnStandardWeight es) = sum_mset (image_mset EqnStandardWeight (mset (map no_pos es)))" for es
    by (induction es) (simp_all add: props)
  have counts: "clause_counts_ok ?c"
    using assms(1) filters [of EqnIsPositive] filters [of "\<lambda>e. \<not> EqnIsPositive e"] props s(2)
    by (simp add: clause_counts_ok_def)
  have equ: "\<forall>e \<in> set (literals ?c). equ_ok e"
  proof
    fix e
    assume "e \<in> set (literals ?c)"
    then have "no_pos e \<in> set (map no_pos lits)" by simp
    then have "no_pos e \<in> set (map no_pos (literals c))" using arg_cong [OF s(2), of set_mset] by simp
    then obtain x where "x \<in> set (literals c)" "no_pos e = no_pos x" by auto
    then show "equ_ok e" using assms(2) equ_ok_no_pos [of e] equ_ok_no_pos [of x] by simp
  qed
  show ?thesis
    using s counts ClauseIsSubsumeOrdered_ok [OF counts equ] weights [of lits] weights [of "literals c"]
    by (auto simp: ClauseStandardWeight_sum)
qed

theorem ClauseSubsumeOrderSortLits_correct_witness:
  "\<exists>c'. ClauseSubsumeOrderSortLits (sample_clause [sample_atom False (sample_const 21), sample_atom True (sample_const 23)]) =
     Some c' \<and> ClauseIsSubsumeOrdered c' = Some True"
proof -
  have "\<forall>e \<in> set (literals (sample_clause [sample_atom False (sample_const 21), sample_atom True (sample_const 23)])). equ_ok e"
    by (auto simp: equ_ok_def sample_atom_def EqnQueryProp_def EP_defs sample_lit_defs)
  from ClauseSubsumeOrderSortLits_correct [OF sample_clause_counts(1) this] show ?thesis by blast
qed

end
