(* ===== verification/Subsumption.thy ===== *)
theory Subsumption
  imports Clauses
begin

text \<open>
  Subsumption of clauses (\<open>CLAUSES/ccl_subsumption.c\<close>). A non-unit clause subsumes another one if
  some substitution maps its literals injectively to literals of the other: \<open>clause_subsumes_clause\<close>
  searches for it by matching literal after literal with backtracking, and cuts the search by
  counts, weights, the order of the literals and their orientation. None of the cuts loses a
  subsumption. A unit clause uses its own, stronger test, which looks below common contexts.
  Substitutions are searched for the first-order build, where \<open>SubstMatchComplete\<close> is
  \<open>SubstComputeMatch\<close>.
\<close>

section \<open>Unit subsumption\<close>

definition eqn_topsubsumes_termpair :: "Eqn \<Rightarrow> Term_p \<Rightarrow> Term_p \<Rightarrow> bindings \<Rightarrow> (bool \<times> bindings) option" where
  "eqn_topsubsumes_termpair eqn t1 t2 b =
     do { let subst = SubstAlloc;
          (r, subst, b) \<leftarrow> SubstComputeMatch (lterm eqn) t1 subst b;
          (res, subst, b) \<leftarrow>
            (if r then SubstComputeMatch (rterm eqn) t2 subst b
             else do { (r, subst, b) \<leftarrow> SubstComputeMatch (lterm eqn) t2 subst b;
                       if r then SubstComputeMatch (rterm eqn) t1 subst b else Some (False, subst, b) });
          (_, _, b) \<leftarrow> SubstBacktrack subst b;
          Some (res, b) }"

text \<open>
  The loop over the arguments: \<^const>\<open>None\<close> if two pairs of them differ (the function returns
  \<open>false\<close>), otherwise the differing pair, if there is one.
\<close>

primrec find_diff :: "(Term_p \<times> Term_p) list \<Rightarrow> (Term_p \<times> Term_p) option \<Rightarrow> (Term_p \<times> Term_p) option option" where
  "find_diff [] tmp = Some tmp"
| "find_diff (p # ps) tmp =
     (if fst p \<noteq> snd p then if tmp \<noteq> None then None else find_diff ps (Some p) else find_diff ps tmp)"

partial_function (option) eqn_subsumes_termpair ::
  "Eqn \<Rightarrow> Term_p \<Rightarrow> Term_p \<Rightarrow> bindings \<Rightarrow> (bool \<times> bindings) option" where [code]:
  "eqn_subsumes_termpair eqn t1 t2 b =
     do { (res, b) \<leftarrow> eqn_topsubsumes_termpair eqn t1 t2 b;
          if res then Some (True, b)
          else if f_code t1 \<noteq> f_code t2 \<or> arity t1 = 0 then Some (False, b)
          else do { c_assert (arity t1 = arity t2);
                    case find_diff (zip (t_args t1) (t_args t2)) None of
                      None \<Rightarrow> Some (False, b)
                    | Some None \<Rightarrow> Some (True, b)
                    | Some (Some (tmp1, tmp2)) \<Rightarrow> eqn_subsumes_termpair eqn tmp1 tmp2 b } }"

primrec literal_subsumes_loop :: "Eqn \<Rightarrow> Eqn list \<Rightarrow> bindings \<Rightarrow> (bool \<times> bindings) option" where
  "literal_subsumes_loop literal [] b = Some (False, b)"
| "literal_subsumes_loop literal (handle # lits) b =
     do { (res, b) \<leftarrow>
            (if EqnIsPositive literal
             then if EqnIsPositive handle then eqn_subsumes_termpair literal (lterm handle) (rterm handle) b
                  else Some (False, b)
             else if EqnIsNegative handle then eqn_topsubsumes_termpair literal (lterm handle) (rterm handle) b
                  else Some (False, b));
          if res then Some (True, b) else literal_subsumes_loop literal lits b }"

definition LiteralSubsumesClause :: "Eqn \<Rightarrow> Clause \<Rightarrow> bindings \<Rightarrow> (bool \<times> bindings) option" where
  "LiteralSubsumesClause literal clause b = literal_subsumes_loop literal (literals clause) b"

definition UnitClauseSubsumesClause :: "Clause \<Rightarrow> Clause \<Rightarrow> bindings \<Rightarrow> (bool \<times> bindings) option" where
  "UnitClauseSubsumesClause unit clause b =
     do { c_assert (ClauseLiteralNumber unit = 1);
          (case literals unit of [] \<Rightarrow> None | literal # _ \<Rightarrow> LiteralSubsumesClause literal clause b) }"

section \<open>The search\<close>

text \<open>Two matches with \<open>break\<close> or a recursive call after them, the second only if the first succeeds.\<close>

primrec find_spec_loop ::
  "Eqn \<Rightarrow> Eqn list \<Rightarrow> Term_p pstack \<Rightarrow> bindings \<Rightarrow> (Eqn list \<times> Term_p pstack \<times> bindings) option" where
  "find_spec_loop lit [] subst b = Some ([], subst, b)"
| "find_spec_loop lit (e # list) subst b =
     do { cmpres \<leftarrow> EqnSubsumeQOrderCompare lit e;
          if cmpres > 0 then Some ([], subst, b)
          else if cmpres < 0 then find_spec_loop lit list subst b
          else if EqnStandardWeight lit > EqnStandardWeight e then Some ([], subst, b)
          else do {
            c_assert (PropsAreEquiv lit e (EPIsPositive OR EPIsEquLiteral));
            if EqnIsOriented lit \<and> \<not> EqnIsOriented e then find_spec_loop lit list subst b
            else do {
              (res, subst, b) \<leftarrow> match_both (lterm lit) (lterm e) (rterm lit) (rterm e) subst b;
              if res then Some (e # list, subst, b)
              else do {
                (_, subst, b) \<leftarrow> SubstBacktrack subst b;
                if EqnIsOriented lit then find_spec_loop lit list subst b
                else do {
                  (res, subst, b) \<leftarrow> match_both (lterm lit) (rterm e) (rterm lit) (lterm e) subst b;
                  if res then Some (e # list, subst, b)
                  else do {
                    (_, subst, b) \<leftarrow> SubstBacktrack subst b;
                    find_spec_loop lit list subst b } } } } } }"

text \<open>The result is the rest of the list from the found literal on.\<close>

definition find_spec_literal :: "Eqn \<Rightarrow> Eqn list \<Rightarrow> bindings \<Rightarrow> (Eqn list \<times> bindings) option" where
  "find_spec_literal lit list b =
     do { (list, subst, b) \<leftarrow> find_spec_loop lit list SubstAlloc b;
          (_, _, b) \<leftarrow> SubstBacktrack subst b;
          Some (list, b) }"

primrec check_possibility_loop :: "Eqn list \<Rightarrow> Eqn list \<Rightarrow> bindings \<Rightarrow> (bool \<times> bindings) option" where
  "check_possibility_loop [] cand b = Some (True, b)"
| "check_possibility_loop (sub_eqn # lits) cand b =
     do { (found, b) \<leftarrow> find_spec_literal sub_eqn cand b;
          if found = [] then Some (False, b) else check_possibility_loop lits cand b }"

definition check_subsumption_possibility :: "Clause \<Rightarrow> Clause \<Rightarrow> bindings \<Rightarrow> (bool \<times> bindings) option" where
  "check_subsumption_possibility subsumer sub_candidate b =
     check_possibility_loop (literals subsumer) (literals sub_candidate) b"

definition pick_add :: "int mem \<Rightarrow> nat \<Rightarrow> int \<Rightarrow> int mem option" where
  "pick_add pick i d = do { x \<leftarrow> mem_get pick i; mem_set pick i (x + d) }"

type_synonym search_result = "(bool \<times> Term_p pstack \<times> bindings \<times> int mem) option"

text \<open>The loop over the candidates for the literal \<open>s\<close>; \<open>rec\<close> is the call for the literals after it.\<close>

primrec subsume_loop ::
  "(Term_p pstack \<Rightarrow> bindings \<Rightarrow> int mem \<Rightarrow> search_result) \<Rightarrow> Eqn \<Rightarrow> Eqn list \<Rightarrow> nat \<Rightarrow>
   Term_p pstack \<Rightarrow> bindings \<Rightarrow> int mem \<Rightarrow> search_result" where
  "subsume_loop rec s [] lcount subst b pick = Some (False, subst, b, pick)"
| "subsume_loop rec s (eqn # eqns) lcount subst b pick =
     do { picked \<leftarrow> mem_get pick lcount;
          if picked \<noteq> 0 then subsume_loop rec s eqns (lcount + 1) subst b pick
          else do {
            cmpres \<leftarrow> EqnSubsumeQOrderCompare eqn s;
            if cmpres < 0 then Some (False, subst, b, pick)
            else if cmpres > 0 then subsume_loop rec s eqns (lcount + 1) subst b pick
            else if EqnStandardWeight eqn < EqnStandardWeight s then Some (False, subst, b, pick)
            else do {
              c_assert (PropsAreEquiv s eqn (EPIsPositive OR EPIsEquLiteral));
              if EqnIsOriented s \<and> \<not> EqnIsOriented eqn then subsume_loop rec s eqns (lcount + 1) subst b pick
              else do {
                pick \<leftarrow> pick_add pick lcount 1;
                let state = PStackGetSP subst;
                (res, subst, b) \<leftarrow> match_both (lterm s) (lterm eqn) (rterm s) (rterm eqn) subst b;
                (res, subst, b, pick) \<leftarrow> (if res then rec subst b pick else Some (False, subst, b, pick));
                if res then Some (True, subst, b, pick)
                else do {
                  (_, subst, b) \<leftarrow> SubstBacktrackToPos subst b state;
                  if EqnIsOriented s
                  then do { pick \<leftarrow> pick_add pick lcount (- 1);
                            subsume_loop rec s eqns (lcount + 1) subst b pick }
                  else do {
                    (res, subst, b) \<leftarrow> match_both (lterm s) (rterm eqn) (rterm s) (lterm eqn) subst b;
                    (res, subst, b, pick) \<leftarrow> (if res then rec subst b pick else Some (False, subst, b, pick));
                    if res then Some (True, subst, b, pick)
                    else do {
                      (_, subst, b) \<leftarrow> SubstBacktrackToPos subst b state;
                      pick \<leftarrow> pick_add pick lcount (- 1);
                      subsume_loop rec s eqns (lcount + 1) subst b pick } } } } } } }"

primrec eqn_list_rec_subsume ::
  "Eqn list \<Rightarrow> Eqn list \<Rightarrow> Term_p pstack \<Rightarrow> bindings \<Rightarrow> int mem \<Rightarrow> search_result" where
  "eqn_list_rec_subsume [] cand subst b pick = Some (True, subst, b, pick)"
| "eqn_list_rec_subsume (s # subsum_list) cand subst b pick =
     subsume_loop (eqn_list_rec_subsume subsum_list cand) s cand 0 subst b pick"

definition IntArrayAlloc :: "nat \<Rightarrow> int mem" where
  "IntArrayAlloc n = replicate n (Some 0)"

definition clause_subsumes_clause :: "Clause \<Rightarrow> Clause \<Rightarrow> bindings \<Rightarrow> (bool \<times> bindings) option" where
  "clause_subsumes_clause subsumer sub_candidate b =
     do { o1 \<leftarrow> ClauseIsSubsumeOrdered subsumer;
          c_assert o1;
          o2 \<leftarrow> ClauseIsSubsumeOrdered sub_candidate;
          c_assert o2;
          if ClauseLiteralNumber subsumer = 0 then Some (True, b)
          else if ClauseLiteralNumber subsumer = 1 then UnitClauseSubsumesClause subsumer sub_candidate b
          else do {
            c_assert (cl_weight sub_candidate = ClauseStandardWeight sub_candidate);
            c_assert (cl_weight subsumer = ClauseStandardWeight subsumer);
            if pos_lit_no subsumer > pos_lit_no sub_candidate \<or> neg_lit_no subsumer > neg_lit_no sub_candidate
            then Some (False, b)
            else if cl_weight subsumer > cl_weight sub_candidate then Some (False, b)
            else do {
              (possible, b) \<leftarrow>
                (if pos_lit_no sub_candidate \<ge> 3 \<or> neg_lit_no sub_candidate \<ge> 3
                 then check_subsumption_possibility subsumer sub_candidate b else Some (True, b));
              if \<not> possible then Some (False, b)
              else do {
                let pick_list = IntArrayAlloc (nat (ClauseLiteralNumber sub_candidate));
                (res, subst, b, _) \<leftarrow>
                  eqn_list_rec_subsume (literals subsumer) (literals sub_candidate) SubstAlloc b pick_list;
                (_, _, b) \<leftarrow> SubstBacktrack subst b;
                Some (res, b) } } } }"

definition ClauseSubsumesClause :: "Clause \<Rightarrow> Clause \<Rightarrow> bindings \<Rightarrow> (bool \<times> bindings) option" where
  "ClauseSubsumesClause subsumer sub_candidate b =
     do { c_assert (cl_weight sub_candidate = ClauseStandardWeight sub_candidate);
          c_assert (cl_weight subsumer = ClauseStandardWeight subsumer);
          clause_subsumes_clause subsumer sub_candidate b }"

text \<open>Clause sets without an index: the clauses in the order of the doubly linked list.\<close>

primrec set_subsumes_loop :: "Clause list \<Rightarrow> Clause \<Rightarrow> bindings \<Rightarrow> (Clause option \<times> bindings) option" where
  "set_subsumes_loop [] sub_candidate b = Some (None, b)"
| "set_subsumes_loop (handle # clset) sub_candidate b =
     do { (res, b) \<leftarrow> clause_subsumes_clause handle sub_candidate b;
          if res then Some (Some handle, b) else set_subsumes_loop clset sub_candidate b }"

definition clause_set_subsumes_clause :: "Clause list \<Rightarrow> Clause \<Rightarrow> bindings \<Rightarrow> (Clause option \<times> bindings) option" where
  "clause_set_subsumes_clause clset sub_candidate b =
     do { c_assert (ClauseLiteralNumber sub_candidate > 1);
          c_assert (cl_weight sub_candidate = ClauseStandardWeight sub_candidate);
          set_subsumes_loop clset sub_candidate b }"

primrec clauseset_find_subsumed_clauses :: "Clause list \<Rightarrow> Clause \<Rightarrow> Clause pstack \<Rightarrow> bindings \<Rightarrow> (Clause pstack \<times> bindings) option" where
  "clauseset_find_subsumed_clauses [] subsumer res b = Some (res, b)"
| "clauseset_find_subsumed_clauses (handle # clset) subsumer res b =
     do { (r, b) \<leftarrow> clause_subsumes_clause subsumer handle b;
          res \<leftarrow> (if r then PStackPushP res handle else Some res);
          clauseset_find_subsumed_clauses clset subsumer res b }"

primrec clauseset_find_first_subsumed_clause :: "Clause list \<Rightarrow> Clause \<Rightarrow> bindings \<Rightarrow> (Clause option \<times> bindings) option" where
  "clauseset_find_first_subsumed_clause [] subsumer b = Some (None, b)"
| "clauseset_find_first_subsumed_clause (handle # clset) subsumer b =
     do { (r, b) \<leftarrow> clause_subsumes_clause subsumer handle b;
          if r then Some (Some handle, b) else clauseset_find_first_subsumed_clause clset subsumer b }"

text \<open>From a position of the set on.\<close>

primrec ClauseSetFindUnitSubsumedClause :: "Clause list \<Rightarrow> Clause \<Rightarrow> bindings \<Rightarrow> (Clause list \<times> bindings) option" where
  "ClauseSetFindUnitSubsumedClause [] subsumer b =
     do { c_assert (ClauseLiteralNumber subsumer = 1); Some ([], b) }"
| "ClauseSetFindUnitSubsumedClause (c # clset) subsumer b =
     do { c_assert (ClauseLiteralNumber subsumer = 1);
          (r, b) \<leftarrow> UnitClauseSubsumesClause subsumer c b;
          if r then Some (c # clset, b) else ClauseSetFindUnitSubsumedClause clset subsumer b }"

primrec ClauseSetFindSubsumedClause :: "Clause list \<Rightarrow> Clause \<Rightarrow> bindings \<Rightarrow> (Clause list \<times> bindings) option" where
  "ClauseSetFindSubsumedClause [] subsumer b =
     do { c_assert (cl_weight subsumer = ClauseStandardWeight subsumer); Some ([], b) }"
| "ClauseSetFindSubsumedClause (c # clset) subsumer b =
     do { c_assert (cl_weight subsumer = ClauseStandardWeight subsumer);
          c_assert (cl_weight c = ClauseStandardWeight c);
          (r, b) \<leftarrow> clause_subsumes_clause subsumer c b;
          if r then Some (c # clset, b) else ClauseSetFindSubsumedClause clset subsumer b }"

section \<open>The specification\<close>

text \<open>A literal as a sign and the multiset of its sides, instantiated.\<close>

definition lit_inst :: "(Term_p \<Rightarrow> Term_p) \<Rightarrow> Eqn \<Rightarrow> bool \<times> Term_p multiset" where
  "lit_inst \<theta> e = (EqnIsPositive e, {#inst \<theta> (lterm e), inst \<theta> (rterm e)#})"

definition lit_sides :: "Eqn \<Rightarrow> bool \<times> Term_p multiset" where
  "lit_sides e = (EqnIsPositive e, {#lterm e, rterm e#})"

text \<open>
  Literals of the first-order build: the atoms, of the type of \<open>$true\<close>, are the left sides of
  literals \<open>atom = $true\<close>; the sides of equations are of other types.
\<close>

definition lit_ok :: "Sig \<Rightarrow> Term_p \<Rightarrow> Eqn \<Rightarrow> bool" where
  "lit_ok sg tt e \<longleftrightarrow> equ_ok e \<and> true_term (eqn_bank e) = tt \<and> wf_term sg (lterm e) \<and> wf_term sg (rterm e) \<and>
     (if rterm e = tt then \<not> TermIsFreeVar (lterm e)
      else t_type (lterm e) \<noteq> t_type tt \<and> t_type (rterm e) \<noteq> t_type tt \<and>
           \<not> t_predpos (lterm e) \<and> \<not> t_predpos (rterm e))"

definition true_ok :: "Sig \<Rightarrow> Term_p \<Rightarrow> bool" where
  "true_ok sg tt \<longleftrightarrow> wf_term sg tt \<and> \<not> TermIsFreeVar tt \<and> arity tt = 0"

text \<open>A literal with greater left side has only instances with greater left sides.\<close>

definition orient_stable :: "Sig \<Rightarrow> Eqn \<Rightarrow> Eqn \<Rightarrow> bool" where
  "orient_stable sg s e \<longleftrightarrow> (EqnIsOriented s \<longrightarrow>
     (\<forall>\<theta>. subst_typed sg \<theta> \<longrightarrow> lit_inst \<theta> s = lit_sides e \<longrightarrow>
        EqnIsOriented e \<and> inst \<theta> (lterm s) = lterm e \<and> inst \<theta> (rterm s) = rterm e))"

text \<open>The literals can be mapped injectively to candidates that are not taken.\<close>

primrec covers :: "(Term_p \<Rightarrow> Term_p) \<Rightarrow> Eqn list \<Rightarrow> Eqn list \<Rightarrow> nat set \<Rightarrow> bool" where
  "covers \<theta> [] cand P = True"
| "covers \<theta> (s # ss) cand P =
     (\<exists>i < length cand. i \<notin> P \<and> lit_inst \<theta> s = lit_sides (cand ! i) \<and> covers \<theta> ss cand (insert i P))"

definition free_lits :: "Eqn list \<Rightarrow> nat set \<Rightarrow> (bool \<times> Term_p multiset) multiset" where
  "free_lits cand P = image_mset (\<lambda>i. lit_sides (cand ! i)) (mset_set ({..<length cand} - P))"

lemma covers_iff: "covers \<theta> ss cand P \<longleftrightarrow> image_mset (lit_inst \<theta>) (mset ss) \<subseteq># free_lits cand P"
proof (induction ss arbitrary: P)
  case (Cons s ss)
  have split: "free_lits cand P = add_mset (lit_sides (cand ! i)) (free_lits cand (insert i P))"
    if "i < length cand" "i \<notin> P" for i
  proof -
    define A where "A = {..<length cand} - insert i P"
    have "{..<length cand} - P = insert i A" "finite A" "i \<notin> A" using that by (auto simp: A_def)
    then have "mset_set ({..<length cand} - P) = add_mset i (mset_set A)" by simp
    then show ?thesis unfolding free_lits_def A_def by (simp only: image_mset_add_mset)
  qed
  have mem: "x \<in># free_lits cand P \<longleftrightarrow> (\<exists>i < length cand. i \<notin> P \<and> x = lit_sides (cand ! i))" for x
    by (auto simp: free_lits_def)
  let ?sub = "\<lambda>ss P. image_mset (lit_inst \<theta>) (mset ss) \<subseteq># free_lits cand P"
  have next_lit: "?sub (s # ss) P \<longleftrightarrow> ?sub ss (insert i P)"
    if "i < length cand" "i \<notin> P" "lit_inst \<theta> s = lit_sides (cand ! i)" for i
    using that(3) by (simp add: split [OF that(1,2)])
  have "?sub (s # ss) P \<Longrightarrow> \<exists>i < length cand. i \<notin> P \<and> lit_inst \<theta> s = lit_sides (cand ! i)"
    using mem [of "lit_inst \<theta> s"] by (simp add: insert_subset_eq_iff)
  then show ?case unfolding covers.simps Cons.IH using next_lit by blast
qed simp

lemma free_lits_all: "free_lits cand {} = image_mset lit_sides (mset cand)"
proof -
  have "image_mset (\<lambda>i. lit_sides (cand ! i)) (mset_set {..<length cand}) =
      mset (map (\<lambda>i. lit_sides (cand ! i)) [0..<length cand])"
    by (simp add: mset_upt [symmetric] lessThan_atLeast0 del: mset_upt)
  also have "map (\<lambda>i. lit_sides (cand ! i)) [0..<length cand] = map lit_sides cand"
    by (intro nth_equalityI) simp_all
  finally show ?thesis by (simp add: free_lits_def)
qed

section \<open>Matching two literals\<close>

lemma inst_true: "true_ok sg tt \<Longrightarrow> inst \<theta> tt = tt"
  by (cases tt) (simp add: true_ok_def)

lemma lit_match_equ:
  assumes "true_ok sg tt" and "lit_ok sg tt s" and "lit_ok sg tt e" and "subst_typed sg \<theta>" and m: "lit_inst \<theta> s = lit_sides e"
  shows "rterm s = tt \<longleftrightarrow> rterm e = tt"
proof -
  have types: "t_type (inst \<theta> (lterm s)) = t_type (lterm s)" "t_type (inst \<theta> (rterm s)) = t_type (rterm s)"
    using inst_typed [OF assms(4)] assms(2) by (auto simp: lit_ok_def)
  have sides: "{#inst \<theta> (lterm s), inst \<theta> (rterm s)#} = {#lterm e, rterm e#}"
    using m by (simp add: lit_inst_def lit_sides_def)
  show ?thesis
  proof
    assume "rterm s = tt"
    then have "tt \<in># {#lterm e, rterm e#}" using inst_true [OF assms(1)] unfolding sides [symmetric] by simp
    then have "lterm e = tt \<or> rterm e = tt" by auto
    then show "rterm e = tt" using assms(3) by (cases "rterm e = tt") (simp_all add: lit_ok_def)
  next
    assume "rterm e = tt"
    then have "tt \<in># {#inst \<theta> (lterm s), inst \<theta> (rterm s)#}" unfolding sides by simp
    then have "t_type (lterm s) = t_type tt \<or> t_type (rterm s) = t_type tt" using types by auto
    then show "rterm s = tt" using assms(2) by (cases "rterm s = tt") (simp_all add: lit_ok_def)
  qed
qed

lemma lit_match_key:
  assumes "true_ok sg tt" and "lit_ok sg tt s" and "lit_ok sg tt e" and "subst_typed sg \<theta>" and m: "lit_inst \<theta> s = lit_sides e"
  shows "q_key s = q_key e" and "EqnStandardWeight s \<le> EqnStandardWeight e"
proof -
  have sign: "EqnIsPositive s = EqnIsPositive e" and sides: "{#inst \<theta> (lterm s), inst \<theta> (rterm s)#} = {#lterm e, rterm e#}"
    using m by (simp_all add: lit_inst_def lit_sides_def)
  then have cases: "inst \<theta> (lterm s) = lterm e \<and> inst \<theta> (rterm s) = rterm e \<or>
      inst \<theta> (lterm s) = rterm e \<and> inst \<theta> (rterm s) = lterm e" by (auto simp: add_eq_conv_ex)
  note equ = lit_match_equ [OF assms]
  show "EqnStandardWeight s \<le> EqnStandardWeight e"
    using cases weight_inst [of "lterm s" \<theta>] weight_inst [of "rterm s" \<theta>] by (auto simp: EqnStandardWeight_def)
  have flags: "EqnQueryProp s EPIsEquLiteral \<longleftrightarrow> rterm s \<noteq> tt" "EqnQueryProp e EPIsEquLiteral \<longleftrightarrow> rterm e \<noteq> tt"
    using assms(2,3) by (auto simp: lit_ok_def equ_ok_def)
  have "f_code (lterm s) = f_code (lterm e)" if "rterm s = tt"
  proof -
    have "\<not> TermIsFreeVar (lterm s)" "rterm e = tt" using assms(2) that equ by (auto simp: lit_ok_def)
    then show ?thesis using cases f_code_inst [of "lterm s" \<theta>] that inst_true [OF assms(1), of \<theta>] by auto
  qed
  then show "q_key s = q_key e" using sign equ flags by (simp add: q_key_def)
qed

text \<open>The trail of a search that may fail between two matches.\<close>

lemma match_both_ok:
  assumes "binds_ok sg b" and "pstack_ok subst" and "wf_term sg l" and "wf_term sg l'" and "wf_term sg r" and "wf_term sg r'"
    and "\<not> (t_predpos l' \<and> TermIsFreeVar l)" and "\<not> (t_predpos r' \<and> TermIsFreeVar r)"
  shows "\<exists>res s' b'. match_both l l' r r' subst b = Some (res, s', b') \<and> trail b (pstack_list subst) b' s' \<and>
     (if res then binds_ok sg b' \<and>
          (\<forall>\<theta>. subst_typed sg \<theta> \<longrightarrow> (extends \<theta> b \<and> inst \<theta> l = l' \<and> inst \<theta> r = r' \<longleftrightarrow> extends \<theta> b'))
      else (\<forall>\<theta>. subst_typed sg \<theta> \<longrightarrow> \<not> (extends \<theta> b \<and> inst \<theta> l = l' \<and> inst \<theta> r = r')))"
proof -
  obtain res1 s1 b1 where r1: "SubstComputeMatch l l' subst b = Some (res1, s1, b1)"
    "if res1 then binds_ok sg b1 \<and> trail b (pstack_list subst) b1 s1 \<and>
          (\<forall>\<theta>. subst_typed sg \<theta> \<longrightarrow> (extends \<theta> b \<and> inst \<theta> l = l' \<longleftrightarrow> extends \<theta> b1))
      else b1 = b \<and> pstack_ok s1 \<and> pstack_list s1 = pstack_list subst \<and>
          (\<forall>\<theta>. subst_typed sg \<theta> \<longrightarrow> \<not> (extends \<theta> b \<and> inst \<theta> l = l'))"
    using SubstComputeMatch_post [OF assms(1-4,7)] by blast
  show ?thesis
  proof (cases res1)
    case False
    then have "trail b (pstack_list subst) b1 s1" using r1(2) trail_refl [of s1 b] by auto
    then show ?thesis using r1 False by (auto simp: match_both_def)
  next
    case True
    then have b1: "binds_ok sg b1" "trail b (pstack_list subst) b1 s1"
      "\<forall>\<theta>. subst_typed sg \<theta> \<longrightarrow> (extends \<theta> b \<and> inst \<theta> l = l' \<longleftrightarrow> extends \<theta> b1)" using r1(2) by auto
    obtain res2 s2 b2 where r2: "SubstComputeMatch r r' s1 b1 = Some (res2, s2, b2)"
      "if res2 then binds_ok sg b2 \<and> trail b1 (pstack_list s1) b2 s2 \<and>
          (\<forall>\<theta>. subst_typed sg \<theta> \<longrightarrow> (extends \<theta> b1 \<and> inst \<theta> r = r' \<longleftrightarrow> extends \<theta> b2))
      else b2 = b1 \<and> pstack_ok s2 \<and> pstack_list s2 = pstack_list s1 \<and>
          (\<forall>\<theta>. subst_typed sg \<theta> \<longrightarrow> \<not> (extends \<theta> b1 \<and> inst \<theta> r = r'))"
      using SubstComputeMatch_post [OF b1(1) trail_ok [OF b1(2)] assms(5,6,8)] by blast
    have "trail b1 (pstack_list s1) b2 s2" using r2(2) trail_refl [of s2 b1] by (auto split: if_splits)
    then have "trail b (pstack_list subst) b2 s2" using trail_trans [OF b1(2)] by blast
    moreover have "extends \<theta> b \<and> inst \<theta> l = l' \<and> inst \<theta> r = r' \<longleftrightarrow> extends \<theta> b1 \<and> inst \<theta> r = r'"
      if "subst_typed sg \<theta>" for \<theta> using b1(3) that by blast
    ultimately show ?thesis using r1(1) r2 True
      by (intro exI [of _ res2] exI [of _ s2] exI [of _ b2]) (simp add: match_both_def split: if_splits)
  qed
qed

section \<open>The search is complete\<close>

definition sub_ok :: "Sig \<Rightarrow> Term_p \<Rightarrow> Eqn list \<Rightarrow> Eqn list \<Rightarrow> bool" where
  "sub_ok sg tt ss cand \<longleftrightarrow> true_ok sg tt \<and> (\<forall>e \<in> set cand. lit_ok sg tt e) \<and>
     sorted_wrt (\<lambda>e1 e2. sub_key e2 \<le> sub_key e1) cand \<and>
     (\<forall>s \<in> set ss. lit_ok sg tt s \<and> (\<forall>e \<in> set cand. orient_stable sg s e))"

definition hit :: "Sig \<Rightarrow> bindings \<Rightarrow> Eqn list \<Rightarrow> Eqn list \<Rightarrow> nat set \<Rightarrow> (Term_p \<Rightarrow> Term_p) \<Rightarrow> bool" where
  "hit sg b ss cand P \<theta> \<longleftrightarrow> subst_typed sg \<theta> \<and> extends \<theta> b \<and> covers \<theta> ss cand P"

definition pick_ok :: "Eqn list \<Rightarrow> nat set \<Rightarrow> int mem \<Rightarrow> bool" where
  "pick_ok cand P pick \<longleftrightarrow> pick = map (\<lambda>i. Some (of_bool (i \<in> P))) [0..<length cand]"

definition search_post :: "bindings \<Rightarrow> Term_p pstack \<Rightarrow> int mem \<Rightarrow> bool \<Rightarrow> search_result \<Rightarrow> bool" where
  "search_post b subst pick Q r \<longleftrightarrow> (\<exists>s' b' pick'. r = Some (Q, s', b', pick') \<and> trail b (pstack_list subst) b' s' \<and>
     (\<not> Q \<longrightarrow> b' = b \<and> pstack_list s' = pstack_list subst \<and> pick' = pick))"

lemma search_post_False: "pstack_ok subst \<Longrightarrow> \<not> Q \<Longrightarrow> search_post b subst pick Q (Some (False, subst, b, pick))"
  using trail_refl [of subst b] by (simp add: search_post_def)

lemma pick_ok_get: "pick_ok cand P pick \<Longrightarrow> i < length cand \<Longrightarrow> mem_get pick i = Some (of_bool (i \<in> P))"
  by (simp add: pick_ok_def mem_get_def)

lemma pick_ok_add:
  assumes "pick_ok cand P pick" and "i < length cand" and "i \<notin> P"
  shows "\<exists>pick'. pick_add pick i 1 = Some pick' \<and> pick_ok cand (insert i P) pick' \<and> pick_add pick' i (- 1) = Some pick"
proof -
  let ?pick = "pick[i := Some 1]"
  have len: "length pick = length cand" "pick ! i = Some 0" using assms by (simp_all add: pick_ok_def)
  have add: "pick_add pick i 1 = Some ?pick" using len assms(2) by (simp add: pick_add_def mem_get_def mem_set_def)
  moreover have "pick_ok cand (insert i P) ?pick"
    unfolding pick_ok_def by (intro nth_equalityI) (use assms in \<open>auto simp: pick_ok_def nth_list_update\<close>)
  moreover have "pick_add ?pick i (- 1) = Some (?pick[i := Some 0])"
    using len assms(2) by (simp add: pick_add_def mem_get_def mem_set_def)
  moreover have "?pick[i := Some 0] = pick" using len(2) by (metis list_update_id list_update_overwrite)
  ultimately show ?thesis by metis
qed

lemma sub_key_less: "sub_key e1 < sub_key e2 \<longleftrightarrow> q_key e1 < q_key e2 \<or>
    q_key e1 = q_key e2 \<and> EqnStandardWeight e1 < EqnStandardWeight e2"
  unfolding sub_key_def less_prod_simp by auto

lemma lit_match_sub_key:
  assumes "true_ok sg tt" and "lit_ok sg tt s" and "lit_ok sg tt e" and "subst_typed sg \<theta>" and "lit_inst \<theta> s = lit_sides e"
  shows "sub_key s \<le> sub_key e"
  using lit_match_key [OF assms] by (simp add: sub_key_def less_eq_prod_def)

lemma lit_inst_sides:
  "lit_inst \<theta> s = lit_sides e \<longleftrightarrow> EqnIsPositive s = EqnIsPositive e \<and>
     (inst \<theta> (lterm s) = lterm e \<and> inst \<theta> (rterm s) = rterm e \<or> inst \<theta> (lterm s) = rterm e \<and> inst \<theta> (rterm s) = lterm e)"
  by (auto simp: lit_inst_def lit_sides_def add_eq_conv_ex)

text \<open>Below a candidate that is too small there is no match.\<close>

lemma sorted_cut:
  assumes "sub_ok sg tt (s # ss) cand" and "k < length cand" and "sub_key (cand ! k) < sub_key s"
    and "k \<le> i" and "i < length cand" and "subst_typed sg \<theta>"
  shows "lit_inst \<theta> s \<noteq> lit_sides (cand ! i)"
proof
  assume m: "lit_inst \<theta> s = lit_sides (cand ! i)"
  have "sub_key (cand ! i) \<le> sub_key (cand ! k)"
    using assms(1,2,4,5) sorted_wrt_nth_less [of "\<lambda>e1 e2. sub_key e2 \<le> sub_key e1" cand k i]
    by (cases "k = i") (auto simp: sub_ok_def)
  moreover have "sub_key s \<le> sub_key (cand ! i)"
    by (rule lit_match_sub_key [OF _ _ _ assms(6) m]) (use assms(1,5) in \<open>auto simp: sub_ok_def\<close>)
  ultimately show False using assms(3) by simp
qed

definition rec_ok ::
  "Sig \<Rightarrow> Eqn list \<Rightarrow> Eqn list \<Rightarrow> (Term_p pstack \<Rightarrow> bindings \<Rightarrow> int mem \<Rightarrow> search_result) \<Rightarrow> bool" where
  "rec_ok sg ss cand rec \<longleftrightarrow> (\<forall>subst b pick P. binds_ok sg b \<longrightarrow> pstack_ok subst \<longrightarrow> pick_ok cand P pick \<longrightarrow>
     search_post b subst pick (\<exists>\<theta>. hit sg b ss cand P \<theta>) (rec subst b pick))"

lemma rec_okD: "rec_ok sg ss cand rec \<Longrightarrow> binds_ok sg b \<Longrightarrow> pstack_ok subst \<Longrightarrow> pick_ok cand P pick \<Longrightarrow>
    search_post b subst pick (\<exists>\<theta>. hit sg b ss cand P \<theta>) (rec subst b pick)"
  by (simp add: rec_ok_def)

text \<open>One attempt: two matches, then the search for the other literals.\<close>

lemma attempt_ok:
  assumes "rec_ok sg ss cand rec" and "pick_ok cand P pick" and "binds_ok sg b" and "pstack_ok subst"
    and "wf_term sg l" and "wf_term sg l'" and "wf_term sg r" and "wf_term sg r'"
    and "\<not> (t_predpos l' \<and> TermIsFreeVar l)" and "\<not> (t_predpos r' \<and> TermIsFreeVar r)"
  defines "Q \<equiv> \<exists>\<theta>. hit sg b ss cand P \<theta> \<and> inst \<theta> l = l' \<and> inst \<theta> r = r'"
  shows "\<exists>s' b' pick' s1 b1 m. match_both l l' r r' subst b = Some (m, s1, b1) \<and>
    (if m then rec s1 b1 pick else Some (False, s1, b1, pick)) = Some (Q, s', b', pick') \<and>
    trail b (pstack_list subst) b' s' \<and> (\<not> Q \<longrightarrow> pick' = pick)"
proof -
  obtain m s1 b1 where m: "match_both l l' r r' subst b = Some (m, s1, b1)" "trail b (pstack_list subst) b1 s1"
    "if m then binds_ok sg b1 \<and>
          (\<forall>\<theta>. subst_typed sg \<theta> \<longrightarrow> (extends \<theta> b \<and> inst \<theta> l = l' \<and> inst \<theta> r = r' \<longleftrightarrow> extends \<theta> b1))
      else (\<forall>\<theta>. subst_typed sg \<theta> \<longrightarrow> \<not> (extends \<theta> b \<and> inst \<theta> l = l' \<and> inst \<theta> r = r'))"
    using match_both_ok [OF assms(3-10)] by blast
  show ?thesis
  proof (cases m)
    case False
    then have "\<not> Q" using m(3) by (auto simp: Q_def hit_def)
    then show ?thesis using m(1,2) False by auto
  next
    case True
    then have "Q \<longleftrightarrow> (\<exists>\<theta>. hit sg b1 ss cand P \<theta>)" using m(3) unfolding Q_def hit_def by auto
    then obtain s' b' pick' where r: "rec s1 b1 pick = Some (Q, s', b', pick')" "trail b1 (pstack_list s1) b' s'"
      "\<not> Q \<longrightarrow> pick' = pick"
      using rec_okD [OF assms(1) _ trail_ok [OF m(2)] assms(2), of b1] m(3) True by (auto simp: search_post_def)
    have "trail b (pstack_list subst) b' s'" by (rule trail_trans [OF m(2) r(2)])
    then show ?thesis using m(1) True r(1,3)
      by (intro exI [of _ s'] exI [of _ b'] exI [of _ pick'] exI [of _ s1] exI [of _ b1] exI [of _ True]) simp
  qed
qed

lemma sub_ok_sides:
  assumes "sub_ok sg tt (s # ss) cand" and "e \<in> set cand" and "q_key s = q_key e"
  shows "wf_term sg (lterm s)" "wf_term sg (rterm s)" "wf_term sg (lterm e)" "wf_term sg (rterm e)"
    "\<not> (t_predpos (lterm e) \<and> TermIsFreeVar (lterm s))" "\<not> (t_predpos (rterm e) \<and> TermIsFreeVar (rterm s))"
    "\<not> (t_predpos (rterm e) \<and> TermIsFreeVar (lterm s))" "\<not> (t_predpos (lterm e) \<and> TermIsFreeVar (rterm s))"
proof -
  have s: "lit_ok sg tt s" and e: "lit_ok sg tt e" and tt: "true_ok sg tt" using assms(1,2) by (auto simp: sub_ok_def)
  show "wf_term sg (lterm s)" "wf_term sg (rterm s)" "wf_term sg (lterm e)" "wf_term sg (rterm e)"
    using s e by (simp_all add: lit_ok_def)
  have "rterm s = tt \<longleftrightarrow> rterm e = tt"
    using assms(3) s e by (auto simp: q_key_def lit_ok_def equ_ok_def)
  then show "\<not> (t_predpos (lterm e) \<and> TermIsFreeVar (lterm s))" "\<not> (t_predpos (rterm e) \<and> TermIsFreeVar (rterm s))"
    "\<not> (t_predpos (rterm e) \<and> TermIsFreeVar (lterm s))" "\<not> (t_predpos (lterm e) \<and> TermIsFreeVar (rterm s))"
    using s e tt by (auto simp: lit_ok_def true_ok_def split: if_splits)
qed

lemma PropsAreEquiv_q_key:
  assumes "q_key s = q_key e"
  shows "PropsAreEquiv s e (EPIsPositive OR EPIsEquLiteral)"
proof -
  have "eqn_properties s AND p = eqn_properties e AND p" if "p \<in> {EPIsPositive, EPIsEquLiteral}" for p
  proof -
    have "EqnQueryProp s p = EqnQueryProp e p"
      using assms that by (auto simp: q_key_def EqnIsPositive_def split: if_splits)
    moreover have "x AND p = 0 \<or> x AND p = p" for x :: int
      using that and_single_bit [of x 0] and_single_bit [of x 3] by (auto simp: EP_defs)
    ultimately show ?thesis unfolding EqnQueryProp_def by metis
  qed
  then show ?thesis by (simp add: PropsAreEquiv_def bit.conj_disj_distrib)
qed

lemma backtrack_to:
  assumes "trail b (pstack_list subst) b' s'" and "pstack_ok subst"
  shows "\<exists>n s2. SubstBacktrackToPos s' b' (PStackGetSP subst) = Some (n, s2, b) \<and> pstack_ok s2 \<and>
    pstack_list s2 = pstack_list subst"
proof -
  have "PStackGetSP subst = length (pstack_list subst)" using assms(2) by (simp add: PStackGetSP_def)
  then show ?thesis using trail_backtrack [OF assms(1)] by auto
qed

text \<open>The candidates that the loop accepts, from position \<open>k\<close> on.\<close>

definition hits_from ::
  "Sig \<Rightarrow> bindings \<Rightarrow> Eqn \<Rightarrow> Eqn list \<Rightarrow> Eqn list \<Rightarrow> nat set \<Rightarrow> nat \<Rightarrow> bool" where
  "hits_from sg b s ss cand P k \<longleftrightarrow> (\<exists>i \<ge> k. i < length cand \<and> i \<notin> P \<and>
     (\<exists>\<theta>. hit sg b ss cand (insert i P) \<theta> \<and> lit_inst \<theta> s = lit_sides (cand ! i)))"

lemma hits_from_Suc:
  "k < length cand \<Longrightarrow> hits_from sg b s ss cand P k \<longleftrightarrow>
     (k \<notin> P \<and> (\<exists>\<theta>. hit sg b ss cand (insert k P) \<theta> \<and> lit_inst \<theta> s = lit_sides (cand ! k))) \<or>
     hits_from sg b s ss cand P (Suc k)"
proof -
  have "i \<ge> k \<longleftrightarrow> i = k \<or> Suc k \<le> i" for i by auto
  then show "k < length cand \<Longrightarrow> ?thesis" unfolding hits_from_def by (simp add: conj_disj_distribR ex_disj_distrib)
qed

lemma hits_from_0: "hits_from sg b s ss cand P 0 \<longleftrightarrow> (\<exists>\<theta>. hit sg b (s # ss) cand P \<theta>)"
  by (auto simp: hits_from_def hit_def)

lemma subsume_loop_ok:
  assumes "sub_ok sg tt (s # ss) cand" and "rec_ok sg ss cand rec"
    and "binds_ok sg b" and "pstack_ok subst" and "pick_ok cand P pick" and "k \<le> length cand"
  shows "search_post b subst pick (hits_from sg b s ss cand P k) (subsume_loop rec s (drop k cand) k subst b pick)"
  using assms(4,6)
proof (induction "drop k cand" arbitrary: k subst)
  case Nil
  then have "\<not> hits_from sg b s ss cand P k" by (simp add: hits_from_def)
  then show ?case using Nil search_post_False by simp
next
  case (Cons e eqns)
  let ?Q = "hits_from sg b s ss cand P" and ?rest = "\<lambda>subst. subsume_loop rec s eqns (k + 1) subst b pick"
  have k: "k < length cand" using Cons.hyps(2) by (metis drop_eq_Nil2 leI list.distinct(1))
  have e: "e = cand ! k" "eqns = drop (Suc k) cand" "e \<in> set cand"
    using Cons.hyps(2) k by (metis Cons_nth_drop_Suc list.inject, metis Cons_nth_drop_Suc list.inject,
      metis Cons_nth_drop_Suc list.inject nth_mem)
  have IH: "search_post b su pick (?Q (Suc k)) (?rest su)" if "pstack_ok su" for su
    using Cons.hyps(1) [OF e(2) that] k by (simp add: e(2))
  have rest: "search_post b subst pick (?Q k) (?rest su)"
    if "pstack_ok su" "pstack_list su = pstack_list subst" "?Q k \<longleftrightarrow> ?Q (Suc k)" for su
    using IH [OF that(1)] that(2,3) by (simp add: search_post_def)
  note unfold_loop = Cons.hyps(2) [symmetric]
  note get = pick_ok_get [OF assms(5) k] and split = hits_from_Suc [OF k, of sg b s ss P]
  have ok: "lit_ok sg tt s" "lit_ok sg tt e" "true_ok sg tt" "orient_stable sg s e"
    using assms(1) e(3) by (auto simp: sub_ok_def)
  then have equ: "equ_ok e" "equ_ok s" by (simp_all add: lit_ok_def)
  obtain r where r: "EqnSubsumeQOrderCompare e s = Some r" "r < 0 \<longleftrightarrow> q_key e < q_key s" "r > 0 \<longleftrightarrow> q_key s < q_key e"
    using EqnSubsumeQOrderCompare_ok [OF equ] by blast
  consider (picked) "k \<in> P" | (cut) "k \<notin> P" "sub_key e < sub_key s" | (skip) "k \<notin> P" "r > 0"
    | (skip_or) "k \<notin> P" "q_key s = q_key e" "EqnStandardWeight s \<le> EqnStandardWeight e" "EqnIsOriented s" "\<not> EqnIsOriented e"
    | (attempt) "k \<notin> P" "q_key s = q_key e" "EqnStandardWeight s \<le> EqnStandardWeight e" "\<not> (EqnIsOriented s \<and> \<not> EqnIsOriented e)"
    using linorder_less_linear [of "q_key e" "q_key s"] r(2,3) sub_key_less [of e s]
    by (cases "EqnStandardWeight e < EqnStandardWeight s"; cases "k \<in> P";
        cases "EqnIsOriented s \<and> \<not> EqnIsOriented e") (auto simp: not_less)
  then show ?case
  proof cases
    case picked
    then have same: "?Q k \<longleftrightarrow> ?Q (Suc k)" using split by blast
    show ?thesis using rest [OF Cons.prems(1) refl same] picked get by (simp add: unfold_loop)
  next
    case cut
    have "\<not> ?Q k"
      using sorted_cut [OF assms(1) k cut(2) [unfolded e(1)]] by (auto simp: hits_from_def hit_def)
    then have "search_post b subst pick (?Q k) (Some (False, subst, b, pick))"
      by (rule search_post_False [OF Cons.prems(1)])
    moreover have "r < 0 \<or> \<not> r > 0 \<and> EqnStandardWeight e < EqnStandardWeight s"
      using cut(2) r(2,3) by (auto simp: sub_key_less)
    ultimately show ?thesis using cut(1) get r(1) by (auto simp: unfold_loop)
  next
    case skip
    have "\<not> (\<exists>\<theta>. hit sg b ss cand (insert k P) \<theta> \<and> lit_inst \<theta> s = lit_sides e)"
      using lit_match_key(1) [OF ok(3,1,2)] skip(2) r(3) by (auto simp: hit_def)
    then have same: "?Q k \<longleftrightarrow> ?Q (Suc k)" using split e(1) by blast
    show ?thesis using rest [OF Cons.prems(1) refl same] skip get r(1) by (simp add: unfold_loop)
  next
    case skip_or
    have "\<not> (\<exists>\<theta>. hit sg b ss cand (insert k P) \<theta> \<and> lit_inst \<theta> s = lit_sides e)"
      using ok(4) skip_or(4,5) by (auto simp: hit_def orient_stable_def)
    then have same: "?Q k \<longleftrightarrow> ?Q (Suc k)" using split e(1) by blast
    have "r = 0" using r(2,3) skip_or(2) by simp
    then show ?thesis
      using rest [OF Cons.prems(1) refl same] skip_or get r(1) PropsAreEquiv_q_key [OF skip_or(2)]
      by (simp add: unfold_loop)
  next
    case attempt
    have r0: "r = 0" using r(2,3) attempt(2) by simp
    note props = PropsAreEquiv_q_key [OF attempt(2)] and wf = sub_ok_sides [OF assms(1) e(3) attempt(2)]
    have sign: "EqnIsPositive s = EqnIsPositive e" 
      using attempt(2) by (cases "EqnIsPositive s"; cases "EqnIsPositive e") (simp_all add: q_key_def)
    let ?H = "\<lambda>\<theta>. hit sg b ss cand (insert k P) \<theta>"
    define Q1 where "Q1 \<longleftrightarrow> (\<exists>\<theta>. ?H \<theta> \<and> inst \<theta> (lterm s) = lterm e \<and> inst \<theta> (rterm s) = rterm e)"
    define Q2 where "Q2 \<longleftrightarrow> (\<exists>\<theta>. ?H \<theta> \<and> inst \<theta> (lterm s) = rterm e \<and> inst \<theta> (rterm s) = lterm e)"
    have Q: "?Q k \<longleftrightarrow> Q1 \<or> Q2 \<or> ?Q (Suc k)"
      using split attempt(1) sign unfolding Q1_def Q2_def e(1) [symmetric] lit_inst_sides by blast
    have oriented: "Q2 \<Longrightarrow> Q1" if "EqnIsOriented s"
      using ok(4) that sign unfolding Q1_def Q2_def orient_stable_def hit_def lit_inst_sides by blast
    obtain p1 where p1: "pick_add pick k 1 = Some p1" "pick_ok cand (insert k P) p1" "pick_add p1 k (- 1) = Some pick"
      using pick_ok_add [OF assms(5) k attempt(1)] by blast
    obtain s1 b1 pk1 s1' b1' m1 where a1: "match_both (lterm s) (lterm e) (rterm s) (rterm e) subst b = Some (m1, s1', b1')"
      "(if m1 then rec s1' b1' p1 else Some (False, s1', b1', p1)) = Some (Q1, s1, b1, pk1)"
      "trail b (pstack_list subst) b1 s1" "\<not> Q1 \<longrightarrow> pk1 = p1"
      using attempt_ok [OF assms(2) p1(2) assms(3) Cons.prems(1) wf(1,3,2,4) wf(5,6)] unfolding Q1_def by blast
    obtain n2 s2 where s2: "SubstBacktrackToPos s1 b1 (PStackGetSP subst) = Some (n2, s2, b)" "pstack_ok s2"
      "pstack_list s2 = pstack_list subst" using backtrack_to [OF a1(3) Cons.prems(1)] by blast
    obtain s3 b3 pk3 s3' b3' m3 where a3: "match_both (lterm s) (rterm e) (rterm s) (lterm e) s2 b = Some (m3, s3', b3')"
      "(if m3 then rec s3' b3' p1 else Some (False, s3', b3', p1)) = Some (Q2, s3, b3, pk3)"
      "trail b (pstack_list s2) b3 s3" "\<not> Q2 \<longrightarrow> pk3 = p1"
      using attempt_ok [OF assms(2) p1(2) assms(3) s2(2) wf(1,4,2,3) wf(7,8)] unfolding Q2_def by blast
    have sp: "PStackGetSP s2 = PStackGetSP subst"
      using length_pstack_list [OF s2(2)] length_pstack_list [OF Cons.prems(1)] s2(3) by (simp add: PStackGetSP_def)
    obtain n4 s4 where s4: "SubstBacktrackToPos s3 b3 (PStackGetSP subst) = Some (n4, s4, b)" "pstack_ok s4"
      "pstack_list s4 = pstack_list subst" using backtrack_to [OF a3(3) s2(2)] unfolding sp s2(3) by blast
    have loop: "subsume_loop rec s (drop k cand) k subst b pick =
        (if Q1 then Some (True, s1, b1, pk1)
         else if EqnIsOriented s then ?rest s2
         else if Q2 then Some (True, s3, b3, pk3) else ?rest s4)"
      using attempt get r(1) r0 props p1(1,3) a1(1,2,4) s2(1) a3(1,2,4) s4(1) by (simp add: unfold_loop Let_def)
    show ?thesis
      using loop Q oriented rest [OF s2(2,3)] rest [OF s4(2,3)] a1(3) a3(3) s2(3)
      by (cases Q1; cases "EqnIsOriented s"; cases Q2) (auto simp: search_post_def)
  qed
qed

lemma eqn_list_rec_subsume_ok:
  assumes "sub_ok sg tt ss cand"
  shows "rec_ok sg ss cand (eqn_list_rec_subsume ss cand)"
  using assms
proof (induction ss)
  case Nil
  have "\<exists>\<theta>. hit sg b [] cand P \<theta>" if "binds_ok sg b" for b P
    using bind_once_typed [OF that] extends_bind_once [of b] by (auto simp: hit_def)
  then show ?case using trail_refl by (simp add: rec_ok_def search_post_def)
next
  case (Cons s ss)
  have "sub_ok sg tt ss cand" using Cons.prems by (simp add: sub_ok_def)
  note loop = subsume_loop_ok [OF Cons.prems Cons.IH [OF this], where k = 0]
  show ?case unfolding rec_ok_def using loop by (simp add: hits_from_0)
qed

end
