(* ===== verification/SubsumptionCorrect.thy ===== *)
theory SubsumptionCorrect
  imports Subsumption
begin

text \<open>
  Clause subsumption decides multiset subsumption: none of the tests that precede the search (the
  numbers of literals, the weights, the check that every literal has some candidate) loses a
  subsumption, and the orientation test is right for literals that \<open>EqnOrient\<close> has oriented.
\<close>

section \<open>The check in advance\<close>

lemma trail_backtrack_all:
  assumes "trail b [] b' s'"
  shows "\<exists>n s2. SubstBacktrack s' b' = Some (n, s2, b) \<and> pstack_ok s2 \<and> pstack_list s2 = []"
proof -
  have t: "pstack_ok s'" "\<forall>v \<in> set (pstack_list s'). TermIsFreeVar v \<and> b v = None"
    "\<forall>v. v \<notin> set (pstack_list s') \<longrightarrow> b' v = b v" using assms by (auto simp: trail_def)
  have "(\<lambda>v. if v \<in> set (pstack_list s') then None else b' v) = b" using t(2,3) by auto
  then show ?thesis
    using backtrack_all_ok [of s' b' 0] t(1,2) by (auto simp: SubstBacktrack_def)
qed

lemma match_both_fails:
  assumes "binds_ok sg b" and "pstack_ok subst" and "pstack_list subst = []"
    and "wf_term sg l" and "wf_term sg l'" and "wf_term sg r" and "wf_term sg r'"
    and "\<not> (t_predpos l' \<and> TermIsFreeVar l)" and "\<not> (t_predpos r' \<and> TermIsFreeVar r)"
  shows "\<exists>res s' b'. match_both l l' r r' subst b = Some (res, s', b') \<and> trail b [] b' s' \<and>
     (\<not> res \<longrightarrow> (\<forall>\<theta>. subst_typed sg \<theta> \<longrightarrow> \<not> (extends \<theta> b \<and> inst \<theta> l = l' \<and> inst \<theta> r = r')))"
  using match_both_ok [OF assms(1,2,4-9)] assms(3) by (elim exE conjE) (intro exI conjI, assumption, simp, simp)

definition some_match :: "Sig \<Rightarrow> bindings \<Rightarrow> Eqn \<Rightarrow> Eqn \<Rightarrow> bool" where
  "some_match sg b s e \<longleftrightarrow> (\<exists>\<theta>. subst_typed sg \<theta> \<and> extends \<theta> b \<and> lit_inst \<theta> s = lit_sides e)"

lemma find_spec_loop_ok:
  assumes "sub_ok sg tt (s # ss) cand" and "binds_ok sg b" and "pstack_ok subst" and "pstack_list subst = []" and "k \<le> length cand"
  shows "\<exists>l s' b'. find_spec_loop s (drop k cand) subst b = Some (l, s', b') \<and> trail b [] b' s' \<and>
    (l = [] \<longrightarrow> (\<forall>i < length cand. k \<le> i \<longrightarrow> \<not> some_match sg b s (cand ! i)))"
  using assms(3-5)
proof (induction "drop k cand" arbitrary: k subst)
  case Nil
  then show ?case using trail_refl [of subst b] by auto
next
  case (Cons e eqns)
  let ?none = "\<lambda>k. \<forall>i < length cand. k \<le> i \<longrightarrow> \<not> some_match sg b s (cand ! i)"
  have k: "k < length cand" using Cons.hyps(2) by (metis drop_eq_Nil2 leI list.distinct(1))
  have e: "e = cand ! k" "eqns = drop (Suc k) cand" "e \<in> set cand"
    using Cons.hyps(2) k by (metis Cons_nth_drop_Suc list.inject, metis Cons_nth_drop_Suc list.inject,
      metis Cons_nth_drop_Suc list.inject nth_mem)
  have rest: "\<exists>l s' b'. find_spec_loop s eqns su b = Some (l, s', b') \<and> trail b [] b' s' \<and> (l = [] \<longrightarrow> ?none k)"
    if "pstack_ok su" "pstack_list su = []" "\<not> some_match sg b s e" for su
  proof -
    have "\<exists>l s' b'. find_spec_loop s eqns su b = Some (l, s', b') \<and> trail b [] b' s' \<and> (l = [] \<longrightarrow> ?none (Suc k))"
      using Cons.hyps(1) [OF e(2) that(1,2)] k e(2) by simp
    moreover have "?none (Suc k) \<Longrightarrow> ?none k" using that(3) e(1) by (metis Suc_leI le_neq_implies_less)
    ultimately show ?thesis by blast
  qed
  have stop: "trail b [] b subst" using trail_refl [OF Cons.prems(1), of b] Cons.prems(2) by simp
  note unfold_loop = Cons.hyps(2) [symmetric]
  have ok: "lit_ok sg tt s" "lit_ok sg tt e" "true_ok sg tt" "orient_stable sg s e"
    using assms(1) e(3) by (auto simp: sub_ok_def)
  then have equ: "equ_ok e" "equ_ok s" by (simp_all add: lit_ok_def)
  obtain r where r: "EqnSubsumeQOrderCompare s e = Some r" "r < 0 \<longleftrightarrow> q_key s < q_key e" "r > 0 \<longleftrightarrow> q_key e < q_key s"
    using EqnSubsumeQOrderCompare_ok [OF equ(2,1)] by blast
  consider (cut) "sub_key e < sub_key s" | (skip) "r < 0"
    | (skip_or) "q_key s = q_key e" "EqnStandardWeight s \<le> EqnStandardWeight e" "EqnIsOriented s" "\<not> EqnIsOriented e"
    | (attempt) "q_key s = q_key e" "EqnStandardWeight s \<le> EqnStandardWeight e" "\<not> (EqnIsOriented s \<and> \<not> EqnIsOriented e)"
    using linorder_less_linear [of "q_key e" "q_key s"] r(2,3) sub_key_less [of e s]
    by (cases "EqnStandardWeight e < EqnStandardWeight s"; cases "EqnIsOriented s \<and> \<not> EqnIsOriented e") (auto simp: not_less)
  then show ?case
  proof cases
    case cut
    have none: "?none k" using sorted_cut [OF assms(1) k cut [unfolded e(1)]] by (auto simp: some_match_def)
    have "r > 0 \<or> \<not> r < 0 \<and> EqnStandardWeight e < EqnStandardWeight s"
      using cut r(2,3) by (auto simp: sub_key_less)
    then have "find_spec_loop s (drop k cand) subst b = Some ([], subst, b)"
      using r(1) by (auto simp: unfold_loop)
    then show ?thesis using none stop by blast
  next
    case skip
    then have "\<not> some_match sg b s e"
      using lit_match_key(1) [OF ok(3,1,2)] r(2) by (auto simp: some_match_def)
    then show ?thesis using rest [OF Cons.prems(1,2)] skip r(1) by (simp add: unfold_loop)
  next
    case skip_or
    then have "\<not> some_match sg b s e" using ok(4) by (auto simp: some_match_def orient_stable_def)
    moreover have "r = 0" using r(2,3) skip_or(1) by simp
    ultimately show ?thesis
      using rest [OF Cons.prems(1,2)] skip_or r(1) PropsAreEquiv_q_key [OF skip_or(1)] by (simp add: unfold_loop)
  next
    case attempt
    have r0: "r = 0" using r(2,3) attempt(1) by simp
    note props = PropsAreEquiv_q_key [OF attempt(1)] and wf = sub_ok_sides [OF assms(1) e(3) attempt(1)]
    obtain m1 s1 b1 where m1: "match_both (lterm s) (lterm e) (rterm s) (rterm e) subst b = Some (m1, s1, b1)"
      "trail b [] b1 s1"
      "\<not> m1 \<longrightarrow> (\<forall>\<theta>. subst_typed sg \<theta> \<longrightarrow> \<not> (extends \<theta> b \<and> inst \<theta> (lterm s) = lterm e \<and> inst \<theta> (rterm s) = rterm e))"
      using match_both_fails [OF assms(2) Cons.prems(1,2) wf(1,3,2,4) wf(5,6)] by blast
    obtain n2 s2 where s2: "SubstBacktrack s1 b1 = Some (n2, s2, b)" "pstack_ok s2" "pstack_list s2 = []"
      using trail_backtrack_all [OF m1(2)] by blast
    obtain m3 s3 b3 where m3: "match_both (lterm s) (rterm e) (rterm s) (lterm e) s2 b = Some (m3, s3, b3)"
      "trail b [] b3 s3"
      "\<not> m3 \<longrightarrow> (\<forall>\<theta>. subst_typed sg \<theta> \<longrightarrow> \<not> (extends \<theta> b \<and> inst \<theta> (lterm s) = rterm e \<and> inst \<theta> (rterm s) = lterm e))"
      using match_both_fails [OF assms(2) s2(2,3) wf(1,4,2,3) wf(7,8)] by blast
    obtain n4 s4 where s4: "SubstBacktrack s3 b3 = Some (n4, s4, b)" "pstack_ok s4" "pstack_list s4 = []"
      using trail_backtrack_all [OF m3(2)] by blast
    have loop: "find_spec_loop s (drop k cand) subst b =
        (if m1 then Some (e # eqns, s1, b1) else if EqnIsOriented s then find_spec_loop s eqns s2 b
         else if m3 then Some (e # eqns, s3, b3) else find_spec_loop s eqns s4 b)"
      using attempt r(1) r0 props m1(1) s2(1) m3(1) s4(1) by (simp add: unfold_loop)
    have "\<not> some_match sg b s e" if "\<not> m1" "EqnIsOriented s"
      using m1(3) that ok(4) by (auto simp: some_match_def orient_stable_def)
    moreover have "\<not> some_match sg b s e" if "\<not> m1" "\<not> m3"
      using m1(3) m3(3) that by (auto simp: some_match_def lit_inst_sides)
    ultimately show ?thesis
      using loop rest [OF s2(2,3)] rest [OF s4(2,3)] m1(2) m3(2) by (auto split: if_splits)
  qed
qed

lemma check_possibility_loop_ok:
  assumes "sub_ok sg tt ss cand" and "binds_ok sg b"
  shows "\<exists>res. check_possibility_loop ss cand b = Some (res, b) \<and>
    (\<not> res \<longrightarrow> (\<exists>s \<in> set ss. \<forall>e \<in> set cand. \<not> some_match sg b s e))"
  using assms(1)
proof (induction ss)
  case Nil
  show ?case by (intro exI [of _ True]) simp
next
  case (Cons s ss)
  obtain l s' b' where l: "find_spec_loop s cand SubstAlloc b = Some (l, s', b')" "trail b [] b' s'"
    "l = [] \<longrightarrow> (\<forall>i < length cand. \<not> some_match sg b s (cand ! i))"
    using find_spec_loop_ok [OF Cons.prems assms(2), of SubstAlloc 0] by (auto simp: SubstAlloc_def)
  obtain n s2 where "SubstBacktrack s' b' = Some (n, s2, b)" using trail_backtrack_all [OF l(2)] by blast
  then have find: "find_spec_literal s cand b = Some (l, b)" using l(1) by (simp add: find_spec_literal_def)
  have none: "\<forall>e \<in> set cand. \<not> some_match sg b s e" if "l = []"
    using l(3) that by (auto simp: in_set_conv_nth)
  have "sub_ok sg tt ss cand" using Cons.prems by (simp add: sub_ok_def)
  then show ?case using Cons.IH find none by (cases "l = []") auto
qed

section \<open>The numbers and the weights\<close>

definition lit_weight :: "bool \<times> Term_p multiset \<Rightarrow> int" where
  "lit_weight x = sum_mset (image_mset TermStandardWeight (snd x))"

lemma lit_weight_sides: "lit_weight (lit_sides e) = EqnStandardWeight e"
  by (simp add: lit_weight_def lit_sides_def EqnStandardWeight_def)

lemma lit_weight_inst: "EqnStandardWeight e \<le> lit_weight (lit_inst \<theta> e)"
  using weight_inst [of "lterm e" \<theta>] weight_inst [of "rterm e" \<theta>]
  by (simp add: lit_weight_def lit_inst_def EqnStandardWeight_def)

lemma EqnStandardWeight_pos: "0 < EqnStandardWeight e"
  using weight_pos [of "lterm e"] weight_pos [of "rterm e"] by (simp add: EqnStandardWeight_def)

lemma subsumed_weight:
  assumes "image_mset (lit_inst \<theta>) (mset ss) \<subseteq># image_mset lit_sides (mset cand)"
  shows "sum_list (map EqnStandardWeight ss) \<le> sum_list (map EqnStandardWeight cand)"
proof -
  obtain C where C: "image_mset lit_sides (mset cand) = image_mset (lit_inst \<theta>) (mset ss) + C"
    using assms by (metis subset_mset.le_iff_add)
  have "0 \<le> lit_weight x" if "x \<in># C" for x
  proof -
    have "x \<in># image_mset lit_sides (mset cand)" using that C by simp
    then obtain e where "x = lit_sides e" by auto
    then show ?thesis using EqnStandardWeight_pos [of e] by (simp add: lit_weight_sides)
  qed
  then have C0: "0 \<le> sum_mset (image_mset lit_weight C)" by (induction C) auto
  have "sum_list (map EqnStandardWeight ss) \<le> sum_list (map (\<lambda>e. lit_weight (lit_inst \<theta> e)) ss)"
    by (intro sum_list_mono) (rule lit_weight_inst)
  also have "\<dots> = sum_mset (image_mset lit_weight (image_mset (lit_inst \<theta>) (mset ss)))"
    by (simp add: sum_mset_sum_list [symmetric] multiset.map_comp comp_def)
  also have "\<dots> \<le> sum_mset (image_mset lit_weight (image_mset lit_sides (mset cand)))"
    unfolding C using C0 by simp
  also have "\<dots> = sum_list (map EqnStandardWeight cand)"
    by (simp add: sum_mset_sum_list [symmetric] multiset.map_comp comp_def lit_weight_sides)
  finally show ?thesis .
qed

lemma subsumed_counts:
  assumes "image_mset (lit_inst \<theta>) (mset ss) \<subseteq># image_mset lit_sides (mset cand)"
  shows "length [e \<leftarrow> ss. EqnIsPositive e = p] \<le> length [e \<leftarrow> cand. EqnIsPositive e = p]"
proof -
  have count: "size (filter_mset (\<lambda>x. fst x = p) (image_mset f (mset es))) = length [e \<leftarrow> es. EqnIsPositive e = p]"
    if "\<And>e. fst (f e) = EqnIsPositive e" for f :: "Eqn \<Rightarrow> bool \<times> Term_p multiset" and es
    by (induction es) (simp_all add: that)
  have "size (filter_mset (\<lambda>x. fst x = p) (image_mset (lit_inst \<theta>) (mset ss))) \<le>
      size (filter_mset (\<lambda>x. fst x = p) (image_mset lit_sides (mset cand)))"
    using assms by (intro size_mset_mono multiset_filter_mono)
  then show ?thesis by (simp add: count lit_inst_def lit_sides_def)
qed

section \<open>Orientation\<close>

lemma kbo_term_inst_var: "kbo_term ocb (inst \<theta> t) \<Longrightarrow> v \<in> term_vars t \<Longrightarrow> kbo_term ocb (\<theta> v)"
proof (induction t)
  case (TermCell f p ty as)
  show ?case
  proof (cases "f < 0")
    case False
    then obtain a where a: "a \<in> set as" "v \<in> term_vars a" using TermCell.prems(2) by auto
    have "kbo_term ocb (inst \<theta> a)" using TermCell.prems(1) False a(1) by (auto simp: kbo_term_def)
    then show ?thesis using TermCell.IH a by blast
  qed (use TermCell.prems in simp)
qed

text \<open>The flags as \<open>EqnOrient\<close> sets them: a literal that is not an equation is oriented.\<close>

definition oriented_ok :: "OCB \<Rightarrow> Term_p \<Rightarrow> Eqn \<Rightarrow> bool" where
  "oriented_ok ocb tt e \<longleftrightarrow>
     (if rterm e = tt then EqnIsOriented e = (lterm e \<noteq> tt)
      else EqnIsOriented e = to_gt ocb (lterm e) (rterm e) \<and> \<not> to_gt ocb (rterm e) (lterm e))"

lemma true_head:
  assumes "true_ok sg tt" and "wf_term sg t" and "\<not> TermIsFreeVar t" and "inst \<theta> t = tt"
  shows "t = tt"
proof -
  obtain f p ty as where t: "t = TermCell f p ty as" by (cases t)
  have "as = []" using assms t by (auto simp: true_ok_def arity_def)
  then show ?thesis using assms(3,4) t by simp
qed

lemma oriented_stable:
  assumes v: "to_valid ocb" and tt: "true_ok (ocb_sig ocb) tt"
    and s: "lit_ok (ocb_sig ocb) tt s" "oriented_ok ocb tt s" "kbo_term ocb (lterm s)" "kbo_term ocb (rterm s)"
    and e: "lit_ok (ocb_sig ocb) tt e" "oriented_ok ocb tt e" "kbo_term ocb (lterm e)" "kbo_term ocb (rterm e)"
  shows "orient_stable (ocb_sig ocb) s e"
  unfolding orient_stable_def
proof (intro impI allI)
  fix \<theta>
  assume o: "EqnIsOriented s" and \<theta>: "subst_typed (ocb_sig ocb) \<theta>" and m: "lit_inst \<theta> s = lit_sides e"
  have equ: "rterm s = tt \<longleftrightarrow> rterm e = tt" by (rule lit_match_equ [OF tt s(1) e(1) \<theta> m])
  have cases: "inst \<theta> (lterm s) = lterm e \<and> inst \<theta> (rterm s) = rterm e \<or>
      inst \<theta> (lterm s) = rterm e \<and> inst \<theta> (rterm s) = lterm e" using m by (simp add: lit_inst_sides)
  show "EqnIsOriented e \<and> inst \<theta> (lterm s) = lterm e \<and> inst \<theta> (rterm s) = rterm e"
  proof (cases "rterm s = tt")
    case True
    then have s': "lterm s \<noteq> tt" "\<not> TermIsFreeVar (lterm s)" "wf_term (ocb_sig ocb) (lterm s)"
      using s(1,2) o by (auto simp: oriented_ok_def lit_ok_def)
    then have "inst \<theta> (lterm s) \<noteq> tt" using true_head [OF tt s'(3,2)] by blast
    then have "inst \<theta> (lterm s) = lterm e" "inst \<theta> (rterm s) = rterm e" "lterm e \<noteq> tt"
      using cases True equ inst_true [OF tt] by auto
    then show ?thesis using e(2) equ True by (simp add: oriented_ok_def)
  next
    case False
    have "kbo_term ocb (inst \<theta> (lterm s))" "kbo_term ocb (inst \<theta> (rterm s))" using cases e(3,4) by auto
    then have vars: "\<And>v. v \<in> term_vars (lterm s) \<union> term_vars (rterm s) \<Longrightarrow> kbo_term ocb (\<theta> v)"
      using kbo_term_inst_var by blast
    have "to_gt ocb (lterm s) (rterm s)" using s(2) o False by (simp add: oriented_ok_def)
    then have "to_gt ocb (inst \<theta> (lterm s)) (inst \<theta> (rterm s))"
      using to_gt_stable [OF v s(3,4), of \<theta>] vars by blast
    then show ?thesis using cases e(2) equ False by (auto simp: oriented_ok_def)
  qed
qed

section \<open>Properties\<close>

text \<open>A clause as the prover keeps it: sorted for subsumption, with right counts and weight, its
  literals oriented.\<close>

definition clause_ok :: "OCB \<Rightarrow> Term_p \<Rightarrow> Clause \<Rightarrow> bool" where
  "clause_ok ocb tt c \<longleftrightarrow> clause_counts_ok c \<and> cl_weight c = ClauseStandardWeight c \<and>
     ClauseIsSubsumeOrdered c = Some True \<and>
     (\<forall>e \<in> set (literals c). lit_ok (ocb_sig ocb) tt e \<and> oriented_ok ocb tt e \<and>
        kbo_term ocb (lterm e) \<and> kbo_term ocb (rterm e))"

lemma clause_ok_sub_ok:
  assumes "to_valid ocb" and "true_ok (ocb_sig ocb) tt" and "clause_ok ocb tt c" and "clause_ok ocb tt d"
  shows "sub_ok (ocb_sig ocb) tt (literals c) (literals d)"
proof -
  have "\<forall>e \<in> set (literals d). equ_ok e" "clause_counts_ok d" using assms(4) by (auto simp: clause_ok_def lit_ok_def)
  then have "sorted_wrt (\<lambda>e1 e2. sub_key e2 \<le> sub_key e1) (literals d)"
    using ClauseIsSubsumeOrdered_ok [of d] assms(4) by (simp add: clause_ok_def)
  then show ?thesis
    using assms oriented_stable [OF assms(1,2)] by (simp add: sub_ok_def clause_ok_def)
qed

definition subsumes :: "Sig \<Rightarrow> bindings \<Rightarrow> Clause \<Rightarrow> Clause \<Rightarrow> bool" where
  "subsumes sg b c d \<longleftrightarrow> (\<exists>\<theta>. subst_typed sg \<theta> \<and> extends \<theta> b \<and>
     image_mset (lit_inst \<theta>) (mset (literals c)) \<subseteq># image_mset lit_sides (mset (literals d)))"

lemma subsumes_hit: "subsumes sg b c d \<longleftrightarrow> (\<exists>\<theta>. hit sg b (literals c) (literals d) {} \<theta>)"
  by (simp add: subsumes_def hit_def covers_iff free_lits_all)

lemma pick_ok_alloc: "pick_ok cand {} (IntArrayAlloc (length cand))"
  unfolding pick_ok_def by (intro nth_equalityI) (simp_all add: IntArrayAlloc_def)

lemma clause_subsumes_clause_ok:
  assumes "to_valid ocb" and "true_ok (ocb_sig ocb) tt" and "clause_ok ocb tt c" and "clause_ok ocb tt d"
    and "ClauseLiteralNumber c \<noteq> 1" and "binds_ok (ocb_sig ocb) b"
  shows "clause_subsumes_clause c d b = Some (subsumes (ocb_sig ocb) b c d, b)"
proof -
  let ?sg = "ocb_sig ocb" and ?S = "subsumes (ocb_sig ocb) b c d"
  note ok = clause_ok_sub_ok [OF assms(1-4)]
  have counts: "clause_counts_ok c" "clause_counts_ok d" and weights: "cl_weight c = ClauseStandardWeight c"
    "cl_weight d = ClauseStandardWeight d" and ordered: "ClauseIsSubsumeOrdered c = Some True"
    "ClauseIsSubsumeOrdered d = Some True" using assms(3,4) by (simp_all add: clause_ok_def)
  have number: "ClauseLiteralNumber c = int (length (literals c))" "ClauseLiteralNumber d = int (length (literals d))"
    using counts clause_counts_length by blast+
  have empty: "?S" if "literals c = []"
    using that bind_once_typed [OF assms(6)] extends_bind_once [of b] by (auto simp: subsumes_def)
  have cut: "\<not> ?S" if "pos_lit_no c > pos_lit_no d \<or> neg_lit_no c > neg_lit_no d \<or> cl_weight c > cl_weight d"
    using that counts weights subsumed_counts [of _ "literals c" "literals d" True]
      subsumed_counts [of _ "literals c" "literals d" False] subsumed_weight [of _ "literals c" "literals d"]
    by (fastforce simp: subsumes_def clause_counts_ok_def ClauseStandardWeight_sum)
  obtain possible where pos: "check_possibility_loop (literals c) (literals d) b = Some (possible, b)"
    "\<not> possible \<longrightarrow> (\<exists>s \<in> set (literals c). \<forall>e \<in> set (literals d). \<not> some_match ?sg b s e)"
    using check_possibility_loop_ok [OF ok assms(6)] by blast
  have impossible: "\<not> ?S" if np: "\<not> possible"
  proof
    assume ?S
    then obtain \<theta> where \<theta>: "subst_typed ?sg \<theta>" "extends \<theta> b"
      "image_mset (lit_inst \<theta>) (mset (literals c)) \<subseteq># image_mset lit_sides (mset (literals d))"
      by (auto simp: subsumes_def)
    obtain s where s: "s \<in> set (literals c)" "\<forall>e \<in> set (literals d). \<not> some_match ?sg b s e"
      using pos(2) np by blast
    have "lit_inst \<theta> s \<in># image_mset (lit_inst \<theta>) (mset (literals c))" using s(1) by simp
    then have "lit_inst \<theta> s \<in># image_mset lit_sides (mset (literals d))" by (rule mset_subset_eqD [OF \<theta>(3)])
    then show False using s(2) \<theta>(1,2) by (auto simp: some_match_def)
  qed
  have "search_post b SubstAlloc (IntArrayAlloc (length (literals d))) ?S
      (eqn_list_rec_subsume (literals c) (literals d) SubstAlloc b (IntArrayAlloc (length (literals d))))"
    using rec_okD [OF eqn_list_rec_subsume_ok [OF ok] assms(6) _ pick_ok_alloc, of SubstAlloc]
    by (simp add: subsumes_hit SubstAlloc_def)
  then obtain s' b' pk where search: "eqn_list_rec_subsume (literals c) (literals d) SubstAlloc b
      (IntArrayAlloc (length (literals d))) = Some (?S, s', b', pk)" "trail b [] b' s'"
    by (auto simp: search_post_def SubstAlloc_def)
  obtain n s2 where undo: "SubstBacktrack s' b' = Some (n, s2, b)" using trail_backtrack_all [OF search(2)] by blast
  show ?thesis
    using ordered weights assms(5) number empty cut pos(1) impossible search(1) undo
    by (cases possible) (auto simp: clause_subsumes_clause_def check_subsumption_possibility_def)
qed

text \<open>Sample clauses: \<open>p(x) | ~p(g(x))\<close> and \<open>p(a) | p(b) | ~p(g(a))\<close>.\<close>

definition sample_general :: Clause where
  "sample_general = sample_clause [sample_atom True (sample_var 1), sample_atom False (sample_g (sample_var 1))]"

definition sample_special :: Clause where
  "sample_special = sample_clause [sample_atom True (sample_const 21), sample_atom True (sample_const 23),
     sample_atom False (sample_g (sample_const 21))]"

lemma sample_true_ok: "true_ok (ocb_sig sample_ocb) sample_true"
  unfolding sample_ocb_sig by (simp add: true_ok_def sample_true_def sample_defs)

lemma sample_atom_ok:
  assumes "t \<in> {sample_var 1, sample_g (sample_var 1), sample_const 21, sample_const 23, sample_g (sample_const 21)}"
  shows "lit_ok (ocb_sig sample_ocb) sample_true (sample_atom pos t)" "oriented_ok sample_ocb sample_true (sample_atom pos t)"
    "kbo_term sample_ocb (lterm (sample_atom pos t))" "kbo_term sample_ocb (rterm (sample_atom pos t))"
  using assms sample_ocb_sig
  by (auto simp: sample_atom_def lit_ok_def equ_ok_def oriented_ok_def EqnIsOriented_def EqnQueryProp_def EP_defs
      kbo_term_def symbols_def sample_lit_defs sample_defs)

lemma sample_clauses_ok: "clause_ok sample_ocb sample_true sample_general" "clause_ok sample_ocb sample_true sample_special"
proof -
  have "ClauseIsSubsumeOrdered sample_general = Some True" "ClauseIsSubsumeOrdered sample_special = Some True"
    by code_simp+
  then show "clause_ok sample_ocb sample_true sample_general" "clause_ok sample_ocb sample_true sample_special"
    using sample_clause_counts sample_atom_ok by (simp_all add: clause_ok_def sample_general_def sample_special_def)
qed

text \<open>C8 Clause subsumption decides: for clauses as the prover keeps them (sorted, with right counts
  and weights, literals oriented) and a subsumer that is not a unit, \<open>ClauseSubsumesClause\<close> ends, trips
  no assertion, restores the bindings and answers whether some type-respecting substitution maps
  the multiset of the subsumer's literals into that of the other clause. The tests of counts,
  weights, literal order, orientation and the check in advance never lose a subsumption.\<close>

theorem ClauseSubsumesClause_decides:
  assumes "to_valid ocb" and "true_ok (ocb_sig ocb) tt" and "clause_ok ocb tt c" and "clause_ok ocb tt d"
    and "ClauseLiteralNumber c \<noteq> 1" and "binds_ok (ocb_sig ocb) b"
  shows "ClauseSubsumesClause c d b = Some (\<exists>\<theta>. subst_typed (ocb_sig ocb) \<theta> \<and> extends \<theta> b \<and>
     image_mset (lit_inst \<theta>) (mset (literals c)) \<subseteq># image_mset lit_sides (mset (literals d)), b)"
  using clause_subsumes_clause_ok [OF assms] assms(3,4)
  by (simp add: ClauseSubsumesClause_def clause_ok_def subsumes_def)

theorem ClauseSubsumesClause_decides_witness:
  "ClauseSubsumesClause sample_general sample_special (\<lambda>_. None) = Some (True, \<lambda>_. None)"
proof -
  let ?\<theta> = "\<lambda>v. if t_type v = 1 then sample_const 21 else v"
  have "subst_typed (ocb_sig sample_ocb) ?\<theta>"
    unfolding sample_ocb_sig by (auto simp: subst_typed_def sample_defs)
  moreover have "extends ?\<theta> (\<lambda>_. None)" by (simp add: extends_def)
  moreover have "image_mset (lit_inst ?\<theta>) (mset (literals sample_general)) \<subseteq># image_mset lit_sides (mset (literals sample_special))"
    by (simp add: sample_general_def sample_special_def lit_inst_def lit_sides_def sample_atom_def EqnIsPositive_def
        EqnQueryProp_def EP_defs sample_lit_defs sample_defs add_mset_commute)
  moreover have "ClauseLiteralNumber sample_general \<noteq> 1"
    using clause_counts_length [OF sample_clause_counts(1)] by (simp add: sample_general_def)
  ultimately show ?thesis
    using ClauseSubsumesClause_decides [OF sample_to_valid sample_true_ok sample_clauses_ok, of "\<lambda>_. None"]
    by (auto simp: binds_ok_def)
qed

end
