(* ===== verification/UnitSubsumption.thy ===== *)
theory UnitSubsumption
  imports SubsumptionCorrect
begin

text \<open>
  Subsumption by unit clauses (\<open>UnitClauseSubsumesClause\<close>): a positive unit may also be applied below
  a context that the two sides of a literal share. The test always ends and is sound; it is not
  complete, because the sides of the unit are only exchanged when its left side does not match.
  With both kinds of clauses, the searches over clause sets find what the specification says.
\<close>

section \<open>Soundness\<close>

lemma SubstComputeMatch_any:
  assumes "binds_ok sg b" and "pstack_ok s" and "wf_term sg m" and "wf_term sg t"
  shows "\<exists>res s' b'. SubstComputeMatch m t s b = Some (res, s', b') \<and> trail b (pstack_list s) b' s' \<and>
     (res \<longrightarrow> binds_ok sg b' \<and> (\<forall>\<theta>. subst_typed sg \<theta> \<longrightarrow> (extends \<theta> b \<and> inst \<theta> m = t \<longleftrightarrow> extends \<theta> b'))) \<and>
     (\<not> res \<longrightarrow> b' = b \<and> pstack_list s' = pstack_list s)"
proof (cases "t_predpos t \<and> TermIsFreeVar m")
  case True
  then show ?thesis
    using trail_refl [OF assms(2), of b]
    by (intro exI [of _ False] exI [of _ s] exI [of _ b]) (simp add: SubstComputeMatch_def Let_def)
next
  case False
  obtain res s' b' where r: "SubstComputeMatch m t s b = Some (res, s', b')"
    "if res then binds_ok sg b' \<and> trail b (pstack_list s) b' s' \<and>
          (\<forall>\<theta>. subst_typed sg \<theta> \<longrightarrow> (extends \<theta> b \<and> inst \<theta> m = t \<longleftrightarrow> extends \<theta> b'))
      else b' = b \<and> pstack_ok s' \<and> pstack_list s' = pstack_list s \<and>
          (\<forall>\<theta>. subst_typed sg \<theta> \<longrightarrow> \<not> (extends \<theta> b \<and> inst \<theta> m = t))"
    using SubstComputeMatch_post [OF assms False] by blast
  then have "trail b (pstack_list s) b' s'" using trail_refl [of s' b] by (auto split: if_splits)
  then show ?thesis using r by (intro exI [of _ res] exI [of _ s'] exI [of _ b']) auto
qed

lemma match_both_any:
  assumes "binds_ok sg b" and "pstack_ok subst" and "wf_term sg l" and "wf_term sg l'" and "wf_term sg r" and "wf_term sg r'"
  shows "\<exists>res s' b'. match_both l l' r r' subst b = Some (res, s', b') \<and> trail b (pstack_list subst) b' s' \<and>
     (res \<longrightarrow> (\<exists>\<theta>. subst_typed sg \<theta> \<and> extends \<theta> b \<and> inst \<theta> l = l' \<and> inst \<theta> r = r'))"
proof -
  obtain m s1 b1 where m: "SubstComputeMatch l l' subst b = Some (m, s1, b1)" "trail b (pstack_list subst) b1 s1"
    "m \<longrightarrow> binds_ok sg b1 \<and> (\<forall>\<theta>. subst_typed sg \<theta> \<longrightarrow> (extends \<theta> b \<and> inst \<theta> l = l' \<longleftrightarrow> extends \<theta> b1))"
    using SubstComputeMatch_any [OF assms(1-4)] by blast
  show ?thesis
  proof (cases m)
    case False
    then show ?thesis using m(1,2) by (intro exI [of _ False] exI [of _ s1] exI [of _ b1]) (simp add: match_both_def)
  next
    case True
    then have ok: "binds_ok sg b1" using m(3) by blast
    obtain res s' b' where r: "SubstComputeMatch r r' s1 b1 = Some (res, s', b')" "trail b1 (pstack_list s1) b' s'"
      "res \<longrightarrow> binds_ok sg b' \<and> (\<forall>\<theta>. subst_typed sg \<theta> \<longrightarrow> (extends \<theta> b1 \<and> inst \<theta> r = r' \<longleftrightarrow> extends \<theta> b'))"
      using SubstComputeMatch_any [OF ok trail_ok [OF m(2)] assms(5,6)] by blast
    have "\<exists>\<theta>. subst_typed sg \<theta> \<and> extends \<theta> b \<and> inst \<theta> l = l' \<and> inst \<theta> r = r'" if res
    proof -
      have "subst_typed sg (bind_once b')" "extends (bind_once b') b'"
        using bind_once_typed extends_bind_once r(3) that by blast+
      then show ?thesis using r(3) m(3) True that by blast
    qed
    then show ?thesis
      using m(1) r(1) True trail_trans [OF m(2) r(2)]
      by (intro exI [of _ res] exI [of _ s'] exI [of _ b']) (simp add: match_both_def)
  qed
qed

definition unit_inst :: "Sig \<Rightarrow> bindings \<Rightarrow> Eqn \<Rightarrow> Term_p \<Rightarrow> Term_p \<Rightarrow> bool" where
  "unit_inst sg b eqn s t \<longleftrightarrow> (\<exists>\<theta>. subst_typed sg \<theta> \<and> extends \<theta> b \<and>
     (inst \<theta> (lterm eqn) = s \<and> inst \<theta> (rterm eqn) = t \<or> inst \<theta> (lterm eqn) = t \<and> inst \<theta> (rterm eqn) = s))"

lemma eqn_topsubsumes_termpair_ok:
  assumes "binds_ok sg b" and "wf_term sg (lterm eqn)" and "wf_term sg (rterm eqn)" and "wf_term sg t1" and "wf_term sg t2"
  shows "\<exists>res. eqn_topsubsumes_termpair eqn t1 t2 b = Some (res, b) \<and> (res \<longrightarrow> unit_inst sg b eqn t1 t2)"
proof -
  have start: "pstack_ok (SubstAlloc :: Term_p pstack)" "pstack_list (SubstAlloc :: Term_p pstack) = []"
    by (simp_all add: SubstAlloc_def)
  have finish: ?thesis
    if "eqn_topsubsumes_termpair eqn t1 t2 b = do { (_, _, b) \<leftarrow> SubstBacktrack s' b'; Some (res, b) }"
      "trail b [] b' s'" "res \<longrightarrow> unit_inst sg b eqn t1 t2" for res s' b'
    using that trail_backtrack_all [OF that(2)] by auto
  obtain m s1 b1 where m: "SubstComputeMatch (lterm eqn) t1 SubstAlloc b = Some (m, s1, b1)" "trail b [] b1 s1"
    "\<not> m \<longrightarrow> b1 = b \<and> pstack_list s1 = []"
    using SubstComputeMatch_any [OF assms(1) start(1) assms(2,4)] unfolding start(2) by blast
  show ?thesis
  proof (cases m)
    case True
    obtain res s' b' where r: "match_both (lterm eqn) t1 (rterm eqn) t2 SubstAlloc b = Some (res, s', b')" "trail b [] b' s'"
      "res \<longrightarrow> unit_inst sg b eqn t1 t2"
      using match_both_any [OF assms(1) start(1) assms(2,4,3,5)] unfolding start(2) unit_inst_def by blast
    have "SubstComputeMatch (rterm eqn) t2 s1 b1 = Some (res, s', b')"
      using r(1) m(1) True by (simp add: match_both_def)
    then show ?thesis using finish [OF _ r(2,3)] m(1) True by (simp add: eqn_topsubsumes_termpair_def)
  next
    case False
    then have s1: "pstack_ok s1" "pstack_list s1 = []" "b1 = b" using m(2,3) trail_ok by blast+
    obtain res s' b' where r: "match_both (lterm eqn) t2 (rterm eqn) t1 s1 b = Some (res, s', b')" "trail b [] b' s'"
      "res \<longrightarrow> unit_inst sg b eqn t1 t2"
      using match_both_any [OF assms(1) s1(1) assms(2,5,3,4)] unfolding s1(2) unit_inst_def by blast
    have "eqn_topsubsumes_termpair eqn t1 t2 b =
        do { (res, subst, b) \<leftarrow> match_both (lterm eqn) t2 (rterm eqn) t1 s1 b; (_, _, b) \<leftarrow> SubstBacktrack subst b; Some (res, b) }"
      using m(1) False s1(3) by (simp add: eqn_topsubsumes_termpair_def match_both_def)
    then show ?thesis using finish [OF _ r(2,3)] r(1) by simp
  qed
qed

text \<open>What a positive unit proves: an instance of it below a common context, or a trivial equation.\<close>

inductive unit_eq :: "Sig \<Rightarrow> bindings \<Rightarrow> Eqn \<Rightarrow> Term_p \<Rightarrow> Term_p \<Rightarrow> bool" for sg b eqn where
  unit_root: "unit_inst sg b eqn s t \<Longrightarrow> unit_eq sg b eqn s t"
| unit_refl: "unit_eq sg b eqn t t"
| unit_arg: "unit_eq sg b eqn s t \<Longrightarrow>
    unit_eq sg b eqn (TermCell f p ty (xs @ s # ys)) (TermCell f p ty (xs @ t # ys))"

lemma find_diff_some: "find_diff ps (Some q) = Some r \<Longrightarrow> r = Some q \<and> (\<forall>p \<in> set ps. fst p = snd p)"
  by (induction ps) (auto split: if_splits)

lemma find_diff_none:
  "find_diff ps None = Some r \<Longrightarrow>
     (case r of None \<Rightarrow> \<forall>p \<in> set ps. fst p = snd p
      | Some q \<Rightarrow> \<exists>us vs. ps = us @ q # vs \<and> (\<forall>p \<in> set us \<union> set vs. fst p = snd p))"
proof (induction ps)
  case (Cons p ps)
  show ?case
  proof (cases "fst p = snd p")
    case True
    then have "find_diff ps None = Some r" using Cons.prems by simp
    then show ?thesis using Cons.IH True by (auto split: option.splits) (metis Un_iff append_Cons set_ConsD)
  next
    case False
    then have r: "r = Some p" "\<forall>p \<in> set ps. fst p = snd p" using Cons.prems find_diff_some by simp_all
    have "\<exists>us vs. p # ps = us @ p # vs \<and> (\<forall>x \<in> set us \<union> set vs. fst x = snd x)"
      by (rule exI [of _ "[]"], rule exI [of _ ps]) (simp add: r(2))
    then show ?thesis by (simp add: r(1))
  qed
qed simp

lemma zip_diag: "length xs = length ys \<Longrightarrow> (\<forall>p \<in> set (zip xs ys). fst p = snd p) \<longleftrightarrow> xs = ys"
  by (induction xs ys rule: list_induct2) auto

lemma zip_split:
  assumes "length xs = length ys" and "zip xs ys = us @ q # vs" and "\<forall>p \<in> set us \<union> set vs. fst p = snd p"
  shows "xs = map fst us @ fst q # map fst vs \<and> ys = map fst us @ snd q # map fst vs"
proof -
  have "xs = map fst (us @ q # vs)" "ys = map snd (us @ q # vs)"
    using assms(1) unfolding assms(2) [symmetric] by simp_all
  moreover have "map snd us = map fst us" "map snd vs = map fst vs" using assms(3) by auto
  ultimately show ?thesis by simp
qed

lemma eqn_subsumes_termpair_ok:
  assumes "binds_ok sg b" and "wf_term sg (lterm eqn)" and "wf_term sg (rterm eqn)"
  shows "wf_term sg t1 \<Longrightarrow> wf_term sg t2 \<Longrightarrow>
    \<exists>res. eqn_subsumes_termpair eqn t1 t2 b = Some (res, b) \<and> (res \<longrightarrow> unit_eq sg b eqn t1 t2)"
proof (induction t1 arbitrary: t2)
  case (TermCell f p ty as)
  let ?t1 = "TermCell f p ty as"
  obtain f' p' ty' as' where t2: "t2 = TermCell f' p' ty' as'" by (cases t2)
  obtain top where top: "eqn_topsubsumes_termpair eqn ?t1 t2 b = Some (top, b)" "top \<longrightarrow> unit_inst sg b eqn ?t1 t2"
    using eqn_topsubsumes_termpair_ok [OF assms TermCell.prems] by blast
  show ?case
  proof (cases "top \<or> f \<noteq> f' \<or> as = []")
    case True
    then show ?thesis
      using top unit_root t2
      by (subst eqn_subsumes_termpair.simps) (auto simp: intro!: exI [of _ top])
  next
    case False
    then have nv: "\<not> f < 0" using TermCell.prems(1) by auto
    then have same: "p = p'" "ty = ty'" "length as = length as'" using TermCell.prems False t2 by auto
    have wf: "\<forall>a \<in> set as. wf_term sg a" "\<forall>a \<in> set as'. wf_term sg a" using TermCell.prems nv False t2 by auto
    have ne: "as' \<noteq> []" using False same(3) by auto
    have loop: "eqn_subsumes_termpair eqn ?t1 t2 b =
        (case find_diff (zip as as') None of None \<Rightarrow> Some (False, b) | Some None \<Rightarrow> Some (True, b)
         | Some (Some (tmp1, tmp2)) \<Rightarrow> eqn_subsumes_termpair eqn tmp1 tmp2 b)"
      using top(1) False ne t2 same by (subst eqn_subsumes_termpair.simps) simp
    show ?thesis
    proof (cases "find_diff (zip as as') None")
      case None
      then show ?thesis using loop by auto
    next
      case (Some r)
      note diff = find_diff_none [OF Some]
      show ?thesis
      proof (cases r)
        case None
        then have "as = as'" using diff zip_diag [OF same(3)] by simp
        then show ?thesis using loop Some None unit_refl same False t2 by auto
      next
        case r: (Some q)
        then obtain us vs where q: "zip as as' = us @ q # vs" "\<forall>p \<in> set us \<union> set vs. fst p = snd p" using diff by auto
        note args = zip_split [OF same(3) q]
        have "fst q \<in> set as" "snd q \<in> set as'" using args by (metis in_set_conv_decomp)+
        then obtain res where res: "eqn_subsumes_termpair eqn (fst q) (snd q) b = Some (res, b)"
          "res \<longrightarrow> unit_eq sg b eqn (fst q) (snd q)"
          using TermCell.IH wf by blast
        have "unit_eq sg b eqn ?t1 t2" if res
          using unit_arg [of sg b eqn "fst q" "snd q" f p ty "map fst us" "map fst vs"] res(2) that args same False t2 by simp
        then show ?thesis using loop Some r res(1) by (cases q) auto
      qed
    qed
  qed
qed

lemma literal_subsumes_loop_ok:
  assumes "binds_ok sg b" and "wf_term sg (lterm u)" and "wf_term sg (rterm u)"
    and "\<forall>e \<in> set lits. wf_term sg (lterm e) \<and> wf_term sg (rterm e)"
  shows "\<exists>res. literal_subsumes_loop u lits b = Some (res, b) \<and>
    (res \<longrightarrow> (\<exists>e \<in> set lits. EqnIsPositive e = EqnIsPositive u \<and>
       (if EqnIsPositive u then unit_eq sg b u (lterm e) (rterm e) else unit_inst sg b u (lterm e) (rterm e))))"
  using assms(4)
proof (induction lits)
  case (Cons e lits)
  have neg: "EqnIsNegative e = (\<not> EqnIsPositive e)" by (simp add: EqnIsNegative_def EqnIsPositive_def)
  obtain r1 where r1: "eqn_subsumes_termpair u (lterm e) (rterm e) b = Some (r1, b)" "r1 \<longrightarrow> unit_eq sg b u (lterm e) (rterm e)"
    using eqn_subsumes_termpair_ok [OF assms(1-3)] Cons.prems by (meson list.set_intros(1))
  obtain r2 where r2: "eqn_topsubsumes_termpair u (lterm e) (rterm e) b = Some (r2, b)" "r2 \<longrightarrow> unit_inst sg b u (lterm e) (rterm e)"
    using eqn_topsubsumes_termpair_ok [OF assms(1-3)] Cons.prems by (meson list.set_intros(1))
  obtain res where res: "literal_subsumes_loop u lits b = Some (res, b)"
    "res \<longrightarrow> (\<exists>e \<in> set lits. EqnIsPositive e = EqnIsPositive u \<and>
       (if EqnIsPositive u then unit_eq sg b u (lterm e) (rterm e) else unit_inst sg b u (lterm e) (rterm e)))"
    using Cons.IH Cons.prems by auto
  show ?case
    using r1 r2 res neg
    by (cases "EqnIsPositive u"; cases "EqnIsPositive e"; cases r1; cases r2) auto
qed auto

section \<open>All clauses\<close>

text \<open>What subsumption by a unit clause promises: a literal of the other clause with the sign of the
  unit literal that follows from it.\<close>

definition unit_implies :: "Sig \<Rightarrow> bindings \<Rightarrow> Clause \<Rightarrow> Clause \<Rightarrow> bool" where
  "unit_implies sg b c d \<longleftrightarrow> (\<exists>u. literals c = [u] \<and> (\<exists>e \<in> set (literals d). EqnIsPositive e = EqnIsPositive u \<and>
     (if EqnIsPositive u then unit_eq sg b u (lterm e) (rterm e) else unit_inst sg b u (lterm e) (rterm e))))"

lemma clause_ok_wf: "clause_ok ocb tt c \<Longrightarrow> e \<in> set (literals c) \<Longrightarrow>
    wf_term (ocb_sig ocb) (lterm e) \<and> wf_term (ocb_sig ocb) (rterm e)"
  by (simp add: clause_ok_def lit_ok_def)

lemma clause_ok_unit:
  assumes "clause_ok ocb tt c" and "ClauseLiteralNumber c = 1"
  obtains u where "literals c = [u]"
proof -
  have "length (literals c) = 1" using assms clause_counts_length [of c] by (simp add: clause_ok_def)
  then show thesis using that by (metis One_nat_def length_0_conv length_Suc_conv)
qed

lemma UnitClauseSubsumesClause_ok:
  assumes "clause_ok ocb tt c" and "clause_ok ocb tt d" and "ClauseLiteralNumber c = 1" and "binds_ok (ocb_sig ocb) b"
  shows "\<exists>res. UnitClauseSubsumesClause c d b = Some (res, b) \<and> (res \<longrightarrow> unit_implies (ocb_sig ocb) b c d)"
proof -
  obtain u where u: "literals c = [u]" using clause_ok_unit [OF assms(1,3)] .
  then have wf: "wf_term (ocb_sig ocb) (lterm u)" "wf_term (ocb_sig ocb) (rterm u)"
    using clause_ok_wf [OF assms(1), of u] by simp_all
  have "\<forall>e \<in> set (literals d). wf_term (ocb_sig ocb) (lterm e) \<and> wf_term (ocb_sig ocb) (rterm e)"
    using clause_ok_wf [OF assms(2)] by blast
  from literal_subsumes_loop_ok [OF assms(4) wf this] show ?thesis
    using u assms(3) by (auto simp: UnitClauseSubsumesClause_def LiteralSubsumesClause_def unit_implies_def)
qed

definition subsumption_result :: "Sig \<Rightarrow> bindings \<Rightarrow> Clause \<Rightarrow> Clause \<Rightarrow> bool \<Rightarrow> bool" where
  "subsumption_result sg b c d res \<longleftrightarrow>
     (if ClauseLiteralNumber c = 1 then res \<longrightarrow> unit_implies sg b c d else res = subsumes sg b c d)"

lemma clause_subsumes_clause_total:
  assumes "to_valid ocb" and "true_ok (ocb_sig ocb) tt" and "clause_ok ocb tt c" and "clause_ok ocb tt d"
    and "binds_ok (ocb_sig ocb) b"
  shows "\<exists>res. clause_subsumes_clause c d b = Some (res, b) \<and> subsumption_result (ocb_sig ocb) b c d res"
proof (cases "ClauseLiteralNumber c = 1")
  case True
  have "ClauseIsSubsumeOrdered c = Some True" "ClauseIsSubsumeOrdered d = Some True"
    using assms(3,4) by (simp_all add: clause_ok_def)
  then have "clause_subsumes_clause c d b = UnitClauseSubsumesClause c d b"
    using True by (simp add: clause_subsumes_clause_def)
  then show ?thesis
    using UnitClauseSubsumesClause_ok [OF assms(3,4) True assms(5)] True by (simp add: subsumption_result_def)
next
  case False
  then show ?thesis using clause_subsumes_clause_ok [OF assms(1-4) False assms(5)] by (simp add: subsumption_result_def)
qed

lemma set_subsumes_loop_ok:
  assumes "\<And>c. c \<in> set clset \<Longrightarrow> \<exists>res. clause_subsumes_clause c d b = Some (res, b) \<and> P c res"
  shows "\<exists>r. set_subsumes_loop clset d b = Some (r, b) \<and>
    (case r of None \<Rightarrow> \<forall>c \<in> set clset. P c False | Some c \<Rightarrow> c \<in> set clset \<and> P c True)"
  using assms
proof (induction clset)
  case (Cons c clset)
  obtain res where res: "clause_subsumes_clause c d b = Some (res, b)" "P c res" using Cons.prems by auto
  obtain r where r: "set_subsumes_loop clset d b = Some (r, b)"
    "case r of None \<Rightarrow> \<forall>c \<in> set clset. P c False | Some c \<Rightarrow> c \<in> set clset \<and> P c True" using Cons by auto
  show ?case using res r by (cases res) (auto split: option.splits)
qed simp

section \<open>Properties\<close>

text \<open>C12 Subsumption over a clause set without index: the search for a clause subsuming a non-unit
  clause ends, trips no assertion and restores the bindings; a non-unit result subsumes the clause, a unit
  result implies one of its literals, and if nothing is found no non-unit clause of the set
  subsumes it. The search for the clauses a non-unit clause subsumes pushes exactly these, in the
  order of the set.\<close>

theorem clause_set_subsumption:
  assumes "to_valid ocb" and "true_ok (ocb_sig ocb) tt" and "\<forall>c \<in> set clset. clause_ok ocb tt c" and "clause_ok ocb tt d"
    and "ClauseLiteralNumber d > 1" and "binds_ok (ocb_sig ocb) b" and "pstack_ok st"
  shows "(\<exists>r. clause_set_subsumes_clause clset d b = Some (r, b) \<and>
      (case r of None \<Rightarrow> \<forall>c \<in> set clset. ClauseLiteralNumber c = 1 \<or> \<not> subsumes (ocb_sig ocb) b c d
       | Some c \<Rightarrow> c \<in> set clset \<and> (if ClauseLiteralNumber c = 1 then unit_implies (ocb_sig ocb) b c d
                                    else subsumes (ocb_sig ocb) b c d))) \<and>
    (\<exists>st'. clauseset_find_subsumed_clauses clset d st b = Some (st', b) \<and>
      pstack_list st' = pstack_list st @ filter (subsumes (ocb_sig ocb) b d) clset)"
proof
  have run: "\<exists>res. clause_subsumes_clause c d b = Some (res, b) \<and> subsumption_result (ocb_sig ocb) b c d res"
    if "c \<in> set clset" for c
    using clause_subsumes_clause_total [OF assms(1,2) _ assms(4,6)] assms(3) that by blast
  obtain r where r: "set_subsumes_loop clset d b = Some (r, b)"
    "case r of None \<Rightarrow> \<forall>c \<in> set clset. subsumption_result (ocb_sig ocb) b c d False
     | Some c \<Rightarrow> c \<in> set clset \<and> subsumption_result (ocb_sig ocb) b c d True"
    using set_subsumes_loop_ok [of clset d b "\<lambda>c. subsumption_result (ocb_sig ocb) b c d", OF run] by blast
  show "\<exists>r. clause_set_subsumes_clause clset d b = Some (r, b) \<and>
      (case r of None \<Rightarrow> \<forall>c \<in> set clset. ClauseLiteralNumber c = 1 \<or> \<not> subsumes (ocb_sig ocb) b c d
       | Some c \<Rightarrow> c \<in> set clset \<and> (if ClauseLiteralNumber c = 1 then unit_implies (ocb_sig ocb) b c d
                                    else subsumes (ocb_sig ocb) b c d))"
    using r assms(4,5)
    by (intro exI [of _ r]) (auto simp: clause_set_subsumes_clause_def clause_ok_def subsumption_result_def
      split: option.splits if_splits)
  have "clause_subsumes_clause d c b = Some (subsumes (ocb_sig ocb) b d c, b)" if "c \<in> set clset" for c
    using clause_subsumes_clause_ok [OF assms(1,2,4) _ _ assms(6)] assms(3,5) that by simp
  then show "\<exists>st'. clauseset_find_subsumed_clauses clset d st b = Some (st', b) \<and>
      pstack_list st' = pstack_list st @ filter (subsumes (ocb_sig ocb) b d) clset"
    using assms(7)
  proof (induction clset arbitrary: st)
    case (Cons c clset)
    then show ?case using push_ok [OF Cons.prems(2), of c] by (fastforce simp: PStackPushP_def)
  qed simp
qed

theorem clause_set_subsumption_witness:
  "\<exists>r. clause_set_subsumes_clause [sample_special, sample_general] sample_special (\<lambda>_. None) = Some (r, \<lambda>_. None)"
proof -
  have "ClauseLiteralNumber sample_special > 1"
    using clause_counts_length [OF sample_clause_counts(1)] by (simp add: sample_special_def)
  moreover have "binds_ok (ocb_sig sample_ocb) (\<lambda>_. None)" by (simp add: binds_ok_def)
  ultimately show ?thesis
    using clause_set_subsumption [OF sample_to_valid sample_true_ok _ sample_clauses_ok(2), of "[sample_special, sample_general]"
        "\<lambda>_. None" PStackAlloc] sample_clauses_ok by auto
qed

definition sample_equation :: "Term_p \<Rightarrow> Term_p \<Rightarrow> Eqn" where
  "sample_equation s t = sample_lit (EPIsPositive + EPIsEquLiteral) s t"

definition sample_unit :: Eqn where
  "sample_unit = sample_equation (sample_f (sample_var 1) (sample_var 2)) (sample_f (sample_var 1) (sample_var 1))"

definition sample_aa :: Term_p where "sample_aa = sample_f (sample_const 21) (sample_const 21)"

definition sample_ab :: Term_p where "sample_ab = sample_f (sample_const 21) (sample_const 23)"

text \<open>A defect: subsumption by units is incomplete. \<open>eqn_topsubsumes_termpair\<close> exchanges the sides
  of the literal only if the left side of the unit does not match its left side; if it
  matches and the right sides do not fit, the other way is not tried. The unit
  \<open>f(x, y) = f(x, x)\<close> does not subsume its instance \<open>f(a, a) = f(a, b)\<close> in a clause, although
  \<open>LiteralSubsumeP\<close> finds that the literal subsumes, and with the sides exchanged it is found.\<close>

theorem UnitClauseSubsumesClause_incomplete:
  "map_option fst (UnitClauseSubsumesClause (sample_clause [sample_unit]) (sample_clause [sample_equation sample_aa sample_ab])
     (\<lambda>_. None)) = Some False \<and>
   map_option fst (LiteralSubsumeP sample_unit (sample_equation sample_aa sample_ab) (\<lambda>_. None)) = Some True \<and>
   map_option fst (UnitClauseSubsumesClause (sample_clause [sample_unit]) (sample_clause [sample_equation sample_ab sample_aa])
     (\<lambda>_. None)) = Some True"
  by (intro conjI) code_simp+

end
