(* ===== verification/VarBanks.thy ===== *)
theory VarBanks
  imports PDArrays NumTrees Substs "HOL-Library.Sublist"
begin

text \<open>
  Variable banks (\<open>TERMS/cte_termvars.h\<close>, \<open>TERMS/cte_termvars.c\<close>). A bank owns the cells of its
  variables, indexed by their codes and stacked by type; \<open>v_counts\<close> tells how many variables of a
  type are in use, so that \<open>VarBankGetFreshVar\<close> hands out each one once until the counts are reset.
  Two banks may be paired, and then have variables of the same codes and types.

  Cells of different banks with the same code are different cells. The field \<open>f_code\<close> of a variable
  of the model is the number of its cell, from which \<open>var_code\<close> is the code and \<open>var_bank\<close> the
  bank. The banks are a list, and the address of a bank is its index. The stack of a type belongs to
  one bank only, so that pushing onto it writes it back into \<open>varstacks\<close>. The name of a bank, which is
  printed, and the term bank of it are left out.
\<close>

section \<open>Data\<close>

text \<open>The value of a new cell of an array of pointers is \<open>NULL\<close>.\<close>

instantiation option :: (type) zero
begin

definition zero_option :: "'a option" where "zero_option = None"

instance ..

end

definition MAX_BANKS :: int where "MAX_BANKS = 16"

definition var_cell :: "nat \<Rightarrow> int \<Rightarrow> nat \<Rightarrow> Term_p" where
  "var_cell bank code ty = TermCell (MAX_BANKS * code + int bank) False ty []"

definition var_code :: "Term_p \<Rightarrow> int" where
  "var_code v = f_code v div MAX_BANKS"

definition var_bank :: "Term_p \<Rightarrow> nat" where
  "var_bank v = nat (f_code v mod MAX_BANKS)"

definition VarFCodeIsAltCode :: "int \<Rightarrow> bool" where
  "VarFCodeIsAltCode code \<longleftrightarrow> odd code"

definition VarIsAltVar :: "Term_p \<Rightarrow> bool" where
  "VarIsAltVar v = VarFCodeIsAltCode (var_code v)"

record VarBankNamedCell =
  nv_var :: Term_p
  nv_name :: string

record VarBank =
  var_count :: int
  fresh_count :: int
  default_type :: nat
  max_var :: int
  varstacks :: "Term_p pstack option PDArray"
  v_counts :: "int PDArray"
  variables :: "Term_p option PDArray"
  ext_index :: "Term_p strtree"
  env :: "VarBankNamedCell option pstack"
  shadow :: "nat option"

type_synonym VarBanks = "VarBank list"

definition vb_at :: "VarBanks \<Rightarrow> nat \<Rightarrow> VarBank option" where
  "vb_at vbs a = (if a < length vbs then Some (vbs ! a) else None)"

definition INITIAL_SORT_STACK_SIZE :: int where "INITIAL_SORT_STACK_SIZE = 10"

definition DEFAULT_VARBANK_SIZE :: int where "DEFAULT_VARBANK_SIZE = 30"

section \<open>The operations\<close>

definition VarBankAlloc :: "VarBanks \<Rightarrow> nat \<Rightarrow> (nat \<times> VarBanks) option" where
  "VarBankAlloc vbs ty =
     do { stacks \<leftarrow> PDArrayAlloc INITIAL_SORT_STACK_SIZE 5;
          counts \<leftarrow> PDIntArrayAlloc INITIAL_SORT_STACK_SIZE 5;
          vars \<leftarrow> PDArrayAlloc DEFAULT_VARBANK_SIZE (int GROW_EXPONENTIAL);
          Some (length vbs, vbs @ [\<lparr>var_count = 0, fresh_count = 0, default_type = ty, max_var = 0,
            varstacks = stacks, v_counts = counts, variables = vars, ext_index = Leaf,
            env = PStackAlloc, shadow = None\<rparr>]) }"

definition VarBankCreateStack :: "VarBank \<Rightarrow> nat \<Rightarrow> (Term_p pstack \<times> VarBank) option" where
  "VarBankCreateStack bank srt =
     do { let res = PStackAlloc;
          arr \<leftarrow> PDArrayAssignP (varstacks bank) (int srt) (Some res);
          Some (res, bank\<lparr>varstacks := arr\<rparr>) }"

definition VarBankGetStack :: "VarBank \<Rightarrow> nat \<Rightarrow> (Term_p pstack \<times> VarBank) option" where
  "VarBankGetStack bank srt =
     do { (arr, res) \<leftarrow> PDArrayElementP (varstacks bank) (int srt);
          let bank = bank\<lparr>varstacks := arr\<rparr>;
          case res of None \<Rightarrow> VarBankCreateStack bank srt | Some stack \<Rightarrow> Some (stack, bank) }"

definition var_bank_var_alloc :: "VarBanks \<Rightarrow> nat \<Rightarrow> int \<Rightarrow> nat \<Rightarrow> (Term_p \<times> VarBanks) option" where
  "var_bank_var_alloc vbs a code ty =
     do { bank \<leftarrow> vb_at vbs a;
          (stack, bank) \<leftarrow> VarBankGetStack bank ty;
          (arr, old) \<leftarrow> PDArrayElementP (variables bank) (- code);
          c_assert (old = None);
          let var = var_cell a code ty;
          arr \<leftarrow> PDArrayAssignP arr (- code) (Some var);
          let bank = bank\<lparr>variables := arr\<rparr>;
          bank \<leftarrow> (if \<not> VarIsAltVar var
                  then do { stack \<leftarrow> PStackPushP stack var;
                            stacks \<leftarrow> PDArrayAssignP (varstacks bank) (int ty) (Some stack);
                            Some (bank\<lparr>varstacks := stacks\<rparr>) }
                  else Some bank);
          let bank = bank\<lparr>max_var := max (- code) (max_var bank), var_count := var_count bank + 1\<rparr>;
          c_assert (ty \<noteq> 0);
          Some (var, vbs[a := bank]) }"

definition VarBankVarAlloc :: "VarBanks \<Rightarrow> nat \<Rightarrow> int \<Rightarrow> nat \<Rightarrow> (Term_p \<times> VarBanks) option" where
  "VarBankVarAlloc vbs a code ty =
     do { (var, vbs) \<leftarrow> var_bank_var_alloc vbs a code ty;
          bank \<leftarrow> vb_at vbs a;
          case shadow bank of
            None \<Rightarrow> Some (var, vbs)
          | Some a' \<Rightarrow> do { (_, vbs) \<leftarrow> var_bank_var_alloc vbs a' code ty; Some (var, vbs) } }"

definition VarBankVarAssertAlloc :: "VarBanks \<Rightarrow> nat \<Rightarrow> int \<Rightarrow> nat \<Rightarrow> (Term_p \<times> VarBanks) option" where
  "VarBankVarAssertAlloc vbs a code ty =
     do { c_assert (code < 0);
          bank \<leftarrow> vb_at vbs a;
          (arr, var) \<leftarrow> PDArrayElementP (variables bank) (- code);
          let vbs = vbs[a := bank\<lparr>variables := arr\<rparr>];
          (var, vbs) \<leftarrow> (case var of None \<Rightarrow> VarBankVarAlloc vbs a code ty | Some v \<Rightarrow> Some (v, vbs));
          c_assert (t_type var \<noteq> 0);
          c_assert (t_type var = ty);
          Some (var, vbs) }"

definition VarBankGetAltVar :: "VarBanks \<Rightarrow> nat \<Rightarrow> Term_p \<Rightarrow> (Term_p \<times> VarBanks) option" where
  "VarBankGetAltVar vbs a v =
     do { c_assert (f_code v < 0);
          c_assert (\<not> VarIsAltVar v);
          VarBankVarAssertAlloc vbs a (var_code v + 1) (t_type v) }"

text \<open>The branch of \<open>VarBankGetFreshVar\<close> that creates a variable.\<close>

definition fresh_var_alloc :: "VarBanks \<Rightarrow> nat \<Rightarrow> VarBank \<Rightarrow> nat \<Rightarrow> int \<Rightarrow> (Term_p \<times> VarBanks) option" where
  "fresh_var_alloc vbs a bank ty v_count =
     do { let bank = bank\<lparr>fresh_count := fresh_count bank + 2\<rparr>;
          (res, vbs) \<leftarrow> VarBankVarAssertAlloc (vbs[a := bank]) a (- fresh_count bank) ty;
          bank \<leftarrow> vb_at vbs a;
          (stack, bank) \<leftarrow> VarBankGetStack bank ty;
          c_assert (int (PStackGetSP stack) > v_count);
          case shadow bank of
            None \<Rightarrow> Some (res, vbs[a := bank])
          | Some a' \<Rightarrow> do { bank' \<leftarrow> vb_at vbs a';
                            Some (res, vbs[a := bank, a' := bank'\<lparr>fresh_count := fresh_count bank\<rparr>]) } }"

definition VarBankGetFreshVar :: "VarBanks \<Rightarrow> nat \<Rightarrow> nat \<Rightarrow> (Term_p \<times> VarBanks) option" where
  "VarBankGetFreshVar vbs a ty =
     do { bank \<leftarrow> vb_at vbs a;
          (counts, v_count) \<leftarrow> PDArrayElementInt (v_counts bank) (int ty);
          (stack, bank) \<leftarrow> VarBankGetStack (bank\<lparr>v_counts := counts\<rparr>) ty;
          (res, vbs) \<leftarrow>
            (if int (PStackGetSP stack) \<le> v_count then fresh_var_alloc vbs a bank ty v_count
             else do { res \<leftarrow> PStackElement stack (nat v_count); Some (res, vbs[a := bank]) });
          bank \<leftarrow> vb_at vbs a;
          counts \<leftarrow> PDArrayAssignInt (v_counts bank) (int ty) (v_count + 1);
          Some (res, vbs[a := bank\<lparr>v_counts := counts\<rparr>]) }"

definition VarBankGetAltFreshVar :: "VarBanks \<Rightarrow> nat \<Rightarrow> nat \<Rightarrow> (Term_p \<times> VarBanks) option" where
  "VarBankGetAltFreshVar vbs a ty =
     do { (v, vbs) \<leftarrow> VarBankGetFreshVar vbs a ty; VarBankGetAltVar vbs a v }"

definition VarBankResetVCounts :: "VarBank \<Rightarrow> VarBank option" where
  "VarBankResetVCounts bank =
     do { counts \<leftarrow> foldM (\<lambda>counts i. PDArrayAssignInt counts (int i) 0) (v_counts bank)
                      [0..<pda_size (v_counts bank)];
          Some (bank\<lparr>v_counts := counts\<rparr>) }"

definition VarBankSetVCountsToUsed :: "VarBank \<Rightarrow> VarBank option" where
  "VarBankSetVCountsToUsed bank =
     foldM (\<lambda>bank i. do { (stack, bank) \<leftarrow> VarBankGetStack bank i;
                          counts \<leftarrow> PDArrayAssignInt (v_counts bank) (int i) (int (PStackGetSP stack));
                          Some (bank\<lparr>v_counts := counts\<rparr>) })
       bank [0..<pda_size (v_counts bank)]"

text \<open>
  \<open>VarBankPairShadow\<close>: the loops over the sorts of the primary bank and the variables of a sort.
  The bound of the inner loop is read again in each round; \<open>k\<close> is the index.
\<close>

partial_function (option) pair_stack_loop ::
  "VarBanks \<Rightarrow> nat \<Rightarrow> nat \<Rightarrow> nat \<Rightarrow> nat \<Rightarrow> VarBanks option" where [code]:
  "pair_stack_loop vbs primary secondary srt k =
     do { bank \<leftarrow> vb_at vbs primary;
          (_, varstack) \<leftarrow> PDArrayElementP (varstacks bank) (int srt);
          case varstack of
            None \<Rightarrow> Some vbs
          | Some stack \<Rightarrow>
              if k < PStackGetSP stack
              then do { var \<leftarrow> PStackElement stack k;
                        c_assert (\<not> VarIsAltVar var);
                        c_assert (t_type var = srt);
                        (_, vbs) \<leftarrow> VarBankVarAlloc vbs secondary (var_code var) (t_type var);
                        pair_stack_loop vbs primary secondary srt (k + 1) }
              else Some vbs }"

definition VarBankPairShadow :: "VarBanks \<Rightarrow> nat \<Rightarrow> nat \<Rightarrow> VarBanks option" where
  "VarBankPairShadow vbs primary secondary =
     do { p \<leftarrow> vb_at vbs primary;
          s \<leftarrow> vb_at vbs secondary;
          c_assert (var_count s = 0);
          let vbs = vbs[primary := p\<lparr>shadow := Some secondary\<rparr>];
          s \<leftarrow> vb_at vbs secondary;
          let vbs = vbs[secondary := s\<lparr>shadow := Some primary\<rparr>];
          vbs \<leftarrow> foldM (\<lambda>vbs srt. pair_stack_loop vbs primary secondary srt 0) vbs
                   [0..<pda_size (varstacks p)];
          p \<leftarrow> vb_at vbs primary;
          s \<leftarrow> vb_at vbs secondary;
          Some (vbs[secondary := s\<lparr>fresh_count := fresh_count p\<rparr>]) }"

definition VarBankFCodeFind :: "VarBank \<Rightarrow> int \<Rightarrow> (Term_p option \<times> VarBank) option" where
  "VarBankFCodeFind bank code =
     do { c_assert (code < 0);
          (arr, v) \<leftarrow> PDArrayElementP (variables bank) (- code);
          Some (v, bank\<lparr>variables := arr\<rparr>) }"

definition VarBankCardinality :: "VarBank \<Rightarrow> int" where
  "VarBankCardinality bank = var_count bank"

definition VarBankCollectVars :: "VarBank \<Rightarrow> Term_p pstack \<Rightarrow> (int \<times> VarBank \<times> Term_p pstack) option" where
  "VarBankCollectVars bank into =
     foldM (\<lambda>(res, bank, into) i.
              do { (arr, t) \<leftarrow> PDArrayElementP (variables bank) (int i);
                   let bank = bank\<lparr>variables := arr\<rparr>;
                   case t of None \<Rightarrow> Some (res, bank, into)
                   | Some v \<Rightarrow> do { into \<leftarrow> PStackPushP into v; Some (res + 1, bank, into) } })
       (0, bank, into) [0..<nat (max_var bank)]"

section \<open>What a bank stands for\<close>

definition vb_vars :: "VarBank \<Rightarrow> nat \<Rightarrow> Term_p option" where
  "vb_vars v i = pda_val (variables v) i"

definition vb_stack :: "VarBank \<Rightarrow> nat \<Rightarrow> Term_p list" where
  "vb_stack v ty = (case pda_val (varstacks v) ty of None \<Rightarrow> [] | Some s \<Rightarrow> pstack_list s)"

definition vb_count :: "VarBank \<Rightarrow> nat \<Rightarrow> int" where
  "vb_count v ty = pda_val (v_counts v) ty"

definition vb_rest :: "VarBank \<Rightarrow> int \<times> nat \<times> Term_p strtree \<times> VarBankNamedCell option pstack \<times> nat option" where
  "vb_rest v = (fresh_count v, default_type v, ext_index v, env v, shadow v)"

definition vb_rep :: "VarBank \<Rightarrow> bool" where
  "vb_rep v \<longleftrightarrow> pda_ok (varstacks v) \<and> pda_ok (v_counts v) \<and> pda_ok (variables v) \<and>
     (\<forall>ty s. pda_val (varstacks v) ty = Some s \<longrightarrow> pstack_ok s)"

text \<open>The stack of a type holds the variables of the type with even codes, each once.\<close>

definition vb_inv :: "nat \<Rightarrow> VarBank \<Rightarrow> bool" where
  "vb_inv a v \<longleftrightarrow>
     (\<forall>i w. vb_vars v i = Some w \<longrightarrow>
        0 < i \<and> int i \<le> max_var v \<and> t_type w \<noteq> 0 \<and> w = var_cell a (- int i) (t_type w)) \<and>
     (\<forall>ty. distinct (vb_stack v ty) \<and>
        set (vb_stack v ty) = {w. t_type w = ty \<and> (\<exists>i. even i \<and> vb_vars v i = Some w)}) \<and>
     (\<forall>ty. 0 \<le> vb_count v ty \<and> vb_count v ty \<le> int (length (vb_stack v ty)))"

definition vb_ok :: "nat \<Rightarrow> VarBank \<Rightarrow> bool" where
  "vb_ok a v \<longleftrightarrow> vb_rep v \<and> vb_inv a v"

definition vb_fresh :: "VarBank \<Rightarrow> bool" where
  "vb_fresh v \<longleftrightarrow> 0 \<le> fresh_count v \<and> even (fresh_count v) \<and>
     (\<forall>i. even i \<and> fresh_count v < int i \<longrightarrow> vb_vars v i = None)"

text \<open>The invariant of the banks without, and with, what concerns \<open>fresh_count\<close>.\<close>

definition vbs_core :: "VarBanks \<Rightarrow> bool" where
  "vbs_core vbs \<longleftrightarrow> int (length vbs) \<le> MAX_BANKS \<and>
     (\<forall>a < length vbs. vb_ok a (vbs ! a) \<and>
        (\<forall>a'. shadow (vbs ! a) = Some a' \<longrightarrow> a' < length vbs \<and> a' \<noteq> a \<and> shadow (vbs ! a') = Some a \<and>
           (\<forall>i. map_option t_type (vb_vars (vbs ! a') i) = map_option t_type (vb_vars (vbs ! a) i))))"

definition vbs_ok :: "VarBanks \<Rightarrow> bool" where
  "vbs_ok vbs \<longleftrightarrow> vbs_core vbs \<and>
     (\<forall>a < length vbs. vb_fresh (vbs ! a) \<and>
        (\<forall>a'. shadow (vbs ! a) = Some a' \<longrightarrow> fresh_count (vbs ! a') = fresh_count (vbs ! a)))"

lemma vbs_core_at:
  assumes "vbs_core vbs" and "a < length vbs"
  shows "vb_ok a (vbs ! a)" "int a < MAX_BANKS"
proof -
  show "vb_ok a (vbs ! a)" using assms unfolding vbs_core_def by blast
  have "int (length vbs) \<le> MAX_BANKS" using assms unfolding vbs_core_def by blast
  then show "int a < MAX_BANKS" using assms(2) by simp
qed

lemma vbs_core_shadow:
  assumes "vbs_core vbs" and "a < length vbs" and "shadow (vbs ! a) = Some a'"
  shows "a' < length vbs" "a' \<noteq> a" "shadow (vbs ! a') = Some a"
    "\<And>i. map_option t_type (vb_vars (vbs ! a') i) = map_option t_type (vb_vars (vbs ! a) i)"
  using assms unfolding vbs_core_def by blast+

lemma vbs_core_length: "vbs_core vbs \<Longrightarrow> int (length vbs) \<le> MAX_BANKS"
  by (simp add: vbs_core_def)

lemma vbs_coreI:
  assumes "int (length vbs) \<le> MAX_BANKS" and "\<And>a. a < length vbs \<Longrightarrow> vb_ok a (vbs ! a)"
    and "\<And>a a'. a < length vbs \<Longrightarrow> shadow (vbs ! a) = Some a' \<Longrightarrow> a' < length vbs \<and> a' \<noteq> a \<and>
      shadow (vbs ! a') = Some a \<and>
      (\<forall>i. map_option t_type (vb_vars (vbs ! a') i) = map_option t_type (vb_vars (vbs ! a) i))"
  shows "vbs_core vbs"
  using assms unfolding vbs_core_def by blast

text \<open>A change of the representation only, and the addition of a variable.\<close>

definition vb_same :: "VarBank \<Rightarrow> VarBank \<Rightarrow> bool" where
  "vb_same v v' \<longleftrightarrow> vb_rep v' \<and> vb_vars v' = vb_vars v \<and> vb_stack v' = vb_stack v \<and> vb_count v' = vb_count v \<and>
     vb_rest v' = vb_rest v \<and> max_var v' = max_var v"

definition vb_add :: "nat \<Rightarrow> int \<Rightarrow> nat \<Rightarrow> VarBank \<Rightarrow> VarBank \<Rightarrow> bool" where
  "vb_add a code ty v v' \<longleftrightarrow> vb_rep v' \<and>
     vb_vars v' = (vb_vars v)(nat (- code) := Some (var_cell a code ty)) \<and>
     vb_stack v' = (if odd code then vb_stack v else (vb_stack v)(ty := vb_stack v ty @ [var_cell a code ty])) \<and>
     vb_count v' = vb_count v \<and> vb_rest v' = vb_rest v \<and> max_var v' = max (- code) (max_var v)"

lemma vb_repD:
  "vb_rep v \<Longrightarrow> pda_ok (varstacks v)" "vb_rep v \<Longrightarrow> pda_ok (v_counts v)" "vb_rep v \<Longrightarrow> pda_ok (variables v)"
  "vb_rep v \<Longrightarrow> pda_val (varstacks v) ty = Some s \<Longrightarrow> pstack_ok s"
  by (auto simp: vb_rep_def)

lemma vb_ok_rep: "vb_ok a v \<Longrightarrow> vb_rep v"
  by (simp add: vb_ok_def)

lemma vb_same_ok: "vb_ok a v \<Longrightarrow> vb_same v v' \<Longrightarrow> vb_ok a v'"
  by (auto simp: vb_ok_def vb_same_def vb_inv_def)

lemma vb_same_refl: "vb_rep v \<Longrightarrow> vb_same v v"
  by (simp add: vb_same_def)

lemma vb_same_trans: "vb_same v v' \<Longrightarrow> vb_same v' v'' \<Longrightarrow> vb_same v v''"
  by (simp add: vb_same_def)

lemma vb_same_add: "vb_same v v' \<Longrightarrow> vb_add a code ty v' v'' \<Longrightarrow> vb_add a code ty v v''"
  by (simp add: vb_same_def vb_add_def)

lemma vb_add_same: "vb_add a code ty v v' \<Longrightarrow> vb_same v' v'' \<Longrightarrow> vb_add a code ty v v''"
  by (simp add: vb_same_def vb_add_def)

section \<open>Cells\<close>

lemma var_cell_simps [simp]:
  "t_type (var_cell a code ty) = ty" "t_args (var_cell a code ty) = []"
  "int a < MAX_BANKS \<Longrightarrow> var_code (var_cell a code ty) = code"
  "int a < MAX_BANKS \<Longrightarrow> var_bank (var_cell a code ty) = a"
  by (simp_all add: var_cell_def var_code_def var_bank_def MAX_BANKS_def)

lemma var_cell_free: "int a < MAX_BANKS \<Longrightarrow> code < 0 \<Longrightarrow> TermIsFreeVar (var_cell a code ty)"
  by (simp add: var_cell_def MAX_BANKS_def)

lemma var_cell_wf: "int a < MAX_BANKS \<Longrightarrow> code < 0 \<Longrightarrow> ty \<noteq> 0 \<Longrightarrow> wf_term sg (var_cell a code ty)"
  by (simp add: var_cell_def MAX_BANKS_def)

lemma var_cell_alt: "int a < MAX_BANKS \<Longrightarrow> VarIsAltVar (var_cell a code ty) \<longleftrightarrow> odd code"
  by (simp add: VarIsAltVar_def VarFCodeIsAltCode_def)

lemma var_cell_of:
  assumes "wf_term sg v" and "TermIsFreeVar v"
  shows "v = var_cell (var_bank v) (var_code v) (t_type v)" "var_code v < 0"
  using assms by (cases v; simp add: var_cell_def var_bank_def var_code_def MAX_BANKS_def)+

lemma var_cell_inj: "int a < MAX_BANKS \<Longrightarrow> var_cell a code ty = var_cell a code' ty' \<longleftrightarrow> code = code' \<and> ty = ty'"
  by (auto simp: var_cell_def MAX_BANKS_def)

section \<open>Stacks and new variables\<close>

lemma VarBankGetStack_ok:
  assumes "vb_rep v"
  shows "\<exists>s v'. VarBankGetStack v ty = Some (s, v') \<and> vb_same v v' \<and> pstack_ok s \<and>
    pda_val (varstacks v') ty = Some s \<and> pstack_list s = vb_stack v ty \<and> variables v' = variables v"
proof -
  obtain arr where arr: "PDArrayElementP (varstacks v) (int ty) = Some (arr, pda_val (varstacks v) ty)" "pda_ok arr"
    "\<forall>i. pda_val arr i = pda_val (varstacks v) i"
    using PDArrayElement_ok [OF vb_repD(1) [OF assms], of "int ty"] by (auto simp: PDArrayElementP_def)
  have arr_fun: "pda_val arr = pda_val (varstacks v)" using arr(3) by blast
  show ?thesis
  proof (cases "pda_val (varstacks v) ty")
    case (Some s)
    then show ?thesis
      using arr(1,2) vb_repD(4) [OF assms Some] assms
      by (auto simp: VarBankGetStack_def vb_same_def vb_rep_def vb_vars_def vb_stack_def vb_count_def vb_rest_def arr_fun)
  next
    case None
    obtain arr2 where arr2: "PDArrayAssignP arr (int ty) (Some PStackAlloc) = Some arr2" "pda_ok arr2"
      "\<forall>i. pda_val arr2 i = (if i = ty then Some PStackAlloc else pda_val arr i)"
      using PDArrayAssign_ok [OF arr(2), of "int ty" "Some PStackAlloc"] by (auto simp: PDArrayAssignP_def)
    have arr2_fun: "pda_val arr2 = (pda_val (varstacks v))(ty := Some PStackAlloc)" using arr2(3) by (auto simp: arr_fun)
    have "vb_stack (v\<lparr>varstacks := arr2\<rparr>) = vb_stack v"
      using None by (auto simp: vb_stack_def arr2_fun)
    then show ?thesis
      using arr(1,2) arr2(1,2) None assms
      by (auto simp: VarBankGetStack_def VarBankCreateStack_def vb_same_def vb_rep_def vb_vars_def vb_count_def
          vb_rest_def arr2_fun vb_stack_def split: if_splits)
  qed
qed

lemma var_bank_var_alloc_ok:
  assumes "vb_rep (vbs ! a)" and "a < length vbs" and "int a < MAX_BANKS" and "ty \<noteq> 0" and "code < 0"
    and "vb_vars (vbs ! a) (nat (- code)) = None"
  shows "\<exists>v'. var_bank_var_alloc vbs a code ty = Some (var_cell a code ty, vbs[a := v']) \<and>
    vb_add a code ty (vbs ! a) v'"
proof -
  let ?v = "vbs ! a" and ?c = "var_cell a code ty"
  obtain s v1 where v1: "VarBankGetStack ?v ty = Some (s, v1)" "vb_same ?v v1" "pstack_ok s"
    "pda_val (varstacks v1) ty = Some s" "pstack_list s = vb_stack ?v ty"
    using VarBankGetStack_ok [OF assms(1)] by blast
  have rep1: "vb_rep v1" using v1(2) by (simp add: vb_same_def)
  have none: "pda_val (variables v1) (nat (- code)) = None"
    using v1(2) assms(6) by (simp add: vb_same_def vb_vars_def fun_eq_iff)
  obtain arr where arr: "PDArrayElementP (variables v1) (- code) = Some (arr, None)" "pda_ok arr"
    "\<forall>i. pda_val arr i = pda_val (variables v1) i"
    using PDArrayElement_ok [OF vb_repD(3) [OF rep1], of "- code"] assms(5) none by (auto simp: PDArrayElementP_def)
  obtain arr2 where arr2: "PDArrayAssignP arr (- code) (Some ?c) = Some arr2" "pda_ok arr2"
    "\<forall>i. pda_val arr2 i = (if i = nat (- code) then Some ?c else pda_val arr i)"
    using PDArrayAssign_ok [OF arr(2), of "- code" "Some ?c"] assms(5) by (auto simp: PDArrayAssignP_def)
  have vars: "pda_val arr2 = (vb_vars ?v)(nat (- code) := Some ?c)"
    using v1(2) arr(3) arr2(3) by (auto simp: vb_same_def vb_vars_def fun_eq_iff)
  show ?thesis
  proof (cases "odd code")
    case True
    then show ?thesis
      using assms(2-4) v1(1,2) arr(1) arr2(1,2) rep1 vars
      by (auto simp: var_bank_var_alloc_def vb_at_def var_cell_alt vb_add_def vb_same_def vb_rep_def vb_vars_def
          vb_stack_def vb_count_def vb_rest_def fun_eq_iff)
  next
    case False
    obtain s2 where s2: "PStackPushP s ?c = Some s2" "pstack_ok s2" "pstack_list s2 = vb_stack ?v ty @ [?c]"
      using push_ok [OF v1(3), of ?c] v1(5) by (auto simp: PStackPushP_def)
    obtain st where st: "PDArrayAssignP (varstacks v1) (int ty) (Some s2) = Some st" "pda_ok st"
      "\<forall>i. pda_val st i = (if i = ty then Some s2 else pda_val (varstacks v1) i)"
      using PDArrayAssign_ok [OF vb_repD(1) [OF rep1], of "int ty" "Some s2"] by (auto simp: PDArrayAssignP_def)
    have st_fun: "pda_val st = (pda_val (varstacks v1))(ty := Some s2)" using st(3) by auto
    have stack: "varstacks w = st \<Longrightarrow> vb_stack w = (vb_stack ?v)(ty := vb_stack ?v ty @ [?c])" for w
      using v1(2) s2(3) by (auto simp: vb_stack_def st_fun vb_same_def fun_eq_iff)
    let ?r = "v1\<lparr>variables := arr2, varstacks := st, max_var := max (- code) (max_var v1), var_count := var_count v1 + 1\<rparr>"
    have "var_bank_var_alloc vbs a code ty = Some (?c, vbs[a := ?r])"
      using assms(2-4) v1(1) arr(1) arr2(1) s2(1) st(1) False
      by (simp add: var_bank_var_alloc_def vb_at_def var_cell_alt)
    moreover have "vb_rep ?r"
      using rep1 arr2(2) st(2) s2(2) by (auto simp: vb_rep_def st_fun split: if_splits)
    moreover have "vb_vars ?r = (vb_vars ?v)(nat (- code) := Some ?c)" "vb_count ?r = vb_count v1"
      using vars by (auto simp: vb_vars_def vb_count_def)
    moreover have "vb_stack ?r = (vb_stack ?v)(ty := vb_stack ?v ty @ [?c])" by (rule stack) simp
    ultimately have "var_bank_var_alloc vbs a code ty = Some (?c, vbs[a := ?r])" "vb_add a code ty ?v ?r"
      using v1(2) False by (simp_all add: vb_add_def vb_same_def vb_rest_def)
    then show ?thesis by blast
  qed
qed

text \<open>The bank and the one it is paired with.\<close>

definition vb_group :: "VarBanks \<Rightarrow> nat \<Rightarrow> nat set" where
  "vb_group vbs a = insert a (set_option (shadow (vbs ! a)))"

lemma vb_add_shadow: "vb_add a code ty v v' \<Longrightarrow> shadow v' = shadow v"
  by (simp add: vb_add_def vb_rest_def)

lemma vb_same_shadow: "vb_same v v' \<Longrightarrow> shadow v' = shadow v"
  by (simp add: vb_same_def vb_rest_def)

lemma vb_add_ok:
  assumes "vb_ok a v" and "vb_add a code ty v v'" and "code < 0" and "ty \<noteq> 0" and "int a < MAX_BANKS"
    and "vb_vars v (nat (- code)) = None"
  shows "vb_ok a v'"
proof -
  let ?c = "var_cell a code ty"
  have vars: "vb_vars v' = (vb_vars v)(nat (- code) := Some ?c)" and count: "vb_count v' = vb_count v"
    and rep: "vb_rep v'" and mx: "max_var v' = max (- code) (max_var v)"
    and stack: "vb_stack v' = (if odd code then vb_stack v else (vb_stack v)(ty := vb_stack v ty @ [?c]))"
    using assms(2) by (simp_all add: vb_add_def)
  have inv: "vb_inv a v" using assms(1) by (simp add: vb_ok_def)
  have ev: "even (nat (- code)) \<longleftrightarrow> even code" using assms(3) by (simp add: even_nat_iff)
  have fresh: "?c \<notin> set (vb_stack v t)" for t
  proof
    assume "?c \<in> set (vb_stack v t)"
    then obtain i where i: "vb_vars v i = Some ?c" using inv by (auto simp: vb_inv_def)
    then have "?c = var_cell a (- int i) ty" using inv by (fastforce simp: vb_inv_def)
    then have "i = nat (- code)" using assms(5) by (simp add: var_cell_inj)
    then show False using i assms(6) by simp
  qed
  have "distinct (vb_stack v' t)" for t
    using inv fresh by (simp add: stack vb_inv_def)
  moreover have "set (vb_stack v' t) = {w. t_type w = t \<and> (\<exists>i. even i \<and> vb_vars v' i = Some w)}" for t
  proof -
    have set_t: "set (vb_stack v t) = {w. t_type w = t \<and> (\<exists>i. even i \<and> vb_vars v i = Some w)}" for t
      using inv by (simp add: vb_inv_def)
    have "(\<exists>i. even i \<and> vb_vars v' i = Some w) \<longleftrightarrow> (even code \<and> w = ?c) \<or> (\<exists>i. even i \<and> vb_vars v i = Some w)" for w
      using ev assms(6) by (auto simp: vars) (metis option.discI)+
    then show ?thesis using set_t by (auto simp: stack)
  qed
  moreover have "0 \<le> vb_count v' t \<and> vb_count v' t \<le> int (length (vb_stack v' t))" for t
    using inv by (auto simp: vb_inv_def count stack) (smt (verit))
  moreover have "0 < i \<and> int i \<le> max_var v' \<and> t_type w \<noteq> 0 \<and> w = var_cell a (- int i) (t_type w)"
    if "vb_vars v' i = Some w" for i w
    using that inv assms(3,4) by (fastforce simp: vars mx vb_inv_def split: if_splits)
  ultimately show ?thesis using rep by (simp add: vb_ok_def vb_inv_def)
qed

lemma VarBankVarAlloc_ok:
  assumes "vbs_core vbs" and "a < length vbs" and "ty \<noteq> 0" and "code < 0"
    and "vb_vars (vbs ! a) (nat (- code)) = None"
  shows "\<exists>vbs'. VarBankVarAlloc vbs a code ty = Some (var_cell a code ty, vbs') \<and> vbs_core vbs' \<and>
    length vbs' = length vbs \<and>
    (\<forall>k < length vbs. if k \<in> vb_group vbs a then vb_add k code ty (vbs ! k) (vbs' ! k) else vbs' ! k = vbs ! k)"
proof -
  note bound = vbs_core_at(2) [OF assms(1)] and ok = vbs_core_at(1) [OF assms(1)]
    and sh = vbs_core_shadow [OF assms(1)]
  obtain v1 where v1: "var_bank_var_alloc vbs a code ty = Some (var_cell a code ty, vbs[a := v1])"
    "vb_add a code ty (vbs ! a) v1"
    using var_bank_var_alloc_ok [OF vb_ok_rep [OF ok [OF assms(2)]] assms(2) bound [OF assms(2)] assms(3-5)] by blast
  note ok1 = vb_add_ok [OF ok [OF assms(2)] v1(2) assms(4,3) bound [OF assms(2)] assms(5)]
  show ?thesis
  proof (cases "shadow (vbs ! a)")
    case None
    let ?vbs = "vbs[a := v1]"
    have s1: "shadow v1 = None" using vb_add_shadow [OF v1(2)] None by simp
    have "vbs_core ?vbs"
    proof (rule vbs_coreI)
      fix k b assume k: "k < length ?vbs" and b: "shadow (?vbs ! k) = Some b"
      have k': "k \<noteq> a" "shadow (vbs ! k) = Some b"
        using b s1 assms(2) by (auto simp: nth_list_update split: if_splits)
      have "b \<noteq> a" using sh(3) [OF _ k'(2)] k None by auto
      then show "b < length ?vbs \<and> b \<noteq> k \<and> shadow (?vbs ! b) = Some k \<and>
        (\<forall>i. map_option t_type (vb_vars (?vbs ! b) i) = map_option t_type (vb_vars (?vbs ! k) i))"
        using sh [OF _ k'(2)] k k'(1) by simp
    qed (use ok1 ok vbs_core_length [OF assms(1)] assms(2) in \<open>auto simp: nth_list_update\<close>)
    then show ?thesis
      using v1 None s1 assms(2) by (auto simp: VarBankVarAlloc_def vb_at_def vb_group_def nth_list_update)
  next
    case (Some a')
    note a' = sh [OF assms(2) Some]
    have none: "vb_vars (vbs ! a') (nat (- code)) = None"
      using a'(4) assms(5) by (metis map_option_is_None)
    obtain v2 where v2: "var_bank_var_alloc (vbs[a := v1]) a' code ty = Some (var_cell a' code ty, vbs[a := v1, a' := v2])"
      "vb_add a' code ty (vbs ! a') v2"
      using var_bank_var_alloc_ok [of "vbs[a := v1]" a' ty code] vb_ok_rep [OF ok [OF a'(1)]] bound [OF a'(1)]
        assms(3,4) none a'(1,2) by auto
    note ok2 = vb_add_ok [OF ok [OF a'(1)] v2(2) assms(4,3) bound [OF a'(1)] none]
    have s12: "shadow v1 = Some a'" "shadow v2 = Some a"
      using vb_add_shadow [OF v1(2)] vb_add_shadow [OF v2(2)] Some a'(3) by simp_all
    have types: "map_option t_type (vb_vars v2 i) = map_option t_type (vb_vars v1 i)" for i
      using v1(2) v2(2) a'(4) by (simp add: vb_add_def)
    let ?vbs = "vbs[a := v1, a' := v2]"
    have "vbs_core ?vbs"
    proof (rule vbs_coreI)
      fix k b assume k: "k < length ?vbs" and b: "shadow (?vbs ! k) = Some b"
      consider "k = a'" | "k = a" "k \<noteq> a'" | "k \<noteq> a" "k \<noteq> a'" by blast
      then show "b < length ?vbs \<and> b \<noteq> k \<and> shadow (?vbs ! b) = Some k \<and>
        (\<forall>i. map_option t_type (vb_vars (?vbs ! b) i) = map_option t_type (vb_vars (?vbs ! k) i))"
      proof cases
        case 1
        then show ?thesis using b s12 types a'(1,2) assms(2) by simp
      next
        case 2
        then show ?thesis using b s12 types a'(1,2) assms(2) by simp
      next
        case 3
        have b': "shadow (vbs ! k) = Some b" using b 3 by simp
        note f = sh [OF _ b']
        have "b \<noteq> a" "b \<noteq> a'" using f(3) k 3 Some a'(3) by auto
        then show ?thesis using f k 3 by simp
      qed
    qed (use ok1 ok2 ok a'(1) vbs_core_length [OF assms(1)] assms(2) in \<open>auto simp: nth_list_update\<close>)
    moreover have "VarBankVarAlloc vbs a code ty = Some (var_cell a code ty, ?vbs)"
      using v1(1) v2(1) s12 assms(2) by (simp add: VarBankVarAlloc_def vb_at_def)
    ultimately show ?thesis
      using v1(2) v2(2) Some a'(1,2) assms(2) by (auto simp: vb_group_def nth_list_update)
  qed
qed

section \<open>Extensions of the banks\<close>

text \<open>
  What creating variables and using them up may change: the banks keep their variables, the
  stacks grow at their ends, and the external names stay.
\<close>

definition vb_ext :: "VarBank \<Rightarrow> VarBank \<Rightarrow> bool" where
  "vb_ext v v' \<longleftrightarrow> default_type v' = default_type v \<and> ext_index v' = ext_index v \<and> env v' = env v \<and>
     shadow v' = shadow v \<and> (\<forall>i w. vb_vars v i = Some w \<longrightarrow> vb_vars v' i = Some w) \<and>
     (\<forall>ty. prefix (vb_stack v ty) (vb_stack v' ty))"

definition vbs_ext :: "VarBanks \<Rightarrow> VarBanks \<Rightarrow> bool" where
  "vbs_ext vbs vbs' \<longleftrightarrow> length vbs' = length vbs \<and> (\<forall>k < length vbs. vb_ext (vbs ! k) (vbs' ! k))"

lemma vb_ext_refl [simp]: "vb_ext v v"
  by (simp add: vb_ext_def)

lemma vb_ext_trans: "vb_ext v v' \<Longrightarrow> vb_ext v' v'' \<Longrightarrow> vb_ext v v''"
  unfolding vb_ext_def by (metis prefix_order.trans)

lemma vbs_ext_refl [simp]: "vbs_ext vbs vbs"
  by (simp add: vbs_ext_def)

lemma vbs_ext_trans: "vbs_ext vbs vbs' \<Longrightarrow> vbs_ext vbs' vbs'' \<Longrightarrow> vbs_ext vbs vbs''"
  unfolding vbs_ext_def by (metis vb_ext_trans)

lemma vbs_extD:
  "vbs_ext vbs vbs' \<Longrightarrow> length vbs' = length vbs"
  "vbs_ext vbs vbs' \<Longrightarrow> k < length vbs \<Longrightarrow> vb_ext (vbs ! k) (vbs' ! k)"
  "vbs_ext vbs vbs' \<Longrightarrow> k < length vbs \<Longrightarrow> vb_vars (vbs ! k) i = Some w \<Longrightarrow> vb_vars (vbs' ! k) i = Some w"
  "vbs_ext vbs vbs' \<Longrightarrow> k < length vbs \<Longrightarrow> shadow (vbs' ! k) = shadow (vbs ! k)"
  by (auto simp: vbs_ext_def vb_ext_def)

lemma vb_ext_same: "vb_same v v' \<Longrightarrow> vb_ext v v'"
  by (simp add: vb_ext_def vb_same_def vb_rest_def)

lemma vb_ext_add: "vb_add a code ty v v' \<Longrightarrow> vb_vars v (nat (- code)) = None \<Longrightarrow> vb_ext v v'"
  by (auto simp: vb_ext_def vb_add_def vb_rest_def)

lemma vbs_core_upd:
  assumes "vbs_core vbs" and "a < length vbs" and "vb_ok a v" and "shadow v = shadow (vbs ! a)"
    and "vb_vars v = vb_vars (vbs ! a)"
  shows "vbs_core (vbs[a := v])"
proof -
  have at: "shadow (vbs[a := v] ! k) = shadow (vbs ! k)" "vb_vars (vbs[a := v] ! k) = vb_vars (vbs ! k)" for k
    using assms(2,4,5) by (auto simp: nth_list_update)
  show ?thesis
  proof (rule vbs_coreI)
    fix k b assume k: "k < length (vbs[a := v])" and b: "shadow (vbs[a := v] ! k) = Some b"
    then have "k < length vbs" "shadow (vbs ! k) = Some b" by (simp_all only: at length_list_update)
    note f = vbs_core_shadow [OF assms(1) this]
    show "b < length (vbs[a := v]) \<and> b \<noteq> k \<and> shadow (vbs[a := v] ! b) = Some k \<and>
        (\<forall>i. map_option t_type (vb_vars (vbs[a := v] ! b) i) = map_option t_type (vb_vars (vbs[a := v] ! k) i))"
      unfolding at length_list_update using f by blast
  next
    fix k assume "k < length (vbs[a := v])"
    then show "vb_ok k (vbs[a := v] ! k)"
      using assms(2,3) vbs_core_at(1) [OF assms(1), of k] by (auto simp: nth_list_update)
  qed (use vbs_core_length [OF assms(1)] in simp)
qed

lemma vbs_ok_core: "vbs_ok vbs \<Longrightarrow> vbs_core vbs"
  by (simp add: vbs_ok_def)

lemma vbs_ok_upd:
  assumes "vbs_ok vbs" and "a < length vbs" and "vb_ok a v" and "shadow v = shadow (vbs ! a)"
    and "vb_vars v = vb_vars (vbs ! a)" and "fresh_count v = fresh_count (vbs ! a)"
  shows "vbs_ok (vbs[a := v])"
proof -
  have at: "shadow (vbs[a := v] ! k) = shadow (vbs ! k)" "vb_vars (vbs[a := v] ! k) = vb_vars (vbs ! k)"
    "fresh_count (vbs[a := v] ! k) = fresh_count (vbs ! k)" for k
    using assms(2,4-6) by (auto simp: nth_list_update)
  show ?thesis
    using assms(1) vbs_core_upd [OF vbs_ok_core [OF assms(1)] assms(2-5)]
    unfolding vbs_ok_def vb_fresh_def at length_list_update by blast
qed

lemma vbs_ok_same:
  assumes "vbs_ok vbs" and "a < length vbs" and "vb_same (vbs ! a) v"
  shows "vbs_ok (vbs[a := v])" "vbs_ext vbs (vbs[a := v])"
proof -
  show "vbs_ok (vbs[a := v])"
    using vb_same_ok [OF vbs_core_at(1) [OF vbs_ok_core [OF assms(1)] assms(2)] assms(3)] assms(3)
    by (intro vbs_ok_upd [OF assms(1,2)]) (simp_all add: vb_same_def vb_rest_def)
  show "vbs_ext vbs (vbs[a := v])"
    using vb_ext_same [OF assms(3)] assms(2) by (auto simp: vbs_ext_def nth_list_update)
qed

lemma vb_variables_same:
  assumes "vb_rep v" and "pda_ok arr" and "pda_val arr = pda_val (variables v)"
  shows "vb_same v (v\<lparr>variables := arr\<rparr>)"
  using assms by (auto simp: vb_same_def vb_rep_def vb_vars_def vb_stack_def vb_count_def vb_rest_def fun_eq_iff)

lemma VarBankVarAssertAlloc_find:
  assumes "vb_rep (vbs ! a)" and "a < length vbs" and "code < 0" and "t_type w \<noteq> 0"
    and "vb_vars (vbs ! a) (nat (- code)) = Some w"
  shows "\<exists>v. VarBankVarAssertAlloc vbs a code (t_type w) = Some (w, vbs[a := v]) \<and> vb_same (vbs ! a) v"
proof -
  obtain arr where arr: "PDArrayElementP (variables (vbs ! a)) (- code) = Some (arr, Some w)" "pda_ok arr"
    "\<forall>i. pda_val arr i = pda_val (variables (vbs ! a)) i"
    using PDArrayElement_ok [OF vb_repD(3) [OF assms(1)], of "- code"] assms(3,5)
    by (auto simp: PDArrayElementP_def vb_vars_def)
  have "pda_val arr = pda_val (variables (vbs ! a))" using arr(3) by auto
  then show ?thesis
    using vb_variables_same [OF assms(1) arr(2)] arr(1) assms(2-4)
    by (auto simp: VarBankVarAssertAlloc_def vb_at_def)
qed

lemma VarBankVarAssertAlloc_new:
  assumes "vbs_core vbs" and "a < length vbs" and "ty \<noteq> 0" and "code < 0"
    and "vb_vars (vbs ! a) (nat (- code)) = None"
  shows "\<exists>vbs'. VarBankVarAssertAlloc vbs a code ty = Some (var_cell a code ty, vbs') \<and> vbs_core vbs' \<and>
    length vbs' = length vbs \<and>
    (\<forall>k < length vbs. if k \<in> vb_group vbs a then vb_add k code ty (vbs ! k) (vbs' ! k) else vbs' ! k = vbs ! k)"
proof -
  note rep = vb_ok_rep [OF vbs_core_at(1) [OF assms(1,2)]]
  obtain arr where arr: "PDArrayElementP (variables (vbs ! a)) (- code) = Some (arr, None)" "pda_ok arr"
    "\<forall>i. pda_val arr i = pda_val (variables (vbs ! a)) i"
    using PDArrayElement_ok [OF vb_repD(3) [OF rep], of "- code"] assms(4,5) by (auto simp: PDArrayElementP_def vb_vars_def)
  have "pda_val arr = pda_val (variables (vbs ! a))" using arr(3) by auto
  note same = vb_variables_same [OF rep arr(2) this]
  let ?vbs = "vbs[a := (vbs ! a)\<lparr>variables := arr\<rparr>]"
  have core: "vbs_core ?vbs"
    using vb_same_ok [OF vbs_core_at(1) [OF assms(1,2)] same] same
    by (intro vbs_core_upd [OF assms(1,2)]) (simp_all add: vb_same_def)
  have group: "vb_group ?vbs a = vb_group vbs a" using assms(2) by (simp add: vb_group_def)
  have "vb_vars (?vbs ! a) (nat (- code)) = None" using same assms(2,5) by (simp add: vb_same_def)
  then obtain vbs' where v: "VarBankVarAlloc ?vbs a code ty = Some (var_cell a code ty, vbs')" "vbs_core vbs'"
    "length vbs' = length vbs"
    "\<forall>k < length vbs. if k \<in> vb_group vbs a then vb_add k code ty (?vbs ! k) (vbs' ! k) else vbs' ! k = ?vbs ! k"
    using VarBankVarAlloc_ok [OF core, of a ty code] assms(2-4) group by auto
  have "if k \<in> vb_group vbs a then vb_add k code ty (vbs ! k) (vbs' ! k) else vbs' ! k = vbs ! k" if "k < length vbs" for k
    using v(4) [rule_format, OF that] vb_same_add [OF same] assms(2) by (cases "k = a") (auto simp: vb_group_def)
  then show ?thesis using v(1-3) arr(1) assms(2-4) by (auto simp: VarBankVarAssertAlloc_def vb_at_def)
qed

section \<open>Fresh variables\<close>

lemma fresh_count_id: "v\<lparr>fresh_count := fresh_count v\<rparr> = v"
  by (cases v) simp

lemma vb_same_fresh: "vb_same v v' \<Longrightarrow> fresh_count v' = fresh_count v"
  by (simp add: vb_same_def vb_rest_def)

lemma vb_add_fresh: "vb_add a code ty v v' \<Longrightarrow> fresh_count v' = fresh_count v"
  by (simp add: vb_add_def vb_rest_def)

lemma vbs_okI:
  assumes "vbs_core vbs" and "\<And>k. k < length vbs \<Longrightarrow> vb_fresh (vbs ! k)"
    and "\<And>k k'. k < length vbs \<Longrightarrow> shadow (vbs ! k) = Some k' \<Longrightarrow> fresh_count (vbs ! k') = fresh_count (vbs ! k)"
  shows "vbs_ok vbs"
  using assms unfolding vbs_ok_def by blast

lemma vbs_okD:
  assumes "vbs_ok vbs" and "k < length vbs"
  shows "vb_fresh (vbs ! k)" "shadow (vbs ! k) = Some k' \<Longrightarrow> fresh_count (vbs ! k') = fresh_count (vbs ! k)"
  using assms unfolding vbs_ok_def by blast+

lemma vb_fresh_add:
  assumes "vb_fresh v" and "vb_vars v' = (vb_vars v)(nat (fresh_count v + 2) := x)" and "fresh_count v' = fresh_count v + 2"
  shows "vb_fresh v'"
  using assms by (auto simp: vb_fresh_def)

text \<open>
  A bank after the new variable with code \<open>- (fresh_count + 2)\<close>: what both cases of
  \<open>fresh_var_alloc\<close> do to the bank itself and to the one it is paired with.
\<close>

definition vb_new :: "nat \<Rightarrow> nat \<Rightarrow> VarBank \<Rightarrow> VarBank \<Rightarrow> bool" where
  "vb_new a ty v v' \<longleftrightarrow> (let c = var_cell a (- (fresh_count v + 2)) ty in
     vb_ok a v' \<and> vb_vars v' = (vb_vars v)(nat (fresh_count v + 2) := Some c) \<and>
     vb_stack v' = (vb_stack v)(ty := vb_stack v ty @ [c]) \<and> vb_count v' = vb_count v \<and>
     fresh_count v' = fresh_count v + 2 \<and> default_type v' = default_type v \<and> ext_index v' = ext_index v \<and>
     env v' = env v \<and> shadow v' = shadow v)"

lemma vb_newD:
  assumes "vb_new a ty v v'"
  shows "vb_ok a v'" "vb_vars v' = (vb_vars v)(nat (fresh_count v + 2) := Some (var_cell a (- (fresh_count v + 2)) ty))"
    "vb_stack v' = (vb_stack v)(ty := vb_stack v ty @ [var_cell a (- (fresh_count v + 2)) ty])"
    "vb_count v' = vb_count v" "fresh_count v' = fresh_count v + 2" "shadow v' = shadow v"
  using assms by (simp_all add: vb_new_def Let_def)

lemma vb_new_ext: "vb_new a ty v v' \<Longrightarrow> vb_vars v (nat (fresh_count v + 2)) = None \<Longrightarrow> vb_ext v v'"
  by (auto simp: vb_new_def Let_def vb_ext_def)

lemma vb_add_new:
  assumes "vb_add a (- (fresh_count v + 2)) ty w v'" and "vb_ok a v'" and "vb_vars w = vb_vars v" "vb_stack w = vb_stack v"
    "vb_count w = vb_count v" "default_type w = default_type v" "ext_index w = ext_index v" "env w = env v"
    "shadow w = shadow v" and "even (fresh_count v)"
  shows "vb_new a ty v (v'\<lparr>fresh_count := fresh_count v + 2\<rparr>)"
proof -
  have "vb_ok a (v'\<lparr>fresh_count := k\<rparr>)" for k
    using assms(2) by (simp add: vb_ok_def vb_rep_def vb_inv_def vb_vars_def vb_stack_def vb_count_def)
  moreover have "vb_vars (v'\<lparr>fresh_count := k\<rparr>) = vb_vars v'" "vb_stack (v'\<lparr>fresh_count := k\<rparr>) = vb_stack v'"
    "vb_count (v'\<lparr>fresh_count := k\<rparr>) = vb_count v'" for k
    by (simp_all add: vb_vars_def vb_stack_def vb_count_def fun_eq_iff)
  ultimately show ?thesis
    using assms by (simp add: vb_new_def Let_def vb_add_def vb_rest_def add.commute [of _ 2])
qed

text \<open>The banks after the new variable.\<close>

definition vbs_new :: "VarBanks \<Rightarrow> nat \<Rightarrow> nat \<Rightarrow> VarBanks \<Rightarrow> bool" where
  "vbs_new vbs a ty vbs' \<longleftrightarrow> length vbs' = length vbs \<and>
     (\<forall>k < length vbs. if k \<in> vb_group vbs a then vb_new k ty (vbs ! k) (vbs' ! k) else vbs' ! k = vbs ! k)"

lemma vbs_new_ok:
  assumes "vbs_ok vbs" and "a < length vbs" and "vbs_new vbs a ty vbs'"
  shows "vbs_ok vbs'" "vbs_ext vbs vbs'" "\<And>k. k < length vbs \<Longrightarrow> vb_count (vbs' ! k) = vb_count (vbs ! k)"
    "vb_stack (vbs' ! a) ty = vb_stack (vbs ! a) ty @ [var_cell a (- (fresh_count (vbs ! a) + 2)) ty]"
proof -
  have len: "length vbs' = length vbs" using assms(3) by (simp add: vbs_new_def)
  note core = vbs_ok_core [OF assms(1)]
  have new: "vb_new k ty (vbs ! k) (vbs' ! k)" if "k < length vbs" "k \<in> vb_group vbs a" for k
    using assms(3) that by (simp add: vbs_new_def)
  have old: "vbs' ! k = vbs ! k" if "k < length vbs" "k \<notin> vb_group vbs a" for k
    using assms(3) that by (simp add: vbs_new_def)
  have sh: "shadow (vbs' ! k) = shadow (vbs ! k)" if "k < length vbs" for k
    using new [OF that] old [OF that] by (cases "k \<in> vb_group vbs a") (auto dest: vb_newD)
  have closed: "k' \<in> vb_group vbs a \<longleftrightarrow> k \<in> vb_group vbs a" if "k < length vbs" "shadow (vbs ! k) = Some k'" for k k'
    using vbs_core_shadow [OF core that] vbs_core_shadow [OF core assms(2)] that(2) by (auto simp: vb_group_def)
  have none: "vb_vars (vbs ! k) (nat (fresh_count (vbs ! k) + 2)) = None" if "k < length vbs" for k
    using vbs_okD(1) [OF assms(1) that] by (auto simp: vb_fresh_def even_nat_iff)
  show "vbs_ok vbs'"
  proof (rule vbs_okI)
    show "vbs_core vbs'"
    proof (rule vbs_coreI)
      fix k k' assume k: "k < length vbs'" "shadow (vbs' ! k) = Some k'"
      then have kk: "k < length vbs" "shadow (vbs ! k) = Some k'" using len sh by simp_all
      note f = vbs_core_shadow [OF core kk]
      have "map_option t_type (vb_vars (vbs' ! k') i) = map_option t_type (vb_vars (vbs' ! k) i)" for i
      proof (cases "k \<in> vb_group vbs a")
        case True
        then show ?thesis
          using vb_newD(2) [OF new [OF kk(1) True]] vb_newD(2) [OF new [OF f(1)]] closed [OF kk] f(4)
            vbs_okD(2) [OF assms(1) kk] by simp
      next
        case False
        then show ?thesis using old [OF kk(1) False] old [OF f(1)] closed [OF kk] f(4) by simp
      qed
      then show "k' < length vbs' \<and> k' \<noteq> k \<and> shadow (vbs' ! k') = Some k \<and>
          (\<forall>i. map_option t_type (vb_vars (vbs' ! k') i) = map_option t_type (vb_vars (vbs' ! k) i))"
        using f(1-3) sh len by simp
    next
      fix k assume "k < length vbs'"
      then show "vb_ok k (vbs' ! k)"
        using new [of k] old [of k] vbs_core_at(1) [OF core, of k] len by (cases "k \<in> vb_group vbs a") (auto dest: vb_newD(1))
    qed (use vbs_core_length [OF core] len in simp)
  next
    fix k assume "k < length vbs'"
    then show "vb_fresh (vbs' ! k)"
      using new [of k] old [of k] vbs_okD(1) [OF assms(1), of k] len
      by (cases "k \<in> vb_group vbs a") (auto dest: vb_newD(2,5) intro: vb_fresh_add)
  next
    fix k k' assume k: "k < length vbs'" "shadow (vbs' ! k) = Some k'"
    then have kk: "k < length vbs" "shadow (vbs ! k) = Some k'" using len sh by simp_all
    show "fresh_count (vbs' ! k') = fresh_count (vbs' ! k)"
      using vb_newD(5) [OF new [OF kk(1)]] vb_newD(5) [OF new [of k']] old [OF kk(1)] old [of k'] closed [OF kk]
        vbs_okD(2) [OF assms(1) kk] vbs_core_shadow(1) [OF core kk] by (cases "k \<in> vb_group vbs a") simp_all
  qed
  show "vbs_ext vbs vbs'"
    unfolding vbs_ext_def using len new old none vb_new_ext by (metis vb_ext_refl)
  show "vb_count (vbs' ! k) = vb_count (vbs ! k)" if "k < length vbs" for k
    using new [OF that] old [OF that] by (cases "k \<in> vb_group vbs a") (auto dest: vb_newD(4))
  show "vb_stack (vbs' ! a) ty = vb_stack (vbs ! a) ty @ [var_cell a (- (fresh_count (vbs ! a) + 2)) ty]"
    using vb_newD(3) [OF new [OF assms(2)]] by (simp add: vb_group_def)
qed

lemma fresh_var_alloc_ok:
  assumes "vbs_ok vbs" and "a < length vbs" and "ty \<noteq> 0" and "vb_same (vbs ! a) bank"
    and "v_count \<le> int (length (vb_stack (vbs ! a) ty))"
  shows "\<exists>vbs'. fresh_var_alloc vbs a bank ty v_count =
      Some (var_cell a (- (fresh_count (vbs ! a) + 2)) ty, vbs') \<and> vbs_new vbs a ty vbs'"
proof -
  let ?n = "fresh_count (vbs ! a) + 2" and ?bank = "bank\<lparr>fresh_count := fresh_count bank + 2\<rparr>"
  let ?c = "var_cell a (- ?n) ty" and ?vbs = "vbs[a := ?bank]"
  note core = vbs_ok_core [OF assms(1)]
  have fresh: "vb_fresh (vbs ! k)" if "k < length vbs" for k using vbs_okD(1) [OF assms(1) that] .
  have ev: "even (fresh_count (vbs ! a))" "0 \<le> fresh_count (vbs ! a)" using fresh [OF assms(2)] by (simp_all add: vb_fresh_def)
  have n: "fresh_count ?bank = ?n" using vb_same_fresh [OF assms(4)] by simp
  have same: "vb_vars ?bank = vb_vars (vbs ! a)" "vb_stack ?bank = vb_stack (vbs ! a)" "vb_count ?bank = vb_count (vbs ! a)"
    "shadow ?bank = shadow (vbs ! a)" "default_type ?bank = default_type (vbs ! a)" "env ?bank = env (vbs ! a)"
    "ext_index ?bank = ext_index (vbs ! a)"
    using assms(4) by (simp_all add: vb_same_def vb_vars_def vb_stack_def vb_count_def vb_rest_def fun_eq_iff)
  have "vb_ok a bank" using vb_same_ok [OF vbs_core_at(1) [OF core assms(2)] assms(4)] .
  then have ok: "vb_ok a ?bank"
    by (simp add: vb_ok_def vb_rep_def vb_inv_def vb_vars_def vb_stack_def vb_count_def)
  have core1: "vbs_core ?vbs" by (rule vbs_core_upd [OF core assms(2) ok same(4,1)])
  have none: "vb_vars (?vbs ! a) (nat (- (- ?n))) = None"
    using fresh [OF assms(2)] assms(2) by (auto simp: vb_fresh_def same even_nat_iff)
  have group: "vb_group ?vbs a = vb_group vbs a" using assms(2) same(4) by (simp add: vb_group_def)
  have "- ?n < 0" using ev by simp
  then obtain vbs2 where v2: "VarBankVarAssertAlloc ?vbs a (- ?n) ty = Some (?c, vbs2)" "vbs_core vbs2"
    "length vbs2 = length vbs"
    "\<forall>k < length vbs. if k \<in> vb_group vbs a then vb_add k (- ?n) ty (?vbs ! k) (vbs2 ! k) else vbs2 ! k = ?vbs ! k"
    using VarBankVarAssertAlloc_new [OF core1 _ assms(3) _ none] assms(2) group by auto
  have add: "vb_add a (- ?n) ty ?bank (vbs2 ! a)"
    using v2(4) [rule_format, OF assms(2)] assms(2) by (simp add: vb_group_def)
  have a2: "a < length vbs2" using assms(2) v2(3) by simp
  note ok2 = vbs_core_at(1) [OF v2(2) a2]
  obtain s b3 where b3: "VarBankGetStack (vbs2 ! a) ty = Some (s, b3)" "vb_same (vbs2 ! a) b3" "pstack_ok s"
    "pstack_list s = vb_stack (vbs2 ! a) ty"
    using VarBankGetStack_ok [OF vb_ok_rep [OF ok2]] by blast
  have "length (pstack_list s) = length (vb_stack (vbs ! a) ty) + 1"
    using b3(4) add same(2) ev by (simp add: vb_add_def)
  then have sp: "int (PStackGetSP s) > v_count"
    using assms(5) length_pstack_list [OF b3(3)] by (simp add: PStackGetSP_def)
  have add3: "vb_add a (- ?n) ty ?bank b3" by (rule vb_add_same [OF add b3(2)])
  have f3: "fresh_count b3 = ?n" using vb_add_fresh [OF add3] n by simp
  have sh3: "shadow b3 = shadow (vbs ! a)" using vb_add_shadow [OF add3] same(4) by simp
  have "vb_new a ty (vbs ! a) (b3\<lparr>fresh_count := ?n\<rparr>)"
    by (rule vb_add_new [OF add3 vb_same_ok [OF ok2 b3(2)] same(1-3,5,7,6,4) ev(1)])
  moreover have "b3\<lparr>fresh_count := ?n\<rparr> = b3" using fresh_count_id [of b3] f3 by simp
  ultimately have new_a: "vb_new a ty (vbs ! a) b3" by simp
  show ?thesis
  proof (cases "shadow (vbs ! a)")
    case None
    have "vbs_new vbs a ty (vbs2[a := b3])"
      using new_a v2(3,4) None assms(2) by (auto simp: vbs_new_def vb_group_def nth_list_update)
    then show ?thesis
      using v2(1) b3(1) sp sh3 None a2 n by (auto simp: fresh_var_alloc_def vb_at_def)
  next
    case (Some a')
    note a' = vbs_core_shadow [OF core assms(2) Some]
    have add': "vb_add a' (- ?n) ty (vbs ! a') (vbs2 ! a')"
      using v2(4) [rule_format, OF a'(1)] a'(2) Some by (simp add: vb_group_def)
    have f': "fresh_count (vbs ! a') = fresh_count (vbs ! a)" by (rule vbs_okD(2) [OF assms(1,2) Some])
    have "vb_ok a' (vbs2 ! a')" using vbs_core_at(1) [OF v2(2)] a'(1) v2(3) by simp
    then have new': "vb_new a' ty (vbs ! a') ((vbs2 ! a')\<lparr>fresh_count := ?n\<rparr>)"
      using vb_add_new [of a' "vbs ! a'" ty "vbs ! a'" "vbs2 ! a'"] add' f' ev(1) by simp
    let ?r = "vbs2[a := b3, a' := (vbs2 ! a')\<lparr>fresh_count := ?n\<rparr>]"
    have "vbs_new vbs a ty ?r"
      using new_a new' v2(3,4) Some assms(2) a'(1,2) by (auto simp: vbs_new_def vb_group_def nth_list_update)
    moreover have "fresh_var_alloc vbs a bank ty v_count = Some (?c, ?r)"
      using v2(1,3) b3(1) sp sh3 f3 Some a2 a'(1) n by (simp add: fresh_var_alloc_def vb_at_def)
    ultimately show ?thesis by blast
  qed
qed

text \<open>
  Fresh variables: the variable after the ones in use, of the wanted type; the count of the type goes
  up by one.
\<close>

lemma VarBankGetFreshVar_ok:
  assumes "vbs_ok vbs" and "a < length vbs" and "ty \<noteq> 0"
  shows "\<exists>w vbs'. VarBankGetFreshVar vbs a ty = Some (w, vbs') \<and> vbs_ok vbs' \<and> vbs_ext vbs vbs' \<and>
    w = var_cell a (var_code w) ty \<and> var_code w < 0 \<and> even (var_code w) \<and>
    nat (vb_count (vbs ! a) ty) < length (vb_stack (vbs' ! a) ty) \<and>
    vb_stack (vbs' ! a) ty ! nat (vb_count (vbs ! a) ty) = w \<and>
    vb_vars (vbs' ! a) (nat (- var_code w)) = Some w \<and>
    (\<forall>k < length vbs. vb_count (vbs' ! k) = (if k = a then (vb_count (vbs ! a))(ty := vb_count (vbs ! a) ty + 1) else vb_count (vbs ! k)))"
proof -
  let ?v = "vbs ! a"
  note core = vbs_ok_core [OF assms(1)]
  note ok = vbs_core_at(1) [OF core assms(2)] and bd = vbs_core_at(2) [OF core assms(2)]
  note rep = vb_ok_rep [OF ok]
  obtain arr where arr: "PDArrayElementInt (v_counts ?v) (int ty) = Some (arr, vb_count ?v ty)" "pda_ok arr"
    "\<forall>i. pda_val arr i = pda_val (v_counts ?v) i"
    using PDArrayElement_ok [OF vb_repD(2) [OF rep], of "int ty"] by (auto simp: PDArrayElementInt_def vb_count_def)
  have same0: "vb_same ?v (?v\<lparr>v_counts := arr\<rparr>)"
    using rep arr(2,3) by (auto simp: vb_same_def vb_rep_def vb_vars_def vb_stack_def vb_count_def vb_rest_def fun_eq_iff)
  then obtain s bank where bank: "VarBankGetStack (?v\<lparr>v_counts := arr\<rparr>) ty = Some (s, bank)" "vb_same ?v bank"
    "pstack_ok s" "pstack_list s = vb_stack ?v ty"
    using VarBankGetStack_ok [of "?v\<lparr>v_counts := arr\<rparr>" ty] vb_same_trans [OF same0] by (auto simp: vb_same_def)
  let ?n = "vb_count ?v ty"
  have inv: "0 \<le> ?n" "?n \<le> int (length (vb_stack ?v ty))" using ok by (simp_all add: vb_ok_def vb_inv_def)
  have "\<exists>w vbs1. (if int (PStackGetSP s) \<le> ?n then fresh_var_alloc vbs a bank ty ?n
      else do { res \<leftarrow> PStackElement s (nat ?n); Some (res, vbs[a := bank]) }) = Some (w, vbs1) \<and>
    vbs_ok vbs1 \<and> vbs_ext vbs vbs1 \<and> (\<forall>k < length vbs. vb_count (vbs1 ! k) = vb_count (vbs ! k)) \<and>
    nat ?n < length (vb_stack (vbs1 ! a) ty) \<and> vb_stack (vbs1 ! a) ty ! nat ?n = w"
  proof (cases "int (PStackGetSP s) \<le> ?n")
    case True
    then have len: "nat ?n = length (vb_stack ?v ty)"
      using inv bank(4) length_pstack_list [OF bank(3)] by (simp add: PStackGetSP_def)
    obtain vbs1 where v1: "fresh_var_alloc vbs a bank ty ?n = Some (var_cell a (- (fresh_count ?v + 2)) ty, vbs1)"
      "vbs_new vbs a ty vbs1" using fresh_var_alloc_ok [OF assms bank(2) inv(2)] by blast
    then show ?thesis
      using vbs_new_ok [OF assms(1,2) v1(2)] True len by simp
  next
    case False
    then have len: "nat ?n < length (pstack_list s)"
      using inv bank(4) length_pstack_list [OF bank(3)] by (simp add: PStackGetSP_def)
    have "vb_count (vbs[a := bank] ! k) = vb_count (vbs ! k)" for k
      using bank(2) assms(2) by (auto simp: nth_list_update vb_same_def)
    moreover have "vb_stack (vbs[a := bank] ! a) = vb_stack ?v" using bank(2) assms(2) by (simp add: vb_same_def)
    ultimately show ?thesis
      using vbs_ok_same [OF assms(1,2) bank(2)] PStackElement_ok [OF bank(3) len] False len bank(4) by simp
  qed
  then obtain w vbs1 where v1: "(if int (PStackGetSP s) \<le> ?n then fresh_var_alloc vbs a bank ty ?n
      else do { res \<leftarrow> PStackElement s (nat ?n); Some (res, vbs[a := bank]) }) = Some (w, vbs1)"
    "vbs_ok vbs1" "vbs_ext vbs vbs1" "\<forall>k < length vbs. vb_count (vbs1 ! k) = vb_count (vbs ! k)"
    "nat ?n < length (vb_stack (vbs1 ! a) ty)" "vb_stack (vbs1 ! a) ty ! nat ?n = w"
    by blast
  have a1: "a < length vbs1" using vbs_extD(1) [OF v1(3)] assms(2) by simp
  note ok1 = vbs_core_at(1) [OF vbs_ok_core [OF v1(2)] a1]
  obtain arr1 where arr1: "PDArrayAssignInt (v_counts (vbs1 ! a)) (int ty) (?n + 1) = Some arr1" "pda_ok arr1"
    "\<forall>i. pda_val arr1 i = (if i = ty then ?n + 1 else pda_val (v_counts (vbs1 ! a)) i)"
    using PDArrayAssign_ok [OF vb_repD(2) [OF vb_ok_rep [OF ok1]], of "int ty" "?n + 1"] by (auto simp: PDArrayAssignInt_def)
  let ?b = "(vbs1 ! a)\<lparr>v_counts := arr1\<rparr>"
  have b: "vb_vars ?b = vb_vars (vbs1 ! a)" "vb_stack ?b = vb_stack (vbs1 ! a)"
    "vb_count ?b = (vb_count ?v)(ty := ?n + 1)"
    using arr1(3) v1(4) assms(2) by (auto simp: vb_vars_def vb_stack_def vb_count_def fun_eq_iff)
  have okb: "vb_ok a ?b"
  proof -
    have "vb_rep ?b" using vb_ok_rep [OF ok1] arr1(2) by (auto simp: vb_rep_def)
    moreover have "vb_inv a ?b"
    proof -
      have i1: "vb_inv a (vbs1 ! a)" using ok1 by (simp add: vb_ok_def)
      have "0 \<le> vb_count ?b t \<and> vb_count ?b t \<le> int (length (vb_stack ?b t))" for t
        using i1 v1(4,5) assms(2) inv(1) unfolding b by (auto simp: vb_inv_def)
      then show ?thesis using i1 unfolding vb_inv_def b by simp
    qed
    ultimately show ?thesis by (simp add: vb_ok_def)
  qed
  let ?vbs = "vbs1[a := ?b]"
  have "vbs_ok ?vbs" by (rule vbs_ok_upd [OF v1(2) a1 okb]) (simp_all add: b)
  moreover have "vbs_ext vbs1 ?vbs"
    using a1 b by (auto simp: vbs_ext_def vb_ext_def nth_list_update)
  moreover have "VarBankGetFreshVar vbs a ty = Some (w, ?vbs)"
    using arr(1) bank(1) v1(1) arr1(1) assms(2) a1 by (simp add: VarBankGetFreshVar_def vb_at_def)
  moreover have "w \<in> set (vb_stack (vbs1 ! a) ty)" using v1(5,6) nth_mem by blast
  then obtain i where i: "even i" "vb_vars (vbs1 ! a) i = Some w" "t_type w = ty"
    using ok1 by (auto simp: vb_ok_def vb_inv_def)
  then have "w = var_cell a (- int i) ty" "0 < i" using ok1 by (auto simp: vb_ok_def vb_inv_def)
  then have "w = var_cell a (var_code w) ty \<and> var_code w < 0 \<and> even (var_code w) \<and> vb_vars (vbs1 ! a) (nat (- var_code w)) = Some w"
    using i bd by auto
  moreover have "\<forall>k < length vbs. vb_count (?vbs ! k) =
      (if k = a then (vb_count (vbs ! a))(ty := vb_count (vbs ! a) ty + 1) else vb_count (vbs ! k))"
    using v1(4) b(3) a1 by (simp add: nth_list_update)
  ultimately show ?thesis
    using vbs_ext_trans [OF v1(3)] v1(5,6) a1 b(1,2) by (intro exI [of _ w] exI [of _ ?vbs]) simp
qed

lemma VarBankGetFreshVar_obtain:
  assumes "vbs_ok vbs" and "a < length vbs" and "ty \<noteq> 0"
  obtains w vbs' where "VarBankGetFreshVar vbs a ty = Some (w, vbs')" "vbs_ok vbs'" "vbs_ext vbs vbs'"
    "w = var_cell a (var_code w) ty" "var_code w < 0" "vb_vars (vbs' ! a) (nat (- var_code w)) = Some w"
  using VarBankGetFreshVar_ok [OF assms] by blast

section \<open>Allocation, counts and copies\<close>

lemma VarBankAlloc_ok:
  assumes "vbs_ok vbs" and "int (length vbs) < MAX_BANKS"
  shows "\<exists>v. VarBankAlloc vbs ty = Some (length vbs, vbs @ [v]) \<and> vbs_ok (vbs @ [v]) \<and> vb_vars v = (\<lambda>_. None) \<and>
    vb_stack v = (\<lambda>_. []) \<and> vb_count v = (\<lambda>_. 0) \<and> shadow v = None \<and> var_count v = 0 \<and> default_type v = ty \<and>
    ext_index v = Leaf \<and> env v = PStackAlloc"
proof -
  obtain s :: "Term_p pstack option PDArray" where s: "PDArrayAlloc INITIAL_SORT_STACK_SIZE 5 = Some s" "pda_ok s"
    "\<forall>i. pda_val s i = 0"
    using pda_alloc_ok [of INITIAL_SORT_STACK_SIZE 5 False] by (auto simp: PDArrayAlloc_def INITIAL_SORT_STACK_SIZE_def)
  obtain c where c: "PDIntArrayAlloc INITIAL_SORT_STACK_SIZE 5 = Some c" "pda_ok c" "\<forall>i. pda_val c i = 0"
    using pda_alloc_ok [of INITIAL_SORT_STACK_SIZE 5 True] by (auto simp: PDIntArrayAlloc_def INITIAL_SORT_STACK_SIZE_def)
  obtain v :: "Term_p option PDArray" where v: "PDArrayAlloc DEFAULT_VARBANK_SIZE (int GROW_EXPONENTIAL) = Some v" "pda_ok v"
    "\<forall>i. pda_val v i = 0"
    using pda_alloc_ok [of DEFAULT_VARBANK_SIZE "int GROW_EXPONENTIAL" False]
    by (auto simp: PDArrayAlloc_def DEFAULT_VARBANK_SIZE_def)
  let ?b = "\<lparr>var_count = 0, fresh_count = 0, default_type = ty, max_var = 0, varstacks = s, v_counts = c, variables = v,
    ext_index = Leaf, env = PStackAlloc, shadow = None\<rparr>"
  have b: "vb_vars ?b = (\<lambda>_. None)" "vb_stack ?b = (\<lambda>_. [])" "vb_count ?b = (\<lambda>_. 0)"
    using s(3) c(3) v(3) by (auto simp: vb_vars_def vb_stack_def vb_count_def zero_option_def)
  have ok: "vb_ok (length vbs) ?b"
    using s c v b by (auto simp: vb_ok_def vb_inv_def vb_rep_def zero_option_def)
  note core = vbs_ok_core [OF assms(1)]
  have sh: "shadow ((vbs @ [?b]) ! k) = (if k < length vbs then shadow (vbs ! k) else None)" if "k < length (vbs @ [?b])" for k
    using that by (auto simp: nth_append)
  have "vbs_ok (vbs @ [?b])"
  proof (rule vbs_okI)
    show "vbs_core (vbs @ [?b])"
    proof (rule vbs_coreI)
      fix k k' assume k: "k < length (vbs @ [?b])" "shadow ((vbs @ [?b]) ! k) = Some k'"
      then have kk: "k < length vbs" "shadow (vbs ! k) = Some k'" using sh [OF k(1)] by (simp_all split: if_splits)
      note f = vbs_core_shadow [OF core kk]
      show "k' < length (vbs @ [?b]) \<and> k' \<noteq> k \<and> shadow ((vbs @ [?b]) ! k') = Some k \<and>
        (\<forall>i. map_option t_type (vb_vars ((vbs @ [?b]) ! k') i) = map_option t_type (vb_vars ((vbs @ [?b]) ! k) i))"
        using f kk(1) by (simp add: nth_append)
    next
      fix k assume "k < length (vbs @ [?b])"
      then show "vb_ok k ((vbs @ [?b]) ! k)"
        using vbs_core_at(1) [OF core, of k] ok by (cases "k < length vbs") (auto simp: nth_append less_Suc_eq)
    qed (use assms(2) in simp)
  next
    fix k assume "k < length (vbs @ [?b])"
    then show "vb_fresh ((vbs @ [?b]) ! k)"
      using vbs_okD(1) [OF assms(1), of k] b(1) by (auto simp: nth_append vb_fresh_def less_Suc_eq)
  next
    fix k k' assume k: "k < length (vbs @ [?b])" "shadow ((vbs @ [?b]) ! k) = Some k'"
    then have kk: "k < length vbs" "shadow (vbs ! k) = Some k'" using sh [OF k(1)] by (simp_all split: if_splits)
    show "fresh_count ((vbs @ [?b]) ! k') = fresh_count ((vbs @ [?b]) ! k)"
      using vbs_okD(2) [OF assms(1) kk] vbs_core_shadow(1) [OF core kk] kk(1) by (simp add: nth_append)
  qed
  then show ?thesis using s(1) c(1) v(1) b by (simp add: VarBankAlloc_def)
qed

lemma vbs_ok_Nil [simp]: "vbs_ok []"
  by (simp add: vbs_ok_def vbs_core_def MAX_BANKS_def)

lemma VarBankResetVCounts_ok:
  assumes "vb_ok a v"
  shows "\<exists>v'. VarBankResetVCounts v = Some v' \<and> vb_ok a v' \<and> vb_count v' = (\<lambda>_. 0) \<and> vb_vars v' = vb_vars v \<and>
    vb_stack v' = vb_stack v \<and> vb_rest v' = vb_rest v"
proof -
  let ?c = "v_counts v"
  have "\<exists>c. foldM (\<lambda>counts i. PDArrayAssignInt counts (int i) 0) ?c [0..<pda_size ?c] = Some c \<and>
    (pda_ok c \<and> (\<forall>i. pda_val c i = (if i \<in> set [0..<pda_size ?c] then 0 else pda_val ?c i)))"
  proof (rule foldM_invariant [where P = "\<lambda>c xs. pda_ok c \<and> (\<forall>i. pda_val c i = (if i \<in> set xs then 0 else pda_val ?c i))"])
    fix c ys i assume "pda_ok c \<and> (\<forall>j. pda_val c j = (if j \<in> set ys then 0 else pda_val ?c j))"
    then show "\<exists>c'. PDArrayAssignInt c (int i) 0 = Some c' \<and>
      (pda_ok c' \<and> (\<forall>j. pda_val c' j = (if j \<in> set (ys @ [i]) then 0 else pda_val ?c j)))"
      using PDArrayAssign_ok [of c "int i" 0] by (auto simp: PDArrayAssignInt_def)
  qed (use vb_repD(2) [OF vb_ok_rep [OF assms]] in simp)
  then obtain c where c: "foldM (\<lambda>counts i. PDArrayAssignInt counts (int i) 0) ?c [0..<pda_size ?c] = Some c" "pda_ok c"
    "\<forall>i. pda_val c i = (if i < pda_size ?c then 0 else pda_val ?c i)" by auto
  have "pda_val c i = 0" for i using c(3) by (simp add: pda_val_def)
  then have "vb_count (v\<lparr>v_counts := c\<rparr>) = (\<lambda>_. 0)" by (simp add: vb_count_def fun_eq_iff)
  moreover have "vb_vars (v\<lparr>v_counts := c\<rparr>) = vb_vars v" "vb_stack (v\<lparr>v_counts := c\<rparr>) = vb_stack v"
    by (simp_all add: vb_vars_def vb_stack_def fun_eq_iff)
  ultimately show ?thesis
    using c(1,2) assms by (auto simp: VarBankResetVCounts_def vb_ok_def vb_rep_def vb_inv_def vb_rest_def)
qed

section \<open>Properties\<close>

text \<open>The variables of a bank that were handed out since the counts were reset.\<close>

definition in_use :: "VarBank \<Rightarrow> Term_p set" where
  "in_use v = (\<Union>ty. set (take (nat (vb_count v ty)) (vb_stack v ty)))"

lemma take_used:
  assumes "vb_ok a v" and "vb_ext v v'"
  shows "take (nat (vb_count v ty)) (vb_stack v' ty) = take (nat (vb_count v ty)) (vb_stack v ty)"
proof -
  have "vb_count v ty \<le> int (length (vb_stack v ty))" using assms(1) by (simp add: vb_ok_def vb_inv_def)
  then have "nat (vb_count v ty) \<le> length (vb_stack v ty)" by simp
  moreover have "prefix (vb_stack v ty) (vb_stack v' ty)" using assms(2) by (simp add: vb_ext_def)
  then obtain zs where "vb_stack v' ty = vb_stack v ty @ zs" by (auto simp: prefix_def)
  ultimately show ?thesis by simp
qed

lemma in_use_other:
  assumes "vb_ok a v" and "vb_ext v v'" and "vb_count v' = vb_count v"
  shows "in_use v' = in_use v"
  by (simp add: in_use_def assms(3) take_used [OF assms(1,2)])

lemma in_use_step:
  assumes "vb_ok a v" and "vb_ok a v'" and "vb_ext v v'" and "vb_count v' = (vb_count v)(ty := vb_count v ty + 1)"
    and "nat (vb_count v ty) < length (vb_stack v' ty)" and "vb_stack v' ty ! nat (vb_count v ty) = w"
  shows "in_use v' = insert w (in_use v)" "w \<notin> in_use v"
proof -
  have le: "0 \<le> vb_count v t \<and> vb_count v t \<le> int (length (vb_stack v t))" for t
    using assms(1) by (simp add: vb_ok_def vb_inv_def)
  have pre: "take (nat (vb_count v t)) (vb_stack v' t) = take (nat (vb_count v t)) (vb_stack v t)" for t
    by (rule take_used [OF assms(1,3)])
  have tk: "take (nat (vb_count v' t)) (vb_stack v' t) =
      (if t = ty then take (nat (vb_count v ty)) (vb_stack v ty) @ [w] else take (nat (vb_count v t)) (vb_stack v t))" for t
    using assms(4-6) le [of ty] pre [of t] by (auto simp: nat_add_distrib take_Suc_conv_app_nth)
  show "in_use v' = insert w (in_use v)" by (auto simp: in_use_def tk split: if_splits)
  show "w \<notin> in_use v"
  proof
    assume "w \<in> in_use v"
    then obtain t where t: "w \<in> set (take (nat (vb_count v t)) (vb_stack v' t))" by (auto simp: in_use_def pre)
    have stack: "t_type u = t'" if "u \<in> set (vb_stack v' t')" for u t'
      using assms(2) that by (simp add: vb_ok_def vb_inv_def)
    have "w \<in> set (vb_stack v' ty)" using assms(5,6) nth_mem by blast
    then have "t = ty" using stack t in_set_takeD by metis
    then obtain i where "i < nat (vb_count v ty)" "vb_stack v' ty ! i = w" "i < length (vb_stack v' ty)"
      using t by (auto simp: in_set_conv_nth)
    moreover have "distinct (vb_stack v' ty)" using assms(2) by (simp add: vb_ok_def vb_inv_def)
    ultimately show False using assms(5,6) by (metis less_irrefl nth_eq_iff_index_eq)
  qed
qed

lemma VarBankGetFreshVar_in_use:
  assumes "vbs_ok vbs" and "a < length vbs" and "ty \<noteq> 0"
  shows "\<exists>w vbs'. VarBankGetFreshVar vbs a ty = Some (w, vbs') \<and> vbs_ok vbs' \<and> vbs_ext vbs vbs' \<and> wf_term sg w \<and>
    TermIsFreeVar w \<and> t_type w = ty \<and> var_bank w = a \<and> w \<notin> in_use (vbs ! a) \<and>
    in_use (vbs' ! a) = insert w (in_use (vbs ! a)) \<and>
    (\<forall>k < length vbs. k \<noteq> a \<longrightarrow> in_use (vbs' ! k) = in_use (vbs ! k))"
proof -
  obtain w vbs' where v: "VarBankGetFreshVar vbs a ty = Some (w, vbs')" "vbs_ok vbs'" "vbs_ext vbs vbs'"
    "w = var_cell a (var_code w) ty" "var_code w < 0" "nat (vb_count (vbs ! a) ty) < length (vb_stack (vbs' ! a) ty)"
    "vb_stack (vbs' ! a) ty ! nat (vb_count (vbs ! a) ty) = w"
    "\<forall>k < length vbs. vb_count (vbs' ! k) = (if k = a then (vb_count (vbs ! a))(ty := vb_count (vbs ! a) ty + 1) else vb_count (vbs ! k))"
    using VarBankGetFreshVar_ok [OF assms] by blast
  note core = vbs_ok_core [OF assms(1)]
  note bd = vbs_core_at(2) [OF core assms(2)]
  have ok': "vb_ok a (vbs' ! a)" using vbs_core_at(1) [OF vbs_ok_core [OF v(2)]] vbs_extD(1) [OF v(3)] assms(2) by simp
  have "vb_count (vbs' ! a) = (vb_count (vbs ! a))(ty := vb_count (vbs ! a) ty + 1)" using v(8) assms(2) by simp
  note step = in_use_step [OF vbs_core_at(1) [OF core assms(2)] ok' vbs_extD(2) [OF v(3) assms(2)] this v(6,7)]
  have "in_use (vbs' ! k) = in_use (vbs ! k)" if "k < length vbs" "k \<noteq> a" for k
    using in_use_other [OF vbs_core_at(1) [OF core that(1)] vbs_extD(2) [OF v(3) that(1)]] v(8) that by simp
  moreover have "wf_term sg w" "TermIsFreeVar w" "t_type w = ty" "var_bank w = a"
    using v(4,5) bd assms(3) by (metis var_cell_wf, metis var_cell_free, metis var_cell_simps(1), metis var_cell_simps(4))
  ultimately show ?thesis using v(1-3) step by blast
qed

text \<open>
  C29 A fresh variable is a cell of the bank, has the type asked for, and was not handed out since the
  counts of the bank were reset; the variables in use of every other bank stay the same, also of the
  bank this one is paired with, and the invariants of all banks are kept.
\<close>

theorem VarBankGetFreshVar_typed:
  assumes "vbs_ok vbs" and "a < length vbs" and "ty \<noteq> 0"
  shows "\<exists>w vbs'. VarBankGetFreshVar vbs a ty = Some (w, vbs') \<and> vbs_ok vbs' \<and> wf_term sg w \<and> TermIsFreeVar w \<and>
    t_type w = ty \<and> var_bank w = a \<and> w \<notin> in_use (vbs ! a) \<and> in_use (vbs' ! a) = insert w (in_use (vbs ! a)) \<and>
    (\<forall>k < length vbs. k \<noteq> a \<longrightarrow> in_use (vbs' ! k) = in_use (vbs ! k))"
  using VarBankGetFreshVar_in_use [OF assms] by blast

theorem VarBankGetFreshVar_typed_witness:
  "\<exists>vbs w vbs'. VarBankAlloc [] 3 = Some (0, vbs) \<and> VarBankGetFreshVar vbs 0 5 = Some (w, vbs') \<and> t_type w = 5"
proof -
  obtain v where v: "VarBankAlloc [] 3 = Some (0, [v])" "vbs_ok [v]"
    using VarBankAlloc_ok [of "[]" 3] by (auto simp: MAX_BANKS_def)
  show ?thesis using VarBankGetFreshVar_typed [OF v(2), of 0 5 sample_sig] v(1) by auto
qed

end
