(* ===== verification/VarScopes.thy ===== *)
theory VarScopes
  imports VarBanks
begin

text \<open>
  The external names of variables (\<open>TERMS/cte_termvars.c\<close>): the index from names to variables, in which
  a name declared again with another type hides the older variable until \<open>VarBankPopEnv\<close> brings it
  back, and the pairing of two banks.
\<close>

section \<open>External names\<close>

definition var_entry :: "string \<Rightarrow> Term_p \<Rightarrow> Term_p StrTreeCell" where
  "var_entry name var = \<lparr>str_key = name, str_val1 = p_val var, str_val2 = i_val (var_code var)\<rparr>"

text \<open>Writing the values of the cell of a key, to which the code holds a pointer.\<close>

definition entry_write :: "Term_p strtree \<Rightarrow> string \<Rightarrow> Term_p \<Rightarrow> Term_p strtree" where
  "entry_write t key var = map_tree (\<lambda>c. if str_key c = key then var_entry key var else c) t"

definition VarBankExtNameFind :: "VarBank \<Rightarrow> string \<Rightarrow> (Term_p option \<times> VarBank) option" where
  "VarBankExtNameFind bank name =
     (let (entry, t) = StrTreeFind (ext_index bank) name;
          bank = bank\<lparr>ext_index := t\<rparr> in
      case entry of
        None \<Rightarrow> Some (None, bank)
      | Some e \<Rightarrow> (case str_val1 e of p_val v \<Rightarrow> Some (Some v, bank) | i_val _ \<Rightarrow> None))"

definition VarBankExtNameAssertAlloc :: "VarBanks \<Rightarrow> nat \<Rightarrow> string \<Rightarrow> (Term_p \<times> VarBanks) option" where
  "VarBankExtNameAssertAlloc vbs a name =
     do { bank \<leftarrow> vb_at vbs a;
          (var, bank) \<leftarrow> VarBankExtNameFind bank name;
          let vbs = vbs[a := bank];
          case var of
            Some v \<Rightarrow> Some (v, vbs)
          | None \<Rightarrow>
              do { (v, vbs) \<leftarrow> VarBankGetFreshVar vbs a (default_type bank);
                   bank \<leftarrow> vb_at vbs a;
                   let (old, t) = StrTreeInsert (ext_index bank) (var_entry name v);
                   c_assert (old = None);
                   Some (v, vbs[a := bank\<lparr>ext_index := t\<rparr>]) } }"

definition VarBankExtNameAssertAllocSort ::
  "VarBanks \<Rightarrow> nat \<Rightarrow> string \<Rightarrow> nat \<Rightarrow> (Term_p \<times> VarBanks) option" where
  "VarBankExtNameAssertAllocSort vbs a name ty =
     do { bank \<leftarrow> vb_at vbs a;
          (var, bank) \<leftarrow> VarBankExtNameFind bank name;
          let vbs = vbs[a := bank];
          case var of
            None \<Rightarrow>
              do { (v, vbs) \<leftarrow> VarBankGetFreshVar vbs a ty;
                   bank \<leftarrow> vb_at vbs a;
                   let (old, t) = StrTreeInsert (ext_index bank) (var_entry name v);
                   c_assert (old = None);
                   Some (v, vbs[a := bank\<lparr>ext_index := t\<rparr>]) }
          | Some v \<Rightarrow>
              if t_type v \<noteq> ty
              then do { stack \<leftarrow> PStackPushP (env bank) (Some \<lparr>nv_var = v, nv_name = name\<rparr>);
                        (v, vbs) \<leftarrow> VarBankGetFreshVar (vbs[a := bank\<lparr>env := stack\<rparr>]) a ty;
                        bank \<leftarrow> vb_at vbs a;
                        Some (v, vbs[a := bank\<lparr>ext_index := entry_write (ext_index bank) name v\<rparr>]) }
              else Some (v, vbs) }"

definition VarBankPushEnv :: "VarBank \<Rightarrow> VarBank option" where
  "VarBankPushEnv bank = do { stack \<leftarrow> PStackPushP (env bank) None; Some (bank\<lparr>env := stack\<rparr>) }"

partial_function (option) VarBankPopEnv :: "VarBank \<Rightarrow> VarBank option" where [code]:
  "VarBankPopEnv bank =
     (if PStackEmpty (env bank) then Some bank
      else do { (named, stack) \<leftarrow> PStackPop (env bank);
                let bank = bank\<lparr>env := stack\<rparr>;
                case named of
                  None \<Rightarrow> Some bank
                | Some nv \<Rightarrow>
                    do { let (old, t) = StrTreeInsert (ext_index bank) (var_entry (nv_name nv) (nv_var nv));
                         let t = (if old \<noteq> None then entry_write t (nv_name nv) (nv_var nv) else t);
                         VarBankPopEnv (bank\<lparr>ext_index := t\<rparr>) } })"

partial_function (option) clear_env_stack :: "VarBank \<Rightarrow> VarBank option" where [code]:
  "clear_env_stack bank =
     (if PStackEmpty (env bank) then Some bank
      else do { (named, stack) \<leftarrow> PStackPop (env bank); clear_env_stack (bank\<lparr>env := stack\<rparr>) })"

definition VarBankClearExtNamesNoReset :: "VarBank \<Rightarrow> VarBank option" where
  "VarBankClearExtNamesNoReset bank = clear_env_stack (bank\<lparr>ext_index := Leaf\<rparr>)"

definition VarBankClearExtNames :: "VarBank \<Rightarrow> VarBank option" where
  "VarBankClearExtNames bank =
     do { bank \<leftarrow> VarBankClearExtNamesNoReset bank;
          bank \<leftarrow> VarBankResetVCounts bank;
          clear_env_stack bank }"

section \<open>The index as a map\<close>

definition names_ok :: "VarBank \<Rightarrow> bool" where
  "names_ok bank \<longleftrightarrow> str_ok (ext_index bank) \<and> pstack_ok (env bank) \<and>
     (\<forall>n c. str_map (ext_index bank) n = Some c \<longrightarrow> (\<exists>v. c = var_entry n v))"

definition ext_var :: "VarBank \<Rightarrow> string \<Rightarrow> Term_p option" where
  "ext_var bank n = (case str_map (ext_index bank) n of None \<Rightarrow> None
     | Some c \<Rightarrow> (case str_val1 c of p_val v \<Rightarrow> Some v | i_val _ \<Rightarrow> None))"

lemma var_entry_simps [simp]: "str_key (var_entry n v) = n" "str_val1 (var_entry n v) = p_val v"
  "var_entry n v = var_entry n' v' \<longleftrightarrow> n = n' \<and> v = v'"
  by (auto simp: var_entry_def)

lemma entry_write_ok:
  assumes "str_ok t" and "str_map t k \<noteq> None"
  shows "str_ok (entry_write t k v)" "str_map (entry_write t k v) = (str_map t)(k \<mapsto> var_entry k v)"
proof -
  let ?f = "\<lambda>c. if str_key c = k then var_entry k v else c"
  have key: "str_key (?f c) = str_key c" for c by simp
  have io: "inorder (entry_write t k v) = map ?f (inorder t)"
    by (simp add: entry_write_def inorder_map)
  show "str_ok (entry_write t k v)"
    using assms(1) unfolding str_ok_def tree_ok_def io sorted_wrt_map key by simp
  have "map_of (map (\<lambda>c. (str_key c, c)) (map ?f cs)) n =
      (if n = k \<and> map_of (map (\<lambda>c. (str_key c, c)) cs) k \<noteq> None then Some (var_entry k v)
       else map_of (map (\<lambda>c. (str_key c, c)) cs) n)" for cs n
    by (induction cs) auto
  then show "str_map (entry_write t k v) = (str_map t)(k \<mapsto> var_entry k v)"
    using assms(2) unfolding str_map_def tree_map_def io by (intro ext) simp
qed

lemma StrTreeInsert_map:
  assumes "str_ok t"
  shows "\<exists>t'. StrTreeInsert t c = (str_map t (str_key c), t') \<and> str_ok t' \<and>
    str_map t' = (if str_map t (str_key c) = None then (str_map t)(str_key c \<mapsto> c) else str_map t)"
  using str_keys.tree_insert_ok [of str_key t c] assms by (auto simp: str_ok_def str_map_def StrTreeInsert_def)

lemma VarBankExtNameFind_ok:
  assumes "names_ok bank"
  shows "\<exists>t. VarBankExtNameFind bank name = Some (ext_var bank name, bank\<lparr>ext_index := t\<rparr>) \<and>
    str_ok t \<and> str_map t = str_map (ext_index bank)"
proof -
  obtain t where t: "StrTreeFind (ext_index bank) name = (str_map (ext_index bank) name, t)" "str_ok t"
    "str_map t = str_map (ext_index bank)" using StrTreeFind_map [of "ext_index bank" name] assms by (auto simp: names_ok_def)
  have e: "str_val1 c = p_val v" if "str_map (ext_index bank) name = Some c" "c = var_entry name v" for c v
    using that by simp
  show ?thesis
  proof (cases "str_map (ext_index bank) name")
    case None
    then show ?thesis using t by (intro exI [of _ t]) (simp add: VarBankExtNameFind_def ext_var_def)
  next
    case (Some c)
    then obtain v where "c = var_entry name v" using assms by (auto simp: names_ok_def)
    then show ?thesis using t Some by (intro exI [of _ t]) (simp add: VarBankExtNameFind_def ext_var_def)
  qed
qed

text \<open>Only the index and the stack of hidden names change.\<close>

definition names_only :: "VarBank \<Rightarrow> VarBank \<Rightarrow> bool" where
  "names_only v v' \<longleftrightarrow> (\<exists>t s. v' = v\<lparr>ext_index := t, env := s\<rparr>)"

lemma names_only_ok:
  assumes "vbs_ok vbs" and "a < length vbs" and "names_only (vbs ! a) v"
  shows "vbs_ok (vbs[a := v])"
proof -
  obtain t s where v: "v = (vbs ! a)\<lparr>ext_index := t, env := s\<rparr>" using assms(3) by (auto simp: names_only_def)
  have "vb_ok a v"
    using vbs_core_at(1) [OF vbs_ok_core [OF assms(1)] assms(2)] unfolding v
    by (simp add: vb_ok_def vb_rep_def vb_inv_def vb_vars_def vb_stack_def vb_count_def)
  then show ?thesis
    by (intro vbs_ok_upd [OF assms(1,2)]) (simp_all add: v vb_vars_def fun_eq_iff)
qed

text \<open>What popping the hidden variables above the last marker makes of the names.\<close>

primrec unhide :: "VarBankNamedCell list \<Rightarrow> (string \<Rightarrow> Term_p option) \<Rightarrow> string \<Rightarrow> Term_p option" where
  "unhide [] m = m"
| "unhide (nv # nvs) m = (unhide nvs m)(nv_name nv \<mapsto> nv_var nv)"

lemma unhide_snoc: "unhide (nvs @ [nv]) m = unhide nvs (m(nv_name nv \<mapsto> nv_var nv))"
  by (induction nvs) auto

lemma unhide_other: "m n = m' n \<Longrightarrow> unhide nvs m n = unhide nvs m' n"
  by (induction nvs) auto

text \<open>The state inside a scope: \<open>m0\<close> are the names at its begin and \<open>below\<close> the stack under its marker.\<close>

definition in_scope :: "(string \<Rightarrow> Term_p option) \<Rightarrow> VarBankNamedCell option list \<Rightarrow> VarBank \<Rightarrow> bool" where
  "in_scope m0 below bank \<longleftrightarrow> names_ok bank \<and>
     (\<exists>nvs. pstack_list (env bank) = below @ [None] @ map Some nvs \<and> m0 \<subseteq>\<^sub>m unhide nvs (ext_var bank) \<and>
        dom m0 \<subseteq> dom (ext_var bank))"

lemma VarBankPushEnv_ok:
  assumes "names_ok bank"
  shows "\<exists>s. VarBankPushEnv bank = Some (bank\<lparr>env := s\<rparr>) \<and>
    in_scope (ext_var bank) (pstack_list (env bank)) (bank\<lparr>env := s\<rparr>)"
proof -
  obtain s where s: "PStackPushP (env bank) None = Some s" "pstack_ok s" "pstack_list s = pstack_list (env bank) @ [None]"
    using push_ok [of "env bank" None] assms by (auto simp: names_ok_def PStackPushP_def)
  have "ext_var (bank\<lparr>env := s\<rparr>) = ext_var bank" by (simp add: ext_var_def fun_eq_iff)
  then show ?thesis
    using s assms by (auto simp: VarBankPushEnv_def in_scope_def names_ok_def intro!: exI [of _ "[]"])
qed

lemma VarBankPopEnv_ok:
  assumes "names_ok bank" and "pstack_list (env bank) = below @ [None] @ map Some nvs"
  shows "\<exists>bank'. VarBankPopEnv bank = Some bank' \<and> names_ok bank' \<and> names_only bank bank' \<and>
    pstack_list (env bank') = below \<and> ext_var bank' = unhide nvs (ext_var bank)"
  using assms
proof (induction nvs arbitrary: bank rule: rev_induct)
  case Nil
  then obtain s where s: "PStackPop (env bank) = Some (None, s)" "pstack_ok s" "pstack_list s = below"
    using PStackPop_ok [of "env bank" below None] by (auto simp: names_ok_def)
  have ne: "\<not> PStackEmpty (env bank)" using Nil PStackEmpty_iff [of "env bank"] by (auto simp: names_ok_def)
  have "names_only bank (bank\<lparr>env := s\<rparr>)" unfolding names_only_def by (intro exI [of _ "ext_index bank"] exI [of _ s]) simp
  then show ?case
    using s ne Nil(1) by (subst VarBankPopEnv.simps) (auto simp: names_ok_def ext_var_def fun_eq_iff)
next
  case (snoc nv nvs)
  have "pstack_list (env bank) = (below @ [None] @ map Some nvs) @ [Some nv]" using snoc.prems(2) by simp
  then obtain s where s: "PStackPop (env bank) = Some (Some nv, s)" "pstack_ok s"
    "pstack_list s = below @ [None] @ map Some nvs"
    using PStackPop_ok [of "env bank" _ "Some nv"] snoc.prems(1) by (metis names_ok_def)
  have ne: "\<not> PStackEmpty (env bank)" using snoc.prems PStackEmpty_iff [of "env bank"] by (auto simp: names_ok_def)
  let ?e = "var_entry (nv_name nv) (nv_var nv)"
  have ok: "str_ok (ext_index bank)" using snoc.prems(1) by (simp add: names_ok_def)
  obtain t where t: "StrTreeInsert (ext_index bank) ?e = (str_map (ext_index bank) (nv_name nv), t)" "str_ok t"
    "str_map t = (if str_map (ext_index bank) (nv_name nv) = None then (str_map (ext_index bank))(nv_name nv \<mapsto> ?e)
       else str_map (ext_index bank))" using StrTreeInsert_map [OF ok, of ?e] by auto
  let ?t = "if str_map (ext_index bank) (nv_name nv) \<noteq> None then entry_write t (nv_name nv) (nv_var nv) else t"
  have t': "str_ok ?t" "str_map ?t = (str_map (ext_index bank))(nv_name nv \<mapsto> ?e)"
    using t(2,3) entry_write_ok [OF t(2), of "nv_name nv" "nv_var nv"] by auto
  let ?b = "bank\<lparr>env := s, ext_index := ?t\<rparr>"
  have names: "names_ok ?b" using snoc.prems(1) s(2) t' by (auto simp: names_ok_def)
  have ext: "ext_var ?b = (ext_var bank)(nv_name nv \<mapsto> nv_var nv)" using t'(2) by (auto simp: ext_var_def fun_eq_iff)
  have st: "pstack_list (env ?b) = below @ [None] @ map Some nvs" using s(3) by simp
  obtain bank' where b': "VarBankPopEnv ?b = Some bank'" "names_ok bank'" "names_only ?b bank'"
    "pstack_list (env bank') = below" "ext_var bank' = unhide nvs (ext_var ?b)"
    using snoc.IH [OF names st] by blast
  have "VarBankPopEnv bank = VarBankPopEnv ?b"
    using s(1) ne t(1) by (subst VarBankPopEnv.simps) simp
  also note b'(1)
  finally have pop: "VarBankPopEnv bank = Some bank'" .
  have "ext_var bank' = unhide (nvs @ [nv]) (ext_var bank)" using b'(5) unfolding ext unhide_snoc .
  moreover have "names_only bank bank'" using b'(3) by (auto simp: names_only_def)
  ultimately show ?case using pop b'(2,4) by (intro exI [of _ bank'] conjI)
qed

lemma ext_var_Some: "names_ok bank \<Longrightarrow> ext_var bank n = Some v \<longleftrightarrow> str_map (ext_index bank) n = Some (var_entry n v)"
  by (fastforce simp: names_ok_def ext_var_def split: option.splits IntOrP.splits)

lemma ext_var_None: "names_ok bank \<Longrightarrow> ext_var bank n = None \<longleftrightarrow> str_map (ext_index bank) n = None"
  by (fastforce simp: names_ok_def ext_var_def split: option.splits IntOrP.splits)

lemma names_ok_cong: "ext_index v' = ext_index v \<Longrightarrow> env v' = env v \<Longrightarrow> names_ok v' = names_ok v"
  "ext_index v' = ext_index v \<Longrightarrow> ext_var v' = ext_var v"
  by (auto simp: names_ok_def ext_var_def fun_eq_iff)

text \<open>Declaring a name inside a scope, on all three branches.\<close>

lemma VarBankExtNameAssertAllocSort_ok:
  assumes "vbs_ok vbs" and "a < length vbs" and "ty \<noteq> 0" and "in_scope m0 below (vbs ! a)"
  shows "\<exists>w vbs'. VarBankExtNameAssertAllocSort vbs a name ty = Some (w, vbs') \<and> vbs_ok vbs' \<and>
    length vbs' = length vbs \<and> t_type w = ty \<and> in_scope m0 below (vbs' ! a) \<and> ext_var (vbs' ! a) name = Some w \<and>
    (\<forall>n. n \<noteq> name \<longrightarrow> ext_var (vbs' ! a) n = ext_var (vbs ! a) n)"
proof -
  let ?v = "vbs ! a"
  have names: "names_ok ?v" using assms(4) by (simp add: in_scope_def)
  obtain nvs where nvs: "pstack_list (env ?v) = below @ [None] @ map Some nvs" "m0 \<subseteq>\<^sub>m unhide nvs (ext_var ?v)"
    "dom m0 \<subseteq> dom (ext_var ?v)" using assms(4) by (auto simp: in_scope_def)
  obtain t where t: "VarBankExtNameFind ?v name = Some (ext_var ?v name, ?v\<lparr>ext_index := t\<rparr>)" "str_ok t"
    "str_map t = str_map (ext_index ?v)" using VarBankExtNameFind_ok [OF names] by blast
  let ?b = "?v\<lparr>ext_index := t\<rparr>" and ?vbs = "vbs[a := ?v\<lparr>ext_index := t\<rparr>]"
  have names_b: "names_ok ?b" using names t(2,3) by (simp add: names_ok_def)
  have ext_b: "ext_var ?b = ext_var ?v" using t(3) by (simp add: ext_var_def fun_eq_iff)
  have only: "names_only ?v (?v\<lparr>ext_index := t, env := s\<rparr>)" for s
    unfolding names_only_def by blast
  have env_id: "?v\<lparr>ext_index := t, env := env ?v\<rparr> = ?b" by (cases ?v) simp
  have ok_b: "vbs_ok ?vbs" using names_only_ok [OF assms(1,2) only [of "env ?v"]] env_id by simp
  show ?thesis
  proof (cases "ext_var ?v name")
    case None
    obtain w vbs1 where w: "VarBankGetFreshVar ?vbs a ty = Some (w, vbs1)" "vbs_ok vbs1" "vbs_ext ?vbs vbs1"
      "w = var_cell a (var_code w) ty"
      by (rule VarBankGetFreshVar_obtain [OF ok_b _ assms(3), of a]) (use assms(2) in auto)
    have a1: "a < length vbs1" using vbs_extD(1) [OF w(3)] assms(2) by simp
    have "vb_ext ?b (vbs1 ! a)" using vbs_extD(2) [OF w(3), of a] assms(2) by simp
    then have same: "ext_index (vbs1 ! a) = t" "env (vbs1 ! a) = env ?v" by (simp_all add: vb_ext_def)
    obtain t2 where t2: "StrTreeInsert t (var_entry name w) = (None, t2)" "str_ok t2"
      "str_map t2 = (str_map t)(name \<mapsto> var_entry name w)"
      using StrTreeInsert_map [OF t(2), of "var_entry name w"] t(3) None ext_var_None [OF names] by auto
    let ?c = "(vbs1 ! a)\<lparr>ext_index := t2\<rparr>"
    have names_c: "names_ok ?c" using names same t2(2,3) t(3) by (auto simp: names_ok_def)
    have ext_c: "ext_var ?c = (ext_var ?v)(name \<mapsto> w)" using t2(3) t(3) by (auto simp: ext_var_def fun_eq_iff)
    have "name \<notin> dom m0" using nvs(3) None by blast
    moreover have "unhide nvs (ext_var ?c) n = unhide nvs (ext_var ?v) n" if "n \<noteq> name" for n
      using that by (intro unhide_other) (simp add: ext_c)
    ultimately have "m0 \<subseteq>\<^sub>m unhide nvs (ext_var ?c)"
      using nvs(2) unfolding map_le_def by metis
    moreover have "dom m0 \<subseteq> dom (ext_var ?c)" using nvs(3) by (auto simp: ext_c)
    ultimately have "in_scope m0 below ?c" using names_c nvs(1) same by (auto simp: in_scope_def)
    moreover have "vbs_ok (vbs1[a := ?c])"
      by (rule names_only_ok [OF w(2) a1]) (auto simp: names_only_def same intro!: exI [of _ t2] exI [of _ "env ?v"])
    moreover have "VarBankExtNameAssertAllocSort vbs a name ty = Some (w, vbs1[a := ?c])"
      using t(1) None w(1) t2(1) same a1 assms(2) by (simp add: VarBankExtNameAssertAllocSort_def vb_at_def)
    moreover have "t_type w = ty" using w(4) by (metis var_cell_simps(1))
    ultimately show ?thesis using a1 vbs_extD(1) [OF w(3)] ext_c by (intro exI [of _ w] exI [of _ "vbs1[a := ?c]"]) simp
  next
    case (Some v)
    show ?thesis
    proof (cases "t_type v = ty")
      case True
      have "VarBankExtNameAssertAllocSort vbs a name ty = Some (v, ?vbs)"
        using t(1) Some True assms(2) by (simp add: VarBankExtNameAssertAllocSort_def vb_at_def)
      moreover have "in_scope m0 below ?b" using names_b nvs by (auto simp: in_scope_def ext_b)
      ultimately show ?thesis using ok_b ext_b Some True assms(2) by simp
    next
      case False
      obtain s where s: "PStackPushP (env ?v) (Some \<lparr>nv_var = v, nv_name = name\<rparr>) = Some s" "pstack_ok s"
        "pstack_list s = pstack_list (env ?v) @ [Some \<lparr>nv_var = v, nv_name = name\<rparr>]"
        using push_ok [of "env ?v" "Some \<lparr>nv_var = v, nv_name = name\<rparr>"] names by (auto simp: names_ok_def PStackPushP_def)
      let ?bs = "?v\<lparr>ext_index := t, env := s\<rparr>"
      have ok_s: "vbs_ok (vbs[a := ?bs])" by (rule names_only_ok [OF assms(1,2) only])
      obtain w vbs1 where w: "VarBankGetFreshVar (vbs[a := ?bs]) a ty = Some (w, vbs1)" "vbs_ok vbs1"
        "vbs_ext (vbs[a := ?bs]) vbs1" "w = var_cell a (var_code w) ty"
        by (rule VarBankGetFreshVar_obtain [OF ok_s _ assms(3), of a]) (use assms(2) in auto)
      have a1: "a < length vbs1" using vbs_extD(1) [OF w(3)] assms(2) by simp
      have "vb_ext ?bs (vbs1 ! a)" using vbs_extD(2) [OF w(3), of a] assms(2) by simp
      then have same: "ext_index (vbs1 ! a) = t" "env (vbs1 ! a) = s" by (simp_all add: vb_ext_def)
      have "str_map t name \<noteq> None" using t(3) Some ext_var_Some [OF names] by simp
      note t2 = entry_write_ok [OF t(2) this, of w]
      let ?c = "(vbs1 ! a)\<lparr>ext_index := entry_write t name w\<rparr>"
      have names_c: "names_ok ?c" using names s(2) same t2 t(3) by (auto simp: names_ok_def)
      have ext_c: "ext_var ?c = (ext_var ?v)(name \<mapsto> w)" using t2(2) t(3) by (auto simp: ext_var_def fun_eq_iff)
      have "(ext_var ?c)(name \<mapsto> v) = ext_var ?v" using Some by (auto simp: ext_c)
      then have "unhide (nvs @ [\<lparr>nv_var = v, nv_name = name\<rparr>]) (ext_var ?c) = unhide nvs (ext_var ?v)"
        by (simp add: unhide_snoc)
      moreover have "dom m0 \<subseteq> dom (ext_var ?c)" using nvs(3) by (auto simp: ext_c)
      ultimately have "in_scope m0 below ?c"
        using names_c nvs(1,2) same s(3)
        by (auto simp: in_scope_def intro!: exI [of _ "nvs @ [\<lparr>nv_var = v, nv_name = name\<rparr>]"])
      moreover have "vbs_ok (vbs1[a := ?c])"
        by (rule names_only_ok [OF w(2) a1])
          (auto simp: names_only_def same intro!: exI [of _ "entry_write t name w"] exI [of _ s])
      moreover have "VarBankExtNameAssertAllocSort vbs a name ty = Some (w, vbs1[a := ?c])"
        using t(1) Some False s(1) w(1) same a1 assms(2)
        by (simp add: VarBankExtNameAssertAllocSort_def vb_at_def)
      moreover have "t_type w = ty" using w(4) by (metis var_cell_simps(1))
      ultimately show ?thesis using a1 vbs_extD(1) [OF w(3)] ext_c by (intro exI [of _ w] exI [of _ "vbs1[a := ?c]"]) simp
    qed
  qed
qed

text \<open>A scope: a marker, declarations, and back.\<close>

definition declare_names :: "VarBanks \<Rightarrow> nat \<Rightarrow> (string \<times> nat) list \<Rightarrow> VarBanks option" where
  "declare_names vbs a ns =
     foldM (\<lambda>vbs (n, ty). map_option snd (VarBankExtNameAssertAllocSort vbs a n ty)) vbs ns"

definition scope_of :: "VarBanks \<Rightarrow> nat \<Rightarrow> (string \<times> nat) list \<Rightarrow> VarBanks option" where
  "scope_of vbs a ns =
     do { bank \<leftarrow> vb_at vbs a;
          bank \<leftarrow> VarBankPushEnv bank;
          vbs \<leftarrow> declare_names (vbs[a := bank]) a ns;
          bank \<leftarrow> vb_at vbs a;
          bank \<leftarrow> VarBankPopEnv bank;
          Some (vbs[a := bank]) }"

lemma declare_names_ok:
  assumes "vbs_ok vbs" and "a < length vbs" and "0 \<notin> snd ` set ns" and "in_scope m0 below (vbs ! a)"
  shows "\<exists>vbs'. declare_names vbs a ns = Some vbs' \<and> vbs_ok vbs' \<and> length vbs' = length vbs \<and> in_scope m0 below (vbs' ! a)"
  using assms
proof (induction ns arbitrary: vbs)
  case (Cons nty ns)
  obtain n ty where nty: "nty = (n, ty)" by force
  obtain w vbs1 where v1: "VarBankExtNameAssertAllocSort vbs a n ty = Some (w, vbs1)" "vbs_ok vbs1"
    "length vbs1 = length vbs" "in_scope m0 below (vbs1 ! a)"
    using VarBankExtNameAssertAllocSort_ok [OF Cons.prems(1,2) _ Cons.prems(4), of ty n] Cons.prems(3) nty by auto
  have "\<exists>vbs'. declare_names vbs1 a ns = Some vbs' \<and> vbs_ok vbs' \<and> length vbs' = length vbs1 \<and> in_scope m0 below (vbs' ! a)"
    using Cons.prems(2,3) v1 by (intro Cons.IH) auto
  then show ?case using v1(1,3) by (auto simp: declare_names_def nty)
qed (simp add: declare_names_def)

text \<open>
  C30 A scope gives back every name that was known before it: whatever is declared between
  \<open>VarBankPushEnv\<close> and \<open>VarBankPopEnv\<close>, also the same names with other types and several times,
  afterwards each earlier name denotes the variable it denoted before, and the stack of hidden names
  is what it was.
\<close>

theorem VarBank_scope_restores:
  assumes "vbs_ok vbs" and "a < length vbs" and "names_ok (vbs ! a)" and "0 \<notin> snd ` set ns"
  shows "\<exists>vbs'. scope_of vbs a ns = Some vbs' \<and> vbs_ok vbs' \<and> names_ok (vbs' ! a) \<and>
    ext_var (vbs ! a) \<subseteq>\<^sub>m ext_var (vbs' ! a) \<and> pstack_list (env (vbs' ! a)) = pstack_list (env (vbs ! a))"
proof -
  let ?v = "vbs ! a"
  obtain s where s: "VarBankPushEnv ?v = Some (?v\<lparr>env := s\<rparr>)"
    "in_scope (ext_var ?v) (pstack_list (env ?v)) (?v\<lparr>env := s\<rparr>)" using VarBankPushEnv_ok [OF assms(3)] by blast
  have "names_only ?v (?v\<lparr>env := s\<rparr>)"
    unfolding names_only_def by (intro exI [of _ "ext_index ?v"] exI [of _ s]) simp
  note ok1 = names_only_ok [OF assms(1,2) this]
  obtain vbs2 where v2: "declare_names (vbs[a := ?v\<lparr>env := s\<rparr>]) a ns = Some vbs2" "vbs_ok vbs2" "length vbs2 = length vbs"
    "in_scope (ext_var ?v) (pstack_list (env ?v)) (vbs2 ! a)"
    using declare_names_ok [OF ok1 _ assms(4), of a] s(2) assms(2) by auto
  then obtain nvs where nvs: "pstack_list (env (vbs2 ! a)) = pstack_list (env ?v) @ [None] @ map Some nvs"
    "ext_var ?v \<subseteq>\<^sub>m unhide nvs (ext_var (vbs2 ! a))" "names_ok (vbs2 ! a)"
    by (auto simp: in_scope_def)
  obtain b where b: "VarBankPopEnv (vbs2 ! a) = Some b" "names_ok b" "names_only (vbs2 ! a) b"
    "pstack_list (env b) = pstack_list (env ?v)" "ext_var b = unhide nvs (ext_var (vbs2 ! a))"
    using VarBankPopEnv_ok [OF nvs(3,1)] by blast
  have a2: "a < length vbs2" using v2(3) assms(2) by simp
  have "scope_of vbs a ns = Some (vbs2[a := b])"
    using s(1) v2(1) b(1) a2 assms(2) by (simp add: scope_of_def vb_at_def)
  then show ?thesis using names_only_ok [OF v2(2) a2 b(3)] b(2,4,5) nvs(2) a2 by simp
qed

lemma new_bank_names: "VarBankAlloc [] ty = Some (0, vbs) \<Longrightarrow> vbs_ok vbs \<and> length vbs = 1 \<and> names_ok (vbs ! 0)"
proof -
  assume a: "VarBankAlloc [] ty = Some (0, vbs)"
  obtain v where v: "VarBankAlloc [] ty = Some (0, [v])" "vbs_ok [v]" "ext_index v = Leaf" "env v = PStackAlloc"
    using VarBankAlloc_ok [of "[]" ty] by (auto simp: MAX_BANKS_def)
  then show ?thesis using a by (auto simp: names_ok_def str_ok_def str_map_def)
qed

theorem VarBank_scope_restores_witness:
  "\<exists>vbs vbs'. VarBankAlloc [] 3 = Some (0, vbs) \<and> scope_of vbs 0 [(''X'', 3), (''Y'', 4), (''X'', 4)] = Some vbs'"
proof -
  obtain vbs where v: "VarBankAlloc [] 3 = Some (0, vbs)"
    using VarBankAlloc_ok [of "[]" 3] by (auto simp: MAX_BANKS_def)
  note n = new_bank_names [OF v]
  show ?thesis using VarBank_scope_restores [of vbs 0 "[(''X'', 3), (''Y'', 4), (''X'', 4)]"] n v by auto
qed

text \<open>
  The names that were declared only inside the scope stay known, although the comment of
  \<open>VarBankPushEnv\<close> says they are forgotten.
\<close>

theorem VarBankPopEnv_keeps_names:
  assumes "vbs_ok vbs" and "a < length vbs" and "names_ok (vbs ! a)" and "ty \<noteq> 0" and "ext_var (vbs ! a) name = None"
  shows "\<exists>vbs'. scope_of vbs a [(name, ty)] = Some vbs' \<and> ext_var (vbs' ! a) name \<noteq> None"
proof -
  let ?v = "vbs ! a"
  obtain s where s: "VarBankPushEnv ?v = Some (?v\<lparr>env := s\<rparr>)"
    "in_scope (ext_var ?v) (pstack_list (env ?v)) (?v\<lparr>env := s\<rparr>)" using VarBankPushEnv_ok [OF assms(3)] by blast
  have "names_only ?v (?v\<lparr>env := s\<rparr>)"
    unfolding names_only_def by (intro exI [of _ "ext_index ?v"] exI [of _ s]) simp
  note ok1 = names_only_ok [OF assms(1,2) this]
  obtain w vbs2 where v2: "VarBankExtNameAssertAllocSort (vbs[a := ?v\<lparr>env := s\<rparr>]) a name ty = Some (w, vbs2)" "vbs_ok vbs2"
    "length vbs2 = length vbs" "in_scope (ext_var ?v) (pstack_list (env ?v)) (vbs2 ! a)" "ext_var (vbs2 ! a) name = Some w"
    using VarBankExtNameAssertAllocSort_ok [OF ok1 _ assms(4), of a "ext_var ?v" "pstack_list (env ?v)" name] s(2) assms(2)
    by auto
  then obtain nvs where nvs: "pstack_list (env (vbs2 ! a)) = pstack_list (env ?v) @ [None] @ map Some nvs"
    "names_ok (vbs2 ! a)" by (auto simp: in_scope_def)
  obtain b where b: "VarBankPopEnv (vbs2 ! a) = Some b" "ext_var b = unhide nvs (ext_var (vbs2 ! a))"
    using VarBankPopEnv_ok [OF nvs(2,1)] by blast
  have "unhide nvs m name \<noteq> None" if "m name \<noteq> None" for m using that by (induction nvs) auto
  then have "ext_var b name \<noteq> None" using v2(5) b(2) by simp
  moreover have "scope_of vbs a [(name, ty)] = Some (vbs2[a := b])"
    using s(1) v2(1,3) b(1) assms(2) by (simp add: scope_of_def declare_names_def vb_at_def)
  ultimately show ?thesis using v2(3) assms(2) by simp
qed

section \<open>Pairing\<close>

lemma foldM_fails:
  "(\<And>x. x \<in> set xs \<Longrightarrow> f s x = Some s \<or> f s x = None) \<Longrightarrow> \<exists>x \<in> set xs. f s x = None \<Longrightarrow> foldM f s xs = None"
proof (induction xs)
  case (Cons x xs)
  have "f s x = Some s \<or> f s x = None" using Cons.prems(1) [of x] by simp
  then show ?case
  proof
    assume "f s x = Some s"
    moreover have "foldM f s xs = None" using Cons calculation by (intro Cons.IH) auto
    ultimately show ?thesis by simp
  qed simp
qed simp

lemma var_bank_var_alloc_taken:
  assumes "vb_rep (vbs ! a)" and "a < length vbs" and "code < 0" and "vb_vars (vbs ! a) (nat (- code)) \<noteq> None"
  shows "var_bank_var_alloc vbs a code ty = None"
proof -
  obtain s v1 where v1: "VarBankGetStack (vbs ! a) ty = Some (s, v1)" "variables v1 = variables (vbs ! a)"
    using VarBankGetStack_ok [OF assms(1)] by blast
  obtain arr where "PDArrayElementP (variables (vbs ! a)) (- code) = Some (arr, vb_vars (vbs ! a) (nat (- code)))"
    using PDArrayElement_ok [OF vb_repD(3) [OF assms(1)], of "- code"] assms(3) by (auto simp: PDArrayElementP_def vb_vars_def)
  then show ?thesis using v1 assms(2,4) by (auto simp: var_bank_var_alloc_def vb_at_def c_assert_def)
qed

lemma var_bank_var_alloc_other:
  assumes "var_bank_var_alloc vbs a code ty = Some (v, vbs')" and "k \<noteq> a"
  shows "vbs' ! k = vbs ! k \<and> length vbs' = length vbs \<and> shadow (vbs' ! a) = shadow (vbs ! a)"
  using assms
  by (auto simp: var_bank_var_alloc_def vb_at_def VarBankGetStack_def VarBankCreateStack_def Let_def
      split: bind_splits if_splits option.splits)

text \<open>
  C31 Pairing a bank that already has a variable of a long-lived code (an even one) fails, although
  the comment of \<open>VarBankPairShadow\<close> says that the primary bank may contain variables: the copy of the
  first variable is made with \<open>VarBankVarAlloc\<close>, which, as the banks are paired by then, also makes it
  in the primary bank, where it exists (a failing assertion).
\<close>

theorem VarBankPairShadow_fails:
  assumes "vb_ok p (vbs ! p)" and "p < length vbs" and "sec < length vbs" and "p \<noteq> sec" and "int p < MAX_BANKS"
    and "vb_stack (vbs ! p) ty \<noteq> []"
  shows "VarBankPairShadow vbs p sec = None"
proof -
  let ?vbs = "vbs[p := (vbs ! p)\<lparr>shadow := Some sec\<rparr>, sec := (vbs ! sec)\<lparr>shadow := Some p\<rparr>]"
  let ?f = "\<lambda>vbs srt. pair_stack_loop vbs p sec srt 0"
  have inv: "vb_rep (vbs ! p)" "vb_inv p (vbs ! p)" using assms(1) by (simp_all add: vb_ok_def)
  have at: "?vbs ! p = (vbs ! p)\<lparr>shadow := Some sec\<rparr>" "?vbs ! sec = (vbs ! sec)\<lparr>shadow := Some p\<rparr>"
    using assms(2-4) by simp_all
  have rep: "vb_rep (?vbs ! p)" "vb_vars (?vbs ! p) = vb_vars (vbs ! p)" "varstacks (?vbs ! p) = varstacks (vbs ! p)"
    using inv(1) at(1) by (auto simp: vb_rep_def vb_vars_def fun_eq_iff)
  have copy: "VarBankVarAlloc ?vbs sec (var_code w) t = None" if "w \<in> set (vb_stack (vbs ! p) t')" for w t t'
  proof -
    have "set (vb_stack (vbs ! p) t') = {w. t_type w = t' \<and> (\<exists>i. even i \<and> vb_vars (vbs ! p) i = Some w)}"
      using inv(2) by (simp add: vb_inv_def)
    then have "\<exists>i. vb_vars (vbs ! p) i = Some w" using that by auto
    then obtain i where i: "vb_vars (vbs ! p) i = Some w" by blast
    then have w: "0 < i" "w = var_cell p (- int i) (t_type w)" using inv(2) by (auto simp: vb_inv_def)
    then have code: "var_code w = - int i" using assms(5) by (metis var_cell_simps(3))
    have "var_bank_var_alloc vbs1 p (var_code w) t = None" if "vbs1 ! p = ?vbs ! p" "length vbs1 = length vbs" for vbs1
      using var_bank_var_alloc_taken [of vbs1 p "var_code w" t] that rep w(1) i code assms(2) by simp
    then show ?thesis
      using var_bank_var_alloc_other [of ?vbs sec "var_code w" t _ _ p] at assms(2-4)
      by (auto simp: VarBankVarAlloc_def vb_at_def split: bind_splits)
  qed
  have step: "?f ?vbs t = (if vb_stack (vbs ! p) t = [] then Some ?vbs else None)" for t
  proof -
    obtain arr where arr: "PDArrayElementP (varstacks (vbs ! p)) (int t) = Some (arr, pda_val (varstacks (vbs ! p)) t)"
      using PDArrayElement_ok [OF vb_repD(1) [OF inv(1)], of "int t"] by (auto simp: PDArrayElementP_def)
    show ?thesis
    proof (cases "pda_val (varstacks (vbs ! p)) t")
      case None
      then show ?thesis
        using arr rep(3) assms(2) by (subst pair_stack_loop.simps) (simp add: vb_at_def vb_stack_def)
    next
      case (Some s)
      have s: "pstack_ok s" "pstack_list s = vb_stack (vbs ! p) t"
        using vb_repD(4) [OF inv(1) Some] Some by (simp_all add: vb_stack_def)
      show ?thesis
      proof (cases "vb_stack (vbs ! p) t")
        case Nil
        then show ?thesis
          using arr rep(3) Some s length_pstack_list [OF s(1)] assms(2)
          by (subst pair_stack_loop.simps) (simp add: vb_at_def PStackGetSP_def)
      next
        case (Cons w ws)
        have "PStackElement s 0 = Some w" "0 < PStackGetSP s"
          using PStackElement_ok [OF s(1), of 0] s(2) Cons length_pstack_list [OF s(1)] by (simp_all add: PStackGetSP_def)
        moreover have "VarBankVarAlloc ?vbs sec (var_code w) (t_type w) = None"
          using copy [of w t] Cons by simp
        ultimately show ?thesis
          using arr rep(3) Some Cons assms(2)
          by (subst pair_stack_loop.simps) (auto simp: vb_at_def c_assert_def)
      qed
    qed
  qed
  have "pda_val (varstacks (vbs ! p)) ty \<noteq> None" using assms(6) by (auto simp: vb_stack_def split: option.splits)
  then have "ty < pda_size (varstacks (vbs ! p))" by (auto simp: pda_val_def zero_option_def split: if_splits)
  then have "foldM ?f ?vbs [0..<pda_size (varstacks (vbs ! p))] = None"
    using step assms(6) by (intro foldM_fails) auto
  then show ?thesis
    using assms(2-4) by (auto simp: VarBankPairShadow_def vb_at_def c_assert_def)
qed

theorem VarBankPairShadow_fails_witness:
  "\<exists>vbs w vbs'. do { (_, vbs) \<leftarrow> VarBankAlloc [] 3; (_, vbs) \<leftarrow> VarBankAlloc vbs 3; VarBankGetFreshVar vbs 0 3 } = Some (w, vbs') \<and>
     VarBankPairShadow vbs' 0 1 = None"
proof -
  obtain u where u: "VarBankAlloc [] 3 = Some (0, [u])" "vbs_ok [u]"
    using VarBankAlloc_ok [of "[]" 3] by (auto simp: MAX_BANKS_def)
  then obtain v where v: "VarBankAlloc [u] 3 = Some (1, [u, v])" "vbs_ok [u, v]"
    using VarBankAlloc_ok [of "[u]" 3] by (auto simp: MAX_BANKS_def)
  obtain w vbs' where w: "VarBankGetFreshVar [u, v] 0 3 = Some (w, vbs')" "vbs_ok vbs'" "vbs_ext [u, v] vbs'"
    "nat (vb_count u 3) < length (vb_stack (vbs' ! 0) 3)" using VarBankGetFreshVar_ok [OF v(2), of 0 3] by auto
  have len: "length vbs' = 2" using vbs_extD(1) [OF w(3)] by simp
  have "VarBankPairShadow vbs' 0 1 = None"
    using VarBankPairShadow_fails [of 0 vbs' 1 3] vbs_core_at(1) [OF vbs_ok_core [OF w(2)], of 0] w(4) len
    by (cases "vb_stack (vbs' ! 0) 3") (auto simp: MAX_BANKS_def)
  then show ?thesis using u v w(1) by auto
qed

end
