(* ===== verification/MguRange.thy ===== *)
theory MguRange
  imports Unification
begin

text \<open>
  Where the bindings of a unification come from: every variable that \<open>SubstComputeMgu\<close> binds, and
  every term it binds a variable to, belongs to each set of terms that contains the two terms and what
  is bound already, and is closed under arguments.
\<close>

definition binds_in :: "(Term_p \<Rightarrow> bool) \<Rightarrow> bindings \<Rightarrow> bindings \<Rightarrow> bool" where
  "binds_in P b0 b \<longleftrightarrow> (\<forall>v t. b v = Some t \<longrightarrow> P t \<and> (b0 v = None \<longrightarrow> P v))"

definition args_closed :: "(Term_p \<Rightarrow> bool) \<Rightarrow> bool" where
  "args_closed P \<longleftrightarrow> (\<forall>t a. P t \<longrightarrow> a \<in> set (t_args t) \<longrightarrow> P a)"

lemma deref_always_in:
  assumes "deref_always b t = Some t'" and "P t" and "binds_in P b0 b"
  shows "P t'"
proof -
  have "P t \<longrightarrow> binds_in P b0 b \<longrightarrow> P t'"
    by (rule deref_always.raw_induct [of "\<lambda>b t t'. P t \<longrightarrow> binds_in P b0 b \<longrightarrow> P t'", OF _ assms(1)])
      (auto simp: binds_in_def split: option.splits)
  then show ?thesis using assms(2,3) by blast
qed

lemma TermDerefAlways_in: "TermDerefAlways b t = Some t' \<Longrightarrow> P t \<Longrightarrow> binds_in P b0 b \<Longrightarrow> P t'"
  using deref_always_in [of b t t' P b0] by (simp add: TermDerefAlways_def bind_eq_Some_conv)

lemma SubstAddBinding_binds: "SubstAddBinding s b v t = Some (n, s', b') \<Longrightarrow> b' = b(v \<mapsto> t)"
  by (auto simp: SubstAddBinding_def bind_eq_Some_conv)

definition jobs_in :: "(Term_p \<Rightarrow> bool) \<Rightarrow> Term_p IntOrP pqueue \<Rightarrow> bool" where
  "jobs_in P jobs \<longleftrightarrow> (\<exists>ps. jobs_are jobs ps \<and> (\<forall>(x, y) \<in> set ps. P x \<and> P y))"

lemma jobs_in_push:
  assumes "jobs_in P jobs" and "mgu_push jobs t1 t2 = Some j" and "P t1" and "P t2" and "args_closed P"
    and "arity t1 = arity t2"
  shows "jobs_in P j"
proof -
  obtain qs where qs: "jobs_are jobs qs" "\<forall>(x, y) \<in> set qs. P x \<and> P y" using assms(1) by (auto simp: jobs_in_def)
  obtain ps where ps: "jobs_are j ps" "mset ps = mset qs + mset (zip (t_args t1) (t_args t2))"
    using mgu_push_ok [OF qs(1) assms(6)] assms(2) by auto
  have "set ps = set qs \<union> set (zip (t_args t1) (t_args t2))" using arg_cong [OF ps(2), of set_mset] by simp
  moreover have "P x \<and> P y" if "(x, y) \<in> set (zip (t_args t1) (t_args t2))" for x y
    using set_zip_leftD [OF that] set_zip_rightD [OF that] assms(3-5) unfolding args_closed_def by blast
  ultimately have "\<forall>(x, y) \<in> set ps. P x \<and> P y" using qs(2) by auto
  then show ?thesis using ps(1) unfolding jobs_in_def by blast
qed

lemma jobs_in_take:
  assumes "jobs_in P jobs" and "\<not> PQueueEmpty jobs"
  shows "\<exists>x y j1 j2. PQueueGetLastP jobs = Some (y, j1) \<and> PQueueGetLastP j1 = Some (x, j2) \<and> P x \<and> P y \<and> jobs_in P j2"
proof -
  obtain ps where ps: "jobs_are jobs ps" "\<forall>(x, y) \<in> set ps. P x \<and> P y" using assms(1) by (auto simp: jobs_in_def)
  then have "ps \<noteq> []" using jobs_are_empty assms(2) by blast
  then obtain qs x y where snoc: "ps = qs @ [(x, y)]" by (metis rev_exhaust surj_pair)
  obtain j1 j2 where j: "PQueueGetLastP jobs = Some (y, j1)" "PQueueGetLastP j1 = Some (x, j2)" "jobs_are j2 qs"
    using jobs_are_take [OF ps(1) [unfolded snoc]] by blast
  moreover have "P x" "P y" "jobs_in P j2" using ps(2) j(3) by (auto simp: snoc jobs_in_def)
  ultimately show ?thesis by blast
qed

text \<open>Where two equal function symbols have the same number of arguments.\<close>

definition arity_ok :: "(Term_p \<Rightarrow> bool) \<Rightarrow> bool" where
  "arity_ok P \<longleftrightarrow> (\<forall>t u. P t \<longrightarrow> P u \<longrightarrow> \<not> TermIsFreeVar t \<longrightarrow> f_code t = f_code u \<longrightarrow> arity t = arity u)"

lemma mgu_loop_in:
  assumes "mgu_loop jobs s b = Some r" and "args_closed P" and "arity_ok P" and "jobs_in P jobs" and "binds_in P b0 b"
  shows "binds_in P b0 (snd (snd r))"
proof -
  have "jobs_in P jobs \<longrightarrow> binds_in P b0 b \<longrightarrow> binds_in P b0 (snd (snd r))"
  proof (rule mgu_loop.raw_induct [of "\<lambda>jobs s b r. jobs_in P jobs \<longrightarrow> binds_in P b0 b \<longrightarrow> binds_in P b0 (snd (snd r))",
        OF _ assms(1)], intro impI)
    fix f jobs s b r
    assume IH: "\<And>jobs s b r. f jobs s b = Some r \<Longrightarrow> jobs_in P jobs \<longrightarrow> binds_in P b0 b \<longrightarrow> binds_in P b0 (snd (snd r))"
      and J: "jobs_in P jobs" and B: "binds_in P b0 b"
      and run: "(if PQueueEmpty jobs then Some (True, s, b)
      else do { (t2, jobs) \<leftarrow> PQueueGetLastP jobs;
                t2 \<leftarrow> TermDerefAlways b t2;
                (t1, jobs) \<leftarrow> PQueueGetLastP jobs;
                t1 \<leftarrow> TermDerefAlways b t1;
                let (t1, t2) = (if TermIsFreeVar t2 then (t2, t1) else (t1, t2));
                if TermIsFreeVar t1
                then if t1 \<noteq> t2
                     then do { c_assert (t_type t1 \<noteq> 0);
                               c_assert (t_type t2 \<noteq> 0);
                               clash \<leftarrow> (if t_type t1 \<noteq> t_type t2 then Some True
                                        else OccurCheck b t2 t1);
                               if clash then Some (False, s, b)
                               else do { (_, subst, b) \<leftarrow> SubstAddBinding s b t1 t2;
                                         f jobs subst b } }
                     else f jobs s b
                else if f_code t1 \<noteq> f_code t2 then Some (False, s, b)
                else do { c_assert (t_type t1 \<noteq> 0);
                          c_assert (t_type t2 \<noteq> 0);
                          c_assert (t_type t1 = t_type t2);
                          jobs \<leftarrow> mgu_push jobs t1 t2;
                          f jobs s b } }) = Some r"
    show "binds_in P b0 (snd (snd r))"
    proof (cases "PQueueEmpty jobs")
      case False
      obtain x y j1 j2 where take: "PQueueGetLastP jobs = Some (y, j1)" "PQueueGetLastP j1 = Some (x, j2)" "P x" "P y"
        "jobs_in P j2" using jobs_in_take [OF J False] by blast
      obtain y' x' where d: "TermDerefAlways b y = Some y'" "TermDerefAlways b x = Some x'"
        using run False take(1,2) by (auto simp: bind_eq_Some_conv)
      note in' = TermDerefAlways_in [OF d(1) take(4) B] TermDerefAlways_in [OF d(2) take(3) B]
      define t1 t2 where "t1 = (if TermIsFreeVar y' then y' else x')" and "t2 = (if TermIsFreeVar y' then x' else y')"
      have t: "(if TermIsFreeVar y' then (y', x') else (x', y')) = (t1, t2)" "P t1" "P t2"
        using in' by (simp_all add: t1_def t2_def)
      note run' = run [simplified False take(1,2) d if_False bind.bind_lunit prod.case t(1) Let_def]
      show ?thesis
      proof (cases "TermIsFreeVar t1")
        case True
        have bound: "binds_in P b0 (b(t1 \<mapsto> t2))" using B t(2,3) by (simp add: binds_in_def)
        have "f j2 s b = Some r \<or> r = (False, s, b) \<or>
            (\<exists>n s1. SubstAddBinding s b t1 t2 = Some (n, s1, b(t1 \<mapsto> t2)) \<and> f j2 s1 (b(t1 \<mapsto> t2)) = Some r)"
          using run' True by (auto simp: bind_eq_Some_conv dest: SubstAddBinding_binds split: if_splits)
        then show ?thesis using IH take(5) B bound by fastforce
      next
        case fn: False
        then have "f_code t1 = f_code t2 \<Longrightarrow> mgu_push j2 t1 t2 = Some j \<Longrightarrow> jobs_in P j" for j
          using jobs_in_push [OF take(5) _ t(2,3) assms(2)] assms(3) t(2,3) unfolding arity_ok_def by blast
        moreover have "r = (False, s, b) \<or> f_code t1 = f_code t2 \<and> (\<exists>j. mgu_push j2 t1 t2 = Some j \<and> f j s b = Some r)"
          using run' fn by (auto simp: bind_eq_Some_conv split: if_splits)
        ultimately show ?thesis using IH B by fastforce
      qed
    qed (use run B in auto)
  qed
  then show ?thesis using assms(4,5) by blast
qed

lemma SubstComputeMgu_in:
  assumes "SubstComputeMgu t1 t2 s b = Some (True, s', b')" and "args_closed P" and "arity_ok P" and "P t1" and "P t2"
    and "\<And>v t. b v = Some t \<Longrightarrow> P t"
  shows "binds_in P b b'"
proof -
  have "jobs_are PQueueAlloc []" by (simp add: jobs_are_def pqd.new_law)
  then obtain j1 j2 where j: "PQueueStoreP PQueueAlloc t1 = Some j1" "PQueueStoreP j1 t2 = Some j2"
    "jobs_are j2 [(t1, t2)]" using jobs_are_store [of PQueueAlloc "[]" t1 t2] by auto
  then have "jobs_in P j2" using assms(4,5) by (auto simp: jobs_in_def)
  moreover have "mgu_loop j2 s b = Some (True, s', b')"
    using assms(1) j by (auto simp: SubstComputeMgu_def bind_eq_Some_conv split: if_splits)
  moreover have "binds_in P b b" using assms(6) by (auto simp: binds_in_def)
  ultimately show ?thesis using mgu_loop_in [OF _ assms(2,3)] by fastforce
qed

end
