(* ===== verification/TermBanks.thy ===== *)
theory TermBanks
  imports VarBanks MguRange Equations
begin

text \<open>
  Term banks (\<open>TERMS/cte_termbanks.h\<close>, \<open>TERMS/cte_termbanks.c\<close>): the store of shared term cells with
  their entry numbers, and the functions that insert a term, possibly instantiated. The store, a
  hash table of trees in the source, is the map from the cells it holds to their entry numbers. A
  term of the model stands for the shared cell with this structure; \<open>tb_termtop_insert\<close> asserts that
  the arguments are shared, as the source does. \<open>store_ok\<close> is the invariant: entry numbers identify
  the terms. The results of the insertions are instances in variables of the bank.

  Of the properties of a cell only \<open>TPPredPos\<close> is in the model, where the signature fixes it; that some
  functions copy the others and some clear them is not seen here. Counters of work done are left out.
\<close>

section \<open>The store\<close>

record TermStore =
  in_count :: int
  term_store :: "Term_p \<Rightarrow> int option"

type_synonym banks = "VarBanks \<times> TermStore"

definition TermIsShared :: "TermStore \<Rightarrow> Term_p \<Rightarrow> bool" where
  "TermIsShared st t \<longleftrightarrow> TermIsFreeVar t \<or> term_store st t \<noteq> None"

definition tb_termtop_insert :: "TermStore \<Rightarrow> Term_p \<Rightarrow> (Term_p \<times> TermStore) option" where
  "tb_termtop_insert st t =
     do { c_assert (\<not> TermIsFreeVar t);
          c_assert (list_all (TermIsShared st) (t_args t));
          case term_store st t of
            Some _ \<Rightarrow> Some (t, st)
          | None \<Rightarrow> Some (t, st\<lparr>in_count := in_count st + 1, term_store := (term_store st)(t \<mapsto> in_count st + 1)\<rparr>) }"

text \<open>The field \<open>entry_no\<close>; that of a variable is its code.\<close>

definition entry_no :: "TermStore \<Rightarrow> Term_p \<Rightarrow> int" where
  "entry_no st t = (if TermIsFreeVar t then var_code t else (case term_store st t of Some n \<Rightarrow> n | None \<Rightarrow> 0))"

definition TBFind :: "TermStore \<Rightarrow> Term_p \<Rightarrow> bool" where
  "TBFind st t = TermIsShared st t"

text \<open>For a shared term the code reads \<open>v_count\<close>, the number of variable occurrences.\<close>

fun TermIsGround :: "Term_p \<Rightarrow> bool" where
  "TermIsGround (TermCell f p ty as) \<longleftrightarrow> \<not> f < 0 \<and> list_all TermIsGround as"

section \<open>Inserting terms\<close>

text \<open>A function with state along a list.\<close>

primrec map_st :: "('a \<Rightarrow> 's \<Rightarrow> ('b \<times> 's) option) \<Rightarrow> 'a list \<Rightarrow> 's \<Rightarrow> ('b list \<times> 's) option" where
  "map_st f [] s = Some ([], s)"
| "map_st f (x # xs) s = do { (y, s) \<leftarrow> f x s; (ys, s) \<leftarrow> map_st f xs s; Some (y # ys, s) }"

lemma map_st_mono [partial_function_mono]:
  assumes "\<And>x s. mono_option (\<lambda>f. g x s f)"
  shows "mono_option (\<lambda>f. map_st (\<lambda>x s. g x s f) xs s)"
proof (induction xs arbitrary: s)
  case (Cons x xs)
  have "mono_option (\<lambda>f. Option.bind (g x s f) (\<lambda>(y, s). Option.bind (map_st (\<lambda>x s. g x s f) xs s) (\<lambda>(ys, s). Some (y # ys, s))))"
    using assms Cons by (intro bind_mono) (auto simp: split_def intro!: bind_mono option.const_mono)
  then show ?case by simp
qed (simp add: option.const_mono)

definition var_insert :: "TB \<Rightarrow> Term_p \<Rightarrow> banks \<Rightarrow> (Term_p \<times> banks) option" where
  "var_insert bank v = (\<lambda>(vbs, st).
     do { (v, vbs) \<leftarrow> VarBankVarAssertAlloc vbs (tb_vars bank) (var_code v) (t_type v); Some (v, vbs, st) })"

definition top_insert :: "Term_p \<Rightarrow> Term_p list \<Rightarrow> banks \<Rightarrow> (Term_p \<times> banks) option" where
  "top_insert term as = (\<lambda>(vbs, st).
     do { (t, st) \<leftarrow> tb_termtop_insert st (TermCell (f_code term) (t_predpos term) (t_type term) as); Some (t, vbs, st) })"

partial_function (option) TBInsert :: "TB \<Rightarrow> bindings \<Rightarrow> Term_p \<Rightarrow> nat \<Rightarrow> banks \<Rightarrow> (Term_p \<times> banks) option" where [code]:
  "TBInsert bank b term deref bks =
     do { (term, deref) \<leftarrow> TermDeref b term deref;
          if TermIsFreeVar term then var_insert bank term bks
          else do { (as, bks) \<leftarrow> map_st (\<lambda>a bks. TBInsert bank b a deref bks) (t_args term) bks;
                    top_insert term as bks } }"

definition TBInsertNoProps :: "TB \<Rightarrow> bindings \<Rightarrow> Term_p \<Rightarrow> nat \<Rightarrow> banks \<Rightarrow> (Term_p \<times> banks) option" where
  "TBInsertNoProps bank b term deref bks = TBInsert bank b term deref bks"

partial_function (option) TBInsertOpt :: "TB \<Rightarrow> bindings \<Rightarrow> Term_p \<Rightarrow> nat \<Rightarrow> banks \<Rightarrow> (Term_p \<times> banks) option" where [code]:
  "TBInsertOpt bank b term deref bks =
     do { (term, deref) \<leftarrow> TermDeref b term deref;
          if TermIsGround term then do { c_assert (TermIsShared (snd bks) term); Some (term, bks) }
          else if TermIsFreeVar term then var_insert bank term bks
          else do { (as, bks) \<leftarrow> map_st (\<lambda>a bks. TBInsertOpt bank b a deref bks) (t_args term) bks;
                    top_insert term as bks } }"

partial_function (option) TBInsertIgnoreVar :: "bindings \<Rightarrow> Term_p \<Rightarrow> nat \<Rightarrow> banks \<Rightarrow> (Term_p \<times> banks) option" where [code]:
  "TBInsertIgnoreVar b term deref bks =
     do { (term, deref) \<leftarrow> TermDeref b term deref;
          if TermIsFreeVar term then Some (term, bks)
          else do { (as, bks) \<leftarrow> map_st (\<lambda>a bks. TBInsertIgnoreVar b a deref bks) (t_args term) bks;
                    top_insert term as bks } }"

partial_function (option) TBInsertInstantiatedDeref ::
  "bindings \<Rightarrow> Term_p \<Rightarrow> nat \<Rightarrow> banks \<Rightarrow> (Term_p \<times> banks) option" where [code]:
  "TBInsertInstantiatedDeref b term deref bks =
     (if deref = DEREF_NEVER then Some (term, bks)
      else do { (term, deref) \<leftarrow> TermDeref b term deref;
                if TermIsFreeVar term \<or> TermIsGround term then Some (term, bks)
                else do { (as, bks) \<leftarrow> map_st (\<lambda>a bks. TBInsertInstantiatedDeref b a deref bks) (t_args term) bks;
                          top_insert term as bks } })"


text \<open>The cache remembers what a dereferenced term was inserted as.\<close>

partial_function (option) do_tb_insert_no_props_cached ::
  "TB \<Rightarrow> bindings \<Rightarrow> Term_p \<Rightarrow> nat \<Rightarrow> banks \<times> (Term_p \<Rightarrow> Term_p option) \<Rightarrow>
   (Term_p \<times> banks \<times> (Term_p \<Rightarrow> Term_p option)) option" where [code]:
  "do_tb_insert_no_props_cached bank b term deref bkc =
     do { (term, deref) \<leftarrow> TermDeref b term deref;
          case snd bkc term of
            Some t \<Rightarrow> Some (t, bkc)
          | None \<Rightarrow>
              do { (t, bks, cache) \<leftarrow>
                     (if TermIsFreeVar term
                      then do { (t, bks) \<leftarrow> var_insert bank term (fst bkc); Some (t, bks, snd bkc) }
                      else do { (as, bks, cache) \<leftarrow>
                                  map_st (\<lambda>a bkc. do_tb_insert_no_props_cached bank b a deref bkc) (t_args term) bkc;
                                (t, bks) \<leftarrow> top_insert term as bks;
                                Some (t, bks, cache) });
                   Some (t, bks, cache(term \<mapsto> t)) } }"

definition CACHE_THRESHOLD :: int where "CACHE_THRESHOLD = 8096"

text \<open>The field \<open>f_count\<close> of a shared term: the number of its function symbol occurrences.\<close>

fun f_count :: "Term_p \<Rightarrow> int" where
  "f_count (TermCell f p ty as) = (if f < 0 then 0 else 1 + sum_list (map f_count as))"

definition TBInsertNoPropsCached :: "TB \<Rightarrow> bindings \<Rightarrow> Term_p \<Rightarrow> nat \<Rightarrow> banks \<Rightarrow> (Term_p \<times> banks) option" where
  "TBInsertNoPropsCached bank b term deref bks =
     (if f_count term > CACHE_THRESHOLD
      then do { (res, bks, _) \<leftarrow> do_tb_insert_no_props_cached bank b term deref (bks, \<lambda>_. None); Some (res, bks) }
      else TBInsertNoProps bank b term deref bks)"

text \<open>Inserting with every occurrence of a subterm replaced, following bindings or not.\<close>

partial_function (option) TBInsertRepl ::
  "TB \<Rightarrow> bindings \<Rightarrow> Term_p \<Rightarrow> nat \<Rightarrow> Term_p \<Rightarrow> Term_p \<Rightarrow> banks \<Rightarrow> (Term_p \<times> banks) option" where [code]:
  "TBInsertRepl bank b term deref old repl bks =
     (if term = old then do { c_assert (TBFind (snd bks) repl); Some (repl, bks) }
      else do { (term, deref) \<leftarrow> TermDeref b term deref;
                if TermIsFreeVar term then var_insert bank term bks
                else do { (as, bks) \<leftarrow> map_st (\<lambda>a bks. TBInsertRepl bank b a deref old repl bks) (t_args term) bks;
                          top_insert term as bks } })"

partial_function (option) TBInsertReplPlain ::
  "Term_p \<Rightarrow> Term_p \<Rightarrow> Term_p \<Rightarrow> banks \<Rightarrow> (Term_p \<times> banks) option" where [code]:
  "TBInsertReplPlain term old repl bks =
     (if term = old then do { c_assert (TBFind (snd bks) repl); Some (repl, bks) }
      else if TermStandardWeight term \<le> TermStandardWeight old then Some (term, bks)
      else if TermIsFreeVar term then Some (term, bks)
      else do { (as, bks) \<leftarrow> map_st (\<lambda>a bks. TBInsertReplPlain a old repl bks) (t_args term) bks;
                if as \<noteq> t_args term then top_insert term as bks else Some (term, bks) })"

partial_function (option) TBInsertInstantiatedFO :: "TB \<Rightarrow> bindings \<Rightarrow> Term_p \<Rightarrow> banks \<Rightarrow> (Term_p \<times> banks) option" where [code]:
  "TBInsertInstantiatedFO bank b term bks =
     (if TermIsGround term then do { c_assert (TBFind (snd bks) term); Some (term, bks) }
      else case b term of
        Some t \<Rightarrow> do { c_assert (TBFind (snd bks) t); Some (t, bks) }
      | None \<Rightarrow>
          if TermIsFreeVar term then var_insert bank term bks
          else do { (as, bks) \<leftarrow> map_st (\<lambda>a bks. TBInsertInstantiatedFO bank b a bks) (t_args term) bks;
                    top_insert term as bks })"

partial_function (option) TBInsertDisjoint :: "TB \<Rightarrow> Term_p \<Rightarrow> banks \<Rightarrow> (Term_p \<times> banks) option" where [code]:
  "TBInsertDisjoint bank term bks =
     (if TermIsGround term then Some (term, bks)
      else if TermIsFreeVar term
      then do { (t, vbs) \<leftarrow> VarBankGetAltVar (fst bks) (tb_vars bank) term; Some (t, vbs, snd bks) }
      else do { (as, bks) \<leftarrow> map_st (\<lambda>a bks. TBInsertDisjoint bank a bks) (t_args term) bks;
                top_insert term as bks })"

section \<open>Invariants\<close>

definition store_ok :: "TermStore \<Rightarrow> bool" where
  "store_ok st \<longleftrightarrow> 0 \<le> in_count st \<and>
     (\<forall>t n. term_store st t = Some n \<longrightarrow> \<not> TermIsFreeVar t \<and> 1 \<le> n \<and> n \<le> in_count st \<and>
        (\<forall>a \<in> set (t_args t). TermIsShared st a)) \<and>
     (\<forall>t u n. term_store st t = Some n \<longrightarrow> term_store st u = Some n \<longrightarrow> t = u)"

definition store_le :: "TermStore \<Rightarrow> TermStore \<Rightarrow> bool" where
  "store_le st st' \<longleftrightarrow> term_store st \<subseteq>\<^sub>m term_store st'"

lemma store_okD:
  assumes "store_ok st"
  shows "0 \<le> in_count st"
    "\<And>t n. term_store st t = Some n \<Longrightarrow> \<not> TermIsFreeVar t \<and> 1 \<le> n \<and> n \<le> in_count st"
    "\<And>t a. TermIsShared st t \<Longrightarrow> \<not> TermIsFreeVar t \<Longrightarrow> a \<in> set (t_args t) \<Longrightarrow> TermIsShared st a"
    "\<And>t u n. term_store st t = Some n \<Longrightarrow> term_store st u = Some n \<Longrightarrow> t = u"
proof -
  show "\<And>t a. TermIsShared st t \<Longrightarrow> \<not> TermIsFreeVar t \<Longrightarrow> a \<in> set (t_args t) \<Longrightarrow> TermIsShared st a"
    using assms unfolding store_ok_def TermIsShared_def by blast
qed (use assms in \<open>unfold store_ok_def, blast+\<close>)

lemma store_le_refl [simp]: "store_le st st"
  by (simp add: store_le_def)

lemma store_le_trans: "store_le st st' \<Longrightarrow> store_le st' st'' \<Longrightarrow> store_le st st''"
  unfolding store_le_def by (rule map_le_trans)

lemma store_le_shared: "store_le st st' \<Longrightarrow> TermIsShared st t \<Longrightarrow> TermIsShared st' t"
  by (auto simp: store_le_def TermIsShared_def map_le_def dom_def)

lemma store_le_entry:
  assumes "store_le st st'" and "TermIsShared st t"
  shows "entry_no st' t = entry_no st t"
  using assms by (force simp: store_le_def TermIsShared_def entry_no_def map_le_def dom_def)

text \<open>Among the shared terms that are no variables, or are one of the set \<open>V\<close> with different codes.\<close>

lemma entry_no_inj:
  assumes "store_ok st" and "TermIsShared st t" and "TermIsShared st u" and "entry_no st t = entry_no st u"
    and "TermIsFreeVar t \<Longrightarrow> t \<in> V" and "TermIsFreeVar u \<Longrightarrow> u \<in> V" and "inj_on var_code V"
    and "\<And>v. v \<in> V \<Longrightarrow> var_code v < 0"
  shows "t = u"
proof -
  have entry: "1 \<le> entry_no st x" if "TermIsShared st x" "\<not> TermIsFreeVar x" for x
    using that store_okD(2) [OF assms(1)] by (auto simp: TermIsShared_def entry_no_def)
  show ?thesis
  proof (cases "TermIsFreeVar t"; cases "TermIsFreeVar u")
    assume "TermIsFreeVar t" "TermIsFreeVar u"
    then show ?thesis using assms(4-6) inj_onD [OF assms(7)] by (simp add: entry_no_def)
  next
    assume t: "TermIsFreeVar t" and u: "\<not> TermIsFreeVar u"
    then show ?thesis using entry [OF assms(3) u] assms(4) assms(8) [OF assms(5) [OF t]] by (simp add: entry_no_def)
  next
    assume t: "\<not> TermIsFreeVar t" and u: "TermIsFreeVar u"
    then show ?thesis using entry [OF assms(2) t] assms(4) assms(8) [OF assms(6) [OF u]] by (simp add: entry_no_def)
  next
    assume "\<not> TermIsFreeVar t" "\<not> TermIsFreeVar u"
    then show ?thesis using assms(2-4) store_okD(4) [OF assms(1)] by (auto simp: TermIsShared_def entry_no_def)
  qed
qed

lemma tb_termtop_insert_ok:
  assumes "store_ok st" and "\<not> TermIsFreeVar t" and "\<forall>a \<in> set (t_args t). TermIsShared st a"
  shows "\<exists>st'. tb_termtop_insert st t = Some (t, st') \<and> store_ok st' \<and> store_le st st' \<and> TermIsShared st' t"
proof (cases "term_store st t")
  case (Some n)
  then show ?thesis using assms by (auto simp: tb_termtop_insert_def list_all_iff TermIsShared_def)
next
  case None
  let ?st = "st\<lparr>in_count := in_count st + 1, term_store := (term_store st)(t \<mapsto> in_count st + 1)\<rparr>"
  have le: "store_le st ?st" using None by (auto simp: store_le_def map_le_def)
  note mono = store_le_shared [OF le]
  have bound: "n \<le> in_count st" if "term_store st u = Some n" for u n using store_okD(2) [OF assms(1) that] by blast
  have "store_ok ?st"
    unfolding store_ok_def
  proof (intro conjI allI impI)
    fix u n assume u: "term_store ?st u = Some n"
    show "\<not> TermIsFreeVar u" "1 \<le> n" "n \<le> in_count ?st" "\<forall>a \<in> set (t_args u). TermIsShared ?st a"
      using u assms(2,3) store_okD(1) [OF assms(1)] store_okD(2) [OF assms(1), of u n] mono
        store_okD(3) [OF assms(1), of u] by (auto simp: TermIsShared_def split: if_splits)
  next
    fix u v n assume "term_store ?st u = Some n" "term_store ?st v = Some n"
    then show "u = v"
      using store_okD(4) [OF assms(1), of u n v] bound [of u n] bound [of v n] by (auto split: if_splits)
  qed (use store_okD(1) [OF assms(1)] in simp)
  moreover have "tb_termtop_insert st t = Some (t, ?st)"
    using assms None by (simp add: tb_termtop_insert_def list_all_iff)
  moreover have "TermIsShared ?st t" by (simp add: TermIsShared_def)
  ultimately show ?thesis using le by blast
qed

text \<open>A change of the banks that only shows in what they hold in addition to before.\<close>

definition vbs_same :: "VarBanks \<Rightarrow> VarBanks \<Rightarrow> bool" where
  "vbs_same vbs vbs' \<longleftrightarrow> length vbs' = length vbs \<and> (\<forall>k < length vbs. vb_same (vbs ! k) (vbs' ! k))"

definition known :: "nat \<Rightarrow> VarBanks \<Rightarrow> Term_p \<Rightarrow> bool" where
  "known p vbs v \<longleftrightarrow> (let a = var_bank v in a < length vbs \<and> (a = p \<or> shadow (vbs ! a) = Some p) \<and>
     var_code v < 0 \<and> vb_vars (vbs ! a) (nat (- var_code v)) = Some v)"

definition prim :: "nat \<Rightarrow> Term_p \<Rightarrow> Term_p" where
  "prim p v = var_cell p (var_code v) (t_type v)"


lemma vbs_same_refl [simp]: "vbs_ok vbs \<Longrightarrow> vbs_same vbs vbs"
  using vb_same_refl [OF vb_ok_rep [OF vbs_core_at(1) [OF vbs_ok_core]]] by (simp add: vbs_same_def)

lemma vbs_same_trans: "vbs_same vbs vbs' \<Longrightarrow> vbs_same vbs' vbs'' \<Longrightarrow> vbs_same vbs vbs''"
  by (simp add: vbs_same_def vb_same_def)

lemma vbs_same_known: "vbs_same vbs vbs' \<Longrightarrow> known p vbs v \<Longrightarrow> known p vbs' v"
  by (auto simp: vbs_same_def known_def Let_def vb_same_def vb_rest_def)

lemma vbs_ext_known: "vbs_ext vbs vbs' \<Longrightarrow> known p vbs v \<Longrightarrow> known p vbs' v"
  using vbs_extD by (auto simp: known_def Let_def)

lemma vbs_same_ext: "vbs_same vbs vbs' \<Longrightarrow> vbs_ext vbs vbs'"
  using vb_ext_same by (auto simp: vbs_same_def vbs_ext_def)

lemma known_prim:
  assumes "vbs_ok vbs" and "p < length vbs" and "known p vbs v"
  shows "vb_vars (vbs ! p) (nat (- var_code v)) = Some (prim p v)" "t_type v \<noteq> 0" "var_code v < 0"
proof -
  let ?a = "var_bank v" and ?i = "nat (- var_code v)"
  have k: "?a < length vbs" "?a = p \<or> shadow (vbs ! ?a) = Some p" "var_code v < 0" "vb_vars (vbs ! ?a) ?i = Some v"
    using assms(3) by (simp_all add: known_def Let_def)
  note core = vbs_ok_core [OF assms(1)]
  note ok = vbs_core_at(1) [OF core assms(2)]
  obtain w where w: "vb_vars (vbs ! p) ?i = Some w" "t_type w = t_type v"
  proof (cases "?a = p")
    case False
    then have "map_option t_type (vb_vars (vbs ! p) ?i) = map_option t_type (vb_vars (vbs ! ?a) ?i)"
      using vbs_core_shadow(4) [OF core k(1)] k(2) by blast
    then show thesis using that k(4) by auto
  qed (use k(4) that in auto)
  have inv: "t_type w \<noteq> 0" "w = var_cell p (- int ?i) (t_type w)"
    using ok w(1) unfolding VarBanks.vb_ok_def vb_inv_def by blast+
  then have "w = prim p v" using w(2) k(3) by (simp add: prim_def)
  then show "vb_vars (vbs ! p) ?i = Some (prim p v)" "t_type v \<noteq> 0" "var_code v < 0" using w inv(1) k(3) by simp_all
qed

lemma known_insert:
  assumes "vbs_ok vbs" and "p < length vbs" and "known p vbs v"
  shows "\<exists>vbs'. VarBankVarAssertAlloc vbs p (var_code v) (t_type v) = Some (prim p v, vbs') \<and> vbs_ok vbs' \<and> vbs_same vbs vbs'"
proof -
  note k = known_prim [OF assms] and core = vbs_ok_core [OF assms(1)]
  have ty: "t_type (prim p v) = t_type v" by (simp add: prim_def)
  obtain b where b: "VarBankVarAssertAlloc vbs p (var_code v) (t_type v) = Some (prim p v, vbs[p := b])" "vb_same (vbs ! p) b"
    using VarBankVarAssertAlloc_find [OF vb_ok_rep [OF vbs_core_at(1) [OF core assms(2)]] assms(2) k(3) _ k(1)] k(2) ty
    by metis
  moreover have "vbs_same vbs (vbs[p := b])"
    using b(2) assms(2) vb_same_refl [OF vb_ok_rep [OF vbs_core_at(1) [OF core]]] by (auto simp: vbs_same_def nth_list_update)
  ultimately show ?thesis using vbs_ok_same(1) [OF assms(1,2) b(2)] by blast
qed

text \<open>What holds of the banks while terms over the variables \<open>V\<close> and the shared terms \<open>S\<close> are inserted.\<close>

definition banks_inv :: "nat \<Rightarrow> Term_p set \<Rightarrow> Term_p set \<Rightarrow> banks \<Rightarrow> bool" where
  "banks_inv p V S bks \<longleftrightarrow> vbs_ok (fst bks) \<and> store_ok (snd bks) \<and> p < length (fst bks) \<and>
     (\<forall>v \<in> V. known p (fst bks) v) \<and> (\<forall>t \<in> S. TermIsShared (snd bks) t)"

definition banks_le :: "banks \<Rightarrow> banks \<Rightarrow> bool" where
  "banks_le bks bks' \<longleftrightarrow> vbs_same (fst bks) (fst bks') \<and> store_le (snd bks) (snd bks')"

lemma banks_le_refl: "banks_inv p V S bks \<Longrightarrow> banks_le bks bks"
  by (simp add: banks_le_def banks_inv_def)

lemma banks_le_trans: "banks_le bks bks' \<Longrightarrow> banks_le bks' bks'' \<Longrightarrow> banks_le bks bks''"
  unfolding banks_le_def using vbs_same_trans store_le_trans by blast

lemma banks_le_shared: "banks_le bks bks' \<Longrightarrow> TermIsShared (snd bks) t \<Longrightarrow> TermIsShared (snd bks') t"
  unfolding banks_le_def using store_le_shared by blast

text \<open>An insertion that returns \<open>y\<close>, which is shared then.\<close>

definition inserts :: "nat \<Rightarrow> Term_p set \<Rightarrow> Term_p set \<Rightarrow> (banks \<Rightarrow> (Term_p \<times> banks) option) \<Rightarrow> Term_p \<Rightarrow> bool" where
  "inserts p V S ins y \<longleftrightarrow> (\<forall>bks. banks_inv p V S bks \<longrightarrow>
     (\<exists>bks'. ins bks = Some (y, bks') \<and> banks_inv p V S bks' \<and> banks_le bks bks' \<and> TermIsShared (snd bks') y))"

lemma insertsD:
  assumes "inserts p V S ins y" and "banks_inv p V S bks"
  obtains bks' where "ins bks = Some (y, bks')" "banks_inv p V S bks'" "banks_le bks bks'" "TermIsShared (snd bks') y"
  using assms unfolding inserts_def by blast

lemma map_st_inserts:
  assumes "list_all2 (\<lambda>x y. inserts p V S (f x) y) xs ys" and "banks_inv p V S bks"
  shows "\<exists>bks'. map_st f xs bks = Some (ys, bks') \<and> banks_inv p V S bks' \<and> banks_le bks bks' \<and>
    (\<forall>y \<in> set ys. TermIsShared (snd bks') y)"
  using assms
proof (induction arbitrary: bks rule: list_all2_induct)
  case (Cons x xs y ys)
  obtain b1 where b1: "f x bks = Some (y, b1)" "banks_inv p V S b1" "banks_le bks b1" "TermIsShared (snd b1) y"
    using insertsD [OF Cons.hyps(1) Cons.prems] .
  obtain b2 where b2: "map_st f xs b1 = Some (ys, b2)" "banks_inv p V S b2" "banks_le b1 b2"
    "\<forall>y \<in> set ys. TermIsShared (snd b2) y" using Cons.IH [OF b1(2)] by blast
  then show ?case using b1 banks_le_trans [OF b1(3) b2(3)] banks_le_shared [OF b2(3) b1(4)] by auto
qed (auto intro: banks_le_refl)

lemma top_insert_inserts:
  assumes "banks_inv p V S bks" and "\<not> TermIsFreeVar t" and "\<forall>y \<in> set ys. TermIsShared (snd bks) y"
  shows "\<exists>bks'. top_insert t ys bks = Some (TermCell (f_code t) (t_predpos t) (t_type t) ys, bks') \<and> banks_inv p V S bks' \<and>
    banks_le bks bks' \<and> TermIsShared (snd bks') (TermCell (f_code t) (t_predpos t) (t_type t) ys)"
proof -
  let ?t = "TermCell (f_code t) (t_predpos t) (t_type t) ys"
  obtain st' where st': "tb_termtop_insert (snd bks) ?t = Some (?t, st')" "store_ok st'" "store_le (snd bks) st'"
    "TermIsShared st' ?t"
    using tb_termtop_insert_ok [of "snd bks" ?t] assms by (auto simp: banks_inv_def TermIsFreeVar_def)
  then show ?thesis
    using assms(1) store_le_shared [OF st'(3)]
    by (auto simp: top_insert_def split_def banks_inv_def banks_le_def)
qed

lemma node_inserts:
  assumes "list_all2 (\<lambda>x y. inserts p V S (f x) y) xs ys" and "\<not> TermIsFreeVar t"
  shows "inserts p V S (\<lambda>bks. do { (as, bks) \<leftarrow> map_st f xs bks; top_insert t as bks })
    (TermCell (f_code t) (t_predpos t) (t_type t) ys)"
  unfolding inserts_def
proof (intro allI impI)
  fix bks assume "banks_inv p V S bks"
  then obtain b1 where b1: "map_st f xs bks = Some (ys, b1)" "banks_inv p V S b1" "banks_le bks b1"
    "\<forall>y \<in> set ys. TermIsShared (snd b1) y" using map_st_inserts [OF assms(1)] by blast
  then show "\<exists>bks'. do { (as, bks) \<leftarrow> map_st f xs bks; top_insert t as bks } =
      Some (TermCell (f_code t) (t_predpos t) (t_type t) ys, bks') \<and> banks_inv p V S bks' \<and> banks_le bks bks' \<and>
      TermIsShared (snd bks') (TermCell (f_code t) (t_predpos t) (t_type t) ys)"
    using top_insert_inserts [OF b1(2) assms(2) b1(4)] banks_le_trans [OF b1(3)] by auto
qed

lemma prim_shared: "vbs_ok vbs \<Longrightarrow> p < length vbs \<Longrightarrow> known p vbs v \<Longrightarrow> TermIsFreeVar (prim p v)"
  using var_cell_free [OF vbs_core_at(2) [OF vbs_ok_core]] by (simp add: prim_def known_def Let_def)

lemma var_inserts:
  assumes "v \<in> V" and "tb_vars bank = p"
  shows "inserts p V S (var_insert bank v) (prim p v)"
  unfolding inserts_def
proof (intro allI impI)
  fix bks assume inv: "banks_inv p V S bks"
  then have b: "vbs_ok (fst bks)" "p < length (fst bks)" "known p (fst bks) v" using assms(1) by (auto simp: banks_inv_def)
  obtain vbs' where v: "VarBankVarAssertAlloc (fst bks) p (var_code v) (t_type v) = Some (prim p v, vbs')" "vbs_ok vbs'"
    "vbs_same (fst bks) vbs'" using known_insert [OF b] by blast
  have len: "length vbs' = length (fst bks)" using v(3) by (simp add: vbs_same_def)
  then show "\<exists>bks'. var_insert bank v bks = Some (prim p v, bks') \<and> banks_inv p V S bks' \<and> banks_le bks bks' \<and>
      TermIsShared (snd bks') (prim p v)"
    using v inv vbs_same_known [OF v(3)] prim_shared [OF b] assms(2)
    by (auto simp: var_insert_def split_def banks_inv_def banks_le_def TermIsShared_def)
qed

lemma return_inserts: "t \<in> S \<Longrightarrow> inserts p V S (\<lambda>bks. Some (t, bks)) t"
  by (auto simp: inserts_def banks_inv_def intro: banks_le_refl)

lemma inserts_cong: "inserts p V S f y \<Longrightarrow> (\<And>bks. banks_inv p V S bks \<Longrightarrow> g bks = f bks) \<Longrightarrow> inserts p V S g y"
  unfolding inserts_def by simp

section \<open>Instances\<close>

lemma TermIsGround_vars: "TermIsGround t \<longleftrightarrow> term_vars t = {}"
  by (induction t) (auto simp: list_all_iff)

lemma full_head:
  assumes "full b t u" and "binds_ok sg b"
  obtains t' where "TermDeref b t DEREF_ALWAYS = Some (t', DEREF_ALWAYS)" "TermIsFreeVar t'" "u = t'"
  | t' us where "TermDeref b t DEREF_ALWAYS = Some (t', DEREF_ALWAYS)" "\<not> TermIsFreeVar t'"
    "u = TermCell (f_code t') (t_predpos t') (t_type t') us" "list_all2 (full b) (t_args t') us" "full b t' u"
proof -
  obtain t' where t': "deref_always b t = Some t'" "full b t' u" "b t' = None" using full_deref [OF assms] by blast
  have d: "TermDeref b t DEREF_ALWAYS = Some (t', DEREF_ALWAYS)"
    using t'(1) binds_ok_assert [OF assms(2)] by (simp add: TermDeref_def)
  show thesis
  proof (cases "TermIsFreeVar t'")
    case True
    then show ?thesis using that(1) [OF d True] full_unboundE [OF t'(2) True t'(3)] by blast
  next
    case False
    obtain f q ty as where c: "t' = TermCell f q ty as" by (cases t')
    obtain us where "u = TermCell f q ty us" "list_all2 (full b) as us"
      using full_funE [OF t'(2) [unfolded c]] False c by auto
    then show ?thesis using that(2) [OF d False] c t'(2) by simp
  qed
qed

lemma TBInsert_inserts:
  assumes "full b t u" and "binds_ok sg b" and "term_vars u \<subseteq> V" and "tb_vars bank = p"
  shows "inserts p V S (TBInsert bank b t DEREF_ALWAYS) (inst (prim p) u)"
  using assms(1,3)
proof (induction "size u" arbitrary: t u rule: less_induct)
  case less
  show ?case
    using less.prems(1) assms(2)
  proof (cases rule: full_head)
    case (1 t')
    then have "TBInsert bank b t DEREF_ALWAYS = var_insert bank t'" by (subst TBInsert.simps [abs_def]) (simp add: fun_eq_iff)
    then show ?thesis
      using 1 less.prems(2) var_inserts [OF _ assms(4), of t' V S] wf_term_var_vars [OF 1(2)] by simp
  next
    case (2 t' us)
    have f: "\<not> f_code t' < 0" using 2(2) by (simp add: TermIsFreeVar_def)
    have "inserts p V S (TBInsert bank b x DEREF_ALWAYS) (inst (prim p) y)" if "y \<in> set us" "full b x y" for x y
      using less.hyps [of y x] size_arg [of y u] less.prems(2) that f by (auto simp: 2(3))
    then have "list_all2 (\<lambda>x y. inserts p V S (TBInsert bank b x DEREF_ALWAYS) y) (t_args t') (map (inst (prim p)) us)"
      using 2(4) by (auto simp: list_all2_conv_all_nth)
    note node = node_inserts [OF this 2(2)]
    have eq: "inst (prim p) u = TermCell (f_code t') (t_predpos t') (t_type t') (map (inst (prim p)) us)"
      using f by (simp add: 2(3))
    show ?thesis
      unfolding eq by (rule inserts_cong [OF node]) (subst TBInsert.simps, simp add: 2(1,2))
  qed
qed

text \<open>Terms whose subterms are shared, where ground terms are not copied.\<close>

definition all_shared :: "Term_p set \<Rightarrow> bindings \<Rightarrow> bool" where
  "all_shared S b \<longleftrightarrow> (\<forall>t \<in> S. \<not> TermIsFreeVar t \<longrightarrow> set (t_args t) \<subseteq> S) \<and> (\<forall>v t. b v = Some t \<longrightarrow> t \<in> S)"

lemma deref_shared:
  assumes "TermDeref b t DEREF_ALWAYS = Some (t', d)" and "all_shared S b" and "t \<in> S"
  shows "t' \<in> S"
proof -
  have "deref_always b t = Some t'" using assms(1) by (auto simp: TermDeref_def bind_eq_Some_conv)
  then show ?thesis
    using deref_always_in [of b t t' "\<lambda>t. t \<in> S" b] assms(2,3) by (auto simp: binds_in_def all_shared_def)
qed

lemma full_ground:
  assumes "full b t u" and "TermIsGround t"
  shows "u = t"
proof -
  have "full b t t" using assms(2) by (intro full_refl) (simp add: TermIsGround_vars)
  then show ?thesis using full_det assms(1) by blast
qed

lemma ground_not_var: "TermIsGround t \<Longrightarrow> \<not> TermIsFreeVar t"
  by (cases t) simp

lemma TBInsertOpt_inserts:
  assumes "full b t u" and "binds_ok sg b" and "term_vars u \<subseteq> V" and "tb_vars bank = p" and "all_shared S b" and "t \<in> S"
  shows "inserts p V S (TBInsertOpt bank b t DEREF_ALWAYS) (inst (prim p) u)"
  using assms(1,3,6)
proof (induction "size u" arbitrary: t u rule: less_induct)
  case less
  show ?case
    using less.prems(1) assms(2)
  proof (cases rule: full_head)
    case (1 t')
    then have "TBInsertOpt bank b t DEREF_ALWAYS = var_insert bank t'"
      using ground_not_var by (auto simp: fun_eq_iff TBInsertOpt.simps [of bank b t])
    then show ?thesis
      using 1 less.prems(2) var_inserts [OF _ assms(4), of t' V S] wf_term_var_vars [OF 1(2)] by simp
  next
    case (2 t' us)
    have in_S: "t' \<in> S" by (rule deref_shared [OF 2(1) assms(5) less.prems(3)])
    have f: "\<not> f_code t' < 0" using 2(2) by (simp add: TermIsFreeVar_def)
    have eq: "inst (prim p) u = TermCell (f_code t') (t_predpos t') (t_type t') (map (inst (prim p)) us)"
      using f by (simp add: 2(3))
    show ?thesis
    proof (cases "TermIsGround t'")
      case True
      have "inst (prim p) u = t'"
        unfolding full_ground [OF 2(5) True] using True by (intro inst_id) (simp add: TermIsGround_vars)
      moreover have "TBInsertOpt bank b t DEREF_ALWAYS bks = Some (t', bks)" if "banks_inv p V S bks" for bks
        using True 2(1) in_S that by (subst TBInsertOpt.simps) (simp add: banks_inv_def)
      ultimately show ?thesis using inserts_cong [OF return_inserts [OF in_S]] by simp
    next
      case False
      have "inserts p V S (TBInsertOpt bank b x DEREF_ALWAYS) (inst (prim p) y)"
        if "x \<in> set (t_args t')" "y \<in> set us" "full b x y" for x y
        using less.hyps [of y x] size_arg [of y u] less.prems(2) that f in_S 2(2) assms(5)
        by (auto simp: 2(3) all_shared_def)
      then have "list_all2 (\<lambda>x y. inserts p V S (TBInsertOpt bank b x DEREF_ALWAYS) y) (t_args t') (map (inst (prim p)) us)"
        using 2(4) by (auto simp: list_all2_conv_all_nth)
      note node = node_inserts [OF this 2(2)]
      show ?thesis
        unfolding eq by (rule inserts_cong [OF node]) (subst TBInsertOpt.simps, simp add: 2(1,2) False)
    qed
  qed
qed

end
