(* ===== verification/SubstNorms.thy ===== *)
theory SubstNorms
  imports VarBanks Unification PLocalStacks Equations
begin

text \<open>
  Normalising substitutions (\<open>SubstNormTerm\<close> of \<open>TERMS/cte_subst.c\<close>, \<open>SubstNormEqn\<close> of
  \<open>CLAUSES/ccl_eqn.c\<close>, \<open>NormSubstEqnListExcept\<close> of \<open>CLAUSES/ccl_eqnlist.c\<close>): after a unification the
  unbound variables of the remaining literals are bound to fresh variables of another bank, marked
  by \<open>TPSpecialFlag\<close>. The cells with this flag are the set \<open>special\<close>. \<open>norm_inv\<close> says that the
  bindings made so far rename variables to different variables in use of the bank, so that the
  result is a variant of the instance before.
\<close>

section \<open>The code\<close>

text \<open>The stack of the substitution, the bindings, the flagged cells and the variable banks.\<close>

type_synonym norm_state = "Term_p pstack \<times> bindings \<times> Term_p set \<times> VarBanks"

partial_function (option) norm_loop ::
  "Term_p plocalstack \<Rightarrow> Term_p pstack \<Rightarrow> bindings \<Rightarrow> Term_p set \<Rightarrow> VarBanks \<Rightarrow> nat \<Rightarrow> norm_state option" where [code]:
  "norm_loop stack subst b special vbs vars =
     (if PLocalStackEmpty stack then Some (subst, b, special, vbs)
      else do { (term, stack) \<leftarrow> PLocalStackPop stack;
                term \<leftarrow> TermDerefAlways b term;
                if TermIsFreeVar term
                then if term \<notin> special
                     then do { (newvar, vbs) \<leftarrow> VarBankGetFreshVar vbs vars (t_type term);
                               let special = insert newvar special;
                               (_, subst, b) \<leftarrow> SubstAddBinding subst b term newvar;
                               norm_loop stack subst b special vbs vars }
                     else norm_loop stack subst b special vbs vars
                else do { stack \<leftarrow> PLocalStackPushTermArgsReversed stack (t_args term);
                          norm_loop stack subst b special vbs vars } })"

definition SubstNormTerm ::
  "Term_p \<Rightarrow> Term_p pstack \<Rightarrow> bindings \<Rightarrow> Term_p set \<Rightarrow> VarBanks \<Rightarrow> nat \<Rightarrow> (nat \<times> norm_state) option" where
  "SubstNormTerm term subst b special vbs vars =
     do { let ret = PStackGetSP subst;
          stack \<leftarrow> PLocalStackPush PLocalStackInit term;
          st \<leftarrow> norm_loop stack subst b special vbs vars;
          Some (ret, st) }"

definition SubstNormEqn ::
  "Eqn \<Rightarrow> Term_p pstack \<Rightarrow> bindings \<Rightarrow> Term_p set \<Rightarrow> VarBanks \<Rightarrow> nat \<Rightarrow> (nat \<times> norm_state) option" where
  "SubstNormEqn eq subst b special vbs vars =
     do { (res, subst, b, special, vbs) \<leftarrow> SubstNormTerm (lterm eq) subst b special vbs vars;
          (_, st) \<leftarrow> SubstNormTerm (rterm eq) subst b special vbs vars;
          Some (res, st) }"

text \<open>The literal \<open>except\<close> is given by its position in the list, and is \<open>None\<close> for \<open>NULL\<close>.\<close>

primrec norm_list_loop ::
  "Eqn list \<Rightarrow> nat option \<Rightarrow> Term_p pstack \<Rightarrow> bindings \<Rightarrow> Term_p set \<Rightarrow> VarBanks \<Rightarrow> nat \<Rightarrow> norm_state option" where
  "norm_list_loop [] except subst b special vbs vars = Some (subst, b, special, vbs)"
| "norm_list_loop (handle # list) except subst b special vbs vars =
     (if except \<noteq> Some 0
      then do { (_, subst, b, special, vbs) \<leftarrow> SubstNormEqn handle subst b special vbs vars;
                norm_list_loop list (map_option (\<lambda>i. i - 1) except) subst b special vbs vars }
      else norm_list_loop list None subst b special vbs vars)"

definition NormSubstEqnListExcept ::
  "Eqn list \<Rightarrow> nat option \<Rightarrow> Term_p pstack \<Rightarrow> bindings \<Rightarrow> Term_p set \<Rightarrow> VarBanks \<Rightarrow> nat \<Rightarrow> (nat \<times> norm_state) option" where
  "NormSubstEqnListExcept list except subst b special vbs vars =
     do { let res = PStackGetSP subst;
          st \<leftarrow> norm_list_loop list except subst b special vbs vars;
          Some (res, st) }"


section \<open>The invariant\<close>

definition norm_inv :: "Sig \<Rightarrow> nat \<Rightarrow> bindings \<Rightarrow> bindings \<Rightarrow> Term_p set \<Rightarrow> VarBanks \<Rightarrow> bool" where
  "norm_inv sg a b0 b special vbs \<longleftrightarrow> vbs_ok vbs \<and> a < length vbs \<and> subst_wf sg b0 \<and> subst_wf sg b \<and> b0 \<subseteq>\<^sub>m b \<and>
     (\<forall>v \<in> special. var_bank v = a) \<and> (\<forall>v. var_bank v = a \<longrightarrow> b v = None) \<and>
     (\<forall>v w. b0 v = None \<longrightarrow> b v = Some w \<longrightarrow> TermIsFreeVar w \<and> w \<in> in_use (vbs ! a) \<and> w \<in> special) \<and>
     (\<forall>v v' w. b0 v = None \<longrightarrow> b0 v' = None \<longrightarrow> b v = Some w \<longrightarrow> b v' = Some w \<longrightarrow> v = v')"

definition norm_ok :: "Sig \<Rightarrow> nat \<Rightarrow> bindings \<Rightarrow> Term_p set \<Rightarrow> Term_p \<Rightarrow> bool" where
  "norm_ok sg a b special t \<longleftrightarrow> wf_term sg t \<and> (\<forall>v \<in> term_vars (sigma b t). var_bank v = a \<longrightarrow> v \<in> special)"

lemma norm_invD:
  assumes "norm_inv sg a b0 b special vbs"
  shows "vbs_ok vbs" "a < length vbs" "subst_wf sg b0" "subst_wf sg b" "b0 \<subseteq>\<^sub>m b"
    "\<And>v. v \<in> special \<Longrightarrow> var_bank v = a" "\<And>v. var_bank v = a \<Longrightarrow> b v = None"
    "\<And>v w. b0 v = None \<Longrightarrow> b v = Some w \<Longrightarrow> TermIsFreeVar w \<and> w \<in> in_use (vbs ! a) \<and> w \<in> special"
    "\<And>v v' w. b0 v = None \<Longrightarrow> b0 v' = None \<Longrightarrow> b v = Some w \<Longrightarrow> b v' = Some w \<Longrightarrow> v = v'"
  using assms unfolding norm_inv_def by blast+

lemma norm_invI:
  assumes "vbs_ok vbs" "a < length vbs" "subst_wf sg b0" "subst_wf sg b" "b0 \<subseteq>\<^sub>m b"
    "\<And>v. v \<in> special \<Longrightarrow> var_bank v = a" "\<And>v. var_bank v = a \<Longrightarrow> b v = None"
    "\<And>v w. b0 v = None \<Longrightarrow> b v = Some w \<Longrightarrow> TermIsFreeVar w \<and> w \<in> in_use (vbs ! a) \<and> w \<in> special"
    "\<And>v v' w. b0 v = None \<Longrightarrow> b0 v' = None \<Longrightarrow> b v = Some w \<Longrightarrow> b v' = Some w \<Longrightarrow> v = v'"
  shows "norm_inv sg a b0 b special vbs"
  using assms unfolding norm_inv_def by blast

lemma norm_inv_init:
  assumes "vbs_ok vbs" and "a < length vbs" and "subst_wf sg b" and "\<And>v. v \<in> special \<Longrightarrow> var_bank v = a"
    and "\<And>v. var_bank v = a \<Longrightarrow> b v = None"
  shows "norm_inv sg a b b special vbs"
  using assms by (intro norm_invI) auto

lemma norm_bind:
  assumes inv: "norm_inv sg a b0 b special vbs" and v: "TermIsFreeVar v" "b v = None" "wf_term sg v" "var_bank v \<noteq> a"
    and fresh: "VarBankGetFreshVar vbs a (t_type v) = Some (w, vbs')" "vbs_ok vbs'" "vbs_ext vbs vbs'"
      "wf_term sg w" "TermIsFreeVar w" "t_type w = t_type v" "var_bank w = a" "w \<notin> in_use (vbs ! a)"
      "in_use (vbs' ! a) = insert w (in_use (vbs ! a))"
  shows "norm_inv sg a b0 (b(v \<mapsto> w)) (insert w special) vbs'"
    and "wf_term sg t \<Longrightarrow> sigma (b(v \<mapsto> w)) t = inst (\<lambda>x. if x = v then w else x) (sigma b t)"
proof -
  note I = norm_invD [OF inv]
  have vw: "v \<noteq> w" using v(4) fresh(7) by blast
  have ok: "binds_ok sg b" using I(4) by (simp add: subst_wf_def)
  have sw: "sigma b w = w" by (rule sigma_unbound [OF ok fresh(5) I(7) [OF fresh(7)]])
  have occ: "v \<notin> term_vars (sigma b w)" using vw fresh(5) by (simp add: sw wf_term_var_vars)
  note upd = subst_wf_upd [OF I(4) v(2,1,3) fresh(4,6) occ]
  show "wf_term sg t \<Longrightarrow> sigma (b(v \<mapsto> w)) t = inst (\<lambda>x. if x = v then w else x) (sigma b t)"
    using upd(2) unfolding sw .
  have b0v: "b0 v = None" using I(5) v(2) by (metis domIff map_le_def)
  show "norm_inv sg a b0 (b(v \<mapsto> w)) (insert w special) vbs'"
  proof (rule norm_invI)
    show "b0 \<subseteq>\<^sub>m b(v \<mapsto> w)" using I(5) b0v by (auto simp: map_le_def)
    show "a < length vbs'" using I(2) vbs_extD(1) [OF fresh(3)] by simp
    show "TermIsFreeVar y \<and> y \<in> in_use (vbs' ! a) \<and> y \<in> insert w special" if "b0 x = None" "(b(v \<mapsto> w)) x = Some y" for x y
      using I(8) [OF that(1), of y] that(2) fresh(5,9) by (auto split: if_splits)
    show "x = x'" if "b0 x = None" "b0 x' = None" "(b(v \<mapsto> w)) x = Some y" "(b(v \<mapsto> w)) x' = Some y" for x x' y
      using I(8) [OF that(1), of w] I(8) [OF that(2), of w] I(9) [OF that(1,2), of y] that(3,4) fresh(8)
      by (auto split: if_splits)
    show "(b(v \<mapsto> w)) x = None" if "var_bank x = a" for x using I(7) [OF that] that v(4) by auto
    show "var_bank x = a" if "x \<in> insert w special" for x using I(6) that fresh(7) by auto
  qed (use fresh I upd in auto)
qed


lemma size_list_eqI: "(\<And>x. x \<in> set xs \<Longrightarrow> f x = g x) \<Longrightarrow> size_list f xs = size_list g xs"
  by (induction xs) auto

lemma sigma_extend:
  assumes "subst_wf sg b" and "subst_wf sg b'" and "b \<subseteq>\<^sub>m b'" and "wf_term sg t"
  shows "sigma b' t = inst (sigma b') (sigma b t)"
  using sigma_absorb [OF sigma_full [OF assms(1,4)] assms(1-4)] by simp

lemma norm_fresh:
  assumes "norm_inv sg a b0 b special vbs" and "wf_term sg v"
  obtains w vbs' where "VarBankGetFreshVar vbs a (t_type v) = Some (w, vbs')" "vbs_ok vbs'" "vbs_ext vbs vbs'"
    "wf_term sg w" "TermIsFreeVar w" "t_type w = t_type v" "var_bank w = a" "w \<notin> in_use (vbs ! a)"
    "in_use (vbs' ! a) = insert w (in_use (vbs ! a))"
proof -
  have "t_type v \<noteq> 0" using assms(2) by (cases v) simp
  then show thesis
    using VarBankGetFreshVar_in_use [OF norm_invD(1,2) [OF assms(1)], of "t_type v" sg] that by blast
qed

text \<open>What normalising the terms \<open>ts\<close> does.\<close>

definition norm_post ::
  "Sig \<Rightarrow> nat \<Rightarrow> bindings \<Rightarrow> bindings \<Rightarrow> Term_p list \<Rightarrow> bindings \<Rightarrow> Term_p set \<Rightarrow> VarBanks \<Rightarrow> Term_p list \<Rightarrow>
   norm_state option \<Rightarrow> bool" where
  "norm_post sg a b0 b1 tr b special vbs ts r \<longleftrightarrow> (\<exists>s' b' special' vbs'. r = Some (s', b', special', vbs') \<and>
     norm_inv sg a b0 b' special' vbs' \<and> trail b1 tr b' s' \<and> vbs_ext vbs vbs' \<and> special \<subseteq> special' \<and> b \<subseteq>\<^sub>m b' \<and>
     (\<forall>t \<in> set ts. term_vars (sigma b' t) \<subseteq> special'))"

lemma norm_postI:
  assumes "r = Some (s', b', special', vbs')" and "norm_inv sg a b0 b' special' vbs'" and "trail b1 tr b' s'"
    and "vbs_ext vbs vbs'" and "special \<subseteq> special'" and "b \<subseteq>\<^sub>m b'"
    and "\<And>t. t \<in> set ts \<Longrightarrow> term_vars (sigma b' t) \<subseteq> special'"
  shows "norm_post sg a b0 b1 tr b special vbs ts r"
  using assms unfolding norm_post_def by blast

lemma norm_postE:
  assumes "norm_post sg a b0 b1 tr b special vbs ts r"
  obtains s' b' special' vbs' where "r = Some (s', b', special', vbs')" "norm_inv sg a b0 b' special' vbs'"
    "trail b1 tr b' s'" "vbs_ext vbs vbs'" "special \<subseteq> special'" "b \<subseteq>\<^sub>m b'"
    "\<forall>t \<in> set ts. term_vars (sigma b' t) \<subseteq> special'"
  using assms unfolding norm_post_def by blast

lemma norm_loop_ok:
  assumes "norm_inv sg a b0 b special vbs" and "pl_ok stack" and "pl_list stack = ts" and "trail b1 tr b s"
    and "\<forall>t \<in> set ts. norm_ok sg a b special t"
  shows "norm_post sg a b0 b1 tr b special vbs ts (norm_loop stack s b special vbs a)"
  using assms
proof (induction "sum_list (map (\<lambda>t. size (sigma b t)) ts)" arbitrary: ts stack s b special vbs rule: less_induct)
  case less
  note I = norm_invD [OF less.prems(1)]
  show ?case
  proof (cases "PLocalStackEmpty stack")
    case True
    then have "ts = []" using less.prems(2,3) by (simp add: PLocalStackEmpty_iff)
    then show ?thesis using True less.prems by (subst norm_loop.simps, intro norm_postI) auto
  next
    case False
    then obtain xs t st where pop: "ts = xs @ [t]" "PLocalStackPop stack = Some (t, st)" "pl_ok st" "pl_list st = xs"
      using PLocalStackPop_some [OF less.prems(2)] less.prems(3) by metis
    have wf: "wf_term sg t" and sp: "\<And>v. v \<in> term_vars (sigma b t) \<Longrightarrow> var_bank v = a \<Longrightarrow> v \<in> special"
      using less.prems(5) by (auto simp: pop(1) norm_ok_def)
    obtain t' where t': "TermDerefAlways b t = Some t'" "wf_term sg t'" "b t' = None" "sigma b t' = sigma b t"
      using sigma_deref [OF I(4) wf] by blast
    note ext = sigma_extend [OF I(4) _ _ wf]
    have size_pos: "0 < size (sigma b t)" by (cases "sigma b t") simp
    have ok: "binds_ok sg b" using I(4) by (simp add: subst_wf_def)
    show ?thesis
    proof (cases "TermIsFreeVar t'")
      case var: True
      have st: "sigma b t = t'" using sigma_unbound [OF ok var t'(3)] t'(4) by simp
      show ?thesis
      proof (cases "t' \<in> special")
        case True
        have "norm_post sg a b0 b1 tr b special vbs xs (norm_loop st s b special vbs a)"
          using less.prems pop size_pos by (intro less.hyps) auto
        then obtain s' b' sp' vbs' where p: "norm_loop st s b special vbs a = Some (s', b', sp', vbs')"
          "norm_inv sg a b0 b' sp' vbs'" "trail b1 tr b' s'" "vbs_ext vbs vbs'" "special \<subseteq> sp'" "b \<subseteq>\<^sub>m b'"
          "\<forall>t \<in> set xs. term_vars (sigma b' t) \<subseteq> sp'" by (rule norm_postE)
        note I' = norm_invD [OF p(2)]
        have okb': "binds_ok sg b'" using I'(4) by (simp add: subst_wf_def)
        then have "sigma b' t = t'"
          using ext [OF I'(4) p(6)] var st sigma_unbound [OF okb' var I'(7) [OF I(6) [OF True]]] by simp
        then have "term_vars (sigma b' t) \<subseteq> sp'" using var True p(5) by (auto simp: wf_term_var_vars)
        then show ?thesis
          using True var p pop t'(1) False by (subst norm_loop.simps, intro norm_postI) auto
      next
        case nsp: False
        then have nb: "var_bank t' \<noteq> a" using sp var by (auto simp: st wf_term_var_vars)
        obtain w vbs1 where w: "VarBankGetFreshVar vbs a (t_type t') = Some (w, vbs1)" "vbs_ok vbs1" "vbs_ext vbs vbs1"
          "wf_term sg w" "TermIsFreeVar w" "t_type w = t_type t'" "var_bank w = a" "w \<notin> in_use (vbs ! a)"
          "in_use (vbs1 ! a) = insert w (in_use (vbs ! a))"
          using norm_fresh [OF less.prems(1) t'(2)] by blast
        let ?b = "b(t' \<mapsto> w)" and ?sp = "insert w special"
        note inv1 = norm_bind(1) [OF less.prems(1) var t'(3,2) nb w]
          and sig1 = norm_bind(2) [OF less.prems(1) var t'(3,2) nb w]
        obtain n s1 where s1: "SubstAddBinding s b t' w = Some (n, s1, ?b)" "trail b1 tr ?b s1"
          using trail_add [OF less.prems(4) var t'(3,2) w(6)] by blast
        have wfxs: "wf_term sg x" if "x \<in> set xs" for x
          using less.prems(5) that by (simp add: pop(1) norm_ok_def)
        have sz: "size (inst (\<lambda>x. if x = t' then w else x) u) = size u" for u
        proof (induction u)
          case (TermCell f p ty as)
          have vs: "t_args t' = []" "t_args w = []" using t'(2) w(4,5) var by (cases t'; cases w; simp)+
          have "size t' = size w" using vs by (cases t'; cases w) simp
          moreover have "size_list (\<lambda>x. size (inst (\<lambda>x. if x = t' then w else x) x)) as = size_list size as"
            using TermCell by (intro size_list_eqI) auto
          ultimately show ?case by (auto simp: comp_def)
        qed
        have "sum_list (map (\<lambda>t. size (sigma ?b t)) xs) = sum_list (map (\<lambda>t. size (sigma b t)) xs)"
          using sig1 wfxs sz by (intro arg_cong [where f = sum_list] map_cong) auto
        then have meas: "sum_list (map (\<lambda>t. size (sigma ?b t)) xs) < sum_list (map (\<lambda>t. size (sigma b t)) ts)"
          using size_pos by (simp add: pop(1))
        have "norm_ok sg a ?b ?sp x" if "x \<in> set xs" for x
        proof -
          have "norm_ok sg a b special x" using less.prems(5) that by (simp add: pop(1))
          moreover have "term_vars (sigma ?b x) \<subseteq> insert w (term_vars (sigma b x))"
            unfolding sig1 [OF wfxs [OF that]] term_vars_inst
          proof (rule UN_least)
            fix y assume y: "y \<in> term_vars (sigma b x)"
            then show "term_vars (if y = t' then w else y) \<subseteq> insert w (term_vars (sigma b x))"
              using wf_term_var_vars [OF term_vars_free [OF y]] wf_term_var_vars [OF w(5)] by auto
          qed
          ultimately show ?thesis unfolding norm_ok_def by blast
        qed
        then have "norm_post sg a b0 b1 tr ?b ?sp vbs1 xs (norm_loop st s1 ?b ?sp vbs1 a)"
          using meas inv1 pop s1(2) by (intro less.hyps) auto
        then obtain s' b' sp' vbs' where p: "norm_loop st s1 ?b ?sp vbs1 a = Some (s', b', sp', vbs')"
          "norm_inv sg a b0 b' sp' vbs'" "trail b1 tr b' s'" "vbs_ext vbs1 vbs'" "?sp \<subseteq> sp'" "?b \<subseteq>\<^sub>m b'"
          "\<forall>t \<in> set xs. term_vars (sigma b' t) \<subseteq> sp'" by (rule norm_postE)
        note I' = norm_invD [OF p(2)]
        have okb': "binds_ok sg b'" using I'(4) by (simp add: subst_wf_def)
        have "sigma ?b t = w" using sig1 [OF wf] var by (simp add: st)
        then have "sigma b' t = w"
          using sigma_extend [OF norm_invD(4) [OF inv1] I'(4) p(6) wf] w(5) sigma_unbound [OF okb' w(5) I'(7) [OF w(7)]]
          by simp
        then have tv: "term_vars (sigma b' t) \<subseteq> sp'" using w(5) p(5) by (auto simp: wf_term_var_vars)
        have le: "b \<subseteq>\<^sub>m b'" using p(6) t'(3) by (auto simp: map_le_def split: if_splits) (metis domI option.distinct(1))
        show ?thesis
          using p tv le vbs_ext_trans [OF w(3) p(4)] False pop t'(1) nsp var w(1) s1(1)
          by (subst norm_loop.simps, intro norm_postI) auto
      qed
    next
      case fn: False
      obtain st1 where st1: "PLocalStackPushTermArgsReversed st (t_args t') = Some st1" "pl_ok st1"
        "pl_list st1 = xs @ rev (t_args t')"
        using PLocalStackPushTermArgsReversed_ok [OF pop(3)] pop(4) by blast
      note args = size_args [OF I(4) t'(2) fn, unfolded t'(4)]
      have wfargs: "wf_term sg x" if "x \<in> set (t_args t')" for x
        using t'(2) fn that by (cases t') (auto simp: TermIsFreeVar_def)
      have ok1: "norm_ok sg a b special x" if "x \<in> set (xs @ rev (t_args t'))" for x
        using that less.prems(5) wfargs sp args(2) by (auto simp: pop(1) norm_ok_def)
      have "sum_list (map (\<lambda>t. size (sigma b t)) (rev (t_args t'))) = sum_list (map (\<lambda>t. size (sigma b t)) (t_args t'))"
        by (simp add: rev_map [symmetric])
      then have "sum_list (map (\<lambda>t. size (sigma b t)) (xs @ rev (t_args t'))) < sum_list (map (\<lambda>t. size (sigma b t)) ts)"
        using args(1) by (simp add: pop(1))
      then have "norm_post sg a b0 b1 tr b special vbs (xs @ rev (t_args t')) (norm_loop st1 s b special vbs a)"
        using less.prems st1 ok1 by (intro less.hyps) auto
      then obtain s' b' sp' vbs' where p: "norm_loop st1 s b special vbs a = Some (s', b', sp', vbs')"
        "norm_inv sg a b0 b' sp' vbs'" "trail b1 tr b' s'" "vbs_ext vbs vbs'" "special \<subseteq> sp'" "b \<subseteq>\<^sub>m b'"
        "\<forall>t \<in> set (xs @ rev (t_args t')). term_vars (sigma b' t) \<subseteq> sp'" by (rule norm_postE)
      note I' = norm_invD [OF p(2)]
      have "sigma b' t = sigma b' t'"
        using ext [OF I'(4) p(6)] sigma_extend [OF I(4) I'(4) p(6) t'(2)] t'(4) by simp
      then have "term_vars (sigma b' t) \<subseteq> sp'"
        using size_args(2) [OF I'(4) t'(2) fn] p(7) by auto
      then show ?thesis
        using fn p pop t'(1) False st1(1) by (subst norm_loop.simps, intro norm_postI) auto
    qed
  qed
qed


section \<open>Terms one after the other\<close>

lemma norm_stable:
  assumes "norm_inv sg a b0 b special vbs" and "norm_inv sg a b0 b' special' vbs'" and "b \<subseteq>\<^sub>m b'"
    and "wf_term sg t" and "term_vars (sigma b t) \<subseteq> special"
  shows "sigma b' t = sigma b t"
proof -
  note I' = norm_invD [OF assms(2)]
  have okb': "binds_ok sg b'" using I'(4) by (simp add: subst_wf_def)
  have "sigma b' v = v" if "v \<in> term_vars (sigma b t)" for v
  proof -
    have "v \<in> special" using that assms(5) by blast
    then have "b' v = None" using I'(7) norm_invD(6) [OF assms(1)] by simp
    then show ?thesis by (rule sigma_unbound [OF okb' term_vars_free [OF that]])
  qed
  then have "inst (sigma b') (sigma b t) = sigma b t" by (rule inst_id)
  then show ?thesis using sigma_extend [OF norm_invD(4) [OF assms(1)] I'(4) assms(3,4)] by simp
qed

text \<open>The variables bound since \<open>b0\<close> are renamed, the others stay.\<close>

definition norm_ren :: "bindings \<Rightarrow> bindings \<Rightarrow> Term_p \<Rightarrow> Term_p" where
  "norm_ren b0 b v = (if b0 v = None then case b v of Some w \<Rightarrow> w | None \<Rightarrow> v else v)"

lemma norm_sigma:
  assumes "norm_inv sg a b0 b special vbs" and "wf_term sg t"
  shows "sigma b t = inst (norm_ren b0 b) (sigma b0 t)"
proof -
  note I = norm_invD [OF assms(1)]
  have ok: "binds_ok sg b" using I(4) by (simp add: subst_wf_def)
  have "sigma b v = norm_ren b0 b v" if "v \<in> term_vars (sigma b0 t)" for v
  proof -
    have b0: "b0 v = None" and v: "TermIsFreeVar v"
      using sigma_wf(3) [OF I(3) assms(2) that] term_vars_free [OF that] by blast+
    show ?thesis
    proof (cases "b v")
      case (Some w)
      have "TermIsFreeVar w" "w \<in> special" using I(8) [OF b0 Some] by blast+
      then have w: "TermIsFreeVar w" "b w = None" using I(7) [OF I(6)] by blast+
      then show ?thesis using sigma_bound [OF I(4) Some] sigma_unbound [OF ok w] b0 Some by (simp add: norm_ren_def)
    qed (use b0 v sigma_unbound [OF ok v] in \<open>simp add: norm_ren_def\<close>)
  qed
  then have "inst (sigma b) (sigma b0 t) = inst (norm_ren b0 b) (sigma b0 t)" by (rule inst_cong)
  then show ?thesis using sigma_extend [OF I(3,4,5) assms(2)] by simp
qed

lemma norm_ren_inj:
  assumes "norm_inv sg a b0 b special vbs"
  shows "inj_on (norm_ren b0 b) {v. var_bank v \<noteq> a}"
proof (rule inj_onI)
  note I = norm_invD [OF assms]
  fix v v' assume v: "v \<in> {v. var_bank v \<noteq> a}" "v' \<in> {v. var_bank v \<noteq> a}" "norm_ren b0 b v = norm_ren b0 b v'"
  have cases: "norm_ren b0 b x = x \<or> b0 x = None \<and> b x = Some (norm_ren b0 b x)" for x
    by (simp add: norm_ren_def split: option.splits)
  have new: "var_bank w = a" if "b0 x = None" "b x = Some w" for x w using I(6) [OF conjunct2 [OF conjunct2 [OF I(8) [OF that]]]] .
  have eq: "norm_ren b0 b v = y \<Longrightarrow> norm_ren b0 b v' = y" for y using v(3) by simp
  show "v = v'"
  proof (cases "norm_ren b0 b v = v")
    case True
    then have "v' = v \<or> b0 v' = None \<and> b v' = Some v" using cases [of v'] eq [OF True] by auto
    then show ?thesis using new [of v' v] v(1) by auto
  next
    case False
    then have bv: "b0 v = None" "b v = Some (norm_ren b0 b v)" using cases [of v] by blast+
    have "v' = norm_ren b0 b v \<or> b0 v' = None \<and> b v' = Some (norm_ren b0 b v)" using cases [of v'] unfolding eq [OF refl] by blast
    then show ?thesis using new [OF bv] v(2) I(9) [OF bv(1) _ bv(2), of v'] by auto
  qed
qed

lemma norm_ok_mono:
  assumes "norm_inv sg a b0 b special vbs" and "norm_inv sg a b0 b' special' vbs'" and "b \<subseteq>\<^sub>m b'"
    and "special \<subseteq> special'" and "norm_ok sg a b special t"
  shows "norm_ok sg a b' special' t"
proof -
  note I = norm_invD [OF assms(1)] and I' = norm_invD [OF assms(2)]
  have okb': "binds_ok sg b'" using I'(4) by (simp add: subst_wf_def)
  have wf: "wf_term sg t" using assms(5) by (simp add: norm_ok_def)
  have "v \<in> special'" if v: "v \<in> term_vars (sigma b' t)" "var_bank v = a" for v
  proof -
    obtain u where u: "u \<in> term_vars (sigma b t)" "v \<in> term_vars (sigma b' u)"
      using v(1) sigma_extend [OF I(4) I'(4) assms(3) wf] by (auto simp: term_vars_inst)
    have fu: "TermIsFreeVar u" and bu: "b u = None"
      using term_vars_free [OF u(1)] sigma_wf(3) [OF I(4) wf u(1)] by blast+
    show ?thesis
    proof (cases "b' u")
      case None
      then have "v = u" using u(2) sigma_unbound [OF okb' fu None] by (simp add: wf_term_var_vars fu)
      then show ?thesis using assms(4,5) u(1) v(2) by (auto simp: norm_ok_def)
    next
      case (Some w)
      have "b0 u = None" using I(5) bu by (metis domIff map_le_def)
      then have w: "TermIsFreeVar w" "w \<in> special'" using I'(8) Some by blast+
      then have "sigma b' u = w"
        using sigma_bound [OF I'(4) Some] sigma_unbound [OF okb' w(1) I'(7) [OF I'(6) [OF w(2)]]] by simp
      then show ?thesis using u(2) w by (simp add: wf_term_var_vars)
    qed
  qed
  then show ?thesis using wf by (simp add: norm_ok_def)
qed

lemma norm_post_init:
  "norm_inv sg a b0 b special vbs \<Longrightarrow> trail b1 tr b s \<Longrightarrow>
   norm_post sg a b0 b1 tr b special vbs [] (Some (s, b, special, vbs))"
  by (rule norm_postI) auto

lemma norm_post_trans:
  assumes "norm_post sg a b0 b1 tr b special vbs ts (Some (s', b', special', vbs'))"
    and "norm_post sg a b0 b1 tr b' special' vbs' us r" and "\<forall>t \<in> set ts. wf_term sg t"
    and "norm_inv sg a b0 b special vbs"
  shows "norm_post sg a b0 b1 tr b special vbs (ts @ us) r"
proof -
  have p: "norm_inv sg a b0 b' special' vbs'" "vbs_ext vbs vbs'" "special \<subseteq> special'" "b \<subseteq>\<^sub>m b'"
    "\<forall>t \<in> set ts. term_vars (sigma b' t) \<subseteq> special'" using assms(1) unfolding norm_post_def by blast+
  obtain s2 b2 sp2 vbs2 where q: "r = Some (s2, b2, sp2, vbs2)" "norm_inv sg a b0 b2 sp2 vbs2"
    "trail b1 tr b2 s2" "vbs_ext vbs' vbs2" "special' \<subseteq> sp2" "b' \<subseteq>\<^sub>m b2"
    "\<forall>t \<in> set us. term_vars (sigma b2 t) \<subseteq> sp2" using assms(2) by (rule norm_postE)
  have "term_vars (sigma b2 t) \<subseteq> sp2" if "t \<in> set ts" for t
    using norm_stable [OF p(1) q(2,6)] assms(3) p(5) q(5) that by fastforce
  then show ?thesis
    using q(7) p(3) q(5) by (intro norm_postI [OF q(1-3) vbs_ext_trans [OF p(2) q(4)] _ map_le_trans [OF p(4) q(6)]]) auto
qed

lemma SubstNormTerm_ok:
  assumes "norm_inv sg a b0 b special vbs" and "trail b1 tr b s" and "norm_ok sg a b special t"
  shows "\<exists>r. SubstNormTerm t s b special vbs a = Some (PStackGetSP s, r) \<and>
    norm_post sg a b0 b1 tr b special vbs [t] (Some r)"
proof -
  have "pl_ok (PLocalStackInit :: Term_p plocalstack)" "pl_room (PLocalStackInit :: Term_p plocalstack) (Suc 0)"
    "pl_list (PLocalStackInit :: Term_p plocalstack) = []"
    by (simp_all add: pl_ok_def pl_room_def pl_list_def PLocalStackInit_def PLocalStackInitWithSize_def
        PLOCALSTACK_DEFAULT_SIZE_def mem_alloc_def)
  then obtain st where st: "PLocalStackPush PLocalStackInit t = Some st" "pl_ok st" "pl_list st = [t]"
    using PLocalStackPush_ok [of "PLocalStackInit" 0 t] by auto
  have post: "norm_post sg a b0 b1 tr b special vbs [t] (norm_loop st s b special vbs a)"
    using assms st by (intro norm_loop_ok) auto
  then obtain r where "norm_loop st s b special vbs a = Some r" unfolding norm_post_def by blast
  then show ?thesis using post st(1) by (simp add: SubstNormTerm_def)
qed

lemma norm_post_step:
  assumes "norm_inv sg a b0 b special vbs" and "norm_post sg a b0 b1 tr b special vbs ts (Some (s', b', special', vbs'))"
  shows "norm_inv sg a b0 b' special' vbs'" "trail b1 tr b' s'"
    "\<And>t. norm_ok sg a b special t \<Longrightarrow> norm_ok sg a b' special' t"
proof -
  have p: "norm_inv sg a b0 b' special' vbs'" "trail b1 tr b' s'" "special \<subseteq> special'" "b \<subseteq>\<^sub>m b'"
    using assms(2) unfolding norm_post_def by blast+
  then show "norm_inv sg a b0 b' special' vbs'" "trail b1 tr b' s'"
    "\<And>t. norm_ok sg a b special t \<Longrightarrow> norm_ok sg a b' special' t"
    using norm_ok_mono [OF assms(1) p(1,4,3)] by blast+
qed

lemma SubstNormEqn_ok:
  assumes "norm_inv sg a b0 b special vbs" and "trail b1 tr b s"
    and "norm_ok sg a b special (lterm e)" and "norm_ok sg a b special (rterm e)"
  shows "\<exists>r. SubstNormEqn e s b special vbs a = Some (PStackGetSP s, r) \<and>
    norm_post sg a b0 b1 tr b special vbs [lterm e, rterm e] (Some r)"
proof -
  obtain s1 b2 sp1 vbs1 where r1: "SubstNormTerm (lterm e) s b special vbs a = Some (PStackGetSP s, s1, b2, sp1, vbs1)"
    "norm_post sg a b0 b1 tr b special vbs [lterm e] (Some (s1, b2, sp1, vbs1))"
    using SubstNormTerm_ok [OF assms(1-3)] by (metis prod_cases4)
  note step = norm_post_step [OF assms(1) r1(2)]
  obtain r2 where r2: "SubstNormTerm (rterm e) s1 b2 sp1 vbs1 a = Some (PStackGetSP s1, r2)"
    "norm_post sg a b0 b1 tr b2 sp1 vbs1 [rterm e] (Some r2)"
    using SubstNormTerm_ok [OF step(1,2) step(3) [OF assms(4)]] by blast
  have "norm_post sg a b0 b1 tr b special vbs ([lterm e] @ [rterm e]) (Some r2)"
    using r1(2) r2(2) assms(1,3) by (intro norm_post_trans) (auto simp: norm_ok_def)
  then show ?thesis using r1(1) r2(1) by (simp add: SubstNormEqn_def)
qed

text \<open>The list without the element at a position.\<close>

primrec list_except :: "'a list \<Rightarrow> nat option \<Rightarrow> 'a list" where
  "list_except [] except = []"
| "list_except (x # xs) except =
     (if except \<noteq> Some 0 then x # list_except xs (map_option (\<lambda>i. i - 1) except) else list_except xs None)"

lemma list_except_None [simp]: "list_except xs None = xs"
  by (induction xs) auto

lemma list_except_Some: "list_except xs (Some i) = take i xs @ drop (Suc i) xs"
  by (induction xs arbitrary: i) (auto simp: take_Cons' drop_Cons' Suc_leI gr0_conv_Suc)

lemma set_list_except: "set (list_except xs ex) \<subseteq> set xs"
  by (cases ex) (auto simp: list_except_Some dest: in_set_takeD in_set_dropD)

definition lit_terms :: "Eqn list \<Rightarrow> Term_p list" where
  "lit_terms lits = concat (map (\<lambda>e. [lterm e, rterm e]) lits)"

lemma set_lit_terms: "set (lit_terms lits) = lterm ` set lits \<union> rterm ` set lits"
  by (auto simp: lit_terms_def)

lemma norm_list_loop_ok:
  assumes "norm_inv sg a b0 b special vbs" and "trail b1 tr b s"
    and "\<forall>t \<in> set (lit_terms (list_except lits ex)). norm_ok sg a b special t"
  shows "norm_post sg a b0 b1 tr b special vbs (lit_terms (list_except lits ex)) (norm_list_loop lits ex s b special vbs a)"
  using assms
proof (induction lits arbitrary: ex s b special vbs)
  case Nil
  then show ?case using norm_post_init [OF Nil.prems(1,2)] by (simp add: lit_terms_def)
next
  case (Cons e lits)
  show ?case
  proof (cases "ex = Some 0")
    case False
    let ?ex = "map_option (\<lambda>i. i - 1) ex"
    obtain s1 b2 sp1 vbs1 where r1: "SubstNormEqn e s b special vbs a = Some (PStackGetSP s, s1, b2, sp1, vbs1)"
      "norm_post sg a b0 b1 tr b special vbs [lterm e, rterm e] (Some (s1, b2, sp1, vbs1))"
      using SubstNormEqn_ok [OF Cons.prems(1,2)] Cons.prems(3) False
      by (simp add: lit_terms_def) (metis prod_cases4)
    note step = norm_post_step [OF Cons.prems(1) r1(2)]
    have "norm_post sg a b0 b1 tr b2 sp1 vbs1 (lit_terms (list_except lits ?ex)) (norm_list_loop lits ?ex s1 b2 sp1 vbs1 a)"
      using Cons.prems(3) False step by (intro Cons.IH) (auto simp: lit_terms_def)
    then have "norm_post sg a b0 b1 tr b special vbs ([lterm e, rterm e] @ lit_terms (list_except lits ?ex))
        (norm_list_loop lits ?ex s1 b2 sp1 vbs1 a)"
      using r1(2) Cons.prems(1,3) False by (intro norm_post_trans) (auto simp: norm_ok_def lit_terms_def)
    then show ?thesis using r1(1) False by (simp add: lit_terms_def)
  next
    case True
    then show ?thesis using Cons.IH [of b special vbs s None] Cons.prems by simp
  qed
qed

lemma NormSubstEqnListExcept_ok:
  assumes "norm_inv sg a b0 b special vbs" and "trail b1 tr b s"
    and "\<forall>t \<in> set (lit_terms (list_except lits ex)). norm_ok sg a b special t"
  shows "\<exists>r. NormSubstEqnListExcept lits ex s b special vbs a = Some (PStackGetSP s, r) \<and>
    norm_post sg a b0 b1 tr b special vbs (lit_terms (list_except lits ex)) (Some r)"
  using norm_list_loop_ok [OF assms] unfolding NormSubstEqnListExcept_def norm_post_def by fastforce

end
