(* ===== verification/EqnCopies.thy ===== *)
theory EqnCopies
  imports TermBanks SubstNorms Clauses ObjTrees
begin

text \<open>
  Building literals and lists of literals: \<open>EqnAlloc\<close>, the copies of \<open>CLAUSES/ccl_eqn.c\<close> and
  \<open>CLAUSES/ccl_eqnlist.c\<close>, and the simplifications \<open>EqnListRemoveResolved\<close>, \<open>EqnListRemoveDuplicates\<close>
  and \<open>EqnListFindTrue\<close> of the lists that inferences build. Copies are the instances of the literals
  in variables of the bank; removing duplicates keeps the first literal of each class of literals that
  are equal up to the order of their sides.
\<close>

unbundle bit_operations_syntax

section \<open>Allocation\<close>

definition EPNoProps :: int where "EPNoProps = 0"

definition FPPseudoPred :: int where "FPPseudoPred = 8192"

definition SigQueryFuncProp :: "Sig \<Rightarrow> int \<Rightarrow> int \<Rightarrow> bool" where
  "SigQueryFuncProp sig symb prop \<longleftrightarrow> sg_props sig symb AND prop = prop"

definition set_pred_pos :: "Term_p \<Rightarrow> Term_p" where
  "set_pred_pos t = TermCell (f_code t) True (t_type t) (t_args t)"

text \<open>
  The sorts of the sides must agree: the exception of the code is for terms of functional types,
  which the first-order build does not have. \<open>SigDeclareIsPredicate\<close> only marks the type of the
  symbol of a well-sorted atom as final. The field \<open>pos\<close> is not initialised, and is set before it is
  read.
\<close>

definition EqnAlloc :: "Term_p \<Rightarrow> Term_p \<Rightarrow> TB \<Rightarrow> bool \<Rightarrow> Eqn option" where
  "EqnAlloc lt rt bank positive =
     do { let (lt, positive) = (if lt = false_term bank then (true_term bank, \<not> positive) else (lt, positive));
          let (rt, positive) = (if rt = false_term bank then (true_term bank, \<not> positive) else (rt, positive));
          let (lt, rt) = (if lt = true_term bank then (rt, lt) else (lt, rt));
          let handle = \<lparr>eqn_properties = EPNoProps, eqn_pos = 0, lterm = lt, rterm = rt, eqn_bank = bank\<rparr>;
          let handle = (if positive then EqnSetProp handle EPIsPositive else handle);
          handle \<leftarrow>
            (if rt \<noteq> true_term bank
             then do { c_assert (f_code rt \<noteq> SIG_TRUE_CODE);
                       Some (EqnSetProp handle EPIsEquLiteral) }
             else do { c_assert (t_predpos rt);
                       let handle = handle\<lparr>lterm := set_pred_pos lt\<rparr>;
                       Some (if \<not> TermIsFreeVar lt \<and> SigQueryFuncProp (tb_sig bank) (f_code lt) FPPseudoPred
                             then EqnSetProp handle EPPseudoLit else handle) });
          c_assert (t_type lt = t_type rt);
          Some handle }"

section \<open>Copies\<close>

text \<open>The properties of a copy: the sign of the new literal, and the rest of the old one.\<close>

definition copy_props :: "Eqn \<Rightarrow> Eqn \<Rightarrow> Eqn" where
  "copy_props handle eq = handle\<lparr>eqn_properties :=
     (eqn_properties handle AND EPIsPositive) OR (eqn_properties eq AND NOT EPIsPositive)\<rparr>"

definition EqnFlatCopy :: "Eqn \<Rightarrow> Eqn option" where
  "EqnFlatCopy eq =
     do { handle \<leftarrow> EqnAlloc (lterm eq) (rterm eq) (eqn_bank eq) (EqnIsPositive eq);
          let handle = copy_props handle eq;
          Some (if \<not> EqnIsOriented handle then EqnDelProp handle EPMaxIsUpToDate else handle) }"

definition EqnCopy :: "bindings \<Rightarrow> Eqn \<Rightarrow> TB \<Rightarrow> banks \<Rightarrow> (Eqn \<times> banks) option" where
  "EqnCopy b eq bank bks =
     do { (lt, bks) \<leftarrow> TBInsertNoPropsCached bank b (lterm eq) DEREF_ALWAYS bks;
          (rt, bks) \<leftarrow> TBInsertNoPropsCached bank b (rterm eq) DEREF_ALWAYS bks;
          handle \<leftarrow> EqnAlloc lt rt bank (EqnIsPositive eq);
          let handle = copy_props handle eq;
          Some (if \<not> EqnIsOriented handle then EqnDelProp handle EPMaxIsUpToDate else handle, bks) }"

definition EqnCopyOpt :: "bindings \<Rightarrow> Eqn \<Rightarrow> banks \<Rightarrow> (Eqn \<times> banks) option" where
  "EqnCopyOpt b eq bks =
     do { (lt, bks) \<leftarrow> TBInsertOpt (eqn_bank eq) b (lterm eq) DEREF_ALWAYS bks;
          (rt, bks) \<leftarrow> TBInsertOpt (eqn_bank eq) b (rterm eq) DEREF_ALWAYS bks;
          handle \<leftarrow> EqnAlloc lt rt (eqn_bank eq) (EqnIsPositive eq);
          Some (EqnDelProp (EqnDelProp (copy_props handle eq) EPMaxIsUpToDate) EPIsOriented, bks) }"

definition EqnCopyRepl :: "bindings \<Rightarrow> Eqn \<Rightarrow> TB \<Rightarrow> Term_p \<Rightarrow> Term_p \<Rightarrow> banks \<Rightarrow> (Eqn \<times> banks) option" where
  "EqnCopyRepl b eq bank old repl bks =
     do { (lt, bks) \<leftarrow> TBInsertRepl bank b (lterm eq) DEREF_ALWAYS old repl bks;
          (rt, bks) \<leftarrow> TBInsertRepl bank b (rterm eq) DEREF_ALWAYS old repl bks;
          handle \<leftarrow> EqnAlloc lt rt bank (EqnIsPositive eq);
          Some (EqnDelProp (EqnDelProp (copy_props handle eq) EPMaxIsUpToDate) EPIsOriented, bks) }"

definition EqnCopyReplPlain :: "Eqn \<Rightarrow> TB \<Rightarrow> Term_p \<Rightarrow> Term_p \<Rightarrow> banks \<Rightarrow> (Eqn \<times> banks) option" where
  "EqnCopyReplPlain eq bank old repl bks =
     do { (lt, bks) \<leftarrow> TBInsertReplPlain (lterm eq) old repl bks;
          (rt, bks) \<leftarrow> TBInsertReplPlain (rterm eq) old repl bks;
          handle \<leftarrow> EqnAlloc lt rt bank (EqnIsPositive eq);
          Some (EqnDelProp (EqnDelProp (copy_props handle eq) EPMaxIsUpToDate) EPIsOriented, bks) }"

definition EqnListCopyOpt :: "bindings \<Rightarrow> Eqn list \<Rightarrow> banks \<Rightarrow> (Eqn list \<times> banks) option" where
  "EqnListCopyOpt b list bks = map_st (EqnCopyOpt b) list bks"

definition EqnListCopyRepl ::
  "bindings \<Rightarrow> Eqn list \<Rightarrow> TB \<Rightarrow> Term_p \<Rightarrow> Term_p \<Rightarrow> banks \<Rightarrow> (Eqn list \<times> banks) option" where
  "EqnListCopyRepl b list bank old repl bks = map_st (\<lambda>e. EqnCopyRepl b e bank old repl) list bks"

definition EqnListCopyReplPlain :: "Eqn list \<Rightarrow> TB \<Rightarrow> Term_p \<Rightarrow> Term_p \<Rightarrow> banks \<Rightarrow> (Eqn list \<times> banks) option" where
  "EqnListCopyReplPlain list bank old repl bks = map_st (\<lambda>e. EqnCopyReplPlain e bank old repl) list bks"

text \<open>As in \<open>NormSubstEqnListExcept\<close>, the literal left out is given by its position.\<close>

primrec EqnListCopyOptExcept :: "bindings \<Rightarrow> Eqn list \<Rightarrow> nat option \<Rightarrow> banks \<Rightarrow> (Eqn list \<times> banks) option" where
  "EqnListCopyOptExcept b [] except bks = Some ([], bks)"
| "EqnListCopyOptExcept b (e # list) except bks =
     (if except \<noteq> Some 0
      then do { (e, bks) \<leftarrow> EqnCopyOpt b e bks;
                (list, bks) \<leftarrow> EqnListCopyOptExcept b list (map_option (\<lambda>i. i - 1) except) bks;
                Some (e # list, bks) }
      else EqnListCopyOptExcept b list None bks)"

section \<open>Simplification\<close>

definition EqnTermsAreDistinct :: "Eqn \<Rightarrow> bool" where
  "EqnTermsAreDistinct eq \<longleftrightarrow> TermIsConst (lterm eq) \<and> TermIsConst (rterm eq) \<and>
     SigIsAnyFuncPropSet (tb_sig (eqn_bank eq)) (f_code (lterm eq)) (sg_distinct (tb_sig (eqn_bank eq))) \<noteq> 0 \<and>
     SigIsAnyFuncPropSet (tb_sig (eqn_bank eq)) (f_code (rterm eq)) (sg_distinct (tb_sig (eqn_bank eq))) \<noteq> 0 \<and>
     f_code (lterm eq) \<noteq> f_code (rterm eq)"

definition EqnIsTrue :: "Eqn \<Rightarrow> bool" where
  "EqnIsTrue eq = (if EqnIsPositive eq then EqnIsTrivial eq else EqnTermsAreDistinct eq)"

definition EqnIsFalse :: "Eqn \<Rightarrow> bool" where
  "EqnIsFalse eq = (if EqnIsNegative eq then EqnIsTrivial eq else EqnTermsAreDistinct eq)"

primrec EqnListRemoveResolved :: "Eqn list \<Rightarrow> int \<times> Eqn list" where
  "EqnListRemoveResolved [] = (0, [])"
| "EqnListRemoveResolved (e # list) =
     (let (removed, list) = EqnListRemoveResolved list in
      if EqnIsFalse e then (removed + 1, list) else (removed, e # list))"

primrec EqnListFindTrue :: "Eqn list \<Rightarrow> Eqn option" where
  "EqnListFindTrue [] = None"
| "EqnListFindTrue (e # list) = (if EqnIsTrue e then Some e else EqnListFindTrue list)"

text \<open>
  The comparison of literals up to the order of the sides. The assertions of \<open>EqnIsEquLit\<close> cannot be
  expressed in a comparison function; \<open>equ_ok\<close> says that they hold, and the literals that
  \<open>EqnCopyOpt\<close> makes satisfy it.
\<close>

definition EqnSyntaxCompare :: "TermStore \<Rightarrow> Eqn \<Rightarrow> Eqn \<Rightarrow> int" where
  "EqnSyntaxCompare st eq1 eq2 =
     (if EqnQueryProp eq1 EPIsEquLiteral \<and> \<not> EqnQueryProp eq2 EPIsEquLiteral then - 1
      else if EqnQueryProp eq2 EPIsEquLiteral \<and> \<not> EqnQueryProp eq1 EPIsEquLiteral then 1
      else let e1 = max (entry_no st (lterm eq1)) (entry_no st (rterm eq1));
               e2 = max (entry_no st (lterm eq2)) (entry_no st (rterm eq2)) in
           if e1 < e2 then - 1 else if e1 > e2 then 1
           else let e1 = min (entry_no st (lterm eq1)) (entry_no st (rterm eq1));
                    e2 = min (entry_no st (lterm eq2)) (entry_no st (rterm eq2)) in
                if e1 < e2 then - 1 else if e1 > e2 then 1 else 0)"

definition LiteralSyntaxCompare :: "TermStore \<Rightarrow> Eqn \<Rightarrow> Eqn \<Rightarrow> int" where
  "LiteralSyntaxCompare st eq1 eq2 =
     (if EqnIsPositive eq1 \<and> \<not> EqnIsPositive eq2 then - 1
      else if EqnIsPositive eq2 \<and> \<not> EqnIsPositive eq1 then 1
      else EqnSyntaxCompare st eq1 eq2)"

primrec remove_dup_loop :: "TermStore \<Rightarrow> Eqn objtree \<Rightarrow> Eqn list \<Rightarrow> int \<times> Eqn list" where
  "remove_dup_loop st litstore [] = (0, [])"
| "remove_dup_loop st litstore (e # list) =
     (case PTreeObjStore litstore e (LiteralSyntaxCompare st) of
        (Some _, litstore) \<Rightarrow> (let (removed, list) = remove_dup_loop st litstore list in (removed + 1, list))
      | (None, litstore) \<Rightarrow> (let (removed, list) = remove_dup_loop st litstore list in (removed, e # list)))"

definition EqnListRemoveDuplicates :: "TermStore \<Rightarrow> Eqn list \<Rightarrow> int \<times> Eqn list" where
  "EqnListRemoveDuplicates st list =
     (case list of
        e # e' # rest \<Rightarrow>
          (let (_, litstore) = PTreeObjStore Leaf e (LiteralSyntaxCompare st);
               (removed, rest) = remove_dup_loop st litstore (e' # rest) in
           (removed, e # rest))
      | _ \<Rightarrow> (0, list))"


text \<open>
  Mapping the terms of literals. \<open>LambdaNormalizeDB\<close>, which \<open>EqnListLambdaNormalize\<close> maps, returns a
  term without lambda abstractions as it is.
\<close>

definition EqnMap :: "(Term_p \<Rightarrow> Term_p) \<Rightarrow> Eqn \<Rightarrow> Eqn" where
  "EqnMap f lit =
     (let lt = f (lterm lit); rt = f (rterm lit); bank = eqn_bank lit; negate = False;
          (lt, negate) = (if lt = false_term bank then (true_term bank, \<not> negate) else (lt, negate));
          (rt, negate) = (if rt = false_term bank then (true_term bank, \<not> negate) else (rt, negate));
          (lt, rt) = (if lt = true_term bank then (rt, lt) else (lt, rt));
          lit = (if rt \<noteq> true_term bank then EqnSetProp lit EPIsEquLiteral else EqnDelProp lit EPIsEquLiteral);
          lit = (if negate then EqnFlipProp lit EPIsPositive else lit);
          lit = (if lt \<noteq> lterm lit then EqnDelProp (EqnDelProp lit EPMaxIsUpToDate) EPIsOriented else lit) in
      lit\<lparr>lterm := lt, rterm := rt\<rparr>)"

definition EqnListMapTerms :: "(Term_p \<Rightarrow> Term_p) \<Rightarrow> Eqn list \<Rightarrow> Eqn list" where
  "EqnListMapTerms f list = map (EqnMap f) list"

definition EqnListLambdaNormalize :: "Eqn list \<Rightarrow> Eqn list" where
  "EqnListLambdaNormalize list = EqnListMapTerms (\<lambda>t. t) list"

section \<open>Well-sorted banks and literals\<close>

text \<open>
  \<open>$true\<close> and \<open>$false\<close> are two constants of the sort of truth values, and the symbols of this sort
  are the predicates.
\<close>

definition tb_ok :: "TB \<Rightarrow> bool" where
  "tb_ok tb \<longleftrightarrow> (let sg = tb_sig tb; t = true_term tb; f = false_term tb in
     wf_term sg t \<and> f_code t = SIG_TRUE_CODE \<and> t_args t = [] \<and>
     wf_term sg f \<and> \<not> f_code f < 0 \<and> f_code f \<noteq> SIG_TRUE_CODE \<and> t_args f = [] \<and> t_type f = t_type t \<and>
     (\<forall>g. \<not> g < 0 \<longrightarrow> (sg_type sg g = t_type t \<longleftrightarrow> sg_pred sg g)))"

text \<open>Terms without variables for truth values.\<close>

definition sorted_term :: "TB \<Rightarrow> Term_p \<Rightarrow> bool" where
  "sorted_term tb t \<longleftrightarrow> wf_term (tb_sig tb) t \<and> (\<forall>v \<in> term_vars t. t_type v \<noteq> t_type (true_term tb))"

definition lit_sorted :: "TB \<Rightarrow> Eqn \<Rightarrow> bool" where
  "lit_sorted tb e \<longleftrightarrow> eqn_bank e = tb \<and> sorted_term tb (lterm e) \<and> sorted_term tb (rterm e) \<and> t_type (lterm e) = t_type (rterm e)"

text \<open>The flag of equations, \<open>$true\<close> on the right-hand side, and no \<open>$false\<close>.\<close>

definition lit_normal :: "Eqn \<Rightarrow> bool" where
  "lit_normal e \<longleftrightarrow> equ_ok e \<and> (lterm e = true_term (eqn_bank e) \<longrightarrow> rterm e = true_term (eqn_bank e)) \<and>
     lterm e \<noteq> false_term (eqn_bank e) \<and> rterm e \<noteq> false_term (eqn_bank e)"

lemma tb_okD:
  assumes "tb_ok tb"
  shows "wf_term (tb_sig tb) (true_term tb)" "wf_term (tb_sig tb) (false_term tb)" "f_code (true_term tb) = SIG_TRUE_CODE"
    "t_args (true_term tb) = []" "t_args (false_term tb) = []" "\<not> TermIsFreeVar (true_term tb)" "\<not> TermIsFreeVar (false_term tb)"
    "f_code (false_term tb) \<noteq> SIG_TRUE_CODE" "t_type (false_term tb) = t_type (true_term tb)"
    "\<And>g. \<not> g < 0 \<Longrightarrow> sg_type (tb_sig tb) g = t_type (true_term tb) \<Longrightarrow> sg_pred (tb_sig tb) g"
    "\<And>g. \<not> g < 0 \<Longrightarrow> sg_pred (tb_sig tb) g \<Longrightarrow> sg_type (tb_sig tb) g = t_type (true_term tb)"
  using assms by (auto simp: tb_ok_def Let_def TermIsFreeVar_def SIG_TRUE_CODE_def)

lemma pred_pos:
  assumes "tb_ok tb" and "wf_term (tb_sig tb) t" and "\<not> TermIsFreeVar t" and "t_type t = t_type (true_term tb)"
  shows "t_predpos t" "set_pred_pos t = t"
proof -
  show "t_predpos t" using assms(2-4) tb_okD(10) [OF assms(1)] by (cases t) auto
  then show "set_pred_pos t = t" by (cases t) (simp add: set_pred_pos_def)
qed

lemma not_bool_var:
  assumes "sorted_term tb t" and "t_type t = t_type (true_term tb)"
  shows "\<not> TermIsFreeVar t"
  using assms wf_term_var_vars [of t] by (auto simp: sorted_term_def)

text \<open>Unification never meets a predicate on one side and a variable on the other.\<close>

lemma no_pred_clash:
  assumes "tb_ok tb" and "sorted_term tb l" and "sorted_term tb r" and "t_type l = t_type r"
  shows "\<not> (t_predpos l \<and> TermIsFreeVar r)"
proof
  assume a: "t_predpos l \<and> TermIsFreeVar r"
  have "wf_term (tb_sig tb) l" using assms(2) by (simp add: sorted_term_def)
  then have "t_type l = t_type (true_term tb)" using a tb_okD(11) [OF assms(1)] by (cases l) (auto split: if_splits)
  then show False using a not_bool_var [OF assms(3)] assms(4) by simp
qed

lemma true_unique:
  assumes "tb_ok tb" and "wf_term (tb_sig tb) t" and "f_code t = SIG_TRUE_CODE"
  shows "t = true_term tb"
proof -
  have "\<not> f_code t < 0" using assms(3) by (simp add: SIG_TRUE_CODE_def)
  then show ?thesis
    using assms(2,3) tb_okD(1,3,4) [OF assms(1)] by (cases t; cases "true_term tb") (auto simp: SIG_TRUE_CODE_def)
qed

lemma sorted_true: "tb_ok tb \<Longrightarrow> sorted_term tb (true_term tb)"
  using tb_okD(1,4,6) [of tb] by (cases "true_term tb") (auto simp: sorted_term_def)

text \<open>What \<open>EqnAlloc\<close> makes of two sides and a sign.\<close>

definition alloc_true :: "TB \<Rightarrow> Term_p \<Rightarrow> Term_p" where
  "alloc_true tb t = (if t = false_term tb then true_term tb else t)"

lemma EqnAlloc_ok:
  assumes tb: "tb_ok tb" and l: "sorted_term tb l" and r: "sorted_term tb r" and ty: "t_type l = t_type r"
  shows "\<exists>h. EqnAlloc l r tb pos = Some h \<and> eqn_bank h = tb \<and> lit_sorted tb h \<and> lit_normal h \<and>
    {lterm h, rterm h} = {alloc_true tb l, alloc_true tb r} \<and>
    (l \<noteq> false_term tb \<longrightarrow> r \<noteq> false_term tb \<longrightarrow> (l = true_term tb \<longrightarrow> r = true_term tb) \<longrightarrow> lterm h = l \<and> rterm h = r) \<and>
    EqnIsPositive h = (pos = ((l = false_term tb) = (r = false_term tb)))"
proof -
  let ?l = "alloc_true tb l" and ?r = "alloc_true tb r" and ?t = "true_term tb"
  let ?pos = "pos = ((l = false_term tb) = (r = false_term tb))"
  define lt rt where "lt = (if ?l = ?t then ?r else ?l)" and "rt = (if ?l = ?t then ?l else ?r)"
  have s: "sorted_term tb ?l" "sorted_term tb ?r" using l r sorted_true [OF tb] by (simp_all add: alloc_true_def)
  have ty': "t_type ?l = t_type ?r" using ty tb_okD(9) [OF tb] by (auto simp: alloc_true_def)
  have s': "sorted_term tb lt" "sorted_term tb rt" "t_type lt = t_type rt" "{lt, rt} = {?l, ?r}"
    using s ty' by (auto simp: lt_def rt_def)
  have "?t \<noteq> false_term tb" using tb_okD(3,8) [OF tb] by auto
  then have nf: "lt = ?t \<Longrightarrow> rt = ?t" "lt \<noteq> false_term tb" "rt \<noteq> false_term tb"
    by (auto simp: lt_def rt_def alloc_true_def)
  have same: "l \<noteq> false_term tb \<Longrightarrow> r \<noteq> false_term tb \<Longrightarrow> (l = ?t \<Longrightarrow> r = ?t) \<Longrightarrow> lt = l \<and> rt = r"
    by (auto simp: lt_def rt_def alloc_true_def)
  let ?h = "\<lparr>eqn_properties = EPNoProps, eqn_pos = 0, lterm = lt, rterm = rt, eqn_bank = tb\<rparr>"
  define h1 where "h1 = (if ?pos then EqnSetProp ?h EPIsPositive else ?h)"
  have pos1: "EqnIsPositive h1 = ?pos" "\<not> EqnQueryProp h1 EPIsEquLiteral"
    "eqn_bank h1 = tb" "lterm h1 = lt" "rterm h1 = rt"
    by (auto simp: h1_def EqnIsPositive_def EqnQueryProp_def EqnSetProp_def EPNoProps_def EP_defs)
  have other: "EqnQueryProp (EqnSetProp e EPIsEquLiteral) EPIsPositive = EqnQueryProp e EPIsPositive"
    "EqnQueryProp (EqnSetProp e EPPseudoLit) EPIsPositive = EqnQueryProp e EPIsPositive"
    "EqnQueryProp (EqnSetProp e EPPseudoLit) EPIsEquLiteral = EqnQueryProp e EPIsEquLiteral" for e
    by (rule query_set_other; simp add: EP_defs)+
  have bank: "eqn_bank (EqnSetProp e p) = eqn_bank e" "lterm (EqnSetProp e p) = lterm e" "rterm (EqnSetProp e p) = rterm e" for e p
    by (simp_all add: EqnSetProp_def)
  have run: "EqnAlloc l r tb pos =
      do { handle \<leftarrow> (if rt \<noteq> ?t
             then do { c_assert (f_code rt \<noteq> SIG_TRUE_CODE); Some (EqnSetProp h1 EPIsEquLiteral) }
             else do { c_assert (t_predpos rt);
                       let handle = h1\<lparr>lterm := set_pred_pos lt\<rparr>;
                       Some (if \<not> TermIsFreeVar lt \<and> SigQueryFuncProp (tb_sig tb) (f_code lt) FPPseudoPred
                             then EqnSetProp handle EPPseudoLit else handle) });
           c_assert (t_type lt = t_type rt);
           Some handle }"
  proof -
    show ?thesis
      by (cases "l = false_term tb"; cases "r = false_term tb"; cases "?l = ?t"; cases pos)
        (simp_all add: EqnAlloc_def Let_def alloc_true_def lt_def rt_def h1_def)
  qed
  show ?thesis
  proof (cases "rt = ?t")
    case False
    then have "f_code rt \<noteq> SIG_TRUE_CODE" using true_unique [OF tb] s'(2) by (auto simp: sorted_term_def)
    moreover have "lit_normal (EqnSetProp h1 EPIsEquLiteral)"
      using False nf pos1 by (auto simp: lit_normal_def equ_ok_def bank query_set)
    ultimately show ?thesis
      using run False s' pos1 same by (auto simp: lit_sorted_def bank EqnIsPositive_def other)
  next
    case True
    have bool: "t_type lt = t_type ?t" using s'(3) True by simp
    have lt: "set_pred_pos lt = lt" and rt: "t_predpos rt"
      using pred_pos [OF tb] not_bool_var [OF s'(1) bool] s'(1) bool tb_okD(1,6) [OF tb] True
      by (auto simp: sorted_term_def)
    let ?h2 = "if \<not> TermIsFreeVar lt \<and> SigQueryFuncProp (tb_sig tb) (f_code lt) FPPseudoPred
      then EqnSetProp h1 EPPseudoLit else h1"
    have "h1\<lparr>lterm := lt\<rparr> = h1" by (simp add: h1_def EqnSetProp_def)
    then have r: "EqnAlloc l r tb pos = Some ?h2" using run True lt rt s'(3) by (simp add: Let_def)
    have sides: "lterm ?h2 = lt" "rterm ?h2 = rt" "eqn_bank ?h2 = tb" using pos1 by (simp_all add: bank)
    have flags: "EqnQueryProp ?h2 EPIsPositive = ?pos" "\<not> EqnQueryProp ?h2 EPIsEquLiteral"
      using pos1 other by (simp_all add: EqnIsPositive_def)
    have "lit_normal ?h2" unfolding lit_normal_def equ_ok_def sides using flags True nf by simp
    moreover have "lit_sorted tb ?h2" unfolding lit_sorted_def sides using s' by simp
    ultimately show ?thesis using r sides s'(4) flags(1) same by (auto simp: EqnIsPositive_def)
  qed
qed


section \<open>Instances of literals\<close>

definition inst_lit :: "(Term_p \<Rightarrow> Term_p) \<Rightarrow> Eqn \<Rightarrow> Eqn" where
  "inst_lit \<theta> e = EqnDelProp (EqnDelProp
     (e\<lparr>eqn_pos := 0, lterm := inst \<theta> (lterm e), rterm := inst \<theta> (rterm e)\<rparr>) EPMaxIsUpToDate) EPIsOriented"

definition sorted_subst :: "TB \<Rightarrow> (Term_p \<Rightarrow> Term_p) \<Rightarrow> bool" where
  "sorted_subst tb \<theta> \<longleftrightarrow> (\<forall>v. TermIsFreeVar v \<longrightarrow> sorted_term tb v \<longrightarrow> sorted_term tb (\<theta> v) \<and> t_type (\<theta> v) = t_type v)"

lemma sorted_inst:
  assumes "sorted_subst tb \<theta>" and "sorted_term tb t"
  shows "sorted_term tb (inst \<theta> t) \<and> t_type (inst \<theta> t) = t_type t"
  using assms(2)
proof (induction t)
  case (TermCell f p ty as)
  show ?case
  proof (cases "f < 0")
    case True
    then show ?thesis using assms(1) TermCell.prems by (simp add: sorted_subst_def)
  next
    case False
    then have "sorted_term tb a" if "a \<in> set as" for a using TermCell.prems that by (auto simp: sorted_term_def)
    then show ?thesis using TermCell.IH TermCell.prems False by (auto simp: sorted_term_def)
  qed
qed

lemma inst_const_iff:
  assumes "tb_ok tb" and "sorted_subst tb \<theta>" and "sorted_term tb t" and "c = true_term tb \<or> c = false_term tb"
  shows "inst \<theta> t = c \<longleftrightarrow> t = c"
proof -
  have c: "t_args c = []" "\<not> TermIsFreeVar c" "t_type c = t_type (true_term tb)" using assms(4) tb_okD(4-7,9) [OF assms(1)] by auto
  then have ground: "inst \<theta> c = c" by (cases c) simp
  have "t = c" if i: "inst \<theta> t = c"
  proof -
    have "t_type t = t_type (true_term tb)" using sorted_inst [OF assms(2,3)] i c(3) by simp
    then have "\<not> TermIsFreeVar t" by (rule not_bool_var [OF assms(3)])
    then show ?thesis using i c(1) by (cases t; cases c) auto
  qed
  then show ?thesis using ground by blast
qed

lemma EqnDelProp_sel [simp]:
  "lterm (EqnDelProp e p) = lterm e" "rterm (EqnDelProp e p) = rterm e" "eqn_bank (EqnDelProp e p) = eqn_bank e"
  by (simp_all add: EqnDelProp_def)

lemma inst_lit_sel [simp]:
  "lterm (inst_lit \<theta> e) = inst \<theta> (lterm e)" "rterm (inst_lit \<theta> e) = inst \<theta> (rterm e)" "eqn_bank (inst_lit \<theta> e) = eqn_bank e"
  "EqnIsPositive (inst_lit \<theta> e) = EqnIsPositive e"
  "EqnQueryProp (inst_lit \<theta> e) EPIsEquLiteral = EqnQueryProp e EPIsEquLiteral"
proof -
  have "EqnQueryProp (inst_lit \<theta> e) q = EqnQueryProp (e\<lparr>eqn_pos := 0, lterm := inst \<theta> (lterm e), rterm := inst \<theta> (rterm e)\<rparr>) q"
    if "EPMaxIsUpToDate AND q = 0" "EPIsOriented AND q = 0" for q
    unfolding inst_lit_def using that by (simp add: query_del_other)
  then have "EqnQueryProp (inst_lit \<theta> e) EPIsPositive = EqnQueryProp e EPIsPositive"
    "EqnQueryProp (inst_lit \<theta> e) EPIsEquLiteral = EqnQueryProp e EPIsEquLiteral"
    by (simp_all add: EP_defs EqnQueryProp_def)
  then show "EqnIsPositive (inst_lit \<theta> e) = EqnIsPositive e"
    "EqnQueryProp (inst_lit \<theta> e) EPIsEquLiteral = EqnQueryProp e EPIsEquLiteral" by (simp_all add: EqnIsPositive_def)
qed (simp_all add: inst_lit_def)

lemma inst_lit_sorted:
  assumes "tb_ok tb" and "sorted_subst tb \<theta>" and "lit_sorted tb e" and "lit_normal e"
  shows "lit_sorted tb (inst_lit \<theta> e)" "lit_normal (inst_lit \<theta> e)"
proof -
  have s: "sorted_term tb (lterm e)" "sorted_term tb (rterm e)" "eqn_bank e = tb" using assms(3) by (auto simp: lit_sorted_def)
  note c = inst_const_iff [OF assms(1,2) s(1)] inst_const_iff [OF assms(1,2) s(2)]
  show "lit_sorted tb (inst_lit \<theta> e)"
    using assms(3) sorted_inst [OF assms(2) s(1)] sorted_inst [OF assms(2) s(2)] by (simp add: lit_sorted_def)
  show "lit_normal (inst_lit \<theta> e)"
    using assms(4) c [of "true_term tb"] c [of "false_term tb"] unfolding lit_normal_def equ_ok_def inst_lit_sel s(3) by blast
qed

lemma copy_props_id:
  assumes "EqnIsPositive h = EqnIsPositive e"
  shows "copy_props h e = h\<lparr>eqn_properties := eqn_properties e\<rparr>"
proof -
  have one: "x AND 1 = 1 \<or> x AND 1 = 0" for x :: int by (auto simp: and_one_eq)
  have "eqn_properties h AND 1 = eqn_properties e AND 1"
    using assms one [of "eqn_properties h"] one [of "eqn_properties e"] by (auto simp: EqnIsPositive_def EqnQueryProp_def EPIsPositive_def)
  then have "(eqn_properties h AND 1) OR (eqn_properties e AND NOT 1) = eqn_properties e"
    by (simp flip: bit.conj_disj_distrib)
  then show ?thesis by (simp add: copy_props_def EPIsPositive_def)
qed

text \<open>A copy of a literal whose sides are inserted as the instances.\<close>

lemma copy_alloc:
  assumes "tb_ok tb" and "sorted_subst tb \<theta>" and "lit_sorted tb e" and "lit_normal e"
  shows "\<exists>h. EqnAlloc (inst \<theta> (lterm e)) (inst \<theta> (rterm e)) tb (EqnIsPositive e) = Some h \<and>
    EqnDelProp (EqnDelProp (copy_props h e) EPMaxIsUpToDate) EPIsOriented = inst_lit \<theta> e"
proof -
  have i: "lit_sorted tb (inst_lit \<theta> e)" "lit_normal (inst_lit \<theta> e)" using inst_lit_sorted [OF assms] by blast+
  then have s: "sorted_term tb (inst \<theta> (lterm e))" "sorted_term tb (inst \<theta> (rterm e))"
    "t_type (inst \<theta> (lterm e)) = t_type (inst \<theta> (rterm e))" "eqn_bank e = tb" by (simp_all add: lit_sorted_def)
  obtain h where h: "EqnAlloc (inst \<theta> (lterm e)) (inst \<theta> (rterm e)) tb (EqnIsPositive e) = Some h" "eqn_bank h = tb"
    "lterm h = inst \<theta> (lterm e)" "rterm h = inst \<theta> (rterm e)" "EqnIsPositive h = EqnIsPositive e" "eqn_pos h = 0"
  proof -
    obtain h where h: "EqnAlloc (inst \<theta> (lterm e)) (inst \<theta> (rterm e)) tb (EqnIsPositive e) = Some h" "eqn_bank h = tb"
      "lterm h = inst \<theta> (lterm e) \<and> rterm h = inst \<theta> (rterm e)" "EqnIsPositive h = EqnIsPositive e"
      using EqnAlloc_ok [OF assms(1) s(1-3), of "EqnIsPositive e"] i(2) s(4) by (auto simp: lit_normal_def)
    moreover have "eqn_pos h = 0"
      using h(1) by (auto simp: EqnAlloc_def Let_def bind_eq_Some_conv EqnSetProp_def split: if_splits)
    ultimately show ?thesis using that by blast
  qed
  have "copy_props h e = e\<lparr>eqn_pos := 0, lterm := inst \<theta> (lterm e), rterm := inst \<theta> (rterm e)\<rparr>"
    unfolding copy_props_id [OF h(5)] using h(2-4,6) s(4) by (cases h; cases e) simp
  then show ?thesis using h(1) by (auto simp: inst_lit_def)
qed

text \<open>The insertion of a literal or a list of literals.\<close>

definition builds ::
  "nat \<Rightarrow> Term_p set \<Rightarrow> Term_p set \<Rightarrow> (banks \<Rightarrow> ('a \<times> banks) option) \<Rightarrow> 'a \<Rightarrow> Term_p set \<Rightarrow> bool" where
  "builds p V S bld y T \<longleftrightarrow> (\<forall>bks. banks_inv p V S bks \<longrightarrow>
     (\<exists>bks'. bld bks = Some (y, bks') \<and> banks_inv p V S bks' \<and> banks_le bks bks' \<and> (\<forall>t \<in> T. TermIsShared (snd bks') t)))"

lemma EqnCopyOpt_builds:
  assumes "tb_ok tb" and "lit_sorted tb e" and "lit_normal e" and "sorted_subst tb (\<lambda>v. inst (prim p) (sigma b v))"
    and "subst_wf (tb_sig tb) b" and "tb_vars tb = p" and "all_shared S b" and "{lterm e, rterm e} \<subseteq> S"
    and "term_vars (sigma b (lterm e)) \<union> term_vars (sigma b (rterm e)) \<subseteq> V"
  shows "builds p V S (EqnCopyOpt b e) (inst_lit (\<lambda>v. inst (prim p) (sigma b v)) e)
    {inst (\<lambda>v. inst (prim p) (sigma b v)) (lterm e), inst (\<lambda>v. inst (prim p) (sigma b v)) (rterm e)}"
proof -
  let ?\<theta> = "\<lambda>v. inst (prim p) (sigma b v)"
  have wf: "wf_term (tb_sig tb) (lterm e)" "wf_term (tb_sig tb) (rterm e)" "eqn_bank e = tb"
    using assms(2) by (auto simp: lit_sorted_def sorted_term_def)
  have ok: "binds_ok (tb_sig tb) b" using assms(5) by (simp add: subst_wf_def)
  have th: "inst ?\<theta> t = inst (prim p) (sigma b t)" if "wf_term (tb_sig tb) t" for t
    using sigma_inst [OF assms(5) that] by (simp add: inst_comp)
  have ins: "inserts p V S (TBInsertOpt tb b t DEREF_ALWAYS) (inst ?\<theta> t)"
    if "wf_term (tb_sig tb) t" "t \<in> S" "term_vars (sigma b t) \<subseteq> V" for t
    unfolding th [OF that(1)]
    by (rule TBInsertOpt_inserts [OF sigma_full [OF assms(5) that(1)] ok that(3) assms(6,7) that(2)])
  obtain h where h: "EqnAlloc (inst ?\<theta> (lterm e)) (inst ?\<theta> (rterm e)) tb (EqnIsPositive e) = Some h"
    "EqnDelProp (EqnDelProp (copy_props h e) EPMaxIsUpToDate) EPIsOriented = inst_lit ?\<theta> e"
    using copy_alloc [OF assms(1,4,2,3)] by blast
  show ?thesis
    unfolding builds_def
  proof (intro allI impI)
    fix bks assume inv: "banks_inv p V S bks"
    obtain b1 where b1: "TBInsertOpt tb b (lterm e) DEREF_ALWAYS bks = Some (inst ?\<theta> (lterm e), b1)" "banks_inv p V S b1"
      "banks_le bks b1" "TermIsShared (snd b1) (inst ?\<theta> (lterm e))"
      using insertsD [OF ins [OF wf(1)] inv] assms(8,9) by auto
    obtain b2 where b2: "TBInsertOpt tb b (rterm e) DEREF_ALWAYS b1 = Some (inst ?\<theta> (rterm e), b2)" "banks_inv p V S b2"
      "banks_le b1 b2" "TermIsShared (snd b2) (inst ?\<theta> (rterm e))"
      using insertsD [OF ins [OF wf(2)] b1(2)] assms(8,9) by auto
    have "EqnCopyOpt b e bks = Some (inst_lit ?\<theta> e, b2)"
      using b1(1) b2(1) h wf(3) by (simp add: EqnCopyOpt_def)
    then show "\<exists>bks'. EqnCopyOpt b e bks = Some (inst_lit ?\<theta> e, bks') \<and> banks_inv p V S bks' \<and> banks_le bks bks' \<and>
        (\<forall>t \<in> {inst ?\<theta> (lterm e), inst ?\<theta> (rterm e)}. TermIsShared (snd bks') t)"
      using b2 banks_le_trans [OF b1(3) b2(3)] banks_le_shared [OF b2(3) b1(4)] by auto
  qed
qed

lemma EqnListCopyOptExcept_builds:
  assumes "\<And>e. e \<in> set (list_except lits ex) \<Longrightarrow> builds p V S (EqnCopyOpt b e) (g e) {lterm (g e), rterm (g e)}"
  shows "builds p V S (EqnListCopyOptExcept b lits ex) (map g (list_except lits ex)) (set (lit_terms (map g (list_except lits ex))))"
  using assms
proof (induction lits arbitrary: ex)
  case Nil
  then show ?case by (auto simp: builds_def lit_terms_def intro: banks_le_refl)
next
  case (Cons e lits)
  show ?case
  proof (cases "ex = Some 0")
    case True
    then show ?thesis using Cons.IH [of None] Cons.prems by (simp add: builds_def)
  next
    case False
    let ?ex = "map_option (\<lambda>i. i - 1) ex"
    have hd: "builds p V S (EqnCopyOpt b e) (g e) {lterm (g e), rterm (g e)}" using Cons.prems False by simp
    have tl: "builds p V S (EqnListCopyOptExcept b lits ?ex) (map g (list_except lits ?ex)) (set (lit_terms (map g (list_except lits ?ex))))"
      using Cons.prems False by (intro Cons.IH) simp
    show ?thesis
      unfolding builds_def
    proof (intro allI impI)
      fix bks assume inv: "banks_inv p V S bks"
      obtain b1 where b1: "EqnCopyOpt b e bks = Some (g e, b1)" "banks_inv p V S b1" "banks_le bks b1"
        "\<forall>t \<in> {lterm (g e), rterm (g e)}. TermIsShared (snd b1) t" using hd inv unfolding builds_def by blast
      obtain b2 where b2: "EqnListCopyOptExcept b lits ?ex b1 = Some (map g (list_except lits ?ex), b2)" "banks_inv p V S b2"
        "banks_le b1 b2" "\<forall>t \<in> set (lit_terms (map g (list_except lits ?ex))). TermIsShared (snd b2) t"
        using tl b1(2) unfolding builds_def by blast
      show "\<exists>bks'. EqnListCopyOptExcept b (e # lits) ex bks = Some (map g (list_except (e # lits) ex), bks') \<and>
          banks_inv p V S bks' \<and> banks_le bks bks' \<and> (\<forall>t \<in> set (lit_terms (map g (list_except (e # lits) ex))). TermIsShared (snd bks') t)"
        using b1 b2 False banks_le_trans [OF b1(3) b2(3)] banks_le_shared [OF b2(3)] by (auto simp: lit_terms_def)
    qed
  qed
qed


section \<open>Duplicates and trivial literals\<close>

lemma EqnListRemoveResolved_ok:
  "EqnListRemoveResolved list = (int (length [e \<leftarrow> list. EqnIsFalse e]), [e \<leftarrow> list. \<not> EqnIsFalse e])"
  by (induction list) auto

lemma EqnListFindTrue_ok: "EqnListFindTrue list = None \<longleftrightarrow> (\<forall>e \<in> set list. \<not> EqnIsTrue e)"
  by (induction list) auto

definition lit_same :: "Eqn \<Rightarrow> Eqn \<Rightarrow> bool" where
  "lit_same e1 e2 \<longleftrightarrow> EqnIsPositive e1 = EqnIsPositive e2 \<and> {lterm e1, rterm e1} = {lterm e2, rterm e2}"

text \<open>The first literal of every class.\<close>

primrec dedup :: "Eqn list \<Rightarrow> Eqn list" where
  "dedup [] = []"
| "dedup (e # es) = e # [x \<leftarrow> dedup es. \<not> lit_same e x]"

lemma dedup_subset: "set (dedup es) \<subseteq> set es"
  by (induction es) auto

lemma dedup_covers: "e \<in> set es \<Longrightarrow> \<exists>x \<in> set (dedup es). lit_same x e"
proof (induction es)
  case (Cons y es)
  show ?case
  proof (cases "e = y")
    case True
    then show ?thesis by (auto simp: lit_same_def)
  next
    case False
    then obtain x where x: "x \<in> set (dedup es)" "lit_same x e" using Cons by auto
    show ?thesis
    proof (cases "lit_same y x")
      case True
      then have "lit_same y e" using x(2) by (simp add: lit_same_def)
      then show ?thesis by auto
    qed (use x in auto)
  qed
qed simp

definition lit_key :: "TermStore \<Rightarrow> Eqn \<Rightarrow> int \<times> int \<times> int \<times> int" where
  "lit_key st e = (of_bool (\<not> EqnIsPositive e), of_bool (\<not> EqnQueryProp e EPIsEquLiteral),
     max (entry_no st (lterm e)) (entry_no st (rterm e)), min (entry_no st (lterm e)) (entry_no st (rterm e)))"

fun cmp4 :: "int \<times> int \<times> int \<times> int \<Rightarrow> int \<times> int \<times> int \<times> int \<Rightarrow> int" where
  "cmp4 (a, b, c, d) (a', b', c', d') =
     (if a < a' then - 1 else if a > a' then 1 else if b < b' then - 1 else if b > b' then 1
      else if c < c' then - 1 else if c > c' then 1 else if d < d' then - 1 else if d > d' then 1 else 0)"

lemma cmp4_cases:
  "cmp4 x y < 0 \<longleftrightarrow> fst x < fst y \<or> fst x = fst y \<and> (fst (snd x) < fst (snd y) \<or> fst (snd x) = fst (snd y) \<and>
     (fst (snd (snd x)) < fst (snd (snd y)) \<or> fst (snd (snd x)) = fst (snd (snd y)) \<and> snd (snd (snd x)) < snd (snd (snd y))))"
  by (cases x; cases y) auto

interpretation lit_order: key_order cmp4 UNIV
proof
  fix a b c :: "int \<times> int \<times> int \<times> int"
  show "cmp4 a b = 0 \<longleftrightarrow> a = b" by (cases a; cases b) auto
  show "cmp4 a b < 0 \<longleftrightarrow> 0 < cmp4 b a" by (cases a; cases b) auto
  show "cmp4 a b < 0 \<Longrightarrow> cmp4 b c < 0 \<Longrightarrow> cmp4 a c < 0" unfolding cmp4_cases by auto
qed

lemma LiteralSyntaxCompare_key: "LiteralSyntaxCompare st e1 e2 = cmp4 (lit_key st e1) (lit_key st e2)"
  by (simp add: LiteralSyntaxCompare_def EqnSyntaxCompare_def lit_key_def Let_def)

lemma splay_key:
  "splay_loop (\<lambda>a b. cmp (f a) (f b)) (\<lambda>x. x) k t ls rs = splay_loop cmp f (f k) t ls rs"
proof (induction "size t" arbitrary: t ls rs rule: less_induct)
  case less
  show ?case
  proof (cases t)
    case (Node l c r)
    have IH: "splay_loop (\<lambda>a b. cmp (f a) (f b)) (\<lambda>x. x) k u ls rs = splay_loop cmp f (f k) u ls rs"
      if "size u \<le> size l \<or> size u \<le> size r" for u ls rs
      using less [of u] that Node by auto
    show ?thesis
      unfolding Node splay_loop.simps(2) Let_def
      by (intro if_cong refl; cases l; cases r) (auto simp: IH split: tree.split)
  qed simp
qed

lemma insert_key: "PTreeObjStore t e (\<lambda>a b. cmp (f a) (f b)) = tree_insert cmp f t e"
  by (simp add: PTreeObjStore_def PTreeObjInsert_def tree_insert_def splay_def splay_key split: prod.splits option.splits)

lemma remove_dup_loop_ok:
  assumes "tree_ok cmp4 (lit_key st) UNIV t"
    and "\<And>x y. x \<in> set list \<Longrightarrow> y \<in> set list \<Longrightarrow> lit_key st x = lit_key st y \<longleftrightarrow> lit_same x y"
  shows "remove_dup_loop st t list =
    (int (length list) - int (length [x \<leftarrow> dedup list. lit_key st x \<notin> dom (tree_map (lit_key st) t)]),
     [x \<leftarrow> dedup list. lit_key st x \<notin> dom (tree_map (lit_key st) t)])"
  using assms
proof (induction list arbitrary: t)
  case (Cons e list)
  let ?k = "lit_key st" and ?m = "tree_map (lit_key st) t"
  obtain t' where t': "PTreeObjStore t e (LiteralSyntaxCompare st) = (?m (?k e), t')" "tree_ok cmp4 ?k UNIV t'"
    "tree_map ?k t' = (case ?m (?k e) of None \<Rightarrow> ?m(?k e \<mapsto> e) | Some c \<Rightarrow> ?m)"
    using lit_order.tree_insert_ok [OF Cons.prems(1), of e] unfolding LiteralSyntaxCompare_key [abs_def] insert_key by auto
  have key: "?k x = ?k e \<longleftrightarrow> lit_same e x" if "x \<in> set (dedup list)" for x
    using Cons.prems(2) [of e x] that dedup_subset [of list] by auto
  note IH = Cons.IH [OF t'(2)]
  show ?case
  proof (cases "?m (?k e)")
    case None
    have d: "dom (tree_map ?k t') = insert (?k e) (dom ?m)" using t'(3) None by simp
    have "[x \<leftarrow> dedup list. ?k x \<notin> insert (?k e) (dom ?m)] = [x \<leftarrow> [x \<leftarrow> dedup list. \<not> lit_same e x]. ?k x \<notin> dom ?m]"
      unfolding filter_filter using key by (intro filter_cong) (auto simp del: insert_dom)
    then show ?thesis using t'(1) None IH Cons.prems(2) d by (simp add: domIff)
  next
    case (Some c)
    have "[x \<leftarrow> dedup list. ?k x \<notin> dom ?m] = [x \<leftarrow> [x \<leftarrow> dedup list. \<not> lit_same e x]. ?k x \<notin> dom ?m]"
      unfolding filter_filter
    proof (intro filter_cong refl)
      fix x assume x: "x \<in> set (dedup list)"
      have "?k x \<in> dom ?m" if "lit_same e x" using key [OF x] that Some by auto
      then show "?k x \<notin> dom ?m \<longleftrightarrow> \<not> lit_same e x \<and> ?k x \<notin> dom ?m" by blast
    qed
    then show ?thesis using t'(1,3) Some IH Cons.prems(2) by (simp add: domIff)
  qed
qed simp

lemma EqnListRemoveDuplicates_dedup:
  assumes "\<And>x y. x \<in> set list \<Longrightarrow> y \<in> set list \<Longrightarrow> lit_key st x = lit_key st y \<longleftrightarrow> lit_same x y"
  shows "EqnListRemoveDuplicates st list = (int (length list) - int (length (dedup list)), dedup list)"
proof (cases "length list \<le> 1")
  case True
  then show ?thesis by (cases list; cases "tl list") (auto simp: EqnListRemoveDuplicates_def)
next
  case False
  then obtain e e' rest where l: "list = e # e' # rest" by (cases list; cases "tl list") auto
  let ?k = "lit_key st"
  obtain t where t: "PTreeObjStore Leaf e (LiteralSyntaxCompare st) = (None, t)" "tree_ok cmp4 ?k UNIV t"
    "tree_map ?k t = [?k e \<mapsto> e]"
    using lit_order.tree_insert_ok [of ?k Leaf e] unfolding LiteralSyntaxCompare_key [abs_def] insert_key
    by (auto simp: tree_map_def)
  have "[x \<leftarrow> dedup (e' # rest). ?k x \<notin> dom [?k e \<mapsto> e]] = [x \<leftarrow> dedup (e' # rest). \<not> lit_same e x]"
  proof (intro filter_cong refl)
    fix x assume "x \<in> set (dedup (e' # rest))"
    then have "x \<in> set list" using dedup_subset [of "e' # rest"] unfolding l by auto
    then show "?k x \<notin> dom [?k e \<mapsto> e] \<longleftrightarrow> \<not> lit_same e x" using assms [of e x] unfolding l by auto
  qed
  then show ?thesis
    using t(1,3) remove_dup_loop_ok [OF t(2), of "e' # rest"] assms unfolding l
    by (simp add: EqnListRemoveDuplicates_def del: dedup.simps(2)) (simp add: dedup.simps(2) [of e])
qed


text \<open>Literals whose sides are shared, where a variable is the one of its code.\<close>

lemma pair_max_min:
  fixes a b c d :: int
  shows "max a b = max c d \<and> min a b = min c d \<longleftrightarrow> a = c \<and> b = d \<or> a = d \<and> b = c"
  by (auto simp: max_def min_def split: if_splits)

lemma lit_key_same:
  assumes "store_ok st" and "inj_on var_code V" and "\<And>v. v \<in> V \<Longrightarrow> var_code v < 0"
    and sides: "\<And>t. t \<in> {lterm x, rterm x, lterm y, rterm y} \<Longrightarrow> TermIsShared st t \<and> (TermIsFreeVar t \<longrightarrow> t \<in> V)"
    and "lit_normal x" and "lit_normal y" and "eqn_bank x = eqn_bank y"
  shows "lit_key st x = lit_key st y \<longleftrightarrow> lit_same x y"
proof -
  have inj: "entry_no st t = entry_no st u \<longleftrightarrow> t = u"
    if "t \<in> {lterm x, rterm x, lterm y, rterm y}" "u \<in> {lterm x, rterm x, lterm y, rterm y}" for t u
    using entry_no_inj [OF assms(1) _ _ _ _ _ assms(2,3), of t u] sides [OF that(1)] sides [OF that(2)] by blast
  let ?e = "entry_no st"
  have "?e (lterm x) = ?e (lterm y) \<and> ?e (rterm x) = ?e (rterm y) \<or> ?e (lterm x) = ?e (rterm y) \<and> ?e (rterm x) = ?e (lterm y)
      \<longleftrightarrow> {lterm x, rterm x} = {lterm y, rterm y}"
    using inj by (auto simp: doubleton_eq_iff)
  moreover have "EqnQueryProp x EPIsEquLiteral = EqnQueryProp y EPIsEquLiteral" if "{lterm x, rterm x} = {lterm y, rterm y}"
    using that assms(5-7) by (auto simp: lit_normal_def equ_ok_def doubleton_eq_iff)
  ultimately show ?thesis
    by (auto simp: lit_key_def lit_same_def pair_max_min simp flip: of_bool_eq_iff)
qed


lemma set_prop_id:
  assumes "EqnQueryProp e q"
  shows "EqnSetProp e q = e"
proof -
  have "eqn_properties e OR q = eqn_properties e"
  proof (rule bit_eqI)
    fix n
    have "bit (eqn_properties e AND q) n = bit q n" using assms by (simp add: EqnQueryProp_def)
    then show "bit (eqn_properties e OR q) n = bit (eqn_properties e) n" by (auto simp: bit_or_iff bit_and_iff)
  qed
  then show ?thesis by (simp add: EqnSetProp_def)
qed

lemma del_prop_id:
  assumes "eqn_properties e AND q = 0"
  shows "EqnDelProp e q = e"
proof -
  have "eqn_properties e AND NOT q = eqn_properties e"
  proof (rule bit_eqI)
    fix n
    have "\<not> bit (eqn_properties e AND q) n" using assms by simp
    then show "bit (eqn_properties e AND NOT q) n = bit (eqn_properties e) n"
      by (auto simp: bit_and_iff bit_not_iff bit_simps)
  qed
  then show ?thesis by (simp add: EqnDelProp_def)
qed

lemma EqnMap_id:
  assumes "lit_normal e"
  shows "EqnMap (\<lambda>t. t) e = e"
proof -
  have "\<not> EqnQueryProp e EPIsEquLiteral \<Longrightarrow> eqn_properties e AND EPIsEquLiteral = 0"
    using and_single_bit [of "eqn_properties e" 3] by (simp add: EqnQueryProp_def EPIsEquLiteral_def)
  then have "rterm e \<noteq> true_term (eqn_bank e) \<Longrightarrow> EqnSetProp e EPIsEquLiteral = e"
    "rterm e = true_term (eqn_bank e) \<Longrightarrow> EqnDelProp e EPIsEquLiteral = e"
    using assms set_prop_id [of e EPIsEquLiteral] del_prop_id [of e EPIsEquLiteral]
    by (auto simp: lit_normal_def equ_ok_def)
  then show ?thesis
    using assms by (cases "rterm e = true_term (eqn_bank e)") (auto simp: EqnMap_def lit_normal_def Let_def)
qed

lemma EqnListLambdaNormalize_id: "(\<And>e. e \<in> set list \<Longrightarrow> lit_normal e) \<Longrightarrow> EqnListLambdaNormalize list = list"
  by (simp add: EqnListLambdaNormalize_def EqnListMapTerms_def EqnMap_id map_idI)

end
