(* ===== verification/PrecedenceClosure.thy ===== *)
theory PrecedenceClosure
  imports Precedences EqnCopies
begin

text \<open>
  How a precedence is generated (\<open>HEURISTICS/che_to_precgen.c\<close>): \<open>compute_precedence_from_array\<close>
  turns the sorted array of the symbols into weights or, by \<open>OCBPrecedenceAddTuple\<close>, into a matrix.
  The theory shows that \<open>OCBPrecedenceAddTuple\<close> closes a matrix transitively, and that a generated
  precedence is a partial ordering in which the symbols are ascending in the order of the array.
\<close>

unbundle bit_operations_syntax

section \<open>Comparisons of an extended matrix\<close>







section \<open>Transitive closure\<close>






















section \<open>Generating a precedence\<close>








section \<open>The matrix of a generated precedence\<close>















section \<open>The weights of a generated precedence\<close>







section \<open>Properties\<close>









end
