(* ===== verification/Semantics.thy ===== *)
theory Semantics
  imports EqnCopies
begin

text \<open>
  What literals and clauses mean: truth in many-sorted interpretations with two truth values, where
  distinct objects are different. \<open>entails\<close> is logical consequence between clauses, and is what the
  inference rules are proved to respect.
\<close>

record 'd interp =
  dom_of :: "nat \<Rightarrow> 'd set"
  fun_of :: "int \<Rightarrow> 'd list \<Rightarrow> 'd"

fun eval :: "'d interp \<Rightarrow> (Term_p \<Rightarrow> 'd) \<Rightarrow> Term_p \<Rightarrow> 'd" where
  "eval I \<alpha> (TermCell f p ty as) = (if f < 0 then \<alpha> (TermCell f p ty as) else fun_of I f (map (eval I \<alpha>) as))"

definition value_ok :: "TB \<Rightarrow> 'd interp \<Rightarrow> (Term_p \<Rightarrow> 'd) \<Rightarrow> bool" where
  "value_ok tb I \<alpha> \<longleftrightarrow> (\<forall>v. TermIsFreeVar v \<longrightarrow> wf_term (tb_sig tb) v \<longrightarrow> \<alpha> v \<in> dom_of I (t_type v))"

text \<open>The truth value of a constant does not depend on the variables.\<close>

definition const_value :: "'d interp \<Rightarrow> Term_p \<Rightarrow> 'd" where
  "const_value I t = fun_of I (f_code t) []"

definition is_distinct :: "Sig \<Rightarrow> int \<Rightarrow> bool" where
  "is_distinct sg f \<longleftrightarrow> \<not> f < 0 \<and> SigIsAnyFuncPropSet sg f (sg_distinct sg) \<noteq> 0"

definition interp_ok :: "TB \<Rightarrow> 'd interp \<Rightarrow> bool" where
  "interp_ok tb I \<longleftrightarrow>
     (\<forall>f as. \<not> f < 0 \<longrightarrow> length as = sg_arity (tb_sig tb) f \<longrightarrow> fun_of I f as \<in> dom_of I (sg_type (tb_sig tb) f)) \<and>
     dom_of I (t_type (true_term tb)) = {const_value I (true_term tb), const_value I (false_term tb)} \<and>
     const_value I (true_term tb) \<noteq> const_value I (false_term tb) \<and>
     (\<forall>f g. is_distinct (tb_sig tb) f \<longrightarrow> is_distinct (tb_sig tb) g \<longrightarrow> f \<noteq> g \<longrightarrow> fun_of I f [] \<noteq> fun_of I g [])"

definition lit_true :: "'d interp \<Rightarrow> (Term_p \<Rightarrow> 'd) \<Rightarrow> Eqn \<Rightarrow> bool" where
  "lit_true I \<alpha> e \<longleftrightarrow> EqnIsPositive e = (eval I \<alpha> (lterm e) = eval I \<alpha> (rterm e))"

definition clause_true :: "'d interp \<Rightarrow> (Term_p \<Rightarrow> 'd) \<Rightarrow> Eqn list \<Rightarrow> bool" where
  "clause_true I \<alpha> lits \<longleftrightarrow> (\<exists>e \<in> set lits. lit_true I \<alpha> e)"

definition valid_in :: "TB \<Rightarrow> 'd interp \<Rightarrow> Eqn list \<Rightarrow> bool" where
  "valid_in tb I lits \<longleftrightarrow> (\<forall>\<alpha>. value_ok tb I \<alpha> \<longrightarrow> clause_true I \<alpha> lits)"

text \<open>The clauses \<open>Cs\<close> entail the clause \<open>lits\<close>, in interpretations over the type \<open>'d\<close>.\<close>

definition entails :: "'d itself \<Rightarrow> TB \<Rightarrow> Eqn list set \<Rightarrow> Eqn list \<Rightarrow> bool" where
  "entails ty tb Cs lits \<longleftrightarrow>
     (\<forall>I :: 'd interp. interp_ok tb I \<longrightarrow> (\<forall>C \<in> Cs. valid_in tb I C) \<longrightarrow> valid_in tb I lits)"

lemma eval_inst: "eval I \<alpha> (inst \<theta> t) = eval I (\<lambda>v. eval I \<alpha> (\<theta> v)) t"
  by (induction t) (auto simp: comp_def intro: arg_cong [where f = "fun_of I f" for f])

lemma eval_dom:
  assumes "interp_ok tb I" and "value_ok tb I \<alpha>" and "wf_term (tb_sig tb) t"
  shows "eval I \<alpha> t \<in> dom_of I (t_type t)"
proof (cases t)
  case (TermCell f p ty as)
  show ?thesis
  proof (cases "f < 0")
    case True
    then have "TermIsFreeVar t" "eval I \<alpha> t = \<alpha> t" using TermCell by simp_all
    then show ?thesis using assms(2,3) by (simp add: value_ok_def)
  next
    case False
    then have "length (map (eval I \<alpha>) as) = sg_arity (tb_sig tb) f" "ty = sg_type (tb_sig tb) f" using assms(3) TermCell by auto
    then show ?thesis using assms(1) False TermCell unfolding interp_ok_def by auto
  qed
qed

lemma value_ok_inst:
  assumes "interp_ok tb I" and "value_ok tb I \<alpha>" and "subst_typed (tb_sig tb) \<theta>"
  shows "value_ok tb I (\<lambda>v. eval I \<alpha> (\<theta> v))"
  using assms eval_dom [OF assms(1,2)] unfolding value_ok_def subst_typed_def by metis

lemma eval_const: "t_args t = [] \<Longrightarrow> \<not> TermIsFreeVar t \<Longrightarrow> eval I \<alpha> t = const_value I t"
  by (cases t) (simp add: const_value_def)

text \<open>A literal and its instance, and the literals that the code takes for true or false.\<close>

lemma lit_true_inst: "lit_true I \<alpha> (inst_lit \<theta> e) \<longleftrightarrow> lit_true I (\<lambda>v. eval I \<alpha> (\<theta> v)) e"
  by (simp add: lit_true_def eval_inst)

lemma lit_true_same: "lit_same e1 e2 \<Longrightarrow> lit_true I \<alpha> e1 \<longleftrightarrow> lit_true I \<alpha> e2"
  by (auto simp: lit_same_def lit_true_def doubleton_eq_iff)

lemma distinct_eval:
  assumes "interp_ok tb I" and "eqn_bank e = tb" and "EqnTermsAreDistinct e"
  shows "eval I \<alpha> (lterm e) \<noteq> eval I \<alpha> (rterm e)"
proof -
  have c: "t_args (lterm e) = []" "\<not> TermIsFreeVar (lterm e)" "t_args (rterm e) = []" "\<not> TermIsFreeVar (rterm e)"
    "is_distinct (tb_sig tb) (f_code (lterm e))" "is_distinct (tb_sig tb) (f_code (rterm e))"
    "f_code (lterm e) \<noteq> f_code (rterm e)"
    using assms(2,3) by (auto simp: EqnTermsAreDistinct_def TermIsConst_def arity_def is_distinct_def TermIsFreeVar_def)
  then show ?thesis
    using assms(1) eval_const [OF c(1,2)] eval_const [OF c(3,4)] unfolding interp_ok_def const_value_def by metis
qed

lemma false_lit: "interp_ok tb I \<Longrightarrow> eqn_bank e = tb \<Longrightarrow> EqnIsFalse e \<Longrightarrow> \<not> lit_true I \<alpha> e"
  using distinct_eval [of tb I e \<alpha>]
  by (auto simp: EqnIsFalse_def lit_true_def EqnIsTrivial_def EqnIsNegative_def EqnIsPositive_def split: if_splits)

lemma true_lit: "interp_ok tb I \<Longrightarrow> eqn_bank e = tb \<Longrightarrow> EqnIsTrue e \<Longrightarrow> lit_true I \<alpha> e"
  using distinct_eval [of tb I e \<alpha>]
  by (auto simp: EqnIsTrue_def lit_true_def EqnIsTrivial_def split: if_splits)

lemma alloc_lit:
  assumes "interp_ok tb I" and "value_ok tb I \<alpha>" and tb: "tb_ok tb"
    and wf: "wf_term (tb_sig tb) l" "wf_term (tb_sig tb) r" "t_type l = t_type r"
    and sides: "{lterm h, rterm h} = {alloc_true tb l, alloc_true tb r}"
    and sign: "EqnIsPositive h = (pos = ((l = false_term tb) = (r = false_term tb)))"
  shows "lit_true I \<alpha> h \<longleftrightarrow> pos = (eval I \<alpha> l = eval I \<alpha> r)"
proof -
  let ?v = "eval I \<alpha>" and ?t = "true_term tb" and ?f = "false_term tb"
  have c: "?v ?t = const_value I ?t" "?v ?f = const_value I ?f"
    using eval_const [OF tb_okD(4,6) [OF tb]] eval_const [OF tb_okD(5,7) [OF tb]] by blast+
  then have tf: "?v ?t \<noteq> ?v ?f" "dom_of I (t_type ?t) = {?v ?t, ?v ?f}" using assms(1) by (simp_all add: interp_ok_def)
  have dom: "?v x = ?v ?t \<or> ?v x = ?v ?f" if "wf_term (tb_sig tb) x" "t_type x = t_type ?f" for x
    using eval_dom [OF assms(1,2) that(1)] that(2) tf(2) tb_okD(9) [OF tb] by auto
  have "lit_true I \<alpha> h \<longleftrightarrow> EqnIsPositive h = (?v (alloc_true tb l) = ?v (alloc_true tb r))"
    using sides by (auto simp: lit_true_def doubleton_eq_iff)
  also have "\<dots> \<longleftrightarrow> pos = (?v l = ?v r)"
    using sign tf(1) dom [OF wf(1)] dom [OF wf(2)] wf(3) by (auto simp: alloc_true_def)
  finally show ?thesis .
qed

text \<open>Removing false literals and duplicates does not change the meaning.\<close>

lemma clause_true_simplify:
  assumes "interp_ok tb I" and "\<And>e. e \<in> set lits \<Longrightarrow> eqn_bank e = tb"
  shows "clause_true I \<alpha> (dedup [e \<leftarrow> lits. \<not> EqnIsFalse e]) \<longleftrightarrow> clause_true I \<alpha> lits"
proof
  assume "clause_true I \<alpha> (dedup [e \<leftarrow> lits. \<not> EqnIsFalse e])"
  then show "clause_true I \<alpha> lits" using dedup_subset unfolding clause_true_def by fastforce
next
  assume "clause_true I \<alpha> lits"
  then obtain e where e: "e \<in> set lits" "lit_true I \<alpha> e" by (auto simp: clause_true_def)
  then have "e \<in> set [e \<leftarrow> lits. \<not> EqnIsFalse e]" using false_lit [OF assms] by auto
  then show "clause_true I \<alpha> (dedup [e \<leftarrow> lits. \<not> EqnIsFalse e])"
    using dedup_covers lit_true_same e(2) unfolding clause_true_def by blast
qed

end
