(* ===== verification/Inferences.thy ===== *)
theory Inferences
  imports Semantics
begin

text \<open>
  What the inference rules share: when a clause, a term bank and the bank of fresh variables fit
  together (\<open>inf_ok\<close>, \<open>lit_in\<close>), and what normalising the variables and copying the literals yields:
  the instances under a renaming of the substitution, which fit again.
\<close>

section \<open>Terms of a bank\<close>

definition inf_ok :: "TB \<Rightarrow> nat \<Rightarrow> banks \<Rightarrow> bool" where
  "inf_ok tb a bks \<longleftrightarrow> tb_ok tb \<and> vbs_ok (fst bks) \<and> store_ok (snd bks) \<and> tb_vars tb < length (fst bks) \<and>
     a < length (fst bks) \<and> shadow (fst bks ! a) = Some (tb_vars tb)"

definition in_bank :: "TB \<Rightarrow> banks \<Rightarrow> Term_p \<Rightarrow> bool" where
  "in_bank tb bks t \<longleftrightarrow> sorted_term tb t \<and> TermIsShared (snd bks) t \<and>
     (\<forall>v \<in> term_vars t. var_bank v = tb_vars tb \<and> known (tb_vars tb) (fst bks) v)"

definition lit_in :: "TB \<Rightarrow> banks \<Rightarrow> Eqn \<Rightarrow> bool" where
  "lit_in tb bks e \<longleftrightarrow> lit_sorted tb e \<and> lit_normal e \<and> in_bank tb bks (lterm e) \<and> in_bank tb bks (rterm e)"

definition binds_bank :: "TB \<Rightarrow> banks \<Rightarrow> bindings \<Rightarrow> bool" where
  "binds_bank tb bks b \<longleftrightarrow> subst_wf (tb_sig tb) b \<and> (\<forall>v t. b v = Some t \<longrightarrow> in_bank tb bks v \<and> in_bank tb bks t)"

lemma inf_okD:
  assumes "inf_ok tb a bks"
  shows "tb_ok tb" "vbs_ok (fst bks)" "store_ok (snd bks)" "tb_vars tb < length (fst bks)" "a < length (fst bks)"
    "shadow (fst bks ! a) = Some (tb_vars tb)" "tb_vars tb \<noteq> a"
proof -
  show "tb_ok tb" "vbs_ok (fst bks)" "store_ok (snd bks)" "tb_vars tb < length (fst bks)" "a < length (fst bks)"
    "shadow (fst bks ! a) = Some (tb_vars tb)" using assms by (auto simp: inf_ok_def)
  then show "tb_vars tb \<noteq> a" using vbs_core_shadow(2) [OF vbs_ok_core] by blast
qed

lemma in_bankD:
  assumes "in_bank tb bks t"
  shows "sorted_term tb t" "wf_term (tb_sig tb) t" "TermIsShared (snd bks) t"
    "\<And>v. v \<in> term_vars t \<Longrightarrow> var_bank v = tb_vars tb" "\<And>v. v \<in> term_vars t \<Longrightarrow> known (tb_vars tb) (fst bks) v"
  using assms by (auto simp: in_bank_def sorted_term_def)

lemma lit_inD:
  assumes "lit_in tb bks e"
  shows "lit_sorted tb e" "lit_normal e" "in_bank tb bks (lterm e)" "in_bank tb bks (rterm e)" "eqn_bank e = tb"
    "wf_term (tb_sig tb) (lterm e)" "wf_term (tb_sig tb) (rterm e)"
  using assms by (auto simp: lit_in_def lit_sorted_def sorted_term_def)

lemma args_closed_in_bank: "store_ok (snd bks) \<Longrightarrow> args_closed (in_bank tb bks)"
  unfolding args_closed_def
proof (intro allI impI)
  fix t a assume st: "store_ok (snd bks)" and t: "in_bank tb bks t" and a: "a \<in> set (t_args t)"
  obtain f p ty as where c: "t = TermCell f p ty as" by (cases t)
  have nv: "\<not> f < 0" using in_bankD(2) [OF t] a by (auto simp: c)
  show "in_bank tb bks a"
    using t a nv store_okD(3) [OF st in_bankD(3) [OF t], of a] by (auto simp: in_bank_def sorted_term_def c)
qed

lemma arity_ok_in_bank: "arity_ok (in_bank tb bks)"
  unfolding arity_ok_def
proof (intro allI impI)
  fix t u assume a: "in_bank tb bks t" "in_bank tb bks u" "\<not> TermIsFreeVar t" "f_code t = f_code u"
  then show "arity t = arity u"
    using in_bankD(2) [OF a(1)] in_bankD(2) [OF a(2)] by (cases t; cases u) auto
qed

lemma binds_bankD:
  assumes "binds_bank tb bks b"
  shows "subst_wf (tb_sig tb) b" "\<And>v t. b v = Some t \<Longrightarrow> in_bank tb bks v" "\<And>v t. b v = Some t \<Longrightarrow> in_bank tb bks t"
  using assms by (auto simp: binds_bank_def)

lemma binds_bank_empty: "binds_bank tb bks (\<lambda>_. None)"
  by (simp add: binds_bank_def subst_wf_empty)

lemma binds_bank_mgu:
  assumes "binds_bank tb bks b" and "store_ok (snd bks)" and "in_bank tb bks t1" and "in_bank tb bks t2"
    and "pstack_ok s" and "SubstComputeMgu t1 t2 s b = Some (True, s', b')"
  shows "binds_bank tb bks b'"
proof -
  note B = binds_bankD [OF assms(1)]
  have "\<not> (t_predpos t1 \<and> TermIsFreeVar t2 \<or> t_predpos t2 \<and> TermIsFreeVar t1)"
    using assms(6) by (auto simp: SubstComputeMgu_def)
  then have inv: "mgu_inv (tb_sig tb) b {(t1, t2)} b' {}"
    using SubstComputeMgu_post [OF B(1) assms(5) in_bankD(2) [OF assms(3)] in_bankD(2) [OF assms(4)]] assms(6) by auto
  have bi: "binds_in (in_bank tb bks) b b'"
    by (rule SubstComputeMgu_in [OF assms(6) args_closed_in_bank [OF assms(2)] arity_ok_in_bank assms(3,4) B(3)])
  have le: "b \<subseteq>\<^sub>m b'" using inv by (simp add: mgu_inv_def)
  have "in_bank tb bks v" if "b' v = Some t" for v t
  proof (cases "b v")
    case None
    then show ?thesis using bi that by (auto simp: binds_in_def)
  qed (use B(2) in blast)
  then show ?thesis using inv bi by (auto simp: binds_bank_def mgu_inv_def binds_in_def)
qed

lemma full_vars_in:
  assumes "full b t u" and "args_closed P" and "\<And>v t. b v = Some t \<Longrightarrow> P t" and "P t" and "v \<in> term_vars u"
  shows "P v"
  using assms(1,4,5)
proof (induction rule: full.induct)
  case (full_unbound w)
  then show ?case by (simp add: wf_term_var_vars)
next
  case (full_bound w t u)
  then show ?case using assms(3) by blast
next
  case (full_fun f as us p ty)
  then obtain i where i: "i < length us" "v \<in> term_vars (us ! i)" by (auto simp: in_set_conv_nth split: if_splits)
  have len: "length as = length us" using full_fun.IH by (simp add: list_all2_lengthD)
  then have "as ! i \<in> set (t_args (TermCell f p ty as))" using i(1) by simp
  then have "P (as ! i)" using assms(2) full_fun.prems(1) unfolding args_closed_def by blast
  then show ?case using full_fun.IH i len by (auto simp: list_all2_conv_all_nth)
qed

lemma sigma_vars_in_bank:
  assumes "binds_bank tb bks b" and "store_ok (snd bks)" and "in_bank tb bks t" and "v \<in> term_vars (sigma b t)"
  shows "in_bank tb bks v" "var_bank v = tb_vars tb" "known (tb_vars tb) (fst bks) v"
proof -
  note B = binds_bankD [OF assms(1)]
  show i: "in_bank tb bks v"
    by (rule full_vars_in [OF sigma_full [OF B(1) in_bankD(2) [OF assms(3)]] args_closed_in_bank [OF assms(2)] B(3) assms(3,4)])
  have "v \<in> term_vars v" using term_vars_free [OF assms(4)] by (simp add: wf_term_var_vars)
  then show "var_bank v = tb_vars tb" "known (tb_vars tb) (fst bks) v" using in_bankD(4,5) [OF i] by blast+
qed

lemma args_closed_sorted: "args_closed (sorted_term tb)"
  unfolding args_closed_def
proof (intro allI impI)
  fix t a assume t: "sorted_term tb t" and a: "a \<in> set (t_args t)"
  obtain f p ty as where c: "t = TermCell f p ty as" by (cases t)
  have "\<not> f < 0" using t a by (auto simp: c sorted_term_def)
  then show "sorted_term tb a" using t a by (auto simp: sorted_term_def c)
qed

lemma sigma_sorted:
  assumes "binds_bank tb bks b" and "sorted_term tb t"
  shows "sorted_term tb (sigma b t)" "\<And>v. v \<in> term_vars (sigma b t) \<Longrightarrow> sorted_term tb v"
proof -
  note B = binds_bankD [OF assms(1)]
  have wf: "wf_term (tb_sig tb) t" using assms(2) by (simp add: sorted_term_def)
  have v: "sorted_term tb v" if "v \<in> term_vars (sigma b t)" for v
    by (rule full_vars_in [OF sigma_full [OF B(1) wf] args_closed_sorted in_bankD(1) [OF B(3)] assms(2) that])
  then show "\<And>v. v \<in> term_vars (sigma b t) \<Longrightarrow> sorted_term tb v" .
  have "t_type v \<noteq> t_type (true_term tb)" if "v \<in> term_vars (sigma b t)" for v
    using v [OF that] term_vars_free [OF that] by (auto simp: sorted_term_def wf_term_var_vars)
  then show "sorted_term tb (sigma b t)" using sigma_wf(1) [OF B(1) wf] by (simp add: sorted_term_def)
qed

section \<open>Normalising and copying\<close>

lemma in_use_known:
  assumes "vbs_ok vbs" and "a < length vbs" and "shadow (vbs ! a) = Some p" and "w \<in> in_use (vbs ! a)"
  shows "known p vbs w" "var_bank w = a"
proof -
  note ok = vbs_core_at [OF vbs_ok_core [OF assms(1)] assms(2)]
  obtain ty where "w \<in> set (vb_stack (vbs ! a) ty)" using assms(4) by (auto simp: in_use_def dest: in_set_takeD)
  then obtain i where i: "vb_vars (vbs ! a) i = Some w" using ok(1) unfolding VarBanks.vb_ok_def vb_inv_def by blast
  then have w: "0 < i" "w = var_cell a (- int i) (t_type w)" using ok(1) unfolding VarBanks.vb_ok_def vb_inv_def by blast+
  have c: "var_bank w = a" "var_code w = - int i" using var_cell_simps(3,4) [OF ok(2)] w(2) by metis+
  then show "var_bank w = a" by simp
  show "known p vbs w" using c i w(1) assms(2,3) by (simp add: known_def Let_def)
qed

lemma norm_ren_type:
  assumes "norm_inv sg a b0 b special vbs" and "wf_term sg v" and "TermIsFreeVar v"
  shows "TermIsFreeVar (norm_ren b0 b v)" "t_type (norm_ren b0 b v) = t_type v" "wf_term sg (norm_ren b0 b v)"
    "norm_ren b0 b v = v \<or> norm_ren b0 b v \<in> in_use (vbs ! a)"
proof -
  note I = norm_invD [OF assms(1)]
  have ok: "binds_ok sg b" using I(4) by (simp add: subst_wf_def)
  show "TermIsFreeVar (norm_ren b0 b v)" "t_type (norm_ren b0 b v) = t_type v" "wf_term sg (norm_ren b0 b v)"
    "norm_ren b0 b v = v \<or> norm_ren b0 b v \<in> in_use (vbs ! a)"
    using assms(2,3) I(8) [of v] binds_okD(3,4) [OF ok, of v] by (auto simp: norm_ren_def split: option.splits)
qed

text \<open>The substitution that a copy applies: the bindings, and then the variables of the bank.\<close>

definition copy_subst :: "TB \<Rightarrow> bindings \<Rightarrow> Term_p \<Rightarrow> Term_p" where
  "copy_subst tb b v = inst (prim (tb_vars tb)) (sigma b v)"

lemma copy_subst_inst:
  assumes "subst_wf (tb_sig tb) b" and "wf_term (tb_sig tb) t"
  shows "inst (copy_subst tb b) t = inst (prim (tb_vars tb)) (sigma b t)"
  using sigma_inst [OF assms] by (simp add: inst_comp copy_subst_def [abs_def])

lemma prim_typed:
  assumes "int p < MAX_BANKS" and "wf_term sg v" and "TermIsFreeVar v"
  shows "wf_term sg (prim p v)" "t_type (prim p v) = t_type v" "TermIsFreeVar (prim p v)"
proof -
  have "t_type v \<noteq> 0" using assms(2) by (cases v) simp
  then show "wf_term sg (prim p v)" "t_type (prim p v) = t_type v" "TermIsFreeVar (prim p v)"
    using var_cell_wf [OF assms(1) var_cell_of(2) [OF assms(2,3)]] var_cell_free [OF assms(1) var_cell_of(2) [OF assms(2,3)]]
    by (simp_all add: prim_def)
qed

lemma prim_subst_typed: "int p < MAX_BANKS \<Longrightarrow> subst_typed sg (prim p)"
  using prim_typed unfolding subst_typed_def by blast

lemma copy_subst_typed:
  assumes "subst_wf (tb_sig tb) b" and "int (tb_vars tb) < MAX_BANKS"
  shows "subst_typed (tb_sig tb) (copy_subst tb b)"
  using sigma_typed [OF assms(1)] inst_typed [OF prim_subst_typed [OF assms(2), of "tb_sig tb"]]
  unfolding subst_typed_def copy_subst_def by metis

text \<open>What a clause is copied with: bindings that rename what \<open>b\<close> leaves unbound.\<close>

lemma norm_sorted:
  assumes "norm_inv (tb_sig tb) a b b' special vbs" and "binds_bank tb bks b" and "sorted_term tb t" and "tb_ok tb"
    and "int (tb_vars tb) < MAX_BANKS"
  shows "sorted_term tb (inst (copy_subst tb b') t)" "t_type (inst (copy_subst tb b') t) = t_type t"
proof -
  let ?p = "tb_vars tb" and ?sg = "tb_sig tb"
  have wf: "wf_term ?sg t" using assms(3) by (simp add: sorted_term_def)
  note I = norm_invD [OF assms(1)]
  note typed = inst_typed [OF copy_subst_typed [OF I(4) assms(5)] wf]
  then show "t_type (inst (copy_subst tb b') t) = t_type t" by blast
  have "t_type v \<noteq> t_type (true_term tb)" if "v \<in> term_vars (inst (copy_subst tb b') t)" for v
  proof -
    have "v \<in> term_vars (inst (prim ?p) (inst (norm_ren b b') (sigma b t)))"
      using that unfolding copy_subst_inst [OF I(4) wf] norm_sigma [OF assms(1) wf] .
    then obtain u x where u: "u \<in> term_vars (sigma b t)" "x \<in> term_vars (norm_ren b b' u)" "v \<in> term_vars (prim ?p x)"
      unfolding term_vars_inst by blast
    have fu: "TermIsFreeVar u" and su: "sorted_term tb u"
      using term_vars_free [OF u(1)] sigma_sorted(2) [OF assms(2,3) u(1)] by blast+
    then have wu: "wf_term ?sg u" "t_type u \<noteq> t_type (true_term tb)" by (auto simp: sorted_term_def wf_term_var_vars)
    note r = norm_ren_type [OF assms(1) wu(1) fu]
    note q = prim_typed [OF assms(5) r(3,1)]
    have "v = prim ?p (norm_ren b b' u)" using u(2,3) r(1) q(3) by (simp add: wf_term_var_vars)
    then show ?thesis using q(2) r(2) wu(2) by simp
  qed
  then show "sorted_term tb (inst (copy_subst tb b') t)" using typed by (simp add: sorted_term_def)
qed

lemma norm_vars_known:
  assumes "norm_inv (tb_sig tb) a b b' special vbs'" and "binds_bank tb bks b" and "store_ok (snd bks)" and "in_bank tb bks t"
    and "vbs_ext (fst bks) vbs'" and "shadow (vbs' ! a) = Some (tb_vars tb)" and "v \<in> term_vars (sigma b' t)"
  shows "known (tb_vars tb) vbs' v"
proof -
  note I = norm_invD [OF assms(1)] and wf = in_bankD(2) [OF assms(4)]
  obtain u where u: "u \<in> term_vars (sigma b t)" "v \<in> term_vars (norm_ren b b' u)"
    using assms(7) unfolding norm_sigma [OF assms(1) wf] by (auto simp: term_vars_inst)
  have wu: "wf_term (tb_sig tb) u" "TermIsFreeVar u"
    using term_vars_wf [OF sigma_wf(1) [OF I(3) wf] u(1)] term_vars_free [OF u(1)] by blast+
  note r = norm_ren_type [OF assms(1) wu]
  have v: "v = norm_ren b b' u" using u(2) r(1) by (simp add: wf_term_var_vars)
  show ?thesis
  proof (cases "norm_ren b b' u = u")
    case True
    then show ?thesis using v sigma_vars_in_bank(3) [OF assms(2-4) u(1)] vbs_ext_known [OF assms(5)] by simp
  next
    case False
    then show ?thesis using v r(4) in_use_known(1) [OF I(1,2) assms(6)] by simp
  qed
qed

lemma norm_ok_lit:
  assumes "binds_bank tb bks b" and "store_ok (snd bks)" and "in_bank tb bks t" and "tb_vars tb \<noteq> a"
  shows "norm_ok (tb_sig tb) a b special t"
  using sigma_vars_in_bank(2) [OF assms(1-3)] in_bankD(2) [OF assms(3)] assms(4) by (auto simp: norm_ok_def)

text \<open>The bank of fresh variables is reset before an inference.\<close>

lemma reset_ok:
  assumes "inf_ok tb a bks"
  shows "\<exists>v. VarBankResetVCounts (fst bks ! a) = Some v \<and> inf_ok tb a ((fst bks)[a := v], snd bks) \<and>
    vbs_ext (fst bks) ((fst bks)[a := v])"
proof -
  note I = inf_okD [OF assms]
  obtain v where v: "VarBankResetVCounts (fst bks ! a) = Some v" "VarBanks.vb_ok a v" "vb_vars v = vb_vars (fst bks ! a)"
    "vb_stack v = vb_stack (fst bks ! a)" "vb_rest v = vb_rest (fst bks ! a)"
    using VarBankResetVCounts_ok [OF vbs_core_at(1) [OF vbs_ok_core [OF I(2)] I(5)]] by auto
  then have "vbs_ok ((fst bks)[a := v])" by (intro vbs_ok_upd [OF I(2,5)]) (auto simp: vb_rest_def)
  moreover have ext: "vbs_ext (fst bks) ((fst bks)[a := v])"
  proof -
    have "vb_ext (fst bks ! a) v" using v(3-5) by (simp add: vb_ext_def vb_rest_def)
    then show ?thesis using I(5) by (auto simp: vbs_ext_def nth_list_update)
  qed
  moreover have "shadow v = Some (tb_vars tb)" using v(5) I(6) by (simp add: vb_rest_def)
  ultimately show ?thesis using v(1) I by (auto simp: inf_ok_def)
qed

lemma in_bank_mono:
  assumes "in_bank tb bks t" and "vbs_ext (fst bks) (fst bks')" and "store_le (snd bks) (snd bks')"
  shows "in_bank tb bks' t"
  using assms(1) vbs_ext_known [OF assms(2)] store_le_shared [OF assms(3)] by (auto simp: in_bank_def)

lemma lit_in_mono:
  "lit_in tb bks e \<Longrightarrow> vbs_ext (fst bks) (fst bks') \<Longrightarrow> store_le (snd bks) (snd bks') \<Longrightarrow> lit_in tb bks' e"
  using in_bank_mono unfolding lit_in_def by blast

lemma binds_bank_mono:
  "binds_bank tb bks b \<Longrightarrow> vbs_ext (fst bks) (fst bks') \<Longrightarrow> store_le (snd bks) (snd bks') \<Longrightarrow> binds_bank tb bks' b"
  using in_bank_mono unfolding binds_bank_def by blast

text \<open>
  The state while an inference copies: bindings \<open>b'\<close> that extend \<open>b\<close> by fresh variables for the
  variables of the list \<open>ts\<close> of terms.
\<close>

definition normed :: "TB \<Rightarrow> nat \<Rightarrow> bindings \<Rightarrow> banks \<Rightarrow> bindings \<Rightarrow> Term_p set \<Rightarrow> VarBanks \<Rightarrow> bool" where
  "normed tb a b bks b' special vbs \<longleftrightarrow> norm_inv (tb_sig tb) a b b' special vbs \<and> binds_bank tb bks b \<and>
     store_ok (snd bks) \<and> vbs_ext (fst bks) vbs \<and> inf_ok tb a (vbs, snd bks)"

lemma NormSubst_normed:
  assumes inf: "inf_ok tb a bks" and b: "binds_bank tb bks b" and sp: "\<forall>v \<in> special. var_bank v = a"
    and tr: "trail b1 tr b s" and lits: "\<forall>e \<in> set lits. lit_in tb bks e"
  shows "\<exists>s' b' special' vbs'. NormSubstEqnListExcept lits ex s b special (fst bks) a =
      Some (PStackGetSP s, s', b', special', vbs') \<and> normed tb a b bks b' special' vbs' \<and> trail b1 tr b' s' \<and>
    (\<forall>t \<in> set (lit_terms (list_except lits ex)). term_vars (sigma b' t) \<subseteq> special')"
proof -
  note I = inf_okD [OF inf]
  have vb: "var_bank v = tb_vars tb" if "b v = Some t" for v t
  proof -
    note B = binds_bankD [OF b]
    have "TermIsFreeVar v" using B(1) that unfolding subst_wf_def binds_ok_def by blast
    then have "v \<in> term_vars v" by (simp add: wf_term_var_vars)
    then show ?thesis using in_bankD(4) [OF B(2) [OF that]] by blast
  qed
  have unb: "b v = None" if "var_bank v = a" for v
  proof (cases "b v")
    case (Some t)
    then show ?thesis using vb [OF Some] that I(7) by simp
  qed simp
  have inv: "norm_inv (tb_sig tb) a b b special (fst bks)"
    by (rule norm_inv_init [OF I(2,5) binds_bankD(1) [OF b] bspec [OF sp] unb])
  have ok: "norm_ok (tb_sig tb) a b special t" if t: "t \<in> set (lit_terms (list_except lits ex))" for t
  proof -
    obtain e where e: "e \<in> set lits" "t = lterm e \<or> t = rterm e"
      using t set_list_except [of lits ex] by (auto simp: set_lit_terms)
    then have "in_bank tb bks t" using lit_inD(3,4) [OF bspec [OF lits e(1)]] by blast
    then show ?thesis by (rule norm_ok_lit [OF b I(3) _ I(7)])
  qed
  obtain s' b' special' vbs' where N: "NormSubstEqnListExcept lits ex s b special (fst bks) a =
      Some (PStackGetSP s, s', b', special', vbs')" "norm_inv (tb_sig tb) a b b' special' vbs'" "trail b1 tr b' s'"
    "vbs_ext (fst bks) vbs'" "\<forall>t \<in> set (lit_terms (list_except lits ex)). term_vars (sigma b' t) \<subseteq> special'"
    using NormSubstEqnListExcept_ok [OF inv tr, of lits ex] ok unfolding norm_post_def by blast
  have "inf_ok tb a (vbs', snd bks)"
    using norm_invD(1) [OF N(2)] I vbs_extD(1) [OF N(4)] vbs_extD(4) [OF N(4) I(5)] by (simp add: inf_ok_def)
  then show ?thesis using N b I(3) unfolding normed_def by blast
qed

lemma normedD:
  assumes "normed tb a b bks b' special vbs"
  shows "norm_inv (tb_sig tb) a b b' special vbs" "binds_bank tb bks b" "store_ok (snd bks)" "vbs_ext (fst bks) vbs"
    "inf_ok tb a (vbs, snd bks)" "tb_ok tb" "int (tb_vars tb) < MAX_BANKS" "shadow (vbs ! a) = Some (tb_vars tb)"
    "subst_wf (tb_sig tb) b'"
proof -
  show N: "norm_inv (tb_sig tb) a b b' special vbs" "binds_bank tb bks b" "store_ok (snd bks)" "vbs_ext (fst bks) vbs"
    "inf_ok tb a (vbs, snd bks)" using assms by (auto simp: normed_def)
  note I = inf_okD [OF N(5)]
  show "tb_ok tb" "shadow (vbs ! a) = Some (tb_vars tb)" using I by simp_all
  show "int (tb_vars tb) < MAX_BANKS" using vbs_core_at(2) [OF vbs_ok_core [OF I(2)] I(4)] .
  show "subst_wf (tb_sig tb) b'" using norm_invD(4) [OF N(1)] .
qed

text \<open>What is inserted: variables that the banks know, and terms that are shared.\<close>

definition copy_inv :: "TB \<Rightarrow> banks \<Rightarrow> VarBanks \<Rightarrow> banks \<Rightarrow> bool" where
  "copy_inv tb bks vbs =
     banks_inv (tb_vars tb) {v. known (tb_vars tb) vbs v} {t. TermIsShared (snd bks) t}"

abbreviation copies :: "TB \<Rightarrow> banks \<Rightarrow> VarBanks \<Rightarrow> (banks \<Rightarrow> ('a \<times> banks) option) \<Rightarrow> 'a \<Rightarrow> Term_p set \<Rightarrow> bool" where
  "copies tb bks vbs \<equiv> builds (tb_vars tb) {v. known (tb_vars tb) vbs v} {t. TermIsShared (snd bks) t}"

lemma normed_copy_inv: "normed tb a b bks b' special vbs \<Longrightarrow> copy_inv tb bks vbs (vbs, snd bks)"
  using inf_okD [OF normedD(5)] by (auto simp: copy_inv_def banks_inv_def normed_def)

lemma normed_vars:
  assumes "normed tb a b bks b' special vbs" and "in_bank tb bks t"
  shows "term_vars (sigma b' t) \<subseteq> {v. known (tb_vars tb) vbs v}"
  using norm_vars_known [OF normedD(1-3) [OF assms(1)] assms(2) normedD(4,8) [OF assms(1)]] by blast

lemma normed_shared:
  assumes "normed tb a b bks b' special vbs"
  shows "all_shared {t. TermIsShared (snd bks) t} b'"
proof -
  note N = normedD [OF assms] and I = norm_invD [OF normedD(1) [OF assms]]
  have "TermIsShared (snd bks) t" if "b' v = Some t" for v t
  proof (cases "b v")
    case None
    then show ?thesis using I(8) [OF None that] by (simp add: TermIsShared_def)
  next
    case (Some u)
    then have "b' v = Some u" using I(5) by (auto simp: map_le_def dom_def)
    then show ?thesis using in_bankD(3) [OF binds_bankD(3) [OF N(2) Some]] that by simp
  qed
  then show ?thesis using store_okD(3) [OF N(3)] by (auto simp: all_shared_def)
qed

lemma copy_subst_sorted:
  assumes "normed tb a b bks b' special vbs"
  shows "sorted_subst tb (copy_subst tb b')"
  unfolding sorted_subst_def
proof (intro allI impI)
  fix v assume v: "TermIsFreeVar v" "sorted_term tb v"
  then obtain f p ty as where "v = TermCell f p ty as" "f < 0" by (cases v) simp
  then have i: "inst (copy_subst tb b') v = copy_subst tb b' v" by simp
  note N = normedD [OF assms]
  show "sorted_term tb (copy_subst tb b' v) \<and> t_type (copy_subst tb b' v) = t_type v"
    using norm_sorted [OF N(1,2) v(2) N(6,7)] unfolding i by blast
qed

lemma copy_insert:
  assumes "normed tb a b bks b' special vbs" and "in_bank tb bks t"
  shows "builds (tb_vars tb) {v. known (tb_vars tb) vbs v} {t. TermIsShared (snd bks) t}
    (TBInsert tb b' t DEREF_ALWAYS) (inst (copy_subst tb b') t) {inst (copy_subst tb b') t}"
proof -
  note N = normedD [OF assms(1)] and wf = in_bankD(2) [OF assms(2)]
  have ok: "binds_ok (tb_sig tb) b'" using N(9) by (simp add: subst_wf_def)
  show ?thesis
    using TBInsert_inserts [OF sigma_full [OF N(9) wf] ok normed_vars [OF assms] refl]
    unfolding copy_subst_inst [OF N(9) wf] by (simp add: builds_def inserts_def)
qed

lemma copy_lit:
  assumes "normed tb a b bks b' special vbs" and "lit_in tb bks e"
  shows "copies tb bks vbs (EqnCopyOpt b' e) (inst_lit (copy_subst tb b') e)
    {lterm (inst_lit (copy_subst tb b') e), rterm (inst_lit (copy_subst tb b') e)}"
proof -
  note N = normedD [OF assms(1)] and L = lit_inD [OF assms(2)]
  have c: "(\<lambda>v. inst (prim (tb_vars tb)) (sigma b' v)) = copy_subst tb b'" by (simp add: copy_subst_def fun_eq_iff)
  have sh: "{lterm e, rterm e} \<subseteq> {t. TermIsShared (snd bks) t}" using in_bankD(3) L(3,4) by blast
  have v: "term_vars (sigma b' (lterm e)) \<union> term_vars (sigma b' (rterm e)) \<subseteq> {v. known (tb_vars tb) vbs v}"
    using normed_vars [OF assms(1)] L(3,4) by blast
  show ?thesis
    using EqnCopyOpt_builds [OF N(6) L(1,2) copy_subst_sorted [OF assms(1), folded c] N(9) refl normed_shared [OF assms(1)] sh v]
    unfolding c inst_lit_sel .
qed

text \<open>The instances are terms of the bank again.\<close>

lemma prim_known:
  assumes "vbs_ok vbs" and "p < length vbs" and "known p vbs v"
  shows "known p vbs (prim p v)" "var_bank (prim p v) = p"
proof -
  note k = known_prim [OF assms] and c = vbs_core_at(2) [OF vbs_ok_core [OF assms(1)] assms(2)]
  have "var_code (prim p v) = var_code v" "var_bank (prim p v) = p"
    using var_cell_simps(3,4) [OF c] by (simp_all add: prim_def)
  then show "known p vbs (prim p v)" "var_bank (prim p v) = p" using k assms(2) by (simp_all add: known_def Let_def)
qed

lemma copy_in_bank:
  assumes "normed tb a b bks b' special vbs" and "in_bank tb bks t"
    and "banks_le (vbs, snd bks) bks'" and "TermIsShared (snd bks') (inst (copy_subst tb b') t)"
  shows "in_bank tb bks' (inst (copy_subst tb b') t)" "t_type (inst (copy_subst tb b') t) = t_type t"
proof -
  note N = normedD [OF assms(1)] and T = in_bankD [OF assms(2)]
  note I = inf_okD [OF N(5)]
  note srt = norm_sorted [OF N(1,2) T(1) N(6,7)]
  show "t_type (inst (copy_subst tb b') t) = t_type t" using srt(2) .
  have "var_bank v = tb_vars tb \<and> known (tb_vars tb) (fst bks') v" if "v \<in> term_vars (inst (copy_subst tb b') t)" for v
  proof -
    have "v \<in> term_vars (inst (prim (tb_vars tb)) (sigma b' t))"
      using that unfolding copy_subst_inst [OF N(9) T(2)] .
    then obtain u where u: "u \<in> term_vars (sigma b' t)" "v \<in> term_vars (prim (tb_vars tb) u)"
      unfolding term_vars_inst by blast
    then have k: "known (tb_vars tb) vbs u" using normed_vars [OF assms(1,2)] by blast
    have "TermIsFreeVar (prim (tb_vars tb) u)" by (rule prim_shared [OF I(2) [unfolded fst_conv] I(4) [unfolded fst_conv] k])
    then have "v = prim (tb_vars tb) u" using u(2) by (simp add: wf_term_var_vars)
    then show ?thesis
      using prim_known [OF I(2) [unfolded fst_conv] I(4) [unfolded fst_conv] k] vbs_same_known [of vbs "fst bks'"] assms(3) by (simp add: banks_le_def)
  qed
  then show "in_bank tb bks' (inst (copy_subst tb b') t)" using srt(1) assms(4) by (simp add: in_bank_def)
qed

lemma copy_lit_in:
  assumes "normed tb a b bks b' special vbs" and "lit_in tb bks e" and "banks_le (vbs, snd bks) bks'"
    and "TermIsShared (snd bks') (inst (copy_subst tb b') (lterm e))"
    and "TermIsShared (snd bks') (inst (copy_subst tb b') (rterm e))"
  shows "lit_in tb bks' (inst_lit (copy_subst tb b') e)"
proof -
  note L = lit_inD [OF assms(2)]
  show ?thesis
    using inst_lit_sorted [OF normedD(6) [OF assms(1)] copy_subst_sorted [OF assms(1)] L(1,2)]
      copy_in_bank(1) [OF assms(1) L(3) assms(3,4)] copy_in_bank(1) [OF assms(1) L(4) assms(3,5)]
    by (simp add: lit_in_def)
qed

lemma copy_list:
  assumes "normed tb a b bks b' special vbs" and "\<forall>e \<in> set lits. lit_in tb bks e"
  shows "copies tb bks vbs (EqnListCopyOptExcept b' lits ex) (map (inst_lit (copy_subst tb b')) (list_except lits ex))
    (set (lit_terms (map (inst_lit (copy_subst tb b')) (list_except lits ex))))"
  using set_list_except [of lits ex] assms(2) by (intro EqnListCopyOptExcept_builds copy_lit [OF assms(1)]) blast

lemma copy_list_in:
  assumes "normed tb a b bks b' special vbs" and "\<forall>e \<in> set lits. lit_in tb bks e"
    and "banks_le (vbs, snd bks) bks'"
    and "\<forall>t \<in> set (lit_terms (map (inst_lit (copy_subst tb b')) (list_except lits ex))). TermIsShared (snd bks') t"
    and "e \<in> set (map (inst_lit (copy_subst tb b')) (list_except lits ex))"
  shows "lit_in tb bks' e"
proof -
  obtain e0 where e0: "e0 \<in> set lits" "e = inst_lit (copy_subst tb b') e0"
    using assms(5) set_list_except [of lits ex] by auto
  have "TermIsShared (snd bks') (lterm e)" "TermIsShared (snd bks') (rterm e)"
    using assms(4,5) by (auto simp: set_lit_terms)
  then show ?thesis using copy_lit_in [OF assms(1) bspec [OF assms(2) e0(1)] assms(3)] e0(2) by simp
qed

lemma copy_inf_ok:
  assumes "inf_ok tb a bks" and "banks_inv (tb_vars tb) V S bks'" and "banks_le bks bks'"
  shows "inf_ok tb a bks'" "vbs_ext (fst bks) (fst bks')" "store_le (snd bks) (snd bks')"
proof -
  note I = inf_okD [OF assms(1)]
  show ext: "vbs_ext (fst bks) (fst bks')" and "store_le (snd bks) (snd bks')"
    using assms(3) vbs_same_ext by (auto simp: banks_le_def)
  then show "inf_ok tb a bks'"
    using I assms(2) vbs_extD(1) [OF ext] vbs_extD(4) [OF ext I(5)] by (simp add: inf_ok_def banks_inv_def)
qed

section \<open>The renaming\<close>

definition copy_ren :: "TB \<Rightarrow> bindings \<Rightarrow> bindings \<Rightarrow> Term_p \<Rightarrow> Term_p" where
  "copy_ren tb b b' v = inst (prim (tb_vars tb)) (norm_ren b b' v)"

text \<open>A renaming: variables for variables of the same type, different ones for the variables of a set.\<close>

definition renaming_on :: "Sig \<Rightarrow> (Term_p \<Rightarrow> Term_p) \<Rightarrow> Term_p set \<Rightarrow> bool" where
  "renaming_on sg \<rho> V \<longleftrightarrow>
     (\<forall>v. TermIsFreeVar v \<longrightarrow> wf_term sg v \<longrightarrow> TermIsFreeVar (\<rho> v) \<and> wf_term sg (\<rho> v) \<and> t_type (\<rho> v) = t_type v) \<and> inj_on \<rho> V"

lemma copy_subst_ren:
  assumes "normed tb a b bks b' special vbs" and "wf_term (tb_sig tb) t"
  shows "inst (copy_subst tb b') t = inst (copy_ren tb b b') (sigma b t)"
  using norm_sigma [OF normedD(1) [OF assms(1)] assms(2)] copy_subst_inst [OF normedD(9) [OF assms(1)] assms(2)]
  by (simp add: inst_comp copy_ren_def [abs_def])

lemma copy_ren_renaming:
  assumes N: "normed tb a b bks b' special vbs" and V: "\<And>v. v \<in> V \<Longrightarrow> TermIsFreeVar v \<and> wf_term (tb_sig tb) v \<and> var_bank v \<noteq> a"
    and fresh: "\<And>v. v \<in> V \<Longrightarrow> norm_ren b b' v \<in> in_use (vbs ! a)"
  shows "renaming_on (tb_sig tb) (copy_ren tb b b') V"
  unfolding renaming_on_def
proof (intro conjI allI impI)
  note D = normedD [OF N] and I = norm_invD [OF normedD(1) [OF N]]
  have var: "copy_ren tb b b' v = prim (tb_vars tb) (norm_ren b b' v)" if "TermIsFreeVar v" "wf_term (tb_sig tb) v" for v
    using norm_ren_type(1) [OF D(1) that(2,1)] unfolding copy_ren_def by (cases "norm_ren b b' v") simp
  show "TermIsFreeVar (copy_ren tb b b' v)" "wf_term (tb_sig tb) (copy_ren tb b b' v)" "t_type (copy_ren tb b b' v) = t_type v"
    if "TermIsFreeVar v" "wf_term (tb_sig tb) v" for v
    unfolding var [OF that]
    using norm_ren_type [OF D(1) that(2,1)] prim_typed [OF D(7), of "tb_sig tb" "norm_ren b b' v"] by simp_all
  show "inj_on (copy_ren tb b b') V"
  proof (rule inj_onI)
    fix v w assume vw: "v \<in> V" "w \<in> V" "copy_ren tb b b' v = copy_ren tb b b' w"
    note k = in_use_known [OF I(1,2) D(8) fresh [OF vw(1)]] in_use_known [OF I(1,2) D(8) fresh [OF vw(2)]]
    have "var_code (prim (tb_vars tb) (norm_ren b b' v)) = var_code (prim (tb_vars tb) (norm_ren b b' w))"
      using vw var V by metis
    then have code: "var_code (norm_ren b b' v) = var_code (norm_ren b b' w)"
      using var_cell_simps(3) [OF D(7)] by (simp add: prim_def)
    have "vb_vars (vbs ! a) (nat (- var_code (norm_ren b b' v))) = Some (norm_ren b b' v)"
      "vb_vars (vbs ! a) (nat (- var_code (norm_ren b b' w))) = Some (norm_ren b b' w)"
      using k by (simp_all add: known_def Let_def)
    then have "norm_ren b b' v = norm_ren b b' w" unfolding code by simp
    then show "v = w" using norm_ren_inj [OF D(1)] V vw(1,2) by (auto dest: inj_onD)
  qed
qed

definition lit_vars :: "bindings \<Rightarrow> Eqn list \<Rightarrow> Term_p set" where
  "lit_vars b lits = (\<Union>t \<in> set (lit_terms lits). term_vars (sigma b t))"

lemma norm_renaming:
  assumes N: "normed tb a b bks b' special vbs" and lits: "\<forall>e \<in> set lits. lit_in tb bks e"
    and sp: "\<forall>t \<in> set (lit_terms lits). term_vars (sigma b' t) \<subseteq> special"
  shows "renaming_on (tb_sig tb) (copy_ren tb b b') (lit_vars b lits)"
proof (rule copy_ren_renaming [OF N])
  note D = normedD [OF N] and I = norm_invD [OF normedD(1) [OF N]]
  fix v assume "v \<in> lit_vars b lits"
  then obtain t where t: "t \<in> set (lit_terms lits)" "v \<in> term_vars (sigma b t)" by (auto simp: lit_vars_def)
  then obtain e where e: "e \<in> set lits" "t = lterm e \<or> t = rterm e" by (auto simp: set_lit_terms)
  then have inb: "in_bank tb bks t" using lit_inD(3,4) [OF bspec [OF lits e(1)]] by blast
  note v = sigma_vars_in_bank [OF D(2,3) inb t(2)]
  have free: "TermIsFreeVar v" using term_vars_free [OF t(2)] .
  then show props: "TermIsFreeVar v \<and> wf_term (tb_sig tb) v \<and> var_bank v \<noteq> a"
    using in_bankD(2) [OF v(1)] v(2) inf_okD(7) [OF D(5)] by simp
  note r = norm_ren_type [OF D(1) conjunct1 [OF conjunct2 [OF props]] free]
  have "norm_ren b b' v \<in> term_vars (norm_ren b b' v)" using r(1) by (simp add: wf_term_var_vars)
  then have "norm_ren b b' v \<in> term_vars (sigma b' t)"
    unfolding norm_sigma [OF D(1) in_bankD(2) [OF inb]] term_vars_inst using t(2) by blast
  then have "var_bank (norm_ren b b' v) = a" using sp t(1) I(6) by blast
  then show "norm_ren b b' v \<in> in_use (vbs ! a)" using r(4) props by auto
qed

section \<open>Simplifying the copies\<close>

text \<open>What is left when false literals and repetitions have been removed.\<close>

definition simplified :: "Eqn list \<Rightarrow> Eqn list" where
  "simplified lits = dedup [e \<leftarrow> lits. \<not> EqnIsFalse e]"

lemma lit_in_key:
  assumes "inf_ok tb a bks" and "lit_in tb bks x" and "lit_in tb bks y"
  shows "lit_key (snd bks) x = lit_key (snd bks) y \<longleftrightarrow> lit_same x y"
proof (rule lit_key_same [where V = "{v. TermIsFreeVar v \<and> in_bank tb bks v}"])
  note I = inf_okD [OF assms(1)]
  have k: "var_code v < 0 \<and> vb_vars (fst bks ! tb_vars tb) (nat (- var_code v)) = Some v"
    if "v \<in> {v. TermIsFreeVar v \<and> in_bank tb bks v}" for v
  proof -
    have "v \<in> term_vars v" using that by (simp add: wf_term_var_vars)
    then have "var_bank v = tb_vars tb" "known (tb_vars tb) (fst bks) v" using that in_bankD(4,5) by blast+
    then show ?thesis by (simp add: known_def Let_def)
  qed
  then show "inj_on var_code {v. TermIsFreeVar v \<and> in_bank tb bks v}"
    by (intro inj_onI) (metis option.sel)
  show "var_code v < 0" if "v \<in> {v. TermIsFreeVar v \<and> in_bank tb bks v}" for v using k [OF that] by blast
  show "store_ok (snd bks)" by (rule I(3))
  note X = lit_inD [OF assms(2)] and Y = lit_inD [OF assms(3)]
  show "TermIsShared (snd bks) t \<and> (TermIsFreeVar t \<longrightarrow> t \<in> {v. TermIsFreeVar v \<and> in_bank tb bks v})"
    if "t \<in> {lterm x, rterm x, lterm y, rterm y}" for t
  proof -
    have "in_bank tb bks t" using that X(3,4) Y(3,4) by blast
    then show ?thesis using in_bankD(3) by blast
  qed
  show "lit_normal x" "lit_normal y" "eqn_bank x = eqn_bank y" using X(2,5) Y(2,5) by simp_all
qed

lemma simplify_ok:
  assumes "inf_ok tb a bks" and "\<forall>e \<in> set lits. lit_in tb bks e"
  shows "EqnListLambdaNormalize lits = lits"
    and "snd (EqnListRemoveDuplicates (snd bks) (snd (EqnListRemoveResolved lits))) = simplified lits"
proof -
  show "EqnListLambdaNormalize lits = lits" using lit_inD(2) [OF bspec [OF assms(2)]] by (rule EqnListLambdaNormalize_id)
  show "snd (EqnListRemoveDuplicates (snd bks) (snd (EqnListRemoveResolved lits))) = simplified lits"
    using EqnListRemoveDuplicates_dedup [of "[e \<leftarrow> lits. \<not> EqnIsFalse e]" "snd bks"] lit_in_key [OF assms(1)] assms(2)
    by (simp add: EqnListRemoveResolved_ok simplified_def)
qed

lemma simplified_subset: "set (simplified lits) \<subseteq> set lits"
  using dedup_subset by (fastforce simp: simplified_def)

lemma simplified_true:
  "interp_ok tb I \<Longrightarrow> (\<And>e. e \<in> set lits \<Longrightarrow> eqn_bank e = tb) \<Longrightarrow> clause_true I \<alpha> (simplified lits) \<longleftrightarrow> clause_true I \<alpha> lits"
  unfolding simplified_def by (rule clause_true_simplify)

section \<open>Soundness of instances\<close>

lemma copy_value:
  assumes "normed tb a b bks b' special vbs" and "interp_ok tb I" and "value_ok tb I \<alpha>"
  shows "value_ok tb I (\<lambda>v. eval I \<alpha> (copy_subst tb b' v))"
  using value_ok_inst [OF assms(2,3) copy_subst_typed] normedD(7,9) [OF assms(1)] by blast

lemma valid_copy:
  assumes "normed tb a b bks b' special vbs" and "interp_ok tb I" and "value_ok tb I \<alpha>" and "valid_in tb I lits"
  shows "clause_true I \<alpha> (map (inst_lit (copy_subst tb b')) lits)"
  using assms(4) copy_value [OF assms(1-3)] unfolding valid_in_def clause_true_def by (auto simp: lit_true_inst)

lemma copy_unifies:
  assumes "normed tb a b bks b' special vbs" and "wf_term (tb_sig tb) t" and "wf_term (tb_sig tb) u" and "sigma b t = sigma b u"
  shows "inst (copy_subst tb b') t = inst (copy_subst tb b') u"
  using assms norm_sigma [OF normedD(1) [OF assms(1)]] copy_subst_inst [OF normedD(9) [OF assms(1)]] by simp

end
