(* ===== verification/ClausePositions.thy ===== *)
theory ClausePositions
  imports Clauses
begin

text \<open>
  Positions in terms and clauses (\<open>TERMS/cte_termpos.h\<close>, \<open>TERMS/cte_termpos.c\<close>,
  \<open>CLAUSES/ccl_clausepos.h\<close>, \<open>CLAUSES/ccl_clausepos.c\<close>): the search for literals, sides and subterms
  that inferences can use, and the enumeration of all of them.
\<close>

section \<open>Positions in terms\<close>

text \<open>A stack of superterms and argument numbers.\<close>

type_synonym TermPos = "Term_p IntOrP pstack"

definition TermPosGetSubterm :: "Term_p \<Rightarrow> TermPos \<Rightarrow> Term_p option" where
  "TermPosGetSubterm term pos =
     (if PStackEmpty pos then Some term
      else do { c_assert (PStackGetSP pos \<ge> 2);
                x \<leftarrow> PStackTop pos; y \<leftarrow> PStackBelowTop pos;
                case (x, y) of
                  (i_val idx, p_val super) \<Rightarrow>
                    do { c_assert (0 \<le> idx \<and> idx < int (arity super)); Some (t_args super ! nat idx) }
                | _ \<Rightarrow> None })"

text \<open>The common loop of the next two functions: down to a leaf, from the argument \<open>idx\<close> of \<open>super\<close>.\<close>

partial_function (option) li_loop :: "Term_p \<Rightarrow> int \<Rightarrow> TermPos \<Rightarrow> (Term_p \<times> TermPos) option" where [code]:
  "li_loop super idx pos =
     (if arity super = 0 then Some (super, pos)
      else do { pos \<leftarrow> push pos (p_val super);
                pos \<leftarrow> push pos (i_val idx);
                c_assert (0 \<le> idx \<and> idx < int (arity super));
                li_loop (t_args super ! nat idx) 0 pos })"

definition TermPosFirstLIPosition :: "Term_p \<Rightarrow> TermPos \<Rightarrow> (Term_p \<times> TermPos) option" where
  "TermPosFirstLIPosition term pos = li_loop term 0 (PStackReset pos)"

definition TermPosNextLIPosition :: "TermPos \<Rightarrow> (Term_p option \<times> TermPos) option" where
  "TermPosNextLIPosition pos =
     (if PStackEmpty pos then Some (None, pos)
      else do { (idx, pos) \<leftarrow> PStackPopInt pos;
                (super, pos) \<leftarrow> PStackPopP pos;
                if idx < int (arity super) - 1
                then do { (t, pos) \<leftarrow> li_loop super (idx + 1) pos; Some (Some t, pos) }
                else Some (Some super, pos) })"

section \<open>Positions in clauses\<close>

definition NoSide :: int where "NoSide = 0"
definition LeftSide :: int where "LeftSide = 1"
definition RightSide :: int where "RightSide = 2"
definition BothSides :: int where "BothSides = 3"

text \<open>
  The literal is given by its number in the clause, \<open>None\<close> stands for \<open>NULL\<close>; the clause of a new
  position is not initialised. The field \<open>data\<close> is not used here.
\<close>

record ClausePos =
  cp_clause :: "Clause option"
  cp_literal :: "nat option"
  cp_side :: int
  cp_pos :: TermPos

definition ClausePosAlloc :: ClausePos where
  "ClausePosAlloc = \<lparr>cp_clause = None, cp_literal = None, cp_side = LeftSide, cp_pos = PStackAlloc\<rparr>"

text \<open>The literal at a position, and the next one of the list.\<close>

definition cp_lit :: "ClausePos \<Rightarrow> Eqn option" where
  "cp_lit pos = do { clause \<leftarrow> cp_clause pos; i \<leftarrow> cp_literal pos;
                     if i < length (literals clause) then Some (literals clause ! i) else None }"

definition cp_next :: "ClausePos \<Rightarrow> ClausePos option" where
  "cp_next pos = do { clause \<leftarrow> cp_clause pos; i \<leftarrow> cp_literal pos;
                      c_assert (i < length (literals clause));
                      Some (pos\<lparr>cp_literal := if i + 1 < length (literals clause) then Some (i + 1) else None\<rparr>) }"

definition first_literal :: "Clause \<Rightarrow> nat option" where
  "first_literal clause = (if literals clause = [] then None else Some 0)"

definition ClausePosGetSide :: "ClausePos \<Rightarrow> Term_p option" where
  "ClausePosGetSide pos = do { e \<leftarrow> cp_lit pos; Some (if cp_side pos = LeftSide then lterm e else rterm e) }"

definition ClausePosGetOtherSide :: "ClausePos \<Rightarrow> Term_p option" where
  "ClausePosGetOtherSide pos = do { e \<leftarrow> cp_lit pos; Some (if cp_side pos = LeftSide then rterm e else lterm e) }"

definition ClausePosGetSubterm :: "ClausePos \<Rightarrow> Term_p option" where
  "ClausePosGetSubterm pos = do { t \<leftarrow> ClausePosGetSide pos; TermPosGetSubterm t (cp_pos pos) }"

definition ClausePosIsTop :: "ClausePos \<Rightarrow> bool" where
  "ClausePosIsTop position = PStackEmpty (cp_pos position)"

text \<open>The loops that look for a literal from the present one on.\<close>

partial_function (option) find_literal :: "(Eqn \<Rightarrow> bool) \<Rightarrow> ClausePos \<Rightarrow> ClausePos option" where [code]:
  "find_literal P pos =
     (if cp_literal pos = None then Some pos
      else do { e \<leftarrow> cp_lit pos;
                if P e then Some pos else do { pos \<leftarrow> cp_next pos; find_literal P pos } })"

definition ClausePosFindPosLiteral :: "ClausePos \<Rightarrow> bool \<Rightarrow> ClausePos option" where
  "ClausePosFindPosLiteral pos maximal = find_literal (\<lambda>e. EqnIsPositive e \<and> (EqnIsMaximal e \<or> \<not> maximal)) pos"

definition ClausePosFindMaxLiteral :: "ClausePos \<Rightarrow> bool \<Rightarrow> ClausePos option" where
  "ClausePosFindMaxLiteral pos positive = find_literal (\<lambda>e. EqnIsMaximal e \<and> (\<not> positive \<or> EqnIsPositive e)) pos"

definition ClausePosFindFirstMaximalSide :: "ClausePos \<Rightarrow> bool \<Rightarrow> (Term_p option \<times> ClausePos) option" where
  "ClausePosFindFirstMaximalSide pos positive =
     do { pos \<leftarrow> ClausePosFindMaxLiteral pos positive;
          if cp_literal pos \<noteq> None
          then do { let pos = pos\<lparr>cp_side := LeftSide, cp_pos := PStackReset (cp_pos pos)\<rparr>;
                    t \<leftarrow> ClausePosGetSide pos;
                    Some (Some t, pos) }
          else Some (None, pos) }"

definition ClausePosFindNextMaximalSide :: "ClausePos \<Rightarrow> bool \<Rightarrow> (Term_p option \<times> ClausePos) option" where
  "ClausePosFindNextMaximalSide pos positive =
     (if cp_literal pos \<noteq> None
      then do { let pos = pos\<lparr>cp_pos := PStackReset (cp_pos pos)\<rparr>;
                e \<leftarrow> cp_lit pos;
                if cp_side pos = LeftSide \<and> \<not> EqnIsOriented e
                then do { let pos = pos\<lparr>cp_side := RightSide\<rparr>; t \<leftarrow> ClausePosGetSide pos; Some (Some t, pos) }
                else do { pos \<leftarrow> cp_next pos;
                          pos \<leftarrow> ClausePosFindMaxLiteral pos positive;
                          if cp_literal pos \<noteq> None
                          then do { let pos = pos\<lparr>cp_side := LeftSide\<rparr>; t \<leftarrow> ClausePosGetSide pos; Some (Some t, pos) }
                          else Some (None, pos) } }
      else Some (None, pos))"

definition ClausePosFindFirstMaximalSubterm :: "ClausePos \<Rightarrow> (Term_p option \<times> ClausePos) option" where
  "ClausePosFindFirstMaximalSubterm pos =
     do { (res, pos) \<leftarrow> ClausePosFindFirstMaximalSide pos False;
          case res of
            Some t \<Rightarrow> do { (t, p) \<leftarrow> TermPosFirstLIPosition t (cp_pos pos); Some (Some t, pos\<lparr>cp_pos := p\<rparr>) }
          | None \<Rightarrow> Some (None, pos) }"

definition ClausePosFindNextMaximalSubterm :: "ClausePos \<Rightarrow> (Term_p option \<times> ClausePos) option" where
  "ClausePosFindNextMaximalSubterm pos =
     do { side \<leftarrow> ClausePosGetSide pos;
          (res, p) \<leftarrow> TermPosNextLIPosition (cp_pos pos);
          let pos = pos\<lparr>cp_pos := p\<rparr>;
          if res = None
          then do { (side, pos) \<leftarrow> ClausePosFindNextMaximalSide pos False;
                    case side of
                      Some t \<Rightarrow> do { (t, p) \<leftarrow> TermPosFirstLIPosition t (cp_pos pos); Some (Some t, pos\<lparr>cp_pos := p\<rparr>) }
                    | None \<Rightarrow> Some (None, pos) }
          else Some (res, pos) }"

section \<open>Enumerations\<close>

text \<open>The terms that a client meets, with the subterm that the position then denotes.\<close>

partial_function (option) li_iterate :: "Term_p \<Rightarrow> Term_p option \<Rightarrow> TermPos \<Rightarrow> (Term_p \<times> Term_p) list option" where [code]:
  "li_iterate term t pos =
     (case t of None \<Rightarrow> Some []
      | Some t \<Rightarrow> do { u \<leftarrow> TermPosGetSubterm term pos;
                       (t', pos) \<leftarrow> TermPosNextLIPosition pos;
                       rest \<leftarrow> li_iterate term t' pos;
                       Some ((t, u) # rest) })"

definition li_positions :: "Term_p \<Rightarrow> (Term_p \<times> Term_p) list option" where
  "li_positions term = do { (t, pos) \<leftarrow> TermPosFirstLIPosition term PStackAlloc; li_iterate term (Some t) pos }"

text \<open>A client of the enumeration of maximal subterms.\<close>

partial_function (option) subterm_iterate ::
  "Term_p option \<Rightarrow> ClausePos \<Rightarrow> (nat \<times> int \<times> Term_p) list option" where [code]:
  "subterm_iterate t pos =
     (case t of None \<Rightarrow> Some []
      | Some t \<Rightarrow> do { i \<leftarrow> cp_literal pos;
                       u \<leftarrow> ClausePosGetSubterm pos;
                       c_assert (u = t);
                       (t', pos') \<leftarrow> ClausePosFindNextMaximalSubterm pos;
                       rest \<leftarrow> subterm_iterate t' pos';
                       Some ((i, cp_side pos, t) # rest) })"

definition maximal_subterms :: "Clause \<Rightarrow> (nat \<times> int \<times> Term_p) list option" where
  "maximal_subterms clause =
     do { let pos = ClausePosAlloc\<lparr>cp_clause := Some clause, cp_literal := first_literal clause\<rparr>;
          (t, pos) \<leftarrow> ClausePosFindFirstMaximalSubterm pos;
          subterm_iterate t pos }"

section \<open>Leftmost-innermost order\<close>

text \<open>The subterm occurrences of a term, arguments first.\<close>

fun li :: "Term_p \<Rightarrow> Term_p list" where
  "li (TermCell f p ty as) = concat (map li as) @ [TermCell f p ty as]"

text \<open>A path from a term, as the stack holds it, and what comes after it; \<open>after\<close> starts at the inner end.\<close>

primrec frames :: "Term_p \<Rightarrow> (Term_p \<times> nat) list \<Rightarrow> Term_p \<Rightarrow> bool" where
  "frames root [] t \<longleftrightarrow> t = root"
| "frames root (fr # fs) t \<longleftrightarrow> (let (s, i) = fr in s = root \<and> i < arity s \<and> frames (t_args s ! i) fs t)"

definition items :: "(Term_p \<times> nat) list \<Rightarrow> Term_p IntOrP list" where
  "items fs = concat (map (\<lambda>(s, i). [p_val s, i_val (int i)]) fs)"

primrec after :: "(Term_p \<times> nat) list \<Rightarrow> Term_p list" where
  "after [] = []"
| "after (fr # fs) = (let (s, i) = fr in concat (map li (drop (Suc i) (t_args s))) @ s # after fs)"

definition pos_at :: "Term_p \<Rightarrow> (Term_p \<times> nat) list \<Rightarrow> Term_p \<Rightarrow> TermPos \<Rightarrow> bool" where
  "pos_at root fs t pos \<longleftrightarrow> pstack_ok pos \<and> pstack_list pos = items fs \<and> frames root fs t"

lemma li_args: "li t = concat (map li (t_args t)) @ [t]"
  by (cases t) simp

lemma frames_snoc: "frames root (fs @ [(s, i)]) t \<longleftrightarrow> frames root fs s \<and> i < arity s \<and> t = t_args s ! i"
  by (induction fs arbitrary: root) (auto simp: Let_def)

lemma items_snoc: "items (fs @ [(s, i)]) = items fs @ [p_val s, i_val (int i)]"
  by (simp add: items_def)

lemma li_drop: "i < length as \<Longrightarrow> concat (map li (drop i as)) = li (as ! i) @ concat (map li (drop (Suc i) as))"
  by (simp add: Cons_nth_drop_Suc [symmetric])

lemma size_arg_nth: "i < arity s \<Longrightarrow> size (t_args s ! i) < size s"
  using size_arg [of "t_args s ! i" s] by (simp add: arity_def)

lemma zero_or_pos: "n = 0 \<or> 0 < (n :: nat)"
  by arith

lemma li_loop_ok:
  assumes "pos_at root fs s pos" and "arity s = 0 \<or> i < arity s"
  shows "\<exists>t pos' fs'. li_loop s (int i) pos = Some (t, pos') \<and> pos_at root fs' t pos' \<and>
    t # after (rev fs') = (if arity s = 0 then [] else concat (map li (drop i (t_args s)))) @ s # after (rev fs)"
  using assms
proof (induction "size s" arbitrary: s i pos fs rule: less_induct)
  case less
  show ?case
  proof (cases "arity s = 0")
    case True
    then show ?thesis using less.prems(1) by (subst li_loop.simps) auto
  next
    case False
    then have i: "i < arity s" "i < length (t_args s)" using less.prems(2) by (simp_all add: arity_def)
    let ?a = "t_args s ! i"
    obtain p1 where p1: "push pos (p_val s) = Some p1" "pstack_ok p1" "pstack_list p1 = items fs @ [p_val s]"
      using push_ok [of pos "p_val s"] less.prems(1) by (auto simp: pos_at_def)
    obtain p2 where p2: "push p1 (i_val (int i)) = Some p2" "pstack_ok p2" "pstack_list p2 = items (fs @ [(s, i)])"
      using push_ok [OF p1(2), of "i_val (int i)"] p1(3) by (auto simp: items_snoc)
    have at: "pos_at root (fs @ [(s, i)]) ?a p2" using less.prems(1) p2(2,3) i(1) by (simp add: pos_at_def frames_snoc)
    have "arity ?a = 0 \<or> 0 < arity ?a" by (rule zero_or_pos)
    from less.hyps [OF size_arg_nth [OF i(1)] at this] obtain t pos' fs' where
      r: "li_loop ?a (int 0) p2 = Some (t, pos')" "pos_at root fs' t pos'"
      "t # after (rev fs') = (if arity ?a = 0 then [] else concat (map li (drop 0 (t_args ?a)))) @ ?a # after (rev (fs @ [(s, i)]))"
      by blast
    have "(if arity ?a = 0 then [] else concat (map li (drop 0 (t_args ?a)))) @ [?a] = li ?a"
      using li_args [of ?a] by (simp add: arity_def)
    then have "t # after (rev fs') = li ?a @ after ((s, i) # rev fs)" using r(3) by simp
    moreover have "li_loop s (int i) pos = Some (t, pos')"
      using False p1(1) p2(1) r(1) i(1) by (subst li_loop.simps) simp
    ultimately show ?thesis using r(2) False li_drop [OF i(2)] by (intro exI [of _ t] exI [of _ pos'] exI [of _ fs']) simp
  qed
qed

lemma TermPosFirstLIPosition_ok:
  assumes "pstack_ok pos"
  shows "\<exists>t pos' fs. TermPosFirstLIPosition term pos = Some (t, pos') \<and> pos_at term fs t pos' \<and> t # after (rev fs) = li term"
proof -
  have at: "pos_at term [] term (PStackReset pos)" using PStackReset_ok [OF assms] by (simp add: pos_at_def items_def)
  have "arity term = 0 \<or> 0 < arity term" by (rule zero_or_pos)
  from li_loop_ok [OF at this] obtain t pos' fs where r: "li_loop term (int 0) (PStackReset pos) = Some (t, pos')"
    "pos_at term fs t pos'"
    "t # after (rev fs) = (if arity term = 0 then [] else concat (map li (drop 0 (t_args term)))) @ term # after (rev [])" by blast
  moreover have "t # after (rev fs) = li term" using r(3) li_args [of "term"] by (simp add: arity_def split: if_splits)
  ultimately show ?thesis unfolding TermPosFirstLIPosition_def by auto
qed

lemma TermPosNextLIPosition_ok:
  assumes "pos_at root fs t pos"
  shows "(after (rev fs) = [] \<longrightarrow> TermPosNextLIPosition pos = Some (None, pos)) \<and>
    (after (rev fs) \<noteq> [] \<longrightarrow> (\<exists>t' pos' fs'. TermPosNextLIPosition pos = Some (Some t', pos') \<and> pos_at root fs' t' pos' \<and>
       t' # after (rev fs') = after (rev fs)))"
proof (cases fs rule: rev_cases)
  case Nil
  then show ?thesis using assms PStackEmpty_iff [of pos] by (simp add: pos_at_def items_def TermPosNextLIPosition_def)
next
  case (snoc gs fr)
  obtain s i where fr: "fr = (s, i)" by fastforce
  have P: "pstack_ok pos" "pstack_list pos = (items gs @ [p_val s]) @ [i_val (int i)]" "frames root gs s" "i < arity s"
    using assms by (simp_all add: pos_at_def snoc fr items_snoc frames_snoc)
  have ne: "\<not> PStackEmpty pos" using P(1,2) by (simp add: PStackEmpty_iff)
  obtain p1 where p1: "PStackPop pos = Some (i_val (int i), p1)" "pstack_ok p1" "pstack_list p1 = items gs @ [p_val s]"
    using PStackPop_ok [OF P(1,2)] by blast
  obtain p2 where p2: "PStackPop p1 = Some (p_val s, p2)" "pstack_ok p2" "pstack_list p2 = items gs"
    using PStackPop_ok [OF p1(2,3)] by blast
  have at: "pos_at root gs s p2" using p2(2,3) P(3) by (simp add: pos_at_def)
  have af: "after (rev fs) = concat (map li (drop (Suc i) (t_args s))) @ s # after (rev gs)" by (simp add: snoc fr)
  show ?thesis
  proof (cases "Suc i < arity s")
    case True
    from li_loop_ok [OF at, of "Suc i"] True obtain t' pos' fs' where r: "li_loop s (int (Suc i)) p2 = Some (t', pos')"
      "pos_at root fs' t' pos'" "t' # after (rev fs') = concat (map li (drop (Suc i) (t_args s))) @ s # after (rev gs)" by auto
    moreover have "int i < int (arity s) - 1" "int (Suc i) = int i + 1" using True by simp_all
    ultimately have "TermPosNextLIPosition pos = Some (Some t', pos')"
      using ne p1(1) p2(1) by (simp add: TermPosNextLIPosition_def PStackPopInt_def PStackPopP_def add.commute)
    then show ?thesis using r(2,3) af by auto
  next
    case False
    then have "drop (Suc i) (t_args s) = []" "\<not> int i < int (arity s) - 1" using P(4) by (simp_all add: arity_def)
    moreover from this have "TermPosNextLIPosition pos = Some (Some s, p2)"
      using ne p1(1) p2(1) by (simp add: TermPosNextLIPosition_def PStackPopInt_def PStackPopP_def)
    ultimately show ?thesis using at af by auto
  qed
qed

lemma TermPosGetSubterm_at:
  assumes "pos_at root fs t pos"
  shows "TermPosGetSubterm root pos = Some t"
proof (cases fs rule: rev_cases)
  case Nil
  then show ?thesis using assms PStackEmpty_iff [of pos] by (simp add: pos_at_def items_def TermPosGetSubterm_def)
next
  case (snoc gs fr)
  obtain s i where fr: "fr = (s, i)" by fastforce
  have P: "pstack_ok pos" "pstack_list pos = items gs @ [p_val s, i_val (int i)]" "i < arity s" "t = t_args s ! i"
    using assms by (simp_all add: pos_at_def snoc fr items_snoc frames_snoc)
  have "PStackGetSP pos \<ge> 2" using length_pstack_list [OF P(1)] P(2) by (simp add: PStackGetSP_def)
  moreover have "PStackTop pos = Some (i_val (int i))" using PStackTop_ok [OF P(1), of "items gs @ [p_val s]"] P(2) by simp
  moreover have "\<not> PStackEmpty pos" using P(1,2) by (simp add: PStackEmpty_iff)
  ultimately show ?thesis using PStackBelowTop_ok [OF P(1,2)] P(3,4) by (simp add: TermPosGetSubterm_def)
qed

lemma li_iterate_ok:
  assumes "pos_at root fs t pos"
  shows "li_iterate root (Some t) pos = Some (map (\<lambda>t. (t, t)) (t # after (rev fs)))"
  using assms
proof (induction "length (after (rev fs))" arbitrary: t pos fs rule: less_induct)
  case less
  note g = TermPosGetSubterm_at [OF less.prems] and n = TermPosNextLIPosition_ok [OF less.prems]
  show ?case
  proof (cases "after (rev fs) = []")
    case True
    then show ?thesis using g n by (subst li_iterate.simps) (simp add: li_iterate.simps [of root None])
  next
    case False
    then obtain t' pos' fs' where r: "TermPosNextLIPosition pos = Some (Some t', pos')" "pos_at root fs' t' pos'"
      "t' # after (rev fs') = after (rev fs)" using n by blast
    have "length (after (rev fs')) < length (after (rev fs))" using r(3) by (metis length_Cons lessI)
    from less.hyps [OF this r(2)] show ?thesis using g r(1) unfolding r(3) by (subst li_iterate.simps) simp
  qed
qed

lemma li_positions_ok: "li_positions term = Some (map (\<lambda>t. (t, t)) (li term))"
  using TermPosFirstLIPosition_ok [OF PStackAlloc_ok, of "term"] li_iterate_ok unfolding li_positions_def by fastforce

section \<open>Literals, sides and subterms of a clause\<close>

definition lit_at :: "nat \<Rightarrow> nat \<Rightarrow> nat option" where
  "lit_at n i = (if i < n then Some i else None)"

text \<open>The first literal from \<open>i\<close> on with a property.\<close>

definition lits_from :: "(Eqn \<Rightarrow> bool) \<Rightarrow> Eqn list \<Rightarrow> nat \<Rightarrow> nat list" where
  "lits_from P lits i = [j \<leftarrow> [i..<length lits]. P (lits ! j)]"

definition first_of :: "'a list \<Rightarrow> 'a option" where
  "first_of xs = (case xs of [] \<Rightarrow> None | x # _ \<Rightarrow> Some x)"

lemma first_of_simps [simp]: "first_of [] = None" "first_of (x # xs) = Some x"
  by (simp_all add: first_of_def)

lemma lits_from_step:
  "i < length lits \<Longrightarrow> lits_from P lits i = (if P (lits ! i) then [i] else []) @ lits_from P lits (Suc i)"
  by (simp add: lits_from_def upt_conv_Cons)

lemma lits_from_end: "length lits \<le> i \<Longrightarrow> lits_from P lits i = []"
  by (simp add: lits_from_def)

lemma lits_from_cases:
  "lits_from P lits i = [] \<or> (\<exists>j. lits_from P lits i = j # lits_from P lits (Suc j) \<and> i \<le> j \<and> j < length lits \<and> P (lits ! j))"
proof (induction "length lits - i" arbitrary: i)
  case 0
  then show ?case by (simp add: lits_from_end)
next
  case (Suc n)
  then show ?case using Suc.hyps(1) [of "Suc i"] lits_from_step [of i lits P] by (cases "P (lits ! i)") fastforce+
qed

lemma cp_next_at:
  "cp_clause pos = Some c \<Longrightarrow> cp_literal pos = Some i \<Longrightarrow> i < length (literals c) \<Longrightarrow>
     cp_next pos = Some (pos\<lparr>cp_literal := lit_at (length (literals c)) (Suc i)\<rparr>)"
  by (simp add: cp_next_def lit_at_def)

lemma first_literal_at: "first_literal c = lit_at (length (literals c)) 0"
  by (simp add: first_literal_def lit_at_def)

lemma find_literal_ok:
  assumes "cp_clause pos = Some c" and "cp_literal pos = lit_at (length (literals c)) i"
  shows "find_literal P pos = Some (pos\<lparr>cp_literal := first_of (lits_from P (literals c) i)\<rparr>)"
  using assms
proof (induction "length (literals c) - i" arbitrary: i pos)
  case 0
  then have "cp_literal pos = None" "lits_from P (literals c) i = []" by (simp_all add: lit_at_def lits_from_end)
  then show ?case by (subst find_literal.simps) (cases pos; simp)
next
  case (Suc n)
  then have i: "i < length (literals c)" "cp_literal pos = Some i" "n = length (literals c) - Suc i"
    by (simp_all add: lit_at_def)
  have lit: "cp_lit pos = Some (literals c ! i)" using Suc.prems(1) i(1,2) by (simp add: cp_lit_def)
  show ?case
  proof (cases "P (literals c ! i)")
    case True
    then show ?thesis using lit i by (subst find_literal.simps) (cases pos; simp add: lits_from_step)
  next
    case False
    let ?pos = "pos\<lparr>cp_literal := lit_at (length (literals c)) (Suc i)\<rparr>"
    have "cp_next pos = Some ?pos" using Suc.prems(1) i(1,2) by (simp add: cp_next_def lit_at_def)
    moreover have "find_literal P ?pos = Some (pos\<lparr>cp_literal := first_of (lits_from P (literals c) (Suc i))\<rparr>)"
      using Suc.hyps(1) [OF i(3), of ?pos] Suc.prems(1) by simp
    ultimately show ?thesis using lit i False by (subst find_literal.simps) (simp add: lits_from_step)
  qed
qed

text \<open>The sides of a literal that are maximal in it, and those of the literals from \<open>i\<close> on.\<close>

definition max_lit :: "bool \<Rightarrow> Eqn \<Rightarrow> bool" where
  "max_lit positive e \<longleftrightarrow> EqnIsMaximal e \<and> (\<not> positive \<or> EqnIsPositive e)"

definition side_term :: "Eqn \<Rightarrow> int \<Rightarrow> Term_p" where
  "side_term e sd = (if sd = LeftSide then lterm e else rterm e)"

definition max_sides :: "Eqn \<Rightarrow> int list" where
  "max_sides e = LeftSide # (if EqnIsOriented e then [] else [RightSide])"

definition sides_from :: "bool \<Rightarrow> Eqn list \<Rightarrow> nat \<Rightarrow> (nat \<times> int) list" where
  "sides_from positive lits i = concat (map (\<lambda>j. map (Pair j) (max_sides (lits ! j))) (lits_from (max_lit positive) lits i))"

definition sides_after :: "bool \<Rightarrow> Eqn list \<Rightarrow> nat \<Rightarrow> int \<Rightarrow> (nat \<times> int) list" where
  "sides_after positive lits i sd =
     (if sd = LeftSide \<and> \<not> EqnIsOriented (lits ! i) then [(i, RightSide)] else []) @ sides_from positive lits (Suc i)"

definition side_at :: "Clause \<Rightarrow> nat \<Rightarrow> int \<Rightarrow> ClausePos \<Rightarrow> bool" where
  "side_at c i sd pos \<longleftrightarrow> cp_clause pos = Some c \<and> cp_literal pos = Some i \<and> i < length (literals c) \<and> cp_side pos = sd \<and>
     pstack_ok (cp_pos pos)"

lemma side_atD:
  assumes "side_at c i sd pos"
  shows "ClausePosGetSide pos = Some (side_term (literals c ! i) sd)" "cp_lit pos = Some (literals c ! i)"
    "cp_next pos = Some (pos\<lparr>cp_literal := lit_at (length (literals c)) (Suc i)\<rparr>)"
  using assms by (simp_all add: side_at_def ClausePosGetSide_def cp_lit_def side_term_def cp_next_def lit_at_def)

lemma sides_from_first:
  "sides_from b lits i = (case lits_from (max_lit b) lits i of [] \<Rightarrow> [] | j # _ \<Rightarrow> (j, LeftSide) # sides_after b lits j LeftSide)"
proof (induction "length lits - i" arbitrary: i)
  case 0
  then show ?case by (simp add: sides_from_def lits_from_end)
next
  case (Suc n)
  then have i: "i < length lits" "n = length lits - Suc i" by simp_all
  show ?case
    using Suc.hyps(1) [OF i(2)] i(1)
    by (cases "max_lit b (lits ! i)") (auto simp: sides_from_def lits_from_step sides_after_def max_sides_def)
qed

lemma ClausePosFindMaxLiteral_eq: "ClausePosFindMaxLiteral pos b = find_literal (max_lit b) pos"
  by (simp add: ClausePosFindMaxLiteral_def max_lit_def [abs_def])

lemma lits_from_less: "j \<in> set (lits_from P lits i) \<Longrightarrow> j < length lits \<and> i \<le> j \<and> P (lits ! j)"
  by (auto simp: lits_from_def)

text \<open>A search for the next side yields the head of a list, and leaves the rest of it.\<close>

definition found_side :: "bool \<Rightarrow> Clause \<Rightarrow> (nat \<times> int) list \<Rightarrow> (Term_p option \<times> ClausePos) option \<Rightarrow> bool" where
  "found_side b c sides r \<longleftrightarrow> (case sides of
     [] \<Rightarrow> (\<exists>pos. r = Some (None, pos))
   | (i, sd) # rest \<Rightarrow> (\<exists>pos. r = Some (Some (side_term (literals c ! i) sd), pos) \<and> side_at c i sd pos \<and>
       rest = sides_after b (literals c) i sd))"

lemma ClausePosFindFirstMaximalSide_ok:
  assumes "cp_clause pos = Some c" and "cp_literal pos = lit_at (length (literals c)) i" and "pstack_ok (cp_pos pos)"
  shows "found_side b c (sides_from b (literals c) i) (ClausePosFindFirstMaximalSide pos b)"
proof (cases "lits_from (max_lit b) (literals c) i")
  case Nil
  then have "ClausePosFindFirstMaximalSide pos b = Some (None, pos\<lparr>cp_literal := None\<rparr>)"
    using find_literal_ok [OF assms(1,2)] by (simp add: ClausePosFindFirstMaximalSide_def ClausePosFindMaxLiteral_eq)
  then show ?thesis using Nil by (simp add: found_side_def sides_from_first)
next
  case (Cons j js)
  then have j: "j < length (literals c)" using lits_from_less [of j] by (metis list.set_intros(1))
  let ?pos = "pos\<lparr>cp_literal := Some j, cp_side := LeftSide, cp_pos := PStackReset (cp_pos pos)\<rparr>"
  have at: "side_at c j LeftSide ?pos" using assms(1,3) j PStackReset_ok [of "cp_pos pos"] by (simp add: side_at_def)
  have "ClausePosFindFirstMaximalSide pos b = Some (Some (side_term (literals c ! j) LeftSide), ?pos)"
    using find_literal_ok [OF assms(1,2)] Cons side_atD(1) [OF at]
    by (simp add: ClausePosFindFirstMaximalSide_def ClausePosFindMaxLiteral_eq)
  then show ?thesis using Cons at by (simp add: found_side_def sides_from_first)
qed

lemma ClausePosFindNextMaximalSide_ok:
  assumes "side_at c i sd pos"
  shows "found_side b c (sides_after b (literals c) i sd) (ClausePosFindNextMaximalSide pos b)"
proof -
  let ?p0 = "pos\<lparr>cp_pos := PStackReset (cp_pos pos)\<rparr>"
  have at0: "side_at c i sd ?p0" using assms PStackReset_ok [of "cp_pos pos"] by (simp add: side_at_def)
  note D = side_atD [OF at0]
  have lit: "cp_literal pos = Some i" "cp_side pos = sd" "cp_clause pos = Some c" using assms by (simp_all add: side_at_def)
  show ?thesis
  proof (cases "sd = LeftSide \<and> \<not> EqnIsOriented (literals c ! i)")
    case True
    let ?pos = "?p0\<lparr>cp_side := RightSide\<rparr>"
    have at: "side_at c i RightSide ?pos" using at0 by (simp add: side_at_def)
    have "ClausePosFindNextMaximalSide pos b = Some (Some (side_term (literals c ! i) RightSide), ?pos)"
      using True D(2) side_atD(1) [OF at] lit by (simp add: ClausePosFindNextMaximalSide_def)
    then show ?thesis using True at by (simp add: found_side_def sides_after_def LeftSide_def RightSide_def)
  next
    case False
    let ?p1 = "?p0\<lparr>cp_literal := lit_at (length (literals c)) (Suc i)\<rparr>"
    have f: "find_literal (max_lit b) ?p1 = Some (?p1\<lparr>cp_literal := first_of (lits_from (max_lit b) (literals c) (Suc i))\<rparr>)"
      using lit(3) by (intro find_literal_ok) simp_all
    have s: "sides_after b (literals c) i sd = sides_from b (literals c) (Suc i)" using False by (simp add: sides_after_def)
    show ?thesis
    proof (cases "lits_from (max_lit b) (literals c) (Suc i)")
      case Nil
      then have "ClausePosFindNextMaximalSide pos b = Some (None, ?p1\<lparr>cp_literal := None\<rparr>)"
        using False D(2,3) f lit by (auto simp: ClausePosFindNextMaximalSide_def ClausePosFindMaxLiteral_eq)
      then show ?thesis using Nil unfolding s by (simp add: found_side_def sides_from_first)
    next
      case (Cons j js)
      then have j: "j < length (literals c)" using lits_from_less [of j] by (metis list.set_intros(1))
      let ?pos = "?p1\<lparr>cp_literal := Some j, cp_side := LeftSide\<rparr>"
      have at: "side_at c j LeftSide ?pos" using at0 j by (simp add: side_at_def)
      have "ClausePosFindNextMaximalSide pos b = Some (Some (side_term (literals c ! j) LeftSide), ?pos)"
        using False D(2,3) f lit Cons side_atD(1) [OF at]
        by (auto simp: ClausePosFindNextMaximalSide_def ClausePosFindMaxLiteral_eq)
      then show ?thesis using Cons at unfolding s by (simp add: found_side_def sides_from_first)
    qed
  qed
qed

text \<open>The subterms on the sides of a list.\<close>

definition side_subterms :: "Clause \<Rightarrow> (nat \<times> int) list \<Rightarrow> (nat \<times> int \<times> Term_p) list" where
  "side_subterms c sides = concat (map (\<lambda>(i, sd). map (\<lambda>t. (i, sd, t)) (li (side_term (literals c ! i) sd))) sides)"

lemma subterm_iterate_ok:
  assumes "side_at c i sd pos" and "pos_at (side_term (literals c ! i) sd) fs t (cp_pos pos)"
  shows "subterm_iterate (Some t) pos =
    Some (map (\<lambda>t. (i, sd, t)) (t # after (rev fs)) @ side_subterms c (sides_after False (literals c) i sd))"
  using assms
proof (induction "length (after (rev fs)) + length (side_subterms c (sides_after False (literals c) i sd))"
    arbitrary: i sd pos fs t rule: less_induct)
  case less
  note D = side_atD [OF less.prems(1)] and nx = TermPosNextLIPosition_ok [OF less.prems(2)]
  have g: "ClausePosGetSubterm pos = Some t" "cp_literal pos = Some i" "cp_side pos = sd"
    using TermPosGetSubterm_at [OF less.prems(2)] D(1) less.prems(1) by (simp_all add: ClausePosGetSubterm_def side_at_def)
  note step = subterm_iterate.simps [of "Some t" pos]
  show ?case
  proof (cases "after (rev fs) = []")
    case False
    then obtain t' p' fs' where r: "TermPosNextLIPosition (cp_pos pos) = Some (Some t', p')"
      "pos_at (side_term (literals c ! i) sd) fs' t' p'" "t' # after (rev fs') = after (rev fs)" using nx by blast
    let ?pos = "pos\<lparr>cp_pos := p'\<rparr>"
    have at: "side_at c i sd ?pos" using less.prems(1) r(2) by (simp add: side_at_def pos_at_def)
    have "length (after (rev fs')) < length (after (rev fs))" using r(3) by (metis length_Cons lessI)
    then have "subterm_iterate (Some t') ?pos =
        Some (map (\<lambda>t. (i, sd, t)) (t' # after (rev fs')) @ side_subterms c (sides_after False (literals c) i sd))"
      using r(2) by (intro less.hyps [OF _ at]) simp_all
    moreover have "ClausePosFindNextMaximalSubterm pos = Some (Some t', ?pos)"
      using D(1) r(1) by (simp add: ClausePosFindNextMaximalSubterm_def)
    ultimately show ?thesis using g unfolding step r(3) by simp
  next
    case True
    then have none: "TermPosNextLIPosition (cp_pos pos) = Some (None, cp_pos pos)" using nx by blast
    have same: "pos\<lparr>cp_pos := cp_pos pos\<rparr> = pos" by simp
    note f = ClausePosFindNextMaximalSide_ok [OF less.prems(1), of False]
    show ?thesis
    proof (cases "sides_after False (literals c) i sd")
      case Nil
      then obtain pos' where "ClausePosFindNextMaximalSide pos False = Some (None, pos')" using f by (auto simp: found_side_def)
      then have "ClausePosFindNextMaximalSubterm pos = Some (None, pos')"
        using D(1) none by (simp add: ClausePosFindNextMaximalSubterm_def same)
      then show ?thesis using g True Nil unfolding step by (simp add: subterm_iterate.simps [of None] side_subterms_def)
    next
      case (Cons x rest)
      obtain j sd' where x: "x = (j, sd')" by fastforce
      obtain pos1 where p1: "ClausePosFindNextMaximalSide pos False = Some (Some (side_term (literals c ! j) sd'), pos1)"
        "side_at c j sd' pos1" "rest = sides_after False (literals c) j sd'" using f Cons x by (auto simp: found_side_def)
      have "pstack_ok (cp_pos pos1)" using p1(2) by (simp add: side_at_def)
      then obtain t' p' fs' where r: "TermPosFirstLIPosition (side_term (literals c ! j) sd') (cp_pos pos1) = Some (t', p')"
        "pos_at (side_term (literals c ! j) sd') fs' t' p'" "t' # after (rev fs') = li (side_term (literals c ! j) sd')"
        using TermPosFirstLIPosition_ok by blast
      let ?pos = "pos1\<lparr>cp_pos := p'\<rparr>"
      have at: "side_at c j sd' ?pos" using p1(2) r(2) by (simp add: side_at_def pos_at_def)
      have all: "side_subterms c (sides_after False (literals c) i sd) =
          map (\<lambda>t. (j, sd', t)) (t' # after (rev fs')) @ side_subterms c (sides_after False (literals c) j sd')"
        unfolding Cons x r(3) p1(3) by (simp add: side_subterms_def)
      then have "subterm_iterate (Some t') ?pos =
          Some (map (\<lambda>t. (j, sd', t)) (t' # after (rev fs')) @ side_subterms c (sides_after False (literals c) j sd'))"
        using r(2) True by (intro less.hyps [OF _ at]) simp_all
      moreover have "ClausePosFindNextMaximalSubterm pos = Some (Some t', ?pos)"
        using D(1) none p1(1) r(1) by (simp add: ClausePosFindNextMaximalSubterm_def same)
      ultimately show ?thesis using g True all unfolding step by simp
    qed
  qed
qed

text \<open>C32 The search for maximal subterms is complete: starting with \<open>ClausePosFindFirstMaximalSubterm\<close> and
  calling \<open>ClausePosFindNextMaximalSubterm\<close> until it returns \<open>NULL\<close>, a client meets, in
  leftmost-innermost order, every subterm occurrence on every side of every maximal literal that is
  maximal in it, each once, with the position that denotes it.\<close>

theorem maximal_subterms_complete:
  "maximal_subterms clause = Some (concat (map (\<lambda>i. concat (map (\<lambda>sd. map (\<lambda>t. (i, sd, t)) (li (side_term (literals clause ! i) sd)))
     (max_sides (literals clause ! i)))) [i \<leftarrow> [0..<length (literals clause)]. EqnIsMaximal (literals clause ! i)]))"
proof -
  let ?pos = "ClausePosAlloc\<lparr>cp_clause := Some clause, cp_literal := first_literal clause\<rparr>" and ?L = "literals clause"
  have pos: "cp_clause ?pos = Some clause" "cp_literal ?pos = lit_at (length ?L) 0" "pstack_ok (cp_pos ?pos)"
    by (simp_all add: first_literal_at ClausePosAlloc_def)
  note f = ClausePosFindFirstMaximalSide_ok [OF pos, of False]
  have "side_subterms clause (sides_from False ?L 0) = concat (map (\<lambda>i. concat (map (\<lambda>sd. map (\<lambda>t. (i, sd, t))
      (li (side_term (?L ! i) sd))) (max_sides (?L ! i)))) (lits_from (max_lit False) ?L 0))"
  proof -
    have "concat (map (\<lambda>(i, sd). map (\<lambda>t. (i, sd, t)) (li (side_term (?L ! i) sd))) (concat (map (\<lambda>j. map (Pair j) (max_sides (?L ! j))) js))) =
        concat (map (\<lambda>i. concat (map (\<lambda>sd. map (\<lambda>t. (i, sd, t)) (li (side_term (?L ! i) sd))) (max_sides (?L ! i)))) js)" for js
      by (induction js) (simp_all add: comp_def)
    then show ?thesis by (simp add: sides_from_def side_subterms_def)
  qed
  moreover have "lits_from (max_lit False) ?L 0 = [i \<leftarrow> [0..<length ?L]. EqnIsMaximal (?L ! i)]"
    by (simp add: lits_from_def max_lit_def)
  moreover have "maximal_subterms clause = Some (side_subterms clause (sides_from False ?L 0))"
  proof (cases "sides_from False ?L 0")
    case Nil
    then show ?thesis
      using f by (auto simp: found_side_def maximal_subterms_def ClausePosFindFirstMaximalSubterm_def side_subterms_def
          subterm_iterate.simps [of None])
  next
    case (Cons x rest)
    obtain j sd where x: "x = (j, sd)" by fastforce
    obtain pos1 where p1: "ClausePosFindFirstMaximalSide ?pos False = Some (Some (side_term (?L ! j) sd), pos1)"
      "side_at clause j sd pos1" "rest = sides_after False ?L j sd" using f Cons x by (auto simp: found_side_def)
    have "pstack_ok (cp_pos pos1)" using p1(2) by (simp add: side_at_def)
    then obtain t p fs where r: "TermPosFirstLIPosition (side_term (?L ! j) sd) (cp_pos pos1) = Some (t, p)"
      "pos_at (side_term (?L ! j) sd) fs t p" "t # after (rev fs) = li (side_term (?L ! j) sd)"
      using TermPosFirstLIPosition_ok by blast
    have at: "side_at clause j sd (pos1\<lparr>cp_pos := p\<rparr>)" using p1(2) r(2) by (simp add: side_at_def pos_at_def)
    have "subterm_iterate (Some t) (pos1\<lparr>cp_pos := p\<rparr>) =
        Some (map (\<lambda>t. (j, sd, t)) (t # after (rev fs)) @ side_subterms clause (sides_after False ?L j sd))"
      using r(2) by (intro subterm_iterate_ok [OF at]) simp
    then show ?thesis
      using p1(1,3) r(1) Cons x unfolding r(3)
      by (simp add: maximal_subterms_def ClausePosFindFirstMaximalSubterm_def side_subterms_def)
  qed
  ultimately show ?thesis by simp
qed

end
