(* ===== verification/InferenceSteps.thy ===== *)
theory InferenceSteps
  imports Inferences ClausePositions
begin

text \<open>
  The steps that generating inferences consist of: the state they change, the iterator over unifiers
  (\<open>TERMS/cte_ho_csu.c\<close>, for first-order problems), and what unifying, normalising, copying and
  simplifying yield. \<open>conclusion\<close> is the specification of the clauses that are made.
\<close>

section \<open>The state of inferences\<close>

text \<open>
  What an inference changes: the banks, the bindings and the flags \<open>TPSpecialFlag\<close> of variable cells,
  and the number of clauses made so far.
\<close>

record inf_state =
  is_banks :: banks
  is_binds :: bindings
  is_special :: "Term_p set"
  is_counter :: int

text \<open>\<open>VarBankResetVCounts\<close> on one of the banks.\<close>

definition reset_bank :: "nat \<Rightarrow> inf_state \<Rightarrow> inf_state option" where
  "reset_bank freshvars st =
     do { vb \<leftarrow> vb_at (fst (is_banks st)) freshvars;
          vb \<leftarrow> VarBankResetVCounts vb;
          Some (st\<lparr>is_banks := ((fst (is_banks st))[freshvars := vb], snd (is_banks st))\<rparr>) }"

definition SubstDelete :: "Term_p pstack \<Rightarrow> inf_state \<Rightarrow> inf_state option" where
  "SubstDelete subst st = do { (_, _, b) \<leftarrow> SubstBacktrack subst (is_binds st); Some (st\<lparr>is_binds := b\<rparr>) }"

text \<open>The normalisation and the copies that inferences have in common.\<close>

definition norm_literals ::
  "Eqn list \<Rightarrow> nat option \<Rightarrow> Term_p pstack \<Rightarrow> nat \<Rightarrow> inf_state \<Rightarrow> (Term_p pstack \<times> inf_state) option" where
  "norm_literals lits except subst freshvars st =
     do { (_, subst, b, special, vbs) \<leftarrow> NormSubstEqnListExcept lits except subst (is_binds st) (is_special st)
            (fst (is_banks st)) freshvars;
          Some (subst, st\<lparr>is_banks := (vbs, snd (is_banks st)), is_binds := b, is_special := special\<rparr>) }"

definition copy_literals :: "Eqn list \<Rightarrow> nat option \<Rightarrow> inf_state \<Rightarrow> (Eqn list \<times> inf_state) option" where
  "copy_literals lits except st =
     do { (lits, bks) \<leftarrow> EqnListCopyOptExcept (is_binds st) lits except (is_banks st);
          Some (lits, st\<lparr>is_banks := bks\<rparr>) }"

definition alloc_clause :: "Eqn list \<Rightarrow> inf_state \<Rightarrow> Clause \<times> inf_state" where
  "alloc_clause lits st =
     (let (clause, counter) = ClauseAlloc (is_counter st) lits in (clause, st\<lparr>is_counter := counter\<rparr>))"

section \<open>The iterator over unifiers\<close>

definition INIT_TAG :: int where "INIT_TAG = 0"
definition RIGID_PROCESSED_TAG :: int where "RIGID_PROCESSED_TAG = 1"

text \<open>
  The stack for backtracking holds quadruples of constraints, state, limits and stack pointer. The
  substitution is passed separately. The lists that schedule arguments are used by \<open>forward_iter\<close> only,
  which is called in higher-order problems only: in the model it has no result.
\<close>

record CSUIterator =
  csu_constraints :: "Term_p IntOrP pqueue"
  backtrack_info :: "(Term_p IntOrP pqueue \<times> int \<times> int \<times> nat) pstack"
  current_state :: int
  current_limits :: int
  init_pos :: nat
  unifiers_returned :: int
  csu_steps :: int

definition CSUIterInit :: "Term_p \<Rightarrow> Term_p \<Rightarrow> Term_p pstack \<Rightarrow> CSUIterator option" where
  "CSUIterInit lhs rhs subst =
     do { q \<leftarrow> PQueueStoreP PQueueAlloc rhs;
          q \<leftarrow> PQueueStoreP q lhs;
          Some \<lparr>csu_constraints = q, backtrack_info = PStackAlloc, current_state = INIT_TAG, current_limits = 0,
                init_pos = PStackGetSP subst, unifiers_returned = 0, csu_steps = 0\<rparr> }"

definition backtrack_iter ::
  "int \<Rightarrow> CSUIterator \<Rightarrow> Term_p pstack \<Rightarrow> bindings \<Rightarrow> (bool \<times> CSUIterator \<times> Term_p pstack \<times> bindings) option" where
  "backtrack_iter max_unifiers iter subst b =
     (if current_state iter = INIT_TAG
      then do { c_assert (PQueueCardinality (csu_constraints iter) = 2);
                Some (True, iter\<lparr>current_state := RIGID_PROCESSED_TAG\<rparr>, subst, b) }
      else if PStackEmpty (backtrack_info iter) \<or> unifiers_returned iter \<ge> max_unifiers
      then Some (False, iter, subst, b)
      else do { ((constraints, state, limits, ptr), info) \<leftarrow> PStackPop (backtrack_info iter);
                (_, subst, b) \<leftarrow> SubstBacktrackToPos subst b ptr;
                Some (True, iter\<lparr>csu_constraints := constraints, backtrack_info := info,
                                 current_state := state, current_limits := limits\<rparr>, subst, b) })"

text \<open>
  The two arguments of the call of \<open>SubstMguComplete\<close> take elements from the queue; C does not say which
  is evaluated first, so \<open>left_first\<close> is a parameter.
\<close>

definition NextCSUElement ::
  "bool \<Rightarrow> int \<Rightarrow> CSUIterator \<Rightarrow> Term_p pstack \<Rightarrow> bindings \<Rightarrow>
   (bool \<times> CSUIterator \<times> Term_p pstack \<times> bindings) option" where
  "NextCSUElement left_first max_unifiers iter subst b =
     do { (res, iter, subst, b) \<leftarrow> backtrack_iter max_unifiers iter subst b;
          let iter = iter\<lparr>csu_steps := 0\<rparr>;
          (res, iter, subst, b) \<leftarrow>
            (if res
             then (if unifiers_returned iter = 0
                   then do { (x, q) \<leftarrow> PQueueGetLastP (csu_constraints iter);
                             (y, q) \<leftarrow> PQueueGetLastP q;
                             (res, subst, b) \<leftarrow> (if left_first then SubstComputeMgu x y subst b
                                                else SubstComputeMgu y x subst b);
                             Some (res, iter\<lparr>csu_constraints := q, backtrack_info := PStackReset (backtrack_info iter),
                                             unifiers_returned := 1\<rparr>, subst, b) }
                   else None)
             else Some (res, iter, subst, b));
          (subst, b) \<leftarrow> (if \<not> res
                        then do { (_, subst, b) \<leftarrow> SubstBacktrackToPos subst b (init_pos iter); Some (subst, b) }
                        else Some (subst, b));
          Some (res, iter, subst, b) }"

definition CSUIterDestroy ::
  "CSUIterator \<Rightarrow> Term_p pstack \<Rightarrow> bindings \<Rightarrow> (Term_p pstack \<times> bindings) option" where
  "CSUIterDestroy iter subst b =
     do { (_, subst, b) \<leftarrow> SubstBacktrackToPos subst b (init_pos iter); Some (subst, b) }"

text \<open>In a first-order problem \<open>SubstHasHOBinding\<close> is false.\<close>

definition SubstHasHOBinding :: "Term_p pstack \<Rightarrow> bool" where
  "SubstHasHOBinding subst = False"

section \<open>Normalising, copying and simplifying\<close>

lemma ClauseAlloc_set:
  "set (literals (fst (ClauseAlloc n lits))) = set lits" "snd (ClauseAlloc n lits) = n + 1"
  "ClauseLiteralNumber (fst (ClauseAlloc n lits)) = int (length lits)"
proof -
  show "set (literals (fst (ClauseAlloc n lits))) = set lits" using ClauseAlloc_counts(2) [of n lits] by (metis set_mset_mset)
  have "int (length [e \<leftarrow> lits. EqnIsPositive e]) + int (length [e \<leftarrow> lits. \<not> EqnIsPositive e]) = int (length lits)"
    by (induction lits) auto
  then show "ClauseLiteralNumber (fst (ClauseAlloc n lits)) = int (length lits)"
    by (simp add: ClauseAlloc_def clause_alloc_loop_ok EmptyClauseAlloc_def ClauseLiteralNumber_def)
qed (simp add: ClauseAlloc_def)

text \<open>What an inference starts from and returns to: no bindings are left, and only fresh variables are marked.\<close>

definition st_ok :: "TB \<Rightarrow> nat \<Rightarrow> inf_state \<Rightarrow> bool" where
  "st_ok tb a st \<longleftrightarrow> inf_ok tb a (is_banks st) \<and> is_binds st = (\<lambda>_. None) \<and> (\<forall>v \<in> is_special st. var_bank v = a)"

definition st_le :: "inf_state \<Rightarrow> inf_state \<Rightarrow> bool" where
  "st_le st st' \<longleftrightarrow> vbs_ext (fst (is_banks st)) (fst (is_banks st')) \<and> store_le (snd (is_banks st)) (snd (is_banks st'))"

lemma st_le_refl [simp]: "st_le st st"
  by (simp add: st_le_def)

lemma st_le_trans: "st_le st st' \<Longrightarrow> st_le st' st'' \<Longrightarrow> st_le st st''"
  unfolding st_le_def using vbs_ext_trans store_le_trans by blast

lemma st_le_lit: "st_le st st' \<Longrightarrow> lit_in tb (is_banks st) e \<Longrightarrow> lit_in tb (is_banks st') e"
  unfolding st_le_def using lit_in_mono by blast

lemma lit_terms_in_bank: "\<forall>e \<in> set lits. lit_in tb bks e \<Longrightarrow> t \<in> set (lit_terms lits) \<Longrightarrow> in_bank tb bks t"
  using lit_inD(3,4) [of tb bks] by (auto simp: set_lit_terms)

text \<open>The state \<open>st'\<close> in which literals of the state \<open>st\<close> are copied.\<close>

definition copying :: "TB \<Rightarrow> nat \<Rightarrow> inf_state \<Rightarrow> inf_state \<Rightarrow> bool" where
  "copying tb a st st' \<longleftrightarrow> (\<exists>vbs. normed tb a (is_binds st) (is_banks st) (is_binds st') (is_special st') vbs \<and>
     copy_inv tb (is_banks st) vbs (is_banks st') \<and> banks_le (vbs, snd (is_banks st)) (is_banks st'))"

abbreviation copy_of :: "TB \<Rightarrow> inf_state \<Rightarrow> Term_p \<Rightarrow> Term_p" where
  "copy_of tb st \<equiv> copy_subst tb (is_binds st)"

lemma norm_literals_ok:
  assumes "inf_ok tb a (is_banks st)" and "binds_bank tb (is_banks st) (is_binds st)"
    and "\<forall>v \<in> is_special st. var_bank v = a" and "trail b1 tr (is_binds st) s"
    and "\<forall>e \<in> set lits. lit_in tb (is_banks st) e"
  shows "\<exists>s' st'. norm_literals lits ex s a st = Some (s', st') \<and> copying tb a st st' \<and> trail b1 tr (is_binds st') s' \<and>
    is_counter st' = is_counter st \<and>
    renaming_on (tb_sig tb) (copy_ren tb (is_binds st) (is_binds st')) (lit_vars (is_binds st) (list_except lits ex))"
proof -
  obtain s' b' special' vbs' where N: "NormSubstEqnListExcept lits ex s (is_binds st) (is_special st) (fst (is_banks st)) a =
      Some (PStackGetSP s, s', b', special', vbs')" "normed tb a (is_binds st) (is_banks st) b' special' vbs'"
    "trail b1 tr b' s'" "\<forall>t \<in> set (lit_terms (list_except lits ex)). term_vars (sigma b' t) \<subseteq> special'"
    using NormSubst_normed [OF assms] by blast
  have "renaming_on (tb_sig tb) (copy_ren tb (is_binds st) b') (lit_vars (is_binds st) (list_except lits ex))"
    using set_list_except [of lits ex] assms(5) by (intro norm_renaming [OF N(2) _ N(4)]) blast
  moreover have le: "banks_le (vbs', snd (is_banks st)) (vbs', snd (is_banks st))"
    using banks_le_refl normed_copy_inv [OF N(2)] unfolding copy_inv_def by blast
  moreover define st' where "st' = st\<lparr>is_banks := (vbs', snd (is_banks st)), is_binds := b', is_special := special'\<rparr>"
  then have st': "is_banks st' = (vbs', snd (is_banks st))" "is_binds st' = b'" "is_special st' = special'"
    "is_counter st' = is_counter st" by simp_all
  moreover have "copying tb a st st'"
    unfolding copying_def st' using N(2) normed_copy_inv [OF N(2)] le by (intro exI [of _ vbs'] conjI)
  moreover have "norm_literals lits ex s a st = Some (s', st')" using N(1) by (simp add: norm_literals_def st'_def)
  ultimately show ?thesis using N(3) by (intro exI [of _ s'] exI [of _ st']) simp
qed

lemma copying_le:
  assumes "copying tb a st st'"
  shows "st_le st st'" "inf_ok tb a (is_banks st')" "v \<in> is_special st' \<Longrightarrow> var_bank v = a"
proof -
  obtain vbs where c: "normed tb a (is_binds st) (is_banks st) (is_binds st') (is_special st') vbs"
    "copy_inv tb (is_banks st) vbs (is_banks st')" "banks_le (vbs, snd (is_banks st)) (is_banks st')"
    using assms unfolding copying_def by blast
  note I = copy_inf_ok [OF normedD(5) [OF c(1)] c(2) [unfolded copy_inv_def] c(3)]
  show "inf_ok tb a (is_banks st')" by (rule I(1))
  show "st_le st st'" using I(2,3) vbs_ext_trans [OF normedD(4) [OF c(1)]] unfolding st_le_def by simp
  show "v \<in> is_special st' \<Longrightarrow> var_bank v = a" using norm_invD(6) [OF normedD(1) [OF c(1)]] .
qed

lemma copy_literals_ok:
  assumes "copying tb a st st'" and "\<forall>e \<in> set lits. lit_in tb (is_banks st) e"
  shows "\<exists>bks. copy_literals lits ex st' = Some (map (inst_lit (copy_of tb st')) (list_except lits ex), st'\<lparr>is_banks := bks\<rparr>) \<and>
    copying tb a st (st'\<lparr>is_banks := bks\<rparr>) \<and> st_le st' (st'\<lparr>is_banks := bks\<rparr>) \<and>
    (\<forall>e \<in> set (map (inst_lit (copy_of tb st')) (list_except lits ex)). lit_in tb bks e)"
proof -
  obtain vbs where c: "normed tb a (is_binds st) (is_banks st) (is_binds st') (is_special st') vbs"
    "copy_inv tb (is_banks st) vbs (is_banks st')" "banks_le (vbs, snd (is_banks st)) (is_banks st')"
    using assms(1) unfolding copying_def by blast
  let ?lits = "map (inst_lit (copy_of tb st')) (list_except lits ex)"
  obtain bks where b: "EqnListCopyOptExcept (is_binds st') lits ex (is_banks st') = Some (?lits, bks)"
    "copy_inv tb (is_banks st) vbs bks" "banks_le (is_banks st') bks" "\<forall>t \<in> set (lit_terms ?lits). TermIsShared (snd bks) t"
    using copy_list [OF c(1) assms(2), of ex] c(2) unfolding builds_def copy_inv_def by blast
  have le: "banks_le (vbs, snd (is_banks st)) bks" using banks_le_trans [OF c(3) b(3)] .
  have "lit_in tb bks e" if "e \<in> set ?lits" for e
    using copy_list_in [OF c(1) assms(2) le b(4) that] .
  moreover have "copying tb a st (st'\<lparr>is_banks := bks\<rparr>)" using c(1) b(2) le unfolding copying_def by auto
  moreover have "st_le st' (st'\<lparr>is_banks := bks\<rparr>)"
    using b(3) vbs_same_ext unfolding st_le_def banks_le_def by auto
  ultimately show ?thesis using b(1) by (intro exI [of _ bks]) (simp add: copy_literals_def)
qed

text \<open>The clause made of literals under a substitution.\<close>

definition inst_clause :: "int \<Rightarrow> (Term_p \<Rightarrow> Term_p) \<Rightarrow> Eqn list \<Rightarrow> Clause" where
  "inst_clause n \<theta> lits = fst (ClauseAlloc n (simplified (map (inst_lit \<theta>) lits)))"

lemma inst_clause_set: "set (literals (inst_clause n \<theta> lits)) = set (simplified (map (inst_lit \<theta>) lits))"
  by (simp add: inst_clause_def ClauseAlloc_set)

lemma simplify_alloc:
  assumes "inf_ok tb a (is_banks st)" and "\<forall>e \<in> set lits. lit_in tb (is_banks st) e"
  shows "EqnListLambdaNormalize lits = lits"
    and "alloc_clause (snd (EqnListRemoveDuplicates (snd (is_banks st)) (snd (EqnListRemoveResolved lits)))) st =
      (fst (ClauseAlloc (is_counter st) (simplified lits)), st\<lparr>is_counter := is_counter st + 1\<rparr>)"
  using simplify_ok [OF assms] by (simp_all add: alloc_clause_def ClauseAlloc_def)

text \<open>
  The clause made of the literals that are left, by a substitution that first follows the bindings \<open>b\<close>
  and then renames the variables.
\<close>

definition conclusion :: "TB \<Rightarrow> bindings \<Rightarrow> Eqn list \<Rightarrow> Clause \<Rightarrow> bool" where
  "conclusion tb b lits cl \<longleftrightarrow> (\<exists>\<rho> n. renaming_on (tb_sig tb) \<rho> (lit_vars b lits) \<and>
     cl = inst_clause n (\<lambda>v. inst \<rho> (sigma b v)) lits)"

lemma inst_lit_eq:
  "inst \<theta> (lterm e) = inst \<theta>' (lterm e) \<Longrightarrow> inst \<theta> (rterm e) = inst \<theta>' (rterm e) \<Longrightarrow> inst_lit \<theta> e = inst_lit \<theta>' e"
  by (simp add: inst_lit_def)

lemma copy_lit_ren:
  assumes "copying tb a st st'" and "lit_in tb (is_banks st) e"
  shows "inst_lit (copy_of tb st') e = inst_lit (\<lambda>v. inst (copy_ren tb (is_binds st) (is_binds st')) (sigma (is_binds st) v)) e"
proof (rule inst_lit_eq)
  obtain vbs where N: "normed tb a (is_binds st) (is_banks st) (is_binds st') (is_special st') vbs"
    using assms(1) unfolding copying_def by blast
  note wf = lit_inD(6,7) [OF assms(2)] and b = norm_invD(3) [OF normedD(1) [OF N]]
  show "inst (copy_of tb st') (lterm e) = inst (\<lambda>v. inst (copy_ren tb (is_binds st) (is_binds st')) (sigma (is_binds st) v)) (lterm e)"
    "inst (copy_of tb st') (rterm e) = inst (\<lambda>v. inst (copy_ren tb (is_binds st) (is_binds st')) (sigma (is_binds st) v)) (rterm e)"
    using copy_subst_ren [OF N] sigma_inst [OF b] wf by (simp_all flip: inst_comp)
qed

lemma copying_counter [simp]:
  "copying tb a (st\<lparr>is_counter := n\<rparr>) st' = copying tb a st st'" "copying tb a st (st'\<lparr>is_counter := n\<rparr>) = copying tb a st st'"
  by (simp_all add: copying_def)

text \<open>Normalising, copying and simplifying, one after the other.\<close>

lemma norm_copy_ok:
  assumes "inf_ok tb a (is_banks st)" and "binds_bank tb (is_banks st) (is_binds st)"
    and "\<forall>v \<in> is_special st. var_bank v = a" and "trail b1 tr (is_binds st) s"
    and "\<forall>e \<in> set L. lit_in tb (is_banks st) e"
  shows "\<exists>s' st1 M st2 cl st'. norm_literals L x s a st = Some (s', st1) \<and> copy_literals L x st1 = Some (M, st2) \<and>
    EqnListLambdaNormalize M = M \<and>
    alloc_clause (snd (EqnListRemoveDuplicates (snd (is_banks st2)) (snd (EqnListRemoveResolved M)))) st2 = (cl, st') \<and>
    conclusion tb (is_binds st) (list_except L x) cl \<and> copying tb a st st' \<and> trail b1 tr (is_binds st') s' \<and>
    (\<forall>e \<in> set (literals cl). lit_in tb (is_banks st') e)"
proof -
  obtain s' st1 where n: "norm_literals L x s a st = Some (s', st1)" "copying tb a st st1" "trail b1 tr (is_binds st1) s'"
    "is_counter st1 = is_counter st"
    "renaming_on (tb_sig tb) (copy_ren tb (is_binds st) (is_binds st1)) (lit_vars (is_binds st) (list_except L x))"
    using norm_literals_ok [OF assms] by blast
  let ?M = "map (inst_lit (copy_of tb st1)) (list_except L x)"
  obtain bks where k: "copy_literals L x st1 = Some (?M, st1\<lparr>is_banks := bks\<rparr>)" "copying tb a st (st1\<lparr>is_banks := bks\<rparr>)"
    "\<forall>e \<in> set ?M. lit_in tb bks e"
    using copy_literals_ok [OF n(2) assms(5)] by blast
  define st2 where "st2 = st1\<lparr>is_banks := bks\<rparr>"
  have st2: "is_binds st2 = is_binds st1" "is_banks st2 = bks" "is_counter st2 = is_counter st" "is_special st2 = is_special st1"
    using n(4) by (simp_all add: st2_def)
  note simp = simplify_alloc [OF copying_le(2) [OF k(2) [folded st2_def]], of ?M, unfolded st2, OF k(3)]
  let ?cl = "inst_clause (is_counter st) (copy_of tb st1) (list_except L x)"
  let ?st = "st2\<lparr>is_counter := is_counter st + 1\<rparr>"
  have "copying tb a st ?st"
    using k(2) unfolding st2_def copying_def by simp
  moreover have "?M = map (inst_lit (\<lambda>v. inst (copy_ren tb (is_binds st) (is_binds st1)) (sigma (is_binds st) v))) (list_except L x)"
    using set_list_except [of L x] assms(5) by (intro map_cong refl copy_lit_ren [OF n(2)]) blast
  then have "?cl = inst_clause (is_counter st) (\<lambda>v. inst (copy_ren tb (is_binds st) (is_binds st1)) (sigma (is_binds st) v))
      (list_except L x)"
    unfolding inst_clause_def by (simp only:)
  then have "conclusion tb (is_binds st) (list_except L x) ?cl" using n(5) unfolding conclusion_def by blast
  moreover have "\<forall>e \<in> set (literals ?cl). lit_in tb (is_banks ?st) e"
    using k(3) simplified_subset [of ?M] st2 by (auto simp: inst_clause_set)
  moreover have "copy_literals L x st1 = Some (?M, st2)" using k(1) by (simp add: st2_def)
  moreover have "alloc_clause (snd (EqnListRemoveDuplicates (snd (is_banks st2)) (snd (EqnListRemoveResolved ?M)))) st2 = (?cl, ?st)"
    using simp(2) st2 by (simp add: inst_clause_def)
  ultimately show ?thesis using n(1,3) st2 simp(1)
    by (intro exI [of _ s'] exI [of _ st1] exI [of _ ?M] exI [of _ st2] exI [of _ ?cl] exI [of _ ?st]) simp
qed

section \<open>Unification\<close>

text \<open>
  Equations that typed substitutions solve, and bindings that solve them in the most general way,
  starting from none.
\<close>

definition unifies :: "(Term_p \<Rightarrow> Term_p) \<Rightarrow> (Term_p \<times> Term_p) set \<Rightarrow> bool" where
  "unifies \<theta> E \<longleftrightarrow> (\<forall>(l, r) \<in> E. inst \<theta> l = inst \<theta> r)"

definition unifiable :: "TB \<Rightarrow> (Term_p \<times> Term_p) set \<Rightarrow> bool" where
  "unifiable tb E \<longleftrightarrow> (\<exists>\<theta>. subst_typed (tb_sig tb) \<theta> \<and> unifies \<theta> E)"

definition unifier_of :: "TB \<Rightarrow> (Term_p \<times> Term_p) set \<Rightarrow> bindings \<Rightarrow> bool" where
  "unifier_of tb E b \<longleftrightarrow> subst_wf (tb_sig tb) b \<and> (\<forall>(l, r) \<in> E. sigma b l = sigma b r) \<and>
     (\<forall>\<theta>. subst_typed (tb_sig tb) \<theta> \<longrightarrow> unifies \<theta> E \<longrightarrow> agrees (tb_sig tb) (\<lambda>_. None) b \<theta>)"

definition unified :: "TB \<Rightarrow> banks \<Rightarrow> (Term_p \<times> Term_p) set \<Rightarrow> bool \<Rightarrow> bindings \<Rightarrow> Term_p pstack \<Rightarrow> bool" where
  "unified tb bks E res b s \<longleftrightarrow> res = unifiable tb E \<and>
     (if res then binds_bank tb bks b \<and> trail (\<lambda>_. None) [] b s \<and> unifier_of tb E b
      else b = (\<lambda>_. None) \<and> pstack_ok s \<and> pstack_list s = [])"

lemma unified_trail: "unified tb bks E res b s \<Longrightarrow> trail (\<lambda>_. None) [] b s"
  using trail_refl [of s "\<lambda>_. None"] by (auto simp: unified_def split: if_splits)

lemma unified_sym: "unified tb bks {(l, r)} res b s = unified tb bks {(r, l)} res b s"
proof -
  have "unifies \<theta> {(l, r)} = unifies \<theta> {(r, l)}" for \<theta> by (auto simp: unifies_def)
  then show ?thesis by (auto simp: unified_def unifiable_def unifier_of_def)
qed

text \<open>Two terms of the bank.\<close>

definition sides_in :: "TB \<Rightarrow> banks \<Rightarrow> Term_p \<Rightarrow> Term_p \<Rightarrow> bool" where
  "sides_in tb bks l r \<longleftrightarrow> tb_ok tb \<and> store_ok (snd bks) \<and> in_bank tb bks l \<and> in_bank tb bks r"

lemma sides_in_sym: "sides_in tb bks l r \<Longrightarrow> sides_in tb bks r l"
  by (simp add: sides_in_def)

lemma sides_wf: "sides_in tb bks l r \<Longrightarrow> wf_term (tb_sig tb) l \<and> wf_term (tb_sig tb) r"
  using in_bankD(2) [of tb bks l] in_bankD(2) [of tb bks r] by (simp add: sides_in_def)

lemma lit_sides: "inf_ok tb a bks \<Longrightarrow> lit_in tb bks e \<Longrightarrow> sides_in tb bks (lterm e) (rterm e)"
  by (simp add: sides_in_def inf_ok_def lit_in_def)

abbreviation pred_clash :: "Term_p \<Rightarrow> Term_p \<Rightarrow> bool" where
  "pred_clash l r \<equiv> t_predpos l \<and> TermIsFreeVar r \<or> t_predpos r \<and> TermIsFreeVar l"

lemma clash_no_unifier:
  assumes "sides_in tb bks l r" and "pred_clash l r" and "subst_typed (tb_sig tb) \<theta>"
  shows "inst \<theta> l \<noteq> inst \<theta> r"
proof
  assume eq: "inst \<theta> l = inst \<theta> r"
  have S: "tb_ok tb" "in_bank tb bks l" "in_bank tb bks r" using assms(1) by (simp_all add: sides_in_def)
  have "t_type l = t_type r"
    using inst_typed [OF assms(3) in_bankD(2) [OF S(2)]] inst_typed [OF assms(3) in_bankD(2) [OF S(3)]] eq by simp
  then show False
    using assms(2) no_pred_clash [OF S(1) in_bankD(1) [OF S(2)] in_bankD(1) [OF S(3)]]
      no_pred_clash [OF S(1) in_bankD(1) [OF S(3)] in_bankD(1) [OF S(2)]] by auto
qed

lemma sigma_none: "wf_term sg x \<Longrightarrow> sigma (\<lambda>_. None) x = x"
proof -
  assume wf: "wf_term sg x"
  have "full (\<lambda>_. None) x x" by (rule full_refl) simp
  then show ?thesis using sigma_full [OF subst_wf_empty wf] full_det by blast
qed

text \<open>Unification that extends what has been unified so far.\<close>

lemma SubstComputeMgu_extend:
  assumes sides: "sides_in tb bks l r" and u: "unified tb bks E True b s"
    and E: "\<forall>(x, y) \<in> E. wf_term (tb_sig tb) x \<and> wf_term (tb_sig tb) y"
  shows "\<exists>res s' b'. SubstComputeMgu l r s b = Some (res, s', b') \<and> res = unifiable tb (insert (l, r) E) \<and>
    (if res then unified tb bks (insert (l, r) E) True b' s'
     else b' = b \<and> pstack_ok s' \<and> pstack_list s' = pstack_list s)"
proof -
  let ?sg = "tb_sig tb"
  have S: "tb_ok tb" "store_ok (snd bks)" "in_bank tb bks l" "in_bank tb bks r"
    using sides by (simp_all add: sides_in_def)
  note wf = in_bankD(2) [OF S(3)] in_bankD(2) [OF S(4)]
  have U: "binds_bank tb bks b" "trail (\<lambda>_. None) [] b s" "unifier_of tb E b" using u by (simp_all add: unified_def)
  then have b: "subst_wf ?sg b" "pstack_ok s" "\<forall>(x, y) \<in> E. sigma b x = sigma b y"
    "\<And>\<theta>. subst_typed ?sg \<theta> \<Longrightarrow> unifies \<theta> E \<Longrightarrow> agrees ?sg (\<lambda>_. None) b \<theta>"
    by (auto simp: unifier_of_def trail_def)
  have solve: "solves b \<theta> {(l, r)} \<longleftrightarrow> inst \<theta> l = inst \<theta> r" if "subst_typed ?sg \<theta>" "unifies \<theta> E" for \<theta>
    using b(4) [OF that] wf sigma_none [of ?sg] by (auto simp: solves_def agrees_def)
  show ?thesis
  proof (cases "pred_clash l r")
    case True
    then have "\<not> unifiable tb (insert (l, r) E)"
      using clash_no_unifier [OF sides True] by (auto simp: unifiable_def unifies_def)
    then show ?thesis using True b(2) by (auto simp: SubstComputeMgu_def)
  next
    case False
    obtain res s' b' where m: "SubstComputeMgu l r s b = Some (res, s', b')"
      "if res then mgu_inv ?sg b {(l, r)} b' {} \<and> trail b (pstack_list s) b' s'
       else b' = b \<and> pstack_ok s' \<and> pstack_list s' = pstack_list s \<and>
         (\<forall>\<theta>. subst_typed ?sg \<theta> \<longrightarrow> \<not> solves b \<theta> {(l, r)})"
      using SubstComputeMgu_post [OF b(1,2) wf False] by blast
    show ?thesis
    proof (cases res)
      case True
      then have inv: "mgu_inv ?sg b {(l, r)} b' {}" "trail b (pstack_list s) b' s'" using m(2) by simp_all
      then have b': "subst_wf ?sg b'" "b \<subseteq>\<^sub>m b'"
        "\<And>\<theta>. subst_typed ?sg \<theta> \<Longrightarrow> solves b \<theta> {(l, r)} \<Longrightarrow> agrees ?sg b b' \<theta>" by (auto simp: mgu_inv_def)
      have bank: "binds_bank tb bks b'" using binds_bank_mgu [OF U(1) S(2-4) b(2), of s' b'] m(1) True by simp
      have old: "sigma b' x = sigma b' y" if "(x, y) \<in> E" for x y
        using E b(3) that sigma_extend [OF b(1) b'(1,2)] by fastforce
      have new: "sigma b' l = sigma b' r" using mgu_inv_solved(2) [OF inv(1) wf] .
      have "agrees ?sg (\<lambda>_. None) b' \<theta>" if t: "subst_typed ?sg \<theta>" "unifies \<theta> (insert (l, r) E)" for \<theta>
      proof -
        have ue: "unifies \<theta> E" "inst \<theta> l = inst \<theta> r" using t(2) by (auto simp: unifies_def)
        then show ?thesis using b(4) [OF t(1) ue(1)] b'(3) [OF t(1)] solve [OF t(1) ue(1)] by (simp add: agrees_def)
      qed
      then have uni: "unifier_of tb (insert (l, r) E) b'" using b'(1) old new by (auto simp: unifier_of_def)
      have "unifies (sigma b') (insert (l, r) E)"
        using old new sigma_inst [OF b'(1)] wf E unfolding unifies_def by fastforce
      then have "unifiable tb (insert (l, r) E)" using sigma_typed [OF b'(1)] unfolding unifiable_def subst_typed_def by blast
      then have "unified tb bks (insert (l, r) E) True b' s'" "unifiable tb (insert (l, r) E)"
        using bank uni trail_trans [OF U(2) inv(2)] by (simp_all add: unified_def)
      then show ?thesis using m(1) True by (intro exI [of _ True] exI [of _ s'] exI [of _ b']) simp
    next
      case False
      have "\<not> unifiable tb (insert (l, r) E)"
      proof
        assume "unifiable tb (insert (l, r) E)"
        then obtain \<theta> where t: "subst_typed ?sg \<theta>" "unifies \<theta> E" "inst \<theta> l = inst \<theta> r"
          by (auto simp: unifiable_def unifies_def)
        then show False using m(2) False solve [OF t(1,2)] by auto
      qed
      then show ?thesis using m False by (intro exI [of _ False] exI [of _ s'] exI [of _ b']) simp
    qed
  qed
qed

lemma unified_start: "pstack_ok s \<Longrightarrow> pstack_list s = [] \<Longrightarrow> unified tb bks {} True (\<lambda>_. None) s"
  using trail_refl [of s "\<lambda>_. None"] subst_wf_empty [of "tb_sig tb"]
  by (auto simp: unified_def binds_bank_empty unifier_of_def unifiable_def unifies_def agrees_def subst_typed_def intro: exI [of _ "\<lambda>v. v"])

lemma SubstComputeMgu_unifier:
  assumes "sides_in tb bks l r" and "pstack_ok s" and "pstack_list s = []"
  shows "\<exists>res s' b'. SubstComputeMgu l r s (\<lambda>_. None) = Some (res, s', b') \<and> unified tb bks {(l, r)} res b' s'"
  using SubstComputeMgu_extend [OF assms(1) unified_start [OF assms(2,3)]] assms(2,3) by (auto simp: unified_def split: if_splits)

lemma backtrack_none:
  assumes "trail (\<lambda>_. None) [] b s"
  shows "\<exists>n s'. SubstBacktrackToPos s b 0 = Some (n, s', \<lambda>_. None) \<and> pstack_ok s' \<and> pstack_list s' = []"
  using trail_backtrack [OF assms] by simp

lemma unify_both_unifier:
  assumes "sides_in tb bks (lterm e1) (lterm e2)" and "sides_in tb bks (rterm e1) (rterm e2)"
    and "pstack_ok s" and "pstack_list s = []"
  shows "\<exists>res s' b'. unify_both e1 e2 s (\<lambda>_. None) = Some (res, s', b') \<and>
    unified tb bks {(lterm e1, lterm e2), (rterm e1, rterm e2)} res b' s'"
proof -
  let ?E1 = "{(lterm e1, lterm e2)}" and ?E = "{(lterm e1, lterm e2), (rterm e1, rterm e2)}"
  have sp: "PStackGetSP s = 0" using length_pstack_list [OF assms(3)] assms(4) by (simp add: PStackGetSP_def)
  have wf: "\<forall>(x, y) \<in> ?E1. wf_term (tb_sig tb) x \<and> wf_term (tb_sig tb) y"
    using sides_wf [OF assms(1)] by simp
  have ins: "insert (rterm e1, rterm e2) ?E1 = ?E" by auto
  have mono: "unifiable tb ?E \<Longrightarrow> unifiable tb ?E1" by (auto simp: unifiable_def unifies_def)
  obtain r1 s1 b1 where m1: "SubstComputeMgu (lterm e1) (lterm e2) s (\<lambda>_. None) = Some (r1, s1, b1)" "unified tb bks ?E1 r1 b1 s1"
    using SubstComputeMgu_unifier [OF assms(1,3,4)] by blast
  show ?thesis
  proof (cases r1)
    case False
    then have u: "b1 = (\<lambda>_. None)" "pstack_ok s1" "pstack_list s1 = []" "\<not> unifiable tb ?E1" using m1(2) by (simp_all add: unified_def)
    obtain n s2 where k: "SubstBacktrackToPos s1 b1 0 = Some (n, s2, \<lambda>_. None)" "pstack_ok s2" "pstack_list s2 = []"
      using backtrack_none [OF unified_trail [OF m1(2)]] by blast
    have "unified tb bks ?E False (\<lambda>_. None) s2" using mono u(4) k(2,3) by (auto simp: unified_def)
    then show ?thesis using m1(1) False k(1) sp by (auto simp: unify_both_def)
  next
    case True
    then have u1: "unified tb bks ?E1 True b1 s1" using m1(2) by simp
    obtain r2 s2 b2 where m2: "SubstComputeMgu (rterm e1) (rterm e2) s1 b1 = Some (r2, s2, b2)" "r2 = unifiable tb ?E"
      "if r2 then unified tb bks ?E True b2 s2 else b2 = b1 \<and> pstack_ok s2 \<and> pstack_list s2 = pstack_list s1"
      using SubstComputeMgu_extend [OF assms(2) u1 wf] unfolding ins by blast
    show ?thesis
    proof (cases r2)
      case True
      then show ?thesis using m1(1) m2 \<open>r1\<close> by (auto simp: unify_both_def)
    next
      case False
      then have b2: "b2 = b1" "pstack_ok s2" "pstack_list s2 = pstack_list s1" "\<not> unifiable tb ?E" using m2(2,3) by simp_all
      then have "trail (\<lambda>_. None) [] b2 s2" using unified_trail [OF u1] by (simp add: trail_def)
      then obtain n s3 where k: "SubstBacktrackToPos s2 b2 0 = Some (n, s3, \<lambda>_. None)" "pstack_ok s3" "pstack_list s3 = []"
        using backtrack_none by blast
      have "unified tb bks ?E False (\<lambda>_. None) s3" using b2(4) k(2,3) by (simp add: unified_def)
      then show ?thesis using m1(1) m2(1) \<open>r1\<close> False k(1) sp by (auto simp: unify_both_def)
    qed
  qed
qed

text \<open>The iterator before it is asked for a unifier of \<open>l\<close> and \<open>r\<close>, and after that.\<close>

definition csu_new :: "Term_p \<Rightarrow> Term_p \<Rightarrow> CSUIterator \<Rightarrow> bool" where
  "csu_new l r it \<longleftrightarrow> current_state it = INIT_TAG \<and> jobs_are (csu_constraints it) [(r, l)] \<and> init_pos it = 0 \<and>
     unifiers_returned it = 0"

definition csu_spent :: "CSUIterator \<Rightarrow> bool" where
  "csu_spent it \<longleftrightarrow> current_state it = RIGID_PROCESSED_TAG \<and> PStackEmpty (backtrack_info it) \<and> init_pos it = 0"

lemma CSUIterInit_new:
  assumes "PStackGetSP s = 0"
  shows "\<exists>it. CSUIterInit l r s = Some it \<and> csu_new l r it"
proof -
  have "jobs_are PQueueAlloc []" by (simp add: jobs_are_def pqd.new_law)
  then obtain j1 j2 where "PQueueStoreP PQueueAlloc r = Some j1" "PQueueStoreP j1 l = Some j2" "jobs_are j2 [(r, l)]"
    using jobs_are_store [of PQueueAlloc "[]" r l] by auto
  then show ?thesis using assms by (simp add: CSUIterInit_def csu_new_def)
qed

lemma NextCSUElement_first:
  assumes "csu_new l r it" and "sides_in tb bks l r" and "pstack_ok s" and "pstack_list s = []"
  shows "\<exists>res it' s' b'. NextCSUElement lf mu it s (\<lambda>_. None) = Some (res, it', s', b') \<and> csu_spent it' \<and>
    unified tb bks {(l, r)} res b' s'"
proof -
  have jobs: "jobs_are (csu_constraints it) ([] @ [(r, l)])" using assms(1) by (simp add: csu_new_def)
  have ok: "pqueue_ok (csu_constraints it)" "length (pqueue_list (csu_constraints it)) = 2"
    using jobs by (simp_all add: jobs_are_def)
  then have card: "PQueueCardinality (csu_constraints it) = 2" by (simp add: pqueue_list_def)
  obtain j1 j2 where j: "PQueueGetLastP (csu_constraints it) = Some (l, j1)" "PQueueGetLastP j1 = Some (r, j2)"
    using jobs_are_take [OF jobs] by blast
  define m where "m = (if lf then SubstComputeMgu l r s (\<lambda>_. None) else SubstComputeMgu r l s (\<lambda>_. None))"
  obtain res s1 b1 where r: "m = Some (res, s1, b1)" "unified tb bks {(l, r)} res b1 s1"
  proof (cases lf)
    case True
    then show ?thesis using SubstComputeMgu_unifier [OF assms(2-4)] that unfolding m_def by auto
  next
    case False
    then show ?thesis
      using SubstComputeMgu_unifier [OF sides_in_sym [OF assms(2)] assms(3,4)] that unfolding m_def unified_sym [of tb bks l r] by auto
  qed
  define it' where "it' = it\<lparr>csu_constraints := j2, backtrack_info := PStackReset (backtrack_info it),
    current_state := RIGID_PROCESSED_TAG, unifiers_returned := 1, csu_steps := 0\<rparr>"
  have it': "csu_spent it'" using assms(1) by (simp add: csu_spent_def csu_new_def it'_def PStackReset_def PStackEmpty_def)
  obtain n s2 where bk: "SubstBacktrackToPos s1 b1 0 = Some (n, s2, \<lambda>_. None)" "pstack_ok s2" "pstack_list s2 = []"
    using backtrack_none [OF unified_trail [OF r(2)]] by blast
  have run: "NextCSUElement lf mu it s (\<lambda>_. None) = (if res then Some (True, it', s1, b1) else Some (False, it', s2, \<lambda>_. None))"
    using assms(1) card j r(1) bk(1) unfolding m_def NextCSUElement_def backtrack_iter_def
    by (auto simp: csu_new_def it'_def Let_def INIT_TAG_def)
  show ?thesis
  proof (cases res)
    case True
    then show ?thesis using run it' r(2) by (intro exI [of _ True] exI [of _ it'] exI [of _ s1] exI [of _ b1]) simp
  next
    case False
    then show ?thesis
      using run it' bk r(2)
      by (intro exI [of _ False] exI [of _ it'] exI [of _ s2] exI [of _ "\<lambda>_. None"]) (simp add: unified_def)
  qed
qed

lemma NextCSUElement_spent:
  assumes "csu_spent it" and "trail (\<lambda>_. None) [] b s"
  shows "\<exists>it' s'. NextCSUElement lf mu it s b = Some (False, it', s', \<lambda>_. None) \<and> init_pos it' = 0 \<and>
    pstack_ok s' \<and> pstack_list s' = []"
proof -
  obtain n s2 where bk: "SubstBacktrackToPos s b 0 = Some (n, s2, \<lambda>_. None)" "pstack_ok s2" "pstack_list s2 = []"
    using backtrack_none [OF assms(2)] by blast
  then show ?thesis
    using assms(1) by (simp add: NextCSUElement_def backtrack_iter_def csu_spent_def INIT_TAG_def RIGID_PROCESSED_TAG_def Let_def)
qed

lemma CSUIterDestroy_ok:
  assumes "init_pos it = 0" and "trail (\<lambda>_. None) [] b s"
  shows "\<exists>s'. CSUIterDestroy it s b = Some (s', \<lambda>_. None) \<and> pstack_ok s' \<and> pstack_list s' = []"
  using backtrack_none [OF assms(2)] assms(1) by (auto simp: CSUIterDestroy_def)

lemma SubstDelete_ok:
  assumes "trail (\<lambda>_. None) [] (is_binds st) s"
  shows "SubstDelete s st = Some (st\<lparr>is_binds := \<lambda>_. None\<rparr>)"
proof -
  have t: "pstack_ok s" "\<forall>v \<in> set (pstack_list s). TermIsFreeVar v" "\<forall>v. v \<notin> set (pstack_list s) \<longrightarrow> is_binds st v = None"
    using assms by (auto simp: trail_def)
  have "(\<lambda>v. if v \<in> set (pstack_list s) then None else is_binds st v) = (\<lambda>_. None)" using t(3) by auto
  then show ?thesis using backtrack_all_ok [OF t(1,2), of "is_binds st" 0] by (auto simp: SubstDelete_def SubstBacktrack_def)
qed

text \<open>A position in a clause of the bank, and what the state is while clauses are made.\<close>

definition pos_in :: "TB \<Rightarrow> banks \<Rightarrow> ClausePos \<Rightarrow> Clause \<Rightarrow> nat \<Rightarrow> bool" where
  "pos_in tb bks pos c i \<longleftrightarrow> cp_clause pos = Some c \<and> cp_literal pos = Some i \<and> i < length (literals c) \<and>
     (\<forall>e \<in> set (literals c). lit_in tb bks e)"

definition st_run :: "TB \<Rightarrow> nat \<Rightarrow> inf_state \<Rightarrow> Term_p pstack \<Rightarrow> inf_state \<Rightarrow> bool" where
  "st_run tb a st s st' \<longleftrightarrow> inf_ok tb a (is_banks st') \<and> trail (\<lambda>_. None) [] (is_binds st') s \<and>
     (\<forall>v \<in> is_special st'. var_bank v = a) \<and> st_le st st'"

lemma pos_inD:
  assumes "pos_in tb bks pos c i"
  shows "cp_clause pos = Some c" "cp_literal pos = Some i" "i < length (literals c)" "\<forall>e \<in> set (literals c). lit_in tb bks e"
    "cp_lit pos = Some (literals c ! i)" "lit_in tb bks (literals c ! i)"
  using assms by (auto simp: pos_in_def cp_lit_def)

lemma pos_in_mono: "pos_in tb (is_banks st) pos c i \<Longrightarrow> st_le st st' \<Longrightarrow> pos_in tb (is_banks st') pos c i"
  using st_le_lit unfolding pos_in_def by blast

lemma reset_bank_ok:
  assumes "st_ok tb a st"
  shows "\<exists>st'. reset_bank a st = Some st' \<and> st_ok tb a st' \<and> st_le st st' \<and> snd (is_banks st') = snd (is_banks st)"
proof -
  have inf: "inf_ok tb a (is_banks st)" using assms by (simp add: st_ok_def)
  obtain v where v: "VarBankResetVCounts (fst (is_banks st) ! a) = Some v"
    "inf_ok tb a ((fst (is_banks st))[a := v], snd (is_banks st))" "vbs_ext (fst (is_banks st)) ((fst (is_banks st))[a := v])"
    using reset_ok [OF inf] by blast
  then show ?thesis
    using assms inf_okD(5) [OF inf] by (simp add: reset_bank_def vb_at_def st_ok_def st_le_def)
qed

lemma st_run_delete: "st_run tb a st s st' \<Longrightarrow> SubstDelete s st' = Some (st'\<lparr>is_binds := \<lambda>_. None\<rparr>) \<and>
    st_ok tb a (st'\<lparr>is_binds := \<lambda>_. None\<rparr>) \<and> st_le st (st'\<lparr>is_binds := \<lambda>_. None\<rparr>)"
  using SubstDelete_ok [of st' s] by (simp add: st_run_def st_ok_def st_le_def)

lemma st_ok_run: "st_ok tb a st \<Longrightarrow> pstack_ok s \<Longrightarrow> pstack_list s = [] \<Longrightarrow> st_run tb a st s st"
  using trail_refl [of s "\<lambda>_. None"] by (simp add: st_run_def st_ok_def)

lemma st_run_none:
  "st_run tb a st s st' \<Longrightarrow> pstack_ok s' \<Longrightarrow> pstack_list s' = [] \<Longrightarrow> st_run tb a st s' (st'\<lparr>is_binds := \<lambda>_. None\<rparr>)"
  using trail_refl [of s' "\<lambda>_. None"] by (simp add: st_run_def st_le_def)

text \<open>The same from a state without bindings, after unification.\<close>

lemma norm_copy_run:
  assumes ok: "st_ok tb a st" and L: "\<forall>e \<in> set L. lit_in tb (is_banks st) e" and u: "unified tb (is_banks st) E True b s"
  shows "\<exists>s' st1 M st2 cl st'. norm_literals L x s a (st\<lparr>is_binds := b\<rparr>) = Some (s', st1) \<and> copy_literals L x st1 = Some (M, st2) \<and>
    EqnListLambdaNormalize M = M \<and>
    alloc_clause (snd (EqnListRemoveDuplicates (snd (is_banks st2)) (snd (EqnListRemoveResolved M)))) st2 = (cl, st') \<and>
    conclusion tb b (list_except L x) cl \<and> (\<forall>e \<in> set (literals cl). lit_in tb (is_banks st') e) \<and> st_run tb a st s' st'"
proof -
  have U: "binds_bank tb (is_banks st) b" "trail (\<lambda>_. None) [] b s" using u by (simp_all add: unified_def)
  let ?st = "st\<lparr>is_binds := b\<rparr>"
  have I: "inf_ok tb a (is_banks ?st)" "binds_bank tb (is_banks ?st) (is_binds ?st)"
    "\<forall>v \<in> is_special ?st. var_bank v = a" "trail (\<lambda>_. None) [] (is_binds ?st) s" "\<forall>e \<in> set L. lit_in tb (is_banks ?st) e"
    using ok U L by (simp_all add: st_ok_def)
  obtain s' st1 M st2 cl st' where B: "norm_literals L x s a ?st = Some (s', st1)" "copy_literals L x st1 = Some (M, st2)"
    "EqnListLambdaNormalize M = M"
    "alloc_clause (snd (EqnListRemoveDuplicates (snd (is_banks st2)) (snd (EqnListRemoveResolved M)))) st2 = (cl, st')"
    "conclusion tb b (list_except L x) cl" "copying tb a ?st st'" "trail (\<lambda>_. None) [] (is_binds st') s'"
    "\<forall>e \<in> set (literals cl). lit_in tb (is_banks st') e"
    using norm_copy_ok [OF I, of x] by auto
  have "st_le st st'" using copying_le(1) [OF B(6)] by (simp add: st_le_def)
  then have "st_run tb a st s' st'" using copying_le(2,3) [OF B(6)] B(7) by (auto simp: st_run_def)
  then show ?thesis using B(1-5,8) by blast
qed

section \<open>Soundness\<close>

text \<open>The value of instances, and the truth of the clause that a list of literals is simplified to.\<close>

lemma instance_value:
  assumes b: "subst_wf (tb_sig tb) b" and r: "renaming_on (tb_sig tb) \<rho> V" and I: "interp_ok tb I" and val: "value_ok tb I \<alpha>"
  defines "\<beta> \<equiv> \<lambda>v. eval I \<alpha> (inst \<rho> (sigma b v))"
  shows "value_ok tb I \<beta>" and "eval I \<alpha> (inst (\<lambda>v. inst \<rho> (sigma b v)) t) = eval I \<beta> t"
    and "wf_term (tb_sig tb) t \<Longrightarrow> wf_term (tb_sig tb) u \<Longrightarrow> sigma b t = sigma b u \<Longrightarrow> eval I \<beta> t = eval I \<beta> u"
proof -
  let ?\<theta> = "\<lambda>v. inst \<rho> (sigma b v)"
  have rt: "subst_typed (tb_sig tb) \<rho>" using r by (simp add: renaming_on_def subst_typed_def)
  have "subst_typed (tb_sig tb) ?\<theta>"
    using sigma_typed [OF b] inst_typed [OF rt] unfolding subst_typed_def by metis
  then show "value_ok tb I \<beta>" unfolding \<beta>_def by (rule value_ok_inst [OF I val])
  show eval: "eval I \<alpha> (inst ?\<theta> t) = eval I \<beta> t" for t unfolding \<beta>_def by (rule eval_inst)
  show "eval I \<beta> t = eval I \<beta> u" if "wf_term (tb_sig tb) t" "wf_term (tb_sig tb) u" "sigma b t = sigma b u"
    using sigma_inst [OF b that(1)] sigma_inst [OF b that(2)] that(3) unfolding eval [symmetric]
    by (metis inst_comp)
qed

lemma simplified_clause_true:
  assumes "interp_ok tb I" and "\<forall>e \<in> set lits. eqn_bank e = tb"
  shows "clause_true I \<alpha> (literals (fst (ClauseAlloc n (simplified lits)))) \<longleftrightarrow> clause_true I \<alpha> lits"
  using simplified_true [OF assms(1), of lits \<alpha>] assms(2) unfolding clause_true_def ClauseAlloc_set by blast

lemma conclusion_true:
  assumes I: "interp_ok tb I" and b: "subst_wf (tb_sig tb) b"
    and cl: "conclusion tb b lits cl" and bank: "\<forall>e \<in> set lits. eqn_bank e = tb" and val: "value_ok tb I \<alpha>"
  shows "\<exists>\<beta>. value_ok tb I \<beta> \<and> (clause_true I \<alpha> (literals cl) \<longleftrightarrow> clause_true I \<beta> lits) \<and>
    (\<forall>t u. wf_term (tb_sig tb) t \<longrightarrow> wf_term (tb_sig tb) u \<longrightarrow> sigma b t = sigma b u \<longrightarrow> eval I \<beta> t = eval I \<beta> u)"
proof -
  obtain \<rho> n where c: "renaming_on (tb_sig tb) \<rho> (lit_vars b lits)" "cl = inst_clause n (\<lambda>v. inst \<rho> (sigma b v)) lits"
    using cl unfolding conclusion_def by blast
  note V = instance_value [OF b c(1) I val]
  have "clause_true I \<alpha> (literals cl) \<longleftrightarrow> clause_true I \<alpha> (map (inst_lit (\<lambda>v. inst \<rho> (sigma b v))) lits)"
    unfolding c(2) inst_clause_def by (rule simplified_clause_true [OF I]) (use bank in auto)
  then have "clause_true I \<alpha> (literals cl) \<longleftrightarrow> clause_true I (\<lambda>v. eval I \<alpha> (inst \<rho> (sigma b v))) lits"
    by (auto simp: clause_true_def lit_true_inst)
  then show ?thesis using V(1,3) by blast
qed

lemma list_except_mem: "e \<in> set lits \<Longrightarrow> i < length lits \<Longrightarrow> e \<noteq> lits ! i \<Longrightarrow> e \<in> set (list_except lits (Some i))"
  using id_take_nth_drop [of i lits] unfolding list_except_Some by (metis Un_iff set_ConsD set_append)

section \<open>A sample state\<close>

text \<open>A bank with its bank of fresh variables, two variables and two shared terms over them.\<close>

definition res_sig :: Sig where
  "res_sig = sample_sig\<lparr>sg_pred := \<lambda>f. f = 1 \<or> f = 2 \<or> f = 24\<rparr>"

definition res_tb :: TB where
  "res_tb = \<lparr>true_term = TermCell 1 True 2 [], false_term = TermCell 2 True 2 [], tb_sig = res_sig, tb_vars = 0\<rparr>"

definition res_lit :: "bool \<Rightarrow> Term_p \<Rightarrow> Term_p \<Rightarrow> Eqn" where
  "res_lit pos s t = \<lparr>eqn_properties = (if pos then 9 else 8), eqn_pos = 0, lterm = s, rterm = t, eqn_bank = res_tb\<rparr>"

lemma res_tb_ok: "tb_ok res_tb"
  by (auto simp: tb_ok_def res_tb_def res_sig_def sample_sig_def SIG_TRUE_CODE_def Let_def)

lemma sample_banks:
  "\<exists>vbs. vbs_ok vbs \<and> length vbs = 2 \<and> shadow (vbs ! 0) = Some 1 \<and> shadow (vbs ! 1) = Some 0"
proof -
  obtain v where v: "VarBankAlloc [] 1 = Some (0, [v])" "vbs_ok [v]" "vb_vars v = (\<lambda>_. None)" "vb_stack v = (\<lambda>_. [])"
    "vb_count v = (\<lambda>_. 0)"
    using VarBankAlloc_ok [of "[]" 1] by (auto simp: MAX_BANKS_def)
  obtain w where w: "VarBankAlloc [v] 1 = Some (1, [v, w])" "vbs_ok [v, w]" "vb_vars w = (\<lambda>_. None)" "vb_stack w = (\<lambda>_. [])"
    "vb_count w = (\<lambda>_. 0)"
    using VarBankAlloc_ok [OF v(2), of 1] by (auto simp: MAX_BANKS_def)
  have fc: "fresh_count v = 0" "fresh_count w = 0"
    using v(1) w(1) by (auto simp: VarBankAlloc_def bind_eq_Some_conv)
  let ?v = "v\<lparr>shadow := Some 1\<rparr>" and ?w = "w\<lparr>shadow := Some 0\<rparr>"
  have rep: "vb_rep v" "vb_rep w" using vbs_core_at(1) [OF vbs_ok_core [OF w(2)]] vb_ok_rep
    by (metis One_nat_def length_Cons less_Suc_eq list.size(3) nth_Cons_0 nth_Cons_Suc)+
  have emp: "vb_vars (x\<lparr>shadow := s\<rparr>) = vb_vars x" "vb_stack (x\<lparr>shadow := s\<rparr>) = vb_stack x"
    "vb_count (x\<lparr>shadow := s\<rparr>) = vb_count x" "vb_rep (x\<lparr>shadow := s\<rparr>) = vb_rep x" for x s
    by (simp_all add: vb_vars_def vb_stack_def vb_count_def vb_rep_def fun_eq_iff)
  have inv: "VarBanks.vb_ok a ?v" "VarBanks.vb_ok a ?w" "vb_fresh ?v" "vb_fresh ?w" for a
    using rep fc v(3-5) w(3-5) by (simp_all add: VarBanks.vb_ok_def vb_inv_def vb_fresh_def emp)
  have two: "a = 0 \<or> a = 1" if "a < length [?v, ?w]" for a :: nat using that by auto
  have "vbs_core [?v, ?w]"
  proof (rule vbs_coreI)
    fix a assume "a < length [?v, ?w]"
    then show "VarBanks.vb_ok a ([?v, ?w] ! a)" using two inv by fastforce
  next
    fix a a' assume a: "a < length [?v, ?w]" "shadow ([?v, ?w] ! a) = Some a'"
    show "a' < length [?v, ?w] \<and> a' \<noteq> a \<and> shadow ([?v, ?w] ! a') = Some a \<and>
        (\<forall>i. map_option t_type (vb_vars ([?v, ?w] ! a') i) = map_option t_type (vb_vars ([?v, ?w] ! a) i))"
      using two [OF a(1)] a(2) v(3) w(3) by (auto simp: emp)
  qed (simp add: MAX_BANKS_def)
  moreover have "vb_fresh ([?v, ?w] ! a) \<and> (\<forall>a'. shadow ([?v, ?w] ! a) = Some a' \<longrightarrow> fresh_count ([?v, ?w] ! a') = fresh_count ([?v, ?w] ! a))"
    if "a < length [?v, ?w]" for a using two [OF that] inv(3,4) fc by auto
  ultimately have "vbs_ok [?v, ?w]" unfolding vbs_ok_def by blast
  then show ?thesis by (intro exI [of _ "[?v, ?w]"]) simp
qed

lemma sample_state:
  "\<exists>st x y. st_ok res_tb 1 st \<and> x \<noteq> y \<and> TermIsFreeVar x \<and> TermIsFreeVar y \<and>
     lit_in res_tb (is_banks st) (res_lit False x y) \<and> lit_in res_tb (is_banks st) (res_lit True (sample_g x) (sample_g y)) \<and>
     lit_in res_tb (is_banks st) (res_lit True x y) \<and> t_type x = 1 \<and> t_type y = 1"
proof -
  obtain vbs where b: "vbs_ok vbs" "length vbs = 2" "shadow (vbs ! 0) = Some 1" "shadow (vbs ! 1) = Some 0"
    using sample_banks by blast
  obtain x vbs1 where x: "vbs_ok vbs1" "vbs_ext vbs vbs1" "wf_term res_sig x" "TermIsFreeVar x" "t_type x = 1"
    "var_bank x = 0" "in_use (vbs1 ! 0) = insert x (in_use (vbs ! 0))"
    using VarBankGetFreshVar_in_use [OF b(1), of 0 1 res_sig] b(2) by auto
  have l1: "length vbs1 = 2" "shadow (vbs1 ! 1) = Some 0" using vbs_extD(1,4) [OF x(2)] b by simp_all
  obtain y vbs2 where y: "vbs_ok vbs2" "vbs_ext vbs1 vbs2" "wf_term res_sig y" "TermIsFreeVar y" "t_type y = 1"
    "var_bank y = 0" "y \<notin> in_use (vbs1 ! 0)" "in_use (vbs2 ! 0) = insert y (in_use (vbs1 ! 0))"
    using VarBankGetFreshVar_in_use [OF x(1), of 0 1 res_sig] l1(1) by auto
  have l2: "length vbs2 = 2" "shadow (vbs2 ! 1) = Some 0" "shadow (vbs2 ! 0) = Some 1"
    using vbs_extD(1,4) [OF y(2)] vbs_extD(4) [OF x(2)] l1 b by simp_all
  have kn: "known 0 vbs2 z" if z: "z \<in> {x, y}" for z
  proof -
    have "z \<in> in_use (vbs2 ! 0)" using z x(7) y(8) by blast
    moreover have bank: "var_bank z = 0" using z x(6) y(6) by auto
    ultimately obtain ty i where i: "vb_vars (vbs2 ! 0) i = Some z"
      using vbs_core_at(1) [OF vbs_ok_core [OF y(1)], of 0] l2(1)
      unfolding VarBanks.vb_ok_def vb_inv_def in_use_def by (fastforce dest: in_set_takeD)
    then have c: "0 < i" "z = var_cell 0 (- int i) (t_type z)"
      using vbs_core_at(1) [OF vbs_ok_core [OF y(1)], of 0] l2(1) unfolding VarBanks.vb_ok_def vb_inv_def by auto
    have "var_code z = - int i" using var_cell_simps(3) [of 0 "- int i" "t_type z"] c(2) by (simp add: MAX_BANKS_def)
    then show ?thesis using i bank c(1) l2(1) by (simp add: known_def Let_def)
  qed
  have e: "store_ok \<lparr>in_count = 0, term_store = \<lambda>_. None\<rparr>" by (simp add: store_ok_def)
  have args: "t_args (sample_g z) = [z]" "\<not> TermIsFreeVar (sample_g z)" for z by (simp_all add: sample_g_def)
  obtain s1 where s1: "store_ok s1" "TermIsShared s1 (sample_g x)"
    using tb_termtop_insert_ok [OF e, of "sample_g x"] args [of x] x(4) by (auto simp: TermIsShared_def)
  obtain s2 where s2: "store_ok s2" "store_le s1 s2" "TermIsShared s2 (sample_g y)"
    using tb_termtop_insert_ok [OF s1(1), of "sample_g y"] args [of y] y(4) by (auto simp: TermIsShared_def)
  define st where "st = \<lparr>is_banks = (vbs2, s2), is_binds = (\<lambda>_. None), is_special = {}, is_counter = 0\<rparr>"
  have ok: "st_ok res_tb 1 st"
    using res_tb_ok y(1) s2(1) l2 by (simp add: st_ok_def inf_ok_def st_def res_tb_def)
  have sh: "TermIsShared s2 (sample_g x)" using store_le_shared [OF s2(2) s1(2)] .
  have vars: "term_vars z = {z}" "term_vars (sample_g z) = {z}" if "TermIsFreeVar z" for z
    using that by (simp_all add: wf_term_var_vars sample_g_def)
  have inb: "in_bank res_tb (is_banks st) z" "in_bank res_tb (is_banks st) (sample_g z)"
    if "z \<in> {x, y}" for z
  proof -
    have z: "wf_term res_sig z" "TermIsFreeVar z" "t_type z = 1" "var_bank z = 0" "known 0 vbs2 z" "TermIsShared s2 (sample_g z)"
      using that x(3-6) y(3-6) kn sh s2(3) by auto
    have "t_type z \<noteq> t_type (true_term res_tb)" "wf_term res_sig (sample_g z)"
      using z(1,3) by (simp_all add: res_tb_def sample_g_def res_sig_def sample_sig_def)
    then show "in_bank res_tb (is_banks st) z" "in_bank res_tb (is_banks st) (sample_g z)"
      using z vars [OF z(2)] by (simp_all add: in_bank_def sorted_term_def st_def res_tb_def TermIsShared_def)
  qed
  have lit: "lit_in res_tb (is_banks st) (res_lit pos l r)"
    if "in_bank res_tb (is_banks st) l" "in_bank res_tb (is_banks st) r" "t_type l = 1" "t_type r = 1" for pos l r
    using that in_bankD(1) [OF that(1)] in_bankD(1) [OF that(2)]
    by (auto simp: lit_in_def lit_sorted_def lit_normal_def equ_ok_def res_lit_def res_tb_def EqnQueryProp_def EP_defs)
  have "t_type (sample_g x) = 1" "t_type (sample_g y) = 1" by (simp_all add: sample_g_def)
  moreover have "x \<noteq> y" using x(7) y(7) by blast
  ultimately show ?thesis using ok x(3,4,5) y(3,4,5) lit inb by (intro exI [of _ st] exI [of _ x] exI [of _ y]) simp
qed

definition sample_pos :: "Clause \<Rightarrow> ClausePos" where
  "sample_pos c = \<lparr>cp_clause = Some c, cp_literal = Some 0, cp_side = LeftSide, cp_pos = PStackAlloc\<rparr>"

lemma sample_position:
  "\<exists>st c x y. st_ok res_tb 1 st \<and> literals c = [res_lit False x y, res_lit True (sample_g x) (sample_g y)] \<and> x \<noteq> y \<and>
     pos_in res_tb (is_banks st) (sample_pos c) c 0 \<and> \<not> EqnIsPositive (literals c ! 0) \<and>
     unifiable res_tb {(lterm (literals c ! 0), rterm (literals c ! 0))}"
proof -
  obtain st x y where s: "st_ok res_tb 1 st" "x \<noteq> y" "TermIsFreeVar x" "TermIsFreeVar y"
    "lit_in res_tb (is_banks st) (res_lit False x y)" "lit_in res_tb (is_banks st) (res_lit True (sample_g x) (sample_g y))"
    using sample_state by blast
  define c where "c = (EmptyClauseAlloc 1)\<lparr>literals := [res_lit False x y, res_lit True (sample_g x) (sample_g y)]\<rparr>"
  have c: "literals c = [res_lit False x y, res_lit True (sample_g x) (sample_g y)]" by (simp add: c_def)
  have "wf_term (tb_sig res_tb) x" "wf_term (tb_sig res_tb) y" "t_type x = t_type y"
    using s(5) by (auto simp: lit_in_def lit_sorted_def sorted_term_def res_lit_def)
  then have "subst_typed (tb_sig res_tb) (\<lambda>v. if v = x then y else v)" by (simp add: subst_typed_def)
  moreover have "inst (\<lambda>v. if v = x then y else v) x = inst (\<lambda>v. if v = x then y else v) y"
    using s(3,4) by (cases x; cases y) auto
  ultimately have "unifiable res_tb {(lterm (literals c ! 0), rterm (literals c ! 0))}"
    unfolding unifiable_def unifies_def c by (auto simp: res_lit_def)
  moreover have "\<not> EqnIsPositive (literals c ! 0)"
    by (simp add: c res_lit_def EqnIsPositive_def EqnQueryProp_def EPIsPositive_def)
  ultimately show ?thesis using s c by (intro exI [of _ st] exI [of _ c] exI [of _ x] exI [of _ y]) (simp add: pos_in_def sample_pos_def)
qed

end
