(* ===== verification/EqResolution.thy ===== *)
theory EqResolution
  imports InferenceSteps
begin

text \<open>
  Equality resolution (\<open>CLAUSES/ccl_eqnresolution.c\<close>): the resolvent of a clause upon a literal is the
  clause without it, under a renaming of the most general unifier, and it follows from the clause.
\<close>

section \<open>Equality resolution\<close>

definition build_resolvent ::
  "ClausePos \<Rightarrow> Term_p pstack \<Rightarrow> nat \<Rightarrow> inf_state \<Rightarrow> (Clause \<times> Term_p pstack \<times> inf_state) option" where
  "build_resolvent pos subst freshvars st =
     do { clause \<leftarrow> cp_clause pos;
          (subst, st) \<leftarrow> norm_literals (literals clause) (cp_literal pos) subst freshvars st;
          (new_literals, st) \<leftarrow> copy_literals (literals clause) (cp_literal pos) st;
          let new_literals = EqnListLambdaNormalize new_literals;
          let new_literals = snd (EqnListRemoveResolved new_literals);
          let new_literals = snd (EqnListRemoveDuplicates (snd (is_banks st)) new_literals);
          let (clause, st) = alloc_clause new_literals st;
          Some (clause, subst, st) }"

definition ClauseIsEmpty :: "Clause \<Rightarrow> bool" where
  "ClauseIsEmpty clause \<longleftrightarrow> ClauseLiteralNumber clause = 0"

partial_function (option) eqres_loop ::
  "bool \<Rightarrow> int \<Rightarrow> ClausePos \<Rightarrow> nat \<Rightarrow> CSUIterator \<Rightarrow> Term_p pstack \<Rightarrow> bool \<Rightarrow> Clause pstack \<Rightarrow> inf_state \<Rightarrow>
   (CSUIterator \<times> Term_p pstack \<times> bool \<times> Clause pstack \<times> inf_state) option" where [code]:
  "eqres_loop left_first max_unifiers pos freshvars iter subst subst_is_ho res_cls st =
     do { (r, iter, subst, b) \<leftarrow> NextCSUElement left_first max_unifiers iter subst (is_binds st);
          let st = st\<lparr>is_binds := b\<rparr>;
          if r
          then do { let subst_is_ho = (subst_is_ho \<or> SubstHasHOBinding subst);
                    (cl, subst, st) \<leftarrow> build_resolvent pos subst freshvars st;
                    res_cls \<leftarrow> push res_cls cl;
                    if ClauseIsEmpty cl then Some (iter, subst, subst_is_ho, res_cls, st)
                    else eqres_loop left_first max_unifiers pos freshvars iter subst subst_is_ho res_cls st }
          else Some (iter, subst, subst_is_ho, res_cls, st) }"

text \<open>With \<open>res_cls\<close> \<open>None\<close>, for \<open>NULL\<close>, the clause is returned, otherwise it is pushed.\<close>

definition ComputeEqRes ::
  "bool \<Rightarrow> int \<Rightarrow> ClausePos \<Rightarrow> nat \<Rightarrow> bool \<Rightarrow> Clause pstack option \<Rightarrow> inf_state \<Rightarrow>
   (Clause option \<times> bool \<times> Clause pstack option \<times> inf_state) option" where
  "ComputeEqRes left_first max_unifiers pos freshvars subst_is_ho res_cls st =
     do { lit \<leftarrow> cp_lit pos;
          c_assert (\<not> EqnIsPositive lit);
          let subst = SubstAlloc;
          st \<leftarrow> reset_bank freshvars st;
          (res, subst, subst_is_ho, res_cls, st) \<leftarrow>
            (case res_cls of
               Some cls \<Rightarrow>
                 do { unif_iter \<leftarrow> CSUIterInit (lterm lit) (rterm lit) subst;
                      (unif_iter, subst, subst_is_ho, cls, st) \<leftarrow>
                        eqres_loop left_first max_unifiers pos freshvars unif_iter subst subst_is_ho cls st;
                      (subst, b) \<leftarrow> CSUIterDestroy unif_iter subst (is_binds st);
                      Some (None, subst, subst_is_ho, Some cls, st\<lparr>is_binds := b\<rparr>) }
             | None \<Rightarrow>
                 do { (unifies, subst, b) \<leftarrow> SubstComputeMgu (lterm lit) (rterm lit) subst (is_binds st);
                      let st = st\<lparr>is_binds := b\<rparr>;
                      if unifies
                      then do { let subst_is_ho = SubstHasHOBinding subst;
                                (res, subst, st) \<leftarrow> build_resolvent pos subst freshvars st;
                                Some (Some res, subst, subst_is_ho, None, st) }
                      else Some (None, subst, subst_is_ho, None, st) });
          st \<leftarrow> SubstDelete subst st;
          Some (res, subst_is_ho, res_cls, st) }"

text \<open>The literals resolved upon; \<open>only_max\<close> is the global \<open>EqResOnMaximalLiteralsOnly\<close>.\<close>

definition eqres_literal :: "bool \<Rightarrow> Eqn \<Rightarrow> bool" where
  "eqres_literal only_max e \<longleftrightarrow> \<not> EqnIsPositive e \<and> (\<not> only_max \<or> EqnIsMaximal e)"

definition ClausePosFirstEqResLiteral :: "bool \<Rightarrow> Clause \<Rightarrow> ClausePos \<Rightarrow> ClausePos option" where
  "ClausePosFirstEqResLiteral only_max clause pos =
     find_literal (eqres_literal only_max)
       (pos\<lparr>cp_clause := Some clause, cp_literal := first_literal clause, cp_pos := PStackReset (cp_pos pos)\<rparr>)"

definition ClausePosNextEqResLiteral :: "bool \<Rightarrow> ClausePos \<Rightarrow> ClausePos option" where
  "ClausePosNextEqResLiteral only_max pos = do { pos \<leftarrow> cp_next pos; find_literal (eqres_literal only_max) pos }"

section \<open>Equality resolvents\<close>

text \<open>The clauses that resolving upon the literal \<open>i\<close> yields.\<close>

definition eq_resolvents :: "TB \<Rightarrow> Eqn list \<Rightarrow> nat \<Rightarrow> Clause list \<Rightarrow> bool" where
  "eq_resolvents tb lits i cls \<longleftrightarrow>
     (if unifiable tb {(lterm (lits ! i), rterm (lits ! i))}
      then \<exists>b cl. cls = [cl] \<and> unifier_of tb {(lterm (lits ! i), rterm (lits ! i))} b \<and>
             conclusion tb b (list_except lits (Some i)) cl
      else cls = [])"

lemma build_resolvent_run:
  assumes ok: "st_ok tb a st" and pos: "pos_in tb (is_banks st) pos c i"
    and u: "unified tb (is_banks st) {(lterm (literals c ! i), rterm (literals c ! i))} True b s"
  shows "\<exists>cl s' st'. build_resolvent pos s a (st\<lparr>is_binds := b\<rparr>) = Some (cl, s', st') \<and>
    eq_resolvents tb (literals c) i [cl] \<and> (\<forall>e \<in> set (literals cl). lit_in tb (is_banks st') e) \<and> st_run tb a st s' st'"
proof -
  have U: "unifiable tb {(lterm (literals c ! i), rterm (literals c ! i))}"
    "unifier_of tb {(lterm (literals c ! i), rterm (literals c ! i))} b" using u by (simp_all add: unified_def)
  show ?thesis
    using norm_copy_run [OF ok pos_inD(4) [OF pos] u, of "Some i"] U pos_inD(1,2) [OF pos]
    by (force simp: build_resolvent_def eq_resolvents_def)
qed

lemma pos_sides:
  assumes "st_ok tb a st" and "pos_in tb (is_banks st) pos c i"
  shows "sides_in tb (is_banks st) (lterm (literals c ! i)) (rterm (literals c ! i))"
  using lit_sides [OF _ pos_inD(6) [OF assms(2)]] assms(1) unfolding st_ok_def by blast

lemma eqres_loop_ok:
  assumes ok: "st_ok tb a st" and pos: "pos_in tb (is_banks st) pos c i"
    and it: "csu_new (lterm (literals c ! i)) (rterm (literals c ! i)) it" and s: "pstack_ok s" "pstack_list s = []"
    and cls: "pstack_ok cls"
  shows "\<exists>it' s' cls' st' new. eqres_loop lf mu pos a it s ho cls st = Some (it', s', ho, cls', st') \<and> init_pos it' = 0 \<and>
    st_run tb a st s' st' \<and> pstack_ok cls' \<and> pstack_list cls' = pstack_list cls @ new \<and>
    eq_resolvents tb (literals c) i new \<and> (\<forall>cl \<in> set new. \<forall>e \<in> set (literals cl). lit_in tb (is_banks st') e)"
proof -
  have none: "is_binds st = (\<lambda>_. None)" using ok by (simp add: st_ok_def)
  obtain res it1 s1 b1 where n: "NextCSUElement lf mu it s (is_binds st) = Some (res, it1, s1, b1)" "csu_spent it1"
    "unified tb (is_banks st) {(lterm (literals c ! i), rterm (literals c ! i))} res b1 s1"
    using NextCSUElement_first [OF it pos_sides [OF ok pos] s] none by metis
  note loop = eqres_loop.simps [of lf mu pos a it s ho cls st]
  show ?thesis
  proof (cases res)
    case False
    then have u: "b1 = (\<lambda>_. None)" "pstack_ok s1" "pstack_list s1 = []"
      "\<not> unifiable tb {(lterm (literals c ! i), rterm (literals c ! i))}" using n(3) by (simp_all add: unified_def)
    have "st\<lparr>is_binds := b1\<rparr> = st" using none u(1) by simp
    then have "eqres_loop lf mu pos a it s ho cls st = Some (it1, s1, ho, cls, st)"
      using n(1) False by (simp add: loop)
    moreover have "eq_resolvents tb (literals c) i []" using u(4) by (simp add: eq_resolvents_def)
    moreover have "init_pos it1 = 0" using n(2) by (simp add: csu_spent_def)
    ultimately show ?thesis using st_ok_run [OF ok u(2,3)] cls by (intro exI [of _ "[]"] exI) auto
  next
    case True
    then have n3: "unified tb (is_banks st) {(lterm (literals c ! i), rterm (literals c ! i))} True b1 s1" using n(3) by simp
    obtain cl s2 st2 where b: "build_resolvent pos s1 a (st\<lparr>is_binds := b1\<rparr>) = Some (cl, s2, st2)"
      "eq_resolvents tb (literals c) i [cl]" "\<forall>e \<in> set (literals cl). lit_in tb (is_banks st2) e" "st_run tb a st s2 st2"
      using build_resolvent_run [OF ok pos n3] by blast
    obtain cls' where c: "push cls cl = Some cls'" "pstack_ok cls'" "pstack_list cls' = pstack_list cls @ [cl]"
      using push_ok [OF cls] by blast
    have tr: "trail (\<lambda>_. None) [] (is_binds st2) s2" using b(4) by (simp add: st_run_def)
    obtain it3 s3 where n4: "NextCSUElement lf mu it1 s2 (is_binds st2) = Some (False, it3, s3, \<lambda>_. None)" "init_pos it3 = 0"
      "pstack_ok s3" "pstack_list s3 = []" using NextCSUElement_spent [OF n(2) tr] by blast
    have second: "eqres_loop lf mu pos a it1 s2 ho cls' st2 = Some (it3, s3, ho, cls', st2\<lparr>is_binds := \<lambda>_. None\<rparr>)"
      using n4(1) by (subst eqres_loop.simps) simp
    show ?thesis
    proof (cases "ClauseIsEmpty cl")
      case e: True
      have "eqres_loop lf mu pos a it s ho cls st = Some (it1, s2, ho, cls', st2)"
        using n(1) True b(1) c(1) e by (simp add: loop SubstHasHOBinding_def)
      moreover have "init_pos it1 = 0" using n(2) by (simp add: csu_spent_def)
      ultimately show ?thesis
        using b c by (intro exI [of _ it1] exI [of _ s2] exI [of _ cls'] exI [of _ st2] exI [of _ "[cl]"]) simp
    next
      case ne: False
      let ?st = "st2\<lparr>is_binds := \<lambda>_. None\<rparr>"
      have "eqres_loop lf mu pos a it s ho cls st = Some (it3, s3, ho, cls', ?st)"
        using n(1) True b(1) c(1) ne second by (simp add: loop SubstHasHOBinding_def)
      then show ?thesis
        using b c n4 st_run_none [OF b(4) n4(3,4)]
        by (intro exI [of _ it3] exI [of _ s3] exI [of _ cls'] exI [of _ ?st] exI [of _ "[cl]"]) simp
    qed
  qed
qed

lemma ComputeEqRes_ok:
  assumes ok: "st_ok tb a st" and pos: "pos_in tb (is_banks st) pos c i" and neg: "\<not> EqnIsPositive (literals c ! i)"
    and cls: "\<forall>cls. res_cls = Some cls \<longrightarrow> pstack_ok cls"
  shows "\<exists>res ho res_cls' st' new. ComputeEqRes lf mu pos a ho0 res_cls st = Some (res, ho, res_cls', st') \<and>
    st_ok tb a st' \<and> st_le st st' \<and> eq_resolvents tb (literals c) i new \<and>
    (\<forall>cl \<in> set new. \<forall>e \<in> set (literals cl). lit_in tb (is_banks st') e) \<and>
    (case res_cls of None \<Rightarrow> res_cls' = None \<and> new = (case res of None \<Rightarrow> [] | Some cl \<Rightarrow> [cl])
     | Some cls \<Rightarrow> res = None \<and> (\<exists>cls'. res_cls' = Some cls' \<and> pstack_ok cls' \<and> pstack_list cls' = pstack_list cls @ new))"
proof -
  obtain st0 where r: "reset_bank a st = Some st0" "st_ok tb a st0" "st_le st st0" using reset_bank_ok [OF ok] by blast
  note P = pos_inD [OF pos] and pos0 = pos_in_mono [OF pos r(3)]
  let ?l = "lterm (literals c ! i)" and ?r = "rterm (literals c ! i)"
  have s: "pstack_ok SubstAlloc" "pstack_list SubstAlloc = []" "PStackGetSP SubstAlloc = 0"
    by (simp_all add: SubstAlloc_def) (simp add: PStackGetSP_def PStackAlloc_def)
  show ?thesis
  proof (cases res_cls)
    case (Some cls)
    obtain it where it: "CSUIterInit ?l ?r SubstAlloc = Some it" "csu_new ?l ?r it" using CSUIterInit_new [OF s(3)] by blast
    obtain it1 s1 cls1 st1 new where L: "eqres_loop lf mu pos a it SubstAlloc ho0 cls st0 = Some (it1, s1, ho0, cls1, st1)"
      "init_pos it1 = 0" "st_run tb a st0 s1 st1" "pstack_ok cls1" "pstack_list cls1 = pstack_list cls @ new"
      "eq_resolvents tb (literals c) i new" "\<forall>cl \<in> set new. \<forall>e \<in> set (literals cl). lit_in tb (is_banks st1) e"
      using eqres_loop_ok [OF r(2) pos0 it(2) s(1,2), of cls] assms(4) Some by blast
    have tr: "trail (\<lambda>_. None) [] (is_binds st1) s1" using L(3) by (simp add: st_run_def)
    obtain s2 where d: "CSUIterDestroy it1 s1 (is_binds st1) = Some (s2, \<lambda>_. None)" "pstack_ok s2" "pstack_list s2 = []"
      using CSUIterDestroy_ok [OF L(2) tr] by blast
    define st2 where "st2 = st1\<lparr>is_binds := \<lambda>_. None\<rparr>"
    have D: "SubstDelete s2 st2 = Some st2" "st_ok tb a st2" "st_le st0 st2" "is_banks st2 = is_banks st1"
      using st_run_delete [OF st_run_none [OF L(3) d(2,3)]] by (simp_all add: st2_def)
    have "ComputeEqRes lf mu pos a ho0 res_cls st = Some (None, ho0, Some cls1, st2)"
      using P(5) neg r(1) Some it(1) L(1) d(1) D(1) by (simp add: ComputeEqRes_def Let_def flip: st2_def)
    then show ?thesis using D st_le_trans [OF r(3)] L(4-7) Some by auto
  next
    case None
    have nb: "is_binds st0 = (\<lambda>_. None)" using r(2) by (simp add: st_ok_def)
    obtain res s1 b1 where m: "SubstComputeMgu ?l ?r SubstAlloc (is_binds st0) = Some (res, s1, b1)"
      "unified tb (is_banks st0) {(?l, ?r)} res b1 s1"
      using SubstComputeMgu_unifier [OF pos_sides [OF r(2) pos0] s(1,2)] nb by metis
    show ?thesis
    proof (cases res)
      case False
      then have u: "b1 = (\<lambda>_. None)" "pstack_ok s1" "pstack_list s1 = []" "\<not> unifiable tb {(?l, ?r)}"
        using m(2) by (simp_all add: unified_def)
      have "st0\<lparr>is_binds := b1\<rparr> = st0" using nb u(1) by simp
      moreover have "SubstDelete s1 st0 = Some st0" using st_run_delete [OF st_ok_run [OF r(2) u(2,3)]] nb by simp
      ultimately have "ComputeEqRes lf mu pos a ho0 res_cls st = Some (None, ho0, None, st0)"
        using P(5) neg r(1) None m(1) False by (simp add: ComputeEqRes_def Let_def)
      moreover have "eq_resolvents tb (literals c) i []" using u(4) by (simp add: eq_resolvents_def)
      ultimately show ?thesis using r(2,3) None by auto
    next
      case True
      then have m2: "unified tb (is_banks st0) {(?l, ?r)} True b1 s1" using m(2) by simp
      obtain cl s2 st2 where b: "build_resolvent pos s1 a (st0\<lparr>is_binds := b1\<rparr>) = Some (cl, s2, st2)"
        "eq_resolvents tb (literals c) i [cl]" "\<forall>e \<in> set (literals cl). lit_in tb (is_banks st2) e" "st_run tb a st0 s2 st2"
        using build_resolvent_run [OF r(2) pos0 m2] by blast
      define st3 where "st3 = st2\<lparr>is_binds := \<lambda>_. None\<rparr>"
      have D: "SubstDelete s2 st2 = Some st3" "st_ok tb a st3" "st_le st0 st3" "is_banks st3 = is_banks st2"
        using st_run_delete [OF b(4)] by (simp_all add: st3_def)
      have "ComputeEqRes lf mu pos a ho0 res_cls st = Some (Some cl, False, None, st3)"
        using P(5) neg r(1) None m(1) True b(1) D(1) by (simp add: ComputeEqRes_def SubstHasHOBinding_def Let_def)
      then show ?thesis using D st_le_trans [OF r(3)] b(2,3) None by auto
    qed
  qed
qed

lemma eq_resolvents_sound:
  assumes "eq_resolvents tb lits i cls" and "cl \<in> set cls" and i: "i < length lits" and neg: "\<not> EqnIsPositive (lits ! i)"
    and lits: "\<forall>e \<in> set lits. lit_in tb bks e"
  shows "entails ty tb {lits} (literals cl)"
  unfolding entails_def valid_in_def
proof (intro allI impI)
  fix I :: "'a interp" and \<alpha>
  assume I: "interp_ok tb I" and C: "\<forall>C \<in> {lits}. \<forall>\<alpha>. value_ok tb I \<alpha> \<longrightarrow> clause_true I \<alpha> C" and val: "value_ok tb I \<alpha>"
  let ?e = "lits ! i"
  obtain b where b: "unifier_of tb {(lterm ?e, rterm ?e)} b" "conclusion tb b (list_except lits (Some i)) cl"
    using assms(1,2) by (auto simp: eq_resolvents_def split: if_splits)
  note L = lit_inD [OF bspec [OF lits nth_mem [OF i]]]
  have bank: "\<forall>e \<in> set (list_except lits (Some i)). eqn_bank e = tb"
    using lits lit_inD(5) set_list_except by (metis subsetD)
  obtain \<beta> where \<beta>: "value_ok tb I \<beta>" "clause_true I \<alpha> (literals cl) \<longleftrightarrow> clause_true I \<beta> (list_except lits (Some i))"
    "eval I \<beta> (lterm ?e) = eval I \<beta> (rterm ?e)"
    using conclusion_true [OF I _ b(2) bank val] b(1) L(6,7) unfolding unifier_of_def by blast
  then have "\<not> lit_true I \<beta> ?e" using neg by (simp add: lit_true_def)
  then obtain e where "e \<in> set lits" "lit_true I \<beta> e" "e \<noteq> ?e" using C \<beta>(1) by (auto simp: clause_true_def)
  then show "clause_true I \<alpha> (literals cl)"
    using list_except_mem [OF _ i] \<beta>(2) by (auto simp: clause_true_def)
qed

section \<open>Properties\<close>

text \<open>C1 Equality resolution implements the inference rule. Given a clause over the terms of a bank and a
  negative literal of it, \<open>ComputeEqRes\<close> always ends without failing an assertion; if the two sides
  unify, it makes exactly one clause, the other literals under a most general unifier followed by a
  renaming of the variables, without false literals and repetitions; otherwise it makes none. The
  bindings are removed again, and the literals made are shared terms of the bank, fit for the next
  inference. This holds for both ways of returning clauses and for both orders of evaluating the
  arguments in \<open>NextCSUElement\<close>.\<close>

theorem ComputeEqRes_resolvents:
  assumes "st_ok tb a st" and "pos_in tb (is_banks st) pos c i" and "\<not> EqnIsPositive (literals c ! i)"
    and "\<forall>cls. res_cls = Some cls \<longrightarrow> pstack_ok cls"
  shows "\<exists>res ho res_cls' st' new. ComputeEqRes left_first max_unifiers pos a ho0 res_cls st = Some (res, ho, res_cls', st') \<and>
    st_ok tb a st' \<and> st_le st st' \<and> eq_resolvents tb (literals c) i new \<and>
    (\<forall>cl \<in> set new. \<forall>e \<in> set (literals cl). lit_in tb (is_banks st') e) \<and>
    (case res_cls of None \<Rightarrow> res_cls' = None \<and> new = (case res of None \<Rightarrow> [] | Some cl \<Rightarrow> [cl])
     | Some cls \<Rightarrow> res = None \<and> (\<exists>cls'. res_cls' = Some cls' \<and> pstack_ok cls' \<and> pstack_list cls' = pstack_list cls @ new))"
  by (rule ComputeEqRes_ok [OF assms])

theorem ComputeEqRes_resolvents_witness:
  "\<exists>st c x y cl ho st'. literals c = [res_lit False x y, res_lit True (sample_g x) (sample_g y)] \<and> x \<noteq> y \<and>
     ComputeEqRes True 1 (sample_pos c) 1 False None st = Some (Some cl, ho, None, st') \<and> st_ok res_tb 1 st'"
proof -
  obtain st c x y where s: "st_ok res_tb 1 st" "literals c = [res_lit False x y, res_lit True (sample_g x) (sample_g y)]" "x \<noteq> y"
    "pos_in res_tb (is_banks st) (sample_pos c) c 0" "\<not> EqnIsPositive (literals c ! 0)"
    "unifiable res_tb {(lterm (literals c ! 0), rterm (literals c ! 0))}"
    using sample_position by blast
  obtain res ho cls' st' new where r: "ComputeEqRes True 1 (sample_pos c) 1 False None st = Some (res, ho, cls', st')"
    "st_ok res_tb 1 st'" "eq_resolvents res_tb (literals c) 0 new" "cls' = None" "new = (case res of None \<Rightarrow> [] | Some cl \<Rightarrow> [cl])"
    using ComputeEqRes_resolvents [OF s(1,4,5), of None True 1 False] by auto
  obtain cl where "res = Some cl" using r(3,5) s(6) by (auto simp: eq_resolvents_def split: option.splits)
  then show ?thesis using r(1,2,4) s(2,3) by blast
qed

text \<open>C2 Equality resolution is sound in both ways of returning clauses: a clause that \<open>ComputeEqRes\<close>
  pushes on the stack it is given, and a clause that it returns if it is given none (\<open>res_cls == NULL\<close>),
  is a logical consequence of the clause resolved upon, in all many-sorted interpretations.\<close>

theorem ComputeEqRes_sound:
  assumes "st_ok tb a st" and "pos_in tb (is_banks st) pos c i" and "\<not> EqnIsPositive (literals c ! i)"
    and "\<forall>cls. res_cls = Some cls \<longrightarrow> pstack_ok cls"
    and "ComputeEqRes left_first max_unifiers pos a ho0 res_cls st = Some (res, ho, res_cls', st')"
  shows "(\<forall>cl. res = Some cl \<longrightarrow> entails (TYPE('d)) tb {literals c} (literals cl)) \<and>
    (\<forall>cls cls'. res_cls = Some cls \<longrightarrow> res_cls' = Some cls' \<longrightarrow>
       (\<forall>cl \<in> set (pstack_list cls') - set (pstack_list cls). entails (TYPE('d)) tb {literals c} (literals cl)))"
proof -
  obtain new where new: "eq_resolvents tb (literals c) i new" "case res_cls of
      None \<Rightarrow> res_cls' = None \<and> new = (case res of None \<Rightarrow> [] | Some cl \<Rightarrow> [cl])
    | Some cls \<Rightarrow> res = None \<and> (\<exists>cls'. res_cls' = Some cls' \<and> pstack_ok cls' \<and> pstack_list cls' = pstack_list cls @ new)"
    using ComputeEqRes_ok [OF assms(1-4), of left_first max_unifiers ho0] assms(5) by auto
  note P = pos_inD [OF assms(2)]
  have "entails (TYPE('d)) tb {literals c} (literals cl)" if "cl \<in> set new" for cl
    by (rule eq_resolvents_sound [OF new(1) that P(3) assms(3) P(4)])
  then show ?thesis using new(2) by (cases res_cls) (auto split: option.splits)
qed

theorem ComputeEqRes_sound_witness:
  "\<exists>st c x y cl ho st' cl2 ho2 cls' st2. literals c = [res_lit False x y, res_lit True (sample_g x) (sample_g y)] \<and>
     ComputeEqRes True 1 (sample_pos c) 1 False None st = Some (Some cl, ho, None, st') \<and>
     entails (TYPE(nat)) res_tb {literals c} (literals cl) \<and>
     ComputeEqRes True 1 (sample_pos c) 1 False (Some PStackAlloc) st = Some (None, ho2, Some cls', st2) \<and>
     pstack_list cls' = [cl2] \<and> entails (TYPE(nat)) res_tb {literals c} (literals cl2)"
proof -
  obtain st c x y where s: "st_ok res_tb 1 st" "literals c = [res_lit False x y, res_lit True (sample_g x) (sample_g y)]" "x \<noteq> y"
    "pos_in res_tb (is_banks st) (sample_pos c) c 0" "\<not> EqnIsPositive (literals c ! 0)"
    "unifiable res_tb {(lterm (literals c ! 0), rterm (literals c ! 0))}"
    using sample_position by blast
  have none: "\<forall>cls. None = Some cls \<longrightarrow> pstack_ok cls" and some: "\<forall>cls. Some PStackAlloc = Some cls \<longrightarrow> pstack_ok cls"
    using PStackAlloc_ok by simp_all
  obtain res ho st' new where r: "ComputeEqRes True 1 (sample_pos c) 1 False None st = Some (res, ho, None, st')"
    "eq_resolvents res_tb (literals c) 0 new" "new = (case res of None \<Rightarrow> [] | Some cl \<Rightarrow> [cl])"
    using ComputeEqRes_ok [OF s(1,4,5) none, of True 1 False] by auto
  obtain cl where cl: "res = Some cl" using r(2,3) s(6) by (auto simp: eq_resolvents_def split: option.splits)
  obtain ho2 cls' st2 new2 where r2: "ComputeEqRes True 1 (sample_pos c) 1 False (Some PStackAlloc) st = Some (None, ho2, Some cls', st2)"
    "eq_resolvents res_tb (literals c) 0 new2" "pstack_list cls' = new2"
    using ComputeEqRes_ok [OF s(1,4,5) some, of True 1 False] by auto
  obtain cl2 where cl2: "new2 = [cl2]" using r2(2) s(6) by (auto simp: eq_resolvents_def)
  have "entails (TYPE(nat)) res_tb {literals c} (literals cl)"
    using ComputeEqRes_sound [OF s(1,4,5) none r(1)] cl by blast
  moreover have "entails (TYPE(nat)) res_tb {literals c} (literals cl2)"
    using ComputeEqRes_sound [OF s(1,4,5) some r2(1)] r2(3) cl2 by simp
  ultimately show ?thesis using r(1) r2(1,3) cl cl2 s(2) by blast
qed

end
