(* ===== verification/ClauseSets.thy ===== *)
theory ClauseSets
  imports InferenceSteps
begin

unbundle bit_operations_syntax

text \<open>
  What the functions that generate clauses do with them (\<open>CONTROL/cco_eqnresolving.c\<close>,
  \<open>CONTROL/cco_factoring.c\<close>): the properties and the proof measures that a clause inherits
  (\<open>CLAUSES/ccl_clauses.h\<close>), and its insertion at the end of a clause set
  (\<open>CLAUSES/ccl_clausesets.c\<close>). New clauses have no evaluations, so the indices of the set by
  evaluations do not change.
\<close>

section \<open>Properties of clauses\<close>

definition CPTypeMask :: int where "CPTypeMask = 15360"
definition CPIsSOS :: int where "CPIsSOS = 262144"
definition CPNoGeneration :: int where "CPNoGeneration = 524288"

definition ClauseQueryProp :: "Clause \<Rightarrow> int \<Rightarrow> bool" where
  "ClauseQueryProp clause prop \<longleftrightarrow> cl_properties clause AND prop = prop"

definition ClauseGiveProps :: "Clause \<Rightarrow> int \<Rightarrow> int" where
  "ClauseGiveProps clause prop = cl_properties clause AND prop"

definition ClauseSetProp :: "Clause \<Rightarrow> int \<Rightarrow> Clause" where
  "ClauseSetProp clause prop = clause\<lparr>cl_properties := cl_properties clause OR prop\<rparr>"

definition ClauseDelProp :: "Clause \<Rightarrow> int \<Rightarrow> Clause" where
  "ClauseDelProp clause prop = clause\<lparr>cl_properties := cl_properties clause AND NOT prop\<rparr>"

definition ClauseQueryTPTPType :: "Clause \<Rightarrow> int" where
  "ClauseQueryTPTPType clause = cl_properties clause AND CPTypeMask"

definition ClauseSetTPTPType :: "Clause \<Rightarrow> int \<Rightarrow> Clause" where
  "ClauseSetTPTPType clause type = ClauseSetProp (ClauseDelProp clause CPTypeMask) type"

text \<open>What a new clause takes over from its parent. Documentation and derivation are not modelled.\<close>

definition child_clause :: "Clause \<Rightarrow> Clause \<Rightarrow> Clause" where
  "child_clause clause new =
     (let new = new\<lparr>proof_depth := proof_depth clause + 1\<rparr>;
          new = new\<lparr>proof_size := proof_size clause + 1\<rparr>;
          new = ClauseSetTPTPType new (ClauseQueryTPTPType clause) in
      ClauseSetProp new (ClauseGiveProps clause CPIsSOS))"

section \<open>Sets of clauses\<close>

record ClauseSet =
  cs_clauses :: "Clause list"
  cs_members :: int
  cs_literals :: int

definition ClauseSetInsert :: "ClauseSet \<Rightarrow> Clause \<Rightarrow> ClauseSet" where
  "ClauseSetInsert cset newclause =
     cset\<lparr>cs_clauses := cs_clauses cset @ [newclause], cs_members := cs_members cset + 1,
         cs_literals := cs_literals cset + ClauseLiteralNumber newclause\<rparr>"

text \<open>The loop that takes new clauses off a stack, and inserts and counts them.\<close>

partial_function (option) store_loop ::
  "Clause \<Rightarrow> Clause pstack \<Rightarrow> ClauseSet \<Rightarrow> int \<Rightarrow> (Clause pstack \<times> ClauseSet \<times> int) option" where [code]:
  "store_loop clause res_cls store n =
     (if PStackEmpty res_cls then Some (res_cls, store, n)
      else do { (new, res_cls) \<leftarrow> PStackPop res_cls;
                store_loop clause res_cls (ClauseSetInsert store (child_clause clause new)) (n + 1) })"

section \<open>What is stored\<close>

lemma child_clause_simps [simp]:
  "literals (child_clause clause new) = literals new" "ident (child_clause clause new) = ident new"
  "ClauseLiteralNumber (child_clause clause new) = ClauseLiteralNumber new"
  "proof_depth (child_clause clause new) = proof_depth clause + 1" "proof_size (child_clause clause new) = proof_size clause + 1"
  by (simp_all add: child_clause_def Let_def ClauseSetProp_def ClauseSetTPTPType_def ClauseDelProp_def ClauseLiteralNumber_def)

text \<open>A new clause is given the type and the membership in the set of support of its parent, and no other property.\<close>

lemma child_clause_properties:
  assumes "cl_properties new = CPIgnoreProps"
  shows "cl_properties (child_clause clause new) = cl_properties clause AND (CPTypeMask OR CPIsSOS)"
  using assms
  by (simp add: child_clause_def Let_def ClauseSetProp_def ClauseSetTPTPType_def ClauseDelProp_def ClauseGiveProps_def
      ClauseQueryTPTPType_def CPIgnoreProps_def bit.conj_disj_distrib)

definition store_all :: "Clause \<Rightarrow> ClauseSet \<Rightarrow> Clause list \<Rightarrow> ClauseSet" where
  "store_all clause store new = foldl (\<lambda>cset c. ClauseSetInsert cset (child_clause clause c)) store new"

definition clause_set_ok :: "ClauseSet \<Rightarrow> bool" where
  "clause_set_ok cset \<longleftrightarrow> cs_members cset = int (length (cs_clauses cset)) \<and>
     cs_literals cset = sum_list (map ClauseLiteralNumber (cs_clauses cset))"

lemma ClauseSetInsert_ok: "clause_set_ok cset \<Longrightarrow> clause_set_ok (ClauseSetInsert cset clause)"
  by (simp add: clause_set_ok_def ClauseSetInsert_def)

lemma store_all_append: "store_all clause store (xs @ ys) = store_all clause (store_all clause store xs) ys"
  by (simp add: store_all_def)

lemma store_all_nil [simp]: "store_all clause store [] = store"
  by (simp add: store_all_def)

lemma store_all_clauses: "cs_clauses (store_all clause store new) = cs_clauses store @ map (child_clause clause) new"
  by (induction new arbitrary: store) (simp_all add: store_all_def ClauseSetInsert_def)

lemma store_all_ok: "clause_set_ok store \<Longrightarrow> clause_set_ok (store_all clause store new)"
  by (induction new arbitrary: store) (simp_all add: store_all_def ClauseSetInsert_ok)

lemma store_loop_ok:
  assumes "pstack_ok res_cls"
  shows "\<exists>res_cls'. store_loop clause res_cls store n =
      Some (res_cls', store_all clause store (rev (pstack_list res_cls)), n + int (length (pstack_list res_cls))) \<and>
    pstack_ok res_cls' \<and> pstack_list res_cls' = []"
  using assms
proof (induction "pstack_list res_cls" arbitrary: res_cls store n rule: rev_induct)
  case Nil
  then have "PStackEmpty res_cls" using length_pstack_list [OF Nil.prems] by (simp add: PStackEmpty_def)
  then show ?case using Nil by (simp add: store_loop.simps)
next
  case (snoc x xs)
  obtain s' where s': "PStackPop res_cls = Some (x, s')" "pstack_ok s'" "pstack_list s' = xs"
    using PStackPop_ok [OF snoc.prems snoc.hyps(2) [symmetric]] by blast
  have "\<not> PStackEmpty res_cls" using length_pstack_list [OF snoc.prems] by (simp add: PStackEmpty_def snoc.hyps(2) [symmetric])
  then have "store_loop clause res_cls store n = store_loop clause s' (ClauseSetInsert store (child_clause clause x)) (n + 1)"
    using s'(1) by (simp add: store_loop.simps [of clause res_cls])
  then show ?case
    using snoc.hyps(1) [OF s'(3) [symmetric] s'(2), of "ClauseSetInsert store (child_clause clause x)" "n + 1"] s'(3)
    by (simp add: snoc.hyps(2) [symmetric] store_all_def algebra_simps)
qed

text \<open>Clauses whose literals are fit for further inferences.\<close>

definition fit :: "TB \<Rightarrow> inf_state \<Rightarrow> Eqn list \<Rightarrow> bool" where
  "fit tb st lits \<longleftrightarrow> (\<forall>e \<in> set lits. lit_in tb (is_banks st) e)"

lemma fit_le: "fit tb st lits \<Longrightarrow> st_le st st' \<Longrightarrow> fit tb st' lits"
  using st_le_lit unfolding fit_def by blast

end
