(* ===== verification/EqnResolving.thy ===== *)
theory EqnResolving
  imports EqResolution ClauseSets
begin

text \<open>
  The uses of equality resolution in the saturation loop (\<open>CONTROL/cco_eqnresolving.c\<close>): all resolvents
  of a clause, and the replacement of a clause by its resolvents upon disequations with a variable,
  which keeps its meaning.
\<close>

section \<open>The code\<close>

text \<open>The loop over the literals resolved upon.\<close>

partial_function (option) all_resolvents_loop ::
  "bool \<Rightarrow> int \<Rightarrow> bool \<Rightarrow> Clause \<Rightarrow> ClausePos \<Rightarrow> nat \<Rightarrow> Clause pstack \<Rightarrow> ClauseSet \<Rightarrow> int \<Rightarrow> inf_state \<Rightarrow>
   (ClauseSet \<times> int \<times> inf_state) option" where [code]:
  "all_resolvents_loop left_first max_unifiers only_max clause pos freshvars res_cls store resolv_count st =
     (if cp_literal pos = None then Some (store, resolv_count, st)
      else do { (_, inf_is_ho, cls, st) \<leftarrow> ComputeEqRes left_first max_unifiers pos freshvars False (Some res_cls) st;
                res_cls \<leftarrow> cls;
                (res_cls, store, resolv_count) \<leftarrow> store_loop clause res_cls store resolv_count;
                pos \<leftarrow> ClausePosNextEqResLiteral only_max pos;
                all_resolvents_loop left_first max_unifiers only_max clause pos freshvars res_cls store resolv_count st })"

definition ComputeAllEqnResolvents ::
  "bool \<Rightarrow> int \<Rightarrow> bool \<Rightarrow> Clause \<Rightarrow> ClauseSet \<Rightarrow> nat \<Rightarrow> inf_state \<Rightarrow> (int \<times> ClauseSet \<times> inf_state) option" where
  "ComputeAllEqnResolvents left_first max_unifiers only_max clause store freshvars st =
     (if neg_lit_no clause \<noteq> 0 \<and> \<not> ClauseQueryProp clause CPNoGeneration
      then do { pos \<leftarrow> ClausePosFirstEqResLiteral only_max clause ClausePosAlloc;
                (store, resolv_count, st) \<leftarrow>
                  all_resolvents_loop left_first max_unifiers only_max clause pos freshvars PStackAlloc store 0 st;
                Some (resolv_count, store, st) }
      else Some (0, store, st))"

definition EqnIsPureVar :: "Eqn \<Rightarrow> bool" where
  "EqnIsPureVar eq \<longleftrightarrow> TermIsFreeVar (lterm eq) \<and> TermIsFreeVar (rterm eq)"

definition EqnIsPartVar :: "Eqn \<Rightarrow> bool" where
  "EqnIsPartVar eq \<longleftrightarrow> TermIsFreeVar (lterm eq) \<or> TermIsFreeVar (rterm eq)"

definition er_literal :: "bool \<Rightarrow> Eqn \<Rightarrow> bool" where
  "er_literal strong e \<longleftrightarrow> EqnIsNegative e \<and> (EqnIsPureVar e \<or> (strong \<and> EqnIsPartVar e))"

text \<open>The inner loop looks for the first literal that can be resolved upon, from the literal \<open>i\<close> on.\<close>

partial_function (option) er_scan ::
  "bool \<Rightarrow> int \<Rightarrow> Clause \<Rightarrow> nat \<Rightarrow> ClausePos \<Rightarrow> nat \<Rightarrow> bool \<Rightarrow> inf_state \<Rightarrow> (Clause option \<times> inf_state) option" where [code]:
  "er_scan left_first max_unifiers clause i pos freshvars strong st =
     (if i < length (literals clause)
      then let lit = literals clause ! i in
        if er_literal strong lit
        then do { let pos = pos\<lparr>cp_clause := Some clause, cp_literal := Some i\<rparr>;
                  (handle, is_ho, _, st) \<leftarrow> ComputeEqRes left_first max_unifiers pos freshvars False None st;
                  case handle of Some handle \<Rightarrow> Some (Some handle, st)
                  | None \<Rightarrow> er_scan left_first max_unifiers clause (i + 1) pos freshvars strong st }
        else er_scan left_first max_unifiers clause (i + 1) pos freshvars strong st
      else Some (None, st))"

partial_function (option) er_loop ::
  "bool \<Rightarrow> int \<Rightarrow> Clause \<Rightarrow> ClausePos \<Rightarrow> nat \<Rightarrow> bool \<Rightarrow> int \<Rightarrow> inf_state \<Rightarrow> (Clause \<times> int \<times> inf_state) option" where [code]:
  "er_loop left_first max_unifiers clause pos freshvars strong n st =
     do { (found, st) \<leftarrow> er_scan left_first max_unifiers clause 0 pos freshvars strong st;
          case found of
            Some handle \<Rightarrow>
              do { let n = n + 1;
                   let clause = clause\<lparr>proof_depth := proof_depth clause + 1\<rparr>;
                   let clause = clause\<lparr>proof_size := proof_size clause + 1\<rparr>;
                   let clause = clause\<lparr>literals := literals handle\<rparr>;
                   let clause = ClauseRecomputeLitCounts clause;
                   er_loop left_first max_unifiers clause pos freshvars strong n st }
          | None \<Rightarrow> Some (clause, n, st) }"

definition ClauseERNormalizeVar ::
  "bool \<Rightarrow> int \<Rightarrow> Clause \<Rightarrow> ClauseSet \<Rightarrow> nat \<Rightarrow> bool \<Rightarrow> inf_state \<Rightarrow> (int \<times> Clause \<times> ClauseSet \<times> inf_state) option" where
  "ClauseERNormalizeVar left_first max_unifiers clause store freshvars strong st =
     (if neg_lit_no clause \<noteq> 0 \<and> \<not> ClauseQueryProp clause CPNoGeneration
      then do { (clause, n, st) \<leftarrow> er_loop left_first max_unifiers clause ClausePosAlloc freshvars strong 0 st;
                let store = (if n \<noteq> 0 then ClauseSetInsert store clause else store);
                Some (n, clause, store, st) }
      else Some (0, clause, store, st))"

section \<open>All resolvents\<close>

lemma ClausePosNextEqResLiteral_ok:
  assumes "cp_clause pos = Some c" and "cp_literal pos = Some i" and "i < length (literals c)"
  shows "ClausePosNextEqResLiteral only_max pos =
    Some (pos\<lparr>cp_literal := first_of (lits_from (eqres_literal only_max) (literals c) (Suc i))\<rparr>)"
  using find_literal_ok [of "pos\<lparr>cp_literal := lit_at (length (literals c)) (Suc i)\<rparr>" c "Suc i" "eqres_literal only_max"] assms
  by (simp add: ClausePosNextEqResLiteral_def cp_next_at)

lemma ClausePosFirstEqResLiteral_ok:
  "ClausePosFirstEqResLiteral only_max c pos = Some (pos\<lparr>cp_clause := Some c,
     cp_literal := first_of (lits_from (eqres_literal only_max) (literals c) 0), cp_pos := PStackReset (cp_pos pos)\<rparr>)"
  using find_literal_ok [of "pos\<lparr>cp_clause := Some c, cp_literal := first_literal c, cp_pos := PStackReset (cp_pos pos)\<rparr>"
      c 0 "eqres_literal only_max"]
  by (simp add: ClausePosFirstEqResLiteral_def first_literal_at)

lemma eq_resolvents_rev: "eq_resolvents tb lits i cls \<Longrightarrow> rev cls = cls"
  by (auto simp: eq_resolvents_def split: if_splits)

lemma all_resolvents_loop_ok:
  assumes "st_ok tb a st" and "fit tb st (literals c)" and "cp_clause pos = Some c"
    and "cp_literal pos = first_of (lits_from (eqres_literal only_max) (literals c) i)"
    and "pstack_ok s" and "pstack_list s = []"
  shows "\<exists>news st'. all_resolvents_loop lf mu only_max c pos a s store n st =
      Some (store_all c store (concat news), n + int (length (concat news)), st') \<and>
    list_all2 (eq_resolvents tb (literals c)) (lits_from (eqres_literal only_max) (literals c) i) news \<and>
    st_ok tb a st' \<and> st_le st st' \<and> (\<forall>cl \<in> set (concat news). fit tb st' (literals cl))"
  using assms
proof (induction "length (literals c) - i" arbitrary: i pos s store n st rule: less_induct)
  case less
  let ?L = "literals c" and ?P = "eqres_literal only_max"
  note loop = all_resolvents_loop.simps [of lf mu only_max c pos a s store n st]
  show ?case
  proof (cases "lits_from ?P ?L i")
    case Nil
    then show ?thesis using less.prems by (intro exI [of _ "[]"] exI [of _ st]) (simp add: loop)
  next
    case (Cons k rest)
    then have k: "rest = lits_from ?P ?L (Suc k)" "i \<le> k" "k < length ?L" "?P (?L ! k)"
      using lits_from_cases [of ?P ?L i] by auto
    have pos: "pos_in tb (is_banks st) pos c k" and lit: "cp_literal pos = Some k"
      using less.prems(2-4) Cons k(3) by (simp_all add: pos_in_def fit_def)
    have neg: "\<not> EqnIsPositive (?L ! k)" using k(4) by (simp add: eqres_literal_def)
    obtain res ho cls' st1 new where r: "ComputeEqRes lf mu pos a False (Some s) st = Some (res, ho, Some cls', st1)"
      "st_ok tb a st1" "st_le st st1" "eq_resolvents tb ?L k new" "\<forall>cl \<in> set new. fit tb st1 (literals cl)"
      "pstack_ok cls'" "pstack_list cls' = new"
      using ComputeEqRes_ok [OF less.prems(1) pos neg, of "Some s" lf mu False] less.prems(5,6) by (auto simp: fit_def)
    obtain s2 where sl: "store_loop c cls' store n = Some (s2, store_all c store new, n + int (length new))"
      "pstack_ok s2" "pstack_list s2 = []"
      using store_loop_ok [OF r(6), of c store n] r(7) eq_resolvents_rev [OF r(4)] by auto
    let ?pos = "pos\<lparr>cp_literal := first_of (lits_from ?P ?L (Suc k))\<rparr>"
    have nxt: "ClausePosNextEqResLiteral only_max pos = Some ?pos"
      by (rule ClausePosNextEqResLiteral_ok [OF less.prems(3) lit k(3)])
    have fit1: "fit tb st1 ?L" using fit_le [OF less.prems(2) r(3)] .
    have cl: "cp_clause ?pos = Some c" and at: "cp_literal ?pos = first_of (lits_from ?P ?L (Suc k))" using less.prems(3) by simp_all
    have dec: "length ?L - Suc k < length ?L - i" using k(2,3) by simp
    obtain news st' where IH: "all_resolvents_loop lf mu only_max c ?pos a s2 (store_all c store new) (n + int (length new)) st1 =
        Some (store_all c (store_all c store new) (concat news), n + int (length new) + int (length (concat news)), st')"
      "list_all2 (eq_resolvents tb ?L) (lits_from ?P ?L (Suc k)) news" "st_ok tb a st'" "st_le st1 st'"
      "\<forall>cl \<in> set (concat news). fit tb st' (literals cl)"
      using less.hyps [OF dec r(2) fit1 cl at sl(2,3)] by blast
    have "all_resolvents_loop lf mu only_max c pos a s store n st =
        Some (store_all c store (concat (new # news)), n + int (length (concat (new # news))), st')"
      using lit r(1) sl(1) nxt IH(1) by (simp add: loop store_all_append add.assoc)
    then show ?thesis
      using IH(2-5) r(3,4,5) st_le_trans fit_le Cons k(1)
      by (intro exI [of _ "new # news"] exI [of _ st']) auto
  qed
qed

lemma ComputeAllEqnResolvents_ok:
  assumes "st_ok tb a st" and "fit tb st (literals c)" and "clause_counts_ok c"
  shows "\<exists>news st'. ComputeAllEqnResolvents lf mu only_max c store a st =
      Some (int (length (concat news)), store_all c store (concat news), st') \<and>
    list_all2 (eq_resolvents tb (literals c))
      (if ClauseQueryProp c CPNoGeneration then [] else lits_from (eqres_literal only_max) (literals c) 0) news \<and>
    st_ok tb a st' \<and> st_le st st' \<and> (\<forall>cl \<in> set (concat news). fit tb st' (literals cl))"
proof (cases "neg_lit_no c \<noteq> 0 \<and> \<not> ClauseQueryProp c CPNoGeneration")
  case True
  let ?pos = "ClausePosAlloc\<lparr>cp_clause := Some c,
     cp_literal := first_of (lits_from (eqres_literal only_max) (literals c) 0), cp_pos := PStackReset (cp_pos ClausePosAlloc)\<rparr>"
  obtain news st' where L: "all_resolvents_loop lf mu only_max c ?pos a PStackAlloc store 0 st =
      Some (store_all c store (concat news), 0 + int (length (concat news)), st')"
    "list_all2 (eq_resolvents tb (literals c)) (lits_from (eqres_literal only_max) (literals c) 0) news"
    "st_ok tb a st'" "st_le st st'" "\<forall>cl \<in> set (concat news). fit tb st' (literals cl)"
    using all_resolvents_loop_ok [OF assms(1,2), of ?pos only_max 0 PStackAlloc lf mu store 0] by auto
  then show ?thesis
    using True by (intro exI [of _ news] exI [of _ st']) (simp add: ComputeAllEqnResolvents_def ClausePosFirstEqResLiteral_ok)
next
  case False
  have "lits_from (eqres_literal only_max) (literals c) 0 = []" if "\<not> ClauseQueryProp c CPNoGeneration"
  proof -
    have "[e \<leftarrow> literals c. \<not> EqnIsPositive e] = []" using False that assms(3) by (simp add: clause_counts_ok_def)
    then show ?thesis by (auto simp: lits_from_def eqres_literal_def filter_empty_conv)
  qed
  then show ?thesis using False assms(1)
    by (intro exI [of _ "[]"] exI [of _ st]) (auto simp: ComputeAllEqnResolvents_def)
qed

section \<open>Equality resolution upon a variable\<close>

text \<open>The value of a term depends on its variables only, so a renaming can be undone by the valuation.\<close>

lemma eval_vars: "(\<And>v. v \<in> term_vars t \<Longrightarrow> \<alpha> v = \<beta> v) \<Longrightarrow> eval I \<alpha> t = eval I \<beta> t"
proof (induction t)
  case (TermCell f p ty as)
  show ?case
  proof (cases "f < 0")
    case True
    then show ?thesis using TermCell.prems by simp
  next
    case False
    have "eval I \<alpha> s = eval I \<beta> s" if s: "s \<in> set as" for s
      by (rule TermCell.IH [OF s]) (use TermCell.prems False s in auto)
    then have "map (eval I \<alpha>) as = map (eval I \<beta>) as" by simp
    then show ?thesis using False by (simp only: eval.simps if_False)
  qed
qed

lemma undo_renaming:
  assumes r: "renaming_on (tb_sig tb) \<rho> V" and val: "value_ok tb I \<alpha>"
    and V: "\<And>v. v \<in> V \<Longrightarrow> TermIsFreeVar v \<and> wf_term (tb_sig tb) v"
  shows "\<exists>\<gamma>. value_ok tb I \<gamma> \<and> (\<forall>t. term_vars t \<subseteq> V \<longrightarrow> eval I \<gamma> (inst \<rho> t) = eval I \<alpha> t)"
proof -
  define \<gamma> where "\<gamma> w = (if w \<in> \<rho> ` V then \<alpha> (the_inv_into V \<rho> w) else \<alpha> w)" for w
  have inj: "inj_on \<rho> V" and ren: "\<And>v. v \<in> V \<Longrightarrow> TermIsFreeVar (\<rho> v) \<and> wf_term (tb_sig tb) (\<rho> v) \<and> t_type (\<rho> v) = t_type v"
    using r V by (auto simp: renaming_on_def)
  have g: "\<gamma> (\<rho> v) = \<alpha> v" if "v \<in> V" for v using that the_inv_into_f_f [OF inj that] by (simp add: \<gamma>_def)
  have "\<gamma> w \<in> dom_of I (t_type w)" if "TermIsFreeVar w" "wf_term (tb_sig tb) w" for w
  proof (cases "w \<in> \<rho> ` V")
    case True
    then obtain v where v: "v \<in> V" "w = \<rho> v" by blast
    then show ?thesis using g [OF v(1)] ren [OF v(1)] V [OF v(1)] val by (auto simp: value_ok_def)
  next
    case False
    then show ?thesis using val that by (simp add: \<gamma>_def value_ok_def)
  qed
  then have "value_ok tb I \<gamma>" by (simp add: value_ok_def)
  moreover have "eval I \<gamma> (inst \<rho> t) = eval I \<alpha> t" if "term_vars t \<subseteq> V" for t
  proof -
    have "eval I \<gamma> (\<rho> v) = \<alpha> v" if v: "v \<in> V" for v
      using ren [OF v] g [OF v] by (cases "\<rho> v") simp
    then have "eval I (\<lambda>v. eval I \<gamma> (\<rho> v)) t = eval I \<alpha> t" using that by (intro eval_vars) blast
    then show ?thesis by (simp add: eval_inst)
  qed
  ultimately show ?thesis by blast
qed

text \<open>Where a variable has the value of the other side, a most general unifier changes no value.\<close>

lemma unifier_keeps_values:
  assumes u: "unifier_of tb {(l, r)} b" and x: "TermIsFreeVar x" "{x, t} = {l, r}" "wf_term (tb_sig tb) x" "wf_term (tb_sig tb) t"
    and un: "unifiable tb {(l, r)}" and eq: "eval I \<alpha> l = eval I \<alpha> r" and s: "wf_term (tb_sig tb) s"
  shows "eval I \<alpha> (sigma b s) = eval I \<alpha> s"
proof -
  define \<theta> where "\<theta> v = (if v = x then t else v)" for v
  obtain \<theta>' where t': "subst_typed (tb_sig tb) \<theta>'" "inst \<theta>' l = inst \<theta>' r" using un by (auto simp: unifiable_def unifies_def)
  have xt: "inst \<theta>' x = inst \<theta>' t" "eval I \<alpha> x = eval I \<alpha> t" using x(2) t'(2) eq by (auto simp: doubleton_eq_iff)
  have ty: "t_type x = t_type t" using inst_typed [OF t'(1) x(3)] inst_typed [OF t'(1) x(4)] xt(1) by simp
  have "t = x \<or> x \<notin> term_vars t"
  proof (rule ccontr)
    assume "\<not> (t = x \<or> x \<notin> term_vars t)"
    then have "x \<in> term_vars t" "\<not> TermIsFreeVar t" using wf_term_var_vars [of t] by auto
    then show False using size_inst_occurs [of x t \<theta>'] xt(1) by simp
  qed
  then have same: "inst \<theta> t = t" by (intro inst_id) (auto simp: \<theta>_def)
  have "inst \<theta> x = t" using x(1) by (cases x) (simp add: \<theta>_def)
  then have "unifies \<theta> {(l, r)}" using same x(2) by (auto simp: unifies_def doubleton_eq_iff)
  moreover have "subst_typed (tb_sig tb) \<theta>" using x(4) ty by (simp add: \<theta>_def subst_typed_def)
  ultimately have agr: "agrees (tb_sig tb) (\<lambda>_. None) b \<theta>" using u by (simp add: unifier_of_def)
  have val: "eval I \<alpha> (inst \<theta> y) = eval I \<alpha> y" for y
  proof -
    have "eval I \<alpha> (\<theta> v) = eval I \<alpha> v" for v using xt(2) by (simp add: \<theta>_def)
    moreover have "eval I \<alpha> v = \<alpha> v" if "v \<in> term_vars y" for v using term_vars_free [OF that] by (cases v) simp
    ultimately show ?thesis unfolding eval_inst by (intro eval_vars) simp
  qed
  have "eval I \<alpha> (sigma b s) = eval I \<alpha> (inst \<theta> (sigma b s))" by (simp add: val)
  also have "\<dots> = eval I \<alpha> (inst \<theta> s)" using agr s sigma_none [OF s] by (simp add: agrees_def)
  finally show ?thesis by (simp add: val)
qed

lemma eq_resolvents_equivalent:
  assumes R: "eq_resolvents tb lits i [cl]" and i: "i < length lits" and neg: "\<not> EqnIsPositive (lits ! i)"
    and var: "EqnIsPartVar (lits ! i)" and lits: "\<forall>e \<in> set lits. lit_in tb bks e" and st: "store_ok (snd bks)"
    and I: "interp_ok tb I"
  shows "valid_in tb I (literals cl) \<longleftrightarrow> valid_in tb I lits"
proof
  assume "valid_in tb I lits"
  then show "valid_in tb I (literals cl)"
    using eq_resolvents_sound [OF R _ i neg lits] I by (auto simp: entails_def)
next
  assume C: "valid_in tb I (literals cl)"
  let ?l = "lterm (lits ! i)" and ?r = "rterm (lits ! i)" and ?M = "list_except lits (Some i)"
  obtain b where b: "unifiable tb {(?l, ?r)}" "unifier_of tb {(?l, ?r)} b" "conclusion tb b ?M cl"
    using R by (auto simp: eq_resolvents_def split: if_splits)
  note L = lit_inD [OF bspec [OF lits nth_mem [OF i]]]
  obtain x t where x: "TermIsFreeVar x" "{x, t} = {?l, ?r}" "wf_term (tb_sig tb) x" "wf_term (tb_sig tb) t"
    using var L(6,7) unfolding EqnIsPartVar_def by (metis insert_commute)
  obtain \<rho> n where c: "renaming_on (tb_sig tb) \<rho> (lit_vars b ?M)" "cl = inst_clause n (\<lambda>v. inst \<rho> (sigma b v)) ?M"
    using b(3) unfolding conclusion_def by blast
  have sub: "set ?M \<subseteq> set lits" by (rule set_list_except)
  have sw: "subst_wf (tb_sig tb) b" using b(2) by (simp add: unifier_of_def)
  have wfM: "wf_term (tb_sig tb) u" if "u \<in> set (lit_terms ?M)" for u
  proof -
    have "\<forall>e \<in> set ?M. lit_in tb bks e" using lits sub by blast
    then show ?thesis using lit_terms_in_bank [OF _ that] in_bankD(2) by blast
  qed
  have V: "TermIsFreeVar v \<and> wf_term (tb_sig tb) v" if v: "v \<in> lit_vars b ?M" for v
  proof -
    obtain u where u: "u \<in> set (lit_terms ?M)" "v \<in> term_vars (sigma b u)" using v unfolding lit_vars_def by blast
    show ?thesis using term_vars_free [OF u(2)] term_vars_wf [OF sigma_wf(1) [OF sw wfM [OF u(1)]] u(2)] by blast
  qed
  show "valid_in tb I lits"
    unfolding valid_in_def
  proof (intro allI impI)
    fix \<alpha> assume val: "value_ok tb I \<alpha>"
    show "clause_true I \<alpha> lits"
    proof (cases "eval I \<alpha> ?l = eval I \<alpha> ?r")
      case False
      then have "lit_true I \<alpha> (lits ! i)" using neg by (simp add: lit_true_def)
      then show ?thesis using nth_mem [OF i] by (auto simp: clause_true_def)
    next
      case True
      obtain \<gamma> where g: "value_ok tb I \<gamma>" "\<And>t. term_vars t \<subseteq> lit_vars b ?M \<Longrightarrow> eval I \<gamma> (inst \<rho> t) = eval I \<alpha> t"
        using undo_renaming [OF c(1) val V] by blast
      have bank: "\<forall>e \<in> set (map (inst_lit (\<lambda>v. inst \<rho> (sigma b v))) ?M). eqn_bank e = tb"
        using lits lit_inD(5) [of tb bks] sub by auto
      have "clause_true I \<gamma> (literals cl)" using C g(1) by (simp add: valid_in_def)
      then have "clause_true I \<gamma> (map (inst_lit (\<lambda>v. inst \<rho> (sigma b v))) ?M)"
        unfolding c(2) inst_clause_def simplified_clause_true [OF I bank] .
      then obtain e where e: "e \<in> set ?M" "lit_true I \<gamma> (inst_lit (\<lambda>v. inst \<rho> (sigma b v)) e)" by (auto simp: clause_true_def)
      have "eval I \<gamma> (inst (\<lambda>v. inst \<rho> (sigma b v)) u) = eval I \<alpha> u" if u: "u \<in> {lterm e, rterm e}" for u
      proof -
        have m: "u \<in> set (lit_terms ?M)" using u e(1) by (auto simp: set_lit_terms)
        then have "term_vars (sigma b u) \<subseteq> lit_vars b ?M" by (auto simp: lit_vars_def)
        then have "eval I \<gamma> (inst \<rho> (sigma b u)) = eval I \<alpha> (sigma b u)" by (rule g(2))
        moreover have "inst (\<lambda>v. inst \<rho> (sigma b v)) u = inst \<rho> (sigma b u)"
          using sigma_inst [OF sw wfM [OF m]] by (simp flip: inst_comp)
        ultimately show ?thesis using unifier_keeps_values [OF b(2) x b(1) True wfM [OF m]] by simp
      qed
      then have "lit_true I \<alpha> e" using e(2) by (simp add: lit_true_def inst_lit_sel)
      then show ?thesis using e(1) sub by (auto simp: clause_true_def)
    qed
  qed
qed

section \<open>Destructive equality resolution\<close>

lemma er_literal_neg: "er_literal strong e \<Longrightarrow> \<not> EqnIsPositive e \<and> EqnIsPartVar e"
  by (auto simp: er_literal_def EqnIsNegative_def EqnIsPositive_def EqnIsPureVar_def EqnIsPartVar_def)

text \<open>No literal that should be resolved upon is left that can be.\<close>

definition er_done :: "TB \<Rightarrow> bool \<Rightarrow> Eqn list \<Rightarrow> nat \<Rightarrow> bool" where
  "er_done tb strong lits i \<longleftrightarrow> (\<forall>k. i \<le> k \<longrightarrow> k < length lits \<longrightarrow> er_literal strong (lits ! k) \<longrightarrow>
     \<not> unifiable tb {(lterm (lits ! k), rterm (lits ! k))})"

lemma eq_resolvents_shorter:
  assumes "eq_resolvents tb lits i [cl]" and "i < length lits"
  shows "length (literals cl) < length lits"
proof -
  obtain \<theta> n where c: "cl = inst_clause n \<theta> (list_except lits (Some i))"
    using assms(1) by (auto simp: eq_resolvents_def conclusion_def split: if_splits)
  have len: "length (literals (fst (ClauseAlloc n xs))) = length xs" for n xs
    using ClauseAlloc_counts(2) [of n xs] by (metis size_mset)
  have dd: "length (dedup xs) \<le> length xs" for xs
  proof (induction xs)
    case (Cons x xs)
    then show ?case using order.trans [OF length_filter_le Cons.IH, of "\<lambda>y. \<not> lit_same x y"] by simp
  qed simp
  have "length (simplified xs) \<le> length xs" for xs
    using dd [of "filter (\<lambda>e. \<not> EqnIsFalse e) xs"] length_filter_le [of "\<lambda>e. \<not> EqnIsFalse e" xs]
    unfolding simplified_def by (rule order.trans)
  then have "length (literals cl) \<le> length (list_except lits (Some i))"
    unfolding c inst_clause_def len by (metis length_map)
  also have "\<dots> < length lits" using assms(2) by (simp add: list_except_Some)
  finally show ?thesis .
qed

lemma er_scan_ok:
  assumes "st_ok tb a st" and "fit tb st (literals c)"
  shows "\<exists>found st'. er_scan lf mu c i pos a strong st = Some (found, st') \<and> st_ok tb a st' \<and> st_le st st' \<and>
    (case found of None \<Rightarrow> er_done tb strong (literals c) i
     | Some h \<Rightarrow> \<exists>k < length (literals c). er_literal strong (literals c ! k) \<and> eq_resolvents tb (literals c) k [h] \<and>
         fit tb st' (literals h))"
  using assms
proof (induction "length (literals c) - i" arbitrary: i pos st rule: less_induct)
  case less
  let ?L = "literals c"
  note scan = er_scan.simps [of lf mu c i pos a strong st]
  show ?case
  proof (cases "i < length ?L")
    case False
    then show ?thesis using less.prems by (simp add: scan er_done_def)
  next
    case i: True
    have step: "er_done tb strong ?L i" if "er_done tb strong ?L (Suc i)"
      "er_literal strong (?L ! i) \<longrightarrow> \<not> unifiable tb {(lterm (?L ! i), rterm (?L ! i))}"
      unfolding er_done_def
    proof (intro allI impI)
      fix k assume k: "i \<le> k" "k < length ?L" "er_literal strong (?L ! k)"
      show "\<not> unifiable tb {(lterm (?L ! k), rterm (?L ! k))}"
      proof (cases "k = i")
        case True
        then show ?thesis using that(2) k(3) by simp
      next
        case False
        then show ?thesis using that(1) k by (simp add: er_done_def)
      qed
    qed
    have dec: "length ?L - Suc i < length ?L - i" using i by simp
    show ?thesis
    proof (cases "er_literal strong (?L ! i)")
      case False
      then have run: "er_scan lf mu c i pos a strong st = er_scan lf mu c (Suc i) pos a strong st"
        using i False by (simp add: scan)
      obtain found st' where IH: "er_scan lf mu c (Suc i) pos a strong st = Some (found, st')" "st_ok tb a st'" "st_le st st'"
        "case found of None \<Rightarrow> er_done tb strong ?L (Suc i)
         | Some h \<Rightarrow> \<exists>k < length ?L. er_literal strong (?L ! k) \<and> eq_resolvents tb ?L k [h] \<and> fit tb st' (literals h)"
        using less.hyps [OF dec less.prems] by blast
      then show ?thesis using run step False by (cases found) auto
    next
      case True
      let ?pos = "pos\<lparr>cp_clause := Some c, cp_literal := Some i\<rparr>"
      have at: "pos_in tb (is_banks st) ?pos c i" using i less.prems(2) by (simp add: pos_in_def fit_def)
      have neg: "\<not> EqnIsPositive (?L ! i)" using er_literal_neg [OF True] by simp
      obtain res ho cls st1 new where r: "ComputeEqRes lf mu ?pos a False None st = Some (res, ho, cls, st1)" "st_ok tb a st1"
        "st_le st st1" "eq_resolvents tb ?L i new" "\<forall>cl \<in> set new. fit tb st1 (literals cl)"
        "new = (case res of None \<Rightarrow> [] | Some cl \<Rightarrow> [cl])"
        using ComputeEqRes_ok [OF less.prems(1) at neg, of None lf mu False] by (auto simp: fit_def)
      show ?thesis
      proof (cases res)
        case (Some h)
        have "er_scan lf mu c i pos a strong st = Some (Some h, st1)"
          using i True r(1) Some by (simp add: scan)
        then show ?thesis using r(2-6) True i Some by (intro exI [of _ "Some h"] exI [of _ st1]) auto
      next
        case None
        then have run: "er_scan lf mu c i pos a strong st = er_scan lf mu c (Suc i) ?pos a strong st1"
          using i True r(1) by (simp add: scan)
        have un: "\<not> unifiable tb {(lterm (?L ! i), rterm (?L ! i))}" using r(4,6) None by (auto simp: eq_resolvents_def)
        obtain found st' where IH: "er_scan lf mu c (Suc i) ?pos a strong st1 = Some (found, st')" "st_ok tb a st'" "st_le st1 st'"
          "case found of None \<Rightarrow> er_done tb strong ?L (Suc i)
           | Some h \<Rightarrow> \<exists>k < length ?L. er_literal strong (?L ! k) \<and> eq_resolvents tb ?L k [h] \<and> fit tb st' (literals h)"
          using less.hyps [OF dec r(2) fit_le [OF less.prems(2) r(3)]] by blast
        then show ?thesis using run step un st_le_trans [OF r(3)] by (cases found) auto
      qed
    qed
  qed
qed

text \<open>What destructive resolution does to a clause, in interpretations over the type \<open>'d\<close>.\<close>

definition er_result :: "'d itself \<Rightarrow> TB \<Rightarrow> bool \<Rightarrow> Clause \<Rightarrow> int \<Rightarrow> Clause \<Rightarrow> bool" where
  "er_result ty tb strong c n c' \<longleftrightarrow> 0 \<le> n \<and> n + int (length (literals c')) \<le> int (length (literals c)) \<and>
     clause_counts_ok c' \<and> proof_depth c' = proof_depth c + n \<and> proof_size c' = proof_size c + n \<and>
     (\<forall>I :: 'd interp. interp_ok tb I \<longrightarrow> valid_in tb I (literals c') = valid_in tb I (literals c))"

lemma lit_count_simps: "proof_depth (ClauseRecomputeLitCounts c) = proof_depth c" "proof_size (ClauseRecomputeLitCounts c) = proof_size c"
proof -
  have "proof_depth (lit_count_loop es c) = proof_depth c \<and> proof_size (lit_count_loop es c) = proof_size c" for es c
    by (induction es arbitrary: c) auto
  then show "proof_depth (ClauseRecomputeLitCounts c) = proof_depth c" "proof_size (ClauseRecomputeLitCounts c) = proof_size c"
    by (simp_all add: ClauseRecomputeLitCounts_def)
qed

lemma er_loop_ok:
  assumes "st_ok tb a st" and "fit tb st (literals c)" and "clause_counts_ok c"
  shows "\<exists>c' n' st'. er_loop lf mu c pos a strong n st = Some (c', n', st') \<and> st_ok tb a st' \<and> st_le st st' \<and>
    fit tb st' (literals c') \<and> er_done tb strong (literals c') 0 \<and> er_result (ty :: 'd itself) tb strong c (n' - n) c' \<and>
    (n' = n \<longrightarrow> c' = c)"
  using assms
proof (induction "length (literals c)" arbitrary: c pos n st rule: less_induct)
  case less
  note loop = er_loop.simps [of lf mu c pos a strong n st]
  obtain found st1 where f: "er_scan lf mu c 0 pos a strong st = Some (found, st1)" "st_ok tb a st1" "st_le st st1"
    "case found of None \<Rightarrow> er_done tb strong (literals c) 0
     | Some h \<Rightarrow> \<exists>k < length (literals c). er_literal strong (literals c ! k) \<and> eq_resolvents tb (literals c) k [h] \<and>
         fit tb st1 (literals h)"
    using er_scan_ok [OF less.prems(1,2)] by blast
  show ?case
  proof (cases found)
    case None
    then show ?thesis using f fit_le [OF less.prems(2) f(3)] less.prems(3)
      by (intro exI [of _ c] exI [of _ n] exI [of _ st1]) (simp add: loop er_result_def)
  next
    case (Some h)
    then obtain k where k: "k < length (literals c)" "er_literal strong (literals c ! k)" "eq_resolvents tb (literals c) k [h]"
      "fit tb st1 (literals h)" using f(4) by auto
    define c1 where "c1 = ClauseRecomputeLitCounts (c\<lparr>proof_depth := proof_depth c + 1, proof_size := proof_size c + 1, literals := literals h\<rparr>)"
    have c1: "literals c1 = literals h" "clause_counts_ok c1" "proof_depth c1 = proof_depth c + 1" "proof_size c1 = proof_size c + 1"
      using ClauseRecomputeLitCounts_ok by (simp_all add: c1_def lit_count_simps)
    have shorter: "length (literals c1) < length (literals c)" using eq_resolvents_shorter [OF k(3,1)] c1(1) by simp
    have fit1: "fit tb st1 (literals c1)" using k(4) c1(1) by simp
    obtain c' n' st' where IH: "er_loop lf mu c1 pos a strong (n + 1) st1 = Some (c', n', st')" "st_ok tb a st'" "st_le st1 st'"
      "fit tb st' (literals c')" "er_done tb strong (literals c') 0" "er_result ty tb strong c1 (n' - (n + 1)) c'"
      using less.hyps [OF shorter f(2) fit1 c1(2)] by blast
    have run: "er_loop lf mu c pos a strong n st = Some (c', n', st')"
      using f(1) Some IH(1) by (simp add: loop c1_def)
    have eqv: "valid_in tb I (literals c1) = valid_in tb I (literals c)" if I: "interp_ok tb I" for I :: "'d interp"
    proof -
      have e: "\<not> EqnIsPositive (literals c ! k)" "EqnIsPartVar (literals c ! k)"
        using er_literal_neg [OF k(2)] by simp_all
      have fit: "\<forall>e \<in> set (literals c). lit_in tb (is_banks st) e" using less.prems(2) by (simp add: fit_def)
      have store: "store_ok (snd (is_banks st))" using less.prems(1) inf_okD(3) [of tb a "is_banks st"] by (simp add: st_ok_def)
      show ?thesis using eq_resolvents_equivalent [OF k(3,1) e fit store I] c1(1) by simp
    qed
    have "er_result ty tb strong c (n' - n) c'"
      using IH(6) shorter c1(3,4) eqv by (auto simp: er_result_def)
    moreover have "n' \<noteq> n" using IH(6) by (auto simp: er_result_def)
    ultimately show ?thesis using run IH(2-5) st_le_trans [OF f(3)] by blast
  qed
qed

lemma ClauseERNormalizeVar_ok:
  assumes "st_ok tb a st" and "fit tb st (literals c)" and "clause_counts_ok c"
  shows "\<exists>n c' store' st'. ClauseERNormalizeVar lf mu c store a strong st = Some (n, c', store', st') \<and>
    st_ok tb a st' \<and> st_le st st' \<and> fit tb st' (literals c') \<and> er_result (ty :: 'd itself) tb strong c n c' \<and>
    (\<not> ClauseQueryProp c CPNoGeneration \<longrightarrow> er_done tb strong (literals c') 0) \<and>
    (if n = 0 then c' = c \<and> store' = store else store' = ClauseSetInsert store c')"
proof (cases "neg_lit_no c \<noteq> 0 \<and> \<not> ClauseQueryProp c CPNoGeneration")
  case True
  obtain c' n st' where L: "er_loop lf mu c ClausePosAlloc a strong 0 st = Some (c', n, st')" "st_ok tb a st'" "st_le st st'"
    "fit tb st' (literals c')" "er_done tb strong (literals c') 0" "er_result ty tb strong c (n - 0) c'" "n = 0 \<longrightarrow> c' = c"
    using er_loop_ok [OF assms, of lf mu ClausePosAlloc strong 0 ty] by blast
  then show ?thesis using True
    by (intro exI [of _ n] exI [of _ c'] exI [of _ "if n \<noteq> 0 then ClauseSetInsert store c' else store"] exI [of _ st'])
      (simp add: ClauseERNormalizeVar_def)
next
  case False
  have "er_done tb strong (literals c) 0" if "\<not> ClauseQueryProp c CPNoGeneration"
  proof -
    have "[e \<leftarrow> literals c. \<not> EqnIsPositive e] = []" using False that assms(3) by (simp add: clause_counts_ok_def)
    then have "\<not> er_literal strong e" if "e \<in> set (literals c)" for e
      using that er_literal_neg by (auto simp: filter_empty_conv)
    then show ?thesis by (simp add: er_done_def)
  qed
  then show ?thesis using False assms
    by (intro exI [of _ 0] exI [of _ c] exI [of _ store] exI [of _ st]) (auto simp: ClauseERNormalizeVar_def er_result_def)
qed

section \<open>Properties\<close>

definition sample_er_clause :: "Term_p \<Rightarrow> Term_p \<Rightarrow> Clause" where
  "sample_er_clause x y = (EmptyClauseAlloc 1)\<lparr>literals := [res_lit False x y, res_lit True (sample_g x) (sample_g y)],
     neg_lit_no := 1, pos_lit_no := 1\<rparr>"

lemma sample_er:
  "\<exists>st x y. st_ok res_tb 1 st \<and> x \<noteq> y \<and> TermIsFreeVar x \<and> TermIsFreeVar y \<and> fit res_tb st (literals (sample_er_clause x y)) \<and>
     clause_counts_ok (sample_er_clause x y) \<and> \<not> ClauseQueryProp (sample_er_clause x y) CPNoGeneration \<and>
     unifiable res_tb {(x, y)}"
proof -
  obtain st x y where s: "st_ok res_tb 1 st" "x \<noteq> y" "TermIsFreeVar x" "TermIsFreeVar y"
    "lit_in res_tb (is_banks st) (res_lit False x y)" "lit_in res_tb (is_banks st) (res_lit True (sample_g x) (sample_g y))"
    "t_type x = 1" "t_type y = 1"
    using sample_state by blast
  have pos: "EqnIsPositive (res_lit pos u v) = pos" for pos u v
    by (simp add: res_lit_def EqnIsPositive_def EqnQueryProp_def EPIsPositive_def)
  have "clause_counts_ok (sample_er_clause x y)"
    using pos by (simp add: clause_counts_ok_def sample_er_clause_def)
  moreover have "\<not> ClauseQueryProp (sample_er_clause x y) CPNoGeneration"
    by (simp add: sample_er_clause_def EmptyClauseAlloc_def ClauseQueryProp_def CPIgnoreProps_def CPNoGeneration_def)
  moreover have "unifiable res_tb {(x, y)}"
  proof -
    have "wf_term (tb_sig res_tb) x" "wf_term (tb_sig res_tb) y"
      using s(5) by (auto simp: lit_in_def lit_sorted_def sorted_term_def res_lit_def)
    then have "subst_typed (tb_sig res_tb) (\<lambda>v. if v = x then y else v)" using s(7,8) by (simp add: subst_typed_def)
    moreover have "inst (\<lambda>v. if v = x then y else v) x = inst (\<lambda>v. if v = x then y else v) y"
      using s(3,4) by (cases x; cases y) auto
    ultimately show ?thesis unfolding unifiable_def unifies_def by auto
  qed
  ultimately show ?thesis using s(1-6)
    by (intro exI [of _ st] exI [of _ x] exI [of _ y]) (simp add: fit_def sample_er_clause_def)
qed

text \<open>C13 \<open>ComputeAllEqnResolvents\<close> stores exactly the resolvents of a clause, in the order of its literals.
  Unless the clause is barred from generating, the literals resolved upon are all its negative ones,
  or all maximal negative ones; every one whose sides unify gives one resolvent, every other one
  none. The number returned is the number of clauses stored, all of which are fit for further
  inferences.\<close>

theorem ComputeAllEqnResolvents_complete:
  assumes "st_ok tb a st" and "fit tb st (literals c)" and "clause_counts_ok c"
  shows "\<exists>news st'. ComputeAllEqnResolvents left_first max_unifiers only_max c store a st =
      Some (int (length (concat news)), store_all c store (concat news), st') \<and>
    list_all2 (eq_resolvents tb (literals c))
      (if ClauseQueryProp c CPNoGeneration then [] else lits_from (eqres_literal only_max) (literals c) 0) news \<and>
    st_ok tb a st' \<and> st_le st st' \<and> (\<forall>cl \<in> set (concat news). fit tb st' (literals cl))"
  by (rule ComputeAllEqnResolvents_ok [OF assms])

theorem ComputeAllEqnResolvents_complete_witness:
  "\<exists>st x y store cl st'. ComputeAllEqnResolvents True 1 False (sample_er_clause x y) \<lparr>cs_clauses = [], cs_members = 0, cs_literals = 0\<rparr> 1 st =
     Some (1, store, st') \<and> x \<noteq> y \<and> cs_clauses store = [cl] \<and> st_ok res_tb 1 st'"
proof -
  obtain st x y where s: "st_ok res_tb 1 st" "x \<noteq> y" "fit res_tb st (literals (sample_er_clause x y))"
    "clause_counts_ok (sample_er_clause x y)" "\<not> ClauseQueryProp (sample_er_clause x y) CPNoGeneration" "unifiable res_tb {(x, y)}"
    using sample_er by blast
  let ?c = "sample_er_clause x y" and ?e = "\<lparr>cs_clauses = [], cs_members = 0, cs_literals = 0\<rparr>"
  obtain news st' where r: "ComputeAllEqnResolvents True 1 False ?c ?e 1 st =
      Some (int (length (concat news)), store_all ?c ?e (concat news), st')"
    "list_all2 (eq_resolvents res_tb (literals ?c)) (lits_from (eqres_literal False) (literals ?c) 0) news" "st_ok res_tb 1 st'"
    using ComputeAllEqnResolvents_complete [OF s(1,3,4), of True 1 False ?e] s(5) by auto
  have "[0..<2] = [0, 1::nat]" by (simp add: upt_rec)
  then have "lits_from (eqres_literal False) (literals ?c) 0 = [0]"
    by (simp add: lits_from_def sample_er_clause_def eqres_literal_def res_lit_def EqnIsPositive_def EqnQueryProp_def EPIsPositive_def
        numeral_2_eq_2)
  then obtain new where n: "news = [new]" "eq_resolvents res_tb (literals ?c) 0 new" using r(2) by (auto simp: list_all2_Cons1)
  have "literals ?c ! 0 = res_lit False x y" by (simp add: sample_er_clause_def)
  then obtain cl where "new = [cl]" using n(2) s(6) by (auto simp: eq_resolvents_def res_lit_def)
  then show ?thesis using r(1,3) s(2) n(1)
    by (intro exI [of _ st] exI [of _ x] exI [of _ y] exI [of _ "store_all ?c ?e [cl]"] exI [of _ "child_clause ?c cl"] exI [of _ st'])
      (simp add: store_all_clauses)
qed

text \<open>\<open>ClauseERNormalizeVar\<close> always returns, and what it returns is equivalent to the clause given: the
  two are valid in the same interpretations. Every step drops a literal and adds one to the depth
  and the size of the proof; no disequation of two variables (with \<open>strong\<close>: of a variable and a
  term) that could still be resolved upon is left; and the clause is stored if it was changed.\<close>

theorem ClauseERNormalizeVar_equivalent:
  assumes "st_ok tb a st" and "fit tb st (literals c)" and "clause_counts_ok c"
  shows "\<exists>n c' store' st'. ClauseERNormalizeVar left_first max_unifiers c store a strong st = Some (n, c', store', st') \<and>
    st_ok tb a st' \<and> st_le st st' \<and> fit tb st' (literals c') \<and> er_result (ty :: 'd itself) tb strong c n c' \<and>
    (\<not> ClauseQueryProp c CPNoGeneration \<longrightarrow> er_done tb strong (literals c') 0) \<and>
    (if n = 0 then c' = c \<and> store' = store else store' = ClauseSetInsert store c')"
  by (rule ClauseERNormalizeVar_ok [OF assms])

theorem ClauseERNormalizeVar_equivalent_witness:
  "\<exists>st x y n c' store' st'. ClauseERNormalizeVar True 1 (sample_er_clause x y) \<lparr>cs_clauses = [], cs_members = 0, cs_literals = 0\<rparr> 1 False st =
     Some (n, c', store', st') \<and> x \<noteq> y \<and> 0 < n \<and> store' = ClauseSetInsert \<lparr>cs_clauses = [], cs_members = 0, cs_literals = 0\<rparr> c' \<and>
     er_result (TYPE(nat)) res_tb False (sample_er_clause x y) n c'"
proof -
  obtain st x y where s: "st_ok res_tb 1 st" "x \<noteq> y" "TermIsFreeVar x" "TermIsFreeVar y" "fit res_tb st (literals (sample_er_clause x y))"
    "clause_counts_ok (sample_er_clause x y)" "\<not> ClauseQueryProp (sample_er_clause x y) CPNoGeneration" "unifiable res_tb {(x, y)}"
    using sample_er by blast
  let ?c = "sample_er_clause x y" and ?e = "\<lparr>cs_clauses = [], cs_members = 0, cs_literals = 0\<rparr>"
  obtain n c' store' st' where r: "ClauseERNormalizeVar True 1 ?c ?e 1 False st = Some (n, c', store', st')"
    "er_result (TYPE(nat)) res_tb False ?c n c'" "er_done res_tb False (literals c') 0"
    "if n = 0 then c' = ?c \<and> store' = ?e else store' = ClauseSetInsert ?e c'"
    using ClauseERNormalizeVar_equivalent [OF s(1,5,6), of True 1 ?e False "TYPE(nat)"] s(7) by auto
  have "n \<noteq> 0"
  proof
    assume "n = 0"
    then have d: "er_done res_tb False (literals ?c) 0" using r(3,4) by simp
    have l: "literals ?c ! 0 = res_lit False x y" "0 < length (literals ?c)" by (simp_all add: sample_er_clause_def)
    have "er_literal False (res_lit False x y)"
      using s(3,4) by (simp add: er_literal_def EqnIsPureVar_def EqnIsNegative_def res_lit_def EqnQueryProp_def EPIsPositive_def)
    then show False using d l s(8) by (auto simp: er_done_def res_lit_def)
  qed
  moreover have "0 \<le> n" using r(2) by (simp add: er_result_def)
  ultimately show ?thesis using r(1,2,4) s(2)
    by (intro exI [of _ st] exI [of _ x] exI [of _ y] exI [of _ n] exI [of _ c'] exI [of _ store'] exI [of _ st']) simp
qed

end
