(* ===== verification/Factoring.thy ===== *)
theory Factoring
  imports InferenceSteps
begin

text \<open>
  Ordered factoring (\<open>CLAUSES/ccl_factor.c\<close>): a factor unifies two literals of a clause, one of which
  stays maximal under the unifier. The code, what the comparisons under a unifier rely on, the factors,
  and the enumeration of the pairs of literals.
\<close>

section \<open>The code\<close>

text \<open>
  The literals of a clause are compared as a store, by their numbers. The exchange of the sides of the
  second literal, which is undone after unification, is applied to the argument of \<open>EqnUnifyDirected\<close>.
\<close>

definition lit_is_maximal :: "int \<Rightarrow> OCB \<Rightarrow> bindings \<Rightarrow> Clause \<Rightarrow> nat \<Rightarrow> (bool \<times> OCB) option" where
  "lit_is_maximal lim ocb b clause i =
     EqnListEqnIsMaximal lim ocb b (literals clause) [0..<length (literals clause)] i"

definition ComputeOrderedFactor ::
  "int \<Rightarrow> OCB \<Rightarrow> ClausePos \<Rightarrow> ClausePos \<Rightarrow> nat \<Rightarrow> inf_state \<Rightarrow> (Clause option \<times> OCB \<times> inf_state) option" where
  "ComputeOrderedFactor lim ocb pos1 pos2 freshvars st =
     do { c_assert (cp_clause pos1 = cp_clause pos2);
          c_assert (cp_literal pos1 \<noteq> cp_literal pos2);
          c_assert (cp_side pos1 = LeftSide);
          clause \<leftarrow> cp_clause pos1;
          let subst = SubstAlloc;
          st \<leftarrow> reset_bank freshvars st;
          lit1 \<leftarrow> cp_lit pos1;
          lit2 \<leftarrow> cp_lit pos2;
          let lit2 = (if cp_side pos2 = RightSide then EqnSwapSidesSimple lit2 else lit2);
          (unifies, subst, b) \<leftarrow> EqnUnifyDirected lit1 lit2 subst (is_binds st);
          let st = st\<lparr>is_binds := b\<rparr>;
          (new_clause, subst, ocb, st) \<leftarrow>
            (if unifies
             then do { i \<leftarrow> cp_literal pos1;
                       (maximal, ocb) \<leftarrow> lit_is_maximal lim ocb b clause i;
                       if maximal
                       then do { (subst, st) \<leftarrow> norm_literals (literals clause) (cp_literal pos2) subst freshvars st;
                                 (new_literals, st) \<leftarrow> copy_literals (literals clause) (cp_literal pos2) st;
                                 let new_literals = snd (EqnListRemoveResolved new_literals);
                                 let new_literals = snd (EqnListRemoveDuplicates (snd (is_banks st)) new_literals);
                                 let (clause, st) = alloc_clause new_literals st;
                                 Some (Some clause, subst, ocb, st) }
                       else Some (None, subst, ocb, st) }
             else Some (None, subst, ocb, st));
          st \<leftarrow> SubstDelete subst st;
          Some (new_clause, ocb, st) }"

section \<open>The search for factors\<close>

partial_function (option) ordered_factor_loop ::
  "ClausePos \<Rightarrow> ClausePos \<Rightarrow> (nat option \<times> ClausePos \<times> ClausePos) option" where [code]:
  "ordered_factor_loop pos1 pos2 =
     (if cp_literal pos2 \<noteq> None then Some (cp_literal pos2, pos1, pos2)
      else do { pos1 \<leftarrow> cp_next pos1;
                pos1 \<leftarrow> ClausePosFindMaxLiteral pos1 True;
                if cp_literal pos1 = None then Some (None, pos1, pos2)
                else do { nxt \<leftarrow> cp_next pos1;
                          pos2 \<leftarrow> ClausePosFindMaxLiteral (pos2\<lparr>cp_literal := cp_literal nxt\<rparr>) True;
                          ordered_factor_loop pos1 pos2 } })"

definition ClausePosNextOrderedFactorLiterals ::
  "ClausePos \<Rightarrow> ClausePos \<Rightarrow> (nat option \<times> ClausePos \<times> ClausePos) option" where
  "ClausePosNextOrderedFactorLiterals pos1 pos2 =
     do { swap \<leftarrow> (if cp_side pos2 = LeftSide
                    then do { lit2 \<leftarrow> cp_lit pos2;
                              if \<not> EqnIsOriented lit2 then Some True
                              else do { lit1 \<leftarrow> cp_lit pos1; Some (\<not> EqnIsOriented lit1) } }
                    else Some False);
          if swap then Some (cp_literal pos2, pos1, pos2\<lparr>cp_side := RightSide\<rparr>)
          else do { pos2 \<leftarrow> cp_next (pos2\<lparr>cp_side := LeftSide\<rparr>);
                    pos2 \<leftarrow> ClausePosFindMaxLiteral pos2 True;
                    ordered_factor_loop pos1 pos2 } }"

definition ClausePosFirstOrderedFactorLiterals ::
  "Clause \<Rightarrow> ClausePos \<Rightarrow> ClausePos \<Rightarrow> (nat option \<times> ClausePos \<times> ClausePos) option" where
  "ClausePosFirstOrderedFactorLiterals clause pos1 pos2 =
     do { pos1 \<leftarrow> ClausePosFindMaxLiteral
            (pos1\<lparr>cp_clause := Some clause, cp_literal := first_literal clause, cp_side := LeftSide,
                  cp_pos := PStackReset (cp_pos pos1)\<rparr>) True;
          if cp_literal pos1 \<noteq> None
          then ClausePosNextOrderedFactorLiterals pos1
                 (pos2\<lparr>cp_clause := Some clause, cp_literal := cp_literal pos1, cp_side := RightSide,
                       cp_pos := PStackReset (cp_pos pos2)\<rparr>)
          else Some (None, pos1, pos2) }"

section \<open>Comparisons under a unifier\<close>

text \<open>
  What the test of maximality relies on: an ordering on the symbols of the bank, and literals compared by
  it alone whose orientation is up to date. The bound on the codes of symbols and the limit of the path
  orderings must not show on the instances that are compared.
\<close>

definition factor_ord ::
  "int \<Rightarrow> OCB \<Rightarrow> TB \<Rightarrow> Eqn list \<Rightarrow> (Term_p \<times> Term_p) set \<Rightarrow> bool" where
  "factor_ord lim o0 tb lits E \<longleftrightarrow> to_valid o0 \<and> lit_cmp o0 = LCNormal \<and> ocb_sig o0 = tb_sig tb \<and>
     (\<forall>e \<in> set lits. \<not> EqnIsSelected e \<and> \<not> EqnQueryProp e EPPseudoLit \<and> (EqnIsOriented e \<longrightarrow> to_gt o0 (lterm e) (rterm e))) \<and>
     (\<forall>b. unifier_of tb E b \<longrightarrow> (\<forall>s \<in> set (lit_terms lits). term_syms (sigma b s) \<subseteq> symbols \<and>
        (\<forall>t \<in> set (lit_terms lits). within_limit lim o0 (sigma b s) (sigma b t))))"

lemma known_code:
  assumes "known p vbs v" and "known p vbs w" and "var_bank v = p" and "var_bank w = p" and "f_code v = f_code w"
  shows "v = w"
proof -
  have "var_code v = var_code w" using assms(5) by (simp add: var_code_def)
  then show ?thesis using assms(1-4) by (simp add: known_def Let_def)
qed

lemma vars_by_code_bank:
  assumes "binds_bank tb bks b" and "store_ok (snd bks)" and "in_bank tb bks s" and "in_bank tb bks t"
  shows "vars_by_code (sigma b s) (sigma b t)"
proof -
  have v: "known (tb_vars tb) (fst bks) v \<and> var_bank v = tb_vars tb" if "v \<in> term_vars (sigma b s) \<union> term_vars (sigma b t)" for v
    using that sigma_vars_in_bank [OF assms(1,2,3)] sigma_vars_in_bank [OF assms(1,2,4)] in_bankD(5) by blast
  show ?thesis unfolding vars_by_code_def
    by (rule inj_onI) (use v known_code in blast)
qed

text \<open>An instance has the symbols of the term, and those of the values of its variables.\<close>

lemma term_syms_inst: "term_syms t \<subseteq> term_syms (inst \<theta> t)" "v \<in> term_vars t \<Longrightarrow> term_syms (\<theta> v) \<subseteq> term_syms (inst \<theta> t)"
proof (induction t)
  case (TermCell f p ty as)
  case 1
  then show ?case using TermCell.IH(1) by fastforce
next
  case (TermCell f p ty as)
  case 2
  then show ?case using TermCell.IH(2) by (fastforce split: if_splits)
qed

lemma bank_copies:
  assumes b: "binds_bank tb bks b" and sig: "ocb_sig o0 = tb_sig tb" and t: "in_bank tb bks t" and s: "term_syms (sigma b t) \<subseteq> symbols"
  shows "kbo_term o0 t" "kbo_term o0 (sigma b t)" "KBO_Correct.copies o0 b t DEREF_ALWAYS (sigma b t)"
    "v \<in> term_vars t \<Longrightarrow> kbo_term o0 (sigma b v)"
proof -
  note sw = binds_bankD(1) [OF b] and wf = in_bankD(2) [OF t]
  note i = sigma_inst [OF sw wf]
  show k: "kbo_term o0 t" using term_syms_inst(1) [of t "sigma b"] s wf sig by (simp add: kbo_term_def i [symmetric])
  show "KBO_Correct.copies o0 b t DEREF_ALWAYS (sigma b t)" using copies_always [OF _ k s] sw sig by simp
  then show "kbo_term o0 (sigma b t)" by (rule copies_kbo_term)
  show "kbo_term o0 (sigma b v)" if v: "v \<in> term_vars t"
    using term_syms_inst(2) [OF v, of "sigma b"] s sigma_wf(1) [OF sw term_vars_wf [OF wf v]] sig
    by (simp add: kbo_term_def i [symmetric])
qed

lemma factor_lits_ok:
  assumes "factor_ord lim o0 tb lits E" and "unifier_of tb E b" and "binds_bank tb bks b" and st: "store_ok (snd bks)"
    and "\<forall>e \<in> set lits. lit_in tb bks e"
  shows "lits_ok lim o0 b lits {..<length lits}"
proof -
  have F: "to_valid o0" "ocb_sig o0 = tb_sig tb"
    "\<And>e. e \<in> set lits \<Longrightarrow> \<not> EqnIsSelected e \<and> \<not> EqnQueryProp e EPPseudoLit \<and> (EqnIsOriented e \<longrightarrow> to_gt o0 (lterm e) (rterm e))"
    "\<And>s t. s \<in> set (lit_terms lits) \<Longrightarrow> t \<in> set (lit_terms lits) \<Longrightarrow> within_limit lim o0 (sigma b s) (sigma b t)"
    "\<And>s. s \<in> set (lit_terms lits) \<Longrightarrow> term_syms (sigma b s) \<subseteq> symbols"
    using assms(1,2) by (simp_all add: factor_ord_def)
  note sides = lit_terms_in_bank [OF assms(5)] and B = binds_bankD [OF assms(3)] and C = bank_copies [OF assms(3) F(2)]
  have gt: "to_gt o0 (sigma b s) (sigma b t)" if s: "s \<in> set (lit_terms lits)" and t: "t \<in> set (lit_terms lits)" and g: "to_gt o0 s t" for s t
  proof -
    have "kbo_term o0 (sigma b v)" if "v \<in> term_vars s \<union> term_vars t" for v
      using that C(4) sides s t F(5) by blast
    then have "to_gt o0 (inst (sigma b) s) (inst (sigma b) t)"
      using to_gt_stable [OF F(1) C(1) [OF sides [OF s] F(5) [OF s]] C(1) [OF sides [OF t] F(5) [OF t]] _ g] by blast
    then show ?thesis using sigma_inst [OF B(1)] in_bankD(2) sides s t by metis
  qed
  have pair: "lit_pair lim o0 b e e' (sigma b (lterm e)) (sigma b (rterm e)) (sigma b (lterm e')) (sigma b (rterm e'))"
    if "e \<in> set lits" "e' \<in> set lits" for e e'
  proof -
    have m: "{lterm e, rterm e, lterm e', rterm e'} \<subseteq> set (lit_terms lits)" using that by (auto simp: set_lit_terms)
    show ?thesis
      using m C(3) sides vars_by_code_bank [OF assms(3) st] F(4,5) by (simp add: lit_pair_def)
  qed
  have "to_gt o0 (sigma b (lterm e)) (sigma b (rterm e))" if "e \<in> set lits" "EqnIsOriented e" for e
    using gt [of "lterm e" "rterm e"] F(3) [OF that(1)] that by (auto simp: set_lit_terms)
  then show ?thesis using F(3) pair by (simp add: lits_ok_def)
qed

text \<open>The literal \<open>i\<close> is not smaller than another one that is marked as maximal.\<close>

definition stays_maximal :: "OCB \<Rightarrow> bindings \<Rightarrow> Eqn list \<Rightarrow> nat \<Rightarrow> bool" where
  "stays_maximal o0 b lits i \<longleftrightarrow> (\<forall>a < length lits. a \<noteq> i \<longrightarrow> EqnIsMaximal (lits ! a) \<longrightarrow>
     \<not> lit_gt o0 (lit_val b (lits ! a)) (lit_val b (lits ! i)))"

lemma lit_is_maximal_ok:
  assumes "factor_ord lim o0 tb (literals c) E" and "unifier_of tb E b" and "binds_bank tb bks b"
    and "store_ok (snd bks)" and "\<forall>e \<in> set (literals c). lit_in tb bks e" and "i < length (literals c)" and "to_state o0 ocb"
  shows "\<exists>ocb'. lit_is_maximal lim ocb b c i = Some (stays_maximal o0 b (literals c) i, ocb') \<and> to_state o0 ocb'"
proof -
  have F: "to_valid o0" "lit_cmp o0 = LCNormal" using assms(1) by (simp_all add: factor_ord_def)
  have ok: "lits_ok lim o0 b (literals c) {..<length (literals c)}"
    using factor_lits_ok [OF assms(1-5)] .
  show ?thesis
    using EqnListEqnIsMaximal_ok [OF F ok same_store_refl, of "[0..<length (literals c)]" i ocb] assms(6,7)
    by (auto simp: lit_is_maximal_def stays_maximal_def atLeast0LessThan)
qed

section \<open>Ordered factors\<close>

text \<open>The equations between two literals, the second one possibly with its sides exchanged.\<close>

definition factor_eqs :: "Eqn \<Rightarrow> Eqn \<Rightarrow> bool \<Rightarrow> (Term_p \<times> Term_p) set" where
  "factor_eqs e1 e2 swap = (if swap then {(lterm e1, rterm e2), (rterm e1, lterm e2)}
     else {(lterm e1, lterm e2), (rterm e1, rterm e2)})"

definition ordered_factor :: "OCB \<Rightarrow> TB \<Rightarrow> Eqn list \<Rightarrow> nat \<Rightarrow> nat \<Rightarrow> bool \<Rightarrow> Clause option \<Rightarrow> bool" where
  "ordered_factor o0 tb lits i j swap res \<longleftrightarrow> (let E = factor_eqs (lits ! i) (lits ! j) swap in
     if unifiable tb E
     then \<exists>b. unifier_of tb E b \<and>
       (if stays_maximal o0 b lits i then \<exists>cl. res = Some cl \<and> conclusion tb b (list_except lits (Some j)) cl else res = None)
     else res = None)"

lemma ComputeOrderedFactor_ok:
  assumes ok: "st_ok tb a st" and pos1: "pos_in tb (is_banks st) pos1 c i" and pos2: "pos_in tb (is_banks st) pos2 c j"
    and ij: "i \<noteq> j" "cp_side pos1 = LeftSide" and o: "to_state o0 ocb"
    and F: "factor_ord lim o0 tb (literals c)
      (factor_eqs (literals c ! i) (literals c ! j) (cp_side pos2 = RightSide))"
  shows "\<exists>res ocb' st'. ComputeOrderedFactor lim ocb pos1 pos2 a st = Some (res, ocb', st') \<and> to_state o0 ocb' \<and>
    st_ok tb a st' \<and> st_le st st' \<and> ordered_factor o0 tb (literals c) i j (cp_side pos2 = RightSide) res \<and>
    (\<forall>cl. res = Some cl \<longrightarrow> (\<forall>e \<in> set (literals cl). lit_in tb (is_banks st') e))"
proof -
  let ?sw = "cp_side pos2 = RightSide" and ?L = "literals c"
  let ?e1 = "?L ! i" and ?e2 = "if ?sw then EqnSwapSidesSimple (?L ! j) else ?L ! j" and ?E = "factor_eqs (?L ! i) (?L ! j) ?sw"
  obtain st0 where r: "reset_bank a st = Some st0" "st_ok tb a st0" "st_le st st0"
    using reset_bank_ok [OF ok] by blast
  have inf: "inf_ok tb a (is_banks st0)" "is_binds st0 = (\<lambda>_. None)" using r(2) by (simp_all add: st_ok_def)
  note P1 = pos_inD [OF pos_in_mono [OF pos1 r(3)]] and P2 = pos_inD [OF pos_in_mono [OF pos2 r(3)]]
  have b1: "in_bank tb (is_banks st0) t" if "t \<in> {lterm ?e1, rterm ?e1, lterm ?e2, rterm ?e2}" for t
    using that lit_inD(3,4) [OF P1(6)] lit_inD(3,4) [OF P2(6)] by (auto simp: EqnSwapSidesSimple_def)
  have sides: "sides_in tb (is_banks st0) (lterm ?e1) (lterm ?e2)" "sides_in tb (is_banks st0) (rterm ?e1) (rterm ?e2)"
    using b1 inf_okD(1,3) [OF inf(1)] by (simp_all add: sides_in_def)
  have E: "{(lterm ?e1, lterm ?e2), (rterm ?e1, rterm ?e2)} = ?E"
    by (simp add: factor_eqs_def EqnSwapSidesSimple_def)
  have bank: "eqn_bank ?e1 = eqn_bank ?e2"
    using lit_inD(5) [OF P1(6)] lit_inD(5) [OF P2(6)] by (simp add: EqnSwapSidesSimple_def)
  have s: "pstack_ok SubstAlloc" "pstack_list SubstAlloc = []" by (simp_all add: SubstAlloc_def)
  obtain res s1 b where u: "unify_both ?e1 ?e2 SubstAlloc (is_binds st0) = Some (res, s1, b)" "unified tb (is_banks st0) ?E res b s1"
    using unify_both_unifier [OF sides s] inf(2) unfolding E by auto
  have uni: "EqnUnifyDirected ?e1 ?e2 SubstAlloc (is_binds st0) = Some (res, s1, b)" using u(1) bank by (simp add: EqnUnifyDirected_def)
  have pre: "cp_clause pos2 = Some c" "cp_literal pos1 = Some i" "cp_literal pos2 = Some j"
    "cp_clause pos1 = Some c" "cp_lit pos1 = Some ?e1" "cp_lit pos2 = Some (?L ! j)" using P1 P2 ij(1) by simp_all
  show ?thesis
  proof (cases res)
    case False
    then have un: "b = (\<lambda>_. None)" "pstack_ok s1" "pstack_list s1 = []" "\<not> unifiable tb ?E" using u(2) by (simp_all add: unified_def)
    have "SubstDelete s1 st0 = Some st0" using st_run_delete [OF st_ok_run [OF r(2) un(2,3)]] inf(2) by simp
    moreover have "st0\<lparr>is_binds := b\<rparr> = st0" using inf(2) un(1) by simp
    ultimately have "ComputeOrderedFactor lim ocb pos1 pos2 a st = Some (None, ocb, st0)"
      using pre ij r(1) uni False by (simp add: ComputeOrderedFactor_def)
    then show ?thesis using r(2,3) o un(4) by (auto simp: ordered_factor_def)
  next
    case True
    then have u': "unified tb (is_banks st0) ?E True b s1" using u(2) by simp
    then have U: "binds_bank tb (is_banks st0) b" "trail (\<lambda>_. None) [] b s1" "unifiable tb ?E" "unifier_of tb ?E b"
      by (simp_all add: unified_def)
    obtain ocb' where m: "lit_is_maximal lim ocb b c i = Some (stays_maximal o0 b ?L i, ocb')" "to_state o0 ocb'"
      using lit_is_maximal_ok [OF F U(4,1) inf_okD(3) [OF inf(1)] P1(4,3) o] by blast
    show ?thesis
    proof (cases "stays_maximal o0 b ?L i")
      case False
      have run: "st_run tb a st0 s1 (st0\<lparr>is_binds := b\<rparr>)" using r(2) U(2) by (simp add: st_run_def st_ok_def st_le_def)
      have d: "SubstDelete s1 (st0\<lparr>is_binds := b\<rparr>) = Some st0" using st_run_delete [OF run] inf(2) by simp
      have "ComputeOrderedFactor lim ocb pos1 pos2 a st = Some (None, ocb', st0)"
        using pre ij r(1) uni True m(1) False d by (simp add: ComputeOrderedFactor_def)
      then show ?thesis using r(2,3) m(2) U(3,4) False by (auto simp: ordered_factor_def)
    next
      case max: True
      obtain s' st1 M st2 cl st' where B: "norm_literals ?L (Some j) s1 a (st0\<lparr>is_binds := b\<rparr>) = Some (s', st1)"
        "copy_literals ?L (Some j) st1 = Some (M, st2)"
        "alloc_clause (snd (EqnListRemoveDuplicates (snd (is_banks st2)) (snd (EqnListRemoveResolved M)))) st2 = (cl, st')"
        "conclusion tb b (list_except ?L (Some j)) cl" "\<forall>e \<in> set (literals cl). lit_in tb (is_banks st') e" "st_run tb a st0 s' st'"
        using norm_copy_run [OF r(2) P1(4) u', of "Some j"] by blast
      define st3 where "st3 = st'\<lparr>is_binds := \<lambda>_. None\<rparr>"
      have D: "SubstDelete s' st' = Some st3" "st_ok tb a st3" "st_le st0 st3" "is_banks st3 = is_banks st'"
        using st_run_delete [OF B(6)] by (simp_all add: st3_def)
      have "ComputeOrderedFactor lim ocb pos1 pos2 a st = Some (Some cl, ocb', st3)"
        using pre ij r(1) uni True m(1) max B(1-3) D(1) by (simp add: ComputeOrderedFactor_def)
      then show ?thesis using D st_le_trans [OF r(3)] m(2) U(3,4) max B(4,5) by (auto simp: ordered_factor_def)
    qed
  qed
qed

text \<open>A factor of two literals of the same sign follows from the clause.\<close>

lemma factor_eqs_lit:
  assumes "\<And>t u. (t, u) \<in> factor_eqs e1 e2 swap \<Longrightarrow> eval I \<beta> t = eval I \<beta> u" and "EqnIsPositive e1 = EqnIsPositive e2"
  shows "lit_true I \<beta> e1 = lit_true I \<beta> e2"
proof (cases swap)
  case True
  then have "eval I \<beta> (lterm e1) = eval I \<beta> (rterm e2)" "eval I \<beta> (rterm e1) = eval I \<beta> (lterm e2)"
    using assms(1) by (simp_all add: factor_eqs_def)
  then show ?thesis using assms(2) by (simp add: lit_true_def) metis
next
  case False
  then have "eval I \<beta> (lterm e1) = eval I \<beta> (lterm e2)" "eval I \<beta> (rterm e1) = eval I \<beta> (rterm e2)"
    using assms(1) by (simp_all add: factor_eqs_def)
  then show ?thesis using assms(2) by (simp add: lit_true_def)
qed

lemma list_except_nth:
  assumes "i < length lits" and "j < length lits" and "i \<noteq> j"
  shows "lits ! i \<in> set (list_except lits (Some j))"
proof (cases "i < j")
  case True
  then have "lits ! i = take j lits ! i" "i < length (take j lits)" using assms by simp_all
  then have "lits ! i \<in> set (take j lits)" by (metis nth_mem)
  then show ?thesis by (simp add: list_except_Some)
next
  case False
  then have "lits ! i = drop (Suc j) lits ! (i - Suc j)" "i - Suc j < length (drop (Suc j) lits)" using assms by simp_all
  then have "lits ! i \<in> set (drop (Suc j) lits)" by (metis nth_mem)
  then show ?thesis by (simp add: list_except_Some)
qed

lemma ordered_factor_sound:
  assumes "ordered_factor o0 tb lits i j swap (Some cl)" and ij: "i < length lits" "j < length lits" "i \<noteq> j"
    and same: "EqnIsPositive (lits ! i) = EqnIsPositive (lits ! j)"
    and lits: "\<forall>e \<in> set lits. lit_in tb bks e"
  shows "entails ty tb {lits} (literals cl)"
  unfolding entails_def valid_in_def
proof (intro allI impI)
  fix I :: "'a interp" and \<alpha>
  assume I: "interp_ok tb I" and C: "\<forall>C \<in> {lits}. \<forall>\<alpha>. value_ok tb I \<alpha> \<longrightarrow> clause_true I \<alpha> C" and val: "value_ok tb I \<alpha>"
  obtain b where b: "unifier_of tb (factor_eqs (lits ! i) (lits ! j) swap) b" "conclusion tb b (list_except lits (Some j)) cl"
    using assms(1) by (auto simp: ordered_factor_def Let_def split: if_splits)
  note L1 = lit_inD [OF bspec [OF lits nth_mem [OF ij(1)]]] and L2 = lit_inD [OF bspec [OF lits nth_mem [OF ij(2)]]]
  have bank: "\<forall>e \<in> set (list_except lits (Some j)). eqn_bank e = tb"
    using lits lit_inD(5) set_list_except by (metis subsetD)
  have sw: "subst_wf (tb_sig tb) b" using b(1) by (simp add: unifier_of_def)
  obtain \<beta> where \<beta>: "value_ok tb I \<beta>" "clause_true I \<alpha> (literals cl) \<longleftrightarrow> clause_true I \<beta> (list_except lits (Some j))"
    "\<And>t u. wf_term (tb_sig tb) t \<Longrightarrow> wf_term (tb_sig tb) u \<Longrightarrow> sigma b t = sigma b u \<Longrightarrow> eval I \<beta> t = eval I \<beta> u"
    using conclusion_true [OF I sw b(2) bank val] by blast
  have "eval I \<beta> t = eval I \<beta> u" if "(t, u) \<in> factor_eqs (lits ! i) (lits ! j) swap" for t u
    using that \<beta>(3) [of t u] b(1) L1(6,7) L2(6,7) by (auto simp: unifier_of_def factor_eqs_def split: if_splits)
  then have eq: "lit_true I \<beta> (lits ! i) = lit_true I \<beta> (lits ! j)" by (rule factor_eqs_lit [OF _ same])
  obtain e where e: "e \<in> set lits" "lit_true I \<beta> e" using C \<beta>(1) by (auto simp: clause_true_def)
  show "clause_true I \<alpha> (literals cl)"
  proof (cases "e = lits ! j")
    case False
    then show ?thesis using list_except_mem [OF e(1) ij(2)] e(2) \<beta>(2) by (auto simp: clause_true_def)
  next
    case True
    then have t: "lit_true I \<beta> (lits ! i)" using e(2) eq by simp
    have "lits ! i \<in> set (list_except lits (Some j))" using list_except_nth [OF ij] .
    then show ?thesis using t \<beta>(2) by (auto simp: clause_true_def)
  qed
qed

section \<open>The enumeration of literals for ordered factors\<close>

definition factor_sides :: "Eqn \<Rightarrow> Eqn \<Rightarrow> int list" where
  "factor_sides e1 e2 = LeftSide # (if EqnIsOriented e1 \<and> EqnIsOriented e2 then [] else [RightSide])"

definition factor_partners :: "Eqn list \<Rightarrow> nat \<Rightarrow> nat \<Rightarrow> (nat \<times> nat \<times> int) list" where
  "factor_partners lits i j = concat (map (\<lambda>j. map (\<lambda>sd. (i, j, sd)) (factor_sides (lits ! i) (lits ! j)))
     (lits_from (max_lit True) lits j))"

definition factors_from :: "Eqn list \<Rightarrow> nat \<Rightarrow> (nat \<times> nat \<times> int) list" where
  "factors_from lits i = concat (map (\<lambda>i. factor_partners lits i (Suc i)) (lits_from (max_lit True) lits i))"

definition factors_after :: "Eqn list \<Rightarrow> nat \<Rightarrow> nat \<Rightarrow> int \<Rightarrow> (nat \<times> nat \<times> int) list" where
  "factors_after lits i j sd =
     (if sd = LeftSide \<and> \<not> (EqnIsOriented (lits ! i) \<and> EqnIsOriented (lits ! j)) then [(i, j, RightSide)] else []) @
     factor_partners lits i (Suc j) @ factors_from lits (Suc i)"

definition pair_at :: "Clause \<Rightarrow> nat \<Rightarrow> nat \<Rightarrow> int \<Rightarrow> ClausePos \<Rightarrow> ClausePos \<Rightarrow> bool" where
  "pair_at c i j sd pos1 pos2 \<longleftrightarrow> cp_clause pos1 = Some c \<and> cp_clause pos2 = Some c \<and> cp_literal pos1 = Some i \<and>
     cp_literal pos2 = Some j \<and> i < length (literals c) \<and> j < length (literals c) \<and> cp_side pos1 = LeftSide \<and> cp_side pos2 = sd"

definition found_pair :: "Clause \<Rightarrow> (nat \<times> nat \<times> int) list \<Rightarrow> (nat option \<times> ClausePos \<times> ClausePos) option \<Rightarrow> bool" where
  "found_pair c pairs r \<longleftrightarrow> (case pairs of
     [] \<Rightarrow> (\<exists>pos1 pos2. r = Some (None, pos1, pos2))
   | (i, j, sd) # rest \<Rightarrow> (\<exists>pos1 pos2. r = Some (Some j, pos1, pos2) \<and> pair_at c i j sd pos1 pos2 \<and> i < j \<and>
       max_lit True (literals c ! i) \<and> max_lit True (literals c ! j) \<and> rest = factors_after (literals c) i j sd))"

lemma ordered_factor_loop_ok:
  assumes "cp_clause pos1 = Some c" and "cp_clause pos2 = Some c" and "cp_literal pos1 = Some i" and "i < length (literals c)"
    and "max_lit True (literals c ! i)" and "i < j"
    and "cp_literal pos2 = first_of (lits_from (max_lit True) (literals c) j)" and "cp_side pos1 = LeftSide" and "cp_side pos2 = LeftSide"
  shows "found_pair c (factor_partners (literals c) i j @ factors_from (literals c) (Suc i)) (ordered_factor_loop pos1 pos2)"
  using assms
proof (induction "length (literals c) - i" arbitrary: i j pos1 pos2 rule: less_induct)
  case less
  let ?L = "literals c"
  note loop = ordered_factor_loop.simps [of pos1 pos2]
  show ?case
  proof (cases "lits_from (max_lit True) ?L j")
    case (Cons k rest)
    then have k: "rest = lits_from (max_lit True) ?L (Suc k)" "j \<le> k" "k < length ?L" "max_lit True (?L ! k)"
      using lits_from_cases [of "max_lit True" ?L j] by auto
    have "factor_partners ?L i j @ factors_from ?L (Suc i) = (i, k, LeftSide) # factors_after ?L i k LeftSide"
      using Cons k(1) by (simp add: factor_partners_def factors_after_def factor_sides_def)
    then show ?thesis using less.prems k Cons by (simp add: loop found_pair_def pair_at_def)
  next
    case Nil
    then have none: "cp_literal pos2 = None" using less.prems(7) by simp
    have nxt: "cp_next pos1 = Some (pos1\<lparr>cp_literal := lit_at (length ?L) (Suc i)\<rparr>)"
      using cp_next_at less.prems(1,3,4) by blast
    have find1: "ClausePosFindMaxLiteral (pos1\<lparr>cp_literal := lit_at (length ?L) (Suc i)\<rparr>) True =
        Some (pos1\<lparr>cp_literal := first_of (lits_from (max_lit True) ?L (Suc i))\<rparr>)"
      using find_literal_ok [of "pos1\<lparr>cp_literal := lit_at (length ?L) (Suc i)\<rparr>" c "Suc i"] less.prems(1)
      by (simp add: ClausePosFindMaxLiteral_eq)
    have emp: "factor_partners ?L i j = []" using Nil by (simp add: factor_partners_def)
    show ?thesis
    proof (cases "lits_from (max_lit True) ?L (Suc i)")
      case nil: Nil
      then have "factors_from ?L (Suc i) = []" by (simp add: factors_from_def)
      then show ?thesis using emp none nxt find1 nil by (simp add: loop found_pair_def)
    next
      case cons: (Cons k rest)
      then have k: "rest = lits_from (max_lit True) ?L (Suc k)" "Suc i \<le> k" "k < length ?L" "max_lit True (?L ! k)"
        using lits_from_cases [of "max_lit True" ?L "Suc i"] by auto
      let ?p1 = "pos1\<lparr>cp_literal := Some k\<rparr>"
      have nxt2: "cp_next ?p1 = Some (pos1\<lparr>cp_literal := lit_at (length ?L) (Suc k)\<rparr>)"
        using cp_next_at [of ?p1 c k] less.prems(1) k(3) by simp
      let ?p2 = "pos2\<lparr>cp_literal := first_of (lits_from (max_lit True) ?L (Suc k))\<rparr>"
      have find2: "ClausePosFindMaxLiteral (pos2\<lparr>cp_literal := lit_at (length ?L) (Suc k)\<rparr>) True = Some ?p2"
        using find_literal_ok [of "pos2\<lparr>cp_literal := lit_at (length ?L) (Suc k)\<rparr>" c "Suc k"] less.prems(2)
        by (simp add: ClausePosFindMaxLiteral_eq)
      have "found_pair c (factor_partners ?L k (Suc k) @ factors_from ?L (Suc k)) (ordered_factor_loop ?p1 ?p2)"
        using less.hyps [of k ?p1 ?p2 "Suc k"] less.prems k by simp
      moreover have "factors_from ?L (Suc i) = factor_partners ?L k (Suc k) @ factors_from ?L (Suc k)"
        using cons k(1) by (simp add: factors_from_def)
      moreover have "ordered_factor_loop pos1 pos2 = ordered_factor_loop ?p1 ?p2"
        using none nxt find1 cons nxt2 find2 by (simp add: loop)
      ultimately show ?thesis using emp by simp
    qed
  qed
qed

lemma ClausePosNextOrderedFactorLiterals_ok:
  assumes "pair_at c i j sd pos1 pos2" and "i \<le> j" and "max_lit True (literals c ! i)" and "sd = LeftSide \<longrightarrow> i < j \<and> max_lit True (literals c ! j)"
    and "sd = LeftSide \<or> sd = RightSide"
  shows "found_pair c (factors_after (literals c) i j sd) (ClausePosNextOrderedFactorLiterals pos1 pos2)"
proof -
  let ?L = "literals c"
  have at: "cp_clause pos1 = Some c" "cp_clause pos2 = Some c" "cp_literal pos1 = Some i" "cp_literal pos2 = Some j"
    "i < length ?L" "j < length ?L" "cp_side pos1 = LeftSide" "cp_side pos2 = sd" using assms(1) by (simp_all add: pair_at_def)
  have lits: "cp_lit pos1 = Some (?L ! i)" "cp_lit pos2 = Some (?L ! j)" using at by (simp_all add: cp_lit_def)
  show ?thesis
  proof (cases "sd = LeftSide \<and> \<not> (EqnIsOriented (?L ! i) \<and> EqnIsOriented (?L ! j))")
    case True
    have "factors_after ?L i j sd = (i, j, RightSide) # factors_after ?L i j RightSide"
      using True by (simp add: factors_after_def LeftSide_def RightSide_def)
    then show ?thesis using True at lits assms(3,4)
      by (auto simp: ClausePosNextOrderedFactorLiterals_def found_pair_def pair_at_def)
  next
    case False
    let ?p2 = "pos2\<lparr>cp_side := LeftSide, cp_literal := first_of (lits_from (max_lit True) ?L (Suc j))\<rparr>"
    have nxt: "cp_next (pos2\<lparr>cp_side := LeftSide\<rparr>) = Some (pos2\<lparr>cp_side := LeftSide, cp_literal := lit_at (length ?L) (Suc j)\<rparr>)"
      using cp_next_at [of "pos2\<lparr>cp_side := LeftSide\<rparr>" c j] at by simp
    have find: "ClausePosFindMaxLiteral (pos2\<lparr>cp_side := LeftSide, cp_literal := lit_at (length ?L) (Suc j)\<rparr>) True = Some ?p2"
      using find_literal_ok [of "pos2\<lparr>cp_side := LeftSide, cp_literal := lit_at (length ?L) (Suc j)\<rparr>" c "Suc j"] at
      by (simp add: ClausePosFindMaxLiteral_eq)
    have "ClausePosNextOrderedFactorLiterals pos1 pos2 = ordered_factor_loop pos1 ?p2"
      using False at lits nxt find by (auto simp: ClausePosNextOrderedFactorLiterals_def Let_def)
    moreover have "found_pair c (factor_partners ?L i (Suc j) @ factors_from ?L (Suc i)) (ordered_factor_loop pos1 ?p2)"
      by (rule ordered_factor_loop_ok) (use at assms(2,3) in simp_all)
    moreover have "factors_after ?L i j sd = factor_partners ?L i (Suc j) @ factors_from ?L (Suc i)"
      using False by (auto simp: factors_after_def)
    ultimately show ?thesis by simp
  qed
qed

lemma ClausePosFirstOrderedFactorLiterals_ok:
  "found_pair c (factors_from (literals c) 0) (ClausePosFirstOrderedFactorLiterals c pos1 pos2)"
proof -
  let ?L = "literals c"
  let ?p = "pos1\<lparr>cp_clause := Some c, cp_literal := first_literal c, cp_side := LeftSide, cp_pos := PStackReset (cp_pos pos1)\<rparr>"
  have find: "ClausePosFindMaxLiteral ?p True = Some (?p\<lparr>cp_literal := first_of (lits_from (max_lit True) ?L 0)\<rparr>)"
    using find_literal_ok [of ?p c 0] by (simp add: ClausePosFindMaxLiteral_eq first_literal_at)
  show ?thesis
  proof (cases "lits_from (max_lit True) ?L 0")
    case Nil
    then show ?thesis using find by (simp add: ClausePosFirstOrderedFactorLiterals_def found_pair_def factors_from_def)
  next
    case (Cons k rest)
    then have k: "rest = lits_from (max_lit True) ?L (Suc k)" "k < length ?L" "max_lit True (?L ! k)"
      using lits_from_cases [of "max_lit True" ?L 0] by auto
    let ?p1 = "?p\<lparr>cp_literal := Some k\<rparr>"
    let ?p2 = "pos2\<lparr>cp_clause := Some c, cp_literal := Some k, cp_side := RightSide, cp_pos := PStackReset (cp_pos pos2)\<rparr>"
    have "found_pair c (factors_after ?L k k RightSide) (ClausePosNextOrderedFactorLiterals ?p1 ?p2)"
      by (rule ClausePosNextOrderedFactorLiterals_ok) (use k in \<open>simp_all add: pair_at_def LeftSide_def RightSide_def\<close>)
    moreover have "factors_from ?L 0 = factors_after ?L k k RightSide"
      using Cons k(1) by (simp add: factors_from_def factors_after_def LeftSide_def RightSide_def)
    moreover have "ClausePosFirstOrderedFactorLiterals c pos1 pos2 = ClausePosNextOrderedFactorLiterals ?p1 ?p2"
      using find Cons by (simp add: ClausePosFirstOrderedFactorLiterals_def)
    ultimately show ?thesis by simp
  qed
qed

end
