(* ===== verification/EqFactoring.thy ===== *)
theory EqFactoring
  imports Factoring
begin

text \<open>
  Equality factoring (\<open>CLAUSES/ccl_factor.c\<close>): a maximal side of a positive literal is unified with a
  side of another positive literal; the first literal is replaced by the condition that the other sides
  differ. The code, the factors, and the enumeration of the pairs of sides.
\<close>

section \<open>The code\<close>

text \<open>\<open>TBInsertNoProps\<close> on the state.\<close>

definition insert_term :: "TB \<Rightarrow> Term_p \<Rightarrow> inf_state \<Rightarrow> (Term_p \<times> inf_state) option" where
  "insert_term bank t st =
     do { (t, bks) \<leftarrow> TBInsertNoProps bank (is_binds st) t DEREF_ALWAYS (is_banks st); Some (t, st\<lparr>is_banks := bks\<rparr>) }"

text \<open>The factor of a unifier, and the loop over the unifiers.\<close>

definition build_eq_factor ::
  "TB \<Rightarrow> ClausePos \<Rightarrow> ClausePos \<Rightarrow> Clause \<Rightarrow> Term_p \<Rightarrow> Term_p pstack \<Rightarrow> nat \<Rightarrow> inf_state \<Rightarrow>
   (Clause \<times> Term_p pstack \<times> inf_state) option" where
  "build_eq_factor bank pos1 pos2 clause min_term subst freshvars st =
     do { (subst, st) \<leftarrow> norm_literals (literals clause) (cp_literal pos2) subst freshvars st;
          (new_lside, st) \<leftarrow> insert_term bank min_term st;
          other \<leftarrow> ClausePosGetOtherSide pos2;
          (new_rside, st) \<leftarrow> insert_term bank other st;
          new_condition \<leftarrow> EqnAlloc new_lside new_rside bank False;
          (new_literals, st) \<leftarrow> copy_literals (literals clause) (cp_literal pos1) st;
          let new_literals = EqnListLambdaNormalize (new_condition # new_literals);
          let new_literals = snd (EqnListRemoveResolved new_literals);
          let new_literals = snd (EqnListRemoveDuplicates (snd (is_banks st)) new_literals);
          let (cl, st) = alloc_clause new_literals st;
          Some (cl, subst, st) }"

partial_function (option) eq_factor_loop ::
  "bool \<Rightarrow> int \<Rightarrow> TB \<Rightarrow> int \<Rightarrow> ClausePos \<Rightarrow> ClausePos \<Rightarrow> nat \<Rightarrow> CSUIterator \<Rightarrow> Term_p pstack \<Rightarrow> bool \<Rightarrow> Clause pstack \<Rightarrow> OCB \<Rightarrow>
   inf_state \<Rightarrow> (CSUIterator \<times> Term_p pstack \<times> bool \<times> Clause pstack \<times> OCB \<times> inf_state) option" where [code]:
  "eq_factor_loop left_first max_unifiers bank lim pos1 pos2 freshvars iter subst subst_is_ho res_clauses ocb st =
     do { (r, iter, subst, b) \<leftarrow> NextCSUElement left_first max_unifiers iter subst (is_binds st);
          let st = st\<lparr>is_binds := b\<rparr>;
          if r
          then do { clause \<leftarrow> cp_clause pos1;
                    i \<leftarrow> cp_literal pos1;
                    max_term \<leftarrow> ClausePosGetSide pos1;
                    min_term \<leftarrow> ClausePosGetOtherSide pos1;
                    (greater, ocb) \<leftarrow> TOGreater lim ocb b min_term max_term DEREF_ALWAYS DEREF_ALWAYS;
                    (maximal, ocb) \<leftarrow> (if greater then Some (False, ocb) else lit_is_maximal lim ocb b clause i);
                    (subst, subst_is_ho, res_clauses, st) \<leftarrow>
                      (if maximal
                       then do { let subst_is_ho = SubstHasHOBinding subst;
                                 (cl, subst, st) \<leftarrow> build_eq_factor bank pos1 pos2 clause min_term subst freshvars st;
                                 res_clauses \<leftarrow> push res_clauses cl;
                                 Some (subst, subst_is_ho, res_clauses, st) }
                       else Some (subst, subst_is_ho, res_clauses, st));
                    eq_factor_loop left_first max_unifiers bank lim pos1 pos2 freshvars iter subst subst_is_ho res_clauses ocb st }
          else Some (iter, subst, subst_is_ho, res_clauses, ocb, st) }"

definition ComputeEqualityFactor ::
  "bool \<Rightarrow> int \<Rightarrow> TB \<Rightarrow> int \<Rightarrow> OCB \<Rightarrow> ClausePos \<Rightarrow> ClausePos \<Rightarrow> nat \<Rightarrow> bool \<Rightarrow> Clause pstack \<Rightarrow> inf_state \<Rightarrow>
   (bool \<times> Clause pstack \<times> OCB \<times> inf_state) option" where
  "ComputeEqualityFactor left_first max_unifiers bank lim ocb pos1 pos2 freshvars subst_is_ho res_clauses st =
     do { let subst = SubstAlloc;
          lit1 \<leftarrow> cp_lit pos1;
          lit2 \<leftarrow> cp_lit pos2;
          c_assert (EqnIsPositive lit1);
          c_assert (EqnIsMaximal lit1);
          c_assert (EqnIsPositive lit2);
          c_assert (\<not> EqnIsOriented lit1 \<or> cp_side pos1 = LeftSide);
          max_term \<leftarrow> ClausePosGetSide pos1;
          with_term \<leftarrow> ClausePosGetSide pos2;
          applicable \<leftarrow> (if TermIsFreeVar max_term then EqnIsEquLit lit2 else Some True);
          applicable \<leftarrow> (if applicable \<and> TermIsFreeVar with_term then EqnIsEquLit lit1 else Some applicable);
          (subst, subst_is_ho, res_clauses, ocb, st) \<leftarrow>
            (if applicable
             then do { unif_iter \<leftarrow> CSUIterInit max_term with_term subst;
                       (unif_iter, subst, subst_is_ho, res_clauses, ocb, st) \<leftarrow>
                         eq_factor_loop left_first max_unifiers bank lim pos1 pos2 freshvars unif_iter subst subst_is_ho
                           res_clauses ocb st;
                       (subst, b) \<leftarrow> CSUIterDestroy unif_iter subst (is_binds st);
                       Some (subst, subst_is_ho, res_clauses, ocb, st\<lparr>is_binds := b\<rparr>) }
             else Some (subst, subst_is_ho, res_clauses, ocb, st));
          st \<leftarrow> SubstDelete subst st;
          Some (subst_is_ho, res_clauses, ocb, st) }"

definition find_next_potential_eq_factor_partner :: "ClausePos \<Rightarrow> ClausePos \<Rightarrow> (nat option \<times> ClausePos) option" where
  "find_next_potential_eq_factor_partner pos1 pos2 =
     do { pos2 \<leftarrow> ClausePosFindPosLiteral pos2 False;
          pos2 \<leftarrow> (if cp_literal pos2 = cp_literal pos1
                   then do { pos2 \<leftarrow> cp_next pos2; ClausePosFindPosLiteral pos2 False }
                   else Some pos2);
          Some (cp_literal pos2, pos2) }"

definition find_first_eq_factor_partner :: "ClausePos \<Rightarrow> ClausePos \<Rightarrow> (nat option \<times> ClausePos) option" where
  "find_first_eq_factor_partner pos1 pos2 =
     do { clause \<leftarrow> cp_clause pos1;
          lit1 \<leftarrow> cp_lit pos1;
          c_assert (EqnIsPositive lit1);
          c_assert (EqnIsMaximal lit1);
          find_next_potential_eq_factor_partner pos1
            (pos2\<lparr>cp_clause := Some clause, cp_literal := first_literal clause, cp_side := LeftSide,
                  cp_pos := PStackReset (cp_pos pos2)\<rparr>) }"

definition ClausePosFirstEqualityFactorSides ::
  "Clause \<Rightarrow> ClausePos \<Rightarrow> ClausePos \<Rightarrow> (nat option \<times> ClausePos \<times> ClausePos) option" where
  "ClausePosFirstEqualityFactorSides clause pos1 pos2 =
     do { (side, pos1) \<leftarrow> ClausePosFindFirstMaximalSide
            (pos1\<lparr>cp_clause := Some clause, cp_literal := first_literal clause\<rparr>) True;
          if side \<noteq> None
          then do { (lit, pos2) \<leftarrow> find_first_eq_factor_partner pos1 pos2; Some (lit, pos1, pos2) }
          else Some (None, pos1, pos2) }"

definition ClausePosNextEqualityFactorSides ::
  "ClausePos \<Rightarrow> ClausePos \<Rightarrow> (nat option \<times> ClausePos \<times> ClausePos) option" where
  "ClausePosNextEqualityFactorSides pos1 pos2 =
     (if cp_side pos2 = LeftSide then Some (cp_literal pos2, pos1, pos2\<lparr>cp_side := RightSide\<rparr>)
      else do { pos2 \<leftarrow> cp_next (pos2\<lparr>cp_side := LeftSide\<rparr>);
                (lit, pos2) \<leftarrow> find_next_potential_eq_factor_partner pos1 pos2;
                if lit = None
                then do { (side, pos1) \<leftarrow> ClausePosFindNextMaximalSide pos1 True;
                          if side \<noteq> None
                          then do { (lit, pos2) \<leftarrow> find_first_eq_factor_partner pos1 pos2; Some (lit, pos1, pos2) }
                          else Some (None, pos1, pos2) }
                else Some (lit, pos1, pos2) })"

section \<open>Building a factor\<close>

text \<open>The sides of the literals, the condition that replaces the first literal, and the factor.\<close>

definition other_term :: "Eqn \<Rightarrow> int \<Rightarrow> Term_p" where
  "other_term e sd = (if sd = LeftSide then rterm e else lterm e)"

definition eq_factor_clause ::
  "TB \<Rightarrow> bindings \<Rightarrow> Eqn list \<Rightarrow> nat \<Rightarrow> Term_p \<Rightarrow> nat \<Rightarrow> Term_p \<Rightarrow> Clause \<Rightarrow> bool" where
  "eq_factor_clause tb b lits i min_term j other cl \<longleftrightarrow> (\<exists>\<rho> n h.
     renaming_on (tb_sig tb) \<rho> (lit_vars b (list_except lits (Some j))) \<and>
     (let \<theta> = \<lambda>v. inst \<rho> (sigma b v) in
        eqn_bank h = tb \<and> \<not> EqnIsPositive h \<and> {lterm h, rterm h} = {inst \<theta> min_term, inst \<theta> other} \<and>
        cl = fst (ClauseAlloc n (simplified (h # map (inst_lit \<theta>) (list_except lits (Some i)))))))"

lemma copy_term_ren:
  assumes "copying tb a st st'" and "in_bank tb (is_banks st) t"
  shows "inst (copy_of tb st') t = inst (\<lambda>v. inst (copy_ren tb (is_binds st) (is_binds st')) (sigma (is_binds st) v)) t"
proof -
  obtain vbs where N: "normed tb a (is_binds st) (is_banks st) (is_binds st') (is_special st') vbs"
    using assms(1) unfolding copying_def by blast
  show ?thesis
    using copy_subst_ren [OF N] sigma_inst [OF norm_invD(3) [OF normedD(1) [OF N]]] in_bankD(2) [OF assms(2)]
    by (simp flip: inst_comp)
qed

lemma insert_term_ok:
  assumes "copying tb a st st'" and "in_bank tb (is_banks st) t"
  shows "\<exists>bks. insert_term tb t st' = Some (inst (copy_of tb st') t, st'\<lparr>is_banks := bks\<rparr>) \<and>
    copying tb a st (st'\<lparr>is_banks := bks\<rparr>) \<and> st_le st' (st'\<lparr>is_banks := bks\<rparr>) \<and>
    in_bank tb bks (inst (copy_of tb st') t) \<and> t_type (inst (copy_of tb st') t) = t_type t"
proof -
  obtain vbs where c: "normed tb a (is_binds st) (is_banks st) (is_binds st') (is_special st') vbs"
    "copy_inv tb (is_banks st) vbs (is_banks st')" "banks_le (vbs, snd (is_banks st)) (is_banks st')"
    using assms(1) unfolding copying_def by blast
  obtain bks where b: "TBInsert tb (is_binds st') t DEREF_ALWAYS (is_banks st') = Some (inst (copy_of tb st') t, bks)"
    "copy_inv tb (is_banks st) vbs bks" "banks_le (is_banks st') bks" "TermIsShared (snd bks) (inst (copy_of tb st') t)"
    using copy_insert [OF c(1) assms(2)] c(2) unfolding builds_def copy_inv_def by blast
  have le: "banks_le (vbs, snd (is_banks st)) bks" using banks_le_trans [OF c(3) b(3)] .
  have "copying tb a st (st'\<lparr>is_banks := bks\<rparr>)" using c(1) b(2) le unfolding copying_def by auto
  moreover have "st_le st' (st'\<lparr>is_banks := bks\<rparr>)"
    using b(3) vbs_same_ext unfolding st_le_def banks_le_def by auto
  ultimately show ?thesis
    using b(1) copy_in_bank [OF c(1) assms(2) le b(4)] by (intro exI [of _ bks]) (simp add: insert_term_def TBInsertNoProps_def)
qed

lemma in_bank_le: "in_bank tb (is_banks st) t \<Longrightarrow> st_le st st' \<Longrightarrow> in_bank tb (is_banks st') t"
  unfolding st_le_def using in_bank_mono by blast

lemma side_in_bank:
  assumes "lit_in tb bks e"
  shows "in_bank tb bks (side_term e sd)" "in_bank tb bks (other_term e sd)" "t_type (side_term e sd) = t_type (other_term e sd)"
    "side_term e sd \<noteq> false_term tb" "other_term e sd \<noteq> false_term tb"
  using lit_inD [OF assms] by (auto simp: side_term_def other_term_def lit_sorted_def lit_normal_def)

lemma inst_not_false:
  assumes "tb_ok tb" and "sorted_subst tb \<theta>" and "in_bank tb bks t" and "t \<noteq> false_term tb"
  shows "inst \<theta> t \<noteq> false_term tb"
  using inst_const_iff [OF assms(1,2) in_bankD(1) [OF assms(3)], of "false_term tb"] assms(4) by simp

lemma build_eq_factor_ok:
  assumes ok: "st_ok tb a st" and u: "unified tb (is_banks st) E True b s"
    and c: "cp_literal pos1 = Some i" "cp_literal pos2 = Some j" "ClausePosGetOtherSide pos2 = Some (other_term (literals c ! j) sd2)"
    and L: "\<forall>e \<in> set (literals c). lit_in tb (is_banks st) e" "i < length (literals c)" "j < length (literals c)"
    and ty: "t_type (other_term (literals c ! i) sd1) = t_type (other_term (literals c ! j) sd2)"
  shows "\<exists>cl s' st'. build_eq_factor tb pos1 pos2 c (other_term (literals c ! i) sd1) s a (st\<lparr>is_binds := b\<rparr>) = Some (cl, s', st') \<and>
    eq_factor_clause tb b (literals c) i (other_term (literals c ! i) sd1) j (other_term (literals c ! j) sd2) cl \<and>
    (\<forall>e \<in> set (literals cl). lit_in tb (is_banks st') e) \<and> st_run tb a st s' st'"
proof -
  let ?L = "literals c" and ?st = "st\<lparr>is_binds := b\<rparr>"
  let ?m = "other_term (?L ! i) sd1" and ?o = "other_term (?L ! j) sd2"
  have U: "binds_bank tb (is_banks st) b" "trail (\<lambda>_. None) [] b s" using u by (simp_all add: unified_def)
  have I: "inf_ok tb a (is_banks ?st)" "binds_bank tb (is_banks ?st) (is_binds ?st)"
    "\<forall>v \<in> is_special ?st. var_bank v = a" "trail (\<lambda>_. None) [] (is_binds ?st) s" "\<forall>e \<in> set ?L. lit_in tb (is_banks ?st) e"
    using ok U L(1) by (simp_all add: st_ok_def)
  have lits: "lit_in tb (is_banks ?st) (?L ! i)" "lit_in tb (is_banks ?st) (?L ! j)" using L by simp_all
  obtain s' st1 where n: "norm_literals ?L (Some j) s a ?st = Some (s', st1)" "copying tb a ?st st1"
    "trail (\<lambda>_. None) [] (is_binds st1) s'" "is_counter st1 = is_counter ?st"
    "renaming_on (tb_sig tb) (copy_ren tb (is_binds ?st) (is_binds st1)) (lit_vars (is_binds ?st) (list_except ?L (Some j)))"
    using norm_literals_ok [OF I] by blast
  let ?C = "copy_of tb st1" and ?\<theta> = "\<lambda>v. inst (copy_ren tb b (is_binds st1)) (sigma b v)"
  obtain bk2 where i1: "insert_term tb ?m st1 = Some (inst ?C ?m, st1\<lparr>is_banks := bk2\<rparr>)" "copying tb a ?st (st1\<lparr>is_banks := bk2\<rparr>)"
    "in_bank tb bk2 (inst ?C ?m)" "t_type (inst ?C ?m) = t_type ?m"
    using insert_term_ok [OF n(2) side_in_bank(2) [OF lits(1)]] by blast
  define st2 where "st2 = st1\<lparr>is_banks := bk2\<rparr>"
  have st2: "is_binds st2 = is_binds st1" "is_banks st2 = bk2" "is_special st2 = is_special st1" "is_counter st2 = is_counter st1"
    "copying tb a ?st st2" using i1(2) by (simp_all add: st2_def)
  obtain bk3 where i2: "insert_term tb ?o st2 = Some (inst ?C ?o, st2\<lparr>is_banks := bk3\<rparr>)" "copying tb a ?st (st2\<lparr>is_banks := bk3\<rparr>)"
    "st_le st2 (st2\<lparr>is_banks := bk3\<rparr>)" "in_bank tb bk3 (inst ?C ?o)" "t_type (inst ?C ?o) = t_type ?o"
    using insert_term_ok [OF st2(5) side_in_bank(2) [OF lits(2)]] unfolding st2(1) by blast
  define st3 where "st3 = st2\<lparr>is_banks := bk3\<rparr>"
  have st3: "is_binds st3 = is_binds st1" "is_banks st3 = bk3" "is_special st3 = is_special st1" "is_counter st3 = is_counter st1"
    "copying tb a ?st st3" "st_le st2 st3" using i2(2,3) st2 by (simp_all add: st3_def)
  have m3: "in_bank tb bk3 (inst ?C ?m)" using in_bank_le [of tb st2 "inst ?C ?m" st3] i1(3) st2(2) st3(2,6) by simp
  have tb: "tb_ok tb" using inf_okD(1) [OF I(1)] .
  obtain vbs where N: "normed tb a (is_binds ?st) (is_banks ?st) (is_binds st1) (is_special st1) vbs"
    using n(2) unfolding copying_def by blast
  note srt = copy_subst_sorted [OF N]
  have nf: "inst ?C ?m \<noteq> false_term tb" "inst ?C ?o \<noteq> false_term tb"
    using inst_not_false [OF tb srt side_in_bank(2,5) [OF lits(1)]] inst_not_false [OF tb srt side_in_bank(2,5) [OF lits(2)]] by blast+
  have tys: "t_type (inst ?C ?m) = t_type (inst ?C ?o)" using i1(4) i2(5) ty by simp
  obtain h where h: "EqnAlloc (inst ?C ?m) (inst ?C ?o) tb False = Some h" "eqn_bank h = tb" "lit_sorted tb h" "lit_normal h"
    "{lterm h, rterm h} = {inst ?C ?m, inst ?C ?o}" "\<not> EqnIsPositive h"
    using EqnAlloc_ok [OF tb in_bankD(1) [OF m3] in_bankD(1) [OF i2(4)] tys, of False] nf by (auto simp: alloc_true_def)
  obtain bk4 where k: "copy_literals ?L (Some i) st3 = Some (map (inst_lit ?C) (list_except ?L (Some i)), st3\<lparr>is_banks := bk4\<rparr>)"
    "copying tb a ?st (st3\<lparr>is_banks := bk4\<rparr>)" "st_le st3 (st3\<lparr>is_banks := bk4\<rparr>)"
    "\<forall>e \<in> set (map (inst_lit ?C) (list_except ?L (Some i))). lit_in tb bk4 e"
    using copy_literals_ok [OF st3(5) I(5), of "Some i"] unfolding st3(1) by blast
  define st4 where "st4 = st3\<lparr>is_banks := bk4\<rparr>"
  have st4: "is_binds st4 = is_binds st1" "is_banks st4 = bk4" "is_special st4 = is_special st1" "is_counter st4 = is_counter st1"
    "copying tb a ?st st4" "st_le st3 st4" using k(2,3) st3 by (simp_all add: st4_def)
  let ?M = "h # map (inst_lit ?C) (list_except ?L (Some i))"
  have "in_bank tb bk3 (lterm h)" "in_bank tb bk3 (rterm h)" using h(5) m3 i2(4) by (metis insert_iff singletonD)+
  then have "in_bank tb bk4 (lterm h)" "in_bank tb bk4 (rterm h)"
    using in_bank_le [of tb st3 _ st4] st3(2) st4(2,6) by simp_all
  then have M: "\<forall>e \<in> set ?M. lit_in tb (is_banks st4) e" using h(3,4) k(4) st4(2) by (simp add: lit_in_def)
  note simp = simplify_alloc [OF copying_le(2) [OF st4(5)] M]
  let ?cl = "fst (ClauseAlloc (is_counter st4) (simplified ?M))" and ?st' = "st4\<lparr>is_counter := is_counter st4 + 1\<rparr>"
  have "build_eq_factor tb pos1 pos2 c ?m s a ?st = Some (?cl, s', ?st')"
    unfolding build_eq_factor_def
    using n(1) i1(1) [folded st2_def] i2(1) [folded st3_def] h(1) k(1) [folded st4_def] c simp by simp
  moreover have "copying tb a ?st ?st'" using st4(5) by simp
  then have "st_run tb a st s' ?st'"
    using copying_le [of tb a ?st ?st'] n(3) st4(1) by (auto simp: st_run_def st_le_def)
  moreover have "\<forall>e \<in> set (literals ?cl). lit_in tb (is_banks ?st') e"
    using M simplified_subset [of ?M] by (auto simp: ClauseAlloc_set)
  moreover have "eq_factor_clause tb b ?L i ?m j ?o ?cl"
  proof -
    have ren: "renaming_on (tb_sig tb) (copy_ren tb b (is_binds st1)) (lit_vars b (list_except ?L (Some j)))"
      using n(5) by simp
    have same: "inst ?C t = inst ?\<theta> t" if "in_bank tb (is_banks ?st) t" for t
      using copy_term_ren [OF n(2) that] by simp
    have "map (inst_lit ?C) (list_except ?L (Some i)) = map (inst_lit ?\<theta>) (list_except ?L (Some i))"
      using set_list_except [of ?L "Some i"] I(5) copy_lit_ren [OF n(2)] by (intro map_cong refl) auto
    then have "?cl = fst (ClauseAlloc (is_counter st4) (simplified (h # map (inst_lit ?\<theta>) (list_except ?L (Some i)))))"
      by (simp only:)
    moreover have "{lterm h, rterm h} = {inst ?\<theta> ?m, inst ?\<theta> ?o}"
      using h(5) same side_in_bank(2) [OF lits(1)] side_in_bank(2) [OF lits(2)] by simp
    ultimately show ?thesis
      unfolding eq_factor_clause_def Let_def
      using ren h(2,6) by (intro exI [of _ "copy_ren tb b (is_binds st1)"] exI [of _ "is_counter st4"] exI [of _ h] conjI)
  qed
  ultimately show ?thesis by blast
qed

section \<open>The factors of a pair of sides\<close>

definition eq_factors :: "OCB \<Rightarrow> TB \<Rightarrow> Eqn list \<Rightarrow> nat \<Rightarrow> int \<Rightarrow> nat \<Rightarrow> int \<Rightarrow> Clause list \<Rightarrow> bool" where
  "eq_factors o0 tb lits i sd1 j sd2 cls \<longleftrightarrow>
     (let max_term = side_term (lits ! i) sd1; min_term = other_term (lits ! i) sd1;
          with_term = side_term (lits ! j) sd2; E = {(max_term, with_term)} in
      if unifiable tb E
      then \<exists>b. unifier_of tb E b \<and>
        (if \<not> to_gt o0 (sigma b min_term) (sigma b max_term) \<and> stays_maximal o0 b lits i
         then \<exists>cl. cls = [cl] \<and> eq_factor_clause tb b lits i min_term j (other_term (lits ! j) sd2) cl
         else cls = [])
      else cls = [])"

lemma to_gt_irrefl: "to_valid o0 \<Longrightarrow> kbo_term o0 t \<Longrightarrow> \<not> to_gt o0 t t"
  using wf_not_refl [OF wf_term_rel [of o0], of t] by (auto simp: term_rel_def)

lemma TOGreater_bank:
  assumes "factor_ord lim o0 tb lits E" and "unifier_of tb E b" and "binds_bank tb bks b"
    and "store_ok (snd bks)" and "\<forall>e \<in> set lits. lit_in tb bks e"
    and "s \<in> set (lit_terms lits)" and "t \<in> set (lit_terms lits)" and "to_state o0 ocb"
  shows "\<exists>ocb'. TOGreater lim ocb b s t DEREF_ALWAYS DEREF_ALWAYS = Some (to_gt o0 (sigma b s) (sigma b t), ocb') \<and> to_state o0 ocb'"
proof -
  have F: "to_valid o0" "ocb_sig o0 = tb_sig tb" "within_limit lim o0 (sigma b s) (sigma b t)"
    "term_syms (sigma b s) \<subseteq> symbols" "term_syms (sigma b t) \<subseteq> symbols"
    using assms(1,2,6,7) by (simp_all add: factor_ord_def)
  have inb: "in_bank tb bks s" "in_bank tb bks t" using lit_terms_in_bank [OF assms(5)] assms(6,7) by blast+
  note c = bank_copies(1-3) [OF assms(3) F(2) inb(1) F(4)] bank_copies(1-3) [OF assms(3) F(2) inb(2) F(5)]
  have v: "vars_by_code (sigma b s) (sigma b t)" by (rule vars_by_code_bank [OF assms(3,4) inb])
  obtain r ocb' where r: "TOGreater lim ocb b s t DEREF_ALWAYS DEREF_ALWAYS = Some (r = to_greater, ocb')" "to_state o0 ocb'"
    "r = (if sigma b s = sigma b t then to_equal else if to_gt o0 (sigma b s) (sigma b t) then to_greater
         else if to_gt o0 (sigma b t) (sigma b s) then to_lesser else to_uncomparable)"
    using TO_ok [OF F(1) assms(8) c(3,6) v F(3)] by blast
  have "(r = to_greater) = to_gt o0 (sigma b s) (sigma b t)"
    using r(3) to_gt_irrefl [OF F(1) c(2)] by auto
  then show ?thesis using r(1,2) by simp
qed

lemma pos_terms:
  assumes "pos_in tb bks pos c i"
  shows "ClausePosGetSide pos = Some (side_term (literals c ! i) (cp_side pos))"
    "ClausePosGetOtherSide pos = Some (other_term (literals c ! i) (cp_side pos))"
    "side_term (literals c ! i) sd \<in> set (lit_terms (literals c))" "other_term (literals c ! i) sd \<in> set (lit_terms (literals c))"
  using pos_inD [OF assms]
  by (auto simp: ClausePosGetSide_def ClausePosGetOtherSide_def side_term_def other_term_def set_lit_terms)

lemma unify_types:
  assumes "unifiable tb {(l, r)}" and "in_bank tb bks l" and "in_bank tb bks r"
  shows "t_type l = t_type r"
proof -
  obtain \<theta> where "subst_typed (tb_sig tb) \<theta>" "inst \<theta> l = inst \<theta> r" using assms(1) by (auto simp: unifiable_def unifies_def)
  then show ?thesis using inst_typed in_bankD(2) assms(2,3) by metis
qed

lemma eq_factor_loop_ok:
  assumes ok: "st_ok tb a st" and pos1: "pos_in tb (is_banks st) pos1 c i" and pos2: "pos_in tb (is_banks st) pos2 c j"
    and it: "csu_new (side_term (literals c ! i) (cp_side pos1)) (side_term (literals c ! j) (cp_side pos2)) it"
    and s: "pstack_ok s" "pstack_list s = []" and cls: "pstack_ok cls" and o: "to_state o0 ocb"
    and F: "factor_ord lim o0 tb (literals c)
      {(side_term (literals c ! i) (cp_side pos1), side_term (literals c ! j) (cp_side pos2))}"
  shows "\<exists>it' s' ho' cls' ocb' st' new. eq_factor_loop lf mu tb lim pos1 pos2 a it s ho cls ocb st =
      Some (it', s', ho', cls', ocb', st') \<and> init_pos it' = 0 \<and> to_state o0 ocb' \<and>
    st_run tb a st s' st' \<and> pstack_ok cls' \<and> pstack_list cls' = pstack_list cls @ new \<and>
    eq_factors o0 tb (literals c) i (cp_side pos1) j (cp_side pos2) new \<and>
    (\<forall>cl \<in> set new. \<forall>e \<in> set (literals cl). lit_in tb (is_banks st') e)"
proof -
  let ?L = "literals c" and ?sd1 = "cp_side pos1" and ?sd2 = "cp_side pos2"
  let ?mx = "side_term (?L ! i) ?sd1" and ?mn = "other_term (?L ! i) ?sd1"
    and ?w = "side_term (?L ! j) ?sd2" and ?o = "other_term (?L ! j) ?sd2"
  let ?E = "{(?mx, ?w)}"
  note P1 = pos_inD [OF pos1] and P2 = pos_inD [OF pos2] and T1 = pos_terms [OF pos1] and T2 = pos_terms [OF pos2]
  note S1 = side_in_bank [OF P1(6)] and S2 = side_in_bank [OF P2(6)]
  have none: "is_binds st = (\<lambda>_. None)" and inf: "inf_ok tb a (is_banks st)" using ok by (simp_all add: st_ok_def)
  have sides: "sides_in tb (is_banks st) ?mx ?w" using inf_okD(1,3) [OF inf] S1(1) S2(1) by (simp add: sides_in_def)
  obtain res it1 s1 b where n: "NextCSUElement lf mu it s (is_binds st) = Some (res, it1, s1, b)" "csu_spent it1"
    "unified tb (is_banks st) ?E res b s1"
    using NextCSUElement_first [OF it sides s] none by metis
  note loop = eq_factor_loop.simps [of lf mu tb lim pos1 pos2 a it s ho cls ocb st]
  show ?thesis
  proof (cases res)
    case False
    then have u: "b = (\<lambda>_. None)" "pstack_ok s1" "pstack_list s1 = []" "\<not> unifiable tb ?E" using n(3) by (simp_all add: unified_def)
    have "st\<lparr>is_binds := b\<rparr> = st" using none u(1) by simp
    then have "eq_factor_loop lf mu tb lim pos1 pos2 a it s ho cls ocb st = Some (it1, s1, ho, cls, ocb, st)"
      using n(1) False by (simp add: loop)
    moreover have "eq_factors o0 tb ?L i ?sd1 j ?sd2 []" using u(4) by (simp add: eq_factors_def Let_def)
    moreover have "init_pos it1 = 0" using n(2) by (simp add: csu_spent_def)
    ultimately show ?thesis using st_ok_run [OF ok u(2,3)] cls o by (intro exI [of _ "[]"] exI) auto
  next
    case True
    then have n3: "unified tb (is_banks st) ?E True b s1" using n(3) by simp
    then have U: "binds_bank tb (is_banks st) b" "trail (\<lambda>_. None) [] b s1" "unifiable tb ?E" "unifier_of tb ?E b"
      by (simp_all add: unified_def)
    obtain o1 where g: "TOGreater lim ocb b ?mn ?mx DEREF_ALWAYS DEREF_ALWAYS = Some (to_gt o0 (sigma b ?mn) (sigma b ?mx), o1)"
      "to_state o0 o1"
      using TOGreater_bank [OF F U(4,1) inf_okD(3) [OF inf] P1(4) T1(4,3) o] by blast
    obtain o2 where m: "lit_is_maximal lim o1 b c i = Some (stays_maximal o0 b ?L i, o2)" "to_state o0 o2"
      using lit_is_maximal_ok [OF F U(4,1) inf_okD(3) [OF inf] P1(4,3) g(2)] by blast
    let ?max = "\<not> to_gt o0 (sigma b ?mn) (sigma b ?mx) \<and> stays_maximal o0 b ?L i"
    obtain o3 where test: "(if to_gt o0 (sigma b ?mn) (sigma b ?mx) then Some (False, o1) else lit_is_maximal lim o1 b c i) = Some (?max, o3)"
      "to_state o0 o3" using m g(2) by (cases "to_gt o0 (sigma b ?mn) (sigma b ?mx)") auto
    have last: "\<exists>it' s''. eq_factor_loop lf mu tb lim pos1 pos2 a it1 s' h cs o3 st' =
        Some (it', s'', h, cs, o3, st'\<lparr>is_binds := \<lambda>_. None\<rparr>) \<and> init_pos it' = 0 \<and> st_run tb a st s'' (st'\<lparr>is_binds := \<lambda>_. None\<rparr>)"
      if run: "st_run tb a st s' st'" for s' st' h cs
    proof -
      have tr: "trail (\<lambda>_. None) [] (is_binds st') s'" using run by (simp add: st_run_def)
      obtain it3 s3 where n4: "NextCSUElement lf mu it1 s' (is_binds st') = Some (False, it3, s3, \<lambda>_. None)" "init_pos it3 = 0"
        "pstack_ok s3" "pstack_list s3 = []" using NextCSUElement_spent [OF n(2) tr] by blast
      then show ?thesis
        using st_run_none [OF run n4(3,4)] by (subst eq_factor_loop.simps) simp
    qed
    show ?thesis
    proof (cases ?max)
      case False
      have run: "st_run tb a st s1 (st\<lparr>is_binds := b\<rparr>)" using ok U(2) by (simp add: st_run_def st_ok_def st_le_def)
      obtain it' s'' where l: "eq_factor_loop lf mu tb lim pos1 pos2 a it1 s1 ho cls o3 (st\<lparr>is_binds := b\<rparr>) =
          Some (it', s'', ho, cls, o3, st\<lparr>is_binds := \<lambda>_. None\<rparr>)" "init_pos it' = 0" "st_run tb a st s'' (st\<lparr>is_binds := \<lambda>_. None\<rparr>)"
        using last [OF run, of ho cls] by auto
      have "eq_factor_loop lf mu tb lim pos1 pos2 a it s ho cls ocb st = Some (it', s'', ho, cls, o3, st\<lparr>is_binds := \<lambda>_. None\<rparr>)"
        using n(1) True P1(1,2) T1(1,2) g(1) test(1) False l(1) by (simp add: loop)
      moreover have "eq_factors o0 tb ?L i ?sd1 j ?sd2 []"
        unfolding eq_factors_def Let_def using U(3,4) False by auto
      ultimately show ?thesis using l(2,3) test(2) cls by (intro exI [of _ "[]"] exI) auto
    next
      case max: True
      have ty: "t_type ?mn = t_type ?o" using unify_types [OF U(3) S1(1) S2(1)] S1(3) S2(3) by simp
      obtain cl s2 st2 where bl: "build_eq_factor tb pos1 pos2 c ?mn s1 a (st\<lparr>is_binds := b\<rparr>) = Some (cl, s2, st2)"
        "eq_factor_clause tb b ?L i ?mn j ?o cl" "\<forall>e \<in> set (literals cl). lit_in tb (is_banks st2) e" "st_run tb a st s2 st2"
        using build_eq_factor_ok [OF ok n3 P1(2) P2(2) T2(2) P1(4,3) P2(3) ty] by blast
      obtain cls' where p: "push cls cl = Some cls'" "pstack_ok cls'" "pstack_list cls' = pstack_list cls @ [cl]"
        using push_ok [OF cls] by blast
      obtain it' s'' where l: "eq_factor_loop lf mu tb lim pos1 pos2 a it1 s2 False cls' o3 st2 =
          Some (it', s'', False, cls', o3, st2\<lparr>is_binds := \<lambda>_. None\<rparr>)" "init_pos it' = 0" "st_run tb a st s'' (st2\<lparr>is_binds := \<lambda>_. None\<rparr>)"
        using last [OF bl(4), of False cls'] by auto
      have "eq_factor_loop lf mu tb lim pos1 pos2 a it s ho cls ocb st = Some (it', s'', False, cls', o3, st2\<lparr>is_binds := \<lambda>_. None\<rparr>)"
        using n(1) True P1(1,2) T1(1,2) g(1) test(1) max bl(1) p(1) l(1) by (simp add: loop SubstHasHOBinding_def)
      moreover have "eq_factors o0 tb ?L i ?sd1 j ?sd2 [cl]"
        unfolding eq_factors_def Let_def using U(3,4) max bl(2) by auto
      ultimately show ?thesis using l(2,3) test(2) p(2,3) bl(3)
        by (intro exI [of _ "[cl]"] exI) auto
    qed
  qed
qed

lemma ComputeEqualityFactor_ok:
  assumes ok: "st_ok tb a st" and pos1: "pos_in tb (is_banks st) pos1 c i" and pos2: "pos_in tb (is_banks st) pos2 c j"
    and lits: "EqnIsPositive (literals c ! i)" "EqnIsMaximal (literals c ! i)" "EqnIsPositive (literals c ! j)"
      "EqnIsOriented (literals c ! i) \<longrightarrow> cp_side pos1 = LeftSide"
    and cls: "pstack_ok cls" and o: "to_state o0 ocb"
    and F: "factor_ord lim o0 tb (literals c)
      {(side_term (literals c ! i) (cp_side pos1), side_term (literals c ! j) (cp_side pos2))}"
  shows "\<exists>ho' cls' ocb' st' new. ComputeEqualityFactor lf mu tb lim ocb pos1 pos2 a ho cls st = Some (ho', cls', ocb', st') \<and>
    to_state o0 ocb' \<and> st_ok tb a st' \<and> st_le st st' \<and> pstack_ok cls' \<and> pstack_list cls' = pstack_list cls @ new \<and>
    eq_factors o0 tb (literals c) i (cp_side pos1) j (cp_side pos2) new \<and>
    (\<forall>cl \<in> set new. \<forall>e \<in> set (literals cl). lit_in tb (is_banks st') e)"
proof -
  let ?L = "literals c" and ?sd1 = "cp_side pos1" and ?sd2 = "cp_side pos2"
  let ?e1 = "?L ! i" and ?e2 = "?L ! j"
  let ?mx = "side_term ?e1 ?sd1" and ?w = "side_term ?e2 ?sd2"
  note P1 = pos_inD [OF pos1] and P2 = pos_inD [OF pos2] and T1 = pos_terms [OF pos1] and T2 = pos_terms [OF pos2]
  note S1 = side_in_bank [OF P1(6)] and S2 = side_in_bank [OF P2(6)]
  have none: "is_binds st = (\<lambda>_. None)" and inf: "inf_ok tb a (is_banks st)" using ok by (simp_all add: st_ok_def)
  have s: "pstack_ok SubstAlloc" "pstack_list SubstAlloc = []" "PStackGetSP SubstAlloc = 0"
    by (simp_all add: SubstAlloc_def) (simp add: PStackGetSP_def PStackAlloc_def)
  have equ: "EqnIsEquLit e = Some (EqnQueryProp e EPIsEquLiteral)" if "lit_in tb (is_banks st) e" for e
    using EqnIsEquLit_ok lit_inD(2) [OF that] by (simp add: lit_normal_def)
  let ?app = "(TermIsFreeVar ?mx \<longrightarrow> EqnQueryProp ?e2 EPIsEquLiteral) \<and> (TermIsFreeVar ?w \<longrightarrow> EqnQueryProp ?e1 EPIsEquLiteral)"
  define run where "run = (if ?app
     then do { unif_iter \<leftarrow> CSUIterInit ?mx ?w SubstAlloc;
               (unif_iter, subst, subst_is_ho, res_clauses, ocb, st) \<leftarrow>
                 eq_factor_loop lf mu tb lim pos1 pos2 a unif_iter SubstAlloc ho cls ocb st;
               (subst, b) \<leftarrow> CSUIterDestroy unif_iter subst (is_binds st);
               Some (subst, subst_is_ho, res_clauses, ocb, st\<lparr>is_binds := b\<rparr>) }
     else Some (SubstAlloc, ho, cls, ocb, st))"
  have code: "ComputeEqualityFactor lf mu tb lim ocb pos1 pos2 a ho cls st =
      do { (subst, subst_is_ho, res_clauses, ocb, st) \<leftarrow> run; st \<leftarrow> SubstDelete subst st; Some (subst_is_ho, res_clauses, ocb, st) }"
    unfolding ComputeEqualityFactor_def run_def
    using P1(5) P2(5) T1(1) T2(1) lits equ [OF P1(6)] equ [OF P2(6)] by auto
  show ?thesis
  proof (cases ?app)
    case False
    have notbool: "t_type u \<noteq> t_type (true_term tb)" if "TermIsFreeVar u" "in_bank tb (is_banks st) u" for u
      using not_bool_var in_bankD(1) [OF that(2)] that(1) by blast
    have bool: "t_type (side_term e sd) = t_type (true_term tb)"
      if "lit_in tb (is_banks st) e" "\<not> EqnQueryProp e EPIsEquLiteral" for e sd
      using lit_inD(1,2,5) [OF that(1)] that(2) by (auto simp: lit_normal_def equ_ok_def lit_sorted_def side_term_def)
    have "t_type ?mx \<noteq> t_type ?w"
      using False notbool S1(1) S2(1) bool [OF P1(6)] bool [OF P2(6)] by metis
    then have "\<not> unifiable tb {(?mx, ?w)}" using unify_types S1(1) S2(1) by blast
    then have "eq_factors o0 tb ?L i ?sd1 j ?sd2 []" by (simp add: eq_factors_def Let_def)
    moreover have "SubstDelete SubstAlloc st = Some st" using st_run_delete [OF st_ok_run [OF ok s(1,2)]] none by simp
    then have "ComputeEqualityFactor lf mu tb lim ocb pos1 pos2 a ho cls st = Some (ho, cls, ocb, st)"
      unfolding code run_def if_not_P [OF False] by simp
    ultimately show ?thesis using ok o cls by auto
  next
    case True
    obtain it where it: "CSUIterInit ?mx ?w SubstAlloc = Some it" "csu_new ?mx ?w it" using CSUIterInit_new [OF s(3)] by blast
    obtain it1 s1 ho1 cls1 ocb1 st1 new where L: "eq_factor_loop lf mu tb lim pos1 pos2 a it SubstAlloc ho cls ocb st =
        Some (it1, s1, ho1, cls1, ocb1, st1)" "init_pos it1 = 0" "to_state o0 ocb1" "st_run tb a st s1 st1" "pstack_ok cls1"
      "pstack_list cls1 = pstack_list cls @ new" "eq_factors o0 tb ?L i ?sd1 j ?sd2 new"
      "\<forall>cl \<in> set new. \<forall>e \<in> set (literals cl). lit_in tb (is_banks st1) e"
      using eq_factor_loop_ok [OF ok pos1 pos2 it(2) s(1,2) cls o F] by blast
    have tr: "trail (\<lambda>_. None) [] (is_binds st1) s1" using L(4) by (simp add: st_run_def)
    obtain s2 where d: "CSUIterDestroy it1 s1 (is_binds st1) = Some (s2, \<lambda>_. None)" "pstack_ok s2" "pstack_list s2 = []"
      using CSUIterDestroy_ok [OF L(2) tr] by blast
    define st2 where "st2 = st1\<lparr>is_binds := \<lambda>_. None\<rparr>"
    have D: "SubstDelete s2 st2 = Some st2" "st_ok tb a st2" "st_le st st2" "is_banks st2 = is_banks st1"
      using st_run_delete [OF st_run_none [OF L(4) d(2,3)]] by (simp_all add: st2_def)
    have "ComputeEqualityFactor lf mu tb lim ocb pos1 pos2 a ho cls st = Some (ho1, cls1, ocb1, st2)"
      unfolding code run_def using True it(1) L(1) d(1) D(1) by (simp flip: st2_def)
    then show ?thesis using D L(3,5-8) by auto
  qed
qed

lemma eq_factors_sound:
  assumes "eq_factors o0 tb lits i sd1 j sd2 cls" and "cl \<in> set cls" and ij: "i < length lits" "j < length lits" "i \<noteq> j"
    and pos: "EqnIsPositive (lits ! i)" "EqnIsPositive (lits ! j)"
    and lits: "\<forall>e \<in> set lits. lit_in tb bks e"
  shows "entails ty tb {lits} (literals cl)"
  unfolding entails_def valid_in_def
proof (intro allI impI)
  fix I :: "'a interp" and \<alpha>
  assume I: "interp_ok tb I" and C: "\<forall>C \<in> {lits}. \<forall>\<alpha>. value_ok tb I \<alpha> \<longrightarrow> clause_true I \<alpha> C" and val: "value_ok tb I \<alpha>"
  let ?mx = "side_term (lits ! i) sd1" and ?mn = "other_term (lits ! i) sd1"
    and ?w = "side_term (lits ! j) sd2" and ?o = "other_term (lits ! j) sd2"
  obtain b where b: "unifier_of tb {(?mx, ?w)} b" "eq_factor_clause tb b lits i ?mn j ?o cl"
    using assms(1,2) by (auto simp: eq_factors_def Let_def split: if_splits)
  obtain \<rho> n h where f: "renaming_on (tb_sig tb) \<rho> (lit_vars b (list_except lits (Some j)))" "eqn_bank h = tb" "\<not> EqnIsPositive h"
    "{lterm h, rterm h} = {inst (\<lambda>v. inst \<rho> (sigma b v)) ?mn, inst (\<lambda>v. inst \<rho> (sigma b v)) ?o}"
    "cl = fst (ClauseAlloc n (simplified (h # map (inst_lit (\<lambda>v. inst \<rho> (sigma b v))) (list_except lits (Some i)))))"
    using b(2) by (auto simp: eq_factor_clause_def Let_def)
  have sw: "subst_wf (tb_sig tb) b" and uni: "sigma b ?mx = sigma b ?w" using b(1) by (simp_all add: unifier_of_def)
  define \<beta> where "\<beta> = (\<lambda>v. eval I \<alpha> (inst \<rho> (sigma b v)))"
  note V = instance_value [OF sw f(1) I val, folded \<beta>_def]
  have inl: "lit_in tb bks (lits ! i)" "lit_in tb bks (lits ! j)" using lits ij by simp_all
  have wf: "wf_term (tb_sig tb) ?mx" "wf_term (tb_sig tb) ?w"
    using in_bankD(2) side_in_bank(1) [OF inl(1)] side_in_bank(1) [OF inl(2)] by blast+
  have eq: "eval I \<beta> ?mx = eval I \<beta> ?w" using V(3) [OF wf uni] .
  have bank: "\<forall>e \<in> set (h # map (inst_lit (\<lambda>v. inst \<rho> (sigma b v))) (list_except lits (Some i))). eqn_bank e = tb"
    using lits lit_inD(5) [of tb bks] set_list_except [of lits "Some i"] f(2) by auto
  have tr: "clause_true I \<alpha> (literals cl) \<longleftrightarrow> lit_true I \<alpha> h \<or> clause_true I \<beta> (list_except lits (Some i))"
    unfolding f(5) simplified_clause_true [OF I bank] by (auto simp: clause_true_def lit_true_inst \<beta>_def)
  have hv: "lit_true I \<alpha> h \<longleftrightarrow> eval I \<beta> ?mn \<noteq> eval I \<beta> ?o"
    using f(3,4) V(2) by (auto simp: lit_true_def doubleton_eq_iff)
  have sides: "lit_true I \<beta> e \<longleftrightarrow> eval I \<beta> (side_term e sd) = eval I \<beta> (other_term e sd)" if "EqnIsPositive e" for e sd
    using that by (auto simp: lit_true_def side_term_def other_term_def)
  obtain e where e: "e \<in> set lits" "lit_true I \<beta> e" using C V(1) by (auto simp: clause_true_def)
  show "clause_true I \<alpha> (literals cl)"
  proof (cases "e = lits ! i")
    case False
    then show ?thesis using list_except_mem [OF e(1) ij(1)] e(2) tr by (auto simp: clause_true_def)
  next
    case True
    then have i: "eval I \<beta> ?mx = eval I \<beta> ?mn" using e(2) sides [OF pos(1)] by simp
    have "lit_true I \<beta> (lits ! j)" if "\<not> lit_true I \<alpha> h"
      using that hv i eq sides [OF pos(2), of sd2] by simp
    then show ?thesis using tr list_except_nth [OF ij(2,1)] ij(3) by (auto simp: clause_true_def)
  qed
qed

section \<open>The enumeration of sides for equality factors\<close>

definition eq_partners :: "Eqn list \<Rightarrow> nat \<Rightarrow> nat \<Rightarrow> nat list" where
  "eq_partners lits i j = [k \<leftarrow> lits_from EqnIsPositive lits j. k \<noteq> i]"

definition side_pairs :: "Eqn list \<Rightarrow> nat \<times> int \<Rightarrow> nat \<Rightarrow> (nat \<times> int \<times> nat \<times> int) list" where
  "side_pairs lits s j = concat (map (\<lambda>k. [(fst s, snd s, k, LeftSide), (fst s, snd s, k, RightSide)]) (eq_partners lits (fst s) j))"

text \<open>All pairs for a list of sides, and those that come after one.\<close>

definition all_pairs :: "Eqn list \<Rightarrow> (nat \<times> int) list \<Rightarrow> (nat \<times> int \<times> nat \<times> int) list" where
  "all_pairs lits sides = concat (map (\<lambda>s. side_pairs lits s 0) sides)"

definition pairs_after :: "Eqn list \<Rightarrow> nat \<Rightarrow> int \<Rightarrow> nat \<Rightarrow> int \<Rightarrow> (nat \<times> int \<times> nat \<times> int) list" where
  "pairs_after lits i sd1 j sd2 = (if sd2 = LeftSide then [(i, sd1, j, RightSide)] else []) @
     side_pairs lits (i, sd1) (Suc j) @ all_pairs lits (sides_after True lits i sd1)"

lemma eq_partners_cases:
  "eq_partners lits i j = [] \<or>
    (\<exists>k. eq_partners lits i j = k # eq_partners lits i (Suc k) \<and> k \<noteq> i \<and> k < length lits \<and> EqnIsPositive (lits ! k))"
proof (induction "length lits - j" arbitrary: j)
  case 0
  then show ?case by (simp add: eq_partners_def lits_from_end)
next
  case (Suc n)
  have "eq_partners lits i j = (if EqnIsPositive (lits ! j) \<and> j \<noteq> i then [j] else []) @ eq_partners lits i (Suc j)"
    using Suc.hyps(2) lits_from_step [of j lits EqnIsPositive] by (simp add: eq_partners_def)
  moreover have "j < length lits" "n = length lits - Suc j" using Suc.hyps(2) by simp_all
  ultimately show ?case using Suc.hyps(1) [of "Suc j"] by (cases "EqnIsPositive (lits ! j) \<and> j \<noteq> i") simp_all
qed

lemma find_partner:
  assumes "cp_literal pos1 = Some i" and "cp_clause pos2 = Some c" and "cp_literal pos2 = lit_at (length (literals c)) j"
  shows "find_next_potential_eq_factor_partner pos1 pos2 =
    Some (first_of (eq_partners (literals c) i j), pos2\<lparr>cp_literal := first_of (eq_partners (literals c) i j)\<rparr>)"
proof -
  let ?L = "literals c"
  have find: "ClausePosFindPosLiteral p False = Some (p\<lparr>cp_literal := first_of (lits_from EqnIsPositive ?L k)\<rparr>)"
    if "cp_clause p = Some c" "cp_literal p = lit_at (length ?L) k" for p k
    using find_literal_ok [OF that, of EqnIsPositive] by (simp add: ClausePosFindPosLiteral_def)
  note F = find [OF assms(2,3)]
  show ?thesis
  proof (cases "lits_from EqnIsPositive ?L j")
    case Nil
    then show ?thesis using F assms(1) by (simp add: find_next_potential_eq_factor_partner_def eq_partners_def)
  next
    case (Cons k rest)
    then have k: "rest = lits_from EqnIsPositive ?L (Suc k)" "k < length ?L" using lits_from_cases [of EqnIsPositive ?L j] by auto
    show ?thesis
    proof (cases "k = i")
      case False
      then show ?thesis using F assms(1) Cons by (simp add: find_next_potential_eq_factor_partner_def eq_partners_def)
    next
      case True
      let ?p = "pos2\<lparr>cp_literal := Some k\<rparr>"
      have "cp_next ?p = Some (pos2\<lparr>cp_literal := lit_at (length ?L) (Suc k)\<rparr>)"
        using cp_next_at [of ?p c k] assms(2) k(2) by simp
      moreover have "ClausePosFindPosLiteral (pos2\<lparr>cp_literal := lit_at (length ?L) (Suc k)\<rparr>) False =
          Some (pos2\<lparr>cp_literal := first_of rest\<rparr>)"
        using find [of "pos2\<lparr>cp_literal := lit_at (length ?L) (Suc k)\<rparr>" "Suc k"] assms(2) k(1) by simp
      moreover have "eq_partners ?L i j = rest"
      proof -
        have "\<forall>x \<in> set rest. x \<noteq> i" using lits_from_less [of _ EqnIsPositive ?L "Suc k"] k(1) True by fastforce
        then show ?thesis using Cons True by (simp add: eq_partners_def)
      qed
      ultimately show ?thesis using F assms(1) Cons True by (simp add: find_next_potential_eq_factor_partner_def)
    qed
  qed
qed

definition quad_at :: "Clause \<Rightarrow> nat \<Rightarrow> int \<Rightarrow> nat \<Rightarrow> int \<Rightarrow> ClausePos \<Rightarrow> ClausePos \<Rightarrow> bool" where
  "quad_at c i sd1 j sd2 pos1 pos2 \<longleftrightarrow> side_at c i sd1 pos1 \<and> cp_clause pos2 = Some c \<and> cp_literal pos2 = Some j \<and>
     j < length (literals c) \<and> cp_side pos2 = sd2"

text \<open>The two literals are different and positive, the first one is maximal and its side is maximal in it.\<close>

definition quad_ok :: "Eqn list \<Rightarrow> nat \<Rightarrow> int \<Rightarrow> nat \<Rightarrow> int \<Rightarrow> bool" where
  "quad_ok lits i sd1 j sd2 \<longleftrightarrow> i \<noteq> j \<and> max_lit True (lits ! i) \<and> (EqnIsOriented (lits ! i) \<longrightarrow> sd1 = LeftSide) \<and>
     EqnIsPositive (lits ! j)"

definition found_quad :: "Clause \<Rightarrow> (nat \<times> int \<times> nat \<times> int) list \<Rightarrow> (nat option \<times> ClausePos \<times> ClausePos) option \<Rightarrow> bool" where
  "found_quad c quads r \<longleftrightarrow> (case quads of
     [] \<Rightarrow> (\<exists>pos1 pos2. r = Some (None, pos1, pos2))
   | (i, sd1, j, sd2) # rest \<Rightarrow> (\<exists>pos1 pos2. r = Some (Some j, pos1, pos2) \<and> quad_at c i sd1 j sd2 pos1 pos2 \<and>
       quad_ok (literals c) i sd1 j sd2 \<and> (sd2 = LeftSide \<or> sd2 = RightSide) \<and> rest = pairs_after (literals c) i sd1 j sd2))"

lemma sides_from_max: "s \<in> set (sides_from True lits i) \<Longrightarrow> fst s < length lits \<and> max_lit True (lits ! fst s) \<and>
    (EqnIsOriented (lits ! fst s) \<longrightarrow> snd s = LeftSide)"
  using lits_from_less [of _ "max_lit True" lits i] by (auto simp: sides_from_def max_sides_def split: if_splits)

lemma sides_after_max:
  "s \<in> set (sides_after True lits i sd) \<Longrightarrow> i < length lits \<Longrightarrow> max_lit True (lits ! i) \<Longrightarrow>
    fst s < length lits \<and> max_lit True (lits ! fst s) \<and> (EqnIsOriented (lits ! fst s) \<longrightarrow> snd s = LeftSide)"
  using sides_from_max [of s lits "Suc i"] by (auto simp: sides_after_def split: if_splits)

lemma no_partner_pairs:
  assumes "eq_partners lits i 0 = []" and "\<forall>s \<in> set sides. fst s < length lits \<and> EqnIsPositive (lits ! fst s)"
  shows "all_pairs lits sides = []"
proof -
  have all: "k = i" if "k < length lits" "EqnIsPositive (lits ! k)" for k
  proof (rule ccontr)
    assume "k \<noteq> i"
    then have "k \<in> set (eq_partners lits i 0)" using that by (simp add: eq_partners_def lits_from_def)
    then show False using assms(1) by simp
  qed
  have "side_pairs lits s 0 = []" if "s \<in> set sides" for s
  proof -
    have "fst s = i" using all assms(2) that by blast
    then show ?thesis using assms(1) by (simp add: side_pairs_def)
  qed
  then show ?thesis by (simp add: all_pairs_def)
qed

text \<open>The first partner for the first of some sides.\<close>

lemma first_partner_ok:
  assumes "side_at c i sd pos1" and "max_lit True (literals c ! i)" and "EqnIsOriented (literals c ! i) \<longrightarrow> sd = LeftSide"
    and "sides = (i, sd) # sides_after True (literals c) i sd"
  shows "found_quad c (all_pairs (literals c) sides)
    (do { (lit, pos2) \<leftarrow> find_first_eq_factor_partner pos1 pos2; Some (lit, pos1, pos2) })"
proof -
  let ?L = "literals c"
  have at: "cp_clause pos1 = Some c" "cp_literal pos1 = Some i" "i < length ?L" "cp_side pos1 = sd"
    using assms(1) by (simp_all add: side_at_def)
  have lit: "cp_lit pos1 = Some (?L ! i)" "EqnIsPositive (?L ! i)" "EqnIsMaximal (?L ! i)"
    using at assms(2) by (simp_all add: cp_lit_def max_lit_def)
  let ?p = "pos2\<lparr>cp_clause := Some c, cp_literal := first_literal c, cp_side := LeftSide, cp_pos := PStackReset (cp_pos pos2)\<rparr>"
  have find: "find_first_eq_factor_partner pos1 pos2 =
      Some (first_of (eq_partners ?L i 0), ?p\<lparr>cp_literal := first_of (eq_partners ?L i 0)\<rparr>)"
    using find_partner [OF at(2), of ?p c 0] at(1) lit by (simp add: find_first_eq_factor_partner_def first_literal_at)
  show ?thesis
  proof (cases "eq_partners ?L i 0")
    case Nil
    have "\<forall>s \<in> set sides. fst s < length ?L \<and> EqnIsPositive (?L ! fst s)"
      using sides_after_max [OF _ at(3) assms(2)] at(3) lit(2) unfolding assms(4) max_lit_def by auto
    then show ?thesis using no_partner_pairs [OF Nil] find Nil by (simp add: found_quad_def)
  next
    case (Cons k rest)
    then have k: "rest = eq_partners ?L i (Suc k)" "k \<noteq> i" "k < length ?L" "EqnIsPositive (?L ! k)"
      using eq_partners_cases [of ?L i 0] by auto
    have "all_pairs ?L sides = (i, sd, k, LeftSide) # pairs_after ?L i sd k LeftSide"
      using Cons k(1) by (simp add: assms(4) all_pairs_def side_pairs_def pairs_after_def)
    then show ?thesis
      using find Cons k assms(1-3) by (auto simp: found_quad_def quad_at_def quad_ok_def)
  qed
qed

lemma ClausePosFirstEqualityFactorSides_ok:
  assumes "pstack_ok (cp_pos pos1)"
  shows "found_quad c (all_pairs (literals c) (sides_from True (literals c) 0)) (ClausePosFirstEqualityFactorSides c pos1 pos2)"
proof -
  let ?L = "literals c" and ?p = "pos1\<lparr>cp_clause := Some c, cp_literal := first_literal c\<rparr>"
  have f: "found_side True c (sides_from True ?L 0) (ClausePosFindFirstMaximalSide ?p True)"
    by (rule ClausePosFindFirstMaximalSide_ok) (use assms in \<open>simp_all add: first_literal_at\<close>)
  show ?thesis
  proof (cases "sides_from True ?L 0")
    case Nil
    then show ?thesis using f by (auto simp: found_side_def found_quad_def all_pairs_def ClausePosFirstEqualityFactorSides_def)
  next
    case (Cons s rest)
    then obtain i sd where s: "s = (i, sd)" by (cases s)
    obtain pos where r: "ClausePosFindFirstMaximalSide ?p True = Some (Some (side_term (?L ! i) sd), pos)" "side_at c i sd pos"
      "rest = sides_after True ?L i sd" using f Cons s by (auto simp: found_side_def)
    have m: "max_lit True (?L ! i)" "EqnIsOriented (?L ! i) \<longrightarrow> sd = LeftSide"
      using sides_from_max [of s ?L 0] Cons s by auto
    show ?thesis
      using first_partner_ok [OF r(2) m, of "sides_from True ?L 0" pos2] Cons s r(1,3)
      by (simp add: ClausePosFirstEqualityFactorSides_def)
  qed
qed

lemma ClausePosNextEqualityFactorSides_ok:
  assumes at: "quad_at c i sd1 j sd2 pos1 pos2" and ok: "quad_ok (literals c) i sd1 j sd2" and sd2: "sd2 = LeftSide \<or> sd2 = RightSide"
  shows "found_quad c (pairs_after (literals c) i sd1 j sd2) (ClausePosNextEqualityFactorSides pos1 pos2)"
proof (cases "sd2 = LeftSide")
  case True
  have "pairs_after (literals c) i sd1 j sd2 = (i, sd1, j, RightSide) # pairs_after (literals c) i sd1 j RightSide"
    using True by (simp add: pairs_after_def LeftSide_def RightSide_def)
  then show ?thesis using at ok True
    by (auto simp: found_quad_def quad_at_def quad_ok_def ClausePosNextEqualityFactorSides_def)
next
  case False
  let ?L = "literals c"
  have A: "side_at c i sd1 pos1" "cp_literal pos1 = Some i" "i < length ?L" "cp_clause pos2 = Some c" "cp_literal pos2 = Some j"
    "j < length ?L" "cp_side pos2 = sd2" using at by (simp_all add: quad_at_def side_at_def)
  have ok': "max_lit True (?L ! i)" "EqnIsOriented (?L ! i) \<longrightarrow> sd1 = LeftSide" using ok by (simp_all add: quad_ok_def)
  let ?p = "pos2\<lparr>cp_side := LeftSide, cp_literal := lit_at (length ?L) (Suc j)\<rparr>"
  have nxt: "cp_next (pos2\<lparr>cp_side := LeftSide\<rparr>) = Some ?p"
    using cp_next_at [of "pos2\<lparr>cp_side := LeftSide\<rparr>" c j] A by simp
  have find: "find_next_potential_eq_factor_partner pos1 ?p =
      Some (first_of (eq_partners ?L i (Suc j)), ?p\<lparr>cp_literal := first_of (eq_partners ?L i (Suc j))\<rparr>)"
    using find_partner [OF A(2), of ?p c "Suc j"] A(4) by simp
  note run = ClausePosNextEqualityFactorSides_def [of pos1 pos2]
  show ?thesis
  proof (cases "eq_partners ?L i (Suc j)")
    case (Cons k rest)
    then have k: "rest = eq_partners ?L i (Suc k)" "k \<noteq> i" "k < length ?L" "EqnIsPositive (?L ! k)"
      using eq_partners_cases [of ?L i "Suc j"] by auto
    have "pairs_after ?L i sd1 j sd2 = (i, sd1, k, LeftSide) # pairs_after ?L i sd1 k LeftSide"
      using Cons k(1) False by (simp add: pairs_after_def side_pairs_def)
    then show ?thesis using run A False nxt find Cons k ok'
      by (auto simp: found_quad_def quad_at_def quad_ok_def)
  next
    case Nil
    let ?p2 = "?p\<lparr>cp_literal := None\<rparr>"
    have f: "found_side True c (sides_after True ?L i sd1) (ClausePosFindNextMaximalSide pos1 True)"
      by (rule ClausePosFindNextMaximalSide_ok [OF A(1)])
    have pa: "pairs_after ?L i sd1 j sd2 = all_pairs ?L (sides_after True ?L i sd1)"
      using Nil False by (simp add: pairs_after_def side_pairs_def)
    show ?thesis
    proof (cases "sides_after True ?L i sd1")
      case n: Nil
      then show ?thesis using f pa run A False nxt find Nil by (auto simp: found_side_def found_quad_def all_pairs_def)
    next
      case (Cons s rest)
      then obtain k sd where s: "s = (k, sd)" by (cases s)
      obtain pos where r: "ClausePosFindNextMaximalSide pos1 True = Some (Some (side_term (?L ! k) sd), pos)" "side_at c k sd pos"
        "rest = sides_after True ?L k sd" using f Cons s by (auto simp: found_side_def)
      have m: "max_lit True (?L ! k)" "EqnIsOriented (?L ! k) \<longrightarrow> sd = LeftSide"
        using sides_after_max [of s ?L i sd1] A(3) ok'(1) Cons s by auto
      have "ClausePosNextEqualityFactorSides pos1 pos2 =
          (do { (lit, pos2) \<leftarrow> find_first_eq_factor_partner pos ?p2; Some (lit, pos, pos2) })"
        using run A False nxt find Nil r(1) by simp
      then show ?thesis using first_partner_ok [OF r(2) m, of "s # rest" ?p2] pa Cons s r(3) by simp
    qed
  qed
qed

end
