(* ===== verification/AllFactors.thy ===== *)
theory AllFactors
  imports EqFactoring ClauseSets
begin

text \<open>
  All factors of a clause (\<open>CONTROL/cco_factoring.c\<close>): the loops over the pairs of literals and of sides,
  what they store, and that it follows from the clause.
\<close>

section \<open>The code\<close>






section \<open>Horn clauses have no factors\<close>




section \<open>All ordered factors\<close>

definition new_factors :: "Clause option list \<Rightarrow> Clause list" where
  "new_factors news = concat (map (\<lambda>r. case r of None \<Rightarrow> [] | Some cl \<Rightarrow> [cl]) news)"

lemma new_factors_simps [simp]: "new_factors [] = []"
  "new_factors (r # news) = (case r of None \<Rightarrow> [] | Some cl \<Rightarrow> [cl]) @ new_factors news"
  by (simp_all add: new_factors_def)






section \<open>All equality factors\<close>






section \<open>Factors follow from the clause\<close>





section \<open>Properties\<close>

text \<open>A clause with two maximal equations, and an ordering for it.\<close>

definition fac_lit :: "Term_p \<Rightarrow> Eqn" where
  "fac_lit x = (res_lit True x (sample_g x))\<lparr>eqn_properties := 11\<rparr>"











lemma fac_lit_simps [simp]: "lterm (fac_lit x) = x" "rterm (fac_lit x) = sample_g x" "EqnIsPositive (fac_lit x)" "EqnIsMaximal (fac_lit x)"
  "\<not> EqnIsOriented (fac_lit x)" "\<not> EqnIsSelected (fac_lit x)" "\<not> EqnQueryProp (fac_lit x) EPPseudoLit"
  by (simp_all add: fac_lit_def res_lit_def EqnIsPositive_def EqnIsMaximal_def EqnIsOriented_def EqnIsSelected_def EqnQueryProp_def EP_defs)












end
