(* ===== verification/Spec2Isabelle.thy ===== *)
theory Spec2Isabelle
  imports PStacks PQueues MinHeap PTrees NumTrees PDRangeArrs IntMap UnitSubsumption VarScopes PrecedenceClosure
    EqnResolving AllFactors
begin

text \<open>
  A verification library for the C core of this repository: the saturation prover E under
  \<open>src/workflows/example-solvers/e/\<close>, in its first-order build (\<open>ENABLE_LFHO\<close> undefined, assertions
  on). Paths below are relative to that directory. The rest of the repository is a web application and
  scripts that run vendored solvers.

  The program. E proves by saturation: clauses are kept in sorted, indexed sets, compared by a
  reduction ordering, simplified by subsumption, and resolved with each other by unification. The
  library models the chain of components below that loop, bottom up; each part uses the ones before.

  \<^item> Containers, \<open>BASICS/\<close>. Theories \<open>PStacks\<close> (\<open>clb_pstacks\<close>), \<open>PQueues\<close> (\<open>clb_pqueue\<close>),
    \<open>PLocalStacks\<close> (\<open>clb_plocalstacks.h\<close>), \<open>PDArrays\<close> (\<open>clb_pdarrays\<close>), \<open>PDRangeArrs\<close>
    (\<open>clb_pdrangearrays\<close>), \<open>MinHeap\<close> (\<open>clb_min_heap\<close> and the tasks of \<open>CLAUSES/ccl_bce.c\<close>),
    \<open>SplayTrees\<close> (the algorithm that four modules instantiate), \<open>ObjTrees\<close>, \<open>PTrees\<close>, \<open>NumTrees\<close>
    (\<open>clb_objtrees\<close>, \<open>clb_ptrees\<close>, \<open>clb_numtrees\<close>, \<open>clb_stringtrees\<close>) and \<open>IntMap\<close> (\<open>clb_intmap\<close>, which
    switches between an array and a tree). Each has a representation predicate (\<open>pstack_ok\<close>,
    \<open>pqueue_ok\<close>, \<open>is_heap\<close>, \<open>tree_ok\<close>, \<open>im_ok\<close>, ...), an abstract value (a list, a set, a map), and a lemma per
    operation that the representation is kept and the abstract value changes as it should; growing,
    splaying and switching the representation are invisible.
  \<^item> Terms, \<open>TERMS/\<close>. \<open>Terms\<close> (\<open>cte_termtypes.h\<close>, \<open>cte_termfunc.c\<close>): cells, bindings, dereferencing
    and copying; \<open>sigma b\<close> is the substitution that following all bindings means. \<open>TermEquality\<close>:
    equality under bindings. \<open>Substs\<close> (\<open>cte_subst\<close>): the stack of bound variables; \<open>trail\<close> is the
    invariant that makes backtracking exact. \<open>Unification\<close> and \<open>Matching\<close> (\<open>cte_match_mgu_1-1.c\<close>):
    both decide their problem and compute a most general, or the only, solution. \<open>VarHash\<close>
    (\<open>cte_varhash\<close>): counting variable occurrences. \<open>VarBanks\<close> and \<open>VarScopes\<close>
    (\<open>cte_termvars\<close>): the banks that hand out variable cells by code and type, fresh variables, the
    bank paired with a shadow bank, and the scopes of external names; \<open>vbs_ok\<close> is their invariant and
    \<open>vbs_ext\<close> says that later operations keep the cells handed out before.
    \<open>MguRange\<close>: which variables and subterms unification can put into bindings. \<open>SubstNorms\<close>: renaming to
    fresh variables; \<open>norm_inv\<close> is its invariant. \<open>TermBanks\<close> (\<open>cte_termbanks\<close>): the store of shared terms
    and the insertion of instances; a term stands for its shared cell, and \<open>inserts\<close> says what an
    insertion returns and keeps.
  \<^item> Orderings, \<open>ORDERINGS/\<close>. \<open>OCB\<close> and \<open>Precedences\<close> (\<open>cto_ocb\<close>): weights and precedence, as
    weights or as a matrix with an undo stack. \<open>PrecedenceClosure\<close> (with
    \<open>HEURISTICS/che_to_precgen.c\<close>): extending the matrix closes it transitively, so that a generated
    precedence is in the state (\<open>ocb_prec_ok\<close>) that the term orderings rely on. \<open>KnuthBendix\<close>, \<open>KBO_Correct\<close>, \<open>KBO_Order\<close>
    (\<open>cto_kbo.c\<close>): the code computes the textbook ordering, which is a reduction ordering. \<open>KBOLin\<close>,
    \<open>KBOLin_Balance\<close>, \<open>KBOLin_Walk\<close>, \<open>KBOLin_Correct\<close>, \<open>KBO6_Laws\<close> (\<open>cto_kbolin.c\<close>): the linear-time
    version with its scratch fields. \<open>LPO\<close>, \<open>LPO_Eval\<close>, \<open>LPO_Correct\<close>, \<open>LPO_Order\<close>, \<open>LPO_Laws\<close>
    (\<open>cto_lpo.c\<close>): four implementations of the path ordering with a recursion limit. \<open>TOrderings\<close>
    (\<open>cto_orderings.c\<close>): the interface, and termination of rewriting with oriented equations.
  \<^item> Literals and clauses, \<open>CLAUSES/\<close>. \<open>Equations\<close> and \<open>LiteralOrder\<close> (\<open>ccl_eqn\<close>): literals, their
    flags, orientation, and the literal ordering as a twofold multiset extension. \<open>EqnLists\<close>
    (\<open>ccl_eqnlist\<close>): orientation and maximality in a list. \<open>Clauses\<close> (\<open>ccl_clauses\<close>): counts, weight and
    sorting. \<open>Subsumption\<close>, \<open>SubsumptionCorrect\<close>, \<open>UnitSubsumption\<close> (\<open>ccl_subsumption.c\<close>): clause
    subsumption decides multiset subsumption, using matching, backtracking, sorting and orientation.
  \<^item> Inferences. \<open>EqnCopies\<close>: construction, copies and simplification of literals. \<open>ClausePositions\<close>
    (\<open>cte_termpos\<close>, \<open>ccl_clausepos\<close>): the search for literals, sides and subterms. \<open>Semantics\<close>: truth of
    clauses in many-sorted interpretations, and consequence (\<open>entails\<close>). \<open>Inferences\<close> and
    \<open>InferenceSteps\<close>: the invariant of banks and literals during an inference (\<open>inf_ok\<close>, \<open>lit_in\<close>, \<open>st_ok\<close>), the
    iterator over unifiers (\<open>cte_ho_csu.c\<close>), and \<open>conclusion\<close>, the specification of the clauses made: the
    instance of the literals under bindings and a renaming. \<open>EqResolution\<close>
    (\<open>ccl_eqnresolution.c\<close>), \<open>Factoring\<close> and \<open>EqFactoring\<close> (\<open>ccl_factor.c\<close>): equality resolution, ordered
    and equality factoring make exactly the resolvents and factors. Everything
    above is used there: unification on shared terms with backtracking, variable banks, the term bank,
    object trees for repeated literals, the literal ordering under a unifier.
  \<^item> The generating inferences of the saturation loop with one premise, \<open>CONTROL/\<close>. \<open>ClauseSets\<close>: properties
    of clauses and insertion into a set. \<open>EqnResolving\<close> (\<open>cco_eqnresolving.c\<close>) and \<open>AllFactors\<close>
    (\<open>cco_factoring.c\<close>): all inferences of a clause are made, once each, and all that is stored follows
    from the clause; resolving away disequations of variables keeps the meaning of a clause.
\<close>

section \<open>How the code is modelled\<close>

text \<open>
  \<^item> A function of the source is a definition of the same name, or of that name with a prefix where
    several modules use it (\<open>obj_splay_tree\<close>, \<open>heap_add\<close>); a loop is a definition of its own
    (\<open>mgu_loop\<close>, \<open>subsume_loop\<close>). What a function changes is passed to it and returned: the stack
    or tree, the bindings of variables (a map from variable cells to terms; in the source a field of
    the cell), the scratch fields of the ordering control block, a store of literals.
  \<^item> The value \<^const>\<open>None\<close> stands for a failing \<open>assert\<close>, the read of an uninitialised cell, an access out
    of a memory block, or a loop that does not end; every theorem that says \<open>= Some\<close> excludes all
    of these. Loops that might not end are \<open>partial_function (option)\<close>; that they end is proved.
    \<open>Prelude\<close> has the memory blocks (\<open>'a mem\<close>, cells that may be uninitialised) and \<open>c_assert\<close>.
  \<^item> Terms are shared in the source, so that equality of pointers is equality of terms; the model
    compares the terms. Addresses in pointer trees and arrays, and of literals whose flags change
    (\<open>EqnLists\<close>), are natural numbers.
  \<^item> Integers are unbounded where the source only counts cells of memory (stack sizes, weights of
    terms, counters of variables), and wrap where it subtracts keys: \<open>long_diff\<close> writes out the 64-bit
    two's complement result, and the lemmas on numeric trees carry the bound that keys differ by
    less than \<open>2^63\<close>. Function symbols are at most \<open>2^62\<close> (\<open>symbols\<close>), so that the comparison
    of two precedence weights does not overflow.
  \<^item> The recursion limit of the path orderings is the fuel of \<open>LPO_Eval\<close>: a limit of at least the
    sum of the heights of the two terms never shows, and below it the orderings only claim less
    (\<open>LPO_any_limit\<close>). The linear-time ordering is used with a precedence that decides all symbols
    (\<open>to_valid\<close>); what happens otherwise is the defect \<open>KBO6Compare_partial_precedence\<close>.
  \<^item> Allocation never fails, and freeing memory is not modelled. The sizes of range arrays are those of
    the code as long as an array covers fewer than \<open>2^63\<close> indices; iterating over an integer map from
    \<open>LONG_MIN\<close>, where the code overflows, is excluded (\<open>IntMap_iterate_sorted\<close>).
\<close>

section \<open>Interfaces\<close>

text \<open>
  Contracts that a client relies on are locales, interpreted on the definitions of the provider in
  its theory: stacks (\<open>lifo\<close>), queues (\<open>deque\<close>), growing arrays (\<open>dyn_array\<close>), the key comparison of the
  splay trees (\<open>key_order\<close>) and of the heaps (\<open>heap_order\<close>), comparisons of symbols (\<open>symbol_order\<close>), the
  laws of a precedence (\<open>lpo_order\<close>, \<open>kbo_order\<close>) from which the ordering properties follow once for each
  kind of control block, reduction orderings (\<open>reduction_order\<close>, from which termination of
  rewriting follows for the Knuth-Bendix and the path orderings), and strict relations
  (\<open>strict_rel\<close>, used twice: for terms, and for the multisets of terms that are literals).
  The specification of a control block \<open>ocb\<close> is \<open>to_gt ocb\<close>; \<open>to_state o0 ocb\<close> says that \<open>ocb\<close> is \<open>o0\<close> after
  comparisons that may have changed scratch fields. The theorems on orderings carry their conditions:
  admissible weights, for the linear-time ordering a precedence without incomparable symbols, terms
  within the recursion limit of the path orderings, and, for maximality and factoring, literals
  compared by the term ordering alone (\<open>LCNormal\<close>) and none of them selected. \<open>LiteralOrder\<close> describes the
  literal comparison in all configurations.
\<close>

section \<open>What is not modelled\<close>

text \<open>
  \<^item> The higher-order build, formulas and clausification, printing, parsing, proof objects and
    statistics counters.
  \<^item> The indices of clause sets (feature vectors, fingerprints, perfect
    discrimination trees), rewriting, paramodulation, and the saturation loop with its heuristics.
    A clause set is the list of its clauses, with the counts the code keeps.
    The searches of \<open>ccl_subsumption.c\<close> are modelled for sets without index.
  \<^item> Of term banks, garbage collection and the properties of cells other than \<open>TPPredPos\<close>, whose value
    the signature fixes for shared terms. A shared cell is the term it represents, so that the hash
    table of the source is a map from terms to entry numbers. Of the functions that insert terms,
    those without bindings or with replacement have no properties proved.
  \<^item> The enumeration of several unifiers (\<open>forward_iter\<close>), which only higher-order problems reach.
  \<^item> The other solvers of the repository (drodi, Vampire, cadical), which are separate vendored
    programs, and the Python and web parts, which are not C.
\<close>

end
